(* ===== verification/Wave_Prelude.thy ===== *)
theory Wave_Prelude
  imports Main "HOL-Library.Word" "HOL-Library.Monad_Syntax"
begin

text \<open>
  Shared vocabulary of the development: bytes and byte strings, big- and little-endian integer
  coding, slices and in-place writes, the panic monad, the bounded-output writer, and the
  interface locales the components are checked against.

  Conventions used by every component:
  \<^item> \<open>u8\<close>, \<open>u16\<close>, \<open>u32\<close>, \<open>u64\<close> are words of that width; \<open>usize\<close> is \<open>nat\<close>. A \<open>checked_add\<close> on
    \<open>usize\<close> whose result is then compared with a slice length is written as that comparison;
    lemma \<open>checked_add_then_bound\<close> shows that this is the same function for every pointer width
    at which the slice exists. Where the width is observable it is a parameter.
  \<^item> A slice \<open>&[u8]\<close> is a \<^typ>\<open>8 word list\<close>; an output slice \<open>&mut [u8]\<close> is passed in and its final
    contents returned, also on the failing paths.
  \<^item> An index or slice expression that a caller can drive out of range is read through \<open>at_idx\<close>
    or \<open>bslice_p\<close>, whose \<^const>\<open>None\<close> is the Rust panic; one that a guard of the same function
    keeps in range is written with the list operations directly.
\<close>

named_theorems wave_simps \<open>rewriting rules shared by the component proofs\<close>
named_theorems codec_simps \<open>integer and slice coding rules\<close>

type_synonym byte = "8 word"
type_synonym bytes = "byte list"
type_synonym u16 = "16 word"
type_synonym u32 = "32 word"
type_synonym u64 = "64 word"

section \<open>Byte-string literals\<close>

text \<open>\<open>b"..."\<close> of the source; control bytes are appended as numerals.\<close>

definition ascii :: "string \<Rightarrow> bytes" where
  "ascii s = map of_char s"

definition crlf :: bytes where
  "crlf = [13, 10]"

lemma length_ascii [simp]: "length (ascii s) = length s"
  by (simp add: ascii_def)

lemma length_crlf [simp]: "length crlf = 2"
  by (simp add: crlf_def)

text \<open>\<open>u8::is_ascii_digit\<close>, \<open>to_ascii_lowercase\<close>, \<open>eq_ignore_ascii_case\<close> and their kin.\<close>

definition is_ascii_digit :: "byte \<Rightarrow> bool" where
  "is_ascii_digit b \<longleftrightarrow> 48 \<le> b \<and> b \<le> 57"

definition is_ascii_upper :: "byte \<Rightarrow> bool" where
  "is_ascii_upper b \<longleftrightarrow> 65 \<le> b \<and> b \<le> 90"

definition is_ascii_lower :: "byte \<Rightarrow> bool" where
  "is_ascii_lower b \<longleftrightarrow> 97 \<le> b \<and> b \<le> 122"

definition is_ascii_alphabetic :: "byte \<Rightarrow> bool" where
  "is_ascii_alphabetic b \<longleftrightarrow> is_ascii_upper b \<or> is_ascii_lower b"

definition is_ascii_alphanumeric :: "byte \<Rightarrow> bool" where
  "is_ascii_alphanumeric b \<longleftrightarrow> is_ascii_alphabetic b \<or> is_ascii_digit b"

definition to_ascii_lowercase :: "byte \<Rightarrow> byte" where
  "to_ascii_lowercase b = (if is_ascii_upper b then b + 32 else b)"

definition to_ascii_uppercase :: "byte \<Rightarrow> byte" where
  "to_ascii_uppercase b = (if is_ascii_lower b then b - 32 else b)"

definition eq_ignore_ascii_case :: "bytes \<Rightarrow> bytes \<Rightarrow> bool" where
  "eq_ignore_ascii_case a b \<longleftrightarrow> map to_ascii_lowercase a = map to_ascii_lowercase b"

section \<open>Integers as bytes\<close>

text \<open>
  The value of a byte string read big-endian, and the \<open>n\<close>-byte big-endian string of a value
  (its low \<open>8 * n\<close> bits). \<open>to_be_bytes\<close> of a \<open>u16\<close> is \<open>be_bytes 2 (unat w)\<close>; \<open>from_be_bytes\<close> is
  \<open>of_nat (be_val bs)\<close>; the little-endian forms are the same on the reversed string.
\<close>

fun be_val :: "bytes \<Rightarrow> nat" where
  "be_val [] = 0"
| "be_val (b # bs) = unat b * 256 ^ length bs + be_val bs"

fun be_bytes :: "nat \<Rightarrow> nat \<Rightarrow> bytes" where
  "be_bytes 0 v = []"
| "be_bytes (Suc n) v = of_nat (v div 256 ^ n) # be_bytes n v"

definition le_val :: "bytes \<Rightarrow> nat" where
  "le_val b = be_val (rev b)"

definition le_bytes :: "nat \<Rightarrow> nat \<Rightarrow> bytes" where
  "le_bytes n v = rev (be_bytes n v)"

lemma length_be_bytes [simp]: "length (be_bytes n v) = n"
  by (induction n) auto

lemma length_le_bytes [simp]: "length (le_bytes n v) = n"
  by (simp add: le_bytes_def)

lemma byte_unat_less [simp]: "unat (b :: byte) < 256"
  using unsigned_less [of b] by simp

lemma be_val_less: "be_val b < 256 ^ length b"
proof (induction b)
  case Nil
  then show ?case by simp
next
  case (Cons x xs)
  have "unat x \<le> 255"
    using byte_unat_less [of x] by linarith
  then have "unat x * 256 ^ length xs \<le> 255 * 256 ^ length xs"
    by (rule mult_le_mono1)
  with Cons show ?case
    unfolding be_val.simps length_Cons power_Suc by linarith
qed

lemma le_val_less: "le_val b < 256 ^ length b"
  using be_val_less [of "rev b"] by (simp add: le_val_def)

lemma be_val_append [codec_simps]:
  "be_val (a @ b) = be_val a * 256 ^ length b + be_val b"
  by (induction a) (simp_all add: algebra_simps power_add)

lemma be_val_be_bytes: "be_val (be_bytes n v) = v mod 256 ^ n"
proof (induction n)
  case 0
  then show ?case by simp
next
  case (Suc n)
  have "v mod 256 ^ Suc n = v div 256 ^ n mod 256 * 256 ^ n + v mod 256 ^ n"
    using mod_mult2_eq [of v "256 ^ n" 256] by (simp add: algebra_simps)
  with Suc show ?case
    by (simp add: unat_of_nat)
qed

lemma be_bytes_mod: "be_bytes n (v mod 256 ^ n) = be_bytes n v"
proof -
  have "be_bytes k (v mod 256 ^ n) = be_bytes k v" if "k \<le> n" for k
    using that
  proof (induction k)
    case 0
    then show ?case by simp
  next
    case (Suc k)
    have "(256::nat) ^ n = 256 ^ k * 256 ^ (n - k)"
      using Suc.prems by (simp flip: power_add)
    then have "v mod 256 ^ n div 256 ^ k = v div 256 ^ k mod 256 ^ (n - k)"
      by (simp add: mod_mult2_eq)
    moreover have "(256::nat) dvd 256 ^ (n - k)"
      using Suc.prems by (simp add: dvd_power)
    ultimately have "v mod 256 ^ n div 256 ^ k mod 256 = v div 256 ^ k mod 256"
      by (simp add: mod_mod_cancel)
    then have "(of_nat (v mod 256 ^ n div 256 ^ k) :: byte) = of_nat (v div 256 ^ k)"
      by (simp add: word_of_nat_eq_iff take_bit_eq_mod)
    with Suc show ?case by simp
  qed
  then show ?thesis by simp
qed

lemma be_bytes_be_val: "be_bytes (length b) (be_val b) = b"
proof (induction b)
  case Nil
  then show ?case by simp
next
  case (Cons x xs)
  have "be_val (x # xs) div 256 ^ length xs = unat x"
    using be_val_less [of xs] by simp
  moreover have "be_val (x # xs) mod 256 ^ length xs = be_val xs"
    using be_val_less [of xs] by simp
  then have "be_bytes (length xs) (be_val (x # xs)) = xs"
    using Cons be_bytes_mod [of "length xs" "be_val (x # xs)"] by simp
  ultimately show ?case by simp
qed

lemma le_val_le_bytes: "le_val (le_bytes n v) = v mod 256 ^ n"
  by (simp add: le_val_def le_bytes_def be_val_be_bytes)

lemma le_bytes_le_val: "le_bytes (length b) (le_val b) = b"
  using be_bytes_be_val [of "rev b"] by (simp add: le_val_def le_bytes_def)

lemma be_val_be_bytes_small [codec_simps]: "v < 256 ^ n \<Longrightarrow> be_val (be_bytes n v) = v"
  by (simp add: be_val_be_bytes)

lemma le_val_le_bytes_small [codec_simps]: "v < 256 ^ n \<Longrightarrow> le_val (le_bytes n v) = v"
  by (simp add: le_val_le_bytes)

text \<open>\<open>from_be_bytes (to_be_bytes w) = w\<close> and its little-endian twin, for each width in use.\<close>

lemma unat_less_pow256:
  "unat (a :: u16) < 256 ^ 2" "unat (b :: u32) < 256 ^ 4" "unat (c :: u64) < 256 ^ 8"
  using unsigned_less [of a] unsigned_less [of b] unsigned_less [of c] by simp_all

lemma from_to_be_bytes [simp]:
  "(of_nat (be_val (be_bytes 2 (unat a))) :: u16) = a"
  "(of_nat (be_val (be_bytes 4 (unat b))) :: u32) = b"
  "(of_nat (be_val (be_bytes 8 (unat c))) :: u64) = c"
  using unat_less_pow256(1) [of a] unat_less_pow256(2) [of b] unat_less_pow256(3) [of c] by (simp_all add: be_val_be_bytes_small)

lemma from_to_le_bytes [simp]:
  "(of_nat (le_val (le_bytes 2 (unat a))) :: u16) = a"
  "(of_nat (le_val (le_bytes 4 (unat b))) :: u32) = b"
  "(of_nat (le_val (le_bytes 8 (unat c))) :: u64) = c"
  using unat_less_pow256(1) [of a] unat_less_pow256(2) [of b] unat_less_pow256(3) [of c] by (simp_all add: le_val_le_bytes_small)

lemma to_from_be_bytes:
  "length x = 2 \<Longrightarrow> be_bytes 2 (unat (of_nat (be_val x) :: u16)) = x"
  "length x = 4 \<Longrightarrow> be_bytes 4 (unat (of_nat (be_val x) :: u32)) = x"
  "length x = 8 \<Longrightarrow> be_bytes 8 (unat (of_nat (be_val x) :: u64)) = x"
  using be_val_less [of x] be_bytes_be_val [of x]
  by (simp_all add: unat_of_nat)

lemma to_from_le_bytes:
  "length x = 2 \<Longrightarrow> le_bytes 2 (unat (of_nat (le_val x) :: u16)) = x"
  "length x = 4 \<Longrightarrow> le_bytes 4 (unat (of_nat (le_val x) :: u32)) = x"
  "length x = 8 \<Longrightarrow> le_bytes 8 (unat (of_nat (le_val x) :: u64)) = x"
  using le_val_less [of x] le_bytes_le_val [of x]
  by (simp_all add: unat_of_nat)


text \<open>
  Shift-and-or accumulation, as the hand-written big-endian readers do it, is the positional
  value: no bit of the new byte meets a bit of the shifted accumulator.
\<close>

unbundle bit_operations_syntax

lemma unat_push_or:
  fixes acc :: "'a::len word"
  assumes "unat acc * 2 ^ k < 2 ^ LENGTH('a)" and "unat b < 2 ^ k"
  shows "unat (push_bit k acc OR b) = unat acc * 2 ^ k + unat b"
proof -
  have "take_bit LENGTH('a) (push_bit k (unat acc)) = push_bit k (unat acc)"
    using assms(1) by (simp add: take_bit_nat_eq_self_iff push_bit_eq_mult)
  then have push: "unat (push_bit k acc) = push_bit k (unat acc)"
    by (simp add: unsigned_push_bit_eq)
  have "take_bit k (unat b) = unat b"
    using assms(2) by (simp add: take_bit_nat_eq_self_iff)
  then have "bit (unat b) n \<Longrightarrow> n < k" for n
    by (metis bit_take_bit_iff)
  then have "push_bit k (unat acc) AND unat b = 0"
    by (fastforce intro: bit_eqI simp: bit_and_iff bit_push_bit_iff)
  then have "push_bit k (unat acc) OR unat b = push_bit k (unat acc) + unat b"
    by (rule disjunctive_add_eq_or [symmetric])
  then show ?thesis
    by (simp only: unsigned_or_eq push) (simp only: push_bit_eq_mult)
qed

text \<open>Masks and shifts over the numbers.\<close>

lemma and_low_mask [codec_simps]:
  fixes x :: "'a::len word"
  shows "x AND 3 = take_bit 2 x" "x AND 7 = take_bit 3 x" "x AND 15 = take_bit 4 x"
    "x AND 63 = take_bit 6 x" "x AND 127 = take_bit 7 x" "x AND 255 = take_bit 8 x"
  by (simp_all add: take_bit_eq_mask mask_eq_exp_minus_1)

lemma unat_take_bit [codec_simps]: "unat (take_bit k (x :: 'a::len word)) = unat x mod 2 ^ k"
  by (simp only: unsigned_take_bit_eq) (simp only: take_bit_eq_mod)

lemma unat_drop_bit [codec_simps]: "unat (drop_bit k (x :: 'a::len word)) = unat x div 2 ^ k"
proof -
  have "take_bit LENGTH('a) (unat x) = unat x"
    by (simp add: take_bit_nat_eq_self_iff)
  then show ?thesis
    by (simp only: unsigned_drop_bit_eq) (simp only: drop_bit_eq_div)
qed

lemma unat_of_nat_below: "n < 2 ^ LENGTH('a) \<Longrightarrow> unat (of_nat n :: 'a::len word) = n"
  by (simp add: unat_of_nat)

lemma unat_eqI: "unat a = unat b \<Longrightarrow> a = (b :: 'a::len word)"
  by (rule unsigned_word_eqI)

lemma unat_ucast_mod: "unat (ucast (x :: 'a::len word) :: 'b::len word) = unat x mod 2 ^ LENGTH('b)"
  by (simp only: unsigned_ucast_eq take_bit_eq_mod)

lemma take_bit_eq_self_unat: "take_bit k (x :: 'a::len word) = x \<longleftrightarrow> unat x < 2 ^ k"
proof
  assume "take_bit k x = x"
  then have "unat x = unat x mod 2 ^ k" by (metis unat_take_bit)
  then show "unat x < 2 ^ k" by (metis mod_less_divisor zero_less_numeral zero_less_power)
next
  assume "unat x < 2 ^ k"
  then have "unat (take_bit k x) = unat x" by (simp add: unat_take_bit)
  then show "take_bit k x = x" by (rule unsigned_word_eqI)
qed

lemma take_bit_eq_high: "take_bit k (x :: 'a::len word) = x \<Longrightarrow> k \<le> n \<Longrightarrow> \<not> bit x n"
  by (metis bit_take_bit_iff not_less)

lemma unat_ucast_widen:
  "unat (ucast (b :: byte) :: u16) = unat b" "unat (ucast b :: u32) = unat b" "unat (ucast b :: u64) = unat b"
  "unat (ucast (h :: u16) :: u32) = unat h" "unat (ucast h :: u64) = unat h" "unat (ucast (w :: u32) :: u64) = unat w"
  using byte_unat_less [of b] unat_less_pow256(1) [of h] unat_less_pow256(2) [of w]
  by (simp_all add: unsigned_ucast_eq take_bit_nat_eq_self del: byte_unat_less)

lemma word_xor_cancel: "(a :: 'a::len word) XOR m = b XOR m \<Longrightarrow> a = b"
proof -
  assume "a XOR m = b XOR m"
  then have "(a XOR m) XOR m = (b XOR m) XOR m" by simp
  then show "a = b" by (simp add: xor.assoc)
qed

lemma push_drop_or_take [simp]: "push_bit k (drop_bit k x) OR take_bit k x = (x :: 'a::len word)"
  by (rule bit_word_eqI) (auto simp: bit_simps)

section \<open>Slices, in-place writes and panics\<close>

text \<open>\<open>b[i]\<close>, \<open>&b[i..j]\<close>; \<^const>\<open>None\<close> is the bounds panic.\<close>

definition at_idx :: "'a list \<Rightarrow> nat \<Rightarrow> 'a option" where
  "at_idx b i = (if i < length b then Some (b ! i) else None)"

definition bslice :: "nat \<Rightarrow> nat \<Rightarrow> 'a list \<Rightarrow> 'a list" where
  "bslice i j b = take (j - i) (drop i b)"

definition bslice_p :: "nat \<Rightarrow> nat \<Rightarrow> 'a list \<Rightarrow> 'a list option" where
  "bslice_p i j b = (if i \<le> j \<and> j \<le> length b then Some (bslice i j b) else None)"

text \<open>\<open>out[at..at + v.len()].copy_from_slice(v)\<close> where the range is inside \<open>out\<close>.\<close>

definition blit :: "nat \<Rightarrow> 'a list \<Rightarrow> 'a list \<Rightarrow> 'a list" where
  "blit at v out = take at out @ v @ drop (at + length v) out"

lemma length_slice [simp]: "j \<le> length b \<Longrightarrow> length (bslice i j b) = j - i"
  by (simp add: bslice_def)

lemma length_blit [simp]: "at + length v \<le> length out \<Longrightarrow> length (blit at v out) = length out"
  by (simp add: blit_def)

lemma take_blit_below: "at + length v \<le> length out \<Longrightarrow> n \<le> at \<Longrightarrow> take n (blit at v out) = take n out"
  by (simp add: blit_def min_absorb1)

lemma drop_blit_above:
  "at + length v \<le> length out \<Longrightarrow> at + length v \<le> n \<Longrightarrow> drop n (blit at v out) = drop n out"
  by (simp add: blit_def)

lemma take_blit_end:
  "at + length v \<le> length out \<Longrightarrow> take (at + length v) (blit at v out) = take at out @ v"
  by (simp add: blit_def)

lemma bslice_blit_self:
  "at + length v \<le> length out \<Longrightarrow> j = at + length v \<Longrightarrow> bslice at j (blit at v out) = v"
  by (simp add: blit_def bslice_def)

lemma bslice_cong_take: "take n a = take n b \<Longrightarrow> j \<le> n \<Longrightarrow> bslice i j a = bslice i j b"
  by (metis (no_types, lifting) bslice_def drop_take min_absorb1 take_take)

lemma nth_cong_take: "take n a = take n b \<Longrightarrow> i < n \<Longrightarrow> a ! i = b ! i"
  by (metis nth_take)

lemma bslice_append1: "j \<le> length a \<Longrightarrow> bslice i j (a @ b) = bslice i j a"
  by (simp add: bslice_def)

lemma bslice_append2: "length a \<le> i \<Longrightarrow> bslice i j (a @ b) = bslice (i - length a) (j - length a) b"
  by (simp add: bslice_def)

lemma bslice_split:
  assumes "i \<le> j" and "j \<le> k"
  shows "bslice i k b = bslice i j b @ bslice j k b"
proof -
  have "take (k - i) (drop i b) = take (j - i) (drop i b) @ take (k - j) (drop (j - i) (drop i b))"
    using assms take_add [of "j - i" "k - j" "drop i b"] by simp
  then show ?thesis using assms by (simp add: bslice_def)
qed

lemma bslice_pair: "k = i + 1 \<Longrightarrow> j = i + 2 \<Longrightarrow> k < length b \<Longrightarrow> bslice i j b = [b ! i, b ! k]"
  by (rule nth_equalityI) (auto simp: bslice_def less_2_cases_iff nth_Cons')

lemma bslice_full [simp]: "bslice 0 (length a) a = a"
  by (simp add: bslice_def)

lemma at_idx_Some [simp]: "i < length b \<Longrightarrow> at_idx b i = Some (b ! i)"
  by (simp add: at_idx_def)

lemma bslice_p_Some [simp]: "i \<le> j \<Longrightarrow> j \<le> length b \<Longrightarrow> bslice_p i j b = Some (bslice i j b)"
  by (simp add: bslice_p_def)

text \<open>
  \<open>usize::checked_add\<close> at a pointer width whose largest value is \<open>M\<close>. Followed by a comparison
  with the length of a slice that exists (so its length is at most \<open>M\<close>), the overflow branch and
  the comparison's branch are the same one.
\<close>

definition checked_add_usize :: "nat \<Rightarrow> nat \<Rightarrow> nat \<Rightarrow> nat option" where
  "checked_add_usize M a b = (if a + b \<le> M then Some (a + b) else None)"

lemma checked_add_then_bound:
  assumes "length out \<le> M"
  shows "Option.bind (checked_add_usize M a b) (\<lambda>e. if length out < e then None else f e)
       = (if length out < a + b then None else f (a + b))"
  using assms by (auto simp: checked_add_usize_def)

lemma xor_zero_iff: "(x :: 'a::len word) XOR y = 0 \<longleftrightarrow> x = y"
  by (metis xor.assoc xor.left_neutral xor.right_neutral xor_self_eq)

lemma or_zero_iff: "(x :: 'a::len word) OR y = 0 \<longleftrightarrow> x = 0 \<and> y = 0"
  by (auto simp: bit_eq_iff bit_or_iff)

lemma blit_blit_append:
  "at + length a + length b \<le> length out \<Longrightarrow>
   blit (at + length a) b (blit at a out) = blit at (a @ b) out"
  by (simp add: blit_def ac_simps)

lemma blit_single: "p < length out \<Longrightarrow> out[p := a] = blit p [a] out"
  by (simp add: blit_def upd_conv_take_nth_drop)

lemma blit_Nil [simp]: "blit at [] out = out"
  by (simp add: blit_def)

section \<open>Scanning loops\<close>

text \<open>\<open>while i < buf.len() && p(buf[i]) { i += 1 }\<close>, the loop every text parser here is made of.\<close>

function scan_while :: "('a \<Rightarrow> bool) \<Rightarrow> 'a list \<Rightarrow> nat \<Rightarrow> nat" where
  "scan_while P buf i = (if i < length buf \<and> P (buf ! i) then scan_while P buf (i + 1) else i)"
  by pat_completeness auto
termination by (relation "measure (\<lambda>(P, buf, i). length buf - i)") auto

declare scan_while.simps [simp del]

lemma scan_while_eq:
  "i \<le> length buf \<Longrightarrow> scan_while P buf i = i + length (takeWhile P (drop i buf))"
proof (induction P buf i rule: scan_while.induct)
  case (1 P buf i)
  show ?case
  proof (cases "i < length buf \<and> P (buf ! i)")
    case True
    then have "drop i buf = buf ! i # drop (i + 1) buf" by (simp add: Cons_nth_drop_Suc)
    with True 1 show ?thesis by (subst scan_while.simps) simp
  next
    case False
    then have "takeWhile P (drop i buf) = []"
      by (cases "i < length buf") (auto simp: Cons_nth_drop_Suc [symmetric])
    with False show ?thesis by (subst scan_while.simps) auto
  qed
qed

lemma scan_while_ge: "i \<le> scan_while P buf i"
proof (cases "i \<le> length buf")
  case True
  then show ?thesis by (simp add: scan_while_eq)
next
  case False
  then show ?thesis by (subst scan_while.simps) simp
qed

lemma scan_while_le: "i \<le> length buf \<Longrightarrow> scan_while P buf i \<le> length buf"
  using length_takeWhile_le [of P "drop i buf"] by (simp add: scan_while_eq)

lemma drop_scan_while: "i \<le> length buf \<Longrightarrow> drop (scan_while P buf i) buf = dropWhile P (drop i buf)"
  by (simp add: scan_while_eq dropWhile_eq_drop add.commute)

lemma bslice_scan_while: "i \<le> length buf \<Longrightarrow> bslice i (scan_while P buf i) buf = takeWhile P (drop i buf)"
  by (simp add: scan_while_eq bslice_def takeWhile_eq_take [symmetric])

section \<open>Writers into a caller's buffer\<close>

text \<open>
  A function that fills an output slice and answers \<open>Option\<close>: the answer and the contents of the
  slice afterwards, which a failing call may have touched. \<open>wbind\<close> is the \<open>?\<close> operator.
\<close>

type_synonym 'a writer = "bytes \<Rightarrow> 'a option \<times> bytes"

definition wret :: "'a \<Rightarrow> 'a writer" where
  "wret a out = (Some a, out)"

definition wfail :: "'a writer" where
  "wfail out = (None, out)"

definition wbind :: "'a writer \<Rightarrow> ('a \<Rightarrow> 'b writer) \<Rightarrow> 'b writer" where
  "wbind m f out = (case m out of (None, out') \<Rightarrow> (None, out') | (Some a, out') \<Rightarrow> f a out')"

lemma wbind_Some [wave_simps]: "m out = (Some a, out') \<Longrightarrow> wbind m f out = f a out'"
  by (simp add: wbind_def)

lemma wbind_None [wave_simps]: "m out = (None, out') \<Longrightarrow> wbind m f out = (None, out')"
  by (simp add: wbind_def)

lemma wbind_eq_Some:
  "wbind m f out = (Some b, out'') \<longleftrightarrow> (\<exists>a out'. m out = (Some a, out') \<and> f a out' = (Some b, out''))"
  by (auto simp: wbind_def split: prod.splits option.splits)

lemma wbind_assoc: "wbind (wbind m f) g out = wbind m (\<lambda>a. wbind (f a) g) out"
  by (simp add: wbind_def split: prod.split option.split)

lemma wbind_fst_None: "fst (m out) = None \<Longrightarrow> fst (wbind m f out) = None"
  by (cases "m out") (simp add: wbind_def)

lemma wbind_wret [simp]: "wbind (wret a) f out = f a out"
  by (simp add: wbind_def wret_def)

text \<open>\<open>out.get_mut(p..)\<close> handed to a writer.\<close>

definition wtail :: "nat \<Rightarrow> 'a writer \<Rightarrow> 'a writer" where
  "wtail p w out =
     (if length out < p then (None, out)
      else (case w (drop p out) of (r, t) \<Rightarrow> (r, take p out @ t)))"

text \<open>A run of bounded writes one after the other, each followed by \<open>?\<close>, answering the end.\<close>

fun puts :: "(nat \<Rightarrow> bytes \<Rightarrow> nat writer) \<Rightarrow> nat \<Rightarrow> bytes list \<Rightarrow> nat writer" where
  "puts put p [] out = (Some p, out)"
| "puts put p (b # bs) out = wbind (put p b) (\<lambda>p'. puts put p' bs) out"

section \<open>Saturating arithmetic\<close>

definition sat_add32 :: "u32 \<Rightarrow> u32 \<Rightarrow> u32" where
  "sat_add32 a b = (if unat a + unat b < 2 ^ 32 then a + b else - 1)"

definition sat_mul32 :: "u32 \<Rightarrow> u32 \<Rightarrow> u32" where
  "sat_mul32 a b = (if unat a * unat b < 2 ^ 32 then a * b else - 1)"

definition sat_add64 :: "u64 \<Rightarrow> u64 \<Rightarrow> u64" where
  "sat_add64 a b = (if unat a + unat b < 2 ^ 64 then a + b else - 1)"

lemma sat_add32_code [code]: "sat_add32 a b = (if uint a + uint b < 4294967296 then a + b else - 1)"
proof -
  have "unat a + unat b < 2 ^ 32 \<longleftrightarrow> int (unat a + unat b) < int (2 ^ 32)" by (simp only: of_nat_less_iff)
  then show ?thesis by (simp add: sat_add32_def)
qed

lemma unat_sat_add32: "unat (sat_add32 a b) = min (unat a + unat b) (2 ^ 32 - 1)"
  by (simp add: sat_add32_def unat_word_ariths unsigned_minus_1_eq_mask mask_eq_exp_minus_1)

lemma unat_sat_mul32: "unat (sat_mul32 a b) = min (unat a * unat b) (2 ^ 32 - 1)"
  by (simp add: sat_mul32_def unat_word_ariths unsigned_minus_1_eq_mask mask_eq_exp_minus_1)

lemma unat_sat_add64: "unat (sat_add64 a b) = min (unat a + unat b) (2 ^ 64 - 1)"
  by (simp add: sat_add64_def unat_word_ariths unsigned_minus_1_eq_mask mask_eq_exp_minus_1)

text \<open>A mask of one bit tests that bit.\<close>

lemma and_bit_mask:
  fixes x :: "'a::len word"
  shows "(x AND 0x10 = 0) = (\<not> bit x 4)" "(x AND 0x20 = 0) = (\<not> bit x 5)" "(x AND 0x80 = 0) = (\<not> bit x 7)"
  using bit_iff_and_push_bit_not_eq_0 [of x 4] bit_iff_and_push_bit_not_eq_0 [of x 5]
    bit_iff_and_push_bit_not_eq_0 [of x 7] by simp_all

section \<open>Interfaces\<close>

text \<open>
  The bounded append every text-building core carries its own copy of (\<open>wput\<close>, \<open>smtp_put\<close>): it
  writes the whole piece and advances, or writes nothing and fails.
\<close>

locale bounded_put =
  fixes put :: "nat \<Rightarrow> bytes \<Rightarrow> nat writer"
  assumes put_fits:
      "p + length b \<le> length out \<Longrightarrow> put p b out = (Some (p + length b), blit p b out)"
    and put_full: "length out < p + length b \<Longrightarrow> put p b out = (None, out)"
begin

lemma puts_fits:
  "p + length (concat xs) \<le> length out \<Longrightarrow>
   puts put p xs out = (Some (p + length (concat xs)), blit p (concat xs) out)"
proof (induction xs arbitrary: p out)
  case Nil
  then show ?case by simp
next
  case (Cons x xs)
  then show ?case
    by (simp add: wbind_def put_fits blit_blit_append add.assoc)
qed

lemma puts_full:
  "p \<le> length out \<Longrightarrow> length out < p + length (concat xs) \<Longrightarrow> fst (puts put p xs out) = None"
proof (induction xs arbitrary: p out)
  case Nil
  then show ?case by simp
next
  case (Cons x xs)
  show ?case
  proof (cases "p + length x \<le> length out")
    case True
    with Cons show ?thesis by (simp add: wbind_def put_fits add.assoc)
  next
    case False
    then show ?thesis by (simp add: wbind_def put_full)
  qed
qed

lemma puts_iff:
  assumes "p \<le> length out"
  shows "puts put p xs out = (Some n, out') \<longleftrightarrow>
    p + length (concat xs) \<le> length out \<and> n = p + length (concat xs) \<and> out' = blit p (concat xs) out"
proof (cases "p + length (concat xs) \<le> length out")
  case True
  then show ?thesis by (auto simp: puts_fits)
next
  case False
  with assms have "fst (puts put p xs out) = None" by (simp add: puts_full)
  with False show ?thesis by (metis fst_conv option.distinct(1))
qed

lemma puts_length: "p \<le> length out \<Longrightarrow> length (snd (puts put p xs out)) = length out"
proof (induction xs arbitrary: p out)
  case Nil
  then show ?case by simp
next
  case (Cons x xs)
  show ?case
  proof (cases "p + length x \<le> length out")
    case True
    with Cons show ?thesis by (simp add: wbind_def put_fits)
  next
    case False
    then show ?thesis by (simp add: wbind_def put_full)
  qed
qed

end

text \<open>
  A record codec: a bounded writer and a reader that agree on one byte layout \<open>enc\<close>. The reader
  takes exactly one record.
\<close>

locale record_codec =
  fixes wr :: "'a \<Rightarrow> nat writer" and rd :: "bytes \<Rightarrow> 'a option"
    and ok :: "'a \<Rightarrow> bool" and enc :: "'a \<Rightarrow> bytes"
  assumes wr_fits: "ok a \<Longrightarrow> length (enc a) \<le> length out \<Longrightarrow>
      wr a out = (Some (length (enc a)), blit 0 (enc a) out)"
    and wr_short: "ok a \<Longrightarrow> length out < length (enc a) \<Longrightarrow> wr a out = (None, out)"
    and wr_bad: "\<not> ok a \<Longrightarrow> wr a out = (None, out)"
    and rd_enc: "ok a \<Longrightarrow> rd (enc a) = Some a"
    and rd_inv: "rd b = Some a \<Longrightarrow> ok a \<and> b = enc a"
begin

lemma wr_iff:
  "wr a out = (Some n, out') \<longleftrightarrow>
   ok a \<and> length (enc a) \<le> length out \<and> n = length (enc a) \<and> out' = blit 0 (enc a) out"
  by (metis wr_fits wr_short wr_bad not_le option.distinct(1) option.inject prod.inject)

lemma wr_roundtrip: "wr a out = (Some n, out') \<Longrightarrow> rd (take n out') = Some a"
  by (auto simp: wr_iff blit_def rd_enc)

lemma rd_wr: "rd b = Some a \<Longrightarrow> length b \<le> length out \<Longrightarrow>
    wr a out = (Some (length b), blit 0 b out)"
  using rd_inv wr_fits by blast

lemma rd_canonical: "rd b = Some a \<Longrightarrow> rd c = Some a \<Longrightarrow> b = c"
  using rd_inv by blast

lemma wr_frame: "wr a out = (Some n, out') \<Longrightarrow> length out' = length out \<and> drop n out' = drop n out"
  by (auto simp: wr_iff drop_blit_above)

end

text \<open>
  A self-delimiting codec: the reader takes one item off the front of a byte stream and says how
  many bytes it was. A stream of items is read back as the items.
\<close>

fun rd_stream :: "(bytes \<Rightarrow> ('a \<times> nat) option) \<Rightarrow> nat \<Rightarrow> bytes \<Rightarrow> 'a list option" where
  "rd_stream rd 0 b = (if b = [] then Some [] else None)"
| "rd_stream rd (Suc n) b =
     (if b = [] then Some []
      else case rd b of None \<Rightarrow> None
           | Some (a, k) \<Rightarrow> map_option ((#) a) (rd_stream rd n (drop k b)))"

locale stream_codec =
  fixes rd :: "bytes \<Rightarrow> ('a \<times> nat) option" and ok :: "'a \<Rightarrow> bool" and enc :: "'a \<Rightarrow> bytes"
  assumes rd_front: "ok a \<Longrightarrow> rd (enc a @ rest) = Some (a, length (enc a))"
    and enc_nonempty: "ok a \<Longrightarrow> enc a \<noteq> []"
begin

lemma rd_stream_concat:
  "list_all ok xs \<Longrightarrow> length xs \<le> n \<Longrightarrow> rd_stream rd n (concat (map enc xs)) = Some xs"
proof (induction xs arbitrary: n)
  case Nil
  then show ?case by (cases n) auto
next
  case (Cons x xs)
  then obtain m where "n = Suc m" and "length xs \<le> m" by (cases n) auto
  with Cons show ?case by (simp add: rd_front enc_nonempty)
qed

lemma enc_prefix_free: "ok a \<Longrightarrow> ok b \<Longrightarrow> enc a @ r = enc b @ s \<Longrightarrow> a = b \<and> r = s"
  by (metis rd_front option.inject prod.inject append_eq_append_conv)

end

text \<open>
  Deterministic machines: a step answers an output and the next state. A run threads the state
  through a list of inputs. \<open>machine_inv\<close> lifts a step invariant to runs; \<open>machine_refines\<close> lifts a
  one-step simulation to equality of the output traces.
\<close>

fun run :: "('s \<Rightarrow> 'e \<Rightarrow> 'o \<times> 's) \<Rightarrow> 's \<Rightarrow> 'e list \<Rightarrow> 'o list \<times> 's" where
  "run step s [] = ([], s)"
| "run step s (e # es) =
     (let r = step s e; rs = run step (snd r) es in (fst r # fst rs, snd rs))"

lemma run_append:
  "run step s (xs @ ys) =
   (let r = run step s xs; t = run step (snd r) ys in (fst r @ fst t, snd t))"
  by (induction xs arbitrary: s) (simp_all add: Let_def)

lemma run_snoc: "fst (run step s (es @ [e])) = fst (run step s es) @ [fst (step (snd (run step s es)) e)]"
  by (simp add: run_append Let_def)

lemma length_run [simp]: "length (fst (run step s es)) = length es"
  by (induction es arbitrary: s) (simp_all add: Let_def)

locale machine_inv =
  fixes step :: "'s \<Rightarrow> 'e \<Rightarrow> 'o \<times> 's" and inv :: "'s \<Rightarrow> bool"
  assumes step_inv: "inv s \<Longrightarrow> inv (snd (step s e))"
begin

lemma run_inv: "inv s \<Longrightarrow> inv (snd (run step s es))"
proof (induction es arbitrary: s)
  case Nil
  then show ?case by simp
next
  case (Cons e es)
  then have "inv (snd (step s e))" by (simp add: step_inv)
  then show ?case using Cons.IH by (simp add: Let_def)
qed

end

locale machine_refines =
  fixes cstep :: "'c \<Rightarrow> 'e \<Rightarrow> 'o \<times> 'c" and astep :: "'a \<Rightarrow> 'e \<Rightarrow> 'o \<times> 'a"
    and R :: "'c \<Rightarrow> 'a \<Rightarrow> bool"
  assumes sim_out: "R c a \<Longrightarrow> fst (cstep c e) = fst (astep a e)"
    and sim_step: "R c a \<Longrightarrow> R (snd (cstep c e)) (snd (astep a e))"
begin

lemma run_refines:
  "R c a \<Longrightarrow> fst (run cstep c es) = fst (run astep a es) \<and> R (snd (run cstep c es)) (snd (run astep a es))"
proof (induction es arbitrary: c a)
  case Nil
  then show ?case by simp
next
  case (Cons e es)
  from Cons.prems have "R (snd (cstep c e)) (snd (astep a e))" by (rule sim_step)
  note IH = Cons.IH [OF this]
  with sim_out [OF Cons.prems, of e] show ?case
    by (simp add: Let_def)
qed

end

end
