(* ===== verification/Text_Codecs.thy ===== *)
theory Text_Codecs
  imports Wave_Prelude
begin

text \<open>
  The two text-level cores of \<open>modules/common\<close>: \<open>utf8_core.rs\<close> (scalar UTF-8 validation) and
  \<open>hex_core.rs\<close> (the hex codec). The UTF-8 validator is compared with the encoding of Unicode
  scalar values; the hex codec with a list-level reference.
\<close>

section \<open>UTF-8 validation\<close>

text \<open>The \<open>match first\<close> of the loop, after its ASCII arm: sequence length and second-byte range.\<close>

definition utf8_lead :: "byte \<Rightarrow> (nat \<times> byte \<times> byte) option" where
  "utf8_lead first =
     (if 0xc2 \<le> first \<and> first \<le> 0xdf then Some (2, 0x80, 0xbf)
      else if first = 0xe0 then Some (3, 0xa0, 0xbf)
      else if (0xe1 \<le> first \<and> first \<le> 0xec) \<or> (0xee \<le> first \<and> first \<le> 0xef) then Some (3, 0x80, 0xbf)
      else if first = 0xed then Some (3, 0x80, 0x9f)
      else if first = 0xf0 then Some (4, 0x90, 0xbf)
      else if 0xf1 \<le> first \<and> first \<le> 0xf3 then Some (4, 0x80, 0xbf)
      else if first = 0xf4 then Some (4, 0x80, 0x8f)
      else None)"

lemma utf8_lead_pos: "utf8_lead first = Some (n, low, high) \<Longrightarrow> 2 \<le> n \<and> n \<le> 4"
  by (auto simp: utf8_lead_def split: if_splits)

function valid_utf8 :: "bytes \<Rightarrow> bool" where
  "valid_utf8 bytes =
     (case bytes of
        [] \<Rightarrow> True
      | first # rest \<Rightarrow>
          if first \<le> 0x7f then valid_utf8 rest
          else (case utf8_lead first of
                  None \<Rightarrow> False
                | Some (n, low, high) \<Rightarrow>
                    if length bytes < n \<or> bytes ! 1 < low \<or> high < bytes ! 1 then False
                    else if \<not> list_all (\<lambda>b. 0x80 \<le> b \<and> b \<le> 0xbf) (bslice 2 n bytes) then False
                    else valid_utf8 (drop n bytes)))"
  by pat_completeness auto
termination
  by (relation "measure length") (auto dest: utf8_lead_pos)

declare valid_utf8.simps [simp del]

text \<open>The reference: the encoding of one Unicode scalar value (RFC 3629).\<close>

definition is_scalar :: "nat \<Rightarrow> bool" where
  "is_scalar c \<longleftrightarrow> c < 0xD800 \<or> (0xE000 \<le> c \<and> c < 0x110000)"

definition utf8_encode :: "nat \<Rightarrow> bytes" where
  "utf8_encode c =
     (if c < 0x80 then [of_nat c]
      else if c < 0x800 then [of_nat (0xC0 + c div 64), of_nat (0x80 + c mod 64)]
      else if c < 0x10000 then
        [of_nat (0xE0 + c div 4096), of_nat (0x80 + c div 64 mod 64), of_nat (0x80 + c mod 64)]
      else [of_nat (0xF0 + c div 262144), of_nat (0x80 + c div 4096 mod 64),
            of_nat (0x80 + c div 64 mod 64), of_nat (0x80 + c mod 64)])"

lemma byte_le_nat: "(a :: byte) \<le> b \<longleftrightarrow> unat a \<le> unat b"
  by (simp add: word_le_nat_alt)

lemma byte_less_nat: "(a :: byte) < b \<longleftrightarrow> unat a < unat b"
  by (simp add: word_less_nat_alt)

lemma byte_eq_nat: "(a :: byte) = b \<longleftrightarrow> unat a = unat b"
  by (simp add: word_unat_eq_iff)

lemma unat_of_nat_byte: "n < 256 \<Longrightarrow> unat (of_nat n :: byte) = n"
  by (simp add: unat_of_nat)

lemmas byte_ord = byte_le_nat byte_less_nat
lemmas byte_nat = byte_ord byte_eq_nat

text \<open>One turn of the loop for each sequence length.\<close>

lemma valid_utf8_step:
  "valid_utf8 []"
  "b0 \<le> 0x7f \<Longrightarrow> valid_utf8 (b0 # rest) = valid_utf8 rest"
  "utf8_lead b0 = Some (2, low, high) \<Longrightarrow> \<not> b0 \<le> 0x7f \<Longrightarrow>
   valid_utf8 (b0 # b1 # rest) = (low \<le> b1 \<and> b1 \<le> high \<and> valid_utf8 rest)"
  "utf8_lead b0 = Some (3, low, high) \<Longrightarrow> \<not> b0 \<le> 0x7f \<Longrightarrow>
   valid_utf8 (b0 # b1 # b2 # rest) =
     (low \<le> b1 \<and> b1 \<le> high \<and> 0x80 \<le> b2 \<and> b2 \<le> 0xbf \<and> valid_utf8 rest)"
  "utf8_lead b0 = Some (4, low, high) \<Longrightarrow> \<not> b0 \<le> 0x7f \<Longrightarrow>
   valid_utf8 (b0 # b1 # b2 # b3 # rest) =
     (low \<le> b1 \<and> b1 \<le> high \<and> 0x80 \<le> b2 \<and> b2 \<le> 0xbf \<and> 0x80 \<le> b3 \<and> b3 \<le> 0xbf \<and> valid_utf8 rest)"
  by (subst valid_utf8.simps; auto simp: bslice_def)+

text \<open>The lead-byte table over the numbers.\<close>

lemma utf8_lead_nat:
  "unat b0 = 0xC0 + k \<Longrightarrow> 2 \<le> k \<Longrightarrow> k < 32 \<Longrightarrow> utf8_lead b0 = Some (2, 0x80, 0xbf)"
  "unat b0 = 0xE0 \<Longrightarrow> utf8_lead b0 = Some (3, 0xa0, 0xbf)"
  "unat b0 = 0xE0 + k \<Longrightarrow> 0 < k \<Longrightarrow> k < 16 \<Longrightarrow> k \<noteq> 13 \<Longrightarrow> utf8_lead b0 = Some (3, 0x80, 0xbf)"
  "unat b0 = 0xED \<Longrightarrow> utf8_lead b0 = Some (3, 0x80, 0x9f)"
  "unat b0 = 0xF0 \<Longrightarrow> utf8_lead b0 = Some (4, 0x90, 0xbf)"
  "unat b0 = 0xF0 + k \<Longrightarrow> 0 < k \<Longrightarrow> k < 4 \<Longrightarrow> utf8_lead b0 = Some (4, 0x80, 0xbf)"
  "unat b0 = 0xF4 \<Longrightarrow> utf8_lead b0 = Some (4, 0x80, 0x8f)"
  by (auto simp: utf8_lead_def byte_nat)

lemma mod_64_le [simp]: "k mod 64 \<le> (63 :: nat)"
  by simp

lemma digit_64: "z < 64 \<Longrightarrow> (k * 64 + z) div 64 = k" "z < 64 \<Longrightarrow> (k * 64 + z) mod 64 = z" for k z :: nat
  by auto

lemma div_mod_64: "c div 64 mod 64 = c div 64 - 64 * (c div 4096)" "c div 4096 mod 64 = c div 4096 - 64 * (c div 262144)"
  for c :: nat
  by (simp_all add: minus_mult_div_eq_mod [symmetric] flip: div_mult2_eq)

lemma valid_utf8_encode2:
  assumes "0x80 \<le> c" "c < 0x800"
  shows "valid_utf8 (utf8_encode c @ rest) = valid_utf8 rest"
proof -
  define b0 b1 :: byte where "b0 = of_nat (0xC0 + c div 64)" and "b1 = of_nat (0x80 + c mod 64)"
  have u: "unat b0 = 0xC0 + c div 64" "unat b1 = 0x80 + c mod 64"
    unfolding b0_def b1_def by (rule unat_of_nat_byte; use assms in linarith)+
  have "utf8_lead b0 = Some (2, 0x80, 0xbf)"
    by (rule utf8_lead_nat(1) [OF u(1)]) (use assms in auto)
  then have "valid_utf8 (b0 # b1 # rest) = valid_utf8 rest"
    by (simp add: valid_utf8_step byte_ord u)
  moreover have "utf8_encode c = [b0, b1]"
    using assms by (simp only: utf8_encode_def b0_def b1_def) simp
  ultimately show ?thesis by simp
qed

lemma valid_utf8_encode3:
  assumes "0x800 \<le> c" "c < 0x10000" and sur: "c < 0xD800 \<or> 0xE000 \<le> c"
  shows "valid_utf8 (utf8_encode c @ rest) = valid_utf8 rest"
proof -
  define b0 b1 b2 :: byte where "b0 = of_nat (0xE0 + c div 4096)"
    and "b1 = of_nat (0x80 + c div 64 mod 64)" and "b2 = of_nat (0x80 + c mod 64)"
  have u: "unat b0 = 0xE0 + c div 4096" "unat b1 = 0x80 + c div 64 mod 64" "unat b2 = 0x80 + c mod 64"
    unfolding b0_def b1_def b2_def by (rule unat_of_nat_byte; use assms in linarith)+
  have enc: "utf8_encode c = [b0, b1, b2]"
    using assms by (simp only: utf8_encode_def b0_def b1_def b2_def) simp
  consider "c div 4096 = 0" | "c div 4096 = 13" | "0 < c div 4096" "c div 4096 \<noteq> 13" by linarith
  then show ?thesis
  proof cases
    case 1
    then have "utf8_lead b0 = Some (3, 0xa0, 0xbf)" by (intro utf8_lead_nat) (simp add: u)
    moreover have "32 \<le> c div 64 mod 64" using 1 assms by (simp add: div_mod_64)
    ultimately show ?thesis by (simp add: enc valid_utf8_step byte_ord u)
  next
    case 2
    then have "utf8_lead b0 = Some (3, 0x80, 0x9f)" by (intro utf8_lead_nat) (simp add: u)
    moreover have "c < 0xD800" using 2 sur by linarith
    then have "c div 64 mod 64 \<le> 31" using 2 unfolding div_mod_64 by linarith
    ultimately show ?thesis by (simp add: enc valid_utf8_step byte_ord u)
  next
    case 3
    have "utf8_lead b0 = Some (3, 0x80, 0xbf)"
      by (rule utf8_lead_nat(3) [OF u(1)]) (use 3 assms in auto)
    then show ?thesis by (simp add: enc valid_utf8_step byte_ord u)
  qed
qed

lemma valid_utf8_encode4:
  assumes "0x10000 \<le> c" "c < 0x110000"
  shows "valid_utf8 (utf8_encode c @ rest) = valid_utf8 rest"
proof -
  define b0 b1 b2 b3 :: byte where "b0 = of_nat (0xF0 + c div 262144)"
    and "b1 = of_nat (0x80 + c div 4096 mod 64)"
    and "b2 = of_nat (0x80 + c div 64 mod 64)" and "b3 = of_nat (0x80 + c mod 64)"
  have u: "unat b0 = 0xF0 + c div 262144" "unat b1 = 0x80 + c div 4096 mod 64"
      "unat b2 = 0x80 + c div 64 mod 64" "unat b3 = 0x80 + c mod 64"
    unfolding b0_def b1_def b2_def b3_def by (rule unat_of_nat_byte; use assms in linarith)+
  have enc: "utf8_encode c = [b0, b1, b2, b3]"
    using assms by (simp only: utf8_encode_def b0_def b1_def b2_def b3_def) simp
  consider "c div 262144 = 0" | "c div 262144 = 4" | "0 < c div 262144" "c div 262144 < 4"
    using assms by linarith
  then show ?thesis
  proof cases
    case 1
    then have "utf8_lead b0 = Some (4, 0x90, 0xbf)" by (intro utf8_lead_nat) (simp add: u)
    moreover have "16 \<le> c div 4096 mod 64" using 1 assms by (simp add: div_mod_64)
    ultimately show ?thesis by (simp add: enc valid_utf8_step byte_ord u)
  next
    case 2
    then have "utf8_lead b0 = Some (4, 0x80, 0x8f)" by (intro utf8_lead_nat) (simp add: u)
    moreover have "c div 4096 mod 64 \<le> 15" using 2 assms(2) unfolding div_mod_64 by linarith
    ultimately show ?thesis by (simp add: enc valid_utf8_step byte_ord u)
  next
    case 3
    have "utf8_lead b0 = Some (4, 0x80, 0xbf)"
      by (rule utf8_lead_nat(6) [OF u(1)]) (use 3 in auto)
    then show ?thesis by (simp add: enc valid_utf8_step byte_ord u)
  qed
qed

lemma valid_utf8_encode:
  assumes "is_scalar c"
  shows "valid_utf8 (utf8_encode c @ rest) = valid_utf8 rest"
proof (cases "c < 0x80")
  case True
  then show ?thesis
    by (simp add: utf8_encode_def valid_utf8_step byte_nat unat_of_nat_byte)
next
  case False
  with assms show ?thesis
    by (cases "c < 0x800"; cases "c < 0x10000")
      (auto simp: is_scalar_def valid_utf8_encode2 valid_utf8_encode3 valid_utf8_encode4)
qed

text \<open>
  Conversely, every sequence one turn of the loop accepts is the encoding of a scalar value. The
  value is read off the bytes; the ranges of the lead-byte table are exactly what keeps it out of
  the overlong, surrogate and beyond-Unicode ranges.
\<close>

lemma utf8_lead_cases:
  assumes "utf8_lead b0 = Some (n, low, high)"
  shows "(n = 2 \<and> 0xC2 \<le> unat b0 \<and> unat b0 < 0xE0 \<and> unat low = 0x80 \<and> unat high = 0xBF)
       \<or> (n = 3 \<and> unat b0 = 0xE0 \<and> unat low = 0xA0 \<and> unat high = 0xBF)
       \<or> (n = 3 \<and> 0xE0 < unat b0 \<and> unat b0 < 0xF0 \<and> unat b0 \<noteq> 0xED \<and> unat low = 0x80 \<and> unat high = 0xBF)
       \<or> (n = 3 \<and> unat b0 = 0xED \<and> unat low = 0x80 \<and> unat high = 0x9F)
       \<or> (n = 4 \<and> unat b0 = 0xF0 \<and> unat low = 0x90 \<and> unat high = 0xBF)
       \<or> (n = 4 \<and> 0xF0 < unat b0 \<and> unat b0 < 0xF4 \<and> unat low = 0x80 \<and> unat high = 0xBF)
       \<or> (n = 4 \<and> unat b0 = 0xF4 \<and> unat low = 0x80 \<and> unat high = 0x8F)"
  using assms by (auto simp: utf8_lead_def byte_nat split: if_splits)

lemma of_nat_unat_byte: "m = unat b \<Longrightarrow> of_nat m = (b :: byte)"
  by simp

lemma encode_of_two:
  assumes "0xC2 \<le> unat b0" "unat b0 < 0xE0" "0x80 \<le> unat b1" "unat b1 \<le> 0xBF"
  shows "\<exists>c. is_scalar c \<and> utf8_encode c = [b0, b1]"
proof -
  define x y where "x = unat b0 - 0xC0" and "y = unat b1 - 0x80"
  have xy: "unat b0 = 0xC0 + x" "unat b1 = 0x80 + y" "2 \<le> x" "x < 32" "y < 64"
    using assms by (auto simp: x_def y_def)
  define c where "c = x * 64 + y"
  have d: "c div 64 = x" "c mod 64 = y" using xy by (auto simp: c_def)
  have "0x80 \<le> c" "c < 0x800" using xy by (auto simp: c_def)
  then have "utf8_encode c = [of_nat (0xC0 + c div 64), of_nat (0x80 + c mod 64)]"
    by (simp only: utf8_encode_def) simp
  also have "\<dots> = [b0, b1]" by (simp only: d xy(1,2) [symmetric] of_nat_unat_byte)
  finally show ?thesis using \<open>c < 0x800\<close> by (intro exI [of _ c]) (simp add: is_scalar_def)
qed

lemma encode_of_three:
  assumes b0: "0xE0 \<le> unat b0" "unat b0 < 0xF0"
    and b1: "0x80 \<le> unat b1" "unat b1 \<le> 0xBF" and b2: "0x80 \<le> unat b2" "unat b2 \<le> 0xBF"
    and long: "unat b0 = 0xE0 \<Longrightarrow> 0xA0 \<le> unat b1" and sur: "unat b0 = 0xED \<Longrightarrow> unat b1 \<le> 0x9F"
  shows "\<exists>c. is_scalar c \<and> utf8_encode c = [b0, b1, b2]"
proof -
  define x y z where "x = unat b0 - 0xE0" and "y = unat b1 - 0x80" and "z = unat b2 - 0x80"
  have xyz: "unat b0 = 0xE0 + x" "unat b1 = 0x80 + y" "unat b2 = 0x80 + z" "x < 16" "y < 64" "z < 64"
    using assms by (auto simp: x_def y_def z_def)
  have lim: "x = 0 \<Longrightarrow> 32 \<le> y" "x = 13 \<Longrightarrow> y < 32" using long sur xyz by auto
  define c where "c = (x * 64 + y) * 64 + z"
  have d0: "c div 64 = x * 64 + y" "c mod 64 = z"
    unfolding c_def using xyz by (simp_all only: digit_64)
  have "c div 4096 = c div 64 div 64" by (simp flip: div_mult2_eq)
  with d0 xyz have d: "c div 4096 = x" "c div 64 mod 64 = y" "c mod 64 = z" by auto
  have "0x800 \<le> c" using xyz lim(1) by (cases "x = 0") (auto simp: c_def)
  moreover have "c < 0x10000" using xyz by (auto simp: c_def)
  moreover have "c < 0xD800 \<or> 0xE000 \<le> c" using xyz lim(2) by (cases "x = 13") (auto simp: c_def)
  ultimately have r: "0x800 \<le> c" "c < 0x10000" "c < 0xD800 \<or> 0xE000 \<le> c" by auto
  then have "utf8_encode c =
      [of_nat (0xE0 + c div 4096), of_nat (0x80 + c div 64 mod 64), of_nat (0x80 + c mod 64)]"
    by (simp only: utf8_encode_def) simp
  also have "\<dots> = [b0, b1, b2]" by (simp only: d xyz(1,2,3) [symmetric] of_nat_unat_byte)
  finally show ?thesis using r by (intro exI [of _ c]) (auto simp: is_scalar_def)
qed

lemma encode_of_four:
  assumes b0: "0xF0 \<le> unat b0" "unat b0 \<le> 0xF4"
    and b1: "0x80 \<le> unat b1" "unat b1 \<le> 0xBF" and b2: "0x80 \<le> unat b2" "unat b2 \<le> 0xBF"
    and b3: "0x80 \<le> unat b3" "unat b3 \<le> 0xBF"
    and long: "unat b0 = 0xF0 \<Longrightarrow> 0x90 \<le> unat b1" and big: "unat b0 = 0xF4 \<Longrightarrow> unat b1 \<le> 0x8F"
  shows "\<exists>c. is_scalar c \<and> utf8_encode c = [b0, b1, b2, b3]"
proof -
  define x y z w where "x = unat b0 - 0xF0" and "y = unat b1 - 0x80"
    and "z = unat b2 - 0x80" and "w = unat b3 - 0x80"
  have xyz: "unat b0 = 0xF0 + x" "unat b1 = 0x80 + y" "unat b2 = 0x80 + z" "unat b3 = 0x80 + w"
      "x \<le> 4" "y < 64" "z < 64" "w < 64"
    using assms by (auto simp: x_def y_def z_def w_def)
  have lim: "x = 0 \<Longrightarrow> 16 \<le> y" "x = 4 \<Longrightarrow> y < 16" using long big xyz by auto
  define c where "c = ((x * 64 + y) * 64 + z) * 64 + w"
  have d0: "c div 64 = (x * 64 + y) * 64 + z" "c mod 64 = w"
    unfolding c_def using xyz by (simp_all only: digit_64)
  have "c div 4096 = c div 64 div 64" "c div 262144 = c div 64 div 64 div 64"
    by (simp_all flip: div_mult2_eq)
  with d0 xyz have d: "c div 262144 = x" "c div 4096 mod 64 = y" "c div 64 mod 64 = z" "c mod 64 = w"
    by (simp_all only: digit_64)
  have "0x10000 \<le> c" using xyz lim(1) by (cases "x = 0") (auto simp: c_def)
  moreover have "c < 0x110000" using xyz lim(2) by (cases "x = 4") (auto simp: c_def)
  ultimately have r: "0x10000 \<le> c" "c < 0x110000" by auto
  then have "utf8_encode c = [of_nat (0xF0 + c div 262144), of_nat (0x80 + c div 4096 mod 64),
            of_nat (0x80 + c div 64 mod 64), of_nat (0x80 + c mod 64)]"
    by (simp only: utf8_encode_def) simp
  also have "\<dots> = [b0, b1, b2, b3]" by (simp only: d xyz(1-4) [symmetric] of_nat_unat_byte)
  finally show ?thesis using r by (intro exI [of _ c]) (auto simp: is_scalar_def)
qed

lemma lead_seq_encodes:
  assumes l: "utf8_lead b0 = Some (n, low, high)" and len: "n \<le> length (b0 # r)"
    and r1: "low \<le> (b0 # r) ! 1" "(b0 # r) ! 1 \<le> high"
    and tl: "list_all (\<lambda>x. 0x80 \<le> x \<and> x \<le> 0xbf) (bslice 2 n (b0 # r))"
  shows "\<exists>c. is_scalar c \<and> utf8_encode c = take n (b0 # r)"
proof -
  consider "n = 2" | "n = 3" | "n = 4" using utf8_lead_pos [OF l] by linarith
  then show ?thesis
  proof cases
    case 1
    with len obtain b1 r' where r: "r = b1 # r'" by (cases r) auto
    have "\<exists>c. is_scalar c \<and> utf8_encode c = [b0, b1]"
      using utf8_lead_cases [OF l] 1 r1 r by (intro encode_of_two) (auto simp: byte_ord)
    then show ?thesis using 1 r by (simp add: numeral_eq_Suc)
  next
    case 2
    with len obtain b1 b2 r' where r: "r = b1 # b2 # r'"
      by (auto simp: numeral_eq_Suc Suc_le_length_iff)
    have "\<exists>c. is_scalar c \<and> utf8_encode c = [b0, b1, b2]"
      using utf8_lead_cases [OF l] 2 r1 tl r
      by (intro encode_of_three) (auto simp: byte_ord bslice_def)
    then show ?thesis using 2 r by (simp add: numeral_eq_Suc)
  next
    case 3
    with len obtain b1 b2 b3 r' where r: "r = b1 # b2 # b3 # r'"
      by (auto simp: numeral_eq_Suc Suc_le_length_iff)
    have "\<exists>c. is_scalar c \<and> utf8_encode c = [b0, b1, b2, b3]"
      using utf8_lead_cases [OF l] 3 r1 tl r
      by (intro encode_of_four) (auto simp: byte_ord bslice_def)
    then show ?thesis using 3 r by (simp add: numeral_eq_Suc)
  qed
qed

lemma valid_utf8_uncons:
  assumes "valid_utf8 b" and "b \<noteq> []"
  shows "\<exists>c rest. is_scalar c \<and> b = utf8_encode c @ rest \<and> valid_utf8 rest"
proof -
  obtain b0 r where b: "b = b0 # r" using assms(2) by (cases b) auto
  show ?thesis
  proof (cases "b0 \<le> 0x7f")
    case True
    then have "is_scalar (unat b0)" "utf8_encode (unat b0) = [b0]"
      by (auto simp: is_scalar_def utf8_encode_def byte_ord)
    with True assms(1) b show ?thesis by (metis append_Cons append_Nil valid_utf8_step(2))
  next
    case False
    then obtain n low high where l: "utf8_lead b0 = Some (n, low, high)"
        and len: "n \<le> length b" and r1: "low \<le> b ! 1" "b ! 1 \<le> high"
        and tl: "list_all (\<lambda>x. 0x80 \<le> x \<and> x \<le> 0xbf) (bslice 2 n b)"
        and rest: "valid_utf8 (drop n b)"
      using assms(1) b by (subst (asm) valid_utf8.simps) (auto split: option.splits if_splits)
    have "\<exists>c. is_scalar c \<and> utf8_encode c = take n b"
      using lead_seq_encodes [OF l] len r1 tl b by simp
    with rest show ?thesis by (metis append_take_drop_id)
  qed
qed

text \<open>The validator accepts exactly the encodings of sequences of Unicode scalar values.\<close>

lemma valid_utf8_concat: "list_all is_scalar cs \<Longrightarrow> valid_utf8 (concat (map utf8_encode cs))"
  by (induction cs) (auto simp: valid_utf8_encode valid_utf8_step)

lemma valid_utf8_decodes:
  "valid_utf8 b \<Longrightarrow> \<exists>cs. list_all is_scalar cs \<and> b = concat (map utf8_encode cs)"
proof (induction "length b" arbitrary: b rule: less_induct)
  case less
  show ?case
  proof (cases "b = []")
    case True
    then show ?thesis by (intro exI [of _ "[]"]) simp
  next
    case False
    with less.prems obtain c rest where c: "is_scalar c" "b = utf8_encode c @ rest" "valid_utf8 rest"
      using valid_utf8_uncons by blast
    moreover have "utf8_encode c \<noteq> []" by (simp add: utf8_encode_def)
    ultimately obtain cs where "list_all is_scalar cs" "rest = concat (map utf8_encode cs)"
      using less.hyps [of rest] by auto
    with c show ?thesis by (intro exI [of _ "c # cs"]) simp
  qed
qed

section \<open>Hex\<close>

definition nibble :: "byte \<Rightarrow> byte option" where
  "nibble c =
     (if 48 \<le> c \<and> c \<le> 57 then Some (c - 48)
      else if 97 \<le> c \<and> c \<le> 102 then Some (c - 97 + 10)
      else if 65 \<le> c \<and> c \<le> 70 then Some (c - 65 + 10)
      else None)"

function hex_decode_loop :: "bytes \<Rightarrow> nat \<Rightarrow> nat \<Rightarrow> nat writer" where
  "hex_decode_loop hex n i out =
     (if i < n then
        (case nibble (hex ! (2 * i)) of
           None \<Rightarrow> (None, out)
         | Some hi \<Rightarrow>
             (case nibble (hex ! (2 * i + 1)) of
                None \<Rightarrow> (None, out)
              | Some lo \<Rightarrow> hex_decode_loop hex n (Suc i) (out[i := push_bit 4 hi OR lo])))
      else (Some n, out))"
  by pat_completeness auto
termination
  by (relation "measure (\<lambda>(hex, n, i, out). n - i)") auto

declare hex_decode_loop.simps [simp del]

definition hex_decode :: "bytes \<Rightarrow> nat writer" where
  "hex_decode hex out =
     (if odd (length hex) then (None, out)
      else let n = length hex div 2 in
        if length out < n then (None, out) else hex_decode_loop hex n 0 out)"

definition hex_digits :: bytes where
  "hex_digits = ascii ''0123456789abcdef''"

function hex_encode_loop :: "bytes \<Rightarrow> nat \<Rightarrow> bytes \<Rightarrow> bytes" where
  "hex_encode_loop bytes i out =
     (if i < length bytes then
        hex_encode_loop bytes (Suc i)
          (out[2 * i := hex_digits ! unat (drop_bit 4 (bytes ! i)),
               2 * i + 1 := hex_digits ! unat (bytes ! i AND 0x0f)])
      else out)"
  by pat_completeness auto
termination
  by (relation "measure (\<lambda>(bytes, i, out). length bytes - i)") auto

declare hex_encode_loop.simps [simp del]

definition hex_encode :: "bytes \<Rightarrow> nat writer" where
  "hex_encode bytes out =
     (let need = length bytes * 2 in
      if length out < need then (None, out) else (Some need, hex_encode_loop bytes 0 out))"

text \<open>The list-level reference: two digits per byte, and its partial inverse.\<close>

fun hex_list :: "bytes \<Rightarrow> bytes" where
  "hex_list [] = []"
| "hex_list (b # r) = hex_digits ! unat (drop_bit 4 b) # hex_digits ! unat (b AND 0x0f) # hex_list r"

fun unhex_list :: "bytes \<Rightarrow> bytes option" where
  "unhex_list [] = Some []"
| "unhex_list [c] = None"
| "unhex_list (c # d # r) =
     (case nibble c of None \<Rightarrow> None
      | Some hi \<Rightarrow> (case nibble d of None \<Rightarrow> None
          | Some lo \<Rightarrow> map_option ((#) (push_bit 4 hi OR lo)) (unhex_list r)))"

lemma length_hex_list [simp]: "length (hex_list b) = 2 * length b"
  by (induction b) auto

lemma length_unhex_list: "unhex_list h = Some b \<Longrightarrow> length h = 2 * length b"
  by (induction h arbitrary: b rule: unhex_list.induct) (auto split: option.splits)

lemma hex_digits_simp: "hex_digits = [48,49,50,51,52,53,54,55,56,57,97,98,99,100,101,102]"
  by (simp add: hex_digits_def ascii_def)

lemma nibble_hex_digits: "n < 16 \<Longrightarrow> nibble (hex_digits ! n) = Some (of_nat n)"
proof -
  have "\<forall>n\<in>set [0..<16]. nibble (hex_digits ! n) = Some (of_nat n)"
    by (simp add: upt_rec hex_digits_simp nibble_def nth_Cons')
  then show "n < 16 \<Longrightarrow> nibble (hex_digits ! n) = Some (of_nat n)" by simp
qed

lemma unhex_hex_list: "unhex_list (hex_list b) = Some b"
proof (induction b)
  case Nil
  then show ?case by simp
next
  case (Cons x xs)
  have "unat (drop_bit 4 x) < 16" "unat (x AND 0x0f) < 16"
    by (simp_all add: codec_simps less_mult_imp_div_less)
  with Cons show ?case by (simp add: nibble_hex_digits and_low_mask)
qed

text \<open>Both loops are the reference, written into the front of the buffer.\<close>

lemma list_update_blit1: "i < length out \<Longrightarrow> out[i := v] = blit i [v] out"
  by (simp add: blit_def upd_conv_take_nth_drop)

lemma hex_encode_loop_blit:
  "2 * length b \<le> length out \<Longrightarrow> i \<le> length b \<Longrightarrow>
   hex_encode_loop b i out = blit (2 * i) (hex_list (drop i b)) out"
proof (induction b i out rule: hex_encode_loop.induct)
  case (1 b i out)
  show ?case
  proof (cases "i < length b")
    case True
    let ?d = "[hex_digits ! unat (drop_bit 4 (b ! i)), hex_digits ! unat (b ! i AND 0x0f)]"
    have two: "out[2 * i := ?d ! 0, 2 * i + 1 := ?d ! 1] = blit (2 * i) ?d out"
      using True "1.prems" blit_blit_append [of "2 * i" "[?d ! 0]" "[?d ! 1]" out]
      by (simp add: list_update_blit1)
    have "hex_encode_loop b i out = hex_encode_loop b (Suc i) (blit (2 * i) ?d out)"
      using True two by (subst hex_encode_loop.simps) simp
    also have "\<dots> = blit (2 * Suc i) (hex_list (drop (Suc i) b)) (blit (2 * i) ?d out)"
      using "1.IH" [OF True] True "1.prems" two by simp
    also have "\<dots> = blit (2 * i) (?d @ hex_list (drop (Suc i) b)) out"
      using True "1.prems" blit_blit_append [of "2 * i" ?d "hex_list (drop (Suc i) b)" out] by simp
    also have "?d @ hex_list (drop (Suc i) b) = hex_list (drop i b)"
      using True by (simp flip: Cons_nth_drop_Suc)
    finally show ?thesis .
  next
    case False
    with "1.prems" show ?thesis by (subst hex_encode_loop.simps) simp
  qed
qed

lemma hex_decode_loop_blit:
  "length hex = 2 * n \<Longrightarrow> n \<le> length out \<Longrightarrow> i \<le> n \<Longrightarrow> unhex_list (drop (2 * i) hex) = Some b \<Longrightarrow>
   hex_decode_loop hex n i out = (Some n, blit i b out)"
proof (induction hex n i out arbitrary: b rule: hex_decode_loop.induct)
  case (1 hex n i out)
  show ?case
  proof (cases "i < n")
    case True
    then have "drop (2 * i) hex = hex ! (2 * i) # hex ! (2 * i + 1) # drop (2 * Suc i) hex"
      using "1.prems"(1) by (simp add: Cons_nth_drop_Suc)
    with "1.prems"(4) obtain hi lo b' where n: "nibble (hex ! (2 * i)) = Some hi"
        "nibble (hex ! (2 * i + 1)) = Some lo" "unhex_list (drop (2 * Suc i) hex) = Some b'"
        and b: "b = (push_bit 4 hi OR lo) # b'"
      by (auto split: option.splits)
    have len: "Suc i + length b' \<le> length out"
      using length_unhex_list [OF n(3)] True "1.prems"(1,2) by simp
    have "hex_decode_loop hex n i out = hex_decode_loop hex n (Suc i) (out[i := push_bit 4 hi OR lo])"
      using True n by (subst hex_decode_loop.simps) simp
    also have "\<dots> = (Some n, blit (Suc i) b' (out[i := push_bit 4 hi OR lo]))"
      using "1.IH" [OF True n(1,2)] True "1.prems" n(3) by simp
    also have "blit (Suc i) b' (out[i := push_bit 4 hi OR lo]) = blit i b out"
      using True "1.prems"(2) len blit_blit_append [of i "[push_bit 4 hi OR lo]" b' out]
      by (simp add: list_update_blit1 b)
    finally show ?thesis .
  next
    case False
    with "1.prems" have "b = []" by simp
    with False show ?thesis by (subst hex_decode_loop.simps) simp
  qed
qed

lemma hex_encode_eq:
  "hex_encode b out = (if length out < 2 * length b then (None, out)
                       else (Some (2 * length b), blit 0 (hex_list b) out))"
  by (simp add: hex_encode_def hex_encode_loop_blit mult.commute)

lemma hex_decode_eq:
  assumes "unhex_list h = Some b"
  shows "hex_decode h out = (if length out < length b then (None, out)
                             else (Some (length b), blit 0 b out))"
  using length_unhex_list [OF assms] assms by (simp add: hex_decode_def hex_decode_loop_blit)

section \<open>Properties\<close>

text \<open>C17. \<open>valid_utf8\<close> accepts exactly the byte strings that are the UTF-8 encoding of a sequence of
  Unicode scalar values: no overlong form, no surrogate and nothing above U+10FFFF is accepted, and
  every well-formed text is.\<close>

theorem valid_utf8_iff_encoding:
  "valid_utf8 b = (\<exists>cs. list_all is_scalar cs \<and> b = concat (map utf8_encode cs))"
  using valid_utf8_concat valid_utf8_decodes by blast

text \<open>Decoding what \<open>hex_encode\<close> wrote restores the bytes, whatever the two buffers held before,
  and leaves the rest of the second buffer alone.\<close>

theorem hex_decode_encode:
  assumes "hex_encode b out = (Some n, out')" and "length b \<le> length dst"
  shows "hex_decode (take n out') dst = (Some (length b), b @ drop (length b) dst)"
proof -
  have "take n out' = hex_list b"
    using assms(1) by (auto simp: hex_encode_eq blit_def split: if_splits)
  with assms(2) show ?thesis
    by (simp add: hex_decode_eq [OF unhex_hex_list] blit_def)
qed

theorem hex_decode_encode_witness:
  "hex_encode [0x2f, 0xa0] (replicate 5 0) = (Some 4, ascii ''2fa0'' @ [0])
   \<and> hex_decode (take 4 (ascii ''2fa0'' @ [0])) [9, 9, 9] = (Some 2, [0x2f, 0xa0, 9])"
proof -
  have e: "hex_encode [0x2f, 0xa0] (replicate 5 0) = (Some 4, ascii ''2fa0'' @ [0])"
    by code_simp
  show ?thesis
    using e hex_decode_encode [OF e, of "[9, 9, 9]"] by simp
qed

end
