(* ===== verification/Ws_Frame.thy ===== *)
theory Ws_Frame
  imports Wave_Prelude
begin

text \<open>
  RFC 6455 framing: \<open>modules/common/ws_frame_core.rs\<close> (header decoding, validation, masking) and the
  frame half of \<open>modules/common/ws_core.rs\<close> (the client's frame builder and whole-frame parser).
  The pointer width enters through \<open>usize_max\<close>, the largest \<open>usize\<close> of the target.
\<close>

section \<open>Opcodes\<close>

abbreviation (input) WS_OP_CONTINUATION :: byte where "WS_OP_CONTINUATION \<equiv> 0"
abbreviation (input) WS_OP_TEXT :: byte where "WS_OP_TEXT \<equiv> 1"
abbreviation (input) WS_OP_BINARY :: byte where "WS_OP_BINARY \<equiv> 2"
abbreviation (input) WS_OP_CLOSE :: byte where "WS_OP_CLOSE \<equiv> 8"
abbreviation (input) WS_OP_PING :: byte where "WS_OP_PING \<equiv> 9"
abbreviation (input) WS_OP_PONG :: byte where "WS_OP_PONG \<equiv> 10"

definition ws_is_control_opcode :: "byte \<Rightarrow> bool" where
  "ws_is_control_opcode op \<longleftrightarrow> 0x8 \<le> op"

definition ws_is_valid_opcode :: "byte \<Rightarrow> bool" where
  "ws_is_valid_opcode op \<longleftrightarrow>
     op = WS_OP_CONTINUATION \<or> op = WS_OP_TEXT \<or> op = WS_OP_BINARY \<or>
     op = WS_OP_CLOSE \<or> op = WS_OP_PING \<or> op = WS_OP_PONG"

section \<open>Masking\<close>

text \<open>
  \<open>u32::from_ne_bytes\<close> and \<open>to_ne_bytes\<close>; the flag is the byte order of the target. The loop over
  \<open>chunks_exact_mut(4)\<close> and the remainder loop are the two equations of \<open>ws_mask_loop\<close>.
\<close>

definition u32_from_ne :: "bool \<Rightarrow> bytes \<Rightarrow> u32" where
  "u32_from_ne big b = of_nat (if big then be_val b else le_val b)"

definition u32_to_ne :: "bool \<Rightarrow> u32 \<Rightarrow> bytes" where
  "u32_to_ne big w = (if big then be_bytes 4 (unat w) else le_bytes 4 (unat w))"

fun ws_mask_loop :: "bool \<Rightarrow> bytes \<Rightarrow> u32 \<Rightarrow> bytes \<Rightarrow> bytes" where
  "ws_mask_loop big key word (a # b # c # d # rest) =
     u32_to_ne big (u32_from_ne big [a, b, c, d] XOR word) @ ws_mask_loop big key word rest"
| "ws_mask_loop big key word rem = map2 (XOR) rem key"

definition ws_mask_apply :: "bool \<Rightarrow> bytes \<Rightarrow> bytes \<Rightarrow> bytes" where
  "ws_mask_apply big buf mask_key = ws_mask_loop big mask_key (u32_from_ne big mask_key) buf"

section \<open>Header decoding\<close>

record ws_header =
  wh_fin :: bool
  wh_opcode :: byte
  wh_masked :: bool
  wh_mask_key :: bytes
  wh_header_len :: nat
  wh_payload_len :: u64

datatype ws_header_parse = WsHeader ws_header | WsHeaderIncomplete | WsHeaderInvalid

text \<open>The \<open>match len7\<close>: the header length so far and the payload length, or an early return.\<close>

definition ws_ext_len :: "bytes \<Rightarrow> byte \<Rightarrow> ws_header_parse + (nat \<times> u64)" where
  "ws_ext_len buf len7 =
     (if len7 = 126 then
        if length buf < 4 then Inl WsHeaderIncomplete
        else let n = (of_nat (be_val (bslice 2 4 buf)) :: u16) in
          if n < 126 then Inl WsHeaderInvalid else Inr (4, ucast n)
      else if len7 = 127 then
        if length buf < 10 then Inl WsHeaderIncomplete
        else let v = (of_nat (be_val (bslice 2 10 buf)) :: u64) in
          if v AND push_bit 63 1 \<noteq> 0 \<or> v \<le> 0xFFFF then Inl WsHeaderInvalid else Inr (10, v)
      else Inr (2, ucast len7))"

definition ws_decode_header :: "bytes \<Rightarrow> ws_header_parse" where
  "ws_decode_header buf =
     (if length buf < 2 then WsHeaderIncomplete
      else
        let b0 = buf ! 0; b1 = buf ! 1;
            fin = (b0 AND 0x80 \<noteq> 0); rsv = b0 AND 0x70; opcode = b0 AND 0x0F;
            masked = (b1 AND 0x80 \<noteq> 0); len7 = b1 AND 0x7F
        in
          if rsv \<noteq> 0 then WsHeaderInvalid
          else if \<not> ws_is_valid_opcode opcode then WsHeaderInvalid
          else if ws_is_control_opcode opcode \<and> (\<not> fin \<or> 125 < len7) then WsHeaderInvalid
          else
            (case ws_ext_len buf len7 of
               Inl r \<Rightarrow> r
             | Inr (hl, payload_len) \<Rightarrow>
                 if masked \<and> length buf < hl + 4 then WsHeaderIncomplete
                 else
                   let mask_key = (if masked then bslice hl (hl + 4) buf else [0, 0, 0, 0]);
                       header_len = (if masked then hl + 4 else hl)
                   in
                     if 2 ^ 64 \<le> header_len + unat payload_len then WsHeaderInvalid
                     else WsHeader \<lparr> wh_fin = fin, wh_opcode = opcode, wh_masked = masked,
                                     wh_mask_key = mask_key, wh_header_len = header_len,
                                     wh_payload_len = payload_len \<rparr>))"

section \<open>Frames\<close>

text \<open>\<open>wput\<close>: the bounded append of \<open>ws_core.rs\<close>.\<close>

definition wput :: "nat \<Rightarrow> bytes \<Rightarrow> nat writer" where
  "wput pos b out =
     (if length out < pos + length b then (None, out)
      else (Some (pos + length b), blit pos b out))"

text \<open>The length field \<open>ws_frame\<close> appends after the first byte, as the list of its \<open>wput\<close>s.\<close>

definition ws_len_puts :: "nat \<Rightarrow> bytes list" where
  "ws_len_puts n =
     (if n < 126 then [[0x80 OR of_nat n]]
      else if n < 65536 then [[0x80 OR 126], be_bytes 2 (unat (of_nat n :: u16))]
      else [[0x80 OR 127], be_bytes 8 (unat (of_nat n :: u64))])"

definition ws_frame :: "bool \<Rightarrow> byte \<Rightarrow> bytes \<Rightarrow> bytes \<Rightarrow> nat writer" where
  "ws_frame big opcode payload mask_key out =
     (if out = [] then (None, out)
      else
        let n = length payload in
        wbind (puts wput 1 (ws_len_puts n @ [mask_key]))
          (\<lambda>p out'. if length out' < p + n then (None, out')
                    else (Some (p + n), blit p (ws_mask_apply big payload mask_key) (blit p payload out')))
          (out[0 := 0x80 OR (opcode AND 0x0f)]))"

record ws_frame_info =
  wf_fin :: bool
  wf_opcode :: byte
  wf_masked :: bool
  wf_payload_start :: nat
  wf_payload_end :: nat
  wf_total :: nat

datatype ws_frame_parse = WsFrame ws_frame_info | WsFrameIncomplete | WsFrameInvalid

definition ws_parse_frame_checked :: "nat \<Rightarrow> bytes \<Rightarrow> ws_frame_parse" where
  "ws_parse_frame_checked usize_max buf =
     (case ws_decode_header buf of
        WsHeaderIncomplete \<Rightarrow> WsFrameIncomplete
      | WsHeaderInvalid \<Rightarrow> WsFrameInvalid
      | WsHeader h \<Rightarrow>
          if usize_max < unat (wh_payload_len h) then WsFrameInvalid
          else
            (case checked_add_usize usize_max (wh_header_len h) (unat (wh_payload_len h)) of
               None \<Rightarrow> WsFrameInvalid
             | Some tot \<Rightarrow>
                 if length buf < tot then WsFrameIncomplete
                 else WsFrame \<lparr> wf_fin = wh_fin h, wf_opcode = wh_opcode h, wf_masked = wh_masked h,
                                wf_payload_start = wh_header_len h, wf_payload_end = tot,
                                wf_total = tot \<rparr>))"

definition ws_parse_frame :: "nat \<Rightarrow> bytes \<Rightarrow> ws_frame_info option" where
  "ws_parse_frame usize_max buf =
     (case ws_parse_frame_checked usize_max buf of WsFrame f \<Rightarrow> Some f | _ \<Rightarrow> None)"

section \<open>Masking is a byte-wise XOR with a cycling key\<close>

definition ws_mask_ref :: "bytes \<Rightarrow> bytes \<Rightarrow> bytes" where
  "ws_mask_ref key buf = map (\<lambda>i. buf ! i XOR key ! (i mod 4)) [0..<length buf]"

lemma of_nat_unat_xor_div:
  "(of_nat (unat (v XOR w) div 256 ^ n) :: byte) = of_nat (unat v div 256 ^ n) XOR of_nat (unat w div 256 ^ n)"
  for v w :: u32
proof -
  have p: "(256 :: nat) ^ n = 2 ^ (8 * n)" by (simp add: power_mult)
  have d: "(of_nat (unat x div 256 ^ n) :: byte) = ucast (drop_bit (8 * n) x)" for x :: u32
    by (simp only: p unat_drop_bit [symmetric]) simp
  show ?thesis by (simp only: d) (simp add: drop_bit_xor unsigned_xor_eq)
qed

lemma be_bytes_xor:
  "be_bytes n (unat (v XOR w)) = map2 (XOR) (be_bytes n (unat v)) (be_bytes n (unat w))" for v w :: u32
  by (induction n) (simp_all add: of_nat_unat_xor_div)

lemma u32_ne_xor:
  assumes "length x = 4" and "length k = 4"
  shows "u32_to_ne big (u32_from_ne big x XOR u32_from_ne big k) = map2 (XOR) x k"
proof (cases big)
  case True
  with assms show ?thesis
    by (simp add: u32_to_ne_def u32_from_ne_def be_bytes_xor to_from_be_bytes)
next
  case False
  have "rev (map2 (XOR) (rev x) (rev k)) = map2 (XOR) x k"
    using assms by (simp add: zip_rev rev_map [symmetric])
  with False assms show ?thesis
    using to_from_be_bytes(2) [of "rev x"] to_from_be_bytes(2) [of "rev k"]
    by (simp add: u32_to_ne_def u32_from_ne_def le_bytes_def le_val_def be_bytes_xor)
qed

lemma ws_mask_ref_Cons4:
  "ws_mask_ref k (a # b # c # d # rest) =
     [a XOR k ! 0, b XOR k ! 1, c XOR k ! 2, d XOR k ! 3] @ ws_mask_ref k rest"
proof -
  have "[0..<4] = [0, 1, 2, 3 :: nat]" by (simp add: upt_rec)
  then have "[0..<length (a # b # c # d # rest)] = [0, 1, 2, 3] @ map (\<lambda>i. i + 4) [0..<length rest]"
    using upt_add_eq_append [of 0 4 "length rest"] map_add_upt [of 4 "length rest"]
    by (simp del: upt_Suc add: add.commute flip: numeral_plus_one) (simp add: eval_nat_numeral del: upt_Suc)
  then show ?thesis
    by (simp only: ws_mask_ref_def map_append map_map) (simp add: comp_def)
qed

lemma length_4_conv: "length k = 4 \<Longrightarrow> k = [k ! 0, k ! 1, k ! 2, k ! 3]"
  by (auto simp: numeral_eq_Suc length_Suc_conv)

lemma ws_mask_ref_Nil [simp]: "ws_mask_ref k [] = []"
  by (simp add: ws_mask_ref_def)

lemma ws_mask_remainder: "length k = 4 \<Longrightarrow> length rem < 4 \<Longrightarrow> map2 (XOR) rem k = ws_mask_ref k rem"
  by (rule nth_equalityI) (auto simp: ws_mask_ref_def)

lemma ws_mask_loop_ref:
  assumes "length k = 4"
  shows "ws_mask_loop big k (u32_from_ne big k) buf = ws_mask_ref k buf"
  using assms
proof (induction big k "u32_from_ne big k" buf rule: ws_mask_loop.induct)
  case (1 big k a b c d rest)
  then have "u32_to_ne big (u32_from_ne big [a, b, c, d] XOR u32_from_ne big k) = map2 (XOR) [a, b, c, d] k"
    by (simp add: u32_ne_xor)
  moreover have "map2 (XOR) [a, b, c, d] k = [a XOR k ! 0, b XOR k ! 1, c XOR k ! 2, d XOR k ! 3]"
    using 1 by (subst length_4_conv [of k]) auto
  ultimately show ?case using 1 by (simp add: ws_mask_ref_Cons4)
qed (simp_all add: ws_mask_remainder)

lemma ws_mask_apply_ref: "length k = 4 \<Longrightarrow> ws_mask_apply big buf k = ws_mask_ref k buf"
  by (simp add: ws_mask_apply_def ws_mask_loop_ref)

lemma length_ws_mask_ref [simp]: "length (ws_mask_ref k b) = length b"
  by (simp add: ws_mask_ref_def)

lemma ws_mask_ref_twice: "ws_mask_ref k (ws_mask_ref k b) = b"
  by (rule nth_equalityI) (simp_all add: ws_mask_ref_def xor.assoc)

interpretation wp: bounded_put wput
  by unfold_locales (auto simp: wput_def)

section \<open>What a frame's bytes are\<close>

definition ws_len_bytes :: "nat \<Rightarrow> bytes" where
  "ws_len_bytes n = concat (ws_len_puts n)"

definition ws_frame_bytes :: "byte \<Rightarrow> bytes \<Rightarrow> bytes \<Rightarrow> bytes" where
  "ws_frame_bytes opcode payload key =
     (0x80 OR (opcode AND 0x0f)) # ws_len_bytes (length payload) @ key @ ws_mask_ref key payload"

lemma blit_0_Cons: "blit (Suc 0) v (out[0 := a]) = blit 0 (a # v) out" if "out \<noteq> []"
  using that by (cases out) (auto simp: blit_def)

lemma ws_frame_eq:
  assumes "length key = 4"
  shows "ws_frame big op payload key out = (Some n, out') \<longleftrightarrow>
    length (ws_frame_bytes op payload key) \<le> length out \<and>
    n = length (ws_frame_bytes op payload key) \<and> out' = blit 0 (ws_frame_bytes op payload key) out"
proof (cases "out = []")
  case True
  then show ?thesis by (simp add: ws_frame_def ws_frame_bytes_def)
next
  case False
  let ?h = "concat (ws_len_puts (length payload) @ [key])"
  let ?o = "out[0 := 0x80 OR (op AND 0x0f)]"
  have len: "1 \<le> length ?o" using False by (cases out) auto
  have two: "blit p (ws_mask_apply big payload key) (blit p payload o1) = blit p (ws_mask_ref key payload) o1"
    if "p + length payload \<le> length o1" for p o1
    using that assms by (simp add: ws_mask_apply_ref blit_def)
  have join: "blit (1 + length ?h) (ws_mask_ref key payload) (blit 1 ?h ?o)
      = blit 0 (ws_frame_bytes op payload key) out"
    if "1 + length ?h + length payload \<le> length out"
    using that False blit_blit_append [of 1 ?h "ws_mask_ref key payload" ?o]
    by (simp add: blit_0_Cons ws_frame_bytes_def ws_len_bytes_def)
  have "length (ws_frame_bytes op payload key) = 1 + length ?h + length payload"
    by (simp add: ws_frame_bytes_def ws_len_bytes_def)
  then show ?thesis
    using False len join two
    by (auto simp: ws_frame_def Let_def wbind_eq_Some wp.puts_iff split: if_splits)
qed

section \<open>Decoding what was framed\<close>

text \<open>The frames the builder is meant for: a defined opcode, a control payload of at most 125 bytes,
  a four-byte key, and a length the 63-bit length field and the target can hold.\<close>

definition ws_frame_ok :: "nat \<Rightarrow> byte \<Rightarrow> bytes \<Rightarrow> bytes \<Rightarrow> bool" where
  "ws_frame_ok usize_max op payload key \<longleftrightarrow>
     ws_is_valid_opcode op \<and> (ws_is_control_opcode op \<longrightarrow> length payload \<le> 125) \<and> length key = 4 \<and>
     length payload < 2 ^ 63 \<and> length (ws_frame_bytes op payload key) \<le> usize_max"

lemma first_byte_bits:
  assumes "ws_is_valid_opcode op"
  shows "(0x80 OR (op AND 0x0f)) AND 0x80 \<noteq> 0" "(0x80 OR (op AND 0x0f)) AND 0x70 = 0"
    "(0x80 OR (op AND 0x0f)) AND 0x0F = op"
  using assms by (auto simp: ws_is_valid_opcode_def)

lemma second_byte_bits:
  fixes x :: byte
  assumes "unat x < 128"
  shows "(0x80 OR x) AND 0x80 \<noteq> 0" "(0x80 OR x) AND 0x7F = x"
proof -
  have "x AND 0x7F = x"
    using assms by (simp add: and_low_mask word_unat_eq_iff unat_take_bit)
  then show "(0x80 OR x) AND 0x7F = x"
    by (simp add: bit.conj_disj_distrib2)
  have "(0x80 OR x) AND 0x80 = 0x80"
    by (rule bit_word_eqI) (auto simp: bit_simps)
  then show "(0x80 OR x) AND 0x80 \<noteq> 0" by simp
qed

lemma bslice_Cons2: "bslice 2 j (a # b # xs) = bslice 0 (j - 2) xs"
  by (simp add: bslice_def numeral_2_eq_2)

text \<open>The seven-bit length field and what follows it.\<close>

definition ws_len7 :: "nat \<Rightarrow> byte" where
  "ws_len7 n = (if n < 126 then of_nat n else if n < 65536 then 126 else 127)"

definition ws_len_ext :: "nat \<Rightarrow> bytes" where
  "ws_len_ext n = (if n < 126 then [] else if n < 65536 then be_bytes 2 n else be_bytes 8 n)"

lemma ws_len_bytes_split:
  assumes "n < 2 ^ 63"
  shows "ws_len_bytes n = (0x80 OR ws_len7 n) # ws_len_ext n"
proof -
  have "unat (of_nat n :: u64) = n" using assms by (simp add: unat_of_nat)
  moreover have "n < 65536 \<Longrightarrow> unat (of_nat n :: u16) = n" by (simp add: unat_of_nat)
  ultimately show ?thesis
    by (simp add: ws_len_bytes_def ws_len_puts_def ws_len7_def ws_len_ext_def)
qed

lemma unat_ws_len7: "unat (ws_len7 n) = (if n < 126 then n else if n < 65536 then 126 else 127)"
  by (simp add: ws_len7_def unat_of_nat)

lemma ws_ext_len_frame:
  assumes "n < 2 ^ 63"
  shows "ws_ext_len (b0 # b1 # ws_len_ext n @ r) (ws_len7 n) = Inr (2 + length (ws_len_ext n), of_nat n)"
proof -
  have eqs: "ws_len7 n = 126 \<longleftrightarrow> 126 \<le> n \<and> n < 65536" "ws_len7 n = 127 \<longleftrightarrow> 65536 \<le> n"
    by (simp_all add: word_unat_eq_iff unat_ws_len7)
  consider "n < 126" | "126 \<le> n" "n < 65536" | "65536 \<le> n" by linarith
  then show ?thesis
  proof cases
    case 1
    then have "(ucast (ws_len7 n) :: u64) = of_nat n"
      by (simp add: word_unat_eq_iff unat_of_nat unsigned_ucast_eq unat_ws_len7 take_bit_nat_eq_self)
    with 1 show ?thesis by (simp add: ws_ext_len_def eqs ws_len_ext_def)
  next
    case 2
    then have "(ucast (of_nat n :: u16) :: u64) = of_nat n" and "\<not> (of_nat n :: u16) < 126"
      by (simp_all add: word_less_nat_alt unat_of_nat word_unat_eq_iff unsigned_ucast_eq take_bit_nat_eq_self)
    with 2 show ?thesis
      by (simp add: ws_ext_len_def eqs ws_len_ext_def Let_def bslice_Cons2 bslice_append1 bslice_def
          be_val_be_bytes_small)
  next
    case 3
    have "\<not> bit n 63" using assms by (simp add: bit_iff_odd)
    then have "(of_nat n :: u64) AND push_bit 63 1 = 0"
      by (simp only: push_bit_of_1 and_exp_eq_0_iff_not_bit) (simp add: bit_simps)
    moreover have "\<not> (of_nat n :: u64) \<le> 0xFFFF"
      using 3 assms by (simp add: word_le_nat_alt unat_of_nat)
    ultimately show ?thesis using 3 assms
      by (simp add: ws_ext_len_def eqs ws_len_ext_def Let_def bslice_Cons2 bslice_def
          be_val_be_bytes_small)
  qed
qed

lemma ws_decode_frame_header:
  assumes ok: "ws_frame_ok usize_max op payload key"
  shows "ws_decode_header (ws_frame_bytes op payload key @ rest) =
    WsHeader \<lparr> wh_fin = True, wh_opcode = op, wh_masked = True, wh_mask_key = key,
               wh_header_len = 6 + length (ws_len_ext (length payload)),
               wh_payload_len = of_nat (length payload) \<rparr>"
proof -
  let ?n = "length payload"
  let ?b0 = "0x80 OR (op AND 0x0f)" and ?b1 = "0x80 OR ws_len7 ?n"
  let ?r = "key @ ws_mask_ref key payload @ rest"
  have n: "?n < 2 ^ 63" and op: "ws_is_valid_opcode op" and key: "length key = 4"
    and ctl: "ws_is_control_opcode op \<Longrightarrow> ?n \<le> 125"
    using ok by (auto simp: ws_frame_ok_def)
  have bytes: "ws_frame_bytes op payload key @ rest = ?b0 # ?b1 # ws_len_ext ?n @ ?r"
    using n by (simp add: ws_frame_bytes_def ws_len_bytes_split)
  have b1: "?b1 AND 0x80 \<noteq> 0" "?b1 AND 0x7F = ws_len7 ?n"
    by (rule second_byte_bits; simp add: unat_ws_len7)+
  have len: "\<not> 125 < ws_len7 ?n" if "ws_is_control_opcode op"
    using ctl [OF that] by (simp add: word_less_nat_alt unat_ws_len7)
  have "bslice (2 + length (ws_len_ext ?n)) (6 + length (ws_len_ext ?n)) (?b0 # ?b1 # ws_len_ext ?n @ ?r) = key"
    using key by (simp add: bslice_def)
  moreover have "\<not> 2 ^ 64 \<le> 6 + length (ws_len_ext ?n) + unat (of_nat ?n :: u64)"
    using n by (simp add: unat_of_nat ws_len_ext_def)
  ultimately show ?thesis
    unfolding bytes ws_decode_header_def
    using first_byte_bits [OF op] b1 len op key ws_ext_len_frame [OF n]
    by (simp add: Let_def add.assoc)
qed

lemma ws_parse_framed:
  assumes "ws_frame_ok usize_max op payload key"
  shows "ws_parse_frame_checked usize_max (ws_frame_bytes op payload key @ rest) =
    WsFrame \<lparr> wf_fin = True, wf_opcode = op, wf_masked = True,
              wf_payload_start = 6 + length (ws_len_ext (length payload)),
              wf_payload_end = length (ws_frame_bytes op payload key),
              wf_total = length (ws_frame_bytes op payload key) \<rparr>"
proof -
  have n: "length payload < 2 ^ 63" and "length key = 4"
      and u: "length (ws_frame_bytes op payload key) \<le> usize_max"
    using assms by (auto simp: ws_frame_ok_def)
  then have "length (ws_frame_bytes op payload key) = 6 + length (ws_len_ext (length payload)) + length payload"
    by (simp add: ws_frame_bytes_def ws_len_bytes_split)
  with n u show ?thesis
    by (simp add: ws_parse_frame_checked_def ws_decode_frame_header [OF assms] unat_of_nat
        checked_add_usize_def)
qed

text \<open>Reading one frame off the front of the client's accumulator and unmasking its payload.\<close>

definition ws_read_front :: "nat \<Rightarrow> bytes \<Rightarrow> ((byte \<times> bytes \<times> bytes) \<times> nat) option" where
  "ws_read_front usize_max buf =
     (case (ws_parse_frame usize_max buf, ws_decode_header buf) of
        (Some f, WsHeader h) \<Rightarrow>
          Some ((wf_opcode f,
                 ws_mask_ref (wh_mask_key h) (bslice (wf_payload_start f) (wf_payload_end f) buf),
                 wh_mask_key h), wf_total f)
      | _ \<Rightarrow> None)"

lemma ws_read_framed:
  assumes "ws_frame_ok usize_max op payload key"
  shows "ws_read_front usize_max (ws_frame_bytes op payload key @ rest) =
         Some ((op, payload, key), length (ws_frame_bytes op payload key))"
proof -
  have n: "length payload < 2 ^ 63" and k: "length key = 4"
    using assms by (auto simp: ws_frame_ok_def)
  let ?h = "(0x80 OR (op AND 0x0f)) # (0x80 OR ws_len7 (length payload)) # ws_len_ext (length payload) @ key"
  have b: "ws_frame_bytes op payload key = ?h @ ws_mask_ref key payload"
    using n by (simp add: ws_frame_bytes_def ws_len_bytes_split)
  have "bslice (length ?h) (length (ws_frame_bytes op payload key)) ((?h @ ws_mask_ref key payload) @ rest)
      = ws_mask_ref key payload"
    unfolding b append_assoc by (subst bslice_append2) (simp_all add: bslice_def)
  moreover have "length ?h = 6 + length (ws_len_ext (length payload))" using k by simp
  ultimately have "bslice (6 + length (ws_len_ext (length payload))) (length (ws_frame_bytes op payload key))
      (ws_frame_bytes op payload key @ rest) = ws_mask_ref key payload"
    unfolding b by simp
  then show ?thesis
    by (simp add: ws_read_front_def ws_parse_frame_def ws_parse_framed [OF assms]
        ws_decode_frame_header [OF assms] ws_mask_ref_twice)
qed

interpretation wsf: stream_codec "ws_read_front usize_max"
  "\<lambda>(op, payload, key). ws_frame_ok usize_max op payload key"
  "\<lambda>(op, payload, key). ws_frame_bytes op payload key"
  for usize_max
  by unfold_locales (auto simp: ws_read_framed, simp add: ws_frame_bytes_def)

section \<open>Header decisions are final\<close>

lemma ws_ext_len_mono:
  assumes "ws_ext_len buf l7 \<noteq> Inl WsHeaderIncomplete"
  shows "ws_ext_len (buf @ ext) l7 = ws_ext_len buf l7"
  using assms by (auto simp: ws_ext_len_def Let_def bslice_append1 split: if_splits)

lemma ws_ext_len_bounds:
  assumes "ws_ext_len buf l7 = Inr (hl, pl)" and "2 \<le> length buf" and "unat l7 < 128"
  shows "hl \<le> length buf \<and> hl \<in> {2, 4, 10} \<and> unat pl < 2 ^ 63 \<and>
    (hl = 2 \<longleftrightarrow> unat pl < 126) \<and> (hl = 4 \<longleftrightarrow> 126 \<le> unat pl \<and> unat pl < 65536)"
proof -
  consider "l7 = 126" | "l7 = 127" | "l7 \<noteq> 126" "l7 \<noteq> 127" by blast
  then show ?thesis
  proof cases
    case 1
    let ?n = "of_nat (be_val (bslice 2 4 buf)) :: u16"
    have "hl = 4" "pl = ucast ?n" "\<not> ?n < 126" "4 \<le> length buf"
      using assms(1) 1 by (auto simp: ws_ext_len_def Let_def split: if_splits)
    moreover have "unat (ucast ?n :: u64) = unat ?n"
      using unat_less_pow256(1) [of ?n] by (simp add: unsigned_ucast_eq take_bit_nat_eq_self)
    ultimately show ?thesis
      using unat_less_pow256(1) [of ?n] by (simp add: word_less_nat_alt)
  next
    case 2
    have v: "hl = 10" "\<not> pl \<le> 0xFFFF" "pl AND push_bit 63 1 = 0" "10 \<le> length buf"
      using assms(1) 2 by (auto simp: ws_ext_len_def Let_def split: if_splits)
    have "\<not> bit pl 63"
      using v(3) unfolding push_bit_of_1 and_exp_eq_0_iff_not_bit .
    then have "\<not> odd (unat pl div 2 ^ 63)"
      by (simp only: bit_unsigned_iff simp_thms flip: bit_iff_odd)
    moreover have "unat pl < 2 ^ 64" using unat_less_pow256(3) [of pl] by simp
    then have "unat pl div 2 ^ 63 < 2" by (simp add: less_mult_imp_div_less)
    ultimately have "unat pl div 2 ^ 63 = 0" by (auto simp: less_2_cases_iff)
    then have "unat pl < 2 ^ 63" by (simp only: div_eq_0_iff) simp
    with v show ?thesis by (simp add: word_le_nat_alt)
  next
    case 3
    then have v: "hl = 2" "pl = ucast l7" using assms(1) by (auto simp: ws_ext_len_def)
    have "unat l7 < 126" using 3 assms(3) by (auto simp: word_unat_eq_iff)
    with v assms(2) show ?thesis by (simp add: unsigned_ucast_eq take_bit_nat_eq_self)
  qed
qed

lemma ws_decode_header_final:
  assumes "ws_decode_header buf \<noteq> WsHeaderIncomplete"
  shows "ws_decode_header (buf @ ext) = ws_decode_header buf"
proof -
  have two: "2 \<le> length buf" using assms by (auto simp: ws_decode_header_def split: if_splits)
  then have nth: "(buf @ ext) ! 0 = buf ! 0" "(buf @ ext) ! 1 = buf ! 1"
    by (auto simp: nth_append)
  let ?l7 = "buf ! 1 AND 0x7F"
  show ?thesis
  proof (cases "ws_ext_len buf ?l7")
    case (Inl r)
    then show ?thesis
      using assms two ws_ext_len_mono [of buf ?l7 ext] nth
      by (cases r) (auto simp: ws_decode_header_def Let_def split: if_splits)
  next
    case (Inr hp)
    then show ?thesis
      using assms two ws_ext_len_mono [of buf ?l7 ext] nth
      by (cases hp) (auto simp: ws_decode_header_def Let_def bslice_append1 split: if_splits)
  qed
qed

lemma ws_decode_header_complete:
  assumes "14 \<le> length buf"
  shows "ws_decode_header buf \<noteq> WsHeaderIncomplete"
proof (cases "ws_ext_len buf (buf ! 1 AND 0x7F)")
  case (Inl r)
  then show ?thesis using assms
    by (auto simp: ws_decode_header_def ws_ext_len_def Let_def split: if_splits)
next
  case (Inr hp)
  moreover have "fst hp \<le> 10" using Inr by (auto simp: ws_ext_len_def Let_def split: if_splits)
  ultimately show ?thesis using assms
    by (cases hp) (auto simp: ws_decode_header_def Let_def split: if_splits)
qed

lemma ws_decode_header_facts:
  assumes "ws_decode_header buf = WsHeader h"
  shows "wh_header_len h \<le> length buf \<and> wh_header_len h \<le> 14 \<and> ws_is_valid_opcode (wh_opcode h) \<and>
    (ws_is_control_opcode (wh_opcode h) \<longrightarrow> wh_fin h \<and> unat (wh_payload_len h) \<le> 125) \<and>
    unat (wh_payload_len h) < 2 ^ 63 \<and>
    wh_header_len h = (if wh_masked h then 4 else 0) +
      (if unat (wh_payload_len h) < 126 then 2 else if unat (wh_payload_len h) < 65536 then 4 else 10)"
proof -
  let ?l7 = "buf ! 1 AND 0x7F"
  have two: "2 \<le> length buf" and op: "ws_is_valid_opcode (buf ! 0 AND 0x0F)"
    and ctl: "ws_is_control_opcode (buf ! 0 AND 0x0F) \<Longrightarrow> buf ! 0 AND 0x80 \<noteq> 0 \<and> \<not> 125 < ?l7"
    using assms by (auto simp: ws_decode_header_def Let_def split: if_splits)
  obtain hl pl where e: "ws_ext_len buf ?l7 = Inr (hl, pl)"
    and h: "wh_fin h = (buf ! 0 AND 0x80 \<noteq> 0)" "wh_opcode h = buf ! 0 AND 0x0F"
      "wh_masked h = (buf ! 1 AND 0x80 \<noteq> 0)" "wh_payload_len h = pl"
      "wh_header_len h = (if buf ! 1 AND 0x80 \<noteq> 0 then hl + 4 else hl)"
      "buf ! 1 AND 0x80 \<noteq> 0 \<Longrightarrow> hl + 4 \<le> length buf"
    using assms by (auto simp: ws_decode_header_def ws_ext_len_def Let_def split: if_splits sum.splits prod.splits)
  have l7: "unat ?l7 < 128" by (simp add: and_low_mask unat_take_bit)
  note b = ws_ext_len_bounds [OF e two l7]
  have "unat pl \<le> 125" if "\<not> 125 < ?l7"
  proof -
    from that have "?l7 \<noteq> 126" "?l7 \<noteq> 127" by auto
    with e have "hl = 2" by (auto simp: ws_ext_len_def)
    with b show ?thesis by auto
  qed
  with b op ctl h show ?thesis by auto
qed

section \<open>Properties\<close>

text \<open>Framing round trip. Whenever \<open>ws_frame\<close> writes a frame with a defined opcode (control
  payloads at most 125 bytes), the client parser finds exactly that frame at the front of any buffer
  that starts with the written bytes, and unmasking the payload range restores the payload, on targets
  of either byte order.\<close>

theorem ws_frame_roundtrip:
  assumes "ws_frame big op payload key out = (Some n, out')" and "ws_frame_ok usize_max op payload key"
  shows "\<exists>start. ws_parse_frame_checked usize_max (take n out' @ rest) =
      WsFrame \<lparr> wf_fin = True, wf_opcode = op, wf_masked = True, wf_payload_start = start,
                wf_payload_end = n, wf_total = n \<rparr> \<and>
    ws_mask_apply big (bslice start n (take n out' @ rest)) key = payload"
proof -
  have k: "length key = 4" using assms(2) by (simp add: ws_frame_ok_def)
  have n: "n = length (ws_frame_bytes op payload key)" and t: "take n out' = ws_frame_bytes op payload key"
    using assms(1) by (auto simp: ws_frame_eq [OF k] blit_def)
  let ?s = "6 + length (ws_len_ext (length payload))"
  have "ws_mask_ref key (bslice ?s n (take n out' @ rest)) = payload"
    using ws_read_framed [OF assms(2), of rest] n t
    by (simp add: ws_read_front_def ws_parse_frame_def ws_parse_framed [OF assms(2)]
        ws_decode_frame_header [OF assms(2)])
  with n t show ?thesis
    by (auto simp: ws_parse_framed [OF assms(2)] ws_mask_apply_ref [OF k])
qed

lemmas ws_frame_eval = ws_frame_eq ws_frame_bytes_def ws_len_bytes_def ws_len_puts_def ws_mask_ref_def
  ws_frame_ok_def ws_is_valid_opcode_def ws_is_control_opcode_def blit_def

theorem ws_frame_roundtrip_witness:
  "\<exists>start. ws_parse_frame_checked 4294967295 (take 8 [0x81, 0x82, 1, 2, 3, 4, 73, 107, 0] @ [7]) =
      WsFrame \<lparr> wf_fin = True, wf_opcode = 1, wf_masked = True, wf_payload_start = start,
                wf_payload_end = 8, wf_total = 8 \<rparr> \<and>
    ws_mask_apply False (bslice start 8 (take 8 [0x81, 0x82, 1, 2, 3, 4, 73, 107, 0] @ [7])) [1, 2, 3, 4]
      = [72, 105]"
proof (rule ws_frame_roundtrip)
  show "ws_frame False 1 [72, 105] [1, 2, 3, 4] (replicate 9 0) =
      (Some 8, [0x81, 0x82, 1, 2, 3, 4, 73, 107, 0])"
    by (simp add: ws_frame_eval)
  show "ws_frame_ok 4294967295 1 [72, 105] [1, 2, 3, 4]"
    by (simp add: ws_frame_eval)
qed

text \<open>C12. A stream of frames is read back frame by frame, opcode, payload and masking key of every frame,
  in order: frames that \<open>ws_frame\<close> had room to write, concatenated, each with an opcode of the protocol,
  a four-byte key, a payload of at most 125 bytes when the opcode is a control opcode and below \<open>2 ^ 63\<close>
  otherwise, and a total length that a \<open>usize\<close> can hold. (\<open>ws_frame\<close> does not check these, and the reader
  refuses a frame that breaks them.)\<close>

theorem ws_frame_stream:
  assumes "list_all2 (\<lambda>(op, payload, key) b. ws_frame_ok usize_max op payload key \<and>
      (\<exists>out n out'. ws_frame big op payload key out = (Some n, out') \<and> b = take n out')) fs bs"
  shows "rd_stream (ws_read_front usize_max) (length fs) (concat bs) = Some fs"
proof -
  have ok: "list_all (\<lambda>(op, payload, key). ws_frame_ok usize_max op payload key) fs"
    using assms by (induction rule: list_all2_induct) auto
  have "bs = map (\<lambda>(op, payload, key). ws_frame_bytes op payload key) fs"
    using assms
  proof (induction rule: list_all2_induct)
    case Nil
    then show ?case by simp
  next
    case (Cons f fs b bs)
    then show ?case by (auto simp: ws_frame_ok_def ws_frame_eq blit_def)
  qed
  with wsf.rd_stream_concat [OF ok order_refl] show ?thesis by simp
qed

theorem ws_frame_stream_witness:
  "rd_stream (ws_read_front 4294967295) (length [(9 :: byte, [5 :: byte], [1, 2, 3, 4 :: byte]), (1, [72, 105], [1, 2, 3, 4])])
     (concat [take 7 [0x89, 0x81, 1, 2, 3, 4, 4], take 8 [0x81, 0x82, 1, 2, 3, 4, 73, 107, 0]])
   = Some [(9, [5], [1, 2, 3, 4]), (1, [72, 105], [1, 2, 3, 4])]"
proof (rule ws_frame_stream [where big = True])
  have ok: "ws_frame_ok 4294967295 9 [5] [1, 2, 3, 4]" "ws_frame_ok 4294967295 1 [72, 105] [1, 2, 3, 4]"
    by (simp_all add: ws_frame_eval)
  have "ws_frame True 9 [5] [1, 2, 3, 4] (replicate 7 0) = (Some 7, [0x89, 0x81, 1, 2, 3, 4, 4])"
    and "ws_frame True 1 [72, 105] [1, 2, 3, 4] (replicate 9 0) =
        (Some 8, [0x81, 0x82, 1, 2, 3, 4, 73, 107, 0])"
    by (simp_all add: ws_frame_eval)
  with ok show "list_all2 (\<lambda>(op, payload, key) b. ws_frame_ok 4294967295 op payload key \<and>
      (\<exists>out n out'. ws_frame True op payload key out = (Some n, out') \<and> b = take n out'))
     [(9, [5], [1, 2, 3, 4]), (1, [72, 105], [1, 2, 3, 4])]
     [take 7 [0x89, 0x81, 1, 2, 3, 4, 4], take 8 [0x81, 0x82, 1, 2, 3, 4, 73, 107, 0]]"
    by (simp only: list_all2_Cons list_all2_Nil prod.case) blast
qed

text \<open>A header decision is final and never late: once \<open>ws_decode_header\<close> answers \<open>Header\<close> or
  \<open>Invalid\<close>, later bytes do not change the answer, and it has answered by the fourteenth byte, so a
  receiver that buffers on \<open>Incomplete\<close> cannot be made to buffer a malformed header forever.\<close>

theorem ws_header_decision_final:
  "(ws_decode_header buf \<noteq> WsHeaderIncomplete \<longrightarrow> ws_decode_header (buf @ ext) = ws_decode_header buf) \<and>
   (14 \<le> length buf \<longrightarrow> ws_decode_header buf \<noteq> WsHeaderIncomplete)"
  using ws_decode_header_final ws_decode_header_complete by blast

theorem ws_header_decision_final_witness:
  "ws_decode_header ([0xC1, 0] @ replicate 12 0) = WsHeaderInvalid \<and>
   ws_decode_header (replicate 14 0x82) \<noteq> WsHeaderIncomplete"
proof -
  have a: "ws_decode_header [0xC1, 0] = WsHeaderInvalid" by (simp add: ws_decode_header_def)
  show ?thesis
    using ws_header_decision_final [of "[0xC1, 0]" "replicate 12 0"] a
      ws_header_decision_final [of "replicate 14 0x82" "[]"] by simp
qed

text \<open>Every header the decoder lets through is one RFC 6455 allows: a defined opcode; control
  frames final and at most 125 bytes long; a length below 2^63 in its shortest form; and a header that
  lies inside the buffer, so adding header and payload length cannot wrap.\<close>

theorem ws_decoded_header_legal:
  assumes "ws_decode_header buf = WsHeader h"
  shows "wh_header_len h \<le> length buf \<and> wh_header_len h \<le> 14 \<and> ws_is_valid_opcode (wh_opcode h) \<and>
    (ws_is_control_opcode (wh_opcode h) \<longrightarrow> wh_fin h \<and> unat (wh_payload_len h) \<le> 125) \<and>
    wh_header_len h + unat (wh_payload_len h) < 2 ^ 64 \<and>
    wh_header_len h = (if wh_masked h then 4 else 0) +
      (if unat (wh_payload_len h) < 126 then 2 else if unat (wh_payload_len h) < 65536 then 4 else 10)"
  using ws_decode_header_facts [OF assms] by auto

theorem ws_decoded_header_legal_witness:
  "wh_header_len \<lparr> wh_fin = True, wh_opcode = 9, wh_masked = False, wh_mask_key = [0, 0, 0, 0],
                   wh_header_len = 2, wh_payload_len = 3 \<rparr> \<le> length ([0x89, 3, 1, 2, 3] :: bytes)"
proof -
  have "ws_decode_header [0x89, 3, 1, 2, 3] =
     WsHeader \<lparr> wh_fin = True, wh_opcode = 9, wh_masked = False, wh_mask_key = [0, 0, 0, 0],
                wh_header_len = 2, wh_payload_len = 3 \<rparr>"
    by (simp add: ws_decode_header_def ws_ext_len_def ws_is_valid_opcode_def)
  from ws_decoded_header_legal [OF this] show ?thesis by blast
qed

text \<open>The word-at-a-time masking is the byte-wise XOR with the cycling key of RFC 6455 section 5.3, on
  targets of either byte order, and applying it twice is the identity.\<close>

theorem ws_mask_apply_correct:
  assumes "length key = 4"
  shows "ws_mask_apply big buf key = map (\<lambda>i. buf ! i XOR key ! (i mod 4)) [0..<length buf] \<and>
    ws_mask_apply big (ws_mask_apply big buf key) key = buf"
  using assms by (simp add: ws_mask_apply_ref ws_mask_ref_twice) (simp add: ws_mask_ref_def)

theorem ws_mask_apply_correct_witness:
  "ws_mask_apply False [1, 2, 3, 4, 5] [9, 8, 7, 6] = [8, 10, 4, 2, 12]"
  using ws_mask_apply_correct [of "[9, 8, 7, 6]" False "[1, 2, 3, 4, 5]"] by simp

end
