(* ===== verification/Sframe.thy ===== *)
theory Sframe
  imports Wave_Prelude
begin

text \<open>
  \<open>modules/common/sframe_core.rs\<close>: the RFC 9605 clear header, the sealed-payload boundary, the nonce,
  and the per-key anti-replay window. The header is a self-delimiting codec; the window is compared
  with a specification that remembers every counter it accepted.
\<close>

section \<open>The anti-replay window\<close>

record replay_window =
  rw_highest :: u64
  rw_seen :: u64
  rw_initialized :: bool

definition replay_new :: replay_window where
  "replay_new = \<lparr> rw_highest = 0, rw_seen = 0, rw_initialized = False \<rparr>"

definition replay_accept :: "replay_window \<Rightarrow> u64 \<Rightarrow> bool \<times> replay_window" where
  "replay_accept w counter =
     (if \<not> rw_initialized w then
        (True, \<lparr> rw_highest = counter, rw_seen = 1, rw_initialized = True \<rparr>)
      else if rw_highest w < counter then
        let shift = counter - rw_highest w in
        (True, w\<lparr> rw_seen := (if 64 \<le> shift then 1 else push_bit (unat shift) (rw_seen w) OR 1),
                  rw_highest := counter \<rparr>)
      else
        let distance = rw_highest w - counter in
        if 64 \<le> distance then (False, w)
        else
          let b = push_bit (unat distance) 1 in
          if rw_seen w AND b \<noteq> 0 then (False, w)
          else (True, w\<lparr> rw_seen := rw_seen w OR b \<rparr>))"

definition replay_highest :: "replay_window \<Rightarrow> u64 option" where
  "replay_highest w = (if rw_initialized w then Some (rw_highest w) else None)"

section \<open>The header\<close>

abbreviation (input) SFRAME_EXTENDED_KID :: byte where "SFRAME_EXTENDED_KID \<equiv> 0b10000000"
abbreviation (input) SFRAME_EXTENDED_CTR :: byte where "SFRAME_EXTENDED_CTR \<equiv> 0b00001000"
abbreviation (input) SFRAME_INLINE_MAX :: u64 where "SFRAME_INLINE_MAX \<equiv> 7"

record sframe_header =
  sh_key_id :: u64
  sh_counter :: u64
  sh_header_len :: nat

function sframe_width_loop :: "nat \<Rightarrow> u64 \<Rightarrow> nat" where
  "sframe_width_loop width remaining =
     (if remaining \<noteq> 0 \<and> width < 8 then sframe_width_loop (width + 1) (drop_bit 8 remaining) else width)"
  by pat_completeness auto
termination
  by (relation "measure (\<lambda>(width, remaining). 8 - width)") auto

declare sframe_width_loop.simps [simp del]

definition sframe_width :: "u64 \<Rightarrow> nat" where
  "sframe_width value = sframe_width_loop 1 (drop_bit 8 value)"

definition sframe_header_len :: "u64 \<Rightarrow> u64 \<Rightarrow> nat" where
  "sframe_header_len key_id counter =
     1 + (if SFRAME_INLINE_MAX < key_id then sframe_width key_id else 0)
       + (if SFRAME_INLINE_MAX < counter then sframe_width counter else 0)"

text \<open>\<open>write_be(value, width, &mut out[at..])\<close>.\<close>

definition write_be :: "u64 \<Rightarrow> nat \<Rightarrow> nat \<Rightarrow> bytes \<Rightarrow> bytes" where
  "write_be value width at out = blit at (drop (8 - width) (be_bytes 8 (unat value))) out"

definition write_sframe_header :: "u64 \<Rightarrow> u64 \<Rightarrow> nat writer" where
  "write_sframe_header key_id counter out =
     (let extended_kid = (SFRAME_INLINE_MAX < key_id);
          extended_ctr = (SFRAME_INLINE_MAX < counter);
          key_width = (if extended_kid then sframe_width key_id else 0);
          counter_width = (if extended_ctr then sframe_width counter else 0);
          tot = 1 + key_width + counter_width
      in
        if length out < tot then (None, out)
        else
          let kid_bits = (if extended_kid
                then SFRAME_EXTENDED_KID OR push_bit 4 ((of_nat key_width - 1) AND 0x07)
                else push_bit 4 (ucast key_id AND 0x07));
              ctr_bits = (if extended_ctr
                then SFRAME_EXTENDED_CTR OR ((of_nat counter_width - 1) AND 0x07)
                else (ucast counter AND 0x07));
              out0 = out[0 := kid_bits OR ctr_bits];
              out1 = (if extended_kid then write_be key_id key_width 1 out0 else out0);
              out2 = (if extended_ctr then write_be counter counter_width (1 + key_width) out1 else out1)
          in (Some tot, out2))"

definition read_be :: "bytes \<Rightarrow> u64" where
  "read_be b = foldl (\<lambda>value byte. push_bit 8 value OR ucast byte) 0 b"

definition parse_sframe_header :: "bytes \<Rightarrow> sframe_header option" where
  "parse_sframe_header buf =
     (if buf = [] then None
      else
        let config = buf ! 0;
            extended_kid = (config AND SFRAME_EXTENDED_KID \<noteq> 0);
            extended_ctr = (config AND SFRAME_EXTENDED_CTR \<noteq> 0);
            key_field = drop_bit 4 config AND 0x07;
            counter_field = config AND 0x07;
            key_width = (if extended_kid then unat (key_field + 1) else 0);
            counter_width = (if extended_ctr then unat (counter_field + 1) else 0);
            header_len = 1 + key_width + counter_width
        in
          if length buf < header_len then None
          else Some \<lparr>
            sh_key_id = (if extended_kid then read_be (bslice 1 (1 + key_width) buf) else ucast key_field),
            sh_counter = (if extended_ctr then read_be (bslice (1 + key_width) header_len buf)
                          else ucast counter_field),
            sh_header_len = header_len \<rparr>)"

definition sframe_associated_data :: "bytes \<Rightarrow> sframe_header \<Rightarrow> bytes option" where
  "sframe_associated_data frame h =
     (if sh_header_len h \<le> length frame then Some (take (sh_header_len h) frame) else None)"

definition sframe_payload :: "bytes \<Rightarrow> sframe_header \<Rightarrow> bytes option" where
  "sframe_payload frame h =
     (if sh_header_len h \<le> length frame then Some (drop (sh_header_len h) frame) else None)"

definition sframe_nonce :: "u64 \<Rightarrow> bytes \<Rightarrow> unit writer" where
  "sframe_nonce counter salt out =
     (if length out < 8 \<or> length out \<noteq> length salt then (None, out)
      else
        let zeroed = replicate (length out) 0;
            placed = blit (length out - 8) (be_bytes 8 (unat counter)) zeroed
        in (Some (), map2 (XOR) placed salt))"

section \<open>The window refines the memory of all accepted counters\<close>

text \<open>The specification: accept the first counter, any counter above every accepted one, and any
  counter at most 63 below the highest that has not been accepted yet.\<close>

definition replay_spec :: "nat set \<Rightarrow> u64 \<Rightarrow> bool \<times> nat set" where
  "replay_spec A counter =
     (let c = unat counter in
      if A = {} \<or> Max A < c \<or> (Max A - c < 64 \<and> c \<notin> A) then (True, insert c A) else (False, A))"

definition replay_rel :: "replay_window \<Rightarrow> nat set \<Rightarrow> bool" where
  "replay_rel w A \<longleftrightarrow> finite A \<and> (rw_initialized w \<longleftrightarrow> A \<noteq> {}) \<and>
     (A \<noteq> {} \<longrightarrow> unat (rw_highest w) = Max A \<and>
        (\<forall>d < 64. bit (rw_seen w) d \<longleftrightarrow> d \<le> Max A \<and> Max A - d \<in> A))"

lemma replay_rel_new: "replay_rel replay_new {}"
  by (simp add: replay_rel_def replay_new_def)

lemma unat_sub_le: "(b :: u64) \<le> a \<Longrightarrow> unat (a - b) = unat a - unat b"
  by (simp add: unat_sub)

lemma replay_rel_first: "\<not> rw_initialized w \<Longrightarrow> replay_rel w A \<Longrightarrow>
    replay_rel \<lparr> rw_highest = c, rw_seen = 1, rw_initialized = True \<rparr> {unat c}"
  by (auto simp: replay_rel_def bit_1_iff)

lemma replay_rel_advance:
  assumes rel: "replay_rel w A" and init: "rw_initialized w" and gt: "rw_highest w < c"
  shows "replay_rel (w\<lparr> rw_seen := (if 64 \<le> c - rw_highest w then 1
      else push_bit (unat (c - rw_highest w)) (rw_seen w) OR 1), rw_highest := c \<rparr>) (insert (unat c) A)"
proof -
  let ?m = "Max A" and ?c = "unat c"
  have A: "finite A" "A \<noteq> {}" and h: "unat (rw_highest w) = ?m"
    and seen: "\<And>d. d < 64 \<Longrightarrow> bit (rw_seen w) d \<longleftrightarrow> d \<le> ?m \<and> ?m - d \<in> A"
    using rel init by (auto simp: replay_rel_def)
  have lt: "?m < ?c" using gt h by (simp add: word_less_nat_alt)
  have s: "unat (c - rw_highest w) = ?c - ?m" using gt h by (simp add: unat_sub_le)
  have le: "a \<le> ?m" if "a \<in> A" for a using A that by simp
  have max: "Max (insert ?c A) = ?c" using A lt by simp
  have "bit (if 64 \<le> c - rw_highest w then 1 else push_bit (unat (c - rw_highest w)) (rw_seen w) OR 1 :: u64) d
      \<longleftrightarrow> d \<le> ?c \<and> ?c - d \<in> insert ?c A" if d: "d < 64" for d
  proof (cases "?c - ?m \<le> d")
    case True
    then have "64 > ?c - ?m" using d by simp
    moreover have "?c - d = ?m - (d - (?c - ?m))" using True lt by simp
    moreover have "d \<le> ?c \<longleftrightarrow> d - (?c - ?m) \<le> ?m" using True lt by auto
    ultimately show ?thesis using True d seen [of "d - (?c - ?m)"] lt
      by (auto simp: s word_le_nat_alt bit_simps)
  next
    case False
    then have "?c - d \<in> A \<Longrightarrow> d = 0" using le [of "?c - d"] lt by linarith
    then show ?thesis using False d lt
      by (auto simp: s word_le_nat_alt bit_simps)
  qed
  with A max init show ?thesis by (simp add: replay_rel_def)
qed

lemma replay_rel_inside:
  assumes rel: "replay_rel w A" and init: "rw_initialized w" and le: "c \<le> rw_highest w"
    and near: "\<not> 64 \<le> rw_highest w - c"
  shows "rw_seen w AND push_bit (unat (rw_highest w - c)) 1 \<noteq> 0 \<longleftrightarrow> unat c \<in> A"
    and "replay_rel (w\<lparr> rw_seen := rw_seen w OR push_bit (unat (rw_highest w - c)) 1 \<rparr>) (insert (unat c) A)"
proof -
  let ?m = "Max A" and ?c = "unat c"
  have A: "finite A" "A \<noteq> {}" and h: "unat (rw_highest w) = ?m"
    and seen: "\<And>d. d < 64 \<Longrightarrow> bit (rw_seen w) d \<longleftrightarrow> d \<le> ?m \<and> ?m - d \<in> A"
    using rel init by (auto simp: replay_rel_def)
  have s: "unat (rw_highest w - c) = ?m - ?c" using le h by (simp add: unat_sub_le)
  have c: "?c \<le> ?m" using le h by (simp add: word_le_nat_alt)
  have d: "?m - ?c < 64" using near s by (simp add: word_le_nat_alt)
  show "rw_seen w AND push_bit (unat (rw_highest w - c)) 1 \<noteq> 0 \<longleftrightarrow> ?c \<in> A"
    unfolding push_bit_of_1 and_exp_eq_0_iff_not_bit using seen [OF d] c by (simp add: s)
  have "Max (insert ?c A) = ?m" using A c by simp
  moreover have "bit (rw_seen w OR push_bit (unat (rw_highest w - c)) 1) k \<longleftrightarrow>
      k \<le> ?m \<and> ?m - k \<in> insert ?c A" if "k < 64" for k
    using that seen [OF that] c unfolding push_bit_of_1
    by (auto simp: s bit_simps)
  ultimately show "replay_rel (w\<lparr> rw_seen := rw_seen w OR push_bit (unat (rw_highest w - c)) 1 \<rparr>)
      (insert ?c A)"
    using A h init by (simp add: replay_rel_def)
qed

lemma replay_step:
  assumes rel: "replay_rel w A"
  shows "fst (replay_accept w c) = fst (replay_spec A c) \<and>
         replay_rel (snd (replay_accept w c)) (snd (replay_spec A c))"
proof (cases "rw_initialized w")
  case False
  then show ?thesis
    using replay_rel_first [OF False rel] rel by (simp add: replay_accept_def replay_spec_def replay_rel_def)
next
  case init: True
  have A: "A \<noteq> {}" and h: "unat (rw_highest w) = Max A" using rel init by (auto simp: replay_rel_def)
  show ?thesis
  proof (cases "rw_highest w < c")
    case True
    then have "Max A < unat c" using h by (simp add: word_less_nat_alt)
    with True init show ?thesis
      using replay_rel_advance [OF rel init True] by (simp add: replay_accept_def replay_spec_def Let_def)
  next
    case False
    then have le: "c \<le> rw_highest w" by simp
    have s: "64 \<le> rw_highest w - c \<longleftrightarrow> 64 \<le> Max A - unat c"
      using le h by (simp add: word_le_nat_alt unat_sub_le)
    have le': "\<not> Max A < unat c" using le h by (simp add: word_le_nat_alt)
    show ?thesis
    proof (cases "64 \<le> rw_highest w - c")
      case True
      with False init A le' s rel show ?thesis
        by (simp add: replay_accept_def replay_spec_def Let_def)
    next
      case near: False
      note inside = replay_rel_inside [OF rel init le near]
      from False near init A le' s rel inside show ?thesis
        by (simp add: replay_accept_def replay_spec_def Let_def)
    qed
  qed
qed

interpretation rw: machine_refines replay_accept replay_spec replay_rel
  by unfold_locales (simp_all add: replay_step)

text \<open>The specification accepts no counter twice.\<close>

lemma replay_spec_accepted:
  "finite A \<Longrightarrow> c \<in> A \<Longrightarrow> fst (replay_spec A w) \<Longrightarrow> unat w \<noteq> c"
  by (auto simp: replay_spec_def Let_def split: if_splits dest: Max_ge)

lemma replay_spec_distinct:
  "finite A \<Longrightarrow>
   let acc = map fst (filter snd (zip cs (fst (run replay_spec A cs)))) in
   distinct acc \<and> (\<forall>x\<in>set acc. unat x \<notin> A)"
proof (induction cs arbitrary: A)
  case Nil
  then show ?case by simp
next
  case (Cons c cs)
  have fin: "finite (snd (replay_spec A c))"
    using Cons.prems by (simp add: replay_spec_def Let_def)
  note IH = Cons.IH [OF fin, unfolded Let_def]
  show ?case
  proof (cases "fst (replay_spec A c)")
    case True
    then have A': "snd (replay_spec A c) = insert (unat c) A"
      by (auto simp: replay_spec_def Let_def split: if_splits)
    let ?acc = "map fst (filter snd (zip cs (fst (run replay_spec (insert (unat c) A) cs))))"
    have d: "distinct ?acc" and n: "\<forall>x\<in>set ?acc. unat x \<notin> insert (unat c) A"
      using IH A' by auto
    then have "c \<notin> set ?acc" by blast
    moreover have "unat c \<notin> A" using replay_spec_accepted [OF Cons.prems _ True] by blast
    moreover have "map fst (filter snd (zip (c # cs) (fst (run replay_spec A (c # cs))))) = c # ?acc"
      using True A' by (simp add: Let_def)
    ultimately show ?thesis using d n by (simp only: Let_def) auto
  next
    case False
    then have "snd (replay_spec A c) = A" by (auto simp: replay_spec_def Let_def split: if_splits)
    with False IH show ?thesis by (simp add: Let_def)
  qed
qed

section \<open>Header coding\<close>

lemma read_be_val: "length b \<le> 8 \<Longrightarrow> unat (read_be b) = be_val b"
proof (induction b rule: rev_induct)
  case Nil
  then show ?case by (simp add: read_be_def)
next
  case (snoc x xs)
  have v: "be_val xs < 256 ^ length xs" by (rule be_val_less)
  also have "(256::nat) ^ length xs \<le> 256 ^ 7" using snoc.prems by (intro power_increasing) auto
  finally have "unat (read_be xs) * 2 ^ 8 < 2 ^ LENGTH(64)" using snoc by simp
  moreover have "unat (ucast x :: u64) = unat x"
    using byte_unat_less [of x] by (simp add: unsigned_ucast_eq take_bit_nat_eq_self del: byte_unat_less)
  ultimately have "unat (push_bit 8 (read_be xs) OR ucast x) = unat (read_be xs) * 2 ^ 8 + unat x"
    using unat_push_or [of "read_be xs" 8 "ucast x"] by simp
  with snoc show ?case by (simp add: read_be_def be_val_append)
qed

lemma drop_be_bytes: "w \<le> n \<Longrightarrow> drop (n - w) (be_bytes n v) = be_bytes w v"
proof (induction n)
  case 0
  then show ?case by simp
next
  case (Suc n)
  then show ?case by (cases "w = Suc n") (auto simp: Suc_diff_le)
qed

lemma sframe_width_loop_spec:
  "width \<le> 8 \<Longrightarrow> unat r < 256 ^ (8 - width) \<Longrightarrow>
   width \<le> sframe_width_loop width r \<and> sframe_width_loop width r \<le> 8 \<and>
   unat r < 256 ^ (sframe_width_loop width r - width) \<and>
   (width < sframe_width_loop width r \<longrightarrow> 256 ^ (sframe_width_loop width r - width - 1) \<le> unat r)"
proof (induction width r rule: sframe_width_loop.induct)
  case (1 width r)
  show ?case
  proof (cases "r \<noteq> 0 \<and> width < 8")
    case True
    let ?w = "sframe_width_loop (width + 1) (drop_bit 8 r)"
    have r: "unat (drop_bit 8 r) = unat r div 256" by (simp add: unat_drop_bit)
    have "8 - width = Suc (8 - (width + 1))" using True by linarith
    then have "(256::nat) ^ (8 - width) = 256 * 256 ^ (8 - (width + 1))" by (metis power_Suc)
    then have "unat (drop_bit 8 r) < 256 ^ (8 - (width + 1))"
      using "1.prems" by (simp add: r less_mult_imp_div_less mult.commute)
    note IH = "1.IH" [OF True _ this]
    have e: "sframe_width_loop width r = ?w" using True by (subst sframe_width_loop.simps) simp
    have w: "width + 1 \<le> ?w" "?w \<le> 8" using IH True by auto
    then have p: "(256::nat) ^ (?w - width) = 256 * 256 ^ (?w - (width + 1))"
      by (simp flip: power_Suc add: Suc_diff_le)
    have "unat r div 256 < 256 ^ (?w - (width + 1))" using IH True r by auto
    then have up: "unat r < 256 ^ (?w - width)" using p by (simp add: div_less_iff_less_mult mult.commute)
    have "256 ^ (?w - width - 1) \<le> unat r"
    proof (cases "width + 1 < ?w")
      case True
      then have "256 ^ (?w - (width + 1) - 1) \<le> unat r div 256" using IH w r by auto
      then have "256 * 256 ^ (?w - (width + 1) - 1) \<le> unat r"
        by (metis mult_le_mono2 times_div_less_eq_dividend order_trans)
      moreover have "256 * 256 ^ (?w - (width + 1) - 1) = (256::nat) ^ (?w - width - 1)"
        using True by (simp flip: power_Suc)
      ultimately show ?thesis by simp
    next
      case False
      then have "?w - width - 1 = 0" using w by simp
      moreover have "1 \<le> unat r" using True by (simp add: Suc_le_eq unat_gt_0)
      ultimately show ?thesis by simp
    qed
    with e w up show ?thesis by simp
  next
    case False
    then have "sframe_width_loop width r = width" by (subst sframe_width_loop.simps) auto
    with False "1.prems" show ?thesis by auto
  qed
qed

lemma sframe_width_bounds:
  "1 \<le> sframe_width v" "sframe_width v \<le> 8" "unat v < 256 ^ sframe_width v"
  "1 < sframe_width v \<Longrightarrow> 256 ^ (sframe_width v - 1) \<le> unat v"
proof -
  have d: "unat (drop_bit 8 v) = unat v div 256" by (simp add: unat_drop_bit)
  have "unat (drop_bit 8 v) < 256 ^ (8 - 1)"
    using unat_less_pow256(3) [of v] by (simp add: d)
  note w = sframe_width_loop_spec [of 1 "drop_bit 8 v", OF _ this, folded sframe_width_def]
  then show "1 \<le> sframe_width v" "sframe_width v \<le> 8" by auto
  have p: "256 * 256 ^ (sframe_width v - 1) = (256::nat) ^ sframe_width v"
    using w by (metis One_nat_def le_add_diff_inverse one_le_numeral order_refl plus_1_eq_Suc power_Suc)
  have "unat v div 256 < 256 ^ (sframe_width v - 1)" using w d by simp
  then have "unat v < 256 ^ (sframe_width v - 1) * 256" by (simp add: div_less_iff_less_mult)
  with p show "unat v < 256 ^ sframe_width v" by simp
  assume g: "1 < sframe_width v"
  then have "256 ^ (sframe_width v - 1 - 1) \<le> unat v div 256" using w d by simp
  then have "256 * 256 ^ (sframe_width v - 1 - 1) \<le> unat v"
    by (metis mult_le_mono2 times_div_less_eq_dividend order_trans)
  moreover have "256 * 256 ^ (sframe_width v - 1 - 1) = (256::nat) ^ (sframe_width v - 1)"
    using g by (simp flip: power_Suc)
  ultimately show "256 ^ (sframe_width v - 1) \<le> unat v" by simp
qed

text \<open>The four-bit field of the config byte and the bytes after it, for one of the two numbers.\<close>

definition sframe_nib :: "u64 \<Rightarrow> byte" where
  "sframe_nib v = (if 7 < v then 8 OR take_bit 3 (of_nat (sframe_width v) - 1) else take_bit 3 (ucast v))"

definition sframe_tail :: "u64 \<Rightarrow> bytes" where
  "sframe_tail v = (if 7 < v then be_bytes (sframe_width v) (unat v) else [])"

definition sframe_enc :: "u64 \<times> u64 \<Rightarrow> bytes" where
  "sframe_enc kc = (push_bit 4 (sframe_nib (fst kc)) OR sframe_nib (snd kc))
     # sframe_tail (fst kc) @ sframe_tail (snd kc)"

lemma bit_8_iff: "bit (8 :: byte) n \<longleftrightarrow> n = 3"
proof -
  have "(8 :: byte) = 2 ^ 3" by simp
  then show ?thesis by (simp only: bit_exp_iff) auto
qed

lemma sframe_nib_bits:
  "\<not> bit (sframe_nib v) (n + 4)" "bit (sframe_nib v) 3 \<longleftrightarrow> 7 < v"
  "take_bit 3 (sframe_nib v) = take_bit 3 (if 7 < v then of_nat (sframe_width v) - 1 else ucast v)"
proof -
  have b: "bit (sframe_nib v) k \<longleftrightarrow> (7 < v \<and> k = 3) \<or>
      (k < 3 \<and> bit (if 7 < v then of_nat (sframe_width v) - 1 else ucast v :: byte) k)" for k
    unfolding sframe_nib_def by (cases "7 < v") (simp_all only: if_True if_False bit_or_iff bit_take_bit_iff bit_8_iff, auto)
  show "\<not> bit (sframe_nib v) (n + 4)" "bit (sframe_nib v) 3 \<longleftrightarrow> 7 < v" by (simp_all only: b) auto
  show "take_bit 3 (sframe_nib v) = take_bit 3 (if 7 < v then of_nat (sframe_width v) - 1 else ucast v)"
    by (rule bit_word_eqI) (simp only: bit_take_bit_iff b, auto)
qed

lemma sframe_config_fields:
  fixes a b :: byte
  assumes "\<And>n. \<not> bit a (n + 4)" and "\<And>n. \<not> bit b (n + 4)"
  shows "(push_bit 4 a OR b) AND 128 \<noteq> 0 \<longleftrightarrow> bit a 3" and "(push_bit 4 a OR b) AND 8 \<noteq> 0 \<longleftrightarrow> bit b 3"
    and "drop_bit 4 (push_bit 4 a OR b) AND 7 = take_bit 3 a" and "(push_bit 4 a OR b) AND 7 = take_bit 3 b"
proof -
  have high: "\<not> bit b k" if "4 \<le> k" for k using assms(2) [of "k - 4"] that by simp
  have x: "(x :: byte) AND 128 \<noteq> 0 \<longleftrightarrow> bit x 7" "x AND 8 \<noteq> 0 \<longleftrightarrow> bit x 3" for x
  proof -
    have "(128 :: byte) = 2 ^ 7" "(8 :: byte) = 2 ^ 3" by simp_all
    then show "x AND 128 \<noteq> 0 \<longleftrightarrow> bit x 7" "x AND 8 \<noteq> 0 \<longleftrightarrow> bit x 3"
      by (simp_all only: and_exp_eq_0_iff_not_bit not_not)
  qed
  show "(push_bit 4 a OR b) AND 128 \<noteq> 0 \<longleftrightarrow> bit a 3" "(push_bit 4 a OR b) AND 8 \<noteq> 0 \<longleftrightarrow> bit b 3"
    unfolding x using high [of 7] by (simp_all add: bit_or_iff bit_push_bit_iff)
  show "drop_bit 4 (push_bit 4 a OR b) AND 7 = take_bit 3 a"
    unfolding and_low_mask by (rule bit_word_eqI) (auto simp: bit_simps high)
  show "(push_bit 4 a OR b) AND 7 = take_bit 3 b"
    unfolding and_low_mask by (rule bit_word_eqI) (auto simp: bit_simps)
qed

lemma sframe_field_value:
  "7 < v \<Longrightarrow> unat (take_bit 3 (of_nat (sframe_width v) - 1 :: byte) + 1) = sframe_width v"
  "\<not> 7 < v \<Longrightarrow> ucast (take_bit 3 (ucast v :: byte)) = v"
proof -
  have "sframe_width v \<in> {1, 2, 3, 4, 5, 6, 7, 8}" using sframe_width_bounds(1,2) [of v] by auto
  then show "unat (take_bit 3 (of_nat (sframe_width v) - 1 :: byte) + 1) = sframe_width v" by auto
  assume "\<not> 7 < v"
  then have "unat v \<le> 7" by (simp add: word_less_nat_alt)
  then have "unat (ucast v :: byte) = unat v" by (simp add: unsigned_ucast_eq take_bit_nat_eq_self)
  then have "unat (take_bit 3 (ucast v :: byte)) = unat v" using \<open>unat v \<le> 7\<close> by (simp add: unat_take_bit)
  then have "unat (ucast (take_bit 3 (ucast v :: byte)) :: u64) = unat v"
    using \<open>unat v \<le> 7\<close> by (simp add: unsigned_ucast_eq take_bit_nat_eq_self)
  then show "ucast (take_bit 3 (ucast v :: byte)) = v" by (rule unsigned_word_eqI)
qed

lemma read_be_tail: "7 < v \<Longrightarrow> read_be (sframe_tail v) = v"
proof (rule unsigned_word_eqI)
  assume "7 < v"
  then show "unat (read_be (sframe_tail v)) = unat v"
    using sframe_width_bounds [of v] by (simp add: read_be_val sframe_tail_def be_val_be_bytes_small)
qed

lemma length_sframe_tail: "length (sframe_tail v) = (if 7 < v then sframe_width v else 0)"
  by (simp add: sframe_tail_def)

lemma length_sframe_enc: "length (sframe_enc (k, c)) = sframe_header_len k c"
  by (simp add: sframe_enc_def sframe_header_len_def length_sframe_tail)

lemma parse_sframe_enc:
  "parse_sframe_header (sframe_enc (k, c) @ rest) =
   Some \<lparr> sh_key_id = k, sh_counter = c, sh_header_len = sframe_header_len k c \<rparr>"
proof -
  let ?cfg = "push_bit 4 (sframe_nib k) OR sframe_nib c"
  note f = sframe_config_fields [OF sframe_nib_bits(1) sframe_nib_bits(1), of k c]
  have kb: "?cfg AND 128 \<noteq> 0 \<longleftrightarrow> 7 < k" "?cfg AND 8 \<noteq> 0 \<longleftrightarrow> 7 < c"
    using f sframe_nib_bits(2) by simp_all
  have kf: "drop_bit 4 ?cfg AND 7 = take_bit 3 (if 7 < k then of_nat (sframe_width k) - 1 else ucast k)"
    "?cfg AND 7 = take_bit 3 (if 7 < c then of_nat (sframe_width c) - 1 else ucast c)"
    using f sframe_nib_bits(3) by simp_all
  have buf: "sframe_enc (k, c) @ rest = ?cfg # sframe_tail k @ sframe_tail c @ rest"
    by (simp add: sframe_enc_def)
  have s1: "bslice 1 (1 + length (sframe_tail k)) (?cfg # sframe_tail k @ sframe_tail c @ rest) = sframe_tail k"
    by (simp add: bslice_def)
  have s2: "bslice (1 + length (sframe_tail k)) (1 + length (sframe_tail k) + length (sframe_tail c))
      (?cfg # sframe_tail k @ sframe_tail c @ rest) = sframe_tail c"
    by (simp add: bslice_def)
  show ?thesis
    unfolding parse_sframe_header_def buf Let_def nth_Cons_0 kb kf
    using s1 s2 read_be_tail [of k] read_be_tail [of c] sframe_field_value [of k] sframe_field_value [of c]
    by (auto simp: length_sframe_tail sframe_header_len_def)
qed

lemma write_sframe_header_eq:
  "write_sframe_header k c out =
   (if length out < sframe_header_len k c then (None, out)
    else (Some (sframe_header_len k c), blit 0 (sframe_enc (k, c)) out))"
proof -
  have t: "drop (8 - sframe_width v) (be_bytes 8 (unat v)) = be_bytes (sframe_width v) (unat v)" for v
    using sframe_width_bounds(2) [of v] by (rule drop_be_bytes)
  have b0: "out[0 := x] = blit 0 [x] out" if "out \<noteq> []" for x using that by (cases out) (simp_all add: blit_def)
  have b1: "1 + length a \<le> length out \<Longrightarrow> blit 1 a (blit 0 [x] out) = blit 0 (x # a) out" for x a
    using blit_blit_append [of 0 "[x]" a out] by simp
  have b2: "1 + length a + length b \<le> length out \<Longrightarrow> blit (1 + length a) b (blit 0 (x # a) out) = blit 0 (x # a @ b) out" for x a b
    using blit_blit_append [of 0 "x # a" b out] by simp
  have n: "push_bit 4 (sframe_nib v) = (if 7 < v then 0b10000000 OR push_bit 4 ((of_nat (if 7 < v then sframe_width v else 0) - 1) AND 7)
      else push_bit 4 (ucast v AND 7))"
    "sframe_nib v = (if 7 < v then 0b00001000 OR ((of_nat (if 7 < v then sframe_width v else 0) - 1) AND 7) else ucast v AND 7)" for v
    unfolding sframe_nib_def and_low_mask by (simp_all add: push_bit_or)
  show ?thesis
  proof (cases "length out < sframe_header_len k c")
    case True
    then show ?thesis by (simp add: write_sframe_header_def sframe_header_len_def)
  next
    case False
    then have ne: "out \<noteq> []" and len: "1 + length (sframe_tail k) + length (sframe_tail c) \<le> length out"
      by (auto simp: sframe_header_len_def length_sframe_tail)
    have wk: "(if 7 < k then write_be k (if 7 < k then sframe_width k else 0) 1 (blit 0 [x] out) else blit 0 [x] out)
        = blit 0 (x # sframe_tail k) out" for x
      using len b1 [of "sframe_tail k" x]
      by (cases "7 < k") (simp_all add: write_be_def t sframe_tail_def)
    have wc: "(if 7 < c then write_be c (if 7 < c then sframe_width c else 0) (1 + (if 7 < k then sframe_width k else 0))
          (blit 0 (x # sframe_tail k) out) else blit 0 (x # sframe_tail k) out)
        = blit 0 (x # sframe_tail k @ sframe_tail c) out" for x
      using len b2 [of "sframe_tail k" "sframe_tail c" x]
      by (cases "7 < k"; cases "7 < c") (simp_all add: write_be_def t sframe_tail_def)
    show ?thesis
      using False
      unfolding write_sframe_header_def Let_def n(1) [symmetric] n(2) [symmetric] b0 [OF ne] wk wc
      by (simp add: sframe_header_len_def sframe_enc_def)
  qed
qed

interpretation sfh: stream_codec
  "\<lambda>b. map_option (\<lambda>h. ((sh_key_id h, sh_counter h), sh_header_len h)) (parse_sframe_header b)"
  "\<lambda>_. True" sframe_enc
proof
  fix a :: "u64 \<times> u64" and rest
  show "map_option (\<lambda>h. ((sh_key_id h, sh_counter h), sh_header_len h))
      (parse_sframe_header (sframe_enc a @ rest)) = Some (a, length (sframe_enc a))"
    by (cases a) (simp add: parse_sframe_enc length_sframe_enc)
  show "sframe_enc a \<noteq> []" by (simp add: sframe_enc_def)
qed

section \<open>The nonce\<close>

lemma map2_xor_inj:
  fixes s :: "'a::len word list"
  shows "length a = length s \<Longrightarrow> length b = length s \<Longrightarrow> map2 (XOR) a s = map2 (XOR) b s \<Longrightarrow> a = b"
proof (induction s arbitrary: a b)
  case Nil
  then show ?case by simp
next
  case (Cons x s)
  then obtain y ys z zs where ab: "a = y # ys" "b = z # zs" by (auto simp: length_Suc_conv)
  with Cons.prems have "y = z" by (auto intro: word_xor_cancel)
  with ab Cons show ?case by simp
qed

lemma sframe_nonce_eq:
  "8 \<le> length out \<Longrightarrow> length out = length salt \<Longrightarrow>
   sframe_nonce c salt out =
     (Some (), map2 (XOR) (replicate (length salt - 8) 0 @ be_bytes 8 (unat c)) salt)"
  by (simp add: sframe_nonce_def Let_def blit_def min_absorb1)

section \<open>Properties\<close>

text \<open>C5. The 64-bit sliding window answers exactly as a receiver that remembers every counter it
  ever accepted: for every sequence of counters presented to a fresh window, its verdicts are those
  of the specification (accept the first counter, a counter above all accepted ones, and an
  unaccepted one at most 63 below the highest).\<close>

theorem replay_window_refines_memory:
  "fst (run replay_accept replay_new cs) = fst (run replay_spec {} cs)"
  using rw.run_refines [OF replay_rel_new] by simp

text \<open>No counter is accepted twice, however the counters are ordered, repeated or spread: the
  subsequence of accepted counters has no duplicate.\<close>

theorem replay_no_counter_accepted_twice:
  "distinct (map fst (filter snd (zip cs (fst (run replay_accept replay_new cs)))))"
  using rw.run_refines [OF replay_rel_new, of cs] replay_spec_distinct [of "{}" cs]
  by (simp add: Let_def)

text \<open>Header round trip: a header is written exactly when the buffer holds
  \<open>sframe_header_len\<close> bytes, it writes that many bytes and nothing after them, and whatever
  payload follows, the reader gives back the key identifier, the counter and that length, so the
  associated data is the written header and the payload is what follows.\<close>

theorem sframe_header_roundtrip:
  assumes "sframe_header_len k c \<le> length out"
  obtains out' where
    "write_sframe_header k c out = (Some (sframe_header_len k c), out')"
    and "drop (sframe_header_len k c) out' = drop (sframe_header_len k c) out"
    and "\<forall>payload. \<exists>h. let frame = take (sframe_header_len k c) out' @ payload in
      parse_sframe_header frame = Some h \<and> sh_key_id h = k \<and> sh_counter h = c \<and>
      sframe_associated_data frame h = Some (take (sframe_header_len k c) out') \<and>
      sframe_payload frame h = Some payload"
proof -
  have len: "0 + length (sframe_enc (k, c)) \<le> length out" using assms by (simp add: length_sframe_enc)
  let ?out = "blit 0 (sframe_enc (k, c)) out"
  have t: "take (sframe_header_len k c) ?out = sframe_enc (k, c)"
    using take_blit_end [OF len] by (simp add: length_sframe_enc)
  show thesis
  proof (rule that)
    show "write_sframe_header k c out = (Some (sframe_header_len k c), ?out)"
      using assms by (simp add: write_sframe_header_eq)
    show "drop (sframe_header_len k c) ?out = drop (sframe_header_len k c) out"
      using drop_blit_above [OF len] by (simp add: length_sframe_enc)
    show "\<forall>payload. \<exists>h. let frame = take (sframe_header_len k c) ?out @ payload in
      parse_sframe_header frame = Some h \<and> sh_key_id h = k \<and> sh_counter h = c \<and>
      sframe_associated_data frame h = Some (take (sframe_header_len k c) ?out) \<and>
      sframe_payload frame h = Some payload"
      unfolding t by (auto simp: Let_def parse_sframe_enc sframe_associated_data_def sframe_payload_def
          simp flip: length_sframe_enc)
  qed
qed

theorem sframe_header_roundtrip_witness:
  "\<exists>out'. write_sframe_header 300 5 [0, 0, 0, 9] = (Some (sframe_header_len 300 5), out') \<and>
     drop (sframe_header_len 300 5) out' = drop (sframe_header_len 300 5) [0, 0, 0, 9]"
proof -
  have "sframe_header_len 300 5 \<le> length [0, 0, 0, 9 :: byte]"
    by (simp add: sframe_header_len_def sframe_width_def sframe_width_loop.simps)
  from sframe_header_roundtrip [OF this] show ?thesis by blast
qed

text \<open>Nonces do not repeat: under one salt of at least eight bytes, two frames whose nonces are
  equal have the same counter, whatever the nonce buffers held before.\<close>

theorem sframe_nonce_injective:
  assumes "8 \<le> length salt" and "length out1 = length salt" and "length out2 = length salt"
    and "snd (sframe_nonce c1 salt out1) = snd (sframe_nonce c2 salt out2)"
  shows "c1 = c2"
proof -
  have "be_bytes 8 (unat c1) = be_bytes 8 (unat c2)"
    using assms map2_xor_inj [of "replicate (length salt - 8) 0 @ be_bytes 8 (unat c1)" salt
        "replicate (length salt - 8) 0 @ be_bytes 8 (unat c2)"]
    by (simp add: sframe_nonce_eq)
  then show ?thesis by (metis from_to_be_bytes(3))
qed

theorem sframe_nonce_injective_witness:
  "snd (sframe_nonce 1 (replicate 12 7) (replicate 12 0)) \<noteq> snd (sframe_nonce 2 (replicate 12 7) (replicate 12 9))"
  using sframe_nonce_injective [of "replicate 12 7" "replicate 12 0" "replicate 12 9" 1 2] by auto

end
