(* ===== verification/Jitter.thy ===== *)
theory Jitter
  imports Wave_Prelude
begin

text \<open>
  \<open>modules/common/jitter_core.rs\<close>: the RTP receive reorder window, a ring of sixteen slots keyed by
  sequence number modulo sixteen. The ring is shown to refine a queue indexed by distance from the
  next sequence number to be released, and to report every gap in what it releases.
\<close>

section \<open>The ring\<close>

abbreviation (input) JITTER_SLOT_SIZE :: nat where "JITTER_SLOT_SIZE \<equiv> 1460"
abbreviation (input) JITTER_MAX_SLOTS :: nat where "JITTER_MAX_SLOTS \<equiv> 16"

record jitter_packet_meta =
  jm_timestamp :: u32
  jm_ssrc :: u32
  jm_payload_type :: byte
  jm_marker :: bool
  jm_codec :: byte

record jslot =
  js_data :: bytes
  js_seq :: u16
  js_len :: u16
  js_full :: bool
  js_meta :: jitter_packet_meta

definition jslot_empty :: jslot where
  "jslot_empty = \<lparr> js_data = replicate JITTER_SLOT_SIZE 0, js_seq = 0, js_len = 0, js_full = False,
     js_meta = \<lparr> jm_timestamp = 0, jm_ssrc = 0, jm_payload_type = 0, jm_marker = False, jm_codec = 0 \<rparr> \<rparr>"

record jreleased =
  jr_seq :: u16
  jr_meta :: jitter_packet_meta
  jr_payload :: bytes
  jr_lost_before :: bool

record jitter_buffer =
  jb_slots :: "jslot list"
  jb_next_seq :: u16
  jb_based :: bool
  jb_fill_count :: u16
  jb_skipped :: bool
  jb_packets_received :: u32
  jb_packets_lost :: u32

definition jitter_new :: jitter_buffer where
  "jitter_new = \<lparr> jb_slots = replicate JITTER_MAX_SLOTS jslot_empty, jb_next_seq = 0, jb_based = False,
     jb_fill_count = 0, jb_skipped = False, jb_packets_received = 0, jb_packets_lost = 0 \<rparr>"

definition jitter_reset :: "jitter_buffer \<Rightarrow> jitter_buffer" where
  "jitter_reset s = jitter_new"

definition jitter_insert :: "u16 \<Rightarrow> bytes \<Rightarrow> jitter_packet_meta \<Rightarrow> jitter_buffer \<Rightarrow> bool \<times> jitter_buffer" where
  "jitter_insert sq payload meta s0 =
     (let s = s0\<lparr> jb_packets_received := jb_packets_received s0 + 1 \<rparr> in
      if JITTER_SLOT_SIZE < length payload then (False, s)
      else
        let s = (if \<not> jb_based s then s\<lparr> jb_based := True, jb_next_seq := sq \<rparr> else s) in
        if of_nat JITTER_MAX_SLOTS \<le> sq - jb_next_seq s then (False, s)
        else
          let i = unat sq mod JITTER_MAX_SLOTS; slot = jb_slots s ! i in
          if js_full slot then (False, s)
          else
            let slot = slot\<lparr> js_data := blit 0 payload (js_data slot), js_seq := sq,
                             js_len := of_nat (length payload), js_meta := meta, js_full := True \<rparr>
            in (True, s\<lparr> jb_slots := (jb_slots s)[i := slot], jb_fill_count := jb_fill_count s + 1 \<rparr>))"

definition jitter_next_ready :: "jitter_buffer \<Rightarrow> bool" where
  "jitter_next_ready s =
     (let slot = jb_slots s ! (unat (jb_next_seq s) mod JITTER_MAX_SLOTS)
      in jb_based s \<and> js_full slot \<and> js_seq slot = jb_next_seq s)"

definition jitter_waiting_on_hole :: "jitter_buffer \<Rightarrow> bool" where
  "jitter_waiting_on_hole s \<longleftrightarrow> 0 < jb_fill_count s \<and> \<not> jitter_next_ready s"

lemma skip_counter_step: "(k :: u16) < 16 \<Longrightarrow> unat (k + 1) = unat k + 1"
  by (simp add: unat_word_ariths word_less_nat_alt)

function jitter_skip_loop :: "u16 \<Rightarrow> jitter_buffer \<Rightarrow> u16 \<times> jitter_buffer" where
  "jitter_skip_loop skipped s =
     (if \<not> jitter_next_ready s \<and> skipped < of_nat JITTER_MAX_SLOTS
      then jitter_skip_loop (skipped + 1) (s\<lparr> jb_next_seq := jb_next_seq s + 1 \<rparr>)
      else (skipped, s))"
  by pat_completeness auto
termination
  by (relation "measure (\<lambda>(skipped, s). 16 - unat skipped)")
    (auto simp: skip_counter_step word_less_nat_alt)

declare jitter_skip_loop.simps [simp del]

definition jitter_skip_hole :: "jitter_buffer \<Rightarrow> u16 \<times> jitter_buffer" where
  "jitter_skip_hole s =
     (if \<not> jitter_waiting_on_hole s then (0, s)
      else case jitter_skip_loop 0 s of (skipped, s) \<Rightarrow>
        (skipped, s\<lparr> jb_packets_lost := jb_packets_lost s + ucast skipped, jb_skipped := True \<rparr>))"

definition jitter_peek :: "jitter_buffer \<Rightarrow> jreleased option" where
  "jitter_peek s =
     (if \<not> jitter_next_ready s then None
      else
        let slot = jb_slots s ! (unat (jb_next_seq s) mod JITTER_MAX_SLOTS)
        in Some \<lparr> jr_seq = js_seq slot, jr_meta = js_meta slot,
                  jr_payload = take (unat (js_len slot)) (js_data slot), jr_lost_before = jb_skipped s \<rparr>)"

definition jitter_release :: "jitter_buffer \<Rightarrow> jitter_buffer" where
  "jitter_release s =
     (if \<not> jitter_next_ready s then s
      else
        let i = unat (jb_next_seq s) mod JITTER_MAX_SLOTS
        in s\<lparr> jb_slots := (jb_slots s)[i := (jb_slots s ! i)\<lparr> js_full := False \<rparr>],
              jb_next_seq := jb_next_seq s + 1, jb_fill_count := jb_fill_count s - 1, jb_skipped := False \<rparr>)"

text \<open>The calls a user of the buffer makes, with what each returns. \<open>JRelease\<close> is \<open>peek\<close> followed by
  \<open>release\<close>; \<open>JStats\<close> reads the three counters.\<close>

datatype jitter_op = JInsert u16 bytes jitter_packet_meta | JSkip | JPeek | JRelease | JReset | JStats

datatype jitter_out = JStored bool | JSkipped nat | JPacket "jreleased option" | JDone | JCounts nat u32 u32

fun jitter_step :: "jitter_buffer \<Rightarrow> jitter_op \<Rightarrow> jitter_out \<times> jitter_buffer" where
  "jitter_step s (JInsert sq p m) = (case jitter_insert sq p m s of (b, s') \<Rightarrow> (JStored b, s'))"
| "jitter_step s JSkip = (case jitter_skip_hole s of (k, s') \<Rightarrow> (JSkipped (unat k), s'))"
| "jitter_step s JPeek = (JPacket (jitter_peek s), s)"
| "jitter_step s JRelease = (JPacket (jitter_peek s), jitter_release s)"
| "jitter_step s JReset = (JDone, jitter_reset s)"
| "jitter_step s JStats = (JCounts (unat (jb_fill_count s)) (jb_packets_received s) (jb_packets_lost s), s)"

section \<open>The queue it implements\<close>

text \<open>
  Position \<open>d\<close> of the window is the packet \<open>d\<close> sequence numbers after the next one to release, if it
  has arrived. Releasing shifts the window by one, skipping a hole shifts it to the first packet.
\<close>

record jqueue =
  jq_win :: "(bytes \<times> jitter_packet_meta) option list"
  jq_next :: u16
  jq_based :: bool
  jq_skipped :: bool
  jq_received :: u32
  jq_lost :: u32

definition jq_empty :: jqueue where
  "jq_empty = \<lparr> jq_win = replicate 16 None, jq_next = 0, jq_based = False, jq_skipped = False,
     jq_received = 0, jq_lost = 0 \<rparr>"

definition win_shift :: "nat \<Rightarrow> 'a option list \<Rightarrow> 'a option list" where
  "win_shift k w = drop k w @ replicate k None"

definition win_hole :: "'a option list \<Rightarrow> nat" where
  "win_hole w = length (takeWhile (\<lambda>x. x = None) w)"

definition win_count :: "'a option list \<Rightarrow> nat" where
  "win_count w = length (filter (\<lambda>x. x \<noteq> None) w)"

definition jq_head :: "jqueue \<Rightarrow> jreleased option" where
  "jq_head q = map_option (\<lambda>(p, m). \<lparr> jr_seq = jq_next q, jr_meta = m, jr_payload = p,
     jr_lost_before = jq_skipped q \<rparr>) (hd (jq_win q))"

definition jq_insert :: "u16 \<Rightarrow> bytes \<Rightarrow> jitter_packet_meta \<Rightarrow> jqueue \<Rightarrow> bool \<times> jqueue" where
  "jq_insert sq p m q =
     (let q = q\<lparr> jq_received := jq_received q + 1 \<rparr> in
      if 1460 < length p then (False, q)
      else
        let q = (if jq_based q then q else q\<lparr> jq_based := True, jq_next := sq \<rparr>);
            d = unat (sq - jq_next q)
        in if d < 16 \<and> jq_win q ! d = None then (True, q\<lparr> jq_win := (jq_win q)[d := Some (p, m)] \<rparr>)
           else (False, q))"

fun jq_step :: "jqueue \<Rightarrow> jitter_op \<Rightarrow> jitter_out \<times> jqueue" where
  "jq_step q (JInsert sq p m) = (case jq_insert sq p m q of (b, q') \<Rightarrow> (JStored b, q'))"
| "jq_step q JSkip =
     (if win_count (jq_win q) = 0 \<or> hd (jq_win q) \<noteq> None then (JSkipped 0, q)
      else let k = win_hole (jq_win q) in
        (JSkipped k, q\<lparr> jq_win := win_shift k (jq_win q), jq_next := jq_next q + of_nat k,
                        jq_lost := jq_lost q + of_nat k, jq_skipped := True \<rparr>))"
| "jq_step q JPeek = (JPacket (jq_head q), q)"
| "jq_step q JRelease =
     (JPacket (jq_head q),
      (if hd (jq_win q) = None then q
       else q\<lparr> jq_win := win_shift 1 (jq_win q), jq_next := jq_next q + 1, jq_skipped := False \<rparr>))"
| "jq_step q JReset = (JDone, jq_empty)"
| "jq_step q JStats = (JCounts (win_count (jq_win q)) (jq_received q) (jq_lost q), q)"

section \<open>Abstraction and invariant\<close>

definition jb_at :: "jslot list \<Rightarrow> u16 \<Rightarrow> nat \<Rightarrow> jslot" where
  "jb_at slots nx d = slots ! ((unat nx + d) mod 16)"

definition jb_win :: "jslot list \<Rightarrow> u16 \<Rightarrow> (bytes \<times> jitter_packet_meta) option list" where
  "jb_win slots nx = map (\<lambda>d. let sl = jb_at slots nx d in
     if js_full sl then Some (take (unat (js_len sl)) (js_data sl), js_meta sl) else None) [0..<16]"

definition jb_keyed :: "jslot list \<Rightarrow> u16 \<Rightarrow> bool" where
  "jb_keyed slots nx \<longleftrightarrow> length slots = 16 \<and> (\<forall>sl\<in>set slots. length (js_data sl) = 1460) \<and>
     (\<forall>d<16. js_full (jb_at slots nx d) \<longrightarrow> js_seq (jb_at slots nx d) = nx + of_nat d)"

definition jb_abs :: "jitter_buffer \<Rightarrow> jqueue" where
  "jb_abs s = \<lparr> jq_win = jb_win (jb_slots s) (jb_next_seq s), jq_next = jb_next_seq s, jq_based = jb_based s,
     jq_skipped = jb_skipped s, jq_received = jb_packets_received s, jq_lost = jb_packets_lost s \<rparr>"

definition jb_inv :: "jitter_buffer \<Rightarrow> bool" where
  "jb_inv s \<longleftrightarrow> jb_keyed (jb_slots s) (jb_next_seq s) \<and>
     unat (jb_fill_count s) = win_count (jb_win (jb_slots s) (jb_next_seq s)) \<and>
     (\<not> jb_based s \<longrightarrow> (\<forall>sl\<in>set (jb_slots s). \<not> js_full sl))"

definition jb_refines :: "jitter_buffer \<Rightarrow> jqueue \<Rightarrow> bool" where
  "jb_refines s q \<longleftrightarrow> jb_inv s \<and> q = jb_abs s"

lemma length_jb_win [simp]: "length (jb_win slots nx) = 16"
  by (simp add: jb_win_def)

lemma jb_win_nth: "d < 16 \<Longrightarrow> jb_win slots nx ! d = (let sl = jb_at slots nx d in
    if js_full sl then Some (take (unat (js_len sl)) (js_data sl), js_meta sl) else None)"
  by (simp add: jb_win_def)

lemma hd_jb_win: "hd (jb_win slots nx) = jb_win slots nx ! 0"
  by (rule hd_conv_nth) (metis length_jb_win list.size(3) zero_neq_numeral)

lemma win_count_replicate [simp]: "win_count (replicate n None) = 0"
  by (simp add: win_count_def)

lemma win_count_update:
  "d < length w \<Longrightarrow> w ! d = None \<Longrightarrow> win_count (w[d := Some x]) = win_count w + 1"
proof (induction w arbitrary: d)
  case Nil
  then show ?case by simp
next
  case (Cons y w)
  then show ?case by (cases d) (auto simp: win_count_def)
qed

lemma win_count_shift1: "w \<noteq> [] \<Longrightarrow> win_count (win_shift 1 w) = win_count w - (if hd w = None then 0 else 1)"
  by (cases w) (auto simp: win_count_def win_shift_def)

lemma win_count_le: "win_count w \<le> length w"
  by (simp add: win_count_def)

text \<open>Sixteen divides the sequence space, so the slot index of \<open>next + d\<close> survives the wrap.\<close>

lemma seq_index: "unat (nx + of_nat d :: u16) mod 16 = (unat nx + d) mod 16"
  by (simp add: unat_word_ariths unat_of_nat mod_mod_cancel mod_add_right_eq)

lemma jb_at_shift: "jb_at slots (nx + 1) d = jb_at slots nx (d + 1)"
proof -
  have "(unat (nx + 1) + d) mod 16 = (unat nx + (d + 1)) mod 16"
    using seq_index [of nx 1] mod_add_cong [of "unat (nx + 1)" 16 "unat nx + 1" d d] by simp
  then show ?thesis by (simp add: jb_at_def)
qed

lemma jb_at_16: "jb_at slots nx 16 = jb_at slots nx 0"
  by (simp add: jb_at_def)

lemma jb_index_inj: "d < 16 \<Longrightarrow> e < 16 \<Longrightarrow> (n + d) mod 16 = (n + e) mod 16 \<Longrightarrow> d = (e :: nat)"
proof (induction d e rule: linorder_wlog)
  case (le d e)
  then have "(n + e) mod 16 = (n + d) mod 16" by simp
  then have "16 dvd n + e - (n + d)" using le by (subst (asm) mod_eq_dvd_iff_nat) auto
  then have "16 dvd e - d" by simp
  then show ?case using le by (auto dest!: dvd_imp_le)
next
  case (sym d e)
  then show ?case by simp
qed

lemma jb_at_update:
  "length slots = 16 \<Longrightarrow> d < 16 \<Longrightarrow> e < 16 \<Longrightarrow>
   jb_at (slots[(unat nx + d) mod 16 := x]) nx e = (if e = d then x else jb_at slots nx e)"
  using jb_index_inj [of d e "unat nx"] by (auto simp: jb_at_def nth_list_update)

text \<open>Moving the release point past a slot that is not full.\<close>

lemma jb_shift:
  assumes "jb_keyed slots nx" and "\<not> js_full (jb_at slots nx 0)"
  shows "jb_keyed slots (nx + 1)" and "jb_win slots (nx + 1) = win_shift 1 (jb_win slots nx)"
proof -
  have "js_seq (jb_at slots (nx + 1) d) = nx + 1 + of_nat d"
    if "d < 16" "js_full (jb_at slots (nx + 1) d)" for d
  proof (cases "d = 15")
    case True
    then show ?thesis using that assms by (simp add: jb_at_shift jb_at_16)
  next
    case False
    then have "d + 1 < 16" using that by simp
    then have "js_seq (jb_at slots nx (d + 1)) = nx + of_nat (d + 1)"
      using that assms(1) by (auto simp: jb_at_shift jb_keyed_def)
    then show ?thesis by (simp add: jb_at_shift add.assoc)
  qed
  with assms(1) show "jb_keyed slots (nx + 1)" by (simp add: jb_keyed_def)
  show "jb_win slots (nx + 1) = win_shift 1 (jb_win slots nx)"
  proof (rule nth_equalityI)
    show "length (jb_win slots (nx + 1)) = length (win_shift 1 (jb_win slots nx))" by (simp add: win_shift_def)
    fix i assume "i < length (jb_win slots (nx + 1))"
    then have i: "i < 16" by simp
    show "jb_win slots (nx + 1) ! i = win_shift 1 (jb_win slots nx) ! i"
    proof (cases "i = 15")
      case True
      then show ?thesis using assms(2)
        by (simp add: win_shift_def nth_append jb_win_nth jb_at_shift jb_at_16 Let_def)
    next
      case False
      then have "i + 1 < 16" using i by simp
      then show ?thesis
        using i by (simp add: win_shift_def nth_append jb_win_nth jb_at_shift Let_def)
    qed
  qed
qed

lemma next_ready_iff:
  assumes "jb_inv s"
  shows "jitter_next_ready s \<longleftrightarrow> hd (jb_win (jb_slots s) (jb_next_seq s)) \<noteq> None"
proof -
  have k: "jb_keyed (jb_slots s) (jb_next_seq s)" using assms by (simp add: jb_inv_def)
  let ?sl = "jb_at (jb_slots s) (jb_next_seq s) 0"
  have "js_full ?sl \<Longrightarrow> js_seq ?sl = jb_next_seq s" using k by (auto simp: jb_keyed_def dest: spec [of _ 0])
  moreover have "js_full ?sl \<Longrightarrow> jb_based s"
    using assms k by (auto simp: jb_inv_def jb_keyed_def jb_at_def dest: nth_mem)
  ultimately show ?thesis
    unfolding jitter_next_ready_def hd_jb_win by (auto simp: jb_win_nth Let_def jb_at_def)
qed

section \<open>One-step simulation\<close>

lemma jb_no_full:
  assumes "length slots = 16" and "\<forall>sl\<in>set slots. length (js_data sl) = 1460" and "\<forall>sl\<in>set slots. \<not> js_full sl"
  shows "jb_keyed slots nx" and "jb_win slots nx = replicate 16 None"
proof -
  have e: "\<not> js_full (jb_at slots nx d)" for d using assms by (auto simp: jb_at_def)
  then show "jb_keyed slots nx" using assms by (simp add: jb_keyed_def)
  show "jb_win slots nx = replicate 16 None"
    by (rule nth_equalityI) (auto simp: jb_win_nth e)
qed

lemma jb_inv_new: "jb_inv jitter_new" and jb_abs_new: "jb_abs jitter_new = jq_empty"
  using jb_no_full [of "replicate 16 jslot_empty"]
  by (simp_all add: jb_inv_def jitter_new_def jslot_empty_def jb_abs_def jq_empty_def)

lemma jb_store:
  fixes m :: jitter_packet_meta
  assumes k: "jb_keyed slots nx" and d: "d = unat (sq - nx)" "d < 16" and free: "jb_win slots nx ! d = None"
    and p: "length p \<le> 1460" and i: "i = unat sq mod 16"
  defines "new \<equiv> slots[i := (slots ! i)\<lparr> js_data := blit 0 p (js_data (slots ! i)), js_seq := sq,
      js_len := of_nat (length p), js_meta := m, js_full := True \<rparr>]"
  shows "jb_keyed new nx" and "jb_win new nx = (jb_win slots nx)[d := Some (p, m)]"
proof -
  have sq: "sq = nx + of_nat d" by (simp add: d)
  then have i': "i = (unat nx + d) mod 16" using i seq_index [of nx d] by simp
  have len: "length slots = 16" and dat: "\<forall>sl\<in>set slots. length (js_data sl) = 1460"
    using k by (auto simp: jb_keyed_def)
  let ?x = "(slots ! i)\<lparr> js_data := blit 0 p (js_data (slots ! i)), js_seq := sq,
      js_len := of_nat (length p), js_meta := m, js_full := True \<rparr>"
  have slot: "length (js_data (slots ! i)) = 1460" using len dat i' by auto
  then have x: "length (js_data ?x) = 1460" using p by simp
  have at: "jb_at new nx e = (if e = d then ?x else jb_at slots nx e)" if "e < 16" for e
    unfolding new_def i' using jb_at_update len d that by auto
  show "jb_keyed new nx"
    unfolding jb_keyed_def
  proof (intro conjI allI impI)
    show "length new = 16" by (simp add: new_def len)
    show "\<forall>sl\<in>set new. length (js_data sl) = 1460"
      using dat x by (auto simp: new_def dest: set_update_subset_insert [THEN subsetD])
    show "js_seq (jb_at new nx e) = nx + of_nat e" if "e < 16" "js_full (jb_at new nx e)" for e
      using that k at [OF that(1)] sq by (auto simp: jb_keyed_def split: if_splits)
  qed
  have "take (unat (of_nat (length p) :: u16)) (blit 0 p (js_data (slots ! i))) = p"
    using p slot by (simp add: unat_of_nat blit_def)
  then show "jb_win new nx = (jb_win slots nx)[d := Some (p, m)]"
    by (intro nth_equalityI) (auto simp: jb_win_nth at nth_list_update Let_def)
qed

lemma jitter_insert_sim:
  assumes "jb_inv s"
  shows "jb_inv (snd (jitter_insert sq p m s)) \<and>
    jq_insert sq p m (jb_abs s) = (fst (jitter_insert sq p m s), jb_abs (snd (jitter_insert sq p m s)))"
proof -
  define s1 where "s1 = (if jb_based s then s\<lparr> jb_packets_received := jb_packets_received s + 1 \<rparr>
    else s\<lparr> jb_packets_received := jb_packets_received s + 1, jb_based := True, jb_next_seq := sq \<rparr>)"
  have inv1: "jb_inv s1" and based1: "jb_based s1"
    using assms jb_no_full [of "jb_slots s"] by (auto simp: s1_def jb_inv_def jb_keyed_def)
  define q1 where "q1 = (let q = jb_abs s\<lparr> jq_received := jq_received (jb_abs s) + 1 \<rparr> in
    if jq_based q then q else q\<lparr> jq_based := True, jq_next := sq \<rparr>)"
  have q1: "q1 = jb_abs s1"
    using assms jb_no_full [of "jb_slots s"] by (auto simp: q1_def s1_def jb_abs_def jb_inv_def jb_keyed_def Let_def)
  define i where "i = unat sq mod 16"
  define d where "d = unat (sq - jb_next_seq s1)"
  have k: "jb_keyed (jb_slots s1) (jb_next_seq s1)" using inv1 by (simp add: jb_inv_def)
  have full: "js_full (jb_slots s1 ! i) \<longleftrightarrow> jb_win (jb_slots s1) (jb_next_seq s1) ! d \<noteq> None" if "d < 16"
    using that seq_index [of "jb_next_seq s1" d] by (simp add: jb_win_nth jb_at_def i_def d_def Let_def)
  have near: "16 \<le> sq - jb_next_seq s1 \<longleftrightarrow> 16 \<le> d" by (simp add: d_def word_le_nat_alt)
  let ?new = "(jb_slots s1)[i := (jb_slots s1 ! i)\<lparr> js_data := blit 0 p (js_data (jb_slots s1 ! i)), js_seq := sq,
      js_len := of_nat (length p), js_meta := m, js_full := True \<rparr>]"
  have c: "jitter_insert sq p m s =
      (if 1460 < length p then (False, s\<lparr> jb_packets_received := jb_packets_received s + 1 \<rparr>)
       else if 16 \<le> d then (False, s1)
       else if js_full (jb_slots s1 ! i) then (False, s1)
       else (True, s1\<lparr> jb_slots := ?new, jb_fill_count := jb_fill_count s1 + 1 \<rparr>))"
    by (simp add: jitter_insert_def Let_def near [symmetric] i_def) (simp add: s1_def)
  have a: "jq_insert sq p m (jb_abs s) =
      (if 1460 < length p then (False, jb_abs s\<lparr> jq_received := jq_received (jb_abs s) + 1 \<rparr>)
       else if d < 16 \<and> jq_win q1 ! d = None then (True, q1\<lparr> jq_win := (jq_win q1)[d := Some (p, m)] \<rparr>)
       else (False, q1))"
  proof -
    have "d = unat (sq - jq_next q1)" by (simp add: q1 jb_abs_def d_def)
    then show ?thesis unfolding jq_insert_def q1_def Let_def by simp
  qed
  have big: "jb_inv (s\<lparr> jb_packets_received := jb_packets_received s + 1 \<rparr>)"
    using assms by (simp add: jb_inv_def)
  have win1: "jq_win q1 = jb_win (jb_slots s1) (jb_next_seq s1)" by (simp add: q1 jb_abs_def)
  show ?thesis
  proof (cases "length p \<le> 1460 \<and> d < 16 \<and> jq_win q1 ! d = None")
    case True
    note st = jb_store [OF k d_def _ _ _ i_def, of p m]
    have nf: "\<not> js_full (jb_slots s1 ! i)" using True full win1 by simp
    have "win_count ((jb_win (jb_slots s1) (jb_next_seq s1))[d := Some (p, m)]) \<le> 16"
      using win_count_le [of "(jb_win (jb_slots s1) (jb_next_seq s1))[d := Some (p, m)]"] by simp
    then have "unat (jb_fill_count s1 + 1) = win_count ((jb_win (jb_slots s1) (jb_next_seq s1))[d := Some (p, m)])"
      using inv1 True win1 by (simp add: jb_inv_def win_count_update unat_word_ariths)
    then have "jb_inv (s1\<lparr> jb_slots := ?new, jb_fill_count := jb_fill_count s1 + 1 \<rparr>)"
      using True st win1 based1 by (simp add: jb_inv_def)
    moreover have "jb_abs (s1\<lparr> jb_slots := ?new, jb_fill_count := jb_fill_count s1 + 1 \<rparr>) =
        q1\<lparr> jq_win := (jq_win q1)[d := Some (p, m)] \<rparr>"
      using True st win1 by (simp add: q1 jb_abs_def)
    ultimately show ?thesis using True nf unfolding c a by simp
  next
    case False
    then show ?thesis
      using big inv1 full q1 win1 unfolding c a by (auto simp: jb_abs_def)
  qed
qed

lemma jitter_peek_sim: "jb_inv s \<Longrightarrow> jitter_peek s = jq_head (jb_abs s)"
proof -
  assume i: "jb_inv s"
  then have "js_full (jb_at (jb_slots s) (jb_next_seq s) 0) \<longrightarrow>
      js_seq (jb_at (jb_slots s) (jb_next_seq s) 0) = jb_next_seq s"
    by (auto simp: jb_inv_def jb_keyed_def dest: spec [of _ 0])
  then show ?thesis
    using next_ready_iff [OF i]
    by (auto simp: jitter_peek_def jq_head_def jb_abs_def hd_jb_win jb_win_nth Let_def jb_at_def)
qed

lemma jitter_release_sim:
  assumes i: "jb_inv s"
  shows "jb_inv (jitter_release s) \<and> snd (jq_step (jb_abs s) JRelease) = jb_abs (jitter_release s)"
proof (cases "jitter_next_ready s")
  case False
  then show ?thesis using i next_ready_iff [OF i] by (simp add: jitter_release_def jb_abs_def)
next
  case True
  let ?nx = "jb_next_seq s" and ?i = "unat (jb_next_seq s) mod 16"
  let ?new = "(jb_slots s)[?i := (jb_slots s ! ?i)\<lparr> js_full := False \<rparr>]"
  let ?w = "jb_win (jb_slots s) ?nx"
  have k: "jb_keyed (jb_slots s) ?nx" and len: "length (jb_slots s) = 16"
    and dat: "\<forall>sl\<in>set (jb_slots s). length (js_data sl) = 1460"
    using i by (auto simp: jb_inv_def jb_keyed_def)
  have at: "jb_at ?new ?nx e = (if e = 0 then (jb_slots s ! ?i)\<lparr> js_full := False \<rparr> else jb_at (jb_slots s) ?nx e)"
    if "e < 16" for e using jb_at_update [OF len, of 0 e ?nx] that by simp
  have "jb_keyed ?new ?nx"
    unfolding jb_keyed_def
  proof (intro conjI allI impI)
    show "length ?new = 16" by (simp add: len)
    show "\<forall>sl\<in>set ?new. length (js_data sl) = 1460"
      using dat len by (auto dest!: set_update_subset_insert [THEN subsetD])
    show "js_seq (jb_at ?new ?nx e) = ?nx + of_nat e" if "e < 16" "js_full (jb_at ?new ?nx e)" for e
      using that k at [OF that(1)] by (auto simp: jb_keyed_def split: if_splits)
  qed
  moreover have "\<not> js_full (jb_at ?new ?nx 0)" by (simp add: at)
  ultimately have sh: "jb_keyed ?new (?nx + 1)" "jb_win ?new (?nx + 1) = win_shift 1 (jb_win ?new ?nx)"
    by (rule jb_shift)+
  have "jb_win ?new ?nx = ?w[0 := None]"
    by (intro nth_equalityI) (auto simp: jb_win_nth at nth_list_update Let_def)
  then have w: "jb_win ?new (?nx + 1) = win_shift 1 ?w"
    using sh(2) by (cases ?w) (auto simp: win_shift_def)
  have ne: "?w \<noteq> []" by (metis length_jb_win list.size(3) zero_neq_numeral)
  have hd: "hd ?w \<noteq> None" using True next_ready_iff [OF i] by simp
  have fill: "unat (jb_fill_count s) = win_count ?w" and pos: "0 < win_count ?w"
    using i hd ne by (auto simp: jb_inv_def win_count_def neq_Nil_conv)
  then have "1 \<le> jb_fill_count s" by (simp add: word_le_nat_alt)
  moreover have "win_count (win_shift 1 ?w) = win_count ?w - 1"
    using hd win_count_shift1 [OF ne] by (simp only: if_False)
  ultimately have "unat (jb_fill_count s - 1) = win_count (win_shift 1 ?w)"
    using fill pos by (simp add: unat_sub)
  moreover have "jb_based s" using True by (simp add: jitter_next_ready_def Let_def)
  ultimately have "jb_inv (jitter_release s)"
    using True sh(1) w by (simp add: jb_inv_def jitter_release_def Let_def)
  moreover have "snd (jq_step (jb_abs s) JRelease) = jb_abs (jitter_release s)"
    using True hd w by (simp add: jitter_release_def jb_abs_def Let_def)
  ultimately show ?thesis ..
qed

lemma win_hole_Cons [simp]: "win_hole (None # w) = Suc (win_hole w)" "win_hole (Some x # w) = 0"
  by (simp_all add: win_hole_def)

lemma win_hole_less: "0 < win_count w \<Longrightarrow> win_hole w < length w"
  by (induction w) (auto simp: win_count_def win_hole_def)

lemma win_hole_shift1: "hd w = None \<Longrightarrow> 0 < win_count w \<Longrightarrow> win_hole (win_shift 1 w) = win_hole w - 1"
proof (cases w)
  case (Cons x v)
  assume "hd w = None" "0 < win_count w"
  then have "x = None" and v: "0 < win_count v" using Cons by (auto simp: win_count_def)
  have "\<exists>y\<in>set v. y \<noteq> None" using v by (auto simp: win_count_def filter_empty_conv)
  then have "takeWhile (\<lambda>x. x = None) (v @ [None]) = takeWhile (\<lambda>x. x = None) v"
    by (auto simp: takeWhile_append)
  with \<open>x = None\<close> Cons show ?thesis by (simp add: win_hole_def win_shift_def)
qed (simp add: win_count_def)

lemma win_shift_shift: "k + 1 \<le> length w \<Longrightarrow> win_shift k (win_shift 1 w) = win_shift (k + 1) w"
  by (simp add: win_shift_def replicate_append_same)

lemma win_shift_hole_hd: "0 < win_count w \<Longrightarrow> hd (win_shift (win_hole w) w) \<noteq> None"
proof -
  assume c: "0 < win_count w"
  have "dropWhile (\<lambda>x. x = None) w = drop (win_hole w) w" by (simp add: win_hole_def dropWhile_eq_drop)
  moreover have "drop (win_hole w) w \<noteq> []" using win_hole_less [OF c] by simp
  ultimately show ?thesis
    using hd_dropWhile [of "\<lambda>x. x = None" w] by (simp add: win_shift_def)
qed

lemma jb_inv_pass:
  assumes "jb_inv s" and "\<not> jitter_next_ready s" and "jb_based s"
  defines "s' \<equiv> s\<lparr> jb_next_seq := jb_next_seq s + 1 \<rparr>"
  shows "jb_inv s'" and "jb_win (jb_slots s') (jb_next_seq s') = win_shift 1 (jb_win (jb_slots s) (jb_next_seq s))"
proof -
  let ?w = "jb_win (jb_slots s) (jb_next_seq s)"
  have hd: "hd ?w = None" using assms next_ready_iff by blast
  then have "\<not> js_full (jb_at (jb_slots s) (jb_next_seq s) 0)"
    by (auto simp: hd_jb_win jb_win_nth Let_def split: if_splits)
  note sh = jb_shift [OF _ this]
  have k: "jb_keyed (jb_slots s) (jb_next_seq s)" using assms(1) by (simp add: jb_inv_def)
  show w: "jb_win (jb_slots s') (jb_next_seq s') = win_shift 1 ?w" using sh(2) [OF k] by (simp add: s'_def)
  have ne: "?w \<noteq> []" by (metis length_jb_win list.size(3) zero_neq_numeral)
  have "win_count (win_shift 1 ?w) = win_count ?w" using win_count_shift1 [OF ne] hd by simp
  with w assms(1,3) sh(1) [OF k] show "jb_inv s'" by (simp add: jb_inv_def s'_def)
qed

lemma jitter_skip_loop_spec:
  "jb_inv s \<Longrightarrow> jb_based s \<Longrightarrow> w = jb_win (jb_slots s) (jb_next_seq s) \<Longrightarrow> 0 < win_count w \<Longrightarrow>
   win_hole w = k \<Longrightarrow> unat sk + k < 16 \<Longrightarrow>
   jitter_skip_loop sk s = (sk + of_nat k, s\<lparr> jb_next_seq := jb_next_seq s + of_nat k \<rparr>) \<and>
   jb_inv (s\<lparr> jb_next_seq := jb_next_seq s + of_nat k \<rparr>) \<and>
   jb_win (jb_slots s) (jb_next_seq s + of_nat k) = win_shift k w"
proof (induction k arbitrary: s sk w)
  case 0
  have "hd w \<noteq> None"
    using 0(4,5) by (cases w; cases "hd w") (auto simp: win_count_def)
  then have "jitter_next_ready s" using 0 next_ready_iff by blast
  with 0 show ?case by (subst jitter_skip_loop.simps) (simp add: win_shift_def)
next
  case (Suc k)
  have hd: "hd w = None" using Suc.prems(4,5) by (cases w; cases "hd w") (auto simp: win_count_def)
  then have nr: "\<not> jitter_next_ready s" using Suc.prems next_ready_iff by blast
  let ?s = "s\<lparr> jb_next_seq := jb_next_seq s + 1 \<rparr>"
  note pass = jb_inv_pass [OF Suc.prems(1) nr Suc.prems(2), folded Suc.prems(3)]
  have ne: "w \<noteq> []" using Suc.prems(4) by (auto simp: win_count_def)
  have "sk < 16" using Suc.prems(6) by (simp add: word_less_nat_alt)
  note sk = this skip_counter_step [OF this]
  have cnt: "0 < win_count (win_shift 1 w)" using Suc.prems(4) hd win_count_shift1 [OF ne] by simp
  have hole: "win_hole (win_shift 1 w) = k" using Suc.prems(4,5) hd win_hole_shift1 by fastforce
  have IH: "jitter_skip_loop (sk + 1) ?s = (sk + 1 + of_nat k, ?s\<lparr> jb_next_seq := jb_next_seq ?s + of_nat k \<rparr>) \<and>
     jb_inv (?s\<lparr> jb_next_seq := jb_next_seq ?s + of_nat k \<rparr>) \<and>
     jb_win (jb_slots ?s) (jb_next_seq ?s + of_nat k) = win_shift k (win_shift 1 w)"
    using Suc.IH [of ?s "win_shift 1 w" "sk + 1"] Suc.prems pass cnt hole sk by simp
  moreover have "win_shift k (win_shift 1 w) = win_shift (Suc k) w"
    using win_shift_shift [of k w] win_hole_less [OF Suc.prems(4)] Suc.prems(5) by simp
  moreover have "jitter_skip_loop sk s = jitter_skip_loop (sk + 1) ?s"
    using nr sk by (subst jitter_skip_loop.simps) simp
  ultimately show ?case by (simp add: add.assoc)
qed

lemma jb_waiting_iff:
  "jb_inv s \<Longrightarrow> jitter_waiting_on_hole s \<longleftrightarrow>
   0 < win_count (jq_win (jb_abs s)) \<and> hd (jq_win (jb_abs s)) = None"
  using next_ready_iff [of s] by (auto simp: jitter_waiting_on_hole_def jb_inv_def jb_abs_def word_less_nat_alt)

lemma jb_based_if_held: "jb_inv s \<Longrightarrow> 0 < win_count (jq_win (jb_abs s)) \<Longrightarrow> jb_based s"
  using jb_no_full [of "jb_slots s" "jb_next_seq s"] by (auto simp: jb_inv_def jb_keyed_def jb_abs_def)

lemma jitter_skip_sim:
  assumes i: "jb_inv s"
  shows "jb_inv (snd (jitter_step s JSkip)) \<and>
    jq_step (jb_abs s) JSkip = (fst (jitter_step s JSkip), jb_abs (snd (jitter_step s JSkip)))"
proof (cases "jitter_waiting_on_hole s")
  case False
  then show ?thesis using i jb_waiting_iff [OF i] by (auto simp: jitter_skip_hole_def)
next
  case True
  let ?w = "jq_win (jb_abs s)"
  have w: "0 < win_count ?w" "hd ?w = None" using True jb_waiting_iff [OF i] by auto
  have k: "win_hole ?w < 16" using win_hole_less [OF w(1)] by (simp add: jb_abs_def)
  have u: "unat (of_nat (win_hole ?w) :: u16) = win_hole ?w" using k by (simp add: unat_of_nat)
  then have c: "(ucast (of_nat (win_hole ?w) :: u16) :: u32) = of_nat (win_hole ?w)"
    by (metis of_nat_unat)
  note sp = jitter_skip_loop_spec [OF i jb_based_if_held [OF i w(1)], of ?w "win_hole ?w" 0]
  have sp': "jitter_skip_loop 0 s = (of_nat (win_hole ?w), s\<lparr> jb_next_seq := jb_next_seq s + of_nat (win_hole ?w) \<rparr>)"
    "jb_inv (s\<lparr> jb_next_seq := jb_next_seq s + of_nat (win_hole ?w) \<rparr>)"
    "jb_win (jb_slots s) (jb_next_seq s + of_nat (win_hole ?w)) = win_shift (win_hole ?w) ?w"
    using sp w k by (simp_all add: jb_abs_def)
  have s: "jitter_skip_hole s = (of_nat (win_hole ?w), s\<lparr> jb_next_seq := jb_next_seq s + of_nat (win_hole ?w),
      jb_packets_lost := jb_packets_lost s + of_nat (win_hole ?w), jb_skipped := True \<rparr>)"
    using True sp'(1) c by (simp add: jitter_skip_hole_def)
  have "jb_inv (snd (jitter_skip_hole s))" using sp'(2) s by (simp add: jb_inv_def)
  moreover have "jq_step (jb_abs s) JSkip = (JSkipped (win_hole ?w), jb_abs (snd (jitter_skip_hole s)))"
    using w sp'(3) by (simp add: s Let_def) (simp add: jb_abs_def)
  ultimately show ?thesis using s u by simp
qed

lemma jitter_step_sim:
  assumes "jb_refines s q"
  shows "fst (jitter_step s e) = fst (jq_step q e) \<and> jb_refines (snd (jitter_step s e)) (snd (jq_step q e))"
proof -
  have i: "jb_inv s" and q: "q = jb_abs s" using assms by (auto simp: jb_refines_def)
  show ?thesis
  proof (cases e)
    case (JInsert sq p m)
    then show ?thesis using jitter_insert_sim [OF i, of sq p m] q
      by (cases "jitter_insert sq p m s") (simp add: jb_refines_def)
  next
    case JSkip
    then show ?thesis using jitter_skip_sim [OF i] q by (simp add: jb_refines_def del: jq_step.simps jitter_step.simps)
  next
    case JRelease
    then show ?thesis using jitter_release_sim [OF i] jitter_peek_sim [OF i] q by (simp add: jb_refines_def)
  next
    case JStats
    have "unat (jb_fill_count s) = win_count (jq_win (jb_abs s))" using i by (simp add: jb_inv_def jb_abs_def)
    then show ?thesis using JStats i q by (simp add: jb_refines_def) (simp add: jb_abs_def)
  qed (use i q jitter_peek_sim [OF i] jb_inv_new jb_abs_new in \<open>simp_all add: jb_refines_def jitter_reset_def\<close>)
qed

interpretation jq: machine_refines jitter_step jq_step jb_refines
  by unfold_locales (simp_all add: jitter_step_sim)

lemma jb_refines_new: "jb_refines jitter_new jq_empty"
  by (simp add: jb_refines_def jb_inv_new jb_abs_new)

section \<open>Gaps are reported\<close>

text \<open>The packets a run released, in order.\<close>

fun jitter_releases :: "(jitter_op \<times> jitter_out) list \<Rightarrow> jreleased list" where
  "jitter_releases ((JRelease, JPacket (Some r)) # xs) = r # jitter_releases xs"
| "jitter_releases (x # xs) = jitter_releases xs"
| "jitter_releases [] = []"

definition gap_honest :: "jreleased \<Rightarrow> jreleased \<Rightarrow> bool" where
  "gap_honest r1 r2 \<longleftrightarrow> (jr_lost_before r2 \<longleftrightarrow> jr_seq r2 \<noteq> jr_seq r1 + 1)"

text \<open>The queue's state at any time after releasing sequence number \<open>n\<close>, until the next release.\<close>

definition jq_after :: "u16 \<Rightarrow> jqueue \<Rightarrow> bool" where
  "jq_after n q \<longleftrightarrow> jq_based q \<and> length (jq_win q) = 16 \<and>
     (if jq_skipped q then hd (jq_win q) \<noteq> None \<and> jq_next q \<noteq> n + 1 else jq_next q = n + 1)"

definition jq_ok :: "jqueue \<Rightarrow> bool" where
  "jq_ok q \<longleftrightarrow> length (jq_win q) = 16 \<and> (\<not> jq_based q \<longrightarrow> jq_win q = replicate 16 None)"

lemma hd_update_None: "d < length w \<Longrightarrow> w ! d = None \<Longrightarrow> hd w \<noteq> None \<Longrightarrow> hd (w[d := x]) \<noteq> None"
  by (cases w; cases d) auto

lemma seq_plus_ne: "0 < k \<Longrightarrow> k < 16 \<Longrightarrow> (n :: u16) + of_nat k \<noteq> n"
proof
  assume k: "0 < k" "k < 16" and "n + of_nat k = n"
  then have "unat (of_nat k :: u16) = 0" by simp
  with k show False by (simp add: unat_of_nat)
qed

lemma jq_after_step:
  assumes a: "jq_after n q" and e: "e \<noteq> JReset" "\<not> (e = JRelease \<and> hd (jq_win q) \<noteq> None)"
  shows "jq_after n (snd (jq_step q e))"
proof (cases e)
  case (JInsert sq p m)
  then show ?thesis
    using a hd_update_None [of "unat (sq - jq_next q)" "jq_win q" "Some (p, m)"]
    by (auto simp: jq_after_def jq_insert_def Let_def split: if_splits)
next
  case JSkip
  show ?thesis
  proof (cases "win_count (jq_win q) = 0 \<or> hd (jq_win q) \<noteq> None")
    case True
    then show ?thesis using JSkip a by simp
  next
    case False
    let ?k = "win_hole (jq_win q)"
    have c: "0 < win_count (jq_win q)" using False by simp
    have h: "hd (jq_win q) = None" using False by blast
    have k: "0 < ?k" "?k < 16"
      using c h win_hole_less [OF c] a by (cases "jq_win q"; auto simp: jq_after_def win_count_def)+
    have "jq_next q = n + 1" using a h by (simp add: jq_after_def split: if_splits)
    then have "jq_next q + of_nat ?k \<noteq> n + 1" using seq_plus_ne [OF k] by simp
    moreover have "length (win_shift ?k (jq_win q)) = 16" using a k by (simp add: win_shift_def jq_after_def)
    ultimately show ?thesis
      using JSkip False a win_shift_hole_hd [OF c] by (simp add: jq_after_def Let_def)
  qed
qed (use a e in \<open>auto simp: jq_after_def\<close>)

lemma jq_release_after:
  "jq_ok q \<Longrightarrow> jq_head q = Some r \<Longrightarrow> jq_after (jr_seq r) (snd (jq_step q JRelease))"
  "jq_ok q \<Longrightarrow> jq_head q = Some r \<Longrightarrow> jr_seq r = jq_next q"
  "jq_ok q \<Longrightarrow> jq_head q = Some r \<Longrightarrow> jr_lost_before r = jq_skipped q"
  by (cases "hd (jq_win q)") (auto simp: jq_ok_def jq_after_def jq_head_def win_shift_def)

lemma jq_after_ok: "jq_after n q \<Longrightarrow> jq_ok q"
  by (simp add: jq_after_def jq_ok_def)

lemma jq_head_None: "jq_head q = None \<longleftrightarrow> hd (jq_win q) = None"
  by (auto simp: jq_head_def)

lemma releases_Cons:
  "jitter_releases ((e, fst (jq_step q e)) # xs) =
   (if e = JRelease then case jq_head q of None \<Rightarrow> jitter_releases xs | Some r \<Rightarrow> r # jitter_releases xs
    else jitter_releases xs)"
  by (cases e) (auto split: option.splits)

lemma jq_gaps_after:
  "jq_after (jr_seq r0) q \<Longrightarrow> JReset \<notin> set ops \<Longrightarrow>
   successively gap_honest (r0 # jitter_releases (zip ops (fst (run jq_step q ops))))"
proof (induction ops arbitrary: q r0)
  case Nil
  then show ?case by simp
next
  case (Cons e ops)
  have ok: "jq_ok q" using Cons.prems(1) by (rule jq_after_ok)
  have zip: "zip (e # ops) (fst (run jq_step q (e # ops))) =
      (e, fst (jq_step q e)) # zip ops (fst (run jq_step (snd (jq_step q e)) ops))"
    by (simp add: Let_def del: jq_step.simps)
  show ?case
  proof (cases "e = JRelease \<and> hd (jq_win q) \<noteq> None")
    case True
    then obtain r where r: "jq_head q = Some r" using jq_head_None by (metis not_None_eq)
    have "gap_honest r0 r"
      using jq_release_after(2,3) [OF ok r] Cons.prems(1)
      by (cases "jq_skipped q") (simp_all add: gap_honest_def jq_after_def)
    moreover have "successively gap_honest (r # jitter_releases (zip ops (fst (run jq_step (snd (jq_step q e)) ops))))"
      using Cons.IH [of r "snd (jq_step q e)"] jq_release_after(1) [OF ok r] True Cons.prems(2)
      by (simp del: jq_step.simps)
    ultimately show ?thesis using True r unfolding zip releases_Cons by (simp del: jq_step.simps)
  next
    case False
    then have "jitter_releases ((e, fst (jq_step q e)) # xs) = jitter_releases xs" for xs
      unfolding releases_Cons using jq_head_None [of q] by (auto split: option.splits)
    moreover have "jq_after (jr_seq r0) (snd (jq_step q e))"
      using jq_after_step [OF Cons.prems(1) _ False] Cons.prems(2) by auto
    ultimately show ?thesis using Cons.IH Cons.prems(2) unfolding zip by (simp del: jq_step.simps)
  qed
qed

lemma jq_ok_step: "jq_ok q \<Longrightarrow> jq_ok (snd (jq_step q e))"
proof (cases e)
  case JSkip
  assume ok: "jq_ok q"
  then have "0 < win_count (jq_win q) \<Longrightarrow> jq_based q \<and> win_hole (jq_win q) \<le> 16"
    using win_hole_less [of "jq_win q"] by (auto simp: jq_ok_def)
  then show ?thesis using JSkip ok by (auto simp: jq_ok_def Let_def win_shift_def)
qed (auto simp: jq_ok_def jq_insert_def jq_empty_def win_shift_def Let_def split: if_splits)

lemma jq_gaps:
  "jq_ok q \<Longrightarrow> JReset \<notin> set ops \<Longrightarrow>
   successively gap_honest (jitter_releases (zip ops (fst (run jq_step q ops))))"
proof (induction ops arbitrary: q)
  case Nil
  then show ?case by simp
next
  case (Cons e ops)
  let ?rest = "zip ops (fst (run jq_step (snd (jq_step q e)) ops))"
  have zip: "zip (e # ops) (fst (run jq_step q (e # ops))) = (e, fst (jq_step q e)) # ?rest"
    by (simp add: Let_def del: jq_step.simps)
  have IH: "successively gap_honest (jitter_releases ?rest)"
    using Cons.IH [OF jq_ok_step [OF Cons.prems(1)]] Cons.prems(2) by simp
  show ?case
  proof (cases "e = JRelease \<and> jq_head q \<noteq> None")
    case True
    then obtain r where r: "e = JRelease" "jq_head q = Some r" by auto
    then show ?thesis
      using r jq_gaps_after [of r "snd (jq_step q e)" ops] jq_release_after(1) [OF Cons.prems(1) r(2)] Cons.prems(2)
      unfolding zip releases_Cons by (simp del: jq_step.simps)
  next
    case False
    then show ?thesis using IH unfolding zip releases_Cons by (auto simp del: jq_step.simps)
  qed
qed

lemma jq_ok_empty: "jq_ok jq_empty"
  by (simp add: jq_ok_def jq_empty_def)

section \<open>Properties\<close>

text \<open>C6. The slot ring behaves as the queue indexed by distance: for every sequence of inserts,
  skips, peeks, releases, resets and counter reads on a fresh buffer, every answer (stored or
  dropped, how many skipped, the packet with its payload and metadata, the fill level and the
  counters) is the queue's.\<close>

theorem jitter_refines_queue:
  "fst (run jitter_step jitter_new ops) = fst (run jq_step jq_empty ops)"
  using jq.run_refines [OF jb_refines_new] by blast

text \<open>Release order and honest loss reports: in every run without a reset, of two packets
  released one after the other the second carries \<open>lost_before\<close> exactly when its sequence number is
  not the successor (modulo \<open>2 ^ 16\<close>) of the first's.\<close>

theorem jitter_gap_reported:
  assumes "JReset \<notin> set ops"
  shows "successively gap_honest (jitter_releases (zip ops (fst (run jitter_step jitter_new ops))))"
  using jq.run_refines [OF jb_refines_new, of ops] jq_gaps [OF jq_ok_empty assms] by simp

theorem jitter_gap_reported_witness:
  "let m = js_meta jslot_empty;
       ops = [JInsert 65535 [1] m, JInsert 1 [2] m, JRelease, JSkip, JRelease] in
   successively gap_honest (jitter_releases (zip ops (fst (run jitter_step jitter_new ops))))"
  unfolding Let_def by (rule jitter_gap_reported) simp

text \<open>Skipping makes progress: in every reachable state that waits on a hole, skipping passes
  between one and fifteen sequence numbers, counts them as lost, and leaves the next packet ready
  with its \<open>lost_before\<close> mark.\<close>

theorem jitter_skip_ends_ready:
  assumes "s = snd (run jitter_step jitter_new ops)" and "jitter_waiting_on_hole s"
    and "jitter_skip_hole s = (k, s')"
  shows "1 \<le> unat k \<and> unat k \<le> 15 \<and> jb_packets_lost s' = jb_packets_lost s + ucast k \<and>
    jitter_next_ready s' \<and> map_option jr_lost_before (jitter_peek s') = Some True"
proof -
  let ?q = "snd (run jq_step jq_empty ops)"
  have i: "jb_inv s" and q: "?q = jb_abs s"
    using jq.run_refines [OF jb_refines_new, of ops] assms(1) by (auto simp: jb_refines_def)
  let ?w = "jq_win (jb_abs s)"
  have w: "0 < win_count ?w" "hd ?w = None" using assms(2) jb_waiting_iff [OF i] by auto
  have sim: "jb_inv s'" "JSkipped (unat k) = JSkipped (win_hole ?w)"
    "jb_abs s' = (jb_abs s)\<lparr> jq_win := win_shift (win_hole ?w) ?w, jq_next := jq_next (jb_abs s) + of_nat (win_hole ?w),
       jq_lost := jq_lost (jb_abs s) + of_nat (win_hole ?w), jq_skipped := True \<rparr>"
    using jitter_skip_sim [OF i] w assms(3) by (auto simp: Let_def)
  have k: "unat k = win_hole ?w" using sim(2) by simp
  have b: "1 \<le> win_hole ?w" "win_hole ?w \<le> 15"
    using w win_hole_less [OF w(1)] by (cases ?w; auto simp: win_count_def jb_abs_def)+
  have rdy: "hd (jq_win (jb_abs s')) \<noteq> None" using sim(3) win_shift_hole_hd [OF w(1)] by simp
  then have "jitter_next_ready s'" using next_ready_iff [OF sim(1)] by (simp add: jb_abs_def)
  moreover have "jb_packets_lost s' = jq_lost (jb_abs s')" "jb_packets_lost s = jq_lost (jb_abs s)"
    by (simp_all add: jb_abs_def)
  then have "jb_packets_lost s' = jb_packets_lost s + of_nat (unat k)" using sim(3) k by simp
  then have "jb_packets_lost s' = jb_packets_lost s + ucast k" by simp
  moreover have "map_option jr_lost_before (jitter_peek s') = Some True"
    using rdy sim(3) jitter_peek_sim [OF sim(1)] by (cases "hd (jq_win (jb_abs s'))") (auto simp: jq_head_def)
  ultimately show ?thesis using k b by simp
qed

theorem jitter_skip_ends_ready_witness:
  "let m = js_meta jslot_empty;
       s = snd (run jitter_step jitter_new [JInsert 65535 [1] m, JInsert 1 [2] m, JRelease])
   in jitter_waiting_on_hole s \<and> jitter_next_ready (snd (jitter_skip_hole s))"
proof -
  define m where "m = js_meta jslot_empty"
  define ops where "ops = [JInsert 65535 [1] m, JInsert 1 [2] m, JRelease]"
  define s where "s = snd (run jitter_step jitter_new ops)"
  have q: "jb_inv s" "jb_abs s = snd (run jq_step jq_empty ops)"
    using jq.run_refines [OF jb_refines_new, of ops] by (auto simp: s_def jb_refines_def)
  have e: "replicate 16 None = [None, None, None, None, None, None, None, None,
      None, None, None, None, None, None, None, None]" by (simp add: numeral_eq_Suc)
  have "jq_win (snd (run jq_step jq_empty ops)) = [None, Some ([2], m), None, None, None, None, None, None,
      None, None, None, None, None, None, None, None]"
    by (simp add: ops_def jq_empty_def jq_insert_def Let_def win_shift_def e)
  then have w: "jitter_waiting_on_hole s" using jb_waiting_iff [OF q(1)] q(2) by (simp add: win_count_def)
  have "jitter_next_ready (snd (jitter_skip_hole s))"
    using jitter_skip_ends_ready [OF s_def w] by (cases "jitter_skip_hole s") simp
  with w show ?thesis by (simp add: Let_def s_def ops_def m_def)
qed

end
