(* ===== verification/Stun.thy ===== *)
theory Stun
  imports Wave_Prelude
begin

text \<open>
  \<open>modules/common/stun_core.rs\<close>: the STUN header, the attribute list, address and error-code values,
  MESSAGE-INTEGRITY and FINGERPRINT. Reads that a caller's header or span can drive out of range
  answer \<^const>\<open>None\<close> for the bounds panic. SHA-1 is supplied by the file that includes this one, so
  it is the parameter \<open>sha1\<close>; what the theorems use of it is that a digest is twenty bytes.
\<close>

section \<open>Header\<close>

abbreviation (input) STUN_HEADER_LEN :: nat where "STUN_HEADER_LEN \<equiv> 20"
abbreviation (input) STUN_MAGIC :: u32 where "STUN_MAGIC \<equiv> 0x2112A442"
abbreviation (input) STUN_INTEGRITY_LEN :: nat where "STUN_INTEGRITY_LEN \<equiv> 20"
abbreviation (input) STUN_FINGERPRINT_LEN :: nat where "STUN_FINGERPRINT_LEN \<equiv> 4"
abbreviation (input) ATTR_MESSAGE_INTEGRITY :: u16 where "ATTR_MESSAGE_INTEGRITY \<equiv> 0x0008"
abbreviation (input) ATTR_ERROR_CODE :: u16 where "ATTR_ERROR_CODE \<equiv> 0x0009"
abbreviation (input) ATTR_XOR_MAPPED_ADDRESS :: u16 where "ATTR_XOR_MAPPED_ADDRESS \<equiv> 0x0020"
abbreviation (input) ATTR_FINGERPRINT :: u16 where "ATTR_FINGERPRINT \<equiv> 0x8028"
abbreviation (input) STUN_FAMILY_IPV4 :: byte where "STUN_FAMILY_IPV4 \<equiv> 0x01"
abbreviation (input) STUN_FAMILY_IPV6 :: byte where "STUN_FAMILY_IPV6 \<equiv> 0x02"

definition attr_is_comprehension_required :: "u16 \<Rightarrow> bool" where
  "attr_is_comprehension_required typ \<longleftrightarrow> typ < 0x8000"

record stun_header =
  st_class :: byte
  st_method :: u16
  st_length :: nat
  st_txn :: bytes

definition stun_is_plausible :: "bytes \<Rightarrow> bool" where
  "stun_is_plausible buf \<longleftrightarrow> STUN_HEADER_LEN \<le> length buf \<and> buf ! 0 AND 0xC0 = 0 \<and>
     (of_nat (be_val (bslice 4 8 buf)) :: u32) = STUN_MAGIC"

definition parse_stun_header :: "bytes \<Rightarrow> stun_header option" where
  "parse_stun_header buf =
     (if \<not> stun_is_plausible buf then None
      else
        let typ = of_nat (be_val (bslice 0 2 buf)) :: u16;
            len = unat (of_nat (be_val (bslice 2 4 buf)) :: u16)
        in
          if len mod 4 \<noteq> 0 \<or> length buf < STUN_HEADER_LEN + len then None
          else Some \<lparr>
            st_class = ucast ((drop_bit 7 typ AND 0x02) OR (drop_bit 4 typ AND 0x01)),
            st_method = (typ AND 0x000F) OR (drop_bit 1 typ AND 0x0070) OR (drop_bit 2 typ AND 0x0F80),
            st_length = len,
            st_txn = bslice 8 20 buf \<rparr>)"

definition stun_message_type :: "byte \<Rightarrow> u16 \<Rightarrow> u16" where
  "stun_message_type cls meth =
     (let c = ucast cls :: u16 in
        (meth AND 0x000F)
        OR push_bit 1 (meth AND 0x0070)
        OR push_bit 2 (meth AND 0x0F80)
        OR push_bit 4 (c AND 0x01)
        OR push_bit 7 (c AND 0x02))"

section \<open>Attributes\<close>

datatype attr_scan = AttrFound u16 nat nat nat | AttrEnd | AttrMalformed

text \<open>\<open>(len + 3) & !3\<close>.\<close>

definition pad4 :: "nat \<Rightarrow> nat" where
  "pad4 n = (n + 3) div 4 * 4"

definition next_attribute :: "bytes \<Rightarrow> nat \<Rightarrow> nat \<Rightarrow> attr_scan option" where
  "next_attribute buf at tot =
     (if tot \<le> at then Some AttrEnd
      else if tot < at + 4 then Some AttrMalformed
      else do {
        hdr \<leftarrow> bslice_p at (at + 4) buf;
        let typ = (of_nat (be_val (bslice 0 2 hdr)) :: u16);
        let len = unat (of_nat (be_val (bslice 2 4 hdr)) :: u16);
        let value_at = at + 4;
        let fin = value_at + len;
        if tot < fin then Some AttrMalformed
        else
          let nxt = value_at + pad4 len in
          if tot < nxt then
            (if fin = tot then Some (AttrFound typ value_at len tot) else Some AttrMalformed)
          else Some (AttrFound typ value_at len nxt)
      })"

lemma next_attribute_progress:
  "next_attribute buf at tot = Some (AttrFound typ v len nxt) \<Longrightarrow> at < nxt \<and> nxt \<le> tot \<and> v = at + 4 \<and> v + len \<le> tot"
  by (auto simp: next_attribute_def Let_def bind_eq_Some_conv split: if_splits)

function find_attribute_loop :: "bytes \<Rightarrow> nat \<Rightarrow> u16 \<Rightarrow> nat \<Rightarrow> (nat \<times> nat) option option" where
  "find_attribute_loop buf tot typ at =
     (case next_attribute buf at tot of
        None \<Rightarrow> None
      | Some (AttrFound fnd value_at len nxt) \<Rightarrow>
          if fnd = typ then Some (Some (value_at, len)) else find_attribute_loop buf tot typ nxt
      | Some _ \<Rightarrow> Some None)"
  by pat_completeness auto
termination
  by (relation "measure (\<lambda>(buf, tot, typ, at). tot - at)") (auto dest!: next_attribute_progress)

function first_unknown_loop :: "bytes \<Rightarrow> nat \<Rightarrow> u16 list \<Rightarrow> nat \<Rightarrow> u16 option option" where
  "first_unknown_loop buf tot known at =
     (case next_attribute buf at tot of
        None \<Rightarrow> None
      | Some (AttrFound typ value_at len nxt) \<Rightarrow>
          if attr_is_comprehension_required typ \<and> typ \<notin> set known then Some (Some typ)
          else first_unknown_loop buf tot known nxt
      | Some _ \<Rightarrow> Some None)"
  by pat_completeness auto
termination
  by (relation "measure (\<lambda>(buf, tot, known, at). tot - at)") (auto dest!: next_attribute_progress)

declare find_attribute_loop.simps [simp del] first_unknown_loop.simps [simp del]

definition find_attribute :: "bytes \<Rightarrow> stun_header \<Rightarrow> u16 \<Rightarrow> (nat \<times> nat) option option" where
  "find_attribute buf h typ = find_attribute_loop buf (STUN_HEADER_LEN + st_length h) typ STUN_HEADER_LEN"

definition first_unknown_required :: "bytes \<Rightarrow> stun_header \<Rightarrow> u16 list \<Rightarrow> u16 option option" where
  "first_unknown_required buf h known =
     first_unknown_loop buf (STUN_HEADER_LEN + st_length h) known STUN_HEADER_LEN"

section \<open>Addresses\<close>

record stun_address =
  sa_family :: byte
  sa_addr :: bytes
  sa_port :: u16

definition stun_magic_bytes :: bytes where
  "stun_magic_bytes = be_bytes 4 (unat STUN_MAGIC)"

definition stun_magic_port :: u16 where
  "stun_magic_port = ucast (drop_bit 16 STUN_MAGIC)"

definition parse_xor_mapped_address :: "bytes \<Rightarrow> nat \<Rightarrow> nat \<Rightarrow> bytes \<Rightarrow> stun_address option option" where
  "parse_xor_mapped_address buf at len txn =
     (if len < 4 then Some None
      else do {
        family \<leftarrow> at_idx buf (at + 1);
        p \<leftarrow> bslice_p (at + 2) (at + 4) buf;
        let port = of_nat (be_val p) XOR stun_magic_port;
        if family = STUN_FAMILY_IPV4 then
          (if len < 8 then Some None
           else do {
             a \<leftarrow> bslice_p (at + 4) (at + 8) buf;
             Some (Some \<lparr> sa_family = family,
               sa_addr = blit 0 (map2 (XOR) a stun_magic_bytes) (replicate 16 0), sa_port = port \<rparr>)
           })
        else if family = STUN_FAMILY_IPV6 then
          (if len < 20 then Some None
           else do {
             a \<leftarrow> bslice_p (at + 4) (at + 20) buf;
             Some (Some \<lparr> sa_family = family,
               sa_addr = map2 (XOR) a (stun_magic_bytes @ txn), sa_port = port \<rparr>)
           })
        else Some None
      })"

definition parse_mapped_address :: "bytes \<Rightarrow> nat \<Rightarrow> nat \<Rightarrow> stun_address option option" where
  "parse_mapped_address buf at len =
     (if len < 8 then Some None
      else do {
        family \<leftarrow> at_idx buf (at + 1);
        p \<leftarrow> bslice_p (at + 2) (at + 4) buf;
        let tk = (if family = STUN_FAMILY_IPV6 then 16 else 4);
        if len < 4 + tk then Some None
        else do {
          a \<leftarrow> bslice_p (at + 4) (at + 4 + tk) buf;
          Some (Some \<lparr> sa_family = family, sa_addr = blit 0 a (replicate 16 0), sa_port = of_nat (be_val p) \<rparr>)
        }
      })"

section \<open>Building\<close>

definition write_stun_header :: "byte \<Rightarrow> u16 \<Rightarrow> bytes \<Rightarrow> nat writer" where
  "write_stun_header cls meth txn out =
     (if length out < STUN_HEADER_LEN then (None, out)
      else
        let typ = stun_message_type cls meth;
            out = blit 0 (be_bytes 2 (unat typ)) out;
            out = blit 2 (be_bytes 2 (unat (0 :: u16))) out;
            out = blit 4 (be_bytes 4 (unat STUN_MAGIC)) out;
            out = blit 8 txn out
        in (Some STUN_HEADER_LEN, out))"

definition stun_set_length :: "nat \<Rightarrow> unit writer" where
  "stun_set_length tot out =
     (if tot < STUN_HEADER_LEN then (None, out)
      else
        let body = tot - STUN_HEADER_LEN in
        if 65535 < body \<or> length out < STUN_HEADER_LEN then (None, out)
        else (Some (), blit 2 (be_bytes 2 (unat (of_nat body :: u16))) out))"

definition append_attribute :: "u16 \<Rightarrow> bytes \<Rightarrow> nat \<Rightarrow> nat writer" where
  "append_attribute typ val at out =
     (let padded = pad4 (length val); fin = at + 4 + padded in
      if length out < fin \<or> 65535 < length val then (None, out)
      else
        let out = blit at (be_bytes 2 (unat typ)) out;
            out = blit (at + 2) (be_bytes 2 (unat (of_nat (length val) :: u16))) out;
            out = blit (at + 4) val out;
            out = blit (at + 4 + length val) (replicate (padded - length val) 0) out
        in (Some fin, out))"

definition append_xor_mapped_address_v4 :: "bytes \<Rightarrow> u16 \<Rightarrow> nat \<Rightarrow> nat writer" where
  "append_xor_mapped_address_v4 addr port at =
     (let val = (replicate 8 (0 :: byte))[0 := 0, 1 := STUN_FAMILY_IPV4];
          xport = port XOR stun_magic_port;
          val = blit 2 (be_bytes 2 (unat xport)) val;
          val = blit 4 (map2 (XOR) addr stun_magic_bytes) val
      in append_attribute ATTR_XOR_MAPPED_ADDRESS val at)"

definition append_error_code :: "u16 \<Rightarrow> bytes \<Rightarrow> nat \<Rightarrow> nat writer" where
  "append_error_code code reason at =
     (if \<not> (300 \<le> code \<and> code < 700) then wfail
      else
        let val = (replicate 68 (0 :: byte))[2 := ucast (code div 100), 3 := ucast (code mod 100)];
            tk = min (length reason) 64;
            val = blit 4 (take tk reason) val
        in append_attribute ATTR_ERROR_CODE (take (4 + tk) val) at)"

definition parse_error_code :: "bytes \<Rightarrow> nat \<Rightarrow> nat \<Rightarrow> u16 option option" where
  "parse_error_code buf at len =
     (if len < 4 then Some None
      else do {
        b2 \<leftarrow> at_idx buf (at + 2);
        b3 \<leftarrow> at_idx buf (at + 3);
        let cls = (ucast (b2 AND 0x07) :: u16);
        let number = (ucast b3 :: u16);
        if \<not> (3 \<le> cls \<and> cls < 7) \<or> 99 < number then Some None
        else Some (Some (cls * 100 + number))
      })"

section \<open>MESSAGE-INTEGRITY\<close>

definition stun_hmac_sha1 :: "(bytes \<Rightarrow> bytes) \<Rightarrow> bytes \<Rightarrow> bytes \<Rightarrow> bytes" where
  "stun_hmac_sha1 sha1 key dat =
     (let k = blit 0 (if 64 < length key then sha1 key else key) (replicate 64 0);
          ipad = map2 (XOR) (replicate 64 0x36) k;
          opad = map2 (XOR) (replicate 64 0x5C) k;
          inner_in = replicate (64 + 1500) 0;
          tk = min (length dat) (length inner_in - 64);
          inner_in = blit 0 ipad inner_in;
          inner_in = blit 64 (take tk dat) inner_in;
          inner = sha1 (take (64 + tk) inner_in);
          outer_in = blit 64 inner (blit 0 opad (replicate (64 + 20) 0))
      in sha1 outer_in)"

definition append_message_integrity :: "(bytes \<Rightarrow> bytes) \<Rightarrow> bytes \<Rightarrow> nat \<Rightarrow> nat writer" where
  "append_message_integrity sha1 key at out =
     (let fin = at + 4 + STUN_INTEGRITY_LEN in
      if length out < fin then (None, out)
      else wbind (stun_set_length fin)
        (\<lambda>_ out. append_attribute ATTR_MESSAGE_INTEGRITY (stun_hmac_sha1 sha1 key (take at out)) at out) out)"

definition verify_message_integrity :: "(bytes \<Rightarrow> bytes) \<Rightarrow> bytes \<Rightarrow> stun_header \<Rightarrow> bytes \<Rightarrow> bool option" where
  "verify_message_integrity sha1 buf h key = do {
     r \<leftarrow> find_attribute buf h ATTR_MESSAGE_INTEGRITY;
     case r of None \<Rightarrow> Some False
     | Some (at, len) \<Rightarrow>
         if len \<noteq> STUN_INTEGRITY_LEN then Some False
         else
           let attr_start = at - 4 in
           if 1500 < attr_start then Some False
           else do {
             pre \<leftarrow> bslice_p 0 attr_start buf;
             let scratch = blit 0 pre (replicate 1500 0);
             let covered = attr_start + 4 + STUN_INTEGRITY_LEN;
             if covered < STUN_HEADER_LEN then Some False
             else
               let body = covered - STUN_HEADER_LEN in
               if 65535 < body then Some False
               else
                 let scratch = blit 2 (be_bytes 2 (unat (of_nat body :: u16))) scratch;
                     expected = stun_hmac_sha1 sha1 key (take attr_start scratch)
                 in do {
                   got \<leftarrow> bslice_p at (at + STUN_INTEGRITY_LEN) buf;
                   let diff = foldl (\<lambda>d (e, b). d OR (e XOR b)) 0 (zip expected got);
                   Some (diff = 0)
                 }
           }
   }"

section \<open>FINGERPRINT\<close>

definition crc32_bit :: "u32 \<Rightarrow> u32" where
  "crc32_bit crc = drop_bit 1 crc XOR (0xEDB88320 AND - (crc AND 1))"

definition crc32_byte :: "u32 \<Rightarrow> byte \<Rightarrow> u32" where
  "crc32_byte crc b = (crc32_bit ^^ 8) (crc XOR ucast b)"

definition crc32 :: "bytes \<Rightarrow> u32" where
  "crc32 dat = NOT (foldl crc32_byte 0xFFFFFFFF dat)"

definition append_fingerprint :: "nat \<Rightarrow> nat writer" where
  "append_fingerprint at out =
     (let fin = at + 4 + STUN_FINGERPRINT_LEN in
      if length out < fin then (None, out)
      else wbind (stun_set_length fin)
        (\<lambda>_ out. append_attribute ATTR_FINGERPRINT
           (be_bytes 4 (unat (crc32 (take at out) XOR 0x5354554E))) at out) out)"

definition verify_fingerprint :: "bytes \<Rightarrow> stun_header \<Rightarrow> bool option" where
  "verify_fingerprint buf h = do {
     r \<leftarrow> find_attribute buf h ATTR_FINGERPRINT;
     case r of None \<Rightarrow> Some False
     | Some (at, len) \<Rightarrow>
         if len \<noteq> STUN_FINGERPRINT_LEN then Some False
         else do {
           let attr_start = at - 4;
           c \<leftarrow> bslice_p at (at + 4) buf;
           pre \<leftarrow> bslice_p 0 attr_start buf;
           Some (crc32 pre XOR 0x5354554E = of_nat (be_val c))
         }
   }"

section \<open>The type field\<close>

lemma nat_lt_16: "n < (16::nat) \<Longrightarrow> n \<in> {0,1,2,3,4,5,6,7,8,9,10,11,12,13,14,15}"
  by (auto simp: numeral_eq_Suc less_Suc_eq)

lemma stun_type_method:
  fixes meth :: u16 and cls :: byte
  assumes "meth < 0x1000"
  defines "typ \<equiv> stun_message_type cls meth"
  shows "(typ AND 0x000F) OR (drop_bit 1 typ AND 0x0070) OR (drop_bit 2 typ AND 0x0F80) = meth"
proof -
  have "take_bit 12 meth = meth"
    using assms(1) by (simp add: take_bit_eq_self_unat word_less_nat_alt)
  note hi = take_bit_eq_high [OF this]
  show ?thesis
  proof (rule bit_word_eqI)
    fix n assume "n < LENGTH(16)"
    then have "n \<in> {0,1,2,3,4,5,6,7,8,9,10,11,12,13,14,15}" by (intro nat_lt_16) simp
    then show "bit ((typ AND 0x000F) OR (drop_bit 1 typ AND 0x0070) OR (drop_bit 2 typ AND 0x0F80)) n = bit meth n"
      by (elim insertE emptyE) (simp_all add: typ_def stun_message_type_def Let_def bit_simps hi bit_double_iff mult.commute [of meth 2])
  qed
qed

lemma stun_type_class:
  fixes meth :: u16 and cls :: byte
  assumes "cls < 4"
  defines "typ \<equiv> stun_message_type cls meth"
  shows "ucast ((drop_bit 7 typ AND 0x02) OR (drop_bit 4 typ AND 0x01)) = cls"
proof -
  have "take_bit 2 cls = cls"
    using assms(1) by (simp add: take_bit_eq_self_unat word_less_nat_alt)
  note hi = take_bit_eq_high [OF this]
  show ?thesis
  proof (rule bit_word_eqI)
    fix n assume "n < LENGTH(8)"
    then have "n \<in> {0,1,2,3,4,5,6,7}" by auto
    then show "bit (ucast ((drop_bit 7 typ AND 0x02) OR (drop_bit 4 typ AND 0x01)) :: byte) n = bit cls n"
      by (elim insertE emptyE) (simp_all add: typ_def stun_message_type_def Let_def bit_simps hi)
  qed
qed

lemma stun_type_small: "stun_message_type cls meth < 0x4000"
proof -
  have "take_bit 14 (stun_message_type cls meth) = stun_message_type cls meth"
  proof (rule bit_word_eqI)
    fix n assume "n < LENGTH(16)"
    then have "n \<in> {0,1,2,3,4,5,6,7,8,9,10,11,12,13,14,15}" by (intro nat_lt_16) simp
    then show "bit (take_bit 14 (stun_message_type cls meth)) n = bit (stun_message_type cls meth) n"
      by (elim insertE emptyE) (simp_all add: stun_message_type_def Let_def bit_simps)
  qed
  then show ?thesis by (simp add: take_bit_eq_self_unat word_less_nat_alt)
qed

section \<open>The wire layout\<close>

definition stun_hd :: "u16 \<Rightarrow> nat \<Rightarrow> bytes \<Rightarrow> bytes" where
  "stun_hd typ len txn = be_bytes 2 (unat typ) @ be_bytes 2 len @ stun_magic_bytes @ txn"

definition attr_enc :: "u16 \<times> bytes \<Rightarrow> bytes" where
  "attr_enc tv = be_bytes 2 (unat (fst tv)) @ be_bytes 2 (length (snd tv)) @ snd tv
     @ replicate (pad4 (length (snd tv)) - length (snd tv)) 0"

definition attrs_enc :: "(u16 \<times> bytes) list \<Rightarrow> bytes" where
  "attrs_enc as = concat (map attr_enc as)"

definition attr_ok :: "u16 \<times> bytes \<Rightarrow> bool" where
  "attr_ok tv \<longleftrightarrow> length (snd tv) \<le> 65535"

lemma pad4_bounds: "n \<le> pad4 n" "pad4 n < n + 4" "pad4 n mod 4 = 0"
  by (simp_all add: pad4_def)

lemma pad4_id: "n mod 4 = 0 \<Longrightarrow> pad4 n = n"
  unfolding pad4_def by presburger

lemma length_magic [simp]: "length stun_magic_bytes = 4"
  by (simp add: stun_magic_bytes_def)

lemma length_stun_hd [simp]: "length txn = 12 \<Longrightarrow> length (stun_hd typ len txn) = 20"
  by (simp add: stun_hd_def)

lemma length_attr_enc: "length (attr_enc (t, v)) = 4 + pad4 (length v)"
  using pad4_bounds(1) [of "length v"] by (simp add: attr_enc_def)

lemma attr_enc_mod4: "length (attr_enc tv) mod 4 = 0"
proof (cases tv)
  case (Pair t v)
  then show ?thesis using pad4_bounds(3) [of "length v"] length_attr_enc [of t v] by presburger
qed

lemma attrs_enc_simps [simp]: "attrs_enc [] = []" "attrs_enc (tv # as) = attr_enc tv @ attrs_enc as"
  "attrs_enc (as @ bs) = attrs_enc as @ attrs_enc bs"
  by (simp_all add: attrs_enc_def)

lemma attrs_enc_mod4: "length (attrs_enc as) mod 4 = 0"
  by (induction as) (simp_all, metis attr_enc_mod4 add_0 mod_0 mod_add_eq)

lemma append_attribute_eq:
  "append_attribute typ v at out =
   (if length out < at + length (attr_enc (typ, v)) \<or> 65535 < length v then (None, out)
    else (Some (at + length (attr_enc (typ, v))), blit at (attr_enc (typ, v)) out))"
proof (cases "length out < at + length (attr_enc (typ, v)) \<or> 65535 < length v")
  case True
  then show ?thesis by (auto simp: append_attribute_def length_attr_enc)
next
  case False
  let ?t = "be_bytes 2 (unat typ)" and ?l = "be_bytes 2 (length v)"
    and ?p = "replicate (pad4 (length v) - length v) (0 :: byte)"
  have fit: "at + (4 + length v + length ?p) \<le> length out"
    using False pad4_bounds(1) [of "length v"] by (simp add: length_attr_enc)
  have u: "unat (of_nat (length v) :: u16) = length v" using False by (simp add: unat_of_nat)
  have "blit (at + 4 + length v) ?p (blit (at + 4) v (blit (at + 2) ?l (blit at ?t out))) = blit at (?t @ ?l @ v @ ?p) out"
  proof -
    have "blit (at + 2) ?l (blit at ?t out) = blit at (?t @ ?l) out"
      using blit_blit_append [of at ?t ?l out] fit by simp
    moreover have "blit (at + 4) v (blit at (?t @ ?l) out) = blit at ((?t @ ?l) @ v) out"
      using blit_blit_append [of at "?t @ ?l" v out] fit by simp
    moreover have "blit (at + 4 + length v) ?p (blit at ((?t @ ?l) @ v) out) = blit at (((?t @ ?l) @ v) @ ?p) out"
    proof -
      have e: "at + length ((?t @ ?l) @ v) = at + 4 + length v" by simp
      show ?thesis using blit_blit_append [of at "(?t @ ?l) @ v" ?p out] fit unfolding e by simp
    qed
    ultimately show ?thesis by simp
  qed
  then show ?thesis
    using False by (simp add: append_attribute_def Let_def u length_attr_enc) (simp add: attr_enc_def)
qed

lemma be2_length: "n \<le> 65535 \<Longrightarrow> unat (of_nat (be_val (be_bytes 2 n)) :: u16) = n"
  by (simp add: be_val_be_bytes_small unat_of_nat)

lemma next_attribute_enc:
  assumes ok: "attr_ok (t, v)" and tot: "length pre + length (attr_enc (t, v)) \<le> tot"
  shows "next_attribute (pre @ attr_enc (t, v) @ post) (length pre) tot =
    Some (AttrFound t (length pre + 4) (length v) (length pre + length (attr_enc (t, v))))"
proof -
  let ?b = "pre @ attr_enc (t, v) @ post"
  have h: "bslice (length pre) (length pre + 4) ?b = be_bytes 2 (unat t) @ be_bytes 2 (length v)"
    by (simp add: bslice_def attr_enc_def)
  have "length pre + 4 \<le> length ?b" by (simp add: length_attr_enc)
  then have hp: "bslice_p (length pre) (length pre + 4) ?b = Some (be_bytes 2 (unat t) @ be_bytes 2 (length v))"
    using h by simp
  have l: "unat (of_nat (be_val (be_bytes 2 (length v))) :: u16) = length v"
    using ok by (simp add: attr_ok_def be2_length)
  have "bslice 0 2 (be_bytes 2 (unat t) @ be_bytes 2 (length v)) = be_bytes 2 (unat t)"
    "bslice 2 4 (be_bytes 2 (unat t) @ be_bytes 2 (length v)) = be_bytes 2 (length v)"
    by (simp_all add: bslice_def)
  with tot pad4_bounds(1) [of "length v"] show ?thesis
    by (simp add: next_attribute_def hp l Let_def length_attr_enc)
qed

text \<open>Where the first attribute of a type sits in an encoded list.\<close>

fun attr_span :: "nat \<Rightarrow> (u16 \<times> bytes) list \<Rightarrow> u16 \<Rightarrow> (nat \<times> nat) option" where
  "attr_span p [] typ = None"
| "attr_span p ((t, v) # as) typ =
     (if t = typ then Some (p + 4, length v) else attr_span (p + length (attr_enc (t, v))) as typ)"

lemma find_attribute_loop_enc:
  "list_all attr_ok as \<Longrightarrow> p = length pre \<Longrightarrow> tot = length pre + length (attrs_enc as) \<Longrightarrow>
   find_attribute_loop (pre @ attrs_enc as @ post) tot typ p = Some (attr_span p as typ)"
proof (induction as arbitrary: pre p)
  case Nil
  then show ?case by (subst find_attribute_loop.simps) (simp add: next_attribute_def)
next
  case (Cons tv as)
  obtain t v where tv: "tv = (t, v)" by fastforce
  have n: "next_attribute (pre @ attrs_enc (tv # as) @ post) p tot =
      Some (AttrFound t (p + 4) (length v) (p + length (attr_enc (t, v))))"
    using next_attribute_enc [of t v pre tot "attrs_enc as @ post"] Cons.prems tv by simp
  show ?case
    using Cons.IH [of "p + length (attr_enc (t, v))" "pre @ attr_enc tv"] Cons.prems n tv
    by (subst find_attribute_loop.simps) simp
qed

lemma attr_span_value:
  "p = length pre \<Longrightarrow> map_of as typ = Some v \<Longrightarrow>
   \<exists>at. attr_span p as typ = Some (at, length v) \<and> length pre + 4 \<le> at \<and>
     at + length v \<le> length pre + length (attrs_enc as) \<and>
     bslice at (at + length v) (pre @ attrs_enc as @ post) = v"
proof (induction as arbitrary: pre p)
  case Nil
  then show ?case by simp
next
  case (Cons tv as)
  obtain t w where tv: "tv = (t, w)" by fastforce
  show ?case
  proof (cases "t = typ")
    case True
    then have v: "w = v" using Cons.prems tv by simp
    have "bslice (length pre + 4) (length pre + 4 + length v) (pre @ attr_enc (t, v) @ attrs_enc as @ post) = v"
      by (simp add: bslice_def attr_enc_def)
    with True v tv Cons.prems pad4_bounds(1) [of "length v"] show ?thesis by (simp add: length_attr_enc)
  next
    case False
    then show ?thesis
      using Cons.IH [of "p + length (attr_enc tv)" "pre @ attr_enc tv"] Cons.prems tv by fastforce
  qed
qed

lemma attr_span_None: "map_of as typ = None \<Longrightarrow> attr_span p as typ = None"
  by (induction p as "typ" rule: attr_span.induct) (auto split: if_splits)

lemma attr_span_append: "map_of as typ = None \<Longrightarrow>
   attr_span p (as @ bs) typ = attr_span (p + length (attrs_enc as)) bs typ"
  by (induction p as "typ" rule: attr_span.induct) (auto simp: add.assoc split: if_splits)

text \<open>Parsing the header of an encoded message.\<close>

lemma parse_stun_hd:
  assumes tp: "typ < 0x4000" and txn: "length txn = 12" and len: "len \<le> 65535" "len mod 4 = 0" "len \<le> length sec"
  shows "parse_stun_header (stun_hd typ len txn @ sec) = Some \<lparr>
     st_class = ucast ((drop_bit 7 typ AND 0x02) OR (drop_bit 4 typ AND 0x01)),
     st_method = (typ AND 0x000F) OR (drop_bit 1 typ AND 0x0070) OR (drop_bit 2 typ AND 0x0F80),
     st_length = len, st_txn = txn \<rparr>"
proof -
  let ?b = "stun_hd typ len txn @ sec"
  have s: "bslice 0 2 ?b = be_bytes 2 (unat typ)" "bslice 2 4 ?b = be_bytes 2 len"
    "bslice 4 8 ?b = stun_magic_bytes" "bslice 8 20 ?b = txn"
    using txn by (simp_all add: bslice_def stun_hd_def)
  have m: "(of_nat (be_val stun_magic_bytes) :: u32) = STUN_MAGIC"
    unfolding stun_magic_bytes_def by (rule from_to_be_bytes(2))
  have b0: "?b ! 0 = of_nat (unat typ div 256)" by (simp add: stun_hd_def numeral_2_eq_2)
  have "unat typ div 256 < 64" using tp by (simp add: word_less_nat_alt div_less_iff_less_mult)
  then have "unat (?b ! 0) < 2 ^ 6" unfolding b0 by (simp add: unat_of_nat)
  then have t: "take_bit 6 (?b ! 0) = ?b ! 0" by (simp only: take_bit_eq_self_unat)
  have "?b ! 0 AND 0xC0 = 0"
  proof (rule bit_word_eqI)
    fix n assume "n < LENGTH(8)"
    then have "n \<in> {0,1,2,3,4,5,6,7}" by auto
    then show "bit (?b ! 0 AND 0xC0) n = bit (0 :: byte) n"
      using take_bit_eq_high [OF t] by (elim insertE emptyE) (simp_all add: bit_and_iff del: b0)
  qed
  then have "stun_is_plausible ?b" using s m txn by (simp add: stun_is_plausible_def)
  then show ?thesis
    unfolding parse_stun_header_def s using len txn by (simp add: be2_length Let_def)
qed

lemma parse_stun_msg:
  assumes "cls < 4" and "meth < 0x1000" and "length txn = 12" and "len \<le> 65535" and "len mod 4 = 0"
    and "len \<le> length sec"
  shows "parse_stun_header (stun_hd (stun_message_type cls meth) len txn @ sec) = Some \<lparr>
     st_class = cls, st_method = meth, st_length = len, st_txn = txn \<rparr>"
  unfolding parse_stun_hd [OF stun_type_small assms(3-6)] stun_type_class [OF assms(1)] stun_type_method [OF assms(2)] ..

section \<open>Composing a message\<close>

text \<open>The way a sender uses the writers: the header, then the attributes one after the other.\<close>

primrec stun_append_all :: "(u16 \<times> bytes) list \<Rightarrow> nat \<Rightarrow> nat writer" where
  "stun_append_all [] at = wret at"
| "stun_append_all (tv # as) at = wbind (append_attribute (fst tv) (snd tv) at) (stun_append_all as)"

definition stun_compose :: "byte \<Rightarrow> u16 \<Rightarrow> bytes \<Rightarrow> (u16 \<times> bytes) list \<Rightarrow> nat writer" where
  "stun_compose cls meth txn as = wbind (write_stun_header cls meth txn) (stun_append_all as)"

lemma blit_cat: "at = length b \<Longrightarrow> blit at v (b @ rest) = b @ v @ drop (length v) rest"
  by (simp add: blit_def)

lemma append_attribute_cat:
  "at = length b \<Longrightarrow> attr_ok (t, v) \<Longrightarrow> length (attr_enc (t, v)) \<le> length rest \<Longrightarrow>
   append_attribute t v at (b @ rest) =
     (Some (at + length (attr_enc (t, v))), b @ attr_enc (t, v) @ drop (length (attr_enc (t, v))) rest)"
  by (simp add: append_attribute_eq blit_cat attr_ok_def)

lemma stun_append_all_cat:
  "at = length b \<Longrightarrow> list_all attr_ok as \<Longrightarrow> length (attrs_enc as) \<le> length rest \<Longrightarrow>
   stun_append_all as at (b @ rest) =
     (Some (at + length (attrs_enc as)), b @ attrs_enc as @ drop (length (attrs_enc as)) rest)"
proof (induction as arbitrary: at b rest)
  case Nil
  then show ?case by (simp add: wret_def)
next
  case (Cons tv as)
  obtain t v where tv: "tv = (t, v)" by fastforce
  have "append_attribute t v at (b @ rest) =
      (Some (at + length (attr_enc tv)), b @ attr_enc tv @ drop (length (attr_enc tv)) rest)"
    using append_attribute_cat [of at b t v rest] Cons.prems tv by simp
  then show ?case
    using Cons.IH [of "at + length (attr_enc tv)" "b @ attr_enc tv" "drop (length (attr_enc tv)) rest"] Cons.prems tv
    by (simp add: wbind_def add.assoc add.commute)
qed

lemma write_stun_header_eq:
  assumes "length txn = 12" and "20 \<le> length out"
  shows "write_stun_header cls meth txn out =
    (Some 20, stun_hd (stun_message_type cls meth) 0 txn @ drop 20 out)"
proof -
  let ?t = "be_bytes 2 (unat (stun_message_type cls meth))" and ?z = "be_bytes 2 0" and ?m = stun_magic_bytes
  have "blit 2 ?z (blit 0 ?t out) = blit 0 (?t @ ?z) out"
    using blit_blit_append [of 0 ?t ?z out] assms unfolding length_be_bytes add_0_left by simp
  moreover have "blit 4 ?m (blit 0 (?t @ ?z) out) = blit 0 ((?t @ ?z) @ ?m) out"
    using blit_blit_append [of 0 "?t @ ?z" ?m out] assms by simp
  moreover have "blit 8 txn (blit 0 ((?t @ ?z) @ ?m) out) = blit 0 (((?t @ ?z) @ ?m) @ txn) out"
    using blit_blit_append [of 0 "(?t @ ?z) @ ?m" txn out] assms by simp
  ultimately have "blit 8 txn (blit 4 ?m (blit 2 ?z (blit 0 ?t out))) = stun_hd (stun_message_type cls meth) 0 txn @ drop 20 out"
    using assms by (simp add: stun_hd_def blit_def)
  then show ?thesis
    using assms by (simp add: write_stun_header_def Let_def stun_magic_bytes_def del: be_bytes.simps)
qed

lemma stun_compose_eq:
  assumes "length txn = 12" and "list_all attr_ok as" and "20 + length (attrs_enc as) \<le> length out"
  shows "stun_compose cls meth txn as out =
    (Some (20 + length (attrs_enc as)),
     stun_hd (stun_message_type cls meth) 0 txn @ attrs_enc as @ drop (20 + length (attrs_enc as)) out)"
  using assms stun_append_all_cat [of 20 "stun_hd (stun_message_type cls meth) 0 txn" as "drop 20 out"]
  by (simp add: stun_compose_def write_stun_header_eq wbind_def add.commute)

lemma blit_len_hd: "length txn = 12 \<Longrightarrow> body \<le> 65535 \<Longrightarrow>
    blit 2 (be_bytes 2 (unat (of_nat body :: u16))) (stun_hd typ l txn @ r) = stun_hd typ body txn @ r"
  by (simp add: stun_hd_def blit_def unat_of_nat)

lemma stun_set_length_hd:
  "length txn = 12 \<Longrightarrow> 20 \<le> tot \<Longrightarrow> tot - 20 \<le> 65535 \<Longrightarrow>
   stun_set_length tot (stun_hd typ l txn @ r) = (Some (), stun_hd typ (tot - 20) txn @ r)"
  by (simp add: stun_set_length_def Let_def blit_len_hd del: of_nat_diff)

text \<open>MESSAGE-INTEGRITY after \<open>sec\<close>, then FINGERPRINT after that.\<close>

lemma append_message_integrity_cat:
  fixes sha1 :: "bytes \<Rightarrow> bytes" and key :: bytes and mt :: u16
  assumes sha: "\<And>x. length (sha1 x) = 20" and txn: "length txn = 12" and len: "length sec + 24 \<le> 65535"
    and room: "24 \<le> length rest"
  defines "mac \<equiv> stun_hmac_sha1 sha1 key (stun_hd mt (length sec + 24) txn @ sec)"
  shows "append_message_integrity sha1 key (20 + length sec) (stun_hd mt l txn @ sec @ rest) =
    (Some (20 + length sec + 24),
     stun_hd mt (length sec + 24) txn @ sec @ attr_enc (ATTR_MESSAGE_INTEGRITY, mac) @ drop 24 rest)"
proof -
  have m: "length mac = 20" unfolding mac_def stun_hmac_sha1_def Let_def by (rule sha)
  have e: "length (attr_enc (ATTR_MESSAGE_INTEGRITY, mac)) = 24" by (simp add: length_attr_enc m pad4_def)
  note a = append_attribute_cat [of "20 + length sec" "stun_hd mt (length sec + 24) txn @ sec"
      ATTR_MESSAGE_INTEGRITY mac rest]
  show ?thesis
    using txn len room a m e
    by (simp add: append_message_integrity_def Let_def wbind_def stun_set_length_hd attr_ok_def)
      (simp add: mac_def add.commute)
qed

lemma append_fingerprint_cat:
  fixes mt :: u16
  assumes txn: "length txn = 12" and len: "length sec + 8 \<le> 65535" and room: "8 \<le> length rest"
  defines "fp \<equiv> be_bytes 4 (unat (crc32 (stun_hd mt (length sec + 8) txn @ sec) XOR 0x5354554E))"
  shows "append_fingerprint (20 + length sec) (stun_hd mt l txn @ sec @ rest) =
    (Some (20 + length sec + 8),
     stun_hd mt (length sec + 8) txn @ sec @ attr_enc (ATTR_FINGERPRINT, fp) @ drop 8 rest)"
proof -
  have m: "length fp = 4" by (simp add: fp_def)
  have e: "length (attr_enc (ATTR_FINGERPRINT, fp)) = 8" by (simp add: length_attr_enc m pad4_def)
  note a = append_attribute_cat [of "20 + length sec" "stun_hd mt (length sec + 8) txn @ sec"
      ATTR_FINGERPRINT fp rest]
  show ?thesis
    using txn len room a m e
    by (simp add: append_fingerprint_def Let_def wbind_def stun_set_length_hd attr_ok_def del: be_bytes.simps)
      (simp add: fp_def add.commute del: be_bytes.simps)
qed

text \<open>The accumulated difference is zero exactly when the two values are equal.\<close>

lemma diff_zero_iff:
  "length a = length b \<Longrightarrow> foldl (\<lambda>d (e, b). d OR (e XOR b)) d (zip a b) = (0 :: byte) \<longleftrightarrow> d = 0 \<and> a = b"
  by (induction a b arbitrary: d rule: list_induct2) (auto simp: or_zero_iff xor_zero_iff)

lemma verify_mi_enc:
  fixes sha1 :: "bytes \<Rightarrow> bytes"
  assumes sha: "\<And>x. length (sha1 x) = 20" and txn: "length txn = 12" and ok: "list_all attr_ok (as @ (ATTR_MESSAGE_INTEGRITY, mac) # bs)"
    and fresh: "map_of as ATTR_MESSAGE_INTEGRITY = None" and small: "20 + length (attrs_enc as) \<le> 1500"
    and mac: "length mac = 20" and h: "st_length h = length (attrs_enc (as @ (ATTR_MESSAGE_INTEGRITY, mac) # bs))"
  shows "verify_message_integrity sha1
      (stun_hd mt L txn @ attrs_enc (as @ (ATTR_MESSAGE_INTEGRITY, mac) # bs) @ post) h key =
    Some (mac = stun_hmac_sha1 sha1 key (stun_hd mt (length (attrs_enc as) + 24) txn @ attrs_enc as))"
proof -
  let ?buf = "stun_hd mt L txn @ attrs_enc (as @ (ATTR_MESSAGE_INTEGRITY, mac) # bs) @ post"
  define n where "n = 20 + length (attrs_enc as)"
  have body: "length (attrs_enc as) + 24 = n + 4" and n: "n \<le> 1500" "20 \<le> n" using small by (auto simp: n_def)
  have f: "find_attribute ?buf h ATTR_MESSAGE_INTEGRITY = Some (Some (n + 4, 20))"
    using find_attribute_loop_enc [OF ok, of 20 "stun_hd mt L txn" "20 + st_length h" post ATTR_MESSAGE_INTEGRITY]
      txn h fresh mac by (simp add: find_attribute_def attr_span_append n_def)
  have pre: "bslice_p 0 n ?buf = Some (stun_hd mt L txn @ attrs_enc as)"
    using txn by (simp add: bslice_p_def n_def) (simp add: bslice_def)
  have got: "bslice_p (n + 4) (n + 4 + 20) ?buf = Some mac"
    using txn mac by (simp add: bslice_p_def length_attr_enc pad4_def n_def) (simp add: bslice_def attr_enc_def pad4_def)
  let ?scr = "blit 0 (stun_hd mt L txn @ attrs_enc as) (replicate 1500 0)"
  have "?scr = stun_hd mt L txn @ attrs_enc as @ drop n (replicate 1500 0)"
    using txn by (simp add: blit_def n_def)
  then have scr: "take n (blit 2 (be_bytes 2 (unat (of_nat (n + 4) :: u16))) ?scr) =
      stun_hd mt (n + 4) txn @ attrs_enc as"
    using blit_len_hd [OF txn, of "n + 4" mt L "attrs_enc as @ drop n (replicate 1500 0)"] n txn
    by (simp add: n_def)
  let ?mac = "stun_hmac_sha1 sha1 key (stun_hd mt (n + 4) txn @ attrs_enc as)"
  have len: "length ?mac = length mac" unfolding stun_hmac_sha1_def Let_def mac by (rule sha)
  have "verify_message_integrity sha1 ?buf h key = Some (?mac = mac)"
    unfolding verify_message_integrity_def f using n pre got scr diff_zero_iff [OF len, of 0]
    by (simp add: Let_def add.commute [of 4 n] del: of_nat_add)
  then show ?thesis unfolding body eq_commute [of mac] .
qed

lemma verify_fp_enc:
  assumes txn: "length txn = 12" and ok: "list_all attr_ok as" and fresh: "map_of as ATTR_FINGERPRINT = None"
    and fp: "length fp = 4" and h: "st_length h = length (attrs_enc (as @ [(ATTR_FINGERPRINT, fp)]))"
  shows "verify_fingerprint (stun_hd mt L txn @ attrs_enc (as @ [(ATTR_FINGERPRINT, fp)]) @ post) h =
    Some (crc32 (stun_hd mt L txn @ attrs_enc as) XOR 0x5354554E = of_nat (be_val fp))"
proof -
  let ?buf = "stun_hd mt L txn @ attrs_enc (as @ [(ATTR_FINGERPRINT, fp)]) @ post"
  define n where "n = 20 + length (attrs_enc as)"
  have ok': "list_all attr_ok (as @ [(ATTR_FINGERPRINT, fp)])" using ok fp by (simp add: attr_ok_def)
  have f: "find_attribute ?buf h ATTR_FINGERPRINT = Some (Some (n + 4, 4))"
    using find_attribute_loop_enc [OF ok', of 20 "stun_hd mt L txn" "20 + st_length h" post ATTR_FINGERPRINT]
      txn h fresh fp by (simp add: find_attribute_def attr_span_append n_def)
  have pre: "bslice_p 0 n ?buf = Some (stun_hd mt L txn @ attrs_enc as)"
    using txn by (simp add: bslice_p_def n_def) (simp add: bslice_def)
  have got: "bslice_p (n + 4) (n + 4 + 4) ?buf = Some fp"
    using txn fp by (simp add: bslice_p_def length_attr_enc pad4_def n_def) (simp add: bslice_def attr_enc_def pad4_def)
  show ?thesis
    unfolding verify_fingerprint_def f using pre got by (simp add: Let_def)
qed

lemma find_attribute_enc:
  assumes "length txn = 12" and "list_all attr_ok as" and "st_length h = length (attrs_enc as)"
    and "map_of as typ = Some v"
  shows "\<exists>at. find_attribute (stun_hd typ0 L txn @ attrs_enc as @ post) h typ = Some (Some (at, length v)) \<and>
    bslice at (at + length v) (stun_hd typ0 L txn @ attrs_enc as @ post) = v"
  using find_attribute_loop_enc [OF assms(2), of 20 "stun_hd typ0 L txn" "20 + st_length h" post "typ"]
    attr_span_value [of 20 "stun_hd typ0 L txn" as "typ" v post] assms
  by (auto simp: find_attribute_def)

text \<open>The attribute list after signing and fingerprinting.\<close>

definition stun_mac :: "(bytes \<Rightarrow> bytes) \<Rightarrow> bytes \<Rightarrow> u16 \<Rightarrow> bytes \<Rightarrow> (u16 \<times> bytes) list \<Rightarrow> bytes" where
  "stun_mac sha1 key mt txn as = stun_hmac_sha1 sha1 key (stun_hd mt (length (attrs_enc as) + 24) txn @ attrs_enc as)"

definition stun_fp :: "u16 \<Rightarrow> bytes \<Rightarrow> (u16 \<times> bytes) list \<Rightarrow> bytes" where
  "stun_fp mt txn as = be_bytes 4 (unat (crc32 (stun_hd mt (length (attrs_enc as) + 8) txn @ attrs_enc as) XOR 0x5354554E))"

definition stun_signed :: "(bytes \<Rightarrow> bytes) \<Rightarrow> bytes \<Rightarrow> u16 \<Rightarrow> bytes \<Rightarrow> (u16 \<times> bytes) list \<Rightarrow> (u16 \<times> bytes) list" where
  "stun_signed sha1 key mt txn as =
     (let as1 = as @ [(ATTR_MESSAGE_INTEGRITY, stun_mac sha1 key mt txn as)]
      in as1 @ [(ATTR_FINGERPRINT, stun_fp mt txn as1)])"

lemma length_stun_mac: "(\<And>x. length (sha1 x) = 20) \<Longrightarrow> length (stun_mac sha1 key mt txn as) = 20"
  by (simp add: stun_mac_def stun_hmac_sha1_def Let_def)

lemma length_stun_fp [simp]: "length (stun_fp mt txn as) = 4"
  by (simp add: stun_fp_def)

lemma length_stun_signed:
  "(\<And>x. length (sha1 x) = 20) \<Longrightarrow> length (attrs_enc (stun_signed sha1 key mt txn as)) = length (attrs_enc as) + 32"
  by (simp add: stun_signed_def Let_def length_attr_enc length_stun_mac pad4_def)

lemma stun_signed_layout:
  fixes sha1 :: "bytes \<Rightarrow> bytes" and cls :: byte and meth :: u16 and key :: bytes
  assumes sha: "\<And>x. length (sha1 x) = 20" and txn: "length txn = 12" and ok: "list_all attr_ok as"
    and n: "n = 20 + length (attrs_enc as)" "n \<le> 1500" "n + 32 \<le> length out"
  defines "mt \<equiv> stun_message_type cls meth"
  shows "\<exists>out1 out2. stun_compose cls meth txn as out = (Some n, out1) \<and>
    append_message_integrity sha1 key n out1 = (Some (n + 24), out2) \<and>
    append_fingerprint (n + 24) out2 = (Some (n + 32),
      (stun_hd mt (length (attrs_enc as) + 32) txn @ attrs_enc (stun_signed sha1 key mt txn as)) @ drop (n + 32) out)"
proof -
  let ?L = "length (attrs_enc as)" and ?as1 = "as @ [(ATTR_MESSAGE_INTEGRITY, stun_mac sha1 key mt txn as)]"
  have l1: "length (attrs_enc ?as1) = ?L + 24" by (simp add: length_attr_enc length_stun_mac [where ?sha1.0 = sha1, OF sha] pad4_def)
  have c1: "stun_compose cls meth txn as out = (Some n, stun_hd mt 0 txn @ attrs_enc as @ drop n out)"
    using stun_compose_eq [of txn as out] txn ok n by (simp add: mt_def)
  have c2: "append_message_integrity sha1 key n (stun_hd mt 0 txn @ attrs_enc as @ drop n out) =
      (Some (n + 24), stun_hd mt (?L + 24) txn @ attrs_enc ?as1 @ drop (n + 24) out)"
    using append_message_integrity_cat [where ?sha1.0 = sha1, OF sha, where txn = txn and sec = "attrs_enc as" and rest = "drop n out"
        and key = key and mt = mt and l = 0] txn n
    by (simp add: stun_mac_def add.commute add.left_commute)
  have "append_fingerprint (20 + length (attrs_enc ?as1)) (stun_hd mt (?L + 24) txn @ attrs_enc ?as1 @ drop (n + 24) out) =
      (Some (20 + length (attrs_enc ?as1) + 8), stun_hd mt (length (attrs_enc ?as1) + 8) txn @ attrs_enc ?as1 @
        attr_enc (ATTR_FINGERPRINT, stun_fp mt txn ?as1) @ drop 8 (drop (n + 24) out))"
    unfolding stun_fp_def by (rule append_fingerprint_cat) (use txn n in \<open>simp_all only: l1\<close>, auto)
  moreover have "20 + length (attrs_enc ?as1) = n + 24" "length (attrs_enc ?as1) + 8 = ?L + 32" using l1 n by auto
  ultimately have c3: "append_fingerprint (n + 24) (stun_hd mt (?L + 24) txn @ attrs_enc ?as1 @ drop (n + 24) out) =
      (Some (n + 32), (stun_hd mt (?L + 32) txn @ attrs_enc (stun_signed sha1 key mt txn as)) @ drop (n + 32) out)"
    by (simp add: stun_signed_def Let_def add.commute)
  show ?thesis using c1 c2 c3 by blast
qed

lemma verify_fp_fresh:
  assumes "length txn = 12" and "list_all attr_ok as" and "map_of as ATTR_FINGERPRINT = None"
    and "st_length h = length (attrs_enc (as @ [(ATTR_FINGERPRINT, stun_fp mt txn as)]))"
  shows "verify_fingerprint (stun_hd mt (length (attrs_enc (as @ [(ATTR_FINGERPRINT, stun_fp mt txn as)]))) txn @
    attrs_enc (as @ [(ATTR_FINGERPRINT, stun_fp mt txn as)])) h = Some True"
proof -
  let ?all = "as @ [(ATTR_FINGERPRINT, stun_fp mt txn as)]"
  define N where "N = length (attrs_enc as) + 8"
  have l: "length (attrs_enc ?all) = N" by (simp add: N_def length_attr_enc pad4_def)
  have "of_nat (be_val (stun_fp mt txn as)) = crc32 (stun_hd mt N txn @ attrs_enc as) XOR 0x5354554E"
    unfolding stun_fp_def N_def by (rule from_to_be_bytes(2))
  then show ?thesis
    using verify_fp_enc [OF assms(1-3) length_stun_fp assms(4), where post = "[]" and mt = mt and L = N]
    unfolding l by (simp del: attrs_enc_simps)
qed

lemma stun_signed_checks:
  fixes sha1 :: "bytes \<Rightarrow> bytes" and mt :: u16 and key :: bytes
  assumes sha: "\<And>x. length (sha1 x) = 20" and txn: "length txn = 12" and ok: "list_all attr_ok as"
    and fresh: "map_of as ATTR_MESSAGE_INTEGRITY = None" "map_of as ATTR_FINGERPRINT = None"
    and small: "20 + length (attrs_enc as) \<le> 1500" and h: "st_length h = length (attrs_enc as) + 32"
  defines "b \<equiv> stun_hd mt (length (attrs_enc as) + 32) txn @ attrs_enc (stun_signed sha1 key mt txn as)"
  shows "verify_message_integrity sha1 b h key = Some True" and "verify_fingerprint b h = Some True"
    and "map_of as ty = Some v \<Longrightarrow> \<exists>at. find_attribute b h ty = Some (Some (at, length v)) \<and> bslice at (at + length v) b = v"
proof -
  let ?mac = "stun_mac sha1 key mt txn as"
  let ?as1 = "as @ [(ATTR_MESSAGE_INTEGRITY, ?mac)]"
  let ?fp = "stun_fp mt txn ?as1" and ?L = "length (attrs_enc as)"
  have all: "stun_signed sha1 key mt txn as = ?as1 @ [(ATTR_FINGERPRINT, ?fp)]" by (simp add: stun_signed_def)
  have mac20: "length ?mac = 20" by (rule length_stun_mac [where ?sha1.0 = sha1, OF sha])
  have l1: "length (attrs_enc ?as1) + 8 = ?L + 32" by (simp add: length_attr_enc mac20 pad4_def)
  have ok1: "list_all attr_ok ?as1" using ok mac20 by (simp add: attr_ok_def)
  have allok: "list_all attr_ok (stun_signed sha1 key mt txn as)" using ok1 by (simp add: all attr_ok_def)
  have len: "st_length h = length (attrs_enc (stun_signed sha1 key mt txn as))" using h length_stun_signed [where ?sha1.0 = sha1, OF sha] by simp
  have b: "b = stun_hd mt (?L + 32) txn @ attrs_enc (as @ (ATTR_MESSAGE_INTEGRITY, ?mac) # [(ATTR_FINGERPRINT, ?fp)]) @ []"
    by (simp add: b_def all)
  show "verify_message_integrity sha1 b h key = Some True"
    unfolding b using verify_mi_enc [where ?sha1.0 = sha1, OF sha txn _ fresh(1) small mac20, where bs = "[(ATTR_FINGERPRINT, ?fp)]" and h = h
        and mt = mt and L = "?L + 32" and post = "[]" and key = key]
      allok len by (simp add: all) (simp add: stun_mac_def)
  have "?L + 32 = length (attrs_enc (?as1 @ [(ATTR_FINGERPRINT, ?fp)]))" using l1 by (simp add: length_attr_enc pad4_def)
  then show "verify_fingerprint b h = Some True"
    using verify_fp_fresh [OF txn ok1, of h mt] fresh(2) len unfolding b_def all
    by (simp add: map_add_def del: attrs_enc_simps)
  assume "map_of as ty = Some v"
  then have "map_of (stun_signed sha1 key mt txn as) ty = Some v" by (simp add: all map_add_def)
  from find_attribute_enc [OF txn allok len this, of mt "?L + 32" "[]"]
  show "\<exists>at. find_attribute b h ty = Some (Some (at, length v)) \<and> bslice at (at + length v) b = v"
    by (simp add: b_def)
qed

section \<open>No read out of range\<close>

lemma next_attribute_no_panic: "tot \<le> length buf \<Longrightarrow> next_attribute buf at tot \<noteq> None"
  by (auto simp: next_attribute_def Let_def)

lemma find_attribute_loop_safe:
  "tot \<le> length buf \<Longrightarrow> \<exists>r. find_attribute_loop buf tot typ at = Some r \<and>
    (\<forall>v len. r = Some (v, len) \<longrightarrow> at + 4 \<le> v \<and> v + len \<le> tot)"
proof (induction buf tot "typ" at rule: find_attribute_loop.induct)
  case (1 buf tot "typ" at)
  obtain sc where sc: "next_attribute buf at tot = Some sc" using next_attribute_no_panic [OF 1(2)] by blast
  show ?case
  proof (cases sc)
    case (AttrFound t v len nxt)
    note p = next_attribute_progress [OF sc [unfolded AttrFound]]
    show ?thesis
    proof (cases "t = typ")
      case True
      then show ?thesis using sc AttrFound p by (subst find_attribute_loop.simps) simp
    next
      case False
      then obtain r where "find_attribute_loop buf tot typ nxt = Some r"
        "\<forall>v len. r = Some (v, len) \<longrightarrow> nxt + 4 \<le> v \<and> v + len \<le> tot"
        using 1(1) [OF sc AttrFound False 1(2)] by auto
      then show ?thesis using sc AttrFound p False by (subst find_attribute_loop.simps) fastforce
    qed
  qed (use sc in \<open>subst find_attribute_loop.simps, simp\<close>)+
qed

lemma first_unknown_loop_safe: "tot \<le> length buf \<Longrightarrow> first_unknown_loop buf tot known at \<noteq> None"
proof (induction buf tot known at rule: first_unknown_loop.induct)
  case (1 buf tot known at)
  obtain sc where sc: "next_attribute buf at tot = Some sc" using next_attribute_no_panic [OF 1(2)] by blast
  with 1 show ?case by (subst first_unknown_loop.simps) (auto split: attr_scan.splits)
qed

lemma parse_stun_header_length: "parse_stun_header buf = Some h \<Longrightarrow> 20 + st_length h \<le> length buf"
  by (auto simp: parse_stun_header_def Let_def split: if_splits)

lemma find_attribute_safe:
  assumes "parse_stun_header buf = Some h"
  shows "\<exists>r. find_attribute buf h typ = Some r \<and>
    (\<forall>v len. r = Some (v, len) \<longrightarrow> 24 \<le> v \<and> v + len \<le> 20 + st_length h)"
  using find_attribute_loop_safe [OF parse_stun_header_length [OF assms], of "typ" 20]
  by (simp add: find_attribute_def)

lemma verify_no_panic:
  assumes p: "parse_stun_header buf = Some h"
  shows "verify_message_integrity sha1 buf h key \<noteq> None" and "verify_fingerprint buf h \<noteq> None"
proof -
  note len = parse_stun_header_length [OF p]
  obtain r where "find_attribute buf h ATTR_MESSAGE_INTEGRITY = Some r"
    "\<forall>v len. r = Some (v, len) \<longrightarrow> 24 \<le> v \<and> v + len \<le> 20 + st_length h"
    using find_attribute_safe [OF p] by blast
  moreover have "\<lbrakk> 24 \<le> v; v + 20 \<le> length buf \<rbrakk> \<Longrightarrow>
      bslice_p 0 (v - 4) buf \<noteq> None \<and> bslice_p v (v + 20) buf \<noteq> None" for v
    by (simp add: bslice_p_def)
  ultimately show "verify_message_integrity sha1 buf h key \<noteq> None"
    using len unfolding verify_message_integrity_def by (fastforce simp: Let_def simp del: blit_def split: option.splits)
  obtain r where "find_attribute buf h ATTR_FINGERPRINT = Some r"
    "\<forall>v len. r = Some (v, len) \<longrightarrow> 24 \<le> v \<and> v + len \<le> 20 + st_length h"
    using find_attribute_safe [OF p] by blast
  with len show "verify_fingerprint buf h \<noteq> None"
    by (cases r) (auto simp: verify_fingerprint_def Let_def)
qed

lemma parse_values_no_panic:
  assumes "at + len \<le> length buf"
  shows "parse_xor_mapped_address buf at len txn \<noteq> None" and "parse_mapped_address buf at len \<noteq> None"
    and "parse_error_code buf at len \<noteq> None"
  using assms
  by (auto simp: parse_xor_mapped_address_def parse_mapped_address_def parse_error_code_def Let_def)

section \<open>Address values\<close>

definition xor_v4_value :: "bytes \<Rightarrow> u16 \<Rightarrow> bytes" where
  "xor_v4_value addr port = [0, STUN_FAMILY_IPV4] @ be_bytes 2 (unat (port XOR stun_magic_port)) @ map2 (XOR) addr stun_magic_bytes"

lemma length_xor_v4_value: "length addr = 4 \<Longrightarrow> length (xor_v4_value addr port) = 8"
  by (simp add: xor_v4_value_def)

lemma xor_v4_buffer:
  assumes "length addr = 4" and "z = [0, STUN_FAMILY_IPV4, 0, 0, 0, 0, 0, 0]"
  shows "blit 4 (map2 (XOR) addr stun_magic_bytes) (blit 2 (be_bytes 2 (unat (port XOR stun_magic_port))) z) = xor_v4_value addr port"
  using assms by (simp add: blit_def xor_v4_value_def)

lemma append_xor_mapped_v4_eq:
  "length addr = 4 \<Longrightarrow> append_xor_mapped_address_v4 addr port at =
     append_attribute ATTR_XOR_MAPPED_ADDRESS (xor_v4_value addr port) at"
  unfolding append_xor_mapped_address_v4_def Let_def
  by (subst xor_v4_buffer) (simp_all add: numeral_eq_Suc)

lemma parse_xor_v4_value:
  assumes "length addr = 4" and "bslice at (at + 8) buf = xor_v4_value addr port" and "at + 8 \<le> length buf"
  shows "parse_xor_mapped_address buf at 8 txn =
    Some (Some \<lparr> sa_family = STUN_FAMILY_IPV4, sa_addr = addr @ replicate 12 0, sa_port = port \<rparr>)"
proof -
  let ?x = "map2 (XOR) addr stun_magic_bytes" and ?p = "be_bytes 2 (unat (port XOR stun_magic_port))"
  let ?s = "bslice at (at + 8) buf"
  have v: "?s = [0, STUN_FAMILY_IPV4] @ ?p @ ?x" using assms(2) by (simp add: xor_v4_value_def)
  have "buf ! (at + 1) = ?s ! 1" using assms(3) by (simp add: bslice_def)
  then have i: "at_idx buf (at + 1) = Some STUN_FAMILY_IPV4" using assms(3) v by simp
  have "bslice (at + 2) (at + 4) buf = bslice 2 4 ?s" "bslice (at + 4) (at + 8) buf = bslice 4 8 ?s"
    by (simp_all add: bslice_def drop_take add.commute)
  moreover have "bslice 2 4 ?s = ?p" "bslice 4 8 ?s = ?x" unfolding v using assms(1) by (simp_all add: bslice_def)
  ultimately have b: "bslice_p (at + 2) (at + 4) buf = Some ?p" "bslice_p (at + 4) (at + 8) buf = Some ?x"
    using assms(3) by simp_all
  have ax: "map2 (XOR) ?x stun_magic_bytes = addr"
    using assms(1) by (intro nth_equalityI) (simp_all add: xor.assoc)
  have px: "(of_nat (be_val ?p) :: u16) XOR stun_magic_port = port"
    unfolding from_to_be_bytes by (simp add: xor.assoc)
  have "blit 0 addr (replicate 16 0) = addr @ replicate 12 0" using assms(1) by (simp add: blit_def)
  with i b ax px show ?thesis unfolding parse_xor_mapped_address_def by (simp add: Let_def del: be_bytes.simps)
qed

section \<open>The checksum\<close>

lemma crc32_bit_top: "bit (crc32_bit x) 31 \<longleftrightarrow> bit x 0"
proof -
  have m: "bit (- (x AND 1)) 31 \<longleftrightarrow> bit x 0"
    by (cases "bit x 0") (simp_all add: and_one_eq bit_0 even_iff_mod_2_eq_zero)
  have hi: "\<not> bit x 32" by (auto dest: bit_imp_le_length)
  show ?thesis
    unfolding crc32_bit_def by (simp add: bit_xor_iff bit_and_iff bit_drop_bit_eq m hi)
qed

lemma crc32_bit_inj: "crc32_bit x = crc32_bit y \<Longrightarrow> x = y"
proof -
  assume e: "crc32_bit x = crc32_bit y"
  then have b0: "bit x 0 \<longleftrightarrow> bit y 0" using crc32_bit_top by metis
  then have "x AND 1 = y AND 1" by (simp add: and_one_eq bit_0 mod2_eq_if)
  then have d: "drop_bit 1 x = drop_bit 1 y"
    using e unfolding crc32_bit_def by (metis word_xor_cancel)
  show "x = y"
  proof (rule bit_word_eqI)
    fix n
    show "bit x n = bit y n"
      using b0 arg_cong [OF d, of "\<lambda>w. bit w (n - 1)"] by (cases n) (simp_all add: bit_drop_bit_eq)
  qed
qed

lemma crc32_bits_inj: "(crc32_bit ^^ n) x = (crc32_bit ^^ n) y \<Longrightarrow> x = y"
  by (induction n arbitrary: x y) (auto simp: funpow_swap1 dest: crc32_bit_inj)

lemma crc32_byte_inj:
  "crc32_byte c b = crc32_byte c' b \<Longrightarrow> c = c'" "crc32_byte c b = crc32_byte c b' \<Longrightarrow> b = b'"
proof -
  assume "crc32_byte c b = crc32_byte c' b"
  then have "c XOR ucast b = c' XOR ucast b" unfolding crc32_byte_def by (rule crc32_bits_inj)
  then show "c = c'" by (rule word_xor_cancel)
next
  assume "crc32_byte c b = crc32_byte c b'"
  then have "c XOR ucast b = c XOR ucast b'" unfolding crc32_byte_def by (rule crc32_bits_inj)
  then have "(ucast b :: u32) = ucast b'" by (metis word_xor_cancel xor.commute)
  then have "unat (ucast b :: u32) = unat (ucast b' :: u32)" by simp
  moreover have "unat (ucast x :: u32) = unat x" for x :: byte
    using byte_unat_less [of x] by (simp add: unsigned_ucast_eq take_bit_nat_eq_self del: byte_unat_less)
  ultimately show "b = b'" by (metis unsigned_word_eqI)
qed

lemma crc32_state_inj: "foldl crc32_byte c bs = foldl crc32_byte c' bs \<Longrightarrow> c = c'"
  by (induction bs arbitrary: c c') (auto dest: crc32_byte_inj)

section \<open>Properties\<close>

text \<open>A composed message reads back as what was composed: the header is accepted with the class,
  method and transaction id it was written with, and for every attribute type the scan finds exactly
  the first attribute of that type with its value, or reports that there is none.\<close>

theorem stun_message_roundtrip:
  assumes "cls < 4" and "meth < 0x1000" and "length txn = 12" and "list_all attr_ok as"
    and "length (attrs_enc as) \<le> 65535" and "20 + length (attrs_enc as) \<le> length out"
  shows "\<exists>n out1 out2 h. stun_compose cls meth txn as out = (Some n, out1) \<and>
    stun_set_length n out1 = (Some (), out2) \<and> length out2 = length out \<and>
    parse_stun_header (take n out2) = Some h \<and>
    st_class h = cls \<and> st_method h = meth \<and> st_txn h = txn \<and>
    (\<forall>ty. case map_of as ty of
        None \<Rightarrow> find_attribute (take n out2) h ty = Some None
      | Some v \<Rightarrow> \<exists>at. find_attribute (take n out2) h ty = Some (Some (at, length v)) \<and>
          bslice at (at + length v) (take n out2) = v)"
proof -
  let ?ty = "stun_message_type cls meth" and ?n = "20 + length (attrs_enc as)" and ?L = "length (attrs_enc as)"
  let ?out1 = "stun_hd ?ty 0 txn @ attrs_enc as @ drop ?n out"
  let ?out2 = "stun_hd ?ty ?L txn @ attrs_enc as @ drop ?n out"
  let ?h = "\<lparr> st_class = cls, st_method = meth, st_length = ?L, st_txn = txn \<rparr>"
  have t: "take ?n ?out2 = stun_hd ?ty ?L txn @ attrs_enc as" using assms(3) by simp
  have p: "parse_stun_header (take ?n ?out2) = Some ?h"
    unfolding t using assms attrs_enc_mod4 [of as] parse_stun_msg [of cls meth txn ?L "attrs_enc as"] by simp
  have f: "case map_of as ty of None \<Rightarrow> find_attribute (take ?n ?out2) ?h ty = Some None
      | Some v \<Rightarrow> \<exists>at. find_attribute (take ?n ?out2) ?h ty = Some (Some (at, length v)) \<and>
          bslice at (at + length v) (take ?n ?out2) = v" for ty
  proof (cases "map_of as ty")
    case None
    then show ?thesis
      unfolding t using find_attribute_loop_enc [OF assms(4), of 20 "stun_hd ?ty ?L txn" ?n "[]" ty] assms(3)
      by (simp add: find_attribute_def attr_span_None)
  next
    case (Some v)
    then show ?thesis
      unfolding t using find_attribute_enc [OF assms(3,4) _ Some, of ?h ?ty ?L "[]"] by simp
  qed
  have "stun_set_length ?n ?out1 = (Some (), ?out2)" using assms stun_set_length_hd [of txn ?n] by simp
  moreover have "length ?out2 = length out" using assms by simp
  ultimately show ?thesis
    using stun_compose_eq [OF assms(3,4,6), of cls meth] p f
    by - (rule exI [of _ ?n], rule exI [of _ ?out1], rule exI [of _ ?out2], rule exI [of _ ?h],
        intro conjI allI, simp_all del: take_append)
qed

theorem stun_message_roundtrip_witness:
  "\<exists>n out1 out2 h. stun_compose 0 1 (replicate 12 7) [(0x24, [1,2,3,4]), (0x25, []), (0x24, [9])] (replicate 64 0) = (Some n, out1) \<and>
    stun_set_length n out1 = (Some (), out2) \<and> parse_stun_header (take n out2) = Some h \<and> st_method h = 1"
proof -
  have "list_all attr_ok [(0x24, [1,2,3,4]), (0x25, []), (0x24, [9])]" by (simp add: attr_ok_def)
  moreover have "length (attrs_enc [(0x24, [1,2,3,4]), (0x25, []), (0x24, [9])]) = 20"
    by (simp add: length_attr_enc pad4_def)
  ultimately show ?thesis
    using stun_message_roundtrip [of 0 1 "replicate 12 7" "[(0x24, [1,2,3,4]), (0x25, []), (0x24, [9])]" "replicate 64 0"]
    by fastforce
qed

text \<open>C7. Sign, then fingerprint, then check: a message composed within one datagram, extended with
  MESSAGE-INTEGRITY under a key and then with FINGERPRINT, is accepted by both checks at the receiver
  (although the later attribute changed the length field the integrity value covered), and every
  attribute written before them is still found. \<open>sha1\<close> is any function with twenty-byte results.\<close>

theorem stun_sign_then_verify:
  fixes sha1 :: "bytes \<Rightarrow> bytes"
  assumes "\<forall>x. length (sha1 x) = 20" and "cls < 4" and "meth < 0x1000" and "length txn = 12"
    and "list_all attr_ok as" and "map_of as ATTR_MESSAGE_INTEGRITY = None" and "map_of as ATTR_FINGERPRINT = None"
    and "n = 20 + length (attrs_enc as)" and "n \<le> 1500" and "n + 32 \<le> length out"
  shows "\<exists>out1 out2 out3 h. stun_compose cls meth txn as out = (Some n, out1) \<and>
    append_message_integrity sha1 key n out1 = (Some (n + 24), out2) \<and>
    append_fingerprint (n + 24) out2 = (Some (n + 32), out3) \<and>
    parse_stun_header (take (n + 32) out3) = Some h \<and> st_class h = cls \<and> st_method h = meth \<and>
    verify_message_integrity sha1 (take (n + 32) out3) h key = Some True \<and>
    verify_fingerprint (take (n + 32) out3) h = Some True \<and>
    (\<forall>ty v. map_of as ty = Some v \<longrightarrow> (\<exists>at. find_attribute (take (n + 32) out3) h ty = Some (Some (at, length v)) \<and>
       bslice at (at + length v) (take (n + 32) out3) = v))"
proof -
  have sha: "length (sha1 x) = 20" for x using assms(1) by simp
  let ?ty = "stun_message_type cls meth" and ?L = "length (attrs_enc as)"
  let ?all = "stun_signed sha1 key ?ty txn as"
  let ?b = "stun_hd ?ty (?L + 32) txn @ attrs_enc ?all"
  let ?h = "\<lparr> st_class = cls, st_method = meth, st_length = ?L + 32, st_txn = txn \<rparr>"
  note lay = stun_signed_layout [where ?sha1.0 = sha1, OF sha assms(4,5,8,9,10), where cls = cls and meth = meth and key = key]
  have len: "length (attrs_enc ?all) = ?L + 32" by (rule length_stun_signed [where ?sha1.0 = sha1, OF sha])
  have t: "take (n + 32) (?b @ drop (n + 32) out) = ?b" using len assms(4,8) by simp
  have p: "parse_stun_header ?b = Some ?h"
    using assms attrs_enc_mod4 [of ?all] parse_stun_msg [of cls meth txn "?L + 32" "attrs_enc ?all"] len by simp
  from lay obtain out1 out2 where o: "stun_compose cls meth txn as out = (Some n, out1)"
    "append_message_integrity sha1 key n out1 = (Some (n + 24), out2)"
    "append_fingerprint (n + 24) out2 = (Some (n + 32), ?b @ drop (n + 32) out)" by auto
  have c: "verify_message_integrity sha1 ?b ?h key = Some True" "verify_fingerprint ?b ?h = Some True"
    "\<forall>ty v. map_of as ty = Some v \<longrightarrow> (\<exists>at. find_attribute ?b ?h ty = Some (Some (at, length v)) \<and>
       bslice at (at + length v) ?b = v)"
    using stun_signed_checks [where ?sha1.0 = sha1, OF sha assms(4-7), where h = ?h and key = key and mt = ?ty] assms(8,9) by auto
  show ?thesis
    by (rule exI [of _ out1], rule exI [of _ out2], rule exI [of _ "?b @ drop (n + 32) out"], rule exI [of _ ?h],
        unfold t) (intro conjI o p c; simp)
qed

theorem stun_sign_then_verify_witness:
  "\<exists>out1 out2 out3 h. let sha1 = (\<lambda>x. replicate 20 (fold (+) x 0)); n = 28 in
    stun_compose 0 1 (replicate 12 7) [(0x24, [1,2,3,4])] (replicate 64 0) = (Some n, out1) \<and>
    append_message_integrity sha1 [107] n out1 = (Some (n + 24), out2) \<and>
    append_fingerprint (n + 24) out2 = (Some (n + 32), out3) \<and>
    parse_stun_header (take (n + 32) out3) = Some h \<and>
    verify_message_integrity sha1 (take (n + 32) out3) h [107] = Some True"
proof -
  have "list_all attr_ok [(0x24, [1,2,3,4])]" by (simp add: attr_ok_def)
  moreover have "28 = 20 + length (attrs_enc [(0x24, [1,2,3,4])])"
    by (simp add: length_attr_enc pad4_def)
  ultimately show ?thesis
    using stun_sign_then_verify [of "\<lambda>x. replicate 20 (fold (+) x 0)" 0 1 "replicate 12 7" "[(0x24, [1,2,3,4])]" 28
      "replicate 64 0" "[107]"] unfolding Let_def by fastforce
qed

text \<open>C18. No datagram makes the reader index out of range: whatever the bytes are, if the header is
  accepted then the attribute scan for any type, the search for an unknown required attribute, both
  checks, and the address and error-code readers on any attribute the scan found, all return.\<close>

theorem stun_reader_never_panics:
  assumes "parse_stun_header buf = Some h"
  shows "first_unknown_required buf h known \<noteq> None \<and>
    verify_message_integrity sha1 buf h key \<noteq> None \<and> verify_fingerprint buf h \<noteq> None \<and>
    (\<exists>r. find_attribute buf h ty = Some r \<and>
      (case r of None \<Rightarrow> True
       | Some (at, len) \<Rightarrow> at + len \<le> length buf \<and> parse_xor_mapped_address buf at len (st_txn h) \<noteq> None \<and>
           parse_mapped_address buf at len \<noteq> None \<and> parse_error_code buf at len \<noteq> None))"
proof -
  note len = parse_stun_header_length [OF assms]
  obtain r where r: "find_attribute buf h ty = Some r"
    "\<forall>v len. r = Some (v, len) \<longrightarrow> 24 \<le> v \<and> v + len \<le> 20 + st_length h"
    using find_attribute_safe [OF assms] by blast
  have "case r of None \<Rightarrow> True
       | Some (at, len) \<Rightarrow> at + len \<le> length buf \<and> parse_xor_mapped_address buf at len (st_txn h) \<noteq> None \<and>
           parse_mapped_address buf at len \<noteq> None \<and> parse_error_code buf at len \<noteq> None"
  proof (cases r)
    case (Some p)
    then obtain v l where p: "p = (v, l)" "v + l \<le> length buf" using r(2) len by (cases p) auto
    from parse_values_no_panic [OF p(2)] show ?thesis using Some p by simp
  qed simp
  then show ?thesis
    using r(1) verify_no_panic [OF assms] first_unknown_loop_safe [OF len, of known 20]
    by (auto simp: first_unknown_required_def)
qed

theorem stun_reader_never_panics_witness:
  "\<exists>h. parse_stun_header (stun_hd 1 4 (replicate 12 7) @ [0, 8, 0xFF, 0xFF]) = Some h \<and>
    verify_fingerprint (stun_hd 1 4 (replicate 12 7) @ [0, 8, 0xFF, 0xFF]) h \<noteq> None"
proof -
  have "parse_stun_header (stun_hd 1 4 (replicate 12 7) @ [0, 8, 0xFF, 0xFF]) \<noteq> None"
    by (simp add: parse_stun_hd)
  then show ?thesis using stun_reader_never_panics [of "stun_hd 1 4 (replicate 12 7) @ [0, 8, 0xFF, 0xFF]"] by blast
qed

text \<open>FINGERPRINT catches every single-byte corruption of the bytes it covers: two byte strings
  that differ in exactly one byte have different checksums.\<close>

theorem crc32_detects_one_byte:
  assumes "x \<noteq> y"
  shows "crc32 (pre @ x # post) \<noteq> crc32 (pre @ y # post)"
proof
  assume "crc32 (pre @ x # post) = crc32 (pre @ y # post)"
  then have "crc32_byte (foldl crc32_byte 0xFFFFFFFF pre) x = crc32_byte (foldl crc32_byte 0xFFFFFFFF pre) y"
    by (auto simp: crc32_def dest!: crc32_state_inj)
  then have "x = y" by (rule crc32_byte_inj)
  with assms show False ..
qed

theorem crc32_detects_one_byte_witness: "crc32 ([1, 2] @ 3 # [4]) \<noteq> crc32 ([1, 2] @ 5 # [4])"
  by (rule crc32_detects_one_byte) simp

text \<open>An IPv4 XOR-MAPPED-ADDRESS written into a message is read back as that address and port,
  whatever the transaction id, with the unused twelve bytes of the address zero.\<close>

theorem stun_xor_address_roundtrip:
  assumes "length addr = 4" and "append_xor_mapped_address_v4 addr port at out = (Some n, out')"
  shows "n = at + 12 \<and> parse_xor_mapped_address out' (at + 4) 8 txn =
    Some (Some \<lparr> sa_family = STUN_FAMILY_IPV4, sa_addr = addr @ replicate 12 0, sa_port = port \<rparr>)"
proof -
  let ?v = "xor_v4_value addr port" and ?e = "attr_enc (ATTR_XOR_MAPPED_ADDRESS, xor_v4_value addr port)"
  have a: "append_attribute ATTR_XOR_MAPPED_ADDRESS ?v at out = (Some n, out')"
    using assms(2) append_xor_mapped_v4_eq [OF assms(1)] by simp
  have le: "length ?e = 12" by (simp add: length_attr_enc length_xor_v4_value [OF assms(1)] pad4_def)
  have fit: "at + 12 \<le> length out" and n: "n = at + 12" and out': "out' = blit at ?e out"
    using a unfolding append_attribute_eq le by (auto split: if_splits)
  have "bslice at (at + 12) out' = ?e" using bslice_blit_self [of at ?e out] fit le out' by simp
  moreover have "bslice (at + 4) (at + 4 + 8) out' = bslice 4 12 (bslice at (at + 12) out')" by (simp add: bslice_def ac_simps drop_take)
  moreover have "bslice 4 12 ?e = ?v" by (simp add: bslice_def attr_enc_def length_xor_v4_value [OF assms(1)] pad4_def)
  moreover have "length out' = length out" using out' fit le by simp
  ultimately show ?thesis
    using n fit parse_xor_v4_value [OF assms(1), of "at + 4" out' port txn] by simp
qed

theorem stun_xor_address_roundtrip_witness:
  "map_option sa_port (the (parse_xor_mapped_address
     (snd (append_xor_mapped_address_v4 [192, 0, 2, 1] 32853 0 (replicate 12 0))) 4 8 (replicate 12 1))) = Some 32853"
proof -
  have "\<exists>n out'. append_xor_mapped_address_v4 [192, 0, 2, 1] 32853 0 (replicate 12 0) = (Some n, out')"
    by (simp add: append_xor_mapped_address_v4_def append_attribute_eq length_attr_enc pad4_def blit_def)
  then obtain n out' where a: "append_xor_mapped_address_v4 [192, 0, 2, 1] 32853 0 (replicate 12 0) = (Some n, out')" by blast
  show ?thesis using stun_xor_address_roundtrip [OF _ a, of "replicate 12 1"] a by simp
qed

end
