(* ===== verification/Stun_Txn.thy ===== *)
theory Stun_Txn
  imports Stun
begin

text \<open>
  \<open>modules/common/stun_txn.rs\<close>: the client transaction (retransmission schedule, response matching),
  transaction-id derivation, and the nine-byte result record. A transaction is driven here the way
  the pump drives it: a tick polls and, when a send is due, records it; a reply is matched and
  accepted.
\<close>

abbreviation (input) STUN_RTO_MS :: u64 where "STUN_RTO_MS \<equiv> 500"
abbreviation (input) STUN_RC :: byte where "STUN_RC \<equiv> 7"
abbreviation (input) STUN_RM :: u64 where "STUN_RM \<equiv> 16"
abbreviation (input) STUN_RESULT_LEN :: nat where "STUN_RESULT_LEN \<equiv> 9"

text \<open>\<open>u64::saturating_add\<close>, \<open>u64::saturating_mul\<close>, \<open>u8::saturating_sub\<close>.\<close>

definition saturating_add :: "u64 \<Rightarrow> u64 \<Rightarrow> u64" where
  "saturating_add a b = (if unat a + unat b < 2 ^ 64 then a + b else - 1)"

definition saturating_mul :: "u64 \<Rightarrow> u64 \<Rightarrow> u64" where
  "saturating_mul a b = (if unat a * unat b < 2 ^ 64 then a * b else - 1)"

definition saturating_sub8 :: "byte \<Rightarrow> byte \<Rightarrow> byte" where
  "saturating_sub8 a b = (if b \<le> a then a - b else 0)"

datatype stun_txn_action = TxnSend byte | TxnWait | TxnTimedOut

record stun_txn =
  tx_id :: bytes
  tx_sent :: byte
  tx_due_ms :: u64
  tx_done :: byte

definition txn_start :: "bytes \<Rightarrow> u64 \<Rightarrow> stun_txn" where
  "txn_start i now_ms = \<lparr> tx_id = i, tx_sent = 0, tx_due_ms = now_ms, tx_done = 0 \<rparr>"

definition interval_ms :: "byte \<Rightarrow> u64" where
  "interval_ms snt =
     (if STUN_RC \<le> snt then STUN_RM * STUN_RTO_MS
      else
        let sh = min (unat (saturating_sub8 snt 1)) 16
        in saturating_mul STUN_RTO_MS (push_bit sh 1))"

definition txn_poll :: "stun_txn \<Rightarrow> u64 \<Rightarrow> stun_txn_action" where
  "txn_poll t now_ms =
     (if tx_done t \<noteq> 0 then TxnWait
      else if now_ms < tx_due_ms t then TxnWait
      else if STUN_RC \<le> tx_sent t then TxnTimedOut
      else TxnSend (tx_sent t + 1))"

definition txn_sent_at :: "u64 \<Rightarrow> stun_txn \<Rightarrow> stun_txn" where
  "txn_sent_at now_ms t =
     (if tx_done t \<noteq> 0 \<or> STUN_RC \<le> tx_sent t then t
      else
        let t = t\<lparr> tx_sent := tx_sent t + 1 \<rparr>
        in t\<lparr> tx_due_ms := saturating_add now_ms (interval_ms (tx_sent t)) \<rparr>)"

definition txn_matches :: "stun_txn \<Rightarrow> bytes \<Rightarrow> bool" where
  "txn_matches t i =
     (if length i \<noteq> length (tx_id t) then False
      else foldl (\<lambda>d (e, b). d OR (e XOR b)) 0 (zip (tx_id t) i) = 0)"

definition txn_accept :: "stun_txn \<Rightarrow> bool \<times> stun_txn" where
  "txn_accept t = (if tx_done t \<noteq> 0 then (False, t) else (True, t\<lparr> tx_done := 1 \<rparr>))"

definition txn_is_finished :: "stun_txn \<Rightarrow> u64 \<Rightarrow> bool" where
  "txn_is_finished t now_ms \<longleftrightarrow> tx_done t \<noteq> 0 \<or> txn_poll t now_ms = TxnTimedOut"

definition stun_txn_id :: "u64 \<Rightarrow> u64 \<Rightarrow> bytes" where
  "stun_txn_id counter seed =
     (let mixed = counter * 0x9E3779B97F4A7C15 + seed;
          i = blit 0 (be_bytes 8 (unat mixed)) (replicate 12 0)
      in blit 8 (be_bytes 4 (unat (ucast counter :: u32))) i)"

section \<open>The result record\<close>

type_synonym ipv4 = "byte \<times> byte \<times> byte \<times> byte"

definition ipv4_bytes :: "ipv4 \<Rightarrow> bytes" where
  "ipv4_bytes ip = (case ip of (a, b, c, d) \<Rightarrow> [a, b, c, d])"

definition write_stun_result :: "byte \<times> ipv4 \<times> u16 \<times> u16 \<Rightarrow> nat writer" where
  "write_stun_result r out =
     (case r of (status, ip_be, port, code) \<Rightarrow>
        if length out < STUN_RESULT_LEN then (None, out)
        else
          let out = out[0 := status];
              out = blit 1 (ipv4_bytes ip_be) out;
              out = blit 5 (le_bytes 2 (unat port)) out;
              out = blit 7 (le_bytes 2 (unat code)) out
          in (Some STUN_RESULT_LEN, out))"

definition parse_stun_result :: "bytes \<Rightarrow> (byte \<times> ipv4 \<times> u16 \<times> u16) option" where
  "parse_stun_result buf =
     (if length buf \<noteq> STUN_RESULT_LEN then None
      else Some (buf ! 0, (buf ! 1, buf ! 2, buf ! 3, buf ! 4),
             of_nat (le_val (bslice 5 7 buf)), of_nat (le_val (bslice 7 9 buf))))"

section \<open>Driving a transaction\<close>

datatype txn_event = TxnTick u64 | TxnReply bytes

datatype txn_out = TxnDid stun_txn_action | TxnAccepted bool

definition txn_step :: "stun_txn \<Rightarrow> txn_event \<Rightarrow> txn_out \<times> stun_txn" where
  "txn_step t e =
     (case e of
        TxnTick now \<Rightarrow>
          let act = txn_poll t now
          in (TxnDid act, (case act of TxnSend _ \<Rightarrow> txn_sent_at now t | _ \<Rightarrow> t))
      | TxnReply i \<Rightarrow>
          if txn_matches t i then (case txn_accept t of (b, t') \<Rightarrow> (TxnAccepted b, t'))
          else (TxnAccepted False, t))"

lemma interval_table:
  "interval_ms 1 = 500" "interval_ms 2 = 1000" "interval_ms 3 = 2000" "interval_ms 4 = 4000"
  "interval_ms 5 = 8000" "interval_ms 6 = 16000" "interval_ms 7 = 8000"
  by (simp_all add: interval_ms_def saturating_sub8_def saturating_mul_def push_bit_eq_mult word_le_nat_alt)

text \<open>The earliest time, after the start, at which a transaction with \<open>n\<close> transmissions made has
  something due.\<close>

definition txn_offset :: "nat \<Rightarrow> nat" where
  "txn_offset n = [0, 500, 1500, 3500, 7500, 15500, 31500, 39500] ! n"

lemma byte_le_7: "(b :: byte) < 7 \<Longrightarrow> b \<in> {0, 1, 2, 3, 4, 5, 6}"
proof -
  assume "b < 7"
  then have "unat b < 7" by (simp add: word_less_nat_alt)
  then have "unat b \<in> {0, 1, 2, 3, 4, 5, 6}" by auto
  moreover have "unat b = k \<Longrightarrow> b = of_nat k" for k by auto
  ultimately show ?thesis by (elim insertE emptyE) force+
qed

lemma txn_next_interval:
  "(b :: byte) < 7 \<Longrightarrow> txn_offset (unat (b + 1)) = txn_offset (unat b) + unat (interval_ms (b + 1)) \<and>
    unat (b + 1) = unat b + 1 \<and> unat (interval_ms (b + 1)) \<le> 16000"
  by (drule byte_le_7) (auto simp: interval_table txn_offset_def)

text \<open>Everything the schedule promises, as an invariant of a transaction started at \<open>start\<close>.\<close>

definition txn_inv :: "nat \<Rightarrow> stun_txn \<Rightarrow> bool" where
  "txn_inv start t \<longleftrightarrow> tx_sent t \<le> 7 \<and> start + txn_offset (unat (tx_sent t)) \<le> unat (tx_due_ms t)"

definition tick_ok :: "txn_event \<Rightarrow> bool" where
  "tick_ok e = (case e of TxnTick now \<Rightarrow> unat now + 16000 < 2 ^ 64 | TxnReply _ \<Rightarrow> True)"

lemma txn_inv_start: "txn_inv (unat now) (txn_start i now)"
  by (simp add: txn_inv_def txn_start_def txn_offset_def)

lemma txn_sent_at_inv:
  assumes inv: "txn_inv start t" and due: "tx_due_ms t \<le> now" "tx_sent t < 7" and ok: "unat now + 16000 < 2 ^ 64"
  shows "txn_inv start (txn_sent_at now t)"
proof -
  note nx = txn_next_interval [OF due(2)]
  have "unat (saturating_add now (interval_ms (tx_sent t + 1))) = unat now + unat (interval_ms (tx_sent t + 1))"
    using nx ok by (simp add: saturating_add_def unat_word_ariths)
  moreover have "unat (tx_due_ms t) \<le> unat now" using due(1) by (simp add: word_le_nat_alt)
  moreover have "tx_sent t + 1 \<le> 7" using nx due(2) by (simp add: word_le_nat_alt word_less_nat_alt)
  ultimately show ?thesis
    using inv nx due(2) by (auto simp: txn_inv_def txn_sent_at_def Let_def not_le)
qed

lemma txn_step_inv: "txn_inv start t \<Longrightarrow> tick_ok e \<Longrightarrow> txn_inv start (snd (txn_step t e))"
  using txn_sent_at_inv [of start t]
  by (auto simp: txn_step_def txn_poll_def tick_ok_def Let_def txn_accept_def txn_inv_def not_le not_less
      split: txn_event.splits stun_txn_action.splits)

interpretation txn: machine_inv "\<lambda>t e. if tick_ok e then txn_step t e else (TxnAccepted False, t)" "txn_inv start"
  for start
  by unfold_locales (auto simp: txn_step_inv)

lemma run_tick_ok:
  "list_all tick_ok es \<Longrightarrow>
   run (\<lambda>t e. if tick_ok e then txn_step t e else (TxnAccepted False, t)) t es = run txn_step t es"
  by (induction es arbitrary: t) (simp_all add: Let_def)

text \<open>The attempt numbers a run put on the wire.\<close>

fun txn_attempts :: "txn_out list \<Rightarrow> nat list" where
  "txn_attempts [] = []"
| "txn_attempts (TxnDid (TxnSend k) # os) = unat k # txn_attempts os"
| "txn_attempts (_ # os) = txn_attempts os"

lemma txn_step_done: "tx_done t \<noteq> 0 \<Longrightarrow> snd (txn_step t e) = t \<and>
    (\<forall>k. fst (txn_step t e) \<noteq> TxnDid (TxnSend k)) \<and> fst (txn_step t e) \<noteq> TxnAccepted True"
  by (simp add: txn_step_def txn_poll_def txn_accept_def Let_def split: txn_event.splits)

lemma txn_run_done: "tx_done t \<noteq> 0 \<Longrightarrow> txn_attempts (fst (run txn_step t es)) = []"
proof (induction es)
  case (Cons e es)
  then show ?case using txn_step_done [OF Cons.prems, of e]
    by (cases "fst (txn_step t e)" rule: txn_out.exhaust)
      (simp_all add: Let_def, metis stun_txn_action.exhaust txn_attempts.simps(3,4))
qed simp

lemma txn_step_cases:
  assumes "tx_done t = 0"
  obtains (send) now where "e = TxnTick now" "tx_due_ms t \<le> now" "tx_sent t < 7"
      "txn_step t e = (TxnDid (TxnSend (tx_sent t + 1)), txn_sent_at now t)"
    | (idle) "snd (txn_step t e) = t" "\<forall>k. fst (txn_step t e) \<noteq> TxnDid (TxnSend k)"
    | (reply) "fst (txn_step t e) = TxnAccepted True" "tx_done (snd (txn_step t e)) \<noteq> 0"
proof (cases e)
  case (TxnTick now)
  consider "now < tx_due_ms t" | "tx_due_ms t \<le> now" "7 \<le> tx_sent t" | "tx_due_ms t \<le> now" "tx_sent t < 7"
    by force
  then show ?thesis
  proof cases
    case 3
    then have "\<not> now < tx_due_ms t" "\<not> 7 \<le> tx_sent t" by (simp_all add: not_less not_le)
    with 3 show ?thesis using assms TxnTick send by (simp add: txn_step_def txn_poll_def Let_def)
  qed (use assms TxnTick idle in \<open>simp_all add: txn_step_def txn_poll_def Let_def\<close>)
next
  case (TxnReply i)
  then show ?thesis
    using assms idle reply by (cases "txn_matches t i") (simp_all add: txn_step_def txn_accept_def)
qed

lemma txn_attempts_skip: "\<forall>k. x \<noteq> TxnDid (TxnSend k) \<Longrightarrow> txn_attempts (x # os) = txn_attempts os"
  by (cases x rule: txn_out.exhaust) (auto, metis stun_txn_action.exhaust txn_attempts.simps(3,4))

lemma txn_attempts_upt:
  "tx_sent t \<le> 7 \<Longrightarrow> tx_sent t \<le> tx_sent (snd (run txn_step t es)) \<and> tx_sent (snd (run txn_step t es)) \<le> 7 \<and>
   txn_attempts (fst (run txn_step t es)) = [Suc (unat (tx_sent t))..<Suc (unat (tx_sent (snd (run txn_step t es))))]"
proof (induction es arbitrary: t)
  case Nil
  then show ?case by simp
next
  case (Cons e es)
  show ?case
  proof (cases "tx_done t = 0")
    case False
    then have "snd (txn_step t e) = t" "txn_attempts (fst (run txn_step t (e # es))) = txn_attempts (fst (run txn_step t es))"
      using txn_step_done [OF False, of e] txn_run_done [OF False] by (auto simp del: run.simps)
    then show ?thesis using Cons by (simp add: Let_def)
  next
    case True
    then show ?thesis
    proof (cases rule: txn_step_cases [of t e])
      case (send now)
      have n: "unat (tx_sent t + 1) = unat (tx_sent t) + 1" using txn_next_interval [OF send(3)] by simp
      have s: "tx_sent (txn_sent_at now t) = tx_sent t + 1"
        using True send(3) by (simp add: txn_sent_at_def Let_def not_le [symmetric])
      have le: "tx_sent t + 1 \<le> 7" using n send(3) by (simp add: word_le_nat_alt word_less_nat_alt)
      let ?f = "tx_sent (snd (run txn_step (txn_sent_at now t) es))"
      have IH: "tx_sent t + 1 \<le> ?f" "?f \<le> 7"
        "txn_attempts (fst (run txn_step (txn_sent_at now t) es)) = [Suc (unat (tx_sent t + 1))..<Suc (unat ?f)]"
        using Cons.IH [of "txn_sent_at now t"] s le by auto
      have "unat (tx_sent t) < unat ?f" using IH(1) n by (simp add: word_le_nat_alt)
      then show ?thesis using IH send(4) n by (simp add: Let_def upt_conv_Cons word_le_nat_alt)
    next
      case idle
      then show ?thesis using Cons.IH [OF Cons.prems] by (simp add: Let_def txn_attempts_skip)
    next
      case reply
      let ?t = "snd (txn_step t e)"
      have "tx_sent ?t = tx_sent t"
        using reply(1) True by (cases e) (auto simp: txn_step_def txn_accept_def Let_def split: if_splits)
      then show ?thesis using Cons.IH [of ?t] Cons.prems reply(1) by (simp add: Let_def)
    qed
  qed
qed

text \<open>Response matching.\<close>

lemma txn_matches_iff: "txn_matches t i \<longleftrightarrow> i = tx_id t"
  using diff_zero_iff [of "tx_id t" i 0] by (auto simp: txn_matches_def)

lemma result_enc_slices:
  "parse_stun_result (st # ipv4_bytes ip @ le_bytes 2 (unat port) @ le_bytes 2 (unat code)) = Some (st, ip, port, code)"
proof -
  obtain a b c d where ip: "ip = (a, b, c, d)" by (cases ip) auto
  let ?b = "st # [a, b, c, d] @ le_bytes 2 (unat port) @ le_bytes 2 (unat code)"
  have "bslice 5 7 ?b = le_bytes 2 (unat port)" "bslice 7 9 ?b = le_bytes 2 (unat code)" by (simp_all add: bslice_def)
  then show ?thesis by (simp add: parse_stun_result_def ip ipv4_bytes_def)
qed

lemma write_stun_result_eq:
  assumes "9 \<le> length out"
  shows "write_stun_result (st, ip, port, code) out =
    (Some 9, blit 0 (st # ipv4_bytes ip @ le_bytes 2 (unat port) @ le_bytes 2 (unat code)) out)"
proof -
  obtain a b c d where ip: "ip = (a, b, c, d)" by (cases ip) auto
  have l: "length (ipv4_bytes ip) = 4" by (simp add: ip ipv4_bytes_def)
  let ?p = "le_bytes 2 (unat port)" and ?c = "le_bytes 2 (unat code)"
  have "out[0 := st] = blit 0 [st] out" using assms by (cases out) (simp_all add: blit_def)
  moreover have "blit 1 (ipv4_bytes ip) (blit 0 [st] out) = blit 0 ([st] @ ipv4_bytes ip) out"
    using blit_blit_append [of 0 "[st]" "ipv4_bytes ip" out] assms l by simp
  moreover have "blit 5 ?p (blit 0 ([st] @ ipv4_bytes ip) out) = blit 0 (([st] @ ipv4_bytes ip) @ ?p) out"
    using blit_blit_append [of 0 "[st] @ ipv4_bytes ip" ?p out] assms l by simp
  moreover have "blit 7 ?c (blit 0 (([st] @ ipv4_bytes ip) @ ?p) out) = blit 0 ((([st] @ ipv4_bytes ip) @ ?p) @ ?c) out"
    using blit_blit_append [of 0 "([st] @ ipv4_bytes ip) @ ?p" ?c out] assms l by simp
  ultimately show ?thesis using assms by (simp add: write_stun_result_def Let_def)
qed

definition stun_result_enc :: "byte \<times> ipv4 \<times> u16 \<times> u16 \<Rightarrow> bytes" where
  "stun_result_enc r = (case r of (st, ip, port, code) \<Rightarrow>
     st # ipv4_bytes ip @ le_bytes 2 (unat port) @ le_bytes 2 (unat code))"

lemma length_stun_result_enc [simp]: "length (stun_result_enc r) = 9"
  by (cases r) (auto simp: stun_result_enc_def ipv4_bytes_def)

lemma parse_stun_result_inv: "parse_stun_result b = Some r \<Longrightarrow> b = stun_result_enc r"
proof -
  assume p: "parse_stun_result b = Some r"
  then have len: "length b = 9" by (simp add: parse_stun_result_def split: if_splits)
  then have "le_bytes 2 (unat (of_nat (le_val (bslice 5 7 b)) :: u16)) = bslice 5 7 b"
    "le_bytes 2 (unat (of_nat (le_val (bslice 7 9 b)) :: u16)) = bslice 7 9 b"
    by (simp_all add: to_from_le_bytes)
  moreover have "b = b ! 0 # [b ! 1, b ! 2, b ! 3, b ! 4] @ bslice 5 7 b @ bslice 7 9 b"
    using len by (intro nth_equalityI) (auto simp: bslice_def nth_Cons' nth_append less_Suc_eq numeral_eq_Suc)
  ultimately show ?thesis using p len by (auto simp: parse_stun_result_def stun_result_enc_def ipv4_bytes_def)
qed

interpretation str: record_codec write_stun_result parse_stun_result "\<lambda>_. True" stun_result_enc
proof
  fix a :: "byte \<times> ipv4 \<times> u16 \<times> u16" and out
  show "length (stun_result_enc a) \<le> length out \<Longrightarrow>
      write_stun_result a out = (Some (length (stun_result_enc a)), blit 0 (stun_result_enc a) out)"
    using write_stun_result_eq by (cases a) (simp, simp add: stun_result_enc_def)
  show "length out < length (stun_result_enc a) \<Longrightarrow> write_stun_result a out = (None, out)"
    by (cases a) (simp add: write_stun_result_def)
  show "parse_stun_result (stun_result_enc a) = Some a"
    by (cases a) (simp add: stun_result_enc_def result_enc_slices)
qed (auto dest: parse_stun_result_inv)

lemma txn_schedule:
  assumes "unat now + 39500 < 2 ^ 64"
  shows "fst (run txn_step (txn_start i now)
      (map (\<lambda>d. TxnTick (now + of_nat d)) [0, 500, 1500, 3500, 7500, 15500, 31500, 39500])) =
    map TxnDid [TxnSend 1, TxnSend 2, TxnSend 3, TxnSend 4, TxnSend 5, TxnSend 6, TxnSend 7, TxnTimedOut]"
proof -
  have u: "unat (now + of_nat d) = unat now + d" if "d \<le> 39500" for d
    using that assms by (simp add: unat_word_ariths unat_of_nat)
  have step: "txn_step \<lparr> tx_id = i, tx_sent = b, tx_due_ms = now + of_nat d, tx_done = 0 \<rparr> (TxnTick (now + of_nat d)) =
      (TxnDid (TxnSend (b + 1)), \<lparr> tx_id = i, tx_sent = b + 1, tx_due_ms = now + of_nat (d + unat (interval_ms (b + 1))), tx_done = 0 \<rparr>)"
    if "b < 7" "d + unat (interval_ms (b + 1)) \<le> 39500" for b d
    using that u [of d] assms
    by (simp add: txn_step_def txn_poll_def txn_sent_at_def saturating_add_def Let_def not_le [symmetric])
  note steps = step [of 0 0] step [of 1 500] step [of 2 1500] step [of 3 3500] step [of 4 7500] step [of 5 15500]
    step [of 6 31500]
  have last: "fst (txn_step \<lparr> tx_id = i, tx_sent = 7, tx_due_ms = now + 39500, tx_done = 0 \<rparr> (TxnTick (now + 39500))) =
      TxnDid TxnTimedOut"
    by (simp add: txn_step_def txn_poll_def Let_def)
  show ?thesis
    using steps last by (simp add: txn_start_def Let_def interval_table word_less_nat_alt)
qed

section \<open>Properties\<close>

text \<open>C11. A transaction never sends more than seven times: whatever ticks and replies arrive in
  whatever order, the attempts it puts on the wire are numbered one, two, three and so on without a
  gap or repeat, up to the count it has recorded, which is at most seven.\<close>

theorem txn_at_most_seven_sends:
  "let r = run txn_step (txn_start i now) es; k = unat (tx_sent (snd r)) in
   k \<le> 7 \<and> txn_attempts (fst r) = [1..<k + 1]"
  using txn_attempts_upt [of "txn_start i now" es] by (simp add: txn_start_def Let_def word_le_nat_alt)

text \<open>A transaction is never given up early: when a tick reports a time-out, all seven
  transmissions have gone out and at least 39.5 seconds have passed since it was started (for clocks
  that stay 16 seconds below the end of the 64-bit millisecond range).\<close>

theorem txn_timeout_not_early:
  assumes "list_all tick_ok es" and "fst (txn_step (snd (run txn_step (txn_start i now) es)) (TxnTick t)) = TxnDid TxnTimedOut"
  shows "unat now + 39500 \<le> unat t \<and> txn_attempts (fst (run txn_step (txn_start i now) es)) = [1..<8]"
proof -
  let ?s = "snd (run txn_step (txn_start i now) es)"
  have "txn_inv (unat now) ?s"
    using txn.run_inv [OF txn_inv_start, of now i es] assms(1) by (simp add: run_tick_ok)
  moreover have seven: "7 \<le> tx_sent ?s" "tx_due_ms ?s \<le> t"
    using assms(2) by (auto simp: txn_step_def txn_poll_def Let_def not_less split: if_splits)
  ultimately have s7: "tx_sent ?s = 7" by (auto simp: txn_inv_def intro: order_antisym)
  with \<open>txn_inv (unat now) ?s\<close> seven(2) have due: "unat now + txn_offset 7 \<le> unat t"
    by (auto simp: txn_inv_def word_le_nat_alt)
  from due have "unat now + 39500 \<le> unat t" by (simp add: txn_offset_def)
  moreover have "txn_attempts (fst (run txn_step (txn_start i now) es)) = [1..<8]"
    using txn_attempts_upt [of "txn_start i now" es] s7 upt_Suc_append [of 1 7] by (simp add: txn_start_def)
  ultimately show ?thesis ..
qed

text \<open>The schedule of RFC 5389, section 7.2.1, over plain numbers: \<open>gaps\<close> is how long to wait after each
  transmission still to be made, \<open>due\<close> when the next thing happens, \<open>k\<close> the transmissions made, and the list
  the times of the polls.\<close>

fun rfc5389_polls :: "nat list \<Rightarrow> nat \<Rightarrow> nat \<Rightarrow> nat list \<Rightarrow> stun_txn_action list" where
  "rfc5389_polls gaps due k [] = []"
| "rfc5389_polls gaps due k (t # ts) =
     (if t < due then TxnWait # rfc5389_polls gaps due k ts
      else case gaps of
        [] \<Rightarrow> TxnTimedOut # rfc5389_polls gaps due k ts
      | g # gs \<Rightarrow> TxnSend (of_nat (Suc k)) # rfc5389_polls gs (t + g) (Suc k) ts)"

definition rfc5389_gaps :: "nat list" where
  "rfc5389_gaps = [500, 1000, 2000, 4000, 8000, 16000, 8000]"

lemma interval_is_gap:
  assumes "k < 7"
  shows "unat (interval_ms (of_nat (Suc k))) = rfc5389_gaps ! k \<and> rfc5389_gaps ! k \<le> 16000"
proof -
  have "k \<in> {0, 1, 2, 3, 4, 5, 6}" using assms by auto
  then show ?thesis by (auto simp: rfc5389_gaps_def interval_table)
qed

lemma run_follows_rfc5389:
  assumes "tx_done t = 0" and "tx_sent t = of_nat k" and "k \<le> 7" and "list_all (\<lambda>u. u + 16000 < 2 ^ 64) ts"
  shows "fst (run txn_step t (map (\<lambda>u. TxnTick (of_nat u)) ts)) =
    map TxnDid (rfc5389_polls (drop k rfc5389_gaps) (unat (tx_due_ms t)) k ts)"
  using assms
proof (induction ts arbitrary: t k)
  case (Cons u ts)
  have u: "unat (of_nat u :: u64) = u" using Cons.prems(4) by (simp add: unat_of_nat)
  have early: "of_nat u < tx_due_ms t \<longleftrightarrow> u < unat (tx_due_ms t)" by (simp add: word_less_nat_alt u)
  have full: "7 \<le> tx_sent t \<longleftrightarrow> k = 7" using Cons.prems(2,3) by (simp add: word_le_nat_alt unat_of_nat)
  have ts: "list_all (\<lambda>u. u + 16000 < 2 ^ 64) ts" using Cons.prems(4) by simp
  note rest = Cons.IH [OF _ _ _ ts]
  consider "u < unat (tx_due_ms t)" | "unat (tx_due_ms t) \<le> u" "k = 7" | "unat (tx_due_ms t) \<le> u" "k < 7"
    using Cons.prems(3) by linarith
  then show ?case
  proof cases
    case 1
    then show ?thesis using rest [of t k] Cons.prems early by (simp add: txn_step_def txn_poll_def Let_def)
  next
    case 2
    moreover have "drop k rfc5389_gaps = []" using 2 by (simp add: rfc5389_gaps_def)
    ultimately show ?thesis using rest [of t k] Cons.prems early full
      by (simp add: txn_step_def txn_poll_def Let_def not_less)
  next
    case 3
    let ?t = "txn_sent_at (of_nat u) t"
    note g = interval_is_gap [OF 3(2)]
    have s: "tx_done ?t = 0" "tx_sent ?t = of_nat (Suc k)"
      "tx_due_ms ?t = saturating_add (of_nat u) (interval_ms (of_nat (Suc k)))"
      using Cons.prems(1,2) full 3(2) by (simp_all add: txn_sent_at_def Let_def add.commute)
    have due: "unat (tx_due_ms ?t) = u + rfc5389_gaps ! k"
      using s(3) g u Cons.prems(4) by (simp add: saturating_add_def unat_word_ariths)
    have d: "drop k rfc5389_gaps = rfc5389_gaps ! k # drop (Suc k) rfc5389_gaps"
      using Cons_nth_drop_Suc [of k rfc5389_gaps] 3(2) by (simp add: rfc5389_gaps_def)
    have "txn_step t (TxnTick (of_nat u)) = (TxnDid (TxnSend (of_nat (Suc k))), ?t)"
      using Cons.prems(1,2) early full 3 by (simp add: txn_step_def txn_poll_def Let_def add.commute)
    then show ?thesis using rest [of ?t "Suc k"] s(1,2) due d 3 by (simp add: Let_def)
  qed
qed simp

text \<open>What a list of polls did other than wait, with the times; and the instants of a schedule.\<close>

definition fired :: "nat list \<Rightarrow> stun_txn_action list \<Rightarrow> (nat \<times> stun_txn_action) list" where
  "fired ts acts = filter (\<lambda>(t, a). a \<noteq> TxnWait) (zip ts acts)"

fun rfc5389_instants :: "nat list \<Rightarrow> nat \<Rightarrow> nat \<Rightarrow> (nat \<times> stun_txn_action) list" where
  "rfc5389_instants [] due k = [(due, TxnTimedOut)]"
| "rfc5389_instants (g # gs) due k = (due, TxnSend (of_nat (Suc k))) # rfc5389_instants gs (due + g) (Suc k)"

lemma instants_from: "(u, a) \<in> set (rfc5389_instants gs due k) \<Longrightarrow> due \<le> u"
  by (induction gs due k rule: rfc5389_instants.induct) auto

lemma instants_first: "due \<in> fst ` set (rfc5389_instants gs due k)"
  by (cases gs) auto

lemma polls_fire_at_instants:
  assumes "sorted_wrt (<) ts" and "fst ` set (rfc5389_instants gs due k) \<subseteq> set ts"
    and "\<forall>t\<in>set ts. t \<le> due + sum_list gs" and "list_all (\<lambda>g. 0 < g) gs"
  shows "fired ts (rfc5389_polls gs due k ts) = rfc5389_instants gs due k"
  using assms
proof (induction ts arbitrary: gs due k)
  case Nil
  then show ?case using instants_first [of due gs k] by auto
next
  case (Cons t ts)
  have "due \<in> set (t # ts)" using Cons.prems(2) instants_first [of due gs k] by blast
  then have le: "t \<le> due" using Cons.prems(1) by auto
  show ?case
  proof (cases "t = due")
    case False
    have "fst ` set (rfc5389_instants gs due k) \<subseteq> set ts"
      using Cons.prems(2) False le instants_from [of _ _ gs due k] by force
    then have "fired ts (rfc5389_polls gs due k ts) = rfc5389_instants gs due k"
      using Cons.prems by (intro Cons.IH) auto
    then show ?thesis using False le by (simp add: fired_def)
  next
    case True
    show ?thesis
    proof (cases gs)
      case Nil
      then have "ts = []" using Cons.prems(1,3) True by (cases ts) auto
      then show ?thesis using True Nil by (simp add: fired_def)
    next
      case (Cons g gs')
      have "fst ` set (rfc5389_instants gs' (due + g) (Suc k)) \<subseteq> set ts"
        using Cons.prems(2,4) True Cons instants_from [of _ _ gs' "due + g" "Suc k"] by force
      then have "fired ts (rfc5389_polls gs' (due + g) (Suc k) ts) = rfc5389_instants gs' (due + g) (Suc k)"
        using Cons.prems Cons by (intro Cons.IH) (auto simp: add.assoc)
      then show ?thesis using True Cons by (simp add: fired_def)
    qed
  qed
qed

lemma rfc5389_instants_table:
  "rfc5389_instants rfc5389_gaps now 0 =
     [(now, TxnSend 1), (now + 500, TxnSend 2), (now + 1500, TxnSend 3), (now + 3500, TxnSend 4), (now + 7500, TxnSend 5),
      (now + 15500, TxnSend 6), (now + 31500, TxnSend 7), (now + 39500, TxnTimedOut)]"
  by (simp add: rfc5389_gaps_def)

text \<open>C10. A transaction follows the schedule of RFC 5389, section 7.2.1. Whatever the times at which it is
  polled (each at least 16 seconds below the end of the 64-bit millisecond range), a poll before the next
  due time answers wait; the first poll at or after it sends the next attempt, and the one after that is
  due 0.5, 1, 2, 4, 8 and 16 seconds later; 8 seconds after the seventh the transaction is timed out.
  Polled at increasing times that include the due instants and end at the last of them, it sends at 0,
  0.5, 1.5, 3.5, 7.5, 15.5 and 31.5 seconds, times out at 39.5 seconds, and waits at every other poll.\<close>

theorem txn_schedule_exact:
  assumes "list_all (\<lambda>u. u + 16000 < 2 ^ 64) ts" and "acts = rfc5389_polls [500, 1000, 2000, 4000, 8000, 16000, 8000] (unat now) 0 ts"
  shows "fst (run txn_step (txn_start i now) (map (\<lambda>u. TxnTick (of_nat u)) ts)) = map TxnDid acts \<and>
    (sorted_wrt (<) ts \<and> (\<lambda>d. unat now + d) ` {0, 500, 1500, 3500, 7500, 15500, 31500, 39500} \<subseteq> set ts \<and>
       (\<forall>t\<in>set ts. t \<le> unat now + 39500) \<longrightarrow>
     fired ts acts = zip (map (\<lambda>d. unat now + d) [0, 500, 1500, 3500, 7500, 15500, 31500, 39500])
       [TxnSend 1, TxnSend 2, TxnSend 3, TxnSend 4, TxnSend 5, TxnSend 6, TxnSend 7, TxnTimedOut])"
proof -
  have acts: "acts = rfc5389_polls rfc5389_gaps (unat now) 0 ts" by (simp only: assms(2) rfc5389_gaps_def)
  have "fst (run txn_step (txn_start i now) (map (\<lambda>u. TxnTick (of_nat u)) ts)) = map TxnDid acts"
    using run_follows_rfc5389 [of "txn_start i now" 0, OF _ _ _ assms(1)] by (simp add: acts txn_start_def)
  moreover have "fired ts acts = rfc5389_instants rfc5389_gaps (unat now) 0"
    if s: "sorted_wrt (<) ts" and i: "(\<lambda>d. unat now + d) ` {0, 500, 1500, 3500, 7500, 15500, 31500, 39500} \<subseteq> set ts"
      and l: "\<forall>t\<in>set ts. t \<le> unat now + 39500"
    unfolding acts
  proof (rule polls_fire_at_instants [OF s])
    show "fst ` set (rfc5389_instants rfc5389_gaps (unat now) 0) \<subseteq> set ts"
      unfolding rfc5389_instants_table using i by simp
  qed (use l in \<open>simp_all add: rfc5389_gaps_def\<close>)
  ultimately show ?thesis by (simp add: rfc5389_instants_table)
qed

text \<open>Polled just before every due time as well, and once late in the middle of nothing.\<close>

theorem txn_schedule_exact_witness:
  "fst (run txn_step (txn_start [1] 1000) (map (\<lambda>u. TxnTick (of_nat u))
      [1000, 1499, 1500, 2499, 2500, 4499, 4500, 8500, 16500, 20000, 32500, 40499, 40500])) =
    map TxnDid [TxnSend 1, TxnWait, TxnSend 2, TxnWait, TxnSend 3, TxnWait, TxnSend 4, TxnSend 5, TxnSend 6, TxnWait, TxnSend 7,
      TxnWait, TxnTimedOut] \<and>
   fst (run txn_step (txn_start [1] 1000) (map (\<lambda>u. TxnTick (of_nat u)) [1000, 1800, 2799, 2800])) =
    map TxnDid [TxnSend 1, TxnSend 2, TxnWait, TxnSend 3] \<and>
   fired [1000, 1499, 1500, 2499, 2500, 4499, 4500, 8500, 16500, 20000, 32500, 40499, 40500]
     (rfc5389_polls [500, 1000, 2000, 4000, 8000, 16000, 8000] 1000 0
       [1000, 1499, 1500, 2499, 2500, 4499, 4500, 8500, 16500, 20000, 32500, 40499, 40500]) =
     [(1000, TxnSend 1), (1500, TxnSend 2), (2500, TxnSend 3), (4500, TxnSend 4), (8500, TxnSend 5), (16500, TxnSend 6),
      (32500, TxnSend 7), (40500, TxnTimedOut)]"
proof -
  let ?ts = "[1000 :: nat, 1499, 1500, 2499, 2500, 4499, 4500, 8500, 16500, 20000, 32500, 40499, 40500]"
  let ?us = "[1000 :: nat, 1800, 2799, 2800]"
  let ?p = "rfc5389_polls [500, 1000, 2000, 4000, 8000, 16000, 8000] 1000 0"
  have n: "unat (1000 :: u64) = 1000" by simp
  have ok: "list_all (\<lambda>u. u + 16000 < 2 ^ 64) ?ts" "list_all (\<lambda>u. u + 16000 < 2 ^ 64) ?us" by simp_all
  have acts: "?p ?ts = [TxnSend 1, TxnWait, TxnSend 2, TxnWait, TxnSend 3, TxnWait, TxnSend 4, TxnSend 5, TxnSend 6, TxnWait, TxnSend 7,
      TxnWait, TxnTimedOut]" "?p ?us = [TxnSend 1, TxnSend 2, TxnWait, TxnSend 3]"
    by simp_all
  have inst: "sorted_wrt (<) ?ts \<and> (\<lambda>d. 1000 + d) ` {0, 500, 1500, 3500, 7500, 15500, 31500, 39500} \<subseteq> set ?ts \<and> (\<forall>t\<in>set ?ts. t \<le> 1000 + 39500)"
    by simp
  note x = txn_schedule_exact [where now = 1000 and i = "[1]", unfolded n]
  have "fired ?ts (?p ?ts) = zip (map (\<lambda>d. 1000 + d) [0, 500, 1500, 3500, 7500, 15500, 31500, 39500])
      [TxnSend 1, TxnSend 2, TxnSend 3, TxnSend 4, TxnSend 5, TxnSend 6, TxnSend 7, TxnTimedOut]"
    using x [OF ok(1) refl, THEN conjunct2, THEN mp, OF inst] .
  moreover have "zip (map (\<lambda>d. 1000 + d) [0, 500, 1500, 3500, 7500, 15500, 31500, 39500])
      [TxnSend 1, TxnSend 2, TxnSend 3, TxnSend 4, TxnSend 5, TxnSend 6, TxnSend 7, TxnTimedOut] =
     [(1000 :: nat, TxnSend 1), (1500, TxnSend 2), (2500, TxnSend 3), (4500, TxnSend 4), (8500, TxnSend 5), (16500, TxnSend 6),
      (32500, TxnSend 7), (40500, TxnTimedOut)]"
    by simp
  ultimately show ?thesis
    using x [OF ok(1) refl, THEN conjunct1] x [OF ok(2) refl, THEN conjunct1] unfolding acts by metis
qed

theorem txn_timeout_not_early_witness:
  "unat (1000 :: u64) + 39500 \<le> unat (40500 :: u64) \<and> txn_attempts (fst (run txn_step (txn_start [1] 1000)
     (map (\<lambda>d. TxnTick (1000 + of_nat d)) [0, 500, 1500, 3500, 7500, 15500, 31500]))) = [1..<8]"
proof (rule txn_timeout_not_early)
  show "list_all tick_ok (map (\<lambda>d. TxnTick (1000 + of_nat d)) [0, 500, 1500, 3500, 7500, 15500, 31500])"
    by (simp add: tick_ok_def)
  show "fst (txn_step (snd (run txn_step (txn_start [1] 1000)
     (map (\<lambda>d. TxnTick (1000 + of_nat d)) [0, 500, 1500, 3500, 7500, 15500, 31500]))) (TxnTick 40500)) = TxnDid TxnTimedOut"
  proof -
    let ?es = "map (\<lambda>d. TxnTick (1000 + of_nat d)) [0, 500, 1500, 3500, 7500, 15500, 31500]"
    have "?es @ [TxnTick 40500] = map (\<lambda>d. TxnTick (1000 + of_nat d)) [0, 500, 1500, 3500, 7500, 15500, 31500, 39500]"
      by simp
    moreover have "last (fst (run txn_step (txn_start [1] 1000) (map (\<lambda>d. TxnTick (1000 + of_nat d))
        [0, 500, 1500, 3500, 7500, 15500, 31500, 39500]))) = TxnDid TxnTimedOut"
      by (subst txn_schedule) simp_all
    ultimately show ?thesis by (metis run_snoc last_snoc)
  qed
qed

text \<open>Transaction ids of one client never repeat: for a fixed seed, two counters give the same
  id only if they are the same counter, over the whole 64-bit range.\<close>

theorem stun_txn_id_injective:
  assumes "stun_txn_id c seed = stun_txn_id c' seed"
  shows "c = c'"
proof -
  have t: "take 8 (stun_txn_id x seed) = be_bytes 8 (unat (x * 0x9E3779B97F4A7C15 + seed))" for x
    by (simp add: stun_txn_id_def Let_def blit_def)
  have "c * 0x9E3779B97F4A7C15 + seed = c' * 0x9E3779B97F4A7C15 + seed"
    using assms t [of c] t [of c'] by (metis from_to_be_bytes(3))
  then have "c * (0x9E3779B97F4A7C15 * 0xF1DE83E19937733D) = c' * (0x9E3779B97F4A7C15 * 0xF1DE83E19937733D)"
    by (simp only: add_right_cancel mult.assoc [symmetric])
  moreover have "(0x9E3779B97F4A7C15 * 0xF1DE83E19937733D :: u64) = 1" by simp
  ultimately show ?thesis by (metis mult.right_neutral)
qed

theorem stun_txn_id_injective_witness: "stun_txn_id 1 7 \<noteq> stun_txn_id (2 ^ 32 + 1) 7"
  using stun_txn_id_injective [of 1 7 "2 ^ 32 + 1"] by auto

text \<open>The result record is a faithful codec: a record is written exactly when nine bytes are
  free, what was written reads back as the same status, address, port and code, and any nine bytes
  that read as a record are the bytes writing it would produce.\<close>

theorem stun_result_codec:
  "(write_stun_result r out = (Some n, out') \<longleftrightarrow> 9 \<le> length out \<and> n = 9 \<and> out' = blit 0 (take 9 out') out \<and>
      parse_stun_result (take 9 out') = Some r)"
proof
  assume w: "write_stun_result r out = (Some n, out')"
  then have e: "9 \<le> length out" "n = 9" "out' = blit 0 (stun_result_enc r) out" using str.wr_iff [of r out n out'] by auto
  then have "take 9 out' = stun_result_enc r" by (simp add: blit_def)
  with e str.wr_roundtrip [OF w] show "9 \<le> length out \<and> n = 9 \<and> out' = blit 0 (take 9 out') out \<and>
      parse_stun_result (take 9 out') = Some r" by simp
next
  assume a: "9 \<le> length out \<and> n = 9 \<and> out' = blit 0 (take 9 out') out \<and> parse_stun_result (take 9 out') = Some r"
  then have "take 9 out' = stun_result_enc r" using parse_stun_result_inv by blast
  with a show "write_stun_result r out = (Some n, out')" using str.wr_iff [of r out n out'] by simp
qed

end
