(* ===== verification/Turn.thy ===== *)
theory Turn
  imports Stun
begin

text \<open>
  \<open>modules/common/turn_core.rs\<close> and \<open>modules/common/turn_media.rs\<close>: ChannelData framing, the demultiplexing
  of a relayed socket, the TURN attributes, the Send indication, the long-term credential key and
  its MD5, and the media adapter that reads either framing.
\<close>

section \<open>ChannelData\<close>

abbreviation (input) CHANNEL_DATA_HEADER_LEN :: nat where "CHANNEL_DATA_HEADER_LEN \<equiv> 4"
abbreviation (input) CHANNEL_NUMBER_MIN :: u16 where "CHANNEL_NUMBER_MIN \<equiv> 0x4000"
abbreviation (input) CHANNEL_NUMBER_MAX :: u16 where "CHANNEL_NUMBER_MAX \<equiv> 0x7FFF"

definition channel_number_is_valid :: "u16 \<Rightarrow> bool" where
  "channel_number_is_valid channel \<longleftrightarrow> CHANNEL_NUMBER_MIN \<le> channel \<and> channel \<le> CHANNEL_NUMBER_MAX"

datatype relayed_datagram = RelayedStun | RelayedChannel u16 nat nat | RelayedUnrecognised

definition classify_relayed :: "bytes \<Rightarrow> relayed_datagram" where
  "classify_relayed buf =
     (if length buf < CHANNEL_DATA_HEADER_LEN then RelayedUnrecognised
      else
        let leading = drop_bit 6 (buf ! 0) in
        if leading = 0 then RelayedStun
        else if leading \<noteq> 1 then RelayedUnrecognised
        else
          let channel = of_nat (be_val (bslice 0 2 buf)) in
          if \<not> channel_number_is_valid channel then RelayedUnrecognised
          else
            let len = unat (of_nat (be_val (bslice 2 4 buf)) :: u16) in
            if length buf < CHANNEL_DATA_HEADER_LEN + len then RelayedUnrecognised
            else RelayedChannel channel CHANNEL_DATA_HEADER_LEN len)"

definition write_channel_data :: "u16 \<Rightarrow> bytes \<Rightarrow> nat writer" where
  "write_channel_data channel payload out =
     (if \<not> channel_number_is_valid channel then (None, out)
      else if 65535 < length payload then (None, out)
      else
        let tot = CHANNEL_DATA_HEADER_LEN + length payload in
        if length out < tot then (None, out)
        else
          let out = blit 0 (be_bytes 2 (unat channel)) out;
              out = blit 2 (be_bytes 2 (unat (of_nat (length payload) :: u16))) out;
              out = blit CHANNEL_DATA_HEADER_LEN payload out
          in (Some tot, out))"

definition channel_data_padded_len :: "nat \<Rightarrow> nat" where
  "channel_data_padded_len payload_len = pad4 (CHANNEL_DATA_HEADER_LEN + payload_len)"

section \<open>Attributes\<close>

abbreviation (input) ATTR_CHANNEL_NUMBER :: u16 where "ATTR_CHANNEL_NUMBER \<equiv> 0x000C"
abbreviation (input) ATTR_LIFETIME :: u16 where "ATTR_LIFETIME \<equiv> 0x000D"
abbreviation (input) ATTR_XOR_PEER_ADDRESS :: u16 where "ATTR_XOR_PEER_ADDRESS \<equiv> 0x0012"
abbreviation (input) ATTR_DATA :: u16 where "ATTR_DATA \<equiv> 0x0013"
abbreviation (input) ATTR_REQUESTED_TRANSPORT :: u16 where "ATTR_REQUESTED_TRANSPORT \<equiv> 0x0019"
abbreviation (input) ATTR_DONT_FRAGMENT :: u16 where "ATTR_DONT_FRAGMENT \<equiv> 0x001A"
abbreviation (input) STUN_CLASS_INDICATION :: byte where "STUN_CLASS_INDICATION \<equiv> 0b01"
abbreviation (input) TURN_METHOD_SEND :: u16 where "TURN_METHOD_SEND \<equiv> 0x006"
abbreviation (input) TURN_METHOD_DATA :: u16 where "TURN_METHOD_DATA \<equiv> 0x007"

definition parse_lifetime :: "bytes \<Rightarrow> nat \<Rightarrow> nat \<Rightarrow> u32 option" where
  "parse_lifetime buf at len =
     (if len \<noteq> 4 \<or> length buf < at + 4 then None else Some (of_nat (be_val (bslice at (at + 4) buf))))"

definition append_lifetime :: "u32 \<Rightarrow> nat \<Rightarrow> nat writer" where
  "append_lifetime seconds at = append_attribute ATTR_LIFETIME (be_bytes 4 (unat seconds)) at"

definition append_requested_transport :: "byte \<Rightarrow> nat \<Rightarrow> nat writer" where
  "append_requested_transport transport at = append_attribute ATTR_REQUESTED_TRANSPORT [transport, 0, 0, 0] at"

definition append_channel_number :: "u16 \<Rightarrow> nat \<Rightarrow> nat writer" where
  "append_channel_number channel at =
     (if \<not> channel_number_is_valid channel then wfail
      else append_attribute ATTR_CHANNEL_NUMBER [ucast (drop_bit 8 channel), ucast (channel AND 0xFF), 0, 0] at)"

definition append_dont_fragment :: "nat \<Rightarrow> nat writer" where
  "append_dont_fragment at = append_attribute ATTR_DONT_FRAGMENT [] at"

definition append_xor_peer_address_v4 :: "bytes \<Rightarrow> u16 \<Rightarrow> nat \<Rightarrow> nat writer" where
  "append_xor_peer_address_v4 addr port at =
     (let val = (replicate 8 (0 :: byte))[1 := STUN_FAMILY_IPV4];
          xport = port XOR stun_magic_port;
          val = blit 2 (be_bytes 2 (unat xport)) val;
          val = blit 4 (map2 (XOR) addr stun_magic_bytes) val
      in append_attribute ATTR_XOR_PEER_ADDRESS val at)"

definition append_data :: "bytes \<Rightarrow> nat \<Rightarrow> nat writer" where
  "append_data payload at = append_attribute ATTR_DATA payload at"

definition write_send_indication :: "bytes \<Rightarrow> bytes \<Rightarrow> u16 \<Rightarrow> bytes \<Rightarrow> nat writer" where
  "write_send_indication txn peer_addr peer_port payload =
     wbind (write_stun_header STUN_CLASS_INDICATION TURN_METHOD_SEND txn) (\<lambda>at.
     wbind (append_xor_peer_address_v4 peer_addr peer_port at) (\<lambda>at.
     wbind (append_data payload at) (\<lambda>at.
     wbind (append_fingerprint at) (\<lambda>at.
     wbind (stun_set_length at) (\<lambda>_.
     wret at)))))"

definition parse_xor_relayed_address :: "bytes \<Rightarrow> nat \<Rightarrow> nat \<Rightarrow> bytes \<Rightarrow> stun_address option option" where
  "parse_xor_relayed_address buf at len txn = parse_xor_mapped_address buf at len txn"

definition TURN_KNOWN_ATTRIBUTES :: "u16 list" where
  "TURN_KNOWN_ATTRIBUTES = [0x0001, 0x0006, 0x0008, 0x0009, 0x000A, 0x0014, 0x0015, 0x0020, 0x000C, 0x000D,
     0x0012, 0x0013, 0x0016, 0x0017, 0x0018, 0x0019, 0x001A, 0x0022, 0x8022, 0x8028]"

section \<open>The long-term credential key\<close>

definition md5_S :: "nat list" where
  "md5_S = [
     7, 12, 17, 22, 7, 12, 17, 22, 7, 12, 17, 22, 7, 12, 17, 22,
     5, 9, 14, 20, 5, 9, 14, 20, 5, 9, 14, 20, 5, 9, 14, 20,
     4, 11, 16, 23, 4, 11, 16, 23, 4, 11, 16, 23, 4, 11, 16, 23,
     6, 10, 15, 21, 6, 10, 15, 21, 6, 10, 15, 21, 6, 10, 15, 21]"

definition md5_K :: "u32 list" where
  "md5_K = [
     0xd76aa478, 0xe8c7b756, 0x242070db, 0xc1bdceee, 0xf57c0faf, 0x4787c62a, 0xa8304613, 0xfd469501,
     0x698098d8, 0x8b44f7af, 0xffff5bb1, 0x895cd7be, 0x6b901122, 0xfd987193, 0xa679438e, 0x49b40821,
     0xf61e2562, 0xc040b340, 0x265e5a51, 0xe9b6c7aa, 0xd62f105d, 0x02441453, 0xd8a1e681, 0xe7d3fbc8,
     0x21e1cde6, 0xc33707d6, 0xf4d50d87, 0x455a14ed, 0xa9e3e905, 0xfcefa3f8, 0x676f02d9, 0x8d2a4c8a,
     0xfffa3942, 0x8771f681, 0x6d9d6122, 0xfde5380c, 0xa4beea44, 0x4bdecfa9, 0xf6bb4b60, 0xbebfbc70,
     0x289b7ec6, 0xeaa127fa, 0xd4ef3085, 0x04881d05, 0xd9d4d039, 0xe6db99e5, 0x1fa27cf8, 0xc4ac5665,
     0xf4292244, 0x432aff97, 0xab9423a7, 0xfc93a039, 0x655b59c3, 0x8f0ccc92, 0xffeff47d, 0x85845dd1,
     0x6fa87e4f, 0xfe2ce6e0, 0xa3014314, 0x4e0811a1, 0xf7537e82, 0xbd3af235, 0x2ad7d2bb, 0xeb86d391]"

definition md5_f :: "nat \<Rightarrow> u32 \<Rightarrow> u32 \<Rightarrow> u32 \<Rightarrow> u32 \<times> nat" where
  "md5_f i b c d =
     (if i div 16 = 0 then ((b AND c) OR (NOT b AND d), i)
      else if i div 16 = 1 then ((d AND b) OR (NOT d AND c), (5 * i + 1) mod 16)
      else if i div 16 = 2 then (b XOR c XOR d, (3 * i + 5) mod 16)
      else (c XOR (b OR NOT d), (7 * i) mod 16))"

definition md5_round :: "u32 list \<Rightarrow> u32 \<times> u32 \<times> u32 \<times> u32 \<Rightarrow> nat \<Rightarrow> u32 \<times> u32 \<times> u32 \<times> u32" where
  "md5_round m abcd i =
     (case abcd of (a, b, c, d) \<Rightarrow>
        case md5_f i b c d of (f, g) \<Rightarrow>
          let tmp = d; d = c; c = b;
              sum = a + f + md5_K ! i + m ! g;
              b = b + word_rotl (md5_S ! i) sum;
              a = tmp
          in (a, b, c, d))"

definition md5_words :: "bytes \<Rightarrow> nat \<Rightarrow> u32 list" where
  "md5_words block offset =
     map (\<lambda>i. let at = offset + i * 4 in of_nat (le_val (bslice at (at + 4) block))) [0..<16]"

definition md5_compress :: "u32 list \<Rightarrow> u32 \<times> u32 \<times> u32 \<times> u32 \<Rightarrow> u32 \<times> u32 \<times> u32 \<times> u32" where
  "md5_compress m h =
     (case foldl (md5_round m) h [0..<64] of (a, b, c, d) \<Rightarrow>
        case h of (h0, h1, h2, h3) \<Rightarrow> (h0 + a, h1 + b, h2 + c, h3 + d))"

function md5_loop :: "bytes \<Rightarrow> nat \<Rightarrow> nat \<Rightarrow> u32 \<times> u32 \<times> u32 \<times> u32 \<Rightarrow> u32 \<times> u32 \<times> u32 \<times> u32" where
  "md5_loop block padded offset h =
     (if offset < padded then md5_loop block padded (offset + 64) (md5_compress (md5_words block offset) h) else h)"
  by pat_completeness auto
termination
  by (relation "measure (\<lambda>(block, padded, offset, h). padded - offset)") auto

declare md5_loop.simps [simp del]

definition md5_iv :: "u32 \<times> u32 \<times> u32 \<times> u32" where
  "md5_iv = (0x67452301, 0xefcdab89, 0x98badcfe, 0x10325476)"

definition md5_digest :: "u32 \<times> u32 \<times> u32 \<times> u32 \<Rightarrow> bytes" where
  "md5_digest h = (case h of (h0, h1, h2, h3) \<Rightarrow>
     le_bytes 4 (unat h0) @ le_bytes 4 (unat h1) @ le_bytes 4 (unat h2) @ le_bytes 4 (unat h3))"

definition md5 :: "bytes \<Rightarrow> bytes" where
  "md5 dat =
     (let block = replicate 320 0; len = length dat in
      if length block < len + 9 then replicate 16 0
      else
        let block = blit 0 dat block;
            block = block[len := 0x80];
            padded = ((len + 8) div 64 + 1) * 64;
            bits = of_nat len * 8 :: u64;
            block = blit (padded - 8) (le_bytes 8 (unat bits)) block
        in md5_digest (md5_loop block padded 0 md5_iv))"

definition long_term_key :: "bytes \<Rightarrow> bytes \<Rightarrow> bytes \<Rightarrow> bytes" where
  "long_term_key username realm password =
     (let input = replicate 256 0;
          tot = length username + 1 + length realm + 1 + length password
      in
        if length input < tot then replicate 16 0
        else
          let at = 0; input = blit at username input;
              at = at + length username; input = input[at := 58];
              at = at + 1; input = blit at realm input;
              at = at + length realm; input = input[at := 58];
              at = at + 1; input = blit at password input;
              at = at + length password
          in md5 (take at input))"

section \<open>The media adapter\<close>

datatype turn_media = TurnChannel u16 bytes | TurnIndication bytes | TurnInvalid

definition turn_write_send :: "bytes \<Rightarrow> bytes \<Rightarrow> u16 \<Rightarrow> bytes \<Rightarrow> nat writer" where
  "turn_write_send txn peer_addr peer_port media = write_send_indication txn peer_addr peer_port media"

definition turn_parse :: "bytes \<Rightarrow> turn_media option" where
  "turn_parse packet =
     (case classify_relayed packet of
        RelayedChannel channel offset len \<Rightarrow> do {
          p \<leftarrow> bslice_p offset (offset + len) packet;
          Some (TurnChannel channel p)
        }
      | RelayedStun \<Rightarrow>
          (case parse_stun_header packet of
             None \<Rightarrow> Some TurnInvalid
           | Some h \<Rightarrow>
               if st_class h \<noteq> STUN_CLASS_INDICATION \<or>
                  (st_method h \<noteq> TURN_METHOD_DATA \<and> st_method h \<noteq> TURN_METHOD_SEND) then Some TurnInvalid
               else do {
                 r \<leftarrow> find_attribute packet h ATTR_DATA;
                 case r of None \<Rightarrow> Some TurnInvalid
                 | Some (at, len) \<Rightarrow> do {
                     p \<leftarrow> bslice_p at (at + len) packet;
                     Some (TurnIndication p)
                   }
               })
      | RelayedUnrecognised \<Rightarrow> Some TurnInvalid)"

section \<open>Framing lemmas\<close>

definition channel_enc :: "u16 \<times> bytes \<Rightarrow> bytes" where
  "channel_enc cp = be_bytes 2 (unat (fst cp)) @ be_bytes 2 (length (snd cp)) @ snd cp"

lemma length_channel_enc [simp]: "length (channel_enc (c, p)) = 4 + length p"
  by (simp add: channel_enc_def)

lemma channel_leading:
  assumes "channel_number_is_valid c"
  shows "drop_bit 6 (of_nat (unat c div 256) :: byte) = 1"
proof -
  have c: "16384 \<le> unat c" "unat c \<le> 32767"
    using assms by (simp_all add: channel_number_is_valid_def word_le_nat_alt)
  then have "unat c div 256 < 256" by (simp add: div_less_iff_less_mult)
  moreover have "unat c div 256 div 64 = 1" using c by (simp add: div_mult2_eq [symmetric])
  ultimately have "unat (drop_bit 6 (of_nat (unat c div 256) :: byte)) = unat (1 :: byte)"
    by (simp add: unat_drop_bit unat_of_nat)
  then show ?thesis by (rule unsigned_word_eqI)
qed

lemma classify_channel_enc:
  assumes "channel_number_is_valid c" and "length p \<le> 65535"
  shows "classify_relayed (channel_enc (c, p) @ rest) = RelayedChannel c 4 (length p)"
proof -
  let ?b = "channel_enc (c, p) @ rest"
  have "?b ! 0 = of_nat (unat c div 256)" by (simp add: channel_enc_def numeral_2_eq_2)
  then have "drop_bit 6 (?b ! 0) = 1" using channel_leading [OF assms(1)] by simp
  moreover have "bslice 0 2 ?b = be_bytes 2 (unat c)" "bslice 2 4 ?b = be_bytes 2 (length p)"
    by (simp_all add: bslice_def channel_enc_def)
  ultimately show ?thesis
    using assms by (simp add: classify_relayed_def be2_length Let_def)
qed

lemma write_channel_data_eq:
  "write_channel_data c p out =
   (if \<not> channel_number_is_valid c \<or> 65535 < length p \<or> length out < 4 + length p then (None, out)
    else (Some (4 + length p), blit 0 (channel_enc (c, p)) out))"
proof (cases "\<not> channel_number_is_valid c \<or> 65535 < length p \<or> length out < 4 + length p")
  case True
  then show ?thesis by (auto simp: write_channel_data_def Let_def)
next
  case False
  let ?c = "be_bytes 2 (unat c)" and ?l = "be_bytes 2 (length p)"
  have u: "unat (of_nat (length p) :: u16) = length p" using False by (simp add: unat_of_nat)
  have "blit 2 ?l (blit 0 ?c out) = blit 0 (?c @ ?l) out"
    using blit_blit_append [of 0 ?c ?l out] False unfolding length_be_bytes add_0_left by simp
  moreover have "blit 4 p (blit 0 (?c @ ?l) out) = blit 0 ((?c @ ?l) @ p) out"
    using blit_blit_append [of 0 "?c @ ?l" p out] False by simp
  ultimately show ?thesis
    using False by (simp add: write_channel_data_def Let_def u channel_enc_def)
qed

lemma leading_zero_iff: "drop_bit 6 (b :: byte) = 0 \<longleftrightarrow> b AND 0xC0 = 0"
proof -
  have m: "bit (0xC0 :: byte) n \<longleftrightarrow> n = 6 \<or> n = 7" if "n < 8" for n
  proof -
    have "n \<in> {0, 1, 2, 3, 4, 5, 6, 7}" using that by auto
    then show ?thesis by (elim insertE emptyE) simp_all
  qed
  have "drop_bit 6 b = 0 \<longleftrightarrow> (\<forall>n. \<not> bit b (6 + n))" 
  proof -
    have "bit b (6 + n) \<Longrightarrow> n < 8" for n using bit_imp_le_length [of b "6 + n"] by simp
    then show ?thesis by (auto simp: bit_eq_iff bit_drop_bit_eq)
  qed
  also have "\<dots> \<longleftrightarrow> \<not> bit b 6 \<and> \<not> bit b 7"
  proof
    assume a: "\<not> bit b 6 \<and> \<not> bit b 7"
    have "\<not> bit b (6 + n)" for n
      using a bit_imp_le_length [of b "6 + n"] by (cases "n = 0 \<or> n = 1") auto
    then show "\<forall>n. \<not> bit b (6 + n)" by blast
  qed (metis add_0_right numeral_plus_one semiring_norm(2,3,5,8))
  also have "\<dots> \<longleftrightarrow> b AND 0xC0 = 0"
    using m by (auto simp: bit_eq_iff [of "b AND 0xC0"] bit_and_iff dest: bit_imp_le_length spec [of _ 6] spec [of _ 7])
  finally show ?thesis .
qed

lemma classify_stun: "parse_stun_header buf = Some h \<Longrightarrow> classify_relayed buf = RelayedStun"
  by (auto simp: parse_stun_header_def stun_is_plausible_def classify_relayed_def Let_def leading_zero_iff
      split: if_splits)

lemma append_xor_peer_v4_eq:
  "length addr = 4 \<Longrightarrow> append_xor_peer_address_v4 addr port at =
     append_attribute ATTR_XOR_PEER_ADDRESS (xor_v4_value addr port) at"
  unfolding append_xor_peer_address_v4_def Let_def
  by (subst xor_v4_buffer) (simp_all add: numeral_eq_Suc)

text \<open>What a successful Send indication wrote.\<close>

lemma append_attribute_Some:
  "append_attribute t v at out = (Some n, out') \<Longrightarrow>
   attr_ok (t, v) \<and> at + length (attr_enc (t, v)) \<le> length out \<and> n = at + length (attr_enc (t, v))"
  by (auto simp: append_attribute_eq attr_ok_def split: if_splits)

lemma append_fingerprint_Some:
  "append_fingerprint at out = (Some n, out') \<Longrightarrow> n = at + 8 \<and> at + 8 \<le> length out \<and> at + 8 - 20 \<le> 65535"
proof -
  assume a: "append_fingerprint at out = (Some n, out')"
  then have fit: "at + 8 \<le> length out" by (auto simp: append_fingerprint_def Let_def split: if_splits)
  then obtain out1 where s: "stun_set_length (at + 4 + 4) out = (Some (), out1)"
    and ap: "append_attribute ATTR_FINGERPRINT (be_bytes 4 (unat (crc32 (take at out1) XOR 0x5354554E))) at out1 = (Some n, out')"
    using a by (auto simp: append_fingerprint_def Let_def wbind_eq_Some split: if_splits simp del: be_bytes.simps)
  from s have "at + 8 - 20 \<le> 65535" by (auto simp: stun_set_length_def Let_def split: if_splits)
  moreover have "n = at + 8" using append_attribute_Some [OF ap] by (simp add: length_attr_enc pad4_def)
  ultimately show ?thesis using fit by simp
qed

definition send_attrs :: "bytes \<Rightarrow> u16 \<Rightarrow> bytes \<Rightarrow> (u16 \<times> bytes) list" where
  "send_attrs addr port payload = [(ATTR_XOR_PEER_ADDRESS, xor_v4_value addr port), (ATTR_DATA, payload)]"

lemma write_send_layout:
  assumes w: "write_send_indication txn addr port payload out = (Some n, out')"
    and txn: "length txn = 12" and addr: "length addr = 4"
  defines "mt \<equiv> stun_message_type STUN_CLASS_INDICATION TURN_METHOD_SEND"
  defines "all \<equiv> send_attrs addr port payload @ [(ATTR_FINGERPRINT, stun_fp mt txn (send_attrs addr port payload))]"
  shows "take n out' = stun_hd mt (length (attrs_enc all)) txn @ attrs_enc all"
    and "list_all attr_ok all" and "length (attrs_enc all) \<le> 65535" and "n = 20 + length (attrs_enc all)"
proof -
  let ?as = "send_attrs addr port payload"
  from w obtain a1 o1 a2 o2 a3 o3 a4 o4 where
    s1: "write_stun_header STUN_CLASS_INDICATION TURN_METHOD_SEND txn out = (Some a1, o1)" and
    s2: "append_attribute ATTR_XOR_PEER_ADDRESS (xor_v4_value addr port) a1 o1 = (Some a2, o2)" and
    s3: "append_attribute ATTR_DATA payload a2 o2 = (Some a3, o3)" and
    s4: "append_fingerprint a3 o3 = (Some a4, o4)" and
    s5: "stun_set_length a4 o4 = (Some (), out')" and n: "n = a4"
    unfolding write_send_indication_def wbind_eq_Some append_xor_peer_v4_eq [OF addr] append_data_def
    by (auto simp: wret_def)
  have l20: "20 \<le> length out" using s1 by (auto simp: write_stun_header_def Let_def split: if_splits)
  have o1: "o1 = stun_hd mt 0 txn @ drop 20 out" "a1 = 20"
    using s1 write_stun_header_eq [OF txn l20] by (auto simp: mt_def)
  have f2: "attr_ok (ATTR_XOR_PEER_ADDRESS, xor_v4_value addr port)"
    "length (attr_enc (ATTR_XOR_PEER_ADDRESS, xor_v4_value addr port)) \<le> length (drop 20 out)"
    using append_attribute_Some [OF s2] o1 txn by auto
  have o2: "o2 = (stun_hd mt 0 txn @ attr_enc (ATTR_XOR_PEER_ADDRESS, xor_v4_value addr port)) @
      drop (length (attr_enc (ATTR_XOR_PEER_ADDRESS, xor_v4_value addr port))) (drop 20 out)"
    "a2 = length (stun_hd mt 0 txn @ attr_enc (ATTR_XOR_PEER_ADDRESS, xor_v4_value addr port))"
    using s2 append_attribute_cat [OF _ f2, of a1 "stun_hd mt 0 txn"] o1 txn by auto
  define r2 where "r2 = drop (length (attr_enc (ATTR_XOR_PEER_ADDRESS, xor_v4_value addr port))) (drop 20 out)"
  have f3: "attr_ok (ATTR_DATA, payload)" "length (attr_enc (ATTR_DATA, payload)) \<le> length r2"
    using append_attribute_Some [OF s3] o2 txn by (auto simp: r2_def)
  have o3: "o3 = stun_hd mt 0 txn @ attrs_enc ?as @ drop (length (attr_enc (ATTR_DATA, payload))) r2"
    "a3 = 20 + length (attrs_enc ?as)"
    using s3 append_attribute_cat [OF o2(2) f3] o2 txn by (auto simp: r2_def send_attrs_def)
  define r3 where "r3 = drop (length (attr_enc (ATTR_DATA, payload))) r2"
  have f4: "a4 = a3 + 8" "8 \<le> length r3" "length (attrs_enc ?as) + 8 \<le> 65535"
    using append_fingerprint_Some [OF s4] o3 txn by (auto simp: r3_def)
  have all: "attrs_enc all = attrs_enc ?as @ attr_enc (ATTR_FINGERPRINT, stun_fp mt txn ?as)" by (simp add: all_def)
  have la: "length (attrs_enc all) = length (attrs_enc ?as) + 8" by (simp add: all length_attr_enc pad4_def)
  have "o4 = stun_hd mt (length (attrs_enc all)) txn @ attrs_enc all @ drop 8 r3"
    using s4 append_fingerprint_cat [OF txn f4(3,2), of mt 0] o3 unfolding la unfolding all
    by (simp add: stun_fp_def r3_def del: be_bytes.simps)
  moreover have a4: "a4 - 20 = length (attrs_enc all)" "20 \<le> a4" using f4(1) o3(2) la by auto
  ultimately have "out' = stun_hd mt (length (attrs_enc all)) txn @ attrs_enc all @ drop 8 r3"
    using s5 stun_set_length_hd [OF txn, of a4 mt] la f4(3) by simp
  then show "take n out' = stun_hd mt (length (attrs_enc all)) txn @ attrs_enc all" using n a4 txn by simp
  show "list_all attr_ok all" using f2 f3 by (simp add: all_def send_attrs_def attr_ok_def)
  show "length (attrs_enc all) \<le> 65535" "n = 20 + length (attrs_enc all)" using la f4 n a4 by auto
qed

lemma write_send_succeeds:
  assumes txn: "length txn = 12" and addr: "length addr = 4" and pl: "length payload \<le> 65000"
    and room: "48 + length payload \<le> length out"
  shows "\<exists>n out'. write_send_indication txn addr port payload out = (Some n, out')"
proof -
  let ?mt = "stun_message_type STUN_CLASS_INDICATION TURN_METHOD_SEND"
  let ?e1 = "attr_enc (ATTR_XOR_PEER_ADDRESS, xor_v4_value addr port)" and ?e2 = "attr_enc (ATTR_DATA, payload)"
  have e1: "length ?e1 = 12" by (simp add: length_attr_enc length_xor_v4_value [OF addr] pad4_def)
  have e2: "length ?e2 \<le> 7 + length payload" using pad4_bounds(2) [of "length payload"] by (simp add: length_attr_enc)
  have s1: "write_stun_header STUN_CLASS_INDICATION TURN_METHOD_SEND txn out = (Some 20, stun_hd ?mt 0 txn @ drop 20 out)"
    using txn room by (simp add: write_stun_header_eq)
  have s2: "append_attribute ATTR_XOR_PEER_ADDRESS (xor_v4_value addr port) 20 (stun_hd ?mt 0 txn @ drop 20 out) =
      (Some 32, (stun_hd ?mt 0 txn @ ?e1) @ drop 32 out)"
    using append_attribute_cat [of 20 "stun_hd ?mt 0 txn" ATTR_XOR_PEER_ADDRESS "xor_v4_value addr port" "drop 20 out"]
      txn room e1 length_xor_v4_value [OF addr] by (simp add: attr_ok_def)
  have s3: "append_attribute ATTR_DATA payload 32 ((stun_hd ?mt 0 txn @ ?e1) @ drop 32 out) =
      (Some (20 + length (?e1 @ ?e2)), stun_hd ?mt 0 txn @ (?e1 @ ?e2) @ drop (32 + length ?e2) out)"
    using append_attribute_cat [of 32 "stun_hd ?mt 0 txn @ ?e1" ATTR_DATA payload "drop 32 out"]
      txn room e1 e2 pl by (simp add: attr_ok_def add.commute)
  obtain out4 where s4: "append_fingerprint (20 + length (?e1 @ ?e2)) (stun_hd ?mt 0 txn @ (?e1 @ ?e2) @ drop (32 + length ?e2) out) =
      (Some (20 + length (?e1 @ ?e2) + 8), stun_hd ?mt (length (?e1 @ ?e2) + 8) txn @ out4)"
    using append_fingerprint_cat [of txn "?e1 @ ?e2" "drop (32 + length ?e2) out" ?mt 0] txn room e1 e2 pl by auto
  have "length (?e1 @ ?e2) + 8 \<le> 65535" using e1 e2 pl by simp
  then have s5: "stun_set_length (20 + length (?e1 @ ?e2) + 8) (stun_hd ?mt (length (?e1 @ ?e2) + 8) txn @ out4) =
      (Some (), stun_hd ?mt (length (?e1 @ ?e2) + 8) txn @ out4)"
    using stun_set_length_hd [OF txn, of "20 + length (?e1 @ ?e2) + 8" ?mt] by (simp add: add.commute)
  show ?thesis
    unfolding write_send_indication_def wbind_eq_Some append_xor_peer_v4_eq [OF addr] append_data_def
    using s1 s2 s3 s4 s5 by (auto simp: wret_def simp del: length_append)
qed

section \<open>MD5 padding\<close>

text \<open>RFC 1321: a one bit, zeros, and the bit length, to a multiple of sixty-four bytes.\<close>

definition md5_pad :: "bytes \<Rightarrow> bytes" where
  "md5_pad dat = dat @ [0x80] @ replicate (((length dat + 8) div 64 + 1) * 64 - 8 - (length dat + 1)) 0 @
     le_bytes 8 (8 * length dat)"

fun md5_ref_loop :: "nat \<Rightarrow> bytes \<Rightarrow> u32 \<times> u32 \<times> u32 \<times> u32 \<Rightarrow> u32 \<times> u32 \<times> u32 \<times> u32" where
  "md5_ref_loop 0 b h = h"
| "md5_ref_loop (Suc k) b h = md5_ref_loop k (drop 64 b) (md5_compress (md5_words (take 64 b) 0) h)"

definition md5_ref :: "bytes \<Rightarrow> bytes" where
  "md5_ref dat = md5_digest (md5_ref_loop (length (md5_pad dat) div 64) (md5_pad dat) md5_iv)"

lemma length_md5_pad: "length (md5_pad dat) = ((length dat + 8) div 64 + 1) * 64"
proof -
  have "length dat + 9 \<le> ((length dat + 8) div 64 + 1) * 64"
    using div_mult_mod_eq [of "length dat + 8" 64] mod_less_divisor [of 64 "length dat + 8"] by simp
  then show ?thesis by (simp add: md5_pad_def)
qed

lemma md5_block_padded:
  assumes "length dat + 9 \<le> 320"
  defines "padded \<equiv> ((length dat + 8) div 64 + 1) * 64"
  shows "padded \<le> 320" and "take padded (blit (padded - 8) (le_bytes 8 (unat (of_nat (length dat) * 8 :: u64)))
      ((blit 0 dat (replicate 320 0))[length dat := 0x80])) = md5_pad dat"
proof -
  have "(length dat + 8) div 64 \<le> 4" using assms(1) by simp
  then show p: "padded \<le> 320" by (simp add: padded_def)
  have lo: "length dat + 9 \<le> padded"
    using div_mult_mod_eq [of "length dat + 8" 64] mod_less_divisor [of 64 "length dat + 8"] by (simp add: padded_def)
  have "blit 0 dat (replicate 320 0) = dat @ 0 # replicate (319 - length dat) 0"
    using assms(1) by (simp add: blit_def flip: replicate_Suc)
  then have b: "(blit 0 dat (replicate 320 0))[length dat := 0x80] = dat @ 0x80 # replicate (319 - length dat) 0" by simp
  have u: "unat (of_nat (length dat) * 8 :: u64) = 8 * length dat"
    using assms(1) by (simp add: unat_word_ariths unat_of_nat)
  have t: "take (padded - 8) (dat @ 0x80 # replicate (319 - length dat) 0) = dat @ 0x80 # replicate (padded - 8 - (length dat + 1)) 0"
  proof -
    have "padded - 8 - length dat = Suc (padded - 8 - (length dat + 1))" using lo by simp
    then show ?thesis using lo p by (simp add: min_absorb1)
  qed
  have "take padded (blit (padded - 8) (le_bytes 8 (8 * length dat)) (dat @ 0x80 # replicate (319 - length dat) 0)) =
      take (padded - 8) (dat @ 0x80 # replicate (319 - length dat) 0) @ le_bytes 8 (8 * length dat)"
    using take_blit_end [of "padded - 8" "le_bytes 8 (8 * length dat)" "dat @ 0x80 # replicate (319 - length dat) 0"] lo p assms(1)
    by simp
  then show "take padded (blit (padded - 8) (le_bytes 8 (unat (of_nat (length dat) * 8 :: u64)))
      ((blit 0 dat (replicate 320 0))[length dat := 0x80])) = md5_pad dat"
    unfolding b u t by (simp add: md5_pad_def padded_def)
qed

lemma md5_words_at:
  "md5_words block offset = md5_words (take 64 (drop offset block)) 0"
proof -
  have "bslice (offset + i * 4) (offset + i * 4 + 4) block = bslice (i * 4) (i * 4 + 4) (take 64 (drop offset block))"
    if "i < 16" for i
    using that by (simp add: bslice_def drop_take min_absorb1 add.commute)
  then show ?thesis by (simp add: md5_words_def Let_def)
qed

lemma md5_loop_ref:
  "padded = offset + 64 * k \<Longrightarrow> padded \<le> length block \<Longrightarrow>
   md5_loop block padded offset h = md5_ref_loop k (drop offset (take padded block)) h"
proof (induction k arbitrary: offset h)
  case 0
  then show ?case by (subst md5_loop.simps) simp
next
  case (Suc k)
  have w: "md5_words block offset = md5_words (take 64 (drop offset (take padded block))) 0"
    using md5_words_at [of block offset] Suc.prems by (simp add: drop_take)
  show ?case
    using Suc.IH [of "offset + 64"] Suc.prems by (subst md5_loop.simps) (simp add: w add.commute)
qed

lemma md5_eq_ref: "length dat + 9 \<le> 320 \<Longrightarrow> md5 dat = md5_ref dat"
proof -
  assume l: "length dat + 9 \<le> 320"
  define padded where "padded = ((length dat + 8) div 64 + 1) * 64"
  define block where "block = blit (padded - 8) (le_bytes 8 (unat (of_nat (length dat) * 8 :: u64)))
      ((blit 0 dat (replicate 320 0))[length dat := 0x80])"
  have b: "padded \<le> 320" "take padded block = md5_pad dat"
    using md5_block_padded [OF l] by (simp_all add: padded_def block_def)
  have "length block = 320" using l b(1) by (simp add: block_def padded_def)
  moreover have "padded = 0 + 64 * (padded div 64)" by (simp add: padded_def)
  ultimately have "md5_loop block padded 0 md5_iv = md5_ref_loop (padded div 64) (md5_pad dat) md5_iv"
    using md5_loop_ref [of padded 0 "padded div 64" block md5_iv] b by simp
  then show ?thesis
    unfolding md5_def md5_ref_def Let_def length_md5_pad padded_def [symmetric] block_def [symmetric]
    using l by simp
qed

section \<open>Properties\<close>

text \<open>ChannelData framing round trip and demultiplexing: a frame is written exactly for a bindable
  channel, a payload of at most 65535 bytes and a buffer that holds it; read back, with any padding
  after it, it is classified as that channel with that payload; and no datagram that carries an
  acceptable STUN header is ever taken for ChannelData.\<close>

theorem channel_data_roundtrip:
  "case write_channel_data c p out of
     (None, out') \<Rightarrow> out' = out \<and> \<not> (channel_number_is_valid c \<and> length p \<le> 65535 \<and> 4 + length p \<le> length out)
   | (Some n, out') \<Rightarrow> channel_number_is_valid c \<and> n = 4 + length p \<and> drop n out' = drop n out \<and>
       turn_parse (take n out' @ padding) = Some (TurnChannel c p) \<and>
       parse_stun_header (take n out' @ padding) = None"
proof (cases "channel_number_is_valid c \<and> length p \<le> 65535 \<and> 4 + length p \<le> length out")
  case True
  then have c: "channel_number_is_valid c" "length p \<le> 65535" "4 + length p \<le> length out" by auto
  let ?out = "blit 0 (channel_enc (c, p)) out" and ?b = "channel_enc (c, p) @ padding"
  have t: "take (4 + length p) ?out = channel_enc (c, p)" by (simp add: blit_def)
  note cl = classify_channel_enc [OF c(1,2), of padding]
  have "bslice 4 (4 + length p) ?b = p" by (simp add: bslice_def channel_enc_def)
  then have "turn_parse ?b = Some (TurnChannel c p)" using cl by (simp add: turn_parse_def)
  moreover have "parse_stun_header ?b = None"
    using cl classify_stun [of ?b] by (cases "parse_stun_header ?b") auto
  ultimately show ?thesis using c t by (simp add: write_channel_data_eq drop_blit_above)
qed (auto simp: write_channel_data_eq)

text \<open>A Send indication carries its datagram and peer to the other end: whatever the adapter
  writes, the receiving adapter reads as an indication with exactly that payload, its fingerprint
  verifies, and the peer attribute decodes to the peer's address and port.\<close>

theorem turn_send_roundtrip:
  assumes "turn_write_send txn addr port payload out = (Some n, out')" and "length txn = 12" and "length addr = 4"
  shows "turn_parse (take n out') = Some (TurnIndication payload) \<and>
    (\<exists>h at. parse_stun_header (take n out') = Some h \<and> verify_fingerprint (take n out') h = Some True \<and>
      find_attribute (take n out') h ATTR_XOR_PEER_ADDRESS = Some (Some (at, 8)) \<and>
      parse_xor_mapped_address (take n out') at 8 txn =
        Some (Some \<lparr> sa_family = STUN_FAMILY_IPV4, sa_addr = addr @ replicate 12 0, sa_port = port \<rparr>))"
proof -
  let ?mt = "stun_message_type STUN_CLASS_INDICATION TURN_METHOD_SEND" and ?as = "send_attrs addr port payload"
  let ?all = "?as @ [(ATTR_FINGERPRINT, stun_fp ?mt txn ?as)]" and ?b = "take n out'"
  note lay = write_send_layout [OF assms(1) [unfolded turn_write_send_def] assms(2,3)]
  let ?h = "\<lparr> st_class = STUN_CLASS_INDICATION, st_method = TURN_METHOD_SEND, st_length = length (attrs_enc ?all), st_txn = txn \<rparr>"
  have p: "parse_stun_header ?b = Some ?h"
    unfolding lay(1) using lay(3) assms(2) attrs_enc_mod4 [of ?all] by (intro parse_stun_msg) simp_all
  have len: "length ?b = 20 + length (attrs_enc ?all)" unfolding lay(1) using assms(2) by simp
  note f = find_attribute_enc [OF assms(2) lay(2), of ?h _ _ ?mt "length (attrs_enc ?all)" "[]", unfolded append_Nil2, folded lay(1)]
  have "map_of ?all ATTR_DATA = Some payload" by (simp add: send_attrs_def)
  from f [OF _ this] obtain at where d: "find_attribute ?b ?h ATTR_DATA = Some (Some (at, length payload))"
    "bslice at (at + length payload) ?b = payload" by auto
  obtain r where "find_attribute ?b ?h ATTR_DATA = Some r"
    "\<forall>v len. r = Some (v, len) \<longrightarrow> 24 \<le> v \<and> v + len \<le> 20 + st_length ?h"
    using find_attribute_safe [OF p] by blast
  with d len have "bslice_p at (at + length payload) ?b = Some payload" by (simp add: bslice_p_def)
  then have m: "turn_parse ?b = Some (TurnIndication payload)"
    using classify_stun [OF p] p d by (simp add: turn_parse_def)
  have fp: "verify_fingerprint ?b ?h = Some True"
    using verify_fp_fresh [of txn ?as ?h ?mt] lay(1,2) assms(2) by (simp add: send_attrs_def)
  have "map_of ?all ATTR_XOR_PEER_ADDRESS = Some (xor_v4_value addr port)" by (simp add: send_attrs_def)
  from f [OF _ this] obtain at' where x: "find_attribute ?b ?h ATTR_XOR_PEER_ADDRESS = Some (Some (at', 8))"
    "bslice at' (at' + 8) ?b = xor_v4_value addr port" using length_xor_v4_value [OF assms(3)] by auto
  obtain r' where "find_attribute ?b ?h ATTR_XOR_PEER_ADDRESS = Some r'"
    "\<forall>v len. r' = Some (v, len) \<longrightarrow> 24 \<le> v \<and> v + len \<le> 20 + st_length ?h"
    using find_attribute_safe [OF p] by blast
  with x len have "at' + 8 \<le> length ?b" by simp
  from parse_xor_v4_value [OF assms(3) x(2) this] p fp x m show ?thesis by blast
qed

theorem turn_send_roundtrip_witness:
  "\<exists>n out'. turn_write_send (replicate 12 1) [192, 0, 2, 1] 3478 [7, 8, 9] (replicate 64 0) = (Some n, out') \<and>
     turn_parse (take n out') = Some (TurnIndication [7, 8, 9])"
proof -
  obtain n out' where w: "turn_write_send (replicate 12 1) [192, 0, 2, 1] 3478 [7, 8, 9] (replicate 64 0) = (Some n, out')"
    using write_send_succeeds [of "replicate 12 1" "[192, 0, 2, 1]" "[7, 8, 9]" "replicate 64 0" 3478]
    by (auto simp: turn_write_send_def)
  then show ?thesis using turn_send_roundtrip [OF w] by auto
qed

text \<open>The media adapter is total: no datagram from the relay makes it index out of range.\<close>

theorem turn_parse_never_panics: "turn_parse packet \<noteq> None"
proof (cases "classify_relayed packet")
  case (RelayedChannel c off len)
  then have "off + len \<le> length packet" by (auto simp: classify_relayed_def Let_def split: if_splits)
  then show ?thesis using RelayedChannel by (simp add: turn_parse_def)
next
  case RelayedStun
  show ?thesis
  proof (cases "parse_stun_header packet")
    case None
    then show ?thesis using RelayedStun by (simp add: turn_parse_def)
  next
    case (Some h)
    obtain r where "find_attribute packet h ATTR_DATA = Some r"
      "\<forall>v len. r = Some (v, len) \<longrightarrow> 24 \<le> v \<and> v + len \<le> 20 + st_length h"
      using find_attribute_safe [OF Some] by blast
    then show ?thesis
      using RelayedStun Some parse_stun_header_length [OF Some] by (cases r) (auto simp: turn_parse_def)
  qed
qed (simp add: turn_parse_def)

text \<open>The long-term key of a credential whose \<open>user:realm:password\<close> form fits 256 bytes is the
  RFC 1321 digest of that form: the in-place padding in the fixed block is the standard's padding and
  the block loop consumes exactly its sixty-four-byte blocks, for every such length.\<close>

theorem long_term_key_is_md5:
  assumes "length username + length realm + length password + 2 \<le> 256"
  shows "long_term_key username realm password = md5_ref (username @ [58] @ realm @ [58] @ password)"
proof -
  let ?u = username and ?r = realm and ?p = password
  let ?z = "replicate 256 (0 :: byte)"
  have up: "(blit 0 a ?z)[length a := 58] = blit 0 (a @ [58]) ?z" if "length a < 256" for a
  proof -
    have "256 - length a = Suc (255 - length a)" using that by simp
    then have "replicate (256 - length a) (0 :: byte) = 0 # replicate (255 - length a) 0" by (metis replicate_Suc)
    then show ?thesis using that by (simp add: blit_def)
  qed
  have b: "blit (length a) x (blit 0 a ?z) = blit 0 (a @ x) ?z" if "length a + length x \<le> 256" for a x
    using that blit_blit_append [of 0 a x ?z] by simp
  have e: "(blit 0 ?u ?z)[0 + length ?u := 58] = blit 0 (?u @ [58]) ?z"
    "blit (0 + length ?u + 1) ?r (blit 0 (?u @ [58]) ?z) = blit 0 ((?u @ [58]) @ ?r) ?z"
    "(blit 0 ((?u @ [58]) @ ?r) ?z)[0 + length ?u + 1 + length ?r := 58] = blit 0 (((?u @ [58]) @ ?r) @ [58]) ?z"
    "blit (0 + length ?u + 1 + length ?r + 1) ?p (blit 0 (((?u @ [58]) @ ?r) @ [58]) ?z) =
      blit 0 ((((?u @ [58]) @ ?r) @ [58]) @ ?p) ?z"
    using assms up [of ?u] b [of "?u @ [58]" ?r] up [of "(?u @ [58]) @ ?r"] b [of "((?u @ [58]) @ ?r) @ [58]" ?p]
    by (simp_all add: ac_simps)
  have t: "take (0 + length ?u + 1 + length ?r + 1 + length ?p) (blit 0 ((((?u @ [58]) @ ?r) @ [58]) @ ?p) ?z) =
      (((?u @ [58]) @ ?r) @ [58]) @ ?p"
    by (simp add: blit_def)
  have "long_term_key ?u ?r ?p = md5 ((((?u @ [58]) @ ?r) @ [58]) @ ?p)"
    unfolding long_term_key_def Let_def e t using assms by simp
  also have "\<dots> = md5_ref ((((?u @ [58]) @ ?r) @ [58]) @ ?p)" using assms by (intro md5_eq_ref) simp
  finally show ?thesis by simp
qed

theorem long_term_key_is_md5_witness:
  "long_term_key [117] [114] [112] = md5_ref ([117] @ [58] @ [114] @ [58] @ [112])"
  by (rule long_term_key_is_md5) simp

end
