(* ===== verification/Route_Key.thy ===== *)
theory Route_Key
  imports Wave_Prelude
begin

text \<open>
  \<open>modules/common/http_route_key.rs\<close>: the canonical \<open>(host, port, path)\<close> of an HTTP request. A scanning
  loop \<open>while j < s.len() && s[j] != c\<close> is written with \<^const>\<open>takeWhile\<close>; the path normalisation, which
  works in place in the caller's buffer, keeps its cursors and its buffer. The path is compared with
  a segment-stack specification, the authority with its own second pass, and the digest input is shown
  injective on derived keys.
\<close>

section \<open>Errors and keys\<close>

abbreviation (input) MAX_ROUTE_HOST :: nat where "MAX_ROUTE_HOST \<equiv> 255"
abbreviation (input) MAX_ROUTE_PATH :: nat where "MAX_ROUTE_PATH \<equiv> 2048"
abbreviation (input) PORT_SUFFIX_MAX :: nat where "PORT_SUFFIX_MAX \<equiv> 6"

definition ROUTE_KEY_DOMAIN :: bytes where
  "ROUTE_KEY_DOMAIN = ascii ''wave-http-route-key'' @ [0]"

definition ROUTE_KEY_CANON_BYTES :: nat where
  "ROUTE_KEY_CANON_BYTES = length ROUTE_KEY_DOMAIN + MAX_ROUTE_HOST + 4 + MAX_ROUTE_PATH"

datatype route_key_error = Ambiguous | Oversize | NonAscii | EmptyHost | BadHost | BadPort | BadPath | BadTarget

record route_key =
  rk_host :: bytes
  rk_port :: u16
  rk_path :: bytes
  rk_query :: bytes

datatype target_form =
    TargetOrigin bytes bytes
  | TargetAbsolute bytes bytes bytes
  | TargetAuthority bytes
  | TargetAsterisk

section \<open>Target forms\<close>

definition scheme_end :: "bytes \<Rightarrow> nat option" where
  "scheme_end target =
     (if target = [] \<or> \<not> is_ascii_alphabetic (target ! 0) then None
      else
        let run = takeWhile (\<lambda>b. b \<noteq> 58) (drop 1 target);
            i = 1 + length run
        in
          if \<exists>b\<in>set run. \<not> (is_ascii_alphanumeric b \<or> b = 43 \<or> b = 45 \<or> b = 46) then None
          else if i + 2 < length target \<and> target ! i = 58 \<and> target ! (i + 1) = 47 \<and> target ! (i + 2) = 47
            then Some i else None)"

definition split_query :: "bytes \<Rightarrow> bytes \<times> bytes" where
  "split_query s =
     (let i = length (takeWhile (\<lambda>b. b \<noteq> 63) s)
      in if i < length s then (take i s, drop (i + 1) s) else (s, []))"

definition trim_ows :: "bytes \<Rightarrow> bytes" where
  "trim_ows v = rev (dropWhile (\<lambda>b. b = 32 \<or> b = 9) (rev (dropWhile (\<lambda>b. b = 32 \<or> b = 9) v)))"

definition classify_target :: "bytes \<Rightarrow> route_key_error + target_form" where
  "classify_target target =
     (if target = [] then Inl BadTarget
      else if 35 \<in> set target then Inl BadTarget
      else if target = [42] then Inr TargetAsterisk
      else if target ! 0 = 47 then
        (if 1 < length target \<and> target ! 1 = 47 then Inl BadTarget
         else case split_query target of (path, query) \<Rightarrow> Inr (TargetOrigin path query))
      else case scheme_end target of
        Some at \<Rightarrow>
          let rest = drop (at + 3) target;
              authority = takeWhile (\<lambda>b. b \<noteq> 47 \<and> b \<noteq> 63) rest
          in (case split_query (drop (length authority) rest) of
                (path, query) \<Rightarrow> Inr (TargetAbsolute authority path query))
      | None \<Rightarrow> Inr (TargetAuthority target))"

section \<open>Host\<close>

definition is_ascii_hexdigit :: "byte \<Rightarrow> bool" where
  "is_ascii_hexdigit b \<longleftrightarrow> is_ascii_digit b \<or> 97 \<le> b \<and> b \<le> 102 \<or> 65 \<le> b \<and> b \<le> 70"

definition reg_char :: "byte \<Rightarrow> bool" where
  "reg_char b \<longleftrightarrow> is_ascii_alphanumeric b \<or> b = 45 \<or> b = 95 \<or> b = 126 \<or> b = 46"

fun reg_name_loop :: "bytes \<Rightarrow> bool" where
  "reg_name_loop [] = True"
| "reg_name_loop (b # bs) =
     (if \<not> reg_char b then False
      else if b = 46 \<and> bs \<noteq> [] \<and> hd bs = 46 then False
      else reg_name_loop bs)"

definition reg_name_ok :: "bytes \<Rightarrow> bool" where
  "reg_name_ok h = (if h = [] then True else if h ! 0 = 46 then False else reg_name_loop h)"

text \<open>One dotted part: the digits consumed so far, the value, and the bytes left; \<^const>\<open>None\<close> is the
  early \<open>return false\<close>.\<close>

fun ipv4_part :: "nat \<Rightarrow> u32 \<Rightarrow> bytes \<Rightarrow> (nat \<times> u32 \<times> bytes) option" where
  "ipv4_part n v [] = Some (n, v, [])"
| "ipv4_part n v (b # bs) =
     (if b = 46 then Some (n, v, b # bs)
      else if \<not> is_ascii_digit b \<or> 3 \<le> n then None
      else ipv4_part (n + 1) (v * 10 + ucast (b - 48)) bs)"

lemma ipv4_part_shorter: "ipv4_part n v s = Some (m, w, t) \<Longrightarrow> length t \<le> length s"
  by (induction n v s rule: ipv4_part.induct) (auto split: if_splits)

function ipv4_loop :: "nat \<Rightarrow> bytes \<Rightarrow> bool" where
  "ipv4_loop parts s =
     (case ipv4_part 0 0 s of None \<Rightarrow> False
      | Some (n, v, t) \<Rightarrow>
          if n = 0 \<or> 255 < v then False
          else if t = [] then parts + 1 = 4
          else ipv4_loop (parts + 1) (tl t))"
  by pat_completeness auto
termination
  by (relation "measure (\<lambda>(parts, s). length s)") (auto dest!: ipv4_part_shorter simp: neq_Nil_conv)

declare ipv4_loop.simps [simp del]

definition ipv4_ok :: "bytes \<Rightarrow> bool" where
  "ipv4_ok s = ipv4_loop 0 s"

function ipv6_loop :: "nat \<Rightarrow> bool \<Rightarrow> bytes \<Rightarrow> bool" where
  "ipv6_loop groups compressed s =
     (let g = takeWhile (\<lambda>b. b \<noteq> 58) s; t = drop (length g) s in
      if g = [] then False
      else
        let dotted = (46 \<in> set g) in
        if (if dotted then \<not> ipv4_ok g \<or> t \<noteq> [] else 4 < length g \<or> (\<exists>b\<in>set g. \<not> is_ascii_hexdigit b)) then False
        else
          let groups = groups + (if dotted then 2 else 1) in
          if 8 < groups then False
          else if t = [] then (if compressed then groups < 8 else groups = 8)
          else
            let u = tl t in
            if u = [] then False
            else if hd u = 58 then
              (if compressed then False
               else if tl u = [] then groups < 8
               else ipv6_loop groups True (tl u))
            else ipv6_loop groups compressed u)"
  by pat_completeness auto
termination
proof (relation "measure (\<lambda>(groups, compressed, s). length s)")
  show "wf (measure (\<lambda>(groups, compressed, s). length s))" by simp
qed (auto simp: Let_def neq_Nil_conv dest!: arg_cong [of "drop _ _" _ length])

declare ipv6_loop.simps [simp del]

definition ipv6_ok :: "bytes \<Rightarrow> bool" where
  "ipv6_ok s =
     (if length s < 2 \<or> 45 < length s then False
      else if s ! 0 = 58 then
        (if s ! 1 \<noteq> 58 then False
         else if length s = 2 then True
         else ipv6_loop 0 True (drop 2 s))
      else ipv6_loop 0 False s)"

text \<open>The byte scan at the head of \<open>norm_host\<close>: the first offending byte decides.\<close>

fun host_scan :: "bytes \<Rightarrow> route_key_error option" where
  "host_scan [] = None"
| "host_scan (b # bs) =
     (if 0x80 \<le> b \<or> b = 37 then Some NonAscii else if b = 64 then Some BadHost else host_scan bs)"

fun port_loop :: "u32 \<Rightarrow> bytes \<Rightarrow> u32 option" where
  "port_loop port [] = Some port"
| "port_loop port (d # ds) =
     (if \<not> is_ascii_digit d then None else port_loop (port * 10 + ucast (d - 48)) ds)"

text \<open>Where the host ends: past the bracket of a literal, or at the colon; \<^const>\<open>None\<close> is \<open>BadHost\<close>.\<close>

definition norm_host_end :: "bytes \<Rightarrow> nat option" where
  "norm_host_end src =
     (if src ! 0 = 91 then
        let j = 1 + length (takeWhile (\<lambda>b. b \<noteq> 93) (drop 1 src)) in
        if j = length src \<or> \<not> ipv6_ok (bslice 1 j src) then None else Some (j + 1)
      else
        let c = length (takeWhile (\<lambda>b. b \<noteq> 58) src) in
        if 58 \<in> set (drop (c + 1) src) then None
        else if \<not> reg_name_ok (take c src) then None
        else Some c)"

text \<open>What follows the host: nothing, or a colon and the port.\<close>

definition norm_port :: "bytes \<Rightarrow> u16 \<Rightarrow> route_key_error + u16 \<times> bool" where
  "norm_port rest default_port =
     (if rest = [] then Inr (default_port, False)
      else if rest ! 0 \<noteq> 58 then Inl BadHost
      else
        let digits = drop 1 rest in
        if digits = [] then Inr (default_port, False)
        else if 5 < length digits then Inl BadPort
        else case port_loop 0 digits of None \<Rightarrow> Inl BadPort
        | Some port \<Rightarrow>
            if \<not> (1 \<le> port \<and> port \<le> 65535) then Inl BadPort
            else Inr (ucast port, True))"

text \<open>Answers \<open>(dst[..len], port, explicit)\<close>.\<close>

definition norm_host :: "bytes \<Rightarrow> u16 \<Rightarrow> route_key_error + bytes \<times> u16 \<times> bool" where
  "norm_host src default_port =
     (if src = [] then Inl EmptyHost
      else if MAX_ROUTE_HOST + PORT_SUFFIX_MAX < length src then Inl Oversize
      else case host_scan src of Some e \<Rightarrow> Inl e
      | None \<Rightarrow>
        (case norm_host_end src of None \<Rightarrow> Inl BadHost
        | Some host_end \<Rightarrow>
          let len = (if src ! 0 \<noteq> 91 \<and> 1 < host_end \<and> src ! (host_end - 1) = 46 then host_end - 1 else host_end) in
          if len = 0 then Inl EmptyHost
          else if MAX_ROUTE_HOST < len then Inl Oversize
          else case norm_port (drop host_end src) default_port of
            Inl e \<Rightarrow> Inl e
          | Inr (port, explicit) \<Rightarrow> Inr (map to_ascii_lowercase (take len src), port, explicit)))"

definition authority_agrees :: "bytes \<Rightarrow> bytes \<Rightarrow> u16 \<Rightarrow> bool" where
  "authority_agrees a b scheme_default_port =
     (if a = b then True
      else case (norm_host a scheme_default_port, norm_host b scheme_default_port) of
        (Inr (ha, pa, _), Inr (hb, pb, _)) \<Rightarrow> ha = hb \<and> pa = pb
      | _ \<Rightarrow> False)"

text \<open>The decimal digits of a port, least significant first, as the loop leaves them in \<open>digits\<close>.\<close>

function port_digits :: "u16 \<Rightarrow> bytes" where
  "port_digits p = (if 0 < p then (48 + ucast (p mod 10)) # port_digits (p div 10) else [])"
  by pat_completeness auto
termination
  by (relation "measure unat") (auto simp: word_less_nat_alt unat_div)

declare port_digits.simps [simp del]

definition canonical_authority :: "bytes \<Rightarrow> u16 \<Rightarrow> bytes \<Rightarrow> (route_key_error + nat) \<times> bytes" where
  "canonical_authority src scheme_default_port dst =
     (case norm_host src scheme_default_port of
        Inl e \<Rightarrow> (Inl e, dst)
      | Inr (host, port, _) \<Rightarrow>
          let digits = (if port \<noteq> scheme_default_port then port_digits port else []);
              need = length host + (if port \<noteq> scheme_default_port then 1 + length digits else 0)
          in
            if length dst < need then (Inl Oversize, dst)
            else
              let dst = blit 0 host dst;
                  dst = (if 0 < length digits
                         then blit (length host + 1) (rev digits) (dst[length host := 58]) else dst)
              in (Inr need, dst))"

section \<open>Path\<close>

definition unreserved :: "byte \<Rightarrow> bool" where
  "unreserved b \<longleftrightarrow> is_ascii_alphanumeric b \<or> b = 45 \<or> b = 46 \<or> b = 95 \<or> b = 126"

definition pchar_ok :: "byte \<Rightarrow> bool" where
  "pchar_ok b \<longleftrightarrow> unreserved b \<or> b \<in> {33, 36, 38, 39, 40, 41, 42, 43, 44, 59, 61, 58, 64, 47}"

definition hex_val :: "byte \<Rightarrow> byte option" where
  "hex_val b =
     (if 48 \<le> b \<and> b \<le> 57 then Some (b - 48)
      else if 97 \<le> b \<and> b \<le> 102 then Some (b - 97 + 10)
      else if 65 \<le> b \<and> b \<le> 70 then Some (b - 65 + 10)
      else None)"

function norm_path_loop :: "bytes \<Rightarrow> nat \<Rightarrow> nat \<Rightarrow> bytes \<Rightarrow> (route_key_error + nat) \<times> bytes" where
  "norm_path_loop src i w dst =
     (if i < length src then
        let b = src ! i in
        if b = 37 then
          (if length src \<le> i + 2 then (Inl BadPath, dst)
           else case (hex_val (src ! (i + 1)), hex_val (src ! (i + 2))) of
             (Some h, Some l) \<Rightarrow>
               let v = push_bit 4 h OR l in
               if unreserved v then norm_path_loop src (i + 3) (w + 1) (dst[w := v])
               else norm_path_loop src (i + 3) (w + 3)
                 (dst[w := 37, w + 1 := to_ascii_uppercase (src ! (i + 1)), w + 2 := to_ascii_uppercase (src ! (i + 2))])
           | _ \<Rightarrow> (Inl BadPath, dst))
        else if 0x80 \<le> b then (Inl NonAscii, dst)
        else if pchar_ok b then norm_path_loop src (i + 1) (w + 1) (dst[w := b])
        else (Inl BadPath, dst)
      else (Inr w, dst))"
  by pat_completeness auto
termination
  by (relation "measure (\<lambda>(src, i, w, dst). length src - i)") auto

declare norm_path_loop.simps [simp del]

fun pop_segment :: "bytes \<Rightarrow> nat \<Rightarrow> nat" where
  "pop_segment buf 0 = 0"
| "pop_segment buf (Suc w) = (if buf ! w = 47 then w else pop_segment buf w)"

definition starts_with :: "bytes \<Rightarrow> bytes \<Rightarrow> bool" where
  "starts_with s p \<longleftrightarrow> length p \<le> length s \<and> take (length p) s = p"

text \<open>The end of the segment at \<open>r\<close>: past a leading slash, then to the next one.\<close>

definition segment_end :: "bytes \<Rightarrow> nat \<Rightarrow> nat \<Rightarrow> nat" where
  "segment_end buf n r =
     (let e = (if buf ! r = 47 then r + 1 else r)
      in e + length (takeWhile (\<lambda>b. b \<noteq> 47) (bslice e n buf)))"

lemma segment_end_gt: "r < n \<Longrightarrow> n \<le> length buf \<Longrightarrow> r < segment_end buf n r"
proof -
  assume a: "r < n" "n \<le> length buf"
  then have "bslice r n buf \<noteq> [] \<and> hd (bslice r n buf) = buf ! r" by (simp add: bslice_def hd_drop_conv_nth)
  then show ?thesis by (cases "bslice r n buf") (auto simp: segment_end_def)
qed

text \<open>The slice \<open>&buf[r..n]\<close> needs \<open>n <= buf.len()\<close>, which its caller has; the loop head states it.\<close>

function remove_dot_segments_loop :: "bytes \<Rightarrow> nat \<Rightarrow> nat \<Rightarrow> nat \<Rightarrow> nat \<times> bytes" where
  "remove_dot_segments_loop buf n r w =
     (if r < n \<and> n \<le> length buf then
        let rest = bslice r n buf in
        if starts_with rest [46, 46, 47] then remove_dot_segments_loop buf n (r + 3) w
        else if starts_with rest [46, 47] \<or> starts_with rest [47, 46, 47] then
          remove_dot_segments_loop buf n (r + 2) w
        else if rest = [47, 46] then remove_dot_segments_loop (buf[r + 1 := 47]) n (r + 1) w
        else if starts_with rest [47, 46, 46, 47] then
          remove_dot_segments_loop buf n (r + 3) (pop_segment buf w)
        else if rest = [47, 46, 46] then
          remove_dot_segments_loop (buf[r + 2 := 47]) n (r + 2) (pop_segment (buf[r + 2 := 47]) w)
        else if rest = [46] \<or> rest = [46, 46] then (w, buf)
        else
          let e = segment_end buf n r
          in remove_dot_segments_loop (blit w (bslice r e buf) buf) n e (w + (e - r))
      else (w, buf))"
  by pat_completeness auto
termination
proof (relation "measure (\<lambda>(buf, n, r, w). n - r)")
  fix buf :: bytes and n r w e and rest
  assume "r < n \<and> n \<le> length buf" "rest = bslice r n buf" "\<not> (rest = [46] \<or> rest = [46, 46])" "e = segment_end buf n r"
  then show "((blit w (bslice r e buf) buf, n, e, w + (e - r)), buf, n, r, w) \<in> measure (\<lambda>(buf, n, r, w). n - r)"
    using segment_end_gt [of r n buf] by auto
qed auto

declare remove_dot_segments_loop.simps [simp del]

definition remove_dot_segments :: "bytes \<Rightarrow> nat \<Rightarrow> nat \<times> bytes" where
  "remove_dot_segments buf n = remove_dot_segments_loop buf n 0 0"

definition norm_path :: "bytes \<Rightarrow> bytes \<Rightarrow> (route_key_error + nat) \<times> bytes" where
  "norm_path src dst =
     (if MAX_ROUTE_PATH < length src then (Inl Oversize, dst)
      else if src = [] then (Inr 1, dst[0 := 47])
      else case norm_path_loop src 0 0 dst of
        (Inl e, dst) \<Rightarrow> (Inl e, dst)
      | (Inr w, dst) \<Rightarrow>
          (case remove_dot_segments dst w of (n, dst) \<Rightarrow>
             if n = 0 then (Inr 1, dst[0 := 47]) else (Inr n, dst)))"

section \<open>The key\<close>

text \<open>The loop over the three sources of the authority: \<open>acc\<close> is the host and port of the first one
  present.\<close>

fun route_key_sources :: "bool \<Rightarrow> u16 \<Rightarrow> (bytes \<times> u16) option \<Rightarrow> bytes option list \<Rightarrow>
    route_key_error + (bytes \<times> u16) option" where
  "route_key_sources is_connect dp acc [] = Inr acc"
| "route_key_sources is_connect dp acc (None # ss) = route_key_sources is_connect dp acc ss"
| "route_key_sources is_connect dp None (Some src # ss) =
     (case norm_host src dp of
        Inl e \<Rightarrow> Inl e
      | Inr (h, p, explicit) \<Rightarrow>
          if is_connect \<and> \<not> explicit then Inl BadTarget
          else route_key_sources is_connect dp (Some (h, p)) ss)"
| "route_key_sources is_connect dp (Some (host, port)) (Some src # ss) =
     (case norm_host src dp of
        Inr (h, p, _) \<Rightarrow>
          if length h \<noteq> length host \<or> p \<noteq> port \<or> h \<noteq> host then Inl Ambiguous
          else route_key_sources is_connect dp (Some (host, port)) ss
      | Inl EmptyHost \<Rightarrow> Inl Ambiguous
      | Inl e \<Rightarrow> Inl e)"

definition derive_route_key ::
  "bytes \<Rightarrow> bytes \<Rightarrow> bytes option \<Rightarrow> bytes option \<Rightarrow> u16 \<Rightarrow> bytes \<Rightarrow> route_key_error + route_key" where
  "derive_route_key meth target host_header authority_pseudo scheme_default_port path_buf =
     (case classify_target target of
        Inl e \<Rightarrow> Inl e
      | Inr form \<Rightarrow>
        let is_connect = (meth = ascii ''CONNECT''); is_options = (meth = ascii ''OPTIONS'');
            refused = (case form of
                TargetAsterisk \<Rightarrow> \<not> is_options
              | TargetAuthority _ \<Rightarrow> \<not> is_connect
              | _ \<Rightarrow> is_connect);
            target_authority = (case form of
                TargetAbsolute authority _ _ \<Rightarrow> Some authority
              | TargetAuthority authority \<Rightarrow> Some authority
              | _ \<Rightarrow> None)
        in
          if refused then Inl BadTarget
          else case route_key_sources is_connect scheme_default_port None
                      [target_authority, authority_pseudo, host_header] of
            Inl e \<Rightarrow> Inl e
          | Inr None \<Rightarrow> Inl EmptyHost
          | Inr (Some (host, port)) \<Rightarrow>
              let from_path = (\<lambda>path query.
                    case norm_path path path_buf of
                      (Inl e, _) \<Rightarrow> Inl e
                    | (Inr n, dst) \<Rightarrow> Inr \<lparr> rk_host = host, rk_port = port, rk_path = take n dst, rk_query = query \<rparr>)
              in (case form of
                    TargetAsterisk \<Rightarrow>
                      Inr \<lparr> rk_host = host, rk_port = port, rk_path = take 1 (path_buf[0 := 42]), rk_query = [] \<rparr>
                  | TargetAuthority _ \<Rightarrow> Inr \<lparr> rk_host = host, rk_port = port, rk_path = [], rk_query = [] \<rparr>
                  | TargetOrigin path query \<Rightarrow> from_path path query
                  | TargetAbsolute _ path query \<Rightarrow> from_path path query))"

definition route_key_canonical :: "route_key \<Rightarrow> nat writer" where
  "route_key_canonical key out =
     (let need = length ROUTE_KEY_DOMAIN + length (rk_host key) + 4 + length (rk_path key) in
      if length out < need then (None, out)
      else
        let at = 0; out = blit at ROUTE_KEY_DOMAIN out; at = at + length ROUTE_KEY_DOMAIN;
            out = blit at (rk_host key) out; at = at + length (rk_host key);
            out = out[at := 0, at + 1 := ucast (drop_bit 8 (rk_port key)), at + 2 := ucast (rk_port key), at + 3 := 0];
            at = at + 4;
            out = blit at (rk_path key) out; at = at + length (rk_path key)
        in (Some at, out))"

definition route_key_digest :: "route_key \<Rightarrow> (bytes \<Rightarrow> bytes) \<Rightarrow> bytes option" where
  "route_key_digest key sha256 =
     (case route_key_canonical key (replicate ROUTE_KEY_CANON_BYTES 0) of
        (None, _) \<Rightarrow> None
      | (Some n, buf) \<Rightarrow> Some (sha256 (take n buf)))"

section \<open>The Host line of an HTTP/1 head\<close>

function h1_host_loop :: "bytes \<Rightarrow> bool \<Rightarrow> bytes option \<Rightarrow> nat \<Rightarrow> route_key_error + bytes option" where
  "h1_host_loop head first_line found cursor =
     (if cursor < length head then
        let line_start = cursor;
            nl = line_start + length (takeWhile (\<lambda>b. b \<noteq> 10) (drop line_start head));
            line_end = (if line_start < nl \<and> head ! (nl - 1) = 13 then nl - 1 else nl);
            cursor = nl + 1
        in
          if first_line then h1_host_loop head False found cursor
          else if line_end = line_start then Inr found
          else
            let line = bslice line_start line_end head;
                colon = length (takeWhile (\<lambda>b. b \<noteq> 58) line)
            in
              if colon = length line \<or> \<not> eq_ignore_ascii_case (take colon line) (ascii ''host'') then
                h1_host_loop head False found cursor
              else
                let val = trim_ows (drop (colon + 1) line) in
                if found \<noteq> None then Inl Ambiguous
                else h1_host_loop head False (Some val) cursor
      else Inr found)"
  by pat_completeness auto
termination
  by (relation "measure (\<lambda>(head, first_line, found, cursor). length head - cursor)") auto

declare h1_host_loop.simps [simp del]

definition h1_host :: "bytes \<Rightarrow> route_key_error + bytes option" where
  "h1_host head = h1_host_loop head True None 0"

section \<open>The path specification\<close>

text \<open>Percent-encoding normalisation over lists.\<close>

fun pct_norm :: "bytes \<Rightarrow> route_key_error + bytes" where
  "pct_norm [] = Inr []"
| "pct_norm (b # bs) =
     (if b = 37 then
        (case bs of h # l # rest \<Rightarrow>
           (case (hex_val h, hex_val l) of
              (Some x, Some y) \<Rightarrow>
                (case pct_norm rest of Inl e \<Rightarrow> Inl e
                 | Inr t \<Rightarrow> Inr ((let v = push_bit 4 x OR y in
                     if unreserved v then [v] else [37, to_ascii_uppercase h, to_ascii_uppercase l]) @ t))
            | _ \<Rightarrow> Inl BadPath)
         | _ \<Rightarrow> Inl BadPath)
      else if 0x80 \<le> b then Inl NonAscii
      else if pchar_ok b then (case pct_norm bs of Inl e \<Rightarrow> Inl e | Inr t \<Rightarrow> Inr (b # t))
      else Inl BadPath)"

text \<open>A path as its segments, and dot-segment removal with the output as a stack.\<close>

definition path_of :: "bytes list \<Rightarrow> bytes" where
  "path_of ss = concat (map (\<lambda>s. 47 # s) ss)"

function segs_of :: "bytes \<Rightarrow> bytes list" where
  "segs_of [] = []"
| "segs_of (b # bs) = takeWhile (\<lambda>x. x \<noteq> 47) bs # segs_of (dropWhile (\<lambda>x. x \<noteq> 47) bs)"
  by pat_completeness auto
termination
  by (relation "measure length") (auto simp: le_imp_less_Suc length_dropWhile_le)

fun rds :: "bytes list \<Rightarrow> bytes list \<Rightarrow> bytes list" where
  "rds st [] = st"
| "rds st (s # ss) =
     (if s = [46] then (if ss = [] then [] # st else rds st ss)
      else if s = [46, 46] then (if ss = [] then [] # tl st else rds (tl st) ss)
      else rds (s # st) ss)"

definition norm_path_spec :: "bytes \<Rightarrow> route_key_error + bytes" where
  "norm_path_spec src =
     (if 2048 < length src then Inl Oversize
      else if src = [] then Inr [47]
      else case pct_norm src of Inl e \<Rightarrow> Inl e | Inr p \<Rightarrow> Inr (path_of (rev (rds [] (segs_of p)))))"

lemma path_of_simps [simp]: "path_of [] = []" "path_of (s # ss) = 47 # s @ path_of ss"
  "path_of (ss @ ts) = path_of ss @ path_of ts"
  by (simp_all add: path_of_def)

lemma path_of_segs: "p = [] \<or> hd p = 47 \<Longrightarrow> path_of (segs_of p) = p"
proof (induction p rule: segs_of.induct)
  case (2 b bs)
  have "dropWhile (\<lambda>x. x \<noteq> 47) bs = [] \<or> hd (dropWhile (\<lambda>x. x \<noteq> 47) bs) = 47"
    using hd_dropWhile [of "\<lambda>x. x \<noteq> 47" bs] by auto
  with 2 show ?case by simp
qed simp

lemma segs_no_slash: "s \<in> set (segs_of p) \<Longrightarrow> 47 \<notin> set s"
  by (induction p rule: segs_of.induct) (auto dest: set_takeWhileD)

lemma segs_of_path: "(\<And>s. s \<in> set ss \<Longrightarrow> 47 \<notin> set s) \<Longrightarrow> segs_of (path_of ss) = ss"
proof (induction ss)
  case (Cons s ss)
  have s: "\<forall>x\<in>set s. x \<noteq> 47" using Cons.prems [of s] by auto
  have n: "path_of ss = [] \<or> (\<exists>r. path_of ss = 47 # r)" by (cases ss) auto
  then have "takeWhile (\<lambda>x. x \<noteq> 47) (s @ path_of ss) = s" "dropWhile (\<lambda>x. x \<noteq> 47) (s @ path_of ss) = path_of ss"
    using s by (auto simp: takeWhile_append dropWhile_append)
  with Cons show ?case by simp
qed simp

section \<open>The in-place loops meet it\<close>

definition np_spec :: "bytes \<Rightarrow> nat \<Rightarrow> nat \<Rightarrow> bytes \<Rightarrow> bool" where
  "np_spec src i w dst \<longleftrightarrow>
     (case pct_norm (drop i src) of
        Inl e \<Rightarrow> fst (norm_path_loop src i w dst) = Inl e
      | Inr p \<Rightarrow> \<exists>dst'. norm_path_loop src i w dst = (Inr (w + length p), dst') \<and> length dst' = length dst \<and>
          take (w + length p) dst' = take w dst @ p \<and> w + length p \<le> length src)"

text \<open>One turn of the loop: it moves to \<open>j\<close> having written \<open>q\<close>.\<close>

lemma np_step:
  assumes "norm_path_loop src i w dst = norm_path_loop src j (w + length q) (blit w q dst)"
    and "pct_norm (drop i src) = (case pct_norm (drop j src) of Inl e \<Rightarrow> Inl e | Inr t \<Rightarrow> Inr (q @ t))"
    and "np_spec src j (w + length q) (blit w q dst)" and "w + length q \<le> length dst"
  shows "np_spec src i w dst"
  using assms take_blit_end [OF assms(4)]
  by (auto simp: np_spec_def add.assoc split: sum.splits)

lemma blit_1: "w < length dst \<Longrightarrow> dst[w := a] = blit w [a] dst"
  by (simp add: blit_def upd_conv_take_nth_drop)

lemma blit_3: "w + 2 < length dst \<Longrightarrow> dst[w := a, w + 1 := b, w + 2 := c] = blit w [a, b, c] dst"
  using blit_blit_append [of w "[a]" "[b]" dst] blit_blit_append [of w "[a, b]" "[c]" dst]
  by (simp add: blit_1)

lemma norm_path_loop_spec:
  "w \<le> i \<Longrightarrow> i \<le> length src \<Longrightarrow> length src \<le> length dst \<Longrightarrow> np_spec src i w dst"
proof (induction src i w dst rule: norm_path_loop.induct)
  case (1 src i w dst)
  show ?case
  proof (cases "i < length src")
    case False
    then show ?thesis using 1(4-6) by (simp add: np_spec_def norm_path_loop.simps)
  next
    case True
    note IH = 1(1-3) [OF True refl] and u = norm_path_loop.simps [of src i w dst]
    have d: "drop i src = src ! i # drop (i + 1) src" using True by (simp add: Cons_nth_drop_Suc)
    have w: "w < length dst" using 1(4-6) True by simp
    show ?thesis
    proof (cases "src ! i = 37")
      case False
      show ?thesis
      proof (cases "0x80 \<le> src ! i \<or> \<not> pchar_ok (src ! i)")
        case True
        then show ?thesis using False \<open>i < length src\<close> unfolding np_spec_def d u by (auto simp: Let_def)
      next
        case ok: False
        have "np_spec src (i + 1) (w + 1) (dst[w := src ! i])" using IH(3) False ok 1(4-6) True by simp
        then have n: "np_spec src (i + 1) (w + length [src ! i]) (blit w [src ! i] dst)" using blit_1 [OF w] by simp
        have l: "norm_path_loop src i w dst = norm_path_loop src (i + 1) (w + length [src ! i]) (blit w [src ! i] dst)"
          unfolding u using False ok True blit_1 [OF w] by (simp add: Let_def)
        have "pct_norm (drop i src) = (case pct_norm (drop (i + 1) src) of Inl e \<Rightarrow> Inl e | Inr t \<Rightarrow> Inr ([src ! i] @ t))"
          unfolding d using False ok by (simp split: sum.splits)
        from np_step [OF l this n] w show ?thesis by simp
      qed
    next
      case pc: True
      show ?thesis
      proof (cases "length src \<le> i + 2")
        case True
        then have "drop (i + 1) src = [] \<or> (\<exists>x. drop (i + 1) src = [x])"
          by (cases "drop (i + 1) src" rule: remdups_adj.cases) (auto dest: arg_cong [of _ _ length])
        then show ?thesis using pc True \<open>i < length src\<close> unfolding np_spec_def d u by auto
      next
        case long: False
        then have d3: "drop i src = 37 # src ! (i + 1) # src ! (i + 2) # drop (i + 3) src"
          using pc d by (simp add: Cons_nth_drop_Suc numeral_3_eq_3)
        show ?thesis
        proof (cases "hex_val (src ! (i + 1)) = None \<or> hex_val (src ! (i + 2)) = None")
          case True
          then show ?thesis
            using pc long \<open>i < length src\<close> unfolding np_spec_def d3 u by (auto split: option.splits)
        next
          case False
          then obtain x y where xy: "hex_val (src ! (i + 1)) = Some x" "hex_val (src ! (i + 2)) = Some y" by auto
          let ?v = "push_bit 4 x OR y"
          let ?q = "if unreserved ?v then [?v] else [37, to_ascii_uppercase (src ! (i + 1)), to_ascii_uppercase (src ! (i + 2))]"
          have room: "w + 2 < length dst" using long 1(4-6) by simp
          have n: "np_spec src (i + 3) (w + length ?q) (blit w ?q dst)"
          proof (cases "unreserved ?v")
            case True
            then show ?thesis
              using IH(1) [OF pc long refl xy refl] long 1(4-6) blit_1 [OF w, of ?v] by simp
          next
            case False
            then show ?thesis
              using IH(2) [OF pc long refl xy refl] long 1(4-6) unfolding blit_3 [OF room]
              by (simp add: numeral_3_eq_3)
          qed
          have l: "norm_path_loop src i w dst = norm_path_loop src (i + 3) (w + length ?q) (blit w ?q dst)"
            unfolding u using pc long True xy blit_1 [OF w, of ?v] blit_3 [OF room] by (auto simp: Let_def numeral_3_eq_3)
          have "pct_norm (drop i src) = (case pct_norm (drop (i + 3) src) of Inl e \<Rightarrow> Inl e | Inr t \<Rightarrow> Inr (?q @ t))"
            unfolding d3 using xy by (auto simp: Let_def split: sum.splits)
          from np_step [OF l this n] room show ?thesis by simp
        qed
      qed
    qed
  qed
qed

text \<open>Dot segments. The buffer holds the output stack below \<open>w\<close> and the unread segments from \<open>r\<close> to \<open>n\<close>.\<close>

definition rds_inv :: "bytes \<Rightarrow> nat \<Rightarrow> nat \<Rightarrow> nat \<Rightarrow> bytes list \<Rightarrow> bytes list \<Rightarrow> bool" where
  "rds_inv buf n r w st ss \<longleftrightarrow> w \<le> r \<and> r \<le> n \<and> n \<le> length buf \<and> take w buf = path_of (rev st) \<and>
     bslice r n buf = path_of ss \<and> (\<forall>s\<in>set (st @ ss). 47 \<notin> set s)"

lemma tl_no_slash: "\<forall>s\<in>set st. 47 \<notin> set s \<Longrightarrow> s \<in> set (tl st) \<Longrightarrow> 47 \<notin> set s"
  by (cases st) auto

lemma rds_inv_w: "rds_inv buf n r w st ss \<Longrightarrow> w = length (path_of (rev st))"
  by (metis rds_inv_def length_take min_absorb2 order_trans)

lemma pop_segment_app: "take w buf = x @ 47 # s \<Longrightarrow> 47 \<notin> set s \<Longrightarrow> w \<le> length buf \<Longrightarrow> pop_segment buf w = length x"
proof (induction w arbitrary: s)
  case (Suc w)
  have last: "take w buf @ [buf ! w] = x @ 47 # s" using Suc.prems by (simp add: take_Suc_conv_app_nth)
  show ?case
  proof (cases s rule: rev_exhaust)
    case Nil
    then show ?thesis using last Suc.prems(3) by (auto dest: arg_cong [of _ _ length])
  next
    case (snoc t c)
    then have "take w buf = x @ 47 # t" "buf ! w = c" using last by auto
    then show ?thesis using Suc.IH [of t] Suc.prems snoc by auto
  qed
qed simp

lemma rds_pop:
  assumes "rds_inv buf n r w st ss" and "take w buf' = take w buf" and "length buf' = length buf"
  shows "pop_segment buf' w = length (path_of (rev (tl st)))" and "take (pop_segment buf' w) buf' = path_of (rev (tl st))"
proof -
  have w: "w \<le> length buf'" and tk: "take w buf' = path_of (rev st)" using assms by (auto simp: rds_inv_def)
  show l: "pop_segment buf' w = length (path_of (rev (tl st)))"
  proof (cases st)
    case Nil
    then show ?thesis using rds_inv_w [OF assms(1)] by simp
  next
    case (Cons s st')
    then show ?thesis using pop_segment_app [of w buf' "path_of (rev st')" s] tk w assms(1) by (auto simp: rds_inv_def)
  qed
  have "path_of (rev st) = path_of (rev (tl st)) @ (if st = [] then [] else path_of [hd st])" by (cases st) auto
  then have "take (length (path_of (rev (tl st)))) (take w buf') = path_of (rev (tl st))" using tk by simp
  moreover have "length (path_of (rev (tl st))) \<le> w"
    using rds_inv_w [OF assms(1)] by (cases st) auto
  ultimately show "take (pop_segment buf' w) buf' = path_of (rev (tl st))" unfolding l by (simp add: min_absorb1)
qed

text \<open>Which branch the loop takes is decided by the next segment alone.\<close>

lemma path_head:
  assumes "47 \<notin> set s" and "rest = path_of (s # ss)"
  shows "\<not> starts_with rest [46, 46, 47]" "\<not> starts_with rest [46, 47]" "rest \<noteq> [46]" "rest \<noteq> [46, 46]"
    "starts_with rest [47, 46, 47] \<longleftrightarrow> s = [46] \<and> ss \<noteq> []" "rest = [47, 46] \<longleftrightarrow> s = [46] \<and> ss = []"
    "starts_with rest [47, 46, 46, 47] \<longleftrightarrow> s = [46, 46] \<and> ss \<noteq> []" "rest = [47, 46, 46] \<longleftrightarrow> s = [46, 46] \<and> ss = []"
proof -
  obtain t where t: "rest = 47 # s @ t" "t = [] \<longleftrightarrow> ss = []" "t \<noteq> [] \<Longrightarrow> \<exists>u. t = 47 # u"
    using assms(2) by (cases ss) auto
  consider "s = []" | a where "s = [a]" | a b where "s = [a, b]" | a b c u where "s = a # b # c # u"
    by (metis list.exhaust)
  note cs = this
  show "\<not> starts_with rest [46, 46, 47]" "\<not> starts_with rest [46, 47]" "rest \<noteq> [46]" "rest \<noteq> [46, 46]"
    using t(1) by (auto simp: starts_with_def)
  show "starts_with rest [47, 46, 47] \<longleftrightarrow> s = [46] \<and> ss \<noteq> []" "rest = [47, 46] \<longleftrightarrow> s = [46] \<and> ss = []"
    "starts_with rest [47, 46, 46, 47] \<longleftrightarrow> s = [46, 46] \<and> ss \<noteq> []" "rest = [47, 46, 46] \<longleftrightarrow> s = [46, 46] \<and> ss = []"
    using t assms(1) by (cases rule: cs; cases t; force simp: starts_with_def)+
qed

lemma segment_end_inv:
  assumes "rds_inv buf n r w st (s # ss)"
  shows "segment_end buf n r = r + 1 + length s" and "bslice r (r + 1 + length s) buf = 47 # s"
    and "bslice (r + 1 + length s) n buf = path_of ss" and "r + 1 + length s \<le> n"
proof -
  have b: "bslice r n buf = 47 # s @ path_of ss" and le: "r \<le> n" "n \<le> length buf" and ns: "47 \<notin> set s"
    using assms by (auto simp: rds_inv_def)
  have "length (bslice r n buf) = n - r" using le by simp
  then have len: "1 + length s + length (path_of ss) = n - r" unfolding b by simp
  then show e: "r + 1 + length s \<le> n" by simp
  have hd: "buf ! r = 47"
  proof -
    have "bslice r n buf ! 0 = buf ! r" using len le by (simp add: bslice_def)
    then show ?thesis using b by simp
  qed
  have d: "bslice (r + k) n buf = drop k (bslice r n buf)" for k by (simp add: bslice_def drop_take add.commute)
  have "bslice (r + 1) n buf = s @ path_of ss" using d [of 1] b by simp
  moreover have "takeWhile (\<lambda>x. x \<noteq> 47) (s @ path_of ss) = s"
    using ns by (cases ss) (auto simp: takeWhile_append)
  ultimately show "segment_end buf n r = r + 1 + length s" using hd by (simp add: segment_end_def)
  have "bslice r (r + 1 + length s) buf = take (1 + length s) (bslice r n buf)"
    using e by (simp add: bslice_def min_absorb1)
  then show "bslice r (r + 1 + length s) buf = 47 # s" using b by simp
  show "bslice (r + 1 + length s) n buf = path_of ss" using d [of "1 + length s"] b by (simp add: add.assoc)
qed

lemma rds_inv_push:
  assumes i: "rds_inv buf n r w st (s # ss)"
  defines "e \<equiv> r + 1 + length s"
  shows "rds_inv (blit w (bslice r e buf) buf) n e (w + (e - r)) (s # st) ss"
proof -
  note se = segment_end_inv [OF i, folded e_def]
  have le: "w \<le> r" "r \<le> n" "n \<le> length buf" "take w buf = path_of (rev st)" using i by (auto simp: rds_inv_def)
  have fit: "w + length (47 # s) \<le> length buf" using le se(4) by (simp add: e_def)
  have "take (w + (e - r)) (blit w (47 # s) buf) = path_of (rev (s # st))"
    using take_blit_end [OF fit] le by (simp add: e_def)
  moreover have "bslice e n (blit w (47 # s) buf) = path_of ss"
    using drop_blit_above [OF fit, of e] se(3) le by (simp add: bslice_def e_def)
  ultimately show ?thesis
    unfolding se(2) using i se(4) le fit by (auto simp: rds_inv_def e_def)
qed

lemma rds_loop_normal:
  assumes i: "rds_inv buf n r w st (s # ss)" and s: "s \<noteq> [46]" "s \<noteq> [46, 46]"
  shows "\<exists>buf' r' w'. remove_dot_segments_loop buf n r w = remove_dot_segments_loop buf' n r' w' \<and>
    length buf' = length buf \<and> rds_inv buf' n r' w' (s # st) ss"
proof -
  have b: "bslice r n buf = path_of (s # ss)" "47 \<notin> set s" "r < n" "n \<le> length buf" "w \<le> r"
    using i segment_end_inv(4) [OF i] by (auto simp: rds_inv_def)
  let ?e = "r + 1 + length s"
  have "remove_dot_segments_loop buf n r w = remove_dot_segments_loop (blit w (bslice r ?e buf) buf) n ?e (w + (?e - r))"
    using b path_head [OF b(2,1)] s
    by (subst remove_dot_segments_loop.simps) (simp only: Let_def segment_end_inv(1) [OF i] simp_thms if_True if_False)
  moreover have "length (blit w (bslice r ?e buf) buf) = length buf"
    using segment_end_inv(2,4) [OF i] b by simp
  ultimately show ?thesis using rds_inv_push [OF i] by blast
qed

lemma rds_loop_spec:
  "rds_inv buf n r w st ss \<Longrightarrow>
   \<exists>w' buf'. remove_dot_segments_loop buf n r w = (w', buf') \<and> length buf' = length buf \<and> w' \<le> n \<and>
     take w' buf' = path_of (rev (rds st ss))"
proof (induction ss arbitrary: buf r w st)
  case Nil
  then have "r = n" using length_slice [of n buf r] by (auto simp: rds_inv_def)
  then have "remove_dot_segments_loop buf n r w = (w, buf)" by (simp add: remove_dot_segments_loop.simps)
  with Nil \<open>r = n\<close> show ?case by (simp add: rds_inv_def)
next
  case (Cons s ss)
  note i = Cons.prems
  have b: "bslice r n buf = path_of (s # ss)" "47 \<notin> set s" "r < n" "n \<le> length buf" "w \<le> r"
    using i segment_end_inv(4) [OF i] by (auto simp: rds_inv_def)
  note ph = path_head [OF b(2,1)] and se = segment_end_inv [OF i]
  have dl: "bslice (r + k) n x = drop k (bslice r n x)" for k and x :: bytes by (simp add: bslice_def drop_take add.commute)
  consider (dot) "s = [46]" "ss \<noteq> []" | (dotend) "s = [46]" "ss = []" | (dd) "s = [46, 46]" "ss \<noteq> []"
    | (ddend) "s = [46, 46]" "ss = []" | (norm) "s \<noteq> [46]" "s \<noteq> [46, 46]" by blast
  then show ?case
  proof cases
    case norm
    from rds_loop_normal [OF i norm] obtain buf' r' w' where
      "remove_dot_segments_loop buf n r w = remove_dot_segments_loop buf' n r' w'" "length buf' = length buf"
      "rds_inv buf' n r' w' (s # st) ss" by blast
    with Cons.IH [of buf' r' w' "s # st"] norm show ?thesis by auto
  next
    case dot
    then have "rds_inv buf n (r + 2) w st ss" using i se by (auto simp: rds_inv_def)
    moreover have "remove_dot_segments_loop buf n r w = remove_dot_segments_loop buf n (r + 2) w"
      using b ph dot by (subst remove_dot_segments_loop.simps) simp
    ultimately show ?thesis using Cons.IH dot by simp
  next
    case dd
    let ?w = "pop_segment buf w"
    note pop = rds_pop [OF i refl refl]
    have "?w \<le> w" using pop(1) rds_inv_w [OF i] by (cases st) auto
    then have "rds_inv buf n (r + 3) ?w (tl st) ss"
      using dd i se pop by (auto simp: rds_inv_def numeral_3_eq_3 dest: tl_no_slash [rotated])
    moreover have "remove_dot_segments_loop buf n r w = remove_dot_segments_loop buf n (r + 3) ?w"
      using b ph dd by (subst remove_dot_segments_loop.simps) simp
    ultimately show ?thesis using Cons.IH dd by simp
  next
    case dotend
    let ?buf = "buf[r + 1 := 47]"
    have n: "n = r + 2" using dotend b(1,3,4) length_slice [of n buf r] by simp
    have "bslice (r + 1) n ?buf = [47]" using n b(4) by (simp add: bslice_def drop_update_swap hd_drop_conv_nth take_Suc_conv_app_nth Cons_nth_drop_Suc [symmetric])
    then have "rds_inv ?buf n (r + 1) w st [[]]" using i n by (auto simp: rds_inv_def)
    from rds_loop_normal [OF this] obtain buf' r' w' where
      l: "remove_dot_segments_loop ?buf n (r + 1) w = remove_dot_segments_loop buf' n r' w'" "length buf' = length buf"
      "rds_inv buf' n r' w' ([] # st) []" by auto
    moreover have "remove_dot_segments_loop buf n r w = remove_dot_segments_loop ?buf n (r + 1) w"
      using b ph dotend by (subst remove_dot_segments_loop.simps) simp
    ultimately show ?thesis using Cons.IH [of buf' r' w' "[] # st"] dotend by auto
  next
    case ddend
    let ?buf = "buf[r + 2 := 47]"
    let ?w = "pop_segment ?buf w"
    have n: "n = r + 3" using ddend b(1,3,4) length_slice [of n buf r] by simp
    have tk: "take w ?buf = take w buf" using b by simp
    note pop = rds_pop [OF i tk]
    have "?w \<le> w" using pop(1) rds_inv_w [OF i] by (cases st) auto
    moreover have "bslice (r + 2) n ?buf = [47]" using n b(4) by (simp add: bslice_def drop_update_swap Cons_nth_drop_Suc [symmetric])
    ultimately have "rds_inv ?buf n (r + 2) ?w (tl st) [[]]"
      using i n pop by (auto simp: rds_inv_def dest: tl_no_slash [rotated])
    from rds_loop_normal [OF this] obtain buf' r' w' where
      l: "remove_dot_segments_loop ?buf n (r + 2) ?w = remove_dot_segments_loop buf' n r' w'" "length buf' = length buf"
      "rds_inv buf' n r' w' ([] # tl st) []" by auto
    moreover have "remove_dot_segments_loop buf n r w = remove_dot_segments_loop ?buf n (r + 2) ?w"
      using b ph ddend by (subst remove_dot_segments_loop.simps) simp
    ultimately show ?thesis using Cons.IH [of buf' r' w' "[] # tl st"] ddend by auto
  qed
qed

lemma rds_nonempty: "ss \<noteq> [] \<Longrightarrow> rds st ss \<noteq> []"
proof (induction st ss rule: rds.induct)
  case (2 st s ss)
  then show ?case by (cases "ss = []") auto
qed simp

lemma pct_norm_hd: "pct_norm (47 # s) = Inr p \<Longrightarrow> \<exists>t. p = 47 # t"
  by (auto split: sum.splits if_splits)

lemma norm_path_meets_spec:
  assumes "length dst = 2048" and "src = [] \<or> hd src = 47"
  shows "case norm_path_spec src of
      Inl e \<Rightarrow> fst (norm_path src dst) = Inl e
    | Inr p \<Rightarrow> \<exists>dst'. norm_path src dst = (Inr (length p), dst') \<and> length dst' = 2048 \<and> take (length p) dst' = p \<and>
        length p \<le> 2048"
proof (cases "2048 < length src \<or> src = []")
  case True
  then show ?thesis using assms(1) by (auto simp: norm_path_spec_def norm_path_def take_Suc_conv_app_nth)
next
  case False
  then obtain s where src: "src = 47 # s" using assms(2) by (cases src) auto
  have np: "np_spec src 0 0 dst" using norm_path_loop_spec [of 0 0 src dst] False assms(1) by simp
  show ?thesis
  proof (cases "pct_norm src")
    case (Inl e)
    then show ?thesis using np False by (auto simp: np_spec_def norm_path_spec_def norm_path_def split: prod.splits)
  next
    case (Inr p)
    then obtain t where t: "p = 47 # t" using pct_norm_hd src by blast
    obtain dst1 where l: "norm_path_loop src 0 0 dst = (Inr (length p), dst1)" "length dst1 = 2048" "take (length p) dst1 = p"
      "length p \<le> length src" using np Inr assms(1) by (auto simp: np_spec_def)
    have pl: "length p \<le> 2048" using l(4) False by simp
    have "bslice 0 (length p) dst1 = path_of (segs_of p)" using l(3) path_of_segs [of p] t by (simp add: bslice_def)
    then have "rds_inv dst1 (length p) 0 0 [] (segs_of p)"
      using l(2) pl segs_no_slash [of _ p] by (auto simp: rds_inv_def)
    from rds_loop_spec [OF this] obtain n dst2 where
      r: "remove_dot_segments dst1 (length p) = (n, dst2)" "length dst2 = 2048" "n \<le> length p"
        "take n dst2 = path_of (rev (rds [] (segs_of p)))" using l(2) by (auto simp: remove_dot_segments_def)
    let ?q = "path_of (rev (rds [] (segs_of p)))"
    have n: "n = length ?q" using r(2-4) pl by (metis length_take min_absorb2 order_trans)
    have "rds [] (segs_of p) \<noteq> []" using rds_nonempty t by simp
    then have "n \<noteq> 0" unfolding n by (cases "rev (rds [] (segs_of p))") auto
    then have "norm_path src dst = (Inr n, dst2)" using False l(1) r(1) by (simp add: norm_path_def)
    moreover have "norm_path_spec src = Inr ?q" using False Inr by (simp add: norm_path_spec_def)
    ultimately show ?thesis using r pl n by simp
  qed
qed

section \<open>Canonical paths are fixed points\<close>

inductive pct_canon :: "bytes \<Rightarrow> bool" where
  pct_nil: "pct_canon []"
| pct_char: "pchar_ok b \<Longrightarrow> pct_canon bs \<Longrightarrow> pct_canon (b # bs)"
| pct_esc: "hex_val h = Some x \<Longrightarrow> hex_val l = Some y \<Longrightarrow> to_ascii_uppercase h = h \<Longrightarrow> to_ascii_uppercase l = l \<Longrightarrow>
    \<not> unreserved (push_bit 4 x OR y) \<Longrightarrow> pct_canon bs \<Longrightarrow> pct_canon (37 # h # l # bs)"

inductive_cases pct_canon_ConsE: "pct_canon (b # bs)"

lemma pchar_facts: "\<not> pchar_ok 37" "pchar_ok 47" "pchar_ok b \<Longrightarrow> \<not> 0x80 \<le> b"
  by (auto simp: pchar_ok_def unreserved_def is_ascii_alphanumeric_def is_ascii_alphabetic_def is_ascii_upper_def
      is_ascii_lower_def is_ascii_digit_def word_le_nat_alt)

lemma unreserved_pchar: "unreserved b \<Longrightarrow> pchar_ok b"
  by (simp add: pchar_ok_def)

lemma hex_val_upper: "hex_val (to_ascii_uppercase h) = hex_val h" "to_ascii_uppercase (to_ascii_uppercase h) = to_ascii_uppercase h"
proof -
  have "hex_val (to_ascii_uppercase h) = hex_val h \<and> to_ascii_uppercase (to_ascii_uppercase h) = to_ascii_uppercase h"
  proof (cases "97 \<le> h \<and> h \<le> 122")
    case True
    then have "32 \<le> h" by (simp add: word_le_nat_alt)
    then have "unat (h - 32) = unat h - 32" by (simp add: unat_sub)
    with True show ?thesis
      by (auto simp: hex_val_def to_ascii_uppercase_def is_ascii_lower_def word_le_nat_alt)
  qed (auto simp: to_ascii_uppercase_def is_ascii_lower_def)
  then show "hex_val (to_ascii_uppercase h) = hex_val h" "to_ascii_uppercase (to_ascii_uppercase h) = to_ascii_uppercase h"
    by simp_all
qed

lemma pct_canon_fixed: "pct_canon p \<Longrightarrow> pct_norm p = Inr p"
proof (induction rule: pct_canon.induct)
  case (pct_char b bs)
  then show ?case using pchar_facts by (cases "b = 37") auto
qed (simp_all add: Let_def)

lemma pct_norm_canon: "pct_norm s = Inr p \<Longrightarrow> pct_canon p"
proof (induction s arbitrary: p rule: pct_norm.induct)
  case (2 b bs)
  show ?case
  proof (cases "b = 37")
    case False
    then show ?thesis using 2 by (auto split: sum.splits if_splits intro: pct_canon.intros)
  next
    case True
    then obtain h l rest x y t where bs: "bs = h # l # rest" "hex_val h = Some x" "hex_val l = Some y" "pct_norm rest = Inr t"
      using "2.prems" by (auto split: list.splits option.splits sum.splits)
    let ?v = "push_bit 4 x OR y"
    have t: "pct_canon t" using "2.IH"(1) [OF True bs(1) refl refl] bs by simp
    have "p = (if unreserved ?v then [?v] else [37, to_ascii_uppercase h, to_ascii_uppercase l]) @ t"
      using "2.prems" True bs by (simp add: Let_def)
    then show ?thesis
      using t bs pct_esc [of "to_ascii_uppercase h" x "to_ascii_uppercase l" y t] pct_char [of ?v t]
      by (cases "unreserved ?v") (simp_all add: unreserved_pchar hex_val_upper)
  qed
qed (auto intro: pct_canon.intros)

lemma pct_canon_append: "pct_canon a \<Longrightarrow> pct_canon b \<Longrightarrow> pct_canon (a @ b)"
  by (induction rule: pct_canon.induct) (auto intro: pct_canon.intros)

lemma hex_not_slash: "hex_val h = Some x \<Longrightarrow> h \<noteq> 47"
  by (auto simp: hex_val_def word_le_nat_alt)

lemma pct_canon_split: "pct_canon p \<Longrightarrow> p = a @ 47 # b \<Longrightarrow> pct_canon a \<and> pct_canon b"
proof (induction arbitrary: a rule: pct_canon.induct)
  case (pct_char c bs)
  then show ?case by (cases a) (auto intro: pct_canon.intros)
next
  case (pct_esc h x l y bs)
  from pct_esc.prems hex_not_slash [OF pct_esc.hyps(1)] hex_not_slash [OF pct_esc.hyps(2)]
  obtain a' where a: "a = 37 # h # l # a'" "bs = a' @ 47 # b"
    by (cases a; cases "tl a"; cases "tl (tl a)") auto
  then show ?case using pct_esc.IH [of a'] pct_esc.hyps by (auto intro: pct_canon.pct_esc)
qed simp

lemma pct_canon_segs: "pct_canon (path_of ss) \<longleftrightarrow> (\<forall>s\<in>set ss. pct_canon s)"
proof (induction ss)
  case (Cons s ss)
  show ?case
  proof
    assume a: "pct_canon (path_of (s # ss))"
    then have c: "pct_canon (s @ path_of ss)" using pct_canon_split [of "path_of (s # ss)" "[]"] by simp
    have "pct_canon s \<and> pct_canon (path_of ss)"
    proof (cases ss)
      case Nil
      then show ?thesis using c by (auto intro: pct_canon.intros)
    next
      case (Cons u us)
      then have "pct_canon s \<and> pct_canon (u @ path_of us)" using c pct_canon_split [of _ s] by simp
      then show ?thesis using Cons by (auto intro: pct_canon.intros pchar_facts)
    qed
    then show "\<forall>s\<in>set (s # ss). pct_canon s" using Cons by simp
  next
    assume "\<forall>s\<in>set (s # ss). pct_canon s"
    then show "pct_canon (path_of (s # ss))"
      using Cons by (auto intro: pct_canon.intros pct_canon_append pchar_facts)
  qed
qed (simp add: pct_canon.intros)

lemma rds_members: "s \<in> set (rds st ss) \<Longrightarrow> s = [] \<or> s \<in> set st \<or> (s \<in> set ss \<and> s \<noteq> [46] \<and> s \<noteq> [46, 46])"
proof (induction st ss rule: rds.induct)
  case (2 st t ss)
  show ?case
    using 2 by (cases st) (auto split: if_splits)
qed simp

lemma rds_fixed: "(\<And>s. s \<in> set ss \<Longrightarrow> s \<noteq> [46] \<and> s \<noteq> [46, 46]) \<Longrightarrow> rds st ss = rev ss @ st"
  by (induction ss arbitrary: st) auto

lemma norm_path_spec_canonical:
  assumes "norm_path_spec src = Inr p" and "src = [] \<or> hd src = 47"
  shows "\<exists>ss. ss \<noteq> [] \<and> p = path_of ss \<and> (\<forall>s\<in>set ss. s \<noteq> [46] \<and> s \<noteq> [46, 46] \<and> 47 \<notin> set s \<and> pct_canon s)"
proof (cases "src = []")
  case True
  then show ?thesis using assms by (intro exI [of _ "[[]]"]) (auto simp: norm_path_spec_def intro: pct_canon.intros)
next
  case False
  then obtain q where q: "pct_norm src = Inr q" "p = path_of (rev (rds [] (segs_of q)))"
    using assms(1) by (auto simp: norm_path_spec_def split: if_splits sum.splits)
  obtain t where t: "q = 47 # t" using False assms(2) q(1) pct_norm_hd [of "tl src" q] by (cases src) auto
  have "pct_canon (path_of (segs_of q))" using pct_norm_canon [OF q(1)] path_of_segs [of q] t by simp
  then have c: "\<forall>s\<in>set (segs_of q). pct_canon s" by (simp add: pct_canon_segs)
  have "rds [] (segs_of q) \<noteq> []" using t by (intro rds_nonempty) simp
  moreover have "s \<noteq> [46] \<and> s \<noteq> [46, 46] \<and> 47 \<notin> set s \<and> pct_canon s" if "s \<in> set (rds [] (segs_of q))" for s
    using rds_members [OF that] c segs_no_slash [of s q] by (auto intro: pct_canon.intros)
  ultimately show ?thesis using q(2) by (intro exI [of _ "rev (rds [] (segs_of q))"]) auto
qed

lemma norm_path_spec_fixed:
  assumes "ss \<noteq> []" and "length (path_of ss) \<le> 2048"
    and "\<forall>s\<in>set ss. s \<noteq> [46] \<and> s \<noteq> [46, 46] \<and> 47 \<notin> set s \<and> pct_canon s"
  shows "norm_path_spec (path_of ss) = Inr (path_of ss)"
proof -
  have "pct_norm (path_of ss) = Inr (path_of ss)" using assms(3) by (intro pct_canon_fixed) (simp add: pct_canon_segs)
  moreover have "segs_of (path_of ss) = ss" using assms(3) by (intro segs_of_path) auto
  moreover have "rds [] ss = rev ss" using assms(3) rds_fixed [of ss "[]"] by auto
  moreover have "path_of ss \<noteq> []" using assms(1) by (cases ss) auto
  ultimately show ?thesis using assms(2) by (simp add: norm_path_spec_def)
qed

section \<open>Canonical hosts\<close>

lemma lower_cases:
  "is_ascii_upper b \<Longrightarrow> is_ascii_lower (to_ascii_lowercase b) \<and> unat (to_ascii_lowercase b) = unat b + 32"
proof -
  assume u: "is_ascii_upper b"
  then have "unat b \<le> 90" "65 \<le> unat b" by (simp_all add: is_ascii_upper_def word_le_nat_alt)
  then have "unat (b + 32) = unat b + 32" by (simp add: unat_word_ariths)
  with u show ?thesis by (simp add: is_ascii_lower_def is_ascii_upper_def to_ascii_lowercase_def word_le_nat_alt)
qed

lemma lower_eq_iff: "\<not> is_ascii_lower c \<Longrightarrow> \<not> is_ascii_upper c \<Longrightarrow> to_ascii_lowercase b = c \<longleftrightarrow> b = c"
  using lower_cases [of b] by (auto simp: to_ascii_lowercase_def)

lemma lower_punct [simp]:
  "to_ascii_lowercase b = 46 \<longleftrightarrow> b = 46" "to_ascii_lowercase b = 58 \<longleftrightarrow> b = 58" "to_ascii_lowercase b = 91 \<longleftrightarrow> b = 91"
  "to_ascii_lowercase b = 93 \<longleftrightarrow> b = 93" "to_ascii_lowercase b = 37 \<longleftrightarrow> b = 37" "to_ascii_lowercase b = 64 \<longleftrightarrow> b = 64"
  by (simp_all add: lower_eq_iff is_ascii_lower_def is_ascii_upper_def word_le_nat_alt)

lemma lower_punct' [simp]: "to_ascii_lowercase 46 = 46" "to_ascii_lowercase 58 = 58" "to_ascii_lowercase 91 = 91" "to_ascii_lowercase 93 = 93"
  using lower_punct by blast+

lemma lower_lower [simp]: "to_ascii_lowercase (to_ascii_lowercase b) = to_ascii_lowercase b"
  using lower_cases [of b] by (cases "is_ascii_upper b")
    (auto simp: to_ascii_lowercase_def is_ascii_upper_def is_ascii_lower_def word_le_nat_alt)

lemma lower_high [simp]: "0x80 \<le> to_ascii_lowercase b \<longleftrightarrow> 0x80 \<le> b"
  using lower_cases [of b] by (cases "is_ascii_upper b")
    (auto simp: to_ascii_lowercase_def is_ascii_upper_def is_ascii_lower_def word_le_nat_alt)

lemma lower_class [simp]:
  "is_ascii_digit (to_ascii_lowercase b) \<longleftrightarrow> is_ascii_digit b"
  "is_ascii_hexdigit (to_ascii_lowercase b) \<longleftrightarrow> is_ascii_hexdigit b"
  "reg_char (to_ascii_lowercase b) \<longleftrightarrow> reg_char b"
proof -
  have "(is_ascii_digit (to_ascii_lowercase b) \<longleftrightarrow> is_ascii_digit b) \<and>
     (is_ascii_hexdigit (to_ascii_lowercase b) \<longleftrightarrow> is_ascii_hexdigit b) \<and> (reg_char (to_ascii_lowercase b) \<longleftrightarrow> reg_char b)"
  proof (cases "is_ascii_upper b")
    case True
    note l = lower_cases [OF True]
    let ?c = "to_ascii_lowercase b"
    have "65 \<le> unat b" "unat b \<le> 90" using True by (simp_all add: is_ascii_upper_def word_le_nat_alt)
    with l show ?thesis
      by (auto simp: reg_char_def is_ascii_hexdigit_def is_ascii_alphanumeric_def is_ascii_alphabetic_def True
          is_ascii_digit_def word_le_nat_alt)
  qed (simp add: to_ascii_lowercase_def)
  then show "is_ascii_digit (to_ascii_lowercase b) \<longleftrightarrow> is_ascii_digit b"
    "is_ascii_hexdigit (to_ascii_lowercase b) \<longleftrightarrow> is_ascii_hexdigit b" "reg_char (to_ascii_lowercase b) \<longleftrightarrow> reg_char b" by simp_all
qed

lemma lower_digit: "is_ascii_digit b \<Longrightarrow> to_ascii_lowercase b = b"
  by (auto simp: to_ascii_lowercase_def is_ascii_upper_def is_ascii_digit_def word_le_nat_alt)

abbreviation lower :: "bytes \<Rightarrow> bytes" where
  "lower s \<equiv> map to_ascii_lowercase s"

lemma lower_takeWhile: "\<not> is_ascii_lower c \<Longrightarrow> \<not> is_ascii_upper c \<Longrightarrow>
    takeWhile (\<lambda>b. b \<noteq> c) (lower s) = lower (takeWhile (\<lambda>b. b \<noteq> c) s)"
  by (simp add: takeWhile_map o_def lower_eq_iff)

lemma colon_class: "\<not> is_ascii_lower 58 \<and> \<not> is_ascii_upper 58" "\<not> is_ascii_lower 93 \<and> \<not> is_ascii_upper 93"
  by (simp_all add: is_ascii_lower_def is_ascii_upper_def word_le_nat_alt)

lemma ipv4_part_lower: "ipv4_part n v (lower s) = map_option (\<lambda>(m, w, t). (m, w, lower t)) (ipv4_part n v s)"
  by (induction n v s rule: ipv4_part.induct) (auto simp: lower_digit)

lemma ipv4_loop_lower: "ipv4_loop parts (lower s) = ipv4_loop parts s"
proof (induction parts s rule: ipv4_loop.induct)
  case (1 parts s)
  show ?case
  proof (cases "ipv4_part 0 0 s")
    case None
    then show ?thesis by (simp add: ipv4_loop.simps [of parts] ipv4_part_lower)
  next
    case (Some a)
    obtain n v t where a: "a = (n, v, t)" by (cases a) auto
    show ?thesis
    proof (cases "n = 0 \<or> 255 < v \<or> t = []")
      case True
      then show ?thesis using Some a by (subst (1 2) ipv4_loop.simps) (auto simp: ipv4_part_lower)
    next
      case False
      then have "ipv4_loop (parts + 1) (lower (tl t)) = ipv4_loop (parts + 1) (tl t)"
        using 1 [OF Some a [symmetric] refl] by auto
      then show ?thesis using Some a False by (subst (1 2) ipv4_loop.simps) (simp add: ipv4_part_lower map_tl)
    qed
  qed
qed

lemma ipv4_ok_lower: "ipv4_ok (lower s) = ipv4_ok s"
  by (simp add: ipv4_ok_def ipv4_loop_lower)

text \<open>The separators and the bytes of an accepted literal.\<close>

lemma ipv6_loop_unfold:
  "ipv6_loop groups compressed s =
     (let g = takeWhile (\<lambda>b. b \<noteq> 58) s; t = drop (length g) s; k = groups + (if 46 \<in> set g then 2 else 1) in
      g \<noteq> [] \<and> (if 46 \<in> set g then ipv4_ok g \<and> t = [] else length g \<le> 4 \<and> (\<forall>b\<in>set g. is_ascii_hexdigit b)) \<and> k \<le> 8 \<and>
      (if t = [] then (if compressed then k < 8 else k = 8)
       else tl t \<noteq> [] \<and> (if hd (tl t) = 58 then \<not> compressed \<and> (if tl (tl t) = [] then k < 8 else ipv6_loop k True (tl (tl t)))
             else ipv6_loop k compressed (tl t))))"
  by (subst ipv6_loop.simps) (auto simp: Let_def not_le not_less)

lemma ipv6_loop_lower: "ipv6_loop groups compressed (lower s) = ipv6_loop groups compressed s"
proof (induction "length s" arbitrary: groups compressed s rule: less_induct)
  case less
  let ?g = "takeWhile (\<lambda>b. b \<noteq> 58) s"
  let ?t = "drop (length ?g) s"
  have g: "takeWhile (\<lambda>b. b \<noteq> 58) (lower s) = lower ?g" using lower_takeWhile [of 58 s] colon_class by simp
  have t: "drop (length ?g) (lower s) = lower ?t" by (simp add: drop_map)
  have dot: "46 \<in> set (lower ?g) \<longleftrightarrow> 46 \<in> set ?g" by (auto simp: image_iff)
  have hd: "u \<noteq> [] \<Longrightarrow> hd (lower u) = 58 \<longleftrightarrow> hd u = 58" for u by (cases u) auto
  have r: "?t \<noteq> [] \<Longrightarrow> ipv6_loop k c (lower (tl ?t)) = ipv6_loop k c (tl ?t)"
    "tl ?t \<noteq> [] \<Longrightarrow> ipv6_loop k c (lower (tl (tl ?t))) = ipv6_loop k c (tl (tl ?t))" for k c
    by (rule less; cases ?t; auto dest!: arg_cong [of _ _ length])+
  show ?case
    apply (subst (1 2) ipv6_loop_unfold)
    unfolding Let_def g length_map t dot ipv4_ok_lower
    using r hd [of "tl ?t"] by (auto simp: map_tl [symmetric] ipv4_ok_lower)
qed

lemma ipv6_ok_lower: "ipv6_ok (lower s) = ipv6_ok s"
proof (cases "length s < 2")
  case False
  then have "lower s ! 0 = to_ascii_lowercase (s ! 0)" "lower s ! 1 = to_ascii_lowercase (s ! 1)"
    by (intro nth_map; linarith)+
  then show ?thesis
    using ipv6_loop_lower [of 0 True "drop 2 s"] ipv6_loop_lower [of 0 False s]
    unfolding ipv6_ok_def by (simp add: drop_map)
qed (simp add: ipv6_ok_def)

definition v6_char :: "byte \<Rightarrow> bool" where
  "v6_char b \<longleftrightarrow> b = 58 \<or> b = 46 \<or> is_ascii_hexdigit b"

lemma ipv4_part_chars: "ipv4_part n v s = Some (m, w, t) \<Longrightarrow> \<exists>u. s = u @ t \<and> (\<forall>b\<in>set u. is_ascii_digit b) \<and> (t = [] \<or> hd t = 46)"
proof (induction n v s rule: ipv4_part.induct)
  case (2 n v b bs)
  show ?case
  proof (cases "b = 46")
    case False
    then obtain u where "bs = u @ t" "\<forall>b\<in>set u. is_ascii_digit b" "t = [] \<or> hd t = 46"
      using 2 by (auto split: if_splits)
    then show ?thesis using 2 False by (intro exI [of _ "b # u"]) (auto split: if_splits)
  qed (use 2 in auto)
qed auto

lemma ipv4_loop_chars: "ipv4_loop parts s \<Longrightarrow> b \<in> set s \<Longrightarrow> is_ascii_digit b \<or> b = 46"
proof (induction parts s rule: ipv4_loop.induct)
  case (1 parts s)
  obtain n v t where p: "ipv4_part 0 0 s = Some (n, v, t)" "\<not> (n = 0 \<or> 255 < v)"
    using 1(2) by (subst (asm) ipv4_loop.simps) (auto split: option.splits if_splits)
  obtain u where u: "s = u @ t" "\<forall>b\<in>set u. is_ascii_digit b" "t = [] \<or> hd t = 46" using ipv4_part_chars [OF p(1)] by blast
  show ?case
  proof (cases "t = []")
    case False
    then have l: "ipv4_loop (parts + 1) (tl t)" using 1(2) p by (subst (asm) ipv4_loop.simps) auto
    have "set t = insert 46 (set (tl t))" using False u(3) by (cases t) auto
    then show ?thesis using 1(1) [OF p(1) refl refl p(2) False l] 1(3) u by auto
  qed (use 1(3) u in auto)
qed

lemma ipv6_loop_chars: "ipv6_loop k c s \<Longrightarrow> \<forall>b\<in>set s. v6_char b"
proof (induction "length s" arbitrary: k c s rule: less_induct)
  case less
  let ?g = "takeWhile (\<lambda>b. b \<noteq> 58) s"
  let ?t = "drop (length ?g) s"
  have s: "s = ?g @ ?t" by (simp flip: dropWhile_eq_drop)
  have ht: "?t \<noteq> [] \<Longrightarrow> hd ?t = 58" using hd_dropWhile [of "\<lambda>b. b \<noteq> 58" s] by (simp add: dropWhile_eq_drop)
  note u = less.prems [unfolded ipv6_loop_unfold [of k] Let_def]
  have g: "\<forall>b\<in>set ?g. v6_char b"
  proof (cases "46 \<in> set ?g")
    case True
    then have "ipv4_ok ?g" using u by simp
    then show ?thesis using ipv4_loop_chars by (auto simp: ipv4_ok_def v6_char_def is_ascii_hexdigit_def)
  qed (use u in \<open>auto simp: v6_char_def\<close>)
  have t: "\<forall>b\<in>set ?t. v6_char b"
  proof (cases "?t = []")
    case False
    have lt: "length (tl ?t) < length s" "length (tl (tl ?t)) < length s" using False by (cases ?t; auto dest!: arg_cong [of _ _ length])+
    have st: "set ?t = insert 58 (set (tl ?t))" using False ht by (cases ?t) auto
    have st2: "tl ?t \<noteq> [] \<Longrightarrow> hd (tl ?t) = 58 \<Longrightarrow> set (tl ?t) = insert 58 (set (tl (tl ?t)))" by (cases "tl ?t") auto
    have "\<forall>b\<in>set (tl ?t). v6_char b"
    proof (cases "hd (tl ?t) = 58")
      case True
      then have "tl (tl ?t) = [] \<or> (\<exists>k c. ipv6_loop k c (tl (tl ?t)))" using u False by (auto split: if_splits)
      then show ?thesis using less.hyps [OF lt(2)] st2 True by (cases "tl ?t = []") (auto simp: v6_char_def)
    next
      case no: False
      then have "ipv6_loop (k + (if 46 \<in> set ?g then 2 else 1)) c (tl ?t)" using u False by auto
      then show ?thesis using less.hyps [OF lt(1)] by blast
    qed
    then show ?thesis using st by (auto simp: v6_char_def)
  qed simp
  have "\<forall>b\<in>set (?g @ ?t). v6_char b" using g t unfolding set_append by blast
  then show ?case using s by simp
qed

lemma ipv6_ok_chars: "ipv6_ok s \<Longrightarrow> b \<in> set s \<Longrightarrow> v6_char b"
proof -
  assume a: "ipv6_ok s" "b \<in> set s"
  then obtain x y r where s: "s = x # y # r" by (cases s rule: remdups_adj.cases) (auto simp: ipv6_ok_def)
  show ?thesis
  proof (cases "x = 58")
    case True
    then have "y = 58" "r = [] \<or> ipv6_loop 0 True r" using a(1) s by (auto simp: ipv6_ok_def split: if_splits)
    then show ?thesis using ipv6_loop_chars [of 0 True r] a(2) s True by (auto simp: v6_char_def)
  next
    case False
    then have "ipv6_loop 0 False s" using a(1) s by (auto simp: ipv6_ok_def split: if_splits)
    then show ?thesis using ipv6_loop_chars a(2) by blast
  qed
qed

text \<open>The canonical hosts: what \<open>norm_host\<close> answers, and what it leaves alone.\<close>

definition host_canon :: "bytes \<Rightarrow> bool" where
  "host_canon h \<longleftrightarrow> h \<noteq> [] \<and> length h \<le> 255 \<and> lower h = h \<and> host_scan h = None \<and>
     (if hd h = 91 then \<exists>v. h = 91 # v @ [93] \<and> 93 \<notin> set v \<and> ipv6_ok v
      else 58 \<notin> set h \<and> reg_name_ok h \<and> last h \<noteq> 46)"

lemma host_scan_None: "host_scan s = None \<longleftrightarrow> (\<forall>b\<in>set s. \<not> 0x80 \<le> b \<and> b \<noteq> 37 \<and> b \<noteq> 64)"
  by (induction s) auto

lemma host_scan_lower: "host_scan (lower s) = None \<longleftrightarrow> host_scan s = None"
  by (simp add: host_scan_None)

lemma reg_name_loop_lower: "reg_name_loop (lower s) = reg_name_loop s"
proof (induction s)
  case (Cons b s)
  then show ?case by (cases s) auto
qed simp

lemma reg_name_ok_lower: "reg_name_ok (lower s) = reg_name_ok s"
  by (cases s) (auto simp: reg_name_ok_def reg_name_loop_lower [of "_ # _", simplified] reg_name_loop_lower)

lemma reg_name_loop_prefix: "reg_name_loop (a @ b) \<Longrightarrow> reg_name_loop a"
proof (induction a)
  case (Cons x a)
  then show ?case by (cases a) (auto split: if_splits)
qed simp

lemma reg_name_loop_no_dots: "reg_name_loop (x @ [46]) \<Longrightarrow> x \<noteq> [] \<Longrightarrow> last x \<noteq> 46"
proof (induction x)
  case (Cons b x)
  then show ?case by (cases x) (auto split: if_splits)
qed simp

lemma reg_name_strip:
  assumes "reg_name_ok s" and "1 < length s" and "last s = 46"
  shows "reg_name_ok (butlast s) \<and> butlast s \<noteq> [] \<and> last (butlast s) \<noteq> 46"
proof -
  have s: "s = butlast s @ [46]" using assms(2,3) by (metis append_butlast_last_id list.size(3) not_less_zero)
  have ne: "butlast s \<noteq> []" using assms(2) by (cases s; cases "tl s") auto
  have l: "reg_name_loop (butlast s @ [46])" "s ! 0 \<noteq> 46"
    using assms(1,2) s by (auto simp: reg_name_ok_def split: if_splits)
  have "butlast s ! 0 = s ! 0" using assms(2) by (intro nth_butlast) simp
  then show ?thesis
    using ne l reg_name_loop_prefix [OF l(1)] reg_name_loop_no_dots [OF l(1) ne] by (simp add: reg_name_ok_def)
qed

lemma norm_host_end_bracket:
  assumes "src \<noteq> []" and "src ! 0 = 91" and "norm_host_end src = Some e"
  shows "\<exists>v. take e src = 91 # v @ [93] \<and> 93 \<notin> set v \<and> ipv6_ok v \<and> e = length v + 2"
proof -
  obtain r where r: "src = 91 # r" using assms(1,2) by (cases src) auto
  let ?v = "takeWhile (\<lambda>b. b \<noteq> 93) r"
  have j: "length ?v \<noteq> length r" "ipv6_ok ?v" "e = length ?v + 2"
    using assms(3) r by (auto simp: norm_host_end_def Let_def bslice_def takeWhile_eq_take [symmetric] split: if_splits)
  then have "length ?v < length r" using length_takeWhile_le [of "\<lambda>b. b \<noteq> 93" r] by simp
  then have "r ! length ?v = 93" using nth_length_takeWhile by fastforce
  then have "take (length ?v + 1) r = ?v @ [93]"
    using \<open>length ?v < length r\<close> by (simp add: take_Suc_conv_app_nth takeWhile_eq_take [symmetric])
  then have "take e src = 91 # ?v @ [93]" using j r by simp
  then show ?thesis using j set_takeWhileD [of 93 "\<lambda>b. b \<noteq> 93" r] by auto
qed

lemma norm_host_end_name:
  assumes "src ! 0 \<noteq> 91" and "norm_host_end src = Some e"
  shows "58 \<notin> set (take e src) \<and> reg_name_ok (take e src) \<and> e \<le> length src"
proof -
  have e: "e = length (takeWhile (\<lambda>b. b \<noteq> 58) src)" "reg_name_ok (take e src)"
    using assms by (auto simp: norm_host_end_def Let_def split: if_splits)
  then have "take e src = takeWhile (\<lambda>b. b \<noteq> 58) src" by (simp add: takeWhile_eq_take [symmetric])
  then show ?thesis using e set_takeWhileD [of 58 "\<lambda>b. b \<noteq> 58" src] length_takeWhile_le by auto
qed

lemma norm_host_sound:
  assumes "norm_host src dp = Inr (h, p, ex)"
  shows "host_canon h" and "\<not> ex \<Longrightarrow> p = dp" and "ex \<Longrightarrow> 1 \<le> p"
proof -
  obtain e where a: "src \<noteq> []" "host_scan src = None" "norm_host_end src = Some e"
    using assms by (auto simp: norm_host_def split: if_splits option.splits)
  define len where "len = (if src ! 0 \<noteq> 91 \<and> 1 < e \<and> src ! (e - 1) = 46 then e - 1 else e)"
  have b: "len \<noteq> 0" "len \<le> 255" "norm_port (drop e src) dp = Inr (p, ex)" "h = lower (take len src)"
    using assms a by (auto simp: norm_host_def Let_def len_def split: if_splits sum.splits prod.splits)
  show "\<not> ex \<Longrightarrow> p = dp" using b(3) by (auto simp: norm_port_def Let_def split: if_splits option.splits)
  show "ex \<Longrightarrow> 1 \<le> p"
  proof -
    assume ex
    then obtain q where q: "1 \<le> q" "q \<le> (65535 :: u32)" "p = ucast q"
      using b(3) by (auto simp: norm_port_def Let_def split: if_splits option.splits)
    then have "unat p = unat q" by (simp add: unsigned_ucast_eq take_bit_nat_eq_self word_le_nat_alt)
    then show "1 \<le> p" using q(1) by (simp add: word_le_nat_alt)
  qed
  have sc: "host_scan (take len src) = None" using a(2) by (auto simp: host_scan_None dest: in_set_takeD)
  have "h \<noteq> [] \<and> length h \<le> 255 \<and> lower h = h \<and> host_scan h = None"
    using b a(1) sc by (auto simp: host_scan_lower)
  moreover have "if hd h = 91 then \<exists>v. h = 91 # v @ [93] \<and> 93 \<notin> set v \<and> ipv6_ok v
      else 58 \<notin> set h \<and> reg_name_ok h \<and> last h \<noteq> 46"
  proof (cases "src ! 0 = 91")
    case True
    then obtain v where v: "take e src = 91 # v @ [93]" "93 \<notin> set v" "ipv6_ok v"
      using norm_host_end_bracket [OF a(1) True a(3)] by blast
    then have "h = 91 # lower v @ [93]" using b(4) True by (simp add: len_def)
    then show ?thesis using v by (auto simp: ipv6_ok_lower)
  next
    case False
    note n = norm_host_end_name [OF False a(3)]
    have "hd (take len src) = src ! 0" using a(1) b(1) by (simp add: hd_conv_nth)
    then have "hd h \<noteq> 91" using False b(4) a(1) b(1) by (simp add: hd_map)
    moreover have "58 \<notin> set (take len src) \<and> reg_name_ok (take len src) \<and> last (take len src) \<noteq> 46"
    proof (cases "1 < e \<and> src ! (e - 1) = 46")
      case True
      then have l: "take len src = butlast (take e src)" using False n by (simp add: len_def butlast_take)
      have "take e src \<noteq> []" using True n by auto
      then have "last (take e src) = 46" using True n by (simp add: last_conv_nth min_absorb2)
      then show ?thesis using reg_name_strip [of "take e src"] True n l by (auto simp: min_absorb2 dest: in_set_butlastD)
    next
      case stay: False
      then have l: "take len src = take e src" by (auto simp: len_def)
      have "last (take e src) \<noteq> 46"
      proof (cases "e = 1")
        case True
        then have "take e src = [src ! 0]" using a(1) by (cases src) auto
        then show ?thesis using n by (auto simp: reg_name_ok_def)
      next
        case False
        then show ?thesis using stay n b(1) a(1) by (auto simp: last_conv_nth min_absorb2 len_def split: if_splits)
      qed
      then show ?thesis using n l by simp
    qed
    ultimately show ?thesis using b(4) a(1) b(1) by (auto simp: reg_name_ok_lower last_map)
  qed
  ultimately show "host_canon h" by (simp add: host_canon_def)
qed

lemma norm_host_end_canon:
  assumes "host_canon h" and "rest = [] \<or> (\<exists>ds. rest = 58 # ds \<and> 58 \<notin> set ds)"
  shows "norm_host_end (h @ rest) = Some (length h)"
proof (cases "hd h = 91")
  case True
  then obtain v where v: "h = 91 # v @ [93]" "93 \<notin> set v" "ipv6_ok v" using assms(1) by (auto simp: host_canon_def)
  have "takeWhile (\<lambda>b. b \<noteq> 93) (v @ 93 # rest) = v" using v(2) by (auto simp: takeWhile_append)
  then show ?thesis using v by (simp add: norm_host_end_def Let_def bslice_def)
next
  case False
  then have n: "58 \<notin> set h" "reg_name_ok h" "h \<noteq> []" using assms(1) by (auto simp: host_canon_def)
  have "takeWhile (\<lambda>b. b \<noteq> 58) (h @ rest) = h" using n(1) assms(2) by (auto simp: takeWhile_append)
  moreover have "(h @ rest) ! 0 \<noteq> 91" using False n(3) by (cases h) auto
  ultimately show ?thesis using n(2) assms(2) by (auto simp: norm_host_end_def Let_def)
qed

lemma norm_host_complete:
  assumes h: "host_canon h" and r: "rest = [] \<or> (\<exists>ds. rest = 58 # ds \<and> 58 \<notin> set ds)" "length rest \<le> 6" "host_scan rest = None"
  shows "norm_host (h @ rest) dp = (case norm_port rest dp of Inl e \<Rightarrow> Inl e | Inr (p, ex) \<Rightarrow> Inr (h, p, ex))"
proof -
  have hc: "h \<noteq> []" "length h \<le> 255" "lower h = h" "host_scan h = None" using h by (auto simp: host_canon_def)
  have "host_scan (h @ rest) = None" using hc(4) r(3) by (auto simp: host_scan_None)
  moreover have "\<not> ((h @ rest) ! 0 \<noteq> 91 \<and> (h @ rest) ! (length h - 1) = 46)"
    using h hc(1) by (auto simp: host_canon_def nth_append hd_conv_nth last_conv_nth split: if_splits)
  ultimately show ?thesis
    using hc r norm_host_end_canon [OF h r(1)] by (auto simp: norm_host_def Let_def split: sum.splits)
qed

text \<open>Port digits.\<close>

lemma port_digits_props:
  "(\<forall>d\<in>set (port_digits p). is_ascii_digit d) \<and> (p = 0 \<longleftrightarrow> port_digits p = []) \<and>
   (unat p < 10 ^ k \<longrightarrow> length (port_digits p) \<le> k)"
proof (induction p arbitrary: k rule: port_digits.induct)
  case (1 p)
  show ?case
  proof (cases "0 < p")
    case False
    then have "p = 0" by (simp add: word_less_nat_alt flip: unat_eq_0)
    then show ?thesis by (simp add: port_digits.simps)
  next
    case True
    have m: "unat (p mod 10) < 10" by (simp add: unat_mod)
    then have "unat (ucast (p mod 10) :: byte) = unat (p mod 10)" by (simp add: unsigned_ucast_eq take_bit_nat_eq_self)
    then have "unat (48 + ucast (p mod 10) :: byte) = 48 + unat (p mod 10)" using m by (simp add: unat_word_ariths)
    then have "is_ascii_digit (48 + ucast (p mod 10))" using m by (simp add: is_ascii_digit_def word_le_nat_alt)
    moreover have "unat p < 10 ^ k \<Longrightarrow> Suc (length (port_digits (p div 10))) \<le> k"
    proof (cases k)
      case 0
      then show "unat p < 10 ^ k \<Longrightarrow> Suc (length (port_digits (p div 10))) \<le> k"
        using True by (simp add: word_less_nat_alt)
    next
      case (Suc j)
      have "unat p < 10 ^ k \<Longrightarrow> unat (p div 10) < 10 ^ j" using Suc by (simp add: unat_div div_less_iff_less_mult mult.commute)
      then show "unat p < 10 ^ k \<Longrightarrow> Suc (length (port_digits (p div 10))) \<le> k" using 1 [OF True, of j] Suc by auto
    qed
    ultimately show ?thesis using True 1 [OF True] by (auto simp: port_digits.simps [of p])
  qed
qed

lemma port_loop_append: "port_loop a (xs @ ys) = Option.bind (port_loop a xs) (\<lambda>b. port_loop b ys)"
  by (induction a xs rule: port_loop.induct) auto

lemma port_loop_digits: "port_loop 0 (rev (port_digits p)) = Some (ucast p)"
proof (induction p rule: port_digits.induct)
  case (1 p)
  show ?case
  proof (cases "0 < p")
    case False
    then have "p = 0" by (simp add: word_less_nat_alt flip: unat_eq_0)
    then show ?thesis by (simp add: port_digits.simps)
  next
    case True
    have dig: "is_ascii_digit (48 + ucast (p mod 10))" using port_digits_props [of p] True by (simp add: port_digits.simps [of p])
    have "ucast (p div 10) * 10 + ucast (48 + ucast (p mod 10) - 48 :: byte) = (ucast p :: u32)"
    proof (rule unsigned_word_eqI)
      have m: "unat (p mod 10) < 10" by (simp add: unat_mod)
      note w = unat_ucast_widen(4)
      have "unat (ucast (p mod 10) :: byte) = unat (p mod 10)" using m by (simp add: unsigned_ucast_eq take_bit_nat_eq_self)
      then have b: "unat (ucast (ucast (p mod 10) :: byte) :: u32) = unat (p mod 10)" by (metis unat_ucast_widen(2))
      have "unat (p div 10) * 10 + unat (p mod 10) = unat p" by (simp add: unat_div unat_mod)
      moreover have "unat p < 65536" using unsigned_less [of p] by simp
      ultimately show "unat (ucast (p div 10) * 10 + ucast (48 + ucast (p mod 10) - 48 :: byte) :: u32) = unat (ucast p :: u32)"
        using w [of p] w [of "p div 10"] b by (simp add: unat_word_ariths)
    qed
    then show ?thesis using True 1 dig by (simp add: port_digits.simps [of p] port_loop_append)
  qed
qed

text \<open>The canonical spelling of an authority.\<close>

definition auth_of :: "bytes \<Rightarrow> u16 \<Rightarrow> u16 \<Rightarrow> bytes" where
  "auth_of host port dp = host @ (if port \<noteq> dp then 58 # rev (port_digits port) else [])"

lemma digit_facts: "is_ascii_digit d \<Longrightarrow> d \<noteq> 58 \<and> \<not> 0x80 \<le> d \<and> d \<noteq> 37 \<and> d \<noteq> 64"
  by (auto simp: is_ascii_digit_def word_le_nat_alt)

lemma norm_host_auth:
  assumes "norm_host src dp = Inr (h, p, ex)"
  shows "\<exists>ex'. norm_host (auth_of h p dp) dp = Inr (h, p, ex')"
proof (cases "p = dp")
  case True
  then show ?thesis
    using norm_host_complete [OF norm_host_sound(1) [OF assms], of "[]" dp] by (auto simp: auth_of_def norm_port_def)
next
  case False
  let ?ds = "rev (port_digits p)"
  have "1 \<le> p" using norm_host_sound(2,3) [OF assms] False by blast
  then have p: "p \<noteq> 0" "1 \<le> unat p" by (auto simp: word_le_nat_alt)
  have "unat p < 10 ^ 5" using unat_less_pow256(1) [of p] by simp
  then have ds: "\<forall>d\<in>set ?ds. is_ascii_digit d" "?ds \<noteq> []" "length ?ds \<le> 5"
    using port_digits_props [of p 5] p by auto
  have u: "unat (ucast p :: u32) = unat p"
    using unat_less_pow256(1) [of p] by (simp add: unsigned_ucast_eq take_bit_nat_eq_self)
  have "ucast (ucast p :: u32) = p" using u by (metis of_nat_unat ucast_id unsigned_ucast_eq unsigned_word_eqI)
  then have "norm_port (58 # ?ds) dp = Inr (p, True)"
    using ds p u unat_less_pow256(1) [of p] port_loop_digits [of p] by (simp add: norm_port_def word_le_nat_alt)
  moreover have "host_scan (58 # ?ds) = None" using ds(1) digit_facts by (auto simp: host_scan_None word_le_nat_alt)
  moreover have "58 \<notin> set ?ds" using ds(1) digit_facts by blast
  ultimately show ?thesis
    using norm_host_complete [OF norm_host_sound(1) [OF assms], of "58 # ?ds" dp] ds False by (auto simp: auth_of_def)
qed

lemma canonical_authority_eq:
  assumes "norm_host src dp = Inr (h, p, ex)"
  shows "canonical_authority src dp dst =
    (if length dst < length (auth_of h p dp) then (Inl Oversize, dst)
     else (Inr (length (auth_of h p dp)), blit 0 (auth_of h p dp) dst))"
proof (cases "p = dp")
  case True
  then show ?thesis using assms by (simp add: canonical_authority_def auth_of_def)
next
  case False
  have "1 \<le> p" using norm_host_sound(2,3) [OF assms] False by blast
  then have "p \<noteq> 0" by (auto simp: word_le_nat_alt)
  then have ne: "port_digits p \<noteq> []" using port_digits_props by blast
  have "blit (length h + 1) (rev (port_digits p)) ((blit 0 h dst)[length h := 58]) = blit 0 (h @ 58 # rev (port_digits p)) dst"
    if "length h + 1 + length (port_digits p) \<le> length dst"
  proof -
    have "(blit 0 h dst)[length h := 58] = blit 0 (h @ [58]) dst"
      using that blit_blit_append [of 0 h "[58]" dst] by (simp add: blit_1)
    then show ?thesis using blit_blit_append [of 0 "h @ [58]" "rev (port_digits p)" dst] that by simp
  qed
  then show ?thesis using assms False ne by (auto simp: canonical_authority_def auth_of_def Let_def)
qed

text \<open>Every source of the authority that is present named the answer.\<close>

lemma route_key_sources_agree:
  "route_key_sources c dp acc ss = Inr (Some (h, p)) \<Longrightarrow>
   (\<forall>s\<in>set ss. case s of None \<Rightarrow> True | Some src \<Rightarrow> \<exists>ex. norm_host src dp = Inr (h, p, ex)) \<and>
   (acc = None \<or> acc = Some (h, p)) \<and> (acc = None \<longrightarrow> (\<exists>src. Some src \<in> set ss))"
proof (induction c dp acc ss rule: route_key_sources.induct)
  case (4 c dp host port src ss)
  then show ?case
    by (auto split: sum.splits prod.splits route_key_error.splits if_splits)
next
  case (3 c dp src ss)
  then show ?case by (fastforce split: sum.splits prod.splits if_splits)
qed auto

lemma host_canon_no_nul: "host_canon h \<Longrightarrow> 0 \<notin> set h"
proof
  assume h: "host_canon h" and z: "0 \<in> set h"
  have nz: "\<not> reg_char 0" "\<not> v6_char 0"
    by (auto simp: reg_char_def v6_char_def is_ascii_hexdigit_def is_ascii_alphanumeric_def is_ascii_alphabetic_def
        is_ascii_upper_def is_ascii_lower_def is_ascii_digit_def word_le_nat_alt)
  show False
  proof (cases "hd h = 91")
    case True
    then obtain v where "h = 91 # v @ [93]" "ipv6_ok v" using h by (auto simp: host_canon_def)
    then show False using ipv6_ok_chars [of v 0] z nz by auto
  next
    case False
    have "reg_name_loop s \<Longrightarrow> \<forall>b\<in>set s. reg_char b" for s by (induction s) (auto split: if_splits)
    then show False using h False z nz by (auto simp: host_canon_def reg_name_ok_def split: if_splits)
  qed
qed

lemma derive_route_key_host: "derive_route_key m t hh ap dp buf = Inr k \<Longrightarrow> host_canon (rk_host k)"
proof -
  assume "derive_route_key m t hh ap dp buf = Inr k"
  then obtain c ss h p where s: "route_key_sources c dp None ss = Inr (Some (h, p))" and k: "rk_host k = h"
    by (auto simp: derive_route_key_def Let_def simp del: route_key_sources.simps
        split: sum.splits if_splits option.splits prod.splits target_form.splits)
  obtain src ex where "norm_host src dp = Inr (h, p, ex)" using route_key_sources_agree [OF s] by fastforce
  then show ?thesis using norm_host_sound(1) k by blast
qed

text \<open>The digest input.\<close>

definition canon_of :: "route_key \<Rightarrow> bytes" where
  "canon_of k = ROUTE_KEY_DOMAIN @ rk_host k @ [0, ucast (drop_bit 8 (rk_port k)), ucast (rk_port k), 0] @ rk_path k"

lemma route_key_canonical_eq:
  "route_key_canonical k out =
   (if length out < length (canon_of k) then (None, out) else (Some (length (canon_of k)), blit 0 (canon_of k) out))"
proof (cases "length out < length (canon_of k)")
  case True
  then show ?thesis by (simp add: route_key_canonical_def canon_of_def Let_def)
next
  case False
  let ?D = ROUTE_KEY_DOMAIN and ?h = "rk_host k" and ?p = "rk_path k"
  let ?q = "[0, ucast (drop_bit 8 (rk_port k)), ucast (rk_port k), 0] :: bytes"
  have fit: "length ?D + length ?h + 4 + length ?p \<le> length out" using False by (simp add: canon_of_def)
  have u4: "o'[w := a, w + 1 := b, w + 2 := c, w + 3 := d] = blit w [a, b, c, d] o'"
    if "w + 4 \<le> length o'" for o' :: bytes and w a b c d
    using that blit_3 [of w o' a b c] blit_blit_append [of w "[a, b, c]" "[d]" o']
    by (simp add: blit_1 numeral_3_eq_3)
  have b1: "blit (length ?D) ?h (blit 0 ?D out) = blit 0 (?D @ ?h) out"
    using blit_blit_append [of 0 ?D ?h out] fit by simp
  have b2: "blit (length ?D + length ?h) ?q (blit 0 (?D @ ?h) out) = blit 0 ((?D @ ?h) @ ?q) out"
    using blit_blit_append [of 0 "?D @ ?h" ?q out] fit by simp
  have b3: "blit (length ?D + length ?h + 4) ?p (blit 0 ((?D @ ?h) @ ?q) out) = blit 0 (((?D @ ?h) @ ?q) @ ?p) out"
  proof -
    have l: "0 + length ((?D @ ?h) @ ?q) = length ?D + length ?h + 4" by simp
    show ?thesis using blit_blit_append [of 0 "(?D @ ?h) @ ?q" ?p out] fit unfolding l by simp
  qed
  have "length (blit 0 (?D @ ?h) out) = length out" using fit by simp
  then show ?thesis
    using False fit unfolding route_key_canonical_def Let_def add_0 b1
    by (subst u4) (simp_all only: b2 b3, auto simp: canon_of_def)
qed

lemma nul_split: "0 \<notin> set a \<Longrightarrow> 0 \<notin> set b \<Longrightarrow> a @ (0 :: byte) # x = b @ 0 # y \<Longrightarrow> a = b \<and> x = y"
proof (induction a arbitrary: b)
  case Nil
  then show ?case by (cases b) auto
next
  case (Cons c a)
  then show ?case by (cases b) auto
qed

lemma port_bytes_inj:
  "ucast (drop_bit 8 p) = (ucast (drop_bit 8 q) :: byte) \<Longrightarrow> (ucast p :: byte) = ucast q \<Longrightarrow> p = (q :: u16)"
proof (rule bit_word_eqI)
  fix n assume h: "ucast (drop_bit 8 p) = (ucast (drop_bit 8 q) :: byte)" "(ucast p :: byte) = ucast q" and n: "n < LENGTH(16)"
  show "bit p n = bit q n"
  proof (cases "n < 8")
    case True
    then show ?thesis using arg_cong [OF h(2), of "\<lambda>w. bit w n"] by (simp add: bit_ucast_iff)
  next
    case False
    then have "n = 8 + (n - 8)" "n - 8 < 8" using n by simp_all
    then show ?thesis using arg_cong [OF h(1), of "\<lambda>w. bit w (n - 8)"] by (simp add: bit_ucast_iff bit_drop_bit_eq)
  qed
qed

lemma canon_of_inj:
  assumes "canon_of k1 = canon_of k2" and "0 \<notin> set (rk_host k1)" and "0 \<notin> set (rk_host k2)"
  shows "rk_host k1 = rk_host k2 \<and> rk_port k1 = rk_port k2 \<and> rk_path k1 = rk_path k2"
proof -
  from assms(1) have "rk_host k1 @ 0 # [ucast (drop_bit 8 (rk_port k1)), ucast (rk_port k1), 0] @ rk_path k1 =
      rk_host k2 @ 0 # [ucast (drop_bit 8 (rk_port k2)), ucast (rk_port k2), 0] @ rk_path k2"
    by (simp add: canon_of_def)
  from nul_split [OF assms(2,3) this] show ?thesis by (auto intro: port_bytes_inj)
qed

lemma split_query_path: "s = [] \<or> hd s = 47 \<or> hd s = 63 \<Longrightarrow> fst (split_query s) = [] \<or> hd (fst (split_query s)) = 47"
  by (cases s) (auto simp: split_query_def Let_def)

lemma classify_target_path:
  assumes "classify_target t = Inr f"
  shows "f = TargetOrigin path q \<Longrightarrow> path = [] \<or> hd path = 47" and "f = TargetAbsolute a path q \<Longrightarrow> path = [] \<or> hd path = 47"
proof -
  assume "f = TargetOrigin path q"
  then have "t \<noteq> []" "t ! 0 = 47" "split_query t = (path, q)"
    using assms by (auto simp: classify_target_def Let_def split: if_splits option.splits prod.splits)
  then show "path = [] \<or> hd path = 47" using split_query_path [of t] by (simp add: hd_conv_nth)
next
  assume "f = TargetAbsolute a path q"
  then obtain rest where "split_query (drop (length (takeWhile (\<lambda>b. b \<noteq> 47 \<and> b \<noteq> 63) rest)) rest) = (path, q)"
    using assms by (auto simp: classify_target_def Let_def simp del: drop_drop split: if_splits option.splits prod.splits)
  then show "path = [] \<or> hd path = 47"
    using split_query_path [of "dropWhile (\<lambda>b. b \<noteq> 47 \<and> b \<noteq> 63) rest"] hd_dropWhile [of "\<lambda>b. b \<noteq> 47 \<and> b \<noteq> 63" rest]
    by (auto simp: dropWhile_eq_drop)
qed

lemma norm_path_result:
  assumes "norm_path src dst = (Inr n, dst')" and "length dst = 2048" and "src = [] \<or> hd src = 47"
  shows "\<exists>p. norm_path_spec src = Inr p \<and> take n dst' = p \<and> n = length p \<and> length p \<le> 2048"
  using norm_path_meets_spec [OF assms(2,3)] assms(1) by (auto split: sum.splits)

lemma derive_route_key_path:
  assumes "derive_route_key m t hh ap dp buf = Inr k" and "length buf = 2048"
  shows "length (rk_path k) \<le> 2048" and
    "rk_path k = [] \<or> rk_path k = [42] \<or> (\<exists>src. (src = [] \<or> hd src = 47) \<and> norm_path_spec src = Inr (rk_path k))"
proof -
  obtain f where f: "classify_target t = Inr f" using assms(1) by (auto simp: derive_route_key_def split: sum.splits)
  have "rk_path k = [] \<or> rk_path k = [42] \<or> (\<exists>src n dst. (src = [] \<or> hd src = 47) \<and> norm_path src buf = (Inr n, dst) \<and> rk_path k = take n dst)"
  proof (cases f)
    case (TargetOrigin path q)
    then show ?thesis using assms(1) f classify_target_path(1) [OF f TargetOrigin]
      by (auto simp: derive_route_key_def Let_def simp del: route_key_sources.simps split: sum.splits if_splits option.splits prod.splits)
  next
    case (TargetAbsolute a path q)
    then show ?thesis using assms(1) f classify_target_path(2) [OF f TargetAbsolute]
      by (auto simp: derive_route_key_def Let_def simp del: route_key_sources.simps split: sum.splits if_splits option.splits prod.splits)
  next
    case (TargetAuthority a)
    then show ?thesis using assms(1) f
      by (auto simp: derive_route_key_def Let_def simp del: route_key_sources.simps split: sum.splits if_splits option.splits prod.splits)
  next
    case TargetAsterisk
    have "take 1 (buf[0 := 42]) = [42]" using assms(2) by (cases buf) auto
    then show ?thesis using assms(1) f TargetAsterisk
      by (auto simp: derive_route_key_def Let_def simp del: route_key_sources.simps split: sum.splits if_splits option.splits prod.splits)
  qed
  moreover have "(\<exists>src. (src = [] \<or> hd src = 47) \<and> norm_path_spec src = Inr (rk_path k)) \<and> length (rk_path k) \<le> 2048"
    if c: "src = [] \<or> hd src = 47" "norm_path src buf = (Inr n, dst)" "rk_path k = take n dst" for src n dst
    using norm_path_result [OF c(2) assms(2) c(1)] c(1,3) by auto
  ultimately have "rk_path k = [] \<or> rk_path k = [42] \<or>
      (\<exists>src. (src = [] \<or> hd src = 47) \<and> norm_path_spec src = Inr (rk_path k)) \<and> length (rk_path k) \<le> 2048"
    by blast
  then show "length (rk_path k) \<le> 2048"
    "rk_path k = [] \<or> rk_path k = [42] \<or> (\<exists>src. (src = [] \<or> hd src = 47) \<and> norm_path_spec src = Inr (rk_path k))"
    by auto
qed

section \<open>Properties\<close>

text \<open>C3. The in-place path normalisation computes RFC 3986 remove-dot-segments after percent-encoding
  normalisation: for every request path (empty or starting with a slash) and whatever the caller's
  2048-byte buffer held, it accepts exactly the paths the list specification accepts, with the same
  result in a buffer of unchanged size, and refuses the others; of a path of ASCII bytes with the same
  error (which error a path with a raw byte from 0x80 up gets is not part of this).\<close>

theorem norm_path_is_rfc3986:
  assumes "length dst = 2048" and "src = [] \<or> hd src = 47"
  shows "case norm_path_spec src of
      Inl e \<Rightarrow> \<exists>e'. fst (norm_path src dst) = Inl e' \<and> (list_all (\<lambda>b. b < 0x80) src \<longrightarrow> e' = e)
    | Inr p \<Rightarrow> \<exists>dst'. norm_path src dst = (Inr (length p), dst') \<and> length dst' = 2048 \<and> take (length p) dst' = p"
  using norm_path_meets_spec [OF assms] by (auto split: sum.splits)

theorem norm_path_is_rfc3986_witness:
  "\<exists>dst'. norm_path (ascii ''/a/./b/../%7Ec%2f'') (replicate 2048 0) = (Inr 8, dst') \<and> take 8 dst' = ascii ''/a/~c%2F''"
proof -
  have h: "hex_val 55 = Some 7" "hex_val 69 = Some 14" "hex_val 50 = Some 2" "hex_val 102 = Some 15"
    by (simp_all add: hex_val_def word_le_nat_alt)
  have u: "unreserved 126" "\<not> unreserved 47" "to_ascii_uppercase 50 = 50" "to_ascii_uppercase 102 = 70"
    by (simp_all add: unreserved_def to_ascii_uppercase_def is_ascii_lower_def is_ascii_alphanumeric_def
        is_ascii_alphabetic_def is_ascii_upper_def is_ascii_digit_def word_le_nat_alt)
  have p: "pchar_ok 47" "pchar_ok 46" "pchar_ok 97" "pchar_ok 98" "pchar_ok 99"
    by (simp_all add: pchar_ok_def unreserved_def is_ascii_alphanumeric_def is_ascii_alphabetic_def is_ascii_upper_def
        is_ascii_lower_def is_ascii_digit_def word_le_nat_alt)
  have v: "push_bit 4 7 OR 14 = (126 :: byte)" "push_bit 4 2 OR 15 = (47 :: byte)" by simp_all
  have "pct_norm (ascii ''/a/./b/../%7Ec%2f'') = Inr (ascii ''/a/./b/../~c%2F'')"
    by (simp add: ascii_def h u p v word_le_nat_alt)
  then have "norm_path_spec (ascii ''/a/./b/../%7Ec%2f'') = Inr (ascii ''/a/~c%2F'')"
    by (simp add: norm_path_spec_def ascii_def)
  then show ?thesis
  proof -
    have "hd (ascii ''/a/./b/../%7Ec%2f'') = 47" by (simp add: ascii_def)
    moreover have l: "length (ascii ''/a/~c%2F'') = 8" by simp
    ultimately show ?thesis
      using norm_path_is_rfc3986 [of "replicate 2048 0" "ascii ''/a/./b/../%7Ec%2f''"] \<open>norm_path_spec _ = _\<close>
      by (auto simp: l simp del: length_ascii)
  qed
qed

text \<open>Canonical paths are canonical: the path a request normalises to starts with a slash, has no
  \<open>.\<close> or \<open>..\<close> segment, fits the buffer, and normalises to itself.\<close>

theorem norm_path_canonical:
  assumes "norm_path src dst = (Inr n, dst')" and "length dst = 2048" and "src = [] \<or> hd src = 47" and "length dst2 = 2048"
  shows "hd (take n dst') = 47 \<and> n \<le> 2048 \<and> [46] \<notin> set (segs_of (take n dst')) \<and> [46, 46] \<notin> set (segs_of (take n dst')) \<and>
    (\<exists>dst3. norm_path (take n dst') dst2 = (Inr n, dst3) \<and> take n dst3 = take n dst')"
proof -
  obtain p where p: "norm_path_spec src = Inr p" "take n dst' = p" "n = length p" "length p \<le> 2048"
    using norm_path_result [OF assms(1-3)] by blast
  obtain ss where ss: "ss \<noteq> []" "p = path_of ss"
    "\<forall>s\<in>set ss. s \<noteq> [46] \<and> s \<noteq> [46, 46] \<and> 47 \<notin> set s \<and> pct_canon s"
    using norm_path_spec_canonical [OF p(1) assms(3)] by blast
  have hd: "hd p = 47" using ss(1,2) by (cases ss) auto
  have fx: "norm_path_spec p = Inr p" using norm_path_spec_fixed [OF ss(1) _ ss(3)] p(4) ss(2) by simp
  have "segs_of p = ss" unfolding ss(2) using ss(3) by (intro segs_of_path) auto
  then show ?thesis
    using hd p ss(3) fx norm_path_meets_spec [OF assms(4), of p] by (auto simp: hd)
qed

theorem norm_path_canonical_witness:
  "\<exists>n dst'. norm_path [] (replicate 2048 0) = (Inr n, dst') \<and> hd (take n dst') = 47"
  using norm_path_canonical [of "[]" "replicate 2048 0" 1 "(replicate 2048 0)[0 := 47]" "replicate 2048 0"]
  by (simp add: norm_path_def)

text \<open>The canonical authority is a fixed point: whatever spelling a request used, the bytes written
  for it canonicalise to the same bytes again, so a route programmed in canonical form and a request
  in any spelling meet.\<close>

theorem canonical_authority_fixed_point:
  assumes "canonical_authority src dp dst = (Inr n, dst')" and "n \<le> length dst2"
  shows "\<exists>dst3. canonical_authority (take n dst') dp dst2 = (Inr n, dst3) \<and> take n dst3 = take n dst'"
proof -
  obtain h p ex where nh: "norm_host src dp = Inr (h, p, ex)"
    using assms(1) by (auto simp: canonical_authority_def split: sum.splits)
  let ?a = "auth_of h p dp"
  have n: "n = length ?a" "dst' = blit 0 ?a dst" "length ?a \<le> length dst"
    using assms(1) unfolding canonical_authority_eq [OF nh] by (auto split: if_splits)
  then have t: "take n dst' = ?a" by (simp add: blit_def)
  obtain ex' where "norm_host ?a dp = Inr (h, p, ex')" using norm_host_auth [OF nh] by blast
  from canonical_authority_eq [OF this, of dst2] show ?thesis unfolding t using assms(2) n(1) by (simp add: blit_def)
qed

text \<open>Two requests with different keys have different digest inputs: if the canonical byte strings
  of two derived keys are equal then so are their hosts, ports and paths; and a derived key always
  fits the fixed-size digest buffer, so a digest is always produced.\<close>

theorem route_key_digest_input_injective:
  assumes "derive_route_key m1 t1 hh1 ap1 dp1 buf1 = Inr k1" and "derive_route_key m2 t2 hh2 ap2 dp2 buf2 = Inr k2"
    and "length buf1 = 2048" and "length buf2 = 2048"
  shows "route_key_digest k1 sha256 \<noteq> None \<and>
    (\<exists>n1 n2 o1 o2. route_key_canonical k1 (replicate ROUTE_KEY_CANON_BYTES 0) = (Some n1, o1) \<and>
       route_key_canonical k2 (replicate ROUTE_KEY_CANON_BYTES 0) = (Some n2, o2) \<and>
       (take n1 o1 = take n2 o2 \<longleftrightarrow> rk_host k1 = rk_host k2 \<and> rk_port k1 = rk_port k2 \<and> rk_path k1 = rk_path k2))"
proof -
  have h: "host_canon (rk_host k1)" "host_canon (rk_host k2)" using assms derive_route_key_host by blast+
  have "length (rk_path k1) \<le> 2048" "length (rk_path k2) \<le> 2048" using assms derive_route_key_path(1) by blast+
  then have fit: "length (canon_of k1) \<le> ROUTE_KEY_CANON_BYTES" "length (canon_of k2) \<le> ROUTE_KEY_CANON_BYTES"
    using h by (simp_all add: canon_of_def ROUTE_KEY_CANON_BYTES_def host_canon_def)
  have "canon_of k1 = canon_of k2 \<longleftrightarrow> rk_host k1 = rk_host k2 \<and> rk_port k1 = rk_port k2 \<and> rk_path k1 = rk_path k2"
    using canon_of_inj [of k1 k2] h host_canon_no_nul by (auto simp: canon_of_def)
  with fit show ?thesis by (simp add: route_key_digest_def route_key_canonical_eq blit_def)
qed

text \<open>Where a request may name its authority: the absolute- or authority-form target, \<open>:authority\<close> (\<open>ap\<close>)
  and \<open>Host\<close> (\<open>hh\<close>).\<close>

definition names_authority :: "bytes \<Rightarrow> bytes option \<Rightarrow> bytes option \<Rightarrow> bytes \<Rightarrow> bool" where
  "names_authority t hh ap src \<longleftrightarrow> hh = Some src \<or> ap = Some src \<or>
     (case classify_target t of
        Inr (TargetAbsolute authority _ _) \<Rightarrow> authority = src
      | Inr (TargetAuthority authority) \<Rightarrow> authority = src
      | _ \<Rightarrow> False)"

text \<open>C4. No key for a request that names two authorities, and none for a request that names none: when a
  key is derived, at least one source of the request (the absolute- or authority-form target,
  \<open>:authority\<close>, \<open>Host\<close>) is present, every source that is present canonicalises to the key's host and port,
  and any two of them agree.\<close>

theorem route_key_sources_agreed:
  assumes "derive_route_key m t hh ap dp buf = Inr k"
  shows "(\<exists>src. names_authority t hh ap src) \<and>
    (\<forall>src. names_authority t hh ap src \<longrightarrow> (\<exists>ex. norm_host src dp = Inr (rk_host k, rk_port k, ex))) \<and>
    (\<forall>a b. names_authority t hh ap a \<and> names_authority t hh ap b \<longrightarrow> authority_agrees a b dp)"
proof -
  obtain f where f: "classify_target t = Inr f" using assms by (auto simp: derive_route_key_def split: sum.splits)
  let ?ta = "case f of TargetAbsolute authority _ _ \<Rightarrow> Some authority | TargetAuthority authority \<Rightarrow> Some authority | _ \<Rightarrow> None"
  obtain c where s: "route_key_sources c dp None [?ta, ap, hh] = Inr (Some (rk_host k, rk_port k))"
    using assms f
    by (cases f) (auto simp: derive_route_key_def Let_def simp del: route_key_sources.simps
        split: sum.splits if_splits option.splits prod.splits)
  have n: "names_authority t hh ap src \<longleftrightarrow> Some src \<in> set [?ta, ap, hh]" for src
    using f by (cases f) (auto simp: names_authority_def)
  have h: "\<exists>ex. norm_host src dp = Inr (rk_host k, rk_port k, ex)" if "names_authority t hh ap src" for src
    using route_key_sources_agree [OF s] that n by (auto simp: Ball_def split: option.splits)
  moreover have "\<exists>src. names_authority t hh ap src" using route_key_sources_agree [OF s] n by blast
  moreover have "authority_agrees a b dp" if "names_authority t hh ap a" "names_authority t hh ap b" for a b
    using h [OF that(1)] h [OF that(2)] by (auto simp: authority_agrees_def)
  ultimately show ?thesis by blast
qed

section \<open>A worked request\<close>

lemma norm_host_example: "norm_host (ascii ''Ex:8443'') 443 = Inr (ascii ''ex'', 8443, True)"
proof -
  have d: "is_ascii_digit 56" "is_ascii_digit 52" "is_ascii_digit 51" by (simp_all add: is_ascii_digit_def word_le_nat_alt)
  have r: "reg_char 69" "reg_char 120" by (simp_all add: reg_char_def is_ascii_alphanumeric_def is_ascii_alphabetic_def
      is_ascii_upper_def is_ascii_lower_def word_le_nat_alt)
  have l: "to_ascii_lowercase 69 = 101" "to_ascii_lowercase 120 = 120"
    by (simp_all add: to_ascii_lowercase_def is_ascii_upper_def word_le_nat_alt)
  have p: "port_loop 0 [56, 52, 52, 51] = Some 8443" by (simp add: d)
  have "host_scan (ascii ''Ex:8443'') = None" by (simp add: ascii_def word_le_nat_alt)
  moreover have "norm_host_end (ascii ''Ex:8443'') = Some 2"
    by (simp add: ascii_def norm_host_end_def reg_name_ok_def r)
  moreover have "norm_port (drop 2 (ascii ''Ex:8443'')) 443 = Inr (8443, True)"
    by (simp add: ascii_def norm_port_def d word_le_nat_alt)
  ultimately show ?thesis by (simp add: norm_host_def ascii_def l)
qed

lemma derive_route_key_example:
  "\<exists>k. derive_route_key (ascii ''GET'') [47] (Some (ascii ''Ex:8443'')) None 443 (replicate 2048 0) = Inr k"
proof -
  have "pct_norm [47] = Inr [47]" using pchar_facts by simp
  then have "norm_path_spec [47] = Inr [47]" by (simp add: norm_path_spec_def)
  then obtain dst where "norm_path [47] (replicate 2048 0) = (Inr 1, dst)"
    using norm_path_meets_spec [of "replicate 2048 0" "[47]"] by auto
  moreover have "classify_target [47] = Inr (TargetOrigin [47] [])" by (simp add: classify_target_def split_query_def)
  moreover have "ascii ''GET'' \<noteq> ascii ''CONNECT''" by (simp add: ascii_def)
  ultimately show ?thesis by (simp add: derive_route_key_def Let_def norm_host_example)
qed

theorem canonical_authority_fixed_point_witness:
  "\<exists>n dst' dst3. canonical_authority (ascii ''Ex:8443'') 443 (replicate 16 0) = (Inr n, dst') \<and>
     canonical_authority (take n dst') 443 (replicate 16 1) = (Inr n, dst3) \<and> take n dst3 = take n dst'"
proof -
  let ?a = "auth_of (ascii ''ex'') 8443 443"
  have "length ?a \<le> 16" using port_digits_props [of 8443 5] by (simp add: auth_of_def)
  then have c: "canonical_authority (ascii ''Ex:8443'') 443 (replicate 16 0) = (Inr (length ?a), blit 0 ?a (replicate 16 0))"
    using canonical_authority_eq [OF norm_host_example, of "replicate 16 0"] by simp
  then show ?thesis
    using canonical_authority_fixed_point [OF c, of "replicate 16 1"] \<open>length ?a \<le> 16\<close> by auto
qed

theorem route_key_digest_input_injective_witness:
  "\<exists>k. derive_route_key (ascii ''GET'') [47] (Some (ascii ''Ex:8443'')) None 443 (replicate 2048 0) = Inr k \<and>
     route_key_digest k (\<lambda>b. take 32 b) \<noteq> None"
proof -
  obtain k where k: "derive_route_key (ascii ''GET'') [47] (Some (ascii ''Ex:8443'')) None 443 (replicate 2048 0) = Inr k"
    using derive_route_key_example by blast
  from route_key_digest_input_injective [OF k k] k show ?thesis by auto
qed

theorem route_key_sources_agreed_witness:
  "\<exists>k. derive_route_key (ascii ''GET'') [47] (Some (ascii ''Ex:8443'')) None 443 (replicate 2048 0) = Inr k \<and>
     (\<exists>ex. norm_host (ascii ''Ex:8443'') 443 = Inr (rk_host k, rk_port k, ex))"
proof -
  obtain k where k: "derive_route_key (ascii ''GET'') [47] (Some (ascii ''Ex:8443'')) None 443 (replicate 2048 0) = Inr k"
    using derive_route_key_example by blast
  moreover have "names_authority [47] (Some (ascii ''Ex:8443'')) None (ascii ''Ex:8443'')" by (simp add: names_authority_def)
  ultimately show ?thesis using route_key_sources_agreed [OF k] by blast
qed

section \<open>Two notes on the comments\<close>

text \<open>The comment on \<open>authority_agrees\<close> says that an authority that does not canonicalise agrees with
  nothing, including a second copy of itself; the byte comparison that comes first says otherwise.\<close>

theorem authority_agrees_with_unreadable_copy:
  "norm_host [64] 443 = Inl BadHost \<and> authority_agrees [64] [64] 443"
  by (simp add: norm_host_def authority_agrees_def)

text \<open>The comment on \<open>BadPath\<close> lists a raw non-ASCII byte; the path scan reports it as \<open>NonAscii\<close>.\<close>

theorem norm_path_raw_non_ascii:
  "fst (norm_path [47, 0xC3] (replicate 2048 0)) = Inl NonAscii"
proof -
  have "pct_norm [47, 0xC3] = Inl NonAscii" using pchar_facts(2) by (simp add: word_le_nat_alt)
  then have "norm_path_spec [47, 0xC3] = Inl NonAscii" by (simp add: norm_path_spec_def)
  then show ?thesis using norm_path_meets_spec [of "replicate 2048 0" "[47, 0xC3]"] by simp
qed

end
