(* ===== verification/Smtp_Core.thy ===== *)
theory Smtp_Core
  imports Wave_Prelude
begin

text \<open>
  \<open>modules/common/smtp_core.rs\<close>: reply lines, the command builders, AUTH PLAIN, the dot-stuffed
  message, and the delivery phase machine. The writers are \<^typ>\<open>nat writer\<close>s over the caller's
  buffer; \<open>usize\<close> sums that the code checks against a buffer length are \<^typ>\<open>nat\<close> sums.

  What is shown: the reply scanner finds the first CRLF; the AUTH offer is recognised exactly when a
  whole word of the parameter list is PLAIN; base64 output has the standard shape; a message sent in
  any spans is the message sent whole, and a receiver that undoes transparency gets it back and stops
  at its end; the phase machine moves only on the reply code a phase demands.
\<close>

section \<open>Bounded writes\<close>

definition smtp_put :: "nat \<Rightarrow> bytes \<Rightarrow> nat writer" where
  "smtp_put p b out =
     (let e = p + length b
      in if length out < e then (None, out) else (Some e, blit p b out))"

interpretation sput: bounded_put smtp_put
  by unfold_locales (simp_all add: smtp_put_def Let_def)

section \<open>Reply lines\<close>

function smtp_crlf_loop :: "bytes \<Rightarrow> nat \<Rightarrow> nat option" where
  "smtp_crlf_loop buf i =
     (if length buf \<le> i + 1 then None
      else if buf ! i = 13 \<and> buf ! (i + 1) = 10 then Some i
      else smtp_crlf_loop buf (i + 1))"
  by pat_completeness auto
termination by (relation "measure (\<lambda>(buf, i). length buf - i)") auto

declare smtp_crlf_loop.simps [simp del]

definition smtp_reply_line :: "bytes \<Rightarrow> (u16 \<times> bool \<times> nat) option" where
  "smtp_reply_line buf =
     (case smtp_crlf_loop buf 0 of
        None \<Rightarrow> None
      | Some eol \<Rightarrow>
          if eol < 3 then None
          else
            let d0 = buf ! 0; d1 = buf ! 1; d2 = buf ! 2
            in if \<not> is_ascii_digit d0 \<or> \<not> is_ascii_digit d1 \<or> \<not> is_ascii_digit d2 then None
               else
                 let code = ucast (d0 - 48) * 100 + ucast (d1 - 48) * 10 + ucast (d2 - 48);
                     is_final = (eol = 3 \<or> buf ! 3 \<noteq> 45)
                 in Some (code, is_final, eol + 2))"

definition smtp_reply_text :: "bytes \<Rightarrow> nat \<Rightarrow> (nat \<times> nat) option" where
  "smtp_reply_text buf line_len =
     (if length buf < line_len then None
      else if line_len < 2 then None
      else
        let e = line_len - 2
        in if e \<le> 4 then None else Some (4, e - 4))"

section \<open>Commands\<close>

definition smtp_ehlo :: "bytes \<Rightarrow> nat writer" where
  "smtp_ehlo domain out = puts smtp_put 0 [ascii ''EHLO '', domain, crlf] out"

definition smtp_mail_from :: "bytes \<Rightarrow> nat writer" where
  "smtp_mail_from addr out = puts smtp_put 0 [ascii ''MAIL FROM:<'', addr, ascii ''>'' @ crlf] out"

definition smtp_rcpt_to :: "bytes \<Rightarrow> nat writer" where
  "smtp_rcpt_to addr out = puts smtp_put 0 [ascii ''RCPT TO:<'', addr, ascii ''>'' @ crlf] out"

definition smtp_data :: "nat writer" where
  "smtp_data out = puts smtp_put 0 [ascii ''DATA'' @ crlf] out"

definition smtp_quit :: "nat writer" where
  "smtp_quit out = puts smtp_put 0 [ascii ''QUIT'' @ crlf] out"

section \<open>The AUTH offer\<close>

abbreviation smtp_blank :: "byte \<Rightarrow> bool" where
  "smtp_blank b \<equiv> b = 32 \<or> b = 9"

definition smtp_skip_blanks :: "bytes \<Rightarrow> nat \<Rightarrow> nat" where
  "smtp_skip_blanks rest at = scan_while (\<lambda>b. smtp_blank b) rest at"

definition smtp_token_end :: "bytes \<Rightarrow> nat \<Rightarrow> nat" where
  "smtp_token_end rest at = scan_while (\<lambda>b. \<not> (smtp_blank b \<or> b = 13)) rest at"

lemma smtp_skip_blanks_ge: "at \<le> smtp_skip_blanks rest at"
  by (simp add: smtp_skip_blanks_def scan_while_ge)

lemma smtp_token_end_ge: "at \<le> smtp_token_end rest at"
  by (simp add: smtp_token_end_def scan_while_ge)

function smtp_offer_loop :: "bytes \<Rightarrow> nat \<Rightarrow> bool" where
  "smtp_offer_loop rest at =
     (if at < length rest then
        let start = smtp_skip_blanks rest at;
            e = smtp_token_end rest start
        in if e = start then False
           else if eq_ignore_ascii_case (bslice start e rest) (ascii ''PLAIN'') then True
           else smtp_offer_loop rest e
      else False)"
  by pat_completeness auto
termination
proof (relation "measure (\<lambda>(rest, at). length rest - at)", goal_cases)
  case 1
  then show ?case by simp
next
  case (2 rest at start e)
  then show ?case
    using smtp_skip_blanks_ge [of at rest] smtp_token_end_ge [of start rest] by simp
qed

declare smtp_offer_loop.simps [simp del]

definition smtp_offers_auth_plain :: "bytes \<Rightarrow> bool" where
  "smtp_offers_auth_plain line =
     (if length line < 4 then False
      else
        let rest = drop 4 line
        in if length rest < 5 \<or> \<not> eq_ignore_ascii_case (take 4 rest) (ascii ''AUTH'') then False
           else if \<not> smtp_blank (rest ! 4) then False
           else smtp_offer_loop rest 4)"

section \<open>Base64 and AUTH PLAIN\<close>

definition b64_alphabet :: bytes where
  "b64_alphabet = ascii ''ABCDEFGHIJKLMNOPQRSTUVWXYZabcdefghijklmnopqrstuvwxyz0123456789+/''"

fun smtp_b64_loop :: "nat \<Rightarrow> bytes \<Rightarrow> bytes \<Rightarrow> nat \<times> bytes" where
  "smtp_b64_loop p [] out = (p, out)"
| "smtp_b64_loop p (x # xs) out =
     (let chunk = take 3 (x # xs);
          b0 = ucast (chunk ! 0) :: u32;
          b1 = (if 1 < length chunk then ucast (chunk ! 1) else 0) :: u32;
          b2 = (if 2 < length chunk then ucast (chunk ! 2) else 0) :: u32;
          w = push_bit 16 b0 OR push_bit 8 b1 OR b2;
          out = out[p := b64_alphabet ! unat (drop_bit 18 w AND 0x3F)];
          out = out[p + 1 := b64_alphabet ! unat (drop_bit 12 w AND 0x3F)];
          out = out[p + 2 := (if 1 < length chunk then b64_alphabet ! unat (drop_bit 6 w AND 0x3F) else 61)];
          out = out[p + 3 := (if 2 < length chunk then b64_alphabet ! unat (w AND 0x3F) else 61)]
      in smtp_b64_loop (p + 4) (drop 3 (x # xs)) out)"

definition smtp_b64_encode :: "bytes \<Rightarrow> nat writer" where
  "smtp_b64_encode input out =
     (let need = (length input + 2) div 3 * 4
      in if length out < need then (None, out)
         else (case smtp_b64_loop 0 input out of (p, out) \<Rightarrow> (Some p, out)))"

abbreviation (input) SMTP_SASL_MAX :: nat where "SMTP_SASL_MAX \<equiv> 256"

fun contains_nul_loop :: "bytes \<Rightarrow> bool \<Rightarrow> bool" where
  "contains_nul_loop [] found = found"
| "contains_nul_loop (b # bs) found = contains_nul_loop bs (found \<or> b = 0)"

definition contains_nul :: "bytes \<Rightarrow> bool" where
  "contains_nul b = contains_nul_loop b False"

definition smtp_auth_plain :: "bytes \<Rightarrow> bytes \<Rightarrow> nat writer" where
  "smtp_auth_plain user pass out =
     (if user = [] \<or> contains_nul user \<or> contains_nul pass \<or>
         SMTP_SASL_MAX < length user + length pass + 2
      then (None, out)
      else
        let sasl = replicate SMTP_SASL_MAX 0;
            n = 0;
            sasl = sasl[n := 0];
            n = n + 1;
            sasl = blit n user sasl;
            n = n + length user;
            sasl = sasl[n := 0];
            n = n + 1;
            sasl = blit n pass sasl;
            n = n + length pass
        in wbind (smtp_put 0 (ascii ''AUTH PLAIN ''))
             (\<lambda>p. wbind (wtail p (smtp_b64_encode (take n sasl)))
               (\<lambda>m. smtp_put (p + m) crlf)) out)"

section \<open>The message\<close>

fun smtp_stuff_loop :: "bytes \<Rightarrow> bool \<Rightarrow> nat \<Rightarrow> (nat \<times> bool) writer" where
  "smtp_stuff_loop [] line_start p out = (Some (p, line_start), out)"
| "smtp_stuff_loop (b # bs) line_start p out =
     wbind (if line_start \<and> b = 46 then smtp_put p [46] else wret p)
       (\<lambda>p. wbind (smtp_put p [b])
         (\<lambda>p. smtp_stuff_loop bs (b = 10) p)) out"

definition smtp_body :: "bytes \<Rightarrow> nat writer" where
  "smtp_body body out =
     wbind (smtp_stuff_loop body True 0)
       (\<lambda>(p, _) out.
          wbind (if p < 2 \<or> out ! (p - 2) \<noteq> 13 \<or> out ! (p - 1) \<noteq> 10 then smtp_put p crlf else wret p)
            (\<lambda>p. smtp_put p (ascii ''.'' @ crlf)) out) out"

definition smtp_body_chunk :: "bytes \<Rightarrow> bool \<Rightarrow> (nat \<times> bool) writer" where
  "smtp_body_chunk chunk at_line_start out = smtp_stuff_loop chunk at_line_start 0 out"

definition smtp_body_end :: "bool \<Rightarrow> nat writer" where
  "smtp_body_end ends_with_crlf out =
     wbind (if \<not> ends_with_crlf then smtp_put 0 crlf else wret 0)
       (\<lambda>p. smtp_put p (ascii ''.'' @ crlf)) out"

section \<open>The delivery phase machine\<close>

datatype smtp_phase =
    Disconnected | Connecting | Greet | Ehlo | Auth | MailFrom | RcptTo | Data | Body | Quit | Done | Failed

datatype smtp_cmd =
    SendEhlo | SendAuth | SendMailFrom | SendRcptTo | SendData | SendBody | SendQuit | Complete | Fail

datatype smtp_auth_plan = PlanNone | PlanPlain | PlanRefuse

definition smtp_reply_accepts :: "smtp_phase \<Rightarrow> u16 \<Rightarrow> bool" where
  "smtp_reply_accepts phase code \<longleftrightarrow> phase = Body \<and> code = 250"

fun smtp_phase_code :: "smtp_phase \<Rightarrow> byte" where
  "smtp_phase_code Disconnected = 0"
| "smtp_phase_code Connecting = 1"
| "smtp_phase_code Greet = 2"
| "smtp_phase_code Ehlo = 3"
| "smtp_phase_code MailFrom = 4"
| "smtp_phase_code RcptTo = 5"
| "smtp_phase_code Data = 6"
| "smtp_phase_code Body = 7"
| "smtp_phase_code Quit = 8"
| "smtp_phase_code Done = 9"
| "smtp_phase_code Failed = 10"
| "smtp_phase_code Auth = 11"

definition smtp_on_reply :: "smtp_phase \<Rightarrow> u16 \<Rightarrow> smtp_auth_plan \<Rightarrow> smtp_cmd \<times> smtp_phase" where
  "smtp_on_reply phase code auth =
     (if phase = Greet \<and> code = 220 then (SendEhlo, Ehlo)
      else if phase = Ehlo \<and> code = 250 then
        (case auth of
           PlanNone \<Rightarrow> (SendMailFrom, MailFrom)
         | PlanPlain \<Rightarrow> (SendAuth, Auth)
         | PlanRefuse \<Rightarrow> (Fail, Failed))
      else if phase = Auth \<and> code = 235 then (SendMailFrom, MailFrom)
      else if phase = MailFrom \<and> code = 250 then (SendRcptTo, RcptTo)
      else if phase = RcptTo \<and> code = 250 then (SendData, Data)
      else if phase = Data \<and> code = 354 then (SendBody, Body)
      else if phase = Body \<and> code = 250 then (SendQuit, Quit)
      else if phase = Quit \<and> code = 221 then (Complete, Done)
      else (Fail, Failed))"

section \<open>Transparency\<close>

text \<open>What goes on the wire for a message, as a function of its bytes: a dot that begins a line is
  doubled, and the end-of-data marker stands on a line of its own.\<close>

fun stuff :: "bool \<Rightarrow> bytes \<Rightarrow> bytes" where
  "stuff ls [] = []"
| "stuff ls (b # bs) = (if ls \<and> b = 46 then [46, b] else [b]) @ stuff (b = 10) bs"

definition line_state :: "bool \<Rightarrow> bytes \<Rightarrow> bool" where
  "line_state ls bs = (if bs = [] then ls else last bs = 10)"

definition ends_crlf :: "bytes \<Rightarrow> bool" where
  "ends_crlf bs \<longleftrightarrow> (\<exists>a. bs = a @ crlf)"

definition end_marker :: "bytes \<Rightarrow> bytes" where
  "end_marker bs = (if ends_crlf bs then [] else crlf) @ ascii ''.'' @ crlf"

lemma stuff_append: "stuff ls (a @ b) = stuff ls a @ stuff (line_state ls a) b"
  by (induction a arbitrary: ls) (auto simp: line_state_def)

lemma line_state_append: "line_state ls (a @ b) = line_state (line_state ls a) b"
  by (simp add: line_state_def)

lemma smtp_stuff_loop_fits:
  "p + length (stuff ls bs) \<le> length out \<Longrightarrow>
   smtp_stuff_loop bs ls p out = (Some (p + length (stuff ls bs), line_state ls bs), blit p (stuff ls bs) out)"
proof (induction bs arbitrary: ls p out)
  case Nil
  then show ?case by (simp add: line_state_def)
next
  case (Cons b bs)
  let ?h = "if ls \<and> b = 46 then [46, b] else [b]"
  have IH: "smtp_stuff_loop bs (b = 10) (p + length ?h) (blit p ?h out) =
      (Some (p + length ?h + length (stuff (b = 10) bs), line_state (b = 10) bs),
       blit (p + length ?h) (stuff (b = 10) bs) (blit p ?h out))"
    using Cons.prems by (intro Cons.IH) auto
  have bl: "blit (p + length ?h) (stuff (b = 10) bs) (blit p ?h out) = blit p (stuff ls (b # bs)) out"
    using Cons.prems blit_blit_append [of p ?h "stuff (b = 10) bs" out] by auto
  have w: "wbind (if ls \<and> b = 46 then smtp_put p [46] else wret p) (\<lambda>p. smtp_put p [b]) out =
      (Some (p + length ?h), blit p ?h out)"
    using Cons.prems blit_blit_append [of p "[46]" "[b]" out]
    by (auto simp: wbind_def wret_def sput.put_fits)
  have "smtp_stuff_loop (b # bs) ls p out =
      wbind (wbind (if ls \<and> b = 46 then smtp_put p [46] else wret p) (\<lambda>p. smtp_put p [b]))
        (\<lambda>p. smtp_stuff_loop bs (b = 10) p) out"
    by (simp only: smtp_stuff_loop.simps wbind_assoc)
  also have "\<dots> = (Some (p + length ?h + length (stuff (b = 10) bs), line_state (b = 10) bs),
      blit p (stuff ls (b # bs)) out)"
    unfolding wbind_def [of "wbind _ _"] w using IH bl by simp
  finally show ?case by (auto simp: line_state_def)
qed

lemma smtp_stuff_loop_full:
  "p \<le> length out \<Longrightarrow> length out < p + length (stuff ls bs) \<Longrightarrow> fst (smtp_stuff_loop bs ls p out) = None"
proof (induction bs arbitrary: ls p out)
  case Nil
  then show ?case by simp
next
  case (Cons b bs)
  show ?case
  proof (cases "p + length (if ls \<and> b = 46 then [46, b] else [b]) \<le> length out")
    case True
    with Cons show ?thesis by (cases "ls \<and> b = 46") (auto simp: wbind_def wret_def sput.put_fits)
  next
    case False
    with Cons.prems have "p + 1 = length out \<and> ls \<and> b = 46 \<or> p = length out" by (auto split: if_splits)
    then show ?thesis by (auto simp: wbind_def wret_def sput.put_fits sput.put_full)
  qed
qed

lemma ends_crlf_iff: "ends_crlf bs \<longleftrightarrow> 2 \<le> length bs \<and> bs ! (length bs - 2) = 13 \<and> bs ! (length bs - 1) = 10"
proof
  assume "ends_crlf bs"
  then show "2 \<le> length bs \<and> bs ! (length bs - 2) = 13 \<and> bs ! (length bs - 1) = 10"
    by (auto simp: ends_crlf_def crlf_def nth_append)
next
  assume a: "2 \<le> length bs \<and> bs ! (length bs - 2) = 13 \<and> bs ! (length bs - 1) = 10"
  then obtain x y c where "rev bs = y # x # c"
    by (cases "rev bs" rule: list.exhaust; cases "tl (rev bs)") (auto simp: numeral_eq_Suc dest: arg_cong [of _ _ length])
  then have "bs = rev c @ [x, y]" by (metis append.assoc append_Cons append_Nil rev.simps(2) rev_rev_ident)
  with a show "ends_crlf bs" by (auto simp: ends_crlf_def crlf_def nth_append)
qed

lemma stuff_snoc2: "\<exists>c. stuff ls (a @ crlf) = c @ crlf"
  by (auto simp: stuff_append crlf_def)

lemma stuff_Nil_iff [simp]: "stuff ls m = [] \<longleftrightarrow> m = []"
  by (cases m) auto

lemma ends_crlf_stuff: "ends_crlf (stuff ls m) = ends_crlf m"
proof
  assume "ends_crlf m"
  then show "ends_crlf (stuff ls m)" using stuff_snoc2 by (auto simp: ends_crlf_def)
next
  assume e: "ends_crlf (stuff ls m)"
  then have "m \<noteq> []" by (auto simp: ends_crlf_def crlf_def)
  then obtain a y where m: "m = a @ [y]" by (metis append_butlast_last_id)
  have y: "y = 10" using e by (auto simp: ends_crlf_def crlf_def m stuff_append split: if_splits)
  with e have "last (stuff ls a) = 13 \<and> a \<noteq> []"
    by (cases "stuff ls a" rule: rev_cases) (auto simp: ends_crlf_def crlf_def m stuff_append)
  then obtain c x where a: "a = c @ [x]" by (metis append_butlast_last_id)
  with \<open>last (stuff ls a) = 13 \<and> a \<noteq> []\<close> have "x = 13" by (auto simp: stuff_append split: if_splits)
  with y a m show "ends_crlf m" by (simp add: ends_crlf_def crlf_def)
qed

lemma length_stuff_le: "length (stuff ls m) \<le> 2 * length m"
proof (induction m arbitrary: ls)
  case Nil
  then show ?case by simp
next
  case (Cons b m)
  show ?case using Cons.IH [of "b = 10"] by auto
qed

lemma smtp_body_eq:
  assumes "length (stuff True m @ end_marker m) \<le> length out"
  shows "smtp_body m out = (Some (length (stuff True m @ end_marker m)), blit 0 (stuff True m @ end_marker m) out)"
proof -
  let ?s = "stuff True m"
  let ?o = "blit 0 ?s out"
  have l: "length ?s \<le> length out" using assms by simp
  have loop: "smtp_stuff_loop m True 0 out = (Some (length ?s, line_state True m), ?o)"
    using smtp_stuff_loop_fits [of 0 True m out] l by simp
  have nth: "i < length ?s \<Longrightarrow> ?o ! i = ?s ! i" for i by (simp add: blit_def nth_append)
  have c: "(length ?s < 2 \<or> ?o ! (length ?s - 2) \<noteq> 13 \<or> ?o ! (length ?s - 1) \<noteq> 10) = (\<not> ends_crlf m)"
    using ends_crlf_stuff [of True m] ends_crlf_iff [of ?s] nth [of "length ?s - 2"] nth [of "length ?s - 1"]
    by (cases "2 \<le> length ?s") auto
  have "length (end_marker m) \<le> length out - length ?s" using assms by simp
  have w: "wbind (if \<not> ends_crlf m then smtp_put (length ?s) crlf else wret (length ?s))
        (\<lambda>p. smtp_put p (ascii ''.'' @ crlf)) ?o =
      (Some (length ?s + length (end_marker m)), blit (length ?s) (end_marker m) ?o)"
    using assms blit_blit_append [of "length ?s" crlf "ascii ''.'' @ crlf" ?o]
    by (auto simp: end_marker_def wbind_def wret_def sput.put_fits)
  show ?thesis
    unfolding smtp_body_def wbind_def [of "smtp_stuff_loop _ _ _"] loop prod.case option.case c w
    using blit_blit_append [of 0 ?s "end_marker m" out] assms by simp
qed

text \<open>
  The receiving side of RFC 5321, section 4.5.2: a line that is a single dot ends the message, a dot
  that begins any other line is dropped. \<open>lf\<close> is a receiver that takes a bare LF as a line ending,
  otherwise only CRLF ends a line. The answer is the message and the bytes after its end.
\<close>

definition keep :: "bytes \<Rightarrow> (bytes \<times> bytes) option \<Rightarrow> (bytes \<times> bytes) option" where
  "keep m r = map_option (apfst (append m)) r"

fun smtp_recv :: "bool \<Rightarrow> bool \<Rightarrow> bool \<Rightarrow> bytes \<Rightarrow> (bytes \<times> bytes) option" where
  "smtp_recv lf ls cr [] = None"
| "smtp_recv lf ls cr (b # bs) =
     (if ls \<and> b = 46 then
        if take 2 bs = crlf then Some ([], drop 2 bs)
        else if lf \<and> take 1 bs = [10] then Some ([], drop 1 bs)
        else smtp_recv lf False False bs
      else keep [b] (smtp_recv lf (b = 10 \<and> (lf \<or> cr)) (b = 13) bs))"

lemma keep_Nil [simp]: "keep [] r = r"
  by (cases r) (auto simp: keep_def)

lemma keep_keep [simp]: "keep a (keep b r) = keep (a @ b) r"
  by (cases r) (auto simp: keep_def)

lemma keep_Some [simp]: "keep m (Some (x, y)) = Some (m @ x, y)"
  by (simp add: keep_def)

text \<open>Every line ending of the message is one the receiver knows.\<close>

fun lines_known :: "bool \<Rightarrow> bool \<Rightarrow> bytes \<Rightarrow> bool" where
  "lines_known lf cr [] = True"
| "lines_known lf cr (b # bs) = ((b = 10 \<longrightarrow> lf \<or> cr) \<and> lines_known lf (b = 13) bs)"

definition cr_state :: "bool \<Rightarrow> bytes \<Rightarrow> bool" where
  "cr_state cr bs = (if bs = [] then cr else last bs = 13)"

fun recv_state :: "bool \<Rightarrow> bool \<Rightarrow> bool \<Rightarrow> bytes \<Rightarrow> bool" where
  "recv_state lf ls cr [] = ls"
| "recv_state lf ls cr (b # bs) = recv_state lf (b = 10 \<and> (lf \<or> cr)) (b = 13) bs"

lemma recv_stuff:
  "lines_known lf cr m \<Longrightarrow>
   smtp_recv lf ls cr (stuff ls m @ t) = keep m (smtp_recv lf (line_state ls m) (cr_state cr m) t)"
proof (induction m arbitrary: ls cr)
  case Nil
  then show ?case by (simp add: line_state_def cr_state_def)
next
  case (Cons b m)
  have st: "line_state (b = 10) m = line_state ls (b # m)" "cr_state (b = 13) m = cr_state cr (b # m)"
    by (auto simp: line_state_def cr_state_def)
  have IH: "smtp_recv lf (b = 10) (b = 13) (stuff (b = 10) m @ t) =
      keep m (smtp_recv lf (line_state ls (b # m)) (cr_state cr (b # m)) t)"
    using Cons by (simp flip: st)
  have "b = 10 \<and> (lf \<or> cr) \<longleftrightarrow> b = 10" using Cons.prems by auto
  then show ?case
    using IH by (auto simp: crlf_def)
qed

lemma recv_stuff_any:
  "(rs \<longrightarrow> ls) \<Longrightarrow> \<exists>m'. \<forall>t. smtp_recv lf rs cr (stuff ls m @ t) =
     keep m' (smtp_recv lf (recv_state lf rs cr m) (cr_state cr m) t)"
proof (induction m arbitrary: rs ls cr)
  case Nil
  show ?case by (auto simp: cr_state_def intro: exI [of _ "[]"])
next
  case (Cons b m)
  have st: "cr_state (b = 13) m = cr_state cr (b # m)" by (auto simp: cr_state_def)
  obtain m' where IH: "\<And>t. smtp_recv lf (b = 10 \<and> (lf \<or> cr)) (b = 13) (stuff (b = 10) m @ t) =
      keep m' (smtp_recv lf (recv_state lf rs cr (b # m)) (cr_state cr (b # m)) t)"
    using Cons.IH [of "b = 10 \<and> (lf \<or> cr)" "b = 10" "b = 13"] by (auto simp: st)
  show ?case
  proof (cases "ls \<and> b = 46")
    case True
    then show ?thesis
      using IH Cons.prems
      by (cases rs) (auto simp: crlf_def intro!: exI [of _ "if rs then b # m' else 46 # b # m'"])
  next
    case False
    then show ?thesis
      using IH Cons.prems by (auto intro!: exI [of _ "b # m'"])
  qed
qed

lemma recv_end_marker:
  assumes "ends_crlf m \<longrightarrow> ls"
  shows "smtp_recv lf ls cr (end_marker m @ rest) = Some (if ends_crlf m then [] else crlf, rest)"
  using assms by (auto simp: end_marker_def crlf_def ascii_def of_char_def)

lemma ends_crlf_states:
  "ends_crlf m \<Longrightarrow> line_state ls m"
  "ends_crlf m \<Longrightarrow> recv_state lf rs cr m"
proof -
  have "recv_state lf r c (a @ [13, 10])" for r c a
    by (induction a arbitrary: r c) simp_all
  then show "ends_crlf m \<Longrightarrow> recv_state lf rs cr m" by (auto simp: ends_crlf_def crlf_def)
  show "ends_crlf m \<Longrightarrow> line_state ls m" by (auto simp: ends_crlf_def crlf_def line_state_def)
qed

lemma lines_known_lf [simp]: "lines_known True cr m"
  by (induction m arbitrary: cr) simp_all

lemma recv_message:
  assumes "lines_known lf False m"
  shows "smtp_recv lf True False (stuff True m @ end_marker m @ rest) =
    Some (m @ (if ends_crlf m then [] else crlf), rest)"
  using recv_stuff [OF assms, of True] recv_end_marker [of m] ends_crlf_states(1) [of m True]
  by simp

lemma recv_message_any:
  "\<exists>m'. \<forall>rest. smtp_recv lf True False (stuff True m @ end_marker m @ rest) = Some (m', rest)"
proof -
  obtain m' where "\<And>t. smtp_recv lf True False (stuff True m @ t) =
      keep m' (smtp_recv lf (recv_state lf True False m) (cr_state False m) t)"
    using recv_stuff_any [of True True lf False m] by auto
  then show ?thesis
    using recv_end_marker [of m "recv_state lf True False m"] ends_crlf_states(2) [of m lf True False]
    by (auto intro!: exI [of _ "m' @ (if ends_crlf m then [] else crlf)"])
qed

text \<open>A message sent in spans: each span is stuffed into a buffer of \<open>sz\<close> bytes with the line state the
  one before it left, and what it wrote goes out. The answer is all that went out and the line state
  at the end.\<close>

fun send_spans :: "nat \<Rightarrow> bool \<Rightarrow> bytes list \<Rightarrow> (bytes \<times> bool) option" where
  "send_spans sz ls [] = Some ([], ls)"
| "send_spans sz ls (c # cs) =
     (case smtp_body_chunk c ls (replicate sz 0) of
        (None, _) \<Rightarrow> None
      | (Some (n, ls'), out) \<Rightarrow> map_option (apfst (append (take n out))) (send_spans sz ls' cs))"

lemma send_spans_stuff:
  "list_all (\<lambda>c. 2 * length c \<le> sz) cs \<Longrightarrow>
   send_spans sz ls cs = Some (stuff ls (concat cs), line_state ls (concat cs))"
proof (induction cs arbitrary: ls)
  case Nil
  then show ?case by (simp add: line_state_def)
next
  case (Cons c cs)
  have "length (stuff ls c) \<le> sz" using Cons.prems length_stuff_le [of ls c] by simp
  then have "smtp_body_chunk c ls (replicate sz 0) = (Some (length (stuff ls c), line_state ls c), blit 0 (stuff ls c) (replicate sz 0))"
    using smtp_stuff_loop_fits [of 0 ls c "replicate sz 0"] by (simp add: smtp_body_chunk_def)
  then show ?case using Cons by (simp add: blit_def stuff_append line_state_append)
qed

lemma smtp_body_end_eq:
  "smtp_body_end (ends_crlf m) (replicate 8 0) = (Some (length (end_marker m)), blit 0 (end_marker m) (replicate 8 0))"
  using blit_blit_append [of 0 crlf "ascii ''.'' @ crlf" "replicate 8 0"]
  by (auto simp: smtp_body_end_def end_marker_def wbind_def wret_def sput.put_fits)

text \<open>C8. Transparency. A message cut into spans anywhere, each stuffed into a buffer of twice its length
  with the line state carried from the span before, and closed with the end-of-data marker for a message
  that does or does not end with CRLF: what goes out, read by a receiver that undoes transparency and
  followed by any further bytes, is the message (with a final CRLF if it had none), and the receiver
  stops exactly at its end. This holds for a receiver that takes a bare LF as a line ending, and for one
  that takes only CRLF when the message has no bare LF; and even when it has one, the strict receiver
  stops at the same place, so no byte of a message is ever read as a command. The whole message written
  in one go by \<open>smtp_body\<close>, with room for it, is the same bytes.\<close>

theorem smtp_body_transparent:
  assumes "list_all (\<lambda>c. 2 * length c \<le> sz) cs" and "m = concat cs"
  shows "\<exists>wire ls n tail. send_spans sz True cs = Some (wire, ls) \<and>
    smtp_body_end (ends_crlf m) (replicate 8 0) = (Some n, tail) \<and>
    (\<forall>lf rest. lines_known lf False m \<longrightarrow>
       smtp_recv lf True False (wire @ take n tail @ rest) = Some (m @ (if ends_crlf m then [] else crlf), rest)) \<and>
    (\<exists>m'. \<forall>rest. smtp_recv False True False (wire @ take n tail @ rest) = Some (m', rest)) \<and>
    (\<forall>out. 2 * length m + 5 \<le> length out \<longrightarrow>
       (\<exists>k out'. smtp_body m out = (Some k, out') \<and> take k out' = wire @ take n tail))"
proof -
  let ?w = "stuff True m" and ?n = "length (end_marker m)" and ?t = "blit 0 (end_marker m) (replicate 8 0)"
  have sp: "send_spans sz True cs = Some (?w, line_state True m)" using send_spans_stuff [OF assms(1)] assms(2) by simp
  have tl: "take ?n ?t = end_marker m" by (simp add: blit_def)
  have one: "\<exists>k out'. smtp_body m out = (Some k, out') \<and> take k out' = ?w @ take ?n ?t" if "2 * length m + 5 \<le> length out" for out
  proof -
    have "length (?w @ end_marker m) \<le> length out"
      using that length_stuff_le [of True m] by (auto simp: end_marker_def)
    then show ?thesis using smtp_body_eq [of m out] unfolding tl by (simp add: blit_def)
  qed
  show ?thesis
    by (rule exI [of _ ?w], rule exI [of _ "line_state True m"], rule exI [of _ ?n], rule exI [of _ ?t])
       (use sp smtp_body_end_eq [of m] recv_message [of _ m] recv_message_any [of False m] one in \<open>simp add: tl\<close>)
qed

text \<open>A line break falls between the spans, and the dot that begins the next one is doubled.\<close>

theorem smtp_body_transparent_witness:
  "\<exists>wire ls n tail. send_spans 4 True [[46, 13], [10], [46]] = Some (wire, ls) \<and>
     smtp_body_end False (replicate 8 0) = (Some n, tail) \<and>
     smtp_recv False True False (wire @ take n tail @ ascii ''QUIT'') = Some ([46, 13, 10, 46] @ crlf, ascii ''QUIT'')"
proof -
  have "\<not> ends_crlf [46, 13, 10, 46]" by (simp add: ends_crlf_iff)
  moreover have "lines_known False False [46, 13, 10, 46]" by simp
  ultimately show ?thesis
    using smtp_body_transparent [of 4 "[[46, 13], [10], [46]]" "[46, 13, 10, 46]"] by fastforce
qed

section \<open>Properties of the phase machine and the codes\<close>

lemma smtp_phase_code_inj: "smtp_phase_code a = smtp_phase_code b \<Longrightarrow> a = b"
  by (cases a; cases b) simp_all

lemma smtp_on_reply_fail: "fst (smtp_on_reply ph code plan) = Fail \<longleftrightarrow> snd (smtp_on_reply ph code plan) = Failed"
  by (auto simp: smtp_on_reply_def split: smtp_auth_plan.splits)

section \<open>The AUTH offer is a whole word\<close>

text \<open>The words of a parameter list, split at blanks.\<close>

fun blank_words :: "bytes \<Rightarrow> bytes \<Rightarrow> bytes list" where
  "blank_words cur [] = (if cur = [] then [] else [cur])"
| "blank_words cur (b # bs) =
     (if smtp_blank b then (if cur = [] then [] else [cur]) @ blank_words [] bs
      else blank_words (cur @ [b]) bs)"

lemma blank_words_skip: "list_all (\<lambda>b. smtp_blank b) bl \<Longrightarrow> blank_words [] (bl @ v) = blank_words [] v"
  by (induction bl) auto

lemma blank_words_token:
  "list_all (\<lambda>b. \<not> smtp_blank b) w \<Longrightarrow> cur @ w \<noteq> [] \<Longrightarrow> v = [] \<or> smtp_blank (hd v) \<Longrightarrow>
   blank_words cur (w @ v) = (cur @ w) # blank_words [] v"
proof (induction w arbitrary: cur)
  case Nil
  then show ?case by (cases v) auto
next
  case (Cons b w)
  then show ?case by simp
qed

lemma hd_takeWhile_dropWhile:
  assumes "takeWhile L (dropWhile T x) \<noteq> []"
  shows "\<not> T (hd (takeWhile L (dropWhile T x))) \<and> L (hd (takeWhile L (dropWhile T x)))"
proof (cases "dropWhile T x")
  case Nil
  with assms show ?thesis by simp
next
  case (Cons y ys)
  with hd_dropWhile [of T x] assms show ?thesis by (auto split: if_splits)
qed

lemma smtp_offer_loop_words:
  "at \<le> length rest \<Longrightarrow> smtp_offer_loop rest at \<longleftrightarrow>
   (\<exists>w \<in> set (blank_words [] (takeWhile (\<lambda>b. b \<noteq> 13) (drop at rest))). eq_ignore_ascii_case w (ascii ''PLAIN''))"
proof (induction rest at rule: smtp_offer_loop.induct)
  case (1 rest at)
  let ?tok = "\<lambda>b. \<not> (smtp_blank b \<or> b = 13)" and ?bl = "\<lambda>b. smtp_blank b" and ?L = "takeWhile (\<lambda>b. b \<noteq> (13 :: byte))"
  let ?t = "drop at rest"
  let ?t1 = "dropWhile ?bl ?t" and ?w = "takeWhile ?tok (dropWhile ?bl ?t)"
  let ?t2 = "dropWhile ?tok (dropWhile ?bl ?t)"
  let ?s = "smtp_skip_blanks rest at"
  let ?e = "smtp_token_end rest ?s"
  show ?case
  proof (cases "at < length rest")
    case False
    then show ?thesis using 1 by (subst smtp_offer_loop.simps) simp
  next
    case lt: True
    have sl: "?s \<le> length rest" using lt by (simp add: smtp_skip_blanks_def scan_while_le)
    have el: "?e \<le> length rest" using sl by (simp add: smtp_token_end_def scan_while_le)
    have ds: "drop ?s rest = ?t1" using lt by (simp add: smtp_skip_blanks_def drop_scan_while)
    have de: "drop ?e rest = ?t2" using sl ds by (simp add: smtp_token_end_def drop_scan_while)
    have sw: "bslice ?s ?e rest = ?w" using sl ds by (simp add: smtp_token_end_def bslice_scan_while)
    have ee: "?e = ?s \<longleftrightarrow> ?w = []" using sl ds by (simp add: smtp_token_end_def scan_while_eq)
    have t: "takeWhile ?bl ?t @ ?w @ ?t2 = ?t"
      unfolding takeWhile_dropWhile_id [of ?tok ?t1] by (rule takeWhile_dropWhile_id)
    have L: "?L ?t = takeWhile ?bl ?t @ ?w @ ?L ?t2"
    proof -
      have app: "?L (a @ x) = a @ ?L x" if "13 \<notin> set a" for a x using that by (induction a) auto
      have "13 \<notin> set (takeWhile ?bl ?t)" "13 \<notin> set ?w" by (auto dest: set_takeWhileD)
      then have "?L (takeWhile ?bl ?t @ ?w @ ?t2) = takeWhile ?bl ?t @ ?w @ ?L ?t2" by (simp only: app not_False_eq_True)
      then show ?thesis unfolding t .
    qed
    have allb: "list_all ?bl (takeWhile ?bl ?t)" "list_all (\<lambda>b. \<not> smtp_blank b) ?w"
      by (auto simp: list_all_iff dest: set_takeWhileD)
    have hd: "?L ?t2 = [] \<or> smtp_blank (hd (?L ?t2))"
      using hd_takeWhile_dropWhile [of "\<lambda>b. b \<noteq> 13" ?tok ?t1] by blast
    show ?thesis
    proof (cases "?w = []")
      case True
      then have "?t2 = ?t1" using takeWhile_dropWhile_id [of ?tok ?t1] by (simp only: append_Nil)
      moreover have "?L ?t1 = []"
      proof (rule ccontr)
        assume n: "?L ?t1 \<noteq> []"
        then obtain y ys where y: "?t1 = y # ys" by (cases ?t1) auto
        with n hd_takeWhile_dropWhile [OF n] have "?tok y" by (auto split: if_splits)
        with y True show False by simp
      qed
      ultimately have "?L ?t2 = []" by simp
      then have "blank_words [] (?L ?t) = []" using L True blank_words_skip [OF allb(1), of "[]"] by simp
      with lt True ee show ?thesis by (subst smtp_offer_loop.simps) (simp add: Let_def)
    next
      case False
      have bw: "blank_words [] (?L ?t) = ?w # blank_words [] (?L ?t2)"
        unfolding L blank_words_skip [OF allb(1)] using blank_words_token [OF allb(2) _ hd, of "[]"] False by simp
      have "smtp_offer_loop rest at = (eq_ignore_ascii_case ?w (ascii ''PLAIN'') \<or> smtp_offer_loop rest ?e)"
        using lt ee False sw by (subst smtp_offer_loop.simps) (simp add: Let_def)
      moreover have "\<not> eq_ignore_ascii_case ?w (ascii ''PLAIN'') \<Longrightarrow> smtp_offer_loop rest ?e =
          (\<exists>w \<in> set (blank_words [] (?L ?t2)). eq_ignore_ascii_case w (ascii ''PLAIN''))"
        using 1 lt ee False sw el de by auto
      ultimately show ?thesis using bw by auto
    qed
  qed
qed

lemma smtp_offers_auth_plain_words:
  "smtp_offers_auth_plain (a # b # c # d # rest) \<longleftrightarrow>
   (\<exists>kw sep ps. rest = kw @ [sep] @ ps \<and> eq_ignore_ascii_case kw (ascii ''AUTH'') \<and> smtp_blank sep \<and>
     (\<exists>w \<in> set (blank_words [] (takeWhile (\<lambda>b. b \<noteq> 13) ps)). eq_ignore_ascii_case w (ascii ''PLAIN'')))"
  (is "?l \<longleftrightarrow> ?r")
proof -
  have len: "length kw = 4" if "eq_ignore_ascii_case kw (ascii ''AUTH'')" for kw
    using that by (auto simp: eq_ignore_ascii_case_def dest: map_eq_imp_length_eq)
  have loop: "smtp_offer_loop rest 4 \<longleftrightarrow>
      (\<exists>w \<in> set (blank_words [] (takeWhile (\<lambda>b. b \<noteq> 13) (drop 5 rest))). eq_ignore_ascii_case w (ascii ''PLAIN''))"
    if "5 \<le> length rest" "smtp_blank (rest ! 4)"
  proof -
    have "drop 4 rest = rest ! 4 # drop 5 rest" using that(1) Cons_nth_drop_Suc [of 4 rest] by simp
    then show ?thesis using that smtp_offer_loop_words [of 4 rest] by auto
  qed
  have l: "?l \<longleftrightarrow> 5 \<le> length rest \<and> eq_ignore_ascii_case (take 4 rest) (ascii ''AUTH'') \<and> smtp_blank (rest ! 4) \<and>
      smtp_offer_loop rest 4"
    by (auto simp: smtp_offers_auth_plain_def not_less)
  show ?thesis
  proof
    assume ?l
    with l loop show ?r
      by (intro exI [of _ "take 4 rest"] exI [of _ "rest ! 4"] exI [of _ "drop 5 rest"])
         (use Cons_nth_drop_Suc [of 4 rest] append_take_drop_id [of 4 rest] in simp)
  next
    assume ?r
    then obtain kw sep ps where r: "rest = kw @ [sep] @ ps" "eq_ignore_ascii_case kw (ascii ''AUTH'')" "smtp_blank sep"
      "\<exists>w \<in> set (blank_words [] (takeWhile (\<lambda>b. b \<noteq> 13) ps)). eq_ignore_ascii_case w (ascii ''PLAIN'')"
      by blast
    with len [of kw] have "5 \<le> length rest" "take 4 rest = kw" "rest ! 4 = sep" "drop 5 rest = ps"
      by (auto simp: nth_append)
    with l loop r show ?l by simp
  qed
qed

section \<open>The shape of base64 output\<close>

definition b64_word :: "bytes \<Rightarrow> u32" where
  "b64_word c = push_bit 16 (ucast (c ! 0)) OR push_bit 8 (if 1 < length c then ucast (c ! 1) else 0)
     OR (if 2 < length c then ucast (c ! 2) else 0)"

definition b64_quad :: "bytes \<Rightarrow> bytes" where
  "b64_quad c =
     [b64_alphabet ! unat (drop_bit 18 (b64_word c) AND 0x3F),
      b64_alphabet ! unat (drop_bit 12 (b64_word c) AND 0x3F),
      if 1 < length c then b64_alphabet ! unat (drop_bit 6 (b64_word c) AND 0x3F) else 61,
      if 2 < length c then b64_alphabet ! unat (b64_word c AND 0x3F) else 61]"

fun b64 :: "bytes \<Rightarrow> bytes" where
  "b64 [] = []"
| "b64 (x # xs) = b64_quad (take 3 (x # xs)) @ b64 (drop 3 (x # xs))"

lemma length_b64_quad [simp]: "length (b64_quad c) = 4"
  by (simp add: b64_quad_def)

lemma length_b64: "length (b64 inp) = (length inp + 2) div 3 * 4"
proof (induction inp rule: b64.induct)
  case 1
  then show ?case by simp
next
  case (2 x xs)
  have "(length (x # xs) + 2) div 3 = Suc ((length (drop 3 (x # xs)) + 2) div 3)"
  proof (cases "2 \<le> length xs")
    case True
    then have "length (x # xs) + 2 = 3 + (length (drop 3 (x # xs)) + 2)" by simp
    then show ?thesis by (metis div_add_self1 Suc_eq_plus1 zero_neq_numeral add.commute)
  next
    case False
    then show ?thesis by (cases "length xs") auto
  qed
  with 2 show ?case by (simp only: b64.simps length_append length_b64_quad mult_Suc)
qed

lemma updates_blit4:
  assumes "p + 4 \<le> length out"
  shows "out[p := a, p + 1 := b, p + 2 := c, p + 3 := d] = blit p [a, b, c, d] out"
proof -
  have "out[p := a, p + 1 := b] = blit p [a, b] out"
    using assms blit_blit_append [of p "[a]" "[b]" out] by (simp add: blit_single)
  moreover have "(blit p [a, b] out)[p + 2 := c] = blit p [a, b, c] out"
    using assms blit_blit_append [of p "[a, b]" "[c]" out] by (simp add: blit_single)
  moreover have "(blit p [a, b, c] out)[p + 3 := d] = blit p [a, b, c, d] out"
    using assms blit_blit_append [of p "[a, b, c]" "[d]" out] by (simp add: blit_single eval_nat_numeral)
  ultimately show ?thesis by simp
qed

lemma smtp_b64_loop_eq:
  "p + length (b64 inp) \<le> length out \<Longrightarrow>
   smtp_b64_loop p inp out = (p + length (b64 inp), blit p (b64 inp) out)"
proof (induction p inp out rule: smtp_b64_loop.induct)
  case (1 p out)
  then show ?case by simp
next
  case (2 p x xs out)
  let ?c = "take 3 (x # xs)"
  have q: "p + 4 \<le> length out" using "2.prems" by simp
  have step: "smtp_b64_loop p (x # xs) out = smtp_b64_loop (p + 4) (drop 3 (x # xs)) (blit p (b64_quad ?c) out)"
    unfolding b64_quad_def updates_blit4 [OF q, symmetric] b64_word_def smtp_b64_loop.simps Let_def ..
  have "smtp_b64_loop (p + 4) (drop 3 (x # xs)) (blit p (b64_quad ?c) out) =
      (p + 4 + length (b64 (drop 3 (x # xs))), blit (p + 4) (b64 (drop 3 (x # xs))) (blit p (b64_quad ?c) out))"
    using "2.IH" [OF refl refl refl refl refl refl refl refl refl] "2.prems" q
    unfolding b64_quad_def updates_blit4 [OF q, symmetric] b64_word_def by (simp add: b64_quad_def)
  then show ?case
    unfolding step using blit_blit_append [of p "b64_quad ?c" "b64 (drop 3 (x # xs))" out] "2.prems" by simp
qed

lemma smtp_b64_encode_eq:
  "smtp_b64_encode inp out =
    (if length (b64 inp) \<le> length out then (Some (length (b64 inp)), blit 0 (b64 inp) out) else (None, out))"
  using smtp_b64_loop_eq [of 0 inp out] by (simp add: smtp_b64_encode_def length_b64)

lemma contains_nul_iff [simp]: "contains_nul b \<longleftrightarrow> 0 \<in> set b"
proof -
  have "contains_nul_loop b f \<longleftrightarrow> f \<or> 0 \<in> set b" for f
    by (induction b arbitrary: f) auto
  then show ?thesis by (simp add: contains_nul_def)
qed

definition sasl_plain :: "bytes \<Rightarrow> bytes \<Rightarrow> bytes" where
  "sasl_plain user pass = 0 # user @ 0 # pass"

lemma sasl_buffer:
  assumes "length user + length pass + 2 \<le> length buf"
  shows "take (1 + length user + 1 + length pass)
      (blit (1 + length user + 1) pass ((blit 1 user (buf[0 := 0]))[1 + length user := 0])) = sasl_plain user pass"
proof -
  have "0 < length buf" using assms by linarith
  then have "buf[0 := 0] = blit 0 [0] buf" by (rule blit_single)
  then have "blit 1 user (buf[0 := 0]) = blit 0 (0 # user) buf"
    using assms blit_blit_append [of 0 "[0]" user buf] by simp
  then have "(blit 1 user (buf[0 := 0]))[1 + length user := 0] = blit 0 (0 # user @ [0]) buf"
    using assms blit_blit_append [of 0 "0 # user" "[0]" buf] by (simp add: blit_single)
  then have "blit (1 + length user + 1) pass ((blit 1 user (buf[0 := 0]))[1 + length user := 0]) =
      blit 0 (sasl_plain user pass) buf"
    using assms blit_blit_append [of 0 "0 # user @ [0]" pass buf] by (simp add: sasl_plain_def)
  then show ?thesis by (simp add: blit_def sasl_plain_def)
qed

definition sasl_legal :: "bytes \<Rightarrow> bytes \<Rightarrow> bool" where
  "sasl_legal user pass \<longleftrightarrow>
     user \<noteq> [] \<and> 0 \<notin> set user \<and> 0 \<notin> set pass \<and> length user + length pass + 2 \<le> SMTP_SASL_MAX"

definition auth_line :: "bytes \<Rightarrow> bytes \<Rightarrow> bytes" where
  "auth_line user pass = ascii ''AUTH PLAIN '' @ b64 (sasl_plain user pass) @ crlf"

lemma smtp_auth_plain_eq:
  assumes "sasl_legal user pass" and "length (auth_line user pass) \<le> length out"
  shows "smtp_auth_plain user pass out = (Some (length (auth_line user pass)), blit 0 (auth_line user pass) out)"
proof -
  let ?h = "ascii ''AUTH PLAIN ''" and ?e = "b64 (sasl_plain user pass)"
  have sb: "take (1 + length user + 1 + length pass)
      (blit (1 + length user + 1) pass ((blit 1 user ((replicate SMTP_SASL_MAX 0)[0 := 0]))[1 + length user := 0])) =
      sasl_plain user pass"
    using assms(1) by (intro sasl_buffer) (simp add: sasl_legal_def)
  have l: "11 + length ?e + 2 \<le> length out" using assms(2) by (simp add: auth_line_def)
  have h: "smtp_put 0 ?h out = (Some 11, blit 0 ?h out)" using l by (simp add: sput.put_fits)
  have e: "wtail 11 (smtp_b64_encode (sasl_plain user pass)) (blit 0 ?h out) = (Some (length ?e), blit 0 (?h @ ?e) out)"
    using l by (simp add: wtail_def smtp_b64_encode_eq blit_def)
  have c: "smtp_put (11 + length ?e) crlf (blit 0 (?h @ ?e) out) = (Some (length (auth_line user pass)), blit 0 (auth_line user pass) out)"
  proof -
    have "11 + length ?e = 0 + length (?h @ ?e)" by simp
    with l blit_blit_append [of 0 "?h @ ?e" crlf out] show ?thesis
      by (simp only: sput.put_fits auth_line_def) (simp add: smtp_put_def)
  qed
  have "smtp_auth_plain user pass out =
      wbind (smtp_put 0 ?h) (\<lambda>p. wbind (wtail p (smtp_b64_encode (sasl_plain user pass))) (\<lambda>m. smtp_put (p + m) crlf)) out"
    using assms(1) sb by (simp add: smtp_auth_plain_def sasl_legal_def Let_def)
  then show ?thesis using h e c by (simp add: wbind_def)
qed

lemma smtp_auth_plain_refuses: "\<not> sasl_legal user pass \<Longrightarrow> smtp_auth_plain user pass out = (None, out)"
  by (auto simp: smtp_auth_plain_def sasl_legal_def)

lemma sasl_plain_inj:
  assumes "0 \<notin> set u" "0 \<notin> set u'" "sasl_plain u p = sasl_plain u' p'"
  shows "u = u' \<and> p = p'"
proof -
  have "takeWhile (\<lambda>b. b \<noteq> 0) (u @ 0 # p) = u" "takeWhile (\<lambda>b. b \<noteq> 0) (u' @ 0 # p') = u'"
    using assms(1,2) by (simp_all add: takeWhile_append takeWhile_eq_all_conv [THEN iffD2])
  with assms(3) show ?thesis by (auto simp: sasl_plain_def)
qed

end
