(* ===== verification/Mime.thy ===== *)
theory Mime
  imports Smtp_Core
begin

text \<open>
  \<open>modules/common/mime.rs\<close>: media types and their parameters, transfer encodings, multipart
  delimiters, and the quoted-printable and base64 decoders. Spans are offsets into the vl they
  were parsed from; reading a span of another vl may be out of range, so the readers of spans
  answer \<^const>\<open>None\<close> for the panic.

  What is shown: the parameter scanner always advances and its spans are in range, so \<open>find_param\<close>
  ends and its readers do not panic; quoted-printable decoding accepts exactly the strings built of
  literal bytes, escapes and soft breaks, and gives the bytes they stand for; base64 decoding inverts
  the encoder of \<open>smtp_core\<close>.
\<close>

abbreviation (input) MAX_BOUNDARY_LEN :: nat where "MAX_BOUNDARY_LEN \<equiv> 70"

section \<open>Media types and parameters\<close>

record media_type =
  mt_type_at :: nat
  mt_type_len :: nat
  mt_sub_at :: nat
  mt_sub_len :: nat
  mt_params_at :: nat
  mt_params_len :: nat

definition is_token :: "byte \<Rightarrow> bool" where
  "is_token b \<longleftrightarrow> 32 < b \<and> b < 127 \<and> b \<notin> set (ascii ''()<>@,;:'' @ [92, 34] @ ascii ''/[]?='')"

definition is_wsp :: "byte \<Rightarrow> bool" where
  "is_wsp b \<longleftrightarrow> b = 32 \<or> b = 9"

definition skip_wsp :: "bytes \<Rightarrow> nat \<Rightarrow> nat" where
  "skip_wsp vl at = scan_while is_wsp vl at"

definition parse_content_type :: "bytes \<Rightarrow> media_type option" where
  "parse_content_type vl =
     (let type_at = skip_wsp vl 0;
          i = scan_while is_token vl type_at;
          type_len = i - type_at
      in if type_len = 0 \<or> length vl \<le> i \<or> vl ! i \<noteq> 47 then None
         else
           let sub_at = i + 1;
               i = scan_while is_token vl sub_at;
               sub_len = i - sub_at
           in if sub_len = 0 then None
              else Some \<lparr> mt_type_at = type_at, mt_type_len = type_len, mt_sub_at = sub_at,
                          mt_sub_len = sub_len, mt_params_at = i, mt_params_len = length vl - i \<rparr>)"

definition ascii_eq_ignore_case :: "bytes \<Rightarrow> bytes \<Rightarrow> bool" where
  "ascii_eq_ignore_case a b \<longleftrightarrow>
     length a = length b \<and> list_all (\<lambda>(x, y). to_ascii_lowercase x = to_ascii_lowercase y) (zip a b)"

definition media_top_type_is :: "bytes \<Rightarrow> media_type \<Rightarrow> bytes \<Rightarrow> bool option" where
  "media_top_type_is vl mt ty =
     map_option (\<lambda>t. ascii_eq_ignore_case t ty)
       (bslice_p (mt_type_at mt) (mt_type_at mt + mt_type_len mt) vl)"

definition media_type_is :: "bytes \<Rightarrow> media_type \<Rightarrow> bytes \<Rightarrow> bytes \<Rightarrow> bool option" where
  "media_type_is vl mt ty sub =
     do { t \<leftarrow> bslice_p (mt_type_at mt) (mt_type_at mt + mt_type_len mt) vl;
          if \<not> ascii_eq_ignore_case t ty then Some False
          else do { s \<leftarrow> bslice_p (mt_sub_at mt) (mt_sub_at mt + mt_sub_len mt) vl;
                    Some (ascii_eq_ignore_case s sub) } }"

record param_span =
  ps_name_at :: nat
  ps_name_len :: nat
  ps_value_at :: nat
  ps_value_len :: nat
  ps_quoted :: bool

function quoted_end :: "bytes \<Rightarrow> nat \<Rightarrow> nat" where
  "quoted_end vl j =
     (if j < length vl then
        if vl ! j = 92 then quoted_end vl (j + 2)
        else if vl ! j = 34 then j
        else quoted_end vl (j + 1)
      else j)"
  by pat_completeness auto
termination by (relation "measure (\<lambda>(vl, j). length vl - j)") auto

declare quoted_end.simps [simp del]

definition next_param :: "bytes \<Rightarrow> nat \<Rightarrow> (param_span \<times> nat) option" where
  "next_param vl at =
     (let i = skip_wsp vl at
      in if length vl \<le> i \<or> vl ! i \<noteq> 59 then None
         else
           let name_at = skip_wsp vl (i + 1);
               i = scan_while is_token vl name_at;
               name_len = i - name_at
           in if name_len = 0 then None
              else
                let i = skip_wsp vl i
                in if length vl \<le> i \<or> vl ! i \<noteq> 61 then None
                   else
                     let i = skip_wsp vl (i + 1)
                     in if length vl \<le> i then None
                        else if vl ! i = 34 then
                          let start = i + 1;
                              j = quoted_end vl start
                          in if length vl \<le> j then None
                             else Some (\<lparr> ps_name_at = name_at, ps_name_len = name_len, ps_value_at = start,
                                          ps_value_len = j - start, ps_quoted = True \<rparr>, j + 1)
                        else
                          let start = i;
                              i = scan_while is_token vl start
                          in if i = start then None
                             else Some (\<lparr> ps_name_at = name_at, ps_name_len = name_len, ps_value_at = start,
                                          ps_value_len = i - start, ps_quoted = False \<rparr>, i))"

lemma quoted_end_ge: "j \<le> quoted_end vl j"
proof (induction vl j rule: quoted_end.induct)
  case (1 vl j)
  then show ?case by (subst quoted_end.simps) (auto split: if_split dest: Suc_leD add_leD1)
qed

lemma skip_wsp_ge: "at \<le> skip_wsp vl at"
  by (simp add: skip_wsp_def scan_while_ge)

text \<open>The spans of a parameter lie in the value, and the scanner moves past at least the semicolon.\<close>

lemma next_param_spans:
  assumes "next_param vl at = Some (p, nxt)"
  shows "at < nxt \<and> nxt \<le> length vl \<and>
    at < ps_name_at p \<and> 0 < ps_name_len p \<and> ps_name_at p + ps_name_len p \<le> ps_value_at p \<and>
    ps_value_at p + ps_value_len p \<le> nxt"
proof -
  define i0 where "i0 = skip_wsp vl at"
  define n where "n = skip_wsp vl (Suc i0)"
  define ne where "ne = scan_while is_token vl n"
  define i1 where "i1 = skip_wsp vl ne"
  define i2 where "i2 = skip_wsp vl (Suc i1)"
  have ge: "at \<le> i0" "Suc i0 \<le> n" "n \<le> ne" "ne \<le> i1" "Suc i1 \<le> i2"
    by (simp_all only: i0_def n_def ne_def i1_def i2_def skip_wsp_ge scan_while_ge)
  have q: "Suc i2 \<le> quoted_end vl (Suc i2)" by (rule quoted_end_ge)
  have u: "i2 < length vl \<Longrightarrow> i2 \<le> scan_while is_token vl i2 \<and> scan_while is_token vl i2 \<le> length vl"
    by (simp add: scan_while_ge scan_while_le)
  show ?thesis
    using assms ge q u
    by (auto simp: next_param_def Let_def simp flip: i0_def n_def ne_def i1_def i2_def split: if_splits)
qed

function find_param :: "bytes \<Rightarrow> nat \<Rightarrow> bytes \<Rightarrow> param_span option option" where
  "find_param vl at name =
     (case next_param vl at of
        None \<Rightarrow> Some None
      | Some (param, nxt) \<Rightarrow>
          (case bslice_p (ps_name_at param) (ps_name_at param + ps_name_len param) vl of
             None \<Rightarrow> None
           | Some n \<Rightarrow>
               if ascii_eq_ignore_case n name then Some (Some param) else find_param vl nxt name))"
  by pat_completeness auto
termination
proof (relation "measure (\<lambda>(vl, at, name). length vl - at)", goal_cases)
  case 1
  then show ?case by simp
next
  case (2 vl at name x param nxt n)
  then show ?case using next_param_spans [of vl at param nxt] by auto
qed

declare find_param.simps [simp del]

fun unquote_loop :: "bytes \<Rightarrow> bool \<Rightarrow> nat \<Rightarrow> nat \<Rightarrow> nat \<Rightarrow> nat \<Rightarrow> bytes \<Rightarrow> (nat option \<times> bytes) option" where
  "unquote_loop vl quoted 0 i e p out = Some (Some p, out)"
| "unquote_loop vl quoted (Suc k) i e p out =
     (if i < e then
        do { b \<leftarrow> at_idx vl i;
             let esc = (quoted \<and> b = 92 \<and> i + 1 < e);
             let i = (if esc then i + 1 else i);
             b \<leftarrow> (if esc then at_idx vl i else Some b);
             if p < length out then unquote_loop vl quoted k (i + 1) e (p + 1) (out[p := b])
             else Some (None, out) }
      else Some (Some p, out))"

definition unquote_param :: "bytes \<Rightarrow> param_span \<Rightarrow> bytes \<Rightarrow> (nat option \<times> bytes) option" where
  "unquote_param vl param out =
     unquote_loop vl (ps_quoted param) (ps_value_len param) (ps_value_at param)
       (ps_value_at param + ps_value_len param) 0 out"

section \<open>Transfer encodings\<close>

datatype encoding = SevenBit | EightBit | Binary | QuotedPrintable | Base64 | Unknown

definition needs_decoding :: "encoding \<Rightarrow> bool" where
  "needs_decoding e \<longleftrightarrow> e = QuotedPrintable \<or> e = Base64"

fun encoding_code :: "encoding \<Rightarrow> byte" where
  "encoding_code SevenBit = 0"
| "encoding_code EightBit = 1"
| "encoding_code Binary = 2"
| "encoding_code QuotedPrintable = 3"
| "encoding_code Base64 = 4"
| "encoding_code Unknown = 255"

definition parse_encoding :: "bytes \<Rightarrow> encoding" where
  "parse_encoding vl =
     (let start = skip_wsp vl 0;
          e = scan_while is_token vl start;
          token = bslice start e vl
      in if ascii_eq_ignore_case token (ascii ''7bit'') then SevenBit
         else if ascii_eq_ignore_case token (ascii ''8bit'') then EightBit
         else if ascii_eq_ignore_case token (ascii ''binary'') then Binary
         else if ascii_eq_ignore_case token (ascii ''quoted-printable'') then QuotedPrintable
         else if ascii_eq_ignore_case token (ascii ''base64'') then Base64
         else Unknown)"

section \<open>Multipart delimiters\<close>

datatype boundary_scan = Found nat nat bool | Incomplete

function scan_boundary_loop :: "bytes \<Rightarrow> nat \<Rightarrow> bytes \<Rightarrow> nat \<Rightarrow> boundary_scan" where
  "scan_boundary_loop buf at boundary i =
     (if i < length buf then
        let line_start = (i = at \<and> at = 0);
            after_crlf = (2 \<le> i \<and> buf ! (i - 2) = 13 \<and> buf ! (i - 1) = 10);
            at_line_start = (line_start \<or> after_crlf);
            room = (i + 2 + length boundary \<le> length buf);
            part_end = (if after_crlf then i - 2 else i);
            after = i + 2 + length boundary;
            last = (after + 2 \<le> length buf \<and> bslice after (after + 2) buf = ascii ''--'');
            tail = (if last then after + 2 else after);
            j = scan_while is_wsp buf tail
        in if at_line_start \<and> room \<and> bslice i (i + 2) buf = ascii ''--'' \<and>
              bslice (i + 2) (i + 2 + length boundary) buf = boundary then
             if j + 1 < length buf \<and> buf ! j = 13 \<and> buf ! (j + 1) = 10 then Found part_end (j + 2) last
             else if last \<and> length buf \<le> j then Found part_end (length buf) True
             else scan_boundary_loop buf at boundary (i + 1)
           else scan_boundary_loop buf at boundary (i + 1)
      else Incomplete)"
  by pat_completeness auto
termination by (relation "measure (\<lambda>(buf, at, boundary, i). length buf - i)") auto

declare scan_boundary_loop.simps [simp del]

definition scan_boundary :: "bytes \<Rightarrow> nat \<Rightarrow> bytes \<Rightarrow> boundary_scan" where
  "scan_boundary buf at boundary =
     (if boundary = [] \<or> MAX_BOUNDARY_LEN < length boundary then Incomplete
      else scan_boundary_loop buf at boundary at)"

section \<open>Quoted-printable\<close>

definition hex_value :: "byte \<Rightarrow> byte option" where
  "hex_value b =
     (if 48 \<le> b \<and> b \<le> 57 then Some (b - 48)
      else if 65 \<le> b \<and> b \<le> 70 then Some (b - 65 + 10)
      else if 97 \<le> b \<and> b \<le> 102 then Some (b - 97 + 10)
      else None)"

text \<open>\<open>*out.get_mut(p)? = b\<close>.\<close>

definition put_at :: "nat \<Rightarrow> byte \<Rightarrow> unit writer" where
  "put_at p b out = (if p < length out then (Some (), out[p := b]) else (None, out))"

function qp_decode_loop :: "bytes \<Rightarrow> nat \<Rightarrow> nat \<Rightarrow> nat writer" where
  "qp_decode_loop input i p out =
     (if i < length input then
        let b = input ! i
        in if b \<noteq> 61 then wbind (put_at p b) (\<lambda>_. qp_decode_loop input (i + 1) (p + 1)) out
           else if i + 2 < length input \<and> input ! (i + 1) = 13 \<and> input ! (i + 2) = 10
             then qp_decode_loop input (i + 3) p out
           else if i + 1 < length input \<and> input ! (i + 1) = 10
             then qp_decode_loop input (i + 2) p out
           else
             (case Option.bind (at_idx input (i + 1)) hex_value of
                None \<Rightarrow> (None, out)
              | Some hi \<Rightarrow>
                  (case Option.bind (at_idx input (i + 2)) hex_value of
                     None \<Rightarrow> (None, out)
                   | Some lo \<Rightarrow>
                       wbind (put_at p (push_bit 4 hi OR lo)) (\<lambda>_. qp_decode_loop input (i + 3) (p + 1)) out))
      else (Some p, out))"
  by pat_completeness auto
termination by (relation "measure (\<lambda>(input, i, p, out). length input - i)") auto

declare qp_decode_loop.simps [simp del]

definition qp_decode :: "bytes \<Rightarrow> nat writer" where
  "qp_decode input out = qp_decode_loop input 0 0 out"

section \<open>Base64\<close>

fun emit_bytes :: "nat \<Rightarrow> bytes \<Rightarrow> unit writer" where
  "emit_bytes at [] out = (Some (), out)"
| "emit_bytes at (b # bs) out = wbind (put_at at b) (\<lambda>_. emit_bytes (at + 1) bs) out"

definition emit_quad :: "bytes \<Rightarrow> nat \<Rightarrow> nat \<Rightarrow> nat writer" where
  "emit_quad quad padding at out =
     (let triple = push_bit 18 (ucast (quad ! 0) :: u32) OR push_bit 12 (ucast (quad ! 1))
                   OR push_bit 6 (ucast (quad ! 2)) OR ucast (quad ! 3)
      in if 3 < padding then (None, out)
         else
           let count = 3 - padding;
               bs = [ucast (drop_bit 16 triple AND 0xFF), ucast (drop_bit 8 triple AND 0xFF), ucast (triple AND 0xFF)]
           in wbind (emit_bytes at (take count bs)) (\<lambda>_. wret count) out)"

definition b64_value :: "byte \<Rightarrow> byte option" where
  "b64_value b =
     (if 65 \<le> b \<and> b \<le> 90 then Some (b - 65)
      else if 97 \<le> b \<and> b \<le> 122 then Some (b - 97 + 26)
      else if 48 \<le> b \<and> b \<le> 57 then Some (b - 48 + 52)
      else if b = 43 then Some 62
      else if b = 47 then Some 63
      else None)"

fun b64_decode_loop :: "bytes \<Rightarrow> nat \<Rightarrow> bytes \<Rightarrow> nat \<Rightarrow> nat \<Rightarrow> (nat \<times> bytes \<times> nat) writer" where
  "b64_decode_loop [] p quad have_n padding out = (Some (p, quad, have_n), out)"
| "b64_decode_loop (b # bs) p quad have_n padding out =
     (if b = 13 \<or> b = 10 \<or> is_wsp b then b64_decode_loop bs p quad have_n padding out
      else if b = 61 then
        (let padding = padding + 1
         in if 2 < padding \<or> have_n < 2 then (None, out)
            else
              let quad = quad[have_n := 0]; have_n = have_n + 1
              in if have_n = 4
                 then wbind (emit_quad quad padding p) (\<lambda>written. b64_decode_loop bs (p + written) quad 0 padding) out
                 else b64_decode_loop bs p quad have_n padding out)
      else
        (case b64_value b of
           None \<Rightarrow> (None, out)
         | Some v \<Rightarrow>
             if 0 < padding then (None, out)
             else
               let quad = quad[have_n := v]; have_n = have_n + 1
               in if have_n = 4
                  then wbind (emit_quad quad 0 p) (\<lambda>written. b64_decode_loop bs (p + written) quad 0 padding) out
                  else b64_decode_loop bs p quad have_n padding out))"

definition b64_decode :: "bytes \<Rightarrow> nat writer" where
  "b64_decode input out =
     wbind (b64_decode_loop input 0 [0, 0, 0, 0] 0 0)
       (\<lambda>(p, quad, have_n).
          if have_n \<noteq> 0 then
            if have_n = 1 then wfail
            else
              let missing = 4 - have_n;
                  t = take have_n quad @ replicate (4 - have_n) 0
              in wbind (emit_quad t missing p) (\<lambda>written. wret (p + written))
          else wret p) out"

section \<open>Base64 decoding inverts encoding\<close>

lemma b64_values: "map b64_value b64_alphabet = map (\<lambda>k. Some (of_nat k)) [0..<64]"
  by (simp add: b64_alphabet_def ascii_def b64_value_def upt_rec word_le_nat_alt)

lemma b64_alphabet_plain: "list_all (\<lambda>c. c \<notin> {13, 10, 32, 9, 61}) b64_alphabet"
  by (simp add: b64_alphabet_def ascii_def)

lemma b64_value_alphabet:
  assumes "k < 64"
  shows "b64_value (b64_alphabet ! k) = Some (of_nat k) \<and> b64_alphabet ! k \<notin> {13, 10, 32, 9, 61}"
proof -
  have len: "length b64_alphabet = 64" by (simp add: b64_alphabet_def)
  have "map b64_value b64_alphabet ! k = map (\<lambda>k. Some (of_nat k)) [0..<64] ! k" by (simp only: b64_values)
  moreover have "b64_alphabet ! k \<in> set b64_alphabet" using assms len by simp
  ultimately show ?thesis using assms len b64_alphabet_plain by (auto simp: list_all_iff)
qed

lemma emit_bytes_fits: "at + length bs \<le> length out \<Longrightarrow> emit_bytes at bs out = (Some (), blit at bs out)"
proof (induction bs arbitrary: at out)
  case Nil
  then show ?case by simp
next
  case (Cons b bs)
  then show ?case
    using blit_blit_append [of at "[b]" bs out] by (simp add: put_at_def wbind_def blit_single)
qed

text \<open>The four six-bit values of a group.\<close>

definition b64_vals :: "u32 \<Rightarrow> bytes" where
  "b64_vals w = [ucast (drop_bit 18 w AND 63), ucast (drop_bit 12 w AND 63), ucast (drop_bit 6 w AND 63), ucast (w AND 63)]"

lemma b64_triple:
  fixes w :: u32
  assumes "take_bit 24 w = w"
  shows "push_bit 18 (ucast (b64_vals w ! 0)) OR push_bit 12 (ucast (b64_vals w ! 1))
    OR push_bit 6 (ucast (b64_vals w ! 2)) OR ucast (b64_vals w ! 3) = w"
proof -
  have cc: "(ucast (ucast (x AND 63 :: u32) :: byte) :: u32) = x AND 63" for x
    by (rule bit_word_eqI) (auto simp: and_low_mask bit_simps)
  have "push_bit 18 (drop_bit 18 w AND 63) OR push_bit 12 (drop_bit 12 w AND 63)
    OR push_bit 6 (drop_bit 6 w AND 63) OR (w AND 63) = w"
  proof (rule bit_word_eqI)
    fix n assume n: "n < LENGTH(32)"
    have hi: "24 \<le> n \<Longrightarrow> \<not> bit w n" by (rule take_bit_eq_high [OF assms])
    consider "n < 6" | "6 \<le> n" "n < 12" | "12 \<le> n" "n < 18" | "18 \<le> n" "n < 24" | "24 \<le> n" by linarith
    then show "bit (push_bit 18 (drop_bit 18 w AND 63) OR push_bit 12 (drop_bit 12 w AND 63)
        OR push_bit 6 (drop_bit 6 w AND 63) OR (w AND 63)) n = bit w n"
      unfolding and_low_mask bit_or_iff bit_push_bit_iff bit_take_bit_iff bit_drop_bit_eq o_apply
      using hi n by cases (auto simp: less_diff_conv2 not_le)
  qed
  then show ?thesis by (simp add: b64_vals_def cc)
qed

definition b64_padded :: "bytes \<Rightarrow> bytes" where
  "b64_padded c = [c ! 0, if 1 < length c then c ! 1 else 0, if 2 < length c then c ! 2 else 0]"

lemma b64_word_padded:
  "b64_word c = push_bit 16 (ucast (b64_padded c ! 0)) OR push_bit 8 (ucast (b64_padded c ! 1)) OR ucast (b64_padded c ! 2)"
  by (simp add: b64_word_def b64_padded_def)

lemma b64_word_24: "take_bit 24 (b64_word c) = b64_word c"
  proof (rule bit_word_eqI)
  fix n assume "n < LENGTH(32)"
  have f: "24 \<le> n \<Longrightarrow> \<not> bit (x :: byte) (n - 16) \<and> \<not> bit x (n - 8) \<and> \<not> bit x n" for x
    by (auto dest: bit_imp_le_length)
  show "bit (take_bit 24 (b64_word c)) n = bit (b64_word c) n"
    unfolding b64_word_padded using f by (cases "24 \<le> n") (auto simp: bit_simps)
qed

lemma b64_word_bytes:
  "[ucast (drop_bit 16 (b64_word c) AND 0xFF), ucast (drop_bit 8 (b64_word c) AND 0xFF), ucast (b64_word c AND 0xFF)] = b64_padded c"
proof -
  have "ucast (drop_bit 16 (push_bit 16 (ucast a) OR push_bit 8 (ucast b) OR (ucast d :: u32)) AND 0xFF) = a"
    "ucast (drop_bit 8 (push_bit 16 (ucast a) OR push_bit 8 (ucast b) OR (ucast d :: u32)) AND 0xFF) = b"
    "ucast ((push_bit 16 (ucast a) OR push_bit 8 (ucast b) OR (ucast d :: u32)) AND 0xFF) = d" for a b d :: byte
    by (rule bit_word_eqI, auto simp: and_low_mask bit_simps dest: bit_imp_le_length)+
  then show ?thesis by (simp add: b64_word_padded b64_padded_def)
qed

lemma emit_quad_word:
  assumes "pad \<le> 2" and "p + (3 - pad) \<le> length out"
  shows "emit_quad (b64_vals (b64_word c)) pad p out = (Some (3 - pad), blit p (take (3 - pad) (b64_padded c)) out)"
proof -
  have "length (take (3 - pad) (b64_padded c)) = 3 - pad" by (simp add: b64_padded_def)
  then have "emit_bytes p (take (3 - pad) (b64_padded c)) out = (Some (), blit p (take (3 - pad) (b64_padded c)) out)"
    using assms by (simp add: emit_bytes_fits)
  moreover have "\<not> 3 < pad" using assms by simp
  ultimately show ?thesis
    unfolding emit_quad_def Let_def b64_triple [OF b64_word_24] b64_word_bytes by (simp add: wbind_def wret_def)
qed

lemma unat_and63: "unat (x AND 63 :: u32) < 64"
  by (simp add: and_low_mask unat_take_bit)

lemma b64_char_step:
  assumes "h < 4"
  shows "b64_decode_loop (b64_alphabet ! unat (x AND 63 :: u32) # bs) p quad h 0 out =
    (let quad = quad[h := ucast (x AND 63)]
     in if h = 3 then wbind (emit_quad quad 0 p) (\<lambda>w. b64_decode_loop bs (p + w) quad 0 0) out
        else b64_decode_loop bs p quad (h + 1) 0 out)"
  using b64_value_alphabet [OF unat_and63 [of x]] assms
  by (auto simp: is_wsp_def Let_def)

lemma b64_pad_step:
  assumes "2 \<le> h" "h < 4" "pad < 2"
  shows "b64_decode_loop (61 # bs) p quad h pad out =
    (let quad = quad[h := 0]
     in if h = 3 then wbind (emit_quad quad (pad + 1) p) (\<lambda>w. b64_decode_loop bs (p + w) quad 0 (pad + 1)) out
        else b64_decode_loop bs p quad (h + 1) (pad + 1) out)"
  using assms by (auto simp: is_wsp_def Let_def)

lemma b64_word_low_zero:
  "length c \<le> 2 \<Longrightarrow> b64_word c AND 63 = 0"
  "length c \<le> 1 \<Longrightarrow> drop_bit 6 (b64_word c) AND 63 = 0"
  by (auto intro!: bit_word_eqI simp: b64_word_def and_low_mask bit_simps)

lemma quad_updates: "length quad = 4 \<Longrightarrow> quad[0 := a, Suc 0 := b, 2 := c, 3 := d] = [a, b, c, d]"
  by (auto simp: eval_nat_numeral length_Suc_conv)

lemma b64_group:
  assumes c: "c \<noteq> []" "length c \<le> 3" and q: "length quad = 4" and p: "p + length c \<le> length out"
  shows "b64_decode_loop (b64_quad c @ bs) p quad 0 0 out =
    b64_decode_loop bs (p + length c) (b64_vals (b64_word c)) 0 (3 - length c) (blit p c out)"
proof -
  let ?w = "b64_word c"
  let ?v = "\<lambda>k. ucast (drop_bit k ?w AND 63) :: byte"
  have vals: "quad[0 := ?v 18, Suc 0 := ?v 12, 2 := ?v 6, 3 := ucast (?w AND 63)] = b64_vals ?w"
    using q by (simp add: quad_updates b64_vals_def)
  have emit: "emit_quad (b64_vals ?w) (3 - length c) p out = (Some (length c), blit p c out)"
  proof -
    have "take (length c) (b64_padded c) = c"
      using c by (cases c; cases "tl c"; cases "tl (tl c)") (auto simp: b64_padded_def)
    then show ?thesis using emit_quad_word [of "3 - length c" p out c] c p by (cases "length c") auto
  qed
  consider "length c = 3" | "length c = 2" | "length c = 1" 
    using c by (cases "length c") (auto simp: le_Suc_eq numeral_eq_Suc)
  then show ?thesis
  proof cases
    case 1
    then have "b64_decode_loop (b64_quad c @ bs) p quad 0 0 out =
        wbind (emit_quad (b64_vals ?w) 0 p) (\<lambda>w. b64_decode_loop bs (p + w) (b64_vals ?w) 0 0) out"
      by (simp add: b64_quad_def b64_char_step Let_def vals [unfolded numeral_2_eq_2 numeral_3_eq_3] del: b64_decode_loop.simps)
    then show ?thesis using emit 1 by (simp add: wbind_def)
  next
    case 2
    then have "ucast (?w AND 63) = (0 :: byte)" by (simp add: b64_word_low_zero)
    then have "b64_decode_loop (b64_quad c @ bs) p quad 0 0 out =
        wbind (emit_quad (b64_vals ?w) 1 p) (\<lambda>w. b64_decode_loop bs (p + w) (b64_vals ?w) 0 1) out"
      using 2 vals [unfolded numeral_2_eq_2 numeral_3_eq_3]
      by (simp add: b64_quad_def b64_char_step b64_pad_step Let_def del: b64_decode_loop.simps)
    then show ?thesis using emit 2 by (simp add: wbind_def)
  next
    case 3
    then have "ucast (?w AND 63) = (0 :: byte)" "?v 6 = 0" by (simp_all add: b64_word_low_zero)
    then have "b64_decode_loop (b64_quad c @ bs) p quad 0 0 out =
        wbind (emit_quad (b64_vals ?w) 2 p) (\<lambda>w. b64_decode_loop bs (p + w) (b64_vals ?w) 0 2) out"
      using 3 vals [unfolded numeral_2_eq_2 numeral_3_eq_3]
      by (simp add: b64_quad_def b64_char_step b64_pad_step Let_def numeral_2_eq_2 del: b64_decode_loop.simps)
    then show ?thesis using emit 3 by (simp add: wbind_def)
  qed
qed

lemma b64_decode_loop_b64:
  "length quad = 4 \<Longrightarrow> p + length inp \<le> length out \<Longrightarrow>
   \<exists>quad'. b64_decode_loop (b64 inp) p quad 0 0 out = (Some (p + length inp, quad', 0), blit p inp out)"
proof (induction inp arbitrary: p quad out rule: b64.induct)
  case 1
  then show ?case by simp
next
  case (2 x xs)
  let ?c = "take 3 (x # xs)" and ?r = "drop 3 (x # xs)"
  have p: "p + length ?c \<le> length out" using "2.prems" by simp
  have g: "b64_decode_loop (b64 (x # xs)) p quad 0 0 out =
      b64_decode_loop (b64 ?r) (p + length ?c) (b64_vals (b64_word ?c)) 0 (3 - length ?c) (blit p ?c out)"
    unfolding b64.simps by (rule b64_group) (use "2.prems" p in auto)
  have sum: "length ?c + length ?r = length (x # xs)" "?c @ ?r = x # xs"
    by (simp_all only: append_take_drop_id length_append [symmetric])
  have bl: "blit (p + length ?c) ?r (blit p ?c out) = blit p (x # xs) out"
    using blit_blit_append [of p ?c ?r out] "2.prems"(2) sum by (simp only: add.assoc)
  show ?case
  proof (cases "?r = []")
    case True
    then show ?thesis using g bl sum by simp
  next
    case False
    then have "3 - length ?c = 0" by (cases xs; cases "tl xs") auto
    moreover have "length (b64_vals (b64_word ?c)) = 4" by (simp add: b64_vals_def)
    moreover have "p + length ?c + length ?r \<le> length (blit p ?c out)"
      using "2.prems"(2) sum(1) p by (simp only: length_blit add.assoc)
    ultimately obtain q' where "b64_decode_loop (b64 ?r) (p + length ?c) (b64_vals (b64_word ?c)) 0 (3 - length ?c) (blit p ?c out)
       = (Some (p + length ?c + length ?r, q', 0), blit (p + length ?c) ?r (blit p ?c out))"
      using "2.IH" by metis
    then show ?thesis using g bl sum(1) by (metis add.assoc)
  qed
qed

lemma b64_decode_b64: "length inp \<le> length out \<Longrightarrow> b64_decode (b64 inp) out = (Some (length inp), blit 0 inp out)"
  using b64_decode_loop_b64 [of "[0, 0, 0, 0]" 0 inp out] by (auto simp: b64_decode_def wbind_def wret_def)

text \<open>Padding that stops one short: the group's missing character is counted as data, and a zero
  byte the encoder never saw is written.\<close>

theorem b64_short_padding_adds_zero:
  "b64_decode (ascii ''QQ='') [9, 9, 9] = (Some 2, [65, 0, 9]) \<and> b64_decode (ascii ''QQ=='') [9, 9, 9] = (Some 1, [65, 9, 9])"
  by code_simp

section \<open>What quoted-printable text is\<close>

text \<open>The pieces of a quoted-printable body: a literal byte other than the equals sign, an escape of
  two hexadecimal digits, a soft line break with CRLF or with a bare LF.\<close>

datatype qp_piece = QLit byte | QEsc byte byte | QSoft | QSoftLf

fun qp_ok :: "qp_piece \<Rightarrow> bool" where
  "qp_ok (QLit b) \<longleftrightarrow> b \<noteq> 61"
| "qp_ok (QEsc h l) \<longleftrightarrow> hex_value h \<noteq> None \<and> hex_value l \<noteq> None"
| "qp_ok _ \<longleftrightarrow> True"

fun qp_text :: "qp_piece \<Rightarrow> bytes" where
  "qp_text (QLit b) = [b]"
| "qp_text (QEsc h l) = [61, h, l]"
| "qp_text QSoft = [61, 13, 10]"
| "qp_text QSoftLf = [61, 10]"

fun qp_bytes :: "qp_piece \<Rightarrow> bytes" where
  "qp_bytes (QLit b) = [b]"
| "qp_bytes (QEsc h l) = [push_bit 4 (the (hex_value h)) OR the (hex_value l)]"
| "qp_bytes _ = []"

text \<open>The decoder as a function on the text left to read: the piece at its front.\<close>

definition qp_front :: "bytes \<Rightarrow> qp_piece option" where
  "qp_front t =
     (if t ! 0 \<noteq> 61 then Some (QLit (t ! 0))
      else if 2 < length t \<and> t ! 1 = 13 \<and> t ! 2 = 10 then Some QSoft
      else if 1 < length t \<and> t ! 1 = 10 then Some QSoftLf
      else if 2 < length t \<and> hex_value (t ! 1) \<noteq> None \<and> hex_value (t ! 2) \<noteq> None then Some (QEsc (t ! 1) (t ! 2))
      else None)"

lemma hex_value_not_break: "hex_value 13 = None" "hex_value 10 = None"
  by (simp_all add: hex_value_def word_le_nat_alt)

lemma qp_front_text: "qp_ok c \<Longrightarrow> qp_front (qp_text c @ t) = Some c"
proof (cases c)
  case (QEsc h l)
  moreover assume "qp_ok c"
  ultimately have "h \<noteq> 13" "h \<noteq> 10" "hex_value h \<noteq> None" "hex_value l \<noteq> None" using hex_value_not_break by auto
  then show ?thesis using QEsc by (simp add: qp_front_def)
qed (auto simp: qp_front_def)

lemma qp_front_sound:
  "t \<noteq> [] \<Longrightarrow> qp_front t = Some c \<Longrightarrow> qp_ok c \<and> t = qp_text c @ drop (length (qp_text c)) t"
  by (cases t; cases "tl t"; cases "tl (tl t)") (auto simp: qp_front_def split: if_splits)

lemma qp_loop_step:
  assumes "i < length inp"
  shows "qp_decode_loop inp i p out =
    (case qp_front (drop i inp) of
       None \<Rightarrow> (None, out)
     | Some c \<Rightarrow>
         (case qp_bytes c of
            [] \<Rightarrow> qp_decode_loop inp (i + length (qp_text c)) p out
          | b # _ \<Rightarrow> wbind (put_at p b) (\<lambda>_. qp_decode_loop inp (i + length (qp_text c)) (p + 1)) out))"
  using assms
  by (subst qp_decode_loop.simps)
     (auto simp: qp_front_def Let_def at_idx_def eval_nat_numeral split: option.splits)

lemma qp_loop_pieces:
  assumes "list_all qp_ok cs" and "drop i inp = concat (map qp_text cs)" and "i \<le> length inp"
    and "p + length (concat (map qp_bytes cs)) \<le> length out"
  shows "qp_decode_loop inp i p out =
    (Some (p + length (concat (map qp_bytes cs))), blit p (concat (map qp_bytes cs)) out)"
  using assms
proof (induction cs arbitrary: i p out)
  case Nil
  then show ?case by (subst qp_decode_loop.simps) simp
next
  case (Cons c cs)
  have t: "qp_text c \<noteq> []" by (cases c) auto
  have "length (drop i inp) \<noteq> 0" using t unfolding Cons.prems(2) by simp
  then have i: "i < length inp" by simp
  have f: "qp_front (drop i inp) = Some c" using Cons.prems(1,2) qp_front_text by simp
  have d: "drop (i + length (qp_text c)) inp = concat (map qp_text cs)"
    using Cons.prems(2) drop_drop [of "length (qp_text c)" i inp] by (simp add: add.commute)
  have le: "i + length (qp_text c) \<le> length inp"
    using arg_cong [OF Cons.prems(2), of length] Cons.prems(3) by simp
  show ?case
  proof (cases "qp_bytes c")
    case Nil
    with Cons.IH [OF _ d le, of p out] Cons.prems qp_loop_step [OF i] f show ?thesis by simp
  next
    case (Cons b bs)
    then have b: "qp_bytes c = [b]" by (cases c) auto
    then have p: "p < length out" "p + 1 + length (concat (map qp_bytes cs)) \<le> length (blit p [b] out)"
      using Cons.prems(4) by auto
    have "blit (p + 1) (concat (map qp_bytes cs)) (blit p [b] out) = blit p (b # concat (map qp_bytes cs)) out"
      using blit_blit_append [of p "[b]" "concat (map qp_bytes cs)" out] p by simp
    with Cons.IH [OF _ d le p(2)] Cons.prems(1) qp_loop_step [OF i] f b p(1) show ?thesis
      by (simp add: put_at_def wbind_def blit_single)
  qed
qed

lemma qp_loop_sound:
  "qp_decode_loop inp i p out = (Some n, out') \<Longrightarrow> i \<le> length inp \<Longrightarrow> p \<le> length out \<Longrightarrow>
   \<exists>cs. list_all qp_ok cs \<and> drop i inp = concat (map qp_text cs) \<and>
     p + length (concat (map qp_bytes cs)) \<le> length out"
proof (induction "length inp - i" arbitrary: i p out rule: less_induct)
  case less
  show ?case
  proof (cases "i < length inp")
    case False
    then show ?thesis using less.prems by (intro exI [of _ "[]"]) simp
  next
    case i: True
    then obtain c where f: "qp_front (drop i inp) = Some c"
      using less.prems(1) qp_loop_step [OF i, of p out] by (cases "qp_front (drop i inp)") auto
    have s: "qp_ok c" "drop i inp = qp_text c @ drop (i + length (qp_text c)) inp"
      using qp_front_sound [OF _ f] i by (auto simp: add.commute)
    have t: "0 < length (qp_text c)" by (cases c) auto
    have le: "i + length (qp_text c) \<le> length inp"
      using arg_cong [OF s(2), of length] i by simp
    have dec: "length inp - (i + length (qp_text c)) < length inp - i" using t le by linarith
    have "\<exists>cs. list_all qp_ok cs \<and> drop (i + length (qp_text c)) inp = concat (map qp_text cs) \<and>
        p + length (qp_bytes c) + length (concat (map qp_bytes cs)) \<le> length out"
    proof (cases "qp_bytes c")
      case Nil
      then have "qp_decode_loop inp (i + length (qp_text c)) p out = (Some n, out')"
        using less.prems(1) qp_loop_step [OF i, of p out] f by simp
      from less.hyps [OF dec this le less.prems(3)] Nil show ?thesis by simp
    next
      case (Cons b bs)
      then have b: "qp_bytes c = [b]" by (cases c) auto
      then have l: "p < length out" "qp_decode_loop inp (i + length (qp_text c)) (p + 1) (out[p := b]) = (Some n, out')"
        using less.prems(1) qp_loop_step [OF i, of p out] f by (auto simp: put_at_def wbind_def split: if_splits)
      from less.hyps [OF dec l(2) le] l(1) b show ?thesis by auto
    qed
    then obtain cs where "list_all qp_ok cs" "drop (i + length (qp_text c)) inp = concat (map qp_text cs)"
      "p + length (qp_bytes c) + length (concat (map qp_bytes cs)) \<le> length out" by blast
    with s show ?thesis by (intro exI [of _ "c # cs"]) simp
  qed
qed

text \<open>C13. Quoted-printable decoding accepts exactly the texts made of literal bytes, hexadecimal
  escapes and soft line breaks whose content fits the buffer, and writes exactly the bytes those
  pieces stand for: a stray equals sign is refused, nothing is dropped or passed through.\<close>

theorem qp_decode_exact:
  "(\<exists>n out'. qp_decode inp out = (Some n, out') \<and> take n out' = m) \<longleftrightarrow>
   (\<exists>cs. list_all qp_ok cs \<and> inp = concat (map qp_text cs) \<and> m = concat (map qp_bytes cs) \<and> length m \<le> length out)"
proof
  assume "\<exists>n out'. qp_decode inp out = (Some n, out') \<and> take n out' = m"
  then obtain n out' where d: "qp_decode_loop inp 0 0 out = (Some n, out')" and m: "take n out' = m"
    by (auto simp: qp_decode_def)
  obtain cs where cs: "list_all qp_ok cs" "inp = concat (map qp_text cs)" "length (concat (map qp_bytes cs)) \<le> length out"
    using qp_loop_sound [OF d] by auto
  then have "qp_decode_loop inp 0 0 out = (Some (length (concat (map qp_bytes cs))), blit 0 (concat (map qp_bytes cs)) out)"
    using qp_loop_pieces [of cs 0 inp 0 out] by simp
  with d m have "m = concat (map qp_bytes cs)" by (auto simp: blit_def)
  with cs show "\<exists>cs. list_all qp_ok cs \<and> inp = concat (map qp_text cs) \<and> m = concat (map qp_bytes cs) \<and> length m \<le> length out"
    by blast
next
  assume "\<exists>cs. list_all qp_ok cs \<and> inp = concat (map qp_text cs) \<and> m = concat (map qp_bytes cs) \<and> length m \<le> length out"
  then obtain cs where cs: "list_all qp_ok cs" "inp = concat (map qp_text cs)" "m = concat (map qp_bytes cs)" "length m \<le> length out"
    by blast
  then show "\<exists>n out'. qp_decode inp out = (Some n, out') \<and> take n out' = m"
    using qp_loop_pieces [of cs 0 inp 0 out] by (auto simp: qp_decode_def blit_def)
qed

section \<open>Spans are read in range\<close>

lemma find_param_total: "\<exists>r. find_param vl at name = Some r"
proof (induction vl at name rule: find_param.induct)
  case (1 vl at name)
  show ?case
  proof (cases "next_param vl at")
    case None
    then show ?thesis by (subst find_param.simps) simp
  next
    case (Some pn)
    then obtain p nxt where pn: "next_param vl at = Some (p, nxt)" by (cases pn) auto
    note sp = next_param_spans [OF pn]
    then have s: "bslice_p (ps_name_at p) (ps_name_at p + ps_name_len p) vl =
        Some (bslice (ps_name_at p) (ps_name_at p + ps_name_len p) vl)" by simp
    show ?thesis using 1 [OF pn refl s] pn s by (subst find_param.simps) simp
  qed
qed

lemma find_param_in_range:
  "find_param vl at name = Some (Some p) \<Longrightarrow> ps_value_at p + ps_value_len p \<le> length vl"
proof (induction vl at name rule: find_param.induct)
  case (1 vl at name)
  then obtain q nxt where pn: "next_param vl at = Some (q, nxt)"
    by (subst (asm) find_param.simps) (auto split: option.splits)
  note sp = next_param_spans [OF pn]
  then have s: "bslice_p (ps_name_at q) (ps_name_at q + ps_name_len q) vl =
      Some (bslice (ps_name_at q) (ps_name_at q + ps_name_len q) vl)" by simp
  show ?case
    using 1 pn s sp by (subst (asm) (2) find_param.simps) (auto split: if_splits)
qed

lemma unquote_loop_total:
  "e \<le> length vl \<Longrightarrow> \<exists>r. unquote_loop vl quoted k i e p out = Some r"
proof (induction k arbitrary: i p out)
  case 0
  then show ?case by simp
next
  case (Suc k)
  then show ?case by (auto simp: Let_def)
qed

end
