(* ===== verification/Smtp_Wire.thy ===== *)
theory Smtp_Wire
  imports Wave_Prelude
begin

text \<open>
  \<open>modules/common/smtp_wire.rs\<close>: the result record a submission is answered with, the classification
  of a reply code, and the enhanced status code at the head of a reply text.

  What is shown: the header written is the header read back, with the text that follows it left
  alone; an enhanced status is recognised in the shape RFC 3463 gives it and yields the numbers that
  were printed.
\<close>

abbreviation (input) SMTP_OP_RESULT :: byte where "SMTP_OP_RESULT \<equiv> 0x6F"
abbreviation (input) SMTP_RES_HDR :: nat where "SMTP_RES_HDR \<equiv> 18"
abbreviation (input) SMTP_OUT_ACCEPTED :: byte where "SMTP_OUT_ACCEPTED \<equiv> 0"
abbreviation (input) SMTP_OUT_REJECTED_PERM :: byte where "SMTP_OUT_REJECTED_PERM \<equiv> 1"
abbreviation (input) SMTP_OUT_REJECTED_TEMP :: byte where "SMTP_OUT_REJECTED_TEMP \<equiv> 2"
abbreviation (input) SMTP_OUT_PROTOCOL_ERROR :: byte where "SMTP_OUT_PROTOCOL_ERROR \<equiv> 3"
abbreviation (input) SMTP_OUT_CONNECT_FAILED :: byte where "SMTP_OUT_CONNECT_FAILED \<equiv> 4"
abbreviation (input) SMTP_OUT_TIMEOUT :: byte where "SMTP_OUT_TIMEOUT \<equiv> 5"
abbreviation (input) SMTP_OUT_CLOSED :: byte where "SMTP_OUT_CLOSED \<equiv> 6"
abbreviation (input) SMTP_OUT_AUTH_UNAVAILABLE :: byte where "SMTP_OUT_AUTH_UNAVAILABLE \<equiv> 9"

definition smtp_classify_code :: "u16 \<Rightarrow> byte" where
  "smtp_classify_code code =
     (if 400 \<le> code \<and> code \<le> 499 then SMTP_OUT_REJECTED_TEMP
      else if 500 \<le> code \<and> code \<le> 599 then SMTP_OUT_REJECTED_PERM
      else SMTP_OUT_PROTOCOL_ERROR)"

record smtp_enhanced =
  en_class :: byte
  en_subject :: u16
  en_detail :: u16

function smtp_take_digits_loop :: "bytes \<Rightarrow> nat \<Rightarrow> u16 \<Rightarrow> nat \<Rightarrow> u16 \<times> nat" where
  "smtp_take_digits_loop t at v i =
     (if i < length t \<and> is_ascii_digit (t ! i) \<and> i - at < 3
      then smtp_take_digits_loop t at (v * 10 + ucast (t ! i - 48)) (i + 1)
      else (v, i))"
  by pat_completeness auto
termination by (relation "measure (\<lambda>(t, at, v, i). length t - i)") auto

declare smtp_take_digits_loop.simps [simp del]

definition smtp_take_digits :: "bytes \<Rightarrow> nat \<Rightarrow> (u16 \<times> nat) option" where
  "smtp_take_digits t at =
     (case smtp_take_digits_loop t at 0 at of (v, i) \<Rightarrow> if i = at then None else Some (v, i))"

definition smtp_enhanced_status :: "bytes \<Rightarrow> smtp_enhanced option" where
  "smtp_enhanced_status t =
     do { c \<leftarrow> at_idx t 0;
          cls \<leftarrow> (if c = 50 then Some 2 else if c = 52 then Some 4 else if c = 53 then Some 5 else None);
          if at_idx t 1 \<noteq> Some 46 then None
          else do {
            (subj, after_subject) \<leftarrow> smtp_take_digits t 2;
            if at_idx t after_subject \<noteq> Some 46 then None
            else do {
              (det, after_detail) \<leftarrow> smtp_take_digits t (after_subject + 1);
              if at_idx t after_detail = None \<or> at_idx t after_detail = Some 32
              then Some \<lparr> en_class = cls, en_subject = subj, en_detail = det \<rparr>
              else None } } }"

record smtp_result_head =
  rh_outcome :: byte
  rh_phase :: byte
  rh_code :: u16
  rh_enhanced :: "smtp_enhanced option"
  rh_peer_ip :: "byte \<times> byte \<times> byte \<times> byte"
  rh_peer_port :: u16
  rh_text_len :: nat

definition write_smtp_result :: "smtp_result_head \<Rightarrow> nat writer" where
  "write_smtp_result rh out =
     (let tot = SMTP_RES_HDR + rh_text_len rh
      in if length out < tot \<or> 65535 < rh_text_len rh then (None, out)
         else
           let (cls, subj, det) =
                 (case rh_enhanced rh of Some e \<Rightarrow> (en_class e, en_subject e, en_detail e) | None \<Rightarrow> (0, 0, 0));
               out = out[0 := SMTP_OP_RESULT];
               out = out[1 := rh_outcome rh];
               out = out[2 := rh_phase rh];
               out = blit 3 (le_bytes 2 (unat (rh_code rh))) out;
               out = out[5 := cls];
               out = blit 6 (le_bytes 2 (unat subj)) out;
               out = blit 8 (le_bytes 2 (unat det)) out;
               out = blit 10 (case rh_peer_ip rh of (a, b, c, d) \<Rightarrow> [a, b, c, d]) out;
               out = blit 14 (le_bytes 2 (unat (rh_peer_port rh))) out;
               out = blit 16 (le_bytes 2 (unat (of_nat (rh_text_len rh) :: u16))) out
           in (Some tot, out))"

definition parse_smtp_result :: "bytes \<Rightarrow> smtp_result_head option" where
  "parse_smtp_result buf =
     (if length buf < SMTP_RES_HDR \<or> buf ! 0 \<noteq> SMTP_OP_RESULT then None
      else
        let text_len = unat (of_nat (le_val [buf ! 16, buf ! 17]) :: u16)
        in if length buf < SMTP_RES_HDR + text_len then None
           else
             let cls = buf ! 5;
                 enh = (if cls = 0 then None
                        else Some \<lparr> en_class = cls, en_subject = of_nat (le_val [buf ! 6, buf ! 7]),
                                    en_detail = of_nat (le_val [buf ! 8, buf ! 9]) \<rparr>)
             in Some \<lparr> rh_outcome = buf ! 1, rh_phase = buf ! 2, rh_code = of_nat (le_val [buf ! 3, buf ! 4]),
                       rh_enhanced = enh, rh_peer_ip = (buf ! 10, buf ! 11, buf ! 12, buf ! 13),
                       rh_peer_port = of_nat (le_val [buf ! 14, buf ! 15]), rh_text_len = text_len \<rparr>)"

text \<open>The header's eighteen bytes.\<close>

definition smtp_result_bytes :: "smtp_result_head \<Rightarrow> bytes" where
  "smtp_result_bytes rh =
     [SMTP_OP_RESULT, rh_outcome rh, rh_phase rh] @ le_bytes 2 (unat (rh_code rh)) @
     (case rh_enhanced rh of
        Some e \<Rightarrow> en_class e # le_bytes 2 (unat (en_subject e)) @ le_bytes 2 (unat (en_detail e))
      | None \<Rightarrow> 0 # le_bytes 2 0 @ le_bytes 2 0) @
     (case rh_peer_ip rh of (a, b, c, d) \<Rightarrow> [a, b, c, d]) @
     le_bytes 2 (unat (rh_peer_port rh)) @ le_bytes 2 (rh_text_len rh)"

lemma length_smtp_result_bytes [simp]: "length (smtp_result_bytes rh) = 18"
  by (auto simp: smtp_result_bytes_def split: option.splits prod.splits)

lemma le_bytes_2: "le_bytes 2 v = [of_nat v, of_nat (v div 256)]"
  by (simp add: le_bytes_def numeral_2_eq_2)

lemma split_18:
  assumes "18 \<le> length (out :: bytes)"
  shows "\<exists>x0 x1 x2 x3 x4 x5 x6 x7 x8 x9 y0 y1 y2 y3 y4 y5 y6 y7 r.
    out = x0 # x1 # x2 # x3 # x4 # x5 # x6 # x7 # x8 # x9 # y0 # y1 # y2 # y3 # y4 # y5 # y6 # y7 # r"
  using assms by (auto simp: numeral_eq_Suc Suc_le_length_iff)

lemma write_smtp_result_eq:
  assumes "18 + rh_text_len rh \<le> length out" and "rh_text_len rh \<le> 65535"
  shows "write_smtp_result rh out = (Some (18 + rh_text_len rh), blit 0 (smtp_result_bytes rh) out)"
proof -
  obtain a b c d where ip: "rh_peer_ip rh = (a, b, c, d)" by (cases "rh_peer_ip rh")
  have n: "unat (of_nat (rh_text_len rh) :: u16) = rh_text_len rh" using assms(2) by (simp add: unat_of_nat)
  have g: "\<not> (length out < 18 + rh_text_len rh \<or> 65535 < rh_text_len rh)" using assms by simp
  obtain x0 x1 x2 x3 x4 x5 x6 x7 x8 x9 y0 y1 y2 y3 y4 y5 y6 y7 r where
    out: "out = x0 # x1 # x2 # x3 # x4 # x5 # x6 # x7 # x8 # x9 # y0 # y1 # y2 # y3 # y4 # y5 # y6 # y7 # r"
    using split_18 [of out] assms(1) by auto
  have w: "write_smtp_result rh out =
     (Some (18 + rh_text_len rh),
      [SMTP_OP_RESULT, rh_outcome rh, rh_phase rh] @ le_bytes 2 (unat (rh_code rh)) @ [cls] @
      le_bytes 2 (unat subj) @ le_bytes 2 (unat det) @ [a, b, c, d] @ le_bytes 2 (unat (rh_peer_port rh)) @
      le_bytes 2 (rh_text_len rh) @ r)"
    if "(case rh_enhanced rh of Some e \<Rightarrow> (en_class e, en_subject e, en_detail e) | None \<Rightarrow> (0, 0, 0)) = (cls, subj, det)"
    for cls subj det
    unfolding write_smtp_result_def Let_def if_not_P [OF g] that prod.case ip n
    by (simp add: out blit_def le_bytes_2)
  have b: "blit 0 (smtp_result_bytes rh) out = smtp_result_bytes rh @ r"
    by (simp add: blit_def out)
  show ?thesis
  proof (cases "rh_enhanced rh")
    case None
    then show ?thesis unfolding b using w [of 0 0 0] by (simp add: smtp_result_bytes_def ip)
  next
    case (Some e)
    then show ?thesis unfolding b using w [of "en_class e" "en_subject e" "en_detail e"] by (simp add: smtp_result_bytes_def ip)
  qed
qed

lemma parse_smtp_result_bytes:
  assumes "\<forall>e. rh_enhanced rh = Some e \<longrightarrow> en_class e \<noteq> 0" and "rh_text_len rh \<le> 65535"
    and "length t = rh_text_len rh"
  shows "parse_smtp_result (smtp_result_bytes rh @ t) = Some rh"
proof -
  obtain a b c d where ip: "rh_peer_ip rh = (a, b, c, d)" by (cases "rh_peer_ip rh")
  have p: "(of_nat (le_val [ucast v, of_nat (unat v div 256)]) :: u16) = v" for v :: u16
    using from_to_le_bytes(1) [of v] by (simp add: le_bytes_2)
  have n: "unat (of_nat (le_val [of_nat (rh_text_len rh), of_nat (rh_text_len rh div 256)]) :: u16) = rh_text_len rh"
    using le_val_le_bytes_small [of "rh_text_len rh" 2] assms(2) by (simp add: le_bytes_2 unat_of_nat)
  show ?thesis
  proof (cases "rh_enhanced rh")
    case None
    then show ?thesis
      using assms(3) n p ip by (cases rh) (simp add: parse_smtp_result_def smtp_result_bytes_def le_bytes_2 Let_def)
  next
    case (Some e)
    then show ?thesis
      using assms n p ip by (cases rh; cases e) (simp add: parse_smtp_result_def smtp_result_bytes_def le_bytes_2 Let_def)
  qed
qed

text \<open>The value of a run of decimal digits.\<close>

definition digits_val :: "u16 \<Rightarrow> bytes \<Rightarrow> u16" where
  "digits_val v ds = foldl (\<lambda>v d. v * 10 + ucast (d - 48)) v ds"

lemma smtp_take_digits_loop_run:
  "list_all is_ascii_digit ds \<Longrightarrow> at \<le> length pre \<Longrightarrow> length pre - at + length ds \<le> 3 \<Longrightarrow>
   rest = [] \<or> \<not> is_ascii_digit (hd rest) \<Longrightarrow>
   smtp_take_digits_loop (pre @ ds @ rest) at v (length pre) = (digits_val v ds, length pre + length ds)"
proof (induction ds arbitrary: pre v)
  case Nil
  then show ?case
    by (subst smtp_take_digits_loop.simps) (cases rest; auto simp: digits_val_def nth_append)
next
  case (Cons d ds)
  have "length pre - at < 3" using Cons.prems by simp
  then have "smtp_take_digits_loop (pre @ (d # ds) @ rest) at v (length pre) =
      smtp_take_digits_loop ((pre @ [d]) @ ds @ rest) at (v * 10 + ucast (d - 48)) (length (pre @ [d]))"
    using Cons.prems by (subst smtp_take_digits_loop.simps) (simp add: nth_append)
  also have "\<dots> = (digits_val (v * 10 + ucast (d - 48)) ds, length (pre @ [d]) + length ds)"
    using Cons.prems by (intro Cons.IH) auto
  finally show ?case by (simp add: digits_val_def)
qed

lemma smtp_take_digits_run:
  assumes "list_all is_ascii_digit ds" and "ds \<noteq> []" and "length ds \<le> 3" and "rest = [] \<or> \<not> is_ascii_digit (hd rest)"
  shows "smtp_take_digits (pre @ ds @ rest) (length pre) = Some (digits_val 0 ds, length pre + length ds)"
  using assms smtp_take_digits_loop_run [of ds "length pre" pre rest 0] by (simp add: smtp_take_digits_def)

lemma smtp_enhanced_status_printed:
  assumes c: "(c, cls) \<in> {(50, 2), (52, 4), (53, 5)}"
    and s: "list_all is_ascii_digit s" "s \<noteq> []" "length s \<le> 3"
    and d: "list_all is_ascii_digit d" "d \<noteq> []" "length d \<le> 3"
    and r: "r = [] \<or> hd r = 32"
  shows "smtp_enhanced_status ([c, 46] @ s @ [46] @ d @ r) =
    Some \<lparr> en_class = cls, en_subject = digits_val 0 s, en_detail = digits_val 0 d \<rparr>"
proof -
  let ?t = "[c, 46] @ s @ [46] @ d @ r"
  have nd: "\<not> is_ascii_digit 46" "\<not> is_ascii_digit 32" by (simp_all add: is_ascii_digit_def word_le_nat_alt)
  have t1: "smtp_take_digits ?t 2 = Some (digits_val 0 s, 2 + length s)"
    using smtp_take_digits_run [OF s, of "[46] @ d @ r" "[c, 46]"] nd(1) by (simp add: numeral_2_eq_2)
  have t2: "smtp_take_digits ?t (2 + length s + 1) = Some (digits_val 0 d, 2 + length s + 1 + length d)"
    using smtp_take_digits_run [OF d, of r "[c, 46] @ s @ [46]"] nd(2) r by (auto simp: add.commute)
  have i: "at_idx ?t (2 + length s) = Some 46" by (simp add: at_idx_def nth_append)
  have e: "at_idx ?t (2 + length s + 1 + length d) = None \<or> at_idx ?t (2 + length s + 1 + length d) = Some 32"
    using r by (cases r) (auto simp: at_idx_def nth_append)
  show ?thesis
    using c t1 t2 i e by (auto simp: smtp_enhanced_status_def)
qed

end
