(* ===== verification/Smtp_Session.thy ===== *)
theory Smtp_Session
  imports Smtp_Core Smtp_Wire
begin

text \<open>
  \<open>modules/foundation/smtp/mod.rs\<close>: the submission connector around the cores of
  \<open>Smtp_Core\<close> and \<open>Smtp_Wire\<close>. The state is the module's \<open>SmtpState\<close>; an array with its length is the
  list of the bytes in use, a 0/1 flag is a \<^typ>\<open>bool\<close>, a channel handle is whether it is wired. The
  exchange and network contracts the module is written against are not part of this repository: their
  record encoders, their size constants and the requester tag are the fields of \<open>smtp_env\<close>, and the
  records and messages they deliver arrive parsed, as the module's own \<open>match\<close> arms see them. What
  a channel accepts is an input of the step that writes to it.

  \<open>ss_log\<close> is not in the code: it records what the submission in flight has staged, been answered and
  handed over, in order, and is emptied when the submission is retired.
\<close>

section \<open>State and environment\<close>

abbreviation (input) STATUS_BUF :: nat where "STATUS_BUF \<equiv> 64"
abbreviation (input) ACC_BUF :: nat where "ACC_BUF \<equiv> 2048"
abbreviation (input) NAME_BUF :: nat where "NAME_BUF \<equiv> 256"
abbreviation (input) TEXT_BUF :: nat where "TEXT_BUF \<equiv> 256"
abbreviation (input) NET_BUF :: nat where "NET_BUF \<equiv> 2048"
abbreviation (input) CONNECT_TIMEOUT_MS :: u64 where "CONNECT_TIMEOUT_MS \<equiv> 10000"
abbreviation (input) REPLY_TIMEOUT_MS :: u64 where "REPLY_TIMEOUT_MS \<equiv> 15000"

datatype ex_status = StOK | StBadGateway | StTimeout | StBusy | StBadRequest | StTooLarge

record ('i, 't) smtp_env =
  sv_body_max :: nat
  sv_frame_hdr :: nat
  sv_tag_none :: 't
  sv_id_none :: 'i
  sv_write_credit :: "'i \<Rightarrow> u32 \<Rightarrow> bytes option"
  sv_write_abort :: "'i \<Rightarrow> bytes option"
  sv_write_refusal :: "'i \<Rightarrow> ex_status \<Rightarrow> bytes option"
  sv_write_head :: "'i \<Rightarrow> bool \<Rightarrow> bool \<Rightarrow> ex_status \<Rightarrow> bytes \<Rightarrow> bytes option"
  sv_write_body :: "'i \<Rightarrow> bytes \<Rightarrow> bytes option"

abbreviation (input) CHUNK_BUF :: "('i, 't) smtp_env \<Rightarrow> nat" where "CHUNK_BUF en \<equiv> sv_body_max en"
abbreviation (input) REQ_BUF :: "('i, 't) smtp_env \<Rightarrow> nat" where "REQ_BUF en \<equiv> 2 * CHUNK_BUF en + 64"

datatype smtp_eff =
    Received bytes
  | Staged smtp_cmd bytes
  | StagedBody bytes
  | StagedEnd bytes
  | Answered smtp_phase u16
  | NetClose u16
  | Answer bool bytes

record ('i, 't) smtp_state =
  ss_status_out :: bool
  ss_request_in :: bool
  ss_response_out :: bool
  ss_port :: u16
  ss_peer_ip :: "byte \<times> byte \<times> byte \<times> byte"
  ss_helo :: bytes
  ss_auth_user :: bytes
  ss_auth_pass :: bytes
  ss_channel_confidential :: u32
  ss_saw_auth_plain :: bool
  ss_op_active :: bool
  ss_id :: 'i
  ss_answerable :: bool
  ss_abandoned :: bool
  ss_credit_out :: u32
  ss_credit_owed :: u32
  ss_resp_credit :: u32
  ss_head_sent :: bool
  ss_mail_from :: bytes
  ss_rcpt_to :: bytes
  ss_chunk :: bytes
  ss_more_body :: bool
  ss_at_line_start :: bool
  ss_ends_crlf :: bool
  ss_body_terminated :: bool
  ss_phase :: smtp_phase
  ss_conn_id :: u16
  ss_conn_present :: bool
  ss_tag :: 't
  ss_started_ms :: u64
  ss_draining :: bool
  ss_req :: bytes
  ss_req_sent :: nat
  ss_acc :: bytes
  ss_accepted :: bool
  ss_res_produced :: bool
  ss_res_owed :: bool
  ss_res_outcome :: byte
  ss_res_phase :: byte
  ss_res_code :: u16
  ss_res_enh :: smtp_enhanced
  ss_res_text :: bytes
  ss_status :: bytes
  ss_status_produced :: bool
  ss_refusal :: "('i \<times> ex_status) option"
  ss_ctl :: bytes
  ss_delivered :: u32
  ss_errors :: u32
  ss_admitted :: u32
  ss_dropped_unparsable :: u32
  ss_log :: "smtp_eff list"

text \<open>\<open>u32::saturating_add\<close>.\<close>

definition log_eff :: "smtp_eff \<Rightarrow> ('i, 't) smtp_state \<Rightarrow> ('i, 't) smtp_state" where
  "log_eff x s = s\<lparr> ss_log := ss_log s @ [x] \<rparr>"

section \<open>Outcomes\<close>

definition emit_status :: "bytes \<Rightarrow> ('i, 't) smtp_state \<Rightarrow> ('i, 't) smtp_state" where
  "emit_status t s =
     (if \<not> ss_status_out s \<or> ss_status_produced s then s
      else s\<lparr> ss_status_produced := True, ss_status := take STATUS_BUF t \<rparr>)"

definition flush_status :: "bool \<Rightarrow> ('i, 't) smtp_state \<Rightarrow> ('i, 't) smtp_state" where
  "flush_status ok s =
     (if ss_status s = [] \<or> \<not> ss_status_out s then s
      else if \<not> ok then s
      else s\<lparr> ss_status := [] \<rparr>)"

definition emit_result :: "byte \<Rightarrow> smtp_phase \<Rightarrow> ('i, 't) smtp_state \<Rightarrow> ('i, 't) smtp_state" where
  "emit_result outcome reached s =
     (if ss_res_produced s then s
      else s\<lparr> ss_res_produced := True, ss_res_owed := True, ss_res_outcome := outcome,
              ss_res_phase := smtp_phase_code reached \<rparr>)"

definition answer_status :: "byte \<Rightarrow> ex_status" where
  "answer_status outcome =
     (if outcome = SMTP_OUT_CONNECT_FAILED \<or> outcome = SMTP_OUT_CLOSED then StBadGateway
      else if outcome = SMTP_OUT_TIMEOUT then StTimeout
      else StOK)"

definition result_head :: "('i, 't) smtp_state \<Rightarrow> smtp_result_head" where
  "result_head s =
     \<lparr> rh_outcome = ss_res_outcome s, rh_phase = ss_res_phase s, rh_code = ss_res_code s,
       rh_enhanced = (if en_class (ss_res_enh s) = 0 then None else Some (ss_res_enh s)),
       rh_peer_ip = ss_peer_ip s, rh_peer_port = ss_port s, rh_text_len = length (ss_res_text s) \<rparr>"

definition flush_result :: "('i, 't) smtp_env \<Rightarrow> bool \<Rightarrow> ('i, 't) smtp_state \<Rightarrow> ('i, 't) smtp_state" where
  "flush_result en ok s =
     (if \<not> ss_res_owed s then s
      else if \<not> ss_answerable s \<or> ss_abandoned s \<or> \<not> ss_response_out s then s\<lparr> ss_res_owed := False \<rparr>
      else
        (case write_smtp_result (result_head s) (replicate (SMTP_RES_HDR + TEXT_BUF) 0) of
           (None, _) \<Rightarrow> s\<lparr> ss_res_owed := False \<rparr>
         | (Some tot, res) \<Rightarrow>
             let body = take tot (blit SMTP_RES_HDR (ss_res_text s) res);
                 code = answer_status (ss_res_outcome s);
                 fits = tot \<le> unat (ss_resp_credit s);
                 rid = ss_id s
             in if ss_head_sent s \<and> \<not> fits then s
                else
                  let n = (if \<not> ss_head_sent s
                           then sv_write_head en rid (code \<noteq> StOK) (\<not> fits) code (if fits then body else [])
                           else sv_write_body en rid body)
                  in (case n of
                        None \<Rightarrow> s\<lparr> ss_res_owed := False \<rparr>
                      | Some rec \<Rightarrow>
                          if \<not> ok then s
                          else if fits then log_eff (Answer True rec) s\<lparr> ss_res_owed := False \<rparr>
                          else log_eff (Answer False rec) s\<lparr> ss_head_sent := True \<rparr>)))"

definition record_reply :: "u16 \<Rightarrow> bytes \<Rightarrow> ('i, 't) smtp_state \<Rightarrow> ('i, 't) smtp_state" where
  "record_reply code t s =
     s\<lparr> ss_res_code := code, ss_res_text := take TEXT_BUF t,
        ss_res_enh := (case smtp_enhanced_status t of
                         Some e \<Rightarrow> e
                       | None \<Rightarrow> \<lparr> en_class = 0, en_subject = 0, en_detail = 0 \<rparr>) \<rparr>"

section \<open>Staging and the conversation\<close>

definition stage_req :: "('i, 't) smtp_env \<Rightarrow> bytes \<Rightarrow> u64 \<Rightarrow> ('i, 't) smtp_state \<Rightarrow> ('i, 't) smtp_state" where
  "stage_req en b now s =
     s\<lparr> ss_req := take (REQ_BUF en) b, ss_req_sent := 0, ss_started_ms := now \<rparr>"

definition build_cmd :: "smtp_cmd \<Rightarrow> ('i, 't) smtp_state \<Rightarrow> nat writer" where
  "build_cmd cmd s =
     (case cmd of
        SendEhlo \<Rightarrow> smtp_ehlo (ss_helo s)
      | SendMailFrom \<Rightarrow> smtp_mail_from (ss_mail_from s)
      | SendRcptTo \<Rightarrow> smtp_rcpt_to (ss_rcpt_to s)
      | SendAuth \<Rightarrow> smtp_auth_plain (ss_auth_user s) (ss_auth_pass s)
      | SendData \<Rightarrow> smtp_data
      | SendBody \<Rightarrow> wfail
      | SendQuit \<Rightarrow> smtp_quit
      | Complete \<Rightarrow> wfail
      | Fail \<Rightarrow> wfail)"

definition stage_cmd :: "('i, 't) smtp_env \<Rightarrow> smtp_cmd \<Rightarrow> u64 \<Rightarrow> ('i, 't) smtp_state \<Rightarrow> ('i, 't) smtp_state" where
  "stage_cmd en cmd now s =
     (case build_cmd cmd s (replicate (REQ_BUF en) 0) of
        (None, _) \<Rightarrow> s
      | (Some n, out) \<Rightarrow> stage_req en (take n out) now (log_eff (Staged cmd (take n out)) s))"

definition close_connection :: "('i, 't) smtp_state \<Rightarrow> ('i, 't) smtp_state" where
  "close_connection s =
     (if \<not> ss_conn_present s then s
      else (log_eff (NetClose (ss_conn_id s)) s)\<lparr> ss_conn_id := 0, ss_conn_present := False \<rparr>)"

definition auth_plan :: "('i, 't) smtp_state \<Rightarrow> smtp_auth_plan" where
  "auth_plan s =
     (if ss_auth_user s = [] then PlanNone
      else if ss_channel_confidential s = 0 \<or> \<not> ss_saw_auth_plain s then PlanRefuse
      else PlanPlain)"

text \<open>\<open>on_reply\<close>: first acceptance, against the phase the reply answers, then the machine's move,
  then what the move asks for.\<close>

definition note_reply :: "u16 \<Rightarrow> ('i, 't) smtp_state \<Rightarrow> ('i, 't) smtp_state" where
  "note_reply code s =
     (let answered = ss_phase s;
          s = log_eff (Answered answered code) s
      in if smtp_reply_accepts answered code
         then emit_status (ascii ''smtp: delivered'' @ [10])
                (emit_result SMTP_OUT_ACCEPTED answered
                  (s\<lparr> ss_accepted := True, ss_delivered := ss_delivered s + 1 \<rparr>))
         else s)"

definition fail_reply :: "u16 \<Rightarrow> smtp_phase \<Rightarrow> bool \<Rightarrow> ('i, 't) smtp_state \<Rightarrow> ('i, 't) smtp_state" where
  "fail_reply code answered refused_auth s =
     (let s = s\<lparr> ss_errors := ss_errors s + 1 \<rparr>
      in close_connection
           (if refused_auth
            then emit_status (ascii ''smtp: auth unavailable'' @ [10])
                   (emit_result SMTP_OUT_AUTH_UNAVAILABLE answered s)
            else emit_status (ascii ''smtp: rejected'' @ [10])
                   (emit_result (smtp_classify_code code) answered s)))"

definition on_reply :: "('i, 't) smtp_env \<Rightarrow> u16 \<Rightarrow> u64 \<Rightarrow> ('i, 't) smtp_state \<Rightarrow> ('i, 't) smtp_state" where
  "on_reply en code now s =
     (let answered = ss_phase s;
          s = note_reply code s;
          plan = auth_plan s;
          mv = smtp_on_reply (ss_phase s) code plan;
          s = s\<lparr> ss_phase := snd mv \<rparr>;
          refused_auth = (answered = Ehlo \<and> code = 250 \<and> plan = PlanRefuse)
      in if fst mv = Complete then emit_status (ascii ''smtp: delivered'' @ [10]) s
         else if fst mv = Fail then fail_reply code answered refused_auth s
         else stage_cmd en (fst mv) now s)"

text \<open>One turn of the \<open>drain_replies\<close> loop; \<^const>\<open>None\<close> is its \<open>break\<close>.\<close>

definition drain_prep :: "u16 \<Rightarrow> bool \<Rightarrow> nat \<Rightarrow> ('i, 't) smtp_state \<Rightarrow> ('i, 't) smtp_state" where
  "drain_prep code is_final len s =
     (let acc = ss_acc s;
          s = (if ss_phase s = Ehlo \<and> smtp_offers_auth_plain (take len acc) then s\<lparr> ss_saw_auth_plain := True \<rparr> else s);
          s = (if is_final then
                 (case smtp_reply_text acc len of
                    Some (at, text_len) \<Rightarrow> record_reply code (bslice at (at + min text_len TEXT_BUF) acc) s
                  | None \<Rightarrow> record_reply code [] s)
               else s)
      in s\<lparr> ss_acc := drop len acc \<rparr>)"

definition drain_one :: "('i, 't) smtp_env \<Rightarrow> u64 \<Rightarrow> ('i, 't) smtp_state \<Rightarrow> ('i, 't) smtp_state option" where
  "drain_one en now s =
     (if ss_phase s = Done \<or> ss_phase s = Failed then None
      else
        (case smtp_reply_line (ss_acc s) of
           None \<Rightarrow> None
         | Some (code, is_final, len) \<Rightarrow>
             let s = drain_prep code is_final len s
             in Some (if is_final then on_reply en code now s else s)))"

lemma drain_prep_acc [simp]: "ss_acc (drain_prep code fin len s) = drop len (ss_acc s)"
  by (simp add: drain_prep_def Let_def)

lemma log_eff_fields [simp]:
  "ss_acc (log_eff x s) = ss_acc s" "ss_phase (log_eff x s) = ss_phase s"
  by (simp_all add: log_eff_def)

lemma emit_acc [simp]:
  "ss_acc (emit_status t s) = ss_acc s" "ss_acc (emit_result oc ph s) = ss_acc s"
  "ss_acc (close_connection s) = ss_acc s" "ss_acc (stage_cmd en cmd now s) = ss_acc s"
  "ss_acc (record_reply code t s) = ss_acc s"
  by (auto simp: emit_status_def emit_result_def close_connection_def stage_cmd_def stage_req_def log_eff_def
      record_reply_def split: option.splits prod.splits)

lemma on_reply_acc [simp]: "ss_acc (on_reply en code now s) = ss_acc s"
  by (auto simp: on_reply_def note_reply_def fail_reply_def Let_def)

lemma smtp_crlf_loop_bound: "smtp_crlf_loop buf i = Some e \<Longrightarrow> i \<le> e \<and> e + 2 \<le> length buf"
proof (induction buf i rule: smtp_crlf_loop.induct)
  case (1 buf i)
  show ?case
    using 1(1) 1(2) by (subst (asm) (2) smtp_crlf_loop.simps) (auto split: if_splits)
qed

lemma smtp_reply_line_bound: "smtp_reply_line buf = Some (code, fin, len) \<Longrightarrow> 5 \<le> len \<and> len \<le> length buf"
  using smtp_crlf_loop_bound [of buf 0]
  by (auto simp: smtp_reply_line_def Let_def split: option.splits if_splits)

lemma drain_one_shrinks: "drain_one en now s = Some s' \<Longrightarrow> length (ss_acc s') < length (ss_acc s)"
  by (auto simp: drain_one_def Let_def split: if_splits option.splits dest!: smtp_reply_line_bound)

function drain_replies :: "('i, 't) smtp_env \<Rightarrow> u64 \<Rightarrow> ('i, 't) smtp_state \<Rightarrow> ('i, 't) smtp_state" where
  "drain_replies en now s =
     (case drain_one en now s of None \<Rightarrow> s | Some s' \<Rightarrow> drain_replies en now s')"
  by pat_completeness auto
termination
  by (relation "measure (\<lambda>(en, now, s). length (ss_acc s))") (auto dest: drain_one_shrinks)

declare drain_replies.simps [simp del]

section \<open>The message on its way out\<close>

definition pump_body :: "('i, 't) smtp_env \<Rightarrow> u64 \<Rightarrow> ('i, 't) smtp_state \<Rightarrow> ('i, 't) smtp_state" where
  "pump_body en now s =
     (if ss_phase s \<noteq> Body \<or> ss_req_sent s < length (ss_req s) then s
      else if ss_chunk s \<noteq> [] then
        (let raw = ss_chunk s;
             chunk_len = length raw
         in case smtp_body_chunk raw (ss_at_line_start s) (replicate (REQ_BUF en) 0) of
              (None, _) \<Rightarrow> s
            | (Some (n, at_line_start), out) \<Rightarrow>
                let s = s\<lparr> ss_at_line_start := at_line_start,
                           ss_ends_crlf := (2 \<le> chunk_len \<and> raw ! (chunk_len - 2) = 13 \<and> raw ! (chunk_len - 1) = 10),
                           ss_chunk := [] \<rparr>;
                    s = (if ss_more_body s \<and> ss_answerable s
                         then s\<lparr> ss_credit_owed := sat_add32 (ss_credit_owed s) (of_nat chunk_len) \<rparr> else s)
                in stage_req en (take n out) now (log_eff (StagedBody (take n out)) s))
      else if \<not> ss_more_body s \<and> \<not> ss_body_terminated s then
        (case smtp_body_end (ss_ends_crlf s) (replicate 8 0) of
           (None, _) \<Rightarrow> s
         | (Some n, out) \<Rightarrow>
             stage_req en (take n out) now (log_eff (StagedEnd (take n out)) (s\<lparr> ss_body_terminated := True \<rparr>)))
      else s)"

text \<open>
  The transmit loop of \<open>module_step\<close>: each turn frames at most \<open>NET_BUF - NET_FRAME_HDR - 1\<close> bytes of
  what is staged behind the frame header and a two-byte connection id, in \<open>nbuf\<close>, and advances only over
  a frame the channel took. \<^const>\<open>None\<close> is a frame longer than \<open>nbuf\<close>, whose copy runs past its end.
  \<open>oks\<close> is what the channel answers, turn by turn, to the poll and to the write; its end is a channel
  that polls as not writable.
\<close>

definition smtp_send_chunk :: "('i, 't) smtp_env \<Rightarrow> ('i, 't) smtp_state \<Rightarrow> nat" where
  "smtp_send_chunk en s = min (length (ss_req s) - ss_req_sent s) (NET_BUF - sv_frame_hdr en - 1)"

fun smtp_send_loop ::
    "('i, 't) smtp_env \<Rightarrow> (bool \<times> bool) list \<Rightarrow> ('i, 't) smtp_state \<Rightarrow> ('i, 't) smtp_state option" where
  "smtp_send_loop en [] s = Some s"
| "smtp_send_loop en ((writable, taken) # oks) s =
     (if \<not> (ss_req_sent s < length (ss_req s)) \<or> \<not> writable then Some s
      else
        let chunk = smtp_send_chunk en s;
            total_payload = chunk + 2
        in if NET_BUF < sv_frame_hdr en + total_payload then None
           else if \<not> taken then Some s
           else smtp_send_loop en oks (s\<lparr> ss_req_sent := ss_req_sent s + chunk \<rparr>))"

definition smtp_send ::
    "('i, 't) smtp_env \<Rightarrow> (bool \<times> bool) list \<Rightarrow> ('i, 't) smtp_state \<Rightarrow> ('i, 't) smtp_state option" where
  "smtp_send en oks s =
     (if ss_conn_present s \<and> ss_req_sent s < length (ss_req s) then smtp_send_loop en oks s else Some s)"

section \<open>Requests\<close>

record 'i req_head =
  hd_id :: 'i
  hd_post :: bool
  hd_special :: bool
  hd_more :: bool
  hd_mail_from :: "bytes option"
  hd_target :: bytes
  hd_body :: bytes
  hd_resp_credit :: u32

datatype 'i req_record =
    Unparsed
  | RecHead "'i req_head"
  | RecBody 'i bool bytes
  | RecCredit 'i u32
  | RecAbort 'i

definition flush_owed :: "('i, 't) smtp_env \<Rightarrow> bool \<times> bool \<Rightarrow> ('i, 't) smtp_state \<Rightarrow> bool \<times> ('i, 't) smtp_state" where
  "flush_owed en oks s =
     (let s = (if ss_ctl s = [] \<and> ss_credit_owed s \<noteq> 0 \<and> ss_answerable s \<and> \<not> ss_abandoned s then
                 (case sv_write_credit en (ss_id s) (ss_credit_owed s) of
                    Some b \<Rightarrow> s\<lparr> ss_credit_out := sat_add32 (ss_credit_out s) (ss_credit_owed s),
                                  ss_credit_owed := 0, ss_ctl := b \<rparr>
                  | None \<Rightarrow> s)
               else s)
      in if ss_ctl s \<noteq> [] \<and> \<not> fst oks then (False, s)
         else
           let s = s\<lparr> ss_ctl := [] \<rparr>
           in (case ss_refusal s of
                 None \<Rightarrow> (True, s)
               | Some (i, code) \<Rightarrow>
                   if sv_write_refusal en i code \<noteq> None \<and> \<not> snd oks then (False, s)
                   else (True, s\<lparr> ss_refusal := None \<rparr>)))"

definition refuse :: "('i, 't) smtp_env \<Rightarrow> bool \<times> bool \<Rightarrow> 'i \<Rightarrow> ex_status \<Rightarrow> ('i, 't) smtp_state \<Rightarrow> ('i, 't) smtp_state" where
  "refuse en oks i code s =
     snd (flush_owed en oks
       (s\<lparr> ss_refusal := Some (i, code), ss_dropped_unparsable := ss_dropped_unparsable s + 1 \<rparr>))"

definition end_abandoned :: "('i, 't) smtp_state \<Rightarrow> ('i, 't) smtp_state" where
  "end_abandoned s =
     (close_connection
       (s\<lparr> ss_abandoned := True, ss_res_owed := False, ss_res_produced := True, ss_credit_owed := 0 \<rparr>))
       \<lparr> ss_phase := Failed \<rparr>"

definition smtp_live :: "('i, 't) smtp_state \<Rightarrow> 'i \<Rightarrow> bool" where
  "smtp_live s i \<longleftrightarrow> ss_op_active s \<and> ss_answerable s \<and> i = ss_id s"

definition take_head :: "('i, 't) smtp_env \<Rightarrow> bool \<times> bool \<Rightarrow> 'i req_head \<Rightarrow> ('i, 't) smtp_state \<Rightarrow> ('i, 't) smtp_state" where
  "take_head en oks h s =
     (if ss_draining s \<or> ss_op_active s then refuse en oks (hd_id h) StBusy s
      else
        let from = (case hd_mail_from h of Some f \<Rightarrow> f | None \<Rightarrow> [])
        in if \<not> hd_post h \<or> hd_special h \<or> from = [] \<or> hd_target h = []
           then refuse en oks (hd_id h) StBadRequest s
           else if NAME_BUF < length from \<or> NAME_BUF < length (hd_target h) \<or> CHUNK_BUF en < length (hd_body h)
           then refuse en oks (hd_id h) StTooLarge s
           else (log_eff (Received (hd_body h)) s)\<lparr> ss_id := hd_id h, ss_answerable := True, ss_abandoned := False,
                   ss_resp_credit := hd_resp_credit h, ss_head_sent := False,
                   ss_mail_from := from, ss_rcpt_to := hd_target h, ss_chunk := hd_body h,
                   ss_more_body := hd_more h, ss_credit_out := 0,
                   ss_credit_owed := (if hd_more h then of_nat (CHUNK_BUF en - length (hd_body h)) else 0),
                   ss_at_line_start := True, ss_ends_crlf := False, ss_body_terminated := False,
                   ss_op_active := True, ss_admitted := ss_admitted s + 1 \<rparr>)"

text \<open>\<^const>\<open>None\<close> is the panic of copying body bytes past the end of the chunk buffer.\<close>

definition take_record ::
    "('i, 't) smtp_env \<Rightarrow> bool \<times> bool \<Rightarrow> 'i req_record \<Rightarrow> ('i, 't) smtp_state \<Rightarrow> ('i, 't) smtp_state option" where
  "take_record en oks r s =
     (case r of
        Unparsed \<Rightarrow> Some (s\<lparr> ss_dropped_unparsable := ss_dropped_unparsable s + 1 \<rparr>)
      | RecHead h \<Rightarrow> Some (if smtp_live s (hd_id h) then s else take_head en oks h s)
      | RecBody i more_flag data \<Rightarrow>
          if \<not> smtp_live s i then Some s
          else if \<not> ss_more_body s \<or> unat (ss_credit_out s) < length data then
            (let s = (case sv_write_abort en (ss_id s) of Some b \<Rightarrow> s\<lparr> ss_ctl := b \<rparr> | None \<Rightarrow> s)
             in Some (end_abandoned s))
          else if CHUNK_BUF en < length (ss_chunk s) + length data then None
          else Some ((log_eff (Received data) s)\<lparr> ss_chunk := ss_chunk s @ data, ss_credit_out := ss_credit_out s - of_nat (length data),
                        ss_more_body := more_flag \<rparr>)
      | RecCredit i n \<Rightarrow>
          Some (if smtp_live s i then s\<lparr> ss_resp_credit := sat_add32 (ss_resp_credit s) n \<rparr> else s)
      | RecAbort i \<Rightarrow>
          Some (if smtp_live s i then end_abandoned (emit_status (ascii ''smtp: cancelled'' @ [10]) s) else s))"

text \<open>One turn of the \<open>pump_requests\<close> loop: what is owed goes first, and no record is taken while it
  waits. The answer says whether the loop goes on.\<close>

definition pump_one ::
    "('i, 't) smtp_env \<Rightarrow> (bool \<times> bool) \<times> 'i req_record option \<times> (bool \<times> bool) \<Rightarrow> ('i, 't) smtp_state
      \<Rightarrow> (bool \<times> ('i, 't) smtp_state) option" where
  "pump_one en x s =
     (case x of (oks, r, oks') \<Rightarrow>
        let (go, s) = flush_owed en oks s
        in if \<not> go then Some (False, s)
           else (case r of
                   None \<Rightarrow> Some (False, s)
                 | Some rec \<Rightarrow> map_option (Pair True) (take_record en oks' rec s)))"

fun pump_requests_loop ::
    "('i, 't) smtp_env \<Rightarrow> nat \<Rightarrow> ((bool \<times> bool) \<times> 'i req_record option \<times> (bool \<times> bool)) list \<Rightarrow> ('i, 't) smtp_state
      \<Rightarrow> ('i, 't) smtp_state option" where
  "pump_requests_loop en 0 xs s = Some s"
| "pump_requests_loop en (Suc k) [] s = Some s"
| "pump_requests_loop en (Suc k) (x # xs) s =
     (case pump_one en x s of
        None \<Rightarrow> None
      | Some (go, s) \<Rightarrow> if go then pump_requests_loop en k xs s else Some s)"

definition pump_requests ::
    "('i, 't) smtp_env \<Rightarrow> ((bool \<times> bool) \<times> 'i req_record option \<times> (bool \<times> bool)) list \<Rightarrow> ('i, 't) smtp_state
      \<Rightarrow> ('i, 't) smtp_state option" where
  "pump_requests en xs s =
     (if \<not> ss_request_in s \<or> \<not> ss_response_out s then Some s else pump_requests_loop en 4 xs s)"

section \<open>The network and the deadline\<close>

datatype 't net_msg =
    NetConnected u16 't
  | NetData u16 bytes
  | NetClosed u16
  | NetError "(u16 \<times> 't) option" bool

definition smtp_dial :: "bool \<Rightarrow> u64 \<Rightarrow> ('i, 't) smtp_state \<Rightarrow> ('i, 't) smtp_state" where
  "smtp_dial ok now s =
     (if ss_op_active s \<and> ss_phase s = Disconnected \<and> \<not> ss_res_produced s \<and> ok
      then s\<lparr> ss_phase := Connecting, ss_started_ms := now \<rparr> else s)"

text \<open>The conversation ends without the server: the phase, the error count, the result and the status
  line. A closed connection reports \<open>s.phase\<close> after it was set, so the phase reached is \<open>Failed\<close>;
  the other two report the phase they left.\<close>

definition fail_with :: "byte \<Rightarrow> smtp_phase \<Rightarrow> bytes \<Rightarrow> ('i, 't) smtp_state \<Rightarrow> ('i, 't) smtp_state" where
  "fail_with outcome reached t s =
     emit_status t (emit_result outcome reached (s\<lparr> ss_phase := Failed, ss_errors := ss_errors s + 1 \<rparr>))"

definition net_error ::
    "('i, 't) smtp_env \<Rightarrow> (u16 \<times> 't) option \<Rightarrow> bool \<Rightarrow> ('i, 't) smtp_state \<Rightarrow> ('i, 't) smtp_state" where
  "net_error en parts tagged s =
     (let err_cid = (case parts of Some p \<Rightarrow> fst p | None \<Rightarrow> 0);
          err_tag = (case parts of Some p \<Rightarrow> snd p | None \<Rightarrow> sv_tag_none en);
          connecting = (ss_phase s = Connecting \<and> parts \<noteq> None \<and> tagged \<and> err_tag = ss_tag s);
          established = (ss_conn_present s \<and> parts \<noteq> None \<and> err_tag = sv_tag_none en \<and> err_cid = ss_conn_id s)
      in if (connecting \<or> established) \<and> ss_phase s \<noteq> Done \<and> ss_phase s \<noteq> Failed
         then fail_with (if connecting then SMTP_OUT_CONNECT_FAILED else SMTP_OUT_CLOSED) (ss_phase s)
                (ascii ''smtp: network error'' @ [10]) s
         else s)"

definition smtp_net :: "('i, 't) smtp_env \<Rightarrow> u64 \<Rightarrow> 't net_msg \<Rightarrow> ('i, 't) smtp_state \<Rightarrow> ('i, 't) smtp_state" where
  "smtp_net en now m s =
     (case m of
        NetConnected cid tag \<Rightarrow>
          if ss_phase s = Connecting \<and> tag = ss_tag s
          then s\<lparr> ss_conn_id := cid, ss_conn_present := True, ss_phase := Greet, ss_started_ms := now \<rparr>
          else s
      | NetData cid data \<Rightarrow>
          if ss_phase s \<noteq> Disconnected \<and> ss_phase s \<noteq> Connecting \<and> data \<noteq> [] \<and> cid = ss_conn_id s
          then drain_replies en now
                 (s\<lparr> ss_acc := ss_acc s @ take (min (length data) (ACC_BUF - length (ss_acc s))) data \<rparr>)
          else s
      | NetClosed cid \<Rightarrow>
          if ss_phase s \<noteq> Disconnected \<and> cid = ss_conn_id s \<and> ss_phase s \<noteq> Done
          then (fail_with SMTP_OUT_CLOSED Failed (ascii ''smtp: connection closed'' @ [10]) s)
                 \<lparr> ss_conn_id := 0, ss_conn_present := False \<rparr>
          else s
      | NetError parts tagged \<Rightarrow> net_error en parts tagged s)"

lemma net_error_cases:
  obtains (ignored) "net_error en parts tagged s = s"
  | (failed) outcome t where "net_error en parts tagged s = fail_with outcome (ss_phase s) t s"
      "outcome \<in> {SMTP_OUT_CONNECT_FAILED, SMTP_OUT_CLOSED}" "ss_phase s = Connecting \<or> ss_conn_present s"
      "ss_phase s \<noteq> Done" "ss_phase s \<noteq> Failed"
proof -
  define c e where "c = (ss_phase s = Connecting \<and> parts \<noteq> None \<and> tagged \<and>
      (case parts of Some p \<Rightarrow> snd p | None \<Rightarrow> sv_tag_none en) = ss_tag s)"
    and "e = (ss_conn_present s \<and> parts \<noteq> None \<and>
      (case parts of Some p \<Rightarrow> snd p | None \<Rightarrow> sv_tag_none en) = sv_tag_none en \<and>
      (case parts of Some p \<Rightarrow> fst p | None \<Rightarrow> 0) = ss_conn_id s)"
  have eq: "net_error en parts tagged s =
      (if (c \<or> e) \<and> ss_phase s \<noteq> Done \<and> ss_phase s \<noteq> Failed
       then fail_with (if c then SMTP_OUT_CONNECT_FAILED else SMTP_OUT_CLOSED) (ss_phase s)
              (ascii ''smtp: network error'' @ [10]) s
       else s)"
    by (simp only: net_error_def Let_def c_def e_def)
  show thesis
  proof (cases "(c \<or> e) \<and> ss_phase s \<noteq> Done \<and> ss_phase s \<noteq> Failed")
    case True
    show thesis by (rule failed [OF eq [unfolded if_P [OF True]]]) (use True in \<open>auto simp: c_def e_def\<close>)
  next
    case False
    show thesis by (rule ignored [OF eq [unfolded if_not_P [OF False]]])
  qed
qed

definition smtp_deadline :: "u64 \<Rightarrow> ('i, 't) smtp_state \<Rightarrow> ('i, 't) smtp_state" where
  "smtp_deadline now s =
     (if ss_op_active s \<and> ss_phase s \<noteq> Disconnected \<and> ss_phase s \<noteq> Done \<and> ss_phase s \<noteq> Failed then
        let budget = (if ss_phase s = Connecting then CONNECT_TIMEOUT_MS else REPLY_TIMEOUT_MS)
        in if budget < now - ss_started_ms s
           then fail_with SMTP_OUT_TIMEOUT (ss_phase s) (ascii ''smtp: timeout'' @ [10]) s
           else s
      else s)"

section \<open>Retiring a submission\<close>

definition finish_op :: "('i, 't) smtp_env \<Rightarrow> ('i, 't) smtp_state \<Rightarrow> ('i, 't) smtp_state" where
  "finish_op en s =
     (if ss_res_owed s \<or> ss_status s \<noteq> [] then s
      else (close_connection s)
        \<lparr> ss_op_active := False, ss_id := sv_id_none en, ss_answerable := False, ss_abandoned := False,
          ss_credit_out := 0, ss_credit_owed := 0, ss_resp_credit := 0, ss_head_sent := False,
          ss_mail_from := [], ss_rcpt_to := [], ss_chunk := [], ss_more_body := False,
          ss_at_line_start := True, ss_ends_crlf := False, ss_body_terminated := False,
          ss_saw_auth_plain := False, ss_phase := Disconnected, ss_req := [], ss_req_sent := 0,
          ss_acc := [], ss_accepted := False, ss_res_produced := False, ss_res_outcome := 0,
          ss_res_phase := 0, ss_res_code := 0,
          ss_res_enh := \<lparr> en_class = 0, en_subject = 0, en_detail = 0 \<rparr>, ss_res_text := [],
          ss_status_produced := False, ss_log := [] \<rparr>)"

definition smtp_retire :: "('i, 't) smtp_env \<Rightarrow> ('i, 't) smtp_state \<Rightarrow> ('i, 't) smtp_state" where
  "smtp_retire en s =
     (if ss_op_active s \<and> (ss_phase s = Done \<or> ss_phase s = Failed) then finish_op en s else s)"

section \<open>The module\<close>

record ('i, 't) smtp_params =
  sp_helo :: bytes
  sp_mail_from :: bytes
  sp_rcpt_to :: bytes
  sp_body :: bytes
  sp_auth_user :: bytes
  sp_auth_pass :: bytes
  sp_channel_confidential :: u32
  sp_port :: u16
  sp_peer_ip :: "byte \<times> byte \<times> byte \<times> byte"
  sp_tag :: 't
  sp_status_out :: bool
  sp_request_in :: bool
  sp_response_out :: bool

text \<open>\<open>module_new\<close> after the authority has parsed: the parameters cut to their buffers, everything else
  cleared, and a submission described by the parameters taken as already in hand.\<close>

definition smtp_new :: "('i, 't) smtp_env \<Rightarrow> ('i, 't) smtp_params \<Rightarrow> ('i, 't) smtp_state" where
  "smtp_new en q =
     (let helo = (if sp_helo q = [] then ascii ''localhost'' else take NAME_BUF (sp_helo q));
          mail_from = take NAME_BUF (sp_mail_from q);
          rcpt_to = take NAME_BUF (sp_rcpt_to q);
          chunk = take (CHUNK_BUF en) (sp_body q)
      in \<lparr> ss_status_out = sp_status_out q, ss_request_in = sp_request_in q, ss_response_out = sp_response_out q,
           ss_port = sp_port q, ss_peer_ip = sp_peer_ip q, ss_helo = helo,
           ss_auth_user = take 120 (sp_auth_user q), ss_auth_pass = take 120 (sp_auth_pass q),
           ss_channel_confidential = sp_channel_confidential q, ss_saw_auth_plain = False,
           ss_op_active = (mail_from \<noteq> [] \<and> rcpt_to \<noteq> []), ss_id = sv_id_none en,
           ss_answerable = False, ss_abandoned = False, ss_credit_out = 0, ss_credit_owed = 0,
           ss_resp_credit = 0, ss_head_sent = False, ss_mail_from = mail_from, ss_rcpt_to = rcpt_to,
           ss_chunk = chunk, ss_more_body = False, ss_at_line_start = True, ss_ends_crlf = False,
           ss_body_terminated = False, ss_phase = Disconnected, ss_conn_id = 0, ss_conn_present = False,
           ss_tag = sp_tag q, ss_started_ms = 0, ss_draining = False, ss_req = [], ss_req_sent = 0,
           ss_acc = [], ss_accepted = False, ss_res_produced = False, ss_res_owed = False,
           ss_res_outcome = 0, ss_res_phase = 0, ss_res_code = 0,
           ss_res_enh = \<lparr> en_class = 0, en_subject = 0, en_detail = 0 \<rparr>, ss_res_text = [],
           ss_status = [], ss_status_produced = False, ss_refusal = None, ss_ctl = [],
           ss_delivered = 0, ss_errors = 0, ss_admitted = 0, ss_dropped_unparsable = 0,
           ss_log = (if mail_from \<noteq> [] \<and> rcpt_to \<noteq> [] then [Received chunk] else []) \<rparr>)"

definition module_drain :: "('i, 't) smtp_state \<Rightarrow> ('i, 't) smtp_state" where
  "module_drain s = s\<lparr> ss_draining := True \<rparr>"

text \<open>What one call of \<open>module_step\<close> finds in its channels and is told by them.\<close>

record ('i, 't) smtp_input =
  si_now :: u64
  si_requests :: "((bool \<times> bool) \<times> 'i req_record option \<times> (bool \<times> bool)) list"
  si_dial_ok :: bool
  si_net :: "'t net_msg list"
  si_send_oks :: "(bool \<times> bool) list"
  si_result_ok :: bool
  si_status_ok :: bool
  si_close_ok :: bool

definition smtp_quiesce :: "bool \<Rightarrow> ('i, 't) smtp_state \<Rightarrow> bool \<times> ('i, 't) smtp_state" where
  "smtp_quiesce close_ok s =
     (if ss_draining s \<and> \<not> ss_res_owed s \<and> ss_status s = [] \<and> \<not> ss_op_active s \<and> ss_refusal s = None \<and> ss_ctl s = []
      then
        if ss_conn_present s then
          if \<not> close_ok then (False, s)
          else (True, s\<lparr> ss_conn_id := 0, ss_conn_present := False \<rparr>)
        else (True, s)
      else (False, s))"

definition module_step ::
    "('i, 't) smtp_env \<Rightarrow> ('i, 't) smtp_input \<Rightarrow> ('i, 't) smtp_state \<Rightarrow> (bool \<times> ('i, 't) smtp_state) option" where
  "module_step en inp s =
     (case pump_requests en (si_requests inp) s of
        None \<Rightarrow> None
      | Some s \<Rightarrow>
          let now = si_now inp;
              s = smtp_dial (si_dial_ok inp) now s;
              s = fold (smtp_net en now) (si_net inp) s;
              s = pump_body en now s
          in (case smtp_send en (si_send_oks inp) s of
                None \<Rightarrow> None
              | Some s \<Rightarrow>
                  let s = smtp_deadline now s;
                      s = flush_result en (si_result_ok inp) s;
                      s = flush_status (si_status_ok inp) s;
                      s = smtp_retire en s
                  in Some (smtp_quiesce (si_close_ok inp) s)))"

text \<open>The states the module passes through: from construction, by calls of \<open>module_step\<close> and
  \<open>module_drain\<close>.\<close>

inductive smtp_reach :: "('i, 't) smtp_env \<Rightarrow> ('i, 't) smtp_state \<Rightarrow> bool" for en where
  boot: "smtp_reach en (smtp_new en q)"
| drain: "smtp_reach en s \<Longrightarrow> smtp_reach en (module_drain s)"
| step: "smtp_reach en s \<Longrightarrow> module_step en inp s = Some (b, s') \<Longrightarrow> smtp_reach en s'"

text \<open>
  What every part of a step keeps, the step keeps; the parts are the operations \<open>module_step\<close> calls.
  Retiring the submission may leave something weaker behind (\<open>post\<close>). A step that overruns a buffer has
  no next state.
\<close>

locale smtp_step_parts =
  fixes en :: "('i, 't) smtp_env" and inv post :: "('i, 't) smtp_state \<Rightarrow> bool"
  assumes inv_owed: "inv s \<Longrightarrow> inv (snd (flush_owed en oks s))"
    and inv_record: "inv s \<Longrightarrow> take_record en oks r s = Some s' \<Longrightarrow> inv s'"
    and inv_dial: "inv s \<Longrightarrow> inv (smtp_dial ok now s)"
    and inv_net: "inv s \<Longrightarrow> inv (smtp_net en now m s)"
    and inv_body: "inv s \<Longrightarrow> inv (pump_body en now s)"
    and inv_sent: "inv s \<Longrightarrow> ss_req_sent s < length (ss_req s) \<Longrightarrow>
      inv (s\<lparr> ss_req_sent := ss_req_sent s + smtp_send_chunk en s \<rparr>)"
    and inv_deadline: "inv s \<Longrightarrow> inv (smtp_deadline now s)"
    and inv_result: "inv s \<Longrightarrow> inv (flush_result en ok s)"
    and inv_status: "inv s \<Longrightarrow> inv (flush_status ok s)"
    and inv_retire: "inv s \<Longrightarrow> post (smtp_retire en s)"
    and inv_quiesce: "post s \<Longrightarrow> post (snd (smtp_quiesce ok s))"
begin

lemma inv_pump_one: "inv s \<Longrightarrow> pump_one en x s = Some (go, s') \<Longrightarrow> inv s'"
  using inv_owed [of s "fst x"] inv_record
  by (auto simp: pump_one_def split: prod.splits if_splits option.splits)

lemma inv_pump_requests: "inv s \<Longrightarrow> pump_requests en xs s = Some s' \<Longrightarrow> inv s'"
proof -
  have "inv s \<Longrightarrow> pump_requests_loop en k xs s = Some s' \<Longrightarrow> inv s'" for k
  proof (induction k arbitrary: xs s)
    case (Suc k)
    show ?case
    proof (cases xs)
      case (Cons x ys)
      with Suc.prems(2) obtain go t where p: "pump_one en x s = Some (go, t)"
        and r: "(if go then pump_requests_loop en k ys t else Some t) = Some s'"
        by (auto split: option.splits)
      then show ?thesis using Suc.IH inv_pump_one [OF Suc.prems(1) p] by (auto split: if_splits)
    qed (use Suc.prems in simp)
  qed simp
  then show "inv s \<Longrightarrow> pump_requests en xs s = Some s' \<Longrightarrow> inv s'"
    by (auto simp: pump_requests_def split: if_splits)
qed

lemma inv_send: "inv s \<Longrightarrow> smtp_send en oks s = Some s' \<Longrightarrow> inv s'"
proof -
  have "inv s \<Longrightarrow> smtp_send_loop en oks s = Some s' \<Longrightarrow> inv s'"
  proof (induction oks arbitrary: s)
    case (Cons x oks)
    then show ?case
      by (cases x) (auto simp: Let_def split: if_splits intro: Cons.IH inv_sent)
  qed simp
  then show "inv s \<Longrightarrow> smtp_send en oks s = Some s' \<Longrightarrow> inv s'" by (auto simp: smtp_send_def split: if_splits)
qed

lemma inv_net_all: "inv s \<Longrightarrow> inv (fold (smtp_net en now) ms s)"
  by (induction ms arbitrary: s) (auto simp: inv_net)

lemma inv_step:
  assumes "inv s" and "module_step en inp s = Some (b, s')"
  shows "post s'"
proof -
  obtain s1 where p: "pump_requests en (si_requests inp) s = Some s1"
    using assms(2) by (auto simp: module_step_def split: option.splits)
  let ?now = "si_now inp"
  let ?s = "pump_body en ?now (fold (smtp_net en ?now) (si_net inp) (smtp_dial (si_dial_ok inp) ?now s1))"
  obtain s2 where q: "smtp_send en (si_send_oks inp) ?s = Some s2"
    using assms(2) p by (auto simp: module_step_def Let_def split: option.splits)
  have "inv ?s" by (intro inv_body inv_net_all inv_dial inv_pump_requests [OF assms(1) p])
  then have "inv s2" using q by (rule inv_send)
  then have "post (snd (smtp_quiesce (si_close_ok inp) (smtp_retire en (flush_status (si_status_ok inp)
      (flush_result en (si_result_ok inp) (smtp_deadline ?now s2))))))"
    by (intro inv_quiesce inv_retire inv_status inv_result inv_deadline)
  then show ?thesis using assms(2) p q by (simp add: module_step_def Let_def)
qed

end

text \<open>An invariant that construction establishes and every part keeps holds of every state reached.\<close>

locale smtp_parts = smtp_step_parts en inv inv for en :: "('i, 't) smtp_env" and inv +
  assumes inv_new: "inv (smtp_new en q)"
    and inv_drain: "inv s \<Longrightarrow> inv (module_drain s)"
begin

lemma inv_reach: "smtp_reach en s \<Longrightarrow> inv s"
  by (induction rule: smtp_reach.induct) (auto intro: inv_new inv_drain inv_step)

end

end
