(* ===== verification/Smtp_Submission.thy ===== *)
theory Smtp_Submission
  imports Smtp_Session "HOL-Library.Sublist"
begin

text \<open>
  What holds of every state of the submission connector, whatever its channels deliver and refuse:
  the body, reply and request buffers are never overrun, a submission has one verdict and acceptance is
  never taken back. Where the connector departs from what it means is shown beside these: the frame that
  does not fit the network buffer, and the acceptance of a message that was not sent.
\<close>

lemma drain_replies_keeps:
  assumes keep: "\<And>s s'. P s \<Longrightarrow> drain_one en now s = Some s' \<Longrightarrow> P s'" and "P s"
  shows "P (drain_replies en now s)"
  using assms(2)
proof (induction "length (ss_acc s)" arbitrary: s rule: less_induct)
  case less
  show ?case
  proof (cases "drain_one en now s")
    case None
    with less.prems show ?thesis by (simp add: drain_replies.simps)
  next
    case (Some t)
    then have "P (drain_replies en now t)"
      using less drain_one_shrinks [OF Some] keep by blast
    with Some show ?thesis by (simp add: drain_replies.simps)
  qed
qed

section \<open>Buffers\<close>

definition smtp_room :: "('i, 't) smtp_env \<Rightarrow> ('i, 't) smtp_state \<Rightarrow> bool" where
  "smtp_room en s \<longleftrightarrow>
     length (ss_chunk s) + unat (ss_credit_out s) + unat (ss_credit_owed s) \<le> CHUNK_BUF en \<and>
     length (ss_acc s) \<le> ACC_BUF \<and> ss_req_sent s \<le> length (ss_req s) \<and> length (ss_req s) \<le> REQ_BUF en"

lemma room_emit [simp]:
  "smtp_room en (emit_status t s) = smtp_room en s" "smtp_room en (emit_result oc ph s) = smtp_room en s"
  "smtp_room en (close_connection s) = smtp_room en s" "smtp_room en (log_eff x s) = smtp_room en s"
  "smtp_room en (record_reply code t s) = smtp_room en s"
  by (auto simp: smtp_room_def emit_status_def emit_result_def close_connection_def log_eff_def record_reply_def)

lemma room_update [simp]:
  "smtp_room en (s\<lparr> ss_phase := ph \<rparr>) = smtp_room en s" "smtp_room en (s\<lparr> ss_errors := n \<rparr>) = smtp_room en s"
  "smtp_room en (s\<lparr> ss_accepted := b, ss_delivered := n \<rparr>) = smtp_room en s"
  "smtp_room en (s\<lparr> ss_saw_auth_plain := b \<rparr>) = smtp_room en s"
  "smtp_room en (s\<lparr> ss_phase := ph, ss_errors := n \<rparr>) = smtp_room en s"
  "smtp_room en (s\<lparr> ss_conn_id := c, ss_conn_present := b \<rparr>) = smtp_room en s"
  by (simp_all add: smtp_room_def)



lemma room_note [simp]: "smtp_room en (note_reply code s) = smtp_room en s"
  by (simp add: note_reply_def Let_def)

lemma room_fail [simp]: "smtp_room en (fail_reply code ph b s) = smtp_room en s"
  by (simp add: fail_reply_def Let_def)


lemma drain_one_prep:
  "drain_one en now s = Some s' \<longleftrightarrow>
   ss_phase s \<noteq> Done \<and> ss_phase s \<noteq> Failed \<and>
   (\<exists>code fin len. smtp_reply_line (ss_acc s) = Some (code, fin, len) \<and>
     s' = (if fin then on_reply en code now (drain_prep code fin len s) else drain_prep code fin len s))"
  by (auto simp: drain_one_def Let_def split: option.splits)



lemma room_fail_with [simp]: "smtp_room en (fail_with oc ph t s) = smtp_room en s"
  by (simp add: fail_with_def)







lemma length_take_min_acc: "length a \<le> n \<Longrightarrow> length (a @ take (min k (n - length a)) b) \<le> n"
  by simp








theorem smtp_frame_overrun:
  assumes "ss_conn_present s" and "ss_req_sent s + (NET_BUF - sv_frame_hdr en - 1) \<le> length (ss_req s)"
    and "sv_frame_hdr en < NET_BUF - 1"
  shows "smtp_send en ((True, taken) # oks) s = None"
proof -
  have "ss_req_sent s < length (ss_req s)" "smtp_send_chunk en s = NET_BUF - sv_frame_hdr en - 1"
    using assms(2,3) by (auto simp: smtp_send_chunk_def)
  with assms(1,3) show ?thesis by (simp add: smtp_send_def Let_def)
qed


text \<open>Runs, and an environment for the witnesses: body records of up to eight bytes, every record
  encoder answering a byte before its payload, identities and tags as numbers.\<close>

fun smtp_run :: "('i, 't) smtp_env \<Rightarrow> ('i, 't) smtp_input list \<Rightarrow> ('i, 't) smtp_state \<Rightarrow> ('i, 't) smtp_state option" where
  "smtp_run en [] s = Some s"
| "smtp_run en (inp # inps) s = (case module_step en inp s of None \<Rightarrow> None | Some (_, s') \<Rightarrow> smtp_run en inps s')"

lemma smtp_run_reach: "smtp_reach en s \<Longrightarrow> smtp_run en inps s = Some t \<Longrightarrow> smtp_reach en t"
  by (induction inps arbitrary: s) (auto split: option.splits intro: smtp_reach.step)

definition demo_env :: "(nat, nat) smtp_env" where
  "demo_env = \<lparr> sv_body_max = 8, sv_frame_hdr = 3, sv_tag_none = 0, sv_id_none = 0,
     sv_write_credit = (\<lambda>_ _. Some [1]), sv_write_abort = (\<lambda>_. Some [2]), sv_write_refusal = (\<lambda>_ _. Some [3]),
     sv_write_head = (\<lambda>_ _ _ _ b. Some (4 # b)), sv_write_body = (\<lambda>_ b. Some (5 # b)) \<rparr>"

definition demo_params :: "(nat, nat) smtp_params" where
  "demo_params = \<lparr> sp_helo = ascii ''h'', sp_mail_from = [], sp_rcpt_to = [], sp_body = [],
     sp_auth_user = [], sp_auth_pass = [], sp_channel_confidential = 1, sp_port = 25,
     sp_peer_ip = (10, 0, 0, 1), sp_tag = 7, sp_status_out = True, sp_request_in = True, sp_response_out = True \<rparr>"

text \<open>A submission of two records for identity 5, the conversation up to the message, and the end of it.
  The status line is never taken, so the submission is not retired.\<close>

definition demo_head :: "nat req_head" where
  "demo_head = \<lparr> hd_id = 5, hd_post = True, hd_special = False, hd_more = True, hd_mail_from = Some (ascii ''a''),
     hd_target = ascii ''b'', hd_body = ascii ''.x'', hd_resp_credit = 100 \<rparr>"

definition demo_call ::
    "((bool \<times> bool) \<times> nat req_record option \<times> (bool \<times> bool)) list \<Rightarrow> nat net_msg list \<Rightarrow> (nat, nat) smtp_input" where
  "demo_call reqs net = \<lparr> si_now = 0, si_requests = reqs, si_dial_ok = True, si_net = net,
     si_send_oks = [(True, True), (True, True)], si_result_ok = True, si_status_ok = False, si_close_ok = True \<rparr>"

definition demo_records :: "((bool \<times> bool) \<times> nat req_record option \<times> (bool \<times> bool)) list" where
  "demo_records = [((True, True), Some (RecHead demo_head), (True, True)),
     ((True, True), Some (RecBody 5 False [13, 10, 46]), (True, True))]"

definition demo_replies :: "string list \<Rightarrow> nat net_msg list" where
  "demo_replies codes = map (\<lambda>c. NetData 4 (ascii c @ crlf)) codes"


section \<open>One verdict\<close>

fun is_final_answer :: "smtp_eff \<Rightarrow> bool" where
  "is_final_answer (Answer d b) = d"
| "is_final_answer _ = False"

text \<open>Every 250 answered in the phase after DATA comes after the 354 that opened that phase.\<close>

definition after_354 :: "smtp_eff list \<Rightarrow> bool" where
  "after_354 l \<longleftrightarrow> (\<forall>xs ys. l = xs @ Answered Body 250 # ys \<longrightarrow> Answered Data 354 \<in> set xs)"

lemma after_354_Nil [simp]: "after_354 []"
  by (simp add: after_354_def)

lemma after_354_snoc [simp]:
  "after_354 (l @ [x]) \<longleftrightarrow> after_354 l \<and> (x = Answered Body 250 \<longrightarrow> Answered Data 354 \<in> set l)"
proof
  assume r: "after_354 (l @ [x])"
  have "Answered Data 354 \<in> set xs" if "l = xs @ Answered Body 250 # ys" for xs ys
    using r that by (auto simp: after_354_def)
  with r show "after_354 l \<and> (x = Answered Body 250 \<longrightarrow> Answered Data 354 \<in> set l)"
    by (auto simp: after_354_def)
next
  assume l: "after_354 l \<and> (x = Answered Body 250 \<longrightarrow> Answered Data 354 \<in> set l)"
  show "after_354 (l @ [x])" unfolding after_354_def
  proof (intro allI impI)
    fix xs ys assume "l @ [x] = xs @ Answered Body 250 # ys"
    then show "Answered Data 354 \<in> set xs" using l
      by (cases ys rule: rev_cases) (auto simp: after_354_def)
  qed
qed

lemma after_354_single [simp]: "after_354 [x] \<longleftrightarrow> x \<noteq> Answered Body 250"
  using after_354_snoc [of "[]" x] by simp

definition smtp_verdict :: "('i, 't) smtp_state \<Rightarrow> bool" where
  "smtp_verdict s \<longleftrightarrow>
     after_354 (ss_log s) \<and> (ss_phase s = Body \<longrightarrow> Answered Data 354 \<in> set (ss_log s)) \<and>
     (ss_accepted s \<longrightarrow> ss_res_produced s \<and> ss_res_outcome s = SMTP_OUT_ACCEPTED) \<and>
     (ss_accepted s \<longleftrightarrow> Answered Body 250 \<in> set (ss_log s)) \<and>
     (ss_res_produced s \<and> \<not> ss_abandoned s \<and> ss_res_outcome s = SMTP_OUT_ACCEPTED \<longrightarrow> ss_accepted s) \<and>
     (ss_phase s \<in> {Quit, Done} \<longrightarrow> ss_accepted s) \<and>
     (ss_phase s \<notin> {Quit, Done, Failed} \<longrightarrow> \<not> ss_res_produced s \<and> \<not> ss_accepted s) \<and>
     (ss_res_owed s \<longrightarrow> ss_res_produced s) \<and>
     (ss_abandoned s \<longrightarrow> ss_phase s = Failed) \<and>
     (\<not> ss_op_active s \<longrightarrow> ss_phase s = Disconnected \<and> ss_log s = [] \<and> \<not> ss_conn_present s) \<and>
     length (filter is_final_answer (ss_log s)) \<le> 1 \<and>
     (filter is_final_answer (ss_log s) \<noteq> [] \<longrightarrow> \<not> ss_res_owed s \<and> ss_res_produced s)"

lemma verdict_emit_status [simp]: "smtp_verdict (emit_status t s) = smtp_verdict s"
  by (simp add: smtp_verdict_def emit_status_def)

lemma verdict_frame [simp]:
  "smtp_verdict (stage_req en b now s) = smtp_verdict s" "smtp_verdict (record_reply code t s) = smtp_verdict s"
  "smtp_verdict (s\<lparr> ss_saw_auth_plain := sa \<rparr>) = smtp_verdict s" "smtp_verdict (s\<lparr> ss_acc := a \<rparr>) = smtp_verdict s"
  "smtp_verdict (s\<lparr> ss_ctl := c \<rparr>) = smtp_verdict s" "smtp_verdict (s\<lparr> ss_errors := n \<rparr>) = smtp_verdict s"
  by (simp_all add: smtp_verdict_def stage_req_def record_reply_def)

lemma verdict_log:
  "smtp_verdict s \<Longrightarrow> ss_op_active s \<Longrightarrow> \<not> is_final_answer x \<Longrightarrow> x \<noteq> Answered Body 250 \<Longrightarrow> smtp_verdict (log_eff x s)"
  by (auto simp: smtp_verdict_def log_eff_def)

lemma emit_status_fields [simp]:
  "ss_phase (emit_status t s) = ss_phase s" "ss_op_active (emit_status t s) = ss_op_active s"
  by (simp_all add: emit_status_def)

lemma verdict_close: "smtp_verdict s \<Longrightarrow> ss_op_active s \<Longrightarrow> smtp_verdict (close_connection s)"
  by (auto simp: close_connection_def smtp_verdict_def log_eff_def)

lemma verdict_stage_cmd: "smtp_verdict s \<Longrightarrow> ss_op_active s \<Longrightarrow> smtp_verdict (stage_cmd en cmd now s)"
  by (auto simp: stage_cmd_def verdict_log split: prod.splits option.splits)

text \<open>Failing with an outcome other than acceptance.\<close>

lemma verdict_fail:
  assumes "smtp_verdict s" and "ss_op_active s" and "outcome \<noteq> SMTP_OUT_ACCEPTED"
  shows "smtp_verdict (emit_result outcome ph (s\<lparr> ss_phase := Failed, ss_errors := n \<rparr>))"
  using assms by (auto simp: smtp_verdict_def emit_result_def)

lemma classify_not_accepted: "smtp_classify_code code \<noteq> SMTP_OUT_ACCEPTED"
  by (simp add: smtp_classify_code_def)

lemma note_reply_phase [simp]: "ss_phase (note_reply code s) = ss_phase s" "ss_op_active (note_reply code s) = ss_op_active s"
  by (simp_all add: note_reply_def Let_def emit_result_def log_eff_def)

lemma verdict_note:
  assumes "smtp_verdict s" and "ss_op_active s"
  shows "if ss_phase s = Body \<and> code = 250 then smtp_verdict (note_reply code s\<lparr> ss_phase := Quit \<rparr>)
    else smtp_verdict (note_reply code s)"
proof (cases "ss_phase s = Body \<and> code = 250")
  case False
  then have "smtp_verdict (log_eff (Answered (ss_phase s) code) s)" using assms by (intro verdict_log) auto
  then show ?thesis using False by (auto simp: note_reply_def Let_def smtp_reply_accepts_def)
next
  case True
  have f: "after_354 (ss_log s)" "Answered Data 354 \<in> set (ss_log s)" "\<not> ss_res_produced s" "\<not> ss_abandoned s"
    "filter is_final_answer (ss_log s) = []"
    using assms(1) True unfolding smtp_verdict_def by auto
  have n: "note_reply code s = emit_status (ascii ''smtp: delivered'' @ [10])
      (emit_result SMTP_OUT_ACCEPTED Body ((log_eff (Answered Body 250) s)\<lparr> ss_accepted := True, ss_delivered := ss_delivered s + 1 \<rparr>))"
    using True by (simp add: note_reply_def Let_def smtp_reply_accepts_def log_eff_def)
  have "smtp_verdict ((emit_result SMTP_OUT_ACCEPTED Body ((log_eff (Answered Body 250) s)\<lparr> ss_accepted := True, ss_delivered := ss_delivered s + 1 \<rparr>))
      \<lparr> ss_phase := Quit \<rparr>)"
    using f assms(2) by (simp add: smtp_verdict_def emit_result_def log_eff_def)
  moreover have "(emit_status w t)\<lparr> ss_phase := Quit \<rparr> = emit_status w (t\<lparr> ss_phase := Quit \<rparr>)" for w and t :: "('a, 'b) smtp_state"
    by (simp add: emit_status_def)
  ultimately have "smtp_verdict (note_reply code s\<lparr> ss_phase := Quit \<rparr>)" unfolding n by (simp only: verdict_emit_status)
  then show ?thesis using True by simp
qed

lemma note_reply_logged: "Answered (ss_phase s) code \<in> set (ss_log (note_reply code s))"
  by (simp add: note_reply_def Let_def emit_result_def emit_status_def log_eff_def)

lemma smtp_move_cases:
  obtains (fail) "smtp_on_reply ph code plan = (Fail, Failed)" "\<not> (ph = Body \<and> code = 250)"
  | (complete) "smtp_on_reply ph code plan = (Complete, Done)" "ph = Quit"
  | (accept) "smtp_on_reply ph code plan = (SendQuit, Quit)" "ph = Body" "code = 250"
  | (onward) c nxt where "smtp_on_reply ph code plan = (c, nxt)" "c \<noteq> Fail" "c \<noteq> Complete"
      "ph \<notin> {Quit, Done, Failed}" "nxt \<notin> {Quit, Done, Failed, Disconnected, Connecting}" "\<not> (ph = Body \<and> code = 250)"
      "nxt = Body \<Longrightarrow> ph = Data \<and> code = 354"
proof -
  obtain c nxt where m: "smtp_on_reply ph code plan = (c, nxt)" by (cases "smtp_on_reply ph code plan")
  then have "(c, nxt) = (Fail, Failed) \<and> \<not> (ph = Body \<and> code = 250) \<or> (c, nxt) = (Complete, Done) \<and> ph = Quit \<or>
    (c, nxt) = (SendQuit, Quit) \<and> ph = Body \<and> code = 250 \<or>
    c \<noteq> Fail \<and> c \<noteq> Complete \<and> ph \<notin> {Quit, Done, Failed} \<and>
      nxt \<notin> {Quit, Done, Failed, Disconnected, Connecting} \<and> \<not> (ph = Body \<and> code = 250) \<and>
      (nxt = Body \<longrightarrow> ph = Data \<and> code = 354)"
    by (cases ph; cases plan) (auto simp: smtp_on_reply_def split: if_splits)
  with m fail complete accept onward show thesis by metis
qed

lemma verdict_onward:
  assumes "smtp_verdict s" "ss_phase s \<notin> {Quit, Done, Failed}" "nxt \<notin> {Quit, Done, Failed}" "ss_op_active s"
    and "nxt = Body \<Longrightarrow> Answered Data 354 \<in> set (ss_log s)"
  shows "smtp_verdict (s\<lparr> ss_phase := nxt \<rparr>)"
  using assms by (auto simp: smtp_verdict_def)

lemma verdict_fail_reply:
  assumes "smtp_verdict s" and "ss_op_active s"
  shows "smtp_verdict (fail_reply code ph ra (s\<lparr> ss_phase := Failed \<rparr>))"
proof -
  have op: "ss_op_active (emit_result oc ph (s\<lparr> ss_phase := Failed, ss_errors := n \<rparr>))" for oc n
    using assms(2) by (simp add: emit_result_def)
  show ?thesis
    unfolding fail_reply_def Let_def
    by (rule verdict_close)
       (use op verdict_fail [OF assms, of SMTP_OUT_AUTH_UNAVAILABLE ph] verdict_fail [OF assms classify_not_accepted, of code ph] in simp_all)
qed

lemma stage_cmd_fields [simp]:
  "ss_phase (stage_cmd en cmd now s) = ss_phase s" "ss_op_active (stage_cmd en cmd now s) = ss_op_active s"
  by (simp_all add: stage_cmd_def stage_req_def log_eff_def split: prod.split option.split)

lemma fail_reply_fields [simp]:
  "ss_phase (fail_reply code ph ra s) = ss_phase s" "ss_op_active (fail_reply code ph ra s) = ss_op_active s"
  by (simp_all add: fail_reply_def Let_def close_connection_def emit_status_def emit_result_def log_eff_def)

lemma verdict_on_reply:
  assumes v: "smtp_verdict s" and a: "ss_op_active s"
  shows "smtp_verdict (on_reply en code now s) \<and> ss_op_active (on_reply en code now s) \<and>
    ss_phase (on_reply en code now s) \<notin> {Disconnected, Connecting}"
proof -
  let ?n = "note_reply code s"
  have n: "if ss_phase s = Body \<and> code = 250 then smtp_verdict (?n\<lparr> ss_phase := Quit \<rparr>) else smtp_verdict ?n"
    using verdict_note [OF v a] .
  show ?thesis
  proof (cases rule: smtp_move_cases [of "ss_phase s" code "auth_plan ?n"])
    case fail
    then show ?thesis using n a verdict_fail_reply [of ?n] by (simp add: on_reply_def Let_def)
  next
    case complete
    then have "smtp_verdict (?n\<lparr> ss_phase := Done \<rparr>)" using n by (auto simp: smtp_verdict_def)
    then show ?thesis using complete a by (simp add: on_reply_def Let_def)
  next
    case accept
    then show ?thesis using n a by (simp add: on_reply_def Let_def verdict_stage_cmd)
  next
    case (onward c nxt)
    have "Answered Data 354 \<in> set (ss_log ?n)" if "nxt = Body"
      using onward(7) [OF that] note_reply_logged [of s code] by auto
    with onward have "smtp_verdict (?n\<lparr> ss_phase := nxt \<rparr>)" using n a verdict_onward [of ?n nxt] by simp
    then show ?thesis using onward a by (simp add: on_reply_def Let_def verdict_stage_cmd)
  qed
qed

lemma drain_prep_fields [simp]:
  "ss_phase (drain_prep code fin len s) = ss_phase s" "ss_op_active (drain_prep code fin len s) = ss_op_active s"
  "ss_log (drain_prep code fin len s) = ss_log s" "ss_auth_user (drain_prep code fin len s) = ss_auth_user s"
  "ss_channel_confidential (drain_prep code fin len s) = ss_channel_confidential s"
  "ss_chunk (drain_prep code fin len s) = ss_chunk s"
  by (auto simp: drain_prep_def Let_def record_reply_def split: option.split)

lemma verdict_prep [simp]: "smtp_verdict (drain_prep code fin len s) = smtp_verdict s"
  by (auto simp: drain_prep_def Let_def split: option.split)

lemma verdict_drain:
  assumes "smtp_verdict s" "ss_op_active s" "ss_phase s \<notin> {Disconnected, Connecting}"
  shows "smtp_verdict (drain_replies en now s)"
proof -
  let ?P = "\<lambda>s. smtp_verdict s \<and> ss_op_active s \<and> ss_phase s \<notin> {Disconnected, Connecting}"
  have "?P (drain_replies en now s)"
  proof (rule drain_replies_keeps [of ?P])
    fix t t' :: "('a, 'b) smtp_state"
    assume "?P t" "drain_one en now t = Some t'"
    then show "?P t'"
      using verdict_on_reply [of "drain_prep _ _ _ t"] by (auto simp: drain_one_prep split: if_splits)
  qed (use assms in blast)
  then show ?thesis by blast
qed

lemma verdict_active: "smtp_verdict s \<Longrightarrow> ss_phase s \<noteq> Disconnected \<Longrightarrow> ss_op_active s"
  by (auto simp: smtp_verdict_def)

lemma verdict_fail_with:
  "smtp_verdict s \<Longrightarrow> ss_op_active s \<Longrightarrow> outcome \<noteq> SMTP_OUT_ACCEPTED \<Longrightarrow> smtp_verdict (fail_with outcome ph t s)"
  by (simp add: fail_with_def verdict_fail)

lemma verdict_conn: "smtp_verdict s \<Longrightarrow> smtp_verdict (s\<lparr> ss_conn_id := c, ss_conn_present := False \<rparr>)"
  by (auto simp: smtp_verdict_def)

lemma verdict_net:
  assumes v: "smtp_verdict s"
  shows "smtp_verdict (smtp_net en now m s)"
proof (cases m)
  case (NetData cid data)
  have "smtp_verdict (s\<lparr> ss_acc := a \<rparr>)" for a using v by simp
  then show ?thesis using NetData v verdict_active [OF v] by (simp add: smtp_net_def verdict_drain)
next
  case (NetClosed cid)
  then show ?thesis using v verdict_active [OF v] by (simp add: smtp_net_def verdict_fail_with verdict_conn)
next
  case (NetError parts tagged)
  have c: "ss_conn_present s \<Longrightarrow> ss_op_active s" using v by (auto simp: smtp_verdict_def)
  have eq: "smtp_net en now m s = net_error en parts tagged s" by (simp add: smtp_net_def NetError)
  show ?thesis
  proof (cases rule: net_error_cases [of en parts tagged s])
    case ignored
    with v show ?thesis by (simp only: eq)
  next
    case (failed outcome t)
    from failed(3) have "ss_op_active s" using c verdict_active [OF v] by auto
    then have "smtp_verdict (fail_with outcome (ss_phase s) t s)" using v failed(2) by (intro verdict_fail_with) auto
    then show ?thesis by (simp only: eq failed(1))
  qed
next
  case (NetConnected cid tag)
  have "smtp_verdict (s\<lparr> ss_phase := Greet \<rparr>)" if "ss_phase s = Connecting"
    using v verdict_active [OF v] that by (intro verdict_onward) auto
  then have "smtp_verdict (s\<lparr> ss_conn_id := cid, ss_conn_present := True, ss_phase := Greet, ss_started_ms := now \<rparr>)"
    if "ss_phase s = Connecting" using that verdict_active [OF v] by (auto simp: smtp_verdict_def)
  with v show ?thesis by (simp add: smtp_net_def NetConnected)
qed

lemma verdict_same:
  assumes "smtp_verdict s"
    and "ss_accepted t = ss_accepted s" "ss_res_produced t = ss_res_produced s" "ss_res_outcome t = ss_res_outcome s"
    and "ss_log t = ss_log s" "ss_abandoned t = ss_abandoned s" "ss_phase t = ss_phase s"
    and "ss_res_owed t = ss_res_owed s" "ss_op_active t = ss_op_active s" "ss_conn_present t = ss_conn_present s"
  shows "smtp_verdict t"
  using assms(1) unfolding smtp_verdict_def assms(2-) .

lemma verdict_flush_owed: "smtp_verdict s \<Longrightarrow> smtp_verdict (snd (flush_owed en oks s))"
  by (erule verdict_same) (auto simp: flush_owed_def Let_def split: option.split prod.split)

lemma verdict_end_abandoned:
  assumes "smtp_verdict s" and "ss_op_active s"
  shows "smtp_verdict (end_abandoned s)"
  using assms by (auto simp: end_abandoned_def close_connection_def smtp_verdict_def log_eff_def)

lemma verdict_refuse: "smtp_verdict s \<Longrightarrow> smtp_verdict (refuse en oks i code s)"
  unfolding refuse_def by (rule verdict_flush_owed, erule verdict_same) simp_all

lemma verdict_take_head:
  assumes "smtp_verdict s"
  shows "smtp_verdict (take_head en oks h s)"
proof -
  have "smtp_verdict (log_eff (Received (hd_body h)) s
    \<lparr> ss_id := a, ss_answerable := True, ss_abandoned := False, ss_resp_credit := b, ss_head_sent := False,
      ss_mail_from := c, ss_rcpt_to := d, ss_chunk := e, ss_more_body := f, ss_credit_out := 0,
      ss_credit_owed := g, ss_at_line_start := True, ss_ends_crlf := False, ss_body_terminated := False,
      ss_op_active := True, ss_admitted := k \<rparr>)" if "\<not> ss_op_active s" for a b c d e f g k
    using assms that by (auto simp: smtp_verdict_def log_eff_def)
  then show ?thesis using assms by (simp add: take_head_def Let_def verdict_refuse)
qed

lemma verdict_take_record: "smtp_verdict s \<Longrightarrow> take_record en oks r s = Some s' \<Longrightarrow> smtp_verdict s'"
proof (cases r)
  case (RecBody i more_flag data)
  assume s: "smtp_verdict s" and t: "take_record en oks r s = Some s'"
  have l: "smtp_verdict (log_eff (Received data) s\<lparr> ss_chunk := a, ss_credit_out := b, ss_more_body := c \<rparr>)"
    if "ss_op_active s" for a b c
    using s that by (auto simp: smtp_verdict_def log_eff_def)
  show ?thesis
    using RecBody t s l
    by (auto simp: take_record_def smtp_live_def Let_def verdict_end_abandoned split: if_splits option.splits)
next
  case (RecHead h)
  assume "smtp_verdict s" and "take_record en oks r s = Some s'"
  with RecHead show ?thesis by (auto simp: take_record_def verdict_take_head split: if_splits)
next
  case (RecAbort i)
  assume "smtp_verdict s" and "take_record en oks r s = Some s'"
  with RecAbort show ?thesis by (auto simp: take_record_def smtp_live_def verdict_end_abandoned split: if_splits)
next
  case (RecCredit i n)
  assume s: "smtp_verdict s" and t: "take_record en oks r s = Some s'"
  show ?thesis using s by (rule verdict_same) (use RecCredit t in \<open>auto simp: take_record_def split: if_splits\<close>)
next
  case Unparsed
  assume s: "smtp_verdict s" and t: "take_record en oks r s = Some s'"
  show ?thesis using s by (rule verdict_same) (use Unparsed t in \<open>auto simp: take_record_def\<close>)
qed

lemma verdict_pump_body: "smtp_verdict s \<Longrightarrow> smtp_verdict (pump_body en now s)"
proof -
  assume v: "smtp_verdict s"
  have a: "ss_phase s = Body \<Longrightarrow> ss_op_active s" using verdict_active [OF v] by simp
  have b: "smtp_verdict (log_eff x t)"
    if "ss_phase s = Body" "x \<in> {StagedBody w, StagedEnd w}" "ss_accepted t = ss_accepted s" "ss_res_produced t = ss_res_produced s"
      "ss_res_outcome t = ss_res_outcome s" "ss_log t = ss_log s" "ss_abandoned t = ss_abandoned s" "ss_phase t = ss_phase s"
      "ss_res_owed t = ss_res_owed s" "ss_op_active t = ss_op_active s" "ss_conn_present t = ss_conn_present s" for x w t
  proof (rule verdict_log)
    show "smtp_verdict t" using v that(3-) by (rule verdict_same)
  qed (use a that in auto)
  show ?thesis
    using v by (auto simp: pump_body_def Let_def intro!: b split: prod.split option.split)
qed

lemma verdict_flush_result:
  assumes v: "smtp_verdict s"
  shows "smtp_verdict (flush_result en ok s)"
proof -
  have "smtp_verdict (log_eff (Answer True b) s\<lparr> ss_res_owed := False \<rparr>)"
    "smtp_verdict (log_eff (Answer False b) s\<lparr> ss_head_sent := True \<rparr>)" if "ss_res_owed s" for b
    using v that by (auto simp: smtp_verdict_def log_eff_def)
  moreover have "smtp_verdict (s\<lparr> ss_res_owed := False \<rparr>)" using v by (auto simp: smtp_verdict_def)
  ultimately show ?thesis
    using v by (auto simp: flush_result_def Let_def split: prod.split option.split)
qed

lemma verdict_retire: "smtp_verdict s \<Longrightarrow> smtp_verdict (smtp_retire en s)"
proof -
  have "smtp_verdict (t\<lparr> ss_op_active := False, ss_id := i, ss_answerable := False, ss_abandoned := False,
          ss_credit_out := 0, ss_credit_owed := 0, ss_resp_credit := 0, ss_head_sent := False,
          ss_mail_from := [], ss_rcpt_to := [], ss_chunk := [], ss_more_body := False,
          ss_at_line_start := True, ss_ends_crlf := False, ss_body_terminated := False,
          ss_saw_auth_plain := False, ss_phase := Disconnected, ss_req := [], ss_req_sent := 0,
          ss_acc := [], ss_accepted := False, ss_res_produced := False, ss_res_outcome := 0,
          ss_res_phase := 0, ss_res_code := 0, ss_res_enh := e, ss_res_text := [],
          ss_status_produced := False, ss_log := [] \<rparr>)"
    if "\<not> ss_res_owed t" "\<not> ss_conn_present t" for t :: "('a, 'b) smtp_state" and i e
    using that by (simp add: smtp_verdict_def)
  moreover have "\<not> ss_conn_present (close_connection t)" "ss_res_owed (close_connection t) = ss_res_owed t"
    for t :: "('a, 'b) smtp_state"
    by (simp_all add: close_connection_def log_eff_def)
  ultimately show "smtp_verdict s \<Longrightarrow> smtp_verdict (smtp_retire en s)"
    by (simp add: smtp_retire_def finish_op_def)
qed

lemma verdict_deadline: "smtp_verdict s \<Longrightarrow> smtp_verdict (smtp_deadline now s)"
  by (simp add: smtp_deadline_def Let_def verdict_fail_with)

lemma verdict_rest:
  "smtp_verdict (smtp_new en q)"
  "smtp_verdict s \<Longrightarrow> smtp_verdict (module_drain s)"
  "smtp_verdict s \<Longrightarrow> smtp_verdict (smtp_dial ok now s)"
  "smtp_verdict s \<Longrightarrow> smtp_verdict (s\<lparr> ss_req_sent := n \<rparr>)"
  "smtp_verdict s \<Longrightarrow> smtp_verdict (flush_status ok s)"
  "smtp_verdict s \<Longrightarrow> smtp_verdict (snd (smtp_quiesce ok s))"
  by (auto simp: smtp_verdict_def smtp_new_def module_drain_def smtp_dial_def flush_status_def smtp_quiesce_def Let_def)

interpretation verd: smtp_parts en "smtp_verdict" for en :: "('i, 't) smtp_env"
proof unfold_locales
  fix s s' :: "('i, 't) smtp_state" and oks r
  assume "smtp_verdict s" "take_record en oks r s = Some s'"
  then show "smtp_verdict s'" by (rule verdict_take_record)
qed (simp_all add: verdict_rest verdict_deadline verdict_flush_owed verdict_net verdict_pump_body
      verdict_flush_result verdict_retire)

text \<open>A step loses nothing of what is recorded of the submission in flight, short of retiring it.\<close>

definition log_kept :: "smtp_eff list \<Rightarrow> ('i, 't) smtp_state \<Rightarrow> bool" where
  "log_kept l s \<longleftrightarrow> ss_op_active s \<and> prefix l (ss_log s)"

lemma log_kept_same: "ss_op_active t = ss_op_active s \<Longrightarrow> ss_log t = ss_log s \<Longrightarrow> log_kept l s \<Longrightarrow> log_kept l t"
  by (simp add: log_kept_def)

lemma log_kept_log [simp]: "log_kept l s \<Longrightarrow> log_kept l (log_eff x s)"
  by (simp add: log_kept_def log_eff_def)

lemma log_kept_emit [simp]:
  "log_kept l (emit_status t s) = log_kept l s" "log_kept l (emit_result oc ph s) = log_kept l s"
  "log_kept l (stage_req en b now s) = log_kept l s" "log_kept l (s\<lparr> ss_phase := ph \<rparr>) = log_kept l s"
  "log_kept l (s\<lparr> ss_errors := n \<rparr>) = log_kept l s" "log_kept l (s\<lparr> ss_phase := ph, ss_errors := n \<rparr>) = log_kept l s"
  "log_kept l (s\<lparr> ss_accepted := b', ss_delivered := n \<rparr>) = log_kept l s" "log_kept l (s\<lparr> ss_acc := b \<rparr>) = log_kept l s"
  "log_kept l (s\<lparr> ss_conn_id := c, ss_conn_present := b' \<rparr>) = log_kept l s"
  "log_kept l (drain_prep code fin len s) = log_kept l s"
  by (simp_all add: log_kept_def emit_status_def emit_result_def stage_req_def)

lemma log_kept_close [simp]: "log_kept l s \<Longrightarrow> log_kept l (close_connection s)"
  by (simp add: close_connection_def)

lemma log_kept_on_reply: "log_kept l s \<Longrightarrow> log_kept l (on_reply en code now s)"
proof -
  assume s: "log_kept l s"
  have n: "log_kept l (note_reply code s)" using s by (simp add: note_reply_def Let_def)
  have "log_kept l (stage_cmd en cmd now t)" "log_kept l (fail_reply code ph ra t)" if "log_kept l t" for t cmd ph ra
    using that by (auto simp: stage_cmd_def fail_reply_def Let_def split: prod.split option.split)
  with n show ?thesis by (simp add: on_reply_def Let_def)
qed

lemma log_kept_net:
  assumes "log_kept l s"
  shows "log_kept l (smtp_net en now m s)"
proof (cases m)
  case (NetData cid data)
  have "log_kept l (drain_replies en now t)" if "log_kept l t" for t :: "('a, 'b) smtp_state"
    using that by (rule drain_replies_keeps [rotated]) (auto simp: drain_one_prep log_kept_on_reply)
  then show ?thesis using assms NetData by (simp add: smtp_net_def)
next
  case (NetError parts tagged)
  then show ?thesis using assms
    by (cases rule: net_error_cases [of en parts tagged s]) (simp_all add: smtp_net_def fail_with_def)
next
  case (NetConnected cid tag)
  then show ?thesis using assms by (simp add: smtp_net_def log_kept_def)
qed (use assms in \<open>simp add: smtp_net_def fail_with_def\<close>)

lemma log_kept_flush_owed: "log_kept l s \<Longrightarrow> log_kept l (snd (flush_owed en oks s))"
  by (erule log_kept_same [rotated 2]) (auto simp: flush_owed_def Let_def split: option.split prod.split)

lemma log_kept_abandoned: "log_kept l s \<Longrightarrow> log_kept l (end_abandoned s)"
  by (auto simp: end_abandoned_def close_connection_def log_eff_def log_kept_def)

lemma log_kept_record:
  assumes k: "log_kept l s" and t: "take_record en oks r s = Some s'"
  shows "log_kept l s'"
proof -
  have busy: "ss_op_active s" using k by (simp add: log_kept_def)
  have h: "log_kept l (take_head en oks h s)" for h
    using k busy by (auto simp: take_head_def refuse_def intro!: log_kept_flush_owed) (simp add: log_kept_def)
  have c: "log_kept l (s\<lparr> ss_ctl := b \<rparr>)" "log_kept l (s\<lparr> ss_resp_credit := n \<rparr>)" "log_kept l (s\<lparr> ss_dropped_unparsable := n \<rparr>)"
    "log_kept l (log_eff x s\<lparr> ss_chunk := u, ss_credit_out := n, ss_more_body := m \<rparr>)" for b n x u m
    using k by (simp_all add: log_kept_def log_eff_def)
  show ?thesis
    using t k h c by (cases r) (auto simp: take_record_def Let_def log_kept_abandoned split: if_splits option.splits)
qed

lemma log_kept_body: "log_kept l s \<Longrightarrow> log_kept l (pump_body en now s)"
  by (auto simp: pump_body_def Let_def log_kept_def log_eff_def stage_req_def split: prod.split option.split)

lemma log_kept_rest:
  "log_kept l s \<Longrightarrow> log_kept l (smtp_dial ok now s)"
  "log_kept l s \<Longrightarrow> log_kept l (s\<lparr> ss_req_sent := n \<rparr>)"
  "log_kept l s \<Longrightarrow> log_kept l (smtp_deadline now s)"
  "log_kept l s \<Longrightarrow> log_kept l (flush_result en ok s)"
  "log_kept l s \<Longrightarrow> log_kept l (flush_status ok s)"
  "log_kept l s \<Longrightarrow> ss_op_active (smtp_retire en s) \<longrightarrow> log_kept l (smtp_retire en s)"
  by (auto simp: log_kept_def log_eff_def smtp_dial_def smtp_deadline_def fail_with_def emit_status_def emit_result_def
      flush_result_def flush_status_def smtp_retire_def finish_op_def Let_def split: prod.split option.split)

interpretation kept: smtp_step_parts en "log_kept l" "\<lambda>s. ss_op_active s \<longrightarrow> log_kept l s"
  for en :: "('i, 't) smtp_env" and l
proof unfold_locales
  fix s :: "('i, 't) smtp_state" and ok
  assume s: "ss_op_active s \<longrightarrow> log_kept l s"
  have "ss_op_active (snd (smtp_quiesce ok s)) = ss_op_active s" "ss_log (snd (smtp_quiesce ok s)) = ss_log s"
    by (simp_all add: smtp_quiesce_def)
  with s show "ss_op_active (snd (smtp_quiesce ok s)) \<longrightarrow> log_kept l (snd (smtp_quiesce ok s))"
    by (simp add: log_kept_def)
qed (simp_all add: log_kept_flush_owed log_kept_record log_kept_net log_kept_body log_kept_rest)

text \<open>The verdict of a reached state, read off its log.\<close>

lemma verdict_accepted:
  assumes "smtp_verdict s" and "Answered Body 250 \<in> set (ss_log s)"
  shows "ss_res_produced s \<and> ss_res_outcome s = 0 \<and>
    (\<exists>xs ys zs. ss_log s = xs @ Answered Data 354 # ys @ Answered Body 250 # zs)"
proof -
  obtain us zs where l: "ss_log s = us @ Answered Body 250 # zs" using assms(2) by (auto dest: split_list)
  with assms(1) have "Answered Data 354 \<in> set us" by (auto simp: smtp_verdict_def after_354_def)
  then obtain xs ys where "us = xs @ Answered Data 354 # ys" by (auto dest: split_list)
  with l assms show ?thesis by (auto simp: smtp_verdict_def)
qed

text \<open>C1. One verdict per submission, and acceptance is final. In every state the connector can reach:
  a submission reported as accepted, and not abandoned by its requester, has had a 354 to DATA and a 250
  after it; a 250 that answers once the end of the message has been staged makes the outcome acceptance,
  and no record, reply, closed connection, network error or deadline of the next step takes that back
  while the submission is in flight; at most one complete answer is handed over for a submission, and then
  nothing more is owed. (A 250 that a server sends before the end of the message is not covered here:
  \<open>smtp_accepts_before_the_message\<close> is what the connector makes of it.)\<close>

theorem smtp_one_verdict:
  assumes "smtp_reach en s"
  shows "(ss_res_produced s \<and> \<not> ss_abandoned s \<and> ss_res_outcome s = 0 \<longrightarrow>
      (\<exists>xs ys zs. ss_log s = xs @ Answered Data 354 # ys @ Answered Body 250 # zs)) \<and>
    ((\<exists>xs e ys zs. ss_log s = xs @ StagedEnd e # ys @ Answered Body 250 # zs) \<longrightarrow>
      ss_res_produced s \<and> ss_res_outcome s = 0 \<and>
      (\<forall>inp b s'. module_step en inp s = Some (b, s') \<and> ss_op_active s' \<longrightarrow>
        prefix (ss_log s) (ss_log s') \<and> ss_res_produced s' \<and> ss_res_outcome s' = 0)) \<and>
    length (filter is_final_answer (ss_log s)) \<le> 1 \<and>
    (filter is_final_answer (ss_log s) \<noteq> [] \<longrightarrow> ss_res_produced s \<and> \<not> ss_res_owed s)"
proof -
  have v: "smtp_verdict s" using assms by (rule verd.inv_reach)
  have "prefix (ss_log s) (ss_log s') \<and> ss_res_produced s' \<and> ss_res_outcome s' = 0"
    if a: "Answered Body 250 \<in> set (ss_log s)" and m: "module_step en inp s = Some (b, s')" and op: "ss_op_active s'" for inp b s'
  proof -
    have "log_kept (ss_log s) s" using v a by (auto simp: log_kept_def smtp_verdict_def)
    then have p: "prefix (ss_log s) (ss_log s')" using kept.inv_step [OF _ m] op by (auto simp: log_kept_def)
    then have "Answered Body 250 \<in> set (ss_log s')" using a by (auto simp: prefix_def)
    with p verdict_accepted [OF verd.inv_step [OF v m]] show ?thesis by blast
  qed
  note later = this
  have one: "ss_res_produced s \<and> \<not> ss_abandoned s \<and> ss_res_outcome s = 0 \<longrightarrow> Answered Body 250 \<in> set (ss_log s)"
    "length (filter is_final_answer (ss_log s)) \<le> 1"
    "filter is_final_answer (ss_log s) \<noteq> [] \<longrightarrow> ss_res_produced s \<and> \<not> ss_res_owed s"
    using v unfolding smtp_verdict_def by blast+
  have two: "(\<exists>xs e ys zs. ss_log s = xs @ StagedEnd e # ys @ Answered Body 250 # zs) \<longrightarrow> Answered Body 250 \<in> set (ss_log s)"
    by auto
  show ?thesis
    by (intro conjI) (use one verdict_accepted [OF v] two later in blast)+
qed

definition demo_run :: "(nat, nat) smtp_input list" where
  "demo_run = [demo_call demo_records [NetConnected 4 7], demo_call [] (demo_replies [''220'']), demo_call [] (demo_replies [''250'']),
     demo_call [] (demo_replies [''250'']), demo_call [] (demo_replies [''250'']), demo_call [] (demo_replies [''354'']),
     demo_call [] [], demo_call [] (demo_replies [''250''])]"

theorem smtp_one_verdict_witness:
  "\<exists>s ans. smtp_run demo_env demo_run (smtp_new demo_env demo_params) = Some s \<and>
     drop 12 (ss_log s) = [StagedEnd [13, 10, 46, 13, 10], Answered Body 250, Staged SendQuit (ascii ''QUIT'' @ crlf), Answer True ans] \<and>
     ss_res_produced s \<and> ss_res_outcome s = 0 \<and> \<not> ss_res_owed s \<and>
     (\<forall>b s'. module_step demo_env (demo_call [] [NetClosed 4]) s = Some (b, s') \<and> ss_op_active s' \<longrightarrow>
        ss_res_produced s' \<and> ss_res_outcome s' = 0)"
proof -
  have "map_option (\<lambda>s. drop 12 (ss_log s)) (smtp_run demo_env demo_run (smtp_new demo_env demo_params))
    = Some [StagedEnd [13, 10, 46, 13, 10], Answered Body 250, Staged SendQuit (ascii ''QUIT'' @ crlf),
        Answer True [4, 111, 0, 7, 250, 0, 0, 0, 0, 0, 0, 10, 0, 0, 1, 25, 0, 0, 0]]"
    by code_simp
  then obtain s ans where s: "smtp_run demo_env demo_run (smtp_new demo_env demo_params) = Some s"
    and l: "drop 12 (ss_log s) = [StagedEnd [13, 10, 46, 13, 10], Answered Body 250, Staged SendQuit (ascii ''QUIT'' @ crlf), Answer True ans]"
    by auto
  define xs where "xs = take 12 (ss_log s)"
  have log: "ss_log s = xs @ StagedEnd [13, 10, 46, 13, 10] # [] @ Answered Body 250 # [Staged SendQuit (ascii ''QUIT'' @ crlf), Answer True ans]"
    using l append_take_drop_id [of 12 "ss_log s"] by (simp add: xs_def)
  have "smtp_reach demo_env s" by (rule smtp_run_reach [OF smtp_reach.boot s])
  note v = smtp_one_verdict [OF this]
  have e: "\<exists>xs e ys zs. ss_log s = xs @ StagedEnd e # ys @ Answered Body 250 # zs" using log by blast
  have f: "filter is_final_answer (ss_log s) \<noteq> []" by (simp add: log)
  from v e f have "ss_res_produced s \<and> ss_res_outcome s = 0 \<and> \<not> ss_res_owed s \<and>
     (\<forall>b s'. module_step demo_env (demo_call [] [NetClosed 4]) s = Some (b, s') \<and> ss_op_active s' \<longrightarrow>
        ss_res_produced s' \<and> ss_res_outcome s' = 0)" by blast
  with s l show ?thesis by blast
qed

text \<open>Acceptance is decided by the phase alone. A server that answers DATA and end-of-data in one
  segment has its second reply taken as acceptance of a message none of which was staged.\<close>

lemma drain_replies_Some: "drain_one en now s = Some t \<Longrightarrow> drain_replies en now s = drain_replies en now t"
  by (subst drain_replies.simps) simp

definition is_message :: "smtp_eff \<Rightarrow> bool" where
  "is_message x = (case x of StagedBody b \<Rightarrow> True | StagedEnd b \<Rightarrow> True | _ \<Rightarrow> False)"

theorem smtp_accepts_before_the_message:
  assumes "ss_phase s = Data" and "ss_acc s = []" and "\<not> ss_res_produced s"
    and t_def: "t = smtp_net en now (NetData (ss_conn_id s) (ascii ''354'' @ crlf @ ascii ''250'' @ crlf)) s"
  shows "ss_res_outcome t = 0 \<and> ss_res_produced t \<and> filter is_message (ss_log t) = filter is_message (ss_log s)"
proof -
  have r1: "smtp_reply_line (ascii ''354'' @ crlf @ ascii ''250'' @ crlf) = Some (354, True, 5)"
    and r2: "smtp_reply_line (ascii ''250'' @ crlf) = Some (250, True, 5)"
    and r3: "smtp_reply_line [] = None"
    and d: "drop 5 (ascii ''354'' @ crlf @ ascii ''250'' @ crlf) = ascii ''250'' @ crlf"
    and l: "length (ascii ''354'' @ crlf @ ascii ''250'' @ crlf) = 10"
    by code_simp+
  have ne: "ascii ''354'' \<noteq> []" by (simp add: ascii_def)
  let ?s1 = "s\<lparr> ss_acc := ascii ''354'' @ crlf @ ascii ''250'' @ crlf \<rparr>"
  define s2 where "s2 = on_reply en 354 now (drain_prep 354 True 5 ?s1)"
  have d1: "drain_one en now ?s1 = Some s2"
    using assms(1) r1 by (simp add: drain_one_def s2_def Let_def)
  have "ss_phase (drain_prep 354 True 5 ?s1) = Data" "ss_log (drain_prep 354 True 5 ?s1) = ss_log s"
    "\<not> ss_res_produced (drain_prep 354 True 5 ?s1)"
    using assms by (auto simp: drain_prep_def Let_def record_reply_def split: option.split)
  then have s2: "ss_phase s2 = Body" "ss_acc s2 = ascii ''250'' @ crlf" "ss_log s2 = ss_log s @ [Answered Data 354]"
    "\<not> ss_res_produced s2"
    by (simp_all add: s2_def d on_reply_def note_reply_def smtp_reply_accepts_def Let_def smtp_on_reply_def
        stage_cmd_def build_cmd_def wfail_def log_eff_def)
  define s3 where "s3 = on_reply en 250 now (drain_prep 250 True 5 s2)"
  have d2: "drain_one en now s2 = Some s3"
    using s2 r2 by (simp add: drain_one_def s3_def Let_def)
  have "ss_phase (drain_prep 250 True 5 s2) = Body" "ss_log (drain_prep 250 True 5 s2) = ss_log s2"
    "\<not> ss_res_produced (drain_prep 250 True 5 s2)"
    using s2 by (auto simp: drain_prep_def Let_def record_reply_def split: option.split)
  then have s3: "ss_res_outcome s3 = 0" "ss_res_produced s3" "ss_acc s3 = drop 5 (ascii ''250'' @ crlf)"
    "filter is_message (ss_log s3) = filter is_message (ss_log s2)" "ss_phase s3 = Quit"
    using s2(2) by (auto simp: s3_def on_reply_def note_reply_def smtp_reply_accepts_def Let_def smtp_on_reply_def
        stage_cmd_def stage_req_def log_eff_def emit_status_def emit_result_def is_message_def split: prod.split option.split)
  have "drain_one en now s3 = None"
    using s3 r3 by (simp add: drain_one_def)
  then have "drain_replies en now ?s1 = s3"
    using drain_replies_Some [OF d1] drain_replies_Some [OF d2] by (subst (asm) (3) drain_replies.simps) simp
  moreover have "t = drain_replies en now ?s1"
    using assms(1,2) l ne by (simp add: t_def smtp_net_def)
  ultimately show ?thesis using s3 s2 by (simp add: is_message_def)
qed

end
