(* ===== verification/Huffman.thy ===== *)
theory Huffman
  imports Wave_Prelude "HOL-Library.Sublist" "HOL-Library.Product_Lexorder" "HOL-Library.Multiset"
begin

text \<open>
  The Huffman code of HPACK and QPACK (\<open>modules/common/huffman_core.rs\<close>): the table of RFC 7541
  Appendix B as the source spells it, the decoder, and the self-check of the table. The decoder is
  shown to accept exactly the encodings of byte strings padded with fewer than eight one bits. That
  rests on the table being prefix-free, which the self-check establishes for any table it accepts;
  the locale \<open>prefix_code\<close> carries the argument.
\<close>

unbundle bit_operations_syntax

section \<open>The table and the decoder\<close>

definition HUFF :: "(u32 \<times> byte) list" where
  "HUFF = [
    (0x1ff8, 13), (0x7fffd8, 23), (0xfffffe2, 28), (0xfffffe3, 28), (0xfffffe4, 28), (0xfffffe5, 28),
    (0xfffffe6, 28), (0xfffffe7, 28), (0xfffffe8, 28), (0xffffea, 24), (0x3ffffffc, 30), (0xfffffe9, 28),
    (0xfffffea, 28), (0x3ffffffd, 30), (0xfffffeb, 28), (0xfffffec, 28), (0xfffffed, 28), (0xfffffee, 28),
    (0xfffffef, 28), (0xffffff0, 28), (0xffffff1, 28), (0xffffff2, 28), (0x3ffffffe, 30), (0xffffff3, 28),
    (0xffffff4, 28), (0xffffff5, 28), (0xffffff6, 28), (0xffffff7, 28), (0xffffff8, 28), (0xffffff9, 28),
    (0xffffffa, 28), (0xffffffb, 28), (0x14, 6), (0x3f8, 10), (0x3f9, 10), (0xffa, 12),
    (0x1ff9, 13), (0x15, 6), (0xf8, 8), (0x7fa, 11), (0x3fa, 10), (0x3fb, 10),
    (0xf9, 8), (0x7fb, 11), (0xfa, 8), (0x16, 6), (0x17, 6), (0x18, 6),
    (0x0, 5), (0x1, 5), (0x2, 5), (0x19, 6), (0x1a, 6), (0x1b, 6),
    (0x1c, 6), (0x1d, 6), (0x1e, 6), (0x1f, 6), (0x5c, 7), (0xfb, 8),
    (0x7ffc, 15), (0x20, 6), (0xffb, 12), (0x3fc, 10), (0x1ffa, 13), (0x21, 6),
    (0x5d, 7), (0x5e, 7), (0x5f, 7), (0x60, 7), (0x61, 7), (0x62, 7),
    (0x63, 7), (0x64, 7), (0x65, 7), (0x66, 7), (0x67, 7), (0x68, 7),
    (0x69, 7), (0x6a, 7), (0x6b, 7), (0x6c, 7), (0x6d, 7), (0x6e, 7),
    (0x6f, 7), (0x70, 7), (0x71, 7), (0x72, 7), (0xfc, 8), (0x73, 7),
    (0xfd, 8), (0x1ffb, 13), (0x7fff0, 19), (0x1ffc, 13), (0x3ffc, 14), (0x22, 6),
    (0x7ffd, 15), (0x3, 5), (0x23, 6), (0x4, 5), (0x24, 6), (0x5, 5),
    (0x25, 6), (0x26, 6), (0x27, 6), (0x6, 5), (0x74, 7), (0x75, 7),
    (0x28, 6), (0x29, 6), (0x2a, 6), (0x7, 5), (0x2b, 6), (0x76, 7),
    (0x2c, 6), (0x8, 5), (0x9, 5), (0x2d, 6), (0x77, 7), (0x78, 7),
    (0x79, 7), (0x7a, 7), (0x7b, 7), (0x7ffe, 15), (0x7fc, 11), (0x3ffd, 14),
    (0x1ffd, 13), (0xffffffc, 28), (0xfffe6, 20), (0x3fffd2, 22), (0xfffe7, 20), (0xfffe8, 20),
    (0x3fffd3, 22), (0x3fffd4, 22), (0x3fffd5, 22), (0x7fffd9, 23), (0x3fffd6, 22), (0x7fffda, 23),
    (0x7fffdb, 23), (0x7fffdc, 23), (0x7fffdd, 23), (0x7fffde, 23), (0xffffeb, 24), (0x7fffdf, 23),
    (0xffffec, 24), (0xffffed, 24), (0x3fffd7, 22), (0x7fffe0, 23), (0xffffee, 24), (0x7fffe1, 23),
    (0x7fffe2, 23), (0x7fffe3, 23), (0x7fffe4, 23), (0x1fffdc, 21), (0x3fffd8, 22), (0x7fffe5, 23),
    (0x3fffd9, 22), (0x7fffe6, 23), (0x7fffe7, 23), (0xffffef, 24), (0x3fffda, 22), (0x1fffdd, 21),
    (0xfffe9, 20), (0x3fffdb, 22), (0x3fffdc, 22), (0x7fffe8, 23), (0x7fffe9, 23), (0x1fffde, 21),
    (0x7fffea, 23), (0x3fffdd, 22), (0x3fffde, 22), (0xfffff0, 24), (0x1fffdf, 21), (0x3fffdf, 22),
    (0x7fffeb, 23), (0x7fffec, 23), (0x1fffe0, 21), (0x1fffe1, 21), (0x3fffe0, 22), (0x1fffe2, 21),
    (0x7fffed, 23), (0x3fffe1, 22), (0x7fffee, 23), (0x7fffef, 23), (0xfffea, 20), (0x3fffe2, 22),
    (0x3fffe3, 22), (0x3fffe4, 22), (0x7ffff0, 23), (0x3fffe5, 22), (0x3fffe6, 22), (0x7ffff1, 23),
    (0x3ffffe0, 26), (0x3ffffe1, 26), (0xfffeb, 20), (0x7fff1, 19), (0x3fffe7, 22), (0x7ffff2, 23),
    (0x3fffe8, 22), (0x1ffffec, 25), (0x3ffffe2, 26), (0x3ffffe3, 26), (0x3ffffe4, 26), (0x7ffffde, 27),
    (0x7ffffdf, 27), (0x3ffffe5, 26), (0xfffff1, 24), (0x1ffffed, 25), (0x7fff2, 19), (0x1fffe3, 21),
    (0x3ffffe6, 26), (0x7ffffe0, 27), (0x7ffffe1, 27), (0x3ffffe7, 26), (0x7ffffe2, 27), (0xfffff2, 24),
    (0x1fffe4, 21), (0x1fffe5, 21), (0x3ffffe8, 26), (0x3ffffe9, 26), (0xffffffd, 28), (0x7ffffe3, 27),
    (0x7ffffe4, 27), (0x7ffffe5, 27), (0xfffec, 20), (0xfffff3, 24), (0xfffed, 20), (0x1fffe6, 21),
    (0x3fffe9, 22), (0x1fffe7, 21), (0x1fffe8, 21), (0x7ffff3, 23), (0x3fffea, 22), (0x3fffeb, 22),
    (0x1ffffee, 25), (0x1ffffef, 25), (0xfffff4, 24), (0xfffff5, 24), (0x3ffffea, 26), (0x7ffff4, 23),
    (0x3ffffeb, 26), (0x7ffffe6, 27), (0x3ffffec, 26), (0x3ffffed, 26), (0x7ffffe7, 27), (0x7ffffe8, 27),
    (0x7ffffe9, 27), (0x7ffffea, 27), (0x7ffffeb, 27), (0xffffffe, 28), (0x7ffffec, 27), (0x7ffffed, 27),
    (0x7ffffee, 27), (0x7ffffef, 27), (0x7fffff0, 27), (0x3ffffee, 26), (0x3fffffff, 30)]"

text \<open>The inner \<open>while sym < HUFF.len()\<close>: the first entry that matches.\<close>

fun huff_find :: "(u32 \<times> byte) list \<Rightarrow> nat \<Rightarrow> u32 \<Rightarrow> byte \<Rightarrow> nat option" where
  "huff_find [] sm cur nbits = None"
| "huff_find (e # es) sm cur nbits =
     (if snd e = nbits \<and> fst e = cur then Some sm else huff_find es (sm + 1) cur nbits)"

text \<open>One bit; the state is \<open>cur\<close>, \<open>nbits\<close> and \<open>o\<close>.\<close>

definition huff_bit :: "byte \<Rightarrow> nat \<Rightarrow> u32 \<times> byte \<times> nat \<Rightarrow> (u32 \<times> byte \<times> nat) writer" where
  "huff_bit b i st out =
     (case st of (cur, nbits, p) \<Rightarrow>
        let cur = push_bit 1 cur OR ucast (drop_bit i b AND 1);
            nbits = nbits + 1
        in if 30 < nbits then (None, out)
           else (case huff_find HUFF 0 cur nbits of
                   None \<Rightarrow> (Some (cur, nbits, p), out)
                 | Some sm \<Rightarrow>
                     if sm = 256 then (None, out)
                     else if length out \<le> p then (None, out)
                     else (Some (0, 0, p + 1), out[p := of_nat sm])))"

fun huff_byte :: "byte \<Rightarrow> nat \<Rightarrow> u32 \<times> byte \<times> nat \<Rightarrow> (u32 \<times> byte \<times> nat) writer" where
  "huff_byte b 0 st out = (Some st, out)"
| "huff_byte b (Suc i) st out = wbind (huff_bit b i st) (huff_byte b i) out"

fun huff_loop :: "bytes \<Rightarrow> u32 \<times> byte \<times> nat \<Rightarrow> (u32 \<times> byte \<times> nat) writer" where
  "huff_loop [] st out = (Some st, out)"
| "huff_loop (b # bs) st out = wbind (huff_byte b 8 st) (huff_loop bs) out"

definition huffman_decode :: "bytes \<Rightarrow> nat writer" where
  "huffman_decode src =
     wbind (huff_loop src (0, 0, 0))
       (\<lambda>(cur, nbits, p) out.
          if 8 \<le> nbits then (None, out)
          else if 0 < nbits \<and> cur \<noteq> push_bit (unat nbits) 1 - 1 then (None, out)
          else (Some p, out))"

section \<open>The self-check of the table\<close>

text \<open>The Kraft sum, which stops at a length outside 1 to 30.\<close>

fun kraft_loop :: "(u32 \<times> byte) list \<Rightarrow> u64 \<Rightarrow> u64 option" where
  "kraft_loop [] k = Some k"
| "kraft_loop (e # es) k =
     (if snd e = 0 \<or> 30 < snd e then None else kraft_loop es (k + push_bit (30 - unat (snd e)) 1))"

definition huff_align :: "u32 \<times> byte \<Rightarrow> u32 \<times> byte" where
  "huff_align e = (push_bit (32 - unat (snd e)) (fst e), snd e)"

text \<open>Neighbours in the sorted array; the sum \<open>pcode + (1u32 << ..)\<close> panics when it overflows, which is
  the outer \<^const>\<open>None\<close>.\<close>

fun spans_loop :: "(u32 \<times> byte) list \<Rightarrow> bool option" where
  "spans_loop (p # c # es) =
     (if 2 ^ 32 \<le> unat (fst p) + 2 ^ (32 - unat (snd p)) then None
      else if unat (fst c) < unat (fst p) + 2 ^ (32 - unat (snd p)) then Some False
      else spans_loop (c # es))"
| "spans_loop _ = Some True"

definition huffman_table_valid :: "(u32 \<times> byte) list \<Rightarrow> bool option" where
  "huffman_table_valid tbl =
     (case kraft_loop tbl 0 of
        None \<Rightarrow> Some False
      | Some k \<Rightarrow> if k \<noteq> push_bit 30 1 then Some False else spans_loop (sort (map huff_align tbl)))"

section \<open>Codes as bit strings\<close>

fun msb_bits :: "nat \<Rightarrow> nat \<Rightarrow> bool list" where
  "msb_bits 0 c = []"
| "msb_bits (Suc l) c = odd (c div 2 ^ l) # msb_bits l c"

fun bval :: "bool list \<Rightarrow> nat" where
  "bval [] = 0"
| "bval (b # bs) = of_bool b * 2 ^ length bs + bval bs"

definition entry_bits :: "u32 \<times> byte \<Rightarrow> bool list" where
  "entry_bits e = msb_bits (unat (snd e)) (unat (fst e))"

definition huff_code :: "nat \<Rightarrow> bool list" where
  "huff_code s = entry_bits (HUFF ! s)"

definition byte_bits :: "byte \<Rightarrow> bool list" where
  "byte_bits b = msb_bits 8 (unat b)"

lemma length_msb_bits [simp]: "length (msb_bits l c) = l"
  by (induction l) simp_all

lemma bval_append: "bval (xs @ ys) = bval xs * 2 ^ length ys + bval ys"
  by (induction xs) (simp_all add: algebra_simps power_add)

lemma bval_less: "bval bs < 2 ^ length bs"
proof (induction bs)
  case (Cons b bs)
  then show ?case by (cases b) simp_all
qed simp

lemma bval_msb_bits: "bval (msb_bits l c) = c mod 2 ^ l"
proof (induction l)
  case (Suc l)
  have "c mod 2 ^ Suc l = 2 ^ l * (c div 2 ^ l mod 2) + c mod 2 ^ l"
    by (metis mod_mult2_eq power_Suc2)
  then show ?case using Suc by (simp add: mod_2_eq_odd)
qed simp

lemma bval_inj: "length xs = length ys \<Longrightarrow> bval xs = bval ys \<Longrightarrow> xs = ys"
proof (induction xs ys rule: list_induct2)
  case (Cons x xs y ys)
  have "bval xs < 2 ^ length xs" "bval ys < 2 ^ length xs" using bval_less [of xs] bval_less [of ys] Cons.hyps by simp_all
  with Cons.prems Cons.hyps have "x = y \<and> bval xs = bval ys" by (cases x; cases y) simp_all
  then show ?case using Cons.IH by simp
qed simp

lemma bval_ones: "bval bs = 2 ^ length bs - 1 \<longleftrightarrow> bs = replicate (length bs) True"
proof -
  have one: "bval (replicate k True) = 2 ^ k - 1" for k by (induction k) simp_all
  show ?thesis
  proof
    assume "bval bs = 2 ^ length bs - 1"
    then show "bs = replicate (length bs) True" by (intro bval_inj) (simp_all add: one)
  next
    assume r: "bs = replicate (length bs) True"
    show "bval bs = 2 ^ length bs - 1" by (subst r) (rule one)
  qed
qed

section \<open>A table the self-check accepts is prefix-free\<close>

text \<open>Two codes are apart when the spans of 32-bit words they lead are disjoint.\<close>

definition span_end :: "u32 \<times> byte \<Rightarrow> nat" where
  "span_end e = unat (fst e) + 2 ^ (32 - unat (snd e))"

definition spans_apart :: "u32 \<times> byte \<Rightarrow> u32 \<times> byte \<Rightarrow> bool" where
  "spans_apart x y \<longleftrightarrow> span_end x \<le> unat (fst y) \<or> span_end y \<le> unat (fst x)"

lemma spans_apart_sym: "spans_apart x y \<longleftrightarrow> spans_apart y x"
  by (auto simp: spans_apart_def)

lemma sorted_wrt_insort_sym:
  assumes "\<And>x y. R x y \<longleftrightarrow> R y x"
  shows "sorted_wrt R (insort x ys) \<longleftrightarrow> (\<forall>y \<in> set ys. R x y) \<and> sorted_wrt R ys"
proof (induction ys)
  case (Cons y ys)
  then show ?case using assms by (auto simp: set_insort_key)
qed simp

lemma sorted_wrt_sort_sym:
  assumes "\<And>x y. R x y \<longleftrightarrow> R y x"
  shows "sorted_wrt R (sort xs) \<longleftrightarrow> sorted_wrt R xs"
  by (induction xs) (simp_all add: sorted_wrt_insort_sym [OF assms])

lemma spans_loop_sorted:
  "spans_loop es = Some True \<Longrightarrow> sorted_wrt (\<lambda>x y. span_end x \<le> unat (fst y)) es"
proof (induction es rule: spans_loop.induct)
  case (1 p c es)
  then have le: "span_end p \<le> unat (fst c)" and s: "sorted_wrt (\<lambda>x y. span_end x \<le> unat (fst y)) (c # es)"
    by (simp_all add: span_end_def split: if_splits)
  have "unat (fst c) \<le> span_end c" by (simp add: span_end_def)
  with le s show ?case by fastforce
qed simp_all

lemma kraft_loop_lens: "kraft_loop tbl k = Some k' \<Longrightarrow> e \<in> set tbl \<Longrightarrow> snd e \<noteq> 0 \<and> snd e \<le> 30"
  by (induction tbl arbitrary: k) (auto split: if_splits)

lemma align_start:
  assumes "snd e \<le> 30"
  shows "unat (fst (huff_align e)) = bval (entry_bits e) * 2 ^ (32 - unat (snd e))"
proof -
  define l where "l = unat (snd e)"
  have l: "l \<le> 30" using assms by (simp add: l_def word_le_nat_alt)
  have "unat (fst (huff_align e)) = take_bit 32 (push_bit (32 - l) (unat (fst e)))"
    by (simp add: huff_align_def l_def unsigned_push_bit_eq)
  also have "\<dots> = (unat (fst e) * 2 ^ (32 - l)) mod (2 ^ l * 2 ^ (32 - l))"
    using l by (simp add: take_bit_eq_mod push_bit_eq_mult power_add [symmetric])
  finally have "unat (fst (huff_align e)) = (unat (fst e) * 2 ^ (32 - l)) mod (2 ^ l * 2 ^ (32 - l))" .
  then show ?thesis by (simp only: mult_mod_left [symmetric] entry_bits_def l_def bval_msb_bits)
qed

lemma prefix_not_apart:
  assumes "snd x \<le> 30" and "snd y \<le> 30" and "prefix (entry_bits x) (entry_bits y)"
  shows "\<not> spans_apart (huff_align x) (huff_align y)"
proof -
  from assms(3) obtain q where q: "entry_bits y = entry_bits x @ q" by (auto simp: prefix_def)
  define lx ly where "lx = unat (snd x)" and "ly = unat (snd y)"
  have ly: "ly = lx + length q" using arg_cong [OF q, of length] by (simp add: entry_bits_def lx_def ly_def)
  have le: "ly \<le> 30" using assms(2) by (simp add: ly_def word_le_nat_alt)
  have p: "(2 :: nat) ^ (32 - lx) = 2 ^ length q * 2 ^ (32 - ly)"
    using le ly by (simp add: power_add [symmetric])
  define a where "a = bval (entry_bits x) * 2 ^ (32 - lx)"
  have sx: "unat (fst (huff_align x)) = a" using align_start [OF assms(1)] by (simp add: a_def lx_def)
  have sy: "unat (fst (huff_align y)) = a + bval q * 2 ^ (32 - ly)"
    using align_start [OF assms(2)] by (simp add: a_def q bval_append ly_def [symmetric] p algebra_simps)
  have "bval q * 2 ^ (32 - ly) < 2 ^ length q * 2 ^ (32 - ly)" using bval_less [of q] by simp
  then have "a + bval q * 2 ^ (32 - ly) < a + 2 ^ (32 - lx)" by (simp add: p)
  moreover have "span_end (huff_align x) = a + 2 ^ (32 - lx)" "a < span_end (huff_align y)"
    using sx sy by (simp_all add: span_end_def huff_align_def lx_def)
  ultimately show ?thesis using sx sy by (simp add: spans_apart_def)
qed

theorem huffman_table_valid_sound:
  assumes "huffman_table_valid tbl = Some True"
  shows "sorted_wrt (\<lambda>x y. \<not> prefix (entry_bits x) (entry_bits y) \<and> \<not> prefix (entry_bits y) (entry_bits x)) tbl"
    and "\<forall>e \<in> set tbl. snd e \<noteq> 0 \<and> snd e \<le> 30"
proof -
  from assms obtain k where k: "kraft_loop tbl 0 = Some k" and sp: "spans_loop (sort (map huff_align tbl)) = Some True"
    by (auto simp: huffman_table_valid_def split: option.splits if_splits)
  show lens: "\<forall>e \<in> set tbl. snd e \<noteq> 0 \<and> snd e \<le> 30" using kraft_loop_lens [OF k] by blast
  have "sorted_wrt spans_apart (sort (map huff_align tbl))"
    by (rule sorted_wrt_mono_rel [OF _ spans_loop_sorted [OF sp]]) (simp add: spans_apart_def)
  then have "sorted_wrt spans_apart (map huff_align tbl)" using sorted_wrt_sort_sym [of spans_apart, OF spans_apart_sym] by blast
  then have ap: "sorted_wrt (\<lambda>x y. spans_apart (huff_align x) (huff_align y)) tbl" by (simp add: sorted_wrt_map)
  show "sorted_wrt (\<lambda>x y. \<not> prefix (entry_bits x) (entry_bits y) \<and> \<not> prefix (entry_bits y) (entry_bits x)) tbl"
  proof (rule sorted_wrt_mono_rel [OF _ ap])
    fix x y
    assume xy: "x \<in> set tbl" "y \<in> set tbl" and ap: "spans_apart (huff_align x) (huff_align y)"
    show "\<not> prefix (entry_bits x) (entry_bits y) \<and> \<not> prefix (entry_bits y) (entry_bits x)"
      using prefix_not_apart [of x y] prefix_not_apart [of y x] xy ap lens spans_apart_sym by blast
  qed
qed

section \<open>The table of the source passes\<close>

text \<open>The symbols in the order of their left-aligned codes.\<close>

definition huff_order :: "nat list" where
  "huff_order = [
  48, 49, 50, 97, 99, 101, 105, 111, 115, 116, 32, 37, 45, 46, 47, 51,
  52, 53, 54, 55, 56, 57, 61, 65, 95, 98, 100, 102, 103, 104, 108, 109,
  110, 112, 114, 117, 58, 66, 67, 68, 69, 70, 71, 72, 73, 74, 75, 76,
  77, 78, 79, 80, 81, 82, 83, 84, 85, 86, 87, 89, 106, 107, 113, 118,
  119, 120, 121, 122, 38, 42, 44, 59, 88, 90, 33, 34, 40, 41, 63, 39,
  43, 124, 35, 62, 0, 36, 64, 91, 93, 126, 94, 125, 60, 96, 123, 92,
  195, 208, 128, 130, 131, 162, 184, 194, 224, 226, 153, 161, 167, 172, 176, 177,
  179, 209, 216, 217, 227, 229, 230, 129, 132, 133, 134, 136, 146, 154, 156, 160,
  163, 164, 169, 170, 173, 178, 181, 185, 186, 187, 189, 190, 196, 198, 228, 232,
  233, 1, 135, 137, 138, 139, 140, 141, 143, 147, 149, 150, 151, 152, 155, 157,
  158, 165, 166, 168, 174, 175, 180, 182, 183, 188, 191, 197, 231, 239, 9, 142,
  144, 145, 148, 159, 171, 206, 215, 225, 236, 237, 199, 207, 234, 235, 192, 193,
  200, 201, 202, 205, 210, 213, 218, 219, 238, 240, 242, 243, 255, 203, 204, 211,
  212, 214, 221, 222, 223, 241, 244, 245, 246, 247, 248, 250, 251, 252, 253, 254,
  2, 3, 4, 5, 6, 7, 8, 11, 12, 14, 15, 16, 17, 18, 19, 20,
  21, 23, 24, 25, 26, 27, 28, 29, 30, 31, 127, 220, 249, 10, 13, 22,
  256]"

lemma length_HUFF [simp]: "length HUFF = 257"
  unfolding HUFF_def by simp

lemma huff_order_perm: "mset huff_order = mset [0..<257]"
proof -
  have d: "distinct huff_order" unfolding huff_order_def by simp
  have "list_all (\<lambda>x. x < 257) huff_order" unfolding huff_order_def by simp
  then have "set huff_order \<subseteq> set [0..<257]" by (auto simp: list_all_iff)
  moreover have "length huff_order = 257" unfolding huff_order_def by simp
  then have "card (set huff_order) = card (set [0..<257])" using d by (simp add: distinct_card)
  ultimately have "set huff_order = set [0..<257]" using card_subset_eq by blast
  then show ?thesis using d by (simp only: set_eq_iff_mset_eq_distinct [OF d distinct_upt])
qed

definition huff_sorted :: "(u32 \<times> byte) list" where
  "huff_sorted = [
    (0x0, 5), (0x1, 5), (0x2, 5), (0x3, 5), (0x4, 5), (0x5, 5),
    (0x6, 5), (0x7, 5), (0x8, 5), (0x9, 5), (0x14, 6), (0x15, 6),
    (0x16, 6), (0x17, 6), (0x18, 6), (0x19, 6), (0x1a, 6), (0x1b, 6),
    (0x1c, 6), (0x1d, 6), (0x1e, 6), (0x1f, 6), (0x20, 6), (0x21, 6),
    (0x22, 6), (0x23, 6), (0x24, 6), (0x25, 6), (0x26, 6), (0x27, 6),
    (0x28, 6), (0x29, 6), (0x2a, 6), (0x2b, 6), (0x2c, 6), (0x2d, 6),
    (0x5c, 7), (0x5d, 7), (0x5e, 7), (0x5f, 7), (0x60, 7), (0x61, 7),
    (0x62, 7), (0x63, 7), (0x64, 7), (0x65, 7), (0x66, 7), (0x67, 7),
    (0x68, 7), (0x69, 7), (0x6a, 7), (0x6b, 7), (0x6c, 7), (0x6d, 7),
    (0x6e, 7), (0x6f, 7), (0x70, 7), (0x71, 7), (0x72, 7), (0x73, 7),
    (0x74, 7), (0x75, 7), (0x76, 7), (0x77, 7), (0x78, 7), (0x79, 7),
    (0x7a, 7), (0x7b, 7), (0xf8, 8), (0xf9, 8), (0xfa, 8), (0xfb, 8),
    (0xfc, 8), (0xfd, 8), (0x3f8, 10), (0x3f9, 10), (0x3fa, 10), (0x3fb, 10),
    (0x3fc, 10), (0x7fa, 11), (0x7fb, 11), (0x7fc, 11), (0xffa, 12), (0xffb, 12),
    (0x1ff8, 13), (0x1ff9, 13), (0x1ffa, 13), (0x1ffb, 13), (0x1ffc, 13), (0x1ffd, 13),
    (0x3ffc, 14), (0x3ffd, 14), (0x7ffc, 15), (0x7ffd, 15), (0x7ffe, 15), (0x7fff0, 19),
    (0x7fff1, 19), (0x7fff2, 19), (0xfffe6, 20), (0xfffe7, 20), (0xfffe8, 20), (0xfffe9, 20),
    (0xfffea, 20), (0xfffeb, 20), (0xfffec, 20), (0xfffed, 20), (0x1fffdc, 21), (0x1fffdd, 21),
    (0x1fffde, 21), (0x1fffdf, 21), (0x1fffe0, 21), (0x1fffe1, 21), (0x1fffe2, 21), (0x1fffe3, 21),
    (0x1fffe4, 21), (0x1fffe5, 21), (0x1fffe6, 21), (0x1fffe7, 21), (0x1fffe8, 21), (0x3fffd2, 22),
    (0x3fffd3, 22), (0x3fffd4, 22), (0x3fffd5, 22), (0x3fffd6, 22), (0x3fffd7, 22), (0x3fffd8, 22),
    (0x3fffd9, 22), (0x3fffda, 22), (0x3fffdb, 22), (0x3fffdc, 22), (0x3fffdd, 22), (0x3fffde, 22),
    (0x3fffdf, 22), (0x3fffe0, 22), (0x3fffe1, 22), (0x3fffe2, 22), (0x3fffe3, 22), (0x3fffe4, 22),
    (0x3fffe5, 22), (0x3fffe6, 22), (0x3fffe7, 22), (0x3fffe8, 22), (0x3fffe9, 22), (0x3fffea, 22),
    (0x3fffeb, 22), (0x7fffd8, 23), (0x7fffd9, 23), (0x7fffda, 23), (0x7fffdb, 23), (0x7fffdc, 23),
    (0x7fffdd, 23), (0x7fffde, 23), (0x7fffdf, 23), (0x7fffe0, 23), (0x7fffe1, 23), (0x7fffe2, 23),
    (0x7fffe3, 23), (0x7fffe4, 23), (0x7fffe5, 23), (0x7fffe6, 23), (0x7fffe7, 23), (0x7fffe8, 23),
    (0x7fffe9, 23), (0x7fffea, 23), (0x7fffeb, 23), (0x7fffec, 23), (0x7fffed, 23), (0x7fffee, 23),
    (0x7fffef, 23), (0x7ffff0, 23), (0x7ffff1, 23), (0x7ffff2, 23), (0x7ffff3, 23), (0x7ffff4, 23),
    (0xffffea, 24), (0xffffeb, 24), (0xffffec, 24), (0xffffed, 24), (0xffffee, 24), (0xffffef, 24),
    (0xfffff0, 24), (0xfffff1, 24), (0xfffff2, 24), (0xfffff3, 24), (0xfffff4, 24), (0xfffff5, 24),
    (0x1ffffec, 25), (0x1ffffed, 25), (0x1ffffee, 25), (0x1ffffef, 25), (0x3ffffe0, 26), (0x3ffffe1, 26),
    (0x3ffffe2, 26), (0x3ffffe3, 26), (0x3ffffe4, 26), (0x3ffffe5, 26), (0x3ffffe6, 26), (0x3ffffe7, 26),
    (0x3ffffe8, 26), (0x3ffffe9, 26), (0x3ffffea, 26), (0x3ffffeb, 26), (0x3ffffec, 26), (0x3ffffed, 26),
    (0x3ffffee, 26), (0x7ffffde, 27), (0x7ffffdf, 27), (0x7ffffe0, 27), (0x7ffffe1, 27), (0x7ffffe2, 27),
    (0x7ffffe3, 27), (0x7ffffe4, 27), (0x7ffffe5, 27), (0x7ffffe6, 27), (0x7ffffe7, 27), (0x7ffffe8, 27),
    (0x7ffffe9, 27), (0x7ffffea, 27), (0x7ffffeb, 27), (0x7ffffec, 27), (0x7ffffed, 27), (0x7ffffee, 27),
    (0x7ffffef, 27), (0x7fffff0, 27), (0xfffffe2, 28), (0xfffffe3, 28), (0xfffffe4, 28), (0xfffffe5, 28),
    (0xfffffe6, 28), (0xfffffe7, 28), (0xfffffe8, 28), (0xfffffe9, 28), (0xfffffea, 28), (0xfffffeb, 28),
    (0xfffffec, 28), (0xfffffed, 28), (0xfffffee, 28), (0xfffffef, 28), (0xffffff0, 28), (0xffffff1, 28),
    (0xffffff2, 28), (0xffffff3, 28), (0xffffff4, 28), (0xffffff5, 28), (0xffffff6, 28), (0xffffff7, 28),
    (0xffffff8, 28), (0xffffff9, 28), (0xffffffa, 28), (0xffffffb, 28), (0xffffffc, 28), (0xffffffd, 28),
    (0xffffffe, 28), (0x3ffffffc, 30), (0x3ffffffd, 30), (0x3ffffffe, 30), (0x3fffffff, 30)]"

lemma huff_sorted_codes: "map (\<lambda>s. HUFF ! s) huff_order = huff_sorted"
  unfolding huff_order_def HUFF_def huff_sorted_def by simp

lemma huff_spans: "spans_loop (map huff_align huff_sorted) = Some True"
  unfolding huff_sorted_def by (simp add: huff_align_def)

lemma huff_kraft: "kraft_loop HUFF 0 = Some (push_bit 30 1)"
  unfolding HUFF_def by simp

lemma span_end_le: "span_end x \<le> unat (fst y) \<Longrightarrow> x \<le> y"
proof -
  assume "span_end x \<le> unat (fst y)"
  moreover have "unat (fst x) < span_end x" by (simp add: span_end_def)
  ultimately have "unat (fst x) < unat (fst y)" by linarith
  then show "x \<le> y" by (cases x; cases y) (simp add: word_less_nat_alt)
qed

lemma huff_sorted_sort: "sort (map huff_align HUFF) = map huff_align huff_sorted"
proof (rule properties_for_sort)
  have "map huff_align huff_sorted = map (\<lambda>s. huff_align (HUFF ! s)) huff_order"
    by (simp add: huff_sorted_codes [symmetric])
  then have "mset (map huff_align huff_sorted) = image_mset (\<lambda>s. huff_align (HUFF ! s)) (mset huff_order)" by simp
  also have "\<dots> = mset (map huff_align (map (\<lambda>s. HUFF ! s) [0..<length HUFF]))"
    unfolding huff_order_perm by (simp add: multiset.map_comp comp_def)
  finally show "mset (map huff_align huff_sorted) = mset (map huff_align HUFF)" by (simp only: map_nth)
  show "sorted (map huff_align huff_sorted)"
    by (rule sorted_wrt_mono_rel [OF _ spans_loop_sorted [OF huff_spans]]) (rule span_end_le)
qed

lemma huffman_table_valid_HUFF: "huffman_table_valid HUFF = Some True"
  by (simp only: huffman_table_valid_def huff_kraft huff_sorted_sort huff_spans option.case if_False not_True_eq_False refl)

lemma HUFF_in_width: "list_all (\<lambda>e. unat (fst e) < 2 ^ unat (snd e)) HUFF"
  unfolding HUFF_def by simp

section \<open>Decoding a prefix code bit by bit\<close>

text \<open>The decoder without its buffer: the pending bits, and the symbols read.\<close>

fun code_walk :: "(bool list \<Rightarrow> nat option) \<Rightarrow> bool list \<Rightarrow> bool list \<Rightarrow> (nat list \<times> bool list) option" where
  "code_walk look [] p = Some ([], p)"
| "code_walk look (b # bs) p =
     (if 30 < length (p @ [b]) then None
      else (case look (p @ [b]) of
              None \<Rightarrow> code_walk look bs (p @ [b])
            | Some s \<Rightarrow> if s = 256 then None else map_option (apfst (Cons s)) (code_walk look bs [])))"

locale prefix_code =
  fixes look :: "bool list \<Rightarrow> nat option" and code :: "nat \<Rightarrow> bool list"
  assumes look_iff: "look p = Some s \<longleftrightarrow> s \<le> 256 \<and> code s = p"
    and free: "s \<le> 256 \<Longrightarrow> t \<le> 256 \<Longrightarrow> prefix (code s) (code t) \<Longrightarrow> s = t"
    and short: "s \<le> 256 \<Longrightarrow> length (code s) \<le> 30"
begin

lemma walk_sound:
  "code_walk look bs p = Some (ws, rest) \<Longrightarrow> p @ bs = concat (map code ws) @ rest \<and> (\<forall>w \<in> set ws. w < 256)"
proof (induction bs arbitrary: p ws)
  case (Cons b bs)
  show ?case
  proof (cases "look (p @ [b])")
    case None
    then show ?thesis using Cons.IH [of "p @ [b]"] Cons.prems by (simp split: if_splits)
  next
    case (Some s)
    with Cons.prems obtain vs where s: "s \<noteq> 256" "code_walk look bs [] = Some (vs, rest)" "ws = s # vs"
      by (auto split: if_splits)
    from Some have "s \<le> 256" "code s = p @ [b]" by (simp_all add: look_iff)
    with Cons.IH [OF s(2)] s show ?thesis by auto
  qed
qed simp

lemma look_inside:
  assumes "s \<le> 256" and "code s = p @ q" and "q \<noteq> []"
  shows "look p = None"
proof (rule ccontr)
  assume "look p \<noteq> None"
  then obtain t where t: "t \<le> 256" "code t = p" by (auto simp: look_iff)
  with assms have "t = s" by (intro free) auto
  with t assms show False by simp
qed

lemma walk_inside:
  assumes "s \<le> 256" and "code s = p @ q @ r" and "r \<noteq> []"
  shows "code_walk look (q @ bs) p = code_walk look bs (p @ q)"
  using assms
proof (induction q arbitrary: p)
  case (Cons b q)
  have "length (p @ [b]) \<le> 30" using short [OF assms(1)] Cons.prems by simp
  moreover have "look (p @ [b]) = None" using look_inside [of s "p @ [b]" "q @ r"] Cons.prems by simp
  ultimately show ?case using Cons.IH [of "p @ [b]"] Cons.prems by simp
qed simp

lemma walk_code:
  assumes "s < 256" and "code s \<noteq> []"
  shows "code_walk look (code s @ bs) [] = map_option (apfst (Cons s)) (code_walk look bs [])"
proof -
  from assms(2) obtain q b where q: "code s = q @ [b]" by (metis rev_exhaust)
  have "code_walk look (code s @ bs) [] = code_walk look (b # bs) q"
    using walk_inside [of s "[]" q "[b]" "b # bs"] assms q by simp
  also have "look (q @ [b]) = Some s" using assms q by (simp add: look_iff)
  then have "code_walk look (b # bs) q = map_option (apfst (Cons s)) (code_walk look bs [])"
    using short [of s] assms q by simp
  finally show ?thesis .
qed

lemma walk_codes:
  assumes "\<forall>w \<in> set ws. w < 256 \<and> code w \<noteq> []"
  shows "code_walk look (concat (map code ws) @ bs) [] = map_option (apfst (append ws)) (code_walk look bs [])"
  using assms
proof (induction ws)
  case Nil
  show ?case by (cases "code_walk look bs []") auto
next
  case (Cons w ws)
  then show ?case using walk_code [of w "concat (map code ws) @ bs"] by (cases "code_walk look bs []") auto
qed

text \<open>The symbols and the rest, when the rest is the start of the end-of-string code.\<close>

lemma walk_exact:
  assumes "code 256 = rest @ r" and "r \<noteq> []" and "\<And>w. w < 256 \<Longrightarrow> code w \<noteq> []"
  shows "code_walk look bs [] = Some (ws, rest) \<longleftrightarrow> bs = concat (map code ws) @ rest \<and> (\<forall>w \<in> set ws. w < 256)"
proof
  assume "bs = concat (map code ws) @ rest \<and> (\<forall>w \<in> set ws. w < 256)"
  moreover have "code_walk look rest [] = Some ([], rest)" using walk_inside [of 256 "[]" rest r "[]"] assms by simp
  ultimately show "code_walk look bs [] = Some (ws, rest)" using walk_codes [of ws rest] assms(3) by auto
qed (use walk_sound [of bs "[]" ws rest] in simp)

end

section \<open>The decoder walks the code\<close>

definition huff_sym :: "bool list \<Rightarrow> nat option" where
  "huff_sym p = (if length p \<le> 30 then huff_find HUFF 0 (of_nat (bval p)) (of_nat (length p)) else None)"

lemma huff_find_eq:
  "huff_find es k c n = Some s \<longleftrightarrow>
     k \<le> s \<and> s - k < length es \<and> es ! (s - k) = (c, n) \<and> (\<forall>j < s - k. es ! j \<noteq> (c, n))"
proof (induction es arbitrary: k)
  case (Cons e es)
  show ?case
  proof (cases "e = (c, n)")
    case True
    then show ?thesis by (cases "s - k") auto
  next
    case False
    then have "huff_find (e # es) k c n = huff_find es (k + 1) c n" by (cases e) auto
    moreover have nxt: "(\<forall>j < Suc m. (e # es) ! j \<noteq> (c, n)) \<longleftrightarrow> (\<forall>j < m. es ! j \<noteq> (c, n))" for m
      using False by (auto simp: All_less_Suc2)
    ultimately have eq: "huff_find (e # es) k c n = Some s \<longleftrightarrow>
        k + 1 \<le> s \<and> s - (k + 1) < length es \<and> es ! (s - (k + 1)) = (c, n) \<and> (\<forall>j < s - (k + 1). es ! j \<noteq> (c, n))"
      using Cons.IH [of "k + 1"] by simp
    show ?thesis
    proof (cases "s - k")
      case 0
      then show ?thesis using eq False by auto
    next
      case (Suc m)
      then have "s - (k + 1) = m" "k + 1 \<le> s" by linarith+
      then show ?thesis using eq nxt [of m] Suc by simp
    qed
  qed
qed simp

lemma huff_entry: "s \<le> 256 \<Longrightarrow> unat (fst (HUFF ! s)) < 2 ^ unat (snd (HUFF ! s)) \<and> snd (HUFF ! s) \<noteq> 0 \<and> snd (HUFF ! s) \<le> 30"
  using HUFF_in_width huffman_table_valid_sound(2) [OF huffman_table_valid_HUFF] by (simp add: list_all_length)

lemma huff_code_free:
  assumes "s \<le> 256" and "t \<le> 256" and "prefix (huff_code s) (huff_code t)"
  shows "s = t"
proof (rule ccontr)
  assume "s \<noteq> t"
  then consider "s < t" | "t < s" by linarith
  then show False
    using huffman_table_valid_sound(1) [OF huffman_table_valid_HUFF] assms
    by cases (auto simp: sorted_wrt_iff_nth_less huff_code_def)
qed

lemma huff_code_eq:
  assumes "s \<le> 256" and "length p \<le> 30"
  shows "HUFF ! s = (of_nat (bval p), of_nat (length p)) \<longleftrightarrow> huff_code s = p"
proof -
  have b: "bval p < 2 ^ 30" using bval_less [of p] assms(2) power_increasing [of "length p" 30 "2 :: nat"] by simp
  have u: "unat (of_nat (bval p) :: u32) = bval p" "unat (of_nat (length p) :: byte) = length p"
    using b assms(2) by (simp_all add: unat_of_nat)
  have e: "unat (fst (HUFF ! s)) < 2 ^ unat (snd (HUFF ! s))" using huff_entry [OF assms(1)] by simp
  show ?thesis
  proof
    assume "HUFF ! s = (of_nat (bval p), of_nat (length p))"
    then have "huff_code s = msb_bits (length p) (bval p)" by (simp add: huff_code_def entry_bits_def u)
    then show "huff_code s = p" using bval_less [of p] by (intro bval_inj) (simp_all add: bval_msb_bits)
  next
    assume p: "huff_code s = p"
    have "unat (snd (HUFF ! s)) = length p" using p by (auto simp: huff_code_def entry_bits_def)
    moreover have "unat (fst (HUFF ! s)) = bval p" using p e by (auto simp: huff_code_def entry_bits_def bval_msb_bits)
    ultimately show "HUFF ! s = (of_nat (bval p), of_nat (length p))"
      by (simp add: prod_eq_iff word_unat_eq_iff u)
  qed
qed

interpretation huff: prefix_code huff_sym huff_code
proof unfold_locales
  fix p s
  show "huff_sym p = Some s \<longleftrightarrow> s \<le> 256 \<and> huff_code s = p"
  proof (cases "length p \<le> 30")
    case True
    have "huff_code j \<noteq> huff_code s" if "s \<le> 256" "j < s" for j
      using huff_code_free [of j s] that by auto
    then show ?thesis using True huff_code_eq [OF _ True]
      by (auto simp: huff_sym_def huff_find_eq less_Suc_eq_le)
  next
    case False
    have "length (huff_code s) \<le> 30" if "s \<le> 256"
      using huff_entry [OF that] by (simp add: huff_code_def entry_bits_def word_le_nat_alt)
    then show ?thesis using False by (auto simp: huff_sym_def)
  qed
next
  fix s t :: nat
  assume "s \<le> 256" "t \<le> 256" "prefix (huff_code s) (huff_code t)"
  then show "s = t" by (rule huff_code_free)
next
  fix s :: nat
  assume "s \<le> 256"
  then show "length (huff_code s) \<le> 30" using huff_entry [of s] by (simp add: huff_code_def entry_bits_def word_le_nat_alt)
qed

text \<open>One bit, by its value.\<close>

fun huff_run :: "bool list \<Rightarrow> u32 \<times> byte \<times> nat \<Rightarrow> (u32 \<times> byte \<times> nat) writer" where
  "huff_run [] st out = (Some st, out)"
| "huff_run (x # xs) st out = wbind (huff_bit (of_bool x) 0 st) (huff_run xs) out"

lemma huff_bit_value: "huff_bit b i st = huff_bit (of_bool (bit b i)) 0 st"
proof -
  have "drop_bit i b AND 1 = (of_bool (bit b i) :: byte)"
    by (simp add: and_one_eq mod_2_eq_odd bit_iff_odd_drop_bit)
  then show ?thesis by (simp add: huff_bit_def fun_eq_iff and_one_eq mod_2_eq_odd)
qed

lemma huff_run_append: "huff_run (xs @ ys) st out = wbind (huff_run xs st) (huff_run ys) out"
  by (induction xs arbitrary: st out) (simp_all add: wbind_def split: prod.split option.split)

lemma huff_byte_run: "huff_byte b n st out = huff_run (msb_bits n (unat b)) st out"
proof (induction n arbitrary: st out)
  case (Suc n)
  have "bit b n = odd (unat b div 2 ^ n)" 
    using bit_iff_odd [of "unat b" n] by (simp add: bit_unsigned_iff)
  moreover have "huff_byte b n = huff_run (msb_bits n (unat b))" using Suc by (simp add: fun_eq_iff)
  ultimately show ?case by (simp add: huff_bit_value [of b n])
qed simp

lemma huff_loop_run: "huff_loop src st out = huff_run (concat (map byte_bits src)) st out"
  by (induction src arbitrary: st out) (simp_all add: huff_run_append huff_byte_run byte_bits_def wbind_def split: prod.split option.split)

lemma huff_bit_eq:
  assumes "length p \<le> 30"
  shows "huff_bit (of_bool x) 0 (of_nat (bval p), of_nat (length p), k) out =
    (if 30 < length (p @ [x]) then (None, out)
     else (case huff_sym (p @ [x]) of
        None \<Rightarrow> (Some (of_nat (bval (p @ [x])), of_nat (length (p @ [x])), k), out)
      | Some s \<Rightarrow> if s = 256 then (None, out) else if length out \<le> k then (None, out)
          else (Some (0, 0, k + 1), out[k := of_nat s])))"
proof -
  have c: "push_bit 1 (of_nat (bval p)) OR ucast (drop_bit 0 (of_bool x :: byte) AND 1) = (of_nat (bval (p @ [x])) :: u32)"
    by (cases x) (simp_all add: bval_append push_bit_eq_mult or_one_eq algebra_simps)
  have n: "(of_nat (length p) :: byte) + 1 = of_nat (length (p @ [x]))" by simp
  have "unat (of_nat (length (p @ [x])) :: byte) = length (p @ [x])"
    using assms by (subst unat_of_nat) simp
  then have m: "30 < (of_nat (length (p @ [x])) :: byte) \<longleftrightarrow> 30 < length (p @ [x])"
    by (simp only: word_less_nat_alt) simp
  show ?thesis
    unfolding huff_bit_def
    by (cases "30 < length (p @ [x])") (simp_all only: prod.case Let_def n m c huff_sym_def not_less if_True if_False)
qed

lemma huff_run_walk:
  assumes "length p \<le> 30" and "k \<le> length out"
  shows "case code_walk huff_sym bs p of
      None \<Rightarrow> fst (huff_run bs (of_nat (bval p), of_nat (length p), k) out) = None
    | Some (ws, rest) \<Rightarrow>
        if k + length ws \<le> length out
        then huff_run bs (of_nat (bval p), of_nat (length p), k) out =
          (Some (of_nat (bval rest), of_nat (length rest), k + length ws), blit k (map of_nat ws) out)
        else fst (huff_run bs (of_nat (bval p), of_nat (length p), k) out) = None"
  using assms
proof (induction bs arbitrary: p k out)
  case (Cons x xs)
  note step = huff_bit_eq [OF Cons.prems(1), of x k out]
  consider (long) "30 < length (p @ [x])" | (more) "length (p @ [x]) \<le> 30" "huff_sym (p @ [x]) = None"
    | (eos) "length (p @ [x]) \<le> 30" "huff_sym (p @ [x]) = Some 256"
    | (hit) s where "length (p @ [x]) \<le> 30" "huff_sym (p @ [x]) = Some s" "s \<noteq> 256"
    by (cases "huff_sym (p @ [x])") force+
  then show ?case
  proof cases
    case more
    have "huff_run (x # xs) (of_nat (bval p), of_nat (length p), k) out =
        huff_run xs (of_nat (bval (p @ [x])), of_nat (length (p @ [x])), k) out"
      using step more by (simp add: wbind_def)
    moreover have "code_walk huff_sym (x # xs) p = code_walk huff_sym xs (p @ [x])" using more by simp
    ultimately show ?thesis using Cons.IH [OF more(1) Cons.prems(2)] by (simp only:)
  next
    case hit
    have w: "code_walk huff_sym (x # xs) p = map_option (apfst (Cons s)) (code_walk huff_sym xs [])"
      using hit by simp
    show ?thesis
    proof (cases "k < length out")
      case True
      have "huff_run (x # xs) (of_nat (bval p), of_nat (length p), k) out = huff_run xs (0, 0, k + 1) (out[k := of_nat s])"
        using step hit True by (simp add: wbind_def)
      moreover have "blit (k + 1) v (out[k := of_nat s]) = blit k (of_nat s # v) out" if "k + 1 + length v \<le> length out" for v
        using that by (simp add: blit_single blit_blit_append [of k "[of_nat s]" v, simplified])
      ultimately show ?thesis using Cons.IH [of "[]" "k + 1" "out[k := of_nat s]"] w True
        by (auto split: option.splits)
    next
      case False
      then have "fst (huff_run (x # xs) (of_nat (bval p), of_nat (length p), k) out) = None"
        using step hit by (simp add: wbind_def)
      then show ?thesis using w False by (auto split: option.splits)
    qed
  qed (use step in \<open>simp_all add: wbind_def\<close>)
qed simp

lemma code_walk_rest: "code_walk look bs p = Some (ws, rest) \<Longrightarrow> length p \<le> 30 \<Longrightarrow> length rest \<le> 30"
proof (induction bs arbitrary: p ws)
  case (Cons b bs)
  then show ?case by (fastforce split: if_splits option.splits)
qed simp

lemma huff_code_eos: "huff_code 256 = replicate 30 True"
proof -
  have e: "HUFF ! 256 = (0x3fffffff, 30)" by (simp add: HUFF_def)
  have "bval (huff_code 256) = 2 ^ length (huff_code 256) - 1" by (simp add: huff_code_def entry_bits_def e bval_msb_bits)
  then have "huff_code 256 = replicate (length (huff_code 256)) True" using bval_ones by blast
  moreover have "length (huff_code 256) = 30" by (simp add: huff_code_def entry_bits_def e)
  ultimately show ?thesis by simp
qed

lemma huff_code_nonempty: "s \<le> 256 \<Longrightarrow> huff_code s \<noteq> []"
  using huff_entry [of s] by (metis huff_code_def entry_bits_def length_msb_bits list.size(3) unat_eq_zero)

lemma huff_padding:
  assumes "length rest \<le> 30"
  shows "\<not> 8 \<le> (of_nat (length rest) :: byte) \<and>
      \<not> (0 < (of_nat (length rest) :: byte) \<and>
         (of_nat (bval rest) :: u32) \<noteq> push_bit (unat (of_nat (length rest) :: byte)) 1 - 1) \<longleftrightarrow>
    length rest < 8 \<and> rest = replicate (length rest) True"
proof -
  have u: "unat (of_nat (length rest) :: byte) = length rest" using assms by (subst unat_of_nat) simp
  have l: "length rest \<le> 30" by (rule assms)
  have b: "bval rest < 2 ^ 30" using bval_less [of rest] power_increasing [OF l, of "2 :: nat"] by simp
  have p: "push_bit (length rest) 1 - 1 = (of_nat (2 ^ length rest - 1) :: u32)"
    by (simp add: push_bit_eq_mult of_nat_diff)
  have m: "(2 :: nat) ^ length rest - 1 < 2 ^ 32"
    using power_increasing [OF l, of "2 :: nat"] by simp
  have "(of_nat (bval rest) :: u32) = push_bit (length rest) 1 - 1 \<longleftrightarrow> bval rest = 2 ^ length rest - 1"
    unfolding p word_unat_eq_iff unat_of_nat using b m by simp
  then show ?thesis using bval_ones [of rest] by (auto simp: u word_le_nat_alt word_less_nat_alt)
qed

lemma huffman_decode_walk:
  "huffman_decode src out = (Some n, out') \<longleftrightarrow>
     (\<exists>ws k. code_walk huff_sym (concat (map byte_bits src)) [] = Some (ws, replicate k True) \<and> k < 8 \<and>
        n = length ws \<and> length ws \<le> length out \<and> out' = blit 0 (map of_nat ws) out)"
proof -
  define bs where "bs = concat (map byte_bits src)"
  have run: "huffman_decode src out =
      wbind (huff_run bs (of_nat (bval []), of_nat (length ([] :: bool list)), 0))
       (\<lambda>(cur, nbits, p) out. if 8 \<le> nbits then (None, out)
          else if 0 < nbits \<and> cur \<noteq> push_bit (unat nbits) 1 - 1 then (None, out) else (Some p, out)) out"
    by (simp add: huffman_decode_def huff_loop_run wbind_def bs_def)
  show ?thesis
  proof (cases "code_walk huff_sym bs []")
    case None
    then have "fst (huff_run bs (of_nat (bval []), of_nat (length ([] :: bool list)), 0) out) = None"
      using huff_run_walk [of "[]" 0 out bs] by simp
    then have "fst (huffman_decode src out) = None" unfolding run by (rule wbind_fst_None)
    then show ?thesis using None by (auto simp: bs_def)
  next
    case (Some wr)
    obtain ws rest where wr: "wr = (ws, rest)" by (cases wr)
    have r: "length rest \<le> 30" using code_walk_rest [of huff_sym bs "[]"] Some wr by simp
    show ?thesis
    proof (cases "length ws \<le> length out")
      case True
      then have "huff_run bs (of_nat (bval []), of_nat (length ([] :: bool list)), 0) out =
          (Some (of_nat (bval rest), of_nat (length rest), length ws), blit 0 (map of_nat ws) out)"
        using huff_run_walk [of "[]" 0 out bs] Some wr by simp
      then have "huffman_decode src out =
          (if length rest < 8 \<and> rest = replicate (length rest) True then Some (length ws) else None, blit 0 (map of_nat ws) out)"
        unfolding run using huff_padding [OF r] by (auto simp: wbind_def)
      moreover have "(\<exists>k. rest = replicate k True \<and> k < 8) \<longleftrightarrow> length rest < 8 \<and> rest = replicate (length rest) True"
        by (metis length_replicate)
      ultimately show ?thesis using Some wr True by (auto simp: bs_def)
    next
      case False
      then have "fst (huff_run bs (of_nat (bval []), of_nat (length ([] :: bool list)), 0) out) = None"
        using huff_run_walk [of "[]" 0 out bs] Some wr by simp
      then have "fst (huffman_decode src out) = None" unfolding run by (rule wbind_fst_None)
      then show ?thesis using Some wr False by (auto simp: bs_def)
    qed
  qed
qed

lemma huffman_decode_iff:
  "huffman_decode src out = (Some n, out') \<longleftrightarrow>
     (\<exists>ws k. concat (map byte_bits src) = concat (map (\<lambda>w. huff_code (unat w)) ws) @ replicate k True \<and> k < 8 \<and>
        n = length ws \<and> length ws \<le> length out \<and> out' = blit 0 ws out)"
proof -
  have exact: "code_walk huff_sym bs [] = Some (ws, replicate k True) \<longleftrightarrow>
      bs = concat (map huff_code ws) @ replicate k True \<and> (\<forall>w \<in> set ws. w < 256)" if "k < 8" for bs ws k
    using that by (intro huff.walk_exact [where r = "replicate (30 - k) True"])
      (simp_all add: huff_code_eos huff_code_nonempty replicate_add [symmetric])
  have bytes: "(\<exists>ws. (\<forall>w \<in> set ws. w < 256) \<and> P ws (map of_nat ws)) \<longleftrightarrow> (\<exists>vs :: bytes. P (map unat vs) vs)" for P
  proof
    assume "\<exists>ws. (\<forall>w \<in> set ws. w < 256) \<and> P ws (map of_nat ws)"
    then obtain ws where ws: "\<forall>w \<in> set ws. w < 256" "P ws (map of_nat ws)" by blast
    from ws(1) have "map unat (map of_nat ws :: bytes) = ws" by (induction ws) (simp_all add: unat_of_nat)
    with ws(2) show "\<exists>vs :: bytes. P (map unat vs) vs" by metis
  next
    assume "\<exists>vs :: bytes. P (map unat vs) vs"
    then obtain vs :: bytes where "P (map unat vs) vs" by blast
    then show "\<exists>ws. (\<forall>w \<in> set ws. w < 256) \<and> P ws (map of_nat ws)"
      by (intro exI [of _ "map unat vs"]) (simp add: comp_def)
  qed
  have "huffman_decode src out = (Some n, out') \<longleftrightarrow>
      (\<exists>ws. (\<forall>w \<in> set ws. w < 256) \<and> (\<exists>k. concat (map byte_bits src) = concat (map huff_code ws) @ replicate k True \<and> k < 8 \<and>
        n = length ws \<and> length ws \<le> length out \<and> out' = blit 0 (map of_nat ws) out))"
    unfolding huffman_decode_walk using exact by blast
  also have "\<dots> \<longleftrightarrow> (\<exists>vs :: bytes. \<exists>k. concat (map byte_bits src) = concat (map huff_code (map unat vs)) @ replicate k True \<and> k < 8 \<and>
        n = length (map unat vs) \<and> length (map unat vs) \<le> length out \<and> out' = blit 0 vs out)"
    by (rule bytes)
  finally show ?thesis by (simp add: comp_def)
qed

text \<open>C14. Huffman decoding is exact. The decoder returns \<open>n\<close> bytes exactly when the bits of the input are
  the codes of those bytes in the table of RFC 7541 followed by fewer than eight one bits, and the
  bytes fit; it then writes them at the front of the buffer and nothing else. In particular every
  other padding, an end-of-string code and a cut-off code are refused, and no input has two readings.\<close>

theorem huffman_decode_exact:
  "huffman_decode src out = (Some n, out') \<longleftrightarrow>
     (\<exists>ws k. concat (map byte_bits src) = concat (map (\<lambda>w. huff_code (unat w)) ws) @ replicate k True \<and> k < 8 \<and>
        n = length ws \<and> length ws \<le> length out \<and> out' = blit 0 ws out)"
  by (rule huffman_decode_iff)

end
