(* ===== verification/Hpack.thy ===== *)
theory Hpack
  imports Huffman
begin

text \<open>
  HPACK (\<open>modules/foundation/http/wire/hpack.rs\<close>): the prefix integers, string literals and field
  representations of RFC 7541, decoder and encoder, over the static table only. The sink closure of
  the decoder is the list of fields it was called with. \<open>us\<close> is the width of \<open>usize\<close> in bits: the
  decoder adds a header length to a 32-bit string length in it. An outer \<^const>\<open>None\<close> is a slice
  outside the block, which the raw-pointer code would read.
\<close>

unbundle bit_operations_syntax

section \<open>The static table\<close>

definition hpack_static :: "(string \<times> string) list" where
  "hpack_static = [
    ('':authority'', ''''),
    ('':method'', ''GET''),
    ('':method'', ''POST''),
    ('':path'', ''/''),
    ('':path'', ''/index.html''),
    ('':scheme'', ''http''),
    ('':scheme'', ''https''),
    ('':status'', ''200''),
    ('':status'', ''204''),
    ('':status'', ''206''),
    ('':status'', ''304''),
    ('':status'', ''400''),
    ('':status'', ''404''),
    ('':status'', ''500''),
    (''accept-charset'', ''''),
    (''accept-encoding'', ''gzip, deflate''),
    (''accept-language'', ''''),
    (''accept-ranges'', ''''),
    (''accept'', ''''),
    (''access-control-allow-origin'', ''''),
    (''age'', ''''),
    (''allow'', ''''),
    (''authorization'', ''''),
    (''cache-control'', ''''),
    (''content-disposition'', ''''),
    (''content-encoding'', ''''),
    (''content-language'', ''''),
    (''content-length'', ''''),
    (''content-location'', ''''),
    (''content-range'', ''''),
    (''content-type'', ''''),
    (''cookie'', ''''),
    (''date'', ''''),
    (''etag'', ''''),
    (''expect'', ''''),
    (''expires'', ''''),
    (''from'', ''''),
    (''host'', ''''),
    (''if-match'', ''''),
    (''if-modified-since'', ''''),
    (''if-none-match'', ''''),
    (''if-range'', ''''),
    (''if-unmodified-since'', ''''),
    (''last-modified'', ''''),
    (''link'', ''''),
    (''location'', ''''),
    (''max-forwards'', ''''),
    (''proxy-authenticate'', ''''),
    (''proxy-authorization'', ''''),
    (''range'', ''''),
    (''referer'', ''''),
    (''refresh'', ''''),
    (''retry-after'', ''''),
    (''server'', ''''),
    (''set-cookie'', ''''),
    (''strict-transport-security'', ''''),
    (''transfer-encoding'', ''''),
    (''user-agent'', ''''),
    (''vary'', ''''),
    (''via'', ''''),
    (''www-authenticate'', '''')]"

definition static_lookup :: "u32 \<Rightarrow> (bytes \<times> bytes) option" where
  "static_lookup idx =
     (if 1 \<le> idx \<and> idx \<le> 61 then Some (map_prod ascii ascii (hpack_static ! (unat idx - 1))) else None)"

section \<open>Prefix integers\<close>

function dec_int_loop :: "bytes \<Rightarrow> nat \<Rightarrow> u32 \<Rightarrow> nat \<Rightarrow> (u32 \<times> nat) option" where
  "dec_int_loop buf i v shift =
     (if length buf \<le> i then None
      else
        let b = buf ! i; chunk = ucast b AND 0x7F in
        if 32 \<le> shift then None
        else
          let add = push_bit shift chunk in
          if 2 ^ 32 \<le> unat v + unat add then None
          else if b AND 0x80 = 0 then Some (v + add, i + 1)
          else if 5 < i + 1 then None
          else dec_int_loop buf (i + 1) (v + add) (shift + 7))"
  by pat_completeness auto
termination by (relation "measure (\<lambda>(buf, i, v, shift). length buf - i)") auto

declare dec_int_loop.simps [simp del]

definition decode_integer :: "bytes \<Rightarrow> nat \<Rightarrow> (u32 \<times> nat) option" where
  "decode_integer buf prefix_bits =
     (if buf = [] then None
      else
        let max_prefix = push_bit prefix_bits 1 - 1; lead = ucast (buf ! 0) AND max_prefix in
        if lead < max_prefix then Some (lead, 1) else dec_int_loop buf 1 max_prefix 0)"

text \<open>The continuation bytes, at any width: the loops of \<open>encode_integer\<close> here and of
  \<open>qpack_encode_int\<close> are the same. \<^const>\<open>None\<close> is the return value 0.\<close>

function int_emit_loop :: "'a::len word \<Rightarrow> nat \<Rightarrow> nat writer" where
  "int_emit_loop rem k out =
     (if 128 \<le> unat rem then
        if length out \<le> k then (None, out)
        else int_emit_loop (drop_bit 7 rem) (k + 1) (out[k := ucast (rem AND 0x7F) OR 0x80])
      else if length out \<le> k then (None, out)
      else (Some (k + 1), out[k := ucast rem]))"
  by pat_completeness auto
termination
  by (relation "measure (\<lambda>(rem, k, out). unat rem)") (auto simp: unat_drop_bit intro!: div_less_dividend)

declare int_emit_loop.simps [simp del]

definition encode_integer :: "byte \<Rightarrow> nat \<Rightarrow> u32 \<Rightarrow> nat writer" where
  "encode_integer pre prefix_bits v out =
     (if out = [] then (None, out)
      else
        let max_prefix = push_bit prefix_bits 1 - 1 in
        if v < max_prefix then (Some 1, out[0 := pre OR ucast v])
        else int_emit_loop (v - max_prefix) 1 (out[0 := pre OR ucast max_prefix]))"

section \<open>String literals\<close>

definition decode_string :: "nat \<Rightarrow> bytes \<Rightarrow> (nat \<times> nat \<times> nat \<times> bool) option" where
  "decode_string us buf =
     (if buf = [] then None
      else
        let h_flag = (buf ! 0 AND 0x80 \<noteq> 0) in
        (case decode_integer buf 7 of
           None \<Rightarrow> None
         | Some (slen, hdr) \<Rightarrow>
             let tot = (hdr + unat slen) mod 2 ^ us in
             if length buf < tot then None else Some (hdr, unat slen, tot, h_flag)))"

definition encode_string :: "bytes \<Rightarrow> nat writer" where
  "encode_string s =
     wbind (encode_integer 0 7 (of_nat (length s)))
       (\<lambda>n out. if length out < n + length s then (None, out) else (Some (n + length s), blit n s out))"

section \<open>Decoding a block\<close>

abbreviation (input) HUFF_SCRATCH :: nat where "HUFF_SCRATCH \<equiv> 256"
abbreviation (input) HUFF_VALUE_SCRATCH :: nat where "HUFF_VALUE_SCRATCH \<equiv> 2048"

text \<open>A slice that is flagged as Huffman-coded goes through a scratch buffer of the given size;
  \<open>Some None\<close> is the entry that is dropped.\<close>

definition literal_slice :: "bool \<Rightarrow> nat \<Rightarrow> bytes \<Rightarrow> bytes option" where
  "literal_slice huffman room raw =
     (if huffman then
        (case huffman_decode raw (replicate room 0) of
           (Some n, scratch) \<Rightarrow> Some (take n scratch)
         | (None, _) \<Rightarrow> None)
      else Some raw)"

text \<open>The name: where the value starts, the raw name and its flag.\<close>

definition literal_name :: "nat \<Rightarrow> bytes \<Rightarrow> nat \<Rightarrow> u32 \<Rightarrow> nat \<Rightarrow> (nat \<times> bytes \<times> bool) option option" where
  "literal_name us buf start name_idx consumed =
     (if name_idx = 0 then
        let raw = drop (start + consumed) buf in
        (case decode_string us raw of
           None \<Rightarrow> Some None
         | Some (off, sl, tot, h) \<Rightarrow>
             (case bslice_p off (off + sl) raw of
                None \<Rightarrow> None
              | Some nm \<Rightarrow> Some (Some (consumed + tot, nm, h))))
      else
        (case static_lookup name_idx of
           None \<Rightarrow> Some None
         | Some (nm, _) \<Rightarrow> Some (Some (consumed, nm, False))))"

definition decode_literal :: "nat \<Rightarrow> bytes \<Rightarrow> nat \<Rightarrow> nat \<Rightarrow> (nat \<times> (bytes \<times> bytes) list) option option" where
  "decode_literal us buf start prefix_bits =
     (case decode_integer (drop start buf) prefix_bits of
        None \<Rightarrow> Some None
      | Some (name_idx, n) \<Rightarrow>
        (case literal_name us buf start name_idx n of
           None \<Rightarrow> None
         | Some None \<Rightarrow> Some None
         | Some (Some (consumed, nm, name_huffman)) \<Rightarrow>
             let raw = drop (start + consumed) buf in
             (case decode_string us raw of
                None \<Rightarrow> Some None
              | Some (off, sl, tot, val_huffman) \<Rightarrow>
                (case bslice_p off (off + sl) raw of
                   None \<Rightarrow> None
                 | Some vl \<Rightarrow>
                     Some (Some (consumed + tot,
                       (case literal_slice name_huffman HUFF_SCRATCH nm of
                          None \<Rightarrow> []
                        | Some name_slice \<Rightarrow>
                            (case literal_slice val_huffman HUFF_VALUE_SCRATCH vl of
                               None \<Rightarrow> []
                             | Some value_slice \<Rightarrow> [(name_slice, value_slice)]))))))))"

lemma dec_int_loop_range: "dec_int_loop buf i v shift = Some (v', n) \<Longrightarrow> i < n \<and> n \<le> length buf"
proof (induction "length buf - i" arbitrary: i v shift rule: less_induct)
  case less
  show ?case
  proof (cases "length buf \<le> i")
    case True
    then show ?thesis using less.prems by (simp add: dec_int_loop.simps [of buf i])
  next
    case False
    then have "length buf - (i + 1) < length buf - i" by simp
    note ih = less.hyps [OF this]
    from less.prems consider "n = i + 1" | w where "dec_int_loop buf (i + 1) w (shift + 7) = Some (v', n)"
      by (subst (asm) dec_int_loop.simps) (auto simp: Let_def split: if_splits)
    then show ?thesis using ih False by cases fastforce+
  qed
qed

lemma decode_integer_range: "decode_integer buf pb = Some (v, n) \<Longrightarrow> 0 < n \<and> n \<le> length buf"
  by (auto simp: decode_integer_def Let_def Suc_le_eq split: if_splits dest!: dec_int_loop_range)

lemma decode_literal_pos: "decode_literal us buf start pb = Some (Some (n, hs)) \<Longrightarrow> 0 < n"
  by (auto simp: decode_literal_def literal_name_def Let_def split: option.splits prod.splits if_splits dest!: decode_integer_range)

text \<open>The loop of \<open>decode_block\<close>; the result says whether the block was well formed, with the fields
  the sink saw, which it sees also before an error.\<close>

function decode_block_loop :: "nat \<Rightarrow> bytes \<Rightarrow> nat \<Rightarrow> (bytes \<times> bytes) list \<Rightarrow> (bool \<times> (bytes \<times> bytes) list) option" where
  "decode_block_loop us buf i sunk =
     (if length buf \<le> i then Some (True, sunk)
      else
        let b = buf ! i;
            literal = (\<lambda>pb.
              (case decode_literal us buf i pb of
                 None \<Rightarrow> None
               | Some None \<Rightarrow> Some (False, sunk)
               | Some (Some (n, hs)) \<Rightarrow> decode_block_loop us buf (i + n) (sunk @ hs)))
        in
          if b AND 0x80 \<noteq> 0 then
            (case decode_integer (drop i buf) 7 of
               None \<Rightarrow> Some (False, sunk)
             | Some (idx, n) \<Rightarrow>
                 (case static_lookup idx of
                    None \<Rightarrow> Some (False, sunk)
                  | Some h \<Rightarrow> decode_block_loop us buf (i + n) (sunk @ [h])))
          else if b AND 0xC0 = 0x40 then literal 6
          else if b AND 0xE0 = 0x20 then
            (case decode_integer (drop i buf) 5 of
               None \<Rightarrow> Some (False, sunk)
             | Some (sz, n) \<Rightarrow> decode_block_loop us buf (i + n) sunk)
          else literal 4)"
  by pat_completeness auto
termination
  by (relation "measure (\<lambda>(us, buf, i, sunk). length buf - i)")
    (auto dest!: decode_integer_range decode_literal_pos)

declare decode_block_loop.simps [simp del]

definition decode_block :: "nat \<Rightarrow> bytes \<Rightarrow> (bool \<times> (bytes \<times> bytes) list) option" where
  "decode_block us buf = decode_block_loop us buf 0 []"

section \<open>Encoding a field\<close>

function static_name_loop :: "bytes \<Rightarrow> nat \<Rightarrow> nat" where
  "static_name_loop name i =
     (if i \<le> 61 then
        (case static_lookup (of_nat i) of
           Some (nm, _) \<Rightarrow> if nm = name then i else static_name_loop name (i + 1)
         | None \<Rightarrow> static_name_loop name (i + 1))
      else 0)"
  by pat_completeness auto
termination by (relation "measure (\<lambda>(name, i). 62 - i)") auto

declare static_name_loop.simps [simp del]

definition static_name_index :: "bytes \<Rightarrow> u32" where
  "static_name_index name = of_nat (static_name_loop name 1)"

definition encode_header :: "bytes \<Rightarrow> bytes \<Rightarrow> nat writer" where
  "encode_header name vl =
     wbind
       (let idx = static_name_index name in
        if 0 < idx then encode_integer 0 4 idx
        else (\<lambda>out. if length out < 1 then (None, out)
                    else wbind (wtail 1 (encode_string name)) (\<lambda>n. wret (1 + n)) (out[0 := 0])))
       (\<lambda>k. wbind (wtail k (encode_string vl)) (\<lambda>n. wret (k + n)))"

section \<open>Prefix integers of RFC 7541\<close>

function hint_tail :: "nat \<Rightarrow> bytes" where
  "hint_tail r = (if r < 128 then [of_nat r] else of_nat (r mod 128 + 128) # hint_tail (r div 128))"
  by pat_completeness auto
termination by (relation "measure id") auto

declare hint_tail.simps [simp del]

definition hint :: "byte \<Rightarrow> nat \<Rightarrow> nat \<Rightarrow> bytes" where
  "hint flags pb v =
     (if v < 2 ^ pb - 1 then [flags OR of_nat v] else (flags OR of_nat (2 ^ pb - 1)) # hint_tail (v - (2 ^ pb - 1)))"

lemma and_0x80: "(b :: byte) AND 0x80 = 0 \<longleftrightarrow> unat b < 128"
proof -
  have "b AND 2 ^ 7 = 0 \<longleftrightarrow> \<not> bit b 7" by (rule and_exp_eq_0_iff_not_bit)
  moreover have "bit b 7 \<longleftrightarrow> odd (unat b div 2 ^ 7)"
    using bit_iff_odd [of "unat b" 7] by (simp add: bit_unsigned_iff)
  moreover have "unat b div 128 = of_bool (128 \<le> unat b)"
  proof (cases "128 \<le> unat b")
    case True
    moreover have "unat b < 256" by simp
    ultimately show ?thesis by (simp add: div_nat_eqI)
  qed simp
  ultimately show ?thesis by auto
qed

lemma ucast_of_unat: "ucast (w :: 'a::len word) = (of_nat (unat w) :: 'b::len word)"
  by (simp add: word_unat_eq_iff unsigned_ucast_eq take_bit_eq_mod unat_of_nat)

lemma ucast_and_0x7F:
  assumes "8 \<le> LENGTH('a)"
  shows "ucast (b :: byte) AND (0x7F :: 'a::len word) = of_nat (unat b mod 128)"
proof -
  have t: "ucast b AND (0x7F :: 'a word) = take_bit 7 (ucast b)" by (simp add: take_bit_eq_mask mask_eq_exp_minus_1)
  have "unat b < 2 ^ LENGTH('a)" using power_increasing [OF assms, of "2 :: nat"]
    by (intro less_le_trans [OF byte_unat_less]) simp
  then have "unat (ucast b :: 'a word) = unat b" by (simp add: unsigned_ucast_eq take_bit_eq_mod)
  moreover have "unat b mod 128 < 2 ^ LENGTH('a)"
    using power_increasing [OF assms, of "2 :: nat"] by (simp add: less_le_trans [OF mod_less_divisor])
  ultimately show ?thesis unfolding t by (simp add: word_unat_eq_iff unat_take_bit unat_of_nat)
qed

lemma emit_byte:
  assumes "8 \<le> LENGTH('a)"
  shows "ucast (w AND 0x7F) OR 0x80 = (of_nat (unat (w :: 'a::len word) mod 128 + 128) :: byte)"
proof -
  have "w AND 0x7F = take_bit 7 w" by (simp add: take_bit_eq_mask mask_eq_exp_minus_1)
  then have u: "ucast (w AND 0x7F) = (of_nat (unat w mod 128) :: byte)"
    by (simp add: ucast_of_unat unat_take_bit)
  have "(x :: byte) OR 0x80 = x + 0x80" if "unat x < 128" for x
    using that and_0x80 [of x] disjunctive_add [of x "0x80"] by (auto simp: bit_eq_iff bit_and_iff)
  then show ?thesis unfolding u by (simp add: unat_of_nat)
qed

lemma int_emit_loop_eq:
  assumes "8 \<le> LENGTH('a)" and "k \<le> length out"
  shows "if k + length (hint_tail (unat rem)) \<le> length out
    then int_emit_loop (rem :: 'a::len word) k out = (Some (k + length (hint_tail (unat rem))), blit k (hint_tail (unat rem)) out)
    else fst (int_emit_loop rem k out) = None"
  using assms(2)
proof (induction rem k out rule: int_emit_loop.induct)
  case (1 rem k out)
  show ?case
  proof (cases "128 \<le> unat rem \<and> k < length out")
    case True
    let ?b = "of_nat (unat rem mod 128 + 128) :: byte"
    have e: "int_emit_loop rem k out = int_emit_loop (drop_bit 7 rem) (k + 1) (out[k := ?b])"
      using True by (simp add: int_emit_loop.simps [of rem] emit_byte [OF assms(1)])
    have t: "hint_tail (unat rem) = ?b # hint_tail (unat (drop_bit 7 rem))"
      using True by (simp add: hint_tail.simps [of "unat rem"] unat_drop_bit)
    have b: "blit (k + 1) v (out[k := ?b]) = blit k (?b # v) out" if "k + 1 + length v \<le> length out" for v
      using that True by (simp add: blit_single blit_blit_append [of k "[?b]" v, simplified])
    show ?thesis
      using "1.IH" True b [of "hint_tail (unat (drop_bit 7 rem))"] unfolding e t
      by (auto simp: emit_byte [OF assms(1)])
  next
    case False
    show ?thesis
    proof (cases "unat rem < 128")
      case True
      then have t: "hint_tail (unat rem) = [ucast rem]" by (simp add: hint_tail.simps [of "unat rem"])
      show ?thesis unfolding t using True by (simp add: int_emit_loop.simps [of rem] blit_single)
    next
      case big: False
      with False have "length out \<le> k" by simp
      then show ?thesis using big by (simp add: int_emit_loop.simps [of rem] hint_tail.simps [of "unat rem"])
    qed
  qed
qed

lemma dec_int_step:
  assumes "i < length buf" and "shift < 32" and "unat v + (unat (buf ! i) mod 128) * 2 ^ shift < 2 ^ 32"
  shows "dec_int_loop buf i v shift =
    (if unat (buf ! i) < 128 then Some (v + of_nat (unat (buf ! i) mod 128 * 2 ^ shift), i + 1)
     else if 5 < i + 1 then None
     else dec_int_loop buf (i + 1) (v + of_nat (unat (buf ! i) mod 128 * 2 ^ shift)) (shift + 7))"
proof -
  let ?c = "unat (buf ! i) mod 128 * 2 ^ shift"
  have c: "push_bit shift (ucast (buf ! i) AND 0x7F) = (of_nat ?c :: u32)"
    by (simp add: ucast_and_0x7F push_bit_eq_mult del: push_bit_and)
  have "?c < 2 ^ 32" using assms(3) by linarith
  then have "unat (of_nat ?c :: u32) = ?c" by (simp only: unat_of_nat) simp
  then have g: "(2 ^ 32 \<le> unat v + unat (of_nat ?c :: u32)) = False" "(length buf \<le> i) = False" "(32 \<le> shift) = False"
    using assms by (simp_all only: eq_False not_le)
  show ?thesis by (subst dec_int_loop.simps) (simp only: Let_def c and_0x80 g if_False)
qed

lemma hint_tail_Cons: "\<exists>b bs. hint_tail r = b # bs"
  by (simp add: hint_tail.simps [of r])

lemma digit_split: "(r mod 128) * 2 ^ s + (r div 128) * 2 ^ (s + 7) = r * (2 :: nat) ^ s"
proof -
  have "r * 2 ^ s = (r mod 128 + r div 128 * 128) * 2 ^ s" by simp
  also have "\<dots> = (r mod 128) * 2 ^ s + (r div 128) * 2 ^ (s + 7)"
    by (simp only: power_add distrib_right) simp
  finally show ?thesis by simp
qed

lemma dec_int_loop_tail:
  assumes "1 \<le> i" and "i \<le> 5" and "length pre = i" and "unat v + r * 2 ^ (7 * (i - 1)) < 2 ^ 32"
  shows "dec_int_loop (pre @ hint_tail r @ rest) i v (7 * (i - 1)) =
    Some (v + of_nat (r * 2 ^ (7 * (i - 1))), i + length (hint_tail r))"
  using assms
proof (induction r arbitrary: i v pre rule: hint_tail.induct)
  case (1 r)
  define s where "s = 7 * (i - 1)"
  have s: "s < 32" "7 * (i + 1 - 1) = s + 7" using "1.prems"(1,2) by (auto simp: s_def)
  show ?case
  proof (cases "r < 128")
    case True
    then have "dec_int_loop (pre @ hint_tail r @ rest) i v s = Some (v + of_nat (r * 2 ^ s), i + 1)"
      using "1.prems" s by (subst dec_int_step) (simp_all add: hint_tail.simps [of r] nth_append unat_of_nat s_def)
    then show ?thesis using True by (simp add: s_def hint_tail.simps [of r])
  next
    case False
    let ?b = "of_nat (r mod 128 + 128) :: byte"
    have t: "hint_tail r = ?b # hint_tail (r div 128)" using False by (simp add: hint_tail.simps [of r])
    have "r mod 128 + 128 < 256" by simp
    then have ub: "unat ?b = r mod 128 + 128" by (simp only: unat_of_nat) simp
    have le: "(r mod 128) * 2 ^ s + (r div 128) * 2 ^ (s + 7) = r * 2 ^ s" by (rule digit_split)
    have m: "unat v + (r mod 128) * 2 ^ s < 2 ^ 32" using "1.prems"(4) le by (simp add: s_def)
    let ?v = "v + of_nat (r mod 128 * 2 ^ s)"
    have uv: "unat ?v = unat v + r mod 128 * 2 ^ s"
    proof -
      have "unat (of_nat (r mod 128 * 2 ^ s) :: u32) = r mod 128 * 2 ^ s" using m by (simp only: unat_of_nat) simp
      then show ?thesis using m by (subst unat_word_ariths) simp
    qed
    have i5: "i \<noteq> 5"
    proof
      assume "i = 5"
      then have "r * 2 ^ 28 < 2 ^ 32" using "1.prems"(4) by simp
      then show False using False by simp
    qed
    have "dec_int_loop (pre @ hint_tail r @ rest) i v s = dec_int_loop (pre @ hint_tail r @ rest) (i + 1) ?v (s + 7)"
      unfolding t using "1.prems" s m i5 ub by (subst dec_int_step) (simp_all add: nth_append)
    also have "\<dots> = dec_int_loop ((pre @ [?b]) @ hint_tail (r div 128) @ rest) (i + 1) ?v (7 * (i + 1 - 1))"
      unfolding t s(2) by simp
    also have "\<dots> = Some (?v + of_nat (r div 128 * 2 ^ (s + 7)), i + 1 + length (hint_tail (r div 128)))"
      using "1.IH" [OF False, of "i + 1" "pre @ [?b]" ?v] "1.prems" i5 le uv s by (simp add: s_def)
    also have "?v + of_nat (r div 128 * 2 ^ (s + 7)) = v + of_nat (r * 2 ^ s)"
      unfolding le [symmetric] by (simp only: of_nat_add) simp
    finally show ?thesis by (simp add: s_def t)
  qed
qed

lemma max_prefix_of_nat: "push_bit pb 1 - 1 = (of_nat (2 ^ pb - 1) :: 'a::len word)"
  by (simp add: of_nat_diff)

lemma max_prefix:
  assumes "pb \<le> 8" and "8 \<le> LENGTH('a)"
  shows "unat (push_bit pb 1 - 1 :: 'a::len word) = 2 ^ pb - 1"
proof -
  have "(2 :: nat) ^ pb \<le> 2 ^ LENGTH('a)" using assms by (intro power_increasing) auto
  moreover have "(2 :: nat) ^ pb - 1 < 2 ^ pb" by simp
  ultimately have "(2 :: nat) ^ pb - 1 < 2 ^ LENGTH('a)" by linarith
  then show ?thesis unfolding max_prefix_of_nat unat_of_nat by simp
qed

lemma take_bit_lead:
  assumes "x < 2 ^ pb" and "take_bit pb flags = 0" and "pb \<le> 8"
  shows "take_bit pb (flags OR of_nat x) = (of_nat x :: byte)"
proof -
  have "x < 256" using assms(1) power_increasing [OF assms(3), of "2 :: nat"] by simp
  then have "unat (of_nat x :: byte) = x" by (simp only: unat_of_nat) simp
  then have "take_bit pb (of_nat x) = (of_nat x :: byte)" using assms(1) by (simp add: take_bit_eq_self_unat)
  then show ?thesis using assms(2) by simp
qed

lemma take_bit_ucast: "take_bit n (ucast (b :: byte)) = (ucast (take_bit n b) :: 'a::len word)"
  by (rule bit_word_eqI) (auto simp: bit_take_bit_iff bit_ucast_iff)

lemma lead_value:
  assumes "x < 2 ^ pb" and "take_bit pb flags = 0" and "pb \<le> 8" and "8 \<le> LENGTH('a)"
  shows "ucast (flags OR of_nat x :: byte) AND (push_bit pb 1 - 1) = (of_nat x :: 'a::len word)"
proof -
  have "ucast (flags OR of_nat x :: byte) AND (push_bit pb 1 - 1) = take_bit pb (ucast (flags OR of_nat x :: byte) :: 'a word)"
    by (simp add: take_bit_eq_mask mask_eq_exp_minus_1)
  also have "\<dots> = ucast (take_bit pb (flags OR of_nat x :: byte))"
    by (rule take_bit_ucast)
  also have "\<dots> = ucast (of_nat x :: byte)" using take_bit_lead [OF assms(1-3)] by simp
  also have "\<dots> = of_nat x"
  proof -
    have "x < 256" using assms(1) power_increasing [OF assms(3), of "2 :: nat"] by simp
    then have "unat (of_nat x :: byte) = x" by (simp only: unat_of_nat) simp
    then show ?thesis by (subst ucast_of_unat) simp
  qed
  finally show ?thesis .
qed

lemma decode_hint:
  assumes "1 \<le> pb" and "pb \<le> 8" and "take_bit pb flags = 0" and "v < 2 ^ 32"
  shows "decode_integer (hint flags pb v @ rest) pb = Some (of_nat v, length (hint flags pb v))"
proof -
  have p: "(2 :: nat) ^ pb \<le> 256" using power_increasing [OF assms(2), of "2 :: nat"] by simp
  have m: "unat (push_bit pb 1 - 1 :: u32) = 2 ^ pb - 1" using max_prefix [OF assms(2), where 'a = 32] by simp
  have lt: "(of_nat x :: u32) < push_bit pb 1 - 1 \<longleftrightarrow> x < 2 ^ pb - 1" if "x < 2 ^ pb" for x
  proof -
    have "x < 2 ^ 32" using that p by simp
    then have "unat (of_nat x :: u32) = x" by (simp only: unat_of_nat) simp
    then show ?thesis by (simp only: word_less_nat_alt m)
  qed
  show ?thesis
  proof (cases "v < 2 ^ pb - 1")
    case True
    then have l: "v < 2 ^ pb" by simp
    show ?thesis
      using True lt [OF l] lead_value [OF l assms(3,2), where 'a = 32]
      by (simp add: decode_integer_def hint_def Let_def)
  next
    case False
    let ?t = "hint_tail (v - (2 ^ pb - 1))"
    have l: "2 ^ pb - 1 < (2 :: nat) ^ pb" by simp
    have u: "unat (push_bit pb 1 - 1 :: u32) + (v - (2 ^ pb - 1)) * 2 ^ (7 * (1 - 1)) < 2 ^ 32"
      unfolding m using False assms(4) by simp
    have "push_bit pb 1 - 1 + of_nat ((v - (2 ^ pb - 1)) * 2 ^ (7 * (1 - 1))) = (of_nat v :: u32)"
    proof -
      show ?thesis unfolding max_prefix_of_nat using False by (simp only: of_nat_add [symmetric]) simp
    qed
    then have "dec_int_loop ([flags OR of_nat (2 ^ pb - 1)] @ ?t @ rest) 1 (push_bit pb 1 - 1) (7 * (1 - 1)) =
        Some (of_nat v, 1 + length ?t)"
      using dec_int_loop_tail [of 1 "[flags OR of_nat (2 ^ pb - 1)]" "push_bit pb 1 - 1" "v - (2 ^ pb - 1)" rest] u by simp
    moreover have "\<not> (of_nat (2 ^ pb - 1) :: u32) < push_bit pb 1 - 1" using lt [OF l] by simp
    ultimately show ?thesis
      using False lead_value [OF l assms(3,2), where 'a = 32]
      by (simp add: decode_integer_def hint_def Let_def)
  qed
qed

lemma encode_hint:
  assumes "1 \<le> pb" and "pb \<le> 8"
  shows "if length (hint flags pb (unat v)) \<le> length out
    then encode_integer flags pb v out = (Some (length (hint flags pb (unat v))), blit 0 (hint flags pb (unat v)) out)
    else fst (encode_integer flags pb v out) = None"
proof (cases out)
  case (Cons o1 os)
  have m: "unat (push_bit pb 1 - 1 :: u32) = 2 ^ pb - 1" using max_prefix [OF assms(2), where 'a = 32] by simp
  have uc: "(ucast w :: byte) = of_nat (unat w)" for w :: u32 by (rule ucast_of_unat)
  show ?thesis
  proof (cases "unat v < 2 ^ pb - 1")
    case True
    then show ?thesis
      unfolding encode_integer_def hint_def Let_def word_less_nat_alt m uc using Cons by (simp add: blit_def)
  next
    case False
    have s: "unat (v - (push_bit pb 1 - 1)) = unat v - (2 ^ pb - 1)"
      using False m by (subst unat_sub) (simp_all add: word_le_nat_alt)
    let ?o = "out[0 := flags OR of_nat (2 ^ pb - 1)]"
    have b: "blit 1 t ?o = blit 0 ((flags OR of_nat (2 ^ pb - 1)) # t) out" for t
      using Cons by (simp add: blit_def)
    have e: "encode_integer flags pb v out = int_emit_loop (v - (push_bit pb 1 - 1)) 1 ?o"
      unfolding encode_integer_def Let_def word_less_nat_alt m uc using False Cons by simp
    show ?thesis
      using int_emit_loop_eq [where 'a = 32, of 1 ?o "v - (push_bit pb 1 - 1)"] False Cons b
      unfolding e s by (simp add: hint_def split: if_splits)
  qed
qed (simp add: hint_def encode_integer_def)

lemma hint_lead:
  assumes "pb \<le> 8" and "take_bit pb hm = 0"
  shows "hint flags pb v ! 0 AND hm = flags AND (hm :: byte)"
proof -
  define x where "x = (if v < 2 ^ pb - 1 then v else 2 ^ pb - 1)"
  have x: "x < 2 ^ pb" "hint flags pb v ! 0 = flags OR of_nat x" by (auto simp: x_def hint_def)
  have "take_bit pb (of_nat x) = (of_nat x :: byte)" using take_bit_lead [of x pb 0] x assms(1) by simp
  then have "of_nat x AND hm = take_bit pb (of_nat x) AND hm" by simp
  also have "\<dots> = of_nat x AND take_bit pb hm" by (rule bit_word_eqI) (auto simp: bit_take_bit_iff bit_and_iff)
  finally have "of_nat x AND hm = 0" using assms(2) by simp
  then show ?thesis unfolding x(2) by (simp add: bit.conj_disj_distrib2)
qed

lemma hint_not_Nil [simp]: "hint flags pb v \<noteq> []"
  by (simp add: hint_def)

section \<open>Blocks any encoder may write\<close>

text \<open>A string literal as it is: raw, or the bytes on the wire with the string they code.\<close>

datatype hstr = Raw bytes | Coded bytes bytes

fun hstr_wire :: "hstr \<Rightarrow> bytes" where
  "hstr_wire (Raw s) = hint 0 7 (length s) @ s"
| "hstr_wire (Coded c s) = hint 0x80 7 (length c) @ c"

fun hstr_val :: "hstr \<Rightarrow> bytes" where
  "hstr_val (Raw s) = s"
| "hstr_val (Coded c s) = s"

fun hstr_ok :: "nat \<Rightarrow> hstr \<Rightarrow> bool" where
  "hstr_ok room (Raw s) = (length s < 2 ^ 32)"
| "hstr_ok room (Coded c s) =
     (length c < 2 ^ 32 \<and> length s \<le> room \<and>
      (\<exists>k < 8. concat (map byte_bits c) = concat (map (\<lambda>w. huff_code (unat w)) s) @ replicate k True))"

datatype hname = NameRef nat | NameLit hstr

text \<open>The five forms of RFC 7541 section 6; \<open>FIncr\<close> is literal with incremental indexing.\<close>

datatype hfield = FIndexed nat | FIncr hname hstr | FPlain hname hstr | FNever hname hstr | FSize nat

fun hname_wire :: "byte \<Rightarrow> nat \<Rightarrow> hname \<Rightarrow> bytes" where
  "hname_wire flags pb (NameRef i) = hint flags pb i"
| "hname_wire flags pb (NameLit s) = hint flags pb 0 @ hstr_wire s"

fun hname_val :: "hname \<Rightarrow> bytes" where
  "hname_val (NameRef i) = ascii (fst (hpack_static ! (i - 1)))"
| "hname_val (NameLit s) = hstr_val s"

fun hname_ok :: "hname \<Rightarrow> bool" where
  "hname_ok (NameRef i) = (1 \<le> i \<and> i \<le> 61)"
| "hname_ok (NameLit s) = hstr_ok HUFF_SCRATCH s"

fun hfield_wire :: "hfield \<Rightarrow> bytes" where
  "hfield_wire (FIndexed i) = hint 0x80 7 i"
| "hfield_wire (FIncr n v) = hname_wire 0x40 6 n @ hstr_wire v"
| "hfield_wire (FPlain n v) = hname_wire 0 4 n @ hstr_wire v"
| "hfield_wire (FNever n v) = hname_wire 0x10 4 n @ hstr_wire v"
| "hfield_wire (FSize k) = hint 0x20 5 k"

fun hfield_val :: "hfield \<Rightarrow> (bytes \<times> bytes) list" where
  "hfield_val (FIndexed i) = [map_prod ascii ascii (hpack_static ! (i - 1))]"
| "hfield_val (FIncr n v) = [(hname_val n, hstr_val v)]"
| "hfield_val (FPlain n v) = [(hname_val n, hstr_val v)]"
| "hfield_val (FNever n v) = [(hname_val n, hstr_val v)]"
| "hfield_val (FSize k) = []"

fun hfield_ok :: "hfield \<Rightarrow> bool" where
  "hfield_ok (FIndexed i) = (1 \<le> i \<and> i \<le> 61)"
| "hfield_ok (FIncr n v) = (hname_ok n \<and> hstr_ok HUFF_VALUE_SCRATCH v)"
| "hfield_ok (FPlain n v) = (hname_ok n \<and> hstr_ok HUFF_VALUE_SCRATCH v)"
| "hfield_ok (FNever n v) = (hname_ok n \<and> hstr_ok HUFF_VALUE_SCRATCH v)"
| "hfield_ok (FSize k) = (k < 2 ^ 32)"

text \<open>The payload and the flag of a string literal.\<close>

fun hstr_raw :: "hstr \<Rightarrow> bytes" where
  "hstr_raw (Raw s) = s"
| "hstr_raw (Coded c s) = c"

fun hstr_coded :: "hstr \<Rightarrow> bool" where
  "hstr_coded (Raw s) = False"
| "hstr_coded (Coded c s) = True"

definition hstr_head :: "hstr \<Rightarrow> bytes" where
  "hstr_head s = hint (if hstr_coded s then 0x80 else 0) 7 (length (hstr_raw s))"

lemma hstr_wire_eq: "hstr_wire s = hstr_head s @ hstr_raw s"
  by (cases s) (simp_all add: hstr_head_def)

lemma decode_string_wire:
  assumes "hstr_ok room s" and "length (hstr_wire s @ rest) < 2 ^ us"
  shows "decode_string us (hstr_wire s @ rest) =
    Some (length (hstr_head s), length (hstr_raw s), length (hstr_wire s), hstr_coded s)"
proof -
  let ?f = "if hstr_coded s then 0x80 else (0 :: byte)"
  have l: "length (hstr_raw s) < 2 ^ 32" using assms(1) by (cases s) simp_all
  have d: "decode_integer (hstr_wire s @ rest) 7 = Some (of_nat (length (hstr_raw s)), length (hstr_head s))"
    using decode_hint [of 7 ?f "length (hstr_raw s)" "hstr_raw s @ rest"] l
    by (simp add: hstr_wire_eq hstr_head_def)
  have u: "unat (of_nat (length (hstr_raw s)) :: u32) = length (hstr_raw s)" using l by (simp only: unat_of_nat) simp
  have "(hstr_wire s @ rest) ! 0 AND 0x80 = ?f AND 0x80"
    using hint_lead [of 7 "0x80" ?f "length (hstr_raw s)"] by (simp add: hstr_wire_eq hstr_head_def nth_append)
  then have h: "((hstr_wire s @ rest) ! 0 AND 0x80 \<noteq> 0) = hstr_coded s" by (simp split: if_splits)
  have n: "hstr_wire s @ rest \<noteq> []" by (simp add: hstr_wire_eq hstr_head_def)
  show ?thesis
    unfolding decode_string_def d using n assms(2) h by (simp add: u Let_def hstr_wire_eq)
qed

lemma literal_slice_wire: "hstr_ok room s \<Longrightarrow> literal_slice (hstr_coded s) room (hstr_raw s) = Some (hstr_val s)"
proof (cases s)
  case (Coded c w)
  assume "hstr_ok room s"
  then have "huffman_decode c (replicate room 0) = (Some (length w), blit 0 w (replicate room 0))"
    using Coded by (subst huffman_decode_iff) auto
  then show ?thesis using Coded by (simp add: literal_slice_def blit_def)
qed (simp add: literal_slice_def)

lemma static_lookup_of_nat:
  assumes "1 \<le> i" and "i \<le> 61"
  shows "static_lookup (of_nat i) = Some (map_prod ascii ascii (hpack_static ! (i - 1)))"
proof -
  have "unat (of_nat i :: u32) = i" using assms by (simp only: unat_of_nat) simp
  then show ?thesis using assms by (simp add: static_lookup_def word_le_nat_alt)
qed

lemma literal_name_wire:
  assumes "hname_ok nm" and "buf = pre @ hname_wire flags pb nm @ rest" and "length buf < 2 ^ us"
    and "1 \<le> pb" and "pb \<le> 8" and "take_bit pb flags = 0" and "4 \<le> pb"
  obtains idx n raw h where "decode_integer (drop (length pre) buf) pb = Some (idx, n)"
    "literal_name us buf (length pre) idx n = Some (Some (length (hname_wire flags pb nm), raw, h))"
    "literal_slice h HUFF_SCRATCH raw = Some (hname_val nm)"
proof (cases nm)
  case (NameRef i)
  with assms(1) have i: "1 \<le> i" "i \<le> 61" "i < 2 ^ 32" by simp_all
  have "unat (of_nat i :: u32) = i" using i by (simp only: unat_of_nat) simp
  then have nz: "of_nat i \<noteq> (0 :: u32)" using i by (metis unat_0 not_one_le_zero)
  show thesis
    by (rule that [of "of_nat i" "length (hint flags pb i)" "hname_val nm" False])
      (use NameRef assms(2,4-6) decode_hint [of pb flags i rest] i nz in
        \<open>simp_all add: literal_name_def static_lookup_of_nat literal_slice_def map_prod_def split: prod.split\<close>)
next
  case (NameLit s)
  have hz: "hint flags pb 0 = [flags]" using assms(4,7) power_increasing [OF assms(7), of "2 :: nat"] by (simp add: hint_def)
  have ds: "decode_string us (hstr_wire s @ rest) =
      Some (length (hstr_head s), length (hstr_raw s), length (hstr_wire s), hstr_coded s)"
    using assms(1-3) NameLit by (intro decode_string_wire) simp_all
  have di: "decode_integer (drop (length pre) buf) pb = Some (0, 1)"
    using decode_hint [of pb flags 0 "hstr_wire s @ rest"] assms NameLit hz by simp
  have dr: "drop (length pre + 1) buf = hstr_wire s @ rest" using assms(2) NameLit hz by simp
  have sl: "bslice_p (length (hstr_head s)) (length (hstr_head s) + length (hstr_raw s)) (hstr_wire s @ rest) = Some (hstr_raw s)"
    by (simp add: bslice_p_def bslice_def hstr_wire_eq)
  show thesis
    by (rule that [of 0 1 "hstr_raw s" "hstr_coded s"])
      (use NameLit assms(1) di dr ds sl literal_slice_wire [of HUFF_SCRATCH s] hz in \<open>simp_all add: literal_name_def\<close>)
qed

lemma decode_literal_wire:
  assumes "hname_ok nm" and "hstr_ok HUFF_VALUE_SCRATCH v" and "buf = pre @ hname_wire flags pb nm @ hstr_wire v @ rest"
    and "length buf < 2 ^ us" and "4 \<le> pb" and "pb \<le> 8" and "take_bit pb flags = 0"
  shows "decode_literal us buf (length pre) pb =
    Some (Some (length (hname_wire flags pb nm @ hstr_wire v), [(hname_val nm, hstr_val v)]))"
proof -
  obtain idx n raw h where n: "decode_integer (drop (length pre) buf) pb = Some (idx, n)"
    "literal_name us buf (length pre) idx n = Some (Some (length (hname_wire flags pb nm), raw, h))"
    "literal_slice h HUFF_SCRATCH raw = Some (hname_val nm)"
    by (rule literal_name_wire [OF assms(1,3,4) _ assms(6,7,5)]) (use assms(5) in simp_all)
  have dr: "drop (length pre + length (hname_wire flags pb nm)) buf = hstr_wire v @ rest" using assms(3) by simp
  have ds: "decode_string us (hstr_wire v @ rest) =
      Some (length (hstr_head v), length (hstr_raw v), length (hstr_wire v), hstr_coded v)"
    using assms(2-4) by (intro decode_string_wire) simp_all
  have sl: "bslice_p (length (hstr_head v)) (length (hstr_head v) + length (hstr_raw v)) (hstr_wire v @ rest) = Some (hstr_raw v)"
    by (simp add: bslice_p_def bslice_def hstr_wire_eq)
  show ?thesis
    using n dr ds sl literal_slice_wire [OF assms(2)] by (simp add: decode_literal_def Let_def)
qed

lemma hname_wire_lead:
  "pb \<le> 8 \<Longrightarrow> take_bit pb hm = 0 \<Longrightarrow> (hname_wire flags pb nm @ r) ! 0 AND hm = flags AND (hm :: byte)"
  using hint_lead [of pb hm flags] by (cases nm) (simp_all add: nth_append)

lemma hname_wire_not_Nil [simp]: "hname_wire flags pb nm \<noteq> []"
  by (cases nm) simp_all

lemma decode_literal_block:
  assumes "hname_ok nm" and "hstr_ok HUFF_VALUE_SCRATCH v" and "length (pre @ (hname_wire flags pb nm @ hstr_wire v) @ rest) < 2 ^ us"
    and "(flags, pb) \<in> {(0x40, 6), (0, 4), (0x10, 4)}"
  shows "decode_block_loop us (pre @ (hname_wire flags pb nm @ hstr_wire v) @ rest) (length pre) sunk =
    decode_block_loop us (pre @ (hname_wire flags pb nm @ hstr_wire v) @ rest)
      (length pre + length (hname_wire flags pb nm @ hstr_wire v)) (sunk @ [(hname_val nm, hstr_val v)])"
proof -
  let ?w = "hname_wire flags pb nm @ hstr_wire v"
  let ?buf = "pre @ ?w @ rest"
  have pb: "4 \<le> pb" "pb \<le> 8" "take_bit pb flags = 0" "take_bit pb (0x80 :: byte) = 0" "take_bit pb (0xC0 :: byte) = 0"
    using assms(4) by auto
  have lit: "decode_literal us ?buf (length pre) pb = Some (Some (length ?w, [(hname_val nm, hstr_val v)]))"
    using assms(1-3) pb by (intro decode_literal_wire [where pre = pre and rest = rest]) simp_all
  have at: "?buf ! length pre = (hname_wire flags pb nm @ hstr_wire v @ rest) ! 0" by (simp add: nth_append)
  have b: "?buf ! length pre AND 0x80 = flags AND 0x80" "?buf ! length pre AND 0xC0 = flags AND 0xC0"
    unfolding at using hname_wire_lead [of pb _ flags nm] pb by blast+
  have b2: "?buf ! length pre AND 0xE0 = flags AND 0xE0" if "pb = 4"
    unfolding at using hname_wire_lead [of pb "0xE0" flags nm] that by simp
  have i: "length pre < length ?buf" by simp
  show ?thesis
    apply (subst decode_block_loop.simps)
    using assms(4) i b b2 lit by (auto simp: Let_def simp del: append_assoc)
qed

lemma decode_block_field:
  assumes "hfield_ok f" and "length (pre @ hfield_wire f @ rest) < 2 ^ us"
  shows "decode_block_loop us (pre @ hfield_wire f @ rest) (length pre) sunk =
    decode_block_loop us (pre @ hfield_wire f @ rest) (length pre + length (hfield_wire f)) (sunk @ hfield_val f)"
proof (cases f)
  case (FIndexed i)
  let ?buf = "pre @ hfield_wire f @ rest"
  have b: "?buf ! length pre AND 0x80 \<noteq> 0" using hint_lead [of 7 "0x80" "0x80" i] FIndexed by (simp add: nth_append)
  have i: "1 \<le> i" "i \<le> 61" "i < 2 ^ 32" using FIndexed assms(1) by simp_all
  have d: "decode_integer (drop (length pre) ?buf) 7 = Some (of_nat i, length (hfield_wire f))"
    using decode_hint [of 7 "0x80" i rest] FIndexed i by simp
  show ?thesis
    by (subst decode_block_loop.simps) (use b d static_lookup_of_nat [OF i(1,2)] FIndexed in \<open>simp add: Let_def del: append_assoc\<close>)
next
  case (FSize k)
  let ?buf = "pre @ hfield_wire f @ rest"
  have b: "?buf ! length pre AND 0x80 = 0" "?buf ! length pre AND 0xC0 \<noteq> 0x40" "?buf ! length pre AND 0xE0 = 0x20"
    using hint_lead [of 5 _ "0x20" k] FSize by (simp_all add: nth_append)
  have d: "decode_integer (drop (length pre) ?buf) 5 = Some (of_nat k, length (hfield_wire f))"
    using decode_hint [of 5 "0x20" k rest] FSize assms(1) by simp
  show ?thesis
    by (subst decode_block_loop.simps) (use b d FSize in \<open>simp add: Let_def del: append_assoc\<close>)
next
  case (FIncr nm v)
  then show ?thesis using decode_literal_block [of nm v pre "0x40" 6 rest us sunk] assms by simp
next
  case (FPlain nm v)
  then show ?thesis using decode_literal_block [of nm v pre 0 4 rest us sunk] assms by simp
next
  case (FNever nm v)
  then show ?thesis using decode_literal_block [of nm v pre "0x10" 4 rest us sunk] assms by simp
qed

lemma decode_block_fields:
  assumes "\<forall>f \<in> set fs. hfield_ok f" and "length (pre @ concat (map hfield_wire fs)) < 2 ^ us"
  shows "decode_block_loop us (pre @ concat (map hfield_wire fs)) (length pre) sunk =
    Some (True, sunk @ concat (map hfield_val fs))"
  using assms
proof (induction fs arbitrary: pre sunk)
  case Nil
  show ?case by (subst decode_block_loop.simps) simp
next
  case (Cons f fs)
  have "decode_block_loop us (pre @ hfield_wire f @ concat (map hfield_wire fs)) (length pre) sunk =
      decode_block_loop us (pre @ hfield_wire f @ concat (map hfield_wire fs)) (length pre + length (hfield_wire f)) (sunk @ hfield_val f)"
    using Cons.prems by (intro decode_block_field) simp_all
  also have "\<dots> = Some (True, (sunk @ hfield_val f) @ concat (map hfield_val fs))"
    using Cons.IH [of "pre @ hfield_wire f" "sunk @ hfield_val f"] Cons.prems by simp
  finally show ?case by simp
qed

section \<open>What the encoder writes\<close>

definition name_form :: "bytes \<Rightarrow> hname" where
  "name_form name = (if static_name_loop name 1 = 0 then NameLit (Raw name) else NameRef (static_name_loop name 1))"

lemma static_name_loop_found:
  "1 \<le> i \<Longrightarrow> static_name_loop name i = 0 \<or>
     1 \<le> static_name_loop name i \<and> static_name_loop name i \<le> 61 \<and> ascii (fst (hpack_static ! (static_name_loop name i - 1))) = name"
proof (induction name i rule: static_name_loop.induct)
  case (1 name i)
  show ?case
  proof (cases "i \<le> 61")
    case True
    obtain nm v where e: "map_prod ascii ascii (hpack_static ! (i - 1)) = (nm, v)" by (cases "map_prod ascii ascii (hpack_static ! (i - 1))")
    then have lk: "static_lookup (of_nat i) = Some (nm, v)" using static_lookup_of_nat [of i] "1.prems" True by simp
    show ?thesis
    proof (cases "nm = name")
      case True
      then have "static_name_loop name i = i" using lk \<open>i \<le> 61\<close> by (simp add: static_name_loop.simps [of name i])
      then show ?thesis using e True \<open>i \<le> 61\<close> "1.prems" by (cases "hpack_static ! (i - 1)") simp
    next
      case False
      then have "static_name_loop name i = static_name_loop name (i + 1)"
        using lk \<open>i \<le> 61\<close> by (simp add: static_name_loop.simps [of name i])
      then show ?thesis using "1.IH"(2) [OF \<open>i \<le> 61\<close> lk refl False] by simp
    qed
  qed (simp add: static_name_loop.simps [of name i])
qed

lemma name_form_ok:
  assumes "length name < 2 ^ 32"
  shows "hname_ok (name_form name)" and "hname_val (name_form name) = name"
  using static_name_loop_found [of 1 name] assms by (auto simp: name_form_def)

definition header_wire :: "bytes \<Rightarrow> bytes \<Rightarrow> bytes" where
  "header_wire name v = hfield_wire (FPlain (name_form name) (Raw v))"

lemma encode_string_eq:
  assumes "length s < 2 ^ 32"
  shows "if length (hstr_wire (Raw s)) \<le> length out
    then encode_string s out = (Some (length (hstr_wire (Raw s))), blit 0 (hstr_wire (Raw s)) out)
    else fst (encode_string s out) = None"
proof -
  let ?h = "hint 0 7 (length s)"
  have u: "unat (of_nat (length s) :: u32) = length s" using assms by (simp only: unat_of_nat) simp
  note e = encode_hint [of 7 0 "of_nat (length s)" out, unfolded u]
  show ?thesis
  proof (cases "length ?h \<le> length out")
    case True
    then have h: "encode_integer 0 7 (of_nat (length s)) out = (Some (length ?h), blit 0 ?h out)" using e by simp
    have "blit (length ?h) s (blit 0 ?h out) = blit 0 (?h @ s) out" if "length ?h + length s \<le> length out"
      using that blit_blit_append [of 0 ?h s out] by simp
    then show ?thesis using True h by (simp add: encode_string_def wbind_def)
  next
    case False
    then have "fst (encode_string s out) = None" unfolding encode_string_def using e by (intro wbind_fst_None) simp
    then show ?thesis using False by simp
  qed
qed

lemma wtail_encode_string:
  assumes "length s < 2 ^ 32" and "k \<le> length out"
  shows "if k + length (hstr_wire (Raw s)) \<le> length out
    then wtail k (encode_string s) out = (Some (length (hstr_wire (Raw s))), blit k (hstr_wire (Raw s)) out)
    else fst (wtail k (encode_string s) out) = None"
  using encode_string_eq [OF assms(1), of "drop k out"] assms(2)
  by (cases "encode_string s (drop k out)") (auto simp: wtail_def blit_def add_ac split: if_splits)

lemma encode_name_eq:
  assumes "length name < 2 ^ 32"
  defines "w \<equiv> (let idx = static_name_index name in
        if 0 < idx then encode_integer 0 4 idx
        else (\<lambda>out. if length out < 1 then (None, out)
                    else wbind (wtail 1 (encode_string name)) (\<lambda>n. wret (1 + n)) (out[0 := 0])))"
  shows "if length (hname_wire 0 4 (name_form name)) \<le> length out
    then w out = (Some (length (hname_wire 0 4 (name_form name))), blit 0 (hname_wire 0 4 (name_form name)) out)
    else fst (w out) = None"
proof (cases "static_name_loop name 1 = 0")
  case False
  then have i: "static_name_loop name 1 \<le> 61" "1 \<le> static_name_loop name 1" using static_name_loop_found [of 1 name] by auto
  then have u: "unat (of_nat (static_name_loop name 1) :: u32) = static_name_loop name 1" by (simp only: unat_of_nat) simp
  then have p: "0 < static_name_index name" using i by (simp add: static_name_index_def word_less_nat_alt)
  show ?thesis
    using encode_hint [of 4 0 "static_name_index name" out] p False
    by (simp add: w_def name_form_def u [folded static_name_index_def])
next
  case True
  then have z: "static_name_index name = 0" by (simp add: static_name_index_def)
  have h: "hint 0 4 0 = [0]" by (simp add: hint_def)
  have nf: "name_form name = NameLit (Raw name)" using True by (simp add: name_form_def)
  show ?thesis
  proof (cases out)
    case (Cons o1 os)
    let ?o = "out[0 := 0]" and ?s = "hstr_wire (Raw name)"
    have t: "if 1 + length ?s \<le> length ?o then wtail 1 (encode_string name) ?o = (Some (length ?s), blit 1 ?s ?o)
        else fst (wtail 1 (encode_string name) ?o) = None"
      using wtail_encode_string [OF assms(1), of 1 ?o] Cons by simp
    have b: "blit 1 ?s ?o = blit 0 (0 # ?s) out" using Cons by (simp add: blit_def)
    have we: "w out = wbind (wtail 1 (encode_string name)) (\<lambda>n. wret (1 + n)) ?o" using Cons by (simp add: w_def z)
    show ?thesis
    proof (cases "1 + length ?s \<le> length out")
      case fits: True
      then show ?thesis using t b unfolding we by (simp add: wbind_def wret_def nf h)
    next
      case full: False
      then have "fst (w out) = None" unfolding we using t by (intro wbind_fst_None) simp
      then show ?thesis using full by (simp add: nf h)
    qed
  qed (simp add: w_def z nf h)
qed

lemma encode_header_eq:
  assumes "length name < 2 ^ 32" and "length v < 2 ^ 32"
  shows "if length (header_wire name v) \<le> length out
    then encode_header name v out = (Some (length (header_wire name v)), blit 0 (header_wire name v) out)
    else fst (encode_header name v out) = None"
proof -
  let ?n = "hname_wire 0 4 (name_form name)" and ?v = "hstr_wire (Raw v)"
  have w: "header_wire name v = ?n @ ?v" by (simp add: header_wire_def)
  note en = encode_name_eq [OF assms(1), of out]
  show ?thesis
  proof (cases "length ?n \<le> length out")
    case True
    have t: "if length ?n + length ?v \<le> length out
        then wtail (length ?n) (encode_string v) (blit 0 ?n out) = (Some (length ?v), blit (length ?n) ?v (blit 0 ?n out))
        else fst (wtail (length ?n) (encode_string v) (blit 0 ?n out)) = None"
      using wtail_encode_string [OF assms(2), of "length ?n" "blit 0 ?n out"] True by simp
    have e: "encode_header name v out = wbind (wtail (length ?n) (encode_string v)) (\<lambda>n. wret (length ?n + n)) (blit 0 ?n out)"
      using en True by (simp add: encode_header_def wbind_def)
    show ?thesis
    proof (cases "length ?n + length ?v \<le> length out")
      case fits: True
      then show ?thesis using t blit_blit_append [of 0 ?n ?v out] unfolding e w by (simp add: wbind_def wret_def)
    next
      case full: False
      then have "fst (encode_header name v out) = None" unfolding e using t by (intro wbind_fst_None) simp
      then show ?thesis using full w by simp
    qed
  next
    case False
    then have "fst (encode_header name v out) = None" unfolding encode_header_def using en by (intro wbind_fst_None) simp
    then show ?thesis using False w by simp
  qed
qed

text \<open>Fields one after the other into the same buffer, as the senders do.\<close>

fun encode_headers :: "(bytes \<times> bytes) list \<Rightarrow> nat \<Rightarrow> nat writer" where
  "encode_headers [] k out = (Some k, out)"
| "encode_headers ((name, v) # hs) k out = wbind (wtail k (encode_header name v)) (\<lambda>n. encode_headers hs (k + n)) out"

lemma encode_headers_eq:
  assumes "\<forall>(name, v) \<in> set hs. length name < 2 ^ 32 \<and> length v < 2 ^ 32" and "k \<le> length out"
    and "encode_headers hs k out = (Some n, out')"
  shows "n = k + length (concat (map (case_prod header_wire) hs)) \<and> n \<le> length out \<and>
    out' = blit k (concat (map (case_prod header_wire) hs)) out"
  using assms
proof (induction hs arbitrary: k out)
  case (Cons h hs)
  obtain name v where h: "h = (name, v)" by (cases h)
  let ?w = "header_wire name v"
  have l: "length name < 2 ^ 32" "length v < 2 ^ 32" using Cons.prems(1) h by auto
  from Cons.prems(3) h have s: "fst (wtail k (encode_header name v) out) \<noteq> None" by (auto dest: wbind_fst_None simp: wbind_eq_Some)
  have "length ?w \<le> length (drop k out)"
    using s encode_header_eq [OF l, of "drop k out"] by (cases "encode_header name v (drop k out)") (auto simp: wtail_def split: if_splits)
  then have fits: "k + length ?w \<le> length out" using Cons.prems(2) by simp
  then have "wtail k (encode_header name v) out = (Some (length ?w), blit k ?w out)"
    using encode_header_eq [OF l, of "drop k out"] by (simp add: wtail_def blit_def add_ac)
  then have "encode_headers hs (k + length ?w) (blit k ?w out) = (Some n, out')"
    using Cons.prems(3) h by (simp add: wbind_def)
  moreover have "k + length ?w \<le> length (blit k ?w out)" using fits by simp
  ultimately have ih: "n = k + length ?w + length (concat (map (case_prod header_wire) hs)) \<and> n \<le> length (blit k ?w out) \<and>
      out' = blit (k + length ?w) (concat (map (case_prod header_wire) hs)) (blit k ?w out)"
    using Cons.IH Cons.prems(1) by simp
  then show ?case using h fits blit_blit_append [of k ?w "concat (map (case_prod header_wire) hs)" out] by simp
qed simp

text \<open>The string length is added in \<open>usize\<close>; with more than 32 bits the sum is exact and every slice lies
  in the block.\<close>

lemma dec_int_loop_last: "dec_int_loop buf i v shift = Some (v', n) \<Longrightarrow> i \<le> 5 \<Longrightarrow> n \<le> 6"
proof (induction "length buf - i" arbitrary: i v shift rule: less_induct)
  case less
  show ?case
  proof (cases "length buf \<le> i")
    case True
    then show ?thesis using less.prems by (simp add: dec_int_loop.simps [of buf i])
  next
    case False
    then have "length buf - (i + 1) < length buf - i" by simp
    note ih = less.hyps [OF this]
    from less.prems consider "n = i + 1" | w where "dec_int_loop buf (i + 1) w (shift + 7) = Some (v', n)" "i + 1 \<le> 5"
      by (subst (asm) dec_int_loop.simps) (auto simp: Let_def split: if_splits)
    then show ?thesis using ih less.prems(2) by cases fastforce+
  qed
qed

lemma decode_string_in_block:
  assumes "33 \<le> us" and "decode_string us buf = Some (off, sl, tot, h)"
  shows "off + sl = tot \<and> tot \<le> length buf"
proof -
  from assms(2) obtain slen where d: "decode_integer buf 7 = Some (slen, off)" and sl: "sl = unat slen"
    and t: "tot = (off + unat slen) mod 2 ^ us" "tot \<le> length buf"
    by (auto simp: decode_string_def Let_def split: if_splits option.splits)
  have "off \<le> 6" using d dec_int_loop_last [of buf 1] by (auto simp: decode_integer_def Let_def split: if_splits)
  moreover have "unat slen < 2 ^ 32" using unsigned_less [of slen, where 'a = nat] by simp
  moreover have "(2 :: nat) ^ 33 \<le> 2 ^ us" using assms(1) by (intro power_increasing) simp_all
  ultimately have "off + unat slen < 2 ^ us" by simp
  then show ?thesis using t sl by simp
qed

lemma decode_string_slice:
  "33 \<le> us \<Longrightarrow> decode_string us buf = Some (off, sl, tot, h) \<Longrightarrow> bslice_p off (off + sl) buf = Some (bslice off (off + sl) buf)"
  using decode_string_in_block [of us buf off sl tot h] by (simp add: bslice_p_def)

lemma decode_literal_in_block:
  assumes "33 \<le> us"
  shows "decode_literal us buf start pb \<noteq> None"
proof -
  note slice = decode_string_slice [OF assms]
  have nm: "literal_name us buf start idx n \<noteq> None" for idx n
    by (auto simp: literal_name_def Let_def split: option.split dest: slice)
  show ?thesis
    by (auto simp: decode_literal_def Let_def split: option.split dest: slice nm [THEN notE])
qed

lemma decode_block_loop_in_block:
  assumes "33 \<le> us"
  shows "decode_block_loop us buf i sunk \<noteq> None"
proof (induction "length buf - i" arbitrary: i sunk rule: less_induct)
  case less
  show ?case
  proof (cases "length buf \<le> i")
    case True
    then show ?thesis by (simp add: decode_block_loop.simps [of us buf i])
  next
    case False
    then have rec: "decode_block_loop us buf (i + n) t \<noteq> None" if "0 < n" for n t
      using less [of "i + n" t] that by simp
    have int: "(case decode_integer (drop i buf) pb of None \<Rightarrow> Some (False, sunk)
        | Some (x, n) \<Rightarrow> (case f x of None \<Rightarrow> Some (False, sunk) | Some h \<Rightarrow> decode_block_loop us buf (i + n) (g h))) \<noteq> None"
      for pb f and g :: "bytes \<times> bytes \<Rightarrow> _"
      using rec by (auto split: option.split dest: decode_integer_range)
    have int5: "(case decode_integer (drop i buf) 5 of None \<Rightarrow> Some (False, sunk)
        | Some (sz, n) \<Rightarrow> decode_block_loop us buf (i + n) sunk) \<noteq> None"
      using rec by (auto split: option.split dest: decode_integer_range)
    have lit: "(case decode_literal us buf i pb of None \<Rightarrow> None | Some None \<Rightarrow> Some (False, sunk)
        | Some (Some (n, hs)) \<Rightarrow> decode_block_loop us buf (i + n) (sunk @ hs)) \<noteq> None" for pb
      using rec decode_literal_in_block [OF assms, of buf i pb] by (auto split: option.split dest: decode_literal_pos)
    show ?thesis
      using False lit int [where f = static_lookup and pb = 7 and g = "\<lambda>h. sunk @ [h]"] int5
      by (subst decode_block_loop.simps) (simp only: Let_def option.case if_False not_False_eq_True split: if_split, simp)

  qed
qed

section \<open>Properties\<close>

lemma msb_bits_numeral: "msb_bits (numeral k) c = odd (c div 2 ^ pred_numeral k) # msb_bits (pred_numeral k) c"
  by (simp add: numeral_eq_Suc)

lemma replicate_numeral: "replicate (numeral k) x = x # replicate (pred_numeral k) x"
  by (simp add: numeral_eq_Suc)

text \<open>C15. The HPACK decoder reads every conforming block. Whatever mixture of indexed fields, literals
  of the three kinds, static name references, Huffman-coded and raw strings and table-size updates an
  encoder without a dynamic table chooses, the sink sees exactly the fields the block stands for, in
  order, and the block is accepted. (Huffman-coded names decode to at most 256 bytes and values to at
  most 2048, the scratch buffers.)\<close>

theorem hpack_decodes_conforming:
  assumes "\<forall>f \<in> set fs. hfield_ok f" and "length (concat (map hfield_wire fs)) < 2 ^ us"
  shows "decode_block us (concat (map hfield_wire fs)) = Some (True, concat (map hfield_val fs))"
  using decode_block_fields [of fs "[]" us "[]"] assms by (simp add: decode_block_def)

theorem hpack_decodes_conforming_witness:
  "decode_block 64 [0x82, 0x01, 0x81, 0x1f] = Some (True, [(ascii '':method'', ascii ''GET''), (ascii '':authority'', [97])])"
proof -
  let ?fs = "[FIndexed 2, FPlain (NameRef 1) (Coded [0x1f] [97])]"
  have c: "HUFF ! 97 = (0x3, 5)" by (simp add: HUFF_def)
  have "concat (map byte_bits [0x1f]) = concat (map (\<lambda>w. huff_code (unat w)) [97 :: byte]) @ replicate 3 True"
    by (simp add: byte_bits_def huff_code_def entry_bits_def c msb_bits_numeral replicate_numeral)
  then have ok: "\<forall>f \<in> set ?fs. hfield_ok f" by auto
  have w: "concat (map hfield_wire ?fs) = [0x82, 0x01, 0x81, 0x1f]" by (simp add: hint_def)
  have v: "concat (map hfield_val ?fs) = [(ascii '':method'', ascii ''GET''), (ascii '':authority'', [97])]"
    by (simp add: hpack_static_def)
  show ?thesis using hpack_decodes_conforming [OF ok, of 64] unfolding w v by simp
qed

text \<open>C16. What the HPACK encoder writes decodes to the fields it was given. If encoding a list of fields
  one after the other into a buffer succeeds, the decoder accepts the bytes written and hands the sink
  exactly that list, whether a name is in the static table or not.\<close>

theorem hpack_encode_decode:
  assumes "\<forall>(name, v) \<in> set hs. length name < 2 ^ 32 \<and> length v < 2 ^ 32" and "length out < 2 ^ us"
    and "encode_headers hs 0 out = (Some n, out')"
  shows "decode_block us (take n out') = Some (True, hs)"
proof -
  let ?fs = "map (\<lambda>(name, v). FPlain (name_form name) (Raw v)) hs"
  have w: "map hfield_wire ?fs = map (case_prod header_wire) hs" by (simp add: header_wire_def case_prod_beta' del: hfield_wire.simps)
  from encode_headers_eq [OF assms(1) _ assms(3)]
  have e: "n = length (concat (map (case_prod header_wire) hs))" "n \<le> length out" "out' = blit 0 (concat (map (case_prod header_wire) hs)) out"
    by simp_all
  then have t: "take n out' = concat (map hfield_wire ?fs)" unfolding w by (simp add: blit_def)
  have v: "concat (map hfield_val ?fs) = hs" using assms(1) by (induction hs) (auto simp: name_form_ok)
  have "\<forall>f \<in> set ?fs. hfield_ok f" using assms(1) by (auto simp: name_form_ok)
  moreover have "length (take n out') < 2 ^ us" using e(2) assms(2) by simp
  ultimately show ?thesis
    using decode_block_fields [of ?fs "[]" us "[]"] v unfolding t by (simp add: decode_block_def)
qed

theorem hpack_encode_decode_witness:
  "encode_headers [(ascii ''te'', [120])] 0 (replicate 6 0) = (Some 6, [0, 2, 116, 101, 1, 120]) \<and>
   decode_block 64 [0, 2, 116, 101, 1, 120] = Some (True, [(ascii ''te'', [120])])"
proof -
  have z: "static_name_loop (ascii ''te'') 1 = 0"
    by (simp add: static_name_loop.simps static_lookup_def hpack_static_def ascii_def word_le_nat_alt)
  have w: "header_wire (ascii ''te'') [120] = [0, 2, 116, 101, 1, 120]"
    unfolding header_wire_def name_form_def z by (simp add: hint_def ascii_def)
  have "encode_header (ascii ''te'') [120] (replicate 6 0) = (Some 6, [0, 2, 116, 101, 1, 120])"
    using encode_header_eq [of "ascii ''te''" "[120]" "replicate 6 0"] unfolding w by (simp add: blit_def)
  then have e: "encode_headers [(ascii ''te'', [120])] 0 (replicate 6 0) = (Some 6, [0, 2, 116, 101, 1, 120])"
    by (simp add: wtail_def wbind_def)
  then show ?thesis using hpack_encode_decode [OF _ _ e, of 64] by simp
qed

text \<open>C20. On a target whose \<open>usize\<close> is wider than 32 bits, the decoder never takes a slice outside the
  block, whatever the bytes are: every hostile length is refused before it is used.\<close>

theorem hpack_reads_in_block:
  assumes "33 \<le> us"
  shows "decode_block us buf \<noteq> None"
  using decode_block_loop_in_block [OF assms] by (simp add: decode_block_def)

theorem hpack_reads_in_block_witness: "decode_block 64 [0, 0x7f, 0x80, 0xff, 0xff, 0xff, 0x0f] \<noteq> None"
  by (rule hpack_reads_in_block) simp

section \<open>Where the code falls short\<close>

text \<open>With a 32-bit \<open>usize\<close> the sum of the header length and a string length near \<open>2 ^ 32\<close> wraps, passes the
  bounds check, and the slice that follows lies far outside the block.\<close>

lemma eval_hostile_length:
  "decode_integer [0x7f, 0x80, 0xff, 0xff, 0xff, 0x0f] 7 = Some (0xFFFFFFFF, 6)"
  by (simp add: decode_integer_def dec_int_loop.simps)

theorem hpack_string_wraps_on_32_bit: "decode_block 32 [0, 0x7f, 0x80, 0xff, 0xff, 0xff, 0x0f] = None"
proof -
  have i: "decode_integer [0, 0x7f, 0x80, 0xff, 0xff, 0xff, 0x0f] 4 = Some (0, 1)" by (simp add: decode_integer_def)
  have s: "decode_string 32 [0x7f, 0x80, 0xff, 0xff, 0xff, 0x0f] = Some (6, 0xFFFFFFFF, 5, False)"
    by (simp add: decode_string_def eval_hostile_length)
  show ?thesis
    by (simp add: decode_block_def decode_block_loop.simps decode_literal_def i s literal_name_def bslice_p_def)
qed

text \<open>The last continuation byte is shifted without a check, so its three high bits vanish: an integer
  of \<open>127 + 127 * 2 ^ 28\<close>, which does not fit, is read as a smaller one.\<close>

theorem hpack_integer_drops_high_bits:
  "decode_integer [0x7f, 0x80, 0x80, 0x80, 0x80, 0x7f] 7 = Some (0xF000007F, 6)"
  by (simp add: decode_integer_def dec_int_loop.simps)

end
