(* ===== verification/Qpack.thy ===== *)
theory Qpack
  imports Hpack
begin

text \<open>
  QPACK (\<open>modules/foundation/http/wire/qpack.rs\<close>): the static table, 64-bit prefix integers, the field
  encoder, and both field decoders, the one that borrows and the one that resolves Huffman strings
  into a scratch buffer. \<open>us\<close> is the width of \<open>usize\<close>. The encoder's return value 0 is \<^const>\<open>None\<close>.
\<close>

unbundle bit_operations_syntax

section \<open>The static table\<close>

definition qpack_static :: "(string \<times> string) list" where
  "qpack_static = [
    ('':authority'', ''''),
    ('':path'', ''/''),
    (''age'', ''0''),
    (''content-disposition'', ''''),
    (''content-length'', ''0''),
    (''cookie'', ''''),
    (''date'', ''''),
    (''etag'', ''''),
    (''if-modified-since'', ''''),
    (''if-none-match'', ''''),
    (''last-modified'', ''''),
    (''link'', ''''),
    (''location'', ''''),
    (''referer'', ''''),
    (''set-cookie'', ''''),
    ('':method'', ''CONNECT''),
    ('':method'', ''DELETE''),
    ('':method'', ''GET''),
    ('':method'', ''HEAD''),
    ('':method'', ''OPTIONS''),
    ('':method'', ''POST''),
    ('':method'', ''PUT''),
    ('':scheme'', ''http''),
    ('':scheme'', ''https''),
    ('':status'', ''103''),
    ('':status'', ''200''),
    ('':status'', ''304''),
    ('':status'', ''404''),
    ('':status'', ''503''),
    (''accept'', ''*/*''),
    (''accept'', ''application/dns-message''),
    (''accept-encoding'', ''gzip, deflate, br''),
    (''accept-ranges'', ''bytes''),
    (''access-control-allow-headers'', ''cache-control''),
    (''access-control-allow-headers'', ''content-type''),
    (''access-control-allow-origin'', ''*''),
    (''cache-control'', ''max-age=0''),
    (''cache-control'', ''max-age=2592000''),
    (''cache-control'', ''max-age=604800''),
    (''cache-control'', ''no-cache''),
    (''cache-control'', ''no-store''),
    (''cache-control'', ''public, max-age=31536000''),
    (''content-encoding'', ''br''),
    (''content-encoding'', ''gzip''),
    (''content-type'', ''application/dns-message''),
    (''content-type'', ''application/javascript''),
    (''content-type'', ''application/json''),
    (''content-type'', ''application/x-www-form-urlencoded''),
    (''content-type'', ''image/gif''),
    (''content-type'', ''image/jpeg''),
    (''content-type'', ''image/png''),
    (''content-type'', ''text/css''),
    (''content-type'', ''text/html; charset=utf-8''),
    (''content-type'', ''text/plain''),
    (''content-type'', ''text/plain;charset=utf-8''),
    (''range'', ''bytes=0-''),
    (''strict-transport-security'', ''max-age=31536000''),
    (''strict-transport-security'', ''max-age=31536000; includesubdomains''),
    (''strict-transport-security'', ''max-age=31536000; includesubdomains; preload''),
    (''vary'', ''accept-encoding''),
    (''vary'', ''origin''),
    (''x-content-type-options'', ''nosniff''),
    (''x-xss-protection'', ''1; mode=block''),
    ('':status'', ''100''),
    ('':status'', ''204''),
    ('':status'', ''206''),
    ('':status'', ''302''),
    ('':status'', ''400''),
    ('':status'', ''403''),
    ('':status'', ''421''),
    ('':status'', ''425''),
    ('':status'', ''500''),
    (''accept-language'', ''''),
    (''access-control-allow-credentials'', ''FALSE''),
    (''access-control-allow-credentials'', ''TRUE''),
    (''access-control-allow-headers'', ''*''),
    (''access-control-allow-methods'', ''get''),
    (''access-control-allow-methods'', ''get, post, options''),
    (''access-control-allow-methods'', ''options''),
    (''access-control-expose-headers'', ''content-length''),
    (''access-control-request-headers'', ''content-type''),
    (''access-control-request-method'', ''get''),
    (''access-control-request-method'', ''post''),
    (''alt-svc'', ''clear''),
    (''authorization'', ''''),
    (''content-security-policy'', ''script-src '' @ [CHR 0x27] @ ''none'' @ [CHR 0x27] @ ''; object-src '' @ [CHR 0x27] @ ''none'' @ [CHR 0x27] @ ''; base-uri '' @ [CHR 0x27] @ ''none'' @ [CHR 0x27] @ ''''),
    (''early-data'', ''1''),
    (''expect-ct'', ''''),
    (''forwarded'', ''''),
    (''if-range'', ''''),
    (''origin'', ''''),
    (''purpose'', ''prefetch''),
    (''server'', ''''),
    (''timing-allow-origin'', ''*''),
    (''upgrade-insecure-requests'', ''1''),
    (''user-agent'', ''''),
    (''x-forwarded-for'', ''''),
    (''x-frame-options'', ''deny''),
    (''x-frame-options'', ''sameorigin'')]"

abbreviation (input) QPACK_STATIC_COUNT :: nat where "QPACK_STATIC_COUNT \<equiv> 99"

definition qpack_static_lookup :: "u32 \<Rightarrow> (bytes \<times> bytes) option" where
  "qpack_static_lookup idx =
     (if unat idx < 99 then Some (map_prod ascii ascii (qpack_static ! unat idx)) else None)"

section \<open>Prefix integers\<close>

definition mask_low :: "nat \<Rightarrow> byte" where
  "mask_low bits = (if 8 \<le> bits then 0xFF else ucast (push_bit bits 1 - 1 :: u16))"

definition qpack_encode_int :: "u64 \<Rightarrow> nat \<Rightarrow> byte \<Rightarrow> nat writer" where
  "qpack_encode_int v prefix_bits flags out =
     (if out = [] then (None, out)
      else
        let mx = push_bit prefix_bits 1 - 1 in
        if v < mx then (Some 1, out[0 := (flags AND NOT (mask_low prefix_bits)) OR ucast v])
        else int_emit_loop (v - mx) 1 (out[0 := (flags AND NOT (mask_low prefix_bits)) OR ucast mx]))"

function qpack_int_loop :: "bytes \<Rightarrow> u64 \<Rightarrow> nat \<Rightarrow> nat \<Rightarrow> (u64 \<times> nat) option" where
  "qpack_int_loop buf v shift cursor =
     (if length buf \<le> cursor then None
      else
        let b = buf ! cursor in
        if 64 \<le> shift then None
        else
          let chunk = ucast b AND 0x7F; max_chunk = drop_bit shift (- 1) AND 0x7F in
          if max_chunk < chunk then None
          else if 2 ^ 64 \<le> unat v + unat (push_bit shift chunk) then None
          else if b AND 0x80 = 0 then Some (v + push_bit shift chunk, cursor + 1)
          else qpack_int_loop buf (v + push_bit shift chunk) (shift + 7) (cursor + 1))"
  by pat_completeness auto
termination by (relation "measure (\<lambda>(buf, v, shift, cursor). length buf - cursor)") auto

declare qpack_int_loop.simps [simp del]

definition qpack_decode_int :: "bytes \<Rightarrow> nat \<Rightarrow> (u64 \<times> nat) option" where
  "qpack_decode_int buf prefix_bits =
     (if buf = [] then None
      else
        let m = ucast (mask_low prefix_bits); v = ucast (buf ! 0) AND m in
        if v < m then Some (v, 1) else qpack_int_loop buf v 0 1)"

section \<open>Encoding a field line\<close>

function qpack_pair_loop :: "bytes \<Rightarrow> bytes \<Rightarrow> nat \<Rightarrow> nat option" where
  "qpack_pair_loop name vl i =
     (if i < QPACK_STATIC_COUNT then
        (case qpack_static_lookup (of_nat i) of
           Some (n, v) \<Rightarrow> if n = name \<and> v = vl then Some i else qpack_pair_loop name vl (i + 1)
         | None \<Rightarrow> qpack_pair_loop name vl (i + 1))
      else None)"
  by pat_completeness auto
termination by (relation "measure (\<lambda>(name, vl, i). 99 - i)") auto

definition qpack_static_index_for_pair :: "bytes \<Rightarrow> bytes \<Rightarrow> u32 option" where
  "qpack_static_index_for_pair name vl = map_option of_nat (qpack_pair_loop name vl 0)"

function qpack_name_loop :: "bytes \<Rightarrow> nat \<Rightarrow> nat option" where
  "qpack_name_loop name i =
     (if i < QPACK_STATIC_COUNT then
        (case qpack_static_lookup (of_nat i) of
           Some (n, _) \<Rightarrow> if n = name then Some i else qpack_name_loop name (i + 1)
         | None \<Rightarrow> qpack_name_loop name (i + 1))
      else None)"
  by pat_completeness auto
termination by (relation "measure (\<lambda>(name, i). 99 - i)") auto

declare qpack_pair_loop.simps [simp del] qpack_name_loop.simps [simp del]

definition qpack_static_index_for_name :: "bytes \<Rightarrow> u32 option" where
  "qpack_static_index_for_name name = map_option of_nat (qpack_name_loop name 0)"

definition qpack_emit_block_prefix :: "nat writer" where
  "qpack_emit_block_prefix out = (if length out < 2 then (None, out) else (Some 2, out[0 := 0, 1 := 0]))"

text \<open>\<open>copy_nonoverlapping\<close> of \<open>v\<close> at \<open>pos\<close> behind its bounds check.\<close>

definition qpack_copy :: "bytes \<Rightarrow> nat \<Rightarrow> nat writer" where
  "qpack_copy v pos out = (if length out < pos + length v then (None, out) else (Some (pos + length v), blit pos v out))"

text \<open>The value of a literal: its length with a 7-bit prefix, then the bytes.\<close>

definition qpack_put_value :: "bytes \<Rightarrow> nat \<Rightarrow> nat writer" where
  "qpack_put_value vl pos =
     wbind (wtail pos (qpack_encode_int (of_nat (length vl)) 7 0)) (\<lambda>n. qpack_copy vl (pos + n))"

definition qpack_encode_field :: "bytes \<Rightarrow> bytes \<Rightarrow> nat writer" where
  "qpack_encode_field name vl =
     (case qpack_static_index_for_pair name vl of
        Some idx \<Rightarrow> qpack_encode_int (ucast idx) 6 0xC0
      | None \<Rightarrow>
        (case qpack_static_index_for_name name of
           Some idx \<Rightarrow> wbind (qpack_encode_int (ucast idx) 4 0x50) (qpack_put_value vl)
         | None \<Rightarrow>
             wbind (qpack_encode_int (of_nat (length name)) 3 0x20)
               (\<lambda>pos. wbind (qpack_copy name pos) (qpack_put_value vl))))"

section \<open>Decoding\<close>

definition qpack_decode_block_prefix :: "bytes \<Rightarrow> nat option" where
  "qpack_decode_block_prefix block =
     (case qpack_decode_int block 8 of
        None \<Rightarrow> None
      | Some (ric, n1) \<Rightarrow>
          if ric \<noteq> 0 then None
          else if drop n1 block = [] then None
          else (case qpack_decode_int (drop n1 block) 7 of
                  None \<Rightarrow> None
                | Some (db, n2) \<Rightarrow> if db \<noteq> 0 then None else Some (n1 + n2)))"

record qpack_field_ranges =
  qf_name :: "nat \<times> nat"
  qf_value :: "nat \<times> nat"
  qf_consumed :: nat

text \<open>\<open>stash\<close>: into the scratch buffer at \<open>used\<close>, through the Huffman decoder when flagged.\<close>

definition qpack_stash :: "nat \<Rightarrow> bytes \<Rightarrow> bool \<Rightarrow> (nat \<times> nat) writer" where
  "qpack_stash used src huff scratch =
     (if huff then wbind (wtail used (huffman_decode src)) (\<lambda>n. wret (used, used + n)) scratch
      else if length scratch < used + length src then (None, scratch)
      else (Some (used, used + length src), blit used src scratch))"

definition qpack_stash_field :: "bytes \<Rightarrow> bool \<Rightarrow> bytes \<Rightarrow> bool \<Rightarrow> nat \<Rightarrow> qpack_field_ranges writer" where
  "qpack_stash_field name h_name vl h_value consumed =
     wbind (qpack_stash 0 name h_name)
       (\<lambda>name_r. wbind (qpack_stash (snd name_r) vl h_value)
         (\<lambda>value_r. wret \<lparr> qf_name = name_r, qf_value = value_r, qf_consumed = consumed \<rparr>))"

text \<open>The value part of a literal: \<open>get\<close> of a range whose end is a checked sum. The sums that make up
  \<open>consumed\<close> are checked too; they end inside the block and cannot overflow.\<close>

definition qpack_value_part :: "nat \<Rightarrow> bytes \<Rightarrow> (bool \<times> bytes \<times> nat) option" where
  "qpack_value_part us after =
     (if after = [] then None
      else
        (case qpack_decode_int after 7 of
           None \<Rightarrow> None
         | Some (vlen, n_vlen) \<Rightarrow>
             if 2 ^ us \<le> unat vlen \<or> 2 ^ us \<le> n_vlen + unat vlen then None
             else map_option (\<lambda>raw. (after ! 0 AND 0x80 \<noteq> 0, raw, n_vlen + unat vlen))
                    (bslice_p n_vlen (n_vlen + unat vlen) after)))"

definition qpack_decode_field_into :: "nat \<Rightarrow> bytes \<Rightarrow> qpack_field_ranges writer" where
  "qpack_decode_field_into us block =
     (if block = [] then wfail
      else
        let lead = block ! 0 in
        if lead AND 0x80 \<noteq> 0 then
          if lead AND 0x40 = 0 then wfail
          else
            (case qpack_decode_int block 6 of
               None \<Rightarrow> wfail
             | Some (idx, n) \<Rightarrow>
                 if 2 ^ 32 \<le> unat idx then wfail
                 else (case qpack_static_lookup (ucast idx) of
                         None \<Rightarrow> wfail
                       | Some (name, vl) \<Rightarrow> qpack_stash_field name False vl False n))
        else if lead AND 0x40 \<noteq> 0 then
          if lead AND 0x10 = 0 then wfail
          else
            (case qpack_decode_int block 4 of
               None \<Rightarrow> wfail
             | Some (idx, n_name) \<Rightarrow>
                 if 2 ^ 32 \<le> unat idx then wfail
                 else
                   (case qpack_static_lookup (ucast idx) of
                      None \<Rightarrow> wfail
                    | Some (name, _) \<Rightarrow>
                        (case qpack_value_part us (drop n_name block) of
                           None \<Rightarrow> wfail
                         | Some (h_value, raw, n) \<Rightarrow> qpack_stash_field name False raw h_value (n_name + n))))
        else if lead AND 0x20 \<noteq> 0 then
          (case qpack_decode_int block 3 of
             None \<Rightarrow> wfail
           | Some (nlen, n_nlen) \<Rightarrow>
               if 2 ^ us \<le> unat nlen \<or> 2 ^ us \<le> n_nlen + unat nlen then wfail
               else
                 (case bslice_p n_nlen (n_nlen + unat nlen) block of
                    None \<Rightarrow> wfail
                  | Some raw_name \<Rightarrow>
                      (case qpack_value_part us (drop (n_nlen + unat nlen) block) of
                         None \<Rightarrow> wfail
                       | Some (h_value, raw, n) \<Rightarrow>
                           qpack_stash_field raw_name (lead AND 0x08 \<noteq> 0) raw h_value (n_nlen + unat nlen + n))))
        else wfail)"

datatype qpack_text = QStatic bytes | QLiteral bytes

text \<open>The borrowing decoder narrows with \<open>as\<close>: indices to 32 bits and lengths to \<open>usize\<close>.\<close>

definition qpack_raw_value :: "nat \<Rightarrow> bytes \<Rightarrow> (bytes \<times> nat) option" where
  "qpack_raw_value us after =
     (if after = [] then None
      else if after ! 0 AND 0x80 \<noteq> 0 then None
      else
        (case qpack_decode_int after 7 of
           None \<Rightarrow> None
         | Some (vlen, n_vlen) \<Rightarrow>
             let after2 = drop n_vlen after; vlen = unat vlen mod 2 ^ us in
             if length after2 < vlen then None else Some (take vlen after2, n_vlen + vlen)))"

definition qpack_decode_field :: "nat \<Rightarrow> bytes \<Rightarrow> (qpack_text \<times> qpack_text \<times> nat) option" where
  "qpack_decode_field us block =
     (if block = [] then None
      else
        let lead = block ! 0 in
        if lead AND 0x80 \<noteq> 0 then
          if lead AND 0x40 = 0 then None
          else
            (case qpack_decode_int block 6 of
               None \<Rightarrow> None
             | Some (idx, n) \<Rightarrow>
                 (case qpack_static_lookup (ucast idx) of
                    None \<Rightarrow> None
                  | Some (name, vl) \<Rightarrow> Some (QStatic name, QStatic vl, n)))
        else if lead AND 0x40 \<noteq> 0 then
          if lead AND 0x10 = 0 then None
          else
            (case qpack_decode_int block 4 of
               None \<Rightarrow> None
             | Some (idx, n_name) \<Rightarrow>
                 (case qpack_static_lookup (ucast idx) of
                    None \<Rightarrow> None
                  | Some (name, _) \<Rightarrow>
                      (case qpack_raw_value us (drop n_name block) of
                         None \<Rightarrow> None
                       | Some (vl, n) \<Rightarrow> Some (QStatic name, QLiteral vl, n_name + n))))
        else if lead AND 0x20 \<noteq> 0 then
          if lead AND 0x08 \<noteq> 0 then None
          else
            (case qpack_decode_int block 3 of
               None \<Rightarrow> None
             | Some (nlen, n_nlen) \<Rightarrow>
                 let after = drop n_nlen block; nlen = unat nlen mod 2 ^ us in
                 if length after < nlen then None
                 else
                   (case qpack_raw_value us (drop nlen after) of
                      None \<Rightarrow> None
                    | Some (vl, n) \<Rightarrow> Some (QLiteral (take nlen after), QLiteral vl, n_nlen + nlen + n)))
        else None)"

section \<open>The integers are those of HPACK, to 64 bits\<close>

lemma mask_low_eq: "pb \<le> 8 \<Longrightarrow> mask_low pb = mask pb"
proof -
  assume "pb \<le> 8"
  then consider "pb = 8" | "pb < 8" by linarith
  then show ?thesis
  proof cases
    case 2
    then have "ucast (mask pb :: u16) = (mask pb :: byte)" by (intro bit_word_eqI) (auto simp: bit_ucast_iff bit_mask_iff)
    then show ?thesis using 2 by (simp add: mask_low_def mask_eq_exp_minus_1)
  qed (simp add: mask_low_def mask_eq_exp_minus_1)
qed

lemma ucast_mask_low: "pb \<le> 8 \<Longrightarrow> ucast (mask_low pb) = (push_bit pb 1 - 1 :: u64)"
proof -
  assume "pb \<le> 8"
  then have "ucast (mask pb :: byte) = (mask pb :: u64)" by (intro bit_word_eqI) (auto simp: bit_ucast_iff bit_mask_iff)
  then show ?thesis using \<open>pb \<le> 8\<close> by (simp add: mask_low_eq mask_eq_exp_minus_1)
qed

lemma flags_and_not_mask: "pb \<le> 8 \<Longrightarrow> take_bit pb flags = 0 \<Longrightarrow> flags AND NOT (mask_low pb) = flags"
proof -
  assume p: "pb \<le> 8" "take_bit pb flags = 0"
  have "\<not> bit flags n" if "n < pb" for n
  proof
    assume "bit flags n"
    then have "bit (take_bit pb flags) n" using that by (simp add: bit_take_bit_iff)
    then show False using p(2) by simp
  qed
  then show ?thesis unfolding mask_low_eq [OF p(1)]
    by (intro bit_word_eqI) (auto simp: bit_and_iff bit_not_iff bit_mask_iff)
qed

lemma qpack_encode_hint:
  assumes "1 \<le> pb" and "pb \<le> 8" and "take_bit pb flags = 0"
  shows "if length (hint flags pb (unat v)) \<le> length out
    then qpack_encode_int v pb flags out = (Some (length (hint flags pb (unat v))), blit 0 (hint flags pb (unat v)) out)
    else fst (qpack_encode_int v pb flags out) = None"
proof (cases out)
  case (Cons o1 os)
  have m: "unat (push_bit pb 1 - 1 :: u64) = 2 ^ pb - 1" using max_prefix [OF assms(2), where 'a = 64] by simp
  have uc: "(ucast w :: byte) = of_nat (unat w)" for w :: u64 by (rule ucast_of_unat)
  note f = flags_and_not_mask [OF assms(2,3)]
  show ?thesis
  proof (cases "unat v < 2 ^ pb - 1")
    case True
    then show ?thesis
      unfolding qpack_encode_int_def hint_def Let_def word_less_nat_alt m uc f using Cons by (simp add: blit_def)
  next
    case False
    have s: "unat (v - (push_bit pb 1 - 1)) = unat v - (2 ^ pb - 1)"
      using False m by (subst unat_sub) (simp_all add: word_le_nat_alt)
    let ?o = "out[0 := flags OR of_nat (2 ^ pb - 1)]"
    have b: "blit 1 t ?o = blit 0 ((flags OR of_nat (2 ^ pb - 1)) # t) out" for t
      using Cons by (simp add: blit_def)
    have e: "qpack_encode_int v pb flags out = int_emit_loop (v - (push_bit pb 1 - 1)) 1 ?o"
      unfolding qpack_encode_int_def Let_def word_less_nat_alt m uc f using False Cons by simp
    show ?thesis
      using int_emit_loop_eq [where 'a = 64, of 1 ?o "v - (push_bit pb 1 - 1)"] False Cons b
      unfolding e s by (simp add: hint_def split: if_splits)
  qed
qed (simp add: hint_def qpack_encode_int_def)

lemma qpack_max_chunk:
  assumes "shift < 64" and "c < 128" and "c * 2 ^ shift < 2 ^ 64"
  shows "\<not> drop_bit shift (- 1) AND 0x7F < (of_nat c :: u64)"
proof -
  have "drop_bit shift (- 1) AND 0x7F = take_bit 7 (drop_bit shift (- 1 :: u64))"
    by (simp add: take_bit_eq_mask mask_eq_exp_minus_1)
  then have d: "unat (drop_bit shift (- 1) AND 0x7F :: u64) = (2 ^ 64 - 1) div 2 ^ shift mod 2 ^ 7"
    by (simp only: unat_take_bit unat_drop_bit unsigned_minus_1_eq_mask) (simp add: mask_eq_exp_minus_1)
  have e: "(2 :: nat) ^ 64 = 2 ^ (64 - shift) * 2 ^ shift" using assms(1) by (simp add: power_add [symmetric])
  have q: "((2 :: nat) ^ 64 - 1) div 2 ^ shift = 2 ^ (64 - shift) - 1"
  proof (rule div_nat_eqI)
    have p: "(1 :: nat) \<le> 2 ^ shift" "(1 :: nat) \<le> 2 ^ (64 - shift)" by simp_all
    show "2 ^ shift * (2 ^ (64 - shift) - 1) \<le> (2 :: nat) ^ 64 - 1"
      unfolding e using p by (simp add: diff_mult_distrib2 mult.commute diff_le_mono2)
    show "(2 :: nat) ^ 64 - 1 < 2 ^ shift * Suc (2 ^ (64 - shift) - 1)"
      unfolding e using p by (simp add: mult.commute)
  qed
  have "c < 2 ^ (64 - shift)" using assms(3) unfolding e by simp
  moreover have "((2 :: nat) ^ k - 1) mod 128 = min (2 ^ k - 1) 127" for k
  proof (cases "k < 7")
    case True
    then have "(2 :: nat) ^ k \<le> 2 ^ 7" by (intro power_increasing) simp_all
    then show ?thesis by simp
  next
    case False
    then obtain j where k: "k = 7 + j" using le_Suc_ex by (metis not_less)
    have "(2 :: nat) ^ k - 1 = 127 + 128 * (2 ^ j - 1)"
      unfolding k power_add by (simp add: diff_mult_distrib2)
    then show ?thesis by simp
  qed
  ultimately have "c \<le> unat (drop_bit shift (- 1) AND 0x7F :: u64)" using assms(2) unfolding d q by simp
  moreover have "unat (of_nat c :: u64) = c" using assms(2) by (simp only: unat_of_nat) simp
  ultimately show ?thesis by (simp only: word_less_nat_alt not_less)
qed

lemma qpack_int_step:
  assumes "i < length buf" and "shift < 64" and "unat v + (unat (buf ! i) mod 128) * 2 ^ shift < 2 ^ 64"
  shows "qpack_int_loop buf v shift i =
    (if unat (buf ! i) < 128 then Some (v + of_nat (unat (buf ! i) mod 128 * 2 ^ shift), i + 1)
     else qpack_int_loop buf (v + of_nat (unat (buf ! i) mod 128 * 2 ^ shift)) (shift + 7) (i + 1))"
proof -
  let ?c = "unat (buf ! i) mod 128 * 2 ^ shift"
  have k: "ucast (buf ! i) AND 0x7F = (of_nat (unat (buf ! i) mod 128) :: u64)" by (simp add: ucast_and_0x7F)
  have c: "push_bit shift (of_nat (unat (buf ! i) mod 128)) = (of_nat ?c :: u64)" by (simp add: push_bit_eq_mult)
  have "?c < 2 ^ 64" using assms(3) by linarith
  then have u: "unat (of_nat ?c :: u64) = ?c" by (simp only: unat_of_nat) simp
  have m: "\<not> drop_bit shift (- 1) AND 0x7F < (of_nat (unat (buf ! i) mod 128) :: u64)"
    using \<open>?c < 2 ^ 64\<close> assms(2) by (intro qpack_max_chunk) simp_all
  have g: "(2 ^ 64 \<le> unat v + unat (of_nat ?c :: u64)) = False" "(length buf \<le> i) = False" "(64 \<le> shift) = False"
    using assms u by (simp_all only: eq_False not_le)
  show ?thesis by (subst qpack_int_loop.simps) (simp only: Let_def k c and_0x80 g eq_False [THEN iffD2, OF m] if_False)
qed

lemma qpack_int_loop_tail:
  assumes "1 \<le> i" and "i \<le> 10" and "length pre = i" and "unat v + r * 2 ^ (7 * (i - 1)) < 2 ^ 64"
  shows "qpack_int_loop (pre @ hint_tail r @ rest) v (7 * (i - 1)) i =
    Some (v + of_nat (r * 2 ^ (7 * (i - 1))), i + length (hint_tail r))"
  using assms
proof (induction r arbitrary: i v pre rule: hint_tail.induct)
  case (1 r)
  define s where "s = 7 * (i - 1)"
  have s: "s < 64" "7 * (i + 1 - 1) = s + 7" using "1.prems"(1,2) by (auto simp: s_def)
  show ?case
  proof (cases "r < 128")
    case True
    then have "qpack_int_loop (pre @ hint_tail r @ rest) v s i = Some (v + of_nat (r * 2 ^ s), i + 1)"
      using "1.prems" s by (subst qpack_int_step) (simp_all add: hint_tail.simps [of r] nth_append unat_of_nat s_def)
    then show ?thesis using True by (simp add: s_def hint_tail.simps [of r])
  next
    case False
    let ?b = "of_nat (r mod 128 + 128) :: byte"
    have t: "hint_tail r = ?b # hint_tail (r div 128)" using False by (simp add: hint_tail.simps [of r])
    have "r mod 128 + 128 < 256" by simp
    then have ub: "unat ?b = r mod 128 + 128" by (simp only: unat_of_nat) simp
    have le: "(r mod 128) * 2 ^ s + (r div 128) * 2 ^ (s + 7) = r * 2 ^ s" by (rule digit_split)
    have m: "unat v + (r mod 128) * 2 ^ s < 2 ^ 64" using "1.prems"(4) le by (simp add: s_def)
    let ?v = "v + of_nat (r mod 128 * 2 ^ s)"
    have uv: "unat ?v = unat v + r mod 128 * 2 ^ s"
    proof -
      have "unat (of_nat (r mod 128 * 2 ^ s) :: u64) = r mod 128 * 2 ^ s" using m by (simp only: unat_of_nat) simp
      then show ?thesis using m by (subst unat_word_ariths) simp
    qed
    have i10: "i \<noteq> 10"
    proof
      assume "i = 10"
      then have "r * 2 ^ 63 < 2 ^ 64" using "1.prems"(4) by simp
      then show False using False by simp
    qed
    have "qpack_int_loop (pre @ hint_tail r @ rest) v s i = qpack_int_loop (pre @ hint_tail r @ rest) ?v (s + 7) (i + 1)"
      unfolding t using "1.prems" s m ub by (subst qpack_int_step) (simp_all add: nth_append)
    also have "\<dots> = qpack_int_loop ((pre @ [?b]) @ hint_tail (r div 128) @ rest) ?v (7 * (i + 1 - 1)) (i + 1)"
      unfolding t s(2) by simp
    also have "\<dots> = Some (?v + of_nat (r div 128 * 2 ^ (s + 7)), i + 1 + length (hint_tail (r div 128)))"
      using "1.IH" [OF False, of "i + 1" "pre @ [?b]" ?v] "1.prems" i10 le uv s by (simp add: s_def)
    also have "?v + of_nat (r div 128 * 2 ^ (s + 7)) = v + of_nat (r * 2 ^ s)"
      unfolding le [symmetric] by (simp only: of_nat_add) simp
    finally show ?thesis by (simp add: s_def t)
  qed
qed

lemma qpack_decode_hint:
  assumes "1 \<le> pb" and "pb \<le> 8" and "take_bit pb flags = 0" and "v < 2 ^ 64"
  shows "qpack_decode_int (hint flags pb v @ rest) pb = Some (of_nat v, length (hint flags pb v))"
proof -
  have p: "(2 :: nat) ^ pb \<le> 256" using power_increasing [OF assms(2), of "2 :: nat"] by simp
  have m: "unat (push_bit pb 1 - 1 :: u64) = 2 ^ pb - 1" using max_prefix [OF assms(2), where 'a = 64] by simp
  have lt: "(of_nat x :: u64) < push_bit pb 1 - 1 \<longleftrightarrow> x < 2 ^ pb - 1" if "x < 2 ^ pb" for x
  proof -
    have "x < 2 ^ 64" using that p by simp
    then have "unat (of_nat x :: u64) = x" by (simp only: unat_of_nat) simp
    then show ?thesis by (simp only: word_less_nat_alt m)
  qed
  note dec = qpack_decode_int_def Let_def ucast_mask_low [OF assms(2)]
  show ?thesis
  proof (cases "v < 2 ^ pb - 1")
    case True
    then have l: "v < 2 ^ pb" by simp
    have h: "(hint flags pb v @ rest) ! 0 = flags OR of_nat v" using True by (simp add: hint_def)
    have "(of_nat v :: u64) < push_bit pb 1 - 1" using True lt [OF l] by simp
    moreover have "ucast (flags OR of_nat v :: byte) AND (push_bit pb 1 - 1) = (of_nat v :: u64)"
      using l assms by (intro lead_value) simp_all
    ultimately show ?thesis unfolding dec h using True by (simp add: hint_def)
  next
    case False
    let ?t = "hint_tail (v - (2 ^ pb - 1))" and ?b = "flags OR of_nat (2 ^ pb - 1) :: byte"
    have l: "2 ^ pb - 1 < (2 :: nat) ^ pb" by simp
    have u: "unat (push_bit pb 1 - 1 :: u64) + (v - (2 ^ pb - 1)) * 2 ^ (7 * (1 - 1)) < 2 ^ 64"
      unfolding m using False assms(4) by simp
    have e: "push_bit pb 1 - 1 + of_nat ((v - (2 ^ pb - 1)) * 2 ^ (7 * (1 - 1))) = (of_nat v :: u64)"
      unfolding max_prefix_of_nat using False by (simp only: of_nat_add [symmetric]) simp
    have t: "qpack_int_loop ([?b] @ ?t @ rest) (push_bit pb 1 - 1) (7 * (1 - 1)) 1 = Some (of_nat v, 1 + length ?t)"
      unfolding e [symmetric] by (rule qpack_int_loop_tail [OF _ _ _ u]) simp_all
    have h: "hint flags pb v @ rest = [?b] @ ?t @ rest" using False by (simp add: hint_def)
    have n: "\<not> (of_nat (2 ^ pb - 1) :: u64) < push_bit pb 1 - 1" using lt [OF l] by simp
    have z: "([?b] @ ?t @ rest) ! 0 = ?b" by simp
    have lv: "ucast ?b AND (push_bit pb 1 - 1) = (of_nat (2 ^ pb - 1) :: u64)"
      using l assms by (intro lead_value) simp_all
    show ?thesis
      unfolding h dec z lv
      using n t False by (simp add: max_prefix_of_nat [symmetric] hint_def)
  qed
qed

section \<open>Field lines any encoder may write\<close>

text \<open>The three forms without a dynamic table (RFC 9204 section 4.5); the boolean is the bit that forbids
  indexing.\<close>

datatype qline = QIndexed nat | QNameRef bool nat hstr | QLit bool hstr hstr

definition qname_flags :: "bool \<Rightarrow> hstr \<Rightarrow> byte" where
  "qname_flags nb s = (if nb then 0x30 else 0x20) OR (if hstr_coded s then 0x08 else 0)"

fun qline_wire :: "qline \<Rightarrow> bytes" where
  "qline_wire (QIndexed i) = hint 0xC0 6 i"
| "qline_wire (QNameRef nb i v) = hint (if nb then 0x70 else 0x50) 4 i @ hstr_wire v"
| "qline_wire (QLit nb n v) = hint (qname_flags nb n) 3 (length (hstr_raw n)) @ hstr_raw n @ hstr_wire v"

fun qline_val :: "qline \<Rightarrow> bytes \<times> bytes" where
  "qline_val (QIndexed i) = map_prod ascii ascii (qpack_static ! i)"
| "qline_val (QNameRef nb i v) = (ascii (fst (qpack_static ! i)), hstr_val v)"
| "qline_val (QLit nb n v) = (hstr_val n, hstr_val v)"

fun qstr_ok :: "hstr \<Rightarrow> bool" where
  "qstr_ok (Raw s) = True"
| "qstr_ok (Coded c s) = (\<exists>k < 8. concat (map byte_bits c) = concat (map (\<lambda>w. huff_code (unat w)) s) @ replicate k True)"

fun qline_ok :: "qline \<Rightarrow> bool" where
  "qline_ok (QIndexed i) = (i < QPACK_STATIC_COUNT)"
| "qline_ok (QNameRef nb i v) = (i < QPACK_STATIC_COUNT \<and> qstr_ok v)"
| "qline_ok (QLit nb n v) = (qstr_ok n \<and> qstr_ok v)"

lemma qpack_stash_eq:
  assumes "qstr_ok s" and "used + length (hstr_val s) \<le> length scratch"
  shows "qpack_stash used (hstr_raw s) (hstr_coded s) scratch = (Some (used, used + length (hstr_val s)), blit used (hstr_val s) scratch)"
proof (cases s)
  case (Coded c w)
  from assms Coded obtain k where "k < 8" "concat (map byte_bits c) = concat (map (\<lambda>w. huff_code (unat w)) w) @ replicate k True"
    by auto
  moreover have "length w \<le> length (drop used scratch)" using assms Coded by simp
  ultimately have "huffman_decode c (drop used scratch) = (Some (length w), blit 0 w (drop used scratch))"
    by (subst huffman_decode_iff) blast
  then show ?thesis using assms Coded by (simp add: qpack_stash_def wtail_def wbind_def wret_def blit_def add_ac)
qed (use assms in \<open>simp add: qpack_stash_def\<close>)

lemma qpack_stash_field_eq:
  assumes "qstr_ok n" and "qstr_ok v" and "length (hstr_val n) + length (hstr_val v) \<le> length scratch"
  shows "qpack_stash_field (hstr_raw n) (hstr_coded n) (hstr_raw v) (hstr_coded v) k scratch =
    (Some \<lparr> qf_name = (0, length (hstr_val n)), qf_value = (length (hstr_val n), length (hstr_val n) + length (hstr_val v)),
            qf_consumed = k \<rparr>, blit 0 (hstr_val n @ hstr_val v) scratch)"
  using qpack_stash_eq [of n 0 scratch] qpack_stash_eq [of v "length (hstr_val n)" "blit 0 (hstr_val n) scratch"] assms
    blit_blit_append [of 0 "hstr_val n" "hstr_val v" scratch]
  by (simp add: qpack_stash_field_def wbind_def wret_def)

lemma unat_of_nat_64: "n < 2 ^ 64 \<Longrightarrow> unat (of_nat n :: u64) = n"
  by (simp only: unat_of_nat) simp

lemma hstr_head_lead: "(hstr_wire v @ rest) ! 0 AND 0x80 = (if hstr_coded v then 0x80 else 0)"
  using hint_lead [of 7 "0x80" "if hstr_coded v then 0x80 else 0" "length (hstr_raw v)"]
  by (simp add: hstr_wire_eq hstr_head_def nth_append split: if_splits)

lemma hstr_head_not_Nil [simp]: "hstr_head v \<noteq> []"
  by (simp add: hstr_head_def)

lemma hstr_wire_not_Nil [simp]: "hstr_wire v \<noteq> []"
  by (simp add: hstr_wire_eq)

lemma hstr_decode_int:
  "length (hstr_raw v) < 2 ^ 64 \<Longrightarrow>
     qpack_decode_int (hstr_wire v @ rest) 7 = Some (of_nat (length (hstr_raw v)), length (hstr_head v))"
  using qpack_decode_hint [of 7 "if hstr_coded v then 0x80 else 0" "length (hstr_raw v)" "hstr_raw v @ rest"]
  by (simp add: hstr_wire_eq hstr_head_def)

lemma qpack_value_part_wire:
  assumes "length (hstr_wire v @ rest) < 2 ^ us" and "us \<le> 64"
  shows "qpack_value_part us (hstr_wire v @ rest) = Some (hstr_coded v, hstr_raw v, length (hstr_wire v))"
proof -
  have l: "length (hstr_raw v) < 2 ^ 64"
    using assms(1) power_increasing [OF assms(2), of "2 :: nat"] by (simp add: hstr_wire_eq)
  have "bslice_p (length (hstr_head v)) (length (hstr_head v) + length (hstr_raw v)) (hstr_wire v @ rest) = Some (hstr_raw v)"
    by (simp add: bslice_p_def bslice_def hstr_wire_eq)
  then show ?thesis
    using hstr_decode_int [OF l, of rest] hstr_head_lead [of v rest] assms(1) unat_of_nat_64 [OF l]
    by (simp add: qpack_value_part_def hstr_wire_eq)
qed

lemma qpack_raw_value_wire:
  assumes "length (hstr_wire (Raw v) @ rest) < 2 ^ us" and "us \<le> 64"
  shows "qpack_raw_value us (hstr_wire (Raw v) @ rest) = Some (v, length (hstr_wire (Raw v)))"
proof -
  have l: "length v < 2 ^ 64" using assms(1) power_increasing [OF assms(2), of "2 :: nat"] by simp
  show ?thesis
    using hstr_decode_int [of "Raw v" rest] hstr_head_lead [of "Raw v" rest] assms(1) unat_of_nat_64 [OF l] l
    by (simp add: qpack_raw_value_def hstr_head_def Let_def)
qed

lemma qpack_lookup_of_nat:
  assumes "i < QPACK_STATIC_COUNT"
  shows "qpack_static_lookup (ucast (of_nat i :: u64)) = Some (map_prod ascii ascii (qpack_static ! i))"
    and "qpack_static_lookup (of_nat i) = Some (map_prod ascii ascii (qpack_static ! i))"
    and "unat (of_nat i :: u64) = i" and "unat (of_nat i :: u32) = i"
proof -
  show u: "unat (of_nat i :: u64) = i" "unat (of_nat i :: u32) = i" using assms by (simp_all only: unat_of_nat) simp_all
  have "ucast (of_nat i :: u64) = (of_nat i :: u32)" by (subst ucast_of_unat) (simp add: u)
  then show "qpack_static_lookup (ucast (of_nat i :: u64)) = Some (map_prod ascii ascii (qpack_static ! i))"
    and "qpack_static_lookup (of_nat i) = Some (map_prod ascii ascii (qpack_static ! i))"
    using assms u by (simp_all add: qpack_static_lookup_def)
qed

lemma qpack_into_wire:
  assumes "qline_ok q" and "length (qline_wire q @ rest) < 2 ^ us" and "us \<le> 64"
    and "length (fst (qline_val q)) + length (snd (qline_val q)) \<le> length scratch"
  shows "qpack_decode_field_into us (qline_wire q @ rest) scratch =
    (Some \<lparr> qf_name = (0, length (fst (qline_val q))),
            qf_value = (length (fst (qline_val q)), length (fst (qline_val q)) + length (snd (qline_val q))),
            qf_consumed = length (qline_wire q) \<rparr>, blit 0 (fst (qline_val q) @ snd (qline_val q)) scratch)"
proof (cases q)
  case (QIndexed i)
  then have i: "i < QPACK_STATIC_COUNT" "i < 2 ^ 64" using assms(1) by simp_all
  have b: "(qline_wire q @ rest) ! 0 AND 0x80 = 0x80" "(qline_wire q @ rest) ! 0 AND 0x40 = 0x40"
    using hint_lead [of 6 _ "0xC0" i] QIndexed by (simp_all add: nth_append)
  show ?thesis
    using b QIndexed qpack_decode_hint [of 6 "0xC0" i rest] i qpack_lookup_of_nat [OF i(1)] assms(4)
      qpack_stash_field_eq [of "Raw (ascii (fst (qpack_static ! i)))" "Raw (ascii (snd (qpack_static ! i)))" scratch "length (qline_wire q)"]
    by (simp add: qpack_decode_field_into_def Let_def map_prod_def case_prod_beta)
next
  case (QNameRef nb i v)
  let ?f = "if nb then 0x70 else (0x50 :: byte)"
  have i: "i < QPACK_STATIC_COUNT" "i < 2 ^ 64" using assms(1) QNameRef by simp_all
  have f: "take_bit 4 ?f = 0" by simp
  have b: "(qline_wire q @ rest) ! 0 AND 0x80 = 0" "(qline_wire q @ rest) ! 0 AND 0x40 = 0x40" "(qline_wire q @ rest) ! 0 AND 0x10 = 0x10"
    using hint_lead [of 4 _ ?f i] QNameRef by (simp_all add: nth_append)
  have d: "qpack_decode_int (qline_wire q @ rest) 4 = Some (of_nat i, length (hint ?f 4 i))"
    using qpack_decode_hint [of 4 ?f i "hstr_wire v @ rest"] QNameRef i f by simp
  have dr: "drop (length (hint ?f 4 i)) (qline_wire q @ rest) = hstr_wire v @ rest" using QNameRef by simp
  have vp: "qpack_value_part us (hstr_wire v @ rest) = Some (hstr_coded v, hstr_raw v, length (hstr_wire v))"
    using assms(2,3) QNameRef by (intro qpack_value_part_wire) simp_all
  show ?thesis
    using b d dr vp i qpack_lookup_of_nat [OF i(1)] assms(1,4) QNameRef
      qpack_stash_field_eq [of "Raw (ascii (fst (qpack_static ! i)))" v scratch "length (qline_wire q)"]
    by (simp add: qpack_decode_field_into_def Let_def map_prod_def case_prod_beta)
next
  case (QLit nb n v)
  let ?f = "qname_flags nb n" and ?h = "hint (qname_flags nb n) 3 (length (hstr_raw n))"
  have f: "take_bit 3 ?f = 0" "?f AND 0x80 = 0" "?f AND 0x40 = 0" "?f AND 0x20 = 0x20" "?f AND 0x08 = (if hstr_coded n then 0x08 else 0)"
    by (simp_all add: qname_flags_def)
  have b: "(qline_wire q @ rest) ! 0 AND hm = ?f AND hm" if "take_bit 3 hm = 0" for hm
    using hint_lead [of 3 hm ?f "length (hstr_raw n)"] QLit that by (simp add: nth_append)
  have l: "length (hstr_raw n) < 2 ^ 64"
    using assms(2) QLit power_increasing [OF assms(3), of "2 :: nat"] by simp
  have d: "qpack_decode_int (qline_wire q @ rest) 3 = Some (of_nat (length (hstr_raw n)), length ?h)"
    using qpack_decode_hint [of 3 ?f "length (hstr_raw n)" "hstr_raw n @ hstr_wire v @ rest"] QLit l f by simp
  have dr: "drop (length ?h + length (hstr_raw n)) (qline_wire q @ rest) = hstr_wire v @ rest" using QLit by simp
  have sl: "bslice_p (length ?h) (length ?h + length (hstr_raw n)) (qline_wire q @ rest) = Some (hstr_raw n)"
    using QLit by (simp add: bslice_p_def bslice_def)
  have vp: "qpack_value_part us (hstr_wire v @ rest) = Some (hstr_coded v, hstr_raw v, length (hstr_wire v))"
    using assms(2,3) QLit by (intro qpack_value_part_wire) simp_all
  have n: "qline_wire q @ rest \<noteq> []" using QLit by simp
  have ls: "length ?h + length (hstr_raw n) < 2 ^ us" "length (hstr_raw n) < 2 ^ us" using assms(2) QLit by simp_all
  have "qpack_decode_field_into us (qline_wire q @ rest) scratch =
      qpack_stash_field (hstr_raw n) (hstr_coded n) (hstr_raw v) (hstr_coded v) (length (qline_wire q)) scratch"
    unfolding qpack_decode_field_into_def Let_def b [of "0x80", simplified] b [of "0x40", simplified] b [of "0x20", simplified] b [of "0x08", simplified]
    using n f d dr sl vp ls by (simp add: unat_of_nat_64 [OF l] QLit add.assoc del: qline_wire.simps) (simp add: QLit)
  then show ?thesis using qpack_stash_field_eq [of n v scratch] assms(1,4) QLit by simp
qed

fun qtext_bytes :: "qpack_text \<Rightarrow> bytes" where
  "qtext_bytes (QStatic b) = b"
| "qtext_bytes (QLiteral b) = b"

fun qline_raw :: "qline \<Rightarrow> bool" where
  "qline_raw (QIndexed i) = True"
| "qline_raw (QNameRef nb i v) = (\<not> hstr_coded v)"
| "qline_raw (QLit nb n v) = (\<not> hstr_coded n \<and> \<not> hstr_coded v)"

lemma hstr_raw_Raw: "\<not> hstr_coded v \<Longrightarrow> v = Raw (hstr_val v)"
  by (cases v) simp_all

lemma qpack_borrow_wire:
  assumes "qline_ok q" and "qline_raw q" and "length (qline_wire q @ rest) < 2 ^ us" and "us \<le> 64"
  shows "\<exists>tn tv. qpack_decode_field us (qline_wire q @ rest) = Some (tn, tv, length (qline_wire q)) \<and>
    (qtext_bytes tn, qtext_bytes tv) = qline_val q"
proof (cases q)
  case (QIndexed i)
  then have i: "i < QPACK_STATIC_COUNT" "i < 2 ^ 64" using assms(1) by simp_all
  have b: "(qline_wire q @ rest) ! 0 AND 0x80 = 0x80" "(qline_wire q @ rest) ! 0 AND 0x40 = 0x40"
    using hint_lead [of 6 _ "0xC0" i] QIndexed by (simp_all add: nth_append)
  show ?thesis
    using b QIndexed qpack_decode_hint [of 6 "0xC0" i rest] i qpack_lookup_of_nat [OF i(1)]
    by (simp add: qpack_decode_field_def Let_def map_prod_def case_prod_beta)
next
  case (QNameRef nb i v0)
  then obtain v where v: "v0 = Raw v" using assms(2) hstr_raw_Raw by auto
  let ?f = "if nb then 0x70 else (0x50 :: byte)"
  have i: "i < QPACK_STATIC_COUNT" "i < 2 ^ 64" using assms(1) QNameRef by simp_all
  have f: "take_bit 4 ?f = 0" by simp
  have b: "(qline_wire q @ rest) ! 0 AND 0x80 = 0" "(qline_wire q @ rest) ! 0 AND 0x40 = 0x40" "(qline_wire q @ rest) ! 0 AND 0x10 = 0x10"
    using hint_lead [of 4 _ ?f i] QNameRef by (simp_all add: nth_append)
  have w: "qline_wire q @ rest = hint ?f 4 i @ hstr_wire (Raw v) @ rest" using QNameRef v by simp
  have d: "qpack_decode_int (qline_wire q @ rest) 4 = Some (of_nat i, length (hint ?f 4 i))"
    unfolding w using qpack_decode_hint [of 4 ?f i "hstr_wire (Raw v) @ rest"] i f by simp
  have dr: "drop (length (hint ?f 4 i)) (qline_wire q @ rest) = hstr_wire (Raw v) @ rest" unfolding w by simp
  have vp: "qpack_raw_value us (hstr_wire (Raw v) @ rest) = Some (v, length (hstr_wire (Raw v)))"
    using assms(3,4) unfolding w by (intro qpack_raw_value_wire) simp_all
  have n: "qline_wire q @ rest \<noteq> []" unfolding w by simp
  have "qpack_decode_field us (qline_wire q @ rest) = Some (QStatic (ascii (fst (qpack_static ! i))), QLiteral v, length (qline_wire q))"
    unfolding qpack_decode_field_def Let_def using n b d dr vp qpack_lookup_of_nat [OF i(1)] QNameRef v
    by (simp add: map_prod_def case_prod_beta del: qline_wire.simps hstr_wire.simps) simp
  then show ?thesis using QNameRef v by simp
next
  case (QLit nb n0 v0)
  then obtain n v where nv: "n0 = Raw n" "v0 = Raw v" using assms(2) hstr_raw_Raw by auto
  let ?f = "qname_flags nb (Raw n)" and ?h = "hint (qname_flags nb (Raw n)) 3 (length n)"
  have f: "take_bit 3 ?f = 0" "?f AND 0x80 = 0" "?f AND 0x40 = 0" "?f AND 0x20 = 0x20" "?f AND 0x08 = 0"
    by (simp_all add: qname_flags_def)
  have w: "qline_wire q @ rest = ?h @ n @ hstr_wire (Raw v) @ rest" using QLit nv by simp
  have b: "(qline_wire q @ rest) ! 0 AND hm = ?f AND hm" if "take_bit 3 hm = 0" for hm
    using hint_lead [of 3 hm ?f "length n"] that unfolding w by (simp add: nth_append)
  have l: "length n < 2 ^ us" "length n < 2 ^ 64"
    using assms(3) power_increasing [OF assms(4), of "2 :: nat"] unfolding w by simp_all
  have d: "qpack_decode_int (qline_wire q @ rest) 3 = Some (of_nat (length n), length ?h)"
    using qpack_decode_hint [of 3 ?f "length n" "n @ hstr_wire (Raw v) @ rest"] l f unfolding w by simp
  have dr: "drop (length ?h) (qline_wire q @ rest) = n @ hstr_wire (Raw v) @ rest" unfolding w by simp
  have vp: "qpack_raw_value us (hstr_wire (Raw v) @ rest) = Some (v, length (hstr_wire (Raw v)))"
    using assms(3,4) unfolding w by (intro qpack_raw_value_wire) simp_all
  have ne: "qline_wire q @ rest \<noteq> []" unfolding w by simp
  have lw: "length ?h + length n + length (hstr_wire (Raw v)) = length (qline_wire q)" using QLit nv by simp
  have "qpack_decode_field us (qline_wire q @ rest) = Some (QLiteral n, QLiteral v, length (qline_wire q))"
    unfolding qpack_decode_field_def Let_def b [of "0x80", simplified] b [of "0x40", simplified] b [of "0x20", simplified] b [of "0x08", simplified]
    using ne f d dr vp l lw by (simp add: unat_of_nat_64 del: qline_wire.simps hstr_wire.simps)
  then show ?thesis using QLit nv by simp
qed

section \<open>The encoder writes such a line\<close>

text \<open>A writer that puts exactly \<open>bs\<close> at \<open>k\<close> and answers its end, or fails for lack of room.\<close>

definition emits :: "nat \<Rightarrow> nat writer \<Rightarrow> bytes \<Rightarrow> bool" where
  "emits k w bs \<longleftrightarrow> (\<forall>out. k \<le> length out \<longrightarrow>
     (if k + length bs \<le> length out then w out = (Some (k + length bs), blit k bs out) else fst (w out) = None))"

lemma emits_wbind:
  assumes "emits k m b" and "emits (k + length b) (f (k + length b)) c"
  shows "emits k (wbind m f) (b @ c)"
  unfolding emits_def
proof (intro allI impI)
  fix out :: bytes
  assume k: "k \<le> length out"
  show "if k + length (b @ c) \<le> length out then wbind m f out = (Some (k + length (b @ c)), blit k (b @ c) out)
      else fst (wbind m f out) = None"
  proof (cases "k + length b \<le> length out")
    case True
    have m: "m out = (Some (k + length b), blit k b out)" using assms(1) True k by (simp add: emits_def)
    have "if k + length b + length c \<le> length (blit k b out)
        then f (k + length b) (blit k b out) = (Some (k + length b + length c), blit (k + length b) c (blit k b out))
        else fst (f (k + length b) (blit k b out)) = None"
      using assms(2) True by (simp add: emits_def)
    then show ?thesis using m True blit_blit_append [of k b c out] by (auto simp: wbind_def add.assoc split: if_splits)
  next
    case False
    then have "fst (m out) = None" using assms(1) k by (simp add: emits_def)
    then show ?thesis using wbind_fst_None [of m out f] False by simp
  qed
qed

lemma emits_int: "1 \<le> pb \<Longrightarrow> pb \<le> 8 \<Longrightarrow> take_bit pb flags = 0 \<Longrightarrow> emits 0 (qpack_encode_int v pb flags) (hint flags pb (unat v))"
  using qpack_encode_hint [of pb flags v] by (simp add: emits_def)

lemma emits_copy: "emits k (qpack_copy v k) v"
  by (simp add: emits_def qpack_copy_def)

lemma emits_value:
  assumes "length v < 2 ^ 64"
  shows "emits k (qpack_put_value v k) (hstr_wire (Raw v))"
proof -
  let ?h = "hint 0 7 (length v)"
  have e: "if length ?h \<le> length out then qpack_encode_int (of_nat (length v)) 7 0 out = (Some (length ?h), blit 0 ?h out)
      else fst (qpack_encode_int (of_nat (length v)) 7 0 out) = None" for out
    using qpack_encode_hint [of 7 0 "of_nat (length v)" out] unat_of_nat_64 [OF assms] by simp
  have "emits k (wbind (wtail k (qpack_encode_int (of_nat (length v)) 7 0)) (\<lambda>n. wret (k + n))) ?h"
    unfolding emits_def
  proof (intro allI impI)
    fix out :: bytes
    assume "k \<le> length out"
    then show "if k + length ?h \<le> length out
        then wbind (wtail k (qpack_encode_int (of_nat (length v)) 7 0)) (\<lambda>n. wret (k + n)) out = (Some (k + length ?h), blit k ?h out)
        else fst (wbind (wtail k (qpack_encode_int (of_nat (length v)) 7 0)) (\<lambda>n. wret (k + n)) out) = None"
      using e [of "drop k out"]
      by (cases "qpack_encode_int (of_nat (length v)) 7 0 (drop k out)")
        (auto simp: wtail_def wbind_def wret_def blit_def add_ac split: if_splits)
  qed
  from emits_wbind [OF this, where f = "qpack_copy v", OF emits_copy]
  have "emits k (wbind (wbind (wtail k (qpack_encode_int (of_nat (length v)) 7 0)) (\<lambda>n. wret (k + n))) (qpack_copy v)) (?h @ v)" .
  moreover have "wbind (wbind (wtail k (qpack_encode_int (of_nat (length v)) 7 0)) (\<lambda>n. wret (k + n))) (qpack_copy v) = qpack_put_value v k"
  proof
    have "wbind (wret a) f = f a" for a and f :: "nat \<Rightarrow> nat writer" by (rule ext) simp
    then show "wbind (wbind (wtail k (qpack_encode_int (of_nat (length v)) 7 0)) (\<lambda>n. wret (k + n))) (qpack_copy v) out = qpack_put_value v k out" for out
      by (simp add: qpack_put_value_def wbind_assoc)
  qed
  ultimately show ?thesis by simp
qed

lemma qpack_pair_loop_found:
  "qpack_pair_loop name vl i = Some j \<Longrightarrow> j < QPACK_STATIC_COUNT \<and> map_prod ascii ascii (qpack_static ! j) = (name, vl)"
proof (induction name vl i rule: qpack_pair_loop.induct)
  case (1 name vl i)
  show ?case
  proof (cases "i < QPACK_STATIC_COUNT")
    case True
    note lk = qpack_lookup_of_nat(2) [OF True]
    obtain n v where e: "map_prod ascii ascii (qpack_static ! i) = (n, v)" by (cases "map_prod ascii ascii (qpack_static ! i)")
    show ?thesis
    proof (cases "n = name \<and> v = vl")
      case hit: True
      then show ?thesis using "1.prems" True e lk by (simp add: qpack_pair_loop.simps [of name vl i])
    next
      case False
      then have "qpack_pair_loop name vl (i + 1) = Some j"
        using "1.prems" True e lk by (simp add: qpack_pair_loop.simps [of name vl i] split: if_splits)
      then show ?thesis using "1.IH"(2) [OF True lk [unfolded e] refl False] by simp
    qed
  qed (use "1.prems" in \<open>simp add: qpack_pair_loop.simps [of name vl i]\<close>)
qed

lemma qpack_name_loop_found:
  "qpack_name_loop name i = Some j \<Longrightarrow> j < QPACK_STATIC_COUNT \<and> ascii (fst (qpack_static ! j)) = name"
proof (induction name i rule: qpack_name_loop.induct)
  case (1 name i)
  show ?case
  proof (cases "i < QPACK_STATIC_COUNT")
    case True
    note lk = qpack_lookup_of_nat(2) [OF True]
    obtain n v where e: "map_prod ascii ascii (qpack_static ! i) = (n, v)" by (cases "map_prod ascii ascii (qpack_static ! i)")
    then have n: "ascii (fst (qpack_static ! i)) = n" by (cases "qpack_static ! i") simp
    show ?thesis
    proof (cases "n = name")
      case hit: True
      then show ?thesis using "1.prems" True e lk n by (simp add: qpack_name_loop.simps [of name i])
    next
      case False
      then have "qpack_name_loop name (i + 1) = Some j"
        using "1.prems" True e lk by (simp add: qpack_name_loop.simps [of name i])
      then show ?thesis using "1.IH"(2) [OF True lk [unfolded e] refl False] by simp
    qed
  qed (use "1.prems" in \<open>simp add: qpack_name_loop.simps [of name i]\<close>)
qed

definition field_line :: "bytes \<Rightarrow> bytes \<Rightarrow> qline" where
  "field_line name vl =
     (case qpack_pair_loop name vl 0 of
        Some i \<Rightarrow> QIndexed i
      | None \<Rightarrow> (case qpack_name_loop name 0 of
                  Some i \<Rightarrow> QNameRef False i (Raw vl)
                | None \<Rightarrow> QLit False (Raw name) (Raw vl)))"

lemma field_line_ok:
  "qline_ok (field_line name vl)" "qline_raw (field_line name vl)" "qline_val (field_line name vl) = (name, vl)"
  using qpack_pair_loop_found [of name vl 0] qpack_name_loop_found [of name 0]
  by (auto simp: field_line_def split: option.splits)

lemma emits_field:
  assumes "length name < 2 ^ 64" and "length vl < 2 ^ 64"
  shows "emits 0 (qpack_encode_field name vl) (qline_wire (field_line name vl))"
proof -
  have u: "unat (ucast (of_nat i :: u32) :: u64) = i" if "i < QPACK_STATIC_COUNT" for i
    using qpack_lookup_of_nat(4) [OF that] that by (subst ucast_of_unat) (simp add: unat_of_nat)
  consider (pair) i where "qpack_pair_loop name vl 0 = Some i" | (name) i where "qpack_pair_loop name vl 0 = None" "qpack_name_loop name 0 = Some i"
    | (literal) "qpack_pair_loop name vl 0 = None" "qpack_name_loop name 0 = None" by blast
  then show ?thesis
  proof cases
    case pair
    then have "i < QPACK_STATIC_COUNT" using qpack_pair_loop_found by blast
    then show ?thesis
      using emits_int [of 6 "0xC0" "ucast (of_nat i :: u32)"] pair u
      by (simp add: qpack_encode_field_def qpack_static_index_for_pair_def field_line_def)
  next
    case name
    then have "i < QPACK_STATIC_COUNT" using qpack_name_loop_found by blast
    then show ?thesis
      using emits_wbind [OF emits_int [of 4 "0x50" "ucast (of_nat i :: u32)"], where f = "qpack_put_value vl", OF _ _ _ emits_value [OF assms(2)]] name u
      by (simp add: qpack_encode_field_def qpack_static_index_for_pair_def qpack_static_index_for_name_def field_line_def)
  next
    case literal
    have h: "emits 0 (qpack_encode_int (of_nat (length name)) 3 0x20) (hint 0x20 3 (length name))"
      using emits_int [of 3 "0x20" "of_nat (length name)"] unat_of_nat_64 [OF assms(1)] by simp
    have c: "emits k (wbind (qpack_copy name k) (qpack_put_value vl)) (name @ hstr_wire (Raw vl))" for k
      by (rule emits_wbind [where f = "qpack_put_value vl", OF emits_copy emits_value [OF assms(2)]])
    show ?thesis
      using literal emits_wbind [OF h, where f = "\<lambda>pos. wbind (qpack_copy name pos) (qpack_put_value vl)", OF c]
      by (simp add: qpack_encode_field_def qpack_static_index_for_pair_def qpack_static_index_for_name_def
          field_line_def qname_flags_def)
  qed
qed

section \<open>Properties\<close>

lemma qpack_name_misses:
  assumes "\<forall>e \<in> set qpack_static. ascii (fst e) \<noteq> name"
  shows "qpack_name_loop name 0 = None" "qpack_pair_loop name vl 0 = None"
proof -
  have l: "length qpack_static = 99" by (simp add: qpack_static_def)
  show "qpack_name_loop name 0 = None"
  proof (cases "qpack_name_loop name 0")
    case (Some j)
    then show ?thesis using qpack_name_loop_found [OF Some] assms l by (metis nth_mem)
  qed simp
  show "qpack_pair_loop name vl 0 = None"
  proof (cases "qpack_pair_loop name vl 0")
    case (Some j)
    then have "j < 99" "ascii (fst (qpack_static ! j)) = name"
      using qpack_pair_loop_found [OF Some] by (cases "qpack_static ! j", simp)+
    then show ?thesis using assms l by (metis nth_mem)
  qed simp
qed

text \<open>C21. The HTTP/3 field decoder reads every conforming field line. For each of the three forms that do not
  need a dynamic table, with Huffman-coded or raw strings and whatever bytes follow, it puts the name and
  the value the line stands for at the front of the scratch buffer, reports their ranges, and consumes
  exactly the line, provided the scratch buffer holds both.\<close>

theorem qpack_decodes_conforming:
  assumes "qline_ok q" and "length (qline_wire q @ rest) < 2 ^ us" and "us \<le> 64"
    and "length (fst (qline_val q)) + length (snd (qline_val q)) \<le> length scratch"
  shows "qpack_decode_field_into us (qline_wire q @ rest) scratch =
    (Some \<lparr> qf_name = (0, length (fst (qline_val q))),
            qf_value = (length (fst (qline_val q)), length (fst (qline_val q)) + length (snd (qline_val q))),
            qf_consumed = length (qline_wire q) \<rparr>, blit 0 (fst (qline_val q) @ snd (qline_val q)) scratch)"
  by (rule qpack_into_wire [OF assms])

theorem qpack_decodes_conforming_witness:
  "qpack_decode_field_into 64 [0x29, 0x1f, 1, 98, 7] [0, 0, 0] =
     (Some \<lparr> qf_name = (0, 1), qf_value = (1, 2), qf_consumed = 4 \<rparr>, [97, 98, 0])"
proof -
  let ?q = "QLit False (Coded [0x1f] [97]) (Raw [98])"
  have c: "HUFF ! 97 = (0x3, 5)" by (simp add: HUFF_def)
  have "concat (map byte_bits [0x1f]) = concat (map (\<lambda>w. huff_code (unat w)) [97 :: byte]) @ replicate 3 True"
    by (simp add: byte_bits_def huff_code_def entry_bits_def c msb_bits_numeral replicate_numeral)
  then have ok: "qline_ok ?q" by auto
  have w: "qline_wire ?q @ [7] = [0x29, 0x1f, 1, 98, 7]" by (simp add: hint_def qname_flags_def)
  show ?thesis using qpack_decodes_conforming [OF ok, of "[7]" 64 "[0, 0, 0]"] unfolding w
    by (simp add: hint_def qname_flags_def blit_def)
qed

text \<open>What the QPACK encoder writes, both decoders read back. Whichever of the three representations
  the encoder picks, when it succeeds the bytes it wrote decode, whatever follows them, to the same name
  and value and to the length written: by the borrowing decoder and by the one into scratch.\<close>

theorem qpack_encode_decode:
  assumes "qpack_encode_field name vl out = (Some n, out')" and "length name < 2 ^ 64" and "length vl < 2 ^ 64"
    and "length (take n out' @ rest) < 2 ^ us" and "us \<le> 64" and "length name + length vl \<le> length scratch"
  shows "(\<exists>tn tv. qpack_decode_field us (take n out' @ rest) = Some (tn, tv, n) \<and> qtext_bytes tn = name \<and> qtext_bytes tv = vl) \<and>
    qpack_decode_field_into us (take n out' @ rest) scratch =
      (Some \<lparr> qf_name = (0, length name), qf_value = (length name, length name + length vl), qf_consumed = n \<rparr>,
       blit 0 (name @ vl) scratch)"
proof -
  let ?q = "field_line name vl"
  from emits_field [OF assms(2,3)] assms(1)
  have "length (qline_wire ?q) \<le> length out" "n = length (qline_wire ?q)" "out' = blit 0 (qline_wire ?q) out"
    unfolding emits_def by (auto dest!: spec [of _ out] split: if_splits)
  then have t: "take n out' = qline_wire ?q" and n: "n = length (qline_wire ?q)" by (simp_all add: blit_def)
  note ok = field_line_ok [of name vl]
  have l: "length (qline_wire ?q @ rest) < 2 ^ us" using assms(4) t by simp
  show ?thesis
    using qpack_borrow_wire [OF ok(1,2) l assms(5)] qpack_into_wire [OF ok(1) l assms(5)] assms(6) ok(3)
    unfolding t by (auto simp: n [symmetric])
qed

theorem qpack_encode_decode_witness:
  "qpack_encode_field [120] [121] (replicate 8 0) = (Some 4, [0x21, 120, 1, 121, 0, 0, 0, 0]) \<and>
   qpack_decode_field_into 64 [0x21, 120, 1, 121] [0, 0] =
     (Some \<lparr> qf_name = (0, 1), qf_value = (1, 2), qf_consumed = 4 \<rparr>, [120, 121])"
proof -
  have m: "\<forall>e \<in> set qpack_static. ascii (fst e) \<noteq> [120]" by (simp add: qpack_static_def ascii_def)
  note p = qpack_name_misses [OF m]
  have f: "field_line [120] [121] = QLit False (Raw [120]) (Raw [121])" using p by (simp add: field_line_def)
  have w: "qline_wire (field_line [120] [121]) = [0x21, 120, 1, 121]" unfolding f by (simp add: hint_def qname_flags_def)
  have e: "qpack_encode_field [120] [121] (replicate 8 0) = (Some 4, [0x21, 120, 1, 121, 0, 0, 0, 0])"
    using emits_field [of "[120]" "[121]"] unfolding w emits_def
    by (auto simp: blit_def replicate_numeral dest!: spec [of _ "replicate 8 0"])
  show ?thesis using qpack_encode_decode [OF e, of "[]" 64 "[0, 0]"] e by (simp add: blit_def)
qed

text \<open>The borrowing decoder narrows a 64-bit index with \<open>as u32\<close>, so an index past the table by a multiple
  of \<open>2 ^ 32\<close> names an entry; the other decoder refuses it.\<close>

theorem qpack_borrowing_decoder_truncates_index:
  "qpack_decode_field 64 (hint 0xC0 6 (2 ^ 32 + 17)) = Some (QStatic (ascii '':method''), QStatic (ascii ''GET''), 6) \<and>
   fst (qpack_decode_field_into 64 (hint 0xC0 6 (2 ^ 32 + 17)) scratch) = None"
proof -
  let ?b = "hint 0xC0 6 (2 ^ 32 + 17)"
  have d: "qpack_decode_int ?b 6 = Some (of_nat (2 ^ 32 + 17), length ?b)" using qpack_decode_hint [of 6 "0xC0" "2 ^ 32 + 17" "[]"] by simp
  have b: "?b ! 0 AND 0x80 = 0x80" "?b ! 0 AND 0x40 = 0x40" using hint_lead [of 6 _ "0xC0" "2 ^ 32 + 17"] by simp_all
  have n: "length ?b = 6" by (simp add: hint_def hint_tail.simps)
  have l: "qpack_static_lookup (ucast (of_nat (2 ^ 32 + 17) :: u64)) = Some (ascii '':method'', ascii ''GET'')"
    by (simp add: qpack_static_lookup_def qpack_static_def)
  show ?thesis
    unfolding qpack_decode_field_def qpack_decode_field_into_def Let_def d
    using b n l by (simp add: wfail_def)
qed

end
