(* ===== verification/H1_Body.thy ===== *)
theory H1_Body
  imports Wave_Prelude "HOL-Library.Sublist"
begin

text \<open>
  HTTP/1 message bodies (the body framing part of \<open>modules/foundation/http/wire/h1.rs\<close>): the
  chunk-size line and the incremental decoder of length-delimited and chunked bodies. The decoder is
  called again and again with whatever input has arrived and whatever room the output has; it is shown
  to yield the body of a well-formed message however the calls cut it. Sizes are \<open>u64\<close>, here naturals
  with the checked operations written out.
\<close>

unbundle bit_operations_syntax

section \<open>Chunk-size lines\<close>

abbreviation (input) MAX_CHUNK_LINE :: nat where "MAX_CHUNK_LINE \<equiv> 64"

datatype chunk_header = ChunkOk nat nat | ChunkNeed | ChunkBad

definition chunk_digit :: "byte \<Rightarrow> nat option" where
  "chunk_digit c =
     (if 48 \<le> c \<and> c \<le> 57 then Some (unat (c - 48))
      else if 97 \<le> c \<and> c \<le> 102 then Some (unat (c - 97 + 10))
      else if 65 \<le> c \<and> c \<le> 70 then Some (unat (c - 65 + 10))
      else None)"

text \<open>The digits: where they end, their value and their number; \<^const>\<open>None\<close> when the value overflows.\<close>

function chunk_hex_loop :: "bytes \<Rightarrow> nat \<Rightarrow> nat \<Rightarrow> nat \<Rightarrow> nat \<Rightarrow> (nat \<times> nat \<times> nat) option" where
  "chunk_hex_loop buf cap i sz digits =
     (if i < cap then
        (case chunk_digit (buf ! i) of
           None \<Rightarrow> Some (i, sz, digits)
         | Some d \<Rightarrow>
             if 2 ^ 64 \<le> sz * 16 + d then None
             else chunk_hex_loop buf cap (i + 1) (sz * 16 + d) (digits + 1))
      else Some (i, sz, digits))"
  by pat_completeness auto
termination by (relation "measure (\<lambda>(buf, cap, i, sz, digits). cap - i)") auto

declare chunk_hex_loop.simps [simp del]

definition parse_chunk_header :: "bytes \<Rightarrow> chunk_header" where
  "parse_chunk_header buf =
     (let cap = min (length buf) MAX_CHUNK_LINE in
      case chunk_hex_loop buf cap 0 0 0 of
        None \<Rightarrow> ChunkBad
      | Some (i, sz, digits) \<Rightarrow>
          if digits = 0 then (if buf = [] then ChunkNeed else ChunkBad)
          else
            let i = scan_while (\<lambda>b. b \<noteq> 13) (take cap buf) i in
            if cap \<le> i then (if length buf \<le> MAX_CHUNK_LINE then ChunkNeed else ChunkBad)
            else if length buf \<le> i + 1 then ChunkNeed
            else if buf ! (i + 1) \<noteq> 10 then ChunkBad
            else ChunkOk sz (i + 2))"

section \<open>The decoder\<close>

datatype chunk_state = CsSize | CsData | CsDataEnd | CsTrailer

datatype body_framing = FramingNone | FramingLength nat | FramingChunked | FramingInvalid

record body_decoder =
  bd_chunked :: bool
  bd_state :: chunk_state
  bd_remaining :: nat
  bd_done :: bool

record decoded =
  dc_consumed :: nat
  dc_produced :: nat
  dc_bad :: bool

definition body_decoder_new :: "body_framing \<Rightarrow> body_decoder option" where
  "body_decoder_new framing =
     (case framing of
        FramingLength n \<Rightarrow>
          if 0 < n then Some \<lparr> bd_chunked = False, bd_state = CsData, bd_remaining = n, bd_done = False \<rparr> else None
      | FramingChunked \<Rightarrow> Some \<lparr> bd_chunked = True, bd_state = CsSize, bd_remaining = 0, bd_done = False \<rparr>
      | _ \<Rightarrow> None)"

text \<open>\<open>rest.windows(2).position(|w| w == b"\r\n")\<close>.\<close>

fun crlf_position :: "bytes \<Rightarrow> nat option" where
  "crlf_position (a # b # bs) =
     (if a = 13 \<and> b = 10 then Some 0 else map_option Suc (crlf_position (b # bs)))"
| "crlf_position _ = None"

lemma parse_chunk_header_consumed: "parse_chunk_header buf = ChunkOk sz n \<Longrightarrow> 0 < n \<and> n \<le> length buf"
  by (auto simp: parse_chunk_header_def Let_def split: if_splits option.splits)

lemma crlf_position_range: "crlf_position bs = Some e \<Longrightarrow> e + 2 \<le> length bs"
  by (induction bs arbitrary: e rule: crlf_position.induct) (auto split: if_splits)

text \<open>The loop of \<open>decode\<close>: the decoder, \<open>consumed\<close>, \<open>produced\<close> and the output.\<close>

function decode_loop :: "bytes \<Rightarrow> body_decoder \<Rightarrow> nat \<Rightarrow> nat \<Rightarrow> bytes \<Rightarrow> body_decoder \<times> decoded \<times> bytes" where
  "decode_loop input d consumed produced out =
     (let stop = (\<lambda>d bad. (d, \<lparr> dc_consumed = consumed, dc_produced = produced, dc_bad = bad \<rparr>, out));
          rest = drop consumed input
      in
        if bd_done d then stop d False
        else
          (case bd_state d of
             CsData \<Rightarrow>
               if bd_remaining d = 0 then
                 if bd_chunked d then decode_loop input (d\<lparr> bd_state := CsDataEnd \<rparr>) consumed produced out
                 else stop (d\<lparr> bd_done := True \<rparr>) False
               else
                 let room = length out - produced; n = min (min (length rest) room) (bd_remaining d) in
                 if n = 0 then stop d False
                 else decode_loop input (d\<lparr> bd_remaining := bd_remaining d - n \<rparr>) (consumed + n) (produced + n)
                        (blit produced (take n rest) out)
           | CsSize \<Rightarrow>
               (case parse_chunk_header rest of
                  ChunkNeed \<Rightarrow> stop d False
                | ChunkBad \<Rightarrow> stop d True
                | ChunkOk sz n \<Rightarrow>
                    decode_loop input
                      (d\<lparr> bd_remaining := sz, bd_state := (if sz = 0 then CsTrailer else CsData) \<rparr>)
                      (consumed + n) produced out)
           | CsDataEnd \<Rightarrow>
               if length rest < 2 then stop d False
               else if rest ! 0 \<noteq> 13 \<or> rest ! 1 \<noteq> 10 then stop d True
               else decode_loop input (d\<lparr> bd_state := CsSize \<rparr>) (consumed + 2) produced out
           | CsTrailer \<Rightarrow>
               (case crlf_position rest of
                  None \<Rightarrow> stop d False
                | Some eol \<Rightarrow>
                    decode_loop input (if eol = 0 then d\<lparr> bd_done := True \<rparr> else d) (consumed + (eol + 2)) produced out)))"
  by pat_completeness auto
termination
  by (relation "measures [\<lambda>(input, d, consumed, produced, out). length input - consumed,
        \<lambda>(input, d, consumed, produced, out). if bd_state d = CsData then 1 else 0]")
    (auto dest!: parse_chunk_header_consumed crlf_position_range)

declare decode_loop.simps [simp del]

definition body_decode :: "body_decoder \<Rightarrow> bytes \<Rightarrow> bytes \<Rightarrow> body_decoder \<times> decoded \<times> bytes" where
  "body_decode d input out = decode_loop input d 0 0 out"

section \<open>Well-formed size lines\<close>

definition chunk_val :: "nat \<Rightarrow> bytes \<Rightarrow> nat" where
  "chunk_val v hs = foldl (\<lambda>a c. a * 16 + the (chunk_digit c)) v hs"

text \<open>Digits, an optional extension that begins with a semicolon and holds no CR, and at most
  \<open>MAX_CHUNK_LINE\<close> (64) bytes with the CRLF.\<close>

definition size_line :: "bytes \<Rightarrow> bytes \<Rightarrow> nat \<Rightarrow> bool" where
  "size_line hs ext n \<longleftrightarrow>
     hs \<noteq> [] \<and> (\<forall>c \<in> set hs. chunk_digit c \<noteq> None) \<and> chunk_val 0 hs = n \<and> n < 2 ^ 64 \<and>
     (ext = [] \<or> hd ext = 59) \<and> 13 \<notin> set ext \<and> length hs + length ext + 2 \<le> MAX_CHUNK_LINE"

lemma size_line_ext: "size_line hs ext n \<Longrightarrow> ext = [] \<or> chunk_digit (hd ext) = None"
  by (auto simp: size_line_def chunk_digit_def word_le_nat_alt)

lemma chunk_val_mono: "v \<le> chunk_val v hs"
proof (induction hs arbitrary: v)
  case (Cons h hs)
  have "v \<le> v * 16 + the (chunk_digit h)" by simp
  also have "\<dots> \<le> chunk_val (v * 16 + the (chunk_digit h)) hs" by (rule Cons.IH)
  finally show ?case by (simp add: chunk_val_def)
qed (simp add: chunk_val_def)

lemma chunk_val_take: "chunk_val v (take k hs) \<le> chunk_val v hs"
proof -
  have "chunk_val v hs = chunk_val (chunk_val v (take k hs)) (drop k hs)"
    by (simp add: chunk_val_def foldl_append [symmetric] del: foldl_append)
  then show ?thesis using chunk_val_mono by simp
qed

lemma chunk_hex_loop_eq:
  assumes "\<forall>c \<in> set hs. chunk_digit c \<noteq> None" and "chunk_val v hs < 2 ^ 64" and "length p + length hs \<le> cap"
    and "length p + length hs = cap \<or> (\<exists>c t. b = c # t \<and> chunk_digit c = None)"
  shows "chunk_hex_loop (p @ hs @ b) cap (length p) v k = Some (length p + length hs, chunk_val v hs, k + length hs)"
  using assms
proof (induction hs arbitrary: p v k)
  case Nil
  then show ?case by (auto simp: chunk_hex_loop.simps [of _ _ "length p"] chunk_val_def nth_append)
next
  case (Cons h hs)
  then obtain x where x: "chunk_digit h = Some x" by auto
  have v: "chunk_val v (h # hs) = chunk_val (v * 16 + x) hs" by (simp add: chunk_val_def x)
  have "v * 16 + x < 2 ^ 64" using chunk_val_mono [of "v * 16 + x" hs] Cons.prems(2) v by simp
  then have "chunk_hex_loop (p @ (h # hs) @ b) cap (length p) v k =
      chunk_hex_loop ((p @ [h]) @ hs @ b) cap (length (p @ [h])) (v * 16 + x) (k + 1)"
    using Cons.prems(3) x by (subst chunk_hex_loop.simps) (simp add: nth_append)
  also have "\<dots> = Some (length (p @ [h]) + length hs, chunk_val (v * 16 + x) hs, k + 1 + length hs)"
    using Cons.prems v by (intro Cons.IH) simp_all
  finally show ?case by (simp add: v)
qed

lemma chunk_digit_CR: "chunk_digit 13 = None"
  by (simp add: chunk_digit_def word_le_nat_alt)

lemma scan_to_CR:
  assumes "13 \<notin> set ext"
  shows "scan_while (\<lambda>b. b \<noteq> 13) (hs @ ext @ 13 # t) (length hs) = length hs + length (ext :: bytes)"
    and "scan_while (\<lambda>b. b \<noteq> 13) (hs @ ext) (length hs) = length hs + length ext"
proof -
  have w: "takeWhile (\<lambda>b. b \<noteq> 13) (ext @ u) = ext @ takeWhile (\<lambda>b. b \<noteq> 13) u" for u
    using assms by (intro takeWhile_append2) auto
  show "scan_while (\<lambda>b. b \<noteq> 13) (hs @ ext @ 13 # t) (length hs) = length hs + length ext"
    by (simp add: scan_while_eq w)
  show "scan_while (\<lambda>b. b \<noteq> 13) (hs @ ext) (length hs) = length hs + length ext"
    using arg_cong [OF w [of "[]"], of length] by (simp add: scan_while_eq)
qed

lemma parse_size_line:
  assumes "size_line hs ext n"
  shows "parse_chunk_header (hs @ ext @ [13, 10] @ tl0) = ChunkOk n (length hs + length ext + 2)"
proof -
  let ?buf = "hs @ ext @ [13, 10] @ tl0"
  define cap where "cap = min (length ?buf) MAX_CHUNK_LINE"
  have cap: "length hs + length ext < cap" "cap \<le> length ?buf" using assms by (auto simp: cap_def size_line_def)
  have "\<exists>c t. ext @ [13, 10] @ tl0 = c # t \<and> chunk_digit c = None"
    using size_line_ext [OF assms] by (cases ext) (auto simp: chunk_digit_CR)
  then have h: "chunk_hex_loop ?buf cap 0 0 0 = Some (length hs, n, length hs)"
    using chunk_hex_loop_eq [of hs 0 "[]" cap "ext @ [13, 10] @ tl0" 0] assms cap by (auto simp: size_line_def)
  have t: "take cap ?buf = hs @ ext @ 13 # take (cap - (length hs + length ext) - 1) (10 # tl0)"
    using cap(1) by (simp add: take_append take_Cons')
  have "scan_while (\<lambda>b. b \<noteq> 13) (take cap ?buf) (length hs) = length hs + length ext"
    unfolding t using assms by (intro scan_to_CR) (simp add: size_line_def)
  then show ?thesis
    using h cap assms unfolding parse_chunk_header_def cap_def [symmetric] Let_def
    by (simp add: size_line_def nth_append)
qed

lemma parse_size_line_short:
  assumes "size_line hs ext n" and "k < length hs + length ext + 2"
  shows "parse_chunk_header (take k (hs @ ext @ [13, 10])) = ChunkNeed"
proof -
  let ?r = "take k (hs @ ext @ [13, 10])"
  have lr: "length ?r = k" using assms(2) by simp
  have v: "chunk_val 0 (take k hs) < 2 ^ 64" using chunk_val_take [of 0 k hs] assms(1) by (simp add: size_line_def)
  consider (digits) "k \<le> length hs" | (ext) "length hs < k" "k \<le> length hs + length ext" | (cr) "k = length hs + length ext + 1"
    using assms(2) by linarith
  then show ?thesis
  proof cases
    case digits
    have c: "min k MAX_CHUNK_LINE = k" "k \<le> 64" using digits assms(1) by (auto simp: size_line_def)
    have "chunk_hex_loop ([] @ take k hs @ []) k (length ([] :: bytes)) 0 0 = Some (length ([] :: bytes) + length (take k hs), chunk_val 0 (take k hs), 0 + length (take k hs))"
      using assms(1) v digits by (intro chunk_hex_loop_eq) (auto simp: size_line_def dest!: in_set_takeD)
    then have h: "chunk_hex_loop (take k hs) k 0 0 0 = Some (k, chunk_val 0 (take k hs), k)" using digits by simp
    have "scan_while (\<lambda>b. b \<noteq> 13) (take k hs) k = k" using digits by (simp add: scan_while_eq)
    then show ?thesis using h digits c by (cases "k = 0") (simp_all add: parse_chunk_header_def Let_def)
  next
    case ext
    define e where "e = take (k - length hs) ext"
    have r: "?r = hs @ e" using ext by (simp add: e_def)
    have k: "length hs + length e = k" using ext by (simp add: e_def)
    have c: "min k MAX_CHUNK_LINE = k" "k \<le> 64" using ext assms(1) by (auto simp: size_line_def)
    have ex: "\<exists>c t. e = c # t \<and> chunk_digit c = None"
      using ext size_line_ext [OF assms(1)] by (cases ext) (auto simp: e_def take_Cons')
    have h: "chunk_hex_loop (hs @ e) k 0 0 0 = Some (length hs, n, length hs)"
      using chunk_hex_loop_eq [of hs 0 "[]" k e 0] ex assms(1) k by (auto simp: size_line_def)
    have "13 \<notin> set e" using assms(1) by (auto simp: e_def size_line_def dest: in_set_takeD)
    then have "scan_while (\<lambda>b. b \<noteq> 13) (hs @ e) (length hs) = k" using scan_to_CR(2) k by simp
    then show ?thesis unfolding r using h k c assms(1) by (simp add: parse_chunk_header_def Let_def size_line_def)
  next
    case cr
    have r: "?r = hs @ ext @ [13]" using cr by simp
    have c: "min k MAX_CHUNK_LINE = k" using cr assms(1) by (auto simp: size_line_def)
    have ex: "\<exists>c t. ext @ [13] = c # t \<and> chunk_digit c = None"
      using size_line_ext [OF assms(1)] by (cases ext) (auto simp: chunk_digit_CR)
    have h: "chunk_hex_loop (hs @ ext @ [13]) k 0 0 0 = Some (length hs, n, length hs)"
      using chunk_hex_loop_eq [of hs 0 "[]" k "ext @ [13]" 0] ex assms(1) cr by (auto simp: size_line_def)
    have "scan_while (\<lambda>b. b \<noteq> 13) (hs @ ext @ [13]) (length hs) = length hs + length ext"
      using scan_to_CR(1) [of ext hs "[]"] assms(1) by (simp add: size_line_def)
    then show ?thesis unfolding r using h cr c assms(1) by (simp add: parse_chunk_header_def Let_def size_line_def)
  qed
qed

section \<open>Well-formed bodies\<close>

text \<open>\<open>body_tail ch st n w b\<close>: from state \<open>st\<close> with \<open>n\<close> bytes left of the chunk or body, the wire bytes \<open>w\<close>
  complete the body and carry \<open>b\<close>. A trailer line is anything up to its first CRLF.\<close>

inductive body_tail :: "bool \<Rightarrow> chunk_state \<Rightarrow> nat \<Rightarrow> bytes \<Rightarrow> bytes \<Rightarrow> bool" where
  length_end: "length b = n \<Longrightarrow> body_tail False CsData n b b"
| last_size: "size_line hs ext 0 \<Longrightarrow> body_tail True CsTrailer 0 w [] \<Longrightarrow> body_tail True CsSize m (hs @ ext @ [13, 10] @ w) []"
| chunk_size: "size_line hs ext n \<Longrightarrow> 0 < n \<Longrightarrow> body_tail True CsData n w b \<Longrightarrow> body_tail True CsSize m (hs @ ext @ [13, 10] @ w) b"
| chunk_data: "length c = n \<Longrightarrow> body_tail True CsDataEnd 0 w b \<Longrightarrow> body_tail True CsData n (c @ w) (c @ b)"
| data_end: "body_tail True CsSize 0 w b \<Longrightarrow> body_tail True CsDataEnd m ([13, 10] @ w) b"
| trailer_line: "crlf_position (l @ [13, 10]) = Some (length l) \<Longrightarrow> l \<noteq> [] \<Longrightarrow> body_tail True CsTrailer m w [] \<Longrightarrow>
    body_tail True CsTrailer m (l @ [13, 10] @ w) []"
| trailer_end: "body_tail True CsTrailer m [13, 10] []"

inductive_simps body_tail_Data: "body_tail ch CsData n w b"
inductive_simps body_tail_Size: "body_tail ch CsSize n w b"
inductive_simps body_tail_DataEnd: "body_tail ch CsDataEnd n w b"
inductive_simps body_tail_Trailer: "body_tail ch CsTrailer n w b"

lemma crlf_position_append: "crlf_position bs = Some e \<Longrightarrow> crlf_position (bs @ t) = Some e"
  by (induction bs arbitrary: e rule: crlf_position.induct) (auto split: if_splits)

lemma crlf_position_line: "crlf_position (l @ [13, 10]) = Some (length l) \<Longrightarrow> crlf_position (l @ [13, 10] @ t) = Some (length l)"
  using crlf_position_append [of "l @ [13, 10]" "length l" t] by simp

lemma crlf_position_take:
  assumes "crlf_position bs = Some e" and "k < e + 2"
  shows "crlf_position (take k bs) = None"
proof (rule ccontr)
  assume "crlf_position (take k bs) \<noteq> None"
  then obtain f where f: "crlf_position (take k bs) = Some f" by blast
  then have "crlf_position (take k bs @ drop k bs) = Some f" by (rule crlf_position_append)
  with assms crlf_position_range [OF f] show False by simp
qed

lemma body_tail_wire: "body_tail ch st n w b \<Longrightarrow> st \<noteq> CsData \<Longrightarrow> w \<noteq> []"
  by (erule body_tail.cases) auto

text \<open>One call, from any point of the loop: with input that starts like the rest of the message.\<close>

definition call_ok :: "bytes \<Rightarrow> nat \<Rightarrow> nat \<Rightarrow> bytes \<Rightarrow> bytes \<Rightarrow> bytes \<Rightarrow> body_decoder \<times> decoded \<times> bytes \<Rightarrow> bool" where
  "call_ok input consumed produced out w b r \<longleftrightarrow>
     (case r of (d', x, out') \<Rightarrow>
        \<not> dc_bad x \<and> consumed \<le> dc_consumed x \<and> dc_consumed x \<le> length input \<and>
        produced \<le> dc_produced x \<and> dc_produced x \<le> length out \<and>
        out' = blit produced (take (dc_produced x - produced) b) out \<and> dc_produced x - produced \<le> length b \<and>
        (if bd_done d' then dc_consumed x - consumed = length w \<and> dc_produced x - produced = length b
         else dc_consumed x - consumed \<le> length w \<and>
           body_tail (bd_chunked d') (bd_state d') (bd_remaining d') (drop (dc_consumed x - consumed) w) (drop (dc_produced x - produced) b) \<and>
           (length input - consumed < length w \<or> dc_produced x = length out \<and> dc_produced x - produced < length b)))"

lemma call_ok_step:
  assumes "call_ok input (consumed + i) (produced + j) (blit produced (take j b) out) (drop i w) (drop j b) r"
    and "i \<le> length w" and "j \<le> length b" and "produced + j \<le> length out" and "consumed + i \<le> length input"
  shows "call_ok input consumed produced out w b r"
proof -
  obtain d' x out' where r: "r = (d', x, out')" by (cases r)
  define p where "p = dc_produced x - (produced + j)"
  define c where "c = dc_consumed x - (consumed + i)"
  have A: "\<not> dc_bad x" "consumed + i \<le> dc_consumed x" "dc_consumed x \<le> length input" "produced + j \<le> dc_produced x"
    "dc_produced x \<le> length out" "out' = blit (produced + j) (take p (drop j b)) (blit produced (take j b) out)" "p \<le> length b - j"
    using assms by (auto simp: call_ok_def r p_def)
  have e: "dc_produced x - produced = j + p" "dc_consumed x - consumed = i + c" using A by (auto simp: p_def c_def)
  have lt: "length (take j b) = j" using assms(3) by simp
  have o: "out' = blit produced (take (j + p) b) out"
    using A(5-7) assms(3) blit_blit_append [of produced "take j b" "take p (drop j b)" out] e(1) A(4)
    by (simp add: lt take_add)
  have C: "if bd_done d' then c = length w - i \<and> p = length b - j
      else c \<le> length w - i \<and> body_tail (bd_chunked d') (bd_state d') (bd_remaining d') (drop (i + c) w) (drop (j + p) b) \<and>
        (length input - (consumed + i) < length w - i \<or> dc_produced x = length out \<and> p < length b - j)"
    using assms by (auto simp: call_ok_def r p_def c_def add.commute)
  show ?thesis
    unfolding call_ok_def r prod.case e using A o C assms(2,3,5) by (auto split: if_splits)
qed

lemma prefix_split:
  assumes "prefix r (u @ v)"
  obtains (short) "length r < length u" "r = take (length r) u" | (whole) t where "r = u @ t" "prefix t v"
proof (cases "length r < length u")
  case True
  from assms obtain z where "u @ v = r @ z" by (auto simp: prefix_def)
  then have "take (length r) (u @ v) = r" by simp
  then show thesis using short True by simp
next
  case False
  with assms have "prefix u r" using prefix_length_prefix [of u "u @ v" r] by auto
  then obtain t where "r = u @ t" by (auto simp: prefix_def)
  then show thesis using whole assms by simp
qed

lemma call_ok_stop:
  assumes "body_tail (bd_chunked d) (bd_state d) (bd_remaining d) w b" and "\<not> bd_done d"
    and "consumed \<le> length input" and "produced \<le> length out"
    and "length input - consumed < length w \<or> produced = length out \<and> b \<noteq> []"
  shows "call_ok input consumed produced out w b (d, \<lparr> dc_consumed = consumed, dc_produced = produced, dc_bad = False \<rparr>, out)"
  using assms by (auto simp: call_ok_def)

definition loop_rank :: "bytes \<Rightarrow> body_decoder \<Rightarrow> nat \<Rightarrow> nat" where
  "loop_rank input d consumed = 2 * (length input - consumed) + (if bd_state d = CsData then 1 else 0)"

definition loop_ready :: "bytes \<Rightarrow> bytes \<Rightarrow> body_decoder \<Rightarrow> nat \<Rightarrow> nat \<Rightarrow> bytes \<Rightarrow> bytes \<Rightarrow> bytes \<Rightarrow> bool" where
  "loop_ready input after d consumed produced out w b \<longleftrightarrow>
     body_tail (bd_chunked d) (bd_state d) (bd_remaining d) w b \<and> \<not> bd_done d \<and>
     prefix (drop consumed input) (w @ after) \<and> consumed \<le> length input \<and> produced \<le> length out"

definition good_below :: "bytes \<Rightarrow> bytes \<Rightarrow> nat \<Rightarrow> bool" where
  "good_below input after k \<longleftrightarrow>
     (\<forall>d consumed produced out w b. loop_rank input d consumed < k \<longrightarrow> loop_ready input after d consumed produced out w b \<longrightarrow>
        call_ok input consumed produced out w b (decode_loop input d consumed produced out))"

lemma loop_data:
  assumes "loop_ready input after d consumed produced out w b" and "bd_state d = CsData"
    and "good_below input after (loop_rank input d consumed)"
  shows "call_ok input consumed produced out w b (decode_loop input d consumed produced out)"
proof -
  let ?n = "bd_remaining d" and ?rest = "drop consumed input"
  have R: "body_tail (bd_chunked d) CsData ?n w b" "\<not> bd_done d" "prefix ?rest (w @ after)" "consumed \<le> length input" "produced \<le> length out"
    using assms(1,2) by (auto simp: loop_ready_def)
  show ?thesis
  proof (cases "?n = 0")
    case True
    show ?thesis
    proof (cases "bd_chunked d")
      case ch: True
      have t: "body_tail True CsDataEnd 0 w b" using R(1) True ch by (auto simp: body_tail_Data)
      have "decode_loop input d consumed produced out = decode_loop input (d\<lparr> bd_state := CsDataEnd \<rparr>) consumed produced out"
        using R(2) assms(2) True ch by (subst decode_loop.simps) simp
      moreover have "loop_ready input after (d\<lparr> bd_state := CsDataEnd \<rparr>) consumed produced out w b"
        using t R ch True by (simp add: loop_ready_def)
      ultimately show ?thesis using assms(2,3) by (simp add: good_below_def loop_rank_def)
    next
      case False
      have "w = []" "b = []" using R(1) True False by (auto simp: body_tail_Data)
      moreover have "decode_loop input d consumed produced out =
          (d\<lparr> bd_done := True \<rparr>, \<lparr> dc_consumed = consumed, dc_produced = produced, dc_bad = False \<rparr>, out)"
        using R(2) assms(2) True False by (subst decode_loop.simps) simp
      ultimately show ?thesis using R by (simp add: call_ok_def)
    qed
  next
    case False
    define k where "k = min (min (length ?rest) (length out - produced)) ?n"
    obtain c where c: "length c = ?n" "prefix c w" "prefix c b"
      and t: "\<And>k. k \<le> ?n \<Longrightarrow> body_tail (bd_chunked d) CsData (?n - k) (drop k w) (drop k b)"
    proof (cases "bd_chunked d")
      case False
      then have "w = b" "length b = ?n" using R(1) by (auto simp: body_tail_Data)
      then show thesis using False by (intro that [of b]) (auto intro: body_tail.length_end)
    next
      case True
      then obtain c w' b' where "w = c @ w'" "b = c @ b'" "length c = ?n" "body_tail True CsDataEnd 0 w' b'"
        using R(1) by (auto simp: body_tail_Data)
      then show thesis using True by (intro that [of c]) (auto intro!: body_tail.chunk_data)
    qed
    show ?thesis
    proof (cases "k = 0")
      case stop: True
      have "decode_loop input d consumed produced out = (d, \<lparr> dc_consumed = consumed, dc_produced = produced, dc_bad = False \<rparr>, out)"
        using R(2) assms(2) False stop by (subst decode_loop.simps) (simp add: k_def Let_def)
      moreover have "w \<noteq> []" "b \<noteq> []" using c False by auto
      then have "length input - consumed < length w \<or> produced = length out \<and> b \<noteq> []"
        using stop False R(5) by (auto simp: k_def)
      ultimately show ?thesis using call_ok_stop [of d w b] R assms(2) by simp
    next
      case go: False
      have kl: "k \<le> ?n" "k \<le> length ?rest" "k \<le> length out - produced" by (simp_all add: k_def)
      have ks: "consumed + k \<le> length input" "produced + k \<le> length out"
        using kl(2,3) R(4,5) by (simp_all add: le_diff_conv2 add.commute)
      from R(3) obtain z where z: "w @ after = ?rest @ z" by (auto simp: prefix_def)
      have "take k ?rest = take k (w @ after)" unfolding z using kl(2) by simp
      also have "\<dots> = take k b" using c kl(1) by (auto simp: prefix_def)
      finally have tk: "take k ?rest = take k b" .
      have lw: "k \<le> length w" "k \<le> length b" using c kl(1) by (auto simp: prefix_def)
      let ?d = "d\<lparr> bd_remaining := ?n - k \<rparr>" and ?o = "blit produced (take k b) out"
      have "decode_loop input d consumed produced out = decode_loop input ?d (consumed + k) (produced + k) ?o"
        by (subst decode_loop.simps)
          (simp only: Let_def k_def [symmetric] R(2) assms(2) chunk_state.case if_False False go tk)
      moreover have "prefix (drop (consumed + k) input) (drop k w @ after)"
      proof -
        have "drop k (w @ after) = drop k ?rest @ z" unfolding z using kl(2) by simp
        then show ?thesis using lw by (simp add: add.commute prefix_def)
      qed
      then have "loop_ready input after ?d (consumed + k) (produced + k) ?o (drop k w) (drop k b)"
        using t [OF kl(1)] R(2) ks lw assms(2) by (simp add: loop_ready_def)
      moreover have "loop_rank input ?d (consumed + k) < loop_rank input d consumed"
        using go ks by (simp add: loop_rank_def)
      ultimately have "call_ok input (consumed + k) (produced + k) ?o (drop k w) (drop k b) (decode_loop input d consumed produced out)"
        using assms(3) unfolding good_below_def by metis
      then show ?thesis by (rule call_ok_step) (use lw ks in simp_all)
    qed
  qed
qed

text \<open>Steps that consume a line or a CRLF and produce nothing.\<close>

lemma loop_skip:
  assumes "loop_ready input after d consumed produced out w b" and "good_below input after (loop_rank input d consumed)"
    and "w = u @ w'" and "drop consumed input = u @ t" and "prefix t (w' @ after)" and "2 \<le> length u"
    and "decode_loop input d consumed produced out = decode_loop input d' (consumed + length u) produced out"
    and "\<not> bd_done d'" and "body_tail (bd_chunked d') (bd_state d') (bd_remaining d') w' b"
  shows "call_ok input consumed produced out w b (decode_loop input d consumed produced out)"
proof -
  have "consumed \<le> length input" using assms(1) by (simp add: loop_ready_def)
  then have l: "consumed + length u \<le> length input" using arg_cong [OF assms(4), of length] by simp
  have dr: "drop (consumed + length u) input = t" using assms(4) by (metis add.commute append_eq_conv_conj drop_drop)
  have "loop_ready input after d' (consumed + length u) produced out w' b"
    using assms l dr by (simp add: loop_ready_def)
  moreover have "loop_rank input d' (consumed + length u) < loop_rank input d consumed"
    using assms(6) l by (auto simp: loop_rank_def)
  ultimately have "call_ok input (consumed + length u) (produced + 0) (blit produced (take 0 b) out) (drop (length u) w) (drop 0 b)
      (decode_loop input d consumed produced out)"
    using assms(2,3,7) unfolding good_below_def by simp
  then show ?thesis by (rule call_ok_step) (use assms l in \<open>simp_all add: loop_ready_def\<close>)
qed

lemma loop_size:
  assumes "loop_ready input after d consumed produced out w b" and "bd_state d = CsSize"
    and "good_below input after (loop_rank input d consumed)"
  shows "call_ok input consumed produced out w b (decode_loop input d consumed produced out)"
proof -
  let ?rest = "drop consumed input"
  have R: "body_tail (bd_chunked d) CsSize (bd_remaining d) w b" "\<not> bd_done d" "prefix ?rest (w @ after)" "consumed \<le> length input" "produced \<le> length out"
    using assms(1,2) by (auto simp: loop_ready_def)
  obtain hs ext n w' where L: "size_line hs ext n" "w = (hs @ ext @ [13, 10]) @ w'" "bd_chunked d"
    and t: "body_tail True (if n = 0 then CsTrailer else CsData) n w' b"
    using R(1) unfolding body_tail_Size by fastforce
  have "prefix ?rest ((hs @ ext @ [13, 10]) @ w' @ after)" using R(3) L(2) by simp
  then show ?thesis
  proof (cases rule: prefix_split)
    case short
    have "parse_chunk_header ?rest = ChunkNeed"
      by (subst short(2)) (rule parse_size_line_short [OF L(1)], use short(1) in simp)
    then have "decode_loop input d consumed produced out = (d, \<lparr> dc_consumed = consumed, dc_produced = produced, dc_bad = False \<rparr>, out)"
      using R(2) assms(2) by (subst decode_loop.simps) simp
    then show ?thesis using call_ok_stop [of d w b] R assms(2) short(1) L(2) by simp
  next
    case (whole tl0)
    let ?d = "d\<lparr> bd_remaining := n, bd_state := (if n = 0 then CsTrailer else CsData) \<rparr>"
    have "parse_chunk_header ?rest = ChunkOk n (length (hs @ ext @ [13, 10]))"
      unfolding whole(1) using parse_size_line [OF L(1), of tl0] by simp
    then have "decode_loop input d consumed produced out = decode_loop input ?d (consumed + length (hs @ ext @ [13, 10])) produced out"
      using R(2) assms(2) by (subst decode_loop.simps) simp
    from loop_skip [OF assms(1,3) L(2) whole(1,2) _ this] show ?thesis using t L(3) R(2) by simp
  qed
qed

lemma loop_data_end:
  assumes "loop_ready input after d consumed produced out w b" and "bd_state d = CsDataEnd"
    and "good_below input after (loop_rank input d consumed)"
  shows "call_ok input consumed produced out w b (decode_loop input d consumed produced out)"
proof -
  let ?rest = "drop consumed input"
  have R: "body_tail (bd_chunked d) CsDataEnd (bd_remaining d) w b" "\<not> bd_done d" "prefix ?rest (w @ after)" "consumed \<le> length input" "produced \<le> length out"
    using assms(1,2) by (auto simp: loop_ready_def)
  obtain w' where L: "w = [13, 10] @ w'" "bd_chunked d" and t0: "body_tail True CsSize 0 w' b"
    using R(1) unfolding body_tail_DataEnd by auto
  have t: "body_tail True CsSize m w' b" for m using t0 unfolding body_tail_Size by blast
  have "prefix ?rest ([13, 10] @ w' @ after)" using R(3) L(1) by simp
  then show ?thesis
  proof (cases rule: prefix_split)
    case short
    then have "decode_loop input d consumed produced out = (d, \<lparr> dc_consumed = consumed, dc_produced = produced, dc_bad = False \<rparr>, out)"
      using R(2) assms(2) by (subst decode_loop.simps) simp
    then show ?thesis using call_ok_stop [of d w b] R assms(2) short(1) L by simp
  next
    case (whole tl0)
    have "decode_loop input d consumed produced out = decode_loop input (d\<lparr> bd_state := CsSize \<rparr>) (consumed + length [13 :: byte, 10]) produced out"
      using R(2) assms(2) whole(1) by (subst decode_loop.simps) simp
    from loop_skip [OF assms(1,3) L(1) whole(1,2) _ this] show ?thesis using t L(2) R(2) by simp
  qed
qed

lemma loop_trailer:
  assumes "loop_ready input after d consumed produced out w b" and "bd_state d = CsTrailer"
    and "good_below input after (loop_rank input d consumed)"
  shows "call_ok input consumed produced out w b (decode_loop input d consumed produced out)"
proof -
  let ?rest = "drop consumed input"
  have R: "body_tail (bd_chunked d) CsTrailer (bd_remaining d) w b" "\<not> bd_done d" "prefix ?rest (w @ after)" "consumed \<le> length input" "produced \<le> length out"
    using assms(1,2) by (auto simp: loop_ready_def)
  obtain l w' where L: "w = (l @ [13, 10]) @ w'" "crlf_position (l @ [13, 10]) = Some (length l)"
    and t: "l \<noteq> [] \<and> body_tail (bd_chunked d) CsTrailer (bd_remaining d) w' b \<or> l = [] \<and> w' = [] \<and> b = []"
    using body_tail_Trailer [THEN iffD1, OF R(1)]
  proof (elim disjE exE conjE)
    fix l w'
    assume "w = l @ 13 # 10 # w'" "b = []" "bd_chunked d" "crlf_position (l @ [13, 10]) = Some (length l)" "l \<noteq> []"
      "body_tail True CsTrailer (bd_remaining d) w' []"
    then show thesis by (intro that [of l w']) simp_all
  next
    assume "w = [13, 10]" "b = []" "bd_chunked d"
    then show thesis by (intro that [of "[]" "[]"]) simp_all
  qed
  have "prefix ?rest ((l @ [13, 10]) @ w' @ after)" using R(3) L(1) by simp
  then show ?thesis
  proof (cases rule: prefix_split)
    case short
    have "crlf_position ?rest = None"
      by (subst short(2)) (rule crlf_position_take [OF L(2)], use short(1) in simp)
    then have "decode_loop input d consumed produced out = (d, \<lparr> dc_consumed = consumed, dc_produced = produced, dc_bad = False \<rparr>, out)"
      using R(2) assms(2) by (subst decode_loop.simps) simp
    then show ?thesis using call_ok_stop [of d w b] R assms(2) short(1) L(1) by simp
  next
    case (whole tl0)
    let ?d = "if length l = 0 then d\<lparr> bd_done := True \<rparr> else d"
    have "crlf_position ?rest = Some (length l)" unfolding whole(1) using crlf_position_append [OF L(2)] by simp
    then have e: "decode_loop input d consumed produced out = decode_loop input ?d (consumed + length (l @ [13, 10])) produced out"
      using R(2) assms(2) by (subst decode_loop.simps) simp
    show ?thesis
    proof (cases "l = []")
      case True
      have "consumed + 2 \<le> length input" using arg_cong [OF whole(1), of length] True R(4) by simp
      moreover have "decode_loop input d consumed produced out =
          (d\<lparr> bd_done := True \<rparr>, \<lparr> dc_consumed = consumed + 2, dc_produced = produced, dc_bad = False \<rparr>, out)"
        unfolding e using True by (subst decode_loop.simps) simp
      ultimately show ?thesis using t L(1) True R(5) by (simp add: call_ok_def)
    next
      case False
      from loop_skip [OF assms(1,3) L(1) whole(1,2) _ e] show ?thesis using False t R(2) assms(2) by simp
    qed
  qed
qed

lemma decode_loop_ok:
  "loop_ready input after d consumed produced out w b \<Longrightarrow> call_ok input consumed produced out w b (decode_loop input d consumed produced out)"
proof (induction "loop_rank input d consumed" arbitrary: d consumed produced out w b rule: less_induct)
  case less
  have "good_below input after (loop_rank input d consumed)" using less(1) by (auto simp: good_below_def)
  then show ?case
    using loop_data [OF less(2)] loop_size [OF less(2)] loop_data_end [OF less(2)] loop_trailer [OF less(2)]
    by (cases "bd_state d") simp_all
qed

section \<open>Any sequence of calls\<close>

text \<open>The bytes of the connection from the start of the body, and one call per pair: how much of the
  stream has arrived, and the room for output. The bytes handed on, the decoder, what is left of the
  stream, and whether the framing was ever called bad.\<close>

fun body_calls :: "body_decoder \<Rightarrow> bytes \<Rightarrow> (nat \<times> nat) list \<Rightarrow> bytes \<times> body_decoder \<times> bytes \<times> bool" where
  "body_calls d stream [] = ([], d, stream, False)"
| "body_calls d stream ((arrived, room) # calls) =
     (case body_decode d (take arrived stream) (replicate room 0) of (d', x, out) \<Rightarrow>
        (case body_calls d' (drop (dc_consumed x) stream) calls of (rest, d'', stream', bad) \<Rightarrow>
           (take (dc_produced x) out @ rest, d'', stream', dc_bad x \<or> bad)))"

lemma body_calls_done: "bd_done d \<Longrightarrow> body_calls d stream calls = ([], d, stream, False)"
proof (induction calls)
  case (Cons c calls)
  obtain a r where c: "c = (a, r)" by (cases c)
  have "body_decode d (take a stream) (replicate r 0) = (d, \<lparr> dc_consumed = 0, dc_produced = 0, dc_bad = False \<rparr>, replicate r 0)"
    unfolding body_decode_def using Cons.prems by (subst decode_loop.simps) simp
  then show ?case using Cons c by simp
qed simp

lemma body_decode_ok:
  assumes "body_tail (bd_chunked d) (bd_state d) (bd_remaining d) w b" and "\<not> bd_done d"
  shows "call_ok (take a (w @ after)) 0 0 (replicate r 0) w b (body_decode d (take a (w @ after)) (replicate r 0))"
  unfolding body_decode_def
  by (rule decode_loop_ok [where after = after]) (use assms take_is_prefix [of a "w @ after"] in \<open>simp add: loop_ready_def del: take_append\<close>)

lemma body_calls_ok:
  assumes "body_tail (bd_chunked d) (bd_state d) (bd_remaining d) w b" and "\<not> bd_done d"
    and "body_calls d (w @ after) calls = (got, d', stream, bad)"
  shows "\<not> bad \<and> (if bd_done d' then got = b \<and> stream = after
    else (\<exists>w' b'. b = got @ b' \<and> stream = w' @ after \<and> body_tail (bd_chunked d') (bd_state d') (bd_remaining d') w' b'))"
  using assms
proof (induction calls arbitrary: d w b got)
  case (Cons c calls)
  obtain a r where c: "c = (a, r)" by (cases c)
  obtain d1 x out where e: "body_decode d (take a (w @ after)) (replicate r 0) = (d1, x, out)" by (cases "body_decode d (take a (w @ after)) (replicate r 0)")
  define i j where "i = dc_consumed x" and "j = dc_produced x"
  have K: "\<not> dc_bad x" "j \<le> r" "j \<le> length b" "out = blit 0 (take j b) (replicate r 0)"
    and D: "if bd_done d1 then i = length w \<and> j = length b
      else i \<le> length w \<and> body_tail (bd_chunked d1) (bd_state d1) (bd_remaining d1) (drop i w) (drop j b)"
    using body_decode_ok [OF Cons.prems(1,2), of a after r] unfolding e by (auto simp: call_ok_def i_def j_def split: if_splits)
  have t: "take j out = take j b" using K by (simp add: blit_def)
  obtain rest d2 s2 bad2 where f: "body_calls d1 (drop i (w @ after)) calls = (rest, d2, s2, bad2)"
    by (cases "body_calls d1 (drop i (w @ after)) calls")
  have g: "got = take j b @ rest" "d' = d2" "stream = s2" "bad = bad2"
    using Cons.prems(3) c e f K(1) t by (simp_all add: i_def j_def)
  show ?case
  proof (cases "bd_done d1")
    case True
    then have "rest = []" "d2 = d1" "s2 = drop i (w @ after)" "\<not> bad2" using body_calls_done [OF True] f by auto
    then show ?thesis using D True g by simp
  next
    case False
    then have "drop i (w @ after) = drop i w @ after" using D by simp
    with Cons.IH [of d1 "drop i w" "drop j b" rest] D False f
    have "\<not> bad2 \<and> (if bd_done d2 then rest = drop j b \<and> s2 = after
      else (\<exists>w' b'. drop j b = rest @ b' \<and> s2 = w' @ after \<and> body_tail (bd_chunked d2) (bd_state d2) (bd_remaining d2) w' b'))"
      using g by (auto split: if_splits)
    moreover have "b = take j b @ drop j b" by simp
    ultimately show ?thesis using g by (auto split: if_splits) (metis append.assoc append_take_drop_id)+
  qed
qed auto

text \<open>What a request carries: for a framing, the bytes on the wire and the body.\<close>

definition body_on_wire :: "body_framing \<Rightarrow> bytes \<Rightarrow> bytes \<Rightarrow> bool" where
  "body_on_wire framing w b \<longleftrightarrow>
     (case framing of
        FramingLength n \<Rightarrow> 0 < n \<and> w = b \<and> length b = n
      | FramingChunked \<Rightarrow> body_tail True CsSize 0 w b
      | _ \<Rightarrow> False)"

text \<open>Chunks, a last chunk and trailer lines make such a body.\<close>

fun chunks_wire :: "(bytes \<times> bytes \<times> bytes) list \<Rightarrow> bytes" where
  "chunks_wire [] = []"
| "chunks_wire ((hs, ext, c) # cs) = hs @ ext @ [13, 10] @ c @ [13, 10] @ chunks_wire cs"

lemma body_on_wire_chunks:
  assumes "\<forall>(hs, ext, c) \<in> set cs. size_line hs ext (length c) \<and> c \<noteq> []" and "size_line hs0 ext0 0"
    and "\<forall>l \<in> set ls. l \<noteq> [] \<and> crlf_position (l @ [13, 10]) = Some (length l)"
  shows "body_on_wire FramingChunked (chunks_wire cs @ hs0 @ ext0 @ [13, 10] @ concat (map (\<lambda>l. l @ [13, 10]) ls) @ [13, 10])
    (concat (map (\<lambda>(hs, ext, c). c) cs))"
proof -
  have "body_tail True CsTrailer 0 (concat (map (\<lambda>l. l @ [13, 10]) ls) @ [13, 10]) []"
    using assms(3) by (induction ls) (auto intro: body_tail.intros body_tail.trailer_line [simplified])
  from body_tail.last_size [OF assms(2) this]
  have z: "body_tail True CsSize m (hs0 @ ext0 @ [13, 10] @ concat (map (\<lambda>l. l @ [13, 10]) ls) @ [13, 10]) []" for m .
  have "body_tail True CsSize m (chunks_wire cs @ hs0 @ ext0 @ [13, 10] @ concat (map (\<lambda>l. l @ [13, 10]) ls) @ [13, 10])
      (concat (map (\<lambda>(hs, ext, c). c) cs))" for m
    using assms(1)
  proof (induction cs arbitrary: m)
    case Nil
    then show ?case using z by simp
  next
    case (Cons x cs)
    obtain hs ext c where x: "x = (hs, ext, c)" by (cases x)
    let ?w = "chunks_wire cs @ hs0 @ ext0 @ [13, 10] @ concat (map (\<lambda>l. l @ [13, 10]) ls) @ [13, 10]"
    let ?b = "concat (map (\<lambda>(hs, ext, c). c) cs)"
    have "body_tail True CsSize 0 ?w ?b" using Cons by simp
    from body_tail.chunk_data [OF refl body_tail.data_end [OF this, of 0], of c]
    have "body_tail True CsData (length c) (c @ [13, 10] @ ?w) (c @ ?b)" .
    moreover have "size_line hs ext (length c)" "0 < length c" using Cons.prems x by auto
    ultimately have "body_tail True CsSize m (hs @ ext @ [13, 10] @ (c @ [13, 10] @ ?w)) (c @ ?b)"
      by (intro body_tail.chunk_size)
    then show ?case by (simp add: x)
  qed
  then show ?thesis by (simp add: body_on_wire_def)
qed

section \<open>Properties\<close>

text \<open>C22. A request body is decoded the same however it arrives. For a length-delimited body and for a
  chunked one (chunk sizes below \<open>2 ^ 64\<close>, size lines of at most 64 bytes with their CRLF and any
  extension that fits there, any trailer lines) followed by anything, cut the stream into calls at any
  points and give each call any output room: the framing is never called bad, the bytes
  handed on are a prefix of the body, and once the decoder says it is done they are the whole body and
  exactly the bytes after the message are left.\<close>

theorem h1_body_any_segmentation:
  assumes "body_on_wire framing w b" and "body_decoder_new framing = Some d"
    and "body_calls d (w @ after) calls = (got, d', stream, bad)"
  shows "\<not> bad \<and> prefix got b \<and> (bd_done d' \<longrightarrow> got = b \<and> stream = after)"
proof -
  have "body_tail (bd_chunked d) (bd_state d) (bd_remaining d) w b" "\<not> bd_done d"
    using assms(1,2) by (auto simp: body_on_wire_def body_decoder_new_def split: body_framing.splits if_splits intro: body_tail.length_end)
  from body_calls_ok [OF this assms(3)] show ?thesis by (auto split: if_splits)
qed

lemma demo_size_line: "size_line [51] [] 3" "size_line [48] [] 0"
  by (simp_all add: size_line_def chunk_val_def chunk_digit_def word_le_nat_alt)

lemma demo_body: "body_on_wire FramingChunked [51, 13, 10, 97, 98, 99, 13, 10, 48, 13, 10, 13, 10] [97, 98, 99]"
  using body_on_wire_chunks [of "[([51], [], [97, 98, 99])]" "[48]" "[]" "[]"] demo_size_line [unfolded numeral_3_eq_3] by simp

theorem h1_body_any_segmentation_witness:
  "case body_calls \<lparr> bd_chunked = True, bd_state = CsSize, bd_remaining = 0, bd_done = False \<rparr>
      ([51, 13, 10, 97, 98, 99, 13, 10, 48, 13, 10, 13, 10] @ [71]) [(2, 4), (5, 1), (20, 4)] of
     (got, d', stream, bad) \<Rightarrow> \<not> bad \<and> prefix got [97, 98, 99] \<and> (bd_done d' \<longrightarrow> got = [97, 98, 99] \<and> stream = [71])"
proof -
  obtain got d' stream bad where r: "body_calls \<lparr> bd_chunked = True, bd_state = CsSize, bd_remaining = 0, bd_done = False \<rparr>
      ([51, 13, 10, 97, 98, 99, 13, 10, 48, 13, 10, 13, 10] @ [71]) [(2, 4), (5, 1), (20, 4)] = (got, d', stream, bad)"
    by (metis prod_cases4)
  have n: "body_decoder_new FramingChunked = Some \<lparr> bd_chunked = True, bd_state = CsSize, bd_remaining = 0, bd_done = False \<rparr>"
    by (simp add: body_decoder_new_def)
  show ?thesis using h1_body_any_segmentation [OF demo_body n r] unfolding r by simp
qed

text \<open>The decoder makes progress. When a call is given the whole rest of a well-formed body and room for
  it, it finishes: the call ends with the decoder done, the body in the buffer, and the bytes of the next
  message untouched.\<close>

theorem h1_body_finishes:
  assumes "body_on_wire framing w b" and "body_decoder_new framing = Some d"
    and "length w \<le> arrived" and "length b \<le> room"
  shows "\<exists>d' x out. body_decode d (take arrived (w @ after)) (replicate room 0) = (d', x, out) \<and> bd_done d' \<and>
    \<not> dc_bad x \<and> dc_consumed x = length w \<and> dc_produced x = length b \<and> take (length b) out = b"
proof -
  have "body_tail (bd_chunked d) (bd_state d) (bd_remaining d) w b" "\<not> bd_done d"
    using assms(1,2) by (auto simp: body_on_wire_def body_decoder_new_def split: body_framing.splits if_splits intro: body_tail.length_end)
  note K = body_decode_ok [OF this, of arrived after room]
  obtain d' x out where e: "body_decode d (take arrived (w @ after)) (replicate room 0) = (d', x, out)"
    by (cases "body_decode d (take arrived (w @ after)) (replicate room 0)")
  have "bd_done d'" using K assms(3,4) unfolding e by (auto simp: call_ok_def split: if_splits)
  then show ?thesis using K unfolding e by (auto simp: call_ok_def blit_def)
qed

theorem h1_body_finishes_witness:
  "\<exists>d' x out. body_decode \<lparr> bd_chunked = True, bd_state = CsSize, bd_remaining = 0, bd_done = False \<rparr>
      (take 20 ([51, 13, 10, 97, 98, 99, 13, 10, 48, 13, 10, 13, 10] @ [71])) (replicate 3 0) = (d', x, out) \<and>
    bd_done d' \<and> \<not> dc_bad x \<and> dc_consumed x = 13 \<and> dc_produced x = 3 \<and> take 3 out = [97, 98, 99]"
proof -
  have n: "body_decoder_new FramingChunked = Some \<lparr> bd_chunked = True, bd_state = CsSize, bd_remaining = 0, bd_done = False \<rparr>"
    by (simp add: body_decoder_new_def)
  show ?thesis using h1_body_finishes [OF demo_body n, of 20 3 "[71]"] by (simp add: numeral_eq_Suc)
qed

end
