(* ===== verification/H1_Head.thy ===== *)
theory H1_Head
  imports H1_Body
begin

text \<open>
  HTTP/1 heads (\<open>modules/foundation/http/wire/h1.rs\<close>): the request line, the field lookups, how a body is
  framed, persistence, byte ranges, and the writers of status lines, error responses and request heads.
  The method vocabulary is the exchange contract's, which is not part of the repository: the code of a
  token and the name of a code are parameters. A writer's return value 0 is \<^const>\<open>None\<close>.
\<close>

unbundle bit_operations_syntax

section \<open>Lines\<close>

text \<open>\<open>while i + 1 < head.len()\<close> up to a CRLF.\<close>

function h1_eol :: "bytes \<Rightarrow> nat \<Rightarrow> nat" where
  "h1_eol head i =
     (if i + 1 < length head then
        if head ! i = 13 \<and> head ! (i + 1) = 10 then i else h1_eol head (i + 1)
      else i)"
  by pat_completeness auto
termination by (relation "measure (\<lambda>(head, i). length head - i)") auto

declare h1_eol.simps [simp del]

lemma h1_eol_ge: "i \<le> h1_eol head i"
proof (induction head i rule: h1_eol.induct)
  case (1 head i)
  then show ?case by (subst h1_eol.simps) (auto intro: le_trans [of i "Suc i"])
qed

text \<open>The line at \<open>cursor\<close> and the start of the next; \<^const>\<open>None\<close> at the blank line and at a truncated one,
  where the walks stop.\<close>

definition h1_line :: "bytes \<Rightarrow> nat \<Rightarrow> (bytes \<times> nat) option" where
  "h1_line head cursor =
     (let nl = h1_eol head cursor in
      if nl = cursor then None
      else if length head \<le> nl + 1 then None
      else Some (bslice cursor nl head, nl + 2))"

lemma h1_line_next: "h1_line head cursor = Some (line, nxt) \<Longrightarrow> cursor < nxt"
  using h1_eol_ge [of cursor head] by (auto simp: h1_line_def Let_def split: if_splits)

fun byte_position :: "(byte \<Rightarrow> bool) \<Rightarrow> bytes \<Rightarrow> nat option" where
  "byte_position P [] = None"
| "byte_position P (b # bs) = (if P b then Some 0 else map_option Suc (byte_position P bs))"

abbreviation h1_wsp :: "byte \<Rightarrow> bool" where
  "h1_wsp b \<equiv> b = 32 \<or> b = 9"

fun h1_trim_end :: "bytes \<Rightarrow> nat \<Rightarrow> nat \<Rightarrow> nat" where
  "h1_trim_end line vs 0 = 0"
| "h1_trim_end line vs (Suc ve) = (if vs < Suc ve \<and> h1_wsp (line ! ve) then h1_trim_end line vs ve else Suc ve)"

definition h1_trim :: "bytes \<Rightarrow> nat \<Rightarrow> bytes" where
  "h1_trim line from =
     (let vs = scan_while h1_wsp line from in bslice vs (h1_trim_end line vs (length line)) line)"

text \<open>The trimmed value when the line is a field of that name.\<close>

definition h1_field :: "bytes \<Rightarrow> bytes \<Rightarrow> bytes option" where
  "h1_field name line =
     (case byte_position (\<lambda>c. c = 58) line of
        None \<Rightarrow> None
      | Some colon \<Rightarrow>
          if eq_ignore_ascii_case (take colon line) name then Some (h1_trim line (colon + 1)) else None)"

section \<open>Field lookups\<close>

function find_header_loop :: "bytes \<Rightarrow> bytes \<Rightarrow> nat \<Rightarrow> bytes option" where
  "find_header_loop head name cursor =
     (if cursor < length head then
        (case h1_line head cursor of
           None \<Rightarrow> None
         | Some (line, nxt) \<Rightarrow>
             (case h1_field name line of
                Some v \<Rightarrow> Some v
              | None \<Rightarrow> find_header_loop head name nxt))
      else None)"
  by pat_completeness auto
termination by (relation "measure (\<lambda>(head, name, cursor). length head - cursor)") (auto dest: h1_line_next)

definition find_header :: "bytes \<Rightarrow> bytes \<Rightarrow> bytes option" where
  "find_header head name =
     (let cursor = h1_eol head 0 in
      if length head \<le> cursor + 1 then None else find_header_loop head name (cursor + 2))"

function disagree_loop :: "bytes \<Rightarrow> bytes \<Rightarrow> nat \<Rightarrow> bytes option \<Rightarrow> bool" where
  "disagree_loop head name cursor seen =
     (if cursor < length head then
        (case h1_line head cursor of
           None \<Rightarrow> False
         | Some (line, nxt) \<Rightarrow>
             (case h1_field name line of
                None \<Rightarrow> disagree_loop head name nxt seen
              | Some v \<Rightarrow>
                  (case seen of
                     None \<Rightarrow> disagree_loop head name nxt (Some v)
                   | Some prev \<Rightarrow> if prev \<noteq> v then True else disagree_loop head name nxt seen)))
      else False)"
  by pat_completeness auto
termination by (relation "measure (\<lambda>(head, name, cursor, seen). length head - cursor)") (auto dest: h1_line_next)

declare find_header_loop.simps [simp del] disagree_loop.simps [simp del]

definition header_values_disagree :: "bytes \<Rightarrow> bytes \<Rightarrow> bool" where
  "header_values_disagree head name =
     (let cursor = h1_eol head 0 in
      if length head \<le> cursor + 1 then False else disagree_loop head name (cursor + 2) None)"

function find_header_end_loop :: "bytes \<Rightarrow> nat \<Rightarrow> nat \<Rightarrow> nat option" where
  "find_header_end_loop buf len i =
     (if i + 3 < len then
        if buf ! i = 13 \<and> buf ! (i + 1) = 10 \<and> buf ! (i + 2) = 13 \<and> buf ! (i + 3) = 10 then Some (i + 4)
        else find_header_end_loop buf len (i + 1)
      else None)"
  by pat_completeness auto
termination by (relation "measure (\<lambda>(buf, len, i). len - i)") auto

declare find_header_end_loop.simps [simp del]

definition find_header_end :: "bytes \<Rightarrow> nat \<Rightarrow> nat option" where
  "find_header_end buf len = (if len < 4 then None else find_header_end_loop buf len 0)"

definition header_block :: "bytes \<Rightarrow> bytes" where
  "header_block head =
     (case crlf_position head of
        None \<Rightarrow> []
      | Some eol \<Rightarrow>
          let start = eol + 2; fin = length head - 2 in
          if fin \<le> start then [] else bslice start fin head)"

section \<open>Framing, expectations and persistence\<close>

fun split_bytes :: "(byte \<Rightarrow> bool) \<Rightarrow> bytes \<Rightarrow> bytes list" where
  "split_bytes P [] = [[]]"
| "split_bytes P (b # bs) =
     (if P b then [] # split_bytes P bs
      else (case split_bytes P bs of [] \<Rightarrow> [[b]] | x # xs \<Rightarrow> (b # x) # xs))"

fun cl_digits :: "bytes \<Rightarrow> nat \<Rightarrow> nat option" where
  "cl_digits [] n = Some n"
| "cl_digits (c # cs) n =
     (if \<not> is_ascii_digit c then None
      else if 2 ^ 64 \<le> n * 10 + unat (c - 48) then None
      else cl_digits cs (n * 10 + unat (c - 48)))"

definition body_framing :: "bytes \<Rightarrow> body_framing" where
  "body_framing head =
     (let te = find_header head (ascii ''transfer-encoding''); cl = find_header head (ascii ''content-length'') in
      case te of
        Some te \<Rightarrow>
          if cl \<noteq> None then FramingInvalid
          else if eq_ignore_ascii_case (h1_trim (last (split_bytes (\<lambda>c. c = 44) te)) 0) (ascii ''chunked'')
          then FramingChunked
          else FramingInvalid
      | None \<Rightarrow>
          (case cl of
             None \<Rightarrow> FramingNone
           | Some v \<Rightarrow>
               if v = [] then FramingInvalid
               else if header_values_disagree head (ascii ''content-length'') \<or> 44 \<in> set v then FramingInvalid
               else (case cl_digits v 0 of None \<Rightarrow> FramingInvalid | Some n \<Rightarrow> FramingLength n)))"

definition expects_continue :: "bytes \<Rightarrow> bool" where
  "expects_continue head =
     (case find_header head (ascii ''expect'') of
        Some v \<Rightarrow> eq_ignore_ascii_case v (ascii ''100-continue'')
      | None \<Rightarrow> False)"

fun conn_tokens :: "bytes list \<Rightarrow> bool \<times> bool \<Rightarrow> bool \<times> bool" where
  "conn_tokens [] seen = seen"
| "conn_tokens (t # ts) (saw_close, saw_keep) =
     (let trimmed = h1_trim t 0 in
      conn_tokens ts
        (if eq_ignore_ascii_case trimmed (ascii ''close'') then (True, saw_keep)
         else if eq_ignore_ascii_case trimmed (ascii ''keep-alive'') then (saw_close, True)
         else (saw_close, saw_keep)))"

function conn_loop :: "bytes \<Rightarrow> nat \<Rightarrow> bool \<times> bool \<Rightarrow> bool \<times> bool" where
  "conn_loop head cursor seen =
     (if cursor < length head then
        (case h1_line head cursor of
           None \<Rightarrow> seen
         | Some (line, nxt) \<Rightarrow>
             conn_loop head nxt
               (case byte_position (\<lambda>c. c = 58) line of
                  None \<Rightarrow> seen
                | Some colon \<Rightarrow>
                    if eq_ignore_ascii_case (take colon line) (ascii ''connection'')
                    then conn_tokens (split_bytes (\<lambda>c. c = 44) (drop (scan_while h1_wsp line (colon + 1)) line)) seen
                    else seen))
      else seen)"
  by pat_completeness auto
termination by (relation "measure (\<lambda>(head, cursor, seen). length head - cursor)") (auto dest: h1_line_next)

declare conn_loop.simps [simp del]

definition ends_with :: "bytes \<Rightarrow> bytes \<Rightarrow> bool" where
  "ends_with s t \<longleftrightarrow> length t \<le> length s \<and> drop (length s - length t) s = t"

definition request_keeps_alive :: "bytes \<Rightarrow> bool" where
  "request_keeps_alive head =
     (let line_end = h1_eol head 0 in
      if length head \<le> line_end + 1 then False
      else
        let req_line = take line_end head;
            v_is_11 = ends_with req_line (ascii ''HTTP/1.1''); v_is_10 = ends_with req_line (ascii ''HTTP/1.0'')
        in
          if \<not> v_is_11 \<and> \<not> v_is_10 then False
          else
            (case conn_loop head (line_end + 2) (False, False) of
               (saw_close, saw_keep) \<Rightarrow> if saw_close then False else if v_is_11 then True else saw_keep))"

section \<open>The request line\<close>

abbreviation (input) MAX_METHOD_SCAN :: nat where "MAX_METHOD_SCAN \<equiv> 24"

record request_line =
  rl_method :: byte
  rl_target_at :: nat
  rl_target_len :: nat

definition parse_request_line :: "(bytes \<Rightarrow> byte) \<Rightarrow> bytes \<Rightarrow> bytes \<Rightarrow> request_line option \<times> bytes" where
  "parse_request_line method_from_token src dst =
     (if length src < 14 then (None, dst)
      else
        let scan_cap = min (MAX_METHOD_SCAN + 1) (length src);
            m_end = scan_while (\<lambda>b. b \<noteq> 32) (take scan_cap src) 0
        in
          if m_end = 0 \<or> scan_cap \<le> m_end then (None, dst)
          else
            let verb = method_from_token (take m_end src);
                path_start = m_end + 1;
                path_end = scan_while (\<lambda>b. b \<noteq> 32) src path_start
            in
              if path_end \<le> path_start \<or> src ! path_start \<noteq> 47 then (None, dst)
              else
                let target_len = path_end - path_start
                in (Some \<lparr> rl_method = verb, rl_target_at = path_start, rl_target_len = target_len \<rparr>,
                    blit 0 (take (min target_len (length dst)) (drop path_start src)) dst))"

section \<open>Ranges\<close>

datatype range_parse = RangeNone | RangeSatisfiable u32 u32 | RangeUnsatisfiable

text \<open>\<open>saturating_mul\<close> and \<open>saturating_add\<close> at 64 bits.\<close>

fun range_number :: "bytes \<Rightarrow> nat \<Rightarrow> nat option" where
  "range_number [] acc = Some acc"
| "range_number (c # cs) acc =
     (if \<not> is_ascii_digit c then None
      else range_number cs (min (2 ^ 64 - 1) (min (2 ^ 64 - 1) (acc * 10) + unat (c - 48))))"

definition range_u64 :: "bytes \<Rightarrow> nat option" where
  "range_u64 b = (if b = [] then None else range_number b 0)"

definition parse_range_header :: "bytes \<Rightarrow> u32 \<Rightarrow> range_parse" where
  "parse_range_header vl sz =
     (if sz = 0 then RangeNone
      else if length vl < 6 then RangeNone
      else if map (\<lambda>c. if is_ascii_upper c then c + 32 else c) (take 6 vl) \<noteq> ascii ''bytes='' then RangeNone
      else
        let spec = drop 6 vl in
        if 44 \<in> set spec then RangeNone
        else
          (case byte_position (\<lambda>c. c = 45) spec of
             None \<Rightarrow> RangeNone
           | Some dash \<Rightarrow>
               let lst = sz - 1; start_bytes = take dash spec; end_bytes = drop (dash + 1) spec in
               if start_bytes = [] then
                 (case range_u64 end_bytes of
                    None \<Rightarrow> RangeNone
                  | Some v \<Rightarrow>
                      if 0 < v then RangeSatisfiable (of_nat (unat sz - min v (unat sz))) lst else RangeUnsatisfiable)
               else
                 (case range_u64 start_bytes of
                    None \<Rightarrow> RangeNone
                  | Some start \<Rightarrow>
                      if unat sz \<le> start then RangeUnsatisfiable
                      else
                        (case (if end_bytes = [] then Some (unat lst) else range_u64 end_bytes) of
                           None \<Rightarrow> RangeNone
                         | Some fin \<Rightarrow>
                             if fin < start then RangeUnsatisfiable
                             else RangeSatisfiable (of_nat start) (of_nat (min fin (unat lst)))))))"

section \<open>Writers\<close>

text \<open>The \<open>put!\<close> of the response writers copies what fits.\<close>

definition h1_tput :: "bytes \<Rightarrow> nat \<times> bytes \<Rightarrow> nat \<times> bytes" where
  "h1_tput src st = (case st of (off, dst) \<Rightarrow>
     let n = min (length src) (length dst - off) in (off + n, blit off (take n src) dst))"

definition write_status_line :: "bytes \<Rightarrow> bytes \<Rightarrow> bool \<Rightarrow> bytes \<Rightarrow> nat \<times> bytes" where
  "write_status_line status content_type keepalive dst =
     fold h1_tput
       [ascii ''HTTP/1.1 '', status,
        (if keepalive then crlf @ ascii ''Connection: keep-alive'' @ crlf @ ascii ''Cache-Control: no-store'' @ crlf @ ascii ''Content-Type: ''
         else crlf @ ascii ''Connection: close'' @ crlf @ ascii ''Cache-Control: no-store'' @ crlf @ ascii ''Content-Type: ''),
        content_type, crlf @ crlf] (0, dst)"

definition write_error_response :: "bytes \<Rightarrow> bytes \<Rightarrow> bytes \<Rightarrow> nat \<times> bytes" where
  "write_error_response code body dst =
     fold h1_tput [ascii ''HTTP/1.1 '', code, crlf @ ascii ''Connection: close'' @ crlf @ crlf, body] (0, dst)"

record request_options =
  ro_authority :: bytes
  ro_body_len :: nat
  ro_http11 :: bool
  ro_keep_alive :: bool

definition h1_put :: "nat \<Rightarrow> bytes \<Rightarrow> nat writer" where
  "h1_put off src dst = (if length dst < off + length src then (None, dst) else (Some (off + length src), blit off src dst))"

function h1_digits :: "nat \<Rightarrow> bytes \<Rightarrow> bytes" where
  "h1_digits n acc =
     (let acc = (48 + of_nat (n mod 10)) # acc in if 0 < n div 10 then h1_digits (n div 10) acc else acc)"
  by pat_completeness auto
termination by (relation "measure fst") auto

declare h1_digits.simps [simp del]

definition write_request_head :: "(byte \<Rightarrow> bytes) \<Rightarrow> byte \<Rightarrow> byte \<Rightarrow> bytes \<Rightarrow> request_options \<Rightarrow> nat writer" where
  "write_request_head method_name method_connect meth path opts dst =
     (if path = [] \<or> ro_authority opts = [] then (None, dst)
      else if hd path \<noteq> 47 \<or> (\<exists>b \<in> set path. b \<le> 32 \<or> b = 127) \<or> (\<exists>b \<in> set (ro_authority opts). b \<le> 32 \<or> b = 127)
        \<or> meth = method_connect then (None, dst)
      else if method_name meth = [] then (None, dst)
      else
        puts h1_put 0
          ([method_name meth, [32], path,
            (if ro_http11 opts then ascii '' HTTP/1.1'' @ crlf @ ascii ''Host: '' else ascii '' HTTP/1.0'' @ crlf @ ascii ''Host: ''),
            ro_authority opts] @
           (if 0 < ro_body_len opts then [crlf @ ascii ''Content-Length: '', h1_digits (ro_body_len opts) []] else []) @
           [if ro_keep_alive opts then crlf @ ascii ''Connection: keep-alive'' @ crlf @ crlf
            else crlf @ ascii ''Connection: close'' @ crlf @ crlf]) dst)"

interpretation h1put: bounded_put h1_put
  by unfold_locales (simp_all add: h1_put_def)


section \<open>Heads as lists of lines\<close>

text \<open>A head: its first line, its field lines, the blank line. No line holds a CRLF and no field line is empty.\<close>

definition h1_head :: "bytes \<Rightarrow> bytes list \<Rightarrow> bytes" where
  "h1_head rl fls = rl @ crlf @ concat (map (\<lambda>l. l @ crlf) fls) @ crlf"

definition head_ok :: "bytes \<Rightarrow> bytes list \<Rightarrow> bool" where
  "head_ok rl fls \<longleftrightarrow> crlf_position rl = None \<and> list_all (\<lambda>l. l \<noteq> [] \<and> crlf_position l = None) fls"

lemma h1_head_Cons: "h1_head rl (l # fs) = rl @ crlf @ h1_head l fs"
  by (simp add: h1_head_def)

lemma head_ok_Cons: "head_ok rl (l # fs) \<longleftrightarrow> crlf_position rl = None \<and> l \<noteq> [] \<and> head_ok l fs"
  by (auto simp: head_ok_def)

lemma crlf_position_cat:
  "crlf_position l = None \<Longrightarrow> crlf_position (l @ crlf @ r) = Some (length l)"
proof (induction l rule: crlf_position.induct)
  case (1 a b bs)
  then show ?case by (auto split: if_splits)
qed (auto simp: crlf_def)

lemma crlf_position_split:
  "crlf_position b = Some e \<Longrightarrow> \<exists>l r. b = l @ crlf @ r \<and> crlf_position l = None \<and> length l = e"
proof (induction b arbitrary: e rule: crlf_position.induct)
  case (1 a b bs)
  show ?case
  proof (cases "a = 13 \<and> b = 10")
    case True
    with "1.prems" have "a # b # bs = [] @ crlf @ bs" and "e = 0" by (auto simp: crlf_def)
    then show ?thesis by (intro exI [of _ "[]"] exI [of _ bs]) simp
  next
    case False
    with "1.prems" obtain e' where e: "crlf_position (b # bs) = Some e'" "e = Suc e'" by auto
    with "1.IH" [OF False e(1)] obtain l r where l: "b # bs = l @ crlf @ r" "crlf_position l = None" "length l = e'"
      by blast
    have "crlf_position (a # l) = None" using l False by (cases l) (auto split: if_splits)
    with l e(2) show ?thesis by (intro exI [of _ "a # l"] exI [of _ r]) auto
  qed
qed auto

text \<open>The sentinel search, structurally.\<close>

fun head_end :: "bytes \<Rightarrow> nat option" where
  "head_end (a # b # c # d # r) =
     (if a = 13 \<and> b = 10 \<and> c = 13 \<and> d = 10 then Some 4 else map_option Suc (head_end (b # c # d # r)))"
| "head_end _ = None"

lemma head_end_short: "length b < 4 \<Longrightarrow> head_end b = None"
  by (cases b rule: head_end.cases) simp_all

lemma drop_step: "j < length b \<Longrightarrow> k = j + 1 \<Longrightarrow> drop j b = b ! j # drop k b"
  by (simp add: Cons_nth_drop_Suc)

lemma drop_4: "i + 3 < length b \<Longrightarrow> drop i b = b ! i # b ! (i + 1) # b ! (i + 2) # b ! (i + 3) # drop (i + 4) b"
  using drop_step [of i b "i + 1"] drop_step [of "i + 1" b "i + 2"] drop_step [of "i + 2" b "i + 3"]
    drop_step [of "i + 3" b "i + 4"] by simp

lemma find_header_end_loop_eq:
  assumes "len \<le> length buf"
  shows "find_header_end_loop buf len i = map_option (\<lambda>n. n + i) (head_end (drop i (take len buf)))"
  using assms
proof (induction buf len i rule: find_header_end_loop.induct)
  case (1 buf len i)
  show ?case
  proof (cases "i + 3 < len")
    case True
    let ?b = "take len buf"
    have d: "drop i ?b = ?b ! i # ?b ! (i + 1) # ?b ! (i + 2) # ?b ! (i + 3) # drop (i + 4) ?b"
      using True "1.prems" by (intro drop_4) simp
    have d': "drop (i + 1) ?b = ?b ! (i + 1) # ?b ! (i + 2) # ?b ! (i + 3) # drop (i + 4) ?b"
      using arg_cong [OF d, of "drop 1"] by simp
    from True 1 show ?thesis
      unfolding d by (subst find_header_end_loop.simps) (auto simp: d' [simplified] option.map_comp comp_def)
  next
    case False
    then have "length (drop i (take len buf)) < 4" by simp
    then have "head_end (drop i (take len buf)) = None" by (rule head_end_short)
    with False show ?thesis by (subst find_header_end_loop.simps) simp
  qed
qed

lemma find_header_end_eq: "len \<le> length buf \<Longrightarrow> find_header_end buf len = head_end (take len buf)"
proof (cases "len < 4")
  case True
  then have "length (take len buf) < 4" by simp
  then have "head_end (take len buf) = None" by (rule head_end_short)
  with True show ?thesis by (simp add: find_header_end_def)
qed (simp add: find_header_end_def find_header_end_loop_eq map_option.id [unfolded id_def] option.map_ident)

lemma head_end_step:
  "head_end (a # r) = (if take 4 (a # r) = [13, 10, 13, 10] then Some 4 else map_option Suc (head_end r))"
  by (cases "a # r" rule: head_end.cases) (auto simp: numeral_eq_Suc)

lemma crlf_position_Cons: "crlf_position (a # l) = None \<Longrightarrow> crlf_position l = None \<and> (l = [] \<or> \<not> (a = 13 \<and> hd l = 10))"
  by (cases l) (auto split: if_splits)

lemma head_end_line:
  "crlf_position l = None \<Longrightarrow>
   head_end (l @ crlf @ r) = (if take 2 r = crlf then Some (length l + 4) else map_option (\<lambda>n. n + length l + 2) (head_end r))"
proof (induction l)
  case Nil
  show ?case by (auto simp: crlf_def head_end_step option.map_comp comp_def)
next
  case (Cons a l)
  from crlf_position_Cons [OF Cons.prems] have l: "crlf_position l = None" "l = [] \<or> \<not> (a = 13 \<and> hd l = 10)" by simp_all
  have "take 4 (a # l @ crlf @ r) \<noteq> [13, 10, 13, 10]"
    using l(2) by (cases l) (auto simp: crlf_def)
  then show ?case
    using Cons.IH [OF l(1)] by (auto simp: head_end_step [of a] option.map_comp comp_def)
qed

lemma head_end_no_crlf: "crlf_position b = None \<Longrightarrow> head_end b = None"
proof (induction b)
  case (Cons a b)
  from crlf_position_Cons [OF Cons.prems] Cons.IH show ?case
    by (cases b) (auto simp: head_end_step)
qed simp

text \<open>The search finds exactly the heads.\<close>

lemma head_end_head: "head_ok rl fls \<Longrightarrow> head_end (h1_head rl fls @ r) = Some (length (h1_head rl fls))"
proof (induction fls arbitrary: rl)
  case Nil
  then show ?case using head_end_line [of rl "crlf @ r"] by (simp add: h1_head_def head_ok_def)
next
  case (Cons l fls)
  then have l: "crlf_position rl = None" "l \<noteq> []" "head_ok l fls" "crlf_position l = None"
    by (simp_all add: head_ok_Cons) (simp add: head_ok_def)
  have "take 2 (h1_head l fls @ r) \<noteq> crlf"
  proof (cases l)
    case (Cons a k)
    then show ?thesis using l(4) by (cases k) (auto simp: h1_head_def crlf_def)
  qed (use l in simp)
  with Cons.IH [OF l(3)] head_end_line [OF l(1), of "h1_head l fls @ r"] show ?case
    by (simp add: h1_head_Cons)
qed

lemma head_end_shape: "head_end b = Some n \<Longrightarrow> \<exists>rl fls r. b = h1_head rl fls @ r \<and> head_ok rl fls"
proof (induction b arbitrary: n rule: length_induct)
  case (1 b)
  obtain e where "crlf_position b = Some e" using "1.prems" head_end_no_crlf by (cases "crlf_position b") auto
  then obtain l r where b: "b = l @ crlf @ r" and l: "crlf_position l = None" by (blast dest: crlf_position_split)
  show ?case
  proof (cases "take 2 r = crlf")
    case True
    then have "r = crlf @ drop 2 r" by (metis append_take_drop_id)
    then have "b = h1_head l [] @ drop 2 r" using b by (simp add: h1_head_def)
    with l show ?thesis by (intro exI [of _ l] exI [of _ "[]"] exI [of _ "drop 2 r"]) (simp add: head_ok_def)
  next
    case False
    with "1.prems" obtain m where "head_end r = Some m" by (auto simp: b head_end_line [OF l])
    moreover have "length r < length b" by (simp add: b)
    ultimately obtain rl fls t where r: "r = h1_head rl fls @ t" "head_ok rl fls" using "1.IH" by blast
    have "rl \<noteq> []" using False r(1) by (auto simp: h1_head_def crlf_def)
    with l r have "head_ok l (rl # fls)" by (simp add: head_ok_Cons)
    moreover have "b = h1_head l (rl # fls) @ t" using b r by (simp add: h1_head_Cons)
    ultimately show ?thesis by blast
  qed
qed

text \<open>Whatever has arrived in the receive buffer, the header-end search answers \<open>n\<close> exactly when the
  first \<open>n\<close> populated bytes are a head: a first line, non-empty field lines and a blank line, with no CRLF
  inside a line. It never ends a head early, runs past one or misses one.\<close>

theorem find_header_end_exact:
  assumes "len \<le> length buf"
  shows "find_header_end buf len = Some n \<longleftrightarrow>
    (\<exists>rl fls r. take len buf = h1_head rl fls @ r \<and> head_ok rl fls \<and> n = length (h1_head rl fls))"
proof
  assume "find_header_end buf len = Some n"
  then have h: "head_end (take len buf) = Some n" using assms by (simp add: find_header_end_eq)
  then obtain rl fls r where "take len buf = h1_head rl fls @ r" "head_ok rl fls" by (blast dest: head_end_shape)
  with h show "\<exists>rl fls r. take len buf = h1_head rl fls @ r \<and> head_ok rl fls \<and> n = length (h1_head rl fls)"
    using head_end_head [of rl fls r] by (intro exI) (auto intro!: exI)
next
  assume "\<exists>rl fls r. take len buf = h1_head rl fls @ r \<and> head_ok rl fls \<and> n = length (h1_head rl fls)"
  then show "find_header_end buf len = Some n" using assms head_end_head by (auto simp: find_header_end_eq)
qed

theorem find_header_end_exact_witness:
  "find_header_end ([65, 13, 10, 13, 10, 66] @ replicate 3 0) 6 = Some 5"
proof -
  have "take 6 ([65, 13, 10, 13, 10, 66] @ replicate 3 0) = h1_head [65] [] @ [66]" "head_ok [65] []" "5 = length (h1_head [65] [])"
    by (simp_all add: h1_head_def crlf_def head_ok_def)
  then show ?thesis
    by (intro find_header_end_exact [THEN iffD2]) (simp, blast)
qed

section \<open>The field walks over a head\<close>

text \<open>A field line by its grammar: the name is what stands before the first colon and is compared without
  regard to case, the value is what stands after it less the blanks around it.\<close>

definition fold_case :: "byte \<Rightarrow> byte" where
  "fold_case b = (if 65 \<le> b \<and> b \<le> 90 then b + 32 else b)"

definition strip_blanks :: "bytes \<Rightarrow> bytes" where
  "strip_blanks v = rev (dropWhile (\<lambda>b. b \<in> {32, 9}) (rev (dropWhile (\<lambda>b. b \<in> {32, 9}) v)))"

definition field_value :: "bytes \<Rightarrow> bytes \<Rightarrow> bytes option" where
  "field_value name line =
     (if 58 \<in> set line \<and> map fold_case (takeWhile (\<lambda>b. b \<noteq> 58) line) = map fold_case name
      then Some (strip_blanks (tl (dropWhile (\<lambda>b. b \<noteq> 58) line)))
      else None)"

definition field_values :: "bytes \<Rightarrow> bytes list \<Rightarrow> bytes list" where
  "field_values name fls = List.map_filter (field_value name) fls"

lemma bslice_trim_end:
  "vs \<le> n \<Longrightarrow> n \<le> length line \<Longrightarrow>
   bslice vs (h1_trim_end line vs n) line = rev (dropWhile h1_wsp (rev (bslice vs n line)))"
proof (induction n)
  case 0
  then show ?case by (simp add: bslice_def)
next
  case (Suc n)
  show ?case
  proof (cases "vs = Suc n")
    case False
    with Suc.prems have "bslice vs (Suc n) line = bslice vs n line @ [line ! n]"
      by (simp add: bslice_def Suc_diff_le take_Suc_conv_app_nth)
    with Suc False show ?thesis by simp
  qed (simp add: bslice_def)
qed

lemma bslice_to_end: "bslice i (length b) b = drop i b"
  by (simp add: bslice_def)

lemma h1_trim_eq:
  assumes "k \<le> length line"
  shows "h1_trim line k = rev (dropWhile h1_wsp (rev (dropWhile h1_wsp (drop k line))))"
proof -
  let ?vs = "scan_while h1_wsp line k"
  have "?vs \<le> length line" using assms by (rule scan_while_le)
  then have "h1_trim line k = rev (dropWhile h1_wsp (rev (bslice ?vs (length line) line)))"
    by (simp add: h1_trim_def Let_def bslice_trim_end)
  moreover have "bslice ?vs (length line) line = dropWhile h1_wsp (drop k line)"
    using assms by (simp add: bslice_to_end drop_scan_while)
  ultimately show ?thesis by simp
qed

lemma fold_case_eq: "to_ascii_lowercase = fold_case"
  by (simp add: fun_eq_iff to_ascii_lowercase_def is_ascii_upper_def fold_case_def)

lemma h1_trim_strip: "k \<le> length line \<Longrightarrow> h1_trim line k = strip_blanks (drop k line)"
  by (simp add: h1_trim_eq strip_blanks_def)

lemma byte_position_eq:
  "byte_position P bs = (if \<exists>b \<in> set bs. P b then Some (length (takeWhile (\<lambda>b. \<not> P b) bs)) else None)"
  by (induction bs) auto

lemma h1_field_grammar: "h1_field name line = field_value name line"
proof (cases "58 \<in> set line")
  case False
  then show ?thesis by (auto simp: h1_field_def field_value_def byte_position_eq)
next
  case True
  then obtain nm v where l: "line = nm @ 58 # v" "58 \<notin> set nm" by (meson split_list_first)
  have "takeWhile (\<lambda>b. b \<noteq> 58) (nm @ 58 # v) = nm @ takeWhile (\<lambda>b. b \<noteq> 58) (58 # v)"
    "dropWhile (\<lambda>b. b \<noteq> 58) (nm @ 58 # v) = dropWhile (\<lambda>b. b \<noteq> 58) (58 # v)"
    using l(2) by (intro takeWhile_append2 dropWhile_append2; auto)+
  then have "takeWhile (\<lambda>b. b \<noteq> 58) line = nm" "dropWhile (\<lambda>b. b \<noteq> 58) line = 58 # v"
    by (simp_all add: l(1))
  moreover have "h1_trim line (Suc (length nm)) = strip_blanks v"
    using h1_trim_strip [of "Suc (length nm)" line] by (simp add: l(1))
  ultimately show ?thesis using True
    by (simp add: h1_field_def field_value_def byte_position_eq eq_ignore_ascii_case_def fold_case_eq l(1))
qed

lemma field_values_simps [simp]:
  "field_values name [] = []"
  "field_values name (l # fls) = (case h1_field name l of None \<Rightarrow> field_values name fls | Some v \<Rightarrow> v # field_values name fls)"
  by (simp_all add: field_values_def h1_field_grammar map_filter_simps split: option.split)

text \<open>What a walk sees of the lines still ahead of it.\<close>

abbreviation h1_lines :: "bytes list \<Rightarrow> bytes" where
  "h1_lines fls \<equiv> concat (map (\<lambda>l. l @ crlf) fls) @ crlf"

lemma h1_eol_line: "crlf_position l = None \<Longrightarrow> h1_eol (p @ l @ crlf @ r) (length p) = length p + length l"
proof (induction l arbitrary: p)
  case Nil
  show ?case by (subst h1_eol.simps) (simp add: crlf_def nth_append)
next
  case (Cons a l)
  from crlf_position_Cons [OF Cons.prems] have l: "crlf_position l = None" "l = [] \<or> \<not> (a = 13 \<and> hd l = 10)" by simp_all
  have "(p @ (a # l) @ crlf @ r) ! (length p + 1) = hd (l @ crlf)"
    by (cases l) (simp_all add: nth_append crlf_def)
  then have "\<not> ((p @ (a # l) @ crlf @ r) ! length p = 13 \<and> (p @ (a # l) @ crlf @ r) ! (length p + 1) = 10)"
    using l(2) by (cases l) (auto simp: crlf_def)
  then have "h1_eol (p @ (a # l) @ crlf @ r) (length p) = h1_eol ((p @ [a]) @ l @ crlf @ r) (length (p @ [a]))"
    by (subst h1_eol.simps) auto
  with Cons.IH [OF l(1), of "p @ [a]"] show ?case by simp
qed

lemma h1_line_step:
  "crlf_position l = None \<Longrightarrow> l \<noteq> [] \<Longrightarrow>
   h1_line (p @ l @ crlf @ r) (length p) = Some (l, length (p @ l @ crlf))"
  by (simp add: h1_line_def Let_def h1_eol_line bslice_def)

lemma h1_line_stop: "h1_line (p @ crlf @ r) (length p) = None"
  using h1_eol_line [of "[]" p r] by (simp add: h1_line_def Let_def)

lemma find_header_loop_lines:
  "list_all (\<lambda>l. l \<noteq> [] \<and> crlf_position l = None) fls \<Longrightarrow>
   find_header_loop (p @ h1_lines fls) name (length p) =
     (case field_values name fls of [] \<Rightarrow> None | v # _ \<Rightarrow> Some v)"
proof (induction fls arbitrary: p)
  case Nil
  show ?case using h1_line_stop [of p "[]"] by (subst find_header_loop.simps) simp
next
  case (Cons l fls)
  then show ?case
    using h1_line_step [of l p "h1_lines fls"] Cons.IH [of "p @ l @ crlf"]
    by (subst find_header_loop.simps) (simp split: option.split)
qed

lemma disagree_loop_lines:
  "list_all (\<lambda>l. l \<noteq> [] \<and> crlf_position l = None) fls \<Longrightarrow>
   disagree_loop (p @ h1_lines fls) name (length p) seen =
     (case (case seen of None \<Rightarrow> field_values name fls | Some v \<Rightarrow> v # field_values name fls) of
        [] \<Rightarrow> False | v # vs \<Rightarrow> \<exists>w \<in> set vs. w \<noteq> v)"
proof (induction fls arbitrary: p seen)
  case Nil
  show ?case using h1_line_stop [of p "[]"] by (subst disagree_loop.simps) (simp split: option.split)
next
  case (Cons l fls)
  then show ?case
    using h1_line_step [of l p "h1_lines fls"] Cons.IH [of "p @ l @ crlf"]
    by (subst disagree_loop.simps) (auto split: option.split)
qed

lemma conn_loop_lines:
  "list_all (\<lambda>l. l \<noteq> [] \<and> crlf_position l = None) fls \<Longrightarrow>
   conn_loop (p @ h1_lines fls) (length p) seen =
     fold (\<lambda>l seen. case byte_position (\<lambda>c. c = 58) l of
                      None \<Rightarrow> seen
                    | Some colon \<Rightarrow>
                        if eq_ignore_ascii_case (take colon l) (ascii ''connection'')
                        then conn_tokens (split_bytes (\<lambda>c. c = 44) (drop (scan_while h1_wsp l (colon + 1)) l)) seen
                        else seen) fls seen"
proof (induction fls arbitrary: p seen)
  case Nil
  show ?case using h1_line_stop [of p "[]"] by (subst conn_loop.simps) (simp split: option.split)
next
  case (Cons l fls)
  then show ?case
    using h1_line_step [of l p "h1_lines fls"] Cons.IH [of "p @ l @ crlf"]
    by (subst conn_loop.simps) simp
qed

lemma head_ok_D:
  assumes "head_ok rl fls"
  shows "h1_eol (h1_head rl fls) 0 = length rl" and "list_all (\<lambda>l. l \<noteq> [] \<and> crlf_position l = None) fls"
    and "h1_head rl fls = (rl @ crlf) @ h1_lines fls" and "length (h1_head rl fls) > length rl + 1"
  using assms h1_eol_line [of rl "[]"] by (simp_all add: head_ok_def h1_head_def)

lemma find_header_head:
  assumes "head_ok rl fls"
  shows "find_header (h1_head rl fls) name = (case field_values name fls of [] \<Rightarrow> None | v # _ \<Rightarrow> Some v)"
  using find_header_loop_lines [OF head_ok_D(2) [OF assms], of "rl @ crlf" name] head_ok_D(1,3,4) [OF assms]
  by (simp add: find_header_def Let_def)

lemma header_values_disagree_head:
  assumes "head_ok rl fls"
  shows "header_values_disagree (h1_head rl fls) name =
    (case field_values name fls of [] \<Rightarrow> False | v # vs \<Rightarrow> \<exists>w \<in> set vs. w \<noteq> v)"
  using disagree_loop_lines [OF head_ok_D(2) [OF assms], of "rl @ crlf" name None] head_ok_D(1,3,4) [OF assms]
  by (simp add: header_values_disagree_def Let_def)

section \<open>Decimal numbers\<close>

definition dec_val :: "nat \<Rightarrow> bytes \<Rightarrow> nat" where
  "dec_val a v = foldl (\<lambda>a c. a * 10 + unat (c - 48)) a v"

lemma dec_val_simps [simp]: "dec_val a [] = a" "dec_val a (c # v) = dec_val (a * 10 + unat (c - 48)) v"
  by (simp_all add: dec_val_def)

lemma dec_val_mono: "a \<le> dec_val a v"
proof (induction v arbitrary: a)
  case (Cons c v)
  show ?case using Cons.IH [of "a * 10 + unat (c - 48)"] by simp
qed simp

lemma cl_digits_iff:
  "a < 2 ^ 64 \<Longrightarrow> cl_digits v a = Some n \<longleftrightarrow> list_all is_ascii_digit v \<and> dec_val a v = n \<and> n < 2 ^ 64"
proof (induction v arbitrary: a)
  case (Cons c v)
  show ?case
    using Cons.IH [of "a * 10 + unat (c - 48)"] dec_val_mono [of "a * 10 + unat (c - 48)" v] by auto
qed auto

lemma h1_digits_acc: "h1_digits n acc = h1_digits n [] @ acc"
proof (induction n arbitrary: acc rule: less_induct)
  case (less n)
  show ?case
  proof (cases "n < 10")
    case True
    then show ?thesis by (simp add: h1_digits.simps [of n])
  next
    case False
    then have "n div 10 < n" by simp
    note IH = less.IH [OF this]
    from False show ?thesis
      by (simp add: h1_digits.simps [of n] Let_def) (simp only: IH [of "_ # _"], simp)
  qed
qed

lemma h1_digits_step: "h1_digits n [] = (if n < 10 then [] else h1_digits (n div 10) []) @ [48 + of_nat (n mod 10)]"
  by (subst h1_digits.simps) (simp add: Let_def h1_digits_acc [of "n div 10" "[_]"] div_greater_zero_iff not_less)

lemma h1_digits_val: "list_all is_ascii_digit (h1_digits n []) \<and> dec_val 0 (h1_digits n []) = n \<and> h1_digits n [] \<noteq> []"
proof (induction n rule: less_induct)
  case (less n)
  have d: "is_ascii_digit (48 + of_nat (n mod 10))" "unat (of_nat (n mod 10) :: byte) = n mod 10"
    by (simp_all add: is_ascii_digit_def word_le_nat_alt unat_word_ariths unat_of_nat)
  have app: "dec_val 0 (u @ [48 + of_nat (n mod 10)]) = dec_val 0 u * 10 + n mod 10" for u
    by (simp add: dec_val_def d(2))
  show ?case
    using less.IH [of "n div 10"] d(1) by (simp add: h1_digits_step [of n] app)
qed

lemma cl_digits_h1_digits: "n < 2 ^ 64 \<Longrightarrow> cl_digits (h1_digits n []) 0 = Some n"
  using h1_digits_val [of n] by (simp add: cl_digits_iff)

section \<open>Body framing is unambiguous\<close>

text \<open>The last of a comma-separated list of codings, without the blanks around it.\<close>

definition final_coding :: "bytes \<Rightarrow> bytes" where
  "final_coding v = strip_blanks (last (split_bytes (\<lambda>c. c = 44) v))"

lemma chunked_test:
  "eq_ignore_ascii_case (h1_trim (last (split_bytes (\<lambda>c. c = 44) v)) 0) (ascii ''chunked'') \<longleftrightarrow>
   map fold_case (final_coding v) = ascii ''chunked''"
proof -
  have "map to_ascii_lowercase (ascii ''chunked'') = ascii ''chunked''" by code_simp
  then show ?thesis by (simp add: eq_ignore_ascii_case_def final_coding_def h1_trim_strip fold_case_eq)
qed

text \<open>C23. How the body of a request is framed, over all the field lines of a head with at most one
  Transfer-Encoding line: a length is taken exactly when there is no Transfer-Encoding line and there are
  Content-Length lines that all carry the same digits, whose value it is and which is below \<open>2 ^ 64\<close>;
  chunked exactly when there is no Content-Length line and the final coding of the Transfer-Encoding line is
  \<open>chunked\<close>; no body exactly when neither field is present; and every other head is refused. (With two
  Transfer-Encoding lines the first one decides: \<open>second_transfer_encoding_ignored\<close>.)\<close>

theorem body_framing_unambiguous:
  assumes "head_ok rl fls" and "length (field_values (ascii ''transfer-encoding'') fls) \<le> 1"
  shows "(body_framing (h1_head rl fls) = FramingLength n \<longleftrightarrow>
      field_values (ascii ''transfer-encoding'') fls = [] \<and>
      (\<exists>v k. field_values (ascii ''content-length'') fls = replicate (Suc k) v \<and> v \<noteq> [] \<and>
         list_all is_ascii_digit v \<and> dec_val 0 v = n \<and> n < 2 ^ 64)) \<and>
    (body_framing (h1_head rl fls) = FramingChunked \<longleftrightarrow>
      field_values (ascii ''content-length'') fls = [] \<and>
      (\<exists>te. field_values (ascii ''transfer-encoding'') fls = [te] \<and> map fold_case (final_coding te) = ascii ''chunked'')) \<and>
    (body_framing (h1_head rl fls) = FramingNone \<longleftrightarrow>
      field_values (ascii ''content-length'') fls = [] \<and> field_values (ascii ''transfer-encoding'') fls = [])"
proof -
  let ?f = "body_framing (h1_head rl fls)"
  let ?cl = "field_values (ascii ''content-length'') fls" and ?te = "field_values (ascii ''transfer-encoding'') fls"
  note F = body_framing_def Let_def find_header_head [OF assms(1)] header_values_disagree_head [OF assms(1)] chunked_test
  show ?thesis
  proof (cases ?te)
    case (Cons te tes)
    then show ?thesis using assms(2) by (cases ?cl) (simp_all add: F)
  next
    case te: Nil
    show ?thesis
    proof (cases ?cl)
      case Nil
      with te show ?thesis by (simp add: F)
    next
      case (Cons v vs)
      have "list_all is_ascii_digit v \<Longrightarrow> 44 \<notin> set v"
        by (auto simp: list_all_iff is_ascii_digit_def)
      moreover have "(\<forall>w \<in> set vs. w = v) \<longleftrightarrow> (\<exists>k. vs = replicate k v)"
        by (metis replicate_length_same in_set_replicate)
      moreover have "cl_digits v 0 = None \<Longrightarrow> list_all is_ascii_digit v \<Longrightarrow> 2 ^ 64 \<le> dec_val 0 v"
        using cl_digits_iff [of 0 v "dec_val 0 v"] by auto
      ultimately show ?thesis
        using te Cons by (auto simp: F cl_digits_iff split: option.splits)
    qed
  qed
qed

text \<open>The witness head: a request with two equal Content-Length lines.\<close>

definition demo_rl :: bytes where
  "demo_rl = ascii ''PUT /a HTTP/1.1''"

definition demo_fields :: "bytes list" where
  "demo_fields = [ascii ''Host: h'', ascii ''Content-Length: 17'', ascii ''content-length:17'']"

theorem body_framing_unambiguous_witness:
  "body_framing (h1_head demo_rl demo_fields) = FramingLength 17"
proof -
  have ok: "head_ok demo_rl demo_fields" by code_simp
  have te: "field_values (ascii ''transfer-encoding'') demo_fields = []" by code_simp
  have cl: "field_values (ascii ''content-length'') demo_fields = replicate (Suc 1) (ascii ''17'')" by code_simp
  have "ascii ''17'' \<noteq> []" "list_all is_ascii_digit (ascii ''17'')" "dec_val 0 (ascii ''17'') = 17" by code_simp+
  with cl have "\<exists>v k. field_values (ascii ''content-length'') demo_fields = replicate (Suc k) v \<and> v \<noteq> [] \<and>
      list_all is_ascii_digit v \<and> dec_val 0 v = 17 \<and> 17 < (2 :: nat) ^ 64"
    by (intro exI [of _ "ascii ''17''"] exI [of _ 1]) simp
  moreover have "length (field_values (ascii ''transfer-encoding'') demo_fields) \<le> 1" by (simp add: te)
  ultimately show ?thesis using body_framing_unambiguous [OF ok, of 17] te by blast
qed

text \<open>A second Transfer-Encoding line is not looked at: whatever it says, a first one that ends in \<open>chunked\<close>
  makes the body chunked.\<close>

theorem second_transfer_encoding_ignored:
  assumes "head_ok rl fls" and "field_values (ascii ''content-length'') fls = []"
    and "field_values (ascii ''transfer-encoding'') fls = [ascii ''chunked'', other]"
  shows "body_framing (h1_head rl fls) = FramingChunked"
proof -
  have "map fold_case (final_coding (ascii ''chunked'')) = ascii ''chunked''" by code_simp
  then show ?thesis
    by (simp add: body_framing_def Let_def find_header_head [OF assms(1)] assms(2,3) chunked_test)
qed

section \<open>A written head is read back\<close>

lemma byte_position_append: "\<forall>c \<in> set nm. \<not> P c \<Longrightarrow> P x \<Longrightarrow> byte_position P (nm @ x # r) = Some (length nm)"
  by (induction nm) auto

lemma h1_field_line:
  assumes "58 \<notin> set nm" and "\<forall>c \<in> set v. 32 < c"
  shows "h1_field name (nm @ [58, 32] @ v) = (if eq_ignore_ascii_case nm name then Some v else None)"
proof -
  have w: "\<forall>c \<in> set v. \<not> h1_wsp c" using assms(2) by (auto simp: word_less_nat_alt)
  then have "dropWhile h1_wsp v = v" "dropWhile h1_wsp (rev v) = rev v"
    by (auto intro!: dropWhile_id)
  moreover have "byte_position (\<lambda>c. c = 58) (nm @ 58 # 32 # v) = Some (length nm)"
    using assms(1) by (intro byte_position_append) auto
  ultimately show ?thesis by (simp add: h1_field_def h1_trim_eq)
qed

definition request_fields :: "request_options \<Rightarrow> bytes list" where
  "request_fields opts =
     [ascii ''Host'' @ [58, 32] @ ro_authority opts] @
     (if 0 < ro_body_len opts then [ascii ''Content-Length'' @ [58, 32] @ h1_digits (ro_body_len opts) []] else []) @
     [ascii ''Connection'' @ [58, 32] @ (if ro_keep_alive opts then ascii ''keep-alive'' else ascii ''close'')]"

lemma crlf_position_free: "13 \<notin> set l \<Longrightarrow> crlf_position l = None"
  by (induction l rule: crlf_position.induct) auto

lemma write_request_head_eq:
  assumes "write_request_head method_name method_connect meth path opts dst = (Some n, dst')"
  shows "take n dst' = h1_head (method_name meth @ [32] @ path @ (if ro_http11 opts then ascii '' HTTP/1.1'' else ascii '' HTTP/1.0''))
      (request_fields opts) \<and> n = length (take n dst') \<and> method_name meth \<noteq> [] \<and> path \<noteq> [] \<and> hd path = 47 \<and>
    (\<forall>b \<in> set path \<union> set (ro_authority opts). 32 < b)"
proof -
  have lits: "ascii ''Host: '' = ascii ''Host'' @ [58, 32]" "ascii ''Content-Length: '' = ascii ''Content-Length'' @ [58, 32]"
    "ascii ''Connection: keep-alive'' = ascii ''Connection'' @ [58, 32] @ ascii ''keep-alive''"
    "ascii ''Connection: close'' = ascii ''Connection'' @ [58, 32] @ ascii ''close''"
    by code_simp+
  have g: "path \<noteq> []" "hd path = 47" "method_name meth \<noteq> []" "\<forall>b \<in> set path \<union> set (ro_authority opts). 32 < b"
    using assms by (auto simp: write_request_head_def not_le split: if_splits)
  let ?xs = "[method_name meth, [32], path,
            (if ro_http11 opts then ascii '' HTTP/1.1'' @ crlf @ ascii ''Host: '' else ascii '' HTTP/1.0'' @ crlf @ ascii ''Host: ''),
            ro_authority opts] @
           (if 0 < ro_body_len opts then [crlf @ ascii ''Content-Length: '', h1_digits (ro_body_len opts) []] else []) @
           [if ro_keep_alive opts then crlf @ ascii ''Connection: keep-alive'' @ crlf @ crlf
            else crlf @ ascii ''Connection: close'' @ crlf @ crlf]"
  have "puts h1_put 0 ?xs dst = (Some n, dst')"
    using assms unfolding write_request_head_def by (simp only: prod.inject option.distinct simp_thms split: if_split_asm)
  then have p: "n = length (concat ?xs)" "dst' = blit 0 (concat ?xs) dst"
    unfolding h1put.puts_iff [OF le0] by simp_all
  have "concat ?xs = h1_head (method_name meth @ [32] @ path @ (if ro_http11 opts then ascii '' HTTP/1.1'' else ascii '' HTTP/1.0'')) (request_fields opts)"
    by (cases "ro_http11 opts"; cases "ro_keep_alive opts"; cases "0 < ro_body_len opts")
      (simp_all add: h1_head_def request_fields_def lits)
  then show ?thesis using p g by (simp add: blit_def)
qed

lemma h1_digits_range: "\<forall>c \<in> set (h1_digits n []). 32 < c"
  using h1_digits_val [of n] by (auto simp: list_all_iff is_ascii_digit_def word_le_nat_alt word_less_nat_alt)

lemma request_fields_ok:
  assumes "\<forall>b \<in> set path \<union> set (ro_authority opts). 32 < b" and "13 \<notin> set nm"
  shows "head_ok (nm @ [32] @ path @ (if ro_http11 opts then ascii '' HTTP/1.1'' else ascii '' HTTP/1.0'')) (request_fields opts)"
proof -
  have free: "\<forall>b \<in> set l. 32 < b \<Longrightarrow> 13 \<notin> set l" for l :: bytes by auto
  have lits: "13 \<notin> set (ascii '' HTTP/1.1'')" "13 \<notin> set (ascii '' HTTP/1.0'')" "13 \<notin> set (ascii ''Host'')"
    "13 \<notin> set (ascii ''Content-Length'')" "13 \<notin> set (ascii ''Connection'')" "13 \<notin> set (ascii ''keep-alive'')"
    "13 \<notin> set (ascii ''close'')"
    by code_simp+
  have "13 \<notin> set path" "13 \<notin> set (ro_authority opts)" "13 \<notin> set (h1_digits (ro_body_len opts) [])"
    using free [of path] free [of "ro_authority opts"] free [OF h1_digits_range] assms(1) by simp_all
  with lits assms(2) show ?thesis
    unfolding head_ok_def request_fields_def by (auto intro!: crlf_position_free)
qed

lemma request_fields_values:
  assumes "\<forall>b \<in> set (ro_authority opts). 32 < b"
  shows "field_values (ascii ''host'') (request_fields opts) = [ro_authority opts]"
    and "field_values (ascii ''content-length'') (request_fields opts) =
      (if 0 < ro_body_len opts then [h1_digits (ro_body_len opts) []] else [])"
    and "field_values (ascii ''transfer-encoding'') (request_fields opts) = []"
proof -
  have c: "58 \<notin> set (ascii ''Host'')" "58 \<notin> set (ascii ''Content-Length'')" "58 \<notin> set (ascii ''Connection'')"
    "\<forall>c \<in> set (ascii ''keep-alive''). 32 < c" "\<forall>c \<in> set (ascii ''close''). 32 < c"
    by code_simp+
  have e: "eq_ignore_ascii_case (ascii ''Host'') (ascii ''host'')" "\<not> eq_ignore_ascii_case (ascii ''Content-Length'') (ascii ''host'')"
    "\<not> eq_ignore_ascii_case (ascii ''Connection'') (ascii ''host'')"
    "\<not> eq_ignore_ascii_case (ascii ''Host'') (ascii ''content-length'')" "eq_ignore_ascii_case (ascii ''Content-Length'') (ascii ''content-length'')"
    "\<not> eq_ignore_ascii_case (ascii ''Connection'') (ascii ''content-length'')"
    "\<not> eq_ignore_ascii_case (ascii ''Host'') (ascii ''transfer-encoding'')" "\<not> eq_ignore_ascii_case (ascii ''Content-Length'') (ascii ''transfer-encoding'')"
    "\<not> eq_ignore_ascii_case (ascii ''Connection'') (ascii ''transfer-encoding'')"
    by code_simp+
  note f = h1_field_line [OF c(1) assms] h1_field_line [OF c(2) h1_digits_range] h1_field_line [OF c(3) c(4)] h1_field_line [OF c(3) c(5)]
  show "field_values (ascii ''host'') (request_fields opts) = [ro_authority opts]"
    unfolding request_fields_def using e by (simp add: f [simplified])
  show "field_values (ascii ''content-length'') (request_fields opts) =
      (if 0 < ro_body_len opts then [h1_digits (ro_body_len opts) []] else [])"
    unfolding request_fields_def using e by (simp add: f [simplified])
  show "field_values (ascii ''transfer-encoding'') (request_fields opts) = []"
    unfolding request_fields_def using e by (simp add: f [simplified])
qed

text \<open>Persistence: one Connection line decides.\<close>

abbreviation conn_line :: "bytes \<Rightarrow> bool \<times> bool \<Rightarrow> bool \<times> bool" where
  "conn_line l seen \<equiv>
     (case byte_position (\<lambda>c. c = 58) l of
        None \<Rightarrow> seen
      | Some colon \<Rightarrow>
          if eq_ignore_ascii_case (take colon l) (ascii ''connection'')
          then conn_tokens (split_bytes (\<lambda>c. c = 44) (drop (scan_while h1_wsp l (colon + 1)) l)) seen
          else seen)"

lemma conn_line_other:
  "58 \<notin> set nm \<Longrightarrow> \<not> eq_ignore_ascii_case nm (ascii ''connection'') \<Longrightarrow> conn_line (nm @ [58, 32] @ v) seen = seen"
proof -
  assume nm: "58 \<notin> set nm" "\<not> eq_ignore_ascii_case nm (ascii ''connection'')"
  then have "byte_position (\<lambda>c. c = 58) (nm @ [58, 32] @ v) = Some (length nm)"
    using byte_position_append [of nm "\<lambda>c. c = 58" 58 "32 # v"] by auto
  with nm(2) show ?thesis by simp
qed

lemma request_fields_conn: "fold conn_line (request_fields opts) (False, False) = (\<not> ro_keep_alive opts, ro_keep_alive opts)"
proof -
  have k: "conn_line (ascii ''Connection'' @ [58, 32] @ ascii ''keep-alive'') (False, False) = (False, True)"
    "conn_line (ascii ''Connection'' @ [58, 32] @ ascii ''close'') (False, False) = (True, False)"
    by code_simp+
  have c: "58 \<notin> set (ascii ''Host'')" "\<not> eq_ignore_ascii_case (ascii ''Host'') (ascii ''connection'')"
    "58 \<notin> set (ascii ''Content-Length'')" "\<not> eq_ignore_ascii_case (ascii ''Content-Length'') (ascii ''connection'')"
    by code_simp+
  note o = conn_line_other [OF c(1,2)] conn_line_other [OF c(3,4)]
  show ?thesis
    unfolding request_fields_def fold_append comp_def
    by (cases "ro_keep_alive opts"; cases "0 < ro_body_len opts")
      (simp_all only: fold_simps if_True if_False o k simp_thms)
qed

lemma request_keeps_alive_head:
  assumes "head_ok rl fls"
  shows "request_keeps_alive (h1_head rl fls) \<longleftrightarrow>
    (ends_with rl (ascii ''HTTP/1.1'') \<or> ends_with rl (ascii ''HTTP/1.0'')) \<and>
    (case fold conn_line fls (False, False) of (saw_close, saw_keep) \<Rightarrow>
       \<not> saw_close \<and> (ends_with rl (ascii ''HTTP/1.1'') \<or> saw_keep))"
proof -
  have e: "take (length rl) (h1_head rl fls) = rl" by (simp add: h1_head_def)
  have "conn_loop (h1_head rl fls) (length rl + 2) (False, False) = fold conn_line fls (False, False)"
    using conn_loop_lines [OF head_ok_D(2) [OF assms], of "rl @ crlf" "(False, False)"] head_ok_D(3) [OF assms] by simp
  then show ?thesis
    unfolding request_keeps_alive_def Let_def head_ok_D(1) [OF assms] e
    using head_ok_D(4) [OF assms] by (auto split: prod.split)
qed

lemma digits_no_comma: "list_all is_ascii_digit v \<Longrightarrow> 44 \<notin> set v"
  by (auto simp: list_all_iff is_ascii_digit_def)

lemma takeWhile_to: "x \<notin> set p \<Longrightarrow> takeWhile (\<lambda>b. b \<noteq> x) (p @ x # r) = p"
  by (induction p) auto

lemma parse_request_line_head:
  assumes "32 \<notin> set nm" "nm \<noteq> []" "length nm \<le> MAX_METHOD_SCAN" "32 \<notin> set path" "path \<noteq> []" "hd path = 47" "10 \<le> length r"
  shows "parse_request_line tok (nm @ [32] @ path @ [32] @ r) dst =
    (Some \<lparr> rl_method = tok nm, rl_target_at = length nm + 1, rl_target_len = length path \<rparr>,
     blit 0 (take (length dst) path) dst)"
proof -
  let ?src = "nm @ [32] @ path @ [32] @ r"
  define cap where "cap = min (MAX_METHOD_SCAN + 1) (length ?src)"
  have cap: "length nm < cap" using assms(3) by (simp add: cap_def)
  then have "take cap ?src = nm @ 32 # take (cap - length nm - 1) (path @ [32] @ r)"
    by (simp add: take_Cons')
  then have m: "scan_while (\<lambda>b. b \<noteq> 32) (take cap ?src) 0 = length nm"
    using takeWhile_to [OF assms(1)] by (simp add: scan_while_eq)
  have p: "scan_while (\<lambda>b. b \<noteq> 32) ?src (length nm + 1) = length nm + 1 + length path"
    using takeWhile_to [OF assms(4), of r] by (simp add: scan_while_eq)
  have h: "?src ! (length nm + 1) = 47"
    using assms(5,6) by (cases path) (simp_all add: nth_append)
  have len: "\<not> length ?src < 14"
    using assms(2,5,7) by (cases nm; cases path) simp_all
  show ?thesis
    unfolding parse_request_line_def Let_def cap_def [symmetric] m p h
    using len cap assms(2,5) by (simp add: min_def)
qed

text \<open>C24. Client and server of the repository agree on a request head: what \<open>write_request_head\<close> puts on the
  wire is one whole head, from which the server's readers recover the method, the request target, the
  authority, the declared body length and the persistence that were asked for. The method vocabulary is
  the exchange contract's, of which this needs that the name of the method is a token the scan covers
  and that looking the name up gives the method back.\<close>

theorem request_head_read_back:
  assumes "write_request_head method_name method_connect meth path opts dst = (Some n, dst')"
    and "32 \<notin> set (method_name meth)" and "13 \<notin> set (method_name meth)" and "length (method_name meth) \<le> MAX_METHOD_SCAN"
    and "method_from_token (method_name meth) = meth"
    and "ro_body_len opts < 2 ^ 64" and "length path \<le> length buf"
  shows "\<exists>rl target. parse_request_line method_from_token (take n dst') buf = (Some rl, target) \<and>
      rl_method rl = meth \<and> rl_target_len rl = length path \<and> take (length path) target = path \<and>
      bslice (rl_target_at rl) (rl_target_at rl + length path) (take n dst') = path \<and>
    find_header_end dst' n = Some n \<and>
    find_header (take n dst') (ascii ''host'') = Some (ro_authority opts) \<and>
    body_framing (take n dst') = (if ro_body_len opts = 0 then FramingNone else FramingLength (ro_body_len opts)) \<and>
    request_keeps_alive (take n dst') = ro_keep_alive opts"
proof -
  let ?v = "if ro_http11 opts then ascii '' HTTP/1.1'' else ascii '' HTTP/1.0''"
  let ?rl = "method_name meth @ [32] @ path @ ?v"
  from write_request_head_eq [OF assms(1)]
  have h: "take n dst' = h1_head ?rl (request_fields opts)" and n: "n = length (take n dst')"
    and m: "method_name meth \<noteq> []" and p: "path \<noteq> []" "hd path = 47"
    and b: "\<forall>b \<in> set path \<union> set (ro_authority opts). 32 < b" by blast+
  have b': "\<forall>b \<in> set (ro_authority opts). 32 < b" "32 \<notin> set path" using b by auto
  have ok: "head_ok ?rl (request_fields opts)" using b assms(3) by (rule request_fields_ok)
  have lits: "ascii '' HTTP/1.1'' = [32] @ ascii ''HTTP/1.1''" "ascii '' HTTP/1.0'' = [32] @ ascii ''HTTP/1.0''" by code_simp+
  have n_le: "n \<le> length dst'" using n by simp
  have "find_header_end dst' n = head_end (take n dst')" using n_le by (rule find_header_end_eq)
  also have "\<dots> = Some n" using head_end_head [OF ok, of "[]"] n h by simp
  finally have fhe: "find_header_end dst' n = Some n" .
  have host: "find_header (take n dst') (ascii ''host'') = Some (ro_authority opts)"
    unfolding h find_header_head [OF ok] by (simp add: request_fields_values(1) [OF b'(1)])
  have frame: "body_framing (take n dst') = (if ro_body_len opts = 0 then FramingNone else FramingLength (ro_body_len opts))"
    unfolding h body_framing_def Let_def find_header_head [OF ok] header_values_disagree_head [OF ok]
      request_fields_values(2,3) [OF b'(1)]
    using h1_digits_val [of "ro_body_len opts"] cl_digits_h1_digits [OF assms(6)] digits_no_comma by simp
  have keep: "request_keeps_alive (take n dst') = ro_keep_alive opts"
    unfolding h request_keeps_alive_head [OF ok] request_fields_conn by (auto simp: lits ends_with_def)
  obtain r where r: "take n dst' = method_name meth @ [32] @ path @ [32] @ r" "10 \<le> length r"
    unfolding h h1_head_def lits by (cases "ro_http11 opts") (auto simp: request_fields_def)
  have l: "take (length buf) path = path" using assms(7) by simp
  show ?thesis
    using fhe host frame keep parse_request_line_head [OF assms(2) m assms(4) b'(2) p r(2), of method_from_token buf] assms(5)
    unfolding r(1) l by (simp add: bslice_def blit_def)
qed

text \<open>A vocabulary with the one method the witness sends.\<close>

definition demo_method_name :: "byte \<Rightarrow> bytes" where
  "demo_method_name m = (if m = 3 then ascii ''PUT'' else [])"

definition demo_method_from_token :: "bytes \<Rightarrow> byte" where
  "demo_method_from_token t = (if t = ascii ''PUT'' then 3 else 0)"

definition demo_options :: request_options where
  "demo_options = \<lparr> ro_authority = ascii ''h'', ro_body_len = 120, ro_http11 = True, ro_keep_alive = False \<rparr>"

definition demo_request :: "nat option \<times> bytes" where
  "demo_request = write_request_head demo_method_name 7 3 (ascii ''/a'') demo_options (replicate 80 0)"

theorem request_head_read_back_witness:
  "body_framing (take 68 (snd demo_request)) = FramingLength 120 \<and>
   \<not> request_keeps_alive (take 68 (snd demo_request)) \<and>
   find_header (take 68 (snd demo_request)) (ascii ''host'') = Some (ascii ''h'')"
proof -
  have w: "write_request_head demo_method_name 7 3 (ascii ''/a'') demo_options (replicate 80 0) = (Some 68, snd demo_request)"
    by code_simp
  have m: "32 \<notin> set (demo_method_name 3)" "13 \<notin> set (demo_method_name 3)" "length (demo_method_name 3) \<le> MAX_METHOD_SCAN"
    "demo_method_from_token (demo_method_name 3) = 3"
    by code_simp+
  have l: "ro_body_len demo_options < 2 ^ 64" "length (ascii ''/a'') \<le> length [0, 0 :: byte]"
    by (simp_all add: demo_options_def)
  show ?thesis 
    using request_head_read_back [where method_name = demo_method_name and meth = 3 and method_from_token = demo_method_from_token, OF w m l]
    by (auto simp: demo_options_def)
qed

section \<open>Ranges\<close>

lemma range_number_bound: "range_number b a = Some n \<Longrightarrow> a < 2 ^ 64 \<Longrightarrow> n < 2 ^ 64"
  by (induction b arbitrary: a) (auto split: if_splits)

text \<open>A range that is served lies inside the resource: its first byte is not after its last and its last is
  before the size, whatever the header says.\<close>

lemma range_within_resource:
  assumes "parse_range_header vl sz = RangeSatisfiable start fin"
  shows "start \<le> fin \<and> fin < sz"
proof -
  have sz: "sz \<noteq> 0" using assms by (auto simp: parse_range_header_def)
  then have last: "unat (sz - 1) = unat sz - 1" "0 < unat sz" by (simp_all add: unat_minus_one unat_gt_0)
  have small: "k < unat sz \<Longrightarrow> unat (of_nat k :: u32) = k" for k
    using unat_less_pow256(2) [of sz] by (simp add: unat_of_nat)
  show ?thesis
    using assms sz last small
    by (auto simp: parse_range_header_def Let_def word_le_nat_alt word_less_nat_alt
        simp del: of_nat_diff split: if_splits option.splits)
qed

end
