(* ===== verification/Http_Frames.thy ===== *)
theory Http_Frames
  imports Wave_Prelude
begin

text \<open>
  HTTP/2 and HTTP/3 frames: the codec of \<open>modules/foundation/http/wire/h2.rs\<close>, the frame layer of \<open>http/wire/h3.rs\<close>
  and the datagram records of \<open>modules/common/h3_datagram.rs\<close>. A frame writer that stores through a raw pointer is the list of
  the bytes it stores. The QUIC variable-length integers that \<open>h3.rs\<close> calls are part of the SDK: a parameter, with
  the contract of RFC 9000 section 16 as a locale, which the integers of \<open>h3_datagram.rs\<close> satisfy.
\<close>

unbundle bit_operations_syntax

section \<open>HTTP/2 frames\<close>

abbreviation (input) FRAME_DATA :: byte where "FRAME_DATA \<equiv> 0"
abbreviation (input) FRAME_HEADERS :: byte where "FRAME_HEADERS \<equiv> 1"
abbreviation (input) FRAME_RST_STREAM :: byte where "FRAME_RST_STREAM \<equiv> 3"
abbreviation (input) FRAME_SETTINGS :: byte where "FRAME_SETTINGS \<equiv> 4"
abbreviation (input) FRAME_PING :: byte where "FRAME_PING \<equiv> 6"
abbreviation (input) FRAME_GOAWAY :: byte where "FRAME_GOAWAY \<equiv> 7"
abbreviation (input) FRAME_WINDOW_UPDATE :: byte where "FRAME_WINDOW_UPDATE \<equiv> 8"

abbreviation (input) FLAG_END_STREAM :: byte where "FLAG_END_STREAM \<equiv> 0x1"
abbreviation (input) FLAG_ACK :: byte where "FLAG_ACK \<equiv> 0x1"
abbreviation (input) FLAG_END_HEADERS :: byte where "FLAG_END_HEADERS \<equiv> 0x4"
abbreviation (input) FLAG_PADDED :: byte where "FLAG_PADDED \<equiv> 0x8"
abbreviation (input) FLAG_PRIORITY :: byte where "FLAG_PRIORITY \<equiv> 0x20"

record h2_header =
  h2_length :: u32
  h2_ftype :: byte
  h2_flags :: byte
  h2_stream_id :: u32

definition h2_parse_header :: "bytes \<Rightarrow> h2_header option" where
  "h2_parse_header buf =
     (if length buf < 9 then None
      else Some \<lparr>
        h2_length = (push_bit 16 (ucast (buf ! 0)) OR push_bit 8 (ucast (buf ! 1))) OR ucast (buf ! 2),
        h2_ftype = buf ! 3, h2_flags = buf ! 4,
        h2_stream_id = ((push_bit 24 (ucast (buf ! 5) AND 0x7F) OR push_bit 16 (ucast (buf ! 6))) OR push_bit 8 (ucast (buf ! 7))) OR ucast (buf ! 8) \<rparr>)"

definition low_byte :: "u32 \<Rightarrow> byte" where
  "low_byte v = ucast (v AND 0xFF)"

definition h2_write_header :: "u32 \<Rightarrow> byte \<Rightarrow> byte \<Rightarrow> u32 \<Rightarrow> bytes" where
  "h2_write_header len ftype flags stream_id =
     [low_byte (drop_bit 16 len), low_byte (drop_bit 8 len), low_byte len, ftype, flags,
      ucast (drop_bit 24 stream_id AND 0x7F), low_byte (drop_bit 16 stream_id), low_byte (drop_bit 8 stream_id), low_byte stream_id]"

definition h2_write_settings_ack :: bytes where
  "h2_write_settings_ack = h2_write_header 0 FRAME_SETTINGS FLAG_ACK 0"

definition h2_u32 :: "u32 \<Rightarrow> bytes" where
  "h2_u32 v = [low_byte (drop_bit 24 v), low_byte (drop_bit 16 v), low_byte (drop_bit 8 v), low_byte v]"

definition h2_u31 :: "u32 \<Rightarrow> bytes" where
  "h2_u31 v = [ucast (drop_bit 24 v AND 0x7F), low_byte (drop_bit 16 v), low_byte (drop_bit 8 v), low_byte v]"

definition h2_write_settings :: "(u16 \<times> u32) list \<Rightarrow> bytes" where
  "h2_write_settings settings =
     h2_write_header (of_nat (length settings * 6)) FRAME_SETTINGS 0 0 @
     concat (map (\<lambda>(id, val). [ucast (drop_bit 8 id), ucast (id AND 0xFF)] @ h2_u32 val) settings)"

definition h2_write_headers_frame_header :: "nat \<Rightarrow> u32 \<Rightarrow> bool \<Rightarrow> bool \<Rightarrow> bytes" where
  "h2_write_headers_frame_header block_len stream_id end_stream end_headers =
     h2_write_header (of_nat block_len) FRAME_HEADERS
       ((if end_stream then FLAG_END_STREAM else 0) OR (if end_headers then FLAG_END_HEADERS else 0)) stream_id"

definition h2_write_data_frame_header :: "nat \<Rightarrow> u32 \<Rightarrow> bool \<Rightarrow> bytes" where
  "h2_write_data_frame_header payload_len stream_id end_stream =
     h2_write_header (of_nat payload_len) FRAME_DATA (if end_stream then FLAG_END_STREAM else 0) stream_id"

definition h2_write_window_update :: "u32 \<Rightarrow> u32 \<Rightarrow> bytes" where
  "h2_write_window_update stream_id delta = h2_write_header 4 FRAME_WINDOW_UPDATE 0 stream_id @ h2_u31 delta"

definition h2_write_rst_stream :: "u32 \<Rightarrow> u32 \<Rightarrow> bytes" where
  "h2_write_rst_stream stream_id error_code = h2_write_header 4 FRAME_RST_STREAM 0 stream_id @ h2_u32 error_code"

definition h2_write_goaway :: "u32 \<Rightarrow> u32 \<Rightarrow> bytes" where
  "h2_write_goaway last_stream_id error_code = h2_write_header 8 FRAME_GOAWAY 0 0 @ h2_u31 last_stream_id @ h2_u32 error_code"

definition h2_write_ping_ack :: "bytes \<Rightarrow> bytes" where
  "h2_write_ping_ack opaque = h2_write_header 8 FRAME_PING FLAG_ACK 0 @ take 8 opaque"

text \<open>The body of a DATA payload and the header block of a HEADERS payload, by offset and length. The payload length is
  the length of the payload.\<close>

definition data_payload_extent :: "bytes \<Rightarrow> byte \<Rightarrow> (nat \<times> nat) option" where
  "data_payload_extent payload flags =
     (if flags AND FLAG_PADDED = 0 then Some (0, length payload)
      else if length payload < 1 then None
      else
        let pad = unat (payload ! 0) in
        if length payload < pad + 1 then None
        else Some (1, length payload - pad - 1))"

definition headers_block_extent :: "bytes \<Rightarrow> byte \<Rightarrow> (nat \<times> nat) option" where
  "headers_block_extent payload flags =
     (let padded = (flags AND FLAG_PADDED \<noteq> 0) in
      if padded \<and> length payload < 1 then None
      else
        let pad = (if padded then unat (payload ! 0) else 0); start = (if padded then 1 else 0) in
        if flags AND FLAG_PRIORITY \<noteq> 0 \<and> length payload < start + 5 then None
        else
          let start = (if flags AND FLAG_PRIORITY \<noteq> 0 then start + 5 else start); block_end = int (length payload) - int pad in
          if block_end < int start then None
          else Some (start, nat block_end - start))"

section \<open>HTTP/3 frames over a variable-length integer\<close>

type_synonym varint_decoder = "bytes \<Rightarrow> (u64 \<times> nat) option"
type_synonym varint_encoder = "nat \<Rightarrow> u64 \<Rightarrow> bytes"

definition parse_h3_frame_head :: "varint_decoder \<Rightarrow> bytes \<Rightarrow> (u64 \<times> u64 \<times> nat) option" where
  "parse_h3_frame_head vd buf =
     (case vd buf of
        None \<Rightarrow> None
      | Some (kind, tn) \<Rightarrow>
          (case vd (drop tn buf) of
             None \<Rightarrow> None
           | Some (len, ln) \<Rightarrow> Some (kind, len, tn + ln)))"

definition parse_h3_frame :: "varint_decoder \<Rightarrow> bytes \<Rightarrow> ((u64 \<times> bytes) \<times> nat) option" where
  "parse_h3_frame vd buf =
     (case parse_h3_frame_head vd buf of
        None \<Rightarrow> None
      | Some (frame_type, len, payload_off) \<Rightarrow>
          let fin = payload_off + unat len in
          if length buf < fin then None
          else Some ((frame_type, bslice payload_off fin buf), fin))"

fun settings_loop :: "varint_encoder \<Rightarrow> u64 list \<Rightarrow> nat \<Rightarrow> bytes \<Rightarrow> nat \<times> bytes" where
  "settings_loop ve [] pos out = (pos, out)"
| "settings_loop ve (v # vs) pos out =
     (if length out \<le> pos then (0, out)
      else
        let b = ve (length out - pos) v in
        if b = [] then (0, out) else settings_loop ve vs (pos + length b) (blit pos b out))"

definition build_h3_settings_payload :: "varint_encoder \<Rightarrow> (u64 \<times> u64) list \<Rightarrow> bytes \<Rightarrow> nat \<times> bytes" where
  "build_h3_settings_payload ve settings out = settings_loop ve (concat (map (\<lambda>(id, val). [id, val]) settings)) 0 out"

definition build_h3_frame_header :: "(u64 \<Rightarrow> nat) \<Rightarrow> varint_encoder \<Rightarrow> u64 \<Rightarrow> nat \<Rightarrow> bytes \<Rightarrow> nat \<times> bytes" where
  "build_h3_frame_header vs ve frame_type payload_len out =
     (if length out < vs frame_type + vs (of_nat payload_len) then (0, out)
      else
        let t = ve (length out) frame_type in
        if t = [] then (0, out)
        else
          let out1 = blit 0 t out; l = ve (length out - length t) (of_nat payload_len) in
          if l = [] then (0, out1) else (length t + length l, blit (length t) l out1))"

section \<open>Datagram records\<close>

record h3_datagram =
  dg_session_id :: u32
  dg_context_id :: u64
  dg_payload :: bytes

abbreviation (input) H3_DATAGRAM_MAX_PAYLOAD :: nat where "H3_DATAGRAM_MAX_PAYLOAD \<equiv> 1200"
abbreviation (input) H3_DATAGRAM_HDR :: nat where "H3_DATAGRAM_HDR \<equiv> 14"

definition h3_datagram_write :: "h3_datagram \<Rightarrow> nat writer" where
  "h3_datagram_write d out =
     (if H3_DATAGRAM_MAX_PAYLOAD < length (dg_payload d) \<or> 65535 < length (dg_payload d) then (None, out)
      else
        let total = H3_DATAGRAM_HDR + length (dg_payload d) in
        if length out < total then (None, out)
        else (Some total,
              blit 0 (le_bytes 4 (unat (dg_session_id d)) @ le_bytes 8 (unat (dg_context_id d)) @
                      le_bytes 2 (unat (of_nat (length (dg_payload d)) :: u16)) @ dg_payload d) out))"

definition h3_datagram_parse :: "bytes \<Rightarrow> h3_datagram option" where
  "h3_datagram_parse buf =
     (if length buf < H3_DATAGRAM_HDR then None
      else
        let len = le_val (bslice 12 14 buf) in
        if H3_DATAGRAM_MAX_PAYLOAD < len \<or> H3_DATAGRAM_HDR + len \<noteq> length buf then None
        else Some \<lparr> dg_session_id = of_nat (le_val (bslice 0 4 buf)), dg_context_id = of_nat (le_val (bslice 4 12 buf)),
                    dg_payload = drop 14 buf \<rparr>)"

definition quic_width_of :: "byte \<Rightarrow> nat" where
  "quic_width_of first = (let k = drop_bit 6 first in if k = 0 then 1 else if k = 1 then 2 else if k = 2 then 4 else 8)"

definition parse_quic_payload :: "bytes \<Rightarrow> (u64 \<times> bytes) option" where
  "parse_quic_payload buf =
     (case buf of
        [] \<Rightarrow> None
      | first # _ \<Rightarrow>
          let width = quic_width_of first in
          if length buf < width then None
          else Some (foldl (\<lambda>v b. push_bit 8 v OR ucast b) (ucast (first AND 0x3f)) (bslice 1 width buf), drop width buf))"

fun put_be :: "nat \<Rightarrow> u64 \<Rightarrow> bytes \<Rightarrow> bytes" where
  "put_be 0 v out = out"
| "put_be (Suc i) v out = put_be i (drop_bit 8 v) (out[i := ucast (v AND 0xff)])"

definition quic_width :: "u64 \<Rightarrow> nat option" where
  "quic_width v = (if v < 2 ^ 6 then Some 1 else if v < 2 ^ 14 then Some 2 else if v < 2 ^ 30 then Some 4 else if v < 2 ^ 62 then Some 8 else None)"

definition quic_prefix :: "nat \<Rightarrow> byte" where
  "quic_prefix width = (if width = 1 then 0 else if width = 2 then 0x40 else if width = 4 then 0x80 else 0xC0)"

definition write_quic_payload :: "u64 \<Rightarrow> bytes \<Rightarrow> nat writer" where
  "write_quic_payload context_id payload out =
     (case quic_width context_id of
        None \<Rightarrow> (None, out)
      | Some width \<Rightarrow>
          let total = width + length payload in
          if length out < total then (None, out)
          else
            let out1 = put_be width context_id out; out2 = out1[0 := out1 ! 0 OR quic_prefix width]
            in (Some total, blit width payload out2))"

section \<open>HTTP/2: header and payload\<close>

lemma low_byte_ucast: "low_byte v = ucast v"
proof -
  have m: "(0xFF :: u32) = mask 8" by (simp add: mask_eq_exp_minus_1)
  show ?thesis unfolding low_byte_def m by (rule bit_word_eqI) (auto simp: bit_simps)
qed

lemma and_7F: "(v :: 'a :: len word) AND 0x7F = take_bit 7 v"
  by (simp add: take_bit_eq_mask mask_eq_exp_minus_1)

lemma read_24:
  "(push_bit 16 (ucast (ucast (drop_bit 16 v) :: byte)) OR push_bit 8 (ucast (ucast (drop_bit 8 v) :: byte))) OR ucast (ucast v :: byte) =
    (take_bit 24 v :: u32)" (is "?l = ?r")
proof (rule bit_word_eqI)
  fix n show "bit ?l n = bit ?r n" if "n < LENGTH(32)" by (cases "16 \<le> n"; cases "8 \<le> n") (use that in \<open>auto simp: bit_simps\<close>)
qed

lemma read_31:
  "((push_bit 24 (take_bit 7 (ucast (ucast (take_bit 7 (drop_bit 24 v)) :: byte))) OR push_bit 16 (ucast (ucast (drop_bit 16 v) :: byte))) OR
     push_bit 8 (ucast (ucast (drop_bit 8 v) :: byte))) OR ucast (ucast v :: byte) = (take_bit 31 v :: u32)" (is "?l = ?r")
proof (rule bit_word_eqI)
  fix n show "bit ?l n = bit ?r n" if "n < LENGTH(32)"
    by (cases "24 \<le> n"; cases "16 \<le> n"; cases "8 \<le> n") (use that in \<open>auto simp: bit_simps\<close>)
qed

lemma write_24:
  fixes a b c :: byte
  defines "v \<equiv> (push_bit 16 (ucast a) OR push_bit 8 (ucast b)) OR ucast c :: u32"
  shows "ucast (drop_bit 16 v) = a" "ucast (drop_bit 8 v) = b" "ucast v = c" "take_bit 24 v = v"
  unfolding v_def by (rule bit_word_eqI, auto simp: bit_simps dest: bit_imp_le_length)+

lemma write_31:
  fixes a b c d :: byte
  defines "v \<equiv> ((push_bit 24 (take_bit 7 (ucast a)) OR push_bit 16 (ucast b)) OR push_bit 8 (ucast c)) OR ucast d :: u32"
  shows "ucast (take_bit 7 (drop_bit 24 v)) = take_bit 7 a" "ucast (drop_bit 16 v) = b" "ucast (drop_bit 8 v) = c" "ucast v = d" "take_bit 31 v = v"
  unfolding v_def by (rule bit_word_eqI, auto simp: bit_simps dest: bit_imp_le_length)+

text \<open>A frame header is read exactly as it is written: what the reader takes from nine bytes has a length of twenty-four and a
  stream of thirty-one bits, and writing it again gives the same bytes with the reserved bit cleared.\<close>

lemma h2_header_exact:
  "h2_parse_header b = Some h \<longleftrightarrow>
     9 \<le> length b \<and> take_bit 24 (h2_length h) = h2_length h \<and> take_bit 31 (h2_stream_id h) = h2_stream_id h \<and>
     h2_write_header (h2_length h) (h2_ftype h) (h2_flags h) (h2_stream_id h) = take 5 b @ [take_bit 7 (b ! 5)] @ bslice 6 9 b"
proof (cases "9 \<le> length b")
  case False
  then show ?thesis by (simp add: h2_parse_header_def)
next
  case True
  then have b: "take 5 b = [b ! 0, b ! 1, b ! 2, b ! 3, b ! 4]" "bslice 6 9 b = [b ! 6, b ! 7, b ! 8]"
    by (auto intro!: nth_equalityI simp: bslice_def less_Suc_eq eval_nat_numeral)
  show ?thesis
  proof
    assume p: "h2_parse_header b = Some h"
    define l s where "l = ((push_bit 16 (ucast (b ! 0)) OR push_bit 8 (ucast (b ! 1))) OR ucast (b ! 2) :: u32)"
      and "s = (((push_bit 24 (take_bit 7 (ucast (b ! 5))) OR push_bit 16 (ucast (b ! 6))) OR push_bit 8 (ucast (b ! 7))) OR ucast (b ! 8) :: u32)"
    have "\<not> length b < 9" using True by simp
    then have h: "h = \<lparr> h2_length = l, h2_ftype = b ! 3, h2_flags = b ! 4, h2_stream_id = s \<rparr>"
      using p unfolding h2_parse_header_def and_7F l_def s_def by (simp only: if_False option.inject)
    note wl = write_24 [of "b ! 0" "b ! 1" "b ! 2", folded l_def] and ws = write_31 [of "b ! 5" "b ! 6" "b ! 7" "b ! 8", folded s_def]
    show "9 \<le> length b \<and> take_bit 24 (h2_length h) = h2_length h \<and> take_bit 31 (h2_stream_id h) = h2_stream_id h \<and>
      h2_write_header (h2_length h) (h2_ftype h) (h2_flags h) (h2_stream_id h) = take 5 b @ [take_bit 7 (b ! 5)] @ bslice 6 9 b"
      unfolding b using True by (simp add: h h2_write_header_def low_byte_ucast and_7F wl ws)
  next
    assume r: "9 \<le> length b \<and> take_bit 24 (h2_length h) = h2_length h \<and> take_bit 31 (h2_stream_id h) = h2_stream_id h \<and>
      h2_write_header (h2_length h) (h2_ftype h) (h2_flags h) (h2_stream_id h) = take 5 b @ [take_bit 7 (b ! 5)] @ bslice 6 9 b"
    define l s where "l = h2_length h" and "s = h2_stream_id h"
    have e: "b ! 0 = ucast (drop_bit 16 l)" "b ! 1 = ucast (drop_bit 8 l)" "b ! 2 = ucast l" "b ! 3 = h2_ftype h" "b ! 4 = h2_flags h"
      "take_bit 7 (b ! 5) = ucast (take_bit 7 (drop_bit 24 s))" "b ! 6 = ucast (drop_bit 16 s)" "b ! 7 = ucast (drop_bit 8 s)" "b ! 8 = ucast s"
      using r unfolding b l_def s_def by (simp_all add: h2_write_header_def low_byte_ucast and_7F)
    have f: "take_bit 7 (ucast (b ! 5) :: u32) = take_bit 7 (ucast (take_bit 7 (b ! 5)))"
      by (rule bit_word_eqI) (auto simp: bit_simps)
    have "\<not> length b < 9" "take_bit 24 l = l" "take_bit 31 s = s" using r by (auto simp: l_def s_def)
    then have "h2_parse_header b = Some \<lparr> h2_length = l, h2_ftype = h2_ftype h, h2_flags = h2_flags h, h2_stream_id = s \<rparr>"
      unfolding h2_parse_header_def and_7F f unfolding e read_24 read_31 by simp
    then show "h2_parse_header b = Some h" by (simp add: l_def s_def)
  qed
qed

text \<open>The padding and priority layout of RFC 9113 sections 6.1 and 6.2.\<close>

definition padded_layout :: "bool \<Rightarrow> bytes \<Rightarrow> bytes \<Rightarrow> bytes \<Rightarrow> bytes \<Rightarrow> bool" where
  "padded_layout padded payload prio body padding \<longleftrightarrow>
     (if padded then payload = of_nat (length padding) # prio @ body @ padding \<and> length padding < 256
      else payload = prio @ body @ padding \<and> padding = [])"

lemma padded_layout_intro:
  assumes "start + k + n + pad = length payload" and "start = (if padded then 1 else 0)"
    and "padded \<longrightarrow> pad = unat (payload ! 0)" and "\<not> padded \<longrightarrow> pad = 0"
  shows "padded_layout padded payload (bslice start (start + k) payload) (bslice (start + k) (start + k + n) payload) (drop (start + k + n) payload)"
proof -
  have e: "bslice start (start + k) payload @ bslice (start + k) (start + k + n) payload @ drop (start + k + n) payload = drop start payload"
  proof -
    have "drop (start + k + n) payload = bslice (start + k + n) (length payload) payload" by (simp add: bslice_def)
    then show ?thesis
      using assms(1) bslice_split [of start "start + k" "start + k + n" payload] bslice_split [of start "start + k + n" "length payload" payload]
      by (simp add: bslice_def)
  qed
  have l: "length (drop (start + k + n) payload) = pad" using assms(1) by simp
  show ?thesis
  proof (cases padded)
    case True
    then have "0 < length payload" using assms(1,2) by auto
    then have "payload = payload ! 0 # drop 1 payload" by (cases payload) auto
    with True e l assms(2,3) show ?thesis by (simp add: padded_layout_def)
  qed (use e l assms in \<open>simp add: padded_layout_def\<close>)
qed

text \<open>C25. The bytes of a DATA or HEADERS payload that are handed on are exactly the body or the header block: a payload is
  accepted exactly when it is laid out with its padding and priority fields, whatever the sender claims, and the extent
  is that of the block between them.\<close>

theorem payload_extent_exact:
  "(data_payload_extent payload flags = Some (at, n) \<longleftrightarrow>
     (\<exists>body padding. padded_layout (flags AND FLAG_PADDED \<noteq> 0) payload [] body padding \<and>
        at = (if flags AND FLAG_PADDED \<noteq> 0 then 1 else 0) \<and> n = length body)) \<and>
   (headers_block_extent payload flags = Some (at, n) \<longleftrightarrow>
     (\<exists>prio body padding. padded_layout (flags AND FLAG_PADDED \<noteq> 0) payload prio body padding \<and>
        length prio = (if flags AND FLAG_PRIORITY \<noteq> 0 then 5 else 0) \<and>
        at = (if flags AND FLAG_PADDED \<noteq> 0 then 1 else 0) + length prio \<and> n = length body))"
proof -
  define p where "p = (flags AND FLAG_PADDED \<noteq> 0)"
  define q where "q = (flags AND FLAG_PRIORITY \<noteq> 0)"
  define start where "start = (if p then 1 else 0 :: nat)"
  define k where "k = (if q then 5 else 0 :: nat)"
  define m where "m = unat (payload ! 0)"
  define pad where "pad = (if p then m else 0)"
  have h: "headers_block_extent payload flags = Some (at, n) \<longleftrightarrow> start + k + n + pad = length payload \<and> at = start + k"
    unfolding headers_block_extent_def Let_def p_def [symmetric] q_def [symmetric] m_def [symmetric]
    by (auto simp: start_def k_def pad_def split: if_splits)
  have d: "data_payload_extent payload flags = Some (at, n) \<longleftrightarrow> start + n + pad = length payload \<and> at = start"
    unfolding data_payload_extent_def Let_def m_def [symmetric] using p_def by (auto simp: start_def pad_def split: if_splits)
  have len: "start + length prio + length body + pad = length payload" if "padded_layout p payload prio body padding" for prio body padding
    using that by (auto simp: padded_layout_def start_def pad_def m_def unat_of_nat split: if_splits)
  have H: "(start + k + n + pad = length payload \<and> at = start + k) \<longleftrightarrow>
      (\<exists>prio body padding. padded_layout p payload prio body padding \<and> length prio = k \<and> at = start + length prio \<and> n = length body)"
  proof
    assume a: "start + k + n + pad = length payload \<and> at = start + k"
    then have "padded_layout p payload (bslice start (start + k) payload) (bslice (start + k) (start + k + n) payload) (drop (start + k + n) payload)"
      by (intro padded_layout_intro [of _ _ _ pad]) (auto simp: start_def pad_def m_def)
    with a show "\<exists>prio body padding. padded_layout p payload prio body padding \<and> length prio = k \<and> at = start + length prio \<and> n = length body"
      by (intro exI conjI) (assumption, auto)
  qed (use len in auto)
  have D: "(start + n + pad = length payload \<and> at = start) \<longleftrightarrow>
      (\<exists>body padding. padded_layout p payload [] body padding \<and> at = start \<and> n = length body)"
  proof
    assume a: "start + n + pad = length payload \<and> at = start"
    then have "padded_layout p payload (bslice start (start + 0) payload) (bslice (start + 0) (start + 0 + n) payload) (drop (start + 0 + n) payload)"
      by (intro padded_layout_intro [of _ _ _ pad]) (auto simp: start_def pad_def m_def)
    then have "padded_layout p payload [] (bslice start (start + n) payload) (drop (start + n) payload)" by (simp add: bslice_def)
    with a show "\<exists>body padding. padded_layout p payload [] body padding \<and> at = start \<and> n = length body"
      by (intro exI conjI) (assumption, auto)
  qed (use len [of "[]"] in auto)
  show ?thesis using h d H D unfolding p_def q_def start_def k_def by simp
qed

section \<open>Datagram records and context identifiers\<close>

definition datagram_wire :: "h3_datagram \<Rightarrow> bytes" where
  "datagram_wire d = le_bytes 4 (unat (dg_session_id d)) @ le_bytes 8 (unat (dg_context_id d)) @ le_bytes 2 (length (dg_payload d)) @ dg_payload d"

definition datagram_ok :: "h3_datagram \<Rightarrow> bool" where
  "datagram_ok d \<longleftrightarrow> length (dg_payload d) \<le> H3_DATAGRAM_MAX_PAYLOAD"

lemma length_datagram_wire: "length (datagram_wire d) = 14 + length (dg_payload d)"
  by (simp add: datagram_wire_def)

lemma datagram_write_wire:
  "datagram_ok d \<Longrightarrow> h3_datagram_write d out =
     (if length (datagram_wire d) \<le> length out then (Some (length (datagram_wire d)), blit 0 (datagram_wire d) out) else (None, out))"
  unfolding h3_datagram_write_def Let_def datagram_ok_def length_datagram_wire
  by (subst unat_of_nat_below) (auto simp: datagram_wire_def)

lemma datagram_parse_wire: "datagram_ok d \<Longrightarrow> h3_datagram_parse (datagram_wire d) = Some d"
proof -
  assume ok: "datagram_ok d"
  have f: "bslice 0 4 (datagram_wire d) = le_bytes 4 (unat (dg_session_id d))" "bslice 4 12 (datagram_wire d) = le_bytes 8 (unat (dg_context_id d))"
    "bslice 12 14 (datagram_wire d) = le_bytes 2 (length (dg_payload d))" "drop 14 (datagram_wire d) = dg_payload d"
    by (simp_all add: datagram_wire_def bslice_def)
  show ?thesis
    using ok unfolding h3_datagram_parse_def Let_def f length_datagram_wire datagram_ok_def
    by (cases d) (simp add: le_val_le_bytes_small)
qed

lemma datagram_parse_inv:
  assumes "h3_datagram_parse b = Some d"
  shows "datagram_ok d \<and> b = datagram_wire d"
proof -
  have l: "14 \<le> length b" "le_val (bslice 12 14 b) \<le> 1200" "length b = 14 + le_val (bslice 12 14 b)"
    and d: "d = \<lparr> dg_session_id = of_nat (le_val (bslice 0 4 b)), dg_context_id = of_nat (le_val (bslice 4 12 b)), dg_payload = drop 14 b \<rparr>"
    using assms by (auto simp: h3_datagram_parse_def Let_def split: if_splits)
  have "b = bslice 0 14 b @ drop 14 b" by (simp add: bslice_def)
  then have e: "b = bslice 0 4 b @ bslice 4 12 b @ bslice 12 14 b @ drop 14 b"
    using bslice_split [of 0 4 12 b] bslice_split [of 0 12 14 b] by simp
  have s: "unat (of_nat (le_val (bslice 0 4 b)) :: u32) = le_val (bslice 0 4 b)" "unat (of_nat (le_val (bslice 4 12 b)) :: u64) = le_val (bslice 4 12 b)"
    using le_val_less [of "bslice 0 4 b"] le_val_less [of "bslice 4 12 b"] l(1) by (simp_all add: unat_of_nat_below)
  have "datagram_wire d = bslice 0 4 b @ bslice 4 12 b @ bslice 12 14 b @ drop 14 b"
    unfolding datagram_wire_def d using l(1,3) le_bytes_le_val [of "bslice 0 4 b"] le_bytes_le_val [of "bslice 4 12 b"]
      le_bytes_le_val [of "bslice 12 14 b"] by (simp add: s)
  with e l show ?thesis by (simp add: datagram_ok_def d)
qed

interpretation dgram: record_codec h3_datagram_write h3_datagram_parse datagram_ok datagram_wire
proof unfold_locales
  fix d out assume "\<not> datagram_ok d"
  then show "h3_datagram_write d out = (None, out)" by (simp add: h3_datagram_write_def datagram_ok_def)
qed (auto simp: datagram_write_wire datagram_parse_wire dest: datagram_parse_inv)

lemma be_bytes_snoc: "be_bytes (Suc n) v = be_bytes n (v div 256) @ [of_nat v]"
  by (induction n arbitrary: v) (simp_all add: div_mult2_eq mult.commute)

lemma byte_of_u64: "(ucast (v AND 0xff) :: byte) = of_nat (unat (v :: u64))"
proof -
  have m: "(0xff :: u64) = mask 8" by (simp add: mask_eq_exp_minus_1)
  have "ucast (v AND 0xff) = (ucast v :: byte)" unfolding m by (rule bit_word_eqI) (auto simp: bit_simps)
  also have "\<dots> = of_nat (unat v)" by (rule unat_eqI) (simp add: unat_ucast_mod unat_of_nat)
  finally show ?thesis .
qed

lemma put_be_wire: "w \<le> length out \<Longrightarrow> put_be w v out = blit 0 (be_bytes w (unat v)) out"
proof (induction w arbitrary: v out)
  case (Suc w)
  have "put_be (Suc w) v out = blit 0 (be_bytes w (unat v div 256)) (out[w := of_nat (unat v)])"
    using Suc by (simp add: byte_of_u64 unat_drop_bit)
  also have "\<dots> = be_bytes w (unat v div 256) @ of_nat (unat v) # drop (Suc w) out"
    using Suc.prems by (simp add: blit_def flip: Cons_nth_drop_Suc)
  also have "\<dots> = blit 0 (be_bytes (Suc w) (unat v)) out" by (simp add: blit_def be_bytes_snoc del: be_bytes.simps)
  finally show ?case .
qed (simp add: blit_def)

lemma unat_shift_fold:
  fixes a :: u64
  shows "unat a * 256 ^ length bs + be_val bs < 2 ^ 64 \<Longrightarrow>
    unat (foldl (\<lambda>v b. push_bit 8 v OR ucast b) a bs) = unat a * 256 ^ length bs + be_val bs"
proof (induction bs arbitrary: a)
  case (Cons b bs)
  have "unat a * 2 ^ 8 * 1 \<le> unat a * 2 ^ 8 * 256 ^ length bs" by (intro mult_le_mono2) simp
  also have "\<dots> \<le> unat a * 256 ^ length (b # bs) + be_val (b # bs)" by (simp add: algebra_simps)
  finally have "unat a * 2 ^ 8 < 2 ^ 64" using Cons.prems by linarith
  then have u: "unat (push_bit 8 a OR ucast b) = unat a * 256 + unat b"
    using unat_push_or [of a 8 "ucast b"] byte_unat_less [of b] by (simp add: unat_ucast_widen del: byte_unat_less)
  with Cons.IH [of "push_bit 8 a OR ucast b"] Cons.prems show ?case by (simp add: algebra_simps)
qed simp

definition quic_wire :: "u64 \<Rightarrow> bytes" where
  "quic_wire v = (case quic_width v of None \<Rightarrow> []
     | Some w \<Rightarrow> (of_nat (unat v div 256 ^ (w - 1)) OR quic_prefix w) # be_bytes (w - 1) (unat v))"

lemma less_power_u64: "k < 64 \<Longrightarrow> (v :: u64) < 2 ^ k \<longleftrightarrow> unat v < 2 ^ k"
proof -
  assume "k < 64"
  then have "(2 :: nat) ^ k < 2 ^ 64" by (intro power_strict_increasing) simp_all
  then have "unat (of_nat (2 ^ k) :: u64) = 2 ^ k" by (intro unat_of_nat_below) simp
  then show ?thesis by (simp add: word_less_nat_alt)
qed

lemma quic_width_unat:
  "quic_width v = (if unat v < 2 ^ 6 then Some 1 else if unat v < 2 ^ 14 then Some 2 else if unat v < 2 ^ 30 then Some 4
     else if unat v < 2 ^ 62 then Some 8 else None)"
  unfolding quic_width_def by (subst less_power_u64, simp)+ (rule refl)

lemma quic_width_cases:
  assumes "unat v < 2 ^ 62"
  obtains w where "quic_width v = Some w" "w = 1 \<or> w = 2 \<or> w = 4 \<or> w = 8" "unat v < 64 * 256 ^ (w - 1)"
  using assms that [of 1] that [of 2] that [of 4] that [of 8] unfolding quic_width_unat
  by (cases "unat v < 2 ^ 6"; cases "unat v < 2 ^ 14"; cases "unat v < 2 ^ 30") simp_all

lemma length_quic_wire: "quic_width v = Some w \<Longrightarrow> length (quic_wire v) = w"
  by (auto simp: quic_wire_def quic_width_def split: if_splits)

lemma write_quic_wire:
  "write_quic_payload v payload out =
     (if quic_width v = None \<or> length out < length (quic_wire v @ payload) then (None, out)
      else (Some (length (quic_wire v @ payload)), blit 0 (quic_wire v @ payload) out))"
proof (cases "quic_width v")
  case None
  then show ?thesis by (simp add: write_quic_payload_def)
next
  case (Some w)
  have w: "0 < w" using Some by (auto simp: quic_width_def split: if_splits)
  then obtain k where k: "w = Suc k" by (cases w) auto
  show ?thesis
  proof (cases "length out < w + length payload")
    case True
    with Some show ?thesis by (simp add: write_quic_payload_def length_quic_wire)
  next
    case False
    then have p: "put_be w v out = blit 0 (be_bytes w (unat v)) out" by (intro put_be_wire) simp
    have "(blit 0 (be_bytes w (unat v)) out)[0 := blit 0 (be_bytes w (unat v)) out ! 0 OR quic_prefix w] = blit 0 (quic_wire v) out"
      using Some by (simp add: quic_wire_def k blit_def)
    with p False Some show ?thesis
      using blit_blit_append [of 0 "quic_wire v" payload out] by (simp add: write_quic_payload_def Let_def length_quic_wire)
  qed
qed

lemma quic_first_byte:
  assumes "x < 64" and "w = 1 \<or> w = 2 \<or> w = 4 \<or> w = 8"
  shows "quic_width_of (of_nat x OR quic_prefix w) = w" "unat ((of_nat x OR quic_prefix w) AND 0x3f) = x"
proof -
  define j where "j = (if w = 1 then 0 else if w = 2 then 1 else if w = 4 then 2 else 3 :: byte)"
  have u: "unat (of_nat x :: byte) = x" using assms(1) by (simp add: unat_of_nat)
  have q: "quic_prefix w = push_bit 6 j" by (simp add: quic_prefix_def j_def)
  have "unat j < 4" by (simp add: j_def)
  then have v: "unat (of_nat x OR quic_prefix w) = unat j * 64 + x"
    using unat_push_or [of j 6 "of_nat x"] assms(1) u by (simp add: q or.commute)
  then have d: "drop_bit 6 (of_nat x OR quic_prefix w) = j"
    using assms(1) by (intro unat_eqI) (simp only: unat_drop_bit v, simp)
  show "quic_width_of (of_nat x OR quic_prefix w) = w"
    unfolding quic_width_of_def d Let_def using assms(2) by (auto simp: j_def)
  have "(of_nat x OR quic_prefix w) AND 0x3f = take_bit 6 (of_nat x OR quic_prefix w)"
    by (simp add: take_bit_eq_mask mask_eq_exp_minus_1)
  then have "unat ((of_nat x OR quic_prefix w) AND 0x3f) = (unat j * 64 + x) mod 2 ^ 6" by (simp only: unat_take_bit v)
  then show "unat ((of_nat x OR quic_prefix w) AND 0x3f) = x" using assms(1) by simp
qed

lemma parse_quic_wire:
  assumes "unat v < 2 ^ 62"
  shows "parse_quic_payload (quic_wire v @ r) = Some (v, r)"
proof -
  obtain w where w: "quic_width v = Some w" "w = 1 \<or> w = 2 \<or> w = 4 \<or> w = 8" "unat v < 64 * 256 ^ (w - 1)"
    using quic_width_cases [OF assms] .
  define x where "x = unat v div 256 ^ (w - 1)"
  have x: "x < 64" unfolding x_def using w(3) by (simp add: less_mult_imp_div_less)
  define f where "f = (of_nat x OR quic_prefix w :: byte)"
  have q: "quic_wire v = f # be_bytes (w - 1) (unat v)" by (simp add: quic_wire_def w(1) x_def f_def)
  have f: "quic_width_of f = w" "unat (f AND 0x3f) = x" unfolding f_def using quic_first_byte [OF x w(2)] by simp_all
  have b: "bslice 1 w (quic_wire v @ r) = be_bytes (w - 1) (unat v)" using w(2) by (auto simp: q bslice_def)
  have s: "x * 256 ^ (w - 1) + be_val (be_bytes (w - 1) (unat v)) = unat v" by (simp add: be_val_be_bytes x_def div_mult_mod_eq)
  have "unat (ucast (f AND 0x3f) :: u64) = x" using f(2) by (simp add: unat_ucast_widen)
  then have "unat (foldl (\<lambda>v b. push_bit 8 v OR ucast b) (ucast (f AND 0x3f) :: u64) (be_bytes (w - 1) (unat v))) = unat v"
    using unat_shift_fold [of "ucast (f AND 0x3f)" "be_bytes (w - 1) (unat v)"] s assms by simp
  then have v: "foldl (\<lambda>v b. push_bit 8 v OR ucast b) (ucast (f AND 0x3f) :: u64) (be_bytes (w - 1) (unat v)) = v" by (rule unat_eqI)
  have l: "length (quic_wire v) = w" by (rule length_quic_wire [OF w(1)])
  have d: "drop w (quic_wire v @ r) = r" using l by simp
  show ?thesis
    unfolding parse_quic_payload_def using b f(1) v l d by (simp add: q Let_def)
qed

section \<open>HTTP/3: frames are read back\<close>

definition h3_wire :: "varint_encoder \<Rightarrow> (u64 \<Rightarrow> nat) \<Rightarrow> u64 \<times> bytes \<Rightarrow> bytes" where
  "h3_wire ve vs f = ve (vs (fst f)) (fst f) @ ve (vs (of_nat (length (snd f)))) (of_nat (length (snd f))) @ snd f"

definition h3_ok :: "u64 \<times> bytes \<Rightarrow> bool" where
  "h3_ok f \<longleftrightarrow> unat (fst f) < 2 ^ 62 \<and> length (snd f) < 2 ^ 62"

text \<open>What \<open>h3.rs\<close> relies on: an integer below two to the sixty-second is written in its size, and read back from the front of any
  longer text.\<close>

locale quic_varint =
  fixes vd :: varint_decoder and ve :: varint_encoder and vs :: "u64 \<Rightarrow> nat"
  assumes ve_length: "unat v < 2 ^ 62 \<Longrightarrow> vs v \<le> room \<Longrightarrow> length (ve room v) = vs v"
    and vs_pos: "unat v < 2 ^ 62 \<Longrightarrow> 0 < vs v"
    and vd_ve: "unat v < 2 ^ 62 \<Longrightarrow> vs v \<le> room \<Longrightarrow> vd (ve room v @ rest) = Some (v, vs v)"
begin

lemma parse_head_written:
  assumes "unat t < 2 ^ 62" and "n < 2 ^ 62" and "vs t \<le> r1" and "vs (of_nat n) \<le> r2"
  shows "parse_h3_frame_head vd (ve r1 t @ ve r2 (of_nat n) @ rest) = Some (t, of_nat n, vs t + vs (of_nat n))"
proof -
  have n: "unat (of_nat n :: u64) < 2 ^ 62" using assms(2) by (subst unat_of_nat_below) simp_all
  show ?thesis
    unfolding parse_h3_frame_head_def
    using vd_ve [OF assms(1,3), of "ve r2 (of_nat n) @ rest"] vd_ve [OF n assms(4), of rest] ve_length [OF assms(1,3)] by simp
qed

lemma parse_frame_written:
  assumes "unat t < 2 ^ 62" and "length p < 2 ^ 62" and "vs t \<le> r1" and "vs (of_nat (length p)) \<le> r2"
  shows "parse_h3_frame vd (ve r1 t @ ve r2 (of_nat (length p)) @ p @ rest) = Some ((t, p), vs t + vs (of_nat (length p)) + length p)"
proof -
  have u: "unat (of_nat (length p) :: u64) = length p" using assms(2) by (intro unat_of_nat_below) simp
  have l: "length (ve r1 t) = vs t" "length (ve r2 (of_nat (length p))) = vs (of_nat (length p))"
    using assms ve_length u by simp_all
  show ?thesis
    unfolding parse_h3_frame_def using parse_head_written [OF assms, of "p @ rest"] u l by (simp add: Let_def bslice_def)
qed

lemma header_then_payload:
  assumes "build_h3_frame_header vs ve t (length p) out = (n, out')" and "0 < n" and "unat t < 2 ^ 62" and "length p < 2 ^ 62"
  shows "n \<le> length out \<and> parse_h3_frame vd (take n out' @ p @ rest) = Some ((t, p), n + length p)"
proof -
  have u: "unat (of_nat (length p) :: u64) < 2 ^ 62" using assms(4) by (subst unat_of_nat_below) simp_all
  have r: "vs t + vs (of_nat (length p)) \<le> length out" using assms(1,2) by (auto simp: build_h3_frame_header_def split: if_splits)
  then have l: "length (ve (length out) t) = vs t"
    "length (ve (length out - vs t) (of_nat (length p))) = vs (of_nat (length p))"
    using assms(3) u by (simp_all add: ve_length)
  have ne: "ve (length out) t \<noteq> []" "ve (length out - vs t) (of_nat (length p)) \<noteq> []"
    using l vs_pos [OF assms(3)] vs_pos [OF u] by auto
  have b: "n = vs t + vs (of_nat (length p))" "out' = blit 0 (ve (length out) t @ ve (length out - vs t) (of_nat (length p))) out"
    using assms(1) r ne l blit_blit_append [of 0 "ve (length out) t" "ve (length out - vs t) (of_nat (length p))" out]
    by (auto simp: build_h3_frame_header_def Let_def)
  have "take n out' = ve (length out) t @ ve (length out - vs t) (of_nat (length p))" using b r l by (simp add: blit_def)
  with parse_frame_written [OF assms(3,4), of "length out" "length out - vs t" rest] r b(1) show ?thesis by simp
qed

end

sublocale quic_varint \<subseteq> h3_frames: stream_codec "parse_h3_frame vd" h3_ok "h3_wire ve vs"
proof unfold_locales
  fix f :: "u64 \<times> bytes" and rest assume f: "h3_ok f"
  then have u: "unat (of_nat (length (snd f)) :: u64) < 2 ^ 62"
    unfolding h3_ok_def by (subst unat_of_nat_below) simp_all
  show "parse_h3_frame vd (h3_wire ve vs f @ rest) = Some (f, length (h3_wire ve vs f))"
    using parse_frame_written [of "fst f" "snd f" "vs (fst f)" "vs (of_nat (length (snd f)))" rest] f u
    by (simp add: h3_wire_def h3_ok_def ve_length)
  show "h3_wire ve vs f \<noteq> []"
    using ve_length [of "fst f" "vs (fst f)"] vs_pos [of "fst f"] f by (auto simp: h3_wire_def h3_ok_def)
qed

text \<open>The context identifiers of \<open>h3_datagram.rs\<close> are such integers.\<close>

definition quic_decode :: varint_decoder where
  "quic_decode b = map_option (\<lambda>(v, rest). (v, length b - length rest)) (parse_quic_payload b)"

definition quic_encode :: varint_encoder where
  "quic_encode room v = (case write_quic_payload v [] (replicate room 0) of (Some n, out) \<Rightarrow> take n out | (None, _) \<Rightarrow> [])"

definition quic_size :: "u64 \<Rightarrow> nat" where
  "quic_size v = (case quic_width v of None \<Rightarrow> 0 | Some w \<Rightarrow> w)"

lemma quic_encode_wire: "quic_width v = Some w \<Longrightarrow> w \<le> room \<Longrightarrow> quic_encode room v = quic_wire v"
  using length_quic_wire [of v w] by (simp add: quic_encode_def write_quic_wire blit_def)

interpretation quic: quic_varint quic_decode quic_encode quic_size
proof unfold_locales
  fix v :: u64 and room rest assume v: "unat v < 2 ^ 62"
  then obtain w where w: "quic_width v = Some w" "0 < w" by (rule quic_width_cases) auto
  then show "0 < quic_size v" by (simp add: quic_size_def)
  assume "quic_size v \<le> room"
  with w have e: "quic_encode room v = quic_wire v" by (intro quic_encode_wire) (auto simp: quic_size_def)
  show "length (quic_encode room v) = quic_size v" using w length_quic_wire [OF w(1)] by (simp add: e quic_size_def)
  show "quic_decode (quic_encode room v @ rest) = Some (v, quic_size v)"
    using v w length_quic_wire [OF w(1)] by (simp add: e quic_decode_def parse_quic_wire quic_size_def)
qed

text \<open>C26. A frame behind the header that was built for it is read back with its type and payload, and the reader stops where the frame
  ends, for any variable-length integer that keeps the contract of RFC 9000.\<close>

theorem h3_frame_read_back:
  assumes "quic_varint vd ve vs" and "build_h3_frame_header vs ve t (length p) out = (n, out')" and "0 < n"
    and "unat t < 2 ^ 62" and "length p < 2 ^ 62"
  shows "n \<le> length out \<and> parse_h3_frame vd (take n out' @ p @ rest) = Some ((t, p), n + length p)"
  using quic_varint.header_then_payload [OF assms] .

theorem h3_frame_read_back_witness:
  "parse_h3_frame quic_decode (take 2 (snd (build_h3_frame_header quic_size quic_encode 1 3 (replicate 16 0))) @ [7, 8, 9] @ [5]) =
     Some ((1, [7, 8, 9]), 5)"
proof -
  have w: "quic_width 1 = Some 1" "quic_width 3 = Some 1" by (simp_all add: quic_width_def)
  have l: "length (quic_wire 1) = 1" "length (quic_wire 3) = 1" using w by (simp_all add: length_quic_wire)
  have "build_h3_frame_header quic_size quic_encode 1 (length [7 :: byte, 8, 9]) (replicate 16 0) =
      (2, snd (build_h3_frame_header quic_size quic_encode 1 3 (replicate 16 0)))"
    using w l by (auto simp: build_h3_frame_header_def quic_size_def quic_encode_wire Let_def)
  from h3_frame_read_back [OF quic.quic_varint_axioms this, of "[5]"] show ?thesis by simp
qed

text \<open>A context identifier and its payload are read back, and a datagram record is read back and is the only text that reads
  as it.\<close>

lemma quic_payload_read_back:
  "write_quic_payload v payload out = (Some n, out') \<Longrightarrow> parse_quic_payload (take n out') = Some (v, payload)"
  using parse_quic_wire [of v payload] by (auto simp: write_quic_wire blit_def quic_width_unat split: if_splits)

lemmas h3_datagram_roundtrip = dgram.wr_roundtrip dgram.rd_wr
end
