(* ===== verification/Rfc5322.thy ===== *)
theory Rfc5322
  imports Mime
begin

text \<open>
  Internet message format (\<open>modules/common/rfc5322.rs\<close>): header fields, addresses and message identifiers as spans of the
  caller's buffer, and the header writer. Whitespace (\<open>is_wsp\<close>) is the predicate of theory Mime, the two
  files having the same one. A scan is a loop over an index; the writer's failure leaves what it has already put.
\<close>

section \<open>Header fields\<close>

record header_span =
  hs_name_at :: nat
  hs_name_len :: nat
  hs_value_at :: nat
  hs_value_len :: nat

datatype header_scan = HsField header_span nat | HsEnd nat | HsIncomplete | HsMalformed

abbreviation (input) MAX_LINE_LEN :: nat where "MAX_LINE_LEN \<equiv> 998"
abbreviation (input) FOLD_COLUMN :: nat where "FOLD_COLUMN \<equiv> 78"

definition is_ftext :: "byte \<Rightarrow> bool" where
  "is_ftext b \<longleftrightarrow> 33 \<le> b \<and> b \<le> 126 \<and> b \<noteq> 58"

function line_end :: "bytes \<Rightarrow> nat \<Rightarrow> nat option" where
  "line_end buf i =
     (if i + 1 < length buf then if buf ! i = 13 \<and> buf ! (i + 1) = 10 then Some i else line_end buf (i + 1) else None)"
  by pat_completeness auto
termination by (relation "measure (\<lambda>(buf, i). length buf - i)") auto

declare line_end.simps [simp del]

lemma line_end_bounds: "line_end buf i = Some j \<Longrightarrow> i \<le> j \<and> j + 1 < length buf"
proof (induction buf i rule: line_end.induct)
  case (1 buf i)
  then show ?case by (subst (asm) line_end.simps) (auto split: if_splits)
qed

definition is_crlf_byte :: "byte \<Rightarrow> bool" where
  "is_crlf_byte b \<longleftrightarrow> b = 13 \<or> b = 10"

text \<open>The loop over the folded lines of a value.\<close>

function value_loop :: "bytes \<Rightarrow> nat \<Rightarrow> nat \<Rightarrow> nat \<Rightarrow> nat \<Rightarrow> header_scan" where
  "value_loop buf at name_len value_at cursor =
     (case line_end buf cursor of
        None \<Rightarrow> if 10 \<in> set (drop cursor buf) then HsMalformed else HsIncomplete
      | Some eol \<Rightarrow>
          if list_ex is_crlf_byte (bslice cursor eol buf) then HsMalformed
          else if MAX_LINE_LEN < eol - cursor then HsMalformed
          else if eol + 2 < length buf then
            if is_wsp (buf ! (eol + 2)) then value_loop buf at name_len value_at (eol + 2)
            else HsField \<lparr> hs_name_at = at, hs_name_len = name_len, hs_value_at = value_at, hs_value_len = eol - value_at \<rparr> (eol + 2)
          else HsIncomplete)"
  by pat_completeness auto
termination
  by (relation "measure (\<lambda>(buf, at, name_len, value_at, cursor). length buf - cursor)") (auto dest: line_end_bounds)

declare value_loop.simps [simp del]

definition scan_header :: "bytes \<Rightarrow> nat \<Rightarrow> header_scan" where
  "scan_header buf at =
     (if length buf \<le> at then HsIncomplete
      else if buf ! at = 13 then
        if length buf \<le> at + 1 then HsIncomplete
        else if buf ! (at + 1) = 10 then HsEnd (at + 2)
        else HsMalformed
      else if buf ! at = 10 then HsMalformed
      else if is_wsp (buf ! at) then HsMalformed
      else
        let i = scan_while is_ftext buf at in
        if i < length buf \<and> buf ! i \<noteq> 58 then HsMalformed
        else if length buf \<le> i then HsIncomplete
        else if i - at = 0 then HsMalformed
        else value_loop buf at (i - at) (i + 1) (i + 1))"

lemma value_loop_next:
  "value_loop buf at name_len value_at cursor = HsField sp nxt \<Longrightarrow> cursor < nxt \<and> nxt < length buf"
proof (induction buf at name_len value_at cursor rule: value_loop.induct)
  case (1 buf at name_len value_at cursor)
  then obtain eol where c: "line_end buf cursor = Some eol" by (auto simp: value_loop.simps [of buf at] split: option.splits if_splits)
  with 1 line_end_bounds [OF c] show ?case
    by (fastforce simp: value_loop.simps [of buf at name_len value_at cursor] split: if_splits)
qed

lemma scan_header_next: "scan_header buf at = HsField sp nxt \<Longrightarrow> at < nxt \<and> nxt < length buf"
  using scan_while_ge [of at is_ftext buf] value_loop_next by (fastforce simp: scan_header_def Let_def split: if_splits)

function body_offset_from :: "bytes \<Rightarrow> nat \<Rightarrow> nat option" where
  "body_offset_from buf at =
     (case scan_header buf at of
        HsField _ nxt \<Rightarrow> body_offset_from buf nxt
      | HsEnd body \<Rightarrow> Some body
      | HsIncomplete \<Rightarrow> None
      | HsMalformed \<Rightarrow> None)"
  by pat_completeness auto
termination by (relation "measure (\<lambda>(buf, at). length buf - at)") (auto dest: scan_header_next)

declare body_offset_from.simps [simp del]

definition body_offset :: "bytes \<Rightarrow> nat option" where
  "body_offset buf = body_offset_from buf 0"

definition header_name_is :: "bytes \<Rightarrow> header_span \<Rightarrow> bytes \<Rightarrow> bool" where
  "header_name_is buf sp nm \<longleftrightarrow>
     hs_name_len sp = length nm \<and>
     (\<forall>i < length nm. to_ascii_lowercase (buf ! (hs_name_at sp + i)) = to_ascii_lowercase (nm ! i))"

function find_header_from :: "bytes \<Rightarrow> bytes \<Rightarrow> nat \<Rightarrow> header_span option" where
  "find_header_from buf nm at =
     (case scan_header buf at of
        HsField sp nxt \<Rightarrow> if header_name_is buf sp nm then Some sp else find_header_from buf nm nxt
      | _ \<Rightarrow> None)"
  by pat_completeness auto
termination by (relation "measure (\<lambda>(buf, nm, at). length buf - at)") (auto dest: scan_header_next)

declare find_header_from.simps [simp del]

definition mail_find_header :: "bytes \<Rightarrow> bytes \<Rightarrow> header_span option" where
  "mail_find_header buf nm = find_header_from buf nm 0"

text \<open>The logical value: leading whitespace trimmed, a fold is one space. The position \<open>p\<close> is the length written.\<close>

function unfold_loop :: "bytes \<Rightarrow> nat \<Rightarrow> nat \<Rightarrow> bool \<Rightarrow> nat \<Rightarrow> nat writer" where
  "unfold_loop buf fin i at_start p out =
     (if i < fin then
        let b = buf ! i in
        if b = 13 \<and> i + 1 < fin \<and> buf ! (i + 1) = 10 then
          let j = scan_while is_wsp (take fin buf) (i + 2) in
          if at_start then unfold_loop buf fin (max j (i + 2)) at_start p out
          else if length out \<le> p then (None, out)
          else unfold_loop buf fin (max j (i + 2)) at_start (p + 1) (out[p := 32])
        else if at_start \<and> is_wsp b then unfold_loop buf fin (i + 1) at_start p out
        else if length out \<le> p then (None, out)
        else unfold_loop buf fin (i + 1) False (p + 1) (out[p := b])
      else (Some p, out))"
  by pat_completeness auto
termination by (relation "measure (\<lambda>(buf, fin, i, at_start, p, out). fin - i)") auto

declare unfold_loop.simps [simp del]

fun trim_trailing :: "bytes \<Rightarrow> nat \<Rightarrow> nat" where
  "trim_trailing out 0 = 0"
| "trim_trailing out (Suc p) = (if is_wsp (out ! p) then trim_trailing out p else Suc p)"

definition unfold_value :: "bytes \<Rightarrow> header_span \<Rightarrow> nat writer" where
  "unfold_value buf sp out =
     (case unfold_loop buf (hs_value_at sp + hs_value_len sp) (hs_value_at sp) True 0 out of
        (None, out') \<Rightarrow> (None, out')
      | (Some p, out') \<Rightarrow> (Some (trim_trailing out' p), out'))"

section \<open>Addresses\<close>

record addr_span =
  as_display_at :: nat
  as_display_len :: nat
  as_addr_at :: nat
  as_addr_len :: nat

datatype addr_scan = AsAddr addr_span nat | AsEnd | AsMalformed

definition is_fws :: "byte \<Rightarrow> bool" where
  "is_fws b \<longleftrightarrow> is_wsp b \<or> b = 13 \<or> b = 10"

text \<open>The inside of a comment: the index just past it and the depth reached.\<close>

function comment_loop :: "bytes \<Rightarrow> nat \<Rightarrow> nat \<Rightarrow> nat \<Rightarrow> nat \<times> nat" where
  "comment_loop buf at fin depth =
     (if at < fin \<and> 0 < depth then
        let b = buf ! at in
        if b = 92 then comment_loop buf (at + 2) fin depth
        else comment_loop buf (at + 1) fin (if b = 40 then depth + 1 else if b = 41 then depth - 1 else depth)
      else (at, depth))"
  by pat_completeness auto
termination by (relation "measure (\<lambda>(buf, at, fin, depth). fin - at)") auto

declare comment_loop.simps [simp del]

lemma comment_loop_ge: "comment_loop buf at fin depth = (at', d) \<Longrightarrow> at \<le> at'"
proof (induction buf at fin depth rule: comment_loop.induct)
  case (1 buf at fin depth)
  then show ?case by (subst (asm) comment_loop.simps) (fastforce simp: Let_def split: if_splits)
qed

function skip_cfws :: "bytes \<Rightarrow> nat \<Rightarrow> nat \<Rightarrow> nat option" where
  "skip_cfws buf at fin =
     (let i = scan_while is_fws (take fin buf) at in
      if i < fin \<and> buf ! i = 40 then
        (case comment_loop buf (i + 1) fin 1 of (j, depth) \<Rightarrow> if 0 < depth then None else skip_cfws buf j fin)
      else Some i)"
  by pat_completeness auto
termination
proof (relation "measure (\<lambda>(buf, at, fin). fin - at)", goal_cases)
  case (2 buf at fin i j depth)
  then have "comment_loop buf (i + 1) fin 1 = (j, depth)" "at \<le> i" "i < fin"
    using scan_while_ge [of at is_fws "take fin buf"] by auto
  with comment_loop_ge [of buf "i + 1" fin 1 j depth] show ?case by auto
qed simp

declare skip_cfws.simps [simp del]

definition addr_spec_is_wellformed :: "bytes \<Rightarrow> nat \<Rightarrow> nat \<Rightarrow> bool" where
  "addr_spec_is_wellformed buf at len =
     (let a = bslice at (at + len) buf in
      if len = 0 then False
      else if list_ex (\<lambda>b. b < 32 \<or> b = 127 \<or> is_wsp b \<or> b = 60 \<or> b = 62 \<or> b = 44) a then False
      else count_list a 64 = 1 \<and> 0 < length (takeWhile (\<lambda>b. b \<noteq> 64) a) \<and> length (takeWhile (\<lambda>b. b \<noteq> 64) a) + 1 < len)"

text \<open>A quoted string from just inside its opening quote: the index past the closing one.\<close>

function display_quote_end :: "bytes \<Rightarrow> nat \<Rightarrow> nat \<Rightarrow> nat option" where
  "display_quote_end buf i fin =
     (if i < fin then
        if buf ! i = 92 then display_quote_end buf (i + 2) fin
        else if buf ! i = 34 then Some (i + 1)
        else display_quote_end buf (i + 1) fin
      else None)"
  by pat_completeness auto
termination by (relation "measure (\<lambda>(buf, i, fin). fin - i)") auto

declare display_quote_end.simps [simp del]

lemma display_quote_end_bounds: "display_quote_end buf i fin = Some j \<Longrightarrow> i < j \<and> j \<le> fin"
proof (induction buf i fin rule: display_quote_end.induct)
  case (1 buf i fin)
  then show ?case by (subst (asm) display_quote_end.simps) (fastforce split: if_splits)
qed

text \<open>The walk to the separator: its index, the end of the display name and the angle address, or none on a malformed list.\<close>

function address_walk :: "bytes \<Rightarrow> nat \<Rightarrow> nat \<Rightarrow> nat \<Rightarrow> (nat \<times> nat) option \<Rightarrow> (nat \<times> nat \<times> (nat \<times> nat) option) option" where
  "address_walk buf i fin display_end angle =
     (if i < fin then
        let b = buf ! i in
        if b = 34 then
          (case display_quote_end buf (i + 1) fin of None \<Rightarrow> None | Some j \<Rightarrow> address_walk buf j fin display_end angle)
        else if b = 60 then
          let j = scan_while (\<lambda>c. c \<noteq> 62) (take fin buf) (i + 1) in
          if fin \<le> j then None else address_walk buf (j + 1) fin i (Some (i + 1, j - (i + 1)))
        else if b = 58 then None
        else if b = 44 then Some (i, display_end, angle)
        else address_walk buf (i + 1) fin display_end angle
      else Some (i, display_end, angle))"
  by pat_completeness auto
termination
proof (relation "measure (\<lambda>(buf, i, fin, display_end, angle). fin - i)", goal_cases)
  case (3 buf i fin display_end angle b j)
  then show ?case using scan_while_ge [of "i + 1" "\<lambda>c. c \<noteq> (62 :: byte)" "take fin buf"] by auto
qed (auto dest: display_quote_end_bounds)

declare address_walk.simps [simp del]

fun trim_end :: "bytes \<Rightarrow> nat \<Rightarrow> nat \<Rightarrow> nat" where
  "trim_end buf s 0 = 0"
| "trim_end buf s (Suc e) = (if s < Suc e \<and> is_fws (buf ! e) then trim_end buf s e else Suc e)"

definition scan_address :: "bytes \<Rightarrow> nat \<Rightarrow> nat \<Rightarrow> addr_scan" where
  "scan_address buf at fin =
     (case skip_cfws buf at fin of
        None \<Rightarrow> AsMalformed
      | Some i \<Rightarrow>
          if fin \<le> i then AsEnd
          else
            (case address_walk buf i fin i None of
               None \<Rightarrow> AsMalformed
             | Some (separator, display_end, angle) \<Rightarrow>
                 let nxt = (if separator < fin then separator + 1 else fin);
                     s = scan_while is_fws (take separator buf) i;
                     (addr_at, addr_len, d_stop) =
                       (case angle of Some (a, l) \<Rightarrow> (a, l, display_end) | None \<Rightarrow> (s, trim_end buf s separator - s, s))
                 in
                   if \<not> addr_spec_is_wellformed buf addr_at addr_len then AsMalformed
                   else
                     let d_start = scan_while is_fws (take d_stop buf) i;
                         d_end = trim_end buf d_start d_stop;
                         (d_at, d_fin) = (if d_end \<le> d_start \<or> angle = None then (0, 0) else (d_start, d_end))
                     in AsAddr \<lparr> as_display_at = d_at, as_display_len = d_fin - d_at, as_addr_at = addr_at, as_addr_len = addr_len \<rparr> nxt))"

section \<open>Message identifiers\<close>

datatype msg_id_scan = MsId nat nat nat | MsEnd | MsMalformed

definition scan_msg_id :: "bytes \<Rightarrow> nat \<Rightarrow> nat \<Rightarrow> msg_id_scan" where
  "scan_msg_id buf at fin =
     (case skip_cfws buf at fin of
        None \<Rightarrow> MsMalformed
      | Some i \<Rightarrow>
          if fin \<le> i then MsEnd
          else if buf ! i \<noteq> 60 then MsMalformed
          else
            let start = i + 1; j = scan_while (\<lambda>b. b \<noteq> 62 \<and> \<not> (b < 32 \<or> b = 127 \<or> is_wsp b)) (take fin buf) start in
            if fin \<le> j then MsMalformed
            else if buf ! j \<noteq> 62 then MsMalformed
            else if j - start = 0 then MsMalformed
            else MsId start (j - start) (j + 1))"

section \<open>Writing headers\<close>

definition header_name_is_valid :: "bytes \<Rightarrow> bool" where
  "header_name_is_valid nm \<longleftrightarrow> nm \<noteq> [] \<and> list_all is_ftext nm"

definition header_value_is_valid :: "bytes \<Rightarrow> bool" where
  "header_value_is_valid v \<longleftrightarrow> list_all (\<lambda>b. b \<noteq> 13 \<and> b \<noteq> 10 \<and> (b = 9 \<or> \<not> (b < 32 \<or> b = 127))) v"

definition header_put :: "nat \<Rightarrow> bytes \<Rightarrow> nat writer" where
  "header_put p b out = (if length out < p + length b then (None, out) else (Some (p + length b), blit p b out))"

function write_value_loop :: "bytes \<Rightarrow> nat \<Rightarrow> nat \<Rightarrow> nat \<Rightarrow> nat \<Rightarrow> nat writer" where
  "write_value_loop v name_len i column p out =
     (if i < length v then
        let ws_end = scan_while is_wsp v i; tok_end = scan_while (\<lambda>b. \<not> is_wsp b) v ws_end in
        if ws_end = tok_end then (Some p, out)
        else
          let token = bslice ws_end tok_end v;
              fold_here = (name_len + 1 < column \<and> FOLD_COLUMN < column + 1 + length token)
          in
            (case puts header_put p [if fold_here then [13, 10, 32] else [32], token] out of
               (None, out') \<Rightarrow> (None, out')
             | (Some p', out') \<Rightarrow>
                 write_value_loop v name_len tok_end ((if fold_here then 1 else column + 1) + length token) p' out')
      else (Some p, out))"
  by pat_completeness auto
termination
proof (relation "measure (\<lambda>(v, name_len, i, column, p, out). length v - i)", goal_cases)
  case (2 v name_len i column p out ws_end tok_end)
  then show ?case
    using scan_while_ge [of i is_wsp v] scan_while_ge [of ws_end "\<lambda>b. \<not> is_wsp b" v] by auto
qed simp

declare write_value_loop.simps [simp del]

definition mail_write_header :: "bytes \<Rightarrow> bytes \<Rightarrow> nat writer" where
  "mail_write_header nm v out =
     (if \<not> header_name_is_valid nm \<or> \<not> header_value_is_valid v then (None, out)
      else
        wbind (puts header_put 0 [nm, [58]])
          (\<lambda>p. wbind (write_value_loop v (length nm) 0 (length nm + 1) p) (\<lambda>p. header_put p [13, 10])) out)"

definition write_header_end :: "nat writer" where
  "write_header_end out = (if length out < 2 then (None, out) else (Some 2, blit 0 [13, 10] out))"

section \<open>A scanned field is exactly a field\<close>

lemma drop_nth: "drop c buf = xs \<Longrightarrow> i < length xs \<Longrightarrow> buf ! (c + i) = xs ! i"
  by (metis drop_all le_add_diff_inverse list.size(3) nat_le_linear not_less_zero nth_drop)

lemma drop_len: "drop c buf = xs \<Longrightarrow> xs \<noteq> [] \<Longrightarrow> length buf = c + length xs"
  by (metis drop_all le_add_diff_inverse length_drop nat_le_linear)

lemma drop_shift: "drop c buf = a @ b \<Longrightarrow> drop (c + length a) buf = b"
  by (metis add.commute append_eq_conv_conj drop_drop)

lemma line_end_text:
  "drop c buf = l @ 13 # 10 # r \<Longrightarrow> list_all (\<lambda>b. \<not> is_crlf_byte b) l \<Longrightarrow> line_end buf c = Some (c + length l)"
proof (induction l arbitrary: c)
  case Nil
  then have "buf ! c = 13" "buf ! (c + 1) = 10" "c + 1 < length buf"
    using drop_nth [OF Nil.prems(1), of 0] drop_nth [OF Nil.prems(1), of 1] drop_len [OF Nil.prems(1)] by auto
  then show ?case by (subst line_end.simps) simp
next
  case (Cons x l)
  have x: "buf ! c = x" "c + 1 < length buf"
    using drop_nth [OF Cons.prems(1), of 0] drop_len [OF Cons.prems(1)] by auto
  have "drop (c + 1) buf = l @ 13 # 10 # r" using Cons.prems(1) drop_shift [of c buf "[x]"] by simp
  with Cons have "line_end buf (c + 1) = Some (c + 1 + length l)" by simp
  with x Cons.prems(2) show ?case by (subst line_end.simps) (auto simp: is_crlf_byte_def)
qed

lemma line_end_is_crlf: "line_end buf c = Some i \<Longrightarrow> buf ! i = 13 \<and> buf ! (i + 1) = 10"
proof (induction buf c rule: line_end.induct)
  case (1 buf c)
  then show ?case by (subst (asm) line_end.simps) (auto split: if_splits)
qed

lemma line_end_split: "line_end buf c = Some i \<Longrightarrow> drop c buf = bslice c i buf @ 13 # 10 # drop (i + 2) buf"
proof -
  assume a: "line_end buf c = Some i"
  then have b: "c \<le> i" "i + 1 < length buf" "buf ! i = 13" "buf ! (i + 1) = 10" using line_end_bounds line_end_is_crlf by auto
  then have "drop i buf = 13 # 10 # drop (i + 2) buf" by (metis Cons_nth_drop_Suc Suc_1 Suc_eq_plus1 Suc_lessD add_Suc_right)
  moreover have "drop c buf = bslice c i buf @ drop i buf"
    using b bslice_split [of c i "length buf" buf] by (simp add: bslice_def)
  ultimately show ?thesis by simp
qed

fun value_wire :: "bytes list \<Rightarrow> bytes" where
  "value_wire [] = []"
| "value_wire [l] = l"
| "value_wire (l # ls) = l @ [13, 10] @ value_wire ls"

definition line_ok :: "bytes \<Rightarrow> bool" where
  "line_ok l \<longleftrightarrow> list_all (\<lambda>b. \<not> is_crlf_byte b) l \<and> length l \<le> MAX_LINE_LEN"

definition value_lines :: "bytes list \<Rightarrow> bool" where
  "value_lines ls \<longleftrightarrow> ls \<noteq> [] \<and> list_all line_ok ls \<and> list_all (\<lambda>l. l \<noteq> [] \<and> is_wsp (hd l)) (tl ls)"

lemma value_loop_line:
  assumes "drop c buf = l @ 13 # 10 # b # r" and "line_ok l"
  shows "value_loop buf at nl va c =
    (if is_wsp b then value_loop buf at nl va (c + length l + 2)
     else HsField \<lparr> hs_name_at = at, hs_name_len = nl, hs_value_at = va, hs_value_len = c + length l - va \<rparr> (c + length l + 2))"
proof -
  have e: "line_end buf c = Some (c + length l)" using assms by (intro line_end_text) (auto simp: line_ok_def)
  have s: "bslice c (c + length l) buf = l" using assms(1) by (simp add: bslice_def drop_take)
  have b: "buf ! (c + length l + 2) = b" "c + length l + 2 < length buf"
    using drop_nth [OF assms(1), of "length l + 2"] drop_len [OF assms(1)] by (auto simp: nth_append add.assoc)
  have "\<not> list_ex is_crlf_byte l" using assms(2) by (auto simp: line_ok_def list_ex_iff list_all_iff)
  then show ?thesis using assms(2) b by (subst value_loop.simps) (simp add: e s line_ok_def)
qed

lemma value_loop_complete:
  "drop c buf = value_wire ls @ 13 # 10 # b # r \<Longrightarrow> value_lines ls \<Longrightarrow> \<not> is_wsp b \<Longrightarrow>
   value_loop buf at nl va c =
     HsField \<lparr> hs_name_at = at, hs_name_len = nl, hs_value_at = va, hs_value_len = c + length (value_wire ls) - va \<rparr>
       (c + length (value_wire ls) + 2)"
proof (induction ls arbitrary: c rule: value_wire.induct)
  case (2 l)
  then show ?case by (subst value_loop_line) (auto simp: value_lines_def)
next
  case (3 l m ls)
  have ok: "line_ok l" "value_lines (m # ls)" "m \<noteq> []" "is_wsp (hd m)" using "3.prems"(2) by (auto simp: value_lines_def)
  then obtain x m' where m: "m = x # m'" "is_wsp x" by (cases m) auto
  obtain w where w: "value_wire (m # ls) = x # w" using m by (cases ls) auto
  have d: "drop c buf = l @ 13 # 10 # x # (w @ 13 # 10 # b # r)" using "3.prems"(1) w by simp
  have "drop (c + length l + 2) buf = value_wire (m # ls) @ 13 # 10 # b # r"
    using d w drop_shift [of c buf "l @ [13, 10]"] by simp
  with "3.IH" ok(2) "3.prems"(3) show ?case
    by (subst value_loop_line [OF d ok(1)]) (simp add: m(2) w algebra_simps)
qed (simp add: value_lines_def)

lemma value_loop_sound:
  "value_loop buf at nl va c = HsField sp nxt \<Longrightarrow> c \<le> length buf \<Longrightarrow>
   \<exists>ls b r. drop c buf = value_wire ls @ 13 # 10 # b # r \<and> value_lines ls \<and> \<not> is_wsp b \<and>
     sp = \<lparr> hs_name_at = at, hs_name_len = nl, hs_value_at = va, hs_value_len = c + length (value_wire ls) - va \<rparr> \<and>
     nxt = c + length (value_wire ls) + 2"
proof (induction buf at nl va c rule: value_loop.induct)
  case (1 buf at nl va c)
  obtain e where e: "line_end buf c = Some e" using "1.prems"(1) by (auto simp: value_loop.simps [of buf at nl va c] split: option.splits if_splits)
  let ?l = "bslice c e buf"
  have ok: "\<not> list_ex is_crlf_byte ?l" "\<not> MAX_LINE_LEN < e - c" "e + 2 < length buf"
    using "1.prems"(1) e by (auto simp: value_loop.simps [of buf at nl va c] split: if_splits)
  have b: "c \<le> e" using line_end_bounds [OF e] by simp
  have l: "line_ok ?l" "c + length ?l = e" using ok b by (auto simp: line_ok_def list_ex_iff list_all_iff)
  have d: "drop c buf = ?l @ 13 # 10 # buf ! (e + 2) # drop (e + 3) buf"
    using line_end_split [OF e] ok(3) Cons_nth_drop_Suc [of "e + 2" buf] by (simp add: eval_nat_numeral)
  show ?case
  proof (cases "is_wsp (buf ! (e + 2))")
    case False
    then have "HsField sp nxt = HsField \<lparr> hs_name_at = at, hs_name_len = nl, hs_value_at = va, hs_value_len = e - va \<rparr> (e + 2)"
      using "1.prems"(1) value_loop_line [OF d l(1), of at nl va] l(2) by simp
    with d l False show ?thesis by (intro exI [of _ "[?l]"] exI [of _ "buf ! (e + 2)"] exI [of _ "drop (e + 3) buf"]) (auto simp: value_lines_def)
  next
    case True
    then have n: "value_loop buf at nl va (e + 2) = HsField sp nxt"
      using "1.prems"(1) value_loop_line [OF d l(1), of at nl va] l(2) by simp
    obtain ls q r where r: "drop (e + 2) buf = value_wire ls @ 13 # 10 # q # r" "value_lines ls" "\<not> is_wsp q"
      "sp = \<lparr> hs_name_at = at, hs_name_len = nl, hs_value_at = va, hs_value_len = e + 2 + length (value_wire ls) - va \<rparr>"
      "nxt = e + 2 + length (value_wire ls) + 2"
      using "1.IH" [OF e ok(1,2,3) True n] ok(3) by auto
    obtain m ms where ls: "ls = m # ms" using r(2) by (cases ls) (auto simp: value_lines_def)
    have f: "drop (e + 2) buf = buf ! (e + 2) # drop (e + 3) buf" using ok(3) Cons_nth_drop_Suc [of "e + 2" buf] by (simp add: eval_nat_numeral)
    have "m \<noteq> [] \<and> is_wsp (hd m)"
      using r(1) f True by (cases m; cases ms) (auto simp: ls is_wsp_def)
    then have v: "value_lines (?l # ls)" using l(1) r(2) by (auto simp: value_lines_def ls)
    have w: "value_wire (?l # ls) = ?l @ [13, 10] @ value_wire ls" by (simp add: ls)
    have "drop c buf = value_wire (?l # ls) @ 13 # 10 # q # r" using line_end_split [OF e] r(1) by (simp add: w)
    with v r l(2) w show ?thesis
      by (intro exI [of _ "?l # ls"] exI [of _ q] exI [of _ r]) auto
  qed
qed

text \<open>The layout of one field.\<close>

definition field_at :: "bytes \<Rightarrow> nat \<Rightarrow> bytes \<Rightarrow> bytes list \<Rightarrow> bool" where
  "field_at buf at nm ls \<longleftrightarrow> header_name_is_valid nm \<and> value_lines ls \<and>
     (\<exists>b r. drop at buf = nm @ [58] @ value_wire ls @ 13 # 10 # b # r \<and> \<not> is_wsp b)"

theorem scan_header_exact:
  "scan_header buf at = HsField sp nxt \<longleftrightarrow>
     (\<exists>nm ls. field_at buf at nm ls \<and>
        sp = \<lparr> hs_name_at = at, hs_name_len = length nm, hs_value_at = at + length nm + 1, hs_value_len = length (value_wire ls) \<rparr> \<and>
        nxt = at + length nm + 1 + length (value_wire ls) + 2)"
proof
  assume s: "scan_header buf at = HsField sp nxt"
  define i where "i = scan_while is_ftext buf at"
  have a: "at < length buf" "i < length buf" "buf ! i = 58" "at < i" and v: "value_loop buf at (i - at) (i + 1) (i + 1) = HsField sp nxt"
    using s scan_while_ge [of at is_ftext buf] by (auto simp: scan_header_def Let_def i_def split: if_splits)
  let ?n = "bslice at i buf"
  have n: "?n = takeWhile is_ftext (drop at buf)" unfolding i_def using a(1) by (intro bslice_scan_while) simp
  have len: "length ?n = i - at" using a by simp
  then have "?n \<noteq> []" using a(4) by (metis diff_is_0_eq' list.size(3) not_le zero_less_diff less_irrefl)
  moreover have "list_all is_ftext ?n" unfolding n by (auto simp: list_all_iff dest: set_takeWhileD)
  ultimately have nm: "header_name_is_valid ?n" by (simp add: header_name_is_valid_def)
  obtain ls b r where l: "drop (i + 1) buf = value_wire ls @ 13 # 10 # b # r" "value_lines ls" "\<not> is_wsp b"
    "sp = \<lparr> hs_name_at = at, hs_name_len = i - at, hs_value_at = i + 1, hs_value_len = length (value_wire ls) \<rparr>"
    "nxt = i + 1 + length (value_wire ls) + 2"
    using value_loop_sound [OF v] a(2) by auto
  have "drop at buf = ?n @ drop i buf" using a bslice_split [of at i "length buf" buf] by (simp add: bslice_def)
  also have "drop i buf = 58 # drop (i + 1) buf" using a(2,3) Cons_nth_drop_Suc [of i buf] by simp
  finally have "field_at buf at ?n ls" using nm l by (auto simp: field_at_def)
  with l len a show "\<exists>nm ls. field_at buf at nm ls \<and>
        sp = \<lparr> hs_name_at = at, hs_name_len = length nm, hs_value_at = at + length nm + 1, hs_value_len = length (value_wire ls) \<rparr> \<and>
        nxt = at + length nm + 1 + length (value_wire ls) + 2"
    by (intro exI [of _ ?n] exI [of _ ls]) auto
next
  assume "\<exists>nm ls. field_at buf at nm ls \<and>
        sp = \<lparr> hs_name_at = at, hs_name_len = length nm, hs_value_at = at + length nm + 1, hs_value_len = length (value_wire ls) \<rparr> \<and>
        nxt = at + length nm + 1 + length (value_wire ls) + 2"
  then obtain nm ls b r where f: "header_name_is_valid nm" "value_lines ls" "drop at buf = nm @ [58] @ value_wire ls @ 13 # 10 # b # r" "\<not> is_wsp b"
    and sp: "sp = \<lparr> hs_name_at = at, hs_name_len = length nm, hs_value_at = at + length nm + 1, hs_value_len = length (value_wire ls) \<rparr>"
      "nxt = at + length nm + 1 + length (value_wire ls) + 2"
    by (auto simp: field_at_def)
  have at: "at < length buf" using drop_len [OF f(3)] by simp
  have fs: "list_all is_ftext nm" "nm \<noteq> []" using f(1) by (auto simp: header_name_is_valid_def)
  have "takeWhile is_ftext (drop at buf) = nm"
    using fs unfolding f(3) by (subst takeWhile_append2) (auto simp: list_all_iff is_ftext_def)
  then have i: "scan_while is_ftext buf at = at + length nm" using at by (simp add: scan_while_eq)
  have b: "buf ! at = hd nm" "buf ! (at + length nm) = 58" "at + length nm < length buf"
    using drop_nth [OF f(3), of 0] drop_nth [OF f(3), of "length nm"] drop_len [OF f(3)] fs(2)
    by (auto simp: nth_append hd_conv_nth)
  have "is_ftext (hd nm)" using fs by (auto simp: list_all_iff)
  then have h: "hd nm \<noteq> 13" "hd nm \<noteq> 10" "\<not> is_wsp (hd nm)" by (auto simp: is_ftext_def is_wsp_def)
  have d: "drop (at + length nm + 1) buf = value_wire ls @ 13 # 10 # b # r"
    using f(3) drop_shift [of at buf "nm @ [58]"] by simp
  show "scan_header buf at = HsField sp nxt"
    using value_loop_complete [OF d f(2,4), of at "length nm" "at + length nm + 1"] at b h i fs(2) sp
    by (simp add: scan_header_def Let_def)
qed

section \<open>Verdicts are final\<close>

lemma line_end_append: "line_end buf c = Some i \<Longrightarrow> line_end (buf @ x) c = Some i"
proof (induction buf c rule: line_end.induct)
  case (1 buf c)
  have c: "c + 1 < length buf" using line_end_bounds [OF "1.prems"] by simp
  show ?case
  proof (cases "buf ! c = 13 \<and> buf ! (c + 1) = 10")
    case True
    with "1.prems" c have "i = c" by (simp add: line_end.simps [of buf c])
    with True c show ?thesis by (simp add: line_end.simps [of "buf @ x" c] nth_append)
  next
    case False
    with "1.prems" c have "line_end buf (c + 1) = Some i" by (auto simp: line_end.simps [of buf c])
    with "1.IH" [OF c False] False c show ?thesis by (auto simp: line_end.simps [of "buf @ x" c] nth_append)
  qed
qed

lemma line_end_None: "line_end buf c = None \<Longrightarrow> c \<le> k \<Longrightarrow> k + 1 < length buf \<Longrightarrow> \<not> (buf ! k = 13 \<and> buf ! (k + 1) = 10)"
proof (induction buf c rule: line_end.induct)
  case (1 buf c)
  have c: "c + 1 < length buf" using "1.prems" by simp
  have n: "\<not> (buf ! c = 13 \<and> buf ! (c + 1) = 10)" "line_end buf (c + 1) = None"
    using "1.prems"(1) c by (auto simp: line_end.simps [of buf c] split: if_splits)
  show ?case
  proof (cases "k = c")
    case False
    with "1.IH" [OF c n(1) n(2)] "1.prems"(2,3) show ?thesis by simp
  qed (use n in simp)
qed

lemma value_loop_final:
  "value_loop buf at nl va c \<noteq> HsIncomplete \<Longrightarrow> c \<le> length buf \<Longrightarrow> value_loop (buf @ x) at nl va c = value_loop buf at nl va c"
proof (induction buf at nl va c rule: value_loop.induct)
  case (1 buf at nl va c)
  show ?case
  proof (cases "line_end buf c")
    case (Some e)
    have e: "line_end (buf @ x) c = Some e" by (rule line_end_append [OF Some])
    have b: "c \<le> e" "e + 1 < length buf" using line_end_bounds [OF Some] by simp_all
    have s: "bslice c e (buf @ x) = bslice c e buf" using b by (simp add: bslice_append1)
    show ?thesis
    proof (cases "list_ex is_crlf_byte (bslice c e buf) \<or> MAX_LINE_LEN < e - c")
      case True
      then show ?thesis by (auto simp: value_loop.simps [of buf at nl va c] value_loop.simps [of "buf @ x" at nl va c] Some e s)
    next
      case False
      have n: "e + 2 < length buf" using "1.prems"(1) False by (auto simp: value_loop.simps [of buf at nl va c] Some split: if_splits)
      then have q: "(buf @ x) ! (e + 2) = buf ! (e + 2)" by (simp add: nth_append)
      show ?thesis
      proof (cases "is_wsp (buf ! (e + 2))")
        case True
        have r: "value_loop buf at nl va c = value_loop buf at nl va (e + 2)" "value_loop (buf @ x) at nl va c = value_loop (buf @ x) at nl va (e + 2)"
          using False n True q by (simp_all add: value_loop.simps [of buf at nl va c] value_loop.simps [of "buf @ x" at nl va c] Some e s)
        with "1.IH" [OF Some _ _ n True] False "1.prems"(1) n show ?thesis by simp
      next
        case w: False
        with False n q show ?thesis by (simp add: value_loop.simps [of buf at nl va c] value_loop.simps [of "buf @ x" at nl va c] Some e s)
      qed
    qed
  next
    case None
    then have m: "value_loop buf at nl va c = HsMalformed" and lf: "10 \<in> set (drop c buf)"
      using "1.prems"(1) by (auto simp: value_loop.simps [of buf at nl va c] split: if_splits)
    obtain k where k: "c \<le> k" "k < length buf" "buf ! k = 10"
      using lf "1.prems"(2) by (auto simp: in_set_conv_nth) (metis add.commute le_add1 less_diff_conv)
    show ?thesis
    proof (cases "line_end (buf @ x) c")
      case (Some i)
      note i = line_end_bounds [OF Some] line_end_is_crlf [OF Some]
      have "k < i"
      proof (rule ccontr)
        assume "\<not> k < i"
        with k i have "i < k" by (cases "i = k") (auto simp: nth_append)
        then have "i + 1 < length buf" using k(2) by simp
        with line_end_None [OF None, of i] i show False by (auto simp: nth_append)
      qed
      then have "k - c < length (bslice c i (buf @ x))" "bslice c i (buf @ x) ! (k - c) = 10"
        using k i by (auto simp: bslice_def nth_append)
      then have "10 \<in> set (bslice c i (buf @ x))" by (metis nth_mem)
      then have "list_ex is_crlf_byte (bslice c i (buf @ x))" by (auto simp: list_ex_iff is_crlf_byte_def)
      with Some m show ?thesis by (simp add: value_loop.simps [of "buf @ x" at nl va c])
    next
      case n: None
      have "10 \<in> set (drop c (buf @ x))" using lf by auto
      with n m show ?thesis by (simp add: value_loop.simps [of "buf @ x" at nl va c])
    qed
  qed
qed

text \<open>C28. A verdict on a header block does not change when more of the message arrives: only an incomplete field waits for more.\<close>

theorem scan_header_final:
  assumes "scan_header buf at \<noteq> HsIncomplete"
  shows "scan_header (buf @ x) at = scan_header buf at"
proof -
  have at: "at < length buf" using assms by (auto simp: scan_header_def split: if_splits)
  define i where "i = scan_while is_ftext buf at"
  have a: "(buf @ x) ! at = buf ! at" using at by (simp add: nth_append)
  show ?thesis
  proof (cases "buf ! at = 13 \<or> buf ! at = 10 \<or> is_wsp (buf ! at)")
    case True
    with assms at a show ?thesis by (auto simp: scan_header_def nth_append)
  next
    case False
    have i: "i < length buf" "\<not> is_ftext (buf ! i)"
    proof -
      show "i < length buf" using assms False at by (auto simp: scan_header_def i_def Let_def split: if_splits)
      then show "\<not> is_ftext (buf ! i)" using at nth_length_takeWhile [of is_ftext "drop at buf"] by (simp add: i_def scan_while_eq)
    qed
    have "takeWhile is_ftext (drop at buf @ x) = takeWhile is_ftext (drop at buf)"
      using i at by (intro takeWhile_append1 [where x = "buf ! i"])
        (auto simp: in_set_conv_nth i_def scan_while_eq intro!: exI [of _ "length (takeWhile is_ftext (drop at buf))"])
    then have j: "scan_while is_ftext (buf @ x) at = i" using at by (simp add: scan_while_eq i_def)
    have b: "(buf @ x) ! i = buf ! i" using i by (simp add: nth_append)
    have v: "value_loop (buf @ x) at (i - at) (i + 1) (i + 1) = value_loop buf at (i - at) (i + 1) (i + 1)"
      if "value_loop buf at (i - at) (i + 1) (i + 1) \<noteq> HsIncomplete" using value_loop_final [OF that] i(1) by simp
    show ?thesis
      using assms False at a i(1) j b v by (auto simp: scan_header_def Let_def i_def [symmetric])
  qed
qed

theorem scan_header_final_witness:
  "scan_header ([65, 58, 32, 98, 13, 10, 67] @ [58, 13, 10]) 0 = scan_header [65, 58, 32, 98, 13, 10, 67] 0"
proof (rule scan_header_final)
  have "field_at [65, 58, 32, 98, 13, 10, 67] 0 [65] [[32, 98]]"
    by (auto simp: field_at_def header_name_is_valid_def is_ftext_def value_lines_def line_ok_def is_crlf_byte_def is_wsp_def)
  then show "scan_header [65, 58, 32, 98, 13, 10, 67] 0 \<noteq> HsIncomplete"
    using scan_header_exact by (metis header_scan.distinct(3))
qed

section \<open>A written header is read back\<close>

interpretation hput: bounded_put header_put
  by unfold_locales (simp_all add: header_put_def)

function toks :: "bytes \<Rightarrow> bytes list" where
  "toks v = (let w = dropWhile is_wsp v in
     if w = [] then [] else takeWhile (\<lambda>b. \<not> is_wsp b) w # toks (dropWhile (\<lambda>b. \<not> is_wsp b) w))"
  by pat_completeness auto
termination
proof (relation "measure length", goal_cases)
  case (2 v w)
  then have "w \<noteq> []" "\<not> is_wsp (hd w)" using hd_dropWhile [of is_wsp v] by simp_all
  then obtain x xs where w: "w = x # xs" "\<not> is_wsp x" by (cases w) simp_all
  then have "length (dropWhile (\<lambda>b. \<not> is_wsp b) w) < length w" by (simp add: length_dropWhile_le le_imp_less_Suc)
  also have "length w \<le> length v" using 2(1) by (simp add: length_dropWhile_le)
  finally show ?case by simp
qed simp

declare toks.simps [simp del]

lemma toks_set: "t \<in> set (toks v) \<Longrightarrow> t \<noteq> [] \<and> list_all (\<lambda>b. \<not> is_wsp b) t \<and> set t \<subseteq> set v"
proof (induction v rule: toks.induct)
  case (1 v)
  define w where "w = dropWhile is_wsp v"
  have w: "w \<noteq> []" using "1.prems" by (auto simp: toks.simps [of v] Let_def w_def split: if_splits)
  then have h: "\<not> is_wsp (hd w)" unfolding w_def by (rule hd_dropWhile)
  have sub: "set w \<subseteq> set v" using set_dropWhileD unfolding w_def by fast
  have "toks v = takeWhile (\<lambda>b. \<not> is_wsp b) w # toks (dropWhile (\<lambda>b. \<not> is_wsp b) w)"
    using w by (subst toks.simps) (simp add: Let_def w_def)
  with "1.prems" consider (here) "t = takeWhile (\<lambda>b. \<not> is_wsp b) w" | (later) "t \<in> set (toks (dropWhile (\<lambda>b. \<not> is_wsp b) w))"
    by auto
  then show ?case
  proof cases
    case here
    have "t \<noteq> []" using w h here by (cases w) auto
    with here sub show ?thesis by (auto simp: list_all_iff dest: set_takeWhileD)
  next
    case later
    with "1.IH" [OF w_def w] sub show ?thesis by (auto dest: set_dropWhileD)
  qed
qed

fun fold_toks :: "nat \<Rightarrow> nat \<Rightarrow> bytes list \<Rightarrow> bytes list" where
  "fold_toks nl col [] = []"
| "fold_toks nl col (t # ts) =
     (let f = (nl + 1 < col \<and> FOLD_COLUMN < col + 1 + length t)
      in (if f then [13, 10, 32] else [32]) # t # fold_toks nl ((if f then 1 else col + 1) + length t) ts)"

lemma write_value_loop_puts: "i \<le> length v \<Longrightarrow> write_value_loop v nl i col p out = puts header_put p (fold_toks nl col (toks (drop i v))) out"
proof (induction v nl i col p out rule: write_value_loop.induct)
  case (1 v nl i col p out)
  define w where "w = scan_while is_wsp v i"
  define t where "t = scan_while (\<lambda>b. \<not> is_wsp b) v w"
  have wl: "w \<le> length v" "i \<le> w" "w \<le> t" "t \<le> length v"
    using "1.prems" scan_while_le [of i v is_wsp] scan_while_ge [of i is_wsp v] scan_while_le [of w v "\<lambda>b. \<not> is_wsp b"]
      scan_while_ge [of w "\<lambda>b. \<not> is_wsp b" v] by (auto simp: w_def t_def)
  have dw: "drop w v = dropWhile is_wsp (drop i v)" unfolding w_def using "1.prems" by (rule drop_scan_while)
  have dt: "drop t v = dropWhile (\<lambda>b. \<not> is_wsp b) (drop w v)" unfolding t_def using wl(1) by (rule drop_scan_while)
  have tk: "bslice w t v = takeWhile (\<lambda>b. \<not> is_wsp b) (drop w v)" unfolding t_def using wl(1) by (rule bslice_scan_while)
  show ?case
  proof (cases "drop w v = []")
    case True
    then have "toks (drop i v) = []" by (simp add: toks.simps [of "drop i v"] dw Let_def)
    moreover have "w = t" using True wl by simp
    ultimately show ?thesis
      unfolding write_value_loop.simps [of v nl i col p out] Let_def w_def [symmetric] t_def [symmetric] by simp
  next
    case False
    have h: "\<not> is_wsp (hd (drop w v))" using hd_dropWhile [of is_wsp "drop i v"] False dw by simp
    have ne: "bslice w t v \<noteq> []" unfolding tk using False h by (cases "drop w v") auto
    have tw: "w \<noteq> t" using ne by (auto simp: bslice_def)
    have tks: "toks (drop i v) = bslice w t v # toks (drop t v)"
      using False by (subst toks.simps) (simp add: Let_def dw [symmetric] tk dt)
    have il: "i < length v" using False wl by (metis drop_all le_trans not_le)
    define f where "f = (nl + 1 < col \<and> FOLD_COLUMN < col + 1 + length (bslice w t v))"
    have IH: "write_value_loop v nl t ((if f then 1 else col + 1) + length (bslice w t v)) p' out' =
        puts header_put p' (fold_toks nl ((if f then 1 else col + 1) + length (bslice w t v)) (toks (drop t v))) out'"
      if "puts header_put p [if f then [13, 10, 32] else [32], bslice w t v] out = (Some p', out')" for p' out'
      using "1.IH" [OF il w_def t_def tw refl f_def, OF that [symmetric] refl] wl(4) by simp
    show ?thesis
      using il tw IH
      unfolding write_value_loop.simps [of v nl i col p out] Let_def w_def [symmetric] t_def [symmetric] f_def [symmetric] tks fold_toks.simps
      by (auto simp: wbind_def split: option.splits prod.splits)
  qed
qed

lemma puts_append: "puts put p (xs @ ys) out = wbind (puts put p xs) (\<lambda>p. puts put p ys) out"
  by (induction xs arbitrary: p out) (auto simp: wbind_def split: option.splits prod.splits)

lemma mail_write_header_puts:
  assumes "header_name_is_valid nm" and "header_value_is_valid v"
  shows "mail_write_header nm v out = puts header_put 0 ([nm, [58]] @ fold_toks (length nm) (length nm + 1) (toks v) @ [[13, 10]]) out"
proof -
  have e: "write_value_loop v (length nm) 0 (length nm + 1) = (\<lambda>p. puts header_put p (fold_toks (length nm) (length nm + 1) (toks v)))"
    by (intro ext) (simp add: write_value_loop_puts)
  have p: "header_put p b = puts header_put p [b]" for p b
    by (intro ext) (simp add: wbind_def split: option.splits prod.splits)
  show ?thesis
    using assms unfolding mail_write_header_def e puts_append p [of _ "[13, 10]"] by simp
qed

text \<open>The lines the writer makes: none is longer than a reader takes, as long as no word is.\<close>

lemma value_wire_Cons: "ls \<noteq> [] \<Longrightarrow> value_wire (l # ls) = l @ [13, 10] @ value_wire ls"
  by (cases ls) simp_all

lemma value_wire_prepend: "value_wire ((a @ l) # ls) = a @ value_wire (l # ls)"
  by (cases ls) simp_all

definition word_ok :: "nat \<Rightarrow> bytes \<Rightarrow> bool" where
  "word_ok nl t \<longleftrightarrow> t \<noteq> [] \<and> list_all (\<lambda>b. \<not> is_wsp b \<and> \<not> is_crlf_byte b) t \<and> nl + 2 + length t \<le> MAX_LINE_LEN"

lemma fold_toks_lines:
  assumes "list_all (word_ok nl) ts"
  shows "\<exists>l ls. concat (fold_toks nl col ts) = value_wire (l # ls) \<and> list_all (\<lambda>b. \<not> is_crlf_byte b) l \<and>
    col + length l \<le> max col MAX_LINE_LEN \<and> list_all line_ok ls \<and> list_all (\<lambda>l. l \<noteq> [] \<and> is_wsp (hd l)) ls"
  using assms
proof (induction ts arbitrary: col)
  case Nil
  show ?case by (intro exI [of _ "[]"]) simp
next
  case (Cons t ts)
  have t: "list_all (\<lambda>b. \<not> is_crlf_byte b) t" "nl + 2 + length t \<le> 998" and ts: "list_all (word_ok nl) ts"
    using Cons.prems by (auto simp: word_ok_def list_all_iff)
  have sp: "\<not> is_crlf_byte 32" "is_wsp 32" by (simp_all add: is_crlf_byte_def is_wsp_def)
  define f where "f = (nl + 1 < col \<and> FOLD_COLUMN < col + 1 + length t)"
  obtain l ls where l: "concat (fold_toks nl ((if f then 1 else col + 1) + length t) ts) = value_wire (l # ls)"
    "list_all (\<lambda>b. \<not> is_crlf_byte b) l" "(if f then 1 else col + 1) + length t + length l \<le> max ((if f then 1 else col + 1) + length t) MAX_LINE_LEN"
    "list_all line_ok ls" "list_all (\<lambda>l. l \<noteq> [] \<and> is_wsp (hd l)) ls"
    using Cons.IH [OF ts, of "(if f then 1 else col + 1) + length t"] by blast
  have c: "concat (fold_toks nl col (t # ts)) = (if f then [13, 10, 32] else [32]) @ value_wire ((t @ l) # ls)"
    using l(1) value_wire_prepend [of t l ls] by (simp add: Let_def f_def)
  have tl: "list_all (\<lambda>b. \<not> is_crlf_byte b) (32 # t @ l)" using t l sp by simp
  show ?case
  proof (cases f)
    case True
    have "line_ok (32 # t @ l)" using tl l(3) True t(2) by (simp add: line_ok_def)
    moreover have "concat (fold_toks nl col (t # ts)) = value_wire ([] # (32 # t @ l) # ls)"
      using c True value_wire_prepend [of "[32]" "t @ l" ls] by simp
    ultimately show ?thesis using l sp by (intro exI [of _ "[]"] exI [of _ "(32 # t @ l) # ls"]) simp
  next
    case False
    have "concat (fold_toks nl col (t # ts)) = value_wire ((32 # t @ l) # ls)"
      using c False value_wire_prepend [of "[32]" "t @ l" ls] by simp
    moreover have "col + length (32 # t @ l) \<le> max col MAX_LINE_LEN" using l(3) False t(2) by (auto simp: f_def)
    ultimately show ?thesis using l tl by (intro exI [of _ "32 # t @ l"] exI [of _ ls]) simp
  qed
qed

text \<open>Reading the logical value.\<close>

function unfold_text :: "bool \<Rightarrow> bytes \<Rightarrow> bytes" where
  "unfold_text st [] = []"
| "unfold_text st (b # bs) =
     (if b = 13 \<and> bs \<noteq> [] \<and> hd bs = 10 then (if st then [] else [32]) @ unfold_text st (dropWhile is_wsp (tl bs))
      else if st \<and> is_wsp b then unfold_text st bs
      else b # unfold_text False bs)"
  by pat_completeness auto
termination
  by (relation "measure (\<lambda>(st, bs). length bs)") (auto simp: length_dropWhile_le le_imp_less_Suc less_Suc_eq_le intro: order_trans [OF length_dropWhile_le])

lemma bslice_Cons: "i < j \<Longrightarrow> j \<le> length b \<Longrightarrow> bslice i j b = b ! i # bslice (i + 1) j b"
  using bslice_split [of i "i + 1" j b] by (simp add: bslice_def Cons_nth_drop_Suc [symmetric])

lemma blit_update: "p < length out \<Longrightarrow> p + 1 + length t \<le> length out \<Longrightarrow> blit (p + 1) t (out[p := b]) = blit p (b # t) out"
  using blit_blit_append [of p "[b]" t out] by (simp add: blit_single)

lemma unfold_loop_text:
  assumes "i \<le> fin" and "fin \<le> length buf" and "p \<le> length out"
  shows "let t = unfold_text st (bslice i fin buf) in
    if p + length t \<le> length out then unfold_loop buf fin i st p out = (Some (p + length t), blit p t out)
    else fst (unfold_loop buf fin i st p out) = None"
  using assms
proof (induction buf fin i st p out rule: unfold_loop.induct)
  case (1 buf fin i st p out)
  show ?case
  proof (cases "i < fin")
    case False
    with "1.prems" show ?thesis unfolding unfold_loop.simps [of buf fin i st p out] by (simp add: bslice_def blit_def)
  next
    case True
    then have d: "bslice i fin buf = buf ! i # bslice (i + 1) fin buf"
      using "1.prems"(2) by (rule bslice_Cons)
    have put: "let u = b # t in if p + length u \<le> length out then unfold_loop buf fin i st p out = (Some (p + length u), blit p u out)
        else fst (unfold_loop buf fin i st p out) = None"
      if b: "unfold_loop buf fin i st p out = (if length out \<le> p then (None, out) else unfold_loop buf fin k s' (p + 1) (out[p := b]))"
        and t: "t = unfold_text s' (bslice k fin buf)"
        and ih: "p < length out \<Longrightarrow> let t = unfold_text s' (bslice k fin buf) in
          if p + 1 + length t \<le> length (out[p := b]) then unfold_loop buf fin k s' (p + 1) (out[p := b]) = (Some (p + 1 + length t), blit (p + 1) t (out[p := b]))
          else fst (unfold_loop buf fin k s' (p + 1) (out[p := b])) = None"
      for b s' t k
      using ih blit_update [of p out t b] by (cases "p < length out") (auto simp: b t Let_def)
    show ?thesis
    proof (cases "buf ! i = 13 \<and> i + 1 < fin \<and> buf ! (i + 1) = 10")
      case fold: True
      define j where "j = max (scan_while is_wsp (take fin buf) (i + 2)) (i + 2)"
      have j: "j = scan_while is_wsp (take fin buf) (i + 2)" using scan_while_ge [of "i + 2" is_wsp "take fin buf"] by (simp add: j_def)
      have jl: "j \<le> fin" unfolding j using scan_while_le [of "i + 2" "take fin buf" is_wsp] fold "1.prems"(2) by simp
      have bj: "bslice j fin buf = dropWhile is_wsp (bslice (i + 2) fin buf)"
        unfolding j bslice_def drop_take [symmetric] using fold "1.prems"(2) by (intro drop_scan_while) simp
      have d2: "bslice (i + 1) fin buf = 10 # bslice (i + 2) fin buf"
        using fold "1.prems"(2) bslice_Cons [of "i + 1" fin buf] by simp
      have u: "unfold_text st (bslice i fin buf) = (if st then [] else [32]) @ unfold_text st (bslice j fin buf)"
        using fold unfolding d d2 bj by simp
      show ?thesis
      proof (cases st)
        case True
        have "unfold_loop buf fin i st p out = unfold_loop buf fin j st p out"
          using fold True \<open>i < fin\<close> unfolding unfold_loop.simps [of buf fin i st p out] Let_def j_def by simp
        then show ?thesis
          unfolding u using "1.IH"(1) [OF \<open>i < fin\<close> refl fold refl True, folded j_def, OF jl "1.prems"(2,3)] True by (auto simp: Let_def split: if_splits)
      next
        case False
        have b: "unfold_loop buf fin i st p out = (if length out \<le> p then (None, out) else unfold_loop buf fin j st (p + 1) (out[p := 32]))"
          using fold False \<open>i < fin\<close> unfolding unfold_loop.simps [of buf fin i st p out] Let_def j_def by simp
        have ih: "p < length out \<Longrightarrow> let t = unfold_text st (bslice j fin buf) in
          if p + 1 + length t \<le> length (out[p := 32]) then unfold_loop buf fin j st (p + 1) (out[p := 32]) = (Some (p + 1 + length t), blit (p + 1) t (out[p := 32]))
          else fst (unfold_loop buf fin j st (p + 1) (out[p := 32])) = None"
          unfolding j_def using "1.IH"(2) [OF \<open>i < fin\<close> refl fold refl False] jl "1.prems"(2) by (simp add: j_def)
        show ?thesis unfolding u using put [OF b refl ih] False by simp
      qed
    next
      case nofold: False
      have n2: "\<not> (buf ! i = 13 \<and> bslice (i + 1) fin buf \<noteq> [] \<and> hd (bslice (i + 1) fin buf) = 10)"
        using nofold True "1.prems"(2) by (auto simp: bslice_def hd_drop_conv_nth)
      show ?thesis
      proof (cases "st \<and> is_wsp (buf ! i)")
        case skip: True
        have "unfold_loop buf fin i st p out = unfold_loop buf fin (i + 1) st p out"
          using nofold skip True unfolding unfold_loop.simps [of buf fin i st p out] Let_def by auto
        moreover have "unfold_text st (bslice i fin buf) = unfold_text st (bslice (i + 1) fin buf)" using n2 skip unfolding d by auto
        ultimately show ?thesis using "1.IH"(3) [OF True refl nofold skip] True "1.prems"(2,3) by (auto simp: Let_def split: if_splits)
      next
        case take: False
        have b: "unfold_loop buf fin i st p out = (if length out \<le> p then (None, out) else unfold_loop buf fin (i + 1) False (p + 1) (out[p := buf ! i]))"
          using nofold take True unfolding unfold_loop.simps [of buf fin i st p out] Let_def by auto
        have ih: "p < length out \<Longrightarrow> let t = unfold_text False (bslice (i + 1) fin buf) in
          if p + 1 + length t \<le> length (out[p := buf ! i]) then
            unfold_loop buf fin (i + 1) False (p + 1) (out[p := buf ! i]) = (Some (p + 1 + length t), blit (p + 1) t (out[p := buf ! i]))
          else fst (unfold_loop buf fin (i + 1) False (p + 1) (out[p := buf ! i])) = None"
          using "1.IH"(4) [OF True refl nofold take] True "1.prems"(2) by simp
        have "unfold_text st (bslice i fin buf) = buf ! i # unfold_text False (bslice (i + 1) fin buf)" using n2 take unfolding d by auto
        then show ?thesis using put [OF b refl ih] by simp
      qed
    qed
  qed
qed

definition unwords :: "bytes list \<Rightarrow> bytes" where
  "unwords ts = (case ts of [] \<Rightarrow> [] | t # ts \<Rightarrow> t @ concat (map ((#) 32) ts))"

lemma unfold_text_word:
  "list_all (\<lambda>b. \<not> is_wsp b \<and> \<not> is_crlf_byte b) t \<Longrightarrow> t \<noteq> [] \<or> \<not> st \<Longrightarrow> unfold_text st (t @ r) = t @ unfold_text False r"
  by (induction t arbitrary: st) (auto simp: is_crlf_byte_def)

lemma unfold_fold_toks:
  "list_all (word_ok nl) ts \<Longrightarrow> unfold_text False (concat (fold_toks nl col ts)) = concat (map ((#) 32) ts)"
proof (induction ts arbitrary: col)
  case (Cons t ts)
  have t: "list_all (\<lambda>b. \<not> is_wsp b \<and> \<not> is_crlf_byte b) t" "t \<noteq> []" using Cons.prems by (auto simp: word_ok_def)
  then have h: "dropWhile is_wsp (t @ r) = t @ r" for r by (cases t) auto
  have "is_wsp 32" by (simp add: is_wsp_def)
  with Cons t h show ?case by (auto simp: Let_def unfold_text_word)
qed simp

lemma unwords_last: "list_all (word_ok nl) ts \<Longrightarrow> unwords ts = [] \<or> \<not> is_wsp (last (unwords ts))"
proof -
  assume a: "list_all (word_ok nl) ts"
  show ?thesis
  proof (cases ts)
    case (Cons t us)
    show ?thesis
    proof (cases us rule: rev_cases)
      case Nil
      then show ?thesis using Cons a by (auto simp: unwords_def word_ok_def list_all_iff)
    next
      case (snoc vs u)
      then have "last (unwords ts) = last u" "u \<noteq> []" "\<not> is_wsp (last u)"
        using Cons a by (auto simp: unwords_def word_ok_def list_all_iff)
      then show ?thesis by simp
    qed
  qed (simp add: unwords_def)
qed

lemma trim_trailing_blit:
  "length t \<le> length out \<Longrightarrow> t = [] \<or> \<not> is_wsp (last t) \<Longrightarrow> trim_trailing (blit 0 t out) (length t) = length t"
  by (cases t rule: rev_cases) (auto simp: blit_def nth_append)

lemma unfold_written:
  assumes "list_all (word_ok nl) ts"
  shows "unfold_text True (concat (fold_toks nl (nl + 1) ts)) = unwords ts"
proof (cases ts)
  case (Cons t us)
  have t: "list_all (\<lambda>b. \<not> is_wsp b \<and> \<not> is_crlf_byte b) t" "t \<noteq> []" "list_all (word_ok nl) us" using Cons assms by (auto simp: word_ok_def)
  have "is_wsp 32" by (simp add: is_wsp_def)
  then show ?thesis using t unfold_fold_toks [OF t(3)] by (simp add: Cons Let_def unwords_def unfold_text_word)
qed (simp add: unwords_def)

text \<open>What a written header reads back as: the words of the value, whatever blanks stood between them.\<close>

lemma mail_header_words_back:
  assumes "mail_write_header nm v out = (Some n, out')" and "\<forall>t\<in>set (toks v). length nm + 2 + length t \<le> MAX_LINE_LEN" and "\<not> is_wsp b"
    and "length (unwords (toks v)) \<le> length out2"
  shows "\<exists>sp. scan_header (take n out' @ b # r) 0 = HsField sp n \<and>
    bslice (hs_name_at sp) (hs_name_at sp + hs_name_len sp) (take n out' @ b # r) = nm \<and>
    unfold_value (take n out' @ b # r) sp out2 = (Some (length (unwords (toks v))), blit 0 (unwords (toks v)) out2)"
proof -
  have val: "header_name_is_valid nm" "header_value_is_valid v" using assms(1) by (auto simp: mail_write_header_def split: if_splits)
  define w where "w = concat (fold_toks (length nm) (length nm + 1) (toks v))"
  define xs where "xs = [nm, [58]] @ fold_toks (length nm) (length nm + 1) (toks v) @ [[13, 10]]"
  have e: "concat xs = nm @ [58] @ w @ [13, 10]" by (simp add: xs_def w_def)
  have "n = length (concat xs)" "out' = blit 0 (concat xs) out"
    using assms(1) hput.puts_iff [of 0 out xs n out'] unfolding mail_write_header_puts [OF val] xs_def by auto
  then have "n = length (concat xs)" "take n out' = concat xs" by (simp_all add: blit_def)
  then have pw: "n = length (nm @ [58] @ w @ [13, 10])" "take n out' = nm @ [58] @ w @ [13, 10]" unfolding e by simp_all
  have ok: "list_all (word_ok (length nm)) (toks v)"
    using assms(2) toks_set val(2) by (fastforce simp: list_all_iff word_ok_def header_value_is_valid_def is_crlf_byte_def)
  obtain l ls where l: "w = value_wire (l # ls)" "list_all (\<lambda>b. \<not> is_crlf_byte b) l" "length nm + 1 + length l \<le> max (length nm + 1) MAX_LINE_LEN"
    "list_all line_ok ls" "list_all (\<lambda>l. l \<noteq> [] \<and> is_wsp (hd l)) ls"
    using fold_toks_lines [OF ok, of "length nm + 1"] unfolding w_def by auto
  have "value_lines (l # ls)" using l by (auto simp: value_lines_def line_ok_def max_def split: if_splits)
  then have f: "field_at (take n out' @ b # r) 0 nm (l # ls)" using val(1) assms(3) pw(2) l(1) by (auto simp: field_at_def)
  define sp where "sp = \<lparr> hs_name_at = 0, hs_name_len = length nm, hs_value_at = 0 + length nm + 1, hs_value_len = length (value_wire (l # ls)) \<rparr>"
  have s: "scan_header (take n out' @ b # r) 0 = HsField sp n"
    unfolding scan_header_exact using f pw(1) l(1) by (intro exI [of _ nm] exI [of _ "l # ls"]) (simp add: sp_def)
  have bs: "bslice (hs_value_at sp) (hs_value_at sp + hs_value_len sp) (take n out' @ b # r) = w"
    by (simp add: sp_def pw(2) l(1) [symmetric] bslice_def)
  have t: "unfold_text True w = unwords (toks v)" unfolding w_def by (rule unfold_written [OF ok])
  have fit: "hs_value_at sp \<le> hs_value_at sp + hs_value_len sp" "hs_value_at sp + hs_value_len sp \<le> length (take n out' @ b # r)"
    unfolding pw(2) by (simp_all add: sp_def l(1) [symmetric])
  have "unfold_loop (take n out' @ b # r) (hs_value_at sp + hs_value_len sp) (hs_value_at sp) True 0 out2 =
      (Some (length (unwords (toks v))), blit 0 (unwords (toks v)) out2)"
    using unfold_loop_text [OF fit, of 0 out2 True] assms(4) unfolding bs t by (simp add: Let_def)
  then have "unfold_value (take n out' @ b # r) sp out2 = (Some (length (unwords (toks v))), blit 0 (unwords (toks v)) out2)"
    using trim_trailing_blit [OF assms(4) unwords_last [OF ok]] by (simp add: unfold_value_def)
  moreover have "bslice (hs_name_at sp) (hs_name_at sp + hs_name_len sp) (take n out' @ b # r) = nm" by (simp add: sp_def pw(2) bslice_def)
  ultimately show ?thesis using s by blast
qed

text \<open>C27. A header that was written is read back exactly. Take a value whose words are separated by single
  spaces, with none before the first and none after the last, and whose words each fit a line of 998 bytes
  behind the name, its colon and a space. Once the byte after the header has arrived, and it is not a space
  or a tab (which would continue the field), the scan of the message ends the field where the writer did,
  the name is the one written, and unfolding gives the value back exactly; so no value can add a field of
  its own.\<close>

theorem mail_header_read_back:
  assumes "mail_write_header nm v out = (Some n, out')" and "v = unwords (toks v)"
    and "\<forall>t\<in>set (toks v). length nm + 2 + length t \<le> MAX_LINE_LEN" and "\<not> is_wsp b" and "length v \<le> length out2"
  shows "\<exists>sp out3. scan_header (take n out' @ b # r) 0 = HsField sp n \<and>
    bslice (hs_name_at sp) (hs_name_at sp + hs_name_len sp) (take n out' @ b # r) = nm \<and>
    unfold_value (take n out' @ b # r) sp out2 = (Some (length v), out3) \<and> take (length v) out3 = v"
  using mail_header_words_back [OF assms(1,3,4), of out2 r] assms(5) unfolding assms(2) [symmetric]
  by (auto simp: blit_def)

theorem mail_header_read_back_witness:
  "\<exists>sp out3. scan_header (take 9 (snd (mail_write_header [84, 111] [97, 32, 98] (replicate 20 0))) @ [88]) 0 = HsField sp 9 \<and>
    unfold_value (take 9 (snd (mail_write_header [84, 111] [97, 32, 98] (replicate 20 0))) @ [88]) sp (replicate 4 0) = (Some 3, out3) \<and>
    take 3 out3 = [97, 32, 98]"
proof -
  have t: "toks [97, 32, 98] = [[97], [98]]" by (simp add: toks.simps is_wsp_def)
  have v: "header_name_is_valid [84, 111]" "header_value_is_valid [97, 32, 98]"
    by (simp_all add: header_name_is_valid_def header_value_is_valid_def is_ftext_def)
  have "fst (mail_write_header [84, 111] [97, 32, 98] (replicate 20 0)) = Some 9"
    unfolding mail_write_header_puts [OF v] by (subst hput.puts_fits) (simp_all add: t Let_def)
  then have w: "mail_write_header [84, 111] [97, 32, 98] (replicate 20 0) =
      (Some 9, snd (mail_write_header [84, 111] [97, 32, 98] (replicate 20 0)))"
    by (metis prod.collapse)
  have u: "[97, 32, 98] = unwords (toks [97, 32, 98])" unfolding t by (simp add: unwords_def)
  have "\<forall>x\<in>set (toks [97, 32, 98]). length [84, 111 :: byte] + 2 + length x \<le> MAX_LINE_LEN" "\<not> is_wsp 88"
    unfolding t by (auto simp: is_wsp_def)
  from mail_header_read_back [OF w u this, of "replicate 4 0" "[]"] show ?thesis by (auto simp: numeral_3_eq_3)
qed

section \<open>Addresses and identifiers stay in their field\<close>

lemma comment_loop_le: "comment_loop buf at fin depth = (at', 0) \<Longrightarrow> at \<le> fin \<Longrightarrow> at' \<le> fin"
proof (induction buf at fin depth rule: comment_loop.induct)
  case (1 buf at fin depth)
  show ?case
  proof (cases "at < fin \<and> 0 < depth")
    case True
    show ?thesis
    proof (cases "buf ! at = 92")
      case b: True
      then have r: "comment_loop buf (at + 2) fin depth = (at', 0)" using "1.prems"(1) True by (simp add: comment_loop.simps [of buf at fin depth])
      have "at + 2 \<le> fin"
      proof (rule ccontr)
        assume "\<not> at + 2 \<le> fin"
        then have "comment_loop buf (at + 2) fin depth = (at + 2, depth)" unfolding comment_loop.simps [of buf "at + 2" fin depth] by simp
        with r True show False by simp
      qed
      with "1.IH"(1) [OF True refl b r] show ?thesis by simp
    next
      case False
      with "1.IH"(2) [OF True refl False] "1.prems" True show ?thesis by (simp add: comment_loop.simps [of buf at fin depth] Let_def)
    qed
  next
    case False
    with "1.prems" show ?thesis by (auto simp: comment_loop.simps [of buf at fin depth])
  qed
qed

lemma skip_cfws_bounds: "skip_cfws buf at fin = Some i \<Longrightarrow> at \<le> fin \<Longrightarrow> fin \<le> length buf \<Longrightarrow> at \<le> i \<and> i \<le> fin"
proof (induction buf at fin rule: skip_cfws.induct)
  case (1 buf at fin)
  define j where "j = scan_while is_fws (take fin buf) at"
  have j: "at \<le> j" "j \<le> fin" using scan_while_ge [of at is_fws "take fin buf"] scan_while_le [of at "take fin buf" is_fws] "1.prems"(2,3) by (auto simp: j_def)
  show ?case
  proof (cases "j < fin \<and> buf ! j = 40")
    case True
    obtain k d where k: "comment_loop buf (j + 1) fin 1 = (k, d)" by (cases "comment_loop buf (j + 1) fin 1")
    have d: "\<not> 0 < d" and r: "skip_cfws buf k fin = Some i"
      using "1.prems"(1) True k by (auto simp: skip_cfws.simps [of buf at fin] Let_def j_def [symmetric] split: if_splits)
    have kb: "j + 1 \<le> k" "k \<le> fin" using comment_loop_ge [OF k] comment_loop_le [of buf "j + 1" fin 1 k] k d True by auto
    from "1.IH" [OF j_def True k [symmetric] d r kb(2) "1.prems"(3)] kb j show ?thesis by auto
  next
    case False
    with "1.prems"(1) j show ?thesis by (simp add: skip_cfws.simps [of buf at fin] Let_def j_def [symmetric])
  qed
qed

lemma scan_msg_id_bounds:
  assumes "scan_msg_id buf at fin = MsId start len nxt" and "at \<le> fin" and "fin \<le> length buf"
  shows "at < start \<and> 0 < len \<and> nxt = start + len + 1 \<and> nxt \<le> fin \<and> buf ! (start - 1) = 60 \<and> buf ! (start + len) = 62 \<and>
    list_all (\<lambda>b. b \<noteq> 62 \<and> 32 < b \<and> b \<noteq> 127) (bslice start (start + len) buf)"
proof -
  obtain i where i: "skip_cfws buf at fin = Some i" "i < fin" "buf ! i = 60" "start = i + 1"
    and r: "let j = scan_while (\<lambda>b. b \<noteq> 62 \<and> \<not> (b < 32 \<or> b = 127 \<or> is_wsp b)) (take fin buf) start in
      \<not> fin \<le> j \<and> buf ! j = 62 \<and> j - start \<noteq> 0 \<and> len = j - start \<and> nxt = j + 1"
    using assms(1) by (auto simp: scan_msg_id_def Let_def split: option.splits if_splits)
  define P where "P = (\<lambda>b :: byte. b \<noteq> 62 \<and> \<not> (b < 32 \<or> b = 127 \<or> is_wsp b))"
  define j where "j = scan_while P (take fin buf) start"
  have j: "j < fin" "buf ! j = 62" "start < j" "len = j - start" "nxt = j + 1" using r unfolding P_def [symmetric] j_def [symmetric] by (auto simp: Let_def)
  have a: "at \<le> i" using skip_cfws_bounds [OF i(1) assms(2,3)] by simp
  have "bslice start j (take fin buf) = takeWhile P (drop start (take fin buf))"
    unfolding j_def using i(2,4) assms(3) by (intro bslice_scan_while) simp
  moreover have "bslice start j (take fin buf) = bslice start j buf" using j(1) by (simp add: bslice_def drop_take min_def)
  ultimately have "list_all P (bslice start j buf)" by (auto simp: list_all_iff dest: set_takeWhileD)
  moreover have "P b \<Longrightarrow> b \<noteq> 62 \<and> 32 < b \<and> b \<noteq> 127" for b by (auto simp: P_def is_wsp_def)
  ultimately show ?thesis using a i j by (auto simp: list_all_iff)
qed

text \<open>A list entry with two angle addresses is read as its last one.\<close>

lemma second_angle_address_wins:
  "scan_address [60, 97, 64, 98, 62, 60, 99, 64, 100, 62] 0 10 =
     AsAddr \<lparr> as_display_at = 0, as_display_len = 5, as_addr_at = 6, as_addr_len = 3 \<rparr> 10"
  by code_simp

text \<open>The test that keeps the first word on the first line also holds on a folded line shorter than the name, so a long
  word stays there past the fold column.\<close>

lemma short_folded_line_not_folded:
  "length a = 70 \<Longrightarrow> length b = 30 \<Longrightarrow> length c = 90 \<Longrightarrow> fold_toks 40 41 [a, b, c] = [[32], a, [13, 10, 32], b, [32], c]"
  by (simp add: Let_def)

text \<open>A carriage return inside a line that has not ended is reported as incomplete, although no continuation makes it a field.\<close>

lemma bare_cr_waits: "scan_header [65, 58, 13, 98] 0 = HsIncomplete"
  by code_simp

end
