(* ===== verification/Rtp.thy ===== *)
theory Rtp
  imports Wave_Prelude
begin

text \<open>
  The RTP cores: the RFC 3550 header decoder and the MID extension (\<open>modules/common/rtp_core.rs\<close>), the
  receive-record and statistics layouts (\<open>rtp_wire.rs\<close>), the route table (\<open>rtp_route.rs\<close>), the pacer
  (\<open>rtp_pacer.rs\<close>), the rate controller (\<open>rtp_congestion.rs\<close>) and the clock map (\<open>rtp_sync.rs\<close>). The
  decoder is shown to accept exactly the well-formed packets, and the writers and readers of the records
  between the modules to agree.
\<close>

unbundle bit_operations_syntax

section \<open>The packet header\<close>

abbreviation (input) RTP_HEADER_SIZE :: nat where "RTP_HEADER_SIZE \<equiv> 12"

record rtp_header =
  rh_payload_type :: byte
  rh_marker :: bool
  rh_seq :: u16
  rh_timestamp :: u32
  rh_ssrc :: u32
  rh_payload_start :: nat
  rh_payload_end :: nat

definition payload_len :: "rtp_header \<Rightarrow> nat" where
  "payload_len h = rh_payload_end h - rh_payload_start h"

text \<open>The end of the header: the fixed part, the CSRC list and the extension.\<close>

definition rtp_ext_end :: "bytes \<Rightarrow> nat \<Rightarrow> nat option" where
  "rtp_ext_end pkt start =
     (if pkt ! 0 AND 0x10 \<noteq> 0 then
        if length pkt < start + 4 then None
        else
          let words = unat (push_bit 8 (ucast (pkt ! (start + 2))) OR ucast (pkt ! (start + 3)) :: u16);
              total = 4 + words * 4
          in if length pkt \<le> start + total then None else Some (start + total)
      else Some start)"

definition rtp_pad_start :: "bytes \<Rightarrow> nat \<Rightarrow> nat option" where
  "rtp_pad_start pkt start =
     (let fin = length pkt in
      if pkt ! 0 AND 0x20 \<noteq> 0 then
        let pad = unat (pkt ! (fin - 1)) in
        if pad = 0 \<or> fin - start < pad then None else Some (fin - pad)
      else Some fin)"

definition rtp_parse :: "bytes \<Rightarrow> rtp_header option" where
  "rtp_parse pkt =
     (if length pkt < RTP_HEADER_SIZE then None
      else
        let b0 = pkt ! 0 in
        if drop_bit 6 b0 AND 3 \<noteq> 2 then None
        else
          let start0 = RTP_HEADER_SIZE + unat (b0 AND 0x0F) * 4 in
          if length pkt \<le> start0 then None
          else
            Option.bind (rtp_ext_end pkt start0) (\<lambda>start.
            Option.bind (rtp_pad_start pkt start) (\<lambda>fin.
              if fin = start then None
              else Some \<lparr>
                rh_payload_type = pkt ! 1 AND 0x7F, rh_marker = (pkt ! 1 AND 0x80 \<noteq> 0),
                rh_seq = of_nat (be_val (bslice 2 4 pkt)),
                rh_timestamp = of_nat (be_val (bslice 4 8 pkt)),
                rh_ssrc = of_nat (be_val (bslice 8 12 pkt)),
                rh_payload_start = start, rh_payload_end = fin \<rparr>)))"

text \<open>The walk over the RFC 8285 one-byte elements; \<open>at..fin\<close> lies inside the packet.\<close>

function rtp_mid_loop :: "bytes \<Rightarrow> nat \<Rightarrow> nat \<Rightarrow> bytes" where
  "rtp_mid_loop pkt at fin =
     (if at < fin then
        let descriptor = pkt ! at; at = at + 1 in
        if descriptor = 0 then rtp_mid_loop pkt at fin
        else
          let ident = drop_bit 4 descriptor in
          if ident = 15 then []
          else
            let len = unat (descriptor AND 0x0F) + 1 in
            if fin < at + len then []
            else if ident = 10 then bslice at (at + len) pkt
            else rtp_mid_loop pkt (at + len) fin
      else [])"
  by pat_completeness auto
termination by (relation "measure (\<lambda>(pkt, at, fin). fin - at)") auto

declare rtp_mid_loop.simps [simp del]

definition rtp_mid :: "bytes \<Rightarrow> rtp_header \<Rightarrow> bytes" where
  "rtp_mid pkt header =
     (if length pkt < RTP_HEADER_SIZE \<or> length pkt < rh_payload_start header then []
      else
        let ext = RTP_HEADER_SIZE + unat (pkt ! 0 AND 0x0F) * 4 in
        if pkt ! 0 AND 0x10 = 0 \<or> rh_payload_start header < ext + 4 then []
        else
          let profile = be_val (bslice ext (ext + 2) pkt);
              bytes = be_val (bslice (ext + 2) (ext + 4) pkt) * 4;
              start = ext + 4
          in
            if profile \<noteq> 0xBEDE \<or> length pkt < start + bytes then []
            else rtp_mid_loop pkt start (start + bytes))"

text \<open>The fixed header \<open>send_rtp_packet\<close> of the rtp module builds.\<close>

definition rtp_fixed_header :: "byte \<Rightarrow> bool \<Rightarrow> u16 \<Rightarrow> u32 \<Rightarrow> u32 \<Rightarrow> bytes" where
  "rtp_fixed_header payload_type marker seq timestamp ssrc =
     [0x80, (payload_type AND 0x7F) OR (if marker then 0x80 else 0)] @
     be_bytes 2 (unat seq) @ be_bytes 4 (unat timestamp) @ be_bytes 4 (unat ssrc)"

section \<open>Receive records\<close>

abbreviation (input) RTP_RX_META_LEN :: nat where "RTP_RX_META_LEN \<equiv> 13"
abbreviation (input) RTP_MID_MAX :: nat where "RTP_MID_MAX \<equiv> 32"
abbreviation (input) RTP_RX_META_MID_LEN :: nat where "RTP_RX_META_MID_LEN \<equiv> 46"

record rtp_receive_meta =
  rm_seq :: u16
  rm_timestamp :: u32
  rm_ssrc :: u32
  rm_payload_type :: byte
  rm_marker :: bool
  rm_codec :: byte

definition put_rtp_rx_meta :: "rtp_receive_meta \<Rightarrow> nat writer" where
  "put_rtp_rx_meta meta payload =
     (if length payload < RTP_RX_META_LEN then (None, payload)
      else
        (Some RTP_RX_META_LEN,
         blit 0 (le_bytes 2 (unat (rm_seq meta)) @ le_bytes 4 (unat (rm_timestamp meta)) @ le_bytes 4 (unat (rm_ssrc meta)) @
           [rm_payload_type meta, if rm_marker meta then 1 else 0, rm_codec meta]) payload))"

definition parse_rtp_rx_meta :: "bytes \<Rightarrow> rtp_receive_meta option" where
  "parse_rtp_rx_meta payload =
     (if length payload < RTP_RX_META_LEN \<or> 1 < payload ! 11 then None
      else Some \<lparr>
        rm_seq = of_nat (le_val (bslice 0 2 payload)), rm_timestamp = of_nat (le_val (bslice 2 6 payload)),
        rm_ssrc = of_nat (le_val (bslice 6 10 payload)), rm_payload_type = payload ! 10,
        rm_marker = (payload ! 11 \<noteq> 0), rm_codec = payload ! 12 \<rparr>)"

definition put_rtp_rx_meta_mid :: "rtp_receive_meta \<Rightarrow> bytes \<Rightarrow> nat writer" where
  "put_rtp_rx_meta_mid meta mid payload =
     (if mid = [] \<or> RTP_MID_MAX < length mid \<or> length payload < RTP_RX_META_MID_LEN then (None, payload)
      else
        wbind (put_rtp_rx_meta meta)
          (\<lambda>at out. (Some RTP_RX_META_MID_LEN,
             blit (at + 1) mid (blit (at + 1) (replicate RTP_MID_MAX 0) (out[at := of_nat (length mid)])))) payload)"

definition parse_rtp_rx_meta_mid :: "bytes \<Rightarrow> (rtp_receive_meta \<times> bytes \<times> byte) option" where
  "parse_rtp_rx_meta_mid payload =
     (if length payload < RTP_RX_META_MID_LEN then None
      else
        let mid_len = unat (payload ! RTP_RX_META_LEN) in
        if mid_len = 0 \<or> RTP_MID_MAX < mid_len then None
        else
          Option.bind (parse_rtp_rx_meta payload) (\<lambda>meta.
            Some (meta, blit 0 (bslice (RTP_RX_META_LEN + 1) (RTP_RX_META_LEN + 1 + mid_len) payload) (replicate RTP_MID_MAX 0),
                  of_nat mid_len)))"

section \<open>Statistics records\<close>

abbreviation (input) RTCP_STAT_RX :: byte where "RTCP_STAT_RX \<equiv> 1"
abbreviation (input) RTCP_STAT_TX :: byte where "RTCP_STAT_TX \<equiv> 2"
abbreviation (input) RTCP_STAT_RX_META :: byte where "RTCP_STAT_RX_META \<equiv> 3"

datatype rtcp_stat = StatRx u16 u32 | StatRxMeta u16 u32 u32 | StatTx u32 u32 u32

definition put_rtcp_stat_rx :: "u16 \<Rightarrow> u32 \<Rightarrow> nat writer" where
  "put_rtcp_stat_rx seq rtp_ts out =
     (if length out < 7 then (None, out)
      else (Some 7, blit 0 ([RTCP_STAT_RX] @ le_bytes 2 (unat seq) @ le_bytes 4 (unat rtp_ts)) out))"

definition put_rtcp_stat_rx_meta :: "u16 \<Rightarrow> u32 \<Rightarrow> u32 \<Rightarrow> nat writer" where
  "put_rtcp_stat_rx_meta seq rtp_ts ssrc out =
     (if length out < 11 then (None, out)
      else (Some 11, blit 0 ([RTCP_STAT_RX_META] @ le_bytes 2 (unat seq) @ le_bytes 4 (unat rtp_ts) @ le_bytes 4 (unat ssrc)) out))"

definition put_rtcp_stat_tx :: "u32 \<Rightarrow> u32 \<Rightarrow> u32 \<Rightarrow> nat writer" where
  "put_rtcp_stat_tx packets octets rtp_ts out =
     (if length out < 13 then (None, out)
      else (Some 13, blit 0 ([RTCP_STAT_TX] @ le_bytes 4 (unat packets) @ le_bytes 4 (unat octets) @ le_bytes 4 (unat rtp_ts)) out))"

definition rtcp_stat_len :: "byte \<Rightarrow> nat option" where
  "rtcp_stat_len tag =
     (if tag = RTCP_STAT_RX then Some 7 else if tag = RTCP_STAT_RX_META then Some 11
      else if tag = RTCP_STAT_TX then Some 13 else None)"

definition parse_rtcp_stat :: "bytes \<Rightarrow> rtcp_stat option" where
  "parse_rtcp_stat buf =
     (case buf of
        [] \<Rightarrow> None
      | tag # _ \<Rightarrow>
          (case rtcp_stat_len tag of
             None \<Rightarrow> None
           | Some want \<Rightarrow>
               if length buf \<noteq> want then None
               else if tag = RTCP_STAT_RX then
                 Some (StatRx (of_nat (le_val (bslice 1 3 buf))) (of_nat (le_val (bslice 3 7 buf))))
               else if tag = RTCP_STAT_RX_META then
                 Some (StatRxMeta (of_nat (le_val (bslice 1 3 buf))) (of_nat (le_val (bslice 3 7 buf))) (of_nat (le_val (bslice 7 11 buf))))
               else if tag = RTCP_STAT_TX then
                 Some (StatTx (of_nat (le_val (bslice 1 5 buf))) (of_nat (le_val (bslice 5 9 buf))) (of_nat (le_val (bslice 9 13 buf))))
               else None))"

section \<open>Routes, pacing, rate and clock\<close>

record rtp_route =
  rr_mid :: bytes
  rr_mid_len :: byte
  rr_payload_type :: byte
  rr_ssrc :: u32

abbreviation (input) RTP_ROUTE_MAX :: nat where "RTP_ROUTE_MAX \<equiv> 16"

text \<open>The table's slots; \<open>len\<close> counts the installed ones.\<close>

record rtp_route_table =
  rt_routes :: "rtp_route option list"
  rt_len :: nat

definition route_table_new :: rtp_route_table where
  "route_table_new = \<lparr> rt_routes = replicate RTP_ROUTE_MAX None, rt_len = 0 \<rparr>"

definition same_binding :: "rtp_route \<Rightarrow> rtp_route \<Rightarrow> bool" where
  "same_binding route r \<longleftrightarrow>
     rr_payload_type r = rr_payload_type route \<and> rr_ssrc r = rr_ssrc route \<and> rr_mid_len r = rr_mid_len route \<and>
     take (unat (rr_mid_len r)) (rr_mid r) = take (unat (rr_mid_len route)) (rr_mid route)"

definition opt_any :: "('a \<Rightarrow> bool) \<Rightarrow> 'a option \<Rightarrow> bool" where
  "opt_any P x = (case x of None \<Rightarrow> False | Some r \<Rightarrow> P r)"

definition route_add :: "rtp_route_table \<Rightarrow> rtp_route \<Rightarrow> bool \<times> rtp_route_table" where
  "route_add t route =
     (if RTP_MID_MAX < unat (rr_mid_len route) then (False, t)
      else if list_ex (opt_any (same_binding route)) (rt_routes t) then (False, t)
      else if rt_len t = RTP_ROUTE_MAX then (False, t)
      else (True, t\<lparr> rt_routes := (rt_routes t)[rt_len t := Some route], rt_len := rt_len t + 1 \<rparr>))"

text \<open>\<open>iter_mut().flatten().find(..)\<close>, and the assignment through what it found.\<close>

fun replace_first :: "('a \<Rightarrow> bool) \<Rightarrow> 'a \<Rightarrow> 'a option list \<Rightarrow> 'a option list option" where
  "replace_first P v [] = None"
| "replace_first P v (x # xs) =
     (if opt_any P x then Some (Some v # xs) else map_option ((#) x) (replace_first P v xs))"

definition route_upsert :: "rtp_route_table \<Rightarrow> rtp_route \<Rightarrow> bool \<times> rtp_route_table" where
  "route_upsert t route =
     (if RTP_MID_MAX < unat (rr_mid_len route) then (False, t)
      else
        (case replace_first (same_binding route) route (rt_routes t) of
           Some rs \<Rightarrow> (True, t\<lparr> rt_routes := rs \<rparr>)
         | None \<Rightarrow> route_add t route))"

definition route_matches :: "bytes \<Rightarrow> byte \<Rightarrow> u32 \<Rightarrow> rtp_route \<Rightarrow> bool" where
  "route_matches mid payload_type ssrc r \<longleftrightarrow>
     \<not> (rr_payload_type r \<noteq> payload_type \<or> rr_ssrc r \<noteq> 0 \<and> rr_ssrc r \<noteq> ssrc \<or>
        rr_mid_len r \<noteq> 0 \<and> take (unat (rr_mid_len r)) (rr_mid r) \<noteq> mid)"

definition specificity :: "rtp_route \<Rightarrow> nat" where
  "specificity r = (if rr_ssrc r \<noteq> 0 then 1 else 0) + (if rr_mid_len r \<noteq> 0 then 1 else 0)"

fun resolve_loop :: "bytes \<Rightarrow> byte \<Rightarrow> u32 \<Rightarrow> rtp_route option list \<Rightarrow> rtp_route option \<Rightarrow> nat \<Rightarrow> rtp_route option" where
  "resolve_loop mid pt ssrc [] best score = best"
| "resolve_loop mid pt ssrc (None # rs) best score = resolve_loop mid pt ssrc rs best score"
| "resolve_loop mid pt ssrc (Some r # rs) best score =
     (if \<not> route_matches mid pt ssrc r then resolve_loop mid pt ssrc rs best score
      else if score \<le> specificity r then resolve_loop mid pt ssrc rs (Some r) (specificity r)
      else resolve_loop mid pt ssrc rs best score)"

definition route_resolve :: "rtp_route_table \<Rightarrow> bytes \<Rightarrow> byte \<Rightarrow> u32 \<Rightarrow> rtp_route option" where
  "route_resolve t mid payload_type ssrc = resolve_loop mid payload_type ssrc (rt_routes t) None 0"

definition route_is_empty :: "rtp_route_table \<Rightarrow> bool" where
  "route_is_empty t \<longleftrightarrow> rt_len t = 0"

datatype pace_decision = PaceWait u64 | PaceSend u32 u32

record rtp_pacer =
  pc_clock_rate :: u32
  pc_ptime_ms :: u32
  pc_next_ms :: u64
  pc_timestamp :: u32
  pc_started :: bool

definition pacer_new :: "u32 \<Rightarrow> u32 \<Rightarrow> rtp_pacer option" where
  "pacer_new clock_rate ptime_ms =
     (if clock_rate = 0 \<or> ptime_ms = 0 then None
      else Some \<lparr> pc_clock_rate = clock_rate, pc_ptime_ms = ptime_ms, pc_next_ms = 0, pc_timestamp = 0, pc_started = False \<rparr>)"

definition pacer_reset :: "rtp_pacer \<Rightarrow> u64 \<Rightarrow> u32 \<Rightarrow> rtp_pacer" where
  "pacer_reset p now_ms timestamp = p\<lparr> pc_next_ms := now_ms, pc_timestamp := timestamp, pc_started := True \<rparr>"

definition pacer_step :: "rtp_pacer \<Rightarrow> u32" where
  "pacer_step p = max 1 (ucast ((ucast (pc_clock_rate p) * ucast (pc_ptime_ms p)) div 1000 :: u64))"

definition pacer_poll :: "rtp_pacer \<Rightarrow> u64 \<Rightarrow> pace_decision \<times> rtp_pacer" where
  "pacer_poll p0 now_ms =
     (let p = (if pc_started p0 then p0 else pacer_reset p0 now_ms 0) in
      if now_ms < pc_next_ms p then (PaceWait (pc_next_ms p), p)
      else
        let late = ucast (min (now_ms - pc_next_ms p) (0xFFFFFFFF :: u64)) :: u32;
            step = pacer_step p;
            p' = p\<lparr> pc_timestamp := pc_timestamp p + step, pc_next_ms := sat_add64 (pc_next_ms p) (ucast (pc_ptime_ms p)) \<rparr>
        in (PaceSend (pc_timestamp p' - step) late, p'))"

record rtp_congestion =
  cg_bitrate :: u32
  cg_min :: u32
  cg_max :: u32

definition congestion_new :: "u32 \<Rightarrow> u32 \<Rightarrow> u32 \<Rightarrow> rtp_congestion option" where
  "congestion_new initial mn mx =
     (if mn = 0 \<or> mx < mn \<or> initial < mn \<or> mx < initial then None
      else Some \<lparr> cg_bitrate = initial, cg_min = mn, cg_max = mx \<rparr>)"

definition congestion_feedback :: "rtp_congestion \<Rightarrow> u32 \<Rightarrow> u32 \<Rightarrow> u32 \<Rightarrow> rtp_congestion" where
  "congestion_feedback c lost received rtt_ms =
     (let total = max (sat_add32 lost received) 1 in
      if total < sat_mul32 lost 10 \<or> 2000 < rtt_ms then c\<lparr> cg_bitrate := max (cg_bitrate c div 2) (cg_min c) \<rparr>
      else
        let step = max (cg_bitrate c div 20) 1
        in c\<lparr> cg_bitrate := min (sat_add32 (cg_bitrate c) step) (cg_max c) \<rparr>)"

record rtp_clock_map =
  cm_rtp_anchor :: u32
  cm_ntp_ms_anchor :: int
  cm_clock_rate :: u32

definition clock_map_new :: "u32 \<Rightarrow> int \<Rightarrow> u32 \<Rightarrow> rtp_clock_map option" where
  "clock_map_new rtp_anchor ntp_ms_anchor clock_rate =
     (if clock_rate = 0 then None
      else Some \<lparr> cm_rtp_anchor = rtp_anchor, cm_ntp_ms_anchor = ntp_ms_anchor, cm_clock_rate = clock_rate \<rparr>)"

text \<open>Division truncates towards zero. The product fits 64 bits; the sum with the anchor is an \<open>i64\<close>, kept
  exact here, so the lemmas below hold while it fits.\<close>

definition timestamp_ms :: "rtp_clock_map \<Rightarrow> u32 \<Rightarrow> int" where
  "timestamp_ms m timestamp =
     (let delta = sint (timestamp - cm_rtp_anchor m); prod = delta * 1000; rate = uint (cm_clock_rate m)
      in cm_ntp_ms_anchor m + sgn prod * (\<bar>prod\<bar> div rate))"

definition offset_ms :: "rtp_clock_map \<Rightarrow> u32 \<Rightarrow> rtp_clock_map \<Rightarrow> u32 \<Rightarrow> int" where
  "offset_ms m timestamp other other_timestamp = timestamp_ms other other_timestamp - timestamp_ms m timestamp"

section \<open>The decoder accepts exactly the well-formed packets\<close>

definition rtp_ext_ok :: "byte \<Rightarrow> bytes \<Rightarrow> bool" where
  "rtp_ext_ok b0 ext \<longleftrightarrow>
     (if bit b0 4 then \<exists>profile body. ext = profile @ be_bytes 2 (length body div 4) @ body \<and> length profile = 2 \<and>
        4 dvd length body \<and> length body div 4 < 2 ^ 16
      else ext = [])"

definition rtp_padding_ok :: "byte \<Rightarrow> bytes \<Rightarrow> bool" where
  "rtp_padding_ok b0 padding \<longleftrightarrow>
     (if bit b0 5 then padding \<noteq> [] \<and> unat (last padding) = length padding else padding = [])"

text \<open>RFC 3550: version 2, as many CSRC words as counted, the extension and the padding the flags announce, and
  something in between.\<close>

definition rtp_packet :: "bytes \<Rightarrow> rtp_header \<Rightarrow> bool" where
  "rtp_packet pkt h \<longleftrightarrow>
     (\<exists>b0 b1 csrc ext payload padding.
        pkt = [b0, b1] @ be_bytes 2 (unat (rh_seq h)) @ be_bytes 4 (unat (rh_timestamp h)) @ be_bytes 4 (unat (rh_ssrc h)) @
              csrc @ ext @ payload @ padding \<and>
        drop_bit 6 b0 AND 3 = 2 \<and> length csrc = unat (b0 AND 0x0F) * 4 \<and> rtp_ext_ok b0 ext \<and> rtp_padding_ok b0 padding \<and>
        payload \<noteq> [] \<and> rh_payload_type h = b1 AND 0x7F \<and> rh_marker h = bit b1 7 \<and>
        rh_payload_start h = 12 + length csrc + length ext \<and>
        rh_payload_end h = 12 + length csrc + length ext + length payload)"

lemma rtp_words: "unat (push_bit 8 (ucast a) OR ucast b :: u16) = be_val [a, b]"
  using byte_unat_less [of a] byte_unat_less [of b]
  by (subst unat_push_or) (simp_all add: unat_ucast_widen del: byte_unat_less)

lemma rtp_ext_end_Some:
  assumes "rtp_ext_end pkt i = Some j" and "i < length pkt"
  shows "i \<le> j \<and> j < length pkt \<and> rtp_ext_ok (pkt ! 0) (bslice i j pkt)"
proof (cases "bit (pkt ! 0) 4")
  case False
  with assms show ?thesis by (simp add: rtp_ext_end_def and_bit_mask rtp_ext_ok_def bslice_def)
next
  case True
  let ?p = "bslice i (i + 2) pkt" and ?ln = "bslice (i + 2) (i + 4) pkt"
  have l: "i + 4 \<le> length pkt" using True assms by (auto simp: rtp_ext_end_def and_bit_mask split: if_splits)
  then have w: "unat (push_bit 8 (ucast (pkt ! (i + 2))) OR ucast (pkt ! (i + 3)) :: u16) = be_val ?ln"
    using bslice_pair [of "i + 3" "i + 2" "i + 4" pkt] by (simp add: rtp_words)
  have j: "j = i + (4 + be_val ?ln * 4)" and lt: "j < length pkt"
    using True assms l unfolding rtp_ext_end_def w and_bit_mask Let_def by (auto split: if_splits)
  let ?body = "bslice (i + 4) j pkt"
  have b: "length ?body = be_val ?ln * 4" using lt j by simp
  have s: "bslice i j pkt = ?p @ ?ln @ ?body"
    using bslice_split [of i "i + 2" j pkt] bslice_split [of "i + 2" "i + 4" j pkt] j by simp
  have n: "be_bytes 2 (length ?body div 4) = ?ln"
    using be_bytes_be_val [of ?ln] l b by simp
  have "be_val ?ln < 2 ^ 16" using be_val_less [of ?ln] l by simp
  then have "bslice i j pkt = ?p @ be_bytes 2 (length ?body div 4) @ ?body \<and> length ?p = 2 \<and> 4 dvd length ?body \<and> length ?body div 4 < 2 ^ 16"
    unfolding n using s b l by simp
  then have "rtp_ext_ok (pkt ! 0) (bslice i j pkt)" unfolding rtp_ext_ok_def if_P [OF True] by blast
  then show ?thesis using j lt by simp
qed

lemma rtp_pad_start_Some:
  assumes "rtp_pad_start pkt i = Some j" and "i < length pkt"
  shows "i \<le> j \<and> j \<le> length pkt \<and> rtp_padding_ok (pkt ! 0) (drop j pkt)"
  using assms by (auto simp: rtp_pad_start_def and_bit_mask Let_def rtp_padding_ok_def last_drop last_conv_nth split: if_splits)

lemma rtp_parse_sound:
  assumes "rtp_parse pkt = Some h"
  shows "rtp_packet pkt h"
proof -
  define i where "i = 12 + unat (pkt ! 0 AND 0x0F) * 4"
  obtain j k where j: "rtp_ext_end pkt i = Some j" and k: "rtp_pad_start pkt j = Some k" and ne: "k \<noteq> j"
    and len: "12 \<le> length pkt" "i < length pkt" and v: "drop_bit 6 (pkt ! 0) AND 3 = 2"
    and h: "h = \<lparr> rh_payload_type = pkt ! 1 AND 0x7F, rh_marker = (pkt ! 1 AND 0x80 \<noteq> 0),
                rh_seq = of_nat (be_val (bslice 2 4 pkt)), rh_timestamp = of_nat (be_val (bslice 4 8 pkt)),
                rh_ssrc = of_nat (be_val (bslice 8 12 pkt)), rh_payload_start = j, rh_payload_end = k \<rparr>"
    using assms unfolding rtp_parse_def Let_def i_def [symmetric] by (auto simp: bind_eq_Some_conv split: if_splits)
  have J: "i \<le> j" "j < length pkt" "rtp_ext_ok (pkt ! 0) (bslice i j pkt)" using rtp_ext_end_Some [OF j] len by auto
  have K: "j \<le> k" "k \<le> length pkt" "rtp_padding_ok (pkt ! 0) (drop k pkt)" using rtp_pad_start_Some [OF k J(2)] by auto
  have i: "12 \<le> i" by (simp add: i_def)
  have f: "length (bslice 2 4 pkt) = 2" "length (bslice 4 8 pkt) = 4" "length (bslice 8 12 pkt) = 4" using len by simp_all
  have "pkt = bslice 0 (length pkt) pkt" by simp
  also have "\<dots> = bslice 0 2 pkt @ bslice 2 4 pkt @ bslice 4 8 pkt @ bslice 8 12 pkt @ bslice 12 i pkt @ bslice i j pkt @ bslice j k pkt @ bslice k (length pkt) pkt"
    using i J K len
    by (simp only: bslice_split [of 0 2 "length pkt"] bslice_split [of 2 4 "length pkt"] bslice_split [of 4 8 "length pkt"]
        bslice_split [of 8 12 "length pkt"] bslice_split [of 12 i "length pkt"] bslice_split [of i j "length pkt"] bslice_split [of j k "length pkt"])
  also have "bslice 0 2 pkt = [pkt ! 0, pkt ! 1]" using bslice_pair [of 1 0 2 pkt] len by simp
  also have "bslice k (length pkt) pkt = drop k pkt" by (simp add: bslice_def)
  finally have eq: "pkt = [pkt ! 0, pkt ! 1] @ bslice 2 4 pkt @ bslice 4 8 pkt @ bslice 8 12 pkt @ bslice 12 i pkt @ bslice i j pkt @ bslice j k pkt @ drop k pkt" .
  have A: "pkt = [pkt ! 0, pkt ! 1] @ be_bytes 2 (unat (rh_seq h)) @ be_bytes 4 (unat (rh_timestamp h)) @ be_bytes 4 (unat (rh_ssrc h)) @
      bslice 12 i pkt @ bslice i j pkt @ bslice j k pkt @ drop k pkt"
    using eq f by (simp only: h rtp_header.simps to_from_be_bytes)
  have B: "length (bslice 12 i pkt) = unat (pkt ! 0 AND 0x0F) * 4" using len by (simp add: i_def)
  have "length (bslice j k pkt) \<noteq> 0" using K J ne by simp
  then have C: "bslice j k pkt \<noteq> []" by blast
  show ?thesis
    unfolding rtp_packet_def
    by (intro exI conjI, rule A, rule v, rule B, rule J(3), rule K(3), rule C)
      (use J K len i in \<open>simp_all add: h and_bit_mask\<close>)
qed

lemma rtp_parse_complete:
  assumes "rtp_packet pkt h"
  shows "rtp_parse pkt = Some h"
proof -
  from assms obtain b0 b1 csrc ext payload padding where
    pkt: "pkt = ([b0, b1] @ be_bytes 2 (unat (rh_seq h)) @ be_bytes 4 (unat (rh_timestamp h)) @ be_bytes 4 (unat (rh_ssrc h))) @
              csrc @ ext @ payload @ padding" (is "_ = ?fixed @ _")
    and v: "drop_bit 6 b0 AND 3 = 2" and cc: "length csrc = unat (b0 AND 0x0F) * 4"
    and ext: "rtp_ext_ok b0 ext" and pad: "rtp_padding_ok b0 padding" and pl: "payload \<noteq> []"
    and hf: "rh_payload_type h = b1 AND 0x7F" "rh_marker h = bit b1 7"
    and hs: "rh_payload_start h = 12 + length csrc + length ext" "rh_payload_end h = 12 + length csrc + length ext + length payload"
    unfolding rtp_packet_def by auto
  define fx where "fx = ?fixed"
  have f: "length fx = 12" by (simp add: fx_def)
  have pkt': "pkt = fx @ csrc @ ext @ payload @ padding" unfolding fx_def by (rule pkt)
  have b: "pkt ! 0 = b0" "pkt ! 1 = b1" by (simp_all add: pkt)
  have fields: "bslice 2 4 pkt = be_bytes 2 (unat (rh_seq h))" "bslice 4 8 pkt = be_bytes 4 (unat (rh_timestamp h))"
    "bslice 8 12 pkt = be_bytes 4 (unat (rh_ssrc h))"
    by (simp_all add: pkt bslice_def)
  let ?i = "12 + length csrc" and ?j = "12 + length csrc + length ext"
  have e: "rtp_ext_end pkt ?i = Some ?j"
  proof (cases "bit b0 4")
    case False
    with ext show ?thesis by (simp add: rtp_ext_end_def and_bit_mask b rtp_ext_ok_def)
  next
    case True
    with ext obtain profile body where x: "ext = profile @ be_bytes 2 (length body div 4) @ body" "length profile = 2"
      "4 dvd length body" "length body div 4 < 2 ^ 16" by (auto simp: rtp_ext_ok_def)
    have l: "?i + 4 \<le> length pkt" using f by (simp add: pkt' x)
    have "bslice (?i + 2) (?i + 4) pkt = be_bytes 2 (length body div 4)"
      using x(2) f by (simp add: pkt' x(1) bslice_def)
    then have "[pkt ! (?i + 2), pkt ! (?i + 3)] = be_bytes 2 (length body div 4)"
      using bslice_pair [of "?i + 3" "?i + 2" "?i + 4" pkt] l by simp
    then have w: "unat (push_bit 8 (ucast (pkt ! (?i + 2))) OR ucast (pkt ! (?i + 3)) :: u16) = length body div 4"
      unfolding rtp_words using x(4) by (simp only: be_val_be_bytes) simp
    have "length ext = 4 + length body div 4 * 4" using x by simp
    moreover have "?j < length pkt" using pl f by (simp add: pkt')
    ultimately show ?thesis
      unfolding rtp_ext_end_def w and_bit_mask b Let_def using True l by simp
  qed
  have p: "rtp_pad_start pkt ?j = Some (?j + length payload)"
  proof (cases "bit b0 5")
    case False
    with pad show ?thesis unfolding rtp_pad_start_def b and_bit_mask Let_def by (simp add: rtp_padding_ok_def pkt' f)
  next
    case True
    with pad have q: "padding \<noteq> []" "unat (last padding) = length padding" by (auto simp: rtp_padding_ok_def)
    have "pkt ! (length pkt - 1) = last pkt" using pl by (intro last_conv_nth [symmetric]) (simp add: pkt')
    then have "pkt ! (length pkt - 1) = last padding" using q(1) by (simp add: pkt')
    with True q show ?thesis unfolding rtp_pad_start_def b and_bit_mask Let_def by (simp add: pkt' f)
  qed
  have len: "?i < length pkt" "12 \<le> length pkt" using pl f by (simp_all add: pkt')
  have "rtp_parse pkt = Some \<lparr> rh_payload_type = b1 AND 0x7F, rh_marker = (b1 AND 0x80 \<noteq> 0), rh_seq = rh_seq h,
      rh_timestamp = rh_timestamp h, rh_ssrc = rh_ssrc h, rh_payload_start = ?j, rh_payload_end = ?j + length payload \<rparr>"
    unfolding rtp_parse_def Let_def b fields cc [symmetric] using len v e p pl by simp
  also have "\<dots> = Some h" using hf hs by (intro arg_cong [of _ _ Some] rtp_header.equality) (simp_all add: and_bit_mask)
  finally show ?thesis .
qed

text \<open>C29. The shared RTP decoder answers a header exactly for the well-formed packets, and locates exactly their
  payload: the bytes after the CSRC list and the extension and before the padding. No byte of an
  extension or of padding ever reaches the media stream, and no conforming packet is dropped.\<close>

theorem rtp_parse_exact: "rtp_parse pkt = Some h \<longleftrightarrow> rtp_packet pkt h"
  using rtp_parse_sound rtp_parse_complete by blast

text \<open>The packets the module sends are among them.\<close>

lemma rtp_second_byte:
  "((pt AND 0x7F) OR (if marker then 0x80 else 0 :: byte)) AND 0x7F = pt AND 0x7F"
  "bit ((pt AND 0x7F) OR (if marker then 0x80 else 0 :: byte)) 7 = marker"
proof -
  have p: "(0x80 :: byte) = push_bit 7 1" "(0x80 :: int) = push_bit 7 1" by simp_all
  have q: "bit (0x80 :: byte) n \<longleftrightarrow> n = 7" "bit (0x80 :: int) n \<longleftrightarrow> n = 7" for n
    unfolding p bit_push_bit_iff by (auto simp: bit_1_iff)
  show "((pt AND 0x7F) OR (if marker then 0x80 else 0 :: byte)) AND 0x7F = pt AND 0x7F"
    unfolding and_low_mask by (rule bit_word_eqI) (auto simp: bit_take_bit_iff bit_or_iff q)
  show "bit ((pt AND 0x7F) OR (if marker then 0x80 else 0 :: byte)) 7 = marker"
    unfolding and_low_mask by (auto simp: bit_take_bit_iff bit_or_iff q)
qed

lemma rtp_fixed_header_parse:
  assumes "payload \<noteq> []"
  shows "rtp_parse (rtp_fixed_header pt marker seq ts ssrc @ payload) = Some \<lparr> rh_payload_type = pt AND 0x7F, rh_marker = marker,
    rh_seq = seq, rh_timestamp = ts, rh_ssrc = ssrc, rh_payload_start = 12, rh_payload_end = 12 + length payload \<rparr>"
proof (rule rtp_parse_complete)
  have b: "((pt AND 0x7F) OR (if marker then 0x80 else 0)) AND 0x7F = pt AND 0x7F" "bit ((pt AND 0x7F) OR (if marker then 0x80 else 0)) 7 = marker"
    by (rule rtp_second_byte)+
  show "rtp_packet (rtp_fixed_header pt marker seq ts ssrc @ payload) \<lparr> rh_payload_type = pt AND 0x7F, rh_marker = marker,
    rh_seq = seq, rh_timestamp = ts, rh_ssrc = ssrc, rh_payload_start = 12, rh_payload_end = 12 + length payload \<rparr>"
    unfolding rtp_packet_def rtp_fixed_header_def
    by (intro exI [of _ "0x80"] exI [of _ "(pt AND 0x7F) OR (if marker then 0x80 else 0)"] exI [of _ "[]"] exI [of _ payload])
      (use b assms in \<open>simp add: rtp_ext_ok_def rtp_padding_ok_def\<close>)
qed

section \<open>The MID of a packet\<close>

text \<open>RFC 8285 one-byte elements: filler, or an identifier from 1 to 14 with 1 to 16 bytes.\<close>

datatype ext_element = ExtPad | ExtItem nat bytes

fun ext_wire :: "ext_element \<Rightarrow> bytes" where
  "ext_wire ExtPad = [0]"
| "ext_wire (ExtItem i d) = of_nat (i * 16 + (length d - 1)) # d"

fun ext_element_ok :: "ext_element \<Rightarrow> bool" where
  "ext_element_ok ExtPad = True"
| "ext_element_ok (ExtItem i d) = (0 < i \<and> i < 15 \<and> d \<noteq> [] \<and> length d \<le> 16)"

fun ext_mid :: "ext_element list \<Rightarrow> bytes" where
  "ext_mid [] = []"
| "ext_mid (ExtPad # es) = ext_mid es"
| "ext_mid (ExtItem i d # es) = (if i = 10 then d else ext_mid es)"

lemma ext_descriptor:
  assumes "i < 15" and "d < 16"
  shows "drop_bit 4 (of_nat (i * 16 + d) :: byte) = of_nat i" "unat ((of_nat (i * 16 + d) :: byte) AND 0x0F) = d"
    "i > 0 \<Longrightarrow> (of_nat (i * 16 + d) :: byte) \<noteq> 0"
proof -
  have "i * 16 + d < 256" using assms by linarith
  then have u: "unat (of_nat (i * 16 + d) :: byte) = i * 16 + d" by (intro unat_of_nat_below) simp
  have "unat (drop_bit 4 (of_nat (i * 16 + d) :: byte)) = unat (of_nat i :: byte)"
    using assms by (simp only: unat_drop_bit u) (simp add: unat_of_nat)
  then show "drop_bit 4 (of_nat (i * 16 + d) :: byte) = of_nat i" by (rule unsigned_word_eqI)
  show "unat ((of_nat (i * 16 + d) :: byte) AND 0x0F) = d"
    using assms by (simp only: and_low_mask unat_take_bit u) simp
  show "i > 0 \<Longrightarrow> (of_nat (i * 16 + d) :: byte) \<noteq> 0" using u by (metis add_is_0 less_numeral_extra(3) mult_is_0 unat_0 zero_neq_numeral)
qed

lemma rtp_mid_loop_elements:
  "list_all ext_element_ok es \<Longrightarrow> fin = length p + length (concat (map ext_wire es)) \<Longrightarrow>
   rtp_mid_loop (p @ concat (map ext_wire es) @ r) (length p) fin = ext_mid es"
proof (induction es arbitrary: p)
  case Nil
  then show ?case by (simp add: rtp_mid_loop.simps)
next
  case (Cons e es)
  show ?case
  proof (cases e)
    case ExtPad
    with Cons.IH [of "p @ [0]"] Cons.prems show ?thesis
      by (subst rtp_mid_loop.simps) (simp add: nth_append)
  next
    case (ExtItem i d)
    with Cons.prems have ok: "0 < i" "i < 15" "length d - 1 < 16" "d \<noteq> []" by auto
    note D = ext_descriptor [OF ok(2,3)]
    have n: "unat ((of_nat (i * 16 + (length d - 1)) :: byte) AND 0x0F) + 1 = length d" using D(2) ok(4) by simp
    have "of_nat i \<noteq> (15 :: byte)" "(of_nat i = (10 :: byte)) = (i = 10)"
      using unat_of_nat_below [of i, where 'a = 8] ok by (auto dest: arg_cong [of _ _ unat])
    then show ?thesis
      using Cons.IH [of "p @ ext_wire e"] Cons.prems D n ok ExtItem
      by (subst rtp_mid_loop.simps) (simp add: nth_append bslice_def Let_def)
  qed
qed

text \<open>What the receiver routes by is the first MID element of the packet's extension.\<close>

lemma rtp_mid_of_extension:
  assumes "list_all ext_element_ok es" and "length (concat (map ext_wire es)) = words * 4" and "words < 2 ^ 16"
    and "length fixed = 12 + unat (fixed ! 0 AND 0x0F) * 4" and "bit (fixed ! 0) 4"
    and "rh_payload_start h = length fixed + 4 + words * 4"
  shows "rtp_mid (fixed @ [0xBE, 0xDE] @ be_bytes 2 words @ concat (map ext_wire es) @ rest) h = ext_mid es"
proof -
  let ?x = "concat (map ext_wire es)"
  let ?pkt = "fixed @ [0xBE, 0xDE] @ be_bytes 2 words @ ?x @ rest"
  have z: "?pkt ! 0 = fixed ! 0" using assms(4) by (auto simp: nth_append)
  have b: "bslice (length fixed) (length fixed + 2) ?pkt = [0xBE, 0xDE]" "bslice (length fixed + 2) (length fixed + 4) ?pkt = be_bytes 2 words"
    by (simp_all add: bslice_def)
  have w: "be_val (be_bytes 2 words) = words" using assms(3) by (simp add: be_val_be_bytes)
  have "rtp_mid ?pkt h = rtp_mid_loop ?pkt (length fixed + 4) (length fixed + 4 + words * 4)"
    unfolding rtp_mid_def Let_def z assms(4) [symmetric] b w using assms(2,4,5,6) by (simp add: and_bit_mask)
  also have "\<dots> = ext_mid es"
    using rtp_mid_loop_elements [OF assms(1), of "length fixed + 4 + words * 4" "fixed @ [0xBE, 0xDE] @ be_bytes 2 words" rest] assms(2) by simp
  finally show ?thesis .
qed

section \<open>Records between the modules\<close>

definition rtcp_stat_enc :: "rtcp_stat \<Rightarrow> bytes" where
  "rtcp_stat_enc st = (case st of
     StatRx seq ts \<Rightarrow> [RTCP_STAT_RX] @ le_bytes 2 (unat seq) @ le_bytes 4 (unat ts)
   | StatRxMeta seq ts ssrc \<Rightarrow> [RTCP_STAT_RX_META] @ le_bytes 2 (unat seq) @ le_bytes 4 (unat ts) @ le_bytes 4 (unat ssrc)
   | StatTx p oc ts \<Rightarrow> [RTCP_STAT_TX] @ le_bytes 4 (unat p) @ le_bytes 4 (unat oc) @ le_bytes 4 (unat ts))"

definition put_rtcp_stat :: "rtcp_stat \<Rightarrow> nat writer" where
  "put_rtcp_stat st = (case st of
     StatRx seq ts \<Rightarrow> put_rtcp_stat_rx seq ts
   | StatRxMeta seq ts ssrc \<Rightarrow> put_rtcp_stat_rx_meta seq ts ssrc
   | StatTx p oc ts \<Rightarrow> put_rtcp_stat_tx p oc ts)"

lemma parse_rtcp_stat_enc: "parse_rtcp_stat (rtcp_stat_enc st) = Some st"
  by (cases st) (simp_all add: rtcp_stat_enc_def parse_rtcp_stat_def rtcp_stat_len_def bslice_def)

lemma stat_fields:
  "length b = 7 \<Longrightarrow> b = hd b # bslice 1 3 b @ bslice 3 7 b"
  "length b = 11 \<Longrightarrow> b = hd b # bslice 1 3 b @ bslice 3 7 b @ bslice 7 11 b"
  "length b = 13 \<Longrightarrow> b = hd b # bslice 1 5 b @ bslice 5 9 b @ bslice 9 13 b"
proof -
  have c: "b \<noteq> [] \<Longrightarrow> b = hd b # bslice 1 (length b) b"
    by (cases b) (simp_all add: bslice_def)
  show "length b = 7 \<Longrightarrow> b = hd b # bslice 1 3 b @ bslice 3 7 b"
    using c bslice_split [of 1 3 7 b] by fastforce
  show "length b = 11 \<Longrightarrow> b = hd b # bslice 1 3 b @ bslice 3 7 b @ bslice 7 11 b"
    using c bslice_split [of 1 3 11 b] bslice_split [of 3 7 11 b] by fastforce
  show "length b = 13 \<Longrightarrow> b = hd b # bslice 1 5 b @ bslice 5 9 b @ bslice 9 13 b"
    using c bslice_split [of 1 5 13 b] bslice_split [of 5 9 13 b] by fastforce
qed

lemma parse_rtcp_stat_inv: "parse_rtcp_stat b = Some st \<Longrightarrow> b = rtcp_stat_enc st"
proof -
  assume p: "parse_rtcp_stat b = Some st"
  then obtain tag t where b: "b = tag # t" by (cases b) (auto simp: parse_rtcp_stat_def)
  have h: "hd b = tag" by (simp add: b)
  from p b consider "tag = 1" "length b = 7" | "tag = 3" "length b = 11" | "tag = 2" "length b = 13"
    by (auto simp: parse_rtcp_stat_def rtcp_stat_len_def split: if_splits)
  then show "b = rtcp_stat_enc st"
  proof cases
    case 1
    then have "st = StatRx (of_nat (le_val (bslice 1 3 b))) (of_nat (le_val (bslice 3 7 b)))"
      using p b by (simp add: parse_rtcp_stat_def rtcp_stat_len_def)
    with 1 stat_fields(1) [of b] h show ?thesis by (simp add: rtcp_stat_enc_def to_from_le_bytes)
  next
    case 2
    then have "st = StatRxMeta (of_nat (le_val (bslice 1 3 b))) (of_nat (le_val (bslice 3 7 b))) (of_nat (le_val (bslice 7 11 b)))"
      using p b by (simp add: parse_rtcp_stat_def rtcp_stat_len_def)
    with 2 stat_fields(2) [of b] h show ?thesis by (simp add: rtcp_stat_enc_def to_from_le_bytes)
  next
    case 3
    then have "st = StatTx (of_nat (le_val (bslice 1 5 b))) (of_nat (le_val (bslice 5 9 b))) (of_nat (le_val (bslice 9 13 b)))"
      using p b by (simp add: parse_rtcp_stat_def rtcp_stat_len_def)
    with 3 stat_fields(3) [of b] h show ?thesis by (simp add: rtcp_stat_enc_def to_from_le_bytes)
  qed
qed

interpretation rtcpstat: record_codec put_rtcp_stat parse_rtcp_stat "\<lambda>_. True" rtcp_stat_enc
proof unfold_locales
  fix st and out :: bytes
  show "length (rtcp_stat_enc st) \<le> length out \<Longrightarrow> put_rtcp_stat st out = (Some (length (rtcp_stat_enc st)), blit 0 (rtcp_stat_enc st) out)"
    by (cases st) (simp_all add: put_rtcp_stat_def rtcp_stat_enc_def put_rtcp_stat_rx_def put_rtcp_stat_rx_meta_def put_rtcp_stat_tx_def)
  show "length out < length (rtcp_stat_enc st) \<Longrightarrow> put_rtcp_stat st out = (None, out)"
    by (cases st) (simp_all add: put_rtcp_stat_def rtcp_stat_enc_def put_rtcp_stat_rx_def put_rtcp_stat_rx_meta_def put_rtcp_stat_tx_def)
qed (auto simp: parse_rtcp_stat_enc dest: parse_rtcp_stat_inv)

lemma rtp_rx_meta_roundtrip:
  assumes "put_rtp_rx_meta meta out = (Some n, out')"
  shows "parse_rtp_rx_meta (take n out' @ media) = Some meta"
  using assms by (cases meta) (auto simp: put_rtp_rx_meta_def parse_rtp_rx_meta_def blit_def bslice_def nth_append split: if_splits)

lemma mid_record_bytes:
  assumes "length m = 13" and "46 \<le> length out" and "length mid \<le> 32"
  shows "take 46 (blit 14 mid (blit 14 (replicate 32 0) ((blit 0 m out)[13 := x]))) = m @ x # mid @ replicate (32 - length mid) (0 :: byte)"
proof -
  have "(blit 0 m out)[13 := x] = blit 0 (m @ [x]) out"
    using assms blit_blit_append [of 0 m "[x]" out] by (simp add: blit_single)
  then have "blit 14 (replicate 32 0) ((blit 0 m out)[13 := x]) = blit 0 ((m @ [x]) @ replicate 32 0) out"
    using assms blit_blit_append [of 0 "m @ [x]" "replicate 32 0" out] by simp
  also have "\<dots> = (m @ [x]) @ replicate 32 0 @ drop 46 out" using assms by (simp add: blit_def)
  finally show ?thesis using assms by (simp add: blit_def)
qed

lemma rtp_rx_meta_mid_roundtrip:
  assumes "put_rtp_rx_meta_mid meta mid out = (Some n, out')"
  shows "n = RTP_RX_META_MID_LEN \<and> parse_rtp_rx_meta_mid (take n out' @ media) =
    Some (meta, mid @ replicate (RTP_MID_MAX - length mid) 0, of_nat (length mid))"
proof -
  have c: "mid \<noteq> []" "length mid \<le> RTP_MID_MAX" "RTP_RX_META_MID_LEN \<le> length out" and n: "n = RTP_RX_META_MID_LEN"
    using assms by (auto simp: put_rtp_rx_meta_mid_def wbind_eq_Some split: if_splits)
  let ?m = "le_bytes 2 (unat (rm_seq meta)) @ le_bytes 4 (unat (rm_timestamp meta)) @ le_bytes 4 (unat (rm_ssrc meta)) @
           [rm_payload_type meta, if rm_marker meta then 1 else 0, rm_codec meta]"
  have "out' = blit 14 mid (blit 14 (replicate 32 0) ((blit 0 ?m out)[13 := of_nat (length mid)]))"
    using assms c by (simp add: put_rtp_rx_meta_mid_def wbind_def put_rtp_rx_meta_def)
  then have t: "take n out' = ?m @ of_nat (length mid) # mid @ replicate (32 - length mid) 0"
    using c n mid_record_bytes [of ?m out mid "of_nat (length mid)"] by simp
  have u: "unat (of_nat (length mid) :: byte) = length mid" using c by (intro unat_of_nat_below) simp
  have "parse_rtp_rx_meta ((?m @ of_nat (length mid) # mid @ replicate (32 - length mid) 0) @ media) = Some meta"
    by (cases meta) (simp add: parse_rtp_rx_meta_def bslice_def nth_append)
  then show ?thesis
    using n t c u by (simp add: parse_rtp_rx_meta_mid_def Let_def bslice_def blit_def nth_append)
qed

section \<open>The route table\<close>

definition route_ok :: "rtp_route \<Rightarrow> bool" where
  "route_ok r \<longleftrightarrow> unat (rr_mid_len r) \<le> RTP_MID_MAX"

text \<open>The installed routes fill the front of the table and no two bind the same tuple.\<close>

definition route_table_inv :: "rtp_route_table \<Rightarrow> bool" where
  "route_table_inv t \<longleftrightarrow>
     (\<exists>rs. rt_routes t = map Some rs @ replicate (RTP_ROUTE_MAX - length rs) None \<and> rt_len t = length rs \<and>
        length rs \<le> RTP_ROUTE_MAX \<and> list_all route_ok rs \<and> sorted_wrt (\<lambda>a b. \<not> same_binding a b) rs)"

lemma same_binding_sym: "same_binding a b = same_binding b a"
  by (auto simp: same_binding_def)

lemma same_binding_trans: "same_binding a b \<Longrightarrow> same_binding a c \<Longrightarrow> same_binding b c"
  by (auto simp: same_binding_def)

lemma route_table_inv_new: "route_table_inv route_table_new"
  unfolding route_table_inv_def route_table_new_def by (rule exI [of _ "[]"]) simp

lemma any_installed: "list_ex (opt_any P) (map Some rs) \<longleftrightarrow> list_ex P rs" "\<not> list_ex (opt_any P) (replicate n None)"
  by (induction rs) (simp_all add: opt_any_def, induction n, simp_all add: opt_any_def)

lemma route_add_inv:
  assumes "route_table_inv t"
  shows "route_table_inv (snd (route_add t r))"
proof -
  obtain rs where rs: "rt_routes t = map Some rs @ replicate (RTP_ROUTE_MAX - length rs) None" "rt_len t = length rs"
    "length rs \<le> RTP_ROUTE_MAX" "list_all route_ok rs" "sorted_wrt (\<lambda>a b. \<not> same_binding a b) rs"
    using assms by (auto simp: route_table_inv_def)
  show ?thesis
  proof (cases "route_ok r \<and> \<not> list_ex (same_binding r) rs \<and> length rs < RTP_ROUTE_MAX")
    case True
    then have "RTP_ROUTE_MAX - length rs = Suc (RTP_ROUTE_MAX - length (rs @ [r]))" by auto
    then have "(rt_routes t)[length rs := Some r] = map Some (rs @ [r]) @ replicate (RTP_ROUTE_MAX - length (rs @ [r])) None"
      by (simp add: rs(1) list_update_append)
    moreover have "sorted_wrt (\<lambda>a b. \<not> same_binding a b) (rs @ [r])"
      using True rs(5) same_binding_sym by (auto simp: sorted_wrt_append list_ex_iff)
    moreover have "snd (route_add t r) = t\<lparr> rt_routes := (rt_routes t)[length rs := Some r], rt_len := length rs + 1 \<rparr>"
      using True rs(1,2) by (simp add: route_add_def any_installed route_ok_def not_less)
    ultimately show ?thesis
      unfolding route_table_inv_def using True rs(4) by (intro exI [of _ "rs @ [r]"]) simp
  next
    case False
    then have "snd (route_add t r) = t" using rs by (auto simp: route_add_def any_installed route_ok_def)
    with assms show ?thesis by simp
  qed
qed

lemma replace_first_installed:
  "replace_first P v (map Some rs @ replicate n None) =
     (if list_ex P rs then Some (map Some (takeWhile (\<lambda>r. \<not> P r) rs @ v # tl (dropWhile (\<lambda>r. \<not> P r) rs)) @ replicate n None) else None)"
proof (induction rs)
  case Nil
  show ?case by (induction n) (auto simp: opt_any_def)
next
  case (Cons r rs)
  then show ?case by (auto simp: opt_any_def)
qed

lemma route_upsert_inv:
  assumes "route_table_inv t"
  shows "route_table_inv (snd (route_upsert t r))"
proof -
  obtain rs where rs: "rt_routes t = map Some rs @ replicate (RTP_ROUTE_MAX - length rs) None" "rt_len t = length rs"
    "length rs \<le> RTP_ROUTE_MAX" "list_all route_ok rs" "sorted_wrt (\<lambda>a b. \<not> same_binding a b) rs"
    using assms by (auto simp: route_table_inv_def)
  show ?thesis
  proof (cases "route_ok r \<and> list_ex (same_binding r) rs")
    case True
    let ?a = "takeWhile (\<lambda>x. \<not> same_binding r x) rs" and ?b = "dropWhile (\<lambda>x. \<not> same_binding r x) rs"
    have "?b \<noteq> []" using True by (auto simp: list_ex_iff)
    then obtain o' b where b: "?b = o' # b" by (cases ?b) auto
    have o': "same_binding r o'" using hd_dropWhile [of "\<lambda>x. \<not> same_binding r x" rs] \<open>?b \<noteq> []\<close> b by simp
    have split: "rs = ?a @ o' # b" using takeWhile_dropWhile_id [of "\<lambda>x. \<not> same_binding r x" rs] b by simp
    let ?rs = "?a @ r # b"
    have len: "length ?rs = length rs" using arg_cong [OF split, of length] by simp
    have d: "\<not> same_binding r x" if "x \<in> set b" for x
      using rs(5) same_binding_trans [OF o', of x] that by (subst (asm) split) (auto simp: sorted_wrt_append)
    have d': "\<not> same_binding x r" if "x \<in> set ?a" for x
      using that same_binding_sym set_takeWhileD by metis
    have "sorted_wrt (\<lambda>a b. \<not> same_binding a b) (?a @ o' # b)" using rs(5) split by simp
    with d d' have s: "sorted_wrt (\<lambda>a b. \<not> same_binding a b) ?rs" by (auto simp: sorted_wrt_append)
    have "list_all route_ok (?a @ o' # b)" using rs(4) split by simp
    then have k: "list_all route_ok ?rs" using True by simp
    have "snd (route_upsert t r) = t\<lparr> rt_routes := map Some ?rs @ replicate (RTP_ROUTE_MAX - length rs) None \<rparr>"
      using True b by (simp add: route_upsert_def rs(1) replace_first_installed route_ok_def not_less)
    then show ?thesis
      unfolding route_table_inv_def using len s k rs(2,3) by (intro exI [of _ ?rs]) simp
  next
    case False
    then have "snd (route_upsert t r) = t \<or> snd (route_upsert t r) = snd (route_add t r)"
      by (auto simp: route_upsert_def rs(1) replace_first_installed route_ok_def)
    then show ?thesis using assms route_add_inv [OF assms, of r] by auto
  qed
qed

lemma resolve_loop_None:
  "resolve_loop mid pt ssrc xs best score = None \<longleftrightarrow>
     best = None \<and> (\<forall>r. Some r \<in> set xs \<longrightarrow> route_matches mid pt ssrc r \<longrightarrow> specificity r < score)"
  by (induction mid pt ssrc xs best score rule: resolve_loop.induct) (auto simp: not_le)

lemma resolve_loop_Some:
  "resolve_loop mid pt ssrc xs best score = Some r \<Longrightarrow>
     best = Some r \<and> (\<forall>q. Some q \<in> set xs \<longrightarrow> route_matches mid pt ssrc q \<longrightarrow> specificity q < score) \<or>
     Some r \<in> set xs \<and> route_matches mid pt ssrc r \<and> score \<le> specificity r \<and>
     (\<forall>q. Some q \<in> set xs \<longrightarrow> route_matches mid pt ssrc q \<longrightarrow> specificity q \<le> specificity r)"
proof (induction mid pt ssrc xs best score rule: resolve_loop.induct)
  case (3 mid pt ssrc q rs best score)
  show ?case
  proof (cases "route_matches mid pt ssrc q")
    case False
    with 3 show ?thesis by simp blast
  next
    case m: True
    show ?thesis
    proof (cases "score \<le> specificity q")
      case True
      with m 3 have "Some q = Some r \<and> (\<forall>x. Some x \<in> set rs \<longrightarrow> route_matches mid pt ssrc x \<longrightarrow> specificity x < specificity q) \<or>
        Some r \<in> set rs \<and> route_matches mid pt ssrc r \<and> specificity q \<le> specificity r \<and>
        (\<forall>x. Some x \<in> set rs \<longrightarrow> route_matches mid pt ssrc x \<longrightarrow> specificity x \<le> specificity r)" by simp
      with m True show ?thesis by (auto intro: less_imp_le)
    next
      case False
      with m 3 have "best = Some r \<and> (\<forall>x. Some x \<in> set rs \<longrightarrow> route_matches mid pt ssrc x \<longrightarrow> specificity x < score) \<or>
        Some r \<in> set rs \<and> route_matches mid pt ssrc r \<and> score \<le> specificity r \<and>
        (\<forall>x. Some x \<in> set rs \<longrightarrow> route_matches mid pt ssrc x \<longrightarrow> specificity x \<le> specificity r)" by simp
      with m False show ?thesis by (elim disjE) (auto simp: not_le)
    qed
  qed
qed auto

text \<open>Sessions: any sequence of bindings installed by negotiation.\<close>

datatype route_event = RouteAdd rtp_route | RouteUpsert rtp_route

fun route_step :: "rtp_route_table \<Rightarrow> route_event \<Rightarrow> bool \<times> rtp_route_table" where
  "route_step t (RouteAdd r) = route_add t r"
| "route_step t (RouteUpsert r) = route_upsert t r"

interpretation routes: machine_inv route_step route_table_inv
proof unfold_locales
  fix t e
  assume "route_table_inv t"
  then show "route_table_inv (snd (route_step t e))"
    by (cases e) (simp_all add: route_add_inv route_upsert_inv)
qed

definition route_candidates :: "rtp_route_table \<Rightarrow> bytes \<Rightarrow> byte \<Rightarrow> u32 \<Rightarrow> rtp_route list" where
  "route_candidates t mid pt ssrc = filter (route_matches mid pt ssrc) (List.map_filter id (rt_routes t))"

lemma set_route_candidates:
  "set (route_candidates t mid pt ssrc) = {r. Some r \<in> set (rt_routes t) \<and> route_matches mid pt ssrc r}"
  by (auto simp: route_candidates_def map_filter_def image_iff)

text \<open>However routes were negotiated, the table never holds two routes for one binding, and a packet is routed
  to an installed route that matches it and than which no installed match is more specific; it is refused
  exactly when no installed route matches.\<close>

theorem route_most_specific:
  "route_table_inv (snd (run route_step route_table_new es)) \<and>
   (case route_resolve (snd (run route_step route_table_new es)) mid pt ssrc of
      None \<Rightarrow> route_candidates (snd (run route_step route_table_new es)) mid pt ssrc = []
    | Some r \<Rightarrow>
        r \<in> set (route_candidates (snd (run route_step route_table_new es)) mid pt ssrc) \<and>
        list_all (\<lambda>q. specificity q \<le> specificity r) (route_candidates (snd (run route_step route_table_new es)) mid pt ssrc))"
  (is "route_table_inv ?t \<and> _")
proof
  show "route_table_inv ?t" by (rule routes.run_inv [OF route_table_inv_new])
  show "case route_resolve ?t mid pt ssrc of None \<Rightarrow> route_candidates ?t mid pt ssrc = []
    | Some r \<Rightarrow> r \<in> set (route_candidates ?t mid pt ssrc) \<and> list_all (\<lambda>q. specificity q \<le> specificity r) (route_candidates ?t mid pt ssrc)"
  proof (cases "route_resolve ?t mid pt ssrc")
    case None
    then have "set (route_candidates ?t mid pt ssrc) = {}"
      by (auto simp: route_resolve_def resolve_loop_None set_route_candidates)
    with None show ?thesis by simp
  next
    case (Some r)
    then show ?thesis
      using resolve_loop_Some [of mid pt ssrc "rt_routes ?t" None 0 r]
      by (auto simp: route_resolve_def list_all_iff set_route_candidates)
  qed
qed

section \<open>Pacing\<close>

text \<open>The sends of a run of polls.\<close>

definition pace_sends :: "pace_decision list \<Rightarrow> u32 list" where
  "pace_sends ds = List.map_filter (\<lambda>d. case d of PaceSend ts _ \<Rightarrow> Some ts | PaceWait _ \<Rightarrow> None) ds"

lemma pacer_poll_started:
  assumes "pc_started p"
  shows "pacer_poll p now = (if now < pc_next_ms p then (PaceWait (pc_next_ms p), p)
    else (PaceSend (pc_timestamp p) (ucast (min (now - pc_next_ms p) 0xFFFFFFFF)),
          p\<lparr> pc_timestamp := pc_timestamp p + pacer_step p, pc_next_ms := sat_add64 (pc_next_ms p) (ucast (pc_ptime_ms p)) \<rparr>))"
  using assms by (simp add: pacer_poll_def Let_def)

lemma pacer_run:
  assumes "pc_started p" and "unat (pc_next_ms p) + length polls * unat (pc_ptime_ms p) < 2 ^ 64"
  shows "\<exists>n. pace_sends (fst (run pacer_poll p polls)) = map (\<lambda>k. pc_timestamp p + of_nat k * pacer_step p) [0..<n] \<and>
    unat (pc_next_ms (snd (run pacer_poll p polls))) = unat (pc_next_ms p) + n * unat (pc_ptime_ms p)"
  using assms
proof (induction polls arbitrary: p)
  case Nil
  show ?case by (rule exI [of _ 0]) (simp add: pace_sends_def map_filter_simps)
next
  case (Cons now polls)
  show ?case
  proof (cases "now < pc_next_ms p")
    case True
    then show ?thesis
      using Cons.IH [of p] Cons.prems by (auto simp: pacer_poll_started Let_def pace_sends_def map_filter_simps)
  next
    case False
    let ?p = "p\<lparr> pc_timestamp := pc_timestamp p + pacer_step p, pc_next_ms := sat_add64 (pc_next_ms p) (ucast (pc_ptime_ms p)) \<rparr>"
    have st: "pacer_step ?p = pacer_step p" by (simp add: pacer_step_def)
    have nx: "unat (pc_next_ms ?p) = unat (pc_next_ms p) + unat (pc_ptime_ms p)"
      using Cons.prems(2) by (simp add: unat_sat_add64 unat_ucast_widen)
    obtain n where n: "pace_sends (fst (run pacer_poll ?p polls)) = map (\<lambda>k. pc_timestamp ?p + of_nat k * pacer_step ?p) [0..<n]"
      "unat (pc_next_ms (snd (run pacer_poll ?p polls))) = unat (pc_next_ms ?p) + n * unat (pc_ptime_ms ?p)"
      using Cons.IH [of ?p] Cons.prems nx by auto
    have "pace_sends (fst (run pacer_poll p (now # polls))) = pc_timestamp p # pace_sends (fst (run pacer_poll ?p polls))"
      using False Cons.prems(1) by (simp add: pacer_poll_started Let_def pace_sends_def map_filter_simps)
    also have "\<dots> = map (\<lambda>k. pc_timestamp p + of_nat k * pacer_step p) [0..<Suc n]"
      unfolding n(1) st upt_conv_Cons [OF zero_less_Suc] map_Suc_upt [symmetric] by (simp add: algebra_simps)
    finally show ?thesis
      using False Cons.prems(1) n(2) nx by (intro exI [of _ "Suc n"]) (simp add: pacer_poll_started Let_def)
  qed
qed


text \<open>The pacer does not drift: from the first poll on, the \<open>k\<close>-th packet it lets go carries the start timestamp
  plus \<open>k\<close> packet times, and the \<open>n\<close> packets let go move the deadline by \<open>n\<close> packet intervals from the first
  poll, however late or bunched the polls are. Clock reads stay below the end of the 64-bit clock.\<close>

theorem pacer_no_drift:
  assumes "pacer_new rate ptime = Some p" and "unat t0 + Suc (length polls) * unat ptime < 2 ^ 64"
  shows "\<exists>n. pace_sends (fst (run pacer_poll p (t0 # polls))) = map (\<lambda>k. of_nat k * pacer_step p) [0..<n] \<and>
    unat (pc_next_ms (snd (run pacer_poll p (t0 # polls)))) = unat t0 + n * unat ptime"
proof -
  let ?q = "pacer_reset p t0 0"
  have p: "\<not> pc_started p" "pc_ptime_ms ?q = ptime" "pc_started ?q" "pc_next_ms ?q = t0" "pacer_step ?q = pacer_step p" "pc_timestamp ?q = 0"
    using assms(1) by (auto simp: pacer_new_def pacer_reset_def pacer_step_def split: if_splits)
  then have "pacer_poll p t0 = pacer_poll ?q t0" by (simp add: pacer_poll_def)
  then have "run pacer_poll p (t0 # polls) = run pacer_poll ?q (t0 # polls)" by simp
  with pacer_run [of ?q "t0 # polls"] p assms(2) show ?thesis by simp
qed

theorem pacer_no_drift_witness:
  "\<exists>p n. pacer_new 8000 20 = Some p \<and>
    pace_sends (fst (run pacer_poll p (100 # [119, 160]))) = map (\<lambda>k. of_nat k * pacer_step p) [0..<n] \<and>
    unat (pc_next_ms (snd (run pacer_poll p (100 # [119, 160])))) = unat (100 :: u64) + n * unat (20 :: u32)"
proof -
  have p: "pacer_new 8000 20 = Some \<lparr> pc_clock_rate = 8000, pc_ptime_ms = 20, pc_next_ms = 0, pc_timestamp = 0, pc_started = False \<rparr>"
    by (simp add: pacer_new_def)
  show ?thesis using pacer_no_drift [OF p, of 100 "[119, 160]"] p by simp
qed

section \<open>Rate control and the clock map\<close>

definition congestion_inv :: "u32 \<Rightarrow> u32 \<Rightarrow> rtp_congestion \<Rightarrow> bool" where
  "congestion_inv mn mx c \<longleftrightarrow> cg_min c = mn \<and> cg_max c = mx \<and> mn \<le> cg_bitrate c \<and> cg_bitrate c \<le> mx"

definition congestion_step :: "rtp_congestion \<Rightarrow> u32 \<times> u32 \<times> u32 \<Rightarrow> u32 \<times> rtp_congestion" where
  "congestion_step c e = (case e of (lost, received, rtt) \<Rightarrow> let c' = congestion_feedback c lost received rtt in (cg_bitrate c', c'))"

lemma sat_add32_ge: "a \<le> sat_add32 a b"
  using unat_less_pow256(2) [of a] by (simp add: word_le_nat_alt unat_sat_add32)

lemma half_le: "(a :: u32) div 2 \<le> a"
  by (simp add: word_le_nat_alt unat_div)

lemma congestion_feedback_inv: "congestion_inv mn mx c \<Longrightarrow> congestion_inv mn mx (congestion_feedback c l r t)"
  using sat_add32_ge [of "cg_bitrate c" "max (cg_bitrate c div 20) 1"] half_le [of "cg_bitrate c"]
  unfolding congestion_inv_def congestion_feedback_def Let_def by (auto intro: order_trans)

interpretation congestion: machine_inv congestion_step "congestion_inv mn mx"
  by unfold_locales (auto simp: congestion_step_def Let_def congestion_feedback_inv split: prod.splits)

text \<open>Whatever the feedback, the target rate stays between its bounds.\<close>

lemma congestion_bounded:
  assumes "congestion_new initial mn mx = Some c"
  shows "mn \<le> cg_bitrate (snd (run congestion_step c es)) \<and> cg_bitrate (snd (run congestion_step c es)) \<le> mx"
proof -
  have "congestion_inv mn mx c"
    using assms by (auto simp: congestion_new_def congestion_inv_def not_less split: if_splits)
  then have "congestion_inv mn mx (snd (run congestion_step c es))" by (rule congestion.run_inv)
  then show ?thesis by (simp add: congestion_inv_def)
qed

text \<open>A timestamp less than half the clock's turn from the anchor is mapped by its true distance, also across the wrap.\<close>

lemma timestamp_ms_wraps:
  assumes "\<bar>d\<bar> < 2 ^ 31"
  shows "timestamp_ms m (cm_rtp_anchor m + of_int d) = cm_ntp_ms_anchor m + sgn d * (\<bar>d\<bar> * 1000 div uint (cm_clock_rate m))"
proof -
  have "sint (of_int d :: u32) = d"
    unfolding sint_sbintrunc' using assms by (intro signed_take_bit_int_eq_self) simp_all
  then show ?thesis by (simp add: timestamp_ms_def sgn_mult abs_mult)
qed

end
