(* ===== verification/Srtp.thy ===== *)
theory Srtp
  imports Rtp Sframe
begin

text \<open>
  SRTP (\<open>modules/common/srtp_core.rs\<close>) and the protected send and receive paths of the rtp module
  (\<open>modules/foundation/rtp/mod.rs\<close>): replay window, packet index, key derivation, nonces, and the AES-CM and
  AES-GCM protections. The AES block function, SHA-1 and the AES-GCM primitive come with the SDK and are
  parameters. A packet buffer is passed in and returned, also when the call fails.
\<close>

unbundle bit_operations_syntax

section \<open>Replay window and packet index\<close>

record srtp_replay =
  sr_highest :: u64
  sr_bitmap :: u64
  sr_initialized :: bool

definition srtp_replay_new :: srtp_replay where
  "srtp_replay_new = \<lparr> sr_highest = 0, sr_bitmap = 0, sr_initialized = False \<rparr>"

definition srtp_accept :: "srtp_replay \<Rightarrow> u64 \<Rightarrow> bool \<times> srtp_replay" where
  "srtp_accept r index =
     (if \<not> sr_initialized r then
        (True, r\<lparr> sr_initialized := True, sr_highest := index, sr_bitmap := 1 \<rparr>)
      else if sr_highest r < index then
        let shift = index - sr_highest r in
        (True, r\<lparr> sr_bitmap := (if 64 \<le> shift then 1 else push_bit (unat shift) (sr_bitmap r) OR 1), sr_highest := index \<rparr>)
      else
        let back = sr_highest r - index in
        if 64 \<le> back \<or> sr_bitmap r AND push_bit (unat back) 1 \<noteq> 0 then (False, r)
        else (True, r\<lparr> sr_bitmap := sr_bitmap r OR push_bit (unat back) 1 \<rparr>))"

definition srtp_highest :: "srtp_replay \<Rightarrow> u64 option" where
  "srtp_highest r = (if sr_initialized r then Some (sr_highest r) else None)"

definition estimate_roc :: "u64 \<Rightarrow> u16 \<Rightarrow> u64" where
  "estimate_roc last_index sq =
     (let last_seq = ucast last_index :: u16; last_roc = drop_bit 16 last_index in
      if sq < 0x8000 \<and> 0x8000 < last_seq \<and> 0 < last_roc then last_roc - 1
      else if 0x8000 < sq \<and> last_seq < 0x8000 then last_roc + 1
      else last_roc)"

definition packet_index :: "u32 \<Rightarrow> u16 \<Rightarrow> u64" where
  "packet_index roc sq = push_bit 16 (ucast roc) OR ucast sq"

section \<open>Key derivation\<close>

type_synonym aes_block = "bytes \<Rightarrow> bytes \<Rightarrow> bytes"

text \<open>The inner \<open>derive\<close>: the salt with the label at byte 7, a 16-bit block counter at the end.\<close>

function derive_loop :: "aes_block \<Rightarrow> bytes \<Rightarrow> bytes \<Rightarrow> nat \<Rightarrow> bytes \<Rightarrow> bytes" where
  "derive_loop aes key counter written out =
     (if written < length out then
        let block = aes key counter; tk = min 16 (length out - written);
            ctr = be_bytes 2 (unat (of_nat (be_val (bslice 14 16 counter)) + 1 :: u16))
        in derive_loop aes key (blit 14 ctr counter) (written + tk)
             (take written out @ take tk block @ drop (written + tk) out)
      else out)"
  by pat_completeness auto
termination
  by (relation "measure (\<lambda>(aes, key, counter, written, out). length out - written)") auto

declare derive_loop.simps [simp del]

definition derive :: "aes_block \<Rightarrow> bytes \<Rightarrow> bytes \<Rightarrow> byte \<Rightarrow> bytes \<Rightarrow> bytes" where
  "derive aes key salt label out =
     (let counter = blit 0 salt (replicate 16 0)
      in derive_loop aes key (counter[7 := (counter ! 7) XOR label]) 0 out)"

definition derive_aes_cm_session_keys :: "aes_block \<Rightarrow> bytes \<Rightarrow> bytes \<Rightarrow> bytes \<times> bytes \<times> bytes" where
  "derive_aes_cm_session_keys aes key salt =
     (derive aes key salt 0 (replicate 16 0), derive aes key salt 1 (replicate 20 0), derive aes key salt 2 (replicate 14 0))"

definition derive_aead_key_salt :: "aes_block \<Rightarrow> bytes \<Rightarrow> bytes \<Rightarrow> byte \<Rightarrow> byte \<Rightarrow> bytes \<times> bytes" where
  "derive_aead_key_salt aes key salt key_label salt_label =
     (let kdf_salt = blit 0 salt (replicate 14 0)
      in (derive aes key kdf_salt key_label (replicate 16 0), derive aes key kdf_salt salt_label (replicate 12 0)))"

record dtls_srtp_context =
  ds_client_key :: bytes
  ds_server_key :: bytes
  ds_client_salt :: bytes
  ds_server_salt :: bytes

definition dtls_srtp_context_of :: "bytes \<Rightarrow> dtls_srtp_context option" where
  "dtls_srtp_context_of exported =
     (if length exported < 56 then None
      else Some \<lparr> ds_client_key = bslice 0 16 exported, ds_server_key = bslice 16 32 exported,
                  ds_client_salt = bslice 32 44 exported, ds_server_salt = bslice 44 56 exported \<rparr>)"

section \<open>Nonces\<close>

definition gcm_nonce :: "bytes \<Rightarrow> u32 \<Rightarrow> u64 \<Rightarrow> bytes" where
  "gcm_nonce salt ssrc index =
     map2 (XOR) salt
       ([0, 0] @ be_bytes 4 (unat ssrc) @ be_bytes 4 (unat (ucast (drop_bit 16 index) :: u32)) @ be_bytes 2 (unat (ucast index :: u16)))"

definition srtcp_gcm_nonce :: "bytes \<Rightarrow> u32 \<Rightarrow> u32 \<Rightarrow> bytes" where
  "srtcp_gcm_nonce salt ssrc index =
     map2 (XOR) salt ([0, 0] @ be_bytes 4 (unat ssrc) @ [0, 0] @ be_bytes 4 (unat (index AND 0x7FFFFFFF)))"

section \<open>AES counter mode with HMAC-SHA1\<close>

abbreviation (input) SRTP_AES_CM_TAG_LEN :: nat where "SRTP_AES_CM_TAG_LEN \<equiv> 10"
abbreviation (input) SRTP_SCRATCH :: nat where "SRTP_SCRATCH \<equiv> 1600"

text \<open>\<open>hmac_sha1\<close>, with the value \<open>out\<close> had before the call: it keeps it when the data does not fit the scratch
  buffer.\<close>

definition srtp_hmac_sha1 :: "(bytes \<Rightarrow> bytes) \<Rightarrow> bytes \<Rightarrow> bytes \<Rightarrow> bytes \<Rightarrow> bytes" where
  "srtp_hmac_sha1 sha1 key data out =
     (let block = blit 0 (if 64 < length key then sha1 key else key) (replicate 64 0) in
      if SRTP_SCRATCH < 64 + length data then out
      else sha1 (map (\<lambda>b. b XOR 0x5C) block @ sha1 (map (\<lambda>b. b XOR 0x36) block @ data)))"

definition aes_cm_counter :: "bytes \<Rightarrow> u32 \<Rightarrow> u64 \<Rightarrow> bytes" where
  "aes_cm_counter salt ssrc index =
     (let c = blit 0 salt (replicate 16 0)
      in take 4 c @ map2 (XOR) (bslice 4 8 c) (be_bytes 4 (unat ssrc)) @
         map2 (XOR) (bslice 8 12 c) (drop 4 (be_bytes 8 (unat index))) @ drop 12 c)"

function aes_cm_blocks :: "aes_block \<Rightarrow> bytes \<Rightarrow> bytes \<Rightarrow> u32 \<Rightarrow> bytes \<Rightarrow> bytes" where
  "aes_cm_blocks aes key counter block_no data =
     (if data = [] then []
      else
        let counter = blit 12 (be_bytes 4 (unat block_no)) counter;
            stream = aes key counter; tk = min 16 (length data)
        in map2 (XOR) (take tk data) (take tk stream) @ aes_cm_blocks aes key counter (block_no + 1) (drop tk data))"
  by pat_completeness auto
termination by (relation "measure (\<lambda>(aes, key, counter, block_no, data). length data)") auto

declare aes_cm_blocks.simps [simp del]

definition aes_cm_xor :: "aes_block \<Rightarrow> bytes \<Rightarrow> bytes \<Rightarrow> u32 \<Rightarrow> u64 \<Rightarrow> bytes \<Rightarrow> bytes" where
  "aes_cm_xor aes key salt ssrc index data = aes_cm_blocks aes key (aes_cm_counter salt ssrc index) 0 data"

text \<open>The tag over the packet and the rollover counter.\<close>

definition srtp_cm_auth :: "(bytes \<Rightarrow> bytes) \<Rightarrow> bytes \<Rightarrow> u64 \<Rightarrow> bytes \<Rightarrow> bytes" where
  "srtp_cm_auth sha1 auth_key index plain =
     srtp_hmac_sha1 sha1 auth_key (plain @ be_bytes 4 (unat (ucast (drop_bit 16 index) :: u32))) (replicate 20 0)"

definition protect_aes_cm_sha1_80 ::
  "aes_block \<Rightarrow> (bytes \<Rightarrow> bytes) \<Rightarrow> bytes \<Rightarrow> bytes \<Rightarrow> bytes \<Rightarrow> u32 \<Rightarrow> u64 \<Rightarrow> nat \<Rightarrow> nat \<Rightarrow> nat writer" where
  "protect_aes_cm_sha1_80 aes sha1 enc_key auth_key salt ssrc index header_len plain_len packet =
     (if plain_len < header_len \<or> length packet - SRTP_AES_CM_TAG_LEN < plain_len then (None, packet)
      else
        let packet = blit header_len (aes_cm_xor aes enc_key salt ssrc index (bslice header_len plain_len packet)) packet in
        if SRTP_SCRATCH < plain_len + 4 then (None, packet)
        else
          (Some (plain_len + SRTP_AES_CM_TAG_LEN),
           blit plain_len (take SRTP_AES_CM_TAG_LEN (srtp_cm_auth sha1 auth_key index (take plain_len packet))) packet))"

definition unprotect_aes_cm_sha1_80 ::
  "aes_block \<Rightarrow> (bytes \<Rightarrow> bytes) \<Rightarrow> bytes \<Rightarrow> bytes \<Rightarrow> bytes \<Rightarrow> u32 \<Rightarrow> u64 \<Rightarrow> nat \<Rightarrow> nat writer" where
  "unprotect_aes_cm_sha1_80 aes sha1 enc_key auth_key salt ssrc index header_len packet =
     (if length packet \<le> SRTP_AES_CM_TAG_LEN then (None, packet)
      else
        let plain_len = length packet - SRTP_AES_CM_TAG_LEN in
        if plain_len < header_len then (None, packet)
        else if SRTP_SCRATCH < plain_len + 4 then (None, packet)
        else
          let auth = srtp_cm_auth sha1 auth_key index (take plain_len packet);
              diff = fold (\<lambda>(a, b) d. d OR (a XOR b)) (zip (take SRTP_AES_CM_TAG_LEN auth) (bslice plain_len (plain_len + SRTP_AES_CM_TAG_LEN) packet)) 0
          in
            if diff \<noteq> 0 then (None, packet)
            else (Some plain_len,
                  blit header_len (aes_cm_xor aes enc_key salt ssrc index (bslice header_len plain_len packet)) packet))"

section \<open>AES-GCM\<close>

abbreviation (input) SRTP_AUTH_TAG_LEN :: nat where "SRTP_AUTH_TAG_LEN \<equiv> 16"

text \<open>\<open>AesGcm::new_128(key).encrypt(nonce, aad, buf)\<close> gives the buffer and the tag; \<open>decrypt\<close> the verdict and the buffer.\<close>

type_synonym gcm_enc = "bytes \<Rightarrow> bytes \<Rightarrow> bytes \<Rightarrow> bytes \<Rightarrow> bytes \<times> bytes"
type_synonym gcm_dec = "bytes \<Rightarrow> bytes \<Rightarrow> bytes \<Rightarrow> bytes \<Rightarrow> bytes \<Rightarrow> bool \<times> bytes"

definition protect_aes128_gcm :: "gcm_enc \<Rightarrow> bytes \<Rightarrow> bytes \<Rightarrow> u32 \<Rightarrow> u64 \<Rightarrow> nat \<Rightarrow> nat \<Rightarrow> nat writer" where
  "protect_aes128_gcm enc key salt ssrc index header_len plain_len packet =
     (if plain_len < header_len \<or> length packet - SRTP_AUTH_TAG_LEN < plain_len then (None, packet)
      else if 256 < header_len then (None, packet)
      else
        let (ct, tag) = enc key (gcm_nonce salt ssrc index) (take header_len packet) (bslice header_len plain_len packet)
        in (Some (plain_len + SRTP_AUTH_TAG_LEN), blit plain_len tag (blit header_len ct packet)))"

definition unprotect_aes128_gcm :: "gcm_dec \<Rightarrow> bytes \<Rightarrow> bytes \<Rightarrow> u32 \<Rightarrow> u64 \<Rightarrow> nat \<Rightarrow> nat writer" where
  "unprotect_aes128_gcm dec key salt ssrc index header_len packet =
     (if length packet \<le> SRTP_AUTH_TAG_LEN then (None, packet)
      else
        let plain_len = length packet - SRTP_AUTH_TAG_LEN; tag = drop plain_len packet in
        if plain_len < header_len then (None, packet)
        else if 256 < header_len then (None, packet)
        else
          let (ok, pt) = dec key (gcm_nonce salt ssrc index) (take header_len packet) (bslice header_len plain_len packet) tag;
              packet = blit header_len pt packet
          in if \<not> ok then (None, packet) else (Some plain_len, packet))"

definition protect_srtcp_aes128_gcm :: "gcm_enc \<Rightarrow> bytes \<Rightarrow> bytes \<Rightarrow> nat \<Rightarrow> u32 \<Rightarrow> nat writer" where
  "protect_srtcp_aes128_gcm enc key salt plain_len index packet =
     (if plain_len < 8 \<or> length packet - (SRTP_AUTH_TAG_LEN + 4) < plain_len then (None, packet)
      else
        let ssrc = of_nat (be_val (bslice 4 8 packet)) :: u32;
            index_word = (index AND 0x7FFFFFFF) OR 0x80000000;
            packet = blit plain_len (be_bytes 4 (unat index_word)) packet;
            aad = take 8 packet @ bslice plain_len (plain_len + 4) packet;
            (ct, tag) = enc key (srtcp_gcm_nonce salt ssrc index) aad (bslice 8 plain_len packet)
        in (Some (plain_len + 4 + SRTP_AUTH_TAG_LEN), blit (plain_len + 4) tag (blit 8 ct packet)))"

definition unprotect_srtcp_aes128_gcm :: "gcm_dec \<Rightarrow> bytes \<Rightarrow> bytes \<Rightarrow> (nat \<times> u32) writer" where
  "unprotect_srtcp_aes128_gcm dec key salt packet =
     (if length packet < 8 + 4 + SRTP_AUTH_TAG_LEN then (None, packet)
      else
        let tag_at = length packet - SRTP_AUTH_TAG_LEN; index_at = tag_at - 4;
            index_word = of_nat (be_val (bslice index_at tag_at packet)) :: u32
        in
          if index_word AND 0x80000000 = 0 then (None, packet)
          else
            let index = index_word AND 0x7FFFFFFF;
                ssrc = of_nat (be_val (bslice 4 8 packet)) :: u32;
                aad = take 8 packet @ bslice index_at tag_at packet;
                (ok, pt) = dec key (srtcp_gcm_nonce salt ssrc index) aad (bslice 8 index_at packet) (drop tag_at packet);
                packet = blit 8 pt packet
            in if \<not> ok then (None, packet) else (Some (index_at, index), packet))"

definition validate_srtp_packet :: "bytes \<Rightarrow> nat \<Rightarrow> (bytes \<times> bytes) option" where
  "validate_srtp_packet packet tag_len =
     (if tag_len = 0 \<or> length packet \<le> tag_len then None
      else let split = length packet - tag_len in Some (take split packet, drop split packet))"

definition validate_srtcp_packet :: "bytes \<Rightarrow> nat \<Rightarrow> (bytes \<times> u32 \<times> bytes) option" where
  "validate_srtcp_packet packet tag_len =
     (if length packet < 4 + tag_len then None
      else
        let tag_at = length packet - tag_len; index_at = tag_at - 4
        in Some (take index_at packet, of_nat (be_val (bslice index_at tag_at packet)), drop tag_at packet))"

section \<open>The protected paths of the rtp module\<close>

record srtp_keys =
  sk_profile :: byte
  sk_key :: bytes
  sk_key_set :: bool
  sk_auth_key :: bytes
  sk_auth_set :: bool
  sk_cm_salt :: bytes
  sk_cm_salt_set :: bool
  sk_salt :: bytes
  sk_salt_set :: bool

definition sk_cm :: "srtp_keys \<Rightarrow> bool" where
  "sk_cm k \<longleftrightarrow> sk_profile k = 1 \<and> sk_key_set k \<and> sk_auth_set k \<and> sk_cm_salt_set k"

definition sk_gcm :: "srtp_keys \<Rightarrow> bool" where
  "sk_gcm k \<longleftrightarrow> sk_profile k = 0 \<and> sk_key_set k \<and> sk_salt_set k"

abbreviation (input) TX_MTU :: nat where "TX_MTU \<equiv> 1200"
abbreviation (input) MAX_RX_SSRC :: nat where "MAX_RX_SSRC \<equiv> 4"

text \<open>Sending: the header, the payload and the protection, in the packet buffer; 0 is a packet not sent.\<close>

definition send_protected ::
  "aes_block \<Rightarrow> (bytes \<Rightarrow> bytes) \<Rightarrow> gcm_enc \<Rightarrow> srtp_keys \<Rightarrow> byte \<Rightarrow> bool \<Rightarrow> u16 \<Rightarrow> u32 \<Rightarrow> u32 \<Rightarrow> bytes \<Rightarrow> bytes \<Rightarrow> nat \<times> bytes" where
  "send_protected aes sha1 enc k payload_type marker seq_num timestamp ssrc payload pkt_buf =
     (if payload = [] \<or> TX_MTU < length payload then (0, pkt_buf)
      else
      let pkt = blit 12 payload (blit 0 (rtp_fixed_header payload_type marker seq_num timestamp ssrc) pkt_buf);
          plain_len = RTP_HEADER_SIZE + length payload;
          unwrap = (\<lambda>(r, p). (case r of Some n \<Rightarrow> n | None \<Rightarrow> 0, p))
      in
        if sk_cm k then
          unwrap (protect_aes_cm_sha1_80 aes sha1 (sk_key k) (sk_auth_key k) (sk_cm_salt k) ssrc (ucast seq_num) RTP_HEADER_SIZE plain_len pkt)
        else if sk_gcm k then
          unwrap (protect_aes128_gcm enc (sk_key k) (sk_salt k) ssrc (ucast seq_num) RTP_HEADER_SIZE plain_len pkt)
        else (plain_len, pkt))"

text \<open>The index the receiver takes for a packet.\<close>

definition rx_index :: "srtp_replay \<Rightarrow> u16 \<Rightarrow> u64" where
  "rx_index r sq =
     (let prior = (case srtp_highest r of Some h \<Rightarrow> h | None \<Rightarrow> ucast sq)
      in packet_index (ucast (estimate_roc prior sq)) sq)"

text \<open>Receiving, once the header has been read and the source found: \<^const>\<open>None\<close> drops the packet; otherwise the
  header of the authenticated packet and its length.\<close>

definition receive_protected ::
  "aes_block \<Rightarrow> (bytes \<Rightarrow> bytes) \<Rightarrow> gcm_dec \<Rightarrow> srtp_keys \<Rightarrow> srtp_replay \<Rightarrow> rtp_header \<Rightarrow> bytes
    \<Rightarrow> (rtp_header \<times> nat) option \<times> srtp_replay \<times> bytes" where
  "receive_protected aes sha1 dec k replay h pkt =
     (if sk_cm k \<or> sk_gcm k then
        let index = rx_index replay (rh_seq h) in
        case (if sk_cm k
              then unprotect_aes_cm_sha1_80 aes sha1 (sk_key k) (sk_auth_key k) (sk_cm_salt k) (rh_ssrc h) index RTP_HEADER_SIZE pkt
              else unprotect_aes128_gcm dec (sk_key k) (sk_salt k) (rh_ssrc h) index RTP_HEADER_SIZE pkt) of
          (None, pkt) \<Rightarrow> (None, replay, pkt)
        | (Some plain_len, pkt) \<Rightarrow>
            (case srtp_accept replay index of
               (False, replay) \<Rightarrow> (None, replay, pkt)
             | (True, replay) \<Rightarrow>
                 (case rtp_parse (take plain_len pkt) of
                    None \<Rightarrow> (None, replay, pkt)
                  | Some h \<Rightarrow> (Some (h, plain_len), replay, pkt)))
      else (Some (h, length pkt), replay, pkt))"

text \<open>The sources a receiver has admitted, \<open>MAX_RX_SSRC\<close> slots of them, and the slot of a source: its own, or the
  first free one made its own.\<close>

record rx_ssrc_state =
  rx_ssrc :: u32
  rx_last_seq :: u16
  rx_valid :: bool
  rx_replay :: srtp_replay

definition rx_empty :: rx_ssrc_state where
  "rx_empty = \<lparr> rx_ssrc = 0, rx_last_seq = 0, rx_valid = False, rx_replay = srtp_replay_new \<rparr>"

fun rx_slot :: "(rx_ssrc_state \<Rightarrow> bool) \<Rightarrow> rx_ssrc_state list \<Rightarrow> nat option" where
  "rx_slot P [] = None"
| "rx_slot P (x # xs) = (if P x then Some 0 else map_option Suc (rx_slot P xs))"

definition rx_source :: "u32 \<Rightarrow> rx_ssrc_state list \<Rightarrow> nat option \<times> rx_ssrc_state list" where
  "rx_source ssrc sources =
     (case rx_slot (\<lambda>x. rx_valid x \<and> rx_ssrc x = ssrc) sources of
        Some i \<Rightarrow> (Some i, sources)
      | None \<Rightarrow>
          (case rx_slot (\<lambda>x. \<not> rx_valid x) sources of
             Some i \<Rightarrow> (Some i, sources[i := rx_empty\<lparr> rx_ssrc := ssrc, rx_valid := True \<rparr>])
           | None \<Rightarrow> (None, sources)))"

text \<open>The receive path from the media bytes on: the header, the negotiated payload type and source, the slot of the source, and
  the protection under that slot's replay window.\<close>

definition receive_packet ::
  "aes_block \<Rightarrow> (bytes \<Rightarrow> bytes) \<Rightarrow> gcm_dec \<Rightarrow> srtp_keys \<Rightarrow> byte \<Rightarrow> u32 \<Rightarrow> rx_ssrc_state list \<Rightarrow> bytes
    \<Rightarrow> (rtp_header \<times> nat) option \<times> rx_ssrc_state list \<times> bytes" where
  "receive_packet aes sha1 dec k payload_type want_ssrc sources pkt =
     (case rtp_parse pkt of
        None \<Rightarrow> (None, sources, pkt)
      | Some h \<Rightarrow>
          if rh_payload_type h \<noteq> payload_type \<or> want_ssrc \<noteq> 0 \<and> rh_ssrc h \<noteq> want_ssrc then (None, sources, pkt)
          else
            (case rx_source (rh_ssrc h) sources of
               (None, sources) \<Rightarrow> (None, sources, pkt)
             | (Some i, sources) \<Rightarrow>
                 (case receive_protected aes sha1 dec k (rx_replay (sources ! i)) h pkt of
                    (r, replay, pkt) \<Rightarrow> (r, sources[i := (sources ! i)\<lparr> rx_replay := replay \<rparr>], pkt))))"

section \<open>Replay\<close>

text \<open>The window is the one of SFrame, and so has its specification.\<close>

definition as_window :: "srtp_replay \<Rightarrow> replay_window" where
  "as_window r = \<lparr> rw_highest = sr_highest r, rw_seen = sr_bitmap r, rw_initialized = sr_initialized r \<rparr>"

lemma srtp_accept_window:
  "fst (srtp_accept r i) = fst (replay_accept (as_window r) i) \<and> as_window (snd (srtp_accept r i)) = snd (replay_accept (as_window r) i)"
  by (simp add: srtp_accept_def replay_accept_def as_window_def Let_def)

interpretation srtpw: machine_refines srtp_accept replay_spec "\<lambda>r A. replay_rel (as_window r) A"
  by unfold_locales (simp_all add: srtp_accept_window rw.sim_out rw.sim_step)

text \<open>The SRTP window decides like a memory of every index accepted so far, and accepts no index twice, however
  the packets are ordered, repeated or spread.\<close>

theorem srtp_replay_refines_memory:
  "fst (run srtp_accept srtp_replay_new idx) = fst (run replay_spec {} idx) \<and>
   distinct (map fst (filter snd (zip idx (fst (run srtp_accept srtp_replay_new idx)))))"
proof -
  have "replay_rel (as_window srtp_replay_new) {}"
    using replay_rel_new by (simp add: as_window_def srtp_replay_new_def replay_new_def)
  from srtpw.run_refines [OF this, of idx] replay_spec_distinct [of "{}" idx] show ?thesis by (simp add: Let_def)
qed

section \<open>Counter mode\<close>

lemma map2_xor_twice: "length x \<le> length s \<Longrightarrow> map2 (XOR) (map2 (XOR) x s) s = (x :: bytes)"
  by (induction x s rule: list_induct2') (auto simp: xor.assoc)

lemma length_aes_cm_blocks:
  assumes "\<And>c. length (aes key c) = 16"
  shows "length (aes_cm_blocks aes key c n data) = length data"
proof (induction data arbitrary: c n rule: length_induct)
  case (1 data)
  show ?case
  proof (cases "data = []")
    case True
    then show ?thesis by (simp add: aes_cm_blocks.simps)
  next
    case False
    then have IH: "length (aes_cm_blocks aes key c' m (drop (min 16 (length data)) data)) = length (drop (min 16 (length data)) data)" for c' m
      using "1.IH" by simp
    show ?thesis using False assms by (subst aes_cm_blocks.simps) (simp add: Let_def IH)
  qed
qed

lemma aes_cm_twice:
  assumes "\<And>c. length (aes key c) = 16"
  shows "aes_cm_blocks aes key c n (aes_cm_blocks aes key c n data) = data"
proof (induction data arbitrary: c n rule: length_induct)
  case (1 data)
  show ?case
  proof (cases "data = []")
    case True
    then show ?thesis by (simp add: aes_cm_blocks.simps)
  next
    case False
    define t where "t = min 16 (length data)"
    define c' where "c' = blit 12 (be_bytes 4 (unat n)) c"
    define st where "st = take t (aes key c')"
    define x where "x = map2 (XOR) (take t data) st"
    define y where "y = aes_cm_blocks aes key c' (n + 1) (drop t data)"
    have e: "aes_cm_blocks aes key c n data = x @ y"
      using False by (subst aes_cm_blocks.simps) (simp add: Let_def t_def c'_def st_def x_def y_def)
    have st: "length st = t" using assms by (simp add: st_def t_def)
    then have x: "length x = t" by (simp add: x_def t_def)
    have y: "length y = length data - t" using assms by (simp add: y_def length_aes_cm_blocks)
    have t: "min 16 (length (x @ y)) = t" using x y by (auto simp: t_def)
    have ne: "x @ y \<noteq> []" using False x by (auto simp: t_def min_def split: if_splits)
    have "take t (x @ y) = x" "drop t (x @ y) = y" using x by simp_all
    then have "aes_cm_blocks aes key c n (x @ y) = map2 (XOR) x st @ aes_cm_blocks aes key c' (n + 1) y"
      using ne t by (subst aes_cm_blocks.simps) (simp only: Let_def if_False t c'_def [symmetric] st_def [symmetric])
    moreover have "map2 (XOR) x st = take t data" unfolding x_def using st by (intro map2_xor_twice) simp
    moreover have "aes_cm_blocks aes key c' (n + 1) y = drop t data"
      unfolding y_def using "1.IH" False by (simp add: t_def)
    ultimately show ?thesis unfolding e by simp
  qed
qed

lemma length_aes_cm_xor: "(\<And>c. length (aes key c) = 16) \<Longrightarrow> length (aes_cm_xor aes key salt ssrc i data) = length data"
  by (simp add: aes_cm_xor_def length_aes_cm_blocks)

lemma aes_cm_xor_twice:
  "(\<And>c. length (aes key c) = 16) \<Longrightarrow> aes_cm_xor aes key salt ssrc i (aes_cm_xor aes key salt ssrc i data) = data"
  by (simp add: aes_cm_xor_def aes_cm_twice)

lemma byte_or_zero: "(a :: byte) OR b = 0 \<longleftrightarrow> a = 0 \<and> b = 0"
  by (auto simp: or_eq_0_iff)

lemma byte_xor_zero: "(a :: byte) XOR b = 0 \<longleftrightarrow> a = b"
  by (metis word_xor_cancel xor_self_eq)

text \<open>The tag comparison without early exit is equality.\<close>

lemma tag_diff_zero:
  "length x = length y \<Longrightarrow> fold (\<lambda>(a, b) d. d OR (a XOR b)) (zip x y) (d :: byte) = 0 \<longleftrightarrow> d = 0 \<and> x = y"
  by (induction x y arbitrary: d rule: list_induct2) (auto simp: byte_or_zero byte_xor_zero)

text \<open>Counter-mode protection is undone by the receiver: a packet of up to 1596 bytes protected under some keys is
  accepted under the same keys, index and source, gives back every byte of the packet, and travels with its
  header in clear. AES answers blocks of 16 bytes and SHA-1 digests of 20.\<close>

lemma srtp_cm_media:
  assumes "\<And>b. length (aes enc_key b) = 16" and "\<And>b. length (sha1 b) = 20"
    and "header_len \<le> plain_len" "0 < plain_len" and "plain_len + 4 \<le> SRTP_SCRATCH" and "plain_len + SRTP_AES_CM_TAG_LEN \<le> length packet"
  shows "\<exists>p q. protect_aes_cm_sha1_80 aes sha1 enc_key auth_key salt ssrc index header_len plain_len packet = (Some (plain_len + SRTP_AES_CM_TAG_LEN), p) \<and>
    take header_len p = take header_len packet \<and>
    unprotect_aes_cm_sha1_80 aes sha1 enc_key auth_key salt ssrc index header_len (take (plain_len + SRTP_AES_CM_TAG_LEN) p) = (Some plain_len, q) \<and>
    take plain_len q = take plain_len packet"
proof -
  define hd0 where "hd0 = take header_len packet"
  define pt where "pt = bslice header_len plain_len packet"
  define ct where "ct = aes_cm_xor aes enc_key salt ssrc index pt"
  define rest where "rest = drop plain_len packet"
  have l: "length hd0 = header_len" "length pt = plain_len - header_len" "length ct = plain_len - header_len"
    using assms(1,3,6) by (simp_all add: hd0_def pt_def ct_def length_aes_cm_xor)
  have "take plain_len packet = hd0 @ pt"
    using assms(3) bslice_split [of 0 header_len plain_len packet] by (simp add: hd0_def pt_def bslice_def)
  then have pk: "packet = hd0 @ pt @ rest" by (metis append.assoc append_take_drop_id rest_def)
  have p1: "blit header_len ct packet = hd0 @ ct @ rest" using l by (simp add: pk blit_def)
  define tag where "tag = take SRTP_AES_CM_TAG_LEN (srtp_cm_auth sha1 auth_key index (hd0 @ ct))"
  have tag: "length tag = 10"
    using assms(2) by (simp add: tag_def srtp_cm_auth_def srtp_hmac_sha1_def Let_def)
  have hc: "take plain_len (hd0 @ ct @ rest) = hd0 @ ct" "length (hd0 @ ct) = plain_len" using l assms(3) by simp_all
  let ?p = "blit plain_len tag (hd0 @ ct @ rest)"
  have pr: "protect_aes_cm_sha1_80 aes sha1 enc_key auth_key salt ssrc index header_len plain_len packet = (Some (plain_len + 10), ?p)"
    unfolding protect_aes_cm_sha1_80_def pt_def [symmetric] ct_def [symmetric] Let_def p1 hc(1) tag_def using assms(3-6) by simp
  have p: "?p = hd0 @ ct @ tag @ drop 10 rest"
    using hc(2) tag by (simp add: blit_def)
  then have t: "take (plain_len + 10) ?p = hd0 @ ct @ tag" using hc(2) tag by simp
  have u: "unprotect_aes_cm_sha1_80 aes sha1 enc_key auth_key salt ssrc index header_len (hd0 @ ct @ tag) = (Some plain_len, hd0 @ pt @ tag)"
  proof -
    have f: "length (hd0 @ ct @ tag) = plain_len + 10" "take plain_len (hd0 @ ct @ tag) = hd0 @ ct"
      "bslice plain_len (plain_len + 10) (hd0 @ ct @ tag) = tag" "bslice header_len plain_len (hd0 @ ct @ tag) = ct"
      using l tag hc(2) assms(3) by (simp_all add: bslice_def)
    have d: "fold (\<lambda>(a, b) d. d OR (a XOR b)) (zip tag tag) 0 = (0 :: byte)" by (simp add: tag_diff_zero)
    have ct: "aes_cm_xor aes enc_key salt ssrc index ct = pt" unfolding ct_def using assms(1) by (rule aes_cm_xor_twice)
    have "blit header_len pt (hd0 @ ct @ tag) = hd0 @ pt @ tag" using l by (simp add: blit_def)
    then show ?thesis
      unfolding unprotect_aes_cm_sha1_80_def f(1) Let_def add_diff_cancel_right' f tag_def [symmetric] d ct
      using assms(3-5) by simp
  qed
  show ?thesis
    using pr u unfolding t [symmetric] using p l assms(3) by (intro exI [of _ ?p] exI [of _ "hd0 @ pt @ tag"]) (simp add: t pk)
qed

text \<open>What the receiver authenticates: a shorter packet is accepted only with the tag the key gives it.\<close>

lemma srtp_cm_accepts_only_tagged:
  assumes "\<And>b. length (sha1 b) = 20"
    and "unprotect_aes_cm_sha1_80 aes sha1 enc_key auth_key salt ssrc index header_len packet = (Some n, q)"
  shows "n + SRTP_AES_CM_TAG_LEN = length packet \<and> drop n packet = take SRTP_AES_CM_TAG_LEN (srtp_cm_auth sha1 auth_key index (take n packet))"
proof -
  have n: "n + SRTP_AES_CM_TAG_LEN = length packet" "n + 4 \<le> SRTP_SCRATCH"
    using assms(2) by (auto simp: unprotect_aes_cm_sha1_80_def Let_def split: if_splits)
  have l: "length (take SRTP_AES_CM_TAG_LEN (srtp_cm_auth sha1 auth_key index (take n packet))) = length (bslice n (n + SRTP_AES_CM_TAG_LEN) packet)"
    using n assms(1) by (simp add: srtp_cm_auth_def srtp_hmac_sha1_def Let_def)
  have "n = length packet - SRTP_AES_CM_TAG_LEN" using n by simp
  then have "fold (\<lambda>(a, b) d. d OR (a XOR b)) (zip (take SRTP_AES_CM_TAG_LEN (srtp_cm_auth sha1 auth_key index (take n packet)))
      (bslice n (n + SRTP_AES_CM_TAG_LEN) packet)) (0 :: byte) = 0"
    using assms(2) by (auto simp: unprotect_aes_cm_sha1_80_def Let_def split: if_splits)
  with tag_diff_zero [OF l, of 0] n show ?thesis by (simp add: bslice_def)
qed

text \<open>But \<open>hmac_sha1\<close> leaves the tag at zero when the packet does not fit its scratch buffer: between 1533 and 1596
  bytes, ten zero bytes authenticate any packet under any key.\<close>

lemma srtp_cm_long_packets_unauthenticated:
  assumes "1533 \<le> length body" "length body \<le> 1596" and "header_len \<le> length body"
  shows "fst (unprotect_aes_cm_sha1_80 aes sha1 enc_key auth_key salt ssrc index header_len (body @ replicate 10 0)) = Some (length body)"
proof -
  have "srtp_cm_auth sha1 auth_key index body = replicate 20 0"
    using assms(1) by (simp add: srtp_cm_auth_def srtp_hmac_sha1_def Let_def)
  moreover have "fold (\<lambda>(a, b) d. d OR (a XOR b)) (zip (replicate 10 0) (replicate 10 0)) (0 :: byte) = 0"
    by (rule tag_diff_zero [THEN iffD2]) simp_all
  ultimately show ?thesis
    using assms by (auto simp: unprotect_aes_cm_sha1_80_def Let_def bslice_def)
qed

text \<open>And the key stream takes only the low 32 bits of the index.\<close>

lemma aes_cm_stream_repeats:
  assumes "unat i mod 2 ^ 32 = unat j mod 2 ^ 32"
  shows "aes_cm_xor aes key salt ssrc i data = aes_cm_xor aes key salt ssrc j data"
proof -
  have "drop 4 (be_bytes 8 v) = be_bytes 4 v" for v using drop_be_bytes [of 4 8 v] by simp
  moreover have "be_bytes 4 (unat i) = be_bytes 4 (unat j)"
    using assms be_bytes_mod [of 4 "unat i"] be_bytes_mod [of 4 "unat j"] by simp
  ultimately show ?thesis by (simp add: aes_cm_xor_def aes_cm_counter_def)
qed

section \<open>Nonces\<close>

lemma map2_xor_commute: "map2 (XOR) s a = map2 (XOR) a (s :: bytes)"
  by (induction s a rule: list_induct2') (simp_all add: xor.commute)

lemma be_bytes_inj: "unat a < 256 ^ n \<Longrightarrow> unat b < 256 ^ n \<Longrightarrow> be_bytes n (unat a) = be_bytes n (unat b) \<Longrightarrow> a = (b :: 'a::len word)"
  by (metis be_val_be_bytes_small unsigned_word_eqI)

lemma index_split: "unat (i :: u64) < 2 ^ 48 \<Longrightarrow> unat (ucast (drop_bit 16 i) :: u32) = unat i div 2 ^ 16 \<and> unat (ucast i :: u16) = unat i mod 2 ^ 16"
  by (simp add: unat_ucast_mod unat_drop_bit)

text \<open>Two packets protected under one salt have the same nonce only if they have the same source and the same
  48-bit index: as long as indices do not repeat, no nonce does.\<close>

theorem gcm_nonce_injective:
  assumes "length salt = 12" and "unat i < 2 ^ 48" "unat j < 2 ^ 48" and "gcm_nonce salt ssrc i = gcm_nonce salt ssrc' j"
  shows "ssrc = ssrc' \<and> i = j"
proof -
  let ?in = "\<lambda>ssrc i. [0, 0] @ be_bytes 4 (unat ssrc) @ be_bytes 4 (unat (ucast (drop_bit 16 i) :: u32)) @ be_bytes 2 (unat (ucast i :: u16))"
  have "map2 (XOR) (?in ssrc i) salt = map2 (XOR) (?in ssrc' j) salt"
    using assms(4) unfolding gcm_nonce_def map2_xor_commute [of salt] .
  then have "?in ssrc i = ?in ssrc' j" by (rule map2_xor_inj [rotated 2]) (simp_all add: assms(1))
  then have e: "be_bytes 4 (unat ssrc) = be_bytes 4 (unat ssrc')"
    "be_bytes 4 (unat (ucast (drop_bit 16 i) :: u32)) = be_bytes 4 (unat (ucast (drop_bit 16 j) :: u32))"
    "be_bytes 2 (unat (ucast i :: u16)) = be_bytes 2 (unat (ucast j :: u16))"
    by simp_all
  have "ssrc = ssrc'" by (rule be_bytes_inj [OF _ _ e(1)]) (rule unat_less_pow256)+
  moreover have "(ucast (drop_bit 16 i) :: u32) = ucast (drop_bit 16 j)" by (rule be_bytes_inj [OF _ _ e(2)]) (rule unat_less_pow256)+
  moreover have "(ucast i :: u16) = ucast j" by (rule be_bytes_inj [OF _ _ e(3)]) (rule unat_less_pow256)+
  ultimately have "ssrc = ssrc'" "unat i div 2 ^ 16 = unat j div 2 ^ 16" "unat i mod 2 ^ 16 = unat j mod 2 ^ 16"
    using index_split [OF assms(2)] index_split [OF assms(3)] by simp_all
  then show ?thesis by (metis div_mult_mod_eq unsigned_word_eqI)
qed

theorem gcm_nonce_injective_witness:
  "gcm_nonce (replicate 12 1) 7 65536 \<noteq> gcm_nonce (replicate 12 1) 7 (0 :: u64)"
  using gcm_nonce_injective [of "replicate 12 1" 65536 0 7 7] by auto

section \<open>AES-GCM\<close>

text \<open>What the two GCM paths need of the primitive: decryption under the same key, nonce and associated data undoes
  encryption, the ciphertext is as long as the plaintext and the tag has 16 bytes.\<close>

definition gcm_inverse :: "gcm_enc \<Rightarrow> gcm_dec \<Rightarrow> bool" where
  "gcm_inverse enc dec \<longleftrightarrow>
     (\<forall>key nonce aad pt ct tag. enc key nonce aad pt = (ct, tag) \<longrightarrow>
        length ct = length pt \<and> length tag = SRTP_AUTH_TAG_LEN \<and> dec key nonce aad ct tag = (True, pt))"

lemma take_split: "i \<le> j \<Longrightarrow> j \<le> length b \<Longrightarrow> b = take i b @ bslice i j b @ drop j b"
  using bslice_split [of i j "length b" b] by (metis append.assoc append_take_drop_id bslice_def bslice_full bslice_split diff_zero drop0 le0)

text \<open>GCM protection is undone by the receiver, for media and for control packets; the control packet carries its own
  index.\<close>

lemma srtp_gcm_media:
  assumes "gcm_inverse enc dec" and "header_len \<le> plain_len" "0 < plain_len" "header_len \<le> 256"
    and "plain_len + SRTP_AUTH_TAG_LEN \<le> length packet"
  shows "\<exists>p q. protect_aes128_gcm enc key salt ssrc index header_len plain_len packet = (Some (plain_len + SRTP_AUTH_TAG_LEN), p) \<and>
    take header_len p = take header_len packet \<and>
    unprotect_aes128_gcm dec key salt ssrc index header_len (take (plain_len + SRTP_AUTH_TAG_LEN) p) = (Some plain_len, q) \<and>
    take plain_len q = take plain_len packet"
proof -
  define hd0 where "hd0 = take header_len packet"
  define pt where "pt = bslice header_len plain_len packet"
  define rest where "rest = drop plain_len packet"
  obtain ct tag where e: "enc key (gcm_nonce salt ssrc index) hd0 pt = (ct, tag)" by fastforce
  with assms(1) have g: "length ct = length pt" "length tag = 16" "dec key (gcm_nonce salt ssrc index) hd0 ct tag = (True, pt)"
    unfolding gcm_inverse_def by blast+
  have l: "length hd0 = header_len" "length pt = plain_len - header_len" using assms(2,5) by (simp_all add: hd0_def pt_def)
  have pk: "packet = hd0 @ pt @ rest" unfolding hd0_def pt_def rest_def using assms(2,5) by (intro take_split) simp_all
  let ?p = "hd0 @ ct @ tag @ drop 16 rest"
  have "blit plain_len tag (blit header_len ct packet) = ?p" using l g assms(2) by (simp add: pk blit_def)
  then have pr: "protect_aes128_gcm enc key salt ssrc index header_len plain_len packet = (Some (plain_len + 16), ?p)"
    unfolding protect_aes128_gcm_def hd0_def [symmetric] pt_def [symmetric] e Let_def using assms(2-5) by simp
  have t: "take (plain_len + 16) ?p = hd0 @ ct @ tag" using l g assms(2) by simp
  have f: "length (hd0 @ ct @ tag) = plain_len + 16" "take header_len (hd0 @ ct @ tag) = hd0"
    "bslice header_len plain_len (hd0 @ ct @ tag) = ct" "drop plain_len (hd0 @ ct @ tag) = tag"
    "blit header_len pt (hd0 @ ct @ tag) = hd0 @ pt @ tag"
    using l g assms(2) by (simp_all add: bslice_def blit_def)
  have "unprotect_aes128_gcm dec key salt ssrc index header_len (hd0 @ ct @ tag) = (Some plain_len, hd0 @ pt @ tag)"
    unfolding unprotect_aes128_gcm_def f(1) Let_def add_diff_cancel_right' f(2-5) g(3) prod.case using assms(2-4) f(5) by simp
  with pr t l assms(2) show ?thesis
    by (intro exI [of _ ?p] exI [of _ "hd0 @ pt @ tag"]) (simp add: pk)
qed

lemma srtcp_index_word:
  fixes x :: u32
  shows "((x AND 0x7FFFFFFF) OR 0x80000000) AND 0x80000000 \<noteq> 0" "((x AND 0x7FFFFFFF) OR 0x80000000) AND 0x7FFFFFFF = x AND 0x7FFFFFFF"
proof -
  have m: "y AND 0x7FFFFFFF = take_bit 31 y" for y :: u32 by (simp add: take_bit_eq_mask mask_eq_exp_minus_1)
  have p: "(0x80000000 :: u32) = push_bit 31 1" "(0x80000000 :: int) = push_bit 31 1" by simp_all
  have q: "bit (0x80000000 :: u32) n \<longleftrightarrow> n = 31" "bit (0x80000000 :: int) n \<longleftrightarrow> n = 31" for n
    unfolding p bit_push_bit_iff by (auto simp: bit_1_iff)
  have "bit (((x AND 0x7FFFFFFF) OR 0x80000000) AND 0x80000000) 31" by (auto simp: bit_and_iff bit_or_iff q)
  then show "((x AND 0x7FFFFFFF) OR 0x80000000) AND 0x80000000 \<noteq> 0" by (metis bit_0_eq bot_apply bot_bool_def)
  show "((x AND 0x7FFFFFFF) OR 0x80000000) AND 0x7FFFFFFF = x AND 0x7FFFFFFF"
    unfolding m by (rule bit_word_eqI) (auto simp: bit_take_bit_iff bit_or_iff q)
qed

lemma srtp_gcm_control:
  assumes "gcm_inverse enc dec" and "8 \<le> n" "n + 4 + SRTP_AUTH_TAG_LEN \<le> length rtcp"
  shows "\<exists>r t. protect_srtcp_aes128_gcm enc key salt n index rtcp = (Some (n + 4 + SRTP_AUTH_TAG_LEN), r) \<and>
    unprotect_srtcp_aes128_gcm dec key salt (take (n + 4 + SRTP_AUTH_TAG_LEN) r) = (Some (n, index AND 0x7FFFFFFF), t) \<and>
    take n t = take n rtcp"
proof -
  define h8 where "h8 = take 8 rtcp"
  define pt where "pt = bslice 8 n rtcp"
  define rest where "rest = drop n rtcp"
  define iw where "iw = (index AND 0x7FFFFFFF) OR (0x80000000 :: u32)"
  define w where "w = be_bytes 4 (unat iw)"
  define ssrc where "ssrc = (of_nat (be_val (bslice 4 8 rtcp)) :: u32)"
  obtain ct tag where e: "enc key (srtcp_gcm_nonce salt ssrc index) (h8 @ w) pt = (ct, tag)" by fastforce
  with assms(1) have g: "length ct = length pt" "length tag = 16" "dec key (srtcp_gcm_nonce salt ssrc index) (h8 @ w) ct tag = (True, pt)"
    unfolding gcm_inverse_def by blast+
  have l: "length h8 = 8" "length pt = n - 8" "length w = 4" using assms(2,3) by (simp_all add: h8_def pt_def w_def)
  have pk: "rtcp = h8 @ pt @ rest" unfolding h8_def pt_def rest_def using assms(2,3) by (intro take_split) simp_all
  have b: "blit n w rtcp = h8 @ pt @ w @ drop 4 rest" using l assms(2) by (simp add: pk blit_def)
  have bf: "take 8 (h8 @ pt @ w @ drop 4 rest) = h8" "bslice n (n + 4) (h8 @ pt @ w @ drop 4 rest) = w" "bslice 8 n (h8 @ pt @ w @ drop 4 rest) = pt"
    using l assms(2) by (simp_all add: bslice_def)
  let ?r = "h8 @ ct @ w @ tag @ drop 20 rest"
  have "blit (n + 4) tag (blit 8 ct (h8 @ pt @ w @ drop 4 rest)) = ?r" using l g assms(2) by (simp add: blit_def)
  then have pr: "protect_srtcp_aes128_gcm enc key salt n index rtcp = (Some (n + 4 + 16), ?r)"
    unfolding protect_srtcp_aes128_gcm_def ssrc_def [symmetric] iw_def [symmetric] w_def [symmetric] Let_def b bf e prod.case using assms(2,3) by simp
  have t: "take (n + 4 + 16) ?r = h8 @ ct @ w @ tag" using l g assms(2) by simp
  let ?s = "h8 @ ct @ w @ tag"
  have f: "length ?s = n + 4 + 16" "bslice n (n + 4) ?s = w" "take 8 ?s = h8" "bslice 8 n ?s = ct" "drop (n + 4) ?s = tag" "blit 8 pt ?s = h8 @ pt @ w @ tag"
    using l g assms(2) by (simp_all add: bslice_def blit_def)
  have s: "bslice 4 8 ?s = bslice 4 8 rtcp" using l by (simp add: bslice_def pk)
  have iw: "(of_nat (be_val w) :: u32) = iw" by (simp add: w_def)
  have nonce: "srtcp_gcm_nonce salt ssrc (index AND 0x7FFFFFFF) = srtcp_gcm_nonce salt ssrc index" by (simp add: srtcp_gcm_nonce_def and.assoc)
  have "unprotect_srtcp_aes128_gcm dec key salt ?s = (Some (n, index AND 0x7FFFFFFF), h8 @ pt @ w @ tag)"
    unfolding unprotect_srtcp_aes128_gcm_def f(1) Let_def add_diff_cancel_right' f(2-6) s ssrc_def [symmetric] iw
    using assms(2) srtcp_index_word [of index] nonce g(3) f(6) by (simp add: iw_def)
  with pr t l assms(2) show ?thesis
    by (intro exI [of _ ?r] exI [of _ "h8 @ pt @ w @ tag"]) (simp add: pk)
qed

text \<open>A primitive with those laws, for the witness: the plaintext itself and a constant tag.\<close>

definition clear_enc :: gcm_enc where
  "clear_enc key nonce aad pt = (pt, replicate 16 0)"

definition clear_dec :: gcm_dec where
  "clear_dec key nonce aad ct tag = (tag = replicate 16 0, ct)"

section \<open>From sender to receiver\<close>

lemma length_fixed_header [simp]: "length (rtp_fixed_header pt m sq ts ssrc) = 12"
  by (simp add: rtp_fixed_header_def)

lemma sent_packet:
  assumes "12 + length payload \<le> length buf"
  shows "blit 12 payload (blit 0 (rtp_fixed_header pt m sq ts ssrc) buf) =
    (rtp_fixed_header pt m sq ts ssrc @ payload) @ drop (12 + length payload) buf"
  using assms blit_blit_append [of 0 "rtp_fixed_header pt m sq ts ssrc" payload buf] by (simp add: blit_def)

lemma unat_seq_index: "unat (ucast (sq :: u16) :: u64) = unat sq"
  by (simp add: unat_ucast_widen)

lemma estimate_roc_first: "estimate_roc (ucast sq) sq = 0"
proof -
  have "drop_bit 16 (ucast sq :: u64) = 0"
    using unat_less_pow256(1) [of sq] by (intro unat_eqI) (simp add: unat_drop_bit unat_seq_index)
  moreover have "ucast (ucast sq :: u64) = sq"
    using unat_less_pow256(1) [of sq] by (intro unat_eqI) (simp add: unat_ucast_mod unat_seq_index)
  ultimately show ?thesis by (auto simp: estimate_roc_def Let_def)
qed

lemma packet_index_zero: "packet_index 0 sq = ucast sq"
  by (simp add: packet_index_def)

lemma rx_index_first: "rx_index srtp_replay_new sq = ucast sq"
  by (simp add: rx_index_def srtp_highest_def srtp_replay_new_def estimate_roc_first packet_index_zero)

text \<open>Sequence numbers of the same half as the newest one keep its rollover counter.\<close>

lemma rx_index_same_half:
  assumes "sr_initialized r" and "unat (sr_highest r) < 2 ^ 16" and "unat sq < 0x8000 \<longleftrightarrow> unat (sr_highest r) < 0x8000"
  shows "rx_index r sq = ucast sq"
proof -
  have "drop_bit 16 (sr_highest r) = 0"
    using assms(2) by (intro unat_eqI) (simp add: unat_drop_bit)
  moreover have "unat (ucast (sr_highest r) :: u16) = unat (sr_highest r)" using assms(2) by (simp add: unat_ucast_mod)
  ultimately have "estimate_roc (sr_highest r) sq = 0"
    using assms(3) by (auto simp: estimate_roc_def Let_def word_less_nat_alt)
  with assms(1) show ?thesis by (simp add: rx_index_def srtp_highest_def packet_index_zero)
qed

lemma srtp_send_receive_core:
  assumes "\<And>key b. length (aes key b) = 16" and "\<And>b. length (sha1 b) = 20" and "gcm_inverse enc dec"
    and "sk_cm k \<or> sk_gcm k" and "payload \<noteq> []" "length payload \<le> TX_MTU" "length payload + 28 \<le> length buf"
    and "rx_index r sq = ucast sq" and "fst (srtp_accept r (ucast sq))"
    and "send_protected aes sha1 enc k pt m sq ts ssrc payload buf = (tot, pkt)"
    and "rh_seq h = sq" "rh_ssrc h = ssrc"
  shows "\<exists>h' n r' out. receive_protected aes sha1 dec k r h (take tot pkt) = (Some (h', n), r', out) \<and>
    take 12 (take tot pkt) = rtp_fixed_header pt m sq ts ssrc \<and> 12 < length (take tot pkt) \<and>
    rh_payload_type h' = pt AND 0x7F \<and> rh_marker h' = m \<and> rh_seq h' = sq \<and> rh_timestamp h' = ts \<and> rh_ssrc h' = ssrc \<and>
    bslice (rh_payload_start h') (rh_payload_end h') out = payload"
proof -
  let ?hd = "rtp_fixed_header pt m sq ts ssrc"
  let ?n = "12 + length payload"
  define b where "b = (?hd @ payload) @ drop ?n buf"
  have bl: "blit 12 payload (blit 0 ?hd buf) = b" unfolding b_def using assms(7) by (intro sent_packet) simp
  have bn: "take ?n b = ?hd @ payload" "length b = length buf" using assms(7) by (simp_all add: b_def)
  have "\<exists>out. (if sk_cm k
      then unprotect_aes_cm_sha1_80 aes sha1 (sk_key k) (sk_auth_key k) (sk_cm_salt k) ssrc (ucast sq) RTP_HEADER_SIZE (take tot pkt)
      else unprotect_aes128_gcm dec (sk_key k) (sk_salt k) ssrc (ucast sq) RTP_HEADER_SIZE (take tot pkt)) = (Some ?n, out) \<and>
    take ?n out = ?hd @ payload \<and> take 12 (take tot pkt) = ?hd \<and> 12 < length (take tot pkt)"
  proof (cases "sk_cm k")
    case True
    have c: "12 \<le> ?n" "0 < ?n" "?n + 4 \<le> 1600" "?n + 10 \<le> length b" using assms(6,7) bn by simp_all
    from srtp_cm_media [of aes "sk_key k" sha1, OF assms(1,2) c, of "sk_auth_key k" "sk_cm_salt k" ssrc "ucast sq"] bn
    obtain p q where p: "protect_aes_cm_sha1_80 aes sha1 (sk_key k) (sk_auth_key k) (sk_cm_salt k) ssrc (ucast sq) 12 ?n b = (Some (?n + 10), p)"
      and q: "unprotect_aes_cm_sha1_80 aes sha1 (sk_key k) (sk_auth_key k) (sk_cm_salt k) ssrc (ucast sq) 12 (take (?n + 10) p) = (Some ?n, q)"
        "take ?n q = ?hd @ payload" "take 12 p = take 12 b" by auto
    have "tot = ?n + 10" "pkt = p" using assms(5,6,10) True p unfolding send_protected_def Let_def bl by (simp_all split: if_splits)
    moreover have "?n + 10 \<le> length p" using q(1) by (auto simp: unprotect_aes_cm_sha1_80_def Let_def split: if_splits)
    ultimately show ?thesis using q True bn assms(5,7) by (simp add: b_def)
  next
    case False
    with assms(4) have g: "sk_gcm k" by simp
    have c: "12 \<le> ?n" "0 < ?n" "(12 :: nat) \<le> 256" "?n + 16 \<le> length b" using assms(6,7) bn by simp_all
    from srtp_gcm_media [OF assms(3) c, of "sk_key k" "sk_salt k" ssrc "ucast sq"] bn
    obtain p q where p: "protect_aes128_gcm enc (sk_key k) (sk_salt k) ssrc (ucast sq) 12 ?n b = (Some (?n + 16), p)"
      and q: "unprotect_aes128_gcm dec (sk_key k) (sk_salt k) ssrc (ucast sq) 12 (take (?n + 16) p) = (Some ?n, q)"
        "take ?n q = ?hd @ payload" "take 12 p = take 12 b" by auto
    have "tot = ?n + 16" "pkt = p" using assms(5,6,10) False g p unfolding send_protected_def Let_def bl by (simp_all split: if_splits)
    moreover have "?n + 16 \<le> length p" using q(1) by (auto simp: unprotect_aes128_gcm_def Let_def split: if_splits prod.splits)
    ultimately show ?thesis using q False bn assms(5,7) by (simp add: b_def)
  qed
  then obtain out where out: "(if sk_cm k
      then unprotect_aes_cm_sha1_80 aes sha1 (sk_key k) (sk_auth_key k) (sk_cm_salt k) ssrc (ucast sq) RTP_HEADER_SIZE (take tot pkt)
      else unprotect_aes128_gcm dec (sk_key k) (sk_salt k) ssrc (ucast sq) RTP_HEADER_SIZE (take tot pkt)) = (Some ?n, out)"
    and t: "take ?n out = ?hd @ payload" and front: "take 12 (take tot pkt) = ?hd" "12 < length (take tot pkt)" by blast
  obtain r' where r': "srtp_accept r (ucast sq) = (True, r')" using assms(9) by (cases "srtp_accept r (ucast sq)") auto
  let ?h = "\<lparr> rh_payload_type = pt AND 0x7F, rh_marker = m, rh_seq = sq, rh_timestamp = ts, rh_ssrc = ssrc, rh_payload_start = 12, rh_payload_end = 12 + length payload \<rparr>"
  have "receive_protected aes sha1 dec k r h (take tot pkt) = (Some (?h, ?n), r', out)"
    unfolding receive_protected_def Let_def assms(8,11,12) out prod.case option.case r' t
    using assms(4) rtp_fixed_header_parse [OF assms(5)] by simp
  moreover have "bslice 12 ?n out = payload"
    using arg_cong [OF t, of "drop 12"] by (simp add: bslice_def take_drop add.commute)
  ultimately show ?thesis using front by auto
qed

lemma send_protected_sent:
  assumes "send_protected aes sha1 enc k pt m sq ts ssrc payload buf = (tot, pkt)" and "0 < tot"
  shows "payload \<noteq> [] \<and> length payload \<le> TX_MTU"
  using assms by (auto simp: send_protected_def split: if_splits)

text \<open>C40. Sender and receiver of the module agree, under both profiles: a packet the sender sends, as it leaves in the
  first \<open>tot\<close> bytes of the packet buffer, is accepted by a receiver with the same keys that expects its payload
  type and its source (or any source), has a slot for the source, takes its sequence number for the packet
  index and has not seen it, and the receiver finds the header fields and exactly the payload that were
  sent.\<close>

theorem srtp_send_receive:
  assumes "\<And>key b. length (aes key b) = 16" and "\<And>b. length (sha1 b) = 20" and "gcm_inverse enc dec"
    and "sk_cm k \<or> sk_gcm k" and "length payload + 28 \<le> length buf"
    and "send_protected aes sha1 enc k pt m sq ts ssrc payload buf = (tot, pkt)" and "0 < tot"
    and "want_ssrc = 0 \<or> want_ssrc = ssrc" and "rx_source ssrc sources = (Some i, sources')" and "r = rx_replay (sources' ! i)"
    and "rx_index r sq = ucast sq" and "fst (srtp_accept r (ucast sq))"
  shows "\<exists>h' n sources'' out. receive_packet aes sha1 dec k (pt AND 0x7F) want_ssrc sources (take tot pkt) = (Some (h', n), sources'', out) \<and>
    rh_payload_type h' = pt AND 0x7F \<and> rh_marker h' = m \<and> rh_seq h' = sq \<and> rh_timestamp h' = ts \<and> rh_ssrc h' = ssrc \<and>
    bslice (rh_payload_start h') (rh_payload_end h') out = payload"
proof -
  let ?p = "take tot pkt"
  have pl: "payload \<noteq> []" "length payload \<le> TX_MTU" using send_protected_sent [OF assms(6,7)] by simp_all
  note core = srtp_send_receive_core [OF assms(1-4) pl assms(5,11,12,6)]
  obtain hd0 :: rtp_header where hd0: "rh_seq hd0 = sq" "rh_ssrc hd0 = ssrc" by (metis rtp_header.select_convs(3,5))
  have hd: "?p = rtp_fixed_header pt m sq ts ssrc @ drop 12 ?p" "drop 12 ?p \<noteq> []"
    using core [OF hd0] by (metis append_take_drop_id, auto)
  from rtp_fixed_header_parse [OF hd(2), of pt m sq ts ssrc]
  obtain h where h: "rtp_parse ?p = Some h" "rh_payload_type h = pt AND 0x7F" "rh_seq h = sq" "rh_ssrc h = ssrc"
    unfolding hd(1) [symmetric] by fastforce
  obtain h' n r' out where "receive_protected aes sha1 dec k r h ?p = (Some (h', n), r', out)"
    "rh_payload_type h' = pt AND 0x7F \<and> rh_marker h' = m \<and> rh_seq h' = sq \<and> rh_timestamp h' = ts \<and> rh_ssrc h' = ssrc \<and>
    bslice (rh_payload_start h') (rh_payload_end h') out = payload"
    using core [OF h(3,4)] by blast
  then show ?thesis unfolding receive_packet_def using h assms(8-10) by auto
qed

definition demo_keys :: "byte \<Rightarrow> srtp_keys" where
  "demo_keys profile = \<lparr> sk_profile = profile, sk_key = replicate 16 1, sk_key_set = True, sk_auth_key = replicate 20 2, sk_auth_set = True,
     sk_cm_salt = replicate 14 3, sk_cm_salt_set = True, sk_salt = replicate 12 4, sk_salt_set = True \<rparr>"

theorem srtp_send_receive_witness:
  "\<exists>tot pkt h' n sources'' out.
    send_protected (\<lambda>k b. replicate 16 7) (\<lambda>b. replicate 20 9) clear_enc (demo_keys 1) 96 True 65535 5 6 [1, 2, 3] (replicate 40 0) = (tot, pkt) \<and> 0 < tot \<and>
    receive_packet (\<lambda>k b. replicate 16 7) (\<lambda>b. replicate 20 9) clear_dec (demo_keys 1) 96 0 (replicate MAX_RX_SSRC rx_empty)
      (take tot pkt) = (Some (h', n), sources'', out) \<and>
    bslice (rh_payload_start h') (rh_payload_end h') out = [1, 2, 3]"
proof -
  obtain tot pkt where s: "send_protected (\<lambda>k b. replicate 16 7) (\<lambda>b. replicate 20 9) clear_enc (demo_keys 1) 96 True 65535 5 6 [1, 2, 3] (replicate 40 0) = (tot, pkt)"
    by fastforce
  have g: "gcm_inverse clear_enc clear_dec" by (simp add: gcm_inverse_def clear_enc_def clear_dec_def)
  have k: "sk_cm (demo_keys 1) \<or> sk_gcm (demo_keys 1)" by (simp add: sk_cm_def demo_keys_def)
  have a: "fst (srtp_accept srtp_replay_new (ucast (65535 :: u16)))" by (simp add: srtp_accept_def srtp_replay_new_def)
  have t: "0 < tot"
    using s by (auto simp: send_protected_def sk_cm_def demo_keys_def Let_def protect_aes_cm_sha1_80_def split: prod.splits)
  define srcs where "srcs = rx_empty\<lparr> rx_ssrc := 6, rx_valid := True \<rparr> # replicate 3 rx_empty"
  have r: "rx_source 6 (replicate MAX_RX_SSRC rx_empty) = (Some 0, srcs)"
    by (simp add: rx_source_def rx_empty_def srcs_def eval_nat_numeral)
  have e: "srtp_replay_new = rx_replay (srcs ! 0)" by (simp add: srcs_def rx_empty_def)
  have "96 AND 0x7F = (96 :: byte)" by simp
  with srtp_send_receive [OF _ _ g k _ s t _ r e rx_index_first a, of 0] s t show ?thesis by fastforce
qed

section \<open>Past the first 65536 packets\<close>

text \<open>The sender takes the 16-bit sequence number for the packet index, so the nonce of a packet comes back 65536 packets
  later under the same key.\<close>

lemma srtp_sender_repeats_nonce:
  assumes "sk_gcm k" and "length payload + 28 \<le> length buf" and "enc (sk_key k) (gcm_nonce (sk_salt k) ssrc (of_nat (n mod 65536)))
      (rtp_fixed_header pt m (of_nat n) ts ssrc) payload = (ct, tag)" and "length ct = length payload" "length tag = 16"
    and "payload \<noteq> []" "length payload \<le> TX_MTU"
  shows "\<exists>rest. send_protected aes sha1 enc k pt m (of_nat n) ts ssrc payload buf =
      (28 + length payload, rtp_fixed_header pt m (of_nat n) ts ssrc @ ct @ tag @ rest)"
proof -
  let ?hd = "rtp_fixed_header pt m (of_nat n) ts ssrc"
  let ?n = "12 + length payload"
  have i: "(ucast (of_nat n :: u16) :: u64) = of_nat (n mod 65536)"
    by (rule unat_eqI) (simp add: unat_ucast_widen unat_of_nat)
  have c: "\<not> sk_cm k" using assms(1) by (auto simp: sk_cm_def sk_gcm_def)
  have bl: "blit 12 payload (blit 0 ?hd buf) = (?hd @ payload) @ drop ?n buf" using assms(2) by (intro sent_packet) simp
  have f: "take 12 ((?hd @ payload) @ drop ?n buf) = ?hd" "bslice 12 ?n ((?hd @ payload) @ drop ?n buf) = payload"
    "blit ?n tag (blit 12 ct ((?hd @ payload) @ drop ?n buf)) = ?hd @ ct @ tag @ drop (?n + 16) buf"
    using assms(4,5) by (simp_all add: bslice_def blit_def)
  show ?thesis
    unfolding send_protected_def bl Let_def protect_aes128_gcm_def i f assms(3) prod.case
    using assms(1,2,6,7) c f(3) by (intro exI [of _ "drop (?n + 16) buf"]) simp
qed

text \<open>The receiver moves the rollover counter the wrong way: once it has seen the last sequence number of the first round, the
  packets that follow get an index far below it, and the replay window refuses every one of them.\<close>

lemma srtp_receiver_stops_at_wrap:
  assumes "sk_cm k \<or> sk_gcm k" and "sr_initialized r" "sr_highest r = 65535" and "unat (rh_seq h) < 0x8000"
  shows "fst (receive_protected aes sha1 dec k r h pkt) = None"
proof -
  have "estimate_roc 65535 (rh_seq h) = 0"
    using assms(4) by (auto simp: estimate_roc_def Let_def word_less_nat_alt)
  then have i: "rx_index r (rh_seq h) = ucast (rh_seq h)"
    using assms(2,3) by (simp add: rx_index_def srtp_highest_def packet_index_zero)
  have "\<not> 65535 < (ucast (rh_seq h) :: u64)" "64 \<le> 65535 - (ucast (rh_seq h) :: u64)"
    using assms(4) by (auto simp: word_less_nat_alt word_le_nat_alt unat_seq_index unat_sub)
  then have "srtp_accept r (ucast (rh_seq h)) = (False, r)"
    using assms(2,3) by (simp add: srtp_accept_def Let_def)
  then show ?thesis
    using assms(1) by (auto simp: receive_protected_def i Let_def split: prod.split option.split)
qed

end
