(* ===== verification/Rtcp.thy ===== *)
theory Rtcp
  imports Wave_Prelude
begin

text \<open>
  RTCP (\<open>modules/common/rtcp_core.rs\<close>): compound packets, report blocks and the packets built from them, receiver
  statistics, NTP time and the report interval. An \<open>i32\<close> is an integer where it is a field and a word
  read with \<^const>\<open>sint\<close> where the code computes with it; subtraction of such words wraps.
\<close>

unbundle bit_operations_syntax

section \<open>Compound packets\<close>

abbreviation (input) RTCP_PT_SR :: byte where "RTCP_PT_SR \<equiv> 200"
abbreviation (input) RTCP_PT_RR :: byte where "RTCP_PT_RR \<equiv> 201"
abbreviation (input) RTCP_PT_SDES :: byte where "RTCP_PT_SDES \<equiv> 202"
abbreviation (input) RTCP_PT_BYE :: byte where "RTCP_PT_BYE \<equiv> 203"
abbreviation (input) RTCP_PT_APP :: byte where "RTCP_PT_APP \<equiv> 204"
abbreviation (input) RTCP_PT_RTPFB :: byte where "RTCP_PT_RTPFB \<equiv> 205"
abbreviation (input) RTCP_PT_PSFB :: byte where "RTCP_PT_PSFB \<equiv> 206"

record rtcp_packet =
  rk_payload_type :: byte
  rk_count :: byte
  rk_at :: nat
  rk_len :: nat

datatype rtcp_reject = RejTruncated | RejVersion | RejOverrun | RejNotReportFirst | RejPaddingNotLast | RejTooMany

function compound_loop :: "bytes \<Rightarrow> nat \<Rightarrow> nat \<Rightarrow> rtcp_packet list \<Rightarrow> (rtcp_reject + nat) \<times> rtcp_packet list" where
  "compound_loop buf at n out =
     (if at + 4 \<le> length buf then
        let b0 = buf ! at in
        if drop_bit 6 b0 \<noteq> 2 then (Inl RejVersion, out)
        else
          let padding = (drop_bit 5 b0 AND 1 = 1); pt = buf ! (at + 1);
              words = be_val (bslice (at + 2) (at + 4) buf); len = (words + 1) * 4
          in
            if length buf < at + len then (Inl RejOverrun, out)
            else if n = 0 \<and> \<not> (pt = RTCP_PT_SR \<or> pt = RTCP_PT_RR) then (Inl RejNotReportFirst, out)
            else if padding \<and> at + len \<noteq> length buf then (Inl RejPaddingNotLast, out)
            else if n = length out then (Inl RejTooMany, out)
            else compound_loop buf (at + len) (n + 1)
                   (out[n := \<lparr> rk_payload_type = pt, rk_count = b0 AND 0x1F, rk_at = at, rk_len = len \<rparr>])
      else if at \<noteq> length buf then (Inl RejTruncated, out)
      else (Inr n, out))"
  by pat_completeness auto
termination by (relation "measure (\<lambda>(buf, at, n, out). length buf - at)") auto

declare compound_loop.simps [simp del]

definition rtcp_parse_compound :: "bytes \<Rightarrow> rtcp_packet list \<Rightarrow> (rtcp_reject + nat) \<times> rtcp_packet list" where
  "rtcp_parse_compound buf out =
     (if length buf < 4 \<or> length buf mod 4 \<noteq> 0 then (Inl RejTruncated, out) else compound_loop buf 0 0 out)"

definition rtcp_is_plausible :: "bytes \<Rightarrow> bool" where
  "rtcp_is_plausible buf =
     (if length buf < 4 then False
      else if drop_bit 6 (buf ! 0) \<noteq> 2 then False
      else RTCP_PT_SR \<le> buf ! 1 \<and> buf ! 1 \<le> RTCP_PT_APP)"

section \<open>Report blocks\<close>

record rtcp_report_block =
  rb_ssrc :: u32
  rb_fraction_lost :: byte
  rb_cumulative_lost :: int
  rb_extended_highest_seq :: u32
  rb_jitter :: u32
  rb_last_sr :: u32
  rb_delay_since_last_sr :: u32

definition clamp_lost :: "int \<Rightarrow> int" where
  "clamp_lost v = max (- 0x800000) (min 0x7FFFFF v)"

definition rtcp_write_report_block :: "rtcp_report_block \<Rightarrow> nat writer" where
  "rtcp_write_report_block b out =
     (if length out < 24 then (None, out)
      else
        let c = (of_int (clamp_lost (rb_cumulative_lost b)) :: u32) AND 0x00FFFFFF in
        (Some 24,
         blit 0 (be_bytes 4 (unat (rb_ssrc b)) @ [rb_fraction_lost b, ucast (drop_bit 16 c), ucast (drop_bit 8 c), ucast c] @
           be_bytes 4 (unat (rb_extended_highest_seq b)) @ be_bytes 4 (unat (rb_jitter b)) @
           be_bytes 4 (unat (rb_last_sr b)) @ be_bytes 4 (unat (rb_delay_since_last_sr b))) out))"

definition rtcp_parse_report_block :: "bytes \<Rightarrow> nat \<Rightarrow> rtcp_report_block option" where
  "rtcp_parse_report_block buf at =
     (if length buf < at + 24 then None
      else
        let b = bslice at (at + 24) buf;
            raw = push_bit 16 (ucast (b ! 5)) OR push_bit 8 (ucast (b ! 6)) OR ucast (b ! 7) :: u32
        in Some \<lparr>
          rb_ssrc = of_nat (be_val (bslice 0 4 b)), rb_fraction_lost = b ! 4,
          rb_cumulative_lost = (if raw AND 0x00800000 \<noteq> 0 then sint (raw OR 0xFF000000) else sint raw),
          rb_extended_highest_seq = of_nat (be_val (bslice 8 12 b)), rb_jitter = of_nat (be_val (bslice 12 16 b)),
          rb_last_sr = of_nat (be_val (bslice 16 20 b)), rb_delay_since_last_sr = of_nat (be_val (bslice 20 24 b)) \<rparr>)"

record rtcp_sender_info =
  si_ntp :: u64
  si_rtp_timestamp :: u32
  si_packet_count :: u32
  si_octet_count :: u32

section \<open>Building packets\<close>

definition write_head :: "byte \<Rightarrow> nat \<Rightarrow> u32 \<Rightarrow> nat \<Rightarrow> nat writer" where
  "write_head pt cnt ssrc body_len out =
     (let total = 8 + body_len in
      if length out < total \<or> 31 < cnt then (None, out)
      else (Some 8, blit 0 ([0x80 OR (of_nat cnt AND 0x1F), pt] @ be_bytes 2 (unat (of_nat (total div 4 - 1) :: u16)) @
                            be_bytes 4 (unat ssrc)) out))"

fun write_blocks :: "rtcp_report_block list \<Rightarrow> nat \<Rightarrow> nat writer" where
  "write_blocks [] at out = (Some at, out)"
| "write_blocks (b # bs) at out = wbind (wtail at (rtcp_write_report_block b)) (\<lambda>n. write_blocks bs (at + n)) out"

definition rtcp_write_rr :: "u32 \<Rightarrow> rtcp_report_block list \<Rightarrow> nat writer" where
  "rtcp_write_rr ssrc blocks =
     wbind (write_head RTCP_PT_RR (length blocks) ssrc (length blocks * 24)) (write_blocks blocks)"

definition rtcp_write_sr :: "u32 \<Rightarrow> rtcp_sender_info \<Rightarrow> rtcp_report_block list \<Rightarrow> nat writer" where
  "rtcp_write_sr ssrc info blocks =
     wbind (write_head RTCP_PT_SR (length blocks) ssrc (20 + length blocks * 24))
       (\<lambda>at out.
          if length out < at + 20 then (None, out)
          else write_blocks blocks (at + 20)
                 (blit at (be_bytes 8 (unat (si_ntp info)) @ be_bytes 4 (unat (si_rtp_timestamp info)) @
                           be_bytes 4 (unat (si_packet_count info)) @ be_bytes 4 (unat (si_octet_count info))) out))"

definition rtcp_parse_sender_info :: "bytes \<Rightarrow> nat \<Rightarrow> rtcp_sender_info option" where
  "rtcp_parse_sender_info buf at =
     (if length buf < at + 28 then None
      else
        let s = bslice (at + 8) (at + 28) buf
        in Some \<lparr> si_ntp = of_nat (be_val (bslice 0 8 s)), si_rtp_timestamp = of_nat (be_val (bslice 8 12 s)),
                  si_packet_count = of_nat (be_val (bslice 12 16 s)), si_octet_count = of_nat (be_val (bslice 16 20 s)) \<rparr>)"

definition rtcp_packet_ssrc :: "bytes \<Rightarrow> nat \<Rightarrow> u32 option" where
  "rtcp_packet_ssrc buf at = (if length buf < at + 8 then None else Some (of_nat (be_val (bslice (at + 4) (at + 8) buf))))"

definition rtcp_first_block_at :: "byte \<Rightarrow> nat \<Rightarrow> nat" where
  "rtcp_first_block_at payload_type at = at + 8 + (if payload_type = RTCP_PT_SR then 20 else 0)"

definition rtcp_write_bye :: "u32 \<Rightarrow> nat writer" where
  "rtcp_write_bye ssrc out =
     (if length out < 8 then (None, out)
      else (Some 8, blit 0 ([0x81, RTCP_PT_BYE] @ be_bytes 2 1 @ be_bytes 4 (unat ssrc)) out))"

definition rtcp_write_nack :: "u32 \<Rightarrow> u32 \<Rightarrow> u16 \<Rightarrow> u16 \<Rightarrow> nat writer" where
  "rtcp_write_nack sender_ssrc media_ssrc pid blp out =
     (if length out < 16 then (None, out)
      else (Some 16, blit 0 ([0x81, RTCP_PT_RTPFB] @ be_bytes 2 3 @ be_bytes 4 (unat sender_ssrc) @ be_bytes 4 (unat media_ssrc) @
                             be_bytes 2 (unat pid) @ be_bytes 2 (unat blp)) out))"

definition rtcp_write_pli :: "u32 \<Rightarrow> u32 \<Rightarrow> nat writer" where
  "rtcp_write_pli sender_ssrc media_ssrc out =
     (if length out < 12 then (None, out)
      else (Some 12, blit 0 ([0x81, RTCP_PT_PSFB] @ be_bytes 2 2 @ be_bytes 4 (unat sender_ssrc) @ be_bytes 4 (unat media_ssrc)) out))"

definition rtcp_parse_nack :: "bytes \<Rightarrow> nat \<Rightarrow> (u32 \<times> u32 \<times> u16 \<times> u16) option" where
  "rtcp_parse_nack buf at =
     (if length buf < at + 16 then None
      else
        let p = bslice at (at + 16) buf in
        if p ! 1 \<noteq> RTCP_PT_RTPFB \<or> p ! 0 AND 0x1F \<noteq> 1 \<or> be_val (bslice 2 4 p) \<noteq> 3 then None
        else Some (of_nat (be_val (bslice 4 8 p)), of_nat (be_val (bslice 8 12 p)),
                   of_nat (be_val (bslice 12 14 p)), of_nat (be_val (bslice 14 16 p))))"

definition rtcp_packet_is_pli :: "bytes \<Rightarrow> nat \<Rightarrow> bool" where
  "rtcp_packet_is_pli buf at =
     (if length buf < at + 12 then False
      else
        let p = bslice at (at + 12) buf
        in p ! 1 = RTCP_PT_PSFB \<and> p ! 0 AND 0x1F = 1 \<and> be_val (bslice 2 4 p) = 2)"

definition rtcp_write_sdes_cname :: "u32 \<Rightarrow> bytes \<Rightarrow> nat writer" where
  "rtcp_write_sdes_cname ssrc cname out =
     (if cname = [] \<or> 255 < length cname then (None, out)
      else
        let unpadded = 4 + 2 + length cname + 1; total = 4 + (unpadded + 3) div 4 * 4 in
        if length out < total then (None, out)
        else
          (Some total,
           blit 0 ([0x81, RTCP_PT_SDES] @ be_bytes 2 (unat (of_nat (total div 4 - 1) :: u16)) @ be_bytes 4 (unat ssrc) @
             [1, of_nat (length cname)] @ cname) (blit 0 (replicate total 0) out)))"

section \<open>Receiver statistics\<close>

record rtcp_receiver_stats =
  rs_ssrc :: u32
  rs_cycles :: u32
  rs_base_seq :: u32
  rs_max_seq :: u16
  rs_received :: u32
  rs_expected_prior :: u32
  rs_received_prior :: u32
  rs_jitter_x16 :: u32
  rs_last_transit :: u32
  rs_started :: bool

definition stats_new :: "u32 \<Rightarrow> rtcp_receiver_stats" where
  "stats_new ssrc = \<lparr> rs_ssrc = ssrc, rs_cycles = 0, rs_base_seq = 0, rs_max_seq = 0, rs_received = 0, rs_expected_prior = 0,
     rs_received_prior = 0, rs_jitter_x16 = 0, rs_last_transit = 0, rs_started = False \<rparr>"

definition extended_max :: "rtcp_receiver_stats \<Rightarrow> u32" where
  "extended_max s = rs_cycles s OR ucast (rs_max_seq s)"

definition expected_packets :: "rtcp_receiver_stats \<Rightarrow> u32" where
  "expected_packets s = extended_max s - rs_base_seq s + 1"

definition cumulative_lost :: "rtcp_receiver_stats \<Rightarrow> int" where
  "cumulative_lost s = sint (expected_packets s - rs_received s)"

definition stats_jitter :: "rtcp_receiver_stats \<Rightarrow> u32" where
  "stats_jitter s = drop_bit 4 (rs_jitter_x16 s)"

definition on_packet :: "rtcp_receiver_stats \<Rightarrow> u16 \<Rightarrow> u32 \<Rightarrow> u32 \<Rightarrow> rtcp_receiver_stats" where
  "on_packet s sq rtp_timestamp arrival =
     (let transit = arrival - rtp_timestamp in
      if \<not> rs_started s then
        s\<lparr> rs_started := True, rs_base_seq := ucast sq, rs_max_seq := sq, rs_received := 1, rs_last_transit := transit \<rparr>
      else
        let d = of_int \<bar>sint (transit - rs_last_transit s)\<bar> :: u32 in
        s\<lparr> rs_received := rs_received s + 1,
           rs_cycles := (if sq < rs_max_seq s \<and> 0x8000 < rs_max_seq s - sq then rs_cycles s + 0x10000 else rs_cycles s),
           rs_max_seq := (if rs_max_seq s < sq \<or> sq - rs_max_seq s < 0x8000 then sq else rs_max_seq s),
           rs_last_transit := transit,
           rs_jitter_x16 := rs_jitter_x16 s + (d - drop_bit 4 (rs_jitter_x16 s)) \<rparr>)"

definition take_fraction_lost :: "rtcp_receiver_stats \<Rightarrow> byte \<times> rtcp_receiver_stats" where
  "take_fraction_lost s =
     (let expd = expected_packets s;
          expected_interval = expd - rs_expected_prior s;
          received_interval = rs_received s - rs_received_prior s;
          s' = s\<lparr> rs_expected_prior := expd, rs_received_prior := rs_received s \<rparr>;
          lost_interval = expected_interval - received_interval
      in
        if expected_interval = 0 \<or> sint lost_interval \<le> 0 then (0, s')
        else
          let (lost, ei) = (if 2 ^ 23 \<le> unat lost_interval then (drop_bit 8 lost_interval, drop_bit 8 expected_interval)
                            else (lost_interval, expected_interval))
          in (ucast (min (push_bit 8 lost div max ei 1) 255), s'))"

definition report_block :: "rtcp_receiver_stats \<Rightarrow> u32 \<Rightarrow> u32 \<Rightarrow> rtcp_report_block \<times> rtcp_receiver_stats" where
  "report_block s last_sr delay =
     (case take_fraction_lost s of (f, s') \<Rightarrow>
        (\<lparr> rb_ssrc = rs_ssrc s', rb_fraction_lost = f, rb_cumulative_lost = cumulative_lost s', rb_extended_highest_seq = extended_max s',
           rb_jitter = stats_jitter s', rb_last_sr = last_sr, rb_delay_since_last_sr = delay \<rparr>, s'))"

section \<open>Time\<close>

definition ntp_middle_32 :: "u64 \<Rightarrow> u32" where
  "ntp_middle_32 ntp = ucast (drop_bit 16 ntp)"

definition rtcp_round_trip :: "u32 \<Rightarrow> rtcp_report_block \<Rightarrow> u32 option" where
  "rtcp_round_trip now b =
     (if rb_last_sr b = 0 then None
      else if now < rb_delay_since_last_sr b then None
      else if now - rb_delay_since_last_sr b < rb_last_sr b then None
      else Some (now - rb_delay_since_last_sr b - rb_last_sr b))"

definition rtcp_interval_ms :: "u32 \<Rightarrow> u32 \<Rightarrow> bool \<Rightarrow> u32 \<Rightarrow> u32" where
  "rtcp_interval_ms members0 senders0 we_sent bandwidth_bps =
     (let members = max members0 1; senders = min senders0 members; rtcp_bw = bandwidth_bps div 20;
          (n, bw) = (if 0 < senders \<and> sat_mul32 senders 4 \<le> members then
                       if we_sent then (senders, rtcp_bw div 4) else (members - senders, rtcp_bw - rtcp_bw div 4)
                     else (members, rtcp_bw))
      in
        if bw = 0 then 5000
        else max (sat_mul32 (sat_mul32 800 n) 1000 div max bw 1) 5000)"

text \<open>The products fit 64 bits, so the saturating multiplications do not saturate.\<close>

definition rtcp_randomise_interval :: "u32 \<Rightarrow> u32 \<Rightarrow> u32" where
  "rtcp_randomise_interval interval_ms r =
     (let factor = 32768 + ucast (drop_bit 16 r) :: u64;
          scaled = drop_bit 16 (ucast interval_ms * factor);
          corrected = drop_bit 16 (scaled * 53794)
      in max (ucast (min corrected 0xFFFFFFFF)) 1)"

definition ms_to_ntp32 :: "u32 \<Rightarrow> u32" where
  "ms_to_ntp32 ms = ms div 1000 * 65536 + (ms mod 1000) * 65536 div 1000"

definition ms_to_rtp_units :: "u32 \<Rightarrow> u32 \<Rightarrow> u32" where
  "ms_to_rtp_units ms clock_rate_hz = ms div 1000 * clock_rate_hz + (ms mod 1000) * clock_rate_hz div 1000"

definition ntp32_to_ms :: "u32 \<Rightarrow> u32" where
  "ntp32_to_ms units = drop_bit 16 units * 1000 + drop_bit 16 ((units AND 0xFFFF) * 1000)"

definition ms_to_ntp64 :: "u64 \<Rightarrow> u32 \<Rightarrow> u64" where
  "ms_to_ntp64 ms epoch_offset_s =
     (let ms32 = ucast ms :: u32; secs = ms32 div 1000 + epoch_offset_s; rm = ms32 mod 1000;
          frac = push_bit 10 (push_bit 22 rm div 1000)
      in push_bit 32 (ucast secs) OR ucast frac)"

section \<open>The report record\<close>

definition write_rtcp_report_record :: "rtcp_report_block \<Rightarrow> u32 option \<Rightarrow> nat writer" where
  "write_rtcp_report_record b rtt_ms out =
     (if length out < 24 then (None, out)
      else
        (Some 24,
         blit 0 (le_bytes 4 (unat (rb_ssrc b)) @ [rb_fraction_lost b, 0, 0, 0] @
           le_bytes 4 (unat (of_int (rb_cumulative_lost b) :: u32)) @ le_bytes 4 (unat (rb_jitter b)) @
           (case rtt_ms of None \<Rightarrow> [0, 0, 0, 0, 0, 0, 0, 0] | Some v \<Rightarrow> le_bytes 4 (unat v) @ [1, 0, 0, 0])) out))"

definition parse_rtcp_report_record :: "bytes \<Rightarrow> (u32 \<times> byte \<times> int \<times> u32 \<times> u32 option) option" where
  "parse_rtcp_report_record buf =
     (if length buf \<noteq> 24 then None
      else
        Some (of_nat (le_val (bslice 0 4 buf)), buf ! 4, sint (of_nat (le_val (bslice 8 12 buf)) :: u32),
              of_nat (le_val (bslice 12 16 buf)),
              (if buf ! 20 \<noteq> 0 then Some (of_nat (le_val (bslice 16 20 buf))) else None)))"

section \<open>A compound is accepted exactly when it is a sequence of packets\<close>

text \<open>Bytes whose own length field covers them, and a packet: such bytes that hold more than the header word.\<close>

definition rtcp_span :: "bytes \<Rightarrow> bool" where
  "rtcp_span p \<longleftrightarrow> 4 \<le> length p \<and> drop_bit 6 (p ! 0) = 2 \<and> length p = (be_val (bslice 2 4 p) + 1) * 4"

definition rtcp_unit :: "bytes \<Rightarrow> bool" where
  "rtcp_unit p \<longleftrightarrow> 8 \<le> length p \<and> drop_bit 6 (p ! 0) = 2 \<and> length p = (be_val (bslice 2 4 p) + 1) * 4"

lemma rtcp_unit_span: "rtcp_unit p \<longleftrightarrow> rtcp_span p \<and> 8 \<le> length p"
  by (auto simp: rtcp_unit_def rtcp_span_def)

definition rtcp_padded :: "bytes \<Rightarrow> bool" where
  "rtcp_padded p \<longleftrightarrow> drop_bit 5 (p ! 0) AND 1 = 1"

text \<open>RFC 3550 6.1: every packet has its own length, the first is a report and only the last is padded.\<close>

definition rtcp_compound :: "bytes list \<Rightarrow> bool" where
  "rtcp_compound ps \<longleftrightarrow> ps \<noteq> [] \<and> list_all rtcp_unit ps \<and> (hd ps ! 1 = RTCP_PT_SR \<or> hd ps ! 1 = RTCP_PT_RR) \<and>
     list_all (\<lambda>p. \<not> rtcp_padded p) (butlast ps)"

fun located :: "nat \<Rightarrow> bytes list \<Rightarrow> rtcp_packet list" where
  "located at [] = []"
| "located at (p # ps) =
     \<lparr> rk_payload_type = p ! 1, rk_count = p ! 0 AND 0x1F, rk_at = at, rk_len = length p \<rparr> # located (at + length p) ps"

lemma length_located [simp]: "length (located at ps) = length ps"
  by (induction ps arbitrary: at) simp_all

text \<open>One turn of the loop, seen from the bytes still ahead.\<close>

lemma compound_loop_packet:
  assumes "rtcp_span p" and "n = 0 \<longrightarrow> p ! 1 = RTCP_PT_SR \<or> p ! 1 = RTCP_PT_RR" and "rtcp_padded p \<longrightarrow> r = []" and "n < length out"
  shows "compound_loop (a @ p @ r) (length a) n out =
    compound_loop ((a @ p) @ r) (length (a @ p)) (n + 1)
      (out[n := \<lparr> rk_payload_type = p ! 1, rk_count = p ! 0 AND 0x1F, rk_at = length a, rk_len = length p \<rparr>])"
proof -
  have u: "4 \<le> length p" "drop_bit 6 (p ! 0) = 2" "(be_val (bslice 2 4 p) + 1) * 4 = length p"
    using assms(1) by (auto simp: rtcp_span_def)
  have f: "(a @ p @ r) ! length a = p ! 0" "(a @ p @ r) ! (length a + 1) = p ! 1" "bslice (length a + 2) (length a + 4) (a @ p @ r) = bslice 2 4 p"
    using u(1) by (auto simp: nth_append bslice_def)
  show ?thesis
    unfolding compound_loop.simps [of "a @ p @ r" "length a"] f u(2,3) Let_def
    using assms(2-4) u(1) by (auto simp: rtcp_padded_def)
qed

lemma compound_loop_complete:
  assumes "list_all rtcp_span ps" and "list_all (\<lambda>p. \<not> rtcp_padded p) (butlast ps)"
    and "n = 0 \<Longrightarrow> ps \<noteq> [] \<Longrightarrow> hd ps ! 1 = RTCP_PT_SR \<or> hd ps ! 1 = RTCP_PT_RR" and "n + length ps \<le> length out"
  shows "compound_loop (a @ concat ps) (length a) n out = (Inr (n + length ps), blit n (located (length a) ps) out)"
  using assms
proof (induction ps arbitrary: a n out)
  case Nil
  show ?case by (subst compound_loop.simps) simp
next
  case (Cons p ps)
  have pad: "rtcp_padded p \<longrightarrow> concat ps = []" using Cons.prems(2) by (cases ps) auto
  let ?d = "\<lparr> rk_payload_type = p ! 1, rk_count = p ! 0 AND 0x1F, rk_at = length a, rk_len = length p \<rparr>"
  have "compound_loop (a @ concat (p # ps)) (length a) n out = compound_loop ((a @ p) @ concat ps) (length (a @ p)) (n + 1) (out[n := ?d])"
    using compound_loop_packet [of p n "concat ps" out a] Cons.prems pad by simp
  also have "\<dots> = (Inr (n + 1 + length ps), blit (n + 1) (located (length (a @ p)) ps) (out[n := ?d]))"
    using Cons.prems by (intro Cons.IH) (auto split: if_splits)
  also have "blit (n + 1) (located (length (a @ p)) ps) (out[n := ?d]) = blit n (located (length a) (p # ps)) out"
    using Cons.prems(4) blit_blit_append [of n "[?d]" "located (length (a @ p)) ps" out] by (simp add: blit_single)
  finally show ?case by simp
qed

lemma compound_loop_sound:
  assumes "compound_loop (a @ b) (length a) n out = (Inr m, out')" and "n \<le> length out"
  shows "\<exists>ps. b = concat ps \<and> m = n + length ps \<and> m \<le> length out \<and> list_all rtcp_span ps \<and>
    (n = 0 \<longrightarrow> ps \<noteq> [] \<longrightarrow> hd ps ! 1 = RTCP_PT_SR \<or> hd ps ! 1 = RTCP_PT_RR) \<and> list_all (\<lambda>p. \<not> rtcp_padded p) (butlast ps)"
  using assms
proof (induction b arbitrary: a n out rule: length_induct)
  case (1 b)
  show ?case
  proof (cases "4 \<le> length b")
    case False
    with "1.prems"(1) have "b = []" "m = n" by (auto simp: compound_loop.simps [of "a @ b" "length a"] split: if_splits)
    with "1.prems"(2) show ?thesis by (intro exI [of _ "[]"]) simp
  next
    case True
    define k where "k = (be_val (bslice 2 4 b) + 1) * 4"
    define p where "p = take k b"
    have f: "(a @ b) ! length a = b ! 0" "(a @ b) ! (length a + 1) = b ! 1" "bslice (length a + 2) (length a + 4) (a @ b) = bslice 2 4 b"
      using True by (auto simp: nth_append bslice_def)
    have c: "drop_bit 6 (b ! 0) = 2" "k \<le> length b" "n = 0 \<longrightarrow> b ! 1 = RTCP_PT_SR \<or> b ! 1 = RTCP_PT_RR"
      "drop_bit 5 (b ! 0) AND 1 = 1 \<longrightarrow> k = length b" "n < length out"
      using "1.prems" True unfolding compound_loop.simps [of "a @ b" "length a"] f Let_def k_def [symmetric]
      by (auto split: if_splits)
    have k4: "4 \<le> k" by (simp add: k_def)
    have pb: "p ! 0 = b ! 0" "p ! 1 = b ! 1" "length p = k" "bslice 2 4 p = bslice 2 4 b"
      using k4 c(2) by (auto simp: p_def bslice_def drop_take)
    have u: "rtcp_span p" using pb k4 c(1) by (simp add: rtcp_span_def k_def)
    have pd: "rtcp_padded p \<longrightarrow> drop k b = []" using c(4) pb by (simp add: rtcp_padded_def)
    have b: "b = p @ drop k b" by (simp add: p_def)
    let ?o = "out[n := \<lparr> rk_payload_type = p ! 1, rk_count = p ! 0 AND 0x1F, rk_at = length a, rk_len = length p \<rparr>]"
    have "compound_loop (a @ b) (length a) n out = compound_loop ((a @ p) @ drop k b) (length (a @ p)) (n + 1) ?o"
      using compound_loop_packet [OF u _ pd c(5), of a] c(3) pb b by simp
    with "1.prems"(1) have "compound_loop ((a @ p) @ drop k b) (length (a @ p)) (n + 1) ?o = (Inr m, out')" by simp
    moreover have "length (drop k b) < length b" "n + 1 \<le> length ?o" using k4 True c(5) by simp_all
    ultimately obtain ps where ps: "drop k b = concat ps" "m = n + 1 + length ps" "m \<le> length out" "list_all rtcp_span ps"
      "list_all (\<lambda>p. \<not> rtcp_padded p) (butlast ps)"
      using "1.IH" by (metis length_list_update)
    have np: "ps \<noteq> [] \<longrightarrow> \<not> rtcp_padded p"
    proof
      assume "ps \<noteq> []"
      then have "concat ps \<noteq> []" using ps(4) by (cases ps) (auto simp: rtcp_span_def)
      with pd ps(1) show "\<not> rtcp_padded p" by auto
    qed
    show ?thesis
      using ps u np c(3) pb b by (intro exI [of _ "p # ps"]) auto
  qed
qed

lemma rtcp_units_length: "list_all rtcp_span ps \<Longrightarrow> 4 dvd length (concat ps) \<and> (ps \<noteq> [] \<longrightarrow> 4 \<le> length (concat ps))"
  by (induction ps) (auto simp: rtcp_span_def)

lemma located_long: "list_all (\<lambda>p. 8 \<le> rk_len p) (located at ps) \<longleftrightarrow> list_all (\<lambda>p. 8 \<le> length p) ps"
  by (induction ps arbitrary: at) simp_all

lemma rtcp_unit_spans: "list_all rtcp_unit ps \<longleftrightarrow> list_all rtcp_span ps \<and> list_all (\<lambda>p. 8 \<le> length p) ps"
  by (auto simp: rtcp_unit_span list_all_iff)

text \<open>C30. A datagram is taken as RTCP, with no packet shorter than the eight bytes of the shortest legal one,
  exactly when it is a compound of such packets: packets of at least eight bytes whose own lengths fill it, a
  report first, padding only at the end, and no more of them than the caller has room for. Each packet is
  then reported where it is and as long as it is. (Nothing is said of datagrams with a four-byte packet.)\<close>

theorem rtcp_compound_exact:
  "rtcp_parse_compound buf out = (Inr n, out') \<and> list_all (\<lambda>p. 8 \<le> rk_len p) (take n out') \<longleftrightarrow>
     (\<exists>ps. buf = concat ps \<and> rtcp_compound ps \<and> n = length ps \<and> n \<le> length out \<and> out' = blit 0 (located 0 ps) out)"
proof
  assume "rtcp_parse_compound buf out = (Inr n, out') \<and> list_all (\<lambda>p. 8 \<le> rk_len p) (take n out')"
  then have p: "rtcp_parse_compound buf out = (Inr n, out')" and long: "list_all (\<lambda>p. 8 \<le> rk_len p) (take n out')" by simp_all
  then have l: "compound_loop ([] @ buf) (length ([] :: bytes)) 0 out = (Inr n, out')" and b: "4 \<le> length buf"
    by (auto simp: rtcp_parse_compound_def split: if_splits)
  from compound_loop_sound [OF l] obtain ps where ps: "buf = concat ps" "n = length ps" "n \<le> length out" "list_all rtcp_span ps"
    "ps \<noteq> [] \<longrightarrow> hd ps ! 1 = RTCP_PT_SR \<or> hd ps ! 1 = RTCP_PT_RR" "list_all (\<lambda>p. \<not> rtcp_padded p) (butlast ps)"
    by auto
  have ne: "ps \<noteq> []" using b ps(1) by auto
  have "compound_loop ([] @ concat ps) (length ([] :: bytes)) 0 out = (Inr (0 + length ps), blit 0 (located (length ([] :: bytes)) ps) out)"
    using ps by (intro compound_loop_complete) auto
  then have o: "out' = blit 0 (located 0 ps) out" using l ps(1) by simp
  then have "list_all rtcp_unit ps" using long ps(2-4) located_long [of 0 ps] by (simp add: rtcp_unit_spans blit_def)
  with o ps ne show "\<exists>ps. buf = concat ps \<and> rtcp_compound ps \<and> n = length ps \<and> n \<le> length out \<and> out' = blit 0 (located 0 ps) out"
    by (intro exI [of _ ps]) (simp add: rtcp_compound_def)
next
  assume "\<exists>ps. buf = concat ps \<and> rtcp_compound ps \<and> n = length ps \<and> n \<le> length out \<and> out' = blit 0 (located 0 ps) out"
  then obtain ps where ps: "buf = concat ps" "rtcp_compound ps" "n = length ps" "n \<le> length out" "out' = blit 0 (located 0 ps) out" by blast
  have sp: "list_all rtcp_span ps" "list_all (\<lambda>p. 8 \<le> length p) ps" "ps \<noteq> []"
    using ps(2) by (simp_all add: rtcp_compound_def rtcp_unit_spans)
  have c: "compound_loop ([] @ concat ps) (length ([] :: bytes)) 0 out = (Inr (0 + length ps), blit 0 (located (length ([] :: bytes)) ps) out)"
    using ps sp(1) by (intro compound_loop_complete) (auto simp: rtcp_compound_def)
  have "4 dvd length (concat ps)" "4 \<le> length (concat ps)" using sp rtcp_units_length [of ps] by auto
  with c ps have "rtcp_parse_compound buf out = (Inr n, out')" by (auto simp: rtcp_parse_compound_def)
  then show "rtcp_parse_compound buf out = (Inr n, out') \<and> list_all (\<lambda>p. 8 \<le> rk_len p) (take n out')"
    using ps(3-5) sp(2) located_long [of 0 ps] by (simp add: blit_def)
qed

text \<open>A packet of four bytes is taken as well.\<close>

theorem rtcp_four_byte_packet:
  assumes "out \<noteq> []"
  shows "fst (rtcp_parse_compound [0x80, RTCP_PT_RR, 0, 0] out) = Inr 1"
  using compound_loop_complete [of "[[0x80, RTCP_PT_RR, 0, 0]]" 0 out "[]"] assms
  by (cases out) (simp_all add: rtcp_parse_compound_def rtcp_span_def bslice_def)

section \<open>Reports are read back\<close>

definition block_wire :: "rtcp_report_block \<Rightarrow> bytes" where
  "block_wire b =
     be_bytes 4 (unat (rb_ssrc b)) @ [rb_fraction_lost b] @ be_bytes 3 (unat ((of_int (clamp_lost (rb_cumulative_lost b)) :: u32) AND 0x00FFFFFF)) @
     be_bytes 4 (unat (rb_extended_highest_seq b)) @ be_bytes 4 (unat (rb_jitter b)) @
     be_bytes 4 (unat (rb_last_sr b)) @ be_bytes 4 (unat (rb_delay_since_last_sr b))"

lemma length_block_wire [simp]: "length (block_wire b) = 24"
  by (simp add: block_wire_def)

lemma lost_bytes: "[ucast (drop_bit 16 c), ucast (drop_bit 8 c), ucast c] = be_bytes 3 (unat (c :: u32))"
proof -
  have b: "(ucast (drop_bit k c) :: byte) = of_nat (unat c div 2 ^ k)" for k
    by (rule unat_eqI) (simp add: unat_ucast_mod unat_drop_bit unat_of_nat)
  have "(ucast c :: byte) = of_nat (unat c)" using b [of 0] by simp
  with b [of 16] b [of 8] show ?thesis by (simp add: numeral_3_eq_3)
qed

lemma write_report_block_eq:
  "rtcp_write_report_block b out = (if length out < 24 then (None, out) else (Some 24, blit 0 (block_wire b) out))"
proof -
  have "[f, ucast (drop_bit 16 c), ucast (drop_bit 8 c), ucast c] = [f] @ be_bytes 3 (unat c)" for f :: byte and c :: u32
    by (simp only: lost_bytes [symmetric] append_Cons append_Nil)
  then show ?thesis
    unfolding rtcp_write_report_block_def block_wire_def Let_def by (simp only: append_assoc)
qed

lemma and_24: "(x :: u32) AND 0x00FFFFFF = take_bit 24 x"
  by (simp add: take_bit_eq_mask mask_eq_exp_minus_1)

lemma raw_lost:
  "unat (push_bit 16 (ucast (a :: byte)) OR push_bit 8 (ucast b) OR ucast c :: u32) = be_val [a, b, c]"
proof -
  have l: "unat a < 256" "unat b < 256" "unat c < 256" by simp_all
  have "unat (push_bit 8 (ucast b) OR ucast c :: u32) = unat b * 2 ^ 8 + unat c"
    using l(2,3) unat_push_or [of "ucast b :: u32" 8 "ucast c"] by (simp add: unat_ucast_widen del: byte_unat_less)
  then show ?thesis
    using l unat_push_or [of "ucast a :: u32" 16 "push_bit 8 (ucast b) OR ucast c"] by (simp add: unat_ucast_widen del: byte_unat_less)
qed

lemma sign_extend_24:
  assumes "- 0x800000 \<le> v" "v \<le> 0x7FFFFF"
  defines "raw \<equiv> take_bit 24 (of_int v :: u32)"
  shows "(if raw AND 0x00800000 \<noteq> 0 then sint (raw OR 0xFF000000) else sint raw) = v"
proof -
  have s: "signed_take_bit 23 v = v" using assms(1,2) by (intro signed_take_bit_int_eq_self) simp_all
  have neg: "bit v 23 \<longleftrightarrow> v < 0" using signed_take_bit_negative_iff [of 23 v] s by simp
  have high: "bit v n \<longleftrightarrow> v < 0" if "23 \<le> n" for n
    using bit_signed_take_bit_iff [of 23 v n] s neg that by (simp add: min_def split: if_splits)
  have low: "n < 24" if "\<not> v < 0" "bit v n" for n
    using high [of n] that by (cases "23 \<le> n") auto
  have m: "(0xFF000000 :: u32) = push_bit 24 (mask 8)" "(0xFF000000 :: int) = push_bit 24 (mask 8)"
    by (simp_all add: mask_eq_exp_minus_1)
  have mb: "bit (0xFF000000 :: u32) n \<longleftrightarrow> 24 \<le> n \<and> n < 32" "bit (0xFF000000 :: int) n \<longleftrightarrow> 24 \<le> n \<and> n < 32" for n
    unfolding m bit_push_bit_iff bit_mask_iff by auto
  have "(0x00800000 :: u32) = push_bit 23 1" by simp
  then have t: "raw AND 0x00800000 \<noteq> 0 \<longleftrightarrow> v < 0"
    using bit_iff_and_push_bit_not_eq_0 [of raw 23] neg by (simp add: raw_def bit_take_bit_iff bit_word_of_int_iff)
  have v: "sint (of_int v :: u32) = v"
    unfolding sint_sbintrunc' using assms(1,2) by (intro signed_take_bit_int_eq_self) simp_all
  show ?thesis
  proof (cases "v < 0")
    case True
    have "raw OR 0xFF000000 = of_int v"
      by (rule bit_word_eqI) (use True high in \<open>auto simp: raw_def bit_or_iff bit_take_bit_iff bit_word_of_int_iff mb not_less\<close>)
    with True t v show ?thesis by simp
  next
    case False
    have "raw = of_int v"
      by (rule bit_word_eqI) (use False low in \<open>auto simp: raw_def bit_take_bit_iff bit_word_of_int_iff not_less\<close>)
    with False t v show ?thesis by simp
  qed
qed

lemma parse_block_wire:
  assumes "at = length a"
  shows "rtcp_parse_report_block (a @ block_wire b @ r) at = Some (b\<lparr> rb_cumulative_lost := clamp_lost (rb_cumulative_lost b) \<rparr>)"
proof -
  define c where "c = (of_int (clamp_lost (rb_cumulative_lost b)) :: u32)"
  have w: "bslice at (at + 24) (a @ block_wire b @ r) = block_wire b" using assms by (simp add: bslice_def)
  have f: "bslice 0 4 (block_wire b) = be_bytes 4 (unat (rb_ssrc b))" "block_wire b ! 4 = rb_fraction_lost b"
    "bslice 5 8 (block_wire b) = be_bytes 3 (unat (c AND 0x00FFFFFF))" "bslice 8 12 (block_wire b) = be_bytes 4 (unat (rb_extended_highest_seq b))"
    "bslice 12 16 (block_wire b) = be_bytes 4 (unat (rb_jitter b))" "bslice 16 20 (block_wire b) = be_bytes 4 (unat (rb_last_sr b))"
    "bslice 20 24 (block_wire b) = be_bytes 4 (unat (rb_delay_since_last_sr b))"
    by (simp_all add: block_wire_def bslice_def nth_append c_def)
  have "bslice 5 8 (block_wire b) = [block_wire b ! 5, block_wire b ! 6, block_wire b ! 7]"
    by (rule nth_equalityI) (auto simp: bslice_def less_Suc_eq numeral_3_eq_3 nth_Cons')
  then have e: "[block_wire b ! 5, block_wire b ! 6, block_wire b ! 7] = be_bytes 3 (unat (take_bit 24 c))"
    using f(3) unfolding and_24 by simp
  have "be_val [block_wire b ! 5, block_wire b ! 6, block_wire b ! 7] = unat (take_bit 24 c)"
    unfolding e be_val_be_bytes by (simp add: unat_take_bit)
  then have raw: "push_bit 16 (ucast (block_wire b ! 5)) OR push_bit 8 (ucast (block_wire b ! 6)) OR ucast (block_wire b ! 7) = take_bit 24 c"
    by (intro unat_eqI) (simp only: raw_lost)
  have s: "(if take_bit 24 c AND 0x00800000 \<noteq> 0 then sint (take_bit 24 c OR 0xFF000000) else sint (take_bit 24 c)) = clamp_lost (rb_cumulative_lost b)"
    unfolding c_def by (rule sign_extend_24) (simp_all add: clamp_lost_def)
  have l: "\<not> length (a @ block_wire b @ r) < at + 24" using assms by simp
  show ?thesis
    unfolding rtcp_parse_report_block_def w Let_def f raw s if_not_P [OF l] by (cases b) simp
qed

definition blocks_wire :: "rtcp_report_block list \<Rightarrow> bytes" where
  "blocks_wire bs = concat (map block_wire bs)"

lemma length_blocks_wire [simp]: "length (blocks_wire bs) = 24 * length bs"
  by (induction bs) (simp_all add: blocks_wire_def)

lemma blocks_wire_Cons: "blocks_wire (b # bs) = block_wire b @ blocks_wire bs"
  by (simp add: blocks_wire_def)

lemma write_blocks_eq:
  "at + 24 * length bs \<le> length out \<Longrightarrow> write_blocks bs at out = (Some (at + 24 * length bs), blit at (blocks_wire bs) out)"
proof (induction bs arbitrary: at out)
  case Nil
  then show ?case by (simp add: blocks_wire_def)
next
  case (Cons b bs)
  have "wtail at (rtcp_write_report_block b) out = (Some 24, blit at (block_wire b) out)"
    using Cons.prems by (auto simp: wtail_def write_report_block_eq blit_def add.commute not_less)
  with Cons.IH [of "at + 24" "blit at (block_wire b) out"] Cons.prems blit_blit_append [of at "block_wire b" "blocks_wire bs" out]
  show ?case by (simp add: wbind_def blocks_wire_Cons)
qed

definition sender_wire :: "rtcp_sender_info \<Rightarrow> bytes" where
  "sender_wire i = be_bytes 8 (unat (si_ntp i)) @ be_bytes 4 (unat (si_rtp_timestamp i)) @ be_bytes 4 (unat (si_packet_count i)) @
     be_bytes 4 (unat (si_octet_count i))"

lemma length_sender_wire [simp]: "length (sender_wire i) = 20"
  by (simp add: sender_wire_def)

text \<open>A report: the sender part of an SR, or none, and the blocks.\<close>

definition report_wire :: "u32 \<Rightarrow> rtcp_sender_info option \<Rightarrow> rtcp_report_block list \<Rightarrow> bytes" where
  "report_wire ssrc info bs =
     (let body = (case info of None \<Rightarrow> [] | Some i \<Rightarrow> sender_wire i) @ blocks_wire bs in
      [0x80 OR (of_nat (length bs) AND 0x1F), (case info of None \<Rightarrow> RTCP_PT_RR | Some _ \<Rightarrow> RTCP_PT_SR)] @
      be_bytes 2 (length body div 4 + 1) @ be_bytes 4 (unat ssrc) @ body)"

definition rtcp_write_report :: "u32 \<Rightarrow> rtcp_sender_info option \<Rightarrow> rtcp_report_block list \<Rightarrow> nat writer" where
  "rtcp_write_report ssrc info bs = (case info of None \<Rightarrow> rtcp_write_rr ssrc bs | Some i \<Rightarrow> rtcp_write_sr ssrc i bs)"

lemma write_report_eq:
  assumes "rtcp_write_report ssrc info bs out = (Some n, out')"
  shows "length bs \<le> 31 \<and> n = length (report_wire ssrc info bs) \<and> n \<le> length out \<and> out' = blit 0 (report_wire ssrc info bs) out"
proof -
  define sl where "sl = (case info of None \<Rightarrow> (0::nat) | Some _ \<Rightarrow> 20)"
  define pt where "pt = (case info of None \<Rightarrow> RTCP_PT_RR | Some _ \<Rightarrow> RTCP_PT_SR)"
  define body where "body = (case info of None \<Rightarrow> [] | Some i \<Rightarrow> sender_wire i)"
  define h where "h = [0x80 OR (of_nat (length bs) AND 0x1F), pt] @ be_bytes 2 ((sl + 24 * length bs) div 4 + 1) @ be_bytes 4 (unat ssrc)"
  have bl: "length body = sl" by (simp add: body_def sl_def split: option.split)
  have w: "report_wire ssrc info bs = h @ body @ blocks_wire bs"
    by (simp add: report_wire_def h_def pt_def Let_def bl [symmetric] body_def split: option.split)
  have g: "length bs \<le> 31 \<and> 8 + (sl + 24 * length bs) \<le> length out"
    using assms by (auto simp: rtcp_write_report_def rtcp_write_rr_def rtcp_write_sr_def wbind_eq_Some write_head_def Let_def sl_def mult.commute
        split: option.splits if_splits)
  then have "(8 + (sl + 24 * length bs)) div 4 - 1 < 2 ^ 16" by (simp add: sl_def split: option.splits)
  then have u: "unat (of_nat ((8 + (sl + 24 * length bs)) div 4 - 1) :: u16) = (sl + 24 * length bs) div 4 + 1"
    by (subst unat_of_nat_below) (simp_all add: sl_def split: option.splits)
  have hd: "write_head pt (length bs) ssrc (sl + length bs * 24) out = (Some 8, blit 0 h out)"
    using g u by (simp add: write_head_def Let_def h_def mult.commute)
  have lh: "length h = 8" by (simp add: h_def)
  have "rtcp_write_report ssrc info bs out = write_blocks bs (8 + sl) (blit 8 body (blit 0 h out))"
  proof (cases info)
    case None
    with hd show ?thesis by (simp add: rtcp_write_report_def rtcp_write_rr_def wbind_def sl_def pt_def body_def)
  next
    case (Some i)
    with hd g lh show ?thesis
      by (simp add: rtcp_write_report_def rtcp_write_sr_def wbind_def sl_def pt_def body_def sender_wire_def)
  qed
  also have "blit 8 body (blit 0 h out) = blit 0 (h @ body) out"
    using g bl lh blit_blit_append [of 0 h body out] by simp
  also have "write_blocks bs (8 + sl) (blit 0 (h @ body) out) = (Some (8 + sl + 24 * length bs), blit (8 + sl) (blocks_wire bs) (blit 0 (h @ body) out))"
    using g bl lh by (intro write_blocks_eq) simp
  also have "blit (8 + sl) (blocks_wire bs) (blit 0 (h @ body) out) = blit 0 (h @ body @ blocks_wire bs) out"
    using g bl lh blit_blit_append [of 0 "h @ body" "blocks_wire bs" out] by simp
  finally show ?thesis using assms g bl lh by (simp add: w)
qed

lemma add_128_mod_32: "(128 + n) mod 32 = n mod (32 :: nat)"
  using mod_mult_self3 [of 4 32 n] by simp

lemma and_31: "(x :: byte) AND 0x1F = take_bit 5 x"
  by (simp add: take_bit_eq_mask mask_eq_exp_minus_1)

lemma and_one_byte: "(x :: byte) AND 1 = take_bit 1 x"
  by (simp add: take_bit_eq_mask mask_eq_exp_minus_1)

lemma unat_report_byte: "unat (0x80 OR (x AND 0x1F) :: byte) = 128 + unat x mod 32"
  using unat_push_or [of "1 :: byte" 7 "take_bit 5 x"] unfolding and_31 by (simp add: unat_take_bit)

lemma report_first_byte:
  "drop_bit 6 (0x80 OR (x AND 0x1F) :: byte) = 2" "drop_bit 5 (0x80 OR (x AND 0x1F) :: byte) AND 1 = 0"
  "(0x80 OR (x AND 0x1F) :: byte) AND 0x1F = x AND 0x1F"
proof -
  show "drop_bit 6 (0x80 OR (x AND 0x1F) :: byte) = 2"
    by (rule unat_eqI) (simp add: unat_drop_bit unat_report_byte)
  show "drop_bit 5 (0x80 OR (x AND 0x1F) :: byte) AND 1 = 0"
    unfolding and_one_byte by (rule unat_eqI) (simp add: unat_take_bit unat_drop_bit unat_report_byte)
  show "(0x80 OR (x AND 0x1F) :: byte) AND 0x1F = x AND 0x1F"
    unfolding and_31 [of "0x80 OR (x AND 0x1F)"]
    using add_128_mod_32 [of "unat x mod 32"]
    by (intro unat_eqI) (simp only: unat_take_bit unat_report_byte, simp add: and_31 unat_take_bit take_bit_eq_mod [where 'a = nat])
qed

definition report_pt :: "rtcp_sender_info option \<Rightarrow> byte" where
  "report_pt info = (case info of None \<Rightarrow> RTCP_PT_RR | Some _ \<Rightarrow> RTCP_PT_SR)"

definition report_body :: "rtcp_sender_info option \<Rightarrow> bytes" where
  "report_body info = (case info of None \<Rightarrow> [] | Some i \<Rightarrow> sender_wire i)"

lemma report_wire_split:
  "report_wire ssrc info bs =
     ([0x80 OR (of_nat (length bs) AND 0x1F), report_pt info] @
      be_bytes 2 ((length (report_body info) + 24 * length bs) div 4 + 1)) @ be_bytes 4 (unat ssrc) @ report_body info @ blocks_wire bs"
  by (simp add: report_wire_def report_pt_def report_body_def Let_def split: option.split)

lemma length_report_body: "length (report_body info) = (case info of None \<Rightarrow> 0 | Some _ \<Rightarrow> 20)"
  by (simp add: report_body_def split: option.split)

lemma report_wire_unit:
  assumes "length bs \<le> 31"
  shows "rtcp_span (report_wire ssrc info bs)" "\<not> rtcp_padded (report_wire ssrc info bs)"
    "report_wire ssrc info bs ! 1 = report_pt info" "report_wire ssrc info bs ! 0 AND 0x1F = of_nat (length bs) AND 0x1F"
    "length (report_wire ssrc info bs) = 8 + length (report_body info) + 24 * length bs"
proof -
  define k where "k = (length (report_body info) + 24 * length bs) div 4 + 1"
  have k: "k < 256 ^ 2" using assms by (simp add: k_def length_report_body split: option.split)
  have "bslice 2 4 (report_wire ssrc info bs) = be_bytes 2 k"
    by (simp add: report_wire_split bslice_def k_def)
  then have v: "be_val (bslice 2 4 (report_wire ssrc info bs)) = k" using k by (simp add: be_val_be_bytes)
  have l: "length (report_wire ssrc info bs) = 8 + length (report_body info) + 24 * length bs"
    by (simp add: report_wire_split)
  have "(k + 1) * 4 = 8 + length (report_body info) + 24 * length bs"
    by (simp add: k_def length_report_body split: option.split)
  with v l show "rtcp_span (report_wire ssrc info bs)"
    by (simp add: rtcp_span_def) (simp add: report_wire_split report_first_byte)
  show "\<not> rtcp_padded (report_wire ssrc info bs)" "report_wire ssrc info bs ! 1 = report_pt info"
    "report_wire ssrc info bs ! 0 AND 0x1F = of_nat (length bs) AND 0x1F"
    by (simp_all add: rtcp_padded_def report_wire_split report_first_byte)
  show "length (report_wire ssrc info bs) = 8 + length (report_body info) + 24 * length bs" by (rule l)
qed

lemma blocks_wire_nth:
  "i < length bs \<Longrightarrow> blocks_wire bs = blocks_wire (take i bs) @ block_wire (bs ! i) @ blocks_wire (drop (Suc i) bs)"
  using id_take_nth_drop [of i bs] by (metis blocks_wire_def concat_append list.map(2) map_append concat.simps(2))

lemma parse_sender_wire:
  "rtcp_parse_sender_info (a @ sender_wire i @ r) at = Some i" if "length a = at + 8"
proof -
  have w: "bslice (at + 8) (at + 28) (a @ sender_wire i @ r) = sender_wire i" using that by (simp add: bslice_def)
  have f: "bslice 0 8 (sender_wire i) = be_bytes 8 (unat (si_ntp i))" "bslice 8 12 (sender_wire i) = be_bytes 4 (unat (si_rtp_timestamp i))"
    "bslice 12 16 (sender_wire i) = be_bytes 4 (unat (si_packet_count i))" "bslice 16 20 (sender_wire i) = be_bytes 4 (unat (si_octet_count i))"
    by (simp_all add: sender_wire_def bslice_def)
  have l: "\<not> length (a @ sender_wire i @ r) < at + 28" using that by simp
  show ?thesis unfolding rtcp_parse_sender_info_def w Let_def f if_not_P [OF l] by (cases i) simp
qed

text \<open>C31. A written sender or receiver report is read back: the datagram is one RTCP packet with the block count of the report,
  its source and its sender part are the ones written, and every block has its fields, the cumulative loss
  clamped to the twenty-four bits it has on the wire.\<close>

theorem rtcp_report_read_back:
  assumes "rtcp_write_report ssrc info bs out = (Some n, out')"
  shows "rtcp_parse_compound (take n out') [p0] =
      (Inr 1, [\<lparr> rk_payload_type = report_pt info, rk_count = of_nat (length bs), rk_at = 0, rk_len = n \<rparr>]) \<and>
    rtcp_packet_ssrc (take n out') 0 = Some ssrc \<and>
    (\<forall>i. info = Some i \<longrightarrow> rtcp_parse_sender_info (take n out') 0 = Some i) \<and>
    (\<forall>i < length bs. rtcp_parse_report_block (take n out') (rtcp_first_block_at (report_pt info) 0 + 24 * i) =
       Some ((bs ! i)\<lparr> rb_cumulative_lost := clamp_lost (rb_cumulative_lost (bs ! i)) \<rparr>))"
proof (intro conjI allI impI)
  let ?w = "report_wire ssrc info bs"
  have e: "length bs \<le> 31" "n = length ?w" "n \<le> length out" "out' = blit 0 ?w out" using write_report_eq [OF assms] by simp_all
  have t: "take n out' = ?w" using e by (simp add: blit_def)
  note u = report_wire_unit [OF e(1), of ssrc info]
  have m: "of_nat (length bs) AND (0x1F :: byte) = of_nat (length bs)"
    using e(1) unfolding and_31 by (intro unat_eqI) (simp add: unat_take_bit unat_of_nat)
  have "compound_loop ([] @ concat [?w]) (length ([] :: bytes)) 0 [p0] = (Inr (0 + length [?w]), blit 0 (located (length ([] :: bytes)) [?w]) [p0])"
    using u(1-3) by (intro compound_loop_complete) (auto simp: report_pt_def split: option.split)
  moreover have "4 dvd length ?w" "4 \<le> length ?w" using rtcp_units_length [of "[?w]"] u(1) by simp_all
  ultimately show "rtcp_parse_compound (take n out') [p0] =
      (Inr 1, [\<lparr> rk_payload_type = report_pt info, rk_count = of_nat (length bs), rk_at = 0, rk_len = n \<rparr>])"
    unfolding t using u(3,4) m e(2) by (auto simp: rtcp_parse_compound_def blit_def)
  have "bslice 4 8 ?w = be_bytes 4 (unat ssrc)" by (simp add: report_wire_split bslice_def)
  then show "rtcp_packet_ssrc (take n out') 0 = Some ssrc" unfolding t rtcp_packet_ssrc_def using u(5) by simp
  fix i
  show "rtcp_parse_sender_info (take n out') 0 = Some i" if "info = Some i"
    using parse_sender_wire [of "([0x80 OR (of_nat (length bs) AND 0x1F), report_pt info] @
      be_bytes 2 ((length (report_body info) + 24 * length bs) div 4 + 1)) @ be_bytes 4 (unat ssrc)" 0 i "blocks_wire bs"] that
    unfolding t report_wire_split by (simp add: report_body_def)
next
  let ?w = "report_wire ssrc info bs"
  have e: "length bs \<le> 31" "n = length ?w" "n \<le> length out" "out' = blit 0 ?w out" using write_report_eq [OF assms] by simp_all
  have t: "take n out' = ?w" using e by (simp add: blit_def)
  fix i assume i: "i < length bs"
  define a where "a = ([0x80 OR (of_nat (length bs) AND 0x1F), report_pt info] @
      be_bytes 2 ((length (report_body info) + 24 * length bs) div 4 + 1)) @ be_bytes 4 (unat ssrc) @ report_body info @ blocks_wire (take i bs)"
  have w: "?w = a @ block_wire (bs ! i) @ blocks_wire (drop (Suc i) bs)"
    unfolding report_wire_split a_def by (subst blocks_wire_nth [OF i]) simp
  have l: "rtcp_first_block_at (report_pt info) 0 + 24 * i = length a"
    using i by (simp add: a_def rtcp_first_block_at_def report_pt_def length_report_body split: option.split)
  show "rtcp_parse_report_block (take n out') (rtcp_first_block_at (report_pt info) 0 + 24 * i) =
       Some ((bs ! i)\<lparr> rb_cumulative_lost := clamp_lost (rb_cumulative_lost (bs ! i)) \<rparr>)"
    unfolding t w by (rule parse_block_wire [OF l])
qed

theorem rtcp_report_read_back_witness:
  "let w = snd (rtcp_write_report 7 (Some \<lparr> si_ntp = 1, si_rtp_timestamp = 2, si_packet_count = 3, si_octet_count = 4 \<rparr>)
             [\<lparr> rb_ssrc = 9, rb_fraction_lost = 8, rb_cumulative_lost = - 5, rb_extended_highest_seq = 70000, rb_jitter = 6,
                rb_last_sr = 5, rb_delay_since_last_sr = 4 \<rparr>] (replicate 60 0))
   in rtcp_packet_ssrc (take 52 w) 0 = Some 7 \<and>
      rtcp_parse_sender_info (take 52 w) 0 = Some \<lparr> si_ntp = 1, si_rtp_timestamp = 2, si_packet_count = 3, si_octet_count = 4 \<rparr>"
proof -
  define i where "i = \<lparr> si_ntp = 1, si_rtp_timestamp = 2, si_packet_count = 3, si_octet_count = 4 \<rparr>"
  define b where "b = \<lparr> rb_ssrc = 9, rb_fraction_lost = 8, rb_cumulative_lost = - 5, rb_extended_highest_seq = 70000, rb_jitter = 6,
                rb_last_sr = 5, rb_delay_since_last_sr = 4 \<rparr>"
  have "rtcp_write_report 7 (Some i) [b] (replicate 60 0) = (Some 52, snd (rtcp_write_report 7 (Some i) [b] (replicate 60 0)))"
    by (simp add: rtcp_write_report_def rtcp_write_sr_def write_head_def wbind_def wtail_def write_report_block_eq)
  from rtcp_report_read_back [OF this] show ?thesis unfolding Let_def i_def b_def by simp
qed

section \<open>Receiver statistics follow the stream\<close>

text \<open>The arrivals as a receiver with unbounded sequence numbers would see them: each is either new, less than half
  the sequence space (0x8000) ahead of the highest so far, or late, and then at most 0x8000 behind the
  highest and of the same cycle of 65536 numbers.\<close>

fun orderly :: "nat \<Rightarrow> (nat \<times> u32 \<times> u32) list \<Rightarrow> bool" where
  "orderly m [] = True"
| "orderly m ((x, _) # ps) =
     ((if m < x then x - m < 0x8000 else m - x \<le> 0x8000 \<and> x div 65536 = m div 65536) \<and> orderly (max m x) ps)"

definition receive_all :: "rtcp_receiver_stats \<Rightarrow> (nat \<times> u32 \<times> u32) list \<Rightarrow> rtcp_receiver_stats" where
  "receive_all s ps = fold (\<lambda>(x, ts, arr) s. on_packet s (of_nat x) ts arr) ps s"

definition tracks :: "nat \<Rightarrow> nat \<Rightarrow> nat \<Rightarrow> rtcp_receiver_stats \<Rightarrow> bool" where
  "tracks x0 m n s \<longleftrightarrow> rs_started s \<and> rs_base_seq s = of_nat x0 \<and> rs_cycles s = of_nat (m div 65536 * 65536) \<and>
     rs_max_seq s = of_nat m \<and> rs_received s = of_nat n"

lemma tracks_on_packet:
  assumes "tracks x0 m n s" and "if m < x then x - m < 0x8000 else m - x \<le> 0x8000 \<and> x div 65536 = m div 65536"
  shows "tracks x0 (max m x) (n + 1) (on_packet s (of_nat x) ts arr)"
proof -
  define a b p q where "a = x mod 65536" and "b = m mod 65536" and "p = x div 65536" and "q = m div 65536"
  have d: "x = 65536 * p + a" "m = 65536 * q + b" "a < 65536" "b < 65536" by (simp_all add: a_def b_def p_def q_def)
  have u: "unat (of_nat x :: u16) = a" "unat (of_nat m :: u16) = b" by (simp_all add: unat_of_nat a_def b_def)
  have df: "unat (of_nat m - of_nat x :: u16) = (if a \<le> b then b - a else b + 65536 - a)"
    "unat (of_nat x - of_nat m :: u16) = (if b \<le> a then a - b else a + 65536 - b)"
    by (simp_all add: unat_sub_if' u)
  have step: "m < x \<and> x - m < 0x8000 \<and> (p = q \<or> p = q + 1) \<or> x \<le> m \<and> m - x \<le> 0x8000 \<and> p = q"
    using assms(2) d by (auto simp: p_def [symmetric] q_def [symmetric] split: if_splits)
  have c: "((of_nat x :: u16) < of_nat m \<and> 0x8000 < (of_nat m - of_nat x :: u16)) \<longleftrightarrow> p = q + 1"
    "((of_nat m :: u16) < of_nat x \<or> (of_nat x - of_nat m :: u16) < 0x8000) \<longleftrightarrow> m \<le> x"
    "p = q \<or> m < x \<and> p = q + 1"
    unfolding word_less_nat_alt df u using step d by auto
  have "max m x div 65536 = (if x div 65536 = m div 65536 + 1 then m div 65536 + 1 else m div 65536)"
    using c(3) by (auto simp: max_def p_def q_def)
  moreover have "(of_nat (max m x) :: u16) = (if m \<le> x then of_nat x else of_nat m)" by (simp add: max_def)
  ultimately show ?thesis
    using assms(1) by (simp add: tracks_def on_packet_def Let_def c(1,2) p_def q_def algebra_simps)
qed

lemma tracks_receive_all:
  "tracks x0 m n s \<Longrightarrow> orderly m ps \<Longrightarrow> tracks x0 (foldl max m (map fst ps)) (n + length ps) (receive_all s ps)"
proof (induction ps arbitrary: m n s)
  case Nil
  then show ?case by (simp add: receive_all_def)
next
  case (Cons p ps)
  obtain x ts arr where p: "p = (x, ts, arr)" by (cases p)
  have "tracks x0 (max m x) (n + 1) (on_packet s (of_nat x) ts arr)"
    using Cons.prems by (intro tracks_on_packet) (auto simp: p)
  from Cons.IH [OF this] Cons.prems(2) show ?case by (simp add: p receive_all_def)
qed

lemma tracks_extended_max: "tracks x0 m n s \<Longrightarrow> extended_max s = of_nat m"
proof -
  assume t: "tracks x0 m n s"
  have "m div 65536 * 65536 = push_bit 16 (drop_bit 16 m)" by (simp add: push_bit_eq_mult drop_bit_eq_div)
  then have "extended_max s = of_nat (push_bit 16 (drop_bit 16 m)) OR ucast (of_nat m :: u16)"
    using t by (simp add: extended_max_def tracks_def)
  also have "\<dots> = of_nat m"
    by (rule bit_word_eqI) (auto simp: bit_or_iff bit_of_nat_iff bit_push_bit_iff bit_drop_bit_eq bit_ucast_iff)
  finally show ?thesis .
qed

lemma foldl_max_ge: "(m :: nat) \<le> foldl max m xs"
  by (induction xs arbitrary: m) (auto intro: order_trans [OF max.cobounded1])

text \<open>C32. The sixteen-bit numbers of a stream are followed through their wraps. Let every arrival be new and less
  than 0x8000 ahead of the highest number so far, or late, at most 0x8000 behind the highest and in the
  highest's cycle of 65536 numbers; and let the span of the numbers and the number of arrivals after the
  first both be below \<open>2 ^ 31\<close>. Then the extended highest number is the true one, the number of packets expected is the
  span from the first, the number received is the number of arrivals, and the cumulative loss is the
  expected less the received.\<close>

theorem receiver_stats_track:
  assumes "x0 < 65536" and "orderly x0 ps"
    and "s = receive_all (stats_new ssrc) ((x0, ts, arr) # ps)" and "hi = foldl max x0 (map fst ps)"
    and "hi - x0 < 2 ^ 31" and "length ps < 2 ^ 31"
  shows "extended_max s = of_nat hi \<and> unat (expected_packets s) = hi - x0 + 1 \<and> unat (rs_received s) = length ps + 1 \<and>
    cumulative_lost s = int (hi - x0) - int (length ps)"
proof -
  have "tracks x0 x0 1 (on_packet (stats_new ssrc) (of_nat x0) ts arr)"
    using assms(1) by (simp add: tracks_def on_packet_def stats_new_def Let_def) (simp add: unat_eqI unat_ucast_widen unat_of_nat)
  from tracks_receive_all [OF this assms(2)]
  have t: "tracks x0 hi (1 + length ps) s" by (simp add: assms(3,4) receive_all_def)
  have e: "extended_max s = of_nat hi" by (rule tracks_extended_max [OF t])
  have ge: "x0 \<le> hi" unfolding assms(4) by (rule foldl_max_ge)
  have x: "expected_packets s = of_nat (hi - x0 + 1)" using t e ge by (simp add: expected_packets_def tracks_def)
  have r: "rs_received s = of_nat (length ps + 1)" using t by (simp add: tracks_def)
  have "expected_packets s - rs_received s = of_int (int (hi - x0) - int (length ps))" by (simp add: x r)
  then have "cumulative_lost s = signed_take_bit 31 (int (hi - x0) - int (length ps))"
    unfolding cumulative_lost_def by (simp only: sint_sbintrunc') simp
  also have "\<dots> = int (hi - x0) - int (length ps)"
    using assms(5,6) by (intro signed_take_bit_int_eq_self) simp_all
  finally have c: "cumulative_lost s = int (hi - x0) - int (length ps)" .
  have "unat (expected_packets s) = hi - x0 + 1" unfolding x by (rule unat_of_nat_below) (use assms(5) in simp)
  moreover have "unat (rs_received s) = length ps + 1" unfolding r by (rule unat_of_nat_below) (use assms(6) in simp)
  ultimately show ?thesis using c e by blast
qed

theorem receiver_stats_track_witness:
  "cumulative_lost (receive_all (stats_new 1) [(65534, 0, 0), (65535, 0, 0), (65537, 0, 0), (65536, 0, 0), (65540, 0, 0)]) = 2"
  using receiver_stats_track [of 65534 "[(65535, 0, 0), (65537, 0, 0), (65536, 0, 0), (65540, 0, 0)]"] by simp

text \<open>A packet that arrives late from before a wrap is counted as another wrap.\<close>

lemma late_packet_counts_a_wrap:
  "extended_max (receive_all (stats_new 1) [(65534, 0, 0), (65535, 0, 0), (65536, 0, 0), (65533, 0, 0), (65538, 0, 0)]) = 131074"
  by (simp add: receive_all_def on_packet_def stats_new_def extended_max_def Let_def)

text \<open>The interval between reports is never below five seconds before it is randomised.\<close>

lemma rtcp_interval_floor: "5000 \<le> rtcp_interval_ms members senders we_sent bw"
  by (simp add: rtcp_interval_ms_def Let_def split: prod.splits)

end
