(* ===== verification/Rtp_Payload.thy ===== *)
theory Rtp_Payload
  imports Wave_Prelude
begin

text \<open>
  RTP payload formats (\<open>modules/common/rtp_payload.rs\<close>): access units of an encoded-media stream cut into RTP payloads and
  put together again, for PCMU, PCMA, Opus, VP8 (RFC 7741) and H.264 (RFC 6184, packetization mode 1).
  The codec and packing numbers and the record layout belong to the stream contract
  \<open>abi::contracts::encoded\<close>, which is not in the repository: codecs and packings are named by their constants, a
  record is a value, and writing one is a parameter. The pending payload, an array and a fill length, is
  the list of its filled bytes, never longer than the capacity it is compared with. A packet is its payload and its marker.
\<close>

unbundle bit_operations_syntax

section \<open>Codecs and packings\<close>

datatype codec = CODEC_PCMU | CODEC_PCMA | CODEC_OPUS | CODEC_H264 | CODEC_VP8 | CodecOther byte

datatype packing = PACKING_RAW | PACKING_ANNEXB | PACKING_LENGTH_PREFIXED | PackingOther byte

record unit_flags =
  uf_key :: bool
  uf_discontinuity :: bool
  uf_continues :: bool
  uf_truncated :: bool

definition rtp_clock :: "codec \<Rightarrow> u32 option" where
  "rtp_clock c = (case c of CODEC_PCMU \<Rightarrow> Some 8000 | CODEC_PCMA \<Rightarrow> Some 8000 | CODEC_OPUS \<Rightarrow> Some 48000 | CODEC_H264 \<Rightarrow> Some 90000
     | CODEC_VP8 \<Rightarrow> Some 90000 | _ \<Rightarrow> None)"

definition codec_named :: "bytes \<Rightarrow> codec option" where
  "codec_named nm =
     (if nm = ascii ''pcmu'' then Some CODEC_PCMU else if nm = ascii ''pcma'' then Some CODEC_PCMA
      else if nm = ascii ''opus'' then Some CODEC_OPUS else if nm = ascii ''h264'' then Some CODEC_H264
      else if nm = ascii ''vp8'' then Some CODEC_VP8 else None)"

definition can_packetize :: "codec \<Rightarrow> packing \<Rightarrow> bool" where
  "can_packetize c p = (case (c, p) of
     (CODEC_PCMU, PACKING_RAW) \<Rightarrow> True | (CODEC_PCMA, PACKING_RAW) \<Rightarrow> True | (CODEC_OPUS, PACKING_RAW) \<Rightarrow> True
   | (CODEC_H264, PACKING_ANNEXB) \<Rightarrow> True | (CODEC_H264, PACKING_LENGTH_PREFIXED) \<Rightarrow> True | (CODEC_VP8, PACKING_RAW) \<Rightarrow> True
   | _ \<Rightarrow> False)"

definition received_stream :: "codec \<Rightarrow> (packing \<times> byte \<times> u32) option" where
  "received_stream c = (case c of
     CODEC_PCMU \<Rightarrow> Some (PACKING_RAW, 1, 8000) | CODEC_PCMA \<Rightarrow> Some (PACKING_RAW, 1, 8000) | CODEC_OPUS \<Rightarrow> Some (PACKING_RAW, 2, 48000)
   | CODEC_H264 \<Rightarrow> Some (PACKING_ANNEXB, 0, 90000) | CODEC_VP8 \<Rightarrow> Some (PACKING_RAW, 0, 90000) | _ \<Rightarrow> None)"

abbreviation (input) MAX_PAYLOAD :: nat where "MAX_PAYLOAD \<equiv> 1460"
abbreviation (input) CONFIG_MAX :: nat where "CONFIG_MAX \<equiv> 256"

section \<open>The packetizer\<close>

datatype nal = NalSeeking | NalLength nat | NalHeader | NalBody

record packetizer =
  pz_codec :: codec
  pz_packing :: packing
  pz_mtu :: nat
  pz_len_size :: nat
  pz_config :: bytes
  pz_ps_at :: nat
  pz_ps_left :: byte
  pz_ps_pps_pending :: bool
  pz_first_of_stream :: bool
  pz_unit_marker :: bool
  pz_unit_done :: bool
  pz_oversize :: bool
  pz_nal :: nal
  pz_nal_header :: byte
  pz_fragmented :: bool
  pz_held :: bool
  pz_zeros :: nat
  pz_nal_len :: u32
  pz_frame_first :: bool
  pz_pending :: bytes

type_synonym payload_packet = "bytes \<times> bool"

definition packetizer_new :: packetizer where
  "packetizer_new = \<lparr> pz_codec = CodecOther 0, pz_packing = PackingOther 0, pz_mtu = MAX_PAYLOAD, pz_len_size = 0, pz_config = [],
     pz_ps_at = 0, pz_ps_left = 0, pz_ps_pps_pending = False, pz_first_of_stream = True, pz_unit_marker = False, pz_unit_done = True,
     pz_oversize = False, pz_nal = NalSeeking, pz_nal_header = 0, pz_fragmented = False, pz_held = False, pz_zeros = 0, pz_nal_len = 0,
     pz_frame_first = True, pz_pending = [] \<rparr>"

definition pz_stream :: "codec \<Rightarrow> packing \<Rightarrow> bytes \<Rightarrow> nat \<Rightarrow> packetizer \<Rightarrow> bool \<times> packetizer" where
  "pz_stream codec packing config mtu s =
     (if \<not> can_packetize codec packing \<or> \<not> (16 \<le> mtu \<and> mtu \<le> MAX_PAYLOAD) then (False, s)
      else
        let s1 = s\<lparr> pz_len_size := 0, pz_config := [] \<rparr>;
            configured = (\<lambda>s. (True, s\<lparr> pz_codec := codec, pz_packing := packing, pz_mtu := mtu, pz_first_of_stream := True,
                                       pz_unit_done := True \<rparr>))
        in
          if packing = PACKING_LENGTH_PREFIXED then
            if length config < 7 \<or> CONFIG_MAX < length config then (False, s1)
            else
              let n = unat (config ! 4 AND 0x03) + 1 in
              if n = 3 then (False, s1\<lparr> pz_len_size := n \<rparr>)
              else configured (s1\<lparr> pz_len_size := n, pz_config := config \<rparr>)
          else configured s1)"

definition begin_unit :: "unit_flags \<Rightarrow> packetizer \<Rightarrow> packetizer" where
  "begin_unit flags s =
     (let s1 = s\<lparr> pz_unit_done := False, pz_oversize := False, pz_pending := [], pz_fragmented := False, pz_held := False, pz_zeros := 0,
                  pz_frame_first := True,
                  pz_nal := (case pz_packing s of PACKING_ANNEXB \<Rightarrow> NalSeeking | PACKING_LENGTH_PREFIXED \<Rightarrow> NalLength 0 | _ \<Rightarrow> NalBody),
                  pz_unit_marker := pz_first_of_stream s \<or> uf_discontinuity flags, pz_first_of_stream := False,
                  pz_ps_left := 0, pz_ps_pps_pending := False \<rparr>
      in if 7 \<le> length (pz_config s) \<and> uf_key flags
         then s1\<lparr> pz_ps_at := 6, pz_ps_left := pz_config s ! 5 AND 0x1F, pz_ps_pps_pending := True \<rparr>
         else s1)"

text \<open>PCMU, PCMA and Opus: one unit, one packet.\<close>

definition next_audio :: "packetizer \<Rightarrow> bytes \<Rightarrow> nat \<Rightarrow> bool \<Rightarrow> payload_packet option \<times> nat \<times> packetizer" where
  "next_audio s input used fin =
     (let rest = drop used input;
          s1 = (if pz_mtu s < length (pz_pending s) + length rest then s\<lparr> pz_oversize := True \<rparr>
                else s\<lparr> pz_pending := pz_pending s @ rest \<rparr>)
      in
        if \<not> fin then (None, length input, s1)
        else
          let s2 = s1\<lparr> pz_unit_done := True \<rparr> in
          if pz_oversize s2 \<or> pz_pending s2 = [] then (None, length input, s2)
          else (Some (pz_pending s2, pz_unit_marker s2), length input, s2))"

definition vp8_packet :: "bool \<Rightarrow> packetizer \<Rightarrow> payload_packet \<times> packetizer" where
  "vp8_packet marker s =
     (((if pz_frame_first s then 0x10 else 0) # pz_pending s, marker), s\<lparr> pz_frame_first := False, pz_pending := [] \<rparr>)"

function next_vp8 :: "packetizer \<Rightarrow> bytes \<Rightarrow> nat \<Rightarrow> bool \<Rightarrow> payload_packet option \<times> nat \<times> packetizer" where
  "next_vp8 s input used fin =
     (let cap = pz_mtu s - 1 in
      if used < length input then
        if cap \<le> length (pz_pending s) then (case vp8_packet False s of (p, s') \<Rightarrow> (Some p, used, s'))
        else
          let k = min (cap - length (pz_pending s)) (length input - used)
          in next_vp8 (s\<lparr> pz_pending := pz_pending s @ take k (drop used input) \<rparr>) input (used + k) fin
      else if \<not> fin then (None, used, s)
      else
        let s1 = s\<lparr> pz_unit_done := True \<rparr> in
        if pz_pending s1 = [] then (None, used, s1)
        else (case vp8_packet True s1 of (p, s') \<Rightarrow> (Some p, used, s')))"
  by pat_completeness auto
termination by (relation "measure (\<lambda>(s, input, used, fin). length input - used)") auto

declare next_vp8.simps [simp del]

text \<open>The parameter sets of the configuration record that are still owed to this unit.\<close>

function next_parameter_set :: "packetizer \<Rightarrow> bytes option \<times> packetizer" where
  "next_parameter_set s =
     (if pz_ps_left s = 0 then
        if \<not> pz_ps_pps_pending s then (None, s)
        else
          let s1 = s\<lparr> pz_ps_pps_pending := False \<rparr> in
          if length (pz_config s) \<le> pz_ps_at s then (None, s1)
          else next_parameter_set (s1\<lparr> pz_ps_left := pz_config s ! pz_ps_at s, pz_ps_at := pz_ps_at s + 1 \<rparr>)
      else
        let s1 = s\<lparr> pz_ps_left := pz_ps_left s - 1 \<rparr> in
        if length (pz_config s) < pz_ps_at s + 2 then (None, s1\<lparr> pz_ps_left := 0, pz_ps_pps_pending := False \<rparr>)
        else
          let len = be_val (bslice (pz_ps_at s) (pz_ps_at s + 2) (pz_config s)); start = pz_ps_at s + 2;
              s2 = s1\<lparr> pz_ps_at := start + len \<rparr>
          in
            if len = 0 \<or> length (pz_config s) < start + len \<or> pz_mtu s < len then next_parameter_set s2
            else (Some (bslice start (start + len) (pz_config s)), s2))"
  by pat_completeness auto
termination
  by (relation "inv_image (less_than <*lex*> less_than) (\<lambda>s. (if pz_ps_pps_pending s then 1 else 0, unat (pz_ps_left s)))")
     (auto simp: unat_gt_0 unat_minus_one)

declare next_parameter_set.simps [simp del]

definition fu_a :: "bool \<Rightarrow> packetizer \<Rightarrow> payload_packet \<times> packetizer" where
  "fu_a fin s =
     ((((pz_nal_header s AND 0xE0) OR 28) #
       ((if pz_fragmented s then 0 else 0x80) OR (if fin then 0x40 else 0) OR (pz_nal_header s AND 0x1F)) # pz_pending s, False),
      s\<lparr> pz_fragmented := True, pz_pending := [] \<rparr>)"

definition close_nal :: "bool \<Rightarrow> packetizer \<Rightarrow> payload_packet \<times> packetizer" where
  "close_nal marker s =
     (if pz_fragmented s then (case fu_a True s of ((b, _), s') \<Rightarrow> ((b, marker), s'))
      else ((pz_nal_header s # pz_pending s, marker), s\<lparr> pz_pending := [] \<rparr>))"

text \<open>One turn of the loop over the input: a packet is ready (\<^term>\<open>Inl\<close>), or the loop goes on (\<^term>\<open>Inr\<close>).\<close>

definition h264_turn :: "packetizer \<Rightarrow> bytes \<Rightarrow> nat \<Rightarrow> (payload_packet \<times> packetizer) + (nat \<times> packetizer)" where
  "h264_turn s input used =
     (let cap = pz_mtu s - 2; b = input ! used in
      if pz_held s then Inl (close_nal False (s\<lparr> pz_held := False \<rparr>))
      else
        case pz_nal s of
          NalSeeking \<Rightarrow>
            Inr (used + 1,
                 if b = 0 then s\<lparr> pz_zeros := min (pz_zeros s + 1) 3 \<rparr>
                 else s\<lparr> pz_nal := (if b = 1 \<and> 2 \<le> pz_zeros s then NalHeader else NalSeeking), pz_zeros := 0 \<rparr>)
        | NalLength rd \<Rightarrow>
            let n = (if rd = 0 then 0 else push_bit 8 (pz_nal_len s)) OR ucast b in
            Inr (used + 1,
                 s\<lparr> pz_nal_len := n,
                    pz_nal := (if rd + 1 = pz_len_size s then if n = 0 then NalLength 0 else NalHeader else NalLength (rd + 1)) \<rparr>)
        | NalHeader \<Rightarrow>
            let s1 = s\<lparr> pz_nal_header := b, pz_fragmented := False, pz_pending := [], pz_zeros := 0 \<rparr> in
            if pz_packing s = PACKING_LENGTH_PREFIXED then
              let s2 = s1\<lparr> pz_nal_len := pz_nal_len s - 1 \<rparr> in
              if pz_nal_len s2 = 0 then Inr (used + 1, s2\<lparr> pz_nal := NalLength 0, pz_held := True \<rparr>)
              else Inr (used + 1, s2\<lparr> pz_nal := NalBody \<rparr>)
            else Inr (used + 1, s1\<lparr> pz_nal := NalBody \<rparr>)
        | NalBody \<Rightarrow>
            if pz_packing s = PACKING_ANNEXB then
              if b = 0 then Inr (used + 1, s\<lparr> pz_zeros := min (pz_zeros s + 1) 3 \<rparr>)
              else if b = 1 \<and> 2 \<le> pz_zeros s then Inr (used + 1, s\<lparr> pz_zeros := 0, pz_nal := NalHeader, pz_held := True \<rparr>)
              else if cap < length (pz_pending s) + (pz_zeros s + 1) then Inl (fu_a False s)
              else Inr (used + 1, s\<lparr> pz_pending := pz_pending s @ replicate (pz_zeros s) 0 @ [b], pz_zeros := 0 \<rparr>)
            else if cap \<le> length (pz_pending s) then Inl (fu_a False s)
            else
              let k = min (min (cap - length (pz_pending s)) (length input - used)) (unat (pz_nal_len s));
                  s1 = s\<lparr> pz_pending := pz_pending s @ take k (drop used input), pz_nal_len := pz_nal_len s - of_nat k \<rparr>
              in Inr (used + k, if pz_nal_len s1 = 0 then s1\<lparr> pz_nal := NalLength 0, pz_held := True \<rparr> else s1))"

lemma h264_turn_progress:
  assumes "used < length input" and "h264_turn s input used = Inr (used', s')"
  shows "used' \<le> length input \<and> (used < used' \<or> used' = used \<and> \<not> pz_held s \<and> pz_held s')"
proof (cases "pz_held s \<or> (\<forall>rd. pz_nal s \<noteq> NalLength rd) \<and> pz_nal s \<noteq> NalSeeking \<and> pz_nal s \<noteq> NalHeader \<and> pz_packing s \<noteq> PACKING_ANNEXB")
  case False
  then show ?thesis using assms by (cases "pz_nal s") (auto simp: h264_turn_def Let_def split: if_splits)
next
  case True
  have h: "\<not> pz_held s" using assms(2) by (auto simp: h264_turn_def)
  with True have n: "pz_nal s = NalBody" "pz_packing s \<noteq> PACKING_ANNEXB" by (cases "pz_nal s"; simp)+
  define k where "k = min (min (pz_mtu s - 2 - length (pz_pending s)) (length input - used)) (unat (pz_nal_len s))"
  have c: "length (pz_pending s) < pz_mtu s - 2" and u: "used' = used + k"
    and z: "pz_nal_len s - of_nat k = 0 \<Longrightarrow> pz_held s'"
    using assms(2) h n by (auto simp: h264_turn_def Let_def k_def split: if_splits)
  show ?thesis
  proof (cases "k = 0")
    case True
    with c assms(1) have "unat (pz_nal_len s) = 0" by (auto simp: k_def min_def split: if_splits)
    with z True have "pz_held s'" by (simp add: unat_eq_0)
    with True u h assms(1) show ?thesis by simp
  next
    case False
    with u show ?thesis by (auto simp: k_def)
  qed
qed

function h264_loop :: "packetizer \<Rightarrow> bytes \<Rightarrow> nat \<Rightarrow> payload_packet option \<times> nat \<times> packetizer" where
  "h264_loop s input used =
     (if used < length input then
        case h264_turn s input used of
          Inl (p, s') \<Rightarrow> (Some p, used, s')
        | Inr (used', s') \<Rightarrow> h264_loop s' input used'
      else (None, used, s))"
  by pat_completeness auto
termination
proof (relation "inv_image (less_than <*lex*> less_than) (\<lambda>(s, input, used). (length input - used, if pz_held s then 0 else 1))")
  fix s input used x a b
  assume "used < length (input :: bytes)" "h264_turn s input used = Inr x" "(a, b) = x"
  with h264_turn_progress [of used input s a b] show "((b, input, a), s, input, used) \<in> inv_image (less_than <*lex*> less_than)
      (\<lambda>(s, input, used). (length input - used, if pz_held s then 0 else 1))"
    by auto
qed (auto intro!: wf_inv_image wf_lex_prod)

declare h264_loop.simps [simp del]

definition next_h264 :: "packetizer \<Rightarrow> bytes \<Rightarrow> nat \<Rightarrow> bool \<Rightarrow> payload_packet option \<times> nat \<times> packetizer" where
  "next_h264 s input used fin =
     (case next_parameter_set s of
        (Some p, s1) \<Rightarrow> (Some (p, False), used, s1)
      | (None, s1) \<Rightarrow>
          (case h264_loop s1 input used of
             (Some p, used', s2) \<Rightarrow> (Some p, used', s2)
           | (None, used', s2) \<Rightarrow>
               if \<not> fin then (None, used', s2)
               else
                 let s3 = s2\<lparr> pz_unit_done := True, pz_held := False \<rparr> in
                 if \<not> (pz_held s2 \<or> pz_nal s2 = NalBody) then (None, used', s3)
                 else (case close_nal True s3 of (p, s4) \<Rightarrow> (Some p, used', s4))))"

definition packetizer_next :: "nat \<Rightarrow> packetizer \<Rightarrow> bytes \<Rightarrow> nat \<Rightarrow> bool \<Rightarrow> payload_packet option \<times> nat \<times> packetizer" where
  "packetizer_next out_len s input used fin =
     (if pz_unit_done s \<or> out_len < pz_mtu s then (None, used, s)
      else case pz_codec s of
        CODEC_H264 \<Rightarrow> next_h264 s input used fin
      | CODEC_VP8 \<Rightarrow> next_vp8 s input used fin
      | _ \<Rightarrow> next_audio s input used fin)"

section \<open>The depacketizer\<close>

definition put_nal :: "nat \<Rightarrow> bytes \<Rightarrow> bytes \<times> bool \<Rightarrow> (bytes \<times> bool) option" where
  "put_nal room nal st =
     (case st of (acc, key) \<Rightarrow>
        if room < length acc + 4 + length nal \<or> nal = [] then None
        else Some (acc @ [0, 0, 0, 1] @ nal, key \<or> nal ! 0 AND 0x1F = 5 \<or> nal ! 0 AND 0x1F = 7))"

function stap_loop :: "nat \<Rightarrow> bytes \<Rightarrow> bytes \<times> bool \<Rightarrow> (bytes \<times> bool) option" where
  "stap_loop room p st =
     (if p = [] then Some st
      else if length p < 2 then None
      else
        let n = be_val (take 2 p) in
        if length p < 2 + n then None
        else case put_nal room (bslice 2 (2 + n) p) st of
          None \<Rightarrow> None
        | Some st' \<Rightarrow> stap_loop room (drop (2 + n) p) st')"
  by pat_completeness auto
termination by (relation "measure (\<lambda>(room, p, st). length p)") auto

declare stap_loop.simps [simp del]

definition h264_to_annexb :: "bytes \<Rightarrow> bool \<Rightarrow> nat \<Rightarrow> (bytes \<times> bool) option" where
  "h264_to_annexb payload starting room =
     (case payload of
        [] \<Rightarrow> None
      | indicator # rest \<Rightarrow>
          let t = indicator AND 0x1F in
          if 1 \<le> t \<and> t \<le> 23 then put_nal room payload ([], False)
          else if t = 24 then stap_loop room rest ([], False)
          else if t = 28 then
            (case rest of
               [] \<Rightarrow> None
             | fu # data \<Rightarrow>
                 if fu AND 0x80 \<noteq> 0 then
                   let header = (indicator AND 0xE0) OR (fu AND 0x1F) in
                   if room < 5 + length data then None
                   else Some ([0, 0, 0, 1, header] @ data, header AND 0x1F = 5 \<or> header AND 0x1F = 7)
                 else if starting then None
                 else if room < length data then None
                 else Some (data, False))
          else None)"

definition vp8_data_at :: "bytes \<Rightarrow> nat option" where
  "vp8_data_at payload =
     (if payload ! 0 AND 0x80 = 0 then Some 1
      else if length payload \<le> 1 then None
      else
        let x = payload ! 1;
            after_id = (if x AND 0x80 \<noteq> 0 then if length payload \<le> 2 then None else Some (if payload ! 2 AND 0x80 \<noteq> 0 then 4 else 3)
                        else Some 2)
        in map_option (\<lambda>at. at + (if x AND 0x40 \<noteq> 0 then 1 else 0) + (if x AND 0x30 \<noteq> 0 then 1 else 0)) after_id)"

definition vp8_frame_data :: "bytes \<Rightarrow> bool \<Rightarrow> nat \<Rightarrow> (bytes \<times> bool) option" where
  "vp8_frame_data payload starting room =
     (if payload = [] then None
      else case vp8_data_at payload of
        None \<Rightarrow> None
      | Some at \<Rightarrow>
          if length payload < at then None
          else
            let data = drop at payload; d = payload ! 0; frame_start = (d AND 0x10 \<noteq> 0 \<and> d AND 0x07 = 0) in
            if starting \<noteq> frame_start \<or> data = [] then None
            else if room < length data then None
            else Some (data, frame_start \<and> data ! 0 AND 0x01 = 0))"

text \<open>The records of the stream contract. \<open>ea_write\<close> is what one of its writers does with the room left (the
  bytes it used, or none), \<open>ea_header\<close> whether its unit header fits, \<open>ea_unit_header\<close> the length of that header.\<close>

datatype media_record = StreamRec codec packing byte u32 | UnitRec unit_flags u64 bytes | EndRec

record enc_abi =
  ea_write :: "nat \<Rightarrow> media_record \<Rightarrow> nat option"
  ea_header :: "nat \<Rightarrow> unit_flags \<Rightarrow> nat \<Rightarrow> bool"
  ea_unit_header :: nat
  ea_stream_header :: nat

record received_packet =
  rp_codec :: codec
  rp_timestamp :: u32
  rp_marker :: bool
  rp_lost_before :: bool
  rp_payload :: bytes

definition depacketized_max :: "enc_abi \<Rightarrow> nat \<Rightarrow> nat" where
  "depacketized_max e payload = ea_stream_header e + 2 * ea_unit_header e + 4 + payload * 5 div 3 + 4"

record depacketizer =
  dp_codec :: "codec option"
  dp_in_unit :: bool
  dp_unit_ts :: u32
  dp_skip_ts :: "u32 option"
  dp_discontinuity :: bool
  dp_last_ts :: u32
  dp_pts :: u64
  dp_started :: bool

definition depacketizer_new :: depacketizer where
  "depacketizer_new = \<lparr> dp_codec = None, dp_in_unit = False, dp_unit_ts = 0, dp_skip_ts = None, dp_discontinuity = False,
     dp_last_ts = 0, dp_pts = 0, dp_started = False \<rparr>"

definition truncated_end :: "u64 \<Rightarrow> media_record" where
  "truncated_end pts = UnitRec \<lparr> uf_key = False, uf_discontinuity = False, uf_continues = False, uf_truncated = True \<rparr> pts []"

text \<open>What has been written so far: the position in the output and the records. A writer that has no room
  leaves both as they are.\<close>

definition emit_record :: "enc_abi \<Rightarrow> nat \<Rightarrow> media_record \<Rightarrow> nat \<times> media_record list \<Rightarrow> nat \<times> media_record list" where
  "emit_record e out_len r w =
     (case w of (at, rs) \<Rightarrow> (case ea_write e (out_len - at) r of None \<Rightarrow> (at, rs) | Some n \<Rightarrow> (at + n, rs @ [r])))"

definition dp_finish :: "enc_abi \<Rightarrow> nat \<Rightarrow> depacketizer \<Rightarrow> (nat \<times> media_record list) \<times> depacketizer" where
  "dp_finish e out_len d =
     (if dp_codec d = None then ((0, []), d)
      else
        let w1 = (if dp_in_unit d then emit_record e out_len (truncated_end (dp_pts d)) (0, []) else (0, []))
        in (emit_record e out_len EndRec w1, depacketizer_new))"

definition is_audio :: "codec \<Rightarrow> bool" where
  "is_audio c \<longleftrightarrow> c = CODEC_PCMU \<or> c = CODEC_PCMA \<or> c = CODEC_OPUS"

text \<open>The part of \<open>packet\<close> that handles a video payload, after the clock and the loss flag are taken over.\<close>

definition dp_video :: "enc_abi \<Rightarrow> nat \<Rightarrow> received_packet \<Rightarrow> nat \<times> media_record list \<Rightarrow> depacketizer \<Rightarrow>
    (nat \<times> media_record list) \<times> depacketizer" where
  "dp_video e out_len pkt w0 d0 =
     (let ts = rp_timestamp pkt;
          (w, d) = (if dp_in_unit d0 \<and> (ts \<noteq> dp_unit_ts d0 \<or> rp_lost_before pkt) then
                      (emit_record e out_len (truncated_end (dp_pts d0)) w0,
                       d0\<lparr> dp_in_unit := False, dp_discontinuity := True,
                           dp_skip_ts := (if ts = dp_unit_ts d0 then Some ts else dp_skip_ts d0) \<rparr>)
                    else (w0, d0))
      in
        if dp_skip_ts d = Some ts then (w, if rp_marker pkt then d\<lparr> dp_skip_ts := None \<rparr> else d)
        else
          let d1 = d\<lparr> dp_skip_ts := None \<rparr>; at = fst w; room = out_len - (at + ea_unit_header e); starting = (\<not> dp_in_unit d1) in
          case (if rp_codec pkt = CODEC_H264 then h264_to_annexb (rp_payload pkt) starting room
                else vp8_frame_data (rp_payload pkt) starting room) of
            None \<Rightarrow> (w, d1\<lparr> dp_discontinuity := True, dp_skip_ts := (if rp_marker pkt then None else Some ts) \<rparr>)
          | Some (body, key) \<Rightarrow>
              let flags = \<lparr> uf_key = starting \<and> key, uf_discontinuity = starting \<and> dp_discontinuity d1,
                            uf_continues = \<not> rp_marker pkt, uf_truncated = False \<rparr>;
                  d2 = (if starting then d1\<lparr> dp_discontinuity := False \<rparr> else d1)
              in
                if \<not> ea_header e (out_len - at) flags (length body) then (w, d2)
                else ((at + ea_unit_header e + length body, snd w @ [UnitRec flags (dp_pts d2) body]),
                      d2\<lparr> dp_in_unit := \<not> rp_marker pkt, dp_unit_ts := ts \<rparr>))"

definition dp_packet :: "enc_abi \<Rightarrow> nat \<Rightarrow> received_packet \<Rightarrow> depacketizer \<Rightarrow> (nat \<times> media_record list) \<times> depacketizer" where
  "dp_packet e out_len pkt d0 =
     (case received_stream (rp_codec pkt) of
        None \<Rightarrow> ((0, []), d0)
      | Some (packing, channels, clock) \<Rightarrow>
          let (w, d1) = (if dp_codec d0 \<noteq> Some (rp_codec pkt) then
                           case dp_finish e out_len d0 of (w, d) \<Rightarrow>
                             (emit_record e out_len (StreamRec (rp_codec pkt) packing channels clock) w, d\<lparr> dp_codec := Some (rp_codec pkt) \<rparr>)
                         else ((0, []), d0));
              d2 = (if dp_started d1 then d1\<lparr> dp_pts := dp_pts d1 + scast (rp_timestamp pkt - dp_last_ts d1) \<rparr> else d1);
              d3 = d2\<lparr> dp_started := True, dp_last_ts := rp_timestamp pkt,
                       dp_discontinuity := (if rp_lost_before pkt then True else dp_discontinuity d2) \<rparr>
          in
            if is_audio (rp_codec pkt) then
              (emit_record e out_len
                 (UnitRec \<lparr> uf_key = True, uf_discontinuity = dp_discontinuity d3, uf_continues = False, uf_truncated = False \<rparr>
                    (dp_pts d3) (rp_payload pkt)) w,
               d3\<lparr> dp_discontinuity := False \<rparr>)
            else dp_video e out_len pkt w d3)"

section \<open>Driving the packetizer\<close>

text \<open>The caller offers a fragment and calls until nothing more is owed, then offers the next; only the last one is final.\<close>

partial_function (option) drain :: "nat \<Rightarrow> packetizer \<Rightarrow> bytes \<Rightarrow> nat \<Rightarrow> bool \<Rightarrow> (payload_packet list \<times> packetizer) option" where
  "drain out_len s input used fin =
     (case packetizer_next out_len s input used fin of
        (None, _, s') \<Rightarrow> Some ([], s')
      | (Some p, used', s') \<Rightarrow> Option.bind (drain out_len s' input used' fin) (\<lambda>(ps, s''). Some (p # ps, s'')))"

lemma drain_None: "packetizer_next out_len s input used fin = (None, used', s') \<Longrightarrow> drain out_len s input used fin = Some ([], s')"
  by (subst drain.simps) simp

lemma drain_Some:
  "packetizer_next out_len s input used fin = (Some p, used', s') \<Longrightarrow> drain out_len s' input used' fin = Some (ps, s'') \<Longrightarrow>
   drain out_len s input used fin = Some (p # ps, s'')"
  by (subst drain.simps) simp

lemma drain_done: "pz_unit_done s \<Longrightarrow> drain out_len s input used fin = Some ([], s)"
  by (rule drain_None) (simp add: packetizer_next_def)

fun packetize :: "nat \<Rightarrow> packetizer \<Rightarrow> bytes list \<Rightarrow> (payload_packet list \<times> packetizer) option" where
  "packetize out_len s [] = Some ([], s)"
| "packetize out_len s (f # fs) =
     Option.bind (drain out_len s f 0 (fs = [])) (\<lambda>(ps, s'). Option.bind (packetize out_len s' fs) (\<lambda>(qs, s''). Some (ps @ qs, s'')))"

text \<open>What a payload format promises its driver. \<open>inv c P s\<close>: the bytes \<open>c\<close> of the unit have been taken and the packets \<open>P\<close> sent;
  \<open>settled\<close>: all of \<open>c\<close> that has to be held back is; \<open>complete u P\<close>: the packets \<open>P\<close> carry the unit \<open>u\<close>.\<close>

locale payload_format =
  fixes out_len :: nat
    and inv :: "bytes \<Rightarrow> payload_packet list \<Rightarrow> packetizer \<Rightarrow> bool"
    and settled :: "bytes \<Rightarrow> packetizer \<Rightarrow> bool"
    and acceptable :: "bytes \<Rightarrow> bool"
    and complete :: "bytes \<Rightarrow> payload_packet list \<Rightarrow> bool"
    and weight :: "packetizer \<Rightarrow> nat"
  assumes packet: "inv c P s \<Longrightarrow> acceptable (c @ drop used input) \<Longrightarrow> used < length input \<or> used = length input \<and> settled c s \<Longrightarrow>
      packetizer_next out_len s input used fin = (Some p, used', s') \<Longrightarrow>
      if pz_unit_done s' then fin \<and> complete (c @ drop used input) (P @ [p])
      else used \<le> used' \<and> used' < length input \<and> inv (c @ bslice used used' input) (P @ [p]) s' \<and>
        weight s' + 2 * (length input - used') < weight s + 2 * (length input - used)"
    and no_packet: "inv c P s \<Longrightarrow> acceptable (c @ drop used input) \<Longrightarrow> used < length input \<or> used = length input \<and> settled c s \<Longrightarrow>
      packetizer_next out_len s input used fin = (None, used', s') \<Longrightarrow>
      if fin then complete (c @ drop used input) P else inv (c @ drop used input) P s' \<and> settled (c @ drop used input) s'"
    and acceptable_prefix: "acceptable (a @ b) \<Longrightarrow> acceptable a"
begin

lemma drain_fragment:
  assumes "inv c P s" and "acceptable (c @ drop used input)" and "used < length input \<or> used = length input \<and> settled c s"
  shows "\<exists>ps s'. drain out_len s input used fin = Some (ps, s') \<and>
    (if fin then complete (c @ drop used input) (P @ ps)
     else inv (c @ drop used input) (P @ ps) s' \<and> settled (c @ drop used input) s')"
  using assms
proof (induction "weight s + 2 * (length input - used)" arbitrary: c P s used rule: less_induct)
  case less
  obtain r used' s' where n: "packetizer_next out_len s input used fin = (r, used', s')" by (cases "packetizer_next out_len s input used fin")
  show ?case
  proof (cases r)
    case None
    with n have "drain out_len s input used fin = Some ([], s')" by (simp add: drain_None)
    moreover have "if fin then complete (c @ drop used input) P else inv (c @ drop used input) P s' \<and> settled (c @ drop used input) s'"
      using None n by (intro no_packet [OF less.prems]) simp
    ultimately show ?thesis by simp
  next
    case (Some p)
    have n: "packetizer_next out_len s input used fin = (Some p, used', s')" using n Some by simp
    note step = packet [OF less.prems n]
    show ?thesis
    proof (cases "pz_unit_done s'")
      case True
      with step have "drain out_len s input used fin = Some ([p], s')" "fin" "complete (c @ drop used input) (P @ [p])"
        using drain_Some [OF n drain_done] by simp_all
      then show ?thesis by simp
    next
      case False
      have i: "used \<le> used'" "used' < length input" "inv (c @ bslice used used' input) (P @ [p]) s'"
        "weight s' + 2 * (length input - used') < weight s + 2 * (length input - used)"
        using step False by simp_all
      have "bslice used used' input @ drop used' input = drop used input"
        using i(1,2) bslice_split [of used used' "length input" input] by (simp add: bslice_def)
      then have e: "(c @ bslice used used' input) @ drop used' input = c @ drop used input" by simp
      obtain ps s'' where d: "drain out_len s' input used' fin = Some (ps, s'')"
        and r: "if fin then complete (c @ drop used input) ((P @ [p]) @ ps)
         else inv (c @ drop used input) ((P @ [p]) @ ps) s'' \<and> settled (c @ drop used input) s''"
        using less.hyps [OF i(4,3)] less.prems(2) i(2) unfolding e by blast
      from drain_Some [OF n d] r show ?thesis by (cases fin) simp_all
    qed
  qed
qed

lemma packetize_from:
  assumes "fs \<noteq> []" and "inv c P s" and "settled c s" and "acceptable (c @ concat fs)"
  shows "\<exists>ps s'. packetize out_len s fs = Some (ps, s') \<and> complete (c @ concat fs) (P @ ps)"
  using assms
proof (induction fs arbitrary: c P s)
  case (Cons f fs)
  have "acceptable (c @ f)" using Cons.prems(4) acceptable_prefix [of "c @ f" "concat fs"] by simp
  moreover have "0 < length f \<or> 0 = length f \<and> settled c s" using Cons.prems(3) by auto
  ultimately obtain ps s' where d: "drain out_len s f 0 (fs = []) = Some (ps, s')"
    "if fs = [] then complete (c @ f) (P @ ps) else inv (c @ f) (P @ ps) s' \<and> settled (c @ f) s'"
    using drain_fragment [of c P s 0 f "fs = []", unfolded drop_0] Cons.prems(2,3) by blast
  show ?case
  proof (cases "fs = []")
    case True
    with d show ?thesis by simp
  next
    case False
    with d(2) Cons.prems(4) obtain qs s'' where "packetize out_len s' fs = Some (qs, s'')" "complete ((c @ f) @ concat fs) ((P @ ps) @ qs)"
      using Cons.IH [of "c @ f" "P @ ps" s'] by auto
    with d(1) show ?thesis by simp
  qed
qed simp

end

section \<open>VP8: a frame is carried whole\<close>

text \<open>The payloads of a frame read by the receiver, one after the other: the first must begin the frame.\<close>

fun unpack_all :: "(bytes \<Rightarrow> bool \<Rightarrow> (bytes \<times> bool) option) \<Rightarrow> bool \<Rightarrow> bytes list \<Rightarrow> bytes option" where
  "unpack_all f starting [] = Some []"
| "unpack_all f starting (p # ps) = Option.bind (f p starting) (\<lambda>(b, _). map_option ((@) b) (unpack_all f False ps))"

lemma unpack_all_append:
  "unpack_all f st (ps @ qs) = Option.bind (unpack_all f st ps) (\<lambda>a. map_option ((@) a) (unpack_all f (st \<and> ps = []) qs))"
proof (induction ps arbitrary: st)
  case Nil
  show ?case by (cases "unpack_all f st qs") simp_all
next
  case (Cons p ps)
  show ?case
  proof (cases "f p st")
    case (Some r)
    then show ?thesis
      by (cases "unpack_all f False ps"; cases "unpack_all f (st \<and> False) qs")
         (auto simp: Cons.IH split: prod.splits)
  qed simp
qed

abbreviation (input) vp8_unpack :: "nat \<Rightarrow> bytes list \<Rightarrow> bytes option" where
  "vp8_unpack room \<equiv> unpack_all (\<lambda>p st. vp8_frame_data p st room) True"

definition markers_last :: "payload_packet list \<Rightarrow> bool" where
  "markers_last P \<longleftrightarrow> P \<noteq> [] \<and> snd (last P) \<and> list_all (\<lambda>p. \<not> snd p) (butlast P)"

definition vp8_inv :: "nat \<Rightarrow> nat \<Rightarrow> nat \<Rightarrow> bytes \<Rightarrow> payload_packet list \<Rightarrow> packetizer \<Rightarrow> bool" where
  "vp8_inv out_len room mtu c P s \<longleftrightarrow>
     pz_codec s = CODEC_VP8 \<and> pz_mtu s = mtu \<and> 16 \<le> mtu \<and> mtu \<le> out_len \<and> mtu \<le> room \<and> \<not> pz_unit_done s \<and> \<not> pz_held s \<and>
     length (pz_pending s) \<le> mtu - 1 \<and> (pz_frame_first s \<longleftrightarrow> P = []) \<and> list_all (\<lambda>p. \<not> snd p \<and> length (fst p) \<le> mtu) P \<and>
     (\<exists>y. vp8_unpack room (map fst P) = Some y \<and> c = y @ pz_pending s)"

definition vp8_complete :: "nat \<Rightarrow> nat \<Rightarrow> bytes \<Rightarrow> payload_packet list \<Rightarrow> bool" where
  "vp8_complete room mtu u P \<longleftrightarrow>
     vp8_unpack room (map fst P) = Some u \<and> list_all (\<lambda>p. length (fst p) \<le> mtu) P \<and> (u \<noteq> [] \<longrightarrow> markers_last P)"

lemma vp8_payload_read:
  "0 < length data \<Longrightarrow> length data \<le> room \<Longrightarrow>
   vp8_frame_data ((if first then 0x10 else 0) # data) first room = Some (data, first \<and> data ! 0 AND 0x01 = 0)"
  by (auto simp: vp8_frame_data_def vp8_data_at_def)

lemma vp8_packet_sent:
  assumes "vp8_inv out_len room mtu c P s" and "pz_pending s \<noteq> []" and "vp8_packet marker s = (p, s')"
  shows "vp8_unpack room (map fst (P @ [p])) = Some c" "snd p = marker" "length (fst p) \<le> mtu"
    "pz_pending s' = []" "s' = s\<lparr> pz_frame_first := False, pz_pending := [] \<rparr>"
proof -
  obtain y where y: "vp8_unpack room (map fst P) = Some y" "c = y @ pz_pending s" using assms(1) by (auto simp: vp8_inv_def)
  have p: "p = ((if pz_frame_first s then 0x10 else 0) # pz_pending s, marker)" and s': "s' = s\<lparr> pz_frame_first := False, pz_pending := [] \<rparr>"
    using assms(3) by (auto simp: vp8_packet_def)
  have "vp8_frame_data (fst p) (P = []) room = Some (pz_pending s, P = [] \<and> pz_pending s ! 0 AND 0x01 = 0)"
    using assms(1,2) vp8_payload_read [of "pz_pending s" room "P = []"] by (auto simp: p vp8_inv_def)
  then show "vp8_unpack room (map fst (P @ [p])) = Some c"
    using y by (simp add: unpack_all_append)
  show "snd p = marker" "length (fst p) \<le> mtu" "pz_pending s' = []" "s' = s\<lparr> pz_frame_first := False, pz_pending := [] \<rparr>"
    using assms(1) by (auto simp: p s' vp8_inv_def)
qed

lemma vp8_inv_take:
  "vp8_inv out_len room mtu c P s \<Longrightarrow> length (pz_pending s) + length xs \<le> mtu - 1 \<Longrightarrow>
   vp8_inv out_len room mtu (c @ xs) P (s\<lparr> pz_pending := pz_pending s @ xs \<rparr>)"
  by (auto simp: vp8_inv_def)

definition vp8_settled :: "bytes \<Rightarrow> packetizer \<Rightarrow> bool" where
  "vp8_settled c s \<longleftrightarrow> (c = [] \<or> pz_pending s \<noteq> [])"

definition pz_weight :: "packetizer \<Rightarrow> nat" where
  "pz_weight s = (if pz_pending s \<noteq> [] \<or> pz_held s then 1 else 0)"

lemma vp8_step:
  assumes "vp8_inv out_len room mtu c P s" and "used < length input \<or> used = length input \<and> vp8_settled c s"
    and "next_vp8 s input used fin = (r, used', s')"
  shows "(case r of
      None \<Rightarrow> if fin then vp8_complete room mtu (c @ drop used input) P
              else vp8_inv out_len room mtu (c @ drop used input) P s' \<and> vp8_settled (c @ drop used input) s'
    | Some p \<Rightarrow>
        if pz_unit_done s' then fin \<and> vp8_complete room mtu (c @ drop used input) (P @ [p])
        else used \<le> used' \<and> used' < length input \<and> vp8_inv out_len room mtu (c @ bslice used used' input) (P @ [p]) s' \<and>
          pz_weight s' + 2 * (length input - used') < pz_weight s + 2 * (length input - used))"
  using assms
proof (induction s input used fin arbitrary: c rule: next_vp8.induct)
  case (1 s input used fin)
  note inv = "1.prems"(1)
  have m: "pz_mtu s = mtu" "16 \<le> mtu" using inv by (auto simp: vp8_inv_def)
  consider (full) "used < length input" "mtu - 1 \<le> length (pz_pending s)" | (more) "used < length input" "length (pz_pending s) < mtu - 1"
    | (over) "used = length input"
    using "1.prems"(2) by linarith
  then show ?case
  proof cases
    case full
    then obtain p where p: "vp8_packet False s = (p, s')" "r = Some p" "used' = used"
      using "1.prems"(3) m by (auto simp: next_vp8.simps [of s input used fin] Let_def split: prod.splits)
    have ne: "pz_pending s \<noteq> []" using full m by auto
    note q = vp8_packet_sent [OF inv ne p(1)]
    have "vp8_inv out_len room mtu c (P @ [p]) s'" "\<not> pz_unit_done s'"
      using inv q by (auto simp: vp8_inv_def)
    moreover have "pz_weight s' < pz_weight s" using ne q(4,5) inv by (simp add: pz_weight_def vp8_inv_def)
    ultimately show ?thesis using p full ne by (simp add: bslice_def)
  next
    case more
    define k where "k = min (mtu - 1 - length (pz_pending s)) (length input - used)"
    define t where "t = s\<lparr> pz_pending := pz_pending s @ take k (drop used input) \<rparr>"
    have k: "0 < k" "used + k \<le> length input" "length (take k (drop used input)) = k" using more by (auto simp: k_def)
    have n: "next_vp8 t input (used + k) fin = (r, used', s')"
      using "1.prems"(3) more m by (simp add: next_vp8.simps [of s input used fin] Let_def k_def t_def)
    have e: "bslice used (used + k) input = take k (drop used input)" by (simp add: bslice_def drop_take)
    have i: "vp8_inv out_len room mtu (c @ take k (drop used input)) P t"
      unfolding t_def using more k by (intro vp8_inv_take [OF inv]) (simp add: k_def)
    have t: "pz_pending t \<noteq> []" using k by (auto simp: t_def)
    have a: "(c @ take k (drop used input)) @ drop (used + k) input = c @ drop used input"
      by (simp add: add.commute flip: drop_drop)
    have b: "used + k \<le> used' \<Longrightarrow> (c @ take k (drop used input)) @ bslice (used + k) used' input = c @ bslice used used' input"
      using bslice_split [of used "used + k" used' input] by (simp add: e)
    have w: "pz_weight t + 2 * (length input - (used + k)) < pz_weight s + 2 * (length input - used)"
      using k by (auto simp: pz_weight_def)
    note ih = "1.IH" [unfolded m, OF refl more(1) _ refl i [unfolded t_def k_def] _ n [unfolded t_def k_def], folded k_def, folded t_def]
    have "used + k < length input \<or> used + k = length input \<and> vp8_settled (c @ take k (drop used input)) t"
      using k t by (auto simp: vp8_settled_def)
    from ih [OF _ this] more show ?thesis unfolding a
      using b w by (auto split: option.splits if_splits)
  next
    case over
    then show ?thesis
    proof (cases "fin \<and> pz_pending s \<noteq> []")
      case True
      let ?s = "s\<lparr> pz_unit_done := True \<rparr>"
      obtain p where p: "vp8_packet True ?s = (p, s')" "r = Some p"
        using "1.prems"(3) [unfolded next_vp8.simps [of s input used fin]] over True by (auto simp: Let_def split: prod.splits)
      have "vp8_packet True s = (p, s\<lparr> pz_frame_first := False, pz_pending := [] \<rparr>)" "pz_unit_done s'"
        using p(1) by (auto simp: vp8_packet_def)
      with vp8_packet_sent [OF inv _ this(1)] True inv over p(2) show ?thesis
        by (simp add: vp8_complete_def markers_last_def vp8_inv_def list_all_iff)
    next
      case False
      with "1.prems"(3) over have r: "r = None" "\<not> fin \<longrightarrow> s' = s" "fin \<longrightarrow> pz_pending s = []"
        unfolding next_vp8.simps [of s input used fin] by (auto simp: Let_def split: if_splits prod.splits)
      with "1.prems"(2) over inv show ?thesis
        by (auto simp: vp8_complete_def vp8_inv_def vp8_settled_def list_all_iff)
    qed
  qed
qed

interpretation vp8: payload_format out_len "vp8_inv out_len room mtu" vp8_settled "\<lambda>_. True" "vp8_complete room mtu" pz_weight
  for out_len room mtu
proof unfold_locales
  fix c P s used and input :: bytes and fin p used' s'
  assume i: "vp8_inv out_len room mtu c P s" "used < length input \<or> used = length input \<and> vp8_settled c s"
  have n: "packetizer_next out_len s input used fin = next_vp8 s input used fin"
    using i(1) by (simp add: packetizer_next_def vp8_inv_def)
  show "if pz_unit_done s' then fin \<and> vp8_complete room mtu (c @ drop used input) (P @ [p])
      else used \<le> used' \<and> used' < length input \<and> vp8_inv out_len room mtu (c @ bslice used used' input) (P @ [p]) s' \<and>
        pz_weight s' + 2 * (length input - used') < pz_weight s + 2 * (length input - used)"
    if "packetizer_next out_len s input used fin = (Some p, used', s')"
    using vp8_step [OF i] that unfolding n by fastforce
  show "if fin then vp8_complete room mtu (c @ drop used input) P
      else vp8_inv out_len room mtu (c @ drop used input) P s' \<and> vp8_settled (c @ drop used input) s'"
    if "packetizer_next out_len s input used fin = (None, used', s')"
    using vp8_step [OF i] that unfolding n by fastforce
qed

section \<open>H.264: the NAL units of an access unit are carried whole\<close>

text \<open>The stream of NAL units read byte by byte: the splitter without its buffer. The last component says that a NAL unit
  has just ended. A NAL unit whose type is not one of a single unit (1 to 23) is not accepted.\<close>

type_synonym split_state = "nal \<times> u32 \<times> nat \<times> bool"

definition nal_type_ok :: "byte \<Rightarrow> bool" where
  "nal_type_ok h \<longleftrightarrow> 1 \<le> h AND 0x1F \<and> h AND 0x1F \<le> 23"

fun nal_split :: "packing \<Rightarrow> nat \<Rightarrow> split_state \<Rightarrow> byte \<Rightarrow> (split_state \<times> bytes) option" where
  "nal_split pk ls (NalSeeking, n, z, e) b =
     Some ((if b = 0 then (NalSeeking, n, min (z + 1) 3, False)
            else (if b = 1 \<and> 2 \<le> z then NalHeader else NalSeeking, n, 0, False)), [])"
| "nal_split pk ls (NalLength rd, n, z, e) b =
     (let n' = (if rd = 0 then 0 else push_bit 8 n) OR ucast b
      in Some ((if rd + 1 = ls then if n' = 0 then NalLength 0 else NalHeader else NalLength (rd + 1), n', z, False), []))"
| "nal_split pk ls (NalHeader, n, z, e) b =
     (if \<not> nal_type_ok b then None
      else Some ((if pk = PACKING_LENGTH_PREFIXED then if n - 1 = 0 then (NalLength 0, n - 1, 0, True) else (NalBody, n - 1, 0, False)
                  else (NalBody, n, 0, False)), [0, 0, 0, 1, b]))"
| "nal_split pk ls (NalBody, n, z, e) b =
     (if pk = PACKING_ANNEXB then
        Some (if b = 0 then ((NalBody, n, min (z + 1) 3, False), [])
              else if b = 1 \<and> 2 \<le> z then ((NalHeader, n, 0, True), [])
              else ((NalBody, n, 0, False), replicate z 0 @ [b]))
      else Some ((if n - 1 = 0 then (NalLength 0, n - 1, z, True) else (NalBody, n - 1, z, False)), [b]))"

fun nal_run :: "packing \<Rightarrow> nat \<Rightarrow> split_state \<Rightarrow> bytes \<Rightarrow> (split_state \<times> bytes) option" where
  "nal_run pk ls st [] = Some (st, [])"
| "nal_run pk ls st (b # bs) =
     Option.bind (nal_split pk ls st b) (\<lambda>(st', o1). map_option (\<lambda>(st'', o2). (st'', o1 @ o2)) (nal_run pk ls st' bs))"

lemma nal_run_append:
  "nal_run pk ls st (a @ b) = Option.bind (nal_run pk ls st a) (\<lambda>(st', o1). map_option (\<lambda>(st'', o2). (st'', o1 @ o2)) (nal_run pk ls st' b))"
proof (induction a arbitrary: st)
  case Nil
  show ?case by (cases "nal_run pk ls st b") auto
next
  case (Cons x a)
  show ?case
  proof (cases "nal_split pk ls st x")
    case (Some r)
    obtain st' o1 where r: "r = (st', o1)" by (cases r)
    show ?thesis
    proof (cases "nal_run pk ls st' a")
      case (Some q)
      then show ?thesis using \<open>nal_split pk ls st x = Some r\<close> r
        by (cases q; cases "nal_run pk ls (fst q) b") (auto simp: Cons.IH)
    qed (simp add: Some r Cons.IH)
  qed simp
qed

lemma nal_run_prefix: "nal_run pk ls st (a @ b) \<noteq> None \<Longrightarrow> nal_run pk ls st a \<noteq> None"
  by (cases "nal_run pk ls st a") (simp_all add: nal_run_append)

lemma nal_run_body:
  "pk \<noteq> PACKING_ANNEXB \<Longrightarrow> length xs \<le> unat n \<Longrightarrow> xs \<noteq> [] \<Longrightarrow>
   nal_run pk ls (NalBody, n, z, e) xs =
     Some ((if n - of_nat (length xs) = 0 then (NalLength 0, 0, z, True) else (NalBody, n - of_nat (length xs), z, False)), xs)"
proof (induction xs arbitrary: n e)
  case (Cons x xs)
  have n: "n \<noteq> 0" using Cons.prems(2) by (auto simp: unat_eq_0 [symmetric])
  then have u: "unat (n - 1) = unat n - 1" by (rule unat_minus_one)
  show ?case
  proof (cases "xs = []")
    case False
    with Cons.prems u have l: "length xs \<le> unat (n - 1)" and "unat (n - 1) \<noteq> 0" by (cases xs; simp)+
    then have "n - 1 \<noteq> 0" by (simp add: unat_eq_0)
    with Cons.IH [OF Cons.prems(1) l False] Cons.prems(1) show ?thesis by (simp add: algebra_simps)
  qed (use Cons.prems(1) in simp)
qed simp

text \<open>What the bytes held back will read as when they are sent.\<close>

definition nal_open :: "packetizer \<Rightarrow> bool" where
  "nal_open s \<longleftrightarrow> pz_held s \<or> pz_nal s = NalBody"

definition held_back :: "packetizer \<Rightarrow> bytes" where
  "held_back s =
     (if nal_open s then (if pz_fragmented s then pz_pending s else [0, 0, 0, 1, pz_nal_header s] @ pz_pending s) else [])"

abbreviation (input) h264_unpack :: "nat \<Rightarrow> bytes list \<Rightarrow> bytes option" where
  "h264_unpack room \<equiv> unpack_all (\<lambda>p st. h264_to_annexb p st room) True"

definition h264_config :: "nat \<Rightarrow> nat \<Rightarrow> packing \<Rightarrow> nat \<Rightarrow> nat \<Rightarrow> packetizer \<Rightarrow> bool" where
  "h264_config out_len room pk ls mtu s \<longleftrightarrow>
     pz_codec s = CODEC_H264 \<and> pz_packing s = pk \<and> pz_len_size s = ls \<and> pz_mtu s = mtu \<and> 16 \<le> mtu \<and> mtu \<le> out_len \<and> mtu + 4 \<le> room \<and>
     (pk = PACKING_ANNEXB \<or> pk = PACKING_LENGTH_PREFIXED) \<and> pz_ps_left s = 0 \<and> \<not> pz_ps_pps_pending s \<and> \<not> pz_unit_done s"

definition h264_buffer :: "nat \<Rightarrow> packing \<Rightarrow> packetizer \<Rightarrow> bool" where
  "h264_buffer mtu pk s \<longleftrightarrow>
     pz_zeros s \<le> 3 \<and> length (pz_pending s) \<le> mtu - 2 \<and> (nal_open s \<longrightarrow> nal_type_ok (pz_nal_header s)) \<and>
     (pk = PACKING_LENGTH_PREFIXED \<longrightarrow> pz_nal s = NalHeader \<or> pz_nal s = NalBody \<longrightarrow> pz_nal_len s \<noteq> 0) \<and>
     (pk = PACKING_LENGTH_PREFIXED \<longrightarrow> pz_nal s \<noteq> NalSeeking) \<and>
     (pk = PACKING_LENGTH_PREFIXED \<longrightarrow> pz_held s \<longrightarrow> pz_nal s = NalLength 0) \<and>
     (pk = PACKING_ANNEXB \<longrightarrow> pz_held s \<longrightarrow> pz_nal s = NalHeader)"

definition h264_inv :: "nat \<Rightarrow> nat \<Rightarrow> packing \<Rightarrow> nat \<Rightarrow> nat \<Rightarrow> split_state \<Rightarrow> bytes \<Rightarrow> payload_packet list \<Rightarrow> packetizer \<Rightarrow> bool" where
  "h264_inv out_len room pk ls mtu st0 c P s \<longleftrightarrow>
     h264_config out_len room pk ls mtu s \<and> h264_buffer mtu pk s \<and>
     list_all (\<lambda>p. \<not> snd p \<and> length (fst p) \<le> mtu) P \<and> (nal_open s \<longrightarrow> pz_fragmented s \<longrightarrow> P \<noteq> []) \<and>
     (\<exists>e y. nal_run pk ls st0 c = Some ((pz_nal s, pz_nal_len s, pz_zeros s, e), y @ held_back s) \<and>
        h264_unpack room (map fst P) = Some y \<and> (pz_held s \<longrightarrow> e))"

definition h264_settled :: "packing \<Rightarrow> nat \<Rightarrow> split_state \<Rightarrow> bytes \<Rightarrow> packetizer \<Rightarrow> bool" where
  "h264_settled pk ls st0 c s \<longleftrightarrow> (\<forall>n l z w. nal_run pk ls st0 c = Some ((n, l, z, True), w) \<longrightarrow> pz_held s)"

definition h264_complete :: "nat \<Rightarrow> packing \<Rightarrow> nat \<Rightarrow> nat \<Rightarrow> split_state \<Rightarrow> bytes \<Rightarrow> payload_packet list \<Rightarrow> bool" where
  "h264_complete room pk ls mtu st0 u P \<longleftrightarrow>
     (\<exists>n l z e y. nal_run pk ls st0 u = Some ((n, l, z, e), y) \<and> h264_unpack room (map fst P) = Some y \<and>
        list_all (\<lambda>p. length (fst p) \<le> mtu) P \<and> (e \<or> n = NalBody \<longrightarrow> markers_last P))"

text \<open>Sending what is held back, whole or as a fragment.\<close>

lemma byte_bits_eqI: "(\<And>n. n \<in> {0, 1, 2, 3, 4, 5, 6, 7 :: nat} \<Longrightarrow> bit a n = bit b n) \<Longrightarrow> a = (b :: byte)"
proof (rule bit_word_eqI)
  fix n assume a: "\<And>n. n \<in> {0, 1, 2, 3, 4, 5, 6, 7 :: nat} \<Longrightarrow> bit a n = bit b n" and n: "n < LENGTH(8)"
  from n have "n < 8" by simp
  then have "n = 0 \<or> n = 1 \<or> n = 2 \<or> n = 3 \<or> n = 4 \<or> n = 5 \<or> n = 6 \<or> n = 7" by arith
  then show "bit a n = bit b n" by (intro a) auto
qed

lemma fu_bytes:
  "((h AND 0xE0) OR 28) AND 0x1F = (28 :: byte)"
  "((h AND 0xE0) OR 28) AND 0xE0 = (h AND 0xE0 :: byte)"
  "((0x80 OR (if fin then 0x40 else 0)) OR (h AND 0x1F)) AND 0x1F = (h AND 0x1F :: byte)"
  "(h AND 0xE0) OR (h AND 0x1F) = (h :: byte)"
  by (rule byte_bits_eqI, auto simp: bit_simps)+

lemma fu_start_bit:
  "(((if fragmented then 0 else 0x80) OR (if fin then 0x40 else 0)) OR (h AND 0x1F)) AND (0x80 :: byte) \<noteq> 0 \<longleftrightarrow> \<not> fragmented"
  unfolding and_bit_mask by (auto simp: bit_simps)

lemma fu_read:
  assumes "5 + length data \<le> room" and "fragmented \<longrightarrow> \<not> starting"
  shows "\<exists>k. h264_to_annexb (((h AND 0xE0) OR 28) # (((if fragmented then 0 else 0x80) OR (if fin then 0x40 else 0)) OR (h AND 0x1F)) # data)
      starting room = Some (if fragmented then data else [0, 0, 0, 1, h] @ data, k)"
proof -
  have "\<not> (1 \<le> (28 :: byte) \<and> (28 :: byte) \<le> 23)" "(28 :: byte) \<noteq> 24" by simp_all
  then show ?thesis using assms
    by (cases fragmented) (auto simp: h264_to_annexb_def fu_bytes fu_start_bit [where fragmented = True, simplified]
        fu_start_bit [where fragmented = False, simplified] Let_def)
qed

lemma single_read:
  assumes "nal_type_ok h" and "5 + length data \<le> room"
  shows "\<exists>k. h264_to_annexb (h # data) starting room = Some ([0, 0, 0, 1, h] @ data, k)"
  using assms by (simp add: h264_to_annexb_def nal_type_ok_def put_nal_def Let_def)

lemma close_nal_read:
  assumes "nal_type_ok (pz_nal_header s)" and "5 + length (pz_pending s) \<le> room" and "pz_fragmented s \<longrightarrow> \<not> starting"
    and "close_nal marker s = (p, s')"
  shows "\<exists>k. h264_to_annexb (fst p) starting room =
      Some (if pz_fragmented s then pz_pending s else [0, 0, 0, 1, pz_nal_header s] @ pz_pending s, k)"
    "snd p = marker" "length (fst p) \<le> length (pz_pending s) + 2"
    "s' = s\<lparr> pz_pending := [] \<rparr>"
proof -
  have "\<exists>k. h264_to_annexb (fst p) starting room =
      Some (if pz_fragmented s then pz_pending s else [0, 0, 0, 1, pz_nal_header s] @ pz_pending s, k) \<and> snd p = marker \<and>
      length (fst p) \<le> length (pz_pending s) + 2 \<and> s' = s\<lparr> pz_pending := [] \<rparr>"
  proof (cases "pz_fragmented s")
    case True
    with assms fu_read [of "pz_pending s" room True starting "pz_nal_header s" True] show ?thesis
      by (auto simp: close_nal_def fu_a_def)
  next
    case False
    with assms single_read [of "pz_nal_header s" "pz_pending s" room starting] show ?thesis by (auto simp: close_nal_def)
  qed
  then show "\<exists>k. h264_to_annexb (fst p) starting room =
      Some (if pz_fragmented s then pz_pending s else [0, 0, 0, 1, pz_nal_header s] @ pz_pending s, k)"
    "snd p = marker" "length (fst p) \<le> length (pz_pending s) + 2" "s' = s\<lparr> pz_pending := [] \<rparr>" by blast+
qed

lemma unpack_all_snoc:
  "unpack_all f True ps = Some y \<Longrightarrow> f p (ps = []) = Some (b, k) \<Longrightarrow> unpack_all f True (ps @ [p]) = Some (y @ b)"
  by (simp add: unpack_all_append)

text \<open>A packet leaves the loop.\<close>

lemma h264_turn_packet:
  assumes inv: "h264_inv out_len room pk ls mtu st0 c P s" and t: "h264_turn s input used = Inl (p, s')"
  shows "h264_inv out_len room pk ls mtu st0 c (P @ [p]) s'" "pz_weight s' < pz_weight s"
proof -
  have cfg: "h264_config out_len room pk ls mtu s" and buf: "h264_buffer mtu pk s"
    and P: "list_all (\<lambda>p. \<not> snd p \<and> length (fst p) \<le> mtu) P" and frag: "nal_open s \<Longrightarrow> pz_fragmented s \<Longrightarrow> P \<noteq> []"
    using inv by (auto simp: h264_inv_def)
  obtain e y where run: "nal_run pk ls st0 c = Some ((pz_nal s, pz_nal_len s, pz_zeros s, e), y @ held_back s)"
    and y: "h264_unpack room (map fst P) = Some y" and e: "pz_held s \<Longrightarrow> e"
    using inv by (auto simp: h264_inv_def)
  have room: "5 + length (pz_pending s) \<le> room" and m: "16 \<le> mtu" "length (pz_pending s) + 2 \<le> mtu" "pz_mtu s = mtu"
    using cfg buf by (auto simp: h264_config_def h264_buffer_def)
  have "h264_inv out_len room pk ls mtu st0 c (P @ [p]) s' \<and> pz_weight s' < pz_weight s"
  proof (cases "pz_held s")
    case True
    then have "close_nal False (s\<lparr> pz_held := False \<rparr>) = (p, s')" using t by (simp add: h264_turn_def)
    moreover have o: "nal_open s" using True by (simp add: nal_open_def)
    ultimately obtain k where k: "h264_to_annexb (fst p) (map fst P = []) room = Some (held_back s, k)"
      and p: "\<not> snd p" "length (fst p) \<le> mtu" and s': "s' = s\<lparr> pz_held := False, pz_pending := [] \<rparr>"
      using close_nal_read [of "s\<lparr> pz_held := False \<rparr>" room "map fst P = []" False p s'] buf room frag m
      by (auto simp: held_back_def h264_buffer_def)
    have c: "\<not> nal_open s'" using buf cfg True by (auto simp: s' nal_open_def h264_buffer_def h264_config_def)
    then have hb: "held_back s' = []" by (simp add: held_back_def)
    have "h264_unpack room (map fst (P @ [p])) = Some (y @ held_back s)"
      using unpack_all_snoc [OF y k] by simp
    then have "\<exists>e y. nal_run pk ls st0 c = Some ((pz_nal s', pz_nal_len s', pz_zeros s', e), y @ held_back s') \<and>
        h264_unpack room (map fst (P @ [p])) = Some y \<and> (pz_held s' \<longrightarrow> e)"
      unfolding hb using run by (auto simp: s')
    moreover have "h264_config out_len room pk ls mtu s'" "h264_buffer mtu pk s'"
      using cfg buf c by (auto simp: s' h264_config_def h264_buffer_def)
    ultimately have "h264_inv out_len room pk ls mtu st0 c (P @ [p]) s'"
      unfolding h264_inv_def using P p c by simp
    then show ?thesis using True by (simp add: pz_weight_def s')
  next
    case False
    then have b: "pz_nal s = NalBody" and f: "fu_a False s = (p, s')" and big: "mtu - 2 < length (pz_pending s) + (pz_zeros s + 1)"
      using t m by (auto simp: h264_turn_def Let_def split: nal.splits if_splits)
    have o: "nal_open s" using b by (simp add: nal_open_def)
    have p: "p = (((pz_nal_header s AND 0xE0) OR 28) #
        (((if pz_fragmented s then 0 else 0x80) OR (if False then 0x40 else 0)) OR (pz_nal_header s AND 0x1F)) # pz_pending s, False)"
      and s': "s' = s\<lparr> pz_fragmented := True, pz_pending := [] \<rparr>"
      using f by (simp_all add: fu_a_def or.assoc)
    have "pz_fragmented s \<longrightarrow> \<not> (map fst P = [])" using frag o by simp
    from fu_read [OF room this, of "pz_nal_header s" False]
    obtain k where k: "h264_to_annexb (fst p) (map fst P = []) room = Some (held_back s, k)"
      using o by (auto simp: p held_back_def)
    have hb: "held_back s' = []" "nal_open s'" using b by (auto simp: s' held_back_def nal_open_def)
    have "h264_unpack room (map fst (P @ [p])) = Some (y @ held_back s)"
      using unpack_all_snoc [OF y k] by simp
    then have "\<exists>e y. nal_run pk ls st0 c = Some ((pz_nal s', pz_nal_len s', pz_zeros s', e), y @ held_back s') \<and>
        h264_unpack room (map fst (P @ [p])) = Some y \<and> (pz_held s' \<longrightarrow> e)"
      unfolding hb(1) using run False by (auto simp: s')
    moreover have "h264_config out_len room pk ls mtu s'" "h264_buffer mtu pk s'"
      using cfg buf o b False by (auto simp: s' h264_config_def h264_buffer_def nal_open_def)
    ultimately have "h264_inv out_len room pk ls mtu st0 c (P @ [p]) s'"
      unfolding h264_inv_def using P m by (simp add: p)
    moreover have "pz_pending s \<noteq> []" using big m buf by (auto simp: h264_buffer_def)
    ultimately show ?thesis using False by (simp add: pz_weight_def s')
  qed
  then show "h264_inv out_len room pk ls mtu st0 c (P @ [p]) s'" "pz_weight s' < pz_weight s" by simp_all
qed

text \<open>The loop goes on: the bytes it took have been split.\<close>

lemma nal_run_snoc:
  "nal_run pk ls st0 c = Some (st, y) \<Longrightarrow> nal_split pk ls st b = Some (st', o1) \<Longrightarrow> nal_run pk ls st0 (c @ [b]) = Some (st', y @ o1)"
  by (simp add: nal_run_append)

lemma h264_turn_byte:
  assumes inv: "h264_inv out_len room pk ls mtu st0 c P s" and ok: "nal_run pk ls st0 (c @ [b]) \<noteq> None"
    and t: "h264_turn s input used = Inr (used', s')" and b: "b = input ! used" and u: "used' = used + 1"
    and nb: "\<not> (pz_nal s = NalBody \<and> pk = PACKING_LENGTH_PREFIXED)"
  shows "h264_inv out_len room pk ls mtu st0 (c @ [b]) P s' \<and> h264_settled pk ls st0 (c @ [b]) s'"
proof -
  have cfg: "h264_config out_len room pk ls mtu s" and buf: "h264_buffer mtu pk s"
    and P: "list_all (\<lambda>p. \<not> snd p \<and> length (fst p) \<le> mtu) P" and frag: "nal_open s \<longrightarrow> pz_fragmented s \<longrightarrow> P \<noteq> []"
    using inv by (auto simp: h264_inv_def)
  obtain e y where run: "nal_run pk ls st0 c = Some ((pz_nal s, pz_nal_len s, pz_zeros s, e), y @ held_back s)"
    and y: "h264_unpack room (map fst P) = Some y"
    using inv by (auto simp: h264_inv_def)
  have h: "\<not> pz_held s" using t by (auto simp: h264_turn_def)
  have pk: "pz_packing s = pk" "pz_len_size s = ls" "pk = PACKING_ANNEXB \<or> pk = PACKING_LENGTH_PREFIXED" "pz_mtu s = mtu"
    using cfg by (auto simp: h264_config_def)
  obtain st' o1 where sp: "nal_split pk ls (pz_nal s, pz_nal_len s, pz_zeros s, e) b = Some (st', o1)"
    using ok run by (auto simp: nal_run_append split: option.splits)
  note run' = nal_run_snoc [OF run sp]
  have "st' = (pz_nal s', pz_nal_len s', pz_zeros s', pz_held s') \<and> held_back s @ o1 = held_back s' \<and>
      h264_config out_len room pk ls mtu s' \<and> h264_buffer mtu pk s' \<and> (nal_open s' \<longrightarrow> pz_fragmented s' \<longrightarrow> P \<noteq> [])"
  proof (cases "pz_nal s")
    case NalSeeking
    have s': "s' = (if b = 0 then s\<lparr> pz_zeros := min (pz_zeros s + 1) 3 \<rparr>
        else s\<lparr> pz_nal := (if b = 1 \<and> 2 \<le> pz_zeros s then NalHeader else NalSeeking), pz_zeros := 0 \<rparr>)"
      using t h NalSeeking b by (auto simp: h264_turn_def Let_def)
    have c: "h264_config out_len room pk ls mtu s'" using cfg by (simp add: s' h264_config_def)
    have n: "\<not> nal_open s" "\<not> nal_open s'" using h NalSeeking by (auto simp: s' nal_open_def)
    have "h264_buffer mtu pk s' \<and> o1 = [] \<and> st' = (pz_nal s', pz_nal_len s', pz_zeros s', pz_held s')"
      using buf n sp NalSeeking h pk(3) by (auto simp: s' h264_buffer_def nal_open_def)
    with c n show ?thesis by (simp add: held_back_def)
  next
    case (NalLength rd)
    define n where "n = (if rd = 0 then 0 else push_bit 8 (pz_nal_len s)) OR ucast b"
    define q where "q = (if rd + 1 = ls then if n = 0 then NalLength 0 else NalHeader else NalLength (rd + 1))"
    have s': "s' = s\<lparr> pz_nal_len := n, pz_nal := q \<rparr>"
      using t h NalLength b pk(2) by (auto simp: h264_turn_def Let_def n_def q_def)
    have q: "q \<noteq> NalBody" "q \<noteq> NalSeeking" "q = NalHeader \<Longrightarrow> n \<noteq> 0" by (auto simp: q_def split: if_splits)
    have c: "h264_config out_len room pk ls mtu s'" using cfg by (simp add: s' h264_config_def)
    have no: "\<not> nal_open s" "\<not> nal_open s'" using h NalLength q by (auto simp: s' nal_open_def)
    have "o1 = []" "st' = (q, n, pz_zeros s, False)" using sp NalLength by (auto simp: Let_def n_def q_def)
    moreover have "h264_buffer mtu pk s'" using buf q h no by (auto simp: s' h264_buffer_def)
    ultimately show ?thesis using c no h by (simp add: held_back_def s')
  next
    case NalHeader
    define s1 where "s1 = s\<lparr> pz_nal_header := b, pz_fragmented := False, pz_pending := [], pz_zeros := 0 \<rparr>"
    have ok: "nal_type_ok b" and o: "o1 = [0, 0, 0, 1, b]" using sp NalHeader by (auto split: if_splits)
    have no: "\<not> nal_open s" using h NalHeader by (simp add: nal_open_def)
    have s': "s' = (if pk = PACKING_LENGTH_PREFIXED then
        if pz_nal_len s - 1 = 0 then s1\<lparr> pz_nal_len := pz_nal_len s - 1, pz_nal := NalLength 0, pz_held := True \<rparr>
        else s1\<lparr> pz_nal_len := pz_nal_len s - 1, pz_nal := NalBody \<rparr> else s1\<lparr> pz_nal := NalBody \<rparr>)"
      using t h NalHeader pk(1) by (simp add: h264_turn_def Let_def s1_def b split: if_splits)
    have st': "st' = (if pk = PACKING_LENGTH_PREFIXED then
        if pz_nal_len s - 1 = 0 then (NalLength 0, pz_nal_len s - 1, 0, True) else (NalBody, pz_nal_len s - 1, 0, False)
        else (NalBody, pz_nal_len s, 0, False))"
      using sp NalHeader ok by (simp split: if_splits)
    consider (last) "pk = PACKING_LENGTH_PREFIXED" "pz_nal_len s - 1 = 0"
        "s' = s1\<lparr> pz_nal_len := pz_nal_len s - 1, pz_nal := NalLength 0, pz_held := True \<rparr>" "st' = (NalLength 0, pz_nal_len s - 1, 0, True)"
      | (more) "pk = PACKING_LENGTH_PREFIXED" "pz_nal_len s - 1 \<noteq> 0"
        "s' = s1\<lparr> pz_nal_len := pz_nal_len s - 1, pz_nal := NalBody \<rparr>" "st' = (NalBody, pz_nal_len s - 1, 0, False)"
      | (annexb) "pk \<noteq> PACKING_LENGTH_PREFIXED" "s' = s1\<lparr> pz_nal := NalBody \<rparr>" "st' = (NalBody, pz_nal_len s, 0, False)"
      using s' st' by presburger
    then show ?thesis
    proof cases
      case last
      have "h264_config out_len room pk ls mtu s'" "h264_buffer mtu pk s'" "held_back s' = [0, 0, 0, 1, b]" "\<not> pz_fragmented s'"
        using cfg ok last(1) by (simp_all add: last(3) s1_def h264_config_def h264_buffer_def nal_open_def held_back_def)
      with o no last show ?thesis by (simp add: held_back_def s1_def)
    next
      case more
      have "h264_config out_len room pk ls mtu s'" "h264_buffer mtu pk s'" "held_back s' = [0, 0, 0, 1, b]" "\<not> pz_fragmented s'"
        using cfg ok h more(1,2) by (simp_all add: more(3) s1_def h264_config_def h264_buffer_def nal_open_def held_back_def)
      with o no h more(3,4) show ?thesis by (simp add: held_back_def s1_def)
    next
      case annexb
      have "h264_config out_len room pk ls mtu s'" "h264_buffer mtu pk s'" "held_back s' = [0, 0, 0, 1, b]" "\<not> pz_fragmented s'"
        using cfg ok h annexb(1) by (simp_all add: annexb(2) s1_def h264_config_def h264_buffer_def nal_open_def held_back_def)
      with o no h annexb(2,3) show ?thesis by (simp add: held_back_def s1_def)
    qed
  next
    case NalBody
    then have a: "pk = PACKING_ANNEXB" using nb pk by simp
    have o: "nal_open s" using NalBody by (simp add: nal_open_def)
    consider (zero) "b = 0" | (code) "b \<noteq> 0" "b = 1 \<and> 2 \<le> pz_zeros s" | (data) "b \<noteq> 0" "\<not> (b = 1 \<and> 2 \<le> pz_zeros s)" by blast
    then show ?thesis
    proof cases
      case zero
      have s': "s' = s\<lparr> pz_zeros := min (pz_zeros s + 1) 3 \<rparr>"
        using t h NalBody pk(1) a zero by (simp add: h264_turn_def Let_def b)
      have "st' = (NalBody, pz_nal_len s, min (pz_zeros s + 1) 3, False)" "o1 = []" using sp NalBody a zero by simp_all
      moreover have "h264_config out_len room pk ls mtu s'" "h264_buffer mtu pk s'" using cfg buf h o a NalBody
        by (simp_all add: s' h264_config_def h264_buffer_def nal_open_def)
      ultimately show ?thesis using h NalBody frag by (simp add: s' held_back_def nal_open_def)
    next
      case code
      have s': "s' = s\<lparr> pz_zeros := 0, pz_nal := NalHeader, pz_held := True \<rparr>"
        using t h NalBody pk(1) a code by (simp add: h264_turn_def Let_def b)
      have "st' = (NalHeader, pz_nal_len s, 0, True)" "o1 = []" using sp NalBody a code by simp_all
      moreover have "h264_config out_len room pk ls mtu s'" "h264_buffer mtu pk s'" using cfg buf o a NalBody h
        by (simp_all add: s' h264_config_def h264_buffer_def nal_open_def)
      ultimately show ?thesis using NalBody frag by (simp add: s' held_back_def nal_open_def)
    next
      case data
      have fit: "length (pz_pending s) + (pz_zeros s + 1) \<le> mtu - 2"
        and s': "s' = s\<lparr> pz_pending := pz_pending s @ replicate (pz_zeros s) 0 @ [b], pz_zeros := 0 \<rparr>"
        using t h NalBody pk(1,4) a data by (simp_all add: h264_turn_def Let_def b split: if_splits)
      have "st' = (NalBody, pz_nal_len s, 0, False)" "o1 = replicate (pz_zeros s) 0 @ [b]" using sp NalBody a data by simp_all
      moreover have "h264_config out_len room pk ls mtu s'" "h264_buffer mtu pk s'" using cfg buf o a fit NalBody h
        by (simp_all add: s' h264_config_def h264_buffer_def nal_open_def)
      ultimately show ?thesis using NalBody frag h by (simp add: s' held_back_def nal_open_def)
    qed
  qed
  then show ?thesis using run' y P unfolding h264_inv_def h264_settled_def by auto
qed

lemma h264_turn_bulk:
  assumes inv: "h264_inv out_len room pk ls mtu st0 c P s" and n: "pz_nal s = NalBody" and pk: "pk = PACKING_LENGTH_PREFIXED"
    and t: "h264_turn s input used = Inr (used', s')" and u: "used < length input"
  shows "used < used' \<and> used' \<le> length input \<and> h264_inv out_len room pk ls mtu st0 (c @ bslice used used' input) P s' \<and>
    h264_settled pk ls st0 (c @ bslice used used' input) s'"
proof -
  have cfg: "h264_config out_len room pk ls mtu s" and buf: "h264_buffer mtu pk s"
    and P: "list_all (\<lambda>p. \<not> snd p \<and> length (fst p) \<le> mtu) P" and frag: "nal_open s \<longrightarrow> pz_fragmented s \<longrightarrow> P \<noteq> []"
    using inv by (auto simp: h264_inv_def)
  obtain e y where run: "nal_run pk ls st0 c = Some ((pz_nal s, pz_nal_len s, pz_zeros s, e), y @ held_back s)"
    and y: "h264_unpack room (map fst P) = Some y"
    using inv by (auto simp: h264_inv_def)
  have h: "\<not> pz_held s" using t by (auto simp: h264_turn_def)
  have pz: "pz_packing s = PACKING_LENGTH_PREFIXED" "pz_mtu s = mtu" using cfg pk by (auto simp: h264_config_def)
  define k where "k = min (min (mtu - 2 - length (pz_pending s)) (length input - used)) (unat (pz_nal_len s))"
  define xs where "xs = take k (drop used input)"
  define m where "m = pz_nal_len s - of_nat k"
  have room: "length (pz_pending s) < mtu - 2" and u': "used' = used + k"
    and s': "s' = (if m = 0 then s\<lparr> pz_pending := pz_pending s @ xs, pz_nal_len := m, pz_nal := NalLength 0, pz_held := True \<rparr>
                   else s\<lparr> pz_pending := pz_pending s @ xs, pz_nal_len := m \<rparr>)"
    using t n h pz by (auto simp: h264_turn_def Let_def k_def xs_def m_def split: if_splits)
  have "pz_nal_len s \<noteq> 0" using buf n pk by (simp add: h264_buffer_def)
  then have k: "0 < k" "k \<le> length input - used" "k \<le> unat (pz_nal_len s)" "length (pz_pending s) + k \<le> mtu - 2"
    using room u by (auto simp: k_def unat_gt_0)
  have xs: "length xs = k" "bslice used used' input = xs" using k(2) by (auto simp: xs_def u' bslice_def drop_take)
  have ne: "xs \<noteq> []" using xs(1) k(1) by auto
  have "nal_run pk ls (NalBody, pz_nal_len s, pz_zeros s, e) xs =
      Some (if m = 0 then (NalLength 0, 0, pz_zeros s, True) else (NalBody, m, pz_zeros s, False), xs)"
    using nal_run_body [of pk xs "pz_nal_len s" ls "pz_zeros s" e] pk xs(1) k(3) ne by (simp add: m_def)
  then have run': "nal_run pk ls st0 (c @ xs) =
      Some ((pz_nal s', pz_nal_len s', pz_zeros s', pz_held s'), y @ held_back s')"
    using run n h by (auto simp: nal_run_append s' held_back_def nal_open_def)
  have "h264_config out_len room pk ls mtu s'" "h264_buffer mtu pk s'" "nal_open s' \<longrightarrow> pz_fragmented s' \<longrightarrow> P \<noteq> []"
    using cfg buf frag k(4) xs(1) n pk h
    by (auto simp: s' h264_config_def h264_buffer_def nal_open_def)
  then have "h264_inv out_len room pk ls mtu st0 (c @ xs) P s'" "h264_settled pk ls st0 (c @ xs) s'"
    using run' y P unfolding h264_inv_def h264_settled_def by auto
  then show ?thesis using k(1,2) u u' xs(2) by simp
qed

lemma h264_turn_goes_on:
  assumes "h264_inv out_len room pk ls mtu st0 c P s" and "nal_run pk ls st0 (c @ drop used input) \<noteq> None"
    and "h264_turn s input used = Inr (used', s')" and "used < length input"
  shows "used < used'" "used' \<le> length input" "h264_inv out_len room pk ls mtu st0 (c @ bslice used used' input) P s'"
    "h264_settled pk ls st0 (c @ bslice used used' input) s'"
proof -
  have "used < used' \<and> used' \<le> length input \<and> h264_inv out_len room pk ls mtu st0 (c @ bslice used used' input) P s' \<and>
    h264_settled pk ls st0 (c @ bslice used used' input) s'"
  proof (cases "pz_nal s = NalBody \<and> pk = PACKING_LENGTH_PREFIXED")
    case True
    with h264_turn_bulk [OF assms(1) _ _ assms(3,4)] show ?thesis by blast
  next
    case False
    have "pz_packing s = pk" "pk = PACKING_ANNEXB \<or> pk = PACKING_LENGTH_PREFIXED" using assms(1) by (auto simp: h264_inv_def h264_config_def)
    with False assms(3) have u: "used' = used + 1"
      by (auto simp: h264_turn_def Let_def split: nal.splits if_splits)
    have b: "bslice used used' input = [input ! used]"
      using assms(4) by (simp add: u bslice_def drop_take Cons_nth_drop_Suc [symmetric])
    have "nal_run pk ls st0 (c @ [input ! used]) \<noteq> None"
      using assms(2,4) nal_run_prefix [of pk ls st0 "c @ [input ! used]" "drop (Suc used) input"] by (simp add: Cons_nth_drop_Suc)
    with h264_turn_byte [OF assms(1) this assms(3) refl u False] u assms(4) b show ?thesis by simp
  qed
  then show "used < used'" "used' \<le> length input" "h264_inv out_len room pk ls mtu st0 (c @ bslice used used' input) P s'"
    "h264_settled pk ls st0 (c @ bslice used used' input) s'" by simp_all
qed

lemma h264_loop_run:
  assumes "h264_inv out_len room pk ls mtu st0 c P s" and "nal_run pk ls st0 (c @ drop used input) \<noteq> None"
    and "used < length input \<or> used = length input \<and> h264_settled pk ls st0 c s" and "h264_loop s input used = (r, used', s')"
  shows "case r of
      None \<Rightarrow> h264_inv out_len room pk ls mtu st0 (c @ drop used input) P s' \<and> h264_settled pk ls st0 (c @ drop used input) s'
    | Some p \<Rightarrow> used \<le> used' \<and> used' < length input \<and> h264_inv out_len room pk ls mtu st0 (c @ bslice used used' input) (P @ [p]) s' \<and>
        pz_weight s' + 2 * (length input - used') < pz_weight s + 2 * (length input - used)"
  using assms
proof (induction s input used arbitrary: c rule: h264_loop.induct)
  case (1 s input used)
  show ?case
  proof (cases "used < length input")
    case False
    with "1.prems"(4) have "r = None" "s' = s" unfolding h264_loop.simps [of s input used] by simp_all
    with False "1.prems"(1,3) show ?thesis by simp
  next
    case True
    show ?thesis
    proof (cases "h264_turn s input used")
      case (Inl q)
      with True "1.prems"(4) obtain p where p: "h264_turn s input used = Inl (p, s')" "r = Some p" "used' = used"
        by (cases q) (simp add: h264_loop.simps [of s input used])
      from h264_turn_packet [OF "1.prems"(1) p(1)] show ?thesis using p True by (simp add: bslice_def)
    next
      case (Inr q)
      obtain u t where q: "q = (u, t)" by (cases q)
      have tn: "h264_turn s input used = Inr (u, t)" using Inr q by simp
      note g = h264_turn_goes_on [OF "1.prems"(1,2) tn True]
      have a: "(c @ bslice used u input) @ drop u input = c @ drop used input"
        using g(1,2) bslice_split [of used u "length input" input] by (simp add: bslice_def)
      have b: "u \<le> used' \<Longrightarrow> (c @ bslice used u input) @ bslice u used' input = c @ bslice used used' input"
        using bslice_split [of used u used' input] g(1) by simp
      have w: "pz_weight t + 2 * (length input - u) < pz_weight s + 2 * (length input - used)"
        using g(1,2) by (auto simp: pz_weight_def)
      have l: "h264_loop t input u = (r, used', s')" using "1.prems"(4) True tn by (simp add: h264_loop.simps [of s input used])
      have "u < length input \<or> u = length input \<and> h264_settled pk ls st0 (c @ bslice used u input) t" using g(2,4) by auto
      from "1.IH" [OF True tn refl g(3) _ this l] "1.prems"(2) show ?thesis
        unfolding a using b w g(1) by (auto split: option.splits)
    qed
  qed
qed

lemma h264_step:
  assumes "h264_inv out_len room pk ls mtu st0 c P s" and "nal_run pk ls st0 (c @ drop used input) \<noteq> None"
    and "used < length input \<or> used = length input \<and> h264_settled pk ls st0 c s" and "next_h264 s input used fin = (r, used', s')"
  shows "(case r of
      None \<Rightarrow> if fin then h264_complete room pk ls mtu st0 (c @ drop used input) P
              else h264_inv out_len room pk ls mtu st0 (c @ drop used input) P s' \<and> h264_settled pk ls st0 (c @ drop used input) s'
    | Some p \<Rightarrow>
        if pz_unit_done s' then fin \<and> h264_complete room pk ls mtu st0 (c @ drop used input) (P @ [p])
        else used \<le> used' \<and> used' < length input \<and> h264_inv out_len room pk ls mtu st0 (c @ bslice used used' input) (P @ [p]) s' \<and>
          pz_weight s' + 2 * (length input - used') < pz_weight s + 2 * (length input - used))"
proof -
  have "pz_ps_left s = 0 \<and> \<not> pz_ps_pps_pending s" using assms(1) by (simp add: h264_inv_def h264_config_def)
  then have ps: "next_parameter_set s = (None, s)" by (simp add: next_parameter_set.simps [of s])
  obtain r1 u1 s1 where l: "h264_loop s input used = (r1, u1, s1)" by (cases "h264_loop s input used")
  note run = h264_loop_run [OF assms(1-3) l]
  show ?thesis
  proof (cases r1)
    case (Some p)
    then have e: "r = Some p" "used' = u1" "s' = s1" using assms(4) ps l by (simp_all add: next_h264_def)
    with run Some have "\<not> pz_unit_done s'" by (simp add: h264_inv_def h264_config_def)
    with run Some e show ?thesis by simp
  next
    case None
    let ?u = "c @ drop used input"
    have i: "h264_inv out_len room pk ls mtu st0 ?u P s1" and st: "h264_settled pk ls st0 ?u s1" using run None by simp_all
    obtain e y where nr: "nal_run pk ls st0 ?u = Some ((pz_nal s1, pz_nal_len s1, pz_zeros s1, e), y @ held_back s1)"
      and y: "h264_unpack room (map fst P) = Some y" and P: "list_all (\<lambda>p. \<not> snd p \<and> length (fst p) \<le> mtu) P"
      using i by (auto simp: h264_inv_def)
    have eh: "e \<longrightarrow> pz_held s1" using st nr by (auto simp: h264_settled_def)
    show ?thesis
    proof (cases fin)
      case False
      with assms(4) ps l None have "r = None" "s' = s1" by (simp_all add: next_h264_def)
      with i st False show ?thesis by simp
    next
      case True
      show ?thesis
      proof (cases "nal_open s1")
        case False
        then have "held_back s1 = []" "\<not> e" "pz_nal s1 \<noteq> NalBody" using eh by (auto simp: held_back_def nal_open_def)
        moreover have "r = None" using assms(4) ps l None True False by (simp add: next_h264_def nal_open_def)
        ultimately show ?thesis using True nr y P by (auto simp: h264_complete_def list_all_iff)
      next
        case o: True
        have cfg: "h264_config out_len room pk ls mtu s1" and buf: "h264_buffer mtu pk s1" and fr: "pz_fragmented s1 \<longrightarrow> P \<noteq> []"
          using i o by (simp_all add: h264_inv_def)
        have bd: "nal_type_ok (pz_nal_header s1)" "5 + length (pz_pending s1) \<le> room" "length (pz_pending s1) + 2 \<le> mtu"
          using cfg buf o unfolding h264_buffer_def h264_config_def by linarith+
        let ?s = "s1\<lparr> pz_unit_done := True, pz_held := False \<rparr>"
        obtain p where p: "close_nal True ?s = (p, s')" "r = Some p"
          using assms(4) ps l None True o by (auto simp: next_h264_def nal_open_def split: prod.splits)
        have b: "nal_type_ok (pz_nal_header ?s)" "5 + length (pz_pending ?s) \<le> room" "length (pz_pending ?s) + 2 \<le> mtu"
          "pz_fragmented ?s \<longrightarrow> \<not> (map fst P = [])"
          using bd fr by simp_all
        note cl = close_nal_read [OF b(1,2,4) p(1)]
        obtain k where k: "h264_to_annexb (fst p) (map fst P = []) room = Some (held_back s1, k)"
          using cl(1) o by (auto simp: held_back_def)
        have "h264_unpack room (map fst (P @ [p])) = Some (y @ held_back s1)" using unpack_all_snoc [OF y k] by simp
        moreover have "markers_last (P @ [p])" "length (fst p) \<le> mtu" "pz_unit_done s'"
          using cl(2-4) P b(3) by (auto simp: markers_last_def list_all_iff)
        ultimately show ?thesis using True p(2) nr P by (auto simp: h264_complete_def list_all_iff)
      qed
    qed
  qed
qed

interpretation h264: payload_format out_len "h264_inv out_len room pk ls mtu st0" "h264_settled pk ls st0" "\<lambda>u. nal_run pk ls st0 u \<noteq> None"
    "h264_complete room pk ls mtu st0" pz_weight
  for out_len room pk ls mtu st0
proof unfold_locales
  fix c P s used and input :: bytes and fin p used' s'
  assume i: "h264_inv out_len room pk ls mtu st0 c P s" "nal_run pk ls st0 (c @ drop used input) \<noteq> None"
    "used < length input \<or> used = length input \<and> h264_settled pk ls st0 c s"
  have n: "packetizer_next out_len s input used fin = next_h264 s input used fin"
    using i(1) by (simp add: packetizer_next_def h264_inv_def h264_config_def)
  show "if pz_unit_done s' then fin \<and> h264_complete room pk ls mtu st0 (c @ drop used input) (P @ [p])
      else used \<le> used' \<and> used' < length input \<and> h264_inv out_len room pk ls mtu st0 (c @ bslice used used' input) (P @ [p]) s' \<and>
        pz_weight s' + 2 * (length input - used') < pz_weight s + 2 * (length input - used)"
    if "packetizer_next out_len s input used fin = (Some p, used', s')"
    using h264_step [OF i that [unfolded n]] by simp
  show "if fin then h264_complete room pk ls mtu st0 (c @ drop used input) P
      else h264_inv out_len room pk ls mtu st0 (c @ drop used input) P s' \<and> h264_settled pk ls st0 (c @ drop used input) s'"
    if "packetizer_next out_len s input used fin = (None, used', s')"
    using h264_step [OF i that [unfolded n]] by simp
next
  fix a b assume "nal_run pk ls st0 (a @ b) \<noteq> None"
  then show "nal_run pk ls st0 a \<noteq> None" by (rule nal_run_prefix)
qed

text \<open>The NAL units of an access unit as the stream carries them, and what makes them readable: a type of a single unit, a length
  that fits its prefix, and in Annex B no start code and no trailing zero inside a unit.\<close>

definition nal_units :: "packing \<Rightarrow> nat \<Rightarrow> bytes list \<Rightarrow> bytes" where
  "nal_units pk ls nals = concat (map (\<lambda>n. (if pk = PACKING_ANNEXB then [0, 0, 0, 1] else be_bytes ls (length n)) @ n) nals)"

fun code_free :: "nat \<Rightarrow> bytes \<Rightarrow> bool" where
  "code_free z [] = (z = 0)"
| "code_free z (b # bs) = (if b = 0 then z < 2 \<and> code_free (z + 1) bs else \<not> (b = 1 \<and> 2 \<le> z) \<and> code_free 0 bs)"

definition nal_ok :: "packing \<Rightarrow> nat \<Rightarrow> bytes \<Rightarrow> bool" where
  "nal_ok pk ls n \<longleftrightarrow> n \<noteq> [] \<and> nal_type_ok (hd n) \<and> (if pk = PACKING_ANNEXB then code_free 0 (tl n) else length n < 256 ^ ls)"

lemma nal_run_code_free:
  "code_free z bs \<Longrightarrow> z \<le> 2 \<Longrightarrow> bs \<noteq> [] \<or> z = 0 \<Longrightarrow>
   nal_run PACKING_ANNEXB ls (NalBody, n, z, False) bs = Some ((NalBody, n, 0, False), replicate z 0 @ bs)"
proof (induction z bs rule: code_free.induct)
  case (2 z b bs)
  show ?case
  proof (cases "b = 0")
    case True
    with "2.prems" have "z < 2" "code_free (z + 1) bs" "bs \<noteq> []" by auto
    with "2.IH"(1) [OF True] True show ?thesis by (simp add: replicate_append_same [symmetric])
  next
    case False
    with "2.prems" "2.IH"(2) [OF False] show ?thesis by auto
  qed
qed simp

lemma nal_run_annexb:
  assumes "nal_ok PACKING_ANNEXB ls nal" and "q = NalSeeking \<or> q = NalBody"
  shows "nal_run PACKING_ANNEXB ls (q, n, 0, e) ([0, 0, 0, 1] @ nal) = Some ((NalBody, n, 0, False), [0, 0, 0, 1] @ nal)"
proof -
  obtain h t where nal: "nal = h # t" "nal_type_ok h" "code_free 0 t" using assms(1) by (cases nal) (auto simp: nal_ok_def)
  have "nal_run PACKING_ANNEXB ls (q, n, 0, e) [0, 0, 0, 1] = Some ((NalHeader, n, 0, q = NalBody), [])"
    using assms(2) by auto
  then have "nal_run PACKING_ANNEXB ls (q, n, 0, e) ([0, 0, 0, 1] @ [h]) = Some ((NalBody, n, 0, False), [0, 0, 0, 1, h])"
    using nal(2) unfolding nal_run_append by simp
  then have "nal_run PACKING_ANNEXB ls (q, n, 0, e) (([0, 0, 0, 1] @ [h]) @ t) = Some ((NalBody, n, 0, False), [0, 0, 0, 1, h] @ t)"
    using nal_run_code_free [of 0 t ls n] nal(3) unfolding nal_run_append [of _ _ _ "[0, 0, 0, 1] @ [h]"] by simp
  then show ?thesis by (simp add: nal(1) del: nal_run.simps)
qed

lemma shift_or_byte: "push_bit 8 (of_nat a :: u32) OR ucast (b :: byte) = of_nat (a * 256 + unat b)"
proof -
  have "push_bit 8 (of_nat a :: u32) AND ucast b = 0"
    by (rule bit_word_eqI) (auto simp: bit_simps dest: bit_imp_le_length)
  then have "push_bit 8 (of_nat a :: u32) OR ucast b = push_bit 8 (of_nat a) + ucast b"
    by (simp add: disjunctive_add_eq_or)
  also have "\<dots> = of_nat (a * 256 + unat b)" by (simp add: push_bit_eq_mult algebra_simps)
  finally show ?thesis .
qed

lemma nal_run_length:
  assumes "ds \<noteq> []" and "r + length ds = ls" and "r = 0 \<longrightarrow> a = 0"
  shows "nal_run PACKING_LENGTH_PREFIXED ls (NalLength r, if r = 0 then n else of_nat a, z, e) ds =
    (let v = of_nat (a * 256 ^ length ds + be_val ds) :: u32 in Some ((if v = 0 then NalLength 0 else NalHeader, v, z, False), []))"
  using assms
proof (induction ds arbitrary: r a e n)
  case (Cons d ds)
  have v: "(if r = 0 then 0 else push_bit 8 (if r = 0 then n else of_nat a)) OR ucast d = (of_nat (a * 256 + unat d) :: u32)"
    using Cons.prems(3) shift_or_byte [of a d] by auto
  show ?case
  proof (cases "ds = []")
    case True
    with Cons.prems(2) v show ?thesis by (simp add: Let_def)
  next
    case False
    have "nal_run PACKING_LENGTH_PREFIXED ls (NalLength (r + 1), of_nat (a * 256 + unat d), z, False) ds =
      (let v = of_nat ((a * 256 + unat d) * 256 ^ length ds + be_val ds) :: u32 in Some ((if v = 0 then NalLength 0 else NalHeader, v, z, False), []))"
      using Cons.IH [of "r + 1" "a * 256 + unat d" _ False] False Cons.prems(2) by simp
    moreover have "(a * 256 + unat d) * 256 ^ length ds + be_val ds = a * 256 ^ length (d # ds) + be_val (d # ds)"
      by (simp add: algebra_simps)
    moreover have "r + 1 \<noteq> ls" using Cons.prems(2) False by auto
    ultimately show ?thesis using v by (simp add: Let_def)
  qed
qed simp

lemma nal_run_prefixed:
  assumes "nal_ok PACKING_LENGTH_PREFIXED ls nal" and "0 < ls" and "ls \<le> 4"
  shows "nal_run PACKING_LENGTH_PREFIXED ls (NalLength 0, n, z, e) (be_bytes ls (length nal) @ nal) =
    Some ((NalLength 0, 0, 0, True), [0, 0, 0, 1] @ nal)"
proof -
  obtain h t where nal: "nal = h # t" "nal_type_ok h" "length nal < 256 ^ ls" using assms(1) by (cases nal) (auto simp: nal_ok_def)
  define v where "v = (of_nat (length nal) :: u32)"
  have "256 ^ ls \<le> (256 :: nat) ^ 4" using assms(3) by (intro power_increasing) simp_all
  then have l: "length nal < 2 ^ 32" using nal(3) by simp
  then have u: "unat v = length nal" unfolding v_def by (intro unat_of_nat_below) simp
  then have v0: "v \<noteq> 0" using nal(1) by auto
  have "be_bytes ls (length nal) \<noteq> []" using assms(2) by (simp flip: length_0_conv)
  then have p: "nal_run PACKING_LENGTH_PREFIXED ls (NalLength 0, n, z, e) (be_bytes ls (length nal)) = Some ((NalHeader, v, z, False), [])"
    using nal_run_length [of "be_bytes ls (length nal)" 0 ls 0 n z e] nal(3) v0 by (simp add: be_val_be_bytes v_def Let_def)
  have m: "unat (v - 1) = length t" using unat_minus_one [OF v0] u nal(1) by simp
  have "nal_run PACKING_LENGTH_PREFIXED ls (NalHeader, v, z, False) nal = Some ((NalLength 0, 0, 0, True), [0, 0, 0, 1] @ nal)"
  proof (cases "t = []")
    case True
    with m have "v - 1 = 0" by (simp add: unat_eq_0)
    with True nal show ?thesis by simp
  next
    case False
    with m have ne: "v - 1 \<noteq> 0" by (auto simp: unat_eq_0 [symmetric])
    have "v - 1 = of_nat (length t)" using m l nal(1) by (intro unat_eqI) (simp add: unat_of_nat_below)
    then have "v - 1 - of_nat (length t) = 0" by simp
    with nal_run_body [of PACKING_LENGTH_PREFIXED t "v - 1" ls 0 False] m False
    have "nal_run PACKING_LENGTH_PREFIXED ls (NalBody, v - 1, 0, False) t = Some ((NalLength 0, 0, 0, True), t)" by simp
    with ne nal show ?thesis by simp
  qed
  with p show ?thesis by (simp add: nal_run_append)
qed

lemma nal_units_Cons:
  "nal_units pk ls (a # nals) = ((if pk = PACKING_ANNEXB then [0, 0, 0, 1] else be_bytes ls (length a)) @ a) @ nal_units pk ls nals"
  by (simp add: nal_units_def)

lemma nal_run_units:
  assumes "\<forall>n\<in>set nals. nal_ok pk ls n" and "pk = PACKING_ANNEXB \<or> pk = PACKING_LENGTH_PREFIXED \<and> 0 < ls \<and> ls \<le> 4" and "nals \<noteq> []"
    and "if pk = PACKING_ANNEXB then q = NalSeeking \<or> q = NalBody else q = NalLength 0"
  shows "\<exists>n' e'. nal_run pk ls (q, n, 0, e) (nal_units pk ls nals) =
      Some ((if pk = PACKING_ANNEXB then NalBody else NalLength 0, n', 0, e'), nal_units PACKING_ANNEXB ls nals) \<and>
      (e' \<or> pk = PACKING_ANNEXB)"
  using assms
proof (induction nals arbitrary: q n e)
  case (Cons a nals)
  define q' where "q' = (if pk = PACKING_ANNEXB then NalBody else NalLength 0)"
  obtain n1 e1 where one: "nal_run pk ls (q, n, 0, e) ((if pk = PACKING_ANNEXB then [0, 0, 0, 1] else be_bytes ls (length a)) @ a) =
      Some ((q', n1, 0, e1), [0, 0, 0, 1] @ a)" "e1 \<or> pk = PACKING_ANNEXB"
    using Cons.prems nal_run_annexb [of ls a q n e] nal_run_prefixed [of ls a n 0 e] by (auto simp: q'_def split: if_splits)
  show ?case
  proof (cases "nals = []")
    case True
    with one show ?thesis by (simp add: nal_units_def q'_def)
  next
    case False
    then obtain n' e' where "nal_run pk ls (q', n1, 0, e1) (nal_units pk ls nals) = Some ((q', n', 0, e'), nal_units PACKING_ANNEXB ls nals)"
      "e' \<or> pk = PACKING_ANNEXB"
      using Cons.IH [of q' n1 e1] Cons.prems by (auto simp: q'_def split: if_splits)
    with one(1) show ?thesis unfolding q'_def [symmetric] nal_units_Cons
      by (subst nal_run_append) (simp del: append_assoc)
  qed
qed simp

section \<open>From the sender to the receiver\<close>

text \<open>The packets of a unit as the receiver gets them in order: one timestamp, nothing lost.\<close>

definition received_unit :: "codec \<Rightarrow> u32 \<Rightarrow> payload_packet list \<Rightarrow> received_packet list" where
  "received_unit c ts = map (\<lambda>(b, m). \<lparr> rp_codec = c, rp_timestamp = ts, rp_marker = m, rp_lost_before = False, rp_payload = b \<rparr>)"

fun dp_packets :: "enc_abi \<Rightarrow> nat \<Rightarrow> received_packet list \<Rightarrow> depacketizer \<Rightarrow> media_record list \<times> depacketizer" where
  "dp_packets e out_len [] d = ([], d)"
| "dp_packets e out_len (p # ps) d =
     (case dp_packet e out_len p d of ((_, rs), d') \<Rightarrow> (case dp_packets e out_len ps d' of (rs', d'') \<Rightarrow> (rs @ rs', d'')))"

text \<open>One access unit in the record stream: fragments that go on until the last one.\<close>

fun one_unit :: "media_record list \<Rightarrow> bytes \<Rightarrow> bool" where
  "one_unit [UnitRec f pts b] u = (\<not> uf_continues f \<and> \<not> uf_truncated f \<and> b = u)"
| "one_unit (UnitRec f pts b # rs) u = (uf_continues f \<and> \<not> uf_truncated f \<and> take (length b) u = b \<and> one_unit rs (drop (length b) u))"
| "one_unit _ u = False"

lemma one_unit_Cons: "rs \<noteq> [] \<Longrightarrow> one_unit (UnitRec f pts b # rs) (b @ u) = (uf_continues f \<and> \<not> uf_truncated f \<and> one_unit rs u)"
  by (cases rs) auto

abbreviation (input) unpack_for :: "codec \<Rightarrow> nat \<Rightarrow> bytes \<Rightarrow> bool \<Rightarrow> (bytes \<times> bool) option" where
  "unpack_for c room p st \<equiv> (if c = CODEC_H264 then h264_to_annexb p st room else vp8_frame_data p st room)"

lemma put_nal_fits: "put_nal room nal st = Some (b, k) \<Longrightarrow> length b \<le> room"
  by (auto simp: put_nal_def split: prod.splits if_splits)

lemma stap_loop_fits: "stap_loop room p st = Some (b, k) \<Longrightarrow> length (fst st) \<le> room \<Longrightarrow> length b \<le> room"
proof (induction room p st rule: stap_loop.induct)
  case (1 room p st)
  show ?case
  proof (cases "p = [] \<or> length p < 2 + be_val (take 2 p) \<or> length p < 2")
    case False
    with "1.prems"(1) obtain st' where s: "put_nal room (bslice 2 (2 + be_val (take 2 p)) p) st = Some st'"
      "stap_loop room (drop (2 + be_val (take 2 p)) p) st' = Some (b, k)"
      by (auto simp: stap_loop.simps [of room p] Let_def split: option.splits)
    have "length (fst st') \<le> room" using put_nal_fits [of room _ st "fst st'" "snd st'"] s(1) by simp
    with "1.IH" [OF _ _ refl _ s(1,2)] False show ?thesis by auto
  qed (use "1.prems" in \<open>auto simp: stap_loop.simps [of room p] Let_def split: if_splits\<close>)
qed

lemma unpack_fits:
  assumes "unpack_for c room p st = Some (b, k)"
  shows "length b \<le> room"
proof (cases "c = CODEC_H264")
  case True
  with assms put_nal_fits stap_loop_fits [of room _ "([], False)" b k] show ?thesis
    by (auto simp: h264_to_annexb_def Let_def split: list.splits if_splits)
next
  case False
  with assms show ?thesis by (auto simp: vp8_frame_data_def Let_def split: if_splits option.splits)
qed

lemma dp_packet_video:
  assumes c: "c = CODEC_H264 \<or> c = CODEC_VP8" and d: "dp_codec d = Some c" "dp_skip_ts d \<noteq> Some ts" "dp_in_unit d \<longrightarrow> dp_unit_ts d = ts"
    and b: "unpack_for c (out_len - ea_unit_header e) p (\<not> dp_in_unit d) = Some (body, key)"
    and h: "\<forall>fl n. n \<le> out_len - ea_unit_header e \<longrightarrow> ea_header e out_len fl n"
  shows "\<exists>at fl pts d'. dp_packet e out_len \<lparr> rp_codec = c, rp_timestamp = ts, rp_marker = m, rp_lost_before = False, rp_payload = p \<rparr> d =
      ((at, [UnitRec fl pts body]), d') \<and> uf_continues fl = (\<not> m) \<and> \<not> uf_truncated fl \<and>
      dp_in_unit d' = (\<not> m) \<and> dp_codec d' = Some c \<and> dp_skip_ts d' = None \<and> dp_unit_ts d' = ts"
proof -
  obtain a where rs: "received_stream c = Some a" "\<not> is_audio c" using c by (auto simp: received_stream_def is_audio_def)
  have len: "length body \<le> out_len - ea_unit_header e" by (rule unpack_fits [OF b])
  have v: "\<exists>at fl pts d'. dp_video e out_len \<lparr> rp_codec = c, rp_timestamp = ts, rp_marker = m, rp_lost_before = False, rp_payload = p \<rparr> (0, []) t =
      ((at, [UnitRec fl pts body]), d') \<and> uf_continues fl = (\<not> m) \<and> \<not> uf_truncated fl \<and>
      dp_in_unit d' = (\<not> m) \<and> dp_codec d' = Some c \<and> dp_skip_ts d' = None \<and> dp_unit_ts d' = ts"
    if t: "dp_codec t = Some c" "dp_skip_ts t \<noteq> Some ts" "dp_in_unit t = dp_in_unit d" "dp_unit_ts t = dp_unit_ts d" for t
  proof -
    have "\<not> (dp_in_unit t \<and> ts \<noteq> dp_unit_ts t)" using t d(3) by auto
    then show ?thesis using t b h len by (auto simp: dp_video_def Let_def)
  qed
  show ?thesis
    unfolding dp_packet_def using rs d(1,2) by (cases a) (auto simp: Let_def intro!: v)
qed

lemma dp_packets_unit:
  assumes c: "c = CODEC_H264 \<or> c = CODEC_VP8" and h: "\<forall>fl n. n \<le> out_len - ea_unit_header e \<longrightarrow> ea_header e out_len fl n"
    and "dp_codec d = Some c" and "dp_skip_ts d \<noteq> Some ts" and "dp_in_unit d \<longrightarrow> dp_unit_ts d = ts"
    and "markers_last ps" and "unpack_all (unpack_for c (out_len - ea_unit_header e)) (\<not> dp_in_unit d) (map fst ps) = Some u"
  shows "\<exists>rs d'. dp_packets e out_len (received_unit c ts ps) d = (rs, d') \<and> one_unit rs u \<and> \<not> dp_in_unit d' \<and> dp_codec d' = Some c"
  using assms(3-7)
proof (induction ps arbitrary: d u)
  case Nil
  then show ?case by (simp add: markers_last_def)
next
  case (Cons p ps)
  obtain b m where p: "p = (b, m)" by (cases p)
  obtain body key u' where b: "unpack_for c (out_len - ea_unit_header e) b (\<not> dp_in_unit d) = Some (body, key)"
    and u: "unpack_all (unpack_for c (out_len - ea_unit_header e)) False (map fst ps) = Some u'" "u = body @ u'"
    using Cons.prems(5) unfolding p by (auto simp: bind_eq_Some_conv)
  obtain at fl pts d1 where r: "dp_packet e out_len \<lparr> rp_codec = c, rp_timestamp = ts, rp_marker = m, rp_lost_before = False, rp_payload = b \<rparr> d =
      ((at, [UnitRec fl pts body]), d1)" "uf_continues fl = (\<not> m)" "\<not> uf_truncated fl"
    "dp_in_unit d1 = (\<not> m)" "dp_codec d1 = Some c" "dp_skip_ts d1 = None" "dp_unit_ts d1 = ts"
    using dp_packet_video [OF c Cons.prems(1-3) b h, of m] by (elim exE conjE) (rule that)
  show ?case
  proof (cases "ps = []")
    case True
    with Cons.prems(4) have m by (simp add: markers_last_def p)
    moreover have "u' = []" using u(1) True by simp
    ultimately show ?thesis using True r u(2) by (simp add: received_unit_def p)
  next
    case False
    with Cons.prems(4) have m: "\<not> m" "markers_last ps" by (auto simp: markers_last_def p)
    have "\<exists>rs d'. dp_packets e out_len (received_unit c ts ps) d1 = (rs, d') \<and> one_unit rs u' \<and> \<not> dp_in_unit d' \<and> dp_codec d' = Some c"
      using r m u(1) by (intro Cons.IH) simp_all
    then obtain rs d' where i: "dp_packets e out_len (received_unit c ts ps) d1 = (rs, d')" "one_unit rs u'" "\<not> dp_in_unit d'" "dp_codec d' = Some c"
      by blast
    have "rs \<noteq> []" using i(2) by auto
    with r i m u(2) one_unit_Cons [of rs fl pts body u'] show ?thesis by (simp add: received_unit_def p)
  qed
qed

text \<open>C33. An H.264 access unit comes through RTP unharmed: a unit of a start-code stream, or a unit of a
  length-prefixed stream that is not a key unit (a key unit there is sent behind the parameter sets of the
  stream, which is not covered). Its NAL units are non-empty and of a type from 1 to 23; in a length-prefixed
  stream their lengths fit the length field, and in a start-code stream they have neither two zero bytes
  before a zero or a one nor a zero at the end (after the header byte). Then for any way of cutting the unit into fragments and any payload size from 16 bytes up, the packetizer returns, no
  packet is larger than that size, only the last has the marker, and a receiver of the stream that is between
  units, gets the packets in order and has room for a packet and a start code, writes one unit made of the
  NAL units sent, each behind a start code.\<close>

theorem h264_unit_survives_rtp:
  assumes "pz_stream CODEC_H264 pk config mtu s0 = (True, s)" and "pk = PACKING_LENGTH_PREFIXED \<longrightarrow> \<not> uf_key flags"
    and "nals \<noteq> []" and "\<forall>n\<in>set nals. nal_ok pk (pz_len_size s) n" and "concat frs = nal_units pk (pz_len_size s) nals" and "mtu \<le> plen"
    and "dp_codec d = Some CODEC_H264" and "\<not> dp_in_unit d" and "dp_skip_ts d \<noteq> Some ts" and "mtu + 4 \<le> out_len - ea_unit_header e"
    and "\<forall>fl n. n \<le> out_len - ea_unit_header e \<longrightarrow> ea_header e out_len fl n"
  shows "\<exists>ps s' rs d'. packetize plen (begin_unit flags s) frs = Some (ps, s') \<and>
    markers_last ps \<and> (\<forall>p\<in>set ps. length (fst p) \<le> mtu) \<and>
    dp_packets e out_len (received_unit CODEC_H264 ts ps) d = (rs, d') \<and> one_unit rs (nal_units PACKING_ANNEXB 0 nals)"
proof -
  define b where "b = begin_unit flags s"
  define ls where "ls = pz_len_size s"
  define st0 where "st0 = (pz_nal b, pz_nal_len b, 0 :: nat, False)"
  define rm where "rm = out_len - ea_unit_header e"
  have mtu: "16 \<le> mtu" and pk: "pk = PACKING_ANNEXB \<or> pk = PACKING_LENGTH_PREFIXED" and s: "pz_packing s = pk" "pz_mtu s = mtu" "pz_codec s = CODEC_H264"
    and ls: "pk = PACKING_LENGTH_PREFIXED \<Longrightarrow> 0 < ls \<and> ls \<le> 4" and cfg: "pk = PACKING_ANNEXB \<Longrightarrow> pz_config s = []"
    using assms(1) by (auto simp: pz_stream_def ls_def Let_def can_packetize_def split: if_splits packing.splits)
      (use word_and_le1 [of "config ! 4" 3] in \<open>simp add: word_le_nat_alt\<close>)
  have q: "if pk = PACKING_ANNEXB then pz_nal b = NalSeeking \<or> pz_nal b = NalBody else pz_nal b = NalLength 0"
    using pk s by (auto simp: b_def begin_unit_def Let_def)
  have inv: "h264_inv plen rm pk ls mtu st0 [] [] b"
    using pk s mtu assms(2,6,10) cfg
    by (auto simp: h264_inv_def h264_config_def h264_buffer_def nal_open_def held_back_def b_def begin_unit_def Let_def st0_def ls_def rm_def)
  have set0: "h264_settled pk ls st0 [] b" by (simp add: h264_settled_def st0_def)
  obtain n' e' where run: "nal_run pk ls st0 (nal_units pk ls nals) =
      Some ((if pk = PACKING_ANNEXB then NalBody else NalLength 0, n', 0, e'), nal_units PACKING_ANNEXB ls nals)" "e' \<or> pk = PACKING_ANNEXB"
    using nal_run_units [OF assms(4) [folded ls_def] _ assms(3) q, of "pz_nal_len b" False] pk ls unfolding st0_def by blast
  have ne: "frs \<noteq> []" using assms(3-5) by (cases nals) (auto simp: nal_units_def nal_ok_def)
  obtain ps s' where p: "packetize plen b frs = Some (ps, s')" "h264_complete rm pk ls mtu st0 (concat frs) ps"
    using h264.packetize_from [OF ne inv set0] run(1) assms(5) [folded ls_def] by auto
  have c: "h264_unpack rm (map fst ps) = Some (nal_units PACKING_ANNEXB ls nals)" "markers_last ps" "\<forall>p\<in>set ps. length (fst p) \<le> mtu"
    using p(2) run assms(5) [folded ls_def] by (auto simp: h264_complete_def list_all_iff)
  have "nal_units PACKING_ANNEXB ls nals = nal_units PACKING_ANNEXB 0 nals" by (simp add: nal_units_def)
  moreover obtain rs d' where "dp_packets e out_len (received_unit CODEC_H264 ts ps) d = (rs, d')" "one_unit rs (nal_units PACKING_ANNEXB ls nals)"
    using dp_packets_unit [of CODEC_H264 out_len e d ts ps "nal_units PACKING_ANNEXB ls nals"] assms(7-9,11) c by (auto simp: rm_def)
  ultimately show ?thesis using p(1) c unfolding b_def by auto
qed

theorem h264_unit_survives_rtp_witness:
  "\<exists>ps s' rs d'. packetize 16 (begin_unit \<lparr> uf_key = False, uf_discontinuity = False, uf_continues = False, uf_truncated = False \<rparr>
      (snd (pz_stream CODEC_H264 PACKING_ANNEXB [] 16 packetizer_new))) [[0, 0, 0, 1, 0x67, 1, 2, 0, 0], [], [0, 1, 0x65] @ replicate 30 9] = Some (ps, s') \<and>
    markers_last ps \<and> (\<forall>p\<in>set ps. length (fst p) \<le> 16) \<and>
    dp_packets \<lparr> ea_write = (\<lambda>_ _. None), ea_header = (\<lambda>room _ n. n + 16 \<le> room), ea_unit_header = 16, ea_stream_header = 16 \<rparr> 100
      (received_unit CODEC_H264 7 ps) (depacketizer_new\<lparr> dp_codec := Some CODEC_H264 \<rparr>) = (rs, d') \<and>
    one_unit rs ([0, 0, 0, 1, 0x67, 1, 2] @ [0, 0, 0, 1, 0x65] @ replicate 30 9)"
proof -
  have c: "code_free 0 (replicate n 9)" for n by (induction n) simp_all
  have t: "nal_type_ok 0x67" "nal_type_ok 0x65" by (simp_all add: nal_type_ok_def)
  have u: "nal_units PACKING_ANNEXB 0 [[0x67, 1, 2], 0x65 # replicate 30 9] = [0, 0, 0, 1, 0x67, 1, 2] @ [0, 0, 0, 1, 0x65] @ replicate 30 9"
    by (simp add: nal_units_def)
  show ?thesis
    unfolding u [symmetric]
    by (rule h264_unit_survives_rtp [where config = "[]" and pk = PACKING_ANNEXB and ?s0.0 = packetizer_new])
       (use c t in \<open>auto simp: pz_stream_def can_packetize_def Let_def nal_ok_def nal_units_def depacketizer_new_def\<close>)
qed

text \<open>C34. A VP8 frame comes through RTP unharmed: however the frame is cut into fragments, the packetizer returns, no packet is larger
  than the payload size, only the last has the marker, and a receiver that gets the packets in order
  writes one unit made of the bytes of the frame.\<close>

theorem vp8_frame_survives_rtp:
  assumes "pz_stream CODEC_VP8 PACKING_RAW config mtu s0 = (True, s)" and "concat frs \<noteq> []" and "mtu \<le> plen"
    and "dp_codec d = Some CODEC_VP8" and "\<not> dp_in_unit d" and "dp_skip_ts d \<noteq> Some ts" and "mtu \<le> out_len - ea_unit_header e"
    and "\<forall>fl n. n \<le> out_len - ea_unit_header e \<longrightarrow> ea_header e out_len fl n"
  shows "\<exists>ps s' rs d'. packetize plen (begin_unit flags s) frs = Some (ps, s') \<and>
    markers_last ps \<and> (\<forall>p\<in>set ps. length (fst p) \<le> mtu) \<and>
    dp_packets e out_len (received_unit CODEC_VP8 ts ps) d = (rs, d') \<and> one_unit rs (concat frs)"
proof -
  define rm where "rm = out_len - ea_unit_header e"
  have "16 \<le> mtu" "pz_mtu s = mtu" "pz_codec s = CODEC_VP8"
    using assms(1) by (auto simp: pz_stream_def Let_def split: if_splits)
  then have inv: "vp8_inv plen rm mtu [] [] (begin_unit flags s)"
    using assms(3,7) by (auto simp: vp8_inv_def begin_unit_def Let_def rm_def)
  have ne: "frs \<noteq> []" using assms(2) by auto
  then obtain ps s' where p: "packetize plen (begin_unit flags s) frs = Some (ps, s')" "vp8_complete rm mtu (concat frs) ps"
    using vp8.packetize_from [OF ne inv] by (auto simp: vp8_settled_def)
  have c: "vp8_unpack rm (map fst ps) = Some (concat frs)" "markers_last ps" "\<forall>p\<in>set ps. length (fst p) \<le> mtu"
    using p(2) assms(2) by (auto simp: vp8_complete_def list_all_iff)
  obtain rs d' where "dp_packets e out_len (received_unit CODEC_VP8 ts ps) d = (rs, d')" "one_unit rs (concat frs)"
    using dp_packets_unit [of CODEC_VP8 out_len e d ts ps "concat frs"] assms(4-6,8) c by (auto simp: rm_def)
  with p(1) c show ?thesis by auto
qed

theorem vp8_frame_survives_rtp_witness:
  "\<exists>ps s' rs d'. packetize 16 (begin_unit \<lparr> uf_key = True, uf_discontinuity = False, uf_continues = False, uf_truncated = False \<rparr>
      (snd (pz_stream CODEC_VP8 PACKING_RAW [] 16 packetizer_new))) [replicate 20 7, [], [1, 2, 3]] = Some (ps, s') \<and>
    markers_last ps \<and> (\<forall>p\<in>set ps. length (fst p) \<le> 16) \<and>
    dp_packets \<lparr> ea_write = (\<lambda>_ _. None), ea_header = (\<lambda>room _ n. n + 16 \<le> room), ea_unit_header = 16, ea_stream_header = 16 \<rparr> 100
      (received_unit CODEC_VP8 7 ps) (depacketizer_new\<lparr> dp_codec := Some CODEC_VP8 \<rparr>) = (rs, d') \<and>
    one_unit rs (concat [replicate 20 7, [], [1, 2, 3]])"
  by (rule vp8_frame_survives_rtp [where config = "[]" and ?s0.0 = packetizer_new])
     (auto simp: pz_stream_def can_packetize_def Let_def depacketizer_new_def)

end
