(* ===== verification/Sigv4.thy ===== *)
theory Sigv4
  imports Wave_Prelude "HOL-Library.List_Lexorder" "HOL-Library.Product_Lexorder" "HOL-Library.Multiset"
begin

text \<open>
  AWS Signature Version 4 (\<open>modules/common/sigv4_core.rs\<close>): the canonical request, the signature over it, the two ways a request
  carries one, and the clock. SHA-256 belongs to the SDK: it is the parameter \<open>sha\<close>, and a hash that is fed piece by
  piece is the list of the bytes fed to it. Lengths and offsets are natural numbers; the scratch buffer is small enough
  for the sixteen-bit spans the code keeps.
\<close>

unbundle bit_operations_syntax

section \<open>Keys and signatures\<close>

datatype sv4_error = SvMissing | SvMalformed | SvAlgorithm | SvScope | SvHeaderMissing | SvSkew | SvExpired | SvUnknownKey | SvMismatch
  | SvPayloadForm | SvTooLarge

abbreviation (input) SV4_ALGORITHM :: bytes where "SV4_ALGORITHM \<equiv> ascii ''AWS4-HMAC-SHA256''"
abbreviation (input) SV4_EMPTY_SHA256 :: bytes where
  "SV4_EMPTY_SHA256 \<equiv> ascii ''e3b0c44298fc1c149afbf4c8996fb92427ae41e4649b934ca495991b7852b855''"
abbreviation (input) SV4_EXPIRES_MAX :: nat where "SV4_EXPIRES_MAX \<equiv> 604800"
abbreviation (input) SV4_SKEW_MAX :: u64 where "SV4_SKEW_MAX \<equiv> 900"
abbreviation (input) SV4_QUERY_PARAMS_MAX :: nat where "SV4_QUERY_PARAMS_MAX \<equiv> 64"
abbreviation (input) SV4_QUERY_SCRATCH :: nat where "SV4_QUERY_SCRATCH \<equiv> 6144"
abbreviation (input) SV4_SIGNED_HEADERS_MAX :: nat where "SV4_SIGNED_HEADERS_MAX \<equiv> 32"

definition sv4_hmac :: "(bytes \<Rightarrow> bytes) \<Rightarrow> bytes \<Rightarrow> bytes \<Rightarrow> bytes" where
  "sv4_hmac sha key msg =
     (let k = blit 0 (if 64 < length key then sha key else key) (replicate 64 0);
          ipad = map (\<lambda>b. 0x36 XOR b) k; opad = map (\<lambda>b. 0x5c XOR b) k
      in sha (opad @ sha (ipad @ msg)))"

definition sv4_hex_pair :: "byte \<Rightarrow> bytes" where
  "sv4_hex_pair b = [ascii ''0123456789abcdef'' ! unat (drop_bit 4 b), ascii ''0123456789abcdef'' ! unat (b AND 0xf)]"

fun sv4_hex_loop :: "bytes \<Rightarrow> nat \<Rightarrow> bytes \<Rightarrow> nat \<times> bytes" where
  "sv4_hex_loop [] p out = (p, out)"
| "sv4_hex_loop (b # bs) p out = (if length out < p + 2 then (p, out) else sv4_hex_loop bs (p + 2) (blit p (sv4_hex_pair b) out))"

definition sv4_hex :: "bytes \<Rightarrow> bytes \<Rightarrow> nat \<times> bytes" where
  "sv4_hex data out = sv4_hex_loop data 0 out"

definition sv4_hex32 :: "bytes \<Rightarrow> bytes" where
  "sv4_hex32 d = snd (sv4_hex d (replicate 64 0))"

definition sv4_sha256_hex :: "(bytes \<Rightarrow> bytes) \<Rightarrow> bytes \<Rightarrow> bytes" where
  "sv4_sha256_hex sha data = sv4_hex32 (sha data)"

definition sv4_signing_key :: "(bytes \<Rightarrow> bytes) \<Rightarrow> bytes \<Rightarrow> bytes \<Rightarrow> bytes \<Rightarrow> bytes \<Rightarrow> bytes" where
  "sv4_signing_key sha secret date region service =
     (let k_date = (if 64 < 4 + length secret then sv4_hmac sha (sha (ascii ''AWS4'' @ secret)) date
                    else sv4_hmac sha (ascii ''AWS4'' @ secret) date);
          k_region = sv4_hmac sha k_date region;
          k_service = sv4_hmac sha k_region service
      in sv4_hmac sha k_service (ascii ''aws4_request''))"

definition sv4_eq :: "bytes \<Rightarrow> bytes \<Rightarrow> bool" where
  "sv4_eq a b = (if length a \<noteq> length b then False else foldl (OR) 0 (map2 (XOR) a b) = 0)"

section \<open>Dates\<close>

fun sv4_digits_loop :: "bytes \<Rightarrow> nat \<Rightarrow> nat option" where
  "sv4_digits_loop [] v = Some v"
| "sv4_digits_loop (c # cs) v =
     (if \<not> is_ascii_digit c then None
      else if 2 ^ 64 \<le> v * 10 + unat (c - 48) then None
      else sv4_digits_loop cs (v * 10 + unat (c - 48)))"

definition sv4_digits :: "bytes \<Rightarrow> nat option" where
  "sv4_digits s = (if s = [] then None else sv4_digits_loop s 0)"

text \<open>Division of \<open>i64\<close> truncates; the only negative dividend here is written out.\<close>

definition sv4_days_from_civil :: "int \<Rightarrow> int \<Rightarrow> int \<Rightarrow> int" where
  "sv4_days_from_civil y0 m d =
     (let y = (if m \<le> 2 then y0 - 1 else y0);
          era = (if 0 \<le> y then y div 400 else - ((399 - y) div 400));
          yoe = y - era * 400;
          mp = (if 2 < m then m - 3 else m + 9);
          doy = (153 * mp + 2) div 5 + d - 1;
          doe = yoe * 365 + yoe div 4 - yoe div 100 + doy
      in era * 146097 + doe - 719468)"

definition sv4_parse_amz_date :: "bytes \<Rightarrow> nat option" where
  "sv4_parse_amz_date s =
     (if length s \<noteq> 16 \<or> s ! 8 \<noteq> 84 \<or> s ! 15 \<noteq> 90 then None
      else case (sv4_digits (bslice 0 4 s), sv4_digits (bslice 4 6 s), sv4_digits (bslice 6 8 s),
                 sv4_digits (bslice 9 11 s), sv4_digits (bslice 11 13 s), sv4_digits (bslice 13 15 s)) of
        (Some year, Some month, Some day, Some hour, Some mins, Some sec) \<Rightarrow>
          if \<not> (1 \<le> month \<and> month \<le> 12) \<or> \<not> (1 \<le> day \<and> day \<le> 31) \<or> 23 < hour \<or> 59 < mins \<or> 60 < sec then None
          else
            let days = sv4_days_from_civil (int year) (int month) (int day) in
            if days < 0 then None
            else Some (nat days * 86400 + hour * 3600 + mins * 60 + sec)
      | _ \<Rightarrow> None)"

text \<open>The closure that writes a number into a field of digits, from the last one back.\<close>

fun put_digits :: "nat \<Rightarrow> nat \<Rightarrow> bytes" where
  "put_digits 0 v = []"
| "put_digits (Suc k) v = put_digits k (v div 10) @ [48 + of_nat (v mod 10)]"

definition sv4_format_amz_date :: "nat \<Rightarrow> bytes \<times> bytes" where
  "sv4_format_amz_date secs =
     (let days = int (secs div 86400); sod = secs mod 86400;
          z = days + 719468; era = z div 146097; doe = z - era * 146097;
          yoe = (doe - doe div 1460 + doe div 36524 - doe div 146096) div 365;
          doy = doe - (365 * yoe + yoe div 4 - yoe div 100);
          mp = (5 * doy + 2) div 153;
          d = nat (doy - (153 * mp + 2) div 5 + 1);
          m = nat (if mp < 10 then mp + 3 else mp - 9);
          y = nat (yoe + era * 400 + (if m \<le> 2 then 1 else 0));
          date = put_digits 4 y @ put_digits 2 m @ put_digits 2 d
      in (date @ [84] @ put_digits 2 (sod div 3600) @ put_digits 2 (sod mod 3600 div 60) @ put_digits 2 (sod mod 60) @ [90], date))"

section \<open>Encoding\<close>

definition sv4_unreserved :: "byte \<Rightarrow> bool" where
  "sv4_unreserved c \<longleftrightarrow> is_ascii_alphanumeric c \<or> c = 45 \<or> c = 46 \<or> c = 95 \<or> c = 126"

definition sv4_hexval :: "byte \<Rightarrow> byte option" where
  "sv4_hexval c =
     (if 48 \<le> c \<and> c \<le> 57 then Some (c - 48)
      else if 97 \<le> c \<and> c \<le> 102 then Some (c - 97 + 10)
      else if 65 \<le> c \<and> c \<le> 70 then Some (c - 65 + 10)
      else None)"

text \<open>The bytes handed on by \<open>sv4_decode_each\<close>.\<close>

fun sv4_decode_each :: "bytes \<Rightarrow> bytes option" where
  "sv4_decode_each [] = Some []"
| "sv4_decode_each (c # cs) =
     (if c = 37 then
        (case cs of
           h # l # rest \<Rightarrow>
             (case (sv4_hexval h, sv4_hexval l) of
                (Some hi, Some lo) \<Rightarrow> map_option ((#) (push_bit 4 hi OR lo)) (sv4_decode_each rest)
              | _ \<Rightarrow> None)
         | _ \<Rightarrow> None)
      else map_option ((#) c) (sv4_decode_each cs))"

definition sv4_decode :: "bytes \<Rightarrow> nat \<Rightarrow> bytes option" where
  "sv4_decode src room =
     (case sv4_decode_each src of None \<Rightarrow> None | Some b \<Rightarrow> if room < length b then None else Some b)"

definition sv4_encode_byte :: "byte \<Rightarrow> bool \<Rightarrow> bytes" where
  "sv4_encode_byte b keep_slash =
     (if sv4_unreserved b \<or> keep_slash \<and> b = 47 then [b]
      else [37, ascii ''0123456789ABCDEF'' ! unat (drop_bit 4 b), ascii ''0123456789ABCDEF'' ! unat (b AND 0xf)])"

definition sv4_hash_encoded :: "bytes \<Rightarrow> bool \<Rightarrow> bytes option" where
  "sv4_hash_encoded src keep_slash = map_option (\<lambda>bs. concat (map (\<lambda>b. sv4_encode_byte b keep_slash) bs)) (sv4_decode_each src)"

fun put_encoded_loop :: "bytes list \<Rightarrow> nat \<Rightarrow> bool \<Rightarrow> bytes \<Rightarrow> (nat \<times> bool) \<times> bytes" where
  "put_encoded_loop [] at over out = ((at, over), out)"
| "put_encoded_loop (e # es) at over out =
     (if at + length e \<le> length out then put_encoded_loop es (at + length e) over (blit at e out)
      else put_encoded_loop es at True out)"

definition sv4_put_encoded :: "nat \<Rightarrow> bytes \<Rightarrow> bool \<Rightarrow> nat writer" where
  "sv4_put_encoded at src keep_slash out =
     (case sv4_decode_each src of
        None \<Rightarrow> (None, out)
      | Some bs \<Rightarrow>
          (case put_encoded_loop (map (\<lambda>b. sv4_encode_byte b keep_slash) bs) at False out of
             ((at', over), out') \<Rightarrow> (if over then None else Some at', out')))"

section \<open>Targets and headers\<close>

fun split_byte :: "byte \<Rightarrow> bytes \<Rightarrow> bytes list" where
  "split_byte c [] = [[]]"
| "split_byte c (b # bs) = (if b = c then [] # split_byte c bs else (case split_byte c bs of p # ps \<Rightarrow> (b # p) # ps | [] \<Rightarrow> [[b]]))"

definition cut_at :: "byte \<Rightarrow> bytes \<Rightarrow> bytes \<times> bytes" where
  "cut_at c s = (takeWhile (\<lambda>b. b \<noteq> c) s, drop 1 (dropWhile (\<lambda>b. b \<noteq> c) s))"

definition sv4_split_target :: "bytes \<Rightarrow> bytes \<times> bytes" where
  "sv4_split_target target = cut_at 63 target"

fun query_param_loop :: "bytes list \<Rightarrow> bytes \<Rightarrow> bytes option" where
  "query_param_loop [] nm = None"
| "query_param_loop (p # ps) nm = (case cut_at 61 p of (k, v) \<Rightarrow> if k = nm then Some v else query_param_loop ps nm)"

definition sv4_query_param :: "bytes \<Rightarrow> bytes \<Rightarrow> bytes option" where
  "sv4_query_param query nm = query_param_loop (split_byte 38 query) nm"

definition sv4_query_has :: "bytes \<Rightarrow> bytes \<Rightarrow> bool" where
  "sv4_query_has query nm \<longleftrightarrow> sv4_query_param query nm \<noteq> None"

definition is_blank :: "byte \<Rightarrow> bool" where
  "is_blank c \<longleftrightarrow> c = 32 \<or> c = 9"

definition trim_blank :: "bytes \<Rightarrow> bytes" where
  "trim_blank v = rev (dropWhile is_blank (rev (dropWhile is_blank v)))"

text \<open>A line of the block with its name and value, or none if it has no colon.\<close>

definition header_line :: "bytes \<Rightarrow> (bytes \<times> bytes) option" where
  "header_line l =
     (let line = (if l \<noteq> [] \<and> last l = 13 then butlast l else l)
      in if 58 \<in> set line then Some (cut_at 58 line) else None)"

definition sv4_name_is :: "bytes \<Rightarrow> bytes \<Rightarrow> bool" where
  "sv4_name_is a b \<longleftrightarrow> map to_ascii_lowercase a = map to_ascii_lowercase b"

fun collapse_loop :: "bytes \<Rightarrow> bool \<Rightarrow> bytes" where
  "collapse_loop [] space = []"
| "collapse_loop (c # cs) space =
     (if is_blank c then collapse_loop cs True else (if space then [32] else []) @ c # collapse_loop cs False)"

fun header_canonical_loop :: "bytes list \<Rightarrow> bytes \<Rightarrow> bool \<Rightarrow> bytes \<Rightarrow> bool \<times> bytes" where
  "header_canonical_loop [] nm found acc = (found, acc)"
| "header_canonical_loop (l # ls) nm found acc =
     (case header_line l of
        None \<Rightarrow> header_canonical_loop ls nm found acc
      | Some (n, v) \<Rightarrow>
          if \<not> sv4_name_is n nm then header_canonical_loop ls nm found acc
          else header_canonical_loop ls nm True (acc @ (if found then [44] else []) @ collapse_loop (trim_blank v) False))"

definition sv4_header_canonical :: "bytes \<Rightarrow> bytes \<Rightarrow> bool \<times> bytes" where
  "sv4_header_canonical headers nm = header_canonical_loop (split_byte 10 headers) nm False []"

fun header_loop :: "bytes list \<Rightarrow> bytes \<Rightarrow> bytes option" where
  "header_loop [] nm = None"
| "header_loop (l # ls) nm =
     (case header_line l of
        None \<Rightarrow> header_loop ls nm
      | Some (n, v) \<Rightarrow> if sv4_name_is n nm then Some (trim_blank v) else header_loop ls nm)"

definition sv4_header :: "bytes \<Rightarrow> bytes \<Rightarrow> bytes option" where
  "sv4_header headers nm = header_loop (split_byte 10 headers) nm"

section \<open>Where a request carries its signature\<close>

record sv4_auth =
  sa_access_key :: bytes
  sa_scope_date :: bytes
  sa_region :: bytes
  sa_service :: bytes
  sa_signed_headers :: bytes
  sa_signature :: bytes
  sa_amz_date :: bytes
  sa_expires :: "nat option"

definition sv4_credential :: "bytes \<Rightarrow> (bytes \<times> bytes \<times> bytes \<times> bytes) option" where
  "sv4_credential c =
     (case split_byte 47 c of
        [ak, date, region, service, trm] \<Rightarrow>
          if trm \<noteq> ascii ''aws4_request'' \<or> ak = [] \<or> length date \<noteq> 8 then None else Some (ak, date, region, service)
      | _ \<Rightarrow> None)"

definition strip_prefix :: "bytes \<Rightarrow> bytes \<Rightarrow> bytes option" where
  "strip_prefix p s = (if take (length p) s = p then Some (drop (length p) s) else None)"

fun auth_parts :: "bytes list \<Rightarrow> bytes option \<times> bytes option \<times> bytes option \<Rightarrow> bytes option \<times> bytes option \<times> bytes option" where
  "auth_parts [] st = st"
| "auth_parts (p # ps) (cred, shdrs, sig) =
     (let part = dropWhile (\<lambda>c. c = 32) p in
      auth_parts ps
        (case strip_prefix (ascii ''Credential='') part of
           Some v \<Rightarrow> (Some v, shdrs, sig)
         | None \<Rightarrow>
             (case strip_prefix (ascii ''SignedHeaders='') part of
                Some v \<Rightarrow> (cred, Some v, sig)
              | None \<Rightarrow>
                  (case strip_prefix (ascii ''Signature='') part of
                     Some v \<Rightarrow> (cred, shdrs, Some v)
                   | None \<Rightarrow> (cred, shdrs, sig)))))"

definition sv4_parse_header_auth :: "bytes \<Rightarrow> sv4_error + sv4_auth" where
  "sv4_parse_header_auth headers =
     (case sv4_header headers (ascii ''authorization'') of
        None \<Rightarrow> Inl SvMissing
      | Some auth \<Rightarrow>
          (case strip_prefix SV4_ALGORITHM auth of
             None \<Rightarrow> Inl (if 32 \<in> set auth then SvAlgorithm else SvMalformed)
           | Some rest \<Rightarrow>
               (case auth_parts (split_byte 44 rest) (None, None, None) of
                  (Some cred, Some shdrs, Some sig) \<Rightarrow>
                    (case sv4_credential cred of
                       None \<Rightarrow> Inl SvMalformed
                     | Some (ak, date, region, service) \<Rightarrow>
                         (case sv4_header headers (ascii ''x-amz-date'') of
                            None \<Rightarrow> Inl SvHeaderMissing
                          | Some amz_date \<Rightarrow>
                              Inr \<lparr> sa_access_key = ak, sa_scope_date = date, sa_region = region, sa_service = service,
                                    sa_signed_headers = shdrs, sa_signature = sig, sa_amz_date = amz_date, sa_expires = None \<rparr>))
                | _ \<Rightarrow> Inl SvMalformed)))"

definition sv4_parse_presigned :: "bytes \<Rightarrow> sv4_error + sv4_auth" where
  "sv4_parse_presigned query =
     (case sv4_query_param query (ascii ''X-Amz-Algorithm'') of
        None \<Rightarrow> Inl SvMissing
      | Some alg \<Rightarrow>
          if alg \<noteq> SV4_ALGORITHM then Inl SvAlgorithm
          else
            (case Option.bind (sv4_query_param query (ascii ''X-Amz-Credential'')) (\<lambda>raw. Option.bind (sv4_decode raw 256) sv4_credential) of
               None \<Rightarrow> Inl SvMalformed
             | Some (ak, date, region, service) \<Rightarrow>
                 (case (sv4_query_param query (ascii ''X-Amz-SignedHeaders''), sv4_query_param query (ascii ''X-Amz-Signature''),
                        sv4_query_param query (ascii ''X-Amz-Date''),
                        Option.bind (sv4_query_param query (ascii ''X-Amz-Expires'')) sv4_digits) of
                    (Some shdrs, Some sig, Some amz_date, Some expires) \<Rightarrow>
                      if expires = 0 \<or> SV4_EXPIRES_MAX < expires then Inl SvMalformed
                      else Inr \<lparr> sa_access_key = ak, sa_scope_date = date, sa_region = region, sa_service = service,
                                 sa_signed_headers = shdrs, sa_signature = sig, sa_amz_date = amz_date, sa_expires = Some expires \<rparr>
                  | _ \<Rightarrow> Inl SvMalformed)))"

section \<open>The canonical request\<close>

type_synonym query_entry = "nat \<times> nat \<times> nat \<times> nat"

fun query_loop :: "bytes list \<Rightarrow> bool \<Rightarrow> nat \<Rightarrow> query_entry list \<Rightarrow> bytes \<Rightarrow> sv4_error + (query_entry list \<times> bytes)" where
  "query_loop [] skip_signature at es scratch = Inr (es, scratch)"
| "query_loop (p # ps) skip_signature at es scratch =
     (if p = [] then query_loop ps skip_signature at es scratch
      else
        case cut_at 61 p of (k, v) \<Rightarrow>
          if skip_signature \<and> k = ascii ''X-Amz-Signature'' then query_loop ps skip_signature at es scratch
          else if length es = SV4_QUERY_PARAMS_MAX then Inl SvTooLarge
          else
            (case sv4_put_encoded at k False scratch of
               (None, _) \<Rightarrow> Inl SvMalformed
             | (Some v_at, s1) \<Rightarrow>
                 (case sv4_put_encoded v_at v False s1 of
                    (None, _) \<Rightarrow> Inl SvMalformed
                  | (Some at', s2) \<Rightarrow> query_loop ps skip_signature at' (es @ [(at, v_at - at, v_at, at' - v_at)]) s2)))"

definition entry_key :: "bytes \<Rightarrow> query_entry \<Rightarrow> bytes \<times> bytes" where
  "entry_key scratch e = (case e of (ka, kl, va, vl) \<Rightarrow> (bslice ka (ka + kl) scratch, bslice va (va + vl) scratch))"

text \<open>The insertion sort: one entry is moved back past the greater ones, for each entry in turn.\<close>

fun sift_back :: "bytes \<Rightarrow> nat \<Rightarrow> query_entry list \<Rightarrow> query_entry list" where
  "sift_back scratch 0 es = es"
| "sift_back scratch (Suc j) es =
     (if entry_key scratch (es ! j) \<le> entry_key scratch (es ! Suc j) then es
      else sift_back scratch j (es[j := es ! Suc j, Suc j := es ! j]))"

definition sv4_canonical_query :: "bytes \<Rightarrow> bool \<Rightarrow> bytes \<Rightarrow> sv4_error + (query_entry list \<times> bytes)" where
  "sv4_canonical_query query skip_signature scratch =
     (if query = [] then Inr ([], scratch)
      else
        case query_loop (split_byte 38 query) skip_signature 0 [] scratch of
          Inl e \<Rightarrow> Inl e
        | Inr (es, s) \<Rightarrow> Inr (fold (sift_back s) [1..<length es] es, s))"

fun query_text :: "(bytes \<times> bytes) list \<Rightarrow> bytes" where
  "query_text [] = []"
| "query_text [(k, v)] = k @ [61] @ v"
| "query_text ((k, v) # ps) = k @ [61] @ v @ [38] @ query_text ps"

fun signed_headers_loop :: "bytes list \<Rightarrow> bytes \<Rightarrow> nat \<Rightarrow> bool \<Rightarrow> bytes \<Rightarrow> sv4_error + (bool \<times> bytes)" where
  "signed_headers_loop [] headers names has_host acc = Inr (has_host, acc)"
| "signed_headers_loop (n # ns) headers names has_host acc =
     (if n = [] then Inl SvMalformed
      else if SV4_SIGNED_HEADERS_MAX < names + 1 then Inl SvTooLarge
      else
        case sv4_header_canonical headers n of (found, v) \<Rightarrow>
          if \<not> found then Inl SvHeaderMissing
          else signed_headers_loop ns headers (names + 1) (has_host \<or> n = ascii ''host'') (acc @ n @ [58] @ v @ [10]))"

definition sv4_canonical_request_hash :: "(bytes \<Rightarrow> bytes) \<Rightarrow> bytes \<Rightarrow> bytes \<Rightarrow> bytes \<Rightarrow> bytes \<Rightarrow> bytes \<Rightarrow> bool \<Rightarrow> bytes \<Rightarrow> sv4_error + bytes" where
  "sv4_canonical_request_hash sha method_name target headers signed_headers payload_hash presigned scratch =
     (case sv4_split_target target of (path, query) \<Rightarrow>
        (case (if path = [] then Some [47] else sv4_hash_encoded path True) of
           None \<Rightarrow> Inl SvMalformed
         | Some uri \<Rightarrow>
             (case sv4_canonical_query query presigned scratch of
                Inl e \<Rightarrow> Inl e
              | Inr (es, s) \<Rightarrow>
                  (case signed_headers_loop (split_byte 59 signed_headers) headers 0 False [] of
                     Inl e \<Rightarrow> Inl e
                   | Inr (has_host, hdrs) \<Rightarrow>
                       if \<not> has_host then Inl SvHeaderMissing
                       else Inr (sha (method_name @ [10] @ uri @ [10] @ query_text (map (entry_key s) es) @ [10] @ hdrs @ [10] @
                                      signed_headers @ [10] @ payload_hash))))))"

section \<open>Signatures and the clock\<close>

definition append_bounded :: "nat \<Rightarrow> bytes list \<Rightarrow> bytes" where
  "append_bounded cap parts = foldl (\<lambda>acc p. acc @ take (cap - length acc) p) [] parts"

definition sv4_signature :: "(bytes \<Rightarrow> bytes) \<Rightarrow> bytes \<Rightarrow> bytes \<Rightarrow> bytes \<Rightarrow> bytes \<Rightarrow> bytes \<Rightarrow> bytes \<Rightarrow> bytes" where
  "sv4_signature sha signing_key amz_date scope_date region service canonical_hash =
     sv4_hex32 (sv4_hmac sha signing_key
       (append_bounded 256 [SV4_ALGORITHM, [10], amz_date, [10], scope_date, [47], region, [47], service, ascii ''/aws4_request'' @ [10],
                            sv4_hex32 canonical_hash]))"

definition sv4_chunk_signature :: "(bytes \<Rightarrow> bytes) \<Rightarrow> bytes \<Rightarrow> bytes \<Rightarrow> bytes \<Rightarrow> bytes \<Rightarrow> bytes \<Rightarrow> bytes \<Rightarrow> bytes \<Rightarrow> bytes" where
  "sv4_chunk_signature sha signing_key amz_date scope_date region service previous chunk_hash =
     sv4_hex32 (sv4_hmac sha signing_key
       (append_bounded 512 [ascii ''AWS4-HMAC-SHA256-PAYLOAD'' @ [10], amz_date, [10], scope_date, [47], region, [47], service,
                            ascii ''/aws4_request'' @ [10], previous, [10], SV4_EMPTY_SHA256, [10], sv4_hex32 chunk_hash]))"

definition sat_sub64 :: "u64 \<Rightarrow> u64 \<Rightarrow> u64" where
  "sat_sub64 a b = (if a < b then 0 else a - b)"

definition sv4_within_skew :: "u64 \<Rightarrow> u64 \<Rightarrow> u64 \<Rightarrow> bool" where
  "sv4_within_skew t now uncertainty \<longleftrightarrow>
     sat_add64 now uncertainty \<le> sat_add64 t SV4_SKEW_MAX \<and> t \<le> sat_add64 (sat_sub64 now uncertainty) SV4_SKEW_MAX"

definition sv4_presign_live :: "u64 \<Rightarrow> u64 \<Rightarrow> u64 \<Rightarrow> u64 \<Rightarrow> bool" where
  "sv4_presign_live t expires now uncertainty \<longleftrightarrow> sat_add64 now uncertainty \<le> sat_add64 t expires"

section \<open>The calendar\<close>

definition year_of :: "int \<Rightarrow> int" where
  "year_of doe = (doe - doe div 1460 + doe div 36524 - doe div 146096) div 365"

lemma div_bounds:
  assumes "0 < (k :: int)"
  shows "k * (x div k) \<le> x" "x < k * (x div k) + k"
proof -
  have "x = k * (x div k) + x mod k" by simp
  moreover have "0 \<le> x mod k" "x mod k < k" using assms by simp_all
  ultimately show "k * (x div k) \<le> x" "x < k * (x div k) + k" by linarith+
qed

lemma year_in_century:
  fixes t c y :: int
  assumes "0 \<le> t" and "t \<le> 36523" and "0 \<le> c" and "c \<le> 3" and y: "y = (t - (24 * c + t) div 1460) div 365"
  shows "0 \<le> y" "y \<le> 99" "365 * y + y div 4 \<le> t" "t \<le> 365 * y + y div 4 + 365"
proof -
  define u where "u = (24 * c + t) div 1460"
  define a where "a = y div 4"
  have u: "1460 * u \<le> 24 * c + t" "24 * c + t < 1460 * u + 1460" "0 \<le> u"
    unfolding u_def using div_bounds [of 1460 "24 * c + t"] assms by (simp_all add: pos_imp_zdiv_nonneg_iff)
  have "365 * y \<le> t - u" "t - u < 365 * y + 365" unfolding y u_def using div_bounds [of 365] by simp_all
  note yb = this
  have ab: "4 * a \<le> y" "y < 4 * a + 4" unfolding a_def using div_bounds [of 4 y] by simp_all
  show y0: "0 \<le> y" using yb u assms by linarith
  show y99: "y \<le> 99"
  proof (rule ccontr)
    assume "\<not> y \<le> 99"
    then have "36500 + u \<le> t" using yb by linarith
    then have "25 \<le> u" using u assms by linarith
    with \<open>36500 + u \<le> t\<close> show False using assms by linarith
  qed
  have "a \<le> u"
  proof (rule ccontr)
    assume "\<not> a \<le> u"
    then have "1460 * u + 1460 + u \<le> t" using yb ab by linarith
    then show False using u assms by linarith
  qed
  then show "365 * y + y div 4 \<le> t" using yb unfolding a_def by linarith
  have "u \<le> a + 1"
  proof (rule ccontr)
    assume "\<not> u \<le> a + 1"
    then show False using yb u ab y99 assms by linarith
  qed
  then show "t \<le> 365 * y + y div 4 + 365" using yb unfolding a_def by linarith
qed

lemma year_of_day:
  assumes "0 \<le> doe" and "doe \<le> 146096"
  shows "0 \<le> year_of doe \<and> year_of doe \<le> 399 \<and>
    0 \<le> doe - (365 * year_of doe + year_of doe div 4 - year_of doe div 100) \<and>
    doe - (365 * year_of doe + year_of doe div 4 - year_of doe div 100) \<le> 365"
proof (cases "doe = 146096")
  case True
  then show ?thesis by (simp add: year_of_def)
next
  case False
  define c where "c = doe div 36524"
  define t where "t = doe mod 36524"
  define y where "y = (t - (24 * c + t) div 1460) div 365"
  have doe: "doe = 36524 * c + t" by (simp add: c_def t_def)
  have t: "0 \<le> t" "t \<le> 36523" unfolding t_def using pos_mod_bound [of 36524 doe] by simp_all
  have c: "0 \<le> c" "c \<le> 3" using doe t assms False by linarith+
  have "doe = (24 * c + t) + (25 * c) * 1460" using doe by simp
  then have q: "doe div 1460 = (24 * c + t) div 1460 + 25 * c" by (metis div_mult_self3 add.commute zero_neq_numeral)
  have last: "doe div 146096 = 0" using assms False by (simp add: div_pos_pos_trivial)
  have "doe - doe div 1460 + doe div 36524 - doe div 146096 = (t - (24 * c + t) div 1460) + (100 * c) * 365"
    unfolding q last c_def [symmetric] using doe by simp
  then have "year_of doe = y + 100 * c" unfolding year_of_def y_def by (metis div_mult_self1 add.commute zero_neq_numeral)
  note yo = this
  note yb = year_in_century [OF t c y_def]
  have "(y + 100 * c) div 4 = y div 4 + 25 * c" by simp
  moreover have "(y + 100 * c) div 100 = c" using yb(1,2) by simp
  ultimately show ?thesis unfolding yo using yb c doe by simp
qed

lemma month_of_day:
  assumes "0 \<le> doy" and "doy \<le> 365" and mp: "mp = (5 * doy + 2) div 153"
  shows "0 \<le> mp" "mp \<le> 11" "1 \<le> doy - (153 * mp + 2) div 5 + (1 :: int)" "doy - (153 * mp + 2) div 5 + 1 \<le> 31"
proof -
  define w where "w = (153 * mp + 2) div 5"
  have m: "153 * mp \<le> 5 * doy + 2" "5 * doy + 2 < 153 * mp + 153" unfolding mp using div_bounds [of 153] by simp_all
  have w: "5 * w \<le> 153 * mp + 2" "153 * mp + 2 < 5 * w + 5" unfolding w_def using div_bounds [of 5] by simp_all
  show "0 \<le> mp" "mp \<le> 11" using m assms by linarith+
  have "w \<le> doy" "doy \<le> w + 30" using m w by linarith+
  then show "1 \<le> doy - (153 * mp + 2) div 5 + 1" "doy - (153 * mp + 2) div 5 + 1 \<le> 31" unfolding w_def by simp_all
qed

lemma length_put_digits [simp]: "length (put_digits k v) = k"
  by (induction k arbitrary: v) simp_all

lemma digits_loop_append:
  "sv4_digits_loop (xs @ ys) v = Option.bind (sv4_digits_loop xs v) (sv4_digits_loop ys)"
  by (induction xs arbitrary: v) simp_all

lemma digit_byte:
  assumes "n < 10"
  shows "is_ascii_digit (48 + of_nat n)" "unat (48 + of_nat n - 48 :: byte) = n"
proof -
  have "n \<in> {0,1,2,3,4,5,6,7,8,9}" using assms by auto
  then show "is_ascii_digit (48 + of_nat n)" by (elim insertE) (simp_all add: is_ascii_digit_def)
  show "unat (48 + of_nat n - 48 :: byte) = n" using assms by (simp add: unat_of_nat)
qed

lemma digits_of_put_digits:
  assumes "v < 10 ^ k" and "k \<le> 19"
  shows "sv4_digits_loop (put_digits k v) 0 = Some v"
  using assms
proof (induction k arbitrary: v)
  case (Suc k)
  have "v < 10 ^ 19" using Suc.prems by (meson order_less_le_trans power_increasing one_le_numeral)
  then have small: "v < 2 ^ 64" by (rule order_less_trans) simp
  have "v div 10 < 10 ^ k" using Suc.prems(1) by simp
  then have ih: "sv4_digits_loop (put_digits k (v div 10)) 0 = Some (v div 10)" using Suc by simp
  have "v div 10 * 10 + v mod 10 = v" by simp
  then show ?case using small digit_byte [of "v mod 10"] by (simp add: digits_loop_append ih)
qed simp

lemma digits_put_digits:
  "\<lbrakk> v < 10 ^ k; 0 < k; k \<le> 19 \<rbrakk> \<Longrightarrow> sv4_digits (put_digits k v) = Some v"
  using digits_of_put_digits [of v k] length_put_digits [of k v] by (fastforce simp: sv4_digits_def simp del: length_put_digits)

lemma amz_date_fields:
  assumes "y < 10000" and "m < 100" and "d < 100" and "h < 100" and "mi < 100" and "s < 100"
  shows "sv4_parse_amz_date (put_digits 4 y @ put_digits 2 m @ put_digits 2 d @ [84] @ put_digits 2 h @ put_digits 2 mi @ put_digits 2 s @ [90]) =
    (if \<not> (1 \<le> m \<and> m \<le> 12) \<or> \<not> (1 \<le> d \<and> d \<le> 31) \<or> 23 < h \<or> 59 < mi \<or> 60 < s then None
     else let days = sv4_days_from_civil (int y) (int m) (int d)
          in if days < 0 then None else Some (nat days * 86400 + h * 3600 + mi * 60 + s))" (is "sv4_parse_amz_date ?t = _")
proof -
  have "bslice 0 4 ?t = put_digits 4 y" "bslice 4 6 ?t = put_digits 2 m" "bslice 6 8 ?t = put_digits 2 d"
    "bslice 9 11 ?t = put_digits 2 h" "bslice 11 13 ?t = put_digits 2 mi" "bslice 13 15 ?t = put_digits 2 s"
    by (simp_all add: bslice_def)
  moreover have "length ?t = 16" "?t ! 8 = 84" "?t ! 15 = 90" by (simp_all add: nth_append)
  ultimately show ?thesis
    unfolding sv4_parse_amz_date_def using assms by (simp add: digits_put_digits)
qed

lemma civil_days_back:
  assumes "0 \<le> yoe" and "yoe \<le> 399" and "0 \<le> era" and "0 \<le> mp" and "mp \<le> 11"
    and "m = (if mp < 10 then mp + 3 else mp - 9)" and "y = yoe + era * 400 + (if m \<le> 2 then 1 else 0)"
  shows "sv4_days_from_civil y m (doy - (153 * mp + 2) div 5 + 1) = era * 146097 + (365 * yoe + yoe div 4 - yoe div 100 + doy) - 719468"
proof -
  have "(yoe + era * 400) div 400 = era" using assms(1,2) by simp
  moreover have "(if 2 < m then m - 3 else m + 9) = mp" "(if m \<le> 2 then y - 1 else y) = yoe + era * 400"
    using assms by (auto split: if_splits)
  ultimately show ?thesis unfolding sv4_days_from_civil_def using assms(1,3) by (simp add: Let_def)
qed

text \<open>C36. Every second of the years 1970 to 9999 is written as a date that reads back as the same second.\<close>

theorem amz_date_roundtrip:
  assumes "secs < 253402300800"
  shows "sv4_parse_amz_date (fst (sv4_format_amz_date secs)) = Some secs"
proof -
  define days where "days = int (secs div 86400)"
  define era where "era = (days + 719468) div 146097"
  define doe where "doe = days + 719468 - era * 146097"
  define yoe where "yoe = year_of doe"
  define doy where "doy = doe - (365 * yoe + yoe div 4 - yoe div 100)"
  define mp where "mp = (5 * doy + 2) div 153"
  define m where "m = (if mp < 10 then mp + 3 else mp - 9)"
  define y where "y = yoe + era * 400 + (if m \<le> 2 then 1 else 0)"
  define d where "d = doy - (153 * mp + 2) div 5 + 1"
  have days: "0 \<le> days" "days < 2932897" unfolding days_def using assms by auto
  have era: "0 \<le> era" "era \<le> 24" "0 \<le> doe" "doe \<le> 146096"
    using div_bounds [of 146097 "days + 719468"] days unfolding doe_def era_def by linarith+
  have yd: "0 \<le> yoe" "yoe \<le> 399" "0 \<le> doy" "doy \<le> 365"
    using year_of_day [OF era(3,4)] unfolding doy_def yoe_def by simp_all
  have md: "0 \<le> mp" "mp \<le> 11" "1 \<le> d" "d \<le> 31" using month_of_day [OF yd(3,4) mp_def] unfolding d_def by simp_all
  have mb: "1 \<le> m" "m \<le> 12" unfolding m_def using md by auto
  have civil: "sv4_days_from_civil y m d = days"
    unfolding d_def using civil_days_back [OF yd(1,2) era(1) md(1,2) m_def y_def, of doy] by (simp add: doy_def doe_def)
  have y0: "0 \<le> y" unfolding y_def using yd era by simp
  have y4: "y < 10000"
  proof (rule ccontr)
    assume "\<not> y < 10000"
    then have "era = 24" "yoe = 399" "m \<le> 2" using era yd unfolding y_def by (auto split: if_splits)
    then have "10 \<le> mp" unfolding m_def using md by (simp split: if_splits)
    then have "306 \<le> doy" using div_bounds [of 153 "5 * doy + 2"] unfolding mp_def by linarith
    then show False using days unfolding doy_def doe_def \<open>era = 24\<close> \<open>yoe = 399\<close> by simp
  qed
  have nat_m: "(nat m \<le> 2) = (m \<le> 2)" by (simp add: nat_le_iff)
  have fmt: "fst (sv4_format_amz_date secs) = put_digits 4 (nat y) @ put_digits 2 (nat m) @ put_digits 2 (nat d) @ [84] @
      put_digits 2 (secs mod 86400 div 3600) @ put_digits 2 (secs mod 86400 mod 3600 div 60) @ put_digits 2 (secs mod 86400 mod 60) @ [90]"
    unfolding sv4_format_amz_date_def Let_def days_def [symmetric] era_def [symmetric] doe_def [symmetric] year_of_def [symmetric]
      yoe_def [symmetric] doy_def [symmetric] mp_def [symmetric] m_def [symmetric] d_def [symmetric] nat_m y_def [symmetric]
    by (simp only: fst_conv append_assoc append_Cons append_Nil)
  have clock: "secs mod 86400 div 3600 \<le> 23" "secs mod 86400 mod 3600 div 60 \<le> 59" "secs mod 86400 mod 60 \<le> 59"
    by (simp_all add: less_Suc_eq_le [symmetric] less_mult_imp_div_less)
  have parts: "secs div 86400 * 86400 + secs mod 86400 div 3600 * 3600 + secs mod 86400 mod 3600 div 60 * 60 + secs mod 86400 mod 60 = secs"
  proof -
    have "secs mod 86400 mod 3600 mod 60 = secs mod 86400 mod 60" by (simp add: mod_mod_cancel)
    then have "secs mod 86400 mod 3600 div 60 * 60 + secs mod 86400 mod 60 = secs mod 86400 mod 3600"
      by (metis div_mult_mod_eq)
    then show ?thesis using div_mult_mod_eq [of "secs mod 86400" 3600] div_mult_mod_eq [of secs 86400] by linarith
  qed
  have "sv4_parse_amz_date (fst (sv4_format_amz_date secs)) =
      Some (nat days * 86400 + secs mod 86400 div 3600 * 3600 + secs mod 86400 mod 3600 div 60 * 60 + secs mod 86400 mod 60)"
    unfolding fmt using y0 y4 mb md clock days civil by (subst amz_date_fields) (simp_all add: Let_def Suc_le_eq nat_le_iff)
  then show ?thesis using parts by (simp add: days_def)
qed

section \<open>The canonical query string\<close>

lemma sift_back_inserts:
  assumes "sorted (map (entry_key s) xs)"
  shows "\<exists>zs. sift_back s (length xs) (xs @ x # ys) = zs @ ys \<and> mset zs = mset (x # xs) \<and> sorted (map (entry_key s) zs)"
  using assms
proof (induction xs arbitrary: ys rule: rev_induct)
  case Nil
  show ?case by (intro exI [of _ "[x]"]) simp
next
  case (snoc a xs)
  have sxs: "sorted (map (entry_key s) xs)" and top: "\<forall>b \<in> set xs. entry_key s b \<le> entry_key s a"
    using snoc.prems by (auto simp: sorted_append)
  have nths: "((xs @ [a]) @ x # ys) ! length xs = a" "((xs @ [a]) @ x # ys) ! Suc (length xs) = x" by (simp_all add: nth_append)
  have swap: "((xs @ [a]) @ x # ys)[length xs := x, Suc (length xs) := a] = xs @ x # a # ys" by (simp add: list_update_append)
  show ?case
  proof (cases "entry_key s a \<le> entry_key s x")
    case True
    then have "sift_back s (length (xs @ [a])) ((xs @ [a]) @ x # ys) = (xs @ [a, x]) @ ys" using nths by simp
    moreover have "sorted (map (entry_key s) (xs @ [a, x]))"
      using snoc.prems True top by (auto simp: sorted_append intro: order_trans)
    ultimately show ?thesis by (intro exI [of _ "xs @ [a, x]"]) simp
  next
    case False
    then have step: "sift_back s (length (xs @ [a])) ((xs @ [a]) @ x # ys) = sift_back s (length xs) (xs @ x # a # ys)"
      using nths swap by simp
    obtain zs where zs: "sift_back s (length xs) (xs @ x # a # ys) = zs @ a # ys" "mset zs = mset (x # xs)" "sorted (map (entry_key s) zs)"
      using snoc.IH [OF sxs, of "a # ys"] by auto
    have "set zs = set (x # xs)" using zs(2) by (metis set_mset_mset)
    then have "\<forall>b \<in> set zs. entry_key s b \<le> entry_key s a" using top False by auto
    then have "sorted (map (entry_key s) (zs @ [a]))" using zs(3) by (auto simp: sorted_append)
    with step zs(1,2) show ?thesis by (intro exI [of _ "zs @ [a]"]) simp
  qed
qed

lemma insertion_sort_prefix:
  assumes "k < length es"
  shows "\<exists>zs. fold (sift_back s) [1..<Suc k] es = zs @ drop (Suc k) es \<and> mset zs = mset (take (Suc k) es) \<and> sorted (map (entry_key s) zs)"
  using assms
proof (induction k)
  case 0
  then show ?case by (intro exI [of _ "take 1 es"]) (cases es; simp)
next
  case (Suc k)
  then obtain zs where zs: "fold (sift_back s) [1..<Suc k] es = zs @ drop (Suc k) es" "mset zs = mset (take (Suc k) es)"
    "sorted (map (entry_key s) zs)" by auto
  have len: "length zs = Suc k" using zs(2) Suc.prems by (metis length_take min_absorb2 size_mset less_imp_le)
  have rest: "drop (Suc k) es = es ! Suc k # drop (Suc (Suc k)) es" using Suc.prems by (simp add: Cons_nth_drop_Suc)
  obtain ws where ws: "sift_back s (length zs) (zs @ es ! Suc k # drop (Suc (Suc k)) es) = ws @ drop (Suc (Suc k)) es"
    "mset ws = mset (es ! Suc k # zs)" "sorted (map (entry_key s) ws)" using sift_back_inserts [OF zs(3)] by blast
  have "fold (sift_back s) [1..<Suc (Suc k)] es = ws @ drop (Suc (Suc k)) es" using zs(1) ws(1) len rest by simp
  moreover have "mset ws = mset (take (Suc (Suc k)) es)" using ws(2) zs(2) Suc.prems by (simp add: take_Suc_conv_app_nth)
  ultimately show ?case using ws(3) by blast
qed

lemma insertion_sort_sorts:
  "map (entry_key s) (fold (sift_back s) [1..<length es] es) = sort (map (entry_key s) es)"
proof (cases es)
  case (Cons e es')
  then obtain zs where zs: "fold (sift_back s) [1..<length es] es = zs" "mset zs = mset es" "sorted (map (entry_key s) zs)"
    using insertion_sort_prefix [of "length es'" es s] by auto
  have "mset (map (entry_key s) zs) = mset (map (entry_key s) es)" using zs(2) by simp
  then have "sort (map (entry_key s) es) = map (entry_key s) zs" using zs(3) by (intro properties_for_sort) simp_all
  then show ?thesis using zs(1) by simp
qed simp

text \<open>What the scratch buffer ends up holding: the name and the value of every parameter, each encoded afresh.\<close>

definition encoded :: "bytes \<Rightarrow> bytes" where
  "encoded bs = concat (map (\<lambda>b. sv4_encode_byte b False) bs)"

fun query_params :: "bool \<Rightarrow> bytes list \<Rightarrow> (bytes \<times> bytes) list option" where
  "query_params skip [] = Some []"
| "query_params skip (p # ps) =
     (if p = [] then query_params skip ps
      else case cut_at 61 p of (k, v) \<Rightarrow>
        if skip \<and> k = ascii ''X-Amz-Signature'' then query_params skip ps
        else Option.bind (sv4_decode_each k) (\<lambda>k'. Option.bind (sv4_decode_each v) (\<lambda>v'. map_option ((#) (k', v')) (query_params skip ps))))"

definition params_size :: "(bytes \<times> bytes) list \<Rightarrow> nat" where
  "params_size ps = sum_list (map (\<lambda>(k, v). length (encoded k) + length (encoded v)) ps)"

lemma put_encoded_loop_fits:
  "at + length (concat es) \<le> length out \<Longrightarrow>
   put_encoded_loop es at over out = ((at + length (concat es), over), blit at (concat es) out)"
proof (induction es arbitrary: at out)
  case (Cons e es)
  then show ?case by (simp add: blit_blit_append add.assoc)
qed simp

lemma put_encoded_fits:
  assumes "sv4_decode_each src = Some bs" and "at + length (encoded bs) \<le> length out"
  shows "sv4_put_encoded at src False out = (Some (at + length (encoded bs)), blit at (encoded bs) out)"
  using assms put_encoded_loop_fits [of at "map (\<lambda>b. sv4_encode_byte b False) bs" out False]
  by (simp add: sv4_put_encoded_def encoded_def)

definition entry_below :: "nat \<Rightarrow> query_entry \<Rightarrow> bool" where
  "entry_below at e \<longleftrightarrow> (case e of (ka, kl, va, vl) \<Rightarrow> ka + kl \<le> at \<and> va + vl \<le> at)"

lemma bslice_blit_below: "at + length v \<le> length out \<Longrightarrow> j \<le> at \<Longrightarrow> bslice i j (blit at v out) = bslice i j out"
  by (cases "i \<le> j") (simp_all add: bslice_def take_drop take_blit_below)

lemma entry_key_blit: "\<lbrakk> entry_below at e; at + length v \<le> length out \<rbrakk> \<Longrightarrow> entry_key (blit at v out) e = entry_key out e"
  by (auto simp: entry_below_def entry_key_def bslice_blit_below split: prod.splits)

lemma entry_below_mono: "\<lbrakk> entry_below at e; at \<le> at' \<rbrakk> \<Longrightarrow> entry_below at' e"
  by (auto simp: entry_below_def)

lemma query_loop_fits:
  assumes "query_params skip ps = Some ds" and "length es + length ds \<le> SV4_QUERY_PARAMS_MAX" and "at + params_size ds \<le> length s"
    and "\<forall>e \<in> set es. entry_below at e"
  shows "\<exists>es' s'. query_loop ps skip at es s = Inr (es', s') \<and>
    map (entry_key s') es' = map (entry_key s) es @ map (map_prod encoded encoded) ds"
  using assms
proof (induction ps arbitrary: ds at es s)
  case (Cons p ps)
  obtain k v where kv: "cut_at 61 p = (k, v)" by (cases "cut_at 61 p")
  show ?case
  proof (cases "p = [] \<or> skip \<and> k = ascii ''X-Amz-Signature''")
    case True
    then have "query_params skip ps = Some ds" using Cons.prems(1) kv by (simp split: if_splits)
    then obtain es' s' where "query_loop ps skip at es s = Inr (es', s')"
      "map (entry_key s') es' = map (entry_key s) es @ map (map_prod encoded encoded) ds"
      using Cons.IH Cons.prems(2-4) by blast
    with True kv show ?thesis by auto
  next
    case False
    then obtain k' v' ds' where d: "sv4_decode_each k = Some k'" "sv4_decode_each v = Some v'" "query_params skip ps = Some ds'"
      "ds = (k', v') # ds'" using Cons.prems(1) kv by (auto simp: bind_eq_Some_conv split: if_splits)
    define v_at where "v_at = at + length (encoded k')"
    define at' where "at' = v_at + length (encoded v')"
    define s2 where "s2 = blit at (encoded k' @ encoded v') s"
    have room: "at + length (encoded k' @ encoded v') \<le> length s" "at' + params_size ds' \<le> length s"
      using Cons.prems(3) by (simp_all add: d(4) params_size_def at'_def v_at_def)
    have put: "sv4_put_encoded at k False s = (Some v_at, blit at (encoded k') s)"
      "sv4_put_encoded v_at v False (blit at (encoded k') s) = (Some at', s2)"
      using room(1) d(1,2) by (simp_all add: put_encoded_fits v_at_def at'_def s2_def blit_blit_append)
    define e where "e = (at, v_at - at, v_at, at' - v_at)"
    have key: "entry_key s2 e = (encoded k', encoded v')"
      using room(1) by (simp add: e_def entry_key_def s2_def v_at_def at'_def bslice_def blit_def)
    have old: "map (entry_key s2) es = map (entry_key s) es"
      using Cons.prems(4) room(1) by (simp add: s2_def entry_key_blit)
    have below: "\<forall>e \<in> set (es @ [e]). entry_below at' e"
      using Cons.prems(4) entry_below_mono [of at _ at'] by (auto simp: entry_below_def e_def at'_def v_at_def)
    have len: "length s2 = length s" using room(1) by (simp add: s2_def)
    obtain es' s' where r: "query_loop ps skip at' (es @ [e]) s2 = Inr (es', s')"
      "map (entry_key s') es' = map (entry_key s2) (es @ [e]) @ map (map_prod encoded encoded) ds'"
      using Cons.IH [OF d(3), of "es @ [e]" at' s2] Cons.prems(2) room(2) below len by (auto simp: d(4))
    have "query_loop (p # ps) skip at es s = Inr (es', s')"
      using False kv put r(1) Cons.prems(2) by (auto simp: e_def d(4))
    with r(2) show ?thesis by (simp add: key old d(4))
  qed
qed simp

lemma canonical_query_sorted:
  assumes "query_params skip (split_byte 38 query) = Some ds" and "length ds \<le> SV4_QUERY_PARAMS_MAX" and "params_size ds \<le> length scratch"
  shows "\<exists>es s. sv4_canonical_query query skip scratch = Inr (es, s) \<and> map (entry_key s) es = sort (map (map_prod encoded encoded) ds)"
proof (cases "query = []")
  case True
  then show ?thesis using assms(1) by (simp add: sv4_canonical_query_def)
next
  case False
  then show ?thesis using query_loop_fits [OF assms(1), of "[]" 0 scratch] assms(2,3)
    by (auto simp: sv4_canonical_query_def insertion_sort_sorts simp del: One_nat_def)
qed

lemma split_target_query: "63 \<notin> set p \<Longrightarrow> sv4_split_target (p @ 63 # q) = (p, q)"
proof -
  assume "63 \<notin> set p"
  then have "\<forall>b \<in> set p. b \<noteq> 63" by metis
  then show ?thesis by (simp add: sv4_split_target_def cut_at_def takeWhile_append2 dropWhile_append2)
qed

text \<open>C35. The canonical request of a target depends on the decoded path and on the decoded parameters as a multiset alone:
  two targets whose escapes and parameter order differ hash, and so sign, the same.\<close>

theorem equivalent_targets_hash_alike:
  assumes "p1 \<noteq> []" and "p2 \<noteq> []" and "63 \<notin> set p1" and "63 \<notin> set p2" and "sv4_decode_each p1 = sv4_decode_each p2"
    and "query_params skip (split_byte 38 q1) = Some d1" and "query_params skip (split_byte 38 q2) = Some d2"
    and "mset d1 = mset d2" and "length d1 \<le> SV4_QUERY_PARAMS_MAX" and "params_size d1 \<le> length scratch"
  shows "sv4_canonical_request_hash sha method (p1 @ 63 # q1) headers names payload skip scratch =
    sv4_canonical_request_hash sha method (p2 @ 63 # q2) headers names payload skip scratch"
proof -
  have len: "length d2 = length d1" using assms(8) by (metis size_mset)
  have size: "params_size d2 = params_size d1"
    using arg_cong [OF assms(8), of "\<lambda>d. sum_mset (image_mset (\<lambda>(k, v). length (encoded k) + length (encoded v)) d)"]
    by (simp add: params_size_def sum_mset_sum_list flip: mset_map)
  have "mset (map (map_prod encoded encoded) d1) = mset (map (map_prod encoded encoded) d2)" using assms(8) by simp
  then have sorts: "sort (map (map_prod encoded encoded) d1) = sort (map (map_prod encoded encoded) d2)"
    by (intro properties_for_sort) simp_all
  obtain es1 s1 where e1: "sv4_canonical_query q1 skip scratch = Inr (es1, s1)" "map (entry_key s1) es1 = sort (map (map_prod encoded encoded) d1)"
    using canonical_query_sorted assms by blast
  obtain es2 s2 where e2: "sv4_canonical_query q2 skip scratch = Inr (es2, s2)" "map (entry_key s2) es2 = sort (map (map_prod encoded encoded) d2)"
    using canonical_query_sorted [of skip q2 d2 scratch] assms len size by auto
  show ?thesis
    using assms(1-5) e1 e2 sorts by (simp add: sv4_canonical_request_hash_def split_target_query sv4_hash_encoded_def split: option.split sum.split)
qed

theorem equivalent_targets_hash_alike_witness:
  "sv4_canonical_request_hash (\<lambda>b. b) (ascii ''GET'') (ascii ''/a%2Db?x=1&y=%41'') (ascii ''host:h'') (ascii ''host'') (ascii ''UNSIGNED-PAYLOAD'') False
      (replicate 64 0) =
   sv4_canonical_request_hash (\<lambda>b. b) (ascii ''GET'') (ascii ''/a-b?y=A&x=%31'') (ascii ''host:h'') (ascii ''host'') (ascii ''UNSIGNED-PAYLOAD'') False
      (replicate 64 0)"
  using equivalent_targets_hash_alike [of "ascii ''/a%2Db''" "ascii ''/a-b''" False "ascii ''x=1&y=%41''"
      "[(ascii ''x'', ascii ''1''), (ascii ''y'', ascii ''A'')]" "ascii ''y=A&x=%31''" "[(ascii ''y'', ascii ''A''), (ascii ''x'', ascii ''1'')]"
      "replicate 64 0"]
  by (simp add: ascii_def cut_at_def sv4_hexval_def params_size_def encoded_def sv4_encode_byte_def sv4_unreserved_def)

theorem amz_date_roundtrip_witness:
  "sv4_parse_amz_date (fst (sv4_format_amz_date 951782400)) = Some 951782400"
  using amz_date_roundtrip [of 951782400] by simp

section \<open>Comparison and the clock\<close>

lemma foldl_or_zero: "foldl (OR) a xs = (0 :: byte) \<longleftrightarrow> a = 0 \<and> (\<forall>x \<in> set xs. x = 0)"
  by (induction xs arbitrary: a) (auto simp: or_zero_iff)

lemma sv4_eq_is_equality: "sv4_eq a b \<longleftrightarrow> a = b"
proof (cases "length a = length b")
  case True
  then show ?thesis
    by (induction a b rule: list_induct2) (auto simp: sv4_eq_def foldl_or_zero xor_zero_iff)
qed (auto simp: sv4_eq_def)

lemma within_skew_nat:
  assumes "unat t + 900 < 2 ^ 64" and "unat now + unat u < 2 ^ 64"
  shows "sv4_within_skew t now u \<longleftrightarrow> unat now + unat u \<le> unat t + 900 \<and> unat t \<le> unat now - unat u + 900"
  using assms by (auto simp: sv4_within_skew_def sat_sub64_def word_le_nat_alt word_less_nat_alt unat_sat_add64 unat_sub)

lemma presign_live_nat:
  assumes "unat t + unat e < 2 ^ 64" and "unat now + unat u < 2 ^ 64"
  shows "sv4_presign_live t e now u \<longleftrightarrow> unat now + unat u \<le> unat t + unat e"
  using assms by (auto simp: sv4_presign_live_def word_le_nat_alt unat_sat_add64)

text \<open>The day is only checked against 31, so the thirtieth of February is read, as a day of March.\<close>

lemma amz_date_reads_february_30:
  "sv4_parse_amz_date (ascii ''20230230T000000Z'') = Some 1677715200"
  "sv4_parse_amz_date (ascii ''20230302T000000Z'') = Some 1677715200"
  by (simp_all add: sv4_parse_amz_date_def sv4_days_from_civil_def sv4_digits_def ascii_def bslice_def
      is_ascii_digit_def)

lemma append_bounded_take: "append_bounded cap parts = take cap (concat parts)"
proof -
  have "length acc \<le> cap \<Longrightarrow> foldl (\<lambda>acc p. acc @ take (cap - length acc) p) acc parts = take cap (acc @ concat parts)" for acc
  proof (induction parts arbitrary: acc)
    case (Cons p parts)
    have "length (acc @ take (cap - length acc) p) \<le> cap" using Cons.prems by auto
    then have "foldl (\<lambda>acc p. acc @ take (cap - length acc) p) acc (p # parts) = take cap ((acc @ take (cap - length acc) p) @ concat parts)"
      using Cons.IH by simp
    then show ?case using Cons.prems by (cases "length p \<le> cap - length acc") (simp_all add: min_def)
  qed simp
  from this [of "[]"] show ?thesis by (simp add: append_bounded_def)
qed

lemma length_sv4_hex32 [simp]: "length (sv4_hex32 d) = 64"
proof -
  have "length (snd (sv4_hex_loop bs p out)) = length out" for bs p out
    by (induction bs p out rule: sv4_hex_loop.induct) (simp_all add: sv4_hex_pair_def)
  then show ?thesis by (simp add: sv4_hex32_def sv4_hex_def)
qed

text \<open>The string to sign is signed whole as long as the region and the service leave it room.\<close>

lemma signature_over_whole_string:
  assumes "length amz_date = 16" and "length scope_date = 8" and "length region + length service \<le> 134"
  shows "sv4_signature sha signing_key amz_date scope_date region service canonical_hash =
    sv4_hex32 (sv4_hmac sha signing_key (SV4_ALGORITHM @ [10] @ amz_date @ [10] @ scope_date @ [47] @ region @ [47] @ service @
      ascii ''/aws4_request'' @ [10] @ sv4_hex32 canonical_hash))"
  unfolding sv4_signature_def append_bounded_take using assms by (simp add: ascii_def)

end
