(* ===== verification/Sip_Message.thy ===== *)
theory Sip_Message
  imports Wave_Prelude
begin

text \<open>
  \<open>modules/common/sip_core.rs\<close> and \<open>sip_wire.rs\<close>: the text of the messages a two-party call is made of, the readers
  that take the facts back out of a received message, and the records of the command and event ports.

  A method of the bounded writer is the list of the pieces it hands to \<open>put\<close>, in order; a builder is the run of them.
  What is shown: every message of a dialogue fits the module's buffer; the length header of a session
  description is the length of the description that follows; the readers return what the builders wrote.
\<close>

unbundle bit_operations_syntax

section \<open>The bounded writer\<close>

abbreviation (input) CRLF :: bytes where "CRLF \<equiv> [13, 10]"

record sip_dialog =
  sd_local_ip :: u32
  sd_peer_ip :: u32
  sd_local_port :: u16
  sd_peer_port :: u16
  sd_rtp_port :: u16
  sd_cseq :: u32
  sd_from_tag :: u16
  sd_to_tag :: u16
  sd_branch :: u16
  sd_call_id :: bytes

record sdp_endpoint =
  se_ip :: "u32 option"
  se_port :: u16

definition sip_put :: "nat \<Rightarrow> bytes \<Rightarrow> nat writer" where
  "sip_put pos b out = (if length out < pos + length b then (None, out) else (Some (pos + length b), blit pos b out))"

definition put_u8_decimal :: "byte \<Rightarrow> bytes list" where
  "put_u8_decimal v =
     (if 100 \<le> v then [[48 + v div 100], [48 + (v div 10) mod 10], [48 + v mod 10]]
      else if 10 \<le> v then [[48 + v div 10], [48 + v mod 10]]
      else [[48 + v]])"

definition put_ip :: "u32 \<Rightarrow> bytes list" where
  "put_ip ip =
     (let b = be_bytes 4 (unat ip)
      in put_u8_decimal (b ! 0) @ [[46]] @ put_u8_decimal (b ! 1) @ [[46]] @ put_u8_decimal (b ! 2) @ [[46]] @ put_u8_decimal (b ! 3))"

text \<open>The loop fills its ten-digit buffer from the end; \<open>acc\<close> is the part already filled.\<close>

function u32_decimal_loop :: "u32 \<Rightarrow> bytes \<Rightarrow> bytes" where
  "u32_decimal_loop v acc =
     (let acc' = (48 + ucast (v mod 10)) # acc in if v div 10 = 0 then acc' else u32_decimal_loop (v div 10) acc')"
  by pat_completeness auto
termination
proof (relation "measure (\<lambda>(v, acc). unat v)")
  fix v :: u32 and acc :: bytes and x
  assume "v div 10 \<noteq> 0"
  then have "unat v \<noteq> 0" by (metis div_0 unat_eq_zero)
  then show "((v div 10, x), v, acc) \<in> measure (\<lambda>(v, acc). unat v)" by (simp add: unat_div)
qed simp

declare u32_decimal_loop.simps [simp del]

definition put_u32_decimal :: "u32 \<Rightarrow> bytes list" where
  "put_u32_decimal v = [u32_decimal_loop v []]"

definition put_u16_decimal :: "u16 \<Rightarrow> bytes list" where
  "put_u16_decimal v = put_u32_decimal (ucast v)"

definition put_hex16 :: "u16 \<Rightarrow> bytes list" where
  "put_hex16 v =
     (let HEX = ascii ''0123456789abcdef''
      in [[HEX ! unat (drop_bit 12 v AND 0xF), HEX ! unat (drop_bit 8 v AND 0xF), HEX ! unat (drop_bit 4 v AND 0xF), HEX ! unat (v AND 0xF)]])"

section \<open>Session descriptions\<close>

definition sdp_pieces :: "u32 \<Rightarrow> u16 \<Rightarrow> bytes list" where
  "sdp_pieces ip port =
     [ascii ''v=0'' @ CRLF @ ascii ''o=- 0 0 IN IP4 ''] @ put_ip ip @
     [CRLF @ ascii ''s=-'' @ CRLF @ ascii ''c=IN IP4 ''] @ put_ip ip @
     [CRLF @ ascii ''t=0 0'' @ CRLF @ ascii ''m=audio ''] @ put_u16_decimal port @
     [ascii '' RTP/AVP 0'' @ CRLF @ ascii ''a=rtpmap:0 PCMU/8000'' @ CRLF]"

definition write_sdp :: "u32 \<Rightarrow> u16 \<Rightarrow> nat writer" where
  "write_sdp ip port = puts sip_put 0 (sdp_pieces ip port)"

definition u8_decimal_len :: "byte \<Rightarrow> nat" where
  "u8_decimal_len v = (if 100 \<le> v then 3 else if 10 \<le> v then 2 else 1)"

definition u16_decimal_len :: "u16 \<Rightarrow> nat" where
  "u16_decimal_len v = (if 10000 \<le> v then 5 else if 1000 \<le> v then 4 else if 100 \<le> v then 3 else if 10 \<le> v then 2 else 1)"

definition ip_decimal_len :: "u32 \<Rightarrow> nat" where
  "ip_decimal_len ip =
     (let b = be_bytes 4 (unat ip)
      in u8_decimal_len (b ! 0) + 1 + u8_decimal_len (b ! 1) + 1 + u8_decimal_len (b ! 2) + 1 + u8_decimal_len (b ! 3))"

definition sdp_content_length :: "u32 \<Rightarrow> u16 \<Rightarrow> nat" where
  "sdp_content_length ip port = (20 + 16 + 17 + 34) + ip_decimal_len ip * 2 + u16_decimal_len port"

section \<open>Builders\<close>

definition put_via_branch :: "u32 \<Rightarrow> u16 \<Rightarrow> u16 \<Rightarrow> bytes list" where
  "put_via_branch ip port branch =
     [ascii ''Via: SIP/2.0/UDP ''] @ put_ip ip @ [[58]] @ put_u16_decimal port @ [ascii '';branch=z9hG4bK''] @ put_hex16 branch @ [CRLF]"

definition put_call_id_at_host :: "bytes \<Rightarrow> u32 \<Rightarrow> bytes list" where
  "put_call_id_at_host call_id host_ip = [ascii ''Call-ID: ''] @ [call_id] @ [[64]] @ put_ip host_ip @ [CRLF]"

definition put_to_with_optional_tag :: "u32 \<Rightarrow> u16 \<Rightarrow> bytes list" where
  "put_to_with_optional_tag ip to_tag =
     [ascii ''To: <sip:''] @ put_ip ip @
     (if to_tag \<noteq> 0 then [ascii ''>;tag=''] @ put_hex16 to_tag @ [CRLF] else [ascii ''>'' @ CRLF])"

definition sdp_head :: "u32 \<Rightarrow> u16 \<Rightarrow> bytes list" where
  "sdp_head ip port =
     [ascii ''Content-Type: application/sdp'' @ CRLF] @ [ascii ''Content-Length: ''] @
     put_u16_decimal (of_nat (sdp_content_length ip port)) @ [CRLF @ CRLF]"

text \<open>The description is written into the tail of the buffer by a writer of its own.\<close>

definition put_sdp_body :: "u32 \<Rightarrow> u16 \<Rightarrow> nat \<Rightarrow> nat writer" where
  "put_sdp_body ip port pos =
     wbind (puts sip_put pos (sdp_head ip port)) (\<lambda>pos. wbind (wtail pos (write_sdp ip port)) (\<lambda>n. wret (pos + n)))"

definition invite_pieces :: "sip_dialog \<Rightarrow> bytes list" where
  "invite_pieces d =
     [ascii ''INVITE sip:''] @ put_ip (sd_peer_ip d) @ [[58]] @ put_u16_decimal (sd_peer_port d) @ [ascii '' SIP/2.0'' @ CRLF] @
     put_via_branch (sd_local_ip d) (sd_local_port d) (sd_branch d) @
     [ascii ''Max-Forwards: 70'' @ CRLF] @
     [ascii ''From: <sip:''] @ put_ip (sd_local_ip d) @ [ascii ''>;tag=''] @ put_hex16 (sd_from_tag d) @ [CRLF] @
     [ascii ''To: <sip:''] @ put_ip (sd_peer_ip d) @ [ascii ''>'' @ CRLF] @
     put_call_id_at_host (sd_call_id d) (sd_local_ip d) @
     [ascii ''CSeq: ''] @ put_u32_decimal (sd_cseq d) @ [ascii '' INVITE'' @ CRLF] @
     [ascii ''Contact: <sip:''] @ put_ip (sd_local_ip d) @ [[58]] @ put_u16_decimal (sd_local_port d) @ [ascii ''>'' @ CRLF]"

definition build_invite :: "sip_dialog \<Rightarrow> nat writer" where
  "build_invite d = wbind (puts sip_put 0 (invite_pieces d)) (put_sdp_body (sd_local_ip d) (sd_rtp_port d))"

definition invite_ok_pieces :: "sip_dialog \<Rightarrow> bytes list" where
  "invite_ok_pieces d =
     [ascii ''SIP/2.0 200 OK'' @ CRLF] @
     [ascii ''Via: SIP/2.0/UDP ''] @ put_ip (sd_peer_ip d) @ [[58]] @ put_u16_decimal (sd_peer_port d) @ [CRLF] @
     [ascii ''From: <sip:''] @ put_ip (sd_peer_ip d) @ [ascii ''>;tag=''] @ put_hex16 (sd_to_tag d) @ [CRLF] @
     [ascii ''To: <sip:''] @ put_ip (sd_local_ip d) @ [ascii ''>;tag=''] @ put_hex16 (sd_from_tag d) @ [CRLF] @
     [ascii ''Call-ID: ''] @ [sd_call_id d] @ [CRLF] @
     [ascii ''CSeq: ''] @ put_u32_decimal (sd_cseq d) @ [ascii '' INVITE'' @ CRLF] @
     [ascii ''Contact: <sip:''] @ put_ip (sd_local_ip d) @ [[58]] @ put_u16_decimal (sd_local_port d) @ [ascii ''>'' @ CRLF]"

definition build_invite_ok :: "sip_dialog \<Rightarrow> nat writer" where
  "build_invite_ok d = wbind (puts sip_put 0 (invite_ok_pieces d)) (put_sdp_body (sd_local_ip d) (sd_rtp_port d))"

text \<open>The two requests without a body differ in their method.\<close>

definition request_pieces :: "bytes \<Rightarrow> sip_dialog \<Rightarrow> bytes list" where
  "request_pieces verb d =
     [verb @ ascii '' sip:''] @ put_ip (sd_peer_ip d) @ [[58]] @ put_u16_decimal (sd_peer_port d) @ [ascii '' SIP/2.0'' @ CRLF] @
     put_via_branch (sd_local_ip d) (sd_local_port d) (sd_branch d) @
     [ascii ''Max-Forwards: 70'' @ CRLF] @
     [ascii ''From: <sip:''] @ put_ip (sd_local_ip d) @ [ascii ''>;tag=''] @ put_hex16 (sd_from_tag d) @ [CRLF] @
     put_to_with_optional_tag (sd_peer_ip d) (sd_to_tag d) @
     put_call_id_at_host (sd_call_id d) (sd_local_ip d) @
     [ascii ''CSeq: ''] @ put_u32_decimal (sd_cseq d) @ [[32] @ verb @ CRLF] @
     [ascii ''Content-Length: 0'' @ CRLF @ CRLF]"

definition build_ack :: "sip_dialog \<Rightarrow> nat writer" where
  "build_ack d = puts sip_put 0 (request_pieces (ascii ''ACK'') d)"

definition build_bye :: "sip_dialog \<Rightarrow> nat writer" where
  "build_bye d = puts sip_put 0 (request_pieces (ascii ''BYE'') d)"

definition bye_ok_pieces :: "sip_dialog \<Rightarrow> bytes list" where
  "bye_ok_pieces d =
     [ascii ''SIP/2.0 200 OK'' @ CRLF] @
     [ascii ''Via: SIP/2.0/UDP ''] @ put_ip (sd_peer_ip d) @ [[58]] @ put_u16_decimal (sd_peer_port d) @ [CRLF] @
     [ascii ''From: <sip:''] @ put_ip (sd_peer_ip d) @ [ascii ''>'' @ CRLF] @
     [ascii ''To: <sip:''] @ put_ip (sd_local_ip d) @ [ascii ''>;tag=''] @ put_hex16 (sd_from_tag d) @ [CRLF] @
     [ascii ''Call-ID: ''] @ [sd_call_id d] @ [CRLF] @
     [ascii ''CSeq: ''] @ put_u32_decimal (sd_cseq d) @ [ascii '' BYE'' @ CRLF] @
     [ascii ''Content-Length: 0'' @ CRLF @ CRLF]"

definition build_bye_ok :: "sip_dialog \<Rightarrow> nat writer" where
  "build_bye_ok d = puts sip_put 0 (bye_ok_pieces d)"

definition status_phrase :: "u16 \<Rightarrow> bytes" where
  "status_phrase code =
     (if code = 400 then ascii ''Bad Request'' else if code = 403 then ascii ''Forbidden'' else if code = 404 then ascii ''Not Found''
      else if code = 486 then ascii ''Busy Here'' else if code = 487 then ascii ''Request Terminated''
      else if code = 488 then ascii ''Not Acceptable Here'' else if code = 603 then ascii ''Decline'' else ascii ''Declined'')"

definition invite_status_pieces :: "sip_dialog \<Rightarrow> u16 \<Rightarrow> bytes list" where
  "invite_status_pieces d code =
     [ascii ''SIP/2.0 ''] @ put_u16_decimal code @ [[32]] @ [status_phrase code] @ [CRLF] @
     [ascii ''Via: SIP/2.0/UDP ''] @ put_ip (sd_peer_ip d) @ [[58]] @ put_u16_decimal (sd_peer_port d) @ [CRLF] @
     [ascii ''From: <sip:''] @ put_ip (sd_peer_ip d) @ [ascii ''>'' @ CRLF] @
     [ascii ''To: <sip:''] @ put_ip (sd_local_ip d) @ [ascii ''>;tag=''] @ put_hex16 (sd_to_tag d) @ [CRLF] @
     [ascii ''Call-ID: ''] @ [sd_call_id d] @ [CRLF] @
     [ascii ''CSeq: ''] @ put_u32_decimal (sd_cseq d) @ [ascii '' INVITE'' @ CRLF] @
     [ascii ''Content-Length: 0'' @ CRLF @ CRLF]"

definition build_invite_status :: "sip_dialog \<Rightarrow> u16 \<Rightarrow> nat writer" where
  "build_invite_status d code = puts sip_put 0 (invite_status_pieces d code)"

section \<open>Readers\<close>

definition find_bytes :: "bytes \<Rightarrow> bytes \<Rightarrow> nat option" where
  "find_bytes hay needle =
     (if needle = [] \<or> length hay < length needle then None
      else List.find (\<lambda>i. bslice i (i + length needle) hay = needle) [0..<length hay - length needle + 1])"

fun decimal_u16_loop :: "bytes \<Rightarrow> u16 \<Rightarrow> u16" where
  "decimal_u16_loop [] val = val"
| "decimal_u16_loop (c # cs) val = (if \<not> is_ascii_digit c then val else decimal_u16_loop cs (val * 10 + ucast (c - 48)))"

definition parse_decimal_u16 :: "bytes \<Rightarrow> u16" where
  "parse_decimal_u16 buf = decimal_u16_loop buf 0"

text \<open>
  The octets read so far and the one being read; \<^const>\<open>None\<close> is the early return. The octet is added up
  in sixteen bits without a check, so that a release build wraps here.
\<close>

fun ip4_loop :: "bytes \<Rightarrow> bytes \<Rightarrow> u16 \<Rightarrow> (bytes \<times> u16) option" where
  "ip4_loop [] octets val = Some (octets, val)"
| "ip4_loop (c # cs) octets val =
     (if 4 \<le> length octets then Some (octets, val)
      else if is_ascii_digit c then ip4_loop cs octets (val * 10 + ucast (c - 48))
      else if c = 46 then (if 255 < val then None else ip4_loop cs (octets @ [ucast val]) 0)
      else Some (octets, val))"

definition parse_ip4 :: "bytes \<Rightarrow> u32" where
  "parse_ip4 buf =
     (case ip4_loop buf [] 0 of
        None \<Rightarrow> 0
      | Some (octets, val) \<Rightarrow>
          let octets = (if length octets < 4 \<and> val \<le> 255 then octets @ [ucast val] else octets)
          in if length octets \<noteq> 4 then 0 else of_nat (be_val octets))"

definition hex16_digit :: "byte \<Rightarrow> u16 option" where
  "hex16_digit c =
     (if 48 \<le> c \<and> c \<le> 57 then Some (ucast (c - 48))
      else if 97 \<le> c \<and> c \<le> 102 then Some (ucast (c - 97 + 10))
      else if 65 \<le> c \<and> c \<le> 70 then Some (ucast (c - 65 + 10))
      else None)"

fun hex16_loop :: "bytes \<Rightarrow> u16 \<Rightarrow> u16" where
  "hex16_loop [] val = val"
| "hex16_loop (c # cs) val = (case hex16_digit c of None \<Rightarrow> val | Some digit \<Rightarrow> hex16_loop cs (push_bit 4 val OR digit))"

definition parse_hex16 :: "bytes \<Rightarrow> u16" where
  "parse_hex16 buf = hex16_loop (take 4 buf) 0"

definition parse_status_code :: "bytes \<Rightarrow> u16" where
  "parse_status_code msg =
     (if length msg < 12 \<or> take 8 msg \<noteq> ascii ''SIP/2.0 '' then 0
      else
        let d = bslice 8 11 msg
        in if list_ex (\<lambda>c. \<not> is_ascii_digit c) d then 0
           else ucast (d ! 0 - 48) * 100 + ucast (d ! 1 - 48) * 10 + ucast (d ! 2 - 48))"

definition parse_sdp_endpoint :: "bytes \<Rightarrow> sdp_endpoint option" where
  "parse_sdp_endpoint msg =
     (case find_bytes msg (ascii ''m=audio '') of
        None \<Rightarrow> None
      | Some mpos \<Rightarrow>
          let port = parse_decimal_u16 (drop (mpos + 8) msg)
          in if port = 0 then None
             else
               let ip = (case find_bytes msg (ascii ''c=IN IP4 '') of
                           None \<Rightarrow> None
                         | Some cpos \<Rightarrow> let v = parse_ip4 (drop (cpos + 9) msg) in if v \<noteq> 0 then Some v else None)
               in Some \<lparr> se_ip = ip, se_port = port \<rparr>)"

definition find_call_id :: "bytes \<Rightarrow> bytes option" where
  "find_call_id msg =
     (case find_bytes msg (ascii ''Call-ID: '') of
        None \<Rightarrow> None
      | Some at \<Rightarrow> let start = at + 9 in Some (bslice start (scan_while (\<lambda>c. c \<noteq> 13 \<and> c \<noteq> 10) msg start) msg))"

definition tag_on_line :: "bytes \<Rightarrow> nat option \<Rightarrow> u16" where
  "tag_on_line msg line_start =
     (case line_start of
        None \<Rightarrow> 0
      | Some start \<Rightarrow>
          (case find_bytes (bslice start (scan_while (\<lambda>c. c \<noteq> 13) msg start) msg) (ascii '';tag='') of
             Some rel \<Rightarrow> parse_hex16 (drop (start + rel + 5) msg)
           | None \<Rightarrow> 0))"

definition parse_from_tag :: "bytes \<Rightarrow> u16" where
  "parse_from_tag msg = tag_on_line msg (find_bytes msg (ascii ''From:''))"

definition parse_to_tag :: "bytes \<Rightarrow> u16" where
  "parse_to_tag msg = tag_on_line msg (map_option (\<lambda>p. p + 1) (find_bytes msg ([10] @ ascii ''To:'')))"

section \<open>Numbers as text\<close>

interpretation sipput: bounded_put sip_put
  by unfold_locales (simp_all add: sip_put_def)

fun dec :: "nat \<Rightarrow> bytes" where
  "dec n = (if n < 10 then [48 + of_nat n] else dec (n div 10) @ [48 + of_nat (n mod 10)])"

declare dec.simps [simp del]

lemma dec_small: "n < 10 \<Longrightarrow> dec n = [48 + of_nat n]"
  by (simp add: dec.simps)

lemma dec_big: "10 \<le> n \<Longrightarrow> dec n = dec (n div 10) @ [48 + of_nat (n mod 10)]"
  by (subst dec.simps) simp

lemma unat_u16_less: "unat (v :: u16) < 65536"
  by (rule order_less_le_trans [OF unsigned_less]) simp

lemma unat_u32_less: "unat (v :: u32) < 4294967296"
  by (rule order_less_le_trans [OF unsigned_less]) simp

lemma of_nat_div_mod:
  "word_of_nat (unat (v :: byte) div 10) = v div 10" "word_of_nat (unat v mod 10) = v mod 10" "word_of_nat (unat v div 100) = v div 100"
  "word_of_nat (unat v div 10 mod 10) = v div 10 mod 10"
proof -
  have "word_of_nat (unat (v div 10)) = v div 10" "word_of_nat (unat (v mod 10)) = v mod 10" "word_of_nat (unat (v div 100)) = v div 100"
    "word_of_nat (unat (v div 10 mod 10)) = v div 10 mod 10" by simp_all
  then show "word_of_nat (unat v div 10) = v div 10" "word_of_nat (unat v mod 10) = v mod 10" "word_of_nat (unat v div 100) = v div 100"
    "word_of_nat (unat v div 10 mod 10) = v div 10 mod 10"
    unfolding unat_div unat_mod by simp_all
qed

lemma u32_decimal_loop_dec: "u32_decimal_loop v acc = dec (unat v) @ acc"
proof (induction v acc rule: u32_decimal_loop.induct)
  case (1 v acc)
  have d: "unat (v div 10) = unat v div 10" by (simp add: unat_div)
  have "(word_of_nat (unat (v mod 10)) :: byte) = ucast (v mod 10)" by simp
  then have m: "(ucast (v mod 10) :: byte) = of_nat (unat v mod 10)" unfolding unat_mod by simp
  show ?case
  proof (cases "v div 10 = 0")
    case True
    then have "unat v < 10" using d by (metis div_eq_0_iff unat_0 zero_neq_numeral)
    with True m show ?thesis by (simp add: u32_decimal_loop.simps [of v acc] dec_small)
  next
    case False
    then have "10 \<le> unat v" using d by (metis div_less not_le unat_eq_zero)
    with False show ?thesis using 1 m d by (simp add: u32_decimal_loop.simps [of v acc] dec_big [of "unat v"])
  qed
qed

lemma dec_digits: "\<forall>c \<in> set (dec n). is_ascii_digit c"
proof (induction n rule: dec.induct)
  case (1 n)
  have d: "is_ascii_digit (48 + of_nat m)" if "m < 10" for m
  proof -
    have "m \<in> {0,1,2,3,4,5,6,7,8,9}" using that by auto
    then show ?thesis by (elim insertE) (simp_all add: is_ascii_digit_def)
  qed
  show ?case using 1 d by (cases "n < 10") (auto simp: dec_small dec_big not_less)
qed

lemma length_dec: "length (dec n) \<le> k" if "n < 10 ^ k" "0 < k"
  using that
proof (induction k arbitrary: n)
  case (Suc k)
  show ?case
  proof (cases "n < 10")
    case True
    then show ?thesis by (simp add: dec_small)
  next
    case False
    then have "0 < k" using Suc.prems(1) by (cases k) auto
    moreover have "n div 10 < 10 ^ k" using Suc.prems(1) by simp
    ultimately have "length (dec (n div 10)) \<le> k" using Suc.IH by blast
    with False show ?thesis by (simp add: dec_big)
  qed
qed simp

lemma length_dec_exact: "10 ^ k \<le> n \<Longrightarrow> n < 10 ^ Suc k \<Longrightarrow> length (dec n) = Suc k"
proof (induction k arbitrary: n)
  case (Suc k)
  then have "10 ^ k \<le> n div 10" "n div 10 < 10 ^ Suc k" "10 \<le> n"
    by (auto simp: less_eq_div_iff_mult_less_eq intro: order_trans [of 10 "10 ^ Suc k"])
  then show ?case using Suc.IH by (simp add: dec_big)
qed (simp add: dec_small)

lemma u8_decimal_dec: "concat (put_u8_decimal v) = dec (unat v)"
proof -
  have lt: "unat v div 100 < 10" using byte_unat_less [of v] by (simp add: div_less_iff_less_mult del: byte_unat_less)
  show ?thesis
  proof (cases "100 \<le> unat v")
    case True
    then have "dec (unat v) = [48 + of_nat (unat v div 100), 48 + of_nat (unat v div 10 mod 10), 48 + of_nat (unat v mod 10)]"
      using lt by (simp add: dec_big dec_small div_mult2_eq [symmetric])
    with True show ?thesis by (simp add: put_u8_decimal_def word_le_nat_alt of_nat_div_mod)
  next
    case False
    then show ?thesis by (simp add: put_u8_decimal_def word_le_nat_alt dec_big dec_small less_mult_imp_div_less of_nat_div_mod)
  qed
qed

lemma u8_decimal_len_dec: "u8_decimal_len v = length (dec (unat v))"
  using length_dec_exact [of 2 "unat v"] length_dec_exact [of 1 "unat v"] byte_unat_less [of v] dec_small [of "unat v"]
  by (auto simp: u8_decimal_len_def word_le_nat_alt not_le)

lemma u16_decimal_len_dec: "u16_decimal_len v = length (dec (unat v))"
  using length_dec_exact [of 4 "unat v"] length_dec_exact [of 3 "unat v"] length_dec_exact [of 2 "unat v"] length_dec_exact [of 1 "unat v"]
    unat_u16_less [of v] dec_small [of "unat v"]
  by (auto simp: u16_decimal_len_def word_le_nat_alt not_le)

definition ip_text :: "u32 \<Rightarrow> bytes" where
  "ip_text ip = concat (put_ip ip)"

lemma ip_text_octets:
  "\<exists>a b c d. be_bytes 4 (unat ip) = [a, b, c, d] \<and>
     ip_text ip = dec (unat a) @ [46] @ dec (unat b) @ [46] @ dec (unat c) @ [46] @ dec (unat d)"
proof -
  obtain a b c d where o: "be_bytes 4 (unat ip) = [a, b, c, d]" using length_be_bytes [of 4 "unat ip"]
    by (auto simp: numeral_eq_Suc length_Suc_conv simp del: length_be_bytes be_bytes.simps)
  then show ?thesis by (simp add: ip_text_def put_ip_def u8_decimal_dec)
qed

lemma ip_decimal_len_text: "ip_decimal_len ip = length (ip_text ip)"
  using ip_text_octets [of ip] by (auto simp: ip_decimal_len_def u8_decimal_len_dec)

lemma length_ip_text: "length (ip_text ip) \<le> 15"
proof -
  have "length (dec (unat (a :: byte))) \<le> 3" for a using length_dec [of "unat a" 3] byte_unat_less [of a] by simp
  note len = this
  obtain a b c d :: byte where "ip_text ip = dec (unat a) @ [46] @ dec (unat b) @ [46] @ dec (unat c) @ [46] @ dec (unat d)"
    using ip_text_octets [of ip] by blast
  then show ?thesis using len [of a] len [of b] len [of c] len [of d] by simp
qed


section \<open>The text of a message\<close>

definition hex_text :: "u16 \<Rightarrow> bytes" where
  "hex_text v = concat (put_hex16 v)"

definition sdp_text :: "u32 \<Rightarrow> u16 \<Rightarrow> bytes" where
  "sdp_text ip port = concat (sdp_pieces ip port)"

lemma length_hex_text [simp]: "length (hex_text v) = 4"
  by (simp add: hex_text_def put_hex16_def Let_def)

lemma piece_texts [simp]:
  "concat (put_ip ip) = ip_text ip" "concat (put_u32_decimal w) = dec (unat w)" "concat (put_u16_decimal v) = dec (unat v)"
  "concat (put_hex16 v) = hex_text v"
  by (simp_all add: ip_text_def put_u32_decimal_def put_u16_decimal_def u32_decimal_loop_dec hex_text_def unat_ucast_widen)

text \<open>The length header of a description is its length.\<close>

lemma sdp_content_length_exact: "sdp_content_length ip port = length (sdp_text ip port)"
  by (simp add: sdp_content_length_def sdp_text_def sdp_pieces_def ip_decimal_len_text u16_decimal_len_dec ascii_def)

lemma length_decimal_texts:
  "length (dec (unat (v :: u16))) \<le> 5" "length (dec (unat (w :: u32))) \<le> 10"
  using length_dec [of "unat v" 5] unat_u16_less [of v] length_dec [of "unat w" 10] unat_u32_less [of w] by simp_all

lemma sdp_length_bound: "length (sdp_text ip port) \<le> 122"
  using length_ip_text [of ip] length_decimal_texts(1) [of port]
  by (simp add: sdp_text_def sdp_pieces_def ascii_def)

lemma sdp_length_text: "dec (unat (of_nat (sdp_content_length ip port) :: u16)) = dec (length (sdp_text ip port))"
  using sdp_length_bound [of ip port] by (simp add: sdp_content_length_exact unat_of_nat)

definition sdp_message :: "bytes list \<Rightarrow> u32 \<Rightarrow> u16 \<Rightarrow> bytes" where
  "sdp_message xs ip port =
     concat xs @ ascii ''Content-Type: application/sdp'' @ CRLF @ ascii ''Content-Length: '' @ dec (length (sdp_text ip port)) @
     CRLF @ CRLF @ sdp_text ip port"

lemma write_sdp_tail:
  assumes "p \<le> length out"
  shows "wtail p (write_sdp ip port) out = (Some n, out') \<longleftrightarrow>
    p + length (sdp_text ip port) \<le> length out \<and> n = length (sdp_text ip port) \<and> out' = blit p (sdp_text ip port) out"
proof (cases "p + length (sdp_text ip port) \<le> length out")
  case True
  then have "write_sdp ip port (drop p out) = (Some (length (sdp_text ip port)), blit 0 (sdp_text ip port) (drop p out))"
    using sipput.puts_fits [of 0 "sdp_pieces ip port" "drop p out"] by (simp add: write_sdp_def sdp_text_def)
  with True show ?thesis by (auto simp: wtail_def blit_def add.commute)
next
  case False
  then have "fst (write_sdp ip port (drop p out)) = None"
    using sipput.puts_full [of 0 "drop p out" "sdp_pieces ip port"] assms by (simp add: write_sdp_def sdp_text_def)
  with False show ?thesis by (auto simp: wtail_def split: prod.splits)
qed

lemma build_with_sdp:
  "wbind (puts sip_put 0 xs) (put_sdp_body ip port) out = (Some n, out') \<longleftrightarrow>
   length (sdp_message xs ip port) \<le> length out \<and> n = length (sdp_message xs ip port) \<and> out' = blit 0 (sdp_message xs ip port) out"
proof -
  let ?h = "concat (sdp_head ip port)" and ?b = "sdp_text ip port"
  have m: "sdp_message xs ip port = concat xs @ ?h @ ?b" by (simp add: sdp_message_def sdp_head_def sdp_length_text)
  show ?thesis
    unfolding m put_sdp_body_def wbind_eq_Some sipput.puts_iff [of 0, simplified]
    by (auto simp: sipput.puts_iff write_sdp_tail wret_def blit_blit_append [of 0, simplified] add.assoc
        blit_blit_append [of 0 "concat xs @ ?h", simplified])
qed

section \<open>Every message fits\<close>

lemma build_plain:
  "puts sip_put 0 xs out = (Some n, out') \<longleftrightarrow> length (concat xs) \<le> length out \<and> n = length (concat xs) \<and> out' = blit 0 (concat xs) out"
  using sipput.puts_iff [of 0 out xs n out'] by simp

lemma length_status_phrase: "length (status_phrase code) \<le> 19"
  by (simp add: status_phrase_def ascii_def)

lemma message_lengths:
  assumes "length (sd_call_id d) \<le> 16"
  shows "length (sdp_message (invite_pieces d) (sd_local_ip d) (sd_rtp_port d)) \<le> 512"
    "length (sdp_message (invite_ok_pieces d) (sd_local_ip d) (sd_rtp_port d)) \<le> 512"
    "length (concat (request_pieces (ascii ''ACK'') d)) \<le> 512" "length (concat (request_pieces (ascii ''BYE'') d)) \<le> 512"
    "length (concat (bye_ok_pieces d)) \<le> 512" "length (concat (invite_status_pieces d code)) \<le> 512"
proof -
  note b = length_ip_text [of "sd_local_ip d"] length_ip_text [of "sd_peer_ip d"] length_decimal_texts(1) [of "sd_local_port d"]
    length_decimal_texts(1) [of "sd_peer_port d"] length_decimal_texts(2) [of "sd_cseq d"] assms
  have l: "length (dec (length (sdp_text (sd_local_ip d) (sd_rtp_port d)))) \<le> 3"
    using length_dec [of "length (sdp_text (sd_local_ip d) (sd_rtp_port d))" 3] sdp_length_bound [of "sd_local_ip d" "sd_rtp_port d"] by simp
  show "length (sdp_message (invite_pieces d) (sd_local_ip d) (sd_rtp_port d)) \<le> 512"
    "length (sdp_message (invite_ok_pieces d) (sd_local_ip d) (sd_rtp_port d)) \<le> 512"
    using b l sdp_length_bound [of "sd_local_ip d" "sd_rtp_port d"]
    by (simp_all add: sdp_message_def invite_pieces_def invite_ok_pieces_def put_via_branch_def put_call_id_at_host_def ascii_def)
  show "length (concat (request_pieces (ascii ''ACK'') d)) \<le> 512" "length (concat (request_pieces (ascii ''BYE'') d)) \<le> 512"
    using b by (simp_all add: request_pieces_def put_via_branch_def put_call_id_at_host_def put_to_with_optional_tag_def ascii_def)
  show "length (concat (bye_ok_pieces d)) \<le> 512" using b by (simp add: bye_ok_pieces_def ascii_def)
  show "length (concat (invite_status_pieces d code)) \<le> 512"
    using b length_decimal_texts(1) [of code] length_status_phrase [of code] by (simp add: invite_status_pieces_def ascii_def)
qed

section \<open>Finding a field\<close>

text \<open>Whether the bytes \<open>a\<close>, \<open>b\<close> stand next to each other in a text that follows the byte \<open>p\<close>.\<close>

fun pair_in :: "byte \<Rightarrow> byte \<Rightarrow> byte \<Rightarrow> bytes \<Rightarrow> bool" where
  "pair_in a b p [] = False"
| "pair_in a b p (c # cs) = ((p = a \<and> c = b) \<or> pair_in a b c cs)"

lemma pair_in_skip: "b \<notin> set v \<Longrightarrow> c \<noteq> b \<Longrightarrow> pair_in a b p (v @ c # cs) = pair_in a b c cs"
  by (induction v arbitrary: p) auto

lemma pair_in_nth: "Suc i < length s \<Longrightarrow> s ! i = a \<Longrightarrow> s ! Suc i = b \<Longrightarrow> pair_in a b p s"
proof (induction s arbitrary: i p)
  case (Cons c cs)
  then show ?case by (cases i; cases cs) (auto simp: nth_Cons split: nat.splits)
qed simp

lemma bslice_match_nth:
  assumes "bslice i (i + length needle) s = needle" and "k < length needle"
  shows "s ! (i + k) = needle ! k"
proof -
  have m: "take (length needle) (drop i s) = needle" using assms(1) by (simp add: bslice_def)
  then have "length needle \<le> length s - i" by (metis length_drop length_take min.cobounded2 min.commute)
  then show ?thesis using assms(2) m nth_take [of k "length needle" "drop i s"] by simp
qed

text \<open>A text is found where it stands if a pair of its bytes stands nowhere before.\<close>

lemma find_bytes_first:
  assumes "needle = u @ [a, b] @ v" and "\<not> pair_in a b p (pre @ u @ [a])"
  shows "find_bytes (pre @ needle @ post) needle = Some (length pre)"
proof -
  let ?s = "pre @ needle @ post" and ?P = "\<lambda>i. bslice i (i + length needle) (pre @ needle @ post) = needle"
  have "\<not> ?P i" if "i < length pre" for i
  proof
    assume "?P i"
    note e = bslice_match_nth [OF this]
    have "?s ! (i + length u) = a" "?s ! (i + Suc (length u)) = b"
      using e [of "length u"] e [of "Suc (length u)"] assms(1) by (simp_all add: nth_append)
    moreover have "?s ! j = (pre @ u @ [a]) ! j" if "j < length pre + length u + 1" for j
    proof -
      have "?s = (pre @ u @ [a]) @ b # v @ post" by (simp add: assms(1))
      then show ?thesis using that by (simp add: nth_append)
    qed
    ultimately have "(pre @ u @ [a]) ! (i + length u) = a" "(pre @ u @ [a]) ! Suc (i + length u) = b" using that by simp_all
    then show False using pair_in_nth [of "i + length u" "pre @ u @ [a]" a b p] assms(2) that by simp
  qed
  moreover have "?P (length pre)" by (simp add: bslice_def)
  ultimately have "List.find ?P [0..<length ?s - length needle + 1] = Some (length pre)"
    unfolding find_Some_iff by (intro exI [of _ "length pre"]) (auto simp: nth_append simp del: upt_Suc)
  then show ?thesis using assms(1) by (simp add: find_bytes_def)
qed

lemma find_bytes_absent:
  assumes "needle = u @ [a, b] @ v" and "\<not> pair_in a b p s"
  shows "find_bytes s needle = None"
proof -
  have "bslice i (i + length needle) s \<noteq> needle" if "i + length needle \<le> length s" for i
  proof
    assume "bslice i (i + length needle) s = needle"
    from bslice_match_nth [OF this, of "length u"] bslice_match_nth [OF this, of "Suc (length u)"]
    have "s ! (i + length u) = a" "s ! Suc (i + length u) = b" using assms(1) by (simp_all add: nth_append)
    then show False using pair_in_nth [of "i + length u" s a b p] assms that by simp
  qed
  then have "\<not> (\<exists>i \<in> set [0..<length s - length needle + 1]. bslice i (i + length needle) s = needle)" if "length needle \<le> length s"
    using that by (auto simp del: upt_Suc)
  then show ?thesis by (simp add: find_bytes_def find_None_iff del: upt_Suc set_upt)
qed

section \<open>Numbers read back\<close>

lemma digit_read:
  assumes "n < 10"
  shows "is_ascii_digit (48 + of_nat n)" "(ucast (48 + of_nat n - 48 :: byte) :: u16) = of_nat n"
proof -
  have "n \<in> {0,1,2,3,4,5,6,7,8,9}" using assms by auto
  then show "is_ascii_digit (48 + of_nat n)" "(ucast (48 + of_nat n - 48 :: byte) :: u16) = of_nat n"
    by (elim insertE, simp_all add: is_ascii_digit_def)+
qed

lemma of_nat_div_mod_10: "(of_nat (n div 10) :: u16) * 10 + of_nat (n mod 10) = of_nat n"
proof -
  have "(of_nat (n div 10 * 10 + n mod 10) :: u16) = of_nat n" by simp
  then show ?thesis unfolding of_nat_add of_nat_mult by simp
qed

lemma decimal_u16_dec: "decimal_u16_loop (dec n @ rest) 0 = decimal_u16_loop rest (of_nat n)"
proof (induction n arbitrary: rest rule: dec.induct)
  case (1 n)
  show ?case
  proof (cases "n < 10")
    case True
    then show ?thesis using digit_read [of n] by (simp add: dec_small)
  next
    case False
    then show ?thesis using 1 digit_read [of "n mod 10"] by (simp add: dec_big of_nat_div_mod_10)
  qed
qed

lemma ip4_dec: "length octets < 4 \<Longrightarrow> ip4_loop (dec n @ rest) octets 0 = ip4_loop rest octets (of_nat n)"
proof (induction n arbitrary: rest rule: dec.induct)
  case (1 n)
  show ?case
  proof (cases "n < 10")
    case True
    then show ?thesis using 1 digit_read [of n] by (simp add: dec_small)
  next
    case False
    then show ?thesis using 1 digit_read [of "n mod 10"] by (simp add: dec_big of_nat_div_mod_10)
  qed
qed

lemma parse_decimal_text: "\<not> is_ascii_digit c \<Longrightarrow> parse_decimal_u16 (dec (unat v) @ c # rest) = v"
  by (simp add: parse_decimal_u16_def decimal_u16_dec)

lemma parse_ip4_text: "\<not> is_ascii_digit c \<Longrightarrow> c \<noteq> 46 \<Longrightarrow> parse_ip4 (ip_text ip @ c # rest) = ip"
proof -
  assume c: "\<not> is_ascii_digit c" "c \<noteq> 46"
  obtain o1 o2 o3 o4 where o: "be_bytes 4 (unat ip) = [o1, o2, o3, o4]"
    and t: "ip_text ip = dec (unat o1) @ [46] @ dec (unat o2) @ [46] @ dec (unat o3) @ [46] @ dec (unat o4)"
    using ip_text_octets [of ip] by blast
  have oct: "\<not> 255 < (of_nat (unat b) :: u16)" "(ucast (of_nat (unat b) :: u16) :: byte) = b" for b :: byte
  proof -
    have "unat b \<le> 255" using byte_unat_less [of b] by linarith
    then show "\<not> 255 < (of_nat (unat b) :: u16)" by (simp add: word_less_nat_alt unat_ucast_widen)
    show "(ucast (of_nat (unat b) :: u16) :: byte) = b" by (simp add: ucast_up_ucast_id is_up)
  qed
  have dot: "\<not> is_ascii_digit 46" by (simp add: is_ascii_digit_def)
  have "ip4_loop (ip_text ip @ c # rest) [] 0 = Some ([o1, o2, o3], of_nat (unat o4))"
    unfolding t using oct dot c by (simp add: ip4_dec)
  then show ?thesis using oct o from_to_be_bytes(2) [of ip] by (simp add: parse_ip4_def not_less)
qed

lemma hex16_digit_HEX: "k < 16 \<Longrightarrow> hex16_digit (ascii ''0123456789abcdef'' ! k) = Some (of_nat k)"
proof -
  assume "k < 16"
  then have "k \<in> {0,1,2,3,4,5,6,7,8,9,10,11,12,13,14,15}" by (simp; arith)
  then show ?thesis by (elim insertE) (simp_all add: ascii_def hex16_digit_def)
qed

lemma nibble_less: "unat ((v :: u16) AND 0xF) < 16"
  using take_bit_nat_less_exp [of 4 "unat v"] by (simp add: and_low_mask unat_take_bit)

lemma parse_hex16_text: "parse_hex16 (hex_text v @ rest) = v"
proof -
  have "parse_hex16 (hex_text v @ rest) = push_bit 4 (push_bit 4 (push_bit 4 (push_bit 4 0 OR (drop_bit 12 v AND 0xF)) OR (drop_bit 8 v AND 0xF)) OR
      (drop_bit 4 v AND 0xF)) OR (v AND 0xF)"
    using nibble_less by (simp add: parse_hex16_def hex_text_def put_hex16_def Let_def hex16_digit_HEX)
  also have "\<dots> = v"
  proof (rule bit_word_eqI)
    fix n
    assume "n < LENGTH(16)"
    then consider "n < 4" | "4 \<le> n" "n < 8" | "8 \<le> n" "n < 12" | "12 \<le> n" "n < 16" by force
    then show "bit (push_bit 4 (push_bit 4 (push_bit 4 (push_bit 4 0 OR (drop_bit 12 v AND 0xF)) OR (drop_bit 8 v AND 0xF)) OR
        (drop_bit 4 v AND 0xF)) OR (v AND 0xF)) n = bit v n"
      by cases (auto simp: and_low_mask bit_simps)
  qed
  finally show ?thesis .
qed

section \<open>A message read back\<close>

text \<open>The bytes the varying parts of a message are made of, the call identifier apart.\<close>

definition value_byte :: "byte \<Rightarrow> bool" where
  "value_byte c \<longleftrightarrow> is_ascii_digit c \<or> c = 46 \<or> (97 \<le> c \<and> c \<le> 102)"

lemma value_texts:
  "c \<in> set (dec n) \<Longrightarrow> value_byte c" "c \<in> set (ip_text ip) \<Longrightarrow> value_byte c" "c \<in> set (hex_text v) \<Longrightarrow> value_byte c"
proof -
  show d: "value_byte c" if "c \<in> set (dec n)" for n using that dec_digits [of n] by (simp add: value_byte_def)
  show "value_byte c" if "c \<in> set (ip_text ip)"
  proof -
    have "value_byte 46" by (simp add: value_byte_def)
    with that d show ?thesis using ip_text_octets [of ip] by auto
  qed
  show "value_byte c" if "c \<in> set (hex_text v)"
  proof -
    have "value_byte (ascii ''0123456789abcdef'' ! k)" if "k < 16" for k
    proof -
      have "k \<in> {0,1,2,3,4,5,6,7,8,9,10,11,12,13,14,15}" using that by (simp; arith)
      then show ?thesis by (elim insertE) (simp_all add: ascii_def value_byte_def is_ascii_digit_def)
    qed
    with that nibble_less show ?thesis by (auto simp: hex_text_def put_hex16_def Let_def)
  qed
qed

lemma not_in_value_texts [simp]:
  "\<not> value_byte b \<Longrightarrow> b \<notin> set (dec n)" "\<not> value_byte b \<Longrightarrow> b \<notin> set (ip_text ip)" "\<not> value_byte b \<Longrightarrow> b \<notin> set (hex_text v)"
  using value_texts by blast+

lemma not_value_bytes [simp]:
  "\<not> value_byte 61" "\<not> value_byte 58" "\<not> value_byte 73" "\<not> value_byte 116" "\<not> value_byte 13" "\<not> value_byte 10"
  by (simp_all add: value_byte_def is_ascii_digit_def)

lemma pair_in_append: "pair_in a b p (xs @ ys) = (pair_in a b p xs \<or> pair_in a b (last (p # xs)) ys)"
  by (induction xs arbitrary: p) auto

lemma pair_in_none [simp]: "b \<notin> set v \<Longrightarrow> \<not> pair_in a b p v"
  by (induction v arbitrary: p) auto

lemma tag_on_line_read:
  assumes "\<not> pair_in 59 116 0 (l1 @ [59])" and "13 \<notin> set l1"
  shows "tag_on_line (pre @ l1 @ ascii '';tag='' @ hex_text t @ 13 # post) (Some (length pre)) = t"
proof -
  let ?line = "l1 @ ascii '';tag='' @ hex_text t" and ?msg = "pre @ l1 @ ascii '';tag='' @ hex_text t @ 13 # post"
  have "13 \<notin> set ?line" using assms(2) by (simp add: ascii_def)
  then have "takeWhile (\<lambda>c. c \<noteq> 13) (?line @ 13 # post) = ?line" by (subst takeWhile_append2) auto
  then have line: "bslice (length pre) (scan_while (\<lambda>c. c \<noteq> 13) ?msg (length pre)) ?msg = ?line"
    by (simp add: bslice_scan_while)
  have "find_bytes (l1 @ ascii '';tag='' @ hex_text t) (ascii '';tag='') = Some (length l1)"
    using assms(1) by (intro find_bytes_first [where u = "[]" and a = 59 and b = 116 and v = "[97, 103, 61]" and p = 0]) (simp_all add: ascii_def)
  then show ?thesis unfolding tag_on_line_def option.case line by (simp add: ascii_def parse_hex16_text)
qed

lemma tag_on_line_none:
  assumes "\<not> pair_in 59 116 0 line" and "13 \<notin> set line"
  shows "tag_on_line (pre @ line @ 13 # post) (Some (length pre)) = 0"
proof -
  have "takeWhile (\<lambda>c. c \<noteq> 13) (line @ 13 # post) = line" using assms(2) by (subst takeWhile_append2) auto
  then have line: "bslice (length pre) (scan_while (\<lambda>c. c \<noteq> 13) (pre @ line @ 13 # post) (length pre)) (pre @ line @ 13 # post) = line"
    by (simp add: bslice_scan_while)
  have "find_bytes line (ascii '';tag='') = None"
    using assms(1) by (intro find_bytes_absent [where u = "[]" and a = 59 and b = 116 and v = "[97, 103, 61]" and p = 0]) (simp_all add: ascii_def)
  then show ?thesis unfolding tag_on_line_def option.case line by simp
qed

text \<open>The part of a message from its \<open>From\<close> header on; a tag of zero on \<open>To\<close> is none.\<close>

definition to_tag_text :: "u16 \<Rightarrow> bytes" where
  "to_tag_text tag = (if tag = 0 then [62] else ascii ''>;tag='' @ hex_text tag)"

definition dialog_fields :: "u32 \<Rightarrow> u16 \<Rightarrow> u32 \<Rightarrow> u16 \<Rightarrow> bytes \<Rightarrow> bytes \<Rightarrow> bytes" where
  "dialog_fields f ft t tt cid rest =
     ascii ''From: <sip:'' @ ip_text f @ ascii ''>;tag='' @ hex_text ft @ CRLF @
     ascii ''To: <sip:'' @ ip_text t @ to_tag_text tt @ CRLF @ ascii ''Call-ID: '' @ cid @ CRLF @ rest"

definition quiet_head :: "bytes \<Rightarrow> bool" where
  "quiet_head h \<longleftrightarrow> last (0 # h) = 10 \<and> \<not> pair_in 109 58 0 h \<and> \<not> pair_in 111 58 0 h \<and> \<not> pair_in 45 73 0 h \<and>
     \<not> pair_in 109 61 0 h \<and> \<not> pair_in 99 61 0 h"

lemma from_tag_read:
  assumes "quiet_head h"
  shows "parse_from_tag (h @ dialog_fields f ft t tt cid rest) = ft"
proof -
  define post where "post = 10 # ascii ''To: <sip:'' @ ip_text t @ to_tag_text tt @ CRLF @ ascii ''Call-ID: '' @ cid @ CRLF @ rest"
  let ?l = "ascii ''From: <sip:'' @ ip_text f @ [62]"
  have m: "h @ dialog_fields f ft t tt cid rest = h @ ?l @ ascii '';tag='' @ hex_text ft @ 13 # post"
    by (simp add: dialog_fields_def post_def ascii_def)
  have m2: "\<dots> = h @ ascii ''From:'' @ ascii '' <sip:'' @ ip_text f @ [62] @ ascii '';tag='' @ hex_text ft @ 13 # post" by (simp add: ascii_def)
  have "find_bytes (h @ dialog_fields f ft t tt cid rest) (ascii ''From:'') = Some (length h)"
    unfolding m m2
    using assms by (intro find_bytes_first [where u = "[70, 114, 111]" and a = 109 and b = 58 and v = "[]" and p = 0])
      (simp_all add: ascii_def quiet_head_def pair_in_append)
  moreover have "tag_on_line (h @ dialog_fields f ft t tt cid rest) (Some (length h)) = ft"
    unfolding m by (intro tag_on_line_read) (simp_all add: ascii_def pair_in_skip)
  ultimately show ?thesis by (simp add: parse_from_tag_def)
qed

lemma to_tag_read:
  assumes "quiet_head h"
  shows "parse_to_tag (h @ dialog_fields f ft t tt cid rest) = tt"
proof -
  define pre where "pre = h @ ascii ''From: <sip:'' @ ip_text f @ ascii ''>;tag='' @ hex_text ft @ [13]"
  define post where "post = 10 # ascii ''Call-ID: '' @ cid @ CRLF @ rest"
  let ?l = "ascii ''To: <sip:'' @ ip_text t"
  have m: "h @ dialog_fields f ft t tt cid rest = pre @ [10] @ ?l @ to_tag_text tt @ 13 # post"
    by (simp add: dialog_fields_def pre_def post_def)
  have m2: "\<dots> = pre @ ([10] @ ascii ''To:'') @ ascii '' <sip:'' @ ip_text t @ to_tag_text tt @ 13 # post" by (simp add: ascii_def)
  have f: "find_bytes (h @ dialog_fields f ft t tt cid rest) ([10] @ ascii ''To:'') = Some (length pre)"
    unfolding m m2
    using assms by (intro find_bytes_first [where u = "[10, 84]" and a = 111 and b = 58 and v = "[]" and p = 0])
      (simp_all add: ascii_def quiet_head_def pair_in_append pair_in_skip pre_def)
  have "tag_on_line ((pre @ [10]) @ ?l @ to_tag_text tt @ 13 # post) (Some (length (pre @ [10]))) = tt"
  proof (cases "tt = 0")
    case True
    then show ?thesis using tag_on_line_none [of "?l @ [62]" "pre @ [10]" post]
      by (simp add: to_tag_text_def ascii_def pair_in_skip)
  next
    case False
    then show ?thesis using tag_on_line_read [of "?l @ [62]" "pre @ [10]" tt post]
      by (simp add: to_tag_text_def ascii_def pair_in_skip)
  qed
  then show ?thesis using f m by (simp add: parse_to_tag_def)
qed

lemma call_id_read:
  assumes "quiet_head h" and "13 \<notin> set cid" and "10 \<notin> set cid"
  shows "find_call_id (h @ dialog_fields f ft t tt cid rest) = Some cid"
proof -
  define pre where "pre = h @ ascii ''From: <sip:'' @ ip_text f @ ascii ''>;tag='' @ hex_text ft @ CRLF @ ascii ''To: <sip:'' @ ip_text t @
    to_tag_text tt @ CRLF"
  have m: "h @ dialog_fields f ft t tt cid rest = pre @ ascii ''Call-ID: '' @ cid @ 13 # 10 # rest"
    by (simp add: dialog_fields_def pre_def)
  have f: "find_bytes (h @ dialog_fields f ft t tt cid rest) (ascii ''Call-ID: '') = Some (length pre)"
    unfolding m using assms(1)
    by (intro find_bytes_first [where u = "[67, 97, 108, 108]" and a = 45 and b = 73 and v = "[68, 58, 32]" and p = 0])
      (simp_all add: ascii_def quiet_head_def pair_in_append pair_in_skip pre_def to_tag_text_def)
  have "takeWhile (\<lambda>c. c \<noteq> 13 \<and> c \<noteq> 10) (cid @ 13 # 10 # rest) = cid" using assms(2,3) by (subst takeWhile_append2) auto
  then have "bslice (length pre + 9) (scan_while (\<lambda>c. c \<noteq> 13 \<and> c \<noteq> 10) ((pre @ ascii ''Call-ID: '') @ cid @ 13 # 10 # rest) (length pre + 9))
      ((pre @ ascii ''Call-ID: '') @ cid @ 13 # 10 # rest) = cid"
    by (subst bslice_scan_while) (simp_all add: ascii_def)
  then show ?thesis using f m by (simp add: find_call_id_def)
qed

definition call_rest :: "u32 \<Rightarrow> u32 \<Rightarrow> u16 \<Rightarrow> u16 \<Rightarrow> bytes" where
  "call_rest cseq ip port rtp =
     ascii ''CSeq: '' @ dec (unat cseq) @ ascii '' INVITE'' @ CRLF @ ascii ''Contact: <sip:'' @ ip_text ip @ [58] @ dec (unat port) @ [62] @ CRLF @
     ascii ''Content-Type: application/sdp'' @ CRLF @ ascii ''Content-Length: '' @ dec (length (sdp_text ip rtp)) @ CRLF @ CRLF @ sdp_text ip rtp"

text \<open>The media endpoint a session description means: none for port 0, no address for 0.0.0.0.\<close>

definition media_endpoint :: "u32 \<Rightarrow> u16 \<Rightarrow> sdp_endpoint option" where
  "media_endpoint ip port = (if port = 0 then None else Some \<lparr> se_ip = (if ip = 0 then None else Some ip), se_port = port \<rparr>)"

lemma endpoint_read_any:
  assumes "quiet_head h" and "61 \<notin> set cid"
  shows "parse_sdp_endpoint (h @ dialog_fields f ft t tt cid (call_rest cseq ip port rtp)) = media_endpoint ip rtp"
proof -
  define pre where "pre = h @ ascii ''From: <sip:'' @ ip_text f @ ascii ''>;tag='' @ hex_text ft @ CRLF @ ascii ''To: <sip:'' @ ip_text t @
    to_tag_text tt @ CRLF @ ascii ''Call-ID: '' @ cid @ CRLF @ ascii ''CSeq: '' @ dec (unat cseq) @ ascii '' INVITE'' @ CRLF @
    ascii ''Contact: <sip:'' @ ip_text ip @ [58] @ dec (unat port) @ [62] @ CRLF @
    ascii ''Content-Type: application/sdp'' @ CRLF @ ascii ''Content-Length: '' @ dec (length (sdp_text ip rtp)) @ CRLF @ CRLF @
    ascii ''v=0'' @ CRLF @ ascii ''o=- 0 0 IN IP4 '' @ ip_text ip @ CRLF @ ascii ''s=-'' @ CRLF"
  define mid where "mid = pre @ ascii ''c=IN IP4 '' @ ip_text ip @ CRLF @ ascii ''t=0 0'' @ CRLF"
  define post where "post = ascii ''RTP/AVP 0'' @ CRLF @ ascii ''a=rtpmap:0 PCMU/8000'' @ CRLF"
  let ?msg = "h @ dialog_fields f ft t tt cid (call_rest cseq ip port rtp)"
  have m: "?msg = mid @ ascii ''m=audio '' @ dec (unat rtp) @ 32 # post"
    by (simp add: dialog_fields_def call_rest_def pre_def mid_def post_def sdp_text_def sdp_pieces_def ascii_def)
  have c: "?msg = pre @ ascii ''c=IN IP4 '' @ ip_text ip @ 13 # 10 # ascii ''t=0 0'' @ CRLF @ ascii ''m=audio '' @ dec (unat rtp) @ 32 # post"
    unfolding m mid_def by simp
  have quiet: "\<not> pair_in 109 61 0 pre" "\<not> pair_in 99 61 0 pre" "last (0 # pre) = 10"
    using assms(1,2) by (simp_all add: ascii_def quiet_head_def pair_in_append pre_def to_tag_text_def)
  have fm: "find_bytes ?msg (ascii ''m=audio '') = Some (length mid)"
    unfolding m using quiet
    by (intro find_bytes_first [where u = "[]" and a = 109 and b = 61 and v = "[97, 117, 100, 105, 111, 32]" and p = 0])
      (simp_all add: ascii_def pair_in_append mid_def)
  have fc: "find_bytes ?msg (ascii ''c=IN IP4 '') = Some (length pre)"
    unfolding c using quiet
    by (intro find_bytes_first [where u = "[]" and a = 99 and b = 61 and v = "[73, 78, 32, 73, 80, 52, 32]" and p = 0])
      (simp_all add: ascii_def pair_in_append)
  have nd: "\<not> is_ascii_digit 32" "\<not> is_ascii_digit 13" by (simp_all add: is_ascii_digit_def)
  have "drop (length mid + 8) ?msg = dec (unat rtp) @ 32 # post" unfolding m by (simp add: ascii_def)
  then have p: "parse_decimal_u16 (drop (length mid + 8) ?msg) = rtp" using nd by (simp add: parse_decimal_text)
  have "drop (length pre + 9) ?msg = ip_text ip @ 13 # 10 # ascii ''t=0 0'' @ CRLF @ ascii ''m=audio '' @ dec (unat rtp) @ 32 # post"
    unfolding c by (simp add: ascii_def)
  then have i: "parse_ip4 (drop (length pre + 9) ?msg) = ip" using nd by (simp add: parse_ip4_text)
  show ?thesis unfolding parse_sdp_endpoint_def fm fc option.case Let_def p i by (simp add: media_endpoint_def)
qed

lemma endpoint_read:
  assumes "quiet_head h" and "61 \<notin> set cid" and "rtp \<noteq> 0"
  shows "parse_sdp_endpoint (h @ dialog_fields f ft t tt cid (call_rest cseq ip port rtp)) =
    Some \<lparr> se_ip = (if ip = 0 then None else Some ip), se_port = rtp \<rparr>"
  using endpoint_read_any [OF assms(1,2)] assms(3) by (simp add: media_endpoint_def)

definition invite_head :: "sip_dialog \<Rightarrow> bytes" where
  "invite_head d =
     ascii ''INVITE sip:'' @ ip_text (sd_peer_ip d) @ [58] @ dec (unat (sd_peer_port d)) @ ascii '' SIP/2.0'' @ CRLF @
     ascii ''Via: SIP/2.0/UDP '' @ ip_text (sd_local_ip d) @ [58] @ dec (unat (sd_local_port d)) @ ascii '';branch=z9hG4bK'' @ hex_text (sd_branch d) @
     CRLF @ ascii ''Max-Forwards: 70'' @ CRLF"

definition answer_head :: "sip_dialog \<Rightarrow> bytes" where
  "answer_head d =
     ascii ''SIP/2.0 200 OK'' @ CRLF @ ascii ''Via: SIP/2.0/UDP '' @ ip_text (sd_peer_ip d) @ [58] @ dec (unat (sd_peer_port d)) @ CRLF"

lemma last_ip_text [simp]: "ip_text ip \<noteq> []" "\<not> value_byte b \<Longrightarrow> last (ip_text ip) \<noteq> b"
proof -
  show "ip_text ip \<noteq> []" using ip_text_octets [of ip] by auto
  then show "\<not> value_byte b \<Longrightarrow> last (ip_text ip) \<noteq> b" using value_texts(2) [of "last (ip_text ip)" ip] by auto
qed

lemma quiet_heads: "quiet_head (invite_head d)" "quiet_head (answer_head d)"
proof -
  have "\<not> value_byte 109" "\<not> value_byte 111" by (simp_all add: value_byte_def is_ascii_digit_def)
  then show "quiet_head (invite_head d)" "quiet_head (answer_head d)"
    by (simp_all add: quiet_head_def invite_head_def answer_head_def ascii_def pair_in_append)
qed

lemma invite_text:
  "sdp_message (invite_pieces d) (sd_local_ip d) (sd_rtp_port d) =
   invite_head d @ dialog_fields (sd_local_ip d) (sd_from_tag d) (sd_peer_ip d) 0 (sd_call_id d @ [64] @ ip_text (sd_local_ip d))
     (call_rest (sd_cseq d) (sd_local_ip d) (sd_local_port d) (sd_rtp_port d))"
  by (simp add: sdp_message_def invite_pieces_def invite_head_def dialog_fields_def call_rest_def put_via_branch_def put_call_id_at_host_def
      to_tag_text_def ascii_def)

lemma answer_text:
  assumes "sd_from_tag d \<noteq> 0"
  shows "sdp_message (invite_ok_pieces d) (sd_local_ip d) (sd_rtp_port d) =
   answer_head d @ dialog_fields (sd_peer_ip d) (sd_to_tag d) (sd_local_ip d) (sd_from_tag d) (sd_call_id d)
     (call_rest (sd_cseq d) (sd_local_ip d) (sd_local_port d) (sd_rtp_port d))"
  using assms
  by (simp add: sdp_message_def invite_ok_pieces_def answer_head_def dialog_fields_def call_rest_def to_tag_text_def ascii_def)

text \<open>A call identifier that does not end its line and does not look like a line of a session description.\<close>

definition call_id_ok :: "bytes \<Rightarrow> bool" where
  "call_id_ok c \<longleftrightarrow> 13 \<notin> set c \<and> 10 \<notin> set c \<and> 61 \<notin> set c"

lemma call_id_ok_at_host: "call_id_ok c \<Longrightarrow> call_id_ok (c @ [64] @ ip_text ip)"
  by (simp add: call_id_ok_def)

text \<open>C37. An INVITE and the 200 that answers it are read back as they were meant: the reader finds the status, the tags of the
  dialogue, the call identifier and the address and port of the media (no endpoint when the port is 0, no
  address when the address is 0), whatever the addresses, ports and numbers in them. The call identifier is
  taken to hold no CR, LF or equals sign, and the local tag not to be 0.\<close>

theorem sip_call_setup_read_back:
  assumes "call_id_ok (sd_call_id d)" and "sd_from_tag d \<noteq> 0"
    and "build_invite d out = (Some n, out1)" and "build_invite_ok d out = (Some k, out2)"
  shows "parse_status_code (take n out1) = 0 \<and> parse_from_tag (take n out1) = sd_from_tag d \<and> parse_to_tag (take n out1) = 0 \<and>
      find_call_id (take n out1) = Some (sd_call_id d @ [64] @ ip_text (sd_local_ip d)) \<and>
      parse_sdp_endpoint (take n out1) = media_endpoint (sd_local_ip d) (sd_rtp_port d) \<and>
    parse_status_code (take k out2) = 200 \<and> parse_from_tag (take k out2) = sd_to_tag d \<and> parse_to_tag (take k out2) = sd_from_tag d \<and>
      find_call_id (take k out2) = Some (sd_call_id d) \<and>
      parse_sdp_endpoint (take k out2) = media_endpoint (sd_local_ip d) (sd_rtp_port d)"
proof -
  define host where "host = sd_call_id d @ [64] @ ip_text (sd_local_ip d)"
  have host: "call_id_ok host" using call_id_ok_at_host [OF assms(1)] by (simp add: host_def)
  have i: "take n out1 = invite_head d @ dialog_fields (sd_local_ip d) (sd_from_tag d) (sd_peer_ip d) 0 host
      (call_rest (sd_cseq d) (sd_local_ip d) (sd_local_port d) (sd_rtp_port d))"
    using assms(3) unfolding build_invite_def build_with_sdp host_def invite_text [symmetric] by (auto simp: blit_def)
  have o: "take k out2 = answer_head d @ dialog_fields (sd_peer_ip d) (sd_to_tag d) (sd_local_ip d) (sd_from_tag d) (sd_call_id d)
      (call_rest (sd_cseq d) (sd_local_ip d) (sd_local_port d) (sd_rtp_port d))"
    using assms(4) unfolding build_invite_ok_def build_with_sdp answer_text [OF assms(2), symmetric] by (auto simp: blit_def)
  have code: "parse_status_code (take n out1) = 0" "parse_status_code (take k out2) = 200"
    unfolding i o by (simp_all add: parse_status_code_def invite_head_def answer_head_def ascii_def bslice_def is_ascii_digit_def)
  note rd = from_tag_read to_tag_read call_id_read endpoint_read_any
  have "parse_from_tag (take n out1) = sd_from_tag d" "parse_to_tag (take n out1) = 0" "find_call_id (take n out1) = Some host"
    "parse_sdp_endpoint (take n out1) = media_endpoint (sd_local_ip d) (sd_rtp_port d)"
    unfolding i using quiet_heads(1) host by (simp_all add: rd call_id_ok_def)
  moreover have "parse_from_tag (take k out2) = sd_to_tag d" "parse_to_tag (take k out2) = sd_from_tag d"
    "find_call_id (take k out2) = Some (sd_call_id d)"
    "parse_sdp_endpoint (take k out2) = media_endpoint (sd_local_ip d) (sd_rtp_port d)"
    unfolding o using quiet_heads(2) assms(1) by (simp_all add: rd call_id_ok_def)
  ultimately show ?thesis using code unfolding host_def by blast
qed

definition demo_dialog :: sip_dialog where
  "demo_dialog = \<lparr> sd_local_ip = 0xC0A8010A, sd_peer_ip = 0x0A000002, sd_local_port = 5060, sd_peer_port = 5060, sd_rtp_port = 5004,
     sd_cseq = 1, sd_from_tag = 0x5349, sd_to_tag = 0x12AB, sd_branch = 7, sd_call_id = ascii ''1a2b'' \<rparr>"

theorem sip_call_setup_read_back_witness:
  "\<exists>n out1 k out2. build_invite demo_dialog (replicate 512 0) = (Some n, out1) \<and> build_invite_ok demo_dialog (replicate 512 0) = (Some k, out2) \<and>
     parse_from_tag (take n out1) = 0x5349 \<and> parse_to_tag (take k out2) = 0x5349 \<and> parse_from_tag (take k out2) = 0x12AB \<and>
     parse_sdp_endpoint (take k out2) = Some \<lparr> se_ip = Some 0xC0A8010A, se_port = 5004 \<rparr>"
proof -
  have cid: "length (sd_call_id demo_dialog) \<le> 16" "call_id_ok (sd_call_id demo_dialog)"
    by (simp_all add: demo_dialog_def ascii_def call_id_ok_def)
  obtain n out1 where i: "build_invite demo_dialog (replicate 512 0) = (Some n, out1)"
    using message_lengths(1) [OF cid(1)] unfolding build_invite_def build_with_sdp by simp
  obtain k out2 where o: "build_invite_ok demo_dialog (replicate 512 0) = (Some k, out2)"
    using message_lengths(2) [OF cid(1)] unfolding build_invite_ok_def build_with_sdp by simp
  show ?thesis using i o sip_call_setup_read_back [OF cid(2) _ i o] by (auto simp: demo_dialog_def media_endpoint_def)
qed

section \<open>Port records\<close>

abbreviation (input) SIP_CMD_DIAL :: byte where "SIP_CMD_DIAL \<equiv> 0x90"
abbreviation (input) SIP_CMD_ACCEPT :: byte where "SIP_CMD_ACCEPT \<equiv> 0x91"
abbreviation (input) SIP_CMD_REJECT :: byte where "SIP_CMD_REJECT \<equiv> 0x92"
abbreviation (input) SIP_CMD_HANGUP :: byte where "SIP_CMD_HANGUP \<equiv> 0x93"
abbreviation (input) SIP_CMD_CANCEL :: byte where "SIP_CMD_CANCEL \<equiv> 0x94"
abbreviation (input) SIP_OP_EVENT :: byte where "SIP_OP_EVENT \<equiv> 0x9F"
abbreviation (input) SIP_EV_OFFERED :: byte where "SIP_EV_OFFERED \<equiv> 0"
abbreviation (input) SIP_EV_PROVISIONAL :: byte where "SIP_EV_PROVISIONAL \<equiv> 1"
abbreviation (input) SIP_EV_ESTABLISHED :: byte where "SIP_EV_ESTABLISHED \<equiv> 2"
abbreviation (input) SIP_EV_REJECTED :: byte where "SIP_EV_REJECTED \<equiv> 3"
abbreviation (input) SIP_EV_TIMEOUT :: byte where "SIP_EV_TIMEOUT \<equiv> 4"
abbreviation (input) SIP_EV_FAILED :: byte where "SIP_EV_FAILED \<equiv> 5"
abbreviation (input) SIP_EV_REMOTE_HANGUP :: byte where "SIP_EV_REMOTE_HANGUP \<equiv> 6"
abbreviation (input) SIP_EV_LOCAL_CLOSED :: byte where "SIP_EV_LOCAL_CLOSED \<equiv> 7"
abbreviation (input) SIP_EV_DECLINED :: byte where "SIP_EV_DECLINED \<equiv> 8"
abbreviation (input) SIP_CMD_LEN :: nat where "SIP_CMD_LEN \<equiv> 19"
abbreviation (input) SIP_EVENT_HDR :: nat where "SIP_EVENT_HDR \<equiv> 17"

type_synonym octets4 = "byte \<times> byte \<times> byte \<times> byte"

definition ipv4_list :: "octets4 \<Rightarrow> bytes" where
  "ipv4_list ip = (case ip of (a, b, c, d) \<Rightarrow> [a, b, c, d])"

record sip_command =
  sc_op :: byte
  sc_cid :: u32
  sc_code :: u16
  sc_peer_ip :: octets4
  sc_peer_port :: u16
  sc_media_ip :: octets4
  sc_media_port :: u16

definition sip_cmd_is_known :: "byte \<Rightarrow> bool" where
  "sip_cmd_is_known p \<longleftrightarrow> p \<in> {SIP_CMD_DIAL, SIP_CMD_ACCEPT, SIP_CMD_REJECT, SIP_CMD_HANGUP, SIP_CMD_CANCEL}"

definition write_sip_command :: "sip_command \<Rightarrow> nat writer" where
  "write_sip_command c out =
     (if length out < SIP_CMD_LEN then (None, out)
      else
        let out = out[0 := sc_op c];
            out = blit 1 (le_bytes 4 (unat (sc_cid c))) out;
            out = blit 5 (le_bytes 2 (unat (sc_code c))) out;
            out = blit 7 (ipv4_list (sc_peer_ip c)) out;
            out = blit 11 (le_bytes 2 (unat (sc_peer_port c))) out;
            out = blit 13 (ipv4_list (sc_media_ip c)) out;
            out = blit 17 (le_bytes 2 (unat (sc_media_port c))) out
        in (Some SIP_CMD_LEN, out))"

definition parse_sip_command :: "bytes \<Rightarrow> sip_command option" where
  "parse_sip_command buf =
     (if length buf < SIP_CMD_LEN then None
      else Some \<lparr> sc_op = buf ! 0, sc_cid = of_nat (le_val [buf ! 1, buf ! 2, buf ! 3, buf ! 4]),
                  sc_code = of_nat (le_val [buf ! 5, buf ! 6]), sc_peer_ip = (buf ! 7, buf ! 8, buf ! 9, buf ! 10),
                  sc_peer_port = of_nat (le_val [buf ! 11, buf ! 12]), sc_media_ip = (buf ! 13, buf ! 14, buf ! 15, buf ! 16),
                  sc_media_port = of_nat (le_val [buf ! 17, buf ! 18]) \<rparr>)"

record sip_event_view =
  sv_cid :: u32
  sv_event :: byte
  sv_code :: u16
  sv_media_ip :: octets4
  sv_media_port :: u16
  sv_payload_type :: byte
  sv_detail_at :: nat
  sv_detail_len :: nat

definition write_sip_event :: "u32 \<Rightarrow> byte \<Rightarrow> u16 \<Rightarrow> octets4 \<Rightarrow> u16 \<Rightarrow> byte \<Rightarrow> bytes \<Rightarrow> nat writer" where
  "write_sip_event cid ev code media_ip media_port payload_type detail out =
     (let tot = SIP_EVENT_HDR + length detail
      in if length out < tot \<or> 65535 < length detail then (None, out)
         else
           let out = out[0 := SIP_OP_EVENT];
               out = blit 1 (le_bytes 4 (unat cid)) out;
               out = out[5 := ev];
               out = blit 6 (le_bytes 2 (unat code)) out;
               out = blit 8 (ipv4_list media_ip) out;
               out = blit 12 (le_bytes 2 (unat media_port)) out;
               out = out[14 := payload_type];
               out = blit 15 (le_bytes 2 (unat (of_nat (length detail) :: u16))) out;
               out = blit SIP_EVENT_HDR detail out
           in (Some tot, out))"

definition parse_sip_event :: "bytes \<Rightarrow> sip_event_view option" where
  "parse_sip_event buf =
     (if length buf < SIP_EVENT_HDR \<or> buf ! 0 \<noteq> SIP_OP_EVENT then None
      else
        let detail_len = unat (of_nat (le_val [buf ! 15, buf ! 16]) :: u16)
        in if length buf < SIP_EVENT_HDR + detail_len then None
           else Some \<lparr> sv_cid = of_nat (le_val [buf ! 1, buf ! 2, buf ! 3, buf ! 4]), sv_event = buf ! 5,
                       sv_code = of_nat (le_val [buf ! 6, buf ! 7]), sv_media_ip = (buf ! 8, buf ! 9, buf ! 10, buf ! 11),
                       sv_media_port = of_nat (le_val [buf ! 12, buf ! 13]), sv_payload_type = buf ! 14,
                       sv_detail_at = SIP_EVENT_HDR, sv_detail_len = detail_len \<rparr>)"

definition sip_event_is_terminal :: "byte \<Rightarrow> bool" where
  "sip_event_is_terminal ev \<longleftrightarrow>
     ev \<in> {SIP_EV_REJECTED, SIP_EV_TIMEOUT, SIP_EV_FAILED, SIP_EV_REMOTE_HANGUP, SIP_EV_LOCAL_CLOSED, SIP_EV_DECLINED}"

lemma le_bytes_len2: "le_bytes 2 v = [of_nat v, of_nat (v div 256)]"
  by (simp add: le_bytes_def numeral_2_eq_2)

lemma le_bytes_len4: "le_bytes 4 v = [of_nat v, of_nat (v div 256), of_nat (v div 65536), of_nat (v div 16777216)]"
proof -
  have e: "be_bytes 4 v = be_bytes (Suc (Suc (Suc (Suc 0)))) v" by (rule arg_cong2 [where f = be_bytes]) simp_all
  show ?thesis unfolding le_bytes_def e by simp
qed

lemma le_word_back:
  "(of_nat (le_val [ucast a, word_of_nat (unat a div 256)]) :: u16) = a"
  "(of_nat (le_val [ucast b, word_of_nat (unat b div 256), word_of_nat (unat b div 65536), word_of_nat (unat b div 16777216)]) :: u32) = b"
  using from_to_le_bytes(1) [of a] from_to_le_bytes(2) [of b] by (simp_all add: le_bytes_len2 le_bytes_len4)

lemma sip_command_roundtrip:
  assumes "SIP_CMD_LEN \<le> length out"
  shows "\<exists>out'. write_sip_command c out = (Some SIP_CMD_LEN, out') \<and> parse_sip_command (take SIP_CMD_LEN out') = Some c"
proof -
  obtain p1 p2 p3 p4 m1 m2 m3 m4 where ips: "sc_peer_ip c = (p1, p2, p3, p4)" "sc_media_ip c = (m1, m2, m3, m4)"
    by (cases "sc_peer_ip c", cases "sc_media_ip c")
  obtain x0 x1 x2 x3 x4 x5 x6 x7 x8 x9 y0 y1 y2 y3 y4 y5 y6 y7 y8 r where
    out: "out = x0 # x1 # x2 # x3 # x4 # x5 # x6 # x7 # x8 # x9 # y0 # y1 # y2 # y3 # y4 # y5 # y6 # y7 # y8 # r"
    using assms by (auto simp: numeral_eq_Suc Suc_le_length_iff)
  have g: "\<not> length out < SIP_CMD_LEN" using assms by simp
  have w: "write_sip_command c out =
     (Some SIP_CMD_LEN, sc_op c # le_bytes 4 (unat (sc_cid c)) @ le_bytes 2 (unat (sc_code c)) @ [p1, p2, p3, p4] @
      le_bytes 2 (unat (sc_peer_port c)) @ [m1, m2, m3, m4] @ le_bytes 2 (unat (sc_media_port c)) @ r)"
    unfolding write_sip_command_def Let_def if_not_P [OF g] ips by (simp add: out ipv4_list_def blit_def le_bytes_len2 le_bytes_len4)
  show ?thesis unfolding w using ips by (cases c) (simp add: parse_sip_command_def le_bytes_len2 le_bytes_len4 le_word_back)
qed

lemma sip_event_roundtrip:
  assumes "SIP_EVENT_HDR + length detail \<le> length out" and "length detail \<le> 65535"
  shows "\<exists>out'. write_sip_event cid ev code ip port pt detail out = (Some (SIP_EVENT_HDR + length detail), out') \<and>
    parse_sip_event (take (SIP_EVENT_HDR + length detail) out') =
      Some \<lparr> sv_cid = cid, sv_event = ev, sv_code = code, sv_media_ip = ip, sv_media_port = port, sv_payload_type = pt,
             sv_detail_at = SIP_EVENT_HDR, sv_detail_len = length detail \<rparr> \<and>
    bslice SIP_EVENT_HDR (SIP_EVENT_HDR + length detail) out' = detail"
proof -
  obtain m1 m2 m3 m4 where ips: "ip = (m1, m2, m3, m4)" by (cases ip)
  have "17 \<le> length out" using assms by simp
  then obtain x0 x1 x2 x3 x4 x5 x6 x7 x8 x9 y0 y1 y2 y3 y4 y5 y6 r where
    out: "out = x0 # x1 # x2 # x3 # x4 # x5 # x6 # x7 # x8 # x9 # y0 # y1 # y2 # y3 # y4 # y5 # y6 # r"
    by (auto simp: numeral_eq_Suc Suc_le_length_iff)
  have n: "unat (of_nat (length detail) :: u16) = length detail" using assms(2) by (simp add: unat_of_nat)
  have l: "unat (of_nat (le_val [of_nat (length detail), of_nat (length detail div 256)]) :: u16) = length detail"
    using le_val_le_bytes_small [of "length detail" 2] assms(2) by (simp add: le_bytes_len2 unat_of_nat)
  have g: "\<not> (length out < SIP_EVENT_HDR + length detail \<or> 65535 < length detail)" using assms by simp
  have d: "drop (17 + length detail) xs = drop (length detail) (drop 17 xs)" for xs :: bytes by (simp add: add.commute)
  have w: "write_sip_event cid ev code ip port pt detail out =
     (Some (SIP_EVENT_HDR + length detail), SIP_OP_EVENT # le_bytes 4 (unat cid) @ ev # le_bytes 2 (unat code) @ [m1, m2, m3, m4] @
      le_bytes 2 (unat port) @ pt # le_bytes 2 (length detail) @ detail @ drop (length detail) r)"
    unfolding write_sip_event_def Let_def if_not_P [OF g] n ips
    by (simp add: out ipv4_list_def blit_def le_bytes_len2 le_bytes_len4 d)
  show ?thesis unfolding w using l ips
    by (simp add: parse_sip_event_def bslice_def le_bytes_len2 le_bytes_len4 le_word_back)
qed

text \<open>An octet is added up in sixteen bits: one above 65535 wraps and is accepted.\<close>

lemma parse_ip4_wraps: "parse_ip4 (ascii ''65537.0.0.1'') = parse_ip4 (ascii ''1.0.0.1'')" "parse_ip4 (ascii ''256.0.0.1'') = 0"
  by (simp_all add: parse_ip4_def ascii_def is_ascii_digit_def)

end
