(* ===== verification/Sip_Dialog.thy ===== *)
theory Sip_Dialog
  imports Wave_Prelude
begin

text \<open>
  \<open>modules/common/sip_dialog.rs\<close>: the transaction machine of a two-party call. One event in, the
  next state and the effects out (at most one message, one media command). The clock, the sockets
  and the message bytes are the caller's; a run of the machine here is a list of the calls the
  \<open>sip\<close> module makes on it, in any order.

  What is shown: the retransmission count never passes its limit and a transaction nobody answers
  sends exactly the retransmissions it has left and then returns to \<open>Ready\<close>; the media commands of a
  dialogue alternate Start, Stop as long as no answered call is given up before its ACK. Giving up
  there is the one path that leaves media running with the dialogue idle
  (\<open>sip_wait_ack_give_up_leaves_media\<close>).
\<close>

section \<open>The machine\<close>

abbreviation (input) SIP_MAX_RETRANSMIT :: byte where "SIP_MAX_RETRANSMIT \<equiv> 7"

datatype sip_state = Ready | Inviting | WaitAck | Active | ByeSent

datatype sip_event =
    LocalInvite | LocalBye
  | RxInvite bool
  | RxAck | RxBye
  | RxResponse u16
  | Timeout

datatype sip_send = SendInvite | SendOk | SendAck | SendBye | SendByeOk | Retransmit

datatype media_cmd = MediaNone | MediaStart | MediaStop

record sip_out =
  so_send :: "sip_send option"
  so_media :: media_cmd
  so_reset_timer :: bool

definition sip_out_NONE :: sip_out where
  "sip_out_NONE = \<lparr> so_send = None, so_media = MediaNone, so_reset_timer = False \<rparr>"

definition sip_out_send :: "sip_send \<Rightarrow> sip_out" where
  "sip_out_send msg = \<lparr> so_send = Some msg, so_media = MediaNone, so_reset_timer = True \<rparr>"

record sip_fsm =
  sf_state :: sip_state
  sf_retransmit_count :: byte

definition sip_new :: sip_fsm where
  "sip_new = \<lparr> sf_state = Ready, sf_retransmit_count = 0 \<rparr>"

definition sip_on_timeout :: "sip_fsm \<Rightarrow> sip_out \<times> sip_fsm" where
  "sip_on_timeout f =
     (if SIP_MAX_RETRANSMIT \<le> sf_retransmit_count f
      then (sip_out_NONE, f\<lparr> sf_state := Ready \<rparr>)
      else
        (\<lparr> so_send = Some Retransmit, so_media = MediaNone, so_reset_timer = True \<rparr>,
         f\<lparr> sf_retransmit_count := sf_retransmit_count f + 1 \<rparr>))"

definition sip_on_event :: "sip_fsm \<Rightarrow> sip_event \<Rightarrow> sip_out \<times> sip_fsm" where
  "sip_on_event f ev =
     (case (sf_state f, ev) of
        (Ready, LocalInvite) \<Rightarrow>
          (sip_out_send SendInvite, f\<lparr> sf_retransmit_count := 0, sf_state := Inviting \<rparr>)
      | (Ready, RxInvite True) \<Rightarrow>
          (\<lparr> so_send = Some SendOk, so_media = MediaStart, so_reset_timer = True \<rparr>,
           f\<lparr> sf_retransmit_count := 0, sf_state := WaitAck \<rparr>)
      | (Ready, RxInvite False) \<Rightarrow> (sip_out_NONE, f)
      | (Inviting, RxResponse code) \<Rightarrow>
          if 100 \<le> code \<and> code < 200 then
            (\<lparr> so_send = None, so_media = MediaNone, so_reset_timer = True \<rparr>,
             f\<lparr> sf_retransmit_count := 0 \<rparr>)
          else if 200 \<le> code \<and> code < 300 then
            (\<lparr> so_send = Some SendAck, so_media = MediaStart, so_reset_timer = False \<rparr>,
             f\<lparr> sf_state := Active \<rparr>)
          else if 300 \<le> code then
            (\<lparr> so_send = Some SendAck, so_media = MediaNone, so_reset_timer = False \<rparr>,
             f\<lparr> sf_state := Ready \<rparr>)
          else (sip_out_NONE, f)
      | (Inviting, Timeout) \<Rightarrow> sip_on_timeout f
      | (WaitAck, RxAck) \<Rightarrow> (sip_out_NONE, f\<lparr> sf_state := Active \<rparr>)
      | (WaitAck, RxInvite _) \<Rightarrow>
          (\<lparr> so_send = Some Retransmit, so_media = MediaNone, so_reset_timer = False \<rparr>, f)
      | (WaitAck, Timeout) \<Rightarrow> sip_on_timeout f
      | (Active, LocalBye) \<Rightarrow>
          (\<lparr> so_send = Some SendBye, so_media = MediaStop, so_reset_timer = True \<rparr>,
           f\<lparr> sf_retransmit_count := 0, sf_state := ByeSent \<rparr>)
      | (Active, RxBye) \<Rightarrow>
          (\<lparr> so_send = Some SendByeOk, so_media = MediaStop, so_reset_timer = False \<rparr>,
           f\<lparr> sf_state := Ready \<rparr>)
      | (ByeSent, RxResponse code) \<Rightarrow>
          if 200 \<le> code then (sip_out_NONE, f\<lparr> sf_state := Ready \<rparr>) else (sip_out_NONE, f)
      | (ByeSent, Timeout) \<Rightarrow> sip_on_timeout f
      | _ \<Rightarrow> (sip_out_NONE, f))"

definition sip_on_invite_ok_unusable_sdp :: "sip_fsm \<Rightarrow> sip_out \<times> sip_fsm" where
  "sip_on_invite_ok_unusable_sdp f =
     (if sf_state f = Inviting
      then (\<lparr> so_send = Some SendAck, so_media = MediaNone, so_reset_timer = False \<rparr>,
            f\<lparr> sf_state := Ready \<rparr>)
      else (sip_out_NONE, f))"

text \<open>Everything a caller can do to the machine.\<close>

datatype sip_op = OnEvent sip_event | OnUnusableSdp

definition sip_step :: "sip_fsm \<Rightarrow> sip_op \<Rightarrow> sip_out \<times> sip_fsm" where
  "sip_step f p =
     (case p of OnEvent ev \<Rightarrow> sip_on_event f ev | OnUnusableSdp \<Rightarrow> sip_on_invite_ok_unusable_sdp f)"

lemmas sip_defs = sip_on_event_def sip_on_timeout_def sip_on_invite_ok_unusable_sdp_def
  sip_out_NONE_def sip_out_send_def
lemmas sip_splits = sip_state.splits sip_event.splits bool.splits if_splits

section \<open>Retransmissions\<close>

definition sip_inv :: "sip_fsm \<Rightarrow> bool" where
  "sip_inv f \<longleftrightarrow> unat (sf_retransmit_count f) \<le> 7"

lemma sip_count_bump: "(b :: byte) < 7 \<Longrightarrow> unat (b + 1) = unat b + 1"
  by (simp add: unat_word_ariths word_less_nat_alt)

lemma sip_on_timeout_inv: "sip_inv f \<Longrightarrow> sip_inv (snd (sip_on_timeout f))"
  by (auto simp: sip_inv_def sip_on_timeout_def sip_count_bump not_le word_less_nat_alt)

lemma sip_step_inv: "sip_inv f \<Longrightarrow> sip_inv (snd (sip_step f p))"
  using sip_on_timeout_inv [of f]
  by (cases p; cases "sf_state f")
     (auto simp: sip_step_def sip_on_event_def sip_on_invite_ok_unusable_sdp_def sip_inv_def
           split: sip_event.splits bool.splits)

interpretation sipm: machine_inv sip_step sip_inv
  by unfold_locales (rule sip_step_inv)

lemma sip_new_inv: "sip_inv sip_new"
  by (simp add: sip_inv_def sip_new_def)

definition sip_in_transaction :: "sip_fsm \<Rightarrow> bool" where
  "sip_in_transaction f \<longleftrightarrow> sf_state f \<in> {Inviting, WaitAck, ByeSent}"

lemma sip_timeout_in_transaction:
  "sip_in_transaction f \<Longrightarrow> sip_step f (OnEvent Timeout) = sip_on_timeout f"
  by (auto simp: sip_in_transaction_def sip_step_def sip_on_event_def split: sip_state.splits)

lemma sip_timeouts:
  "sip_in_transaction f \<Longrightarrow> unat (sf_retransmit_count f) + n = 7 \<Longrightarrow>
   run sip_step f (replicate (Suc n) (OnEvent Timeout)) =
     (replicate n (sip_out_send Retransmit) @ [sip_out_NONE],
      \<lparr> sf_state = Ready, sf_retransmit_count = 7 \<rparr>)"
proof (induction n arbitrary: f)
  case 0
  then have "sf_retransmit_count f = 7" by (simp add: word_unat_eq_iff)
  with 0 show ?case
    by (simp add: sip_timeout_in_transaction sip_on_timeout_def Let_def)
next
  case (Suc n)
  then have lt: "sf_retransmit_count f < 7" by (simp add: word_less_nat_alt)
  let ?g = "f\<lparr> sf_retransmit_count := sf_retransmit_count f + 1 \<rparr>"
  have "sip_in_transaction ?g" using Suc.prems(1) by (simp add: sip_in_transaction_def)
  moreover have "unat (sf_retransmit_count ?g) + n = 7" using Suc.prems(2) by (simp add: sip_count_bump [OF lt])
  ultimately have IH: "run sip_step ?g (replicate (Suc n) (OnEvent Timeout)) =
     (replicate n (sip_out_send Retransmit) @ [sip_out_NONE], \<lparr> sf_state = Ready, sf_retransmit_count = 7 \<rparr>)"
    by (rule Suc.IH)
  have st: "sip_step f (OnEvent Timeout) = (sip_out_send Retransmit, ?g)"
    using Suc.prems(1) lt by (simp add: sip_timeout_in_transaction sip_on_timeout_def sip_out_send_def not_le)
  show ?case
    unfolding replicate_Suc [of "Suc n"] run.simps st using IH by (simp add: Let_def)
qed

text \<open>C9. A transaction nobody answers ends, whatever happened before it: from every state the
  machine can reach, the retransmit timer makes it resend exactly the attempts it has left (at most
  seven), then send nothing and return to \<open>Ready\<close>.\<close>

theorem sip_unanswered_transaction_ends:
  assumes "f = snd (run sip_step sip_new ps)" and "sf_state f \<in> {Inviting, WaitAck, ByeSent}"
  shows "unat (sf_retransmit_count f) \<le> 7 \<and>
    run sip_step f (replicate (8 - unat (sf_retransmit_count f)) (OnEvent Timeout)) =
      (replicate (7 - unat (sf_retransmit_count f)) (sip_out_send Retransmit) @ [sip_out_NONE],
       \<lparr> sf_state = Ready, sf_retransmit_count = 7 \<rparr>)"
proof -
  have le: "unat (sf_retransmit_count f) \<le> 7"
    using sipm.run_inv [OF sip_new_inv] assms(1) by (simp add: sip_inv_def)
  then have "8 - unat (sf_retransmit_count f) = Suc (7 - unat (sf_retransmit_count f))" by simp
  moreover have "sip_in_transaction f" using assms(2) by (simp add: sip_in_transaction_def)
  ultimately show ?thesis using le sip_timeouts [of f "7 - unat (sf_retransmit_count f)"] by simp
qed

theorem sip_unanswered_transaction_ends_witness:
  "run sip_step \<lparr> sf_state = Inviting, sf_retransmit_count = 1 \<rparr> (replicate 7 (OnEvent Timeout)) =
     (replicate 6 (sip_out_send Retransmit) @ [sip_out_NONE], \<lparr> sf_state = Ready, sf_retransmit_count = 7 \<rparr>)"
proof -
  have "snd (run sip_step sip_new [OnEvent LocalInvite, OnEvent Timeout]) =
      \<lparr> sf_state = Inviting, sf_retransmit_count = 1 \<rparr>"
    by (simp add: sip_step_def sip_defs sip_new_def)
  then show ?thesis
    using sip_unanswered_transaction_ends
        [of "\<lparr> sf_state = Inviting, sf_retransmit_count = 1 \<rparr>" "[OnEvent LocalInvite, OnEvent Timeout]"]
    by (simp only: sip_fsm.simps) simp
qed

section \<open>Media\<close>

text \<open>Media runs after the last Start that no Stop followed; commands alternate when none repeats
  the one before it.\<close>

fun media_after :: "bool \<Rightarrow> media_cmd list \<Rightarrow> bool" where
  "media_after on [] = on"
| "media_after on (MediaNone # ms) = media_after on ms"
| "media_after on (MediaStart # ms) = media_after True ms"
| "media_after on (MediaStop # ms) = media_after False ms"

fun media_alternates :: "bool \<Rightarrow> media_cmd list \<Rightarrow> bool" where
  "media_alternates on [] = True"
| "media_alternates on (MediaNone # ms) = media_alternates on ms"
| "media_alternates on (MediaStart # ms) = (\<not> on \<and> media_alternates True ms)"
| "media_alternates on (MediaStop # ms) = (on \<and> media_alternates False ms)"

definition sip_in_call :: "sip_fsm \<Rightarrow> bool" where
  "sip_in_call f \<longleftrightarrow> sf_state f \<in> {WaitAck, Active}"

text \<open>No step of the run gives an answered call up before its ACK arrives.\<close>

fun sip_never_gives_up_answer :: "sip_fsm \<Rightarrow> sip_op list \<Rightarrow> bool" where
  "sip_never_gives_up_answer f [] = True"
| "sip_never_gives_up_answer f (p # ps) =
     (\<not> (sf_state f = WaitAck \<and> SIP_MAX_RETRANSMIT \<le> sf_retransmit_count f \<and> p = OnEvent Timeout) \<and>
      sip_never_gives_up_answer (snd (sip_step f p)) ps)"

lemma sip_media_cases:
  "so_media (fst (sip_step f p)) = MediaStart \<Longrightarrow> \<not> sip_in_call f \<and> sip_in_call (snd (sip_step f p))"
  "so_media (fst (sip_step f p)) = MediaStop \<Longrightarrow> sip_in_call f \<and> \<not> sip_in_call (snd (sip_step f p))"
  "so_media (fst (sip_step f p)) = MediaNone \<Longrightarrow> sip_in_call (snd (sip_step f p)) \<Longrightarrow> sip_in_call f"
  by (cases p; cases "sf_state f";
      auto simp: sip_step_def sip_defs sip_in_call_def split: sip_event.splits bool.splits if_splits)+

lemma sip_media_kept:
  assumes "so_media (fst (sip_step f p)) = MediaNone" and "sip_in_call f"
    and "\<not> (sf_state f = WaitAck \<and> SIP_MAX_RETRANSMIT \<le> sf_retransmit_count f \<and> p = OnEvent Timeout)"
  shows "sip_in_call (snd (sip_step f p))"
  using assms
  by (cases p; cases "sf_state f";
      auto simp: sip_step_def sip_defs sip_in_call_def split: sip_event.splits bool.splits if_splits)

lemma sip_media_run_on:
  "(sip_in_call f \<longrightarrow> on) \<Longrightarrow>
   sip_in_call (snd (run sip_step f ps)) \<Longrightarrow> media_after on (map so_media (fst (run sip_step f ps)))"
proof (induction ps arbitrary: f on)
  case Nil
  then show ?case by simp
next
  case (Cons p ps)
  let ?o = "fst (sip_step f p)" and ?g = "snd (sip_step f p)"
  show ?case
    using Cons sip_media_cases [of f p]
    by (cases "so_media ?o") (simp_all add: Let_def)
qed

lemma sip_media_run_alternates:
  "sip_never_gives_up_answer f ps \<Longrightarrow>
   media_alternates (sip_in_call f) (map so_media (fst (run sip_step f ps))) \<and>
   media_after (sip_in_call f) (map so_media (fst (run sip_step f ps))) = sip_in_call (snd (run sip_step f ps))"
proof (induction ps arbitrary: f)
  case Nil
  then show ?case by simp
next
  case (Cons p ps)
  let ?o = "fst (sip_step f p)" and ?g = "snd (sip_step f p)"
  have IH: "media_alternates (sip_in_call ?g) (map so_media (fst (run sip_step ?g ps))) \<and>
     media_after (sip_in_call ?g) (map so_media (fst (run sip_step ?g ps))) = sip_in_call (snd (run sip_step ?g ps))"
    using Cons by simp
  show ?case
  proof (cases "so_media ?o")
    case MediaNone
    then have "sip_in_call ?g = sip_in_call f"
      using sip_media_cases(3) [OF MediaNone] sip_media_kept [OF MediaNone] Cons.prems by auto
    with IH MediaNone show ?thesis by (simp add: Let_def)
  next
    case MediaStart
    with IH sip_media_cases(1) [OF MediaStart] show ?thesis by (simp add: Let_def)
  next
    case MediaStop
    with IH sip_media_cases(2) [OF MediaStop] show ?thesis by (simp add: Let_def)
  qed
qed

text \<open>C19. Media follows the call. Whatever sequence of calls the machine receives, media is running
  whenever a call is answered or active; and unless an answered call is given up for want of its
  ACK, the media commands alternate Start, Stop, and media runs only while a call is answered or
  active.\<close>

theorem sip_media_follows_call:
  defines "tr ps \<equiv> map so_media (fst (run sip_step sip_new ps))"
    and "st ps \<equiv> sf_state (snd (run sip_step sip_new ps))"
  shows "(st ps \<in> {WaitAck, Active} \<longrightarrow> media_after False (tr ps)) \<and>
    (sip_never_gives_up_answer sip_new ps \<longrightarrow>
       media_alternates False (tr ps) \<and> (media_after False (tr ps) \<longleftrightarrow> st ps \<in> {WaitAck, Active}))"
proof -
  have "sip_in_call sip_new = False" by (simp add: sip_in_call_def sip_new_def)
  then show ?thesis
    using sip_media_run_on [of sip_new False ps] sip_media_run_alternates [of sip_new ps]
    by (simp add: tr_def st_def sip_in_call_def)
qed

theorem sip_media_follows_call_witness:
  "map so_media (fst (run sip_step sip_new (map OnEvent [RxInvite True, RxAck, RxBye]))) =
     [MediaStart, MediaNone, MediaStop] \<and>
   media_alternates False (map so_media (fst (run sip_step sip_new (map OnEvent [RxInvite True, RxAck, RxBye]))))"
proof -
  let ?ps = "map OnEvent [RxInvite True, RxAck, RxBye]"
  have s1: "sip_step sip_new (OnEvent (RxInvite True)) =
      (\<lparr> so_send = Some SendOk, so_media = MediaStart, so_reset_timer = True \<rparr>,
       \<lparr> sf_state = WaitAck, sf_retransmit_count = 0 \<rparr>)"
    and s2: "sip_step \<lparr> sf_state = WaitAck, sf_retransmit_count = 0 \<rparr> (OnEvent RxAck) =
      (sip_out_NONE, \<lparr> sf_state = Active, sf_retransmit_count = 0 \<rparr>)"
    and s3: "sip_step \<lparr> sf_state = Active, sf_retransmit_count = 0 \<rparr> (OnEvent RxBye) =
      (\<lparr> so_send = Some SendByeOk, so_media = MediaStop, so_reset_timer = False \<rparr>,
       \<lparr> sf_state = Ready, sf_retransmit_count = 0 \<rparr>)"
    by (simp_all add: sip_step_def sip_defs sip_new_def)
  have tr: "map so_media (fst (run sip_step sip_new ?ps)) = [MediaStart, MediaNone, MediaStop]"
    by (simp add: Let_def s1 s2 s3 sip_out_NONE_def)
  have "sip_never_gives_up_answer sip_new ?ps"
    by (simp add: s1 s2 s3)
  then show ?thesis using sip_media_follows_call [of ?ps] tr by simp
qed

text \<open>The path the property above excludes: an answered call whose ACK never comes. The machine
  returns to \<open>Ready\<close> with no Stop, and the next answered call starts media a second time.\<close>

theorem sip_wait_ack_give_up_leaves_media:
  defines "r \<equiv> run sip_step sip_new (OnEvent (RxInvite True) # replicate 8 (OnEvent Timeout))"
  shows "sf_state (snd r) = Ready \<and> media_after False (map so_media (fst r))"
proof -
  let ?a = "\<lparr> sf_state = WaitAck, sf_retransmit_count = 0 \<rparr>"
  have "run sip_step ?a (replicate (Suc 7) (OnEvent Timeout)) =
      (replicate 7 (sip_out_send Retransmit) @ [sip_out_NONE], \<lparr> sf_state = Ready, sf_retransmit_count = 7 \<rparr>)"
    by (rule sip_timeouts) (simp_all add: sip_in_transaction_def)
  moreover have "sip_step sip_new (OnEvent (RxInvite True)) =
      (\<lparr> so_send = Some SendOk, so_media = MediaStart, so_reset_timer = True \<rparr>, ?a)"
    by (simp add: sip_step_def sip_defs sip_new_def)
  moreover have "media_after on (map so_media (replicate n (sip_out_send Retransmit) @ [sip_out_NONE])) = on" for on n
    by (induction n) (simp_all add: sip_out_send_def sip_out_NONE_def)
  moreover have "(8 :: nat) = Suc 7" by simp
  ultimately show ?thesis
    unfolding r_def run.simps Let_def by (simp only: fst_conv snd_conv sip_fsm.simps list.map sip_out.simps media_after.simps)
qed

end
