(* ===== verification/Sip_Module.thy ===== *)
theory Sip_Module
  imports Sip_Message Sip_Dialog
begin

text \<open>
  \<open>modules/foundation/sip/mod.rs\<close>: the module that runs one dialogue of \<open>Sip_Dialog\<close> with the messages of \<open>Sip_Message\<close>.
  The state is \<open>SipModState\<close>; an array with its length is the list of the bytes in use (the transmit buffer apart, which is
  kept whole because it is reused), a 0/1 flag is a \<^typ>\<open>bool\<close> and a channel handle is whether it is wired. The
  diagnostic counters and log lines are left out. The datagram contract is not part of this repository: its frames arrive
  parsed, and a write is recorded with its fields in \<open>sm_log\<close>, together with whether the channel took it, which the
  environment decides from everything written before. The clock is read once per step.

  What is shown: the buffers hold what is staged in them in every reachable state, so a message staged is always the one meant;
  two modules that exchange the messages of a call end up active with each other's media endpoint.
\<close>

section \<open>State and environment\<close>

abbreviation (input) NET_BUF_SIZE :: nat where "NET_BUF_SIZE \<equiv> 600"
abbreviation (input) SIP_TX_BUF_SIZE :: nat where "SIP_TX_BUF_SIZE \<equiv> 512"
abbreviation (input) SIP_RX_BUF_SIZE :: nat where "SIP_RX_BUF_SIZE \<equiv> 512"
abbreviation (input) CALL_ID_SIZE :: nat where "CALL_ID_SIZE \<equiv> 16"
abbreviation (input) CTRL_SET_ENDPOINT :: byte where "CTRL_SET_ENDPOINT \<equiv> 1"
abbreviation (input) CTRL_START :: byte where "CTRL_START \<equiv> 2"
abbreviation (input) CTRL_STOP :: byte where "CTRL_STOP \<equiv> 3"
abbreviation (input) CTRL_QUEUE :: nat where "CTRL_QUEUE \<equiv> 4"
abbreviation (input) T1_MS :: u64 where "T1_MS \<equiv> 500"

datatype sip_write = NetBind u16 | NetSend byte u32 u16 bytes | CtrlMsg bytes | EventMsg bytes

datatype sip_net = NetBound byte u16 | NetRxFrom byte bytes | NetOther

text \<open>The bytes the datagram contract adds to a message, and what a channel accepts.\<close>

record sip_env =
  en_overhead :: nat
  en_accepts :: "sip_write \<Rightarrow> (sip_write \<times> bool) list \<Rightarrow> bool"

record sip_mod =
  sm_net_in :: bool
  sm_net_out :: bool
  sm_rtp_ctrl_out :: bool
  sm_call_ctrl_in :: bool
  sm_command_in :: bool
  sm_event_out :: bool
  sm_ep_id :: byte
  sm_bound :: bool
  sm_local_ip :: u32
  sm_peer_ip :: u32
  sm_local_sip_port :: u16
  sm_peer_sip_port :: u16
  sm_rtp_port :: u16
  sm_auto_answer :: bool
  sm_active :: bool
  sm_peer_rtp_ip :: u32
  sm_peer_rtp_port :: u16
  sm_cid :: u32
  sm_cid_counter :: u32
  sm_offer_pending :: bool
  sm_event_owed :: bool
  sm_event_buf :: bytes
  sm_cseq :: u32
  sm_call_id_counter :: u16
  sm_from_tag :: u16
  sm_to_tag :: u16
  sm_branch :: u16
  sm_call_id :: bytes
  sm_fsm :: sip_fsm
  sm_last_retransmit_ms :: u64
  sm_ctrl_queue :: bytes
  sm_tx_buf :: bytes
  sm_tx_len :: nat
  sm_tx_pending :: bool
  sm_log :: "(sip_write \<times> bool) list"

definition sip_mod_init :: sip_mod where
  "sip_mod_init = \<lparr> sm_net_in = False, sm_net_out = False, sm_rtp_ctrl_out = False, sm_call_ctrl_in = False, sm_command_in = False,
     sm_event_out = False, sm_ep_id = 0xFF, sm_bound = False, sm_local_ip = 0, sm_peer_ip = 0, sm_local_sip_port = 5060,
     sm_peer_sip_port = 5060, sm_rtp_port = 5004, sm_auto_answer = True, sm_active = False, sm_peer_rtp_ip = 0, sm_peer_rtp_port = 0,
     sm_cid = 0, sm_cid_counter = 0, sm_offer_pending = False, sm_event_owed = False, sm_event_buf = [], sm_cseq = 1,
     sm_call_id_counter = 0, sm_from_tag = 0, sm_to_tag = 0, sm_branch = 0, sm_call_id = [], sm_fsm = sip_new,
     sm_last_retransmit_ms = 0, sm_ctrl_queue = [], sm_tx_buf = replicate SIP_TX_BUF_SIZE 0, sm_tx_len = 0, sm_tx_pending = False,
     sm_log = [] \<rparr>"

definition chan_write :: "sip_env \<Rightarrow> sip_write \<Rightarrow> sip_mod \<Rightarrow> bool \<times> sip_mod" where
  "chan_write en w s = (let ok = en_accepts en w (sm_log s) in (ok, s\<lparr> sm_log := sm_log s @ [(w, ok)] \<rparr>))"

definition write_hex16 :: "u16 \<Rightarrow> bytes" where
  "write_hex16 v =
     (let HEX = ascii ''0123456789abcdef''
      in [HEX ! unat (drop_bit 12 v AND 0xF), HEX ! unat (drop_bit 8 v AND 0xF), HEX ! unat (drop_bit 4 v AND 0xF), HEX ! unat (v AND 0xF)])"

section \<open>Signalling\<close>

definition dialog_of :: "sip_mod \<Rightarrow> sip_dialog" where
  "dialog_of s = \<lparr> sd_local_ip = sm_local_ip s, sd_peer_ip = sm_peer_ip s, sd_local_port = sm_local_sip_port s,
     sd_peer_port = sm_peer_sip_port s, sd_rtp_port = sm_rtp_port s, sd_cseq = sm_cseq s, sd_from_tag = sm_from_tag s,
     sd_to_tag = sm_to_tag s, sd_branch = sm_branch s, sd_call_id = sm_call_id s \<rparr>"

definition stage :: "nat writer \<Rightarrow> sip_mod \<Rightarrow> sip_mod" where
  "stage w s = (case w (sm_tx_buf s) of (r, buf) \<Rightarrow> s\<lparr> sm_tx_buf := buf, sm_tx_len := (case r of Some n \<Rightarrow> n | None \<Rightarrow> sm_tx_len s) \<rparr>)"

definition sip_build :: "sip_send \<Rightarrow> sip_mod \<Rightarrow> sip_mod" where
  "sip_build msg s =
     (let d = dialog_of s in
      case msg of
        Retransmit \<Rightarrow> s
      | SendInvite \<Rightarrow> stage (build_invite d) s
      | SendOk \<Rightarrow> stage (build_invite_ok d) s
      | SendAck \<Rightarrow> stage (build_ack d) s
      | SendBye \<Rightarrow> stage (build_bye d) s
      | SendByeOk \<Rightarrow> stage (build_bye_ok d) s)"

definition build_refusal :: "u16 \<Rightarrow> sip_mod \<Rightarrow> sip_mod" where
  "build_refusal code s = stage (build_invite_status (dialog_of s) code) s"

definition sip_flush :: "sip_env \<Rightarrow> sip_mod \<Rightarrow> sip_mod" where
  "sip_flush en s =
     (if \<not> sm_tx_pending s \<or> sm_tx_len s = 0 \<or> \<not> sm_net_out s \<or> sm_ep_id s = 0xFF then s
      else if NET_BUF_SIZE < sm_tx_len s + en_overhead en then s
      else
        case chan_write en (NetSend (sm_ep_id s) (sm_peer_ip s) (sm_peer_sip_port s) (take (sm_tx_len s) (sm_tx_buf s))) s of
          (ok, s) \<Rightarrow> if ok then s\<lparr> sm_tx_pending := False \<rparr> else s)"

definition ipv4_of :: "u32 \<Rightarrow> octets4" where
  "ipv4_of ip = (let b = be_bytes 4 (unat ip) in (b ! 0, b ! 1, b ! 2, b ! 3))"

definition emit_event :: "byte \<Rightarrow> u16 \<Rightarrow> sip_mod \<Rightarrow> sip_mod" where
  "emit_event event code s =
     (if sm_event_owed s \<or> \<not> sm_event_out s then s
      else
        let payload = (if sm_peer_rtp_port s \<noteq> 0 then 0 else 0xFF) in
        case write_sip_event (sm_cid s) event code (ipv4_of (sm_peer_rtp_ip s)) (sm_peer_rtp_port s) payload [] (replicate (SIP_EVENT_HDR + 64) 0) of
          (Some tot, out) \<Rightarrow> s\<lparr> sm_event_buf := take tot out, sm_event_owed := True \<rparr>
        | (None, _) \<Rightarrow> s)"

definition flush_event :: "sip_env \<Rightarrow> sip_mod \<Rightarrow> sip_mod" where
  "flush_event en s =
     (if \<not> sm_event_owed s \<or> \<not> sm_event_out s then s
      else case chan_write en (EventMsg (sm_event_buf s)) s of (ok, s) \<Rightarrow> if ok then s\<lparr> sm_event_owed := False \<rparr> else s)"

section \<open>Media control\<close>

definition ctrl_message :: "byte \<Rightarrow> sip_mod \<Rightarrow> bytes" where
  "ctrl_message cmd s =
     (if cmd = CTRL_SET_ENDPOINT
      then [cmd, 0] @ le_bytes 2 (unat (sm_peer_rtp_port s)) @ le_bytes 4 (unat (sm_peer_rtp_ip s))
      else cmd # replicate 7 0)"

definition send_rtp_ctrl :: "sip_env \<Rightarrow> byte \<Rightarrow> sip_mod \<Rightarrow> bool \<times> sip_mod" where
  "send_rtp_ctrl en cmd s = (if \<not> sm_rtp_ctrl_out s then (True, s) else chan_write en (CtrlMsg (ctrl_message cmd s)) s)"

function flush_rtp_ctrl :: "sip_env \<Rightarrow> sip_mod \<Rightarrow> sip_mod" where
  "flush_rtp_ctrl en s =
     (case sm_ctrl_queue s of
        [] \<Rightarrow> s
      | cmd # rest \<Rightarrow>
          (case send_rtp_ctrl en cmd s of
             (False, s') \<Rightarrow> s'
           | (True, s') \<Rightarrow> flush_rtp_ctrl en (s'\<lparr> sm_ctrl_queue := rest \<rparr>)))"
  by pat_completeness auto
termination by (relation "measure (\<lambda>(en, s). length (sm_ctrl_queue s))") auto

declare flush_rtp_ctrl.simps [simp del]

definition queue_rtp_ctrl :: "sip_env \<Rightarrow> byte \<Rightarrow> sip_mod \<Rightarrow> sip_mod" where
  "queue_rtp_ctrl en cmd s =
     (if \<not> sm_rtp_ctrl_out s then s
      else flush_rtp_ctrl en (if length (sm_ctrl_queue s) < CTRL_QUEUE then s\<lparr> sm_ctrl_queue := sm_ctrl_queue s @ [cmd] \<rparr> else s))"

definition media_start :: "sip_env \<Rightarrow> sip_mod \<Rightarrow> sip_mod" where
  "media_start en s = queue_rtp_ctrl en CTRL_START (queue_rtp_ctrl en CTRL_SET_ENDPOINT s)"

definition media_stop :: "sip_env \<Rightarrow> sip_mod \<Rightarrow> sip_mod" where
  "media_stop en s = queue_rtp_ctrl en CTRL_STOP s"

section \<open>Steps\<close>

definition sip_apply :: "sip_env \<Rightarrow> u64 \<Rightarrow> sip_out \<Rightarrow> sip_mod \<Rightarrow> sip_mod" where
  "sip_apply en now step s =
     (let s = (case so_send step of None \<Rightarrow> s | Some msg \<Rightarrow> sip_flush en ((sip_build msg s)\<lparr> sm_tx_pending := True \<rparr>));
          s = (case so_media step of MediaStart \<Rightarrow> media_start en s | MediaStop \<Rightarrow> media_stop en s | MediaNone \<Rightarrow> s)
      in if so_reset_timer step then s\<lparr> sm_last_retransmit_ms := now \<rparr> else s)"

text \<open>The machine is given an event and its step is carried out.\<close>

definition sip_drive :: "sip_env \<Rightarrow> u64 \<Rightarrow> sip_event \<Rightarrow> sip_mod \<Rightarrow> sip_mod" where
  "sip_drive en now ev s = (case sip_on_event (sm_fsm s) ev of (step, f) \<Rightarrow> sip_apply en now step (s\<lparr> sm_fsm := f \<rparr>))"

definition application_driven :: "sip_mod \<Rightarrow> bool" where
  "application_driven s = sm_command_in s"

definition take_endpoint :: "sdp_endpoint \<Rightarrow> sip_mod \<Rightarrow> sip_mod" where
  "take_endpoint ep s =
     s\<lparr> sm_peer_rtp_ip := (case se_ip ep of Some ip \<Rightarrow> ip | None \<Rightarrow> sm_peer_ip s), sm_peer_rtp_port := se_port ep \<rparr>"

definition classify_invite :: "bytes \<Rightarrow> sip_mod \<Rightarrow> sip_event option \<times> sip_mod" where
  "classify_invite msg s =
     (case parse_sdp_endpoint msg of
        None \<Rightarrow> (None, s)
      | Some ep \<Rightarrow>
          let s = take_endpoint ep s;
              s = (case find_call_id msg of Some cid \<Rightarrow> s\<lparr> sm_call_id := take (min (length cid) CALL_ID_SIZE) cid \<rparr> | None \<Rightarrow> s);
              s = s\<lparr> sm_to_tag := parse_from_tag msg + 1, sm_branch := sm_branch s + 1 \<rparr>
          in if application_driven s then
               (None,
                if \<not> sm_offer_pending s \<and> sf_state (sm_fsm s) = Ready
                then emit_event SIP_EV_OFFERED 0
                       (s\<lparr> sm_cid_counter := sm_cid_counter s + 1, sm_cid := sm_cid_counter s + 1, sm_offer_pending := True \<rparr>)
                else s)
             else (Some (RxInvite (sm_auto_answer s)), s))"

definition classify_response :: "u16 \<Rightarrow> bytes \<Rightarrow> sip_mod \<Rightarrow> sip_event option \<times> sip_mod" where
  "classify_response code msg s =
     (let s = (if 200 \<le> code \<and> code < 300 \<and> sf_state (sm_fsm s) = Inviting
               then (case parse_sdp_endpoint msg of Some ep \<Rightarrow> take_endpoint ep s | None \<Rightarrow> s)\<lparr> sm_to_tag := parse_to_tag msg \<rparr>
               else s);
          s = (if sf_state (sm_fsm s) = Inviting
               then emit_event (if 100 \<le> code \<and> code < 200 then SIP_EV_PROVISIONAL
                                else if 200 \<le> code \<and> code < 300 then SIP_EV_ESTABLISHED else SIP_EV_REJECTED) code s
               else s)
      in (Some (RxResponse code), s))"

definition classify_and_extract :: "bytes \<Rightarrow> sip_mod \<Rightarrow> sip_event option \<times> sip_mod" where
  "classify_and_extract msg s =
     (if take 7 msg = ascii ''INVITE '' then classify_invite msg s
      else if take 4 msg = ascii ''ACK '' then
        (Some RxAck, if sf_state (sm_fsm s) = WaitAck then emit_event SIP_EV_ESTABLISHED 200 s else s)
      else if take 4 msg = ascii ''BYE '' then (Some RxBye, emit_event SIP_EV_REMOTE_HANGUP 0 s)
      else
        let code = parse_status_code msg in if 100 \<le> code then classify_response code msg s else (None, s))"

text \<open>The values a new call takes.\<close>

definition place_call :: "sip_mod \<Rightarrow> sip_mod" where
  "place_call s =
     s\<lparr> sm_call_id_counter := sm_call_id_counter s + 1, sm_call_id := write_hex16 ((sm_call_id_counter s + 1) XOR sm_from_tag s),
        sm_cseq := 1, sm_to_tag := 0, sm_branch := sm_branch s + 1 \<rparr>"

definition next_request :: "sip_mod \<Rightarrow> sip_mod" where
  "next_request s = s\<lparr> sm_cseq := sm_cseq s + 1, sm_branch := sm_branch s + 1 \<rparr>"

definition handle_command :: "sip_env \<Rightarrow> u64 \<Rightarrow> sip_command \<Rightarrow> sip_mod \<Rightarrow> sip_mod" where
  "handle_command en now cmd s =
     (if sc_op cmd = SIP_CMD_DIAL \<and> sf_state (sm_fsm s) = Ready \<and> \<not> sm_offer_pending s then
        let s = (if sc_peer_port cmd \<noteq> 0
                 then s\<lparr> sm_peer_ip := of_nat (be_val (ipv4_list (sc_peer_ip cmd))), sm_peer_sip_port := sc_peer_port cmd \<rparr> else s);
            s = (if sc_media_port cmd \<noteq> 0 then s\<lparr> sm_rtp_port := sc_media_port cmd \<rparr> else s)
        in sip_drive en now LocalInvite (place_call (s\<lparr> sm_cid := sc_cid cmd \<rparr>))
      else if sc_op cmd = SIP_CMD_ACCEPT \<and> sm_offer_pending s then
        let s = (if sc_media_port cmd \<noteq> 0 then s\<lparr> sm_rtp_port := sc_media_port cmd \<rparr> else s)
        in sip_drive en now (RxInvite True) (s\<lparr> sm_offer_pending := False \<rparr>)
      else if sc_op cmd = SIP_CMD_REJECT \<and> sm_offer_pending s then
        let code = (if sc_code cmd = 0 then 603 else sc_code cmd);
            s = sip_flush en ((build_refusal code (s\<lparr> sm_offer_pending := False \<rparr>))\<lparr> sm_tx_pending := True \<rparr>)
        in (emit_event SIP_EV_DECLINED code s)\<lparr> sm_cid := 0 \<rparr>
      else if sc_op cmd = SIP_CMD_HANGUP \<and> sf_state (sm_fsm s) = Active then
        sip_drive en now LocalBye (emit_event SIP_EV_LOCAL_CLOSED 0 (next_request s))
      else if sc_op cmd = SIP_CMD_CANCEL \<and> sf_state (sm_fsm s) = Inviting then
        (media_stop en ((emit_event SIP_EV_LOCAL_CLOSED 0 s)\<lparr> sm_fsm := sip_new \<rparr>))\<lparr> sm_cid := 0 \<rparr>
      else
        let s' = emit_event SIP_EV_FAILED 0 (s\<lparr> sm_cid := sc_cid cmd \<rparr>)
        in if sm_cid s \<noteq> 0 then s'\<lparr> sm_cid := sm_cid s \<rparr> else s')"

text \<open>The one-byte trigger: place a call, end one, or nothing.\<close>

definition sip_trigger :: "sip_env \<Rightarrow> u64 \<Rightarrow> sip_mod \<Rightarrow> sip_mod option" where
  "sip_trigger en now s =
     (case sf_state (sm_fsm s) of
        Ready \<Rightarrow> Some (sip_drive en now LocalInvite (place_call s))
      | Active \<Rightarrow> Some (sip_drive en now LocalBye (next_request s))
      | _ \<Rightarrow> None)"

definition sip_timer :: "sip_env \<Rightarrow> u64 \<Rightarrow> sip_mod \<Rightarrow> sip_mod" where
  "sip_timer en now s =
     (if sf_state (sm_fsm s) \<in> {Inviting, WaitAck, ByeSent} \<and> T1_MS \<le> now - sm_last_retransmit_ms s then
        case sip_on_event (sm_fsm s) Timeout of (step, f) \<Rightarrow>
          let before = sf_state (sm_fsm s); s = s\<lparr> sm_fsm := f \<rparr>
          in sip_apply en now step (if so_send step = None \<and> sf_state f \<noteq> before then emit_event SIP_EV_TIMEOUT 0 s else s)
      else s)"

definition sip_receive :: "sip_env \<Rightarrow> u64 \<Rightarrow> byte \<Rightarrow> bytes \<Rightarrow> sip_mod \<Rightarrow> sip_mod" where
  "sip_receive en now ep data s =
     (if ep = sm_ep_id s \<and> data \<noteq> [] then
        case classify_and_extract (take SIP_RX_BUF_SIZE data) s of
          (Some ev, s) \<Rightarrow> sip_drive en now ev s
        | (None, s) \<Rightarrow> s
      else s)"

record sip_input =
  si_now :: u64
  si_command :: "bytes option"
  si_trigger :: bool
  si_net :: "sip_net option"

definition known_command :: "sip_mod \<Rightarrow> sip_input \<Rightarrow> sip_command option" where
  "known_command s i =
     (if sm_command_in s \<and> \<not> sm_event_owed s then
        (case si_command i of
           None \<Rightarrow> None
         | Some b \<Rightarrow>
             (case parse_sip_command (take SIP_CMD_LEN (b @ replicate SIP_CMD_LEN 0)) of
                Some cmd \<Rightarrow> if sip_cmd_is_known (sc_op cmd) then Some cmd else None
              | None \<Rightarrow> None))
      else None)"

definition step_sip :: "sip_env \<Rightarrow> sip_input \<Rightarrow> sip_mod \<Rightarrow> sip_mod" where
  "step_sip en i s =
     (if \<not> sm_bound s then
        (if \<not> sm_net_out s then s
         else case chan_write en (NetBind (sm_local_sip_port s)) s of (ok, s) \<Rightarrow> if ok then s\<lparr> sm_bound := True \<rparr> else s)
      else if sm_ep_id s = 0xFF then
        (if \<not> sm_net_in s then s
         else case si_net i of
             Some (NetBound ep port) \<Rightarrow> if port = sm_local_sip_port s then s\<lparr> sm_ep_id := ep \<rparr> else s
           | _ \<Rightarrow> s)
      else
        case known_command s i of
          Some cmd \<Rightarrow> handle_command en (si_now i) cmd s
        | None \<Rightarrow>
            (case (if sm_call_ctrl_in s \<and> si_trigger i then sip_trigger en (si_now i) s else None) of
               Some s' \<Rightarrow> s'
             | None \<Rightarrow>
                 let s = sip_timer en (si_now i) s
                 in if \<not> sm_net_in s then s
                    else (case si_net i of Some (NetRxFrom ep data) \<Rightarrow> sip_receive en (si_now i) ep data s | _ \<Rightarrow> s)))"

definition sip_module_step :: "sip_env \<Rightarrow> sip_input \<Rightarrow> sip_mod \<Rightarrow> sip_mod" where
  "sip_module_step en i s =
     (if sm_active s then flush_event en (flush_rtp_ctrl en (sip_flush en (step_sip en i s))) else s)"

section \<open>Only whole messages are sent\<close>

definition sip_text :: "sip_send \<Rightarrow> sip_dialog \<Rightarrow> bytes" where
  "sip_text msg d =
     (case msg of
        SendInvite \<Rightarrow> sdp_message (invite_pieces d) (sd_local_ip d) (sd_rtp_port d)
      | SendOk \<Rightarrow> sdp_message (invite_ok_pieces d) (sd_local_ip d) (sd_rtp_port d)
      | SendAck \<Rightarrow> concat (request_pieces (ascii ''ACK'') d)
      | SendBye \<Rightarrow> concat (request_pieces (ascii ''BYE'') d)
      | SendByeOk \<Rightarrow> concat (bye_ok_pieces d)
      | Retransmit \<Rightarrow> [])"

definition whole_message :: "bytes \<Rightarrow> bool" where
  "whole_message b \<longleftrightarrow> (\<exists>d. length (sd_call_id d) \<le> CALL_ID_SIZE \<and>
     ((\<exists>msg. msg \<noteq> Retransmit \<and> b = sip_text msg d) \<or> (\<exists>code. b = concat (invite_status_pieces d code))))"

definition staged :: "sip_mod \<Rightarrow> bytes" where
  "staged s = take (sm_tx_len s) (sm_tx_buf s)"

definition write_ok :: "sip_write \<times> bool \<Rightarrow> bool" where
  "write_ok w =
     (case fst w of NetSend _ _ _ data \<Rightarrow> whole_message data | EventMsg b \<Rightarrow> length b = SIP_EVENT_HDR | CtrlMsg b \<Rightarrow> length b = 8
      | NetBind _ \<Rightarrow> True)"

definition sip_mod_inv :: "sip_mod \<Rightarrow> bool" where
  "sip_mod_inv s \<longleftrightarrow> length (sm_tx_buf s) = SIP_TX_BUF_SIZE \<and> sm_tx_len s \<le> SIP_TX_BUF_SIZE \<and>
     (sm_tx_len s \<noteq> 0 \<longrightarrow> whole_message (staged s)) \<and> length (sm_call_id s) \<le> CALL_ID_SIZE \<and> length (sm_ctrl_queue s) \<le> CTRL_QUEUE \<and>
     sip_inv (sm_fsm s) \<and> (sm_event_owed s \<longrightarrow> length (sm_event_buf s) = SIP_EVENT_HDR) \<and> list_all write_ok (sm_log s)"

lemmas inv_defs = sip_mod_inv_def staged_def write_ok_def chan_write_def Let_def

lemma dialog_of_call_id [simp]: "sd_call_id (dialog_of s) = sm_call_id s"
  by (simp add: dialog_of_def)

lemma sip_build_text:
  assumes "length (sm_tx_buf s) = SIP_TX_BUF_SIZE" and "length (sm_call_id s) \<le> CALL_ID_SIZE" and "msg \<noteq> Retransmit"
  shows "sip_build msg s = s\<lparr> sm_tx_buf := blit 0 (sip_text msg (dialog_of s)) (sm_tx_buf s), sm_tx_len := length (sip_text msg (dialog_of s)) \<rparr> \<and>
    length (sip_text msg (dialog_of s)) \<le> SIP_TX_BUF_SIZE"
proof -
  have fit: "length (sip_text msg (dialog_of s)) \<le> SIP_TX_BUF_SIZE"
    using message_lengths [of "dialog_of s"] assms(2) by (cases msg) (simp_all add: sip_text_def)
  let ?d = "dialog_of s"
  have sdp: "wbind (puts sip_put 0 xs) (put_sdp_body ip port) (sm_tx_buf s) = (Some (length (sdp_message xs ip port)), blit 0 (sdp_message xs ip port) (sm_tx_buf s))"
    if "length (sdp_message xs ip port) \<le> SIP_TX_BUF_SIZE" for xs ip port
    unfolding build_with_sdp using that assms(1) by simp
  have plain: "puts sip_put 0 xs (sm_tx_buf s) = (Some (length (concat xs)), blit 0 (concat xs) (sm_tx_buf s))"
    if "length (concat xs) \<le> SIP_TX_BUF_SIZE" for xs
    unfolding build_plain using that assms(1) by simp
  have st: "stage w s = s\<lparr> sm_tx_buf := blit 0 t (sm_tx_buf s), sm_tx_len := length t \<rparr>"
    if "w (sm_tx_buf s) = (Some (length t), blit 0 t (sm_tx_buf s))" for w t
    using that by (simp add: stage_def)
  have "sip_build msg s = s\<lparr> sm_tx_buf := blit 0 (sip_text msg ?d) (sm_tx_buf s), sm_tx_len := length (sip_text msg ?d) \<rparr>"
  proof (cases msg)
    case SendInvite
    with fit show ?thesis by (simp only: sip_build_def sip_text_def Let_def sip_send.case build_invite_def) (rule st, rule sdp)
  next
    case SendOk
    with fit show ?thesis by (simp only: sip_build_def sip_text_def Let_def sip_send.case build_invite_ok_def) (rule st, rule sdp)
  next
    case SendAck
    with fit show ?thesis by (simp only: sip_build_def sip_text_def Let_def sip_send.case build_ack_def) (rule st, rule plain)
  next
    case SendBye
    with fit show ?thesis by (simp only: sip_build_def sip_text_def Let_def sip_send.case build_bye_def) (rule st, rule plain)
  next
    case SendByeOk
    with fit show ?thesis by (simp only: sip_build_def sip_text_def Let_def sip_send.case build_bye_ok_def) (rule st, rule plain)
  qed (use assms(3) in simp)
  with fit show ?thesis by blast
qed

lemma take_blit_whole: "length t \<le> length b \<Longrightarrow> take (length t) (blit 0 t b) = t"
  by (simp add: blit_def)

text \<open>What is staged after a build is the message asked for, with nothing of an earlier one.\<close>

lemma staged_build: "sip_mod_inv s \<Longrightarrow> msg \<noteq> Retransmit \<Longrightarrow> staged (sip_build msg s) = sip_text msg (dialog_of s)"
  using sip_build_text [of s msg] by (auto simp: sip_mod_inv_def staged_def take_blit_whole)

lemma sip_build_inv: "sip_mod_inv s \<Longrightarrow> sip_mod_inv (sip_build msg s)"
proof (cases "msg = Retransmit")
  case True
  then show "sip_mod_inv s \<Longrightarrow> ?thesis" by (simp add: sip_build_def Let_def)
next
  case False
  assume i: "sip_mod_inv s"
  let ?t = "sip_text msg (dialog_of s)"
  have b: "sip_build msg s = s\<lparr> sm_tx_buf := blit 0 ?t (sm_tx_buf s), sm_tx_len := length ?t \<rparr>" "length ?t \<le> SIP_TX_BUF_SIZE"
    using sip_build_text [of s msg] i False by (simp_all add: sip_mod_inv_def)
  have "whole_message ?t" using i False dialog_of_call_id [of s] unfolding whole_message_def sip_mod_inv_def by metis
  then show ?thesis using i b by (simp add: sip_mod_inv_def staged_def take_blit_whole)
qed

lemma build_refusal_inv: "sip_mod_inv s \<Longrightarrow> sip_mod_inv (build_refusal code s)"
proof -
  assume i: "sip_mod_inv s"
  let ?t = "concat (invite_status_pieces (dialog_of s) code)"
  have l: "length ?t \<le> SIP_TX_BUF_SIZE" using message_lengths(6) [of "dialog_of s" code] i by (simp add: sip_mod_inv_def)
  have b: "build_refusal code s = s\<lparr> sm_tx_buf := blit 0 ?t (sm_tx_buf s), sm_tx_len := length ?t \<rparr>"
  proof -
    have "build_invite_status (dialog_of s) code (sm_tx_buf s) = (Some (length ?t), blit 0 ?t (sm_tx_buf s))"
      unfolding build_invite_status_def build_plain using i l by (simp add: sip_mod_inv_def)
    then show ?thesis by (simp add: build_refusal_def stage_def)
  qed
  have "whole_message ?t" using i dialog_of_call_id [of s] unfolding whole_message_def sip_mod_inv_def by metis
  then show ?thesis using i b l by (simp add: sip_mod_inv_def staged_def take_blit_whole)
qed

lemma sip_flush_inv: "sip_mod_inv s \<Longrightarrow> sip_mod_inv (sip_flush en s)"
  by (auto simp: sip_flush_def inv_defs)

lemma write_event_17: "\<exists>out. write_sip_event cid ev code ip port pt [] (replicate 81 0) = (Some 17, out) \<and> 17 \<le> length out"
proof -
  obtain out where o: "write_sip_event cid ev code ip port pt [] (replicate 81 0) = (Some 17, out)"
    using sip_event_roundtrip [of "[]" "replicate 81 0" cid ev code ip port pt] by auto
  have "length (snd (write_sip_event cid ev code ip port pt [] (replicate 81 0))) = 81"
    by (simp add: write_sip_event_def Let_def ipv4_list_def split: prod.split)
  with o show ?thesis by simp
qed

lemma emit_event_inv: "sip_mod_inv s \<Longrightarrow> sip_mod_inv (emit_event ev code s)"
proof -
  obtain out where "write_sip_event (sm_cid s) ev code (ipv4_of (sm_peer_rtp_ip s)) (sm_peer_rtp_port s)
      (if sm_peer_rtp_port s \<noteq> 0 then 0 else 0xFF) [] (replicate 81 0) = (Some 17, out)" "17 \<le> length out"
    using write_event_17 by blast
  then show "sip_mod_inv s \<Longrightarrow> ?thesis" by (simp add: emit_event_def inv_defs)
qed

lemma flush_event_inv: "sip_mod_inv s \<Longrightarrow> sip_mod_inv (flush_event en s)"
  by (auto simp: flush_event_def inv_defs)

lemma send_rtp_ctrl_inv: "sip_mod_inv s \<Longrightarrow> sip_mod_inv (snd (send_rtp_ctrl en cmd s)) \<and> sm_ctrl_queue (snd (send_rtp_ctrl en cmd s)) = sm_ctrl_queue s"
  by (auto simp: send_rtp_ctrl_def ctrl_message_def inv_defs)

lemma flush_rtp_ctrl_inv: "sip_mod_inv s \<Longrightarrow> sip_mod_inv (flush_rtp_ctrl en s)"
proof (induction en s rule: flush_rtp_ctrl.induct)
  case (1 en s)
  show ?case
  proof (cases "sm_ctrl_queue s")
    case Nil
    then show ?thesis using 1 by (simp add: flush_rtp_ctrl.simps)
  next
    case (Cons cmd rest)
    obtain ok s' where r: "send_rtp_ctrl en cmd s = (ok, s')" by (cases "send_rtp_ctrl en cmd s")
    then have s': "sip_mod_inv s'" "sm_ctrl_queue s' = cmd # rest" using send_rtp_ctrl_inv [OF 1(2), of en cmd] Cons by simp_all
    then have "sip_mod_inv (s'\<lparr> sm_ctrl_queue := rest \<rparr>)" by (simp add: sip_mod_inv_def staged_def)
    then show ?thesis using 1(1) Cons r s' by (subst flush_rtp_ctrl.simps) (cases ok; simp)
  qed
qed

lemma queue_rtp_ctrl_inv: "sip_mod_inv s \<Longrightarrow> sip_mod_inv (queue_rtp_ctrl en cmd s)"
proof -
  assume "sip_mod_inv s"
  then have "sip_mod_inv (if length (sm_ctrl_queue s) < CTRL_QUEUE then s\<lparr> sm_ctrl_queue := sm_ctrl_queue s @ [cmd] \<rparr> else s)"
    by (simp add: sip_mod_inv_def staged_def)
  then show ?thesis using \<open>sip_mod_inv s\<close> flush_rtp_ctrl_inv unfolding queue_rtp_ctrl_def by presburger
qed

lemma set_fields_inv:
  assumes "sip_mod_inv s"
  shows "sip_mod_inv (s\<lparr> sm_tx_pending := a \<rparr>)" "sip_mod_inv (s\<lparr> sm_last_retransmit_ms := t \<rparr>)" "sip_mod_inv (s\<lparr> sm_cid := c \<rparr>)"
    "sip_mod_inv (s\<lparr> sm_offer_pending := a \<rparr>)" "sip_mod_inv (s\<lparr> sm_rtp_port := p \<rparr>)" "sip_mod_inv (s\<lparr> sm_to_tag := p \<rparr>)"
    "sip_mod_inv (s\<lparr> sm_bound := a \<rparr>)" "sip_mod_inv (s\<lparr> sm_ep_id := e \<rparr>)" "sip_inv f \<Longrightarrow> sip_mod_inv (s\<lparr> sm_fsm := f \<rparr>)"
    "sip_mod_inv (s\<lparr> sm_peer_ip := c, sm_peer_sip_port := p \<rparr>)" "sip_mod_inv (next_request s)" "sip_mod_inv (place_call s)"
    "sip_mod_inv (take_endpoint ep s)" "sip_mod_inv (s\<lparr> sm_log := sm_log s @ [(NetBind q, a)] \<rparr>)"
  using assms by (simp_all add: sip_mod_inv_def staged_def write_ok_def next_request_def place_call_def write_hex16_def take_endpoint_def Let_def)

lemma sip_apply_inv: "sip_mod_inv s \<Longrightarrow> sip_mod_inv (sip_apply en now step s)"
proof -
  assume i: "sip_mod_inv s"
  have a: "sip_mod_inv (case so_send step of None \<Rightarrow> s | Some msg \<Rightarrow> sip_flush en ((sip_build msg s)\<lparr> sm_tx_pending := True \<rparr>))"
    using i by (auto intro!: sip_flush_inv set_fields_inv sip_build_inv split: option.split)
  then show ?thesis
    unfolding sip_apply_def Let_def media_start_def media_stop_def
    by (auto intro!: queue_rtp_ctrl_inv set_fields_inv split: media_cmd.split)
qed

lemma sip_drive_inv: "sip_mod_inv s \<Longrightarrow> sip_mod_inv (sip_drive en now ev s)"
proof -
  assume i: "sip_mod_inv s"
  then have "sip_inv (snd (sip_on_event (sm_fsm s) ev))"
    using sip_step_inv [of "sm_fsm s" "OnEvent ev"] by (simp add: sip_step_def sip_mod_inv_def)
  with i show ?thesis by (auto simp: sip_drive_def split: prod.split intro!: sip_apply_inv set_fields_inv)
qed

lemma classify_invite_inv: "sip_mod_inv s \<Longrightarrow> sip_mod_inv (snd (classify_invite msg s))"
proof -
  assume i: "sip_mod_inv s"
  have c: "sip_mod_inv (case find_call_id msg of Some cid \<Rightarrow> s\<lparr> sm_call_id := take (min (length cid) CALL_ID_SIZE) cid \<rparr> | None \<Rightarrow> s)"
    if "sip_mod_inv s" for s using that by (auto simp: sip_mod_inv_def staged_def split: option.split)
  have t: "sip_mod_inv (s\<lparr> sm_to_tag := a, sm_branch := b \<rparr>)" if "sip_mod_inv s" for s a b
    using that by (simp add: sip_mod_inv_def staged_def)
  have o: "sip_mod_inv (s\<lparr> sm_cid_counter := a, sm_cid := b, sm_offer_pending := c \<rparr>)" if "sip_mod_inv s" for s a b c
    using that by (simp add: sip_mod_inv_def staged_def)
  show ?thesis
  proof (cases "parse_sdp_endpoint msg")
    case None
    then show ?thesis using i by (simp add: classify_invite_def)
  next
    case (Some ep)
    define s3 where "s3 = (let s = take_endpoint ep s;
        s = (case find_call_id msg of Some cid \<Rightarrow> s\<lparr> sm_call_id := take (min (length cid) CALL_ID_SIZE) cid \<rparr> | None \<Rightarrow> s)
      in s\<lparr> sm_to_tag := parse_from_tag msg + 1, sm_branch := sm_branch s + 1 \<rparr>)"
    have "sip_mod_inv s3" unfolding s3_def Let_def using i by (intro t c set_fields_inv)
    moreover have "classify_invite msg s =
        (if application_driven s3 then
           (None, if \<not> sm_offer_pending s3 \<and> sf_state (sm_fsm s3) = Ready
             then emit_event SIP_EV_OFFERED 0
               (s3\<lparr> sm_cid_counter := sm_cid_counter s3 + 1, sm_cid := sm_cid_counter s3 + 1, sm_offer_pending := True \<rparr>) else s3)
         else (Some (RxInvite (sm_auto_answer s3)), s3))"
      unfolding classify_invite_def Some option.case s3_def Let_def by (rule refl)
    ultimately show ?thesis by (auto intro!: emit_event_inv o)
  qed
qed

lemma classify_response_inv: "sip_mod_inv s \<Longrightarrow> sip_mod_inv (snd (classify_response code msg s))"
  unfolding classify_response_def Let_def snd_conv
  by (auto intro!: emit_event_inv set_fields_inv split: option.split)

lemma classify_inv: "sip_mod_inv s \<Longrightarrow> sip_mod_inv (snd (classify_and_extract msg s))"
  by (auto simp: classify_and_extract_def Let_def intro!: classify_invite_inv classify_response_inv emit_event_inv)

lemma handle_command_inv: "sip_mod_inv s \<Longrightarrow> sip_mod_inv (handle_command en now cmd s)"
  using sip_new_inv
  by (auto simp: handle_command_def Let_def media_stop_def
      intro!: sip_drive_inv sip_flush_inv build_refusal_inv emit_event_inv queue_rtp_ctrl_inv set_fields_inv)

lemma sip_timer_inv: "sip_mod_inv s \<Longrightarrow> sip_mod_inv (sip_timer en now s)"
proof -
  assume i: "sip_mod_inv s"
  then have "sip_inv (snd (sip_on_event (sm_fsm s) Timeout))"
    using sip_step_inv [of "sm_fsm s" "OnEvent Timeout"] by (simp add: sip_step_def sip_mod_inv_def)
  with i show ?thesis
    by (auto simp: sip_timer_def Let_def split: prod.split intro!: sip_apply_inv emit_event_inv set_fields_inv)
qed

lemma sip_receive_inv: "sip_mod_inv s \<Longrightarrow> sip_mod_inv (sip_receive en now ep data s)"
  using classify_inv [of s "take SIP_RX_BUF_SIZE data"]
  by (auto simp: sip_receive_def split: prod.split option.split intro!: sip_drive_inv)

lemma step_sip_inv: "sip_mod_inv s \<Longrightarrow> sip_mod_inv (step_sip en i s)"
proof -
  assume inv: "sip_mod_inv s"
  have b: "sip_mod_inv (case chan_write en (NetBind p) s of (ok, s) \<Rightarrow> if ok then s\<lparr> sm_bound := True \<rparr> else s)" for p
    using inv by (auto simp: chan_write_def Let_def intro!: set_fields_inv)
  have t: "sip_mod_inv s'" if "sip_trigger en now s = Some s'" for now s'
    using that inv by (auto simp: sip_trigger_def split: sip_state.splits intro!: sip_drive_inv set_fields_inv)
  have r: "sip_mod_inv (let s = sip_timer en now s in if \<not> sm_net_in s then s
      else (case si_net i of Some (NetRxFrom ep data) \<Rightarrow> sip_receive en now ep data s | _ \<Rightarrow> s))" for now
    using sip_timer_inv [OF inv] by (auto simp: Let_def split: option.split sip_net.split intro!: sip_receive_inv)
  show ?thesis
    unfolding step_sip_def using inv b r t
    by (auto intro!: set_fields_inv handle_command_inv split: option.split sip_net.split if_splits)
qed

lemma sip_module_step_inv: "sip_mod_inv s \<Longrightarrow> sip_mod_inv (sip_module_step en i s)"
  by (auto simp: sip_module_step_def intro!: flush_event_inv flush_rtp_ctrl_inv sip_flush_inv step_sip_inv)

interpretation sipmod: machine_inv "\<lambda>s i. ((), sip_module_step en i s)" sip_mod_inv for en
  by unfold_locales (simp add: sip_module_step_inv)

text \<open>A module as it is set up: ports and addresses as configured, everything else as \<open>init\<close> leaves it.\<close>

definition sip_mod_fresh :: "sip_mod \<Rightarrow> bool" where
  "sip_mod_fresh s \<longleftrightarrow> sm_tx_buf s = replicate SIP_TX_BUF_SIZE 0 \<and> sm_tx_len s = 0 \<and> sm_call_id s = [] \<and> sm_ctrl_queue s = [] \<and>
     sm_fsm s = sip_new \<and> \<not> sm_event_owed s \<and> sm_log s = []"

lemma fresh_inv: "sip_mod_fresh s \<Longrightarrow> sip_mod_inv s"
  using sip_new_inv by (simp add: sip_mod_fresh_def sip_mod_inv_def staged_def)

text \<open>C38. Whatever commands, triggers, datagrams and timeouts a module is given and whatever its channels refuse, every datagram it
  writes is one whole message of a dialogue, never a cut one and never one mixed with an earlier message of the buffer;
  its events and control records have their full length.\<close>

theorem sip_sends_whole_messages:
  assumes "sip_mod_fresh s" and "(w, ok) \<in> set (sm_log (snd (run (\<lambda>s i. ((), sip_module_step en i s)) s inputs)))"
  shows "case w of NetSend ep ip port data \<Rightarrow> whole_message data | EventMsg b \<Rightarrow> length b = SIP_EVENT_HDR | CtrlMsg b \<Rightarrow> length b = 8
    | NetBind p \<Rightarrow> True"
proof -
  have "sip_mod_inv (snd (run (\<lambda>s i. ((), sip_module_step en i s)) s inputs))"
    using sipmod.run_inv [OF fresh_inv [OF assms(1)]] .
  then have "write_ok (w, ok)" using assms(2) by (auto simp: sip_mod_inv_def list_all_iff)
  then show ?thesis by (auto simp: write_ok_def split: sip_write.split)
qed

definition demo_mod :: sip_mod where
  "demo_mod = sip_mod_init\<lparr> sm_net_out := True, sm_call_ctrl_in := True, sm_active := True, sm_bound := True, sm_ep_id := 1,
     sm_local_ip := 0x0A000001, sm_peer_ip := 0x0A000002 \<rparr>"

definition demo_input :: sip_input where
  "demo_input = \<lparr> si_now = 0, si_command = None, si_trigger = True, si_net = None \<rparr>"

theorem sip_sends_whole_messages_witness:
  "\<exists>data. (NetSend 1 0x0A000002 5060 data, True) \<in>
     set (sm_log (snd (run (\<lambda>s i. ((), sip_module_step \<lparr> en_overhead = 11, en_accepts = \<lambda>_ _. True \<rparr> i s)) demo_mod [demo_input]))) \<and> whole_message data"
proof -
  let ?en = "\<lparr> en_overhead = 11, en_accepts = \<lambda>_ _. True \<rparr>"
  have fresh: "sip_mod_fresh demo_mod" by (simp add: sip_mod_fresh_def demo_mod_def sip_mod_init_def)
  define s1 where "s1 = (place_call demo_mod)\<lparr> sm_fsm := \<lparr> sf_state = Inviting, sf_retransmit_count = 0 \<rparr> \<rparr>"
  define t where "t = sip_text SendInvite (dialog_of s1)"
  have s1: "length (sm_tx_buf s1) = SIP_TX_BUF_SIZE" "length (sm_call_id s1) \<le> CALL_ID_SIZE" "sm_log s1 = []"
    by (simp_all add: s1_def place_call_def demo_mod_def sip_mod_init_def write_hex16_def Let_def)
  have b: "sip_build SendInvite s1 = s1\<lparr> sm_tx_buf := blit 0 t (sm_tx_buf s1), sm_tx_len := length t \<rparr>" and l: "length t \<le> 512"
    using sip_build_text [OF s1(1,2), of SendInvite] by (simp_all add: t_def)
  have ne: "t \<noteq> []" by (simp add: t_def sip_text_def sdp_message_def ascii_def)
  have fsm: "sip_on_event (sm_fsm (place_call demo_mod)) LocalInvite = (sip_out_send SendInvite, \<lparr> sf_state = Inviting, sf_retransmit_count = 0 \<rparr>)"
    by (simp add: place_call_def demo_mod_def sip_mod_init_def sip_new_def sip_on_event_def)
  have step: "step_sip ?en demo_input demo_mod = sip_apply ?en 0 (sip_out_send SendInvite) s1"
    using fsm by (simp add: step_sip_def known_command_def sip_trigger_def sip_drive_def demo_mod_def sip_mod_init_def demo_input_def sip_new_def s1_def)
  have f: "sip_flush ?en ((sip_build SendInvite s1)\<lparr> sm_tx_pending := True \<rparr>) =
      s1\<lparr> sm_tx_buf := blit 0 t (sm_tx_buf s1), sm_tx_len := length t, sm_tx_pending := False,
         sm_log := [(NetSend 1 0x0A000002 5060 t, True)] \<rparr>"
    using l ne s1 unfolding b
    by (simp add: sip_flush_def chan_write_def Let_def take_blit_whole) (simp add: s1_def place_call_def demo_mod_def sip_mod_init_def)
  have "sm_log (sip_module_step ?en demo_input demo_mod) = [(NetSend 1 0x0A000002 5060 t, True)]"
    unfolding sip_module_step_def step sip_apply_def Let_def
    by (simp add: sip_out_send_def f) (simp add: demo_mod_def sip_mod_init_def sip_flush_def flush_rtp_ctrl.simps flush_event_def s1_def place_call_def)
  then have m: "(NetSend 1 0x0A000002 5060 t, True) \<in> set (sm_log (snd (run (\<lambda>s i. ((), sip_module_step ?en i s)) demo_mod [demo_input])))"
    by simp
  show ?thesis using sip_sends_whole_messages [OF fresh m] m by auto
qed

section \<open>Two modules and a call\<close>

text \<open>A state without what a step leaves behind in the channels and the timer.\<close>

definition settled :: "sip_mod \<Rightarrow> sip_mod" where
  "settled s = s\<lparr> sm_log := [], sm_tx_pending := False, sm_ctrl_queue := [], sm_last_retransmit_ms := 0 \<rparr>"

lemma settled_sets [simp]:
  "settled (s\<lparr> sm_tx_pending := p \<rparr>) = settled s" "settled (s\<lparr> sm_ctrl_queue := q \<rparr>) = settled s"
  "settled (s\<lparr> sm_last_retransmit_ms := t \<rparr>) = settled s" "settled (s\<lparr> sm_log := l \<rparr>) = settled s"
  by (simp_all add: settled_def)

lemma settled_flush [simp]: "settled (sip_flush en s) = settled s"
  by (simp add: sip_flush_def chan_write_def Let_def)

lemma settled_flush_ctrl [simp]: "settled (flush_rtp_ctrl en s) = settled s"
proof (induction en s rule: flush_rtp_ctrl.induct)
  case (1 en s)
  show ?case
  proof (cases "sm_ctrl_queue s")
    case Nil
    then show ?thesis by (simp add: flush_rtp_ctrl.simps)
  next
    case (Cons cmd rest)
    obtain ok s' where r: "send_rtp_ctrl en cmd s = (ok, s')" by (cases "send_rtp_ctrl en cmd s")
    then have s': "settled s' = settled s" by (auto simp: send_rtp_ctrl_def chan_write_def Let_def split: if_splits)
    show ?thesis
    proof (cases ok)
      case True
      then have "flush_rtp_ctrl en s = flush_rtp_ctrl en (s'\<lparr> sm_ctrl_queue := rest \<rparr>)" using Cons r by (simp add: flush_rtp_ctrl.simps [of en s])
      then show ?thesis using 1 Cons r True s' by simp
    next
      case False
      then show ?thesis using Cons r s' by (simp add: flush_rtp_ctrl.simps [of en s])
    qed
  qed
qed

lemma settled_queue [simp]: "settled (queue_rtp_ctrl en cmd s) = settled s"
  by (simp add: queue_rtp_ctrl_def)

lemma settled_apply:
  "settled (sip_apply en now step s) = settled (case so_send step of None \<Rightarrow> s | Some msg \<Rightarrow> sip_build msg s)"
  by (simp add: sip_apply_def Let_def media_start_def media_stop_def split: option.split media_cmd.split)

lemma settled_fields:
  assumes "settled s' = settled s"
  shows "sm_fsm s' = sm_fsm s" "sm_peer_rtp_ip s' = sm_peer_rtp_ip s" "sm_peer_rtp_port s' = sm_peer_rtp_port s" "staged s' = staged s"
    "sm_ep_id s' = sm_ep_id s"
  using arg_cong [OF assms, of sm_fsm] arg_cong [OF assms, of sm_peer_rtp_ip] arg_cong [OF assms, of sm_peer_rtp_port]
    arg_cong [OF assms, of sm_tx_buf] arg_cong [OF assms, of sm_tx_len] arg_cong [OF assms, of sm_ep_id]
  by (simp_all add: settled_def staged_def)

text \<open>The state after the machine was given an event that makes it send a message.\<close>

lemma drive_sends:
  assumes "sip_mod_inv s" and "sip_on_event (sm_fsm s) ev = (step, f)" and "so_send step = Some msg" and "msg \<noteq> Retransmit" and "sip_inv f"
  shows "sm_fsm (sip_drive en now ev s) = f \<and> sm_peer_rtp_ip (sip_drive en now ev s) = sm_peer_rtp_ip s \<and>
    sm_peer_rtp_port (sip_drive en now ev s) = sm_peer_rtp_port s \<and> sm_ep_id (sip_drive en now ev s) = sm_ep_id s \<and>
    staged (sip_drive en now ev s) = sip_text msg (dialog_of s)"
proof -
  let ?s = "s\<lparr> sm_fsm := f \<rparr>"
  have i: "sip_mod_inv ?s" using assms(1,5) by (rule set_fields_inv)
  have d: "sip_drive en now ev s = sip_apply en now step ?s" using assms(2) by (simp add: sip_drive_def)
  have a: "settled (sip_drive en now ev s) = settled (sip_build msg ?s)" using settled_apply [of en now step ?s] assms(3) d by simp
  have b: "sip_build msg ?s = ?s\<lparr> sm_tx_buf := sm_tx_buf (sip_build msg ?s), sm_tx_len := sm_tx_len (sip_build msg ?s) \<rparr>"
    using sip_build_text [of ?s msg] i assms(4) by (simp add: sip_mod_inv_def)
  have "dialog_of ?s = dialog_of s" by (simp add: dialog_of_def)
  then have "staged (sip_build msg ?s) = sip_text msg (dialog_of s)" using staged_build [OF i assms(4)] by simp
  moreover have "sm_fsm (sip_build msg ?s) = f" "sm_peer_rtp_ip (sip_build msg ?s) = sm_peer_rtp_ip s"
    "sm_peer_rtp_port (sip_build msg ?s) = sm_peer_rtp_port s" "sm_ep_id (sip_build msg ?s) = sm_ep_id s"
    by (subst b, simp)+
  ultimately show ?thesis using settled_fields [OF a] by simp
qed

lemma write_hex16_text: "write_hex16 v = hex_text v"
  by (simp add: write_hex16_def hex_text_def put_hex16_def Let_def)

lemma call_id_ok_texts: "call_id_ok (hex_text v)" "call_id_ok c \<Longrightarrow> call_id_ok (take n c)"
  using set_take_subset [of n c] by (auto simp: call_id_ok_def)

lemma invite_read:
  assumes "call_id_ok (sd_call_id d)" and "sd_rtp_port d \<noteq> 0" and "sd_local_ip d \<noteq> 0"
  shows "take 7 (sip_text SendInvite d) = ascii ''INVITE ''"
    "parse_sdp_endpoint (sip_text SendInvite d) = Some \<lparr> se_ip = Some (sd_local_ip d), se_port = sd_rtp_port d \<rparr>"
    "find_call_id (sip_text SendInvite d) = Some (sd_call_id d @ [64] @ ip_text (sd_local_ip d))"
    "parse_from_tag (sip_text SendInvite d) = sd_from_tag d"
proof -
  have "call_id_ok (sd_call_id d @ [64] @ ip_text (sd_local_ip d))" using assms(1) by (rule call_id_ok_at_host)
  then have host: "13 \<notin> set (sd_call_id d @ [64] @ ip_text (sd_local_ip d))" "10 \<notin> set (sd_call_id d @ [64] @ ip_text (sd_local_ip d))"
    "61 \<notin> set (sd_call_id d @ [64] @ ip_text (sd_local_ip d))" unfolding call_id_ok_def by blast+
  have t: "sip_text SendInvite d = invite_head d @ dialog_fields (sd_local_ip d) (sd_from_tag d) (sd_peer_ip d) 0
      (sd_call_id d @ [64] @ ip_text (sd_local_ip d)) (call_rest (sd_cseq d) (sd_local_ip d) (sd_local_port d) (sd_rtp_port d))"
    by (simp only: sip_text_def sip_send.case invite_text)
  show "take 7 (sip_text SendInvite d) = ascii ''INVITE ''" unfolding t by (simp add: invite_head_def ascii_def)
  show "parse_sdp_endpoint (sip_text SendInvite d) = Some \<lparr> se_ip = Some (sd_local_ip d), se_port = sd_rtp_port d \<rparr>"
    unfolding t endpoint_read [OF quiet_heads(1) host(3) assms(2)] using assms(3) by simp
  show "find_call_id (sip_text SendInvite d) = Some (sd_call_id d @ [64] @ ip_text (sd_local_ip d))"
    unfolding t by (rule call_id_read [OF quiet_heads(1) host(1,2)])
  show "parse_from_tag (sip_text SendInvite d) = sd_from_tag d" unfolding t by (rule from_tag_read [OF quiet_heads(1)])
qed

lemma answer_read:
  assumes "call_id_ok (sd_call_id d)" and "sd_rtp_port d \<noteq> 0" and "sd_local_ip d \<noteq> 0" and "sd_from_tag d \<noteq> 0"
  shows "take 7 (sip_text SendOk d) \<noteq> ascii ''INVITE ''" "take 4 (sip_text SendOk d) \<noteq> ascii ''ACK ''" "take 4 (sip_text SendOk d) \<noteq> ascii ''BYE ''"
    "parse_status_code (sip_text SendOk d) = 200" "parse_from_tag (sip_text SendOk d) = sd_to_tag d"
    "parse_sdp_endpoint (sip_text SendOk d) = Some \<lparr> se_ip = Some (sd_local_ip d), se_port = sd_rtp_port d \<rparr>"
proof -
  have t: "sip_text SendOk d = answer_head d @ dialog_fields (sd_peer_ip d) (sd_to_tag d) (sd_local_ip d) (sd_from_tag d) (sd_call_id d)
      (call_rest (sd_cseq d) (sd_local_ip d) (sd_local_port d) (sd_rtp_port d))"
    by (simp only: sip_text_def sip_send.case answer_text [OF assms(4)])
  have eq: "61 \<notin> set (sd_call_id d)" using assms(1) by (simp add: call_id_ok_def)
  show "take 7 (sip_text SendOk d) \<noteq> ascii ''INVITE ''" "take 4 (sip_text SendOk d) \<noteq> ascii ''ACK ''" "take 4 (sip_text SendOk d) \<noteq> ascii ''BYE ''"
    unfolding t by (simp_all add: answer_head_def ascii_def)
  show "parse_status_code (sip_text SendOk d) = 200"
    unfolding t by (simp add: parse_status_code_def answer_head_def ascii_def bslice_def is_ascii_digit_def)
  show "parse_from_tag (sip_text SendOk d) = sd_to_tag d" unfolding t by (rule from_tag_read [OF quiet_heads(2)])
  show "parse_sdp_endpoint (sip_text SendOk d) = Some \<lparr> se_ip = Some (sd_local_ip d), se_port = sd_rtp_port d \<rparr>"
    unfolding t endpoint_read [OF quiet_heads(2) eq assms(2)] using assms(3) by simp
qed

lemma ack_read: "take 7 (sip_text SendAck d) \<noteq> ascii ''INVITE ''" "take 4 (sip_text SendAck d) = ascii ''ACK ''"
  by (simp_all add: sip_text_def request_pieces_def ascii_def)

lemma text_fits:
  assumes "length (sd_call_id d) \<le> CALL_ID_SIZE"
  shows "take SIP_RX_BUF_SIZE (sip_text msg d) = sip_text msg d"
  using message_lengths [OF assms] by (cases msg) (simp_all add: sip_text_def)

lemma text_nonempty: "msg \<noteq> Retransmit \<Longrightarrow> sip_text msg d \<noteq> []"
  by (cases msg) (simp_all add: sip_text_def sdp_message_def request_pieces_def bye_ok_pieces_def ascii_def)

lemma receive_message:
  assumes "length (sd_call_id d) \<le> CALL_ID_SIZE" and "msg \<noteq> Retransmit" and "classify_and_extract (sip_text msg d) s = (Some ev, s')"
  shows "sip_receive en now (sm_ep_id s) (sip_text msg d) s = sip_drive en now ev s'"
  using assms by (simp add: sip_receive_def text_fits text_nonempty)

lemma emit_event_fields [simp]:
  "sm_fsm (emit_event ev code s) = sm_fsm s" "sm_peer_rtp_ip (emit_event ev code s) = sm_peer_rtp_ip s"
  "sm_peer_rtp_port (emit_event ev code s) = sm_peer_rtp_port s" "sm_ep_id (emit_event ev code s) = sm_ep_id s"
  "dialog_of (emit_event ev code s) = dialog_of s"
  by (simp_all add: emit_event_def dialog_of_def Let_def split: prod.split option.split)

text \<open>The caller's side: the call is placed.\<close>

lemma caller_invites:
  assumes "sip_mod_inv a" and "sf_state (sm_fsm a) = Ready" and a1_def: "a1 = sip_drive en t LocalInvite (place_call a)"
  shows "sf_state (sm_fsm a1) = Inviting" "staged a1 = sip_text SendInvite (dialog_of (place_call a))" "sip_mod_inv a1"
proof -
  have i: "sip_mod_inv (place_call a)" using assms(1) by (rule set_fields_inv)
  have f: "sm_fsm (place_call a) = sm_fsm a" by (simp add: place_call_def)
  have e: "sip_on_event (sm_fsm (place_call a)) LocalInvite = (sip_out_send SendInvite, (sm_fsm a)\<lparr> sf_retransmit_count := 0, sf_state := Inviting \<rparr>)"
    unfolding f using assms(2) by (simp add: sip_on_event_def)
  have "sip_inv ((sm_fsm a)\<lparr> sf_retransmit_count := 0, sf_state := Inviting \<rparr>)" by (simp add: sip_inv_def)
  with drive_sends [OF i e, of SendInvite en t]
  show "sf_state (sm_fsm a1) = Inviting" "staged a1 = sip_text SendInvite (dialog_of (place_call a))"
    unfolding a1_def by (simp_all add: sip_out_send_def)
  show "sip_mod_inv a1" unfolding a1_def using i by (rule sip_drive_inv)
qed

text \<open>The callee's side: the INVITE is answered.\<close>

lemma callee_answers:
  assumes "sip_mod_inv b" and "sf_state (sm_fsm b) = Ready" and "sm_auto_answer b" and "\<not> sm_command_in b"
    and d: "call_id_ok (sd_call_id d)" "length (sd_call_id d) \<le> CALL_ID_SIZE" "sd_rtp_port d \<noteq> 0" "sd_local_ip d \<noteq> 0"
    and b1: "b1 = sip_receive en t (sm_ep_id b) (sip_text SendInvite d) b"
  shows "sf_state (sm_fsm b1) = WaitAck" "sm_peer_rtp_ip b1 = sd_local_ip d" "sm_peer_rtp_port b1 = sd_rtp_port d"
    "\<exists>e. staged b1 = sip_text SendOk e \<and> sd_local_ip e = sm_local_ip b \<and> sd_rtp_port e = sm_rtp_port b \<and> sd_from_tag e = sm_from_tag b \<and>
       sd_to_tag e = sd_from_tag d + 1 \<and> call_id_ok (sd_call_id e) \<and> length (sd_call_id e) \<le> CALL_ID_SIZE"
    "sip_mod_inv b1"
proof -
  let ?host = "sd_call_id d @ [64] @ ip_text (sd_local_ip d)" and ?m = "sip_text SendInvite d"
  define b0 where "b0 = (take_endpoint \<lparr> se_ip = Some (sd_local_ip d), se_port = sd_rtp_port d \<rparr> b)
    \<lparr> sm_call_id := take CALL_ID_SIZE ?host, sm_to_tag := sd_from_tag d + 1, sm_branch := sm_branch b + 1 \<rparr>"
  note rd = invite_read [OF d(1,3,4)]
  have "take (min (length ?host) CALL_ID_SIZE) ?host = take CALL_ID_SIZE ?host" by (simp add: min_def)
  then have c: "classify_and_extract ?m b = (Some (RxInvite True), b0)"
    unfolding classify_and_extract_def classify_invite_def rd option.case Let_def
    using assms(3,4) by (simp add: b0_def take_endpoint_def application_driven_def del: append.simps append_Cons)
  have i: "sip_mod_inv b0" using classify_inv [OF assms(1), of ?m] unfolding c by simp
  have f: "sm_fsm b0 = sm_fsm b" "sm_ep_id b0 = sm_ep_id b" by (simp_all add: b0_def take_endpoint_def)
  let ?step = "\<lparr> so_send = Some SendOk, so_media = MediaStart, so_reset_timer = True \<rparr>" and ?f = "(sm_fsm b)\<lparr> sf_retransmit_count := 0, sf_state := WaitAck \<rparr>"
  have e: "sip_on_event (sm_fsm b0) (RxInvite True) = (?step, ?f)" unfolding f using assms(2) by (simp add: sip_on_event_def)
  have r: "b1 = sip_drive en t (RxInvite True) b0" unfolding b1 by (rule receive_message [OF d(2) _ c]) simp
  have "sip_inv ?f" by (simp add: sip_inv_def)
  note g = drive_sends [OF i e, of SendOk en t, folded r, simplified, OF this]
  from g show "sf_state (sm_fsm b1) = WaitAck" "sm_peer_rtp_ip b1 = sd_local_ip d" "sm_peer_rtp_port b1 = sd_rtp_port d"
    by (simp_all add: b0_def take_endpoint_def)
  have "call_id_ok (take CALL_ID_SIZE ?host)" using call_id_ok_texts(2) [OF call_id_ok_at_host [OF d(1)]] .
  with g show "\<exists>e. staged b1 = sip_text SendOk e \<and> sd_local_ip e = sm_local_ip b \<and> sd_rtp_port e = sm_rtp_port b \<and> sd_from_tag e = sm_from_tag b \<and>
       sd_to_tag e = sd_from_tag d + 1 \<and> call_id_ok (sd_call_id e) \<and> length (sd_call_id e) \<le> CALL_ID_SIZE"
    by (intro exI [of _ "dialog_of b0"]) (simp add: dialog_of_def b0_def take_endpoint_def)
  show "sip_mod_inv b1" unfolding r using i by (rule sip_drive_inv)
qed

lemma caller_acks:
  assumes "sip_mod_inv a1" and "sf_state (sm_fsm a1) = Inviting"
    and e: "call_id_ok (sd_call_id e)" "length (sd_call_id e) \<le> CALL_ID_SIZE" "sd_rtp_port e \<noteq> 0" "sd_local_ip e \<noteq> 0" "sd_from_tag e \<noteq> 0"
    and a2: "a2 = sip_receive en t (sm_ep_id a1) (sip_text SendOk e) a1"
  shows "sf_state (sm_fsm a2) = Active" "sm_peer_rtp_ip a2 = sd_local_ip e" "sm_peer_rtp_port a2 = sd_rtp_port e"
    "\<exists>k. staged a2 = sip_text SendAck k \<and> length (sd_call_id k) \<le> CALL_ID_SIZE"
proof -
  let ?m = "sip_text SendOk e"
  define a0 where "a0 = emit_event SIP_EV_ESTABLISHED 200
    ((take_endpoint \<lparr> se_ip = Some (sd_local_ip e), se_port = sd_rtp_port e \<rparr> a1)\<lparr> sm_to_tag := parse_to_tag ?m \<rparr>)"
  note rd = answer_read [OF e(1,3-5)]
  have c: "classify_and_extract ?m a1 = (Some (RxResponse 200), a0)"
    using rd assms(2) by (simp add: classify_and_extract_def classify_response_def a0_def take_endpoint_def Let_def)
  have i: "sip_mod_inv a0" using classify_inv [OF assms(1), of ?m] unfolding c by simp
  have f: "sm_fsm a0 = sm_fsm a1" by (simp add: a0_def take_endpoint_def)
  let ?step = "\<lparr> so_send = Some SendAck, so_media = MediaStart, so_reset_timer = False \<rparr>" and ?f = "(sm_fsm a1)\<lparr> sf_state := Active \<rparr>"
  have ev: "sip_on_event (sm_fsm a0) (RxResponse 200) = (?step, ?f)" unfolding f using assms(2) by (simp add: sip_on_event_def)
  have r: "a2 = sip_drive en t (RxResponse 200) a0" unfolding a2 by (rule receive_message [OF e(2) _ c]) simp
  have "sip_inv ?f" using assms(1) by (simp add: sip_mod_inv_def sip_inv_def)
  note g = drive_sends [OF i ev, of SendAck en t, folded r, simplified, OF this]
  from g show "sf_state (sm_fsm a2) = Active" "sm_peer_rtp_ip a2 = sd_local_ip e" "sm_peer_rtp_port a2 = sd_rtp_port e"
    by (simp_all add: a0_def take_endpoint_def)
  show "\<exists>k. staged a2 = sip_text SendAck k \<and> length (sd_call_id k) \<le> CALL_ID_SIZE"
    using g i by (intro exI [of _ "dialog_of a0"]) (simp add: sip_mod_inv_def)
qed

lemma callee_confirmed:
  assumes "sf_state (sm_fsm b1) = WaitAck" and "length (sd_call_id k) \<le> CALL_ID_SIZE"
    and b2: "b2 = sip_receive en t (sm_ep_id b1) (sip_text SendAck k) b1"
  shows "sf_state (sm_fsm b2) = Active" "sm_peer_rtp_ip b2 = sm_peer_rtp_ip b1" "sm_peer_rtp_port b2 = sm_peer_rtp_port b1"
proof -
  have c: "classify_and_extract (sip_text SendAck k) b1 = (Some RxAck, emit_event SIP_EV_ESTABLISHED 200 b1)"
    using ack_read [of k] assms(1) by (simp add: classify_and_extract_def)
  have r: "b2 = sip_drive en t RxAck (emit_event SIP_EV_ESTABLISHED 200 b1)" unfolding b2 by (rule receive_message [OF assms(2) _ c]) simp
  have "sip_on_event (sm_fsm b1) RxAck = (sip_out_NONE, (sm_fsm b1)\<lparr> sf_state := Active \<rparr>)" using assms(1) by (simp add: sip_on_event_def)
  then have b: "b2 = (emit_event SIP_EV_ESTABLISHED 200 b1)\<lparr> sm_fsm := (sm_fsm b1)\<lparr> sf_state := Active \<rparr> \<rparr>"
    unfolding r by (simp add: sip_drive_def sip_apply_def sip_out_NONE_def)
  show "sf_state (sm_fsm b2) = Active" "sm_peer_rtp_ip b2 = sm_peer_rtp_ip b1" "sm_peer_rtp_port b2 = sm_peer_rtp_port b1"
    unfolding b by simp_all
qed

text \<open>C39. When one module places a call and the other answers by itself, the three messages they stage for each other bring both
  dialogues to Active, each with the other's media address and port, whatever their channels accept meanwhile.\<close>

theorem sip_call_connects_media:
  assumes "sip_mod_inv a" and "sip_mod_inv b" and "sf_state (sm_fsm a) = Ready" and "sf_state (sm_fsm b) = Ready"
    and "sm_auto_answer b" and "\<not> sm_command_in b" and "sm_local_ip a \<noteq> 0" and "sm_rtp_port a \<noteq> 0"
    and "sm_local_ip b \<noteq> 0" and "sm_rtp_port b \<noteq> 0" and "sm_from_tag b \<noteq> 0"
    and "a1 = sip_drive ea t1 LocalInvite (place_call a)" and "b1 = sip_receive eb t2 (sm_ep_id b) (staged a1) b"
    and "a2 = sip_receive ea t3 (sm_ep_id a1) (staged b1) a1" and "b2 = sip_receive eb t4 (sm_ep_id b1) (staged a2) b1"
  shows "sf_state (sm_fsm a2) = Active \<and> sm_peer_rtp_ip a2 = sm_local_ip b \<and> sm_peer_rtp_port a2 = sm_rtp_port b \<and>
    sf_state (sm_fsm b2) = Active \<and> sm_peer_rtp_ip b2 = sm_local_ip a \<and> sm_peer_rtp_port b2 = sm_rtp_port a"
proof -
  let ?d = "dialog_of (place_call a)"
  have d: "call_id_ok (sd_call_id ?d)" "length (sd_call_id ?d) \<le> CALL_ID_SIZE" "sd_local_ip ?d = sm_local_ip a" "sd_rtp_port ?d = sm_rtp_port a"
    by (simp_all add: place_call_def write_hex16_text call_id_ok_texts dialog_of_def)
  note ca = caller_invites [OF assms(1,3,12)]
  have "b1 = sip_receive eb t2 (sm_ep_id b) (sip_text SendInvite ?d) b" using assms(13) ca(2) by simp
  note cb = callee_answers [OF assms(2,4,5,6) d(1,2) _ _ this]
  obtain e where e: "staged b1 = sip_text SendOk e" "sd_local_ip e = sm_local_ip b" "sd_rtp_port e = sm_rtp_port b"
    "sd_from_tag e = sm_from_tag b" "call_id_ok (sd_call_id e)" "length (sd_call_id e) \<le> CALL_ID_SIZE"
    using cb(4) d assms(7,8) by auto
  have "a2 = sip_receive ea t3 (sm_ep_id a1) (sip_text SendOk e) a1" using assms(14) e(1) by simp
  note cc = caller_acks [OF ca(3,1) e(5,6) _ _ _ this]
  obtain k where k: "staged a2 = sip_text SendAck k" "length (sd_call_id k) \<le> CALL_ID_SIZE" using cc(4) e assms(9-11) by auto
  have "b2 = sip_receive eb t4 (sm_ep_id b1) (sip_text SendAck k) b1" using assms(15) k(1) by simp
  note cd = callee_confirmed [OF _ k(2) this]
  show ?thesis using cb(1-3) cc(1-3) cd d e assms(7-11) by simp
qed

theorem sip_call_connects_media_witness:
  "\<exists>a1 b1 a2 b2. a1 = sip_drive \<lparr> en_overhead = 11, en_accepts = \<lambda>_ _. True \<rparr> 0 LocalInvite (place_call demo_mod) \<and>
     b1 = sip_receive \<lparr> en_overhead = 11, en_accepts = \<lambda>_ _. False \<rparr> 5 2 (staged a1)
       (demo_mod\<lparr> sm_local_ip := 0x0A000002, sm_from_tag := 7, sm_ep_id := 2, sm_rtp_port := 6000 \<rparr>) \<and>
     a2 = sip_receive \<lparr> en_overhead = 11, en_accepts = \<lambda>_ _. True \<rparr> 9 (sm_ep_id a1) (staged b1) a1 \<and>
     b2 = sip_receive \<lparr> en_overhead = 11, en_accepts = \<lambda>_ _. False \<rparr> 12 (sm_ep_id b1) (staged a2) b1 \<and>
     sf_state (sm_fsm a2) = Active \<and> sm_peer_rtp_port a2 = 6000 \<and> sf_state (sm_fsm b2) = Active \<and> sm_peer_rtp_ip b2 = 0x0A000001"
proof -
  define eb where "eb = \<lparr> en_overhead = 11, en_accepts = \<lambda>_ _. False \<rparr>"
  define ea where "ea = \<lparr> en_overhead = 11, en_accepts = \<lambda>_ _. True \<rparr>"
  define b where "b = demo_mod\<lparr> sm_local_ip := 0x0A000002, sm_from_tag := 7, sm_ep_id := 2, sm_rtp_port := 6000 \<rparr>"
  define a1 where "a1 = sip_drive ea 0 LocalInvite (place_call demo_mod)"
  define b1 where "b1 = sip_receive eb 5 (sm_ep_id b) (staged a1) b"
  define a2 where "a2 = sip_receive ea 9 (sm_ep_id a1) (staged b1) a1"
  define b2 where "b2 = sip_receive eb 12 (sm_ep_id b1) (staged a2) b1"
  have inv: "sip_mod_inv demo_mod" "sip_mod_inv b"
    by (rule fresh_inv, simp add: b_def sip_mod_fresh_def demo_mod_def sip_mod_init_def)+
  have f: "sf_state (sm_fsm demo_mod) = Ready" "sf_state (sm_fsm b) = Ready" "sm_auto_answer b" "\<not> sm_command_in b" "sm_local_ip demo_mod \<noteq> 0"
    "sm_rtp_port demo_mod \<noteq> 0" "sm_local_ip b \<noteq> 0" "sm_rtp_port b \<noteq> 0" "sm_from_tag b \<noteq> 0"
    by (simp_all add: b_def demo_mod_def sip_mod_init_def sip_new_def)
  have v: "sm_rtp_port b = 6000" "sm_local_ip demo_mod = 0x0A000001" "sm_ep_id b = 2" by (simp_all add: b_def demo_mod_def)
  note r = sip_call_connects_media [OF inv f a1_def b1_def a2_def b2_def]
  show ?thesis
    unfolding ea_def [symmetric] eb_def [symmetric] b_def [symmetric]
    using r v a1_def b1_def a2_def b2_def by metis
qed

section \<open>Where the module departs from what it means\<close>

text \<open>The tag the caller put on its INVITE comes back on the answer with one added.\<close>

lemma answer_from_tag_shifted:
  assumes "sip_mod_inv b" and "sf_state (sm_fsm b) = Ready" and "sm_auto_answer b" and "\<not> sm_command_in b"
    and "call_id_ok (sd_call_id d)" and "length (sd_call_id d) \<le> CALL_ID_SIZE" and "sd_rtp_port d \<noteq> 0" and "sd_local_ip d \<noteq> 0"
    and "sm_from_tag b \<noteq> 0" and "sm_local_ip b \<noteq> 0" and "sm_rtp_port b \<noteq> 0"
  shows "parse_from_tag (staged (sip_receive en t (sm_ep_id b) (sip_text SendInvite d) b)) = parse_from_tag (sip_text SendInvite d) + 1"
proof -
  obtain e where "staged (sip_receive en t (sm_ep_id b) (sip_text SendInvite d) b) = sip_text SendOk e" "sd_local_ip e = sm_local_ip b"
    "sd_rtp_port e = sm_rtp_port b" "sd_from_tag e = sm_from_tag b" "sd_to_tag e = sd_from_tag d + 1" "call_id_ok (sd_call_id e)"
    using callee_answers(4) [OF assms(1-8) refl, of en t] by blast
  then show ?thesis using answer_read(5) [of e] invite_read(4) [of d] assms by simp
qed

text \<open>A hang-up that arrives while another event still waits for its channel ends the call without being reported.\<close>

lemma hangup_not_reported:
  assumes "sm_event_owed s" and "take 4 msg = ascii ''BYE ''"
  shows "classify_and_extract msg s = (Some RxBye, s)"
proof -
  have "take 7 msg \<noteq> ascii ''INVITE ''"
  proof
    assume "take 7 msg = ascii ''INVITE ''"
    then have "take 4 (take 7 msg) = take 4 (ascii ''INVITE '')" by simp
    then show False using assms(2) by (simp add: ascii_def)
  qed
  moreover have "take 4 msg \<noteq> ascii ''ACK ''" unfolding assms(2) by (simp add: ascii_def)
  ultimately show ?thesis using assms by (simp add: classify_and_extract_def emit_event_def)
qed

text \<open>A control command that finds four waiting is dropped.\<close>

lemma control_command_dropped:
  assumes "length (sm_ctrl_queue s) = CTRL_QUEUE" and "sm_rtp_ctrl_out s"
  shows "queue_rtp_ctrl en cmd s = flush_rtp_ctrl en s"
  using assms by (simp add: queue_rtp_ctrl_def)

end
