(* ===== verification/Spec2Isabelle.thy ===== *)
theory Spec2Isabelle
  imports Text_Codecs Ws_Frame Sframe Jitter Stun_Txn Turn Route_Key
    Mime Smtp_Submission Qpack H1_Head Http_Frames Rfc5322 Srtp Rtcp Rtp_Payload Sigv4 Sip_Module
begin

text \<open>
  Verification of the protocol cores of Wave, the application-protocol layer of a no-allocation
  module system: codecs and state machines under \<open>src/modules/common/\<close> and
  \<open>src/modules/foundation/http/wire/\<close>, each shared by the modules under \<open>src/modules/foundation/\<close> that
  pump bytes between channels and these cores. Two of those modules, the SMTP submission and the SIP
  dialogue, are modelled themselves.

  \<^bold>\<open>How the code is read.\<close> A Rust function over \<open>&[u8]\<close> is a function on \<open>bytes\<close>; one that fills an
  \<open>out: &mut [u8]\<close> is a \<open>writer\<close>, which returns its result together with the whole output buffer, so
  that what a failed write leaves behind is visible; \<open>Option\<close> is \<open>option\<close>, \<open>Result\<close> a sum, and a
  slice or index that could panic is an outer \<open>None\<close>. Integers that wrap, shift or compare at a
  width are words of that width; lengths and offsets bounded by a buffer are \<open>nat\<close>. A
  \<open>while\<close> loop is a recursive function with its measure; no definition of the model takes fuel. Loops
  over channel input take the list of what the channel yields.

  \<^bold>\<open>Theories and the code they model.\<close>
  \<^item> \<open>Wave_Prelude\<close>: buffers, slices, byte-order fields, writers, saturating arithmetic, scanning
    loops, and the locales the components interpret: \<open>bounded_put\<close> (a bounded append),
    \<open>record_codec\<close> and \<open>stream_codec\<close> (a writer and a reader that agree on a layout),
    \<open>machine_inv\<close> and \<open>machine_refines\<close> (a step function that keeps an invariant, or implements
    another).
  \<^item> \<open>Text_Codecs\<close>: \<open>utf8_core.rs\<close>, \<open>hex_core.rs\<close>. The validator accepts exactly the encodings of
    scalar-value sequences; hex decodes what it encodes.
  \<^item> \<open>Ws_Frame\<close>: \<open>ws_frame_core.rs\<close> and the framing part of \<open>ws_core.rs\<close>. Frames round-trip, one
    by one and as a stream cut anywhere; masking equals the byte-wise reference.
  \<^item> \<open>Sframe\<close>: \<open>sframe_core.rs\<close>. The replay window refines a memory of all accepted counters;
    headers round-trip; nonces do not repeat.
  \<^item> \<open>Jitter\<close>: \<open>jitter_core.rs\<close>. The ring of slots refines a bounded queue ordered by sequence number.
  \<^item> \<open>Stun\<close>, \<open>Stun_Txn\<close>, \<open>Turn\<close>: \<open>stun_core.rs\<close>, \<open>stun_txn.rs\<close>, \<open>turn_core.rs\<close>, \<open>turn_media.rs\<close>.
    Messages round-trip and verify when signed; readers never panic; the retransmission schedule is
    the one of RFC 5389 whenever the transaction is polled; the long-term key is MD5 (RFC 1321).
  \<^item> \<open>Route_Key\<close>: \<open>http_route_key.rs\<close>. The in-place path scan computes RFC 3986 dot-segment removal;
    authorities canonicalise to a fixed point; sources of the authority agree.
  \<^item> \<open>Huffman\<close>, \<open>Hpack\<close>, \<open>Qpack\<close>: \<open>huffman_core.rs\<close>, \<open>http/wire/hpack.rs\<close>, \<open>http/wire/qpack.rs\<close>.
    Huffman decoding accepts exactly the padded encodings; the decoders read every block a conforming
    encoder writes, never past the block, and read back what the encoders of this code wrote.
  \<^item> \<open>H1_Body\<close>, \<open>H1_Head\<close>: \<open>http/wire/h1.rs\<close>. A body is decoded alike however it is cut into segments
    and the decoder finishes; the framing of a body is decided from all the field lines of its head (with
    at most one Transfer-Encoding line); a request head is read back as written.
  \<^item> \<open>Http_Frames\<close>: \<open>http/wire/h2.rs\<close>, \<open>http/wire/h3.rs\<close>, \<open>h3_datagram.rs\<close>. Padded payloads are cut
    exactly; HTTP/3 frames and datagrams round-trip over the locale \<open>quic_varint\<close>, which the variable-length
    integers of the code interpret.
  \<^item> \<open>Rfc5322\<close>: \<open>rfc5322.rs\<close>. A header written is scanned and unfolded back; a scan that decided does
    not change its mind when more bytes arrive.
  \<^item> \<open>Mime\<close>: \<open>mime.rs\<close>. Quoted-printable is decoded exactly; base64 inverts the encoder of
    \<open>Smtp_Core\<close>; parameters and boundaries are found in range.
  \<^item> \<open>Rtp\<close>, \<open>Rtp_Payload\<close>: \<open>rtp_core.rs\<close>, \<open>rtp_wire.rs\<close>, \<open>rtp_route.rs\<close>, \<open>rtp_pacer.rs\<close>,
    \<open>rtp_congestion.rs\<close>, \<open>rtp_sync.rs\<close>, \<open>rtp_payload.rs\<close>. The header parser accepts exactly the packets
    of RFC 3550; routes resolve to the most specific entry; the pacer does not drift; H.264 units and
    VP8 frames survive packing into packets and unpacking (locale \<open>payload_format\<close>, interpreted for
    both; key units in length-prefixed form are excluded where parameter sets would be repeated).
  \<^item> \<open>Srtp\<close>, \<open>Rtcp\<close>: \<open>srtp_core.rs\<close>, \<open>rtcp_core.rs\<close> and the protection calls of
    \<open>foundation/rtp/mod.rs\<close>. What a sender protects a receiver recovers; the replay window refines a
    memory; compounds of packets of eight bytes and more are cut exactly, reports are read back, reception
    statistics track the packets received.
  \<^item> \<open>Sip_Dialog\<close>, \<open>Sip_Message\<close>, \<open>Sip_Module\<close>: \<open>sip_dialog.rs\<close>, \<open>sip_core.rs\<close>, \<open>sip_wire.rs\<close>,
    \<open>foundation/sip/mod.rs\<close>. Unanswered transactions end and media follow the call; every message fits
    its buffer and is read back as meant; a module sends whole messages only, and two modules that
    exchange the messages of a call end active with each other's media endpoint. The module state is
    the record \<open>sip_mod\<close> and \<open>sip_module_step\<close> composes the operations in the order of the code.
  \<^item> \<open>Smtp_Core\<close>, \<open>Smtp_Wire\<close>: \<open>smtp_core.rs\<close>, \<open>smtp_wire.rs\<close>. A receiver of the stuffed stream
    recovers the message, however it was cut into spans; base64 and AUTH PLAIN are computed exactly; the result record round-trips.
  \<^item> \<open>Smtp_Session\<close>, \<open>Smtp_Submission\<close>: \<open>foundation/smtp/mod.rs\<close>, the whole module. The state is the
    record \<open>smtp_state\<close> with a ghost log of effects; \<open>module_step\<close> composes the operations in the
    order of the code; \<open>smtp_reach\<close> are the states any sequence of steps reaches, and a step that would
    copy past a buffer has no next state. Buffers stay in bounds, provided a full request fits a network
    frame (\<open>smtp_frame_overrun\<close> is what happens otherwise); every submission gets at most one verdict, and a
    verdict of acceptance is final.
  \<^item> \<open>Sigv4\<close>: \<open>sigv4_core.rs\<close>. The canonical request depends on the decoded path and the multiset of
    decoded parameters alone (the insertion sort is a sort); dates read back as the second they were
    written from; signatures cover the whole string to sign.

  \<^bold>\<open>Parameters.\<close> Code of the SDK, which is not part of the repository, is an argument: the digests of
  \<open>Stun\<close>, \<open>Route_Key\<close>, \<open>Srtp\<close> and \<open>Sigv4\<close>, the AES primitives of \<open>Srtp\<close>, the codec numbers of
  \<open>Rtp_Payload\<close>, the exchange records, channels and clock of the SMTP module (record \<open>smtp_env\<close>, and the
  inputs of a step), the datagram frames and channels of the SIP module (record \<open>sip_env\<close>).

  \<^bold>\<open>Not modelled.\<close> AEAD and digest primitives (SDK); zeroing of secrets, which has no observable
  effect; the WebSocket opening handshake; session descriptions of WebRTC (\<open>webrtc_sdp.rs\<close>), the mail
  and key records (\<open>mail_wire.rs\<close>, \<open>dtls_srtp_wire.rs\<close>), \<open>dg_authority.rs\<close>; \<open>http/wire/response.rs\<close> and
  \<open>http/wire/ws.rs\<close>; the HTTP server and client, the WebSocket sessions, the S3 client and server and
  the pumps of the STUN, RTP, RTCP, jitter and mail modules, which move bytes between SDK channels; the
  parameter tables and diagnostic lines of the SIP module; fixtures and load tools.
\<close>

end
